(* ===== verification/Prelude.thy ===== *)
theory Prelude
  imports Main "HOL-Library.Word"
begin

text \<open>
  Shared vocabulary of the development: the outcomes of C++ code that can abort
  (\<open>res\<close>), the two small monads in which the operations are written (\<open>bindR\<close> for
  results, \<open>bindM\<close> for a state threaded through calls that can fail), the
  Hoare-style closure rules that carry invariants through them (collection
  \<open>pres\<close>), and the decimal printing of \<open>std::to_string\<close>.
\<close>

named_theorems pres \<open>operations that preserve a state predicate\<close>

section \<open>Outcomes\<close>

text \<open>
  A debug build of the compiler stops at a failed \<open>assert\<close>, at an
  \<open>llvm_unreachable\<close>, when \<open>std::map::at\<close> throws, at a null dereference and at
  \<open>std::abort\<close>. \<open>Dangling\<close> is an access through a pointer to no object, \<open>UB\<close> an
  operation the C++ standard leaves undefined, and \<open>Diverges\<close> a loop that does not end.
\<close>

datatype error =
    Assert_fail string
  | Unreachable string
  | Out_of_range
  | Null_deref
  | Abort string
  | Dangling
  | UB string
  | Diverges

type_synonym 'a res = "error + 'a"

definition bindR :: "'a res \<Rightarrow> ('a \<Rightarrow> 'b res) \<Rightarrow> 'b res" where
  "bindR m f = (case m of Inl e \<Rightarrow> Inl e | Inr x \<Rightarrow> f x)"

definition guardR :: "bool \<Rightarrow> error \<Rightarrow> unit res" where
  "guardR b e = (if b then Inr () else Inl e)"

text \<open>Reading an entry of a map the C++ way: \<open>.at()\<close> throws on a missing key.\<close>

definition at_map :: "('k \<rightharpoonup> 'v) \<Rightarrow> 'k \<Rightarrow> 'v res" where
  "at_map m k = (case m k of None \<Rightarrow> Inl Out_of_range | Some v \<Rightarrow> Inr v)"

text \<open>Following a pointer to an object of the store.\<close>

definition deref :: "('k \<rightharpoonup> 'v) \<Rightarrow> 'k \<Rightarrow> 'v res" where
  "deref m k = (case m k of None \<Rightarrow> Inl Dangling | Some v \<Rightarrow> Inr v)"

lemma bindR_simps [simp]:
  "bindR (Inr x) f = f x"
  "bindR (Inl e) f = Inl e"
  by (simp_all add: bindR_def)

lemma bindR_Inr_iff [simp]:
  "bindR m f = Inr y \<longleftrightarrow> (\<exists>x. m = Inr x \<and> f x = Inr y)"
  by (cases m) auto

lemma bindR_Inl_iff:
  "bindR m f = Inl e \<longleftrightarrow> m = Inl e \<or> (\<exists>x. m = Inr x \<and> f x = Inl e)"
  by (cases m) auto

lemma bindR_cong [fundef_cong]:
  "m = m' \<Longrightarrow> (\<And>x. m' = Inr x \<Longrightarrow> f x = g x) \<Longrightarrow> bindR m f = bindR m' g"
  by (cases m') auto

lemma bindR_assoc: "bindR (bindR m f) g = bindR m (\<lambda>x. bindR (f x) g)"
  by (cases m) auto

lemma bindR_return [simp]: "bindR m Inr = m"
  by (cases m) auto

lemma guardR_simps [simp]:
  "guardR True e = Inr ()"
  "guardR False e = Inl e"
  by (simp_all add: guardR_def)

lemma guardR_Inr_iff [simp]: "guardR b e = Inr u \<longleftrightarrow> b"
  by (simp add: guardR_def)

lemma at_map_Inr_iff [simp]: "at_map m k = Inr v \<longleftrightarrow> m k = Some v"
  by (simp add: at_map_def split: option.splits)

lemma deref_Inr_iff [simp]: "deref m k = Inr v \<longleftrightarrow> m k = Some v"
  by (simp add: deref_def split: option.splits)

lemma at_map_Some [simp]: "m k = Some v \<Longrightarrow> at_map m k = Inr v"
  by simp

lemma at_map_None [simp]: "m k = None \<Longrightarrow> at_map m k = Inl Out_of_range"
  by (simp add: at_map_def)

lemma deref_Some [simp]: "m k = Some v \<Longrightarrow> deref m k = Inr v"
  by simp

lemma deref_None [simp]: "m k = None \<Longrightarrow> deref m k = Inl Dangling"
  by (simp add: deref_def)

section \<open>State threaded through operations that can fail\<close>

type_synonym ('s, 'a) sm = "'s \<Rightarrow> ('a \<times> 's) res"

definition returnM :: "'a \<Rightarrow> ('s, 'a) sm" where
  "returnM x = (\<lambda>s. Inr (x, s))"

definition bindM :: "('s, 'a) sm \<Rightarrow> ('a \<Rightarrow> ('s, 'b) sm) \<Rightarrow> ('s, 'b) sm" where
  "bindM m f = (\<lambda>s. case m s of Inl e \<Rightarrow> Inl e | Inr (x, s') \<Rightarrow> f x s')"

definition failM :: "error \<Rightarrow> ('s, 'a) sm" where
  "failM e = (\<lambda>s. Inl e)"

definition getM :: "('s \<Rightarrow> 'a) \<Rightarrow> ('s, 'a) sm" where
  "getM f = (\<lambda>s. Inr (f s, s))"

definition modifyM :: "('s \<Rightarrow> 's) \<Rightarrow> ('s, unit) sm" where
  "modifyM f = (\<lambda>s. Inr ((), f s))"

text \<open>A read that can fail, and an update that can fail.\<close>

definition readM :: "('s \<Rightarrow> 'a res) \<Rightarrow> ('s, 'a) sm" where
  "readM f = (\<lambda>s. bindR (f s) (\<lambda>x. Inr (x, s)))"

definition updateM :: "('s \<Rightarrow> 's res) \<Rightarrow> ('s, unit) sm" where
  "updateM f = (\<lambda>s. bindR (f s) (\<lambda>s'. Inr ((), s')))"

text \<open>A result that does not depend on the state.\<close>

definition liftR :: "'a res \<Rightarrow> ('s, 'a) sm" where
  "liftR r = readM (\<lambda>_. r)"

definition guardM :: "bool \<Rightarrow> error \<Rightarrow> ('s, unit) sm" where
  "guardM b e = (if b then returnM () else failM e)"

definition thenM :: "('s, 'a) sm \<Rightarrow> ('s, 'b) sm \<Rightarrow> ('s, 'b) sm" where
  "thenM m k = bindM m (\<lambda>_. k)"

text \<open>A loop over a list whose body changes the state.\<close>

fun forM :: "'a list \<Rightarrow> ('a \<Rightarrow> ('s, unit) sm) \<Rightarrow> ('s, unit) sm" where
  "forM [] f = returnM ()"
| "forM (x # xs) f = thenM (f x) (forM xs f)"

lemmas sm_defs = returnM_def bindM_def failM_def getM_def modifyM_def readM_def
  updateM_def guardM_def thenM_def

lemma bindM_Inr_iff:
  "bindM m f s = Inr (y, t) \<longleftrightarrow> (\<exists>x s'. m s = Inr (x, s') \<and> f x s' = Inr (y, t))"
  by (auto simp: bindM_def split: sum.splits)

lemma bindM_cong [fundef_cong]:
  "m = m' \<Longrightarrow> (\<And>x. f x = g x) \<Longrightarrow> bindM m f = bindM m' g"
  by presburger

lemma bindM_run [simp]:
  "m s = Inr (x, s') \<Longrightarrow> bindM m f s = f x s'"
  "m s = Inl e \<Longrightarrow> bindM m f s = Inl e"
  by (simp_all add: bindM_def)

subsection \<open>Invariants through the monad\<close>

definition preserves :: "('s \<Rightarrow> bool) \<Rightarrow> ('s, 'a) sm \<Rightarrow> bool" where
  "preserves P m \<longleftrightarrow> (\<forall>s x s'. P s \<longrightarrow> m s = Inr (x, s') \<longrightarrow> P s')"

lemma preservesI:
  "(\<And>s x s'. P s \<Longrightarrow> m s = Inr (x, s') \<Longrightarrow> P s') \<Longrightarrow> preserves P m"
  by (auto simp: preserves_def)

lemma preservesD:
  "preserves P m \<Longrightarrow> P s \<Longrightarrow> m s = Inr (x, s') \<Longrightarrow> P s'"
  by (auto simp: preserves_def)

lemma preserves_bindM [pres]:
  "preserves P m \<Longrightarrow> (\<And>x. preserves P (f x)) \<Longrightarrow> preserves P (bindM m f)"
  unfolding preserves_def bindM_Inr_iff by blast

lemma preserves_thenM [pres]:
  "preserves P m \<Longrightarrow> preserves P k \<Longrightarrow> preserves P (thenM m k)"
  by (simp add: thenM_def preserves_bindM)

lemma preserves_returnM [pres]: "preserves P (returnM x)"
  by (simp add: preserves_def returnM_def)

lemma preserves_failM [pres]: "preserves P (failM e)"
  by (simp add: preserves_def failM_def)

lemma preserves_getM [pres]: "preserves P (getM f)"
  by (simp add: preserves_def getM_def)

lemma preserves_readM [pres]: "preserves P (readM f)"
  by (simp add: preserves_def readM_def)

lemma preserves_liftR [pres]: "preserves P (liftR r)"
  by (simp add: liftR_def pres)

lemma preserves_guardM [pres]: "preserves P (guardM b e)"
  by (simp add: guardM_def pres)

lemma preserves_if [pres]:
  "(b \<Longrightarrow> preserves P m) \<Longrightarrow> (\<not> b \<Longrightarrow> preserves P k) \<Longrightarrow> preserves P (if b then m else k)"
  by simp

lemma preserves_option [pres]:
  "(x = None \<Longrightarrow> preserves P m) \<Longrightarrow> (\<And>y. x = Some y \<Longrightarrow> preserves P (f y))
    \<Longrightarrow> preserves P (case x of None \<Rightarrow> m | Some y \<Rightarrow> f y)"
  by (cases x) simp_all

lemma preserves_updateM:
  "(\<And>s s'. P s \<Longrightarrow> f s = Inr s' \<Longrightarrow> P s') \<Longrightarrow> preserves P (updateM f)"
  by (auto simp: preserves_def updateM_def)

lemma preserves_modifyM:
  "(\<And>s. P s \<Longrightarrow> P (f s)) \<Longrightarrow> preserves P (modifyM f)"
  by (auto simp: preserves_def modifyM_def)

lemma preserves_forM [pres]:
  "(\<And>x. x \<in> set xs \<Longrightarrow> preserves P (f x)) \<Longrightarrow> preserves P (forM xs f)"
  by (induction xs) (auto intro!: pres)

section \<open>Decimal printing\<close>

definition digit_char :: "nat \<Rightarrow> char" where
  "digit_char d = char_of (48 + d)"

fun nat_str :: "nat \<Rightarrow> string" where
  "nat_str n = (if n < 10 then [digit_char n] else nat_str (n div 10) @ [digit_char (n mod 10)])"

declare nat_str.simps [simp del]

definition int_str :: "int \<Rightarrow> string" where
  "int_str i = (if i < 0 then CHR ''-'' # nat_str (nat (- i)) else nat_str (nat i))"

lemma digit_char_inj: "d < 10 \<Longrightarrow> e < 10 \<Longrightarrow> digit_char d = digit_char e \<Longrightarrow> d = e"
  by (simp add: digit_char_def char_of_eq_iff take_bit_eq_mod)

lemma nat_str_nonempty [simp]: "nat_str n \<noteq> []"
  by (subst nat_str.simps) simp

lemma nat_str_inj: "nat_str m = nat_str n \<longleftrightarrow> m = n"
proof
  assume "nat_str m = nat_str n"
  then show "m = n"
  proof (induction m arbitrary: n rule: nat_str.induct)
    case (1 m)
    show ?case
    proof (cases "m < 10 \<or> n < 10")
      case True
      with "1.prems" show ?thesis
        by (auto simp: nat_str.simps [of m] nat_str.simps [of n] append_eq_Cons_conv
            Cons_eq_append_conv digit_char_inj split: if_splits)
    next
      case False
      then have "nat_str (m div 10) = nat_str (n div 10)"
        and "digit_char (m mod 10) = digit_char (n mod 10)"
        using "1.prems" by (simp_all add: nat_str.simps [of m] nat_str.simps [of n])
      with False "1.IH" have "m div 10 = n div 10" and "m mod 10 = n mod 10"
        by (auto intro: digit_char_inj)
      then show ?thesis by (metis div_mult_mod_eq)
    qed
  qed
qed simp

end
