(* ===== verification/Types.thy ===== *)
theory Types
  imports Prelude
begin

text \<open>
  The types of the light IR (\<open>include/lightir/Type.hpp\<close>, \<open>src/lightir/Type.cpp\<close>):
  the type objects as a datatype, the checked constructors with their assertions,
  \<open>get_size\<close> at the width of \<open>unsigned\<close>, and printing. The objects are interned by
  \<open>Module\<close>; the theory \<open>TypeTable\<close> shows that comparing the pointers of interned
  types is comparing the values of this datatype.
\<close>

type_synonym u32 = "32 word"

datatype ty =
    VoidTy
  | LabelTy
  | IntegerTy nat
  | FunctionTy ty "ty list"
  | ArrayTy ty u32
  | PointerTy ty
  | FloatTy

datatype type_id =
  VoidTyID | LabelTyID | IntegerTyID | FunctionTyID | ArrayTyID | PointerTyID | FloatTyID

fun get_type_id :: "ty \<Rightarrow> type_id" where
  "get_type_id VoidTy = VoidTyID"
| "get_type_id LabelTy = LabelTyID"
| "get_type_id (IntegerTy _) = IntegerTyID"
| "get_type_id (FunctionTy _ _) = FunctionTyID"
| "get_type_id (ArrayTy _ _) = ArrayTyID"
| "get_type_id (PointerTy _) = PointerTyID"
| "get_type_id FloatTy = FloatTyID"

definition is_void_type :: "ty \<Rightarrow> bool" where "is_void_type t = (get_type_id t = VoidTyID)"
definition is_label_type :: "ty \<Rightarrow> bool" where "is_label_type t = (get_type_id t = LabelTyID)"
definition is_integer_type :: "ty \<Rightarrow> bool" where "is_integer_type t = (get_type_id t = IntegerTyID)"
definition is_function_type :: "ty \<Rightarrow> bool" where "is_function_type t = (get_type_id t = FunctionTyID)"
definition is_array_type :: "ty \<Rightarrow> bool" where "is_array_type t = (get_type_id t = ArrayTyID)"
definition is_pointer_type :: "ty \<Rightarrow> bool" where "is_pointer_type t = (get_type_id t = PointerTyID)"
definition is_float_type :: "ty \<Rightarrow> bool" where "is_float_type t = (get_type_id t = FloatTyID)"

text \<open>\<open>static_cast<IntegerType*>(t)->get_num_bits()\<close>, used after \<open>is_integer_type\<close> only.\<close>

fun get_num_bits :: "ty \<Rightarrow> nat" where
  "get_num_bits (IntegerTy n) = n"
| "get_num_bits _ = 0"

definition is_int1_type :: "ty \<Rightarrow> bool" where
  "is_int1_type t = (is_integer_type t \<and> get_num_bits t = 1)"

definition is_int32_type :: "ty \<Rightarrow> bool" where
  "is_int32_type t = (is_integer_type t \<and> get_num_bits t = 32)"

abbreviation int1_ty :: ty where "int1_ty \<equiv> IntegerTy 1"
abbreviation int32_ty :: ty where "int32_ty \<equiv> IntegerTy 32"

lemmas type_tests = is_void_type_def is_label_type_def is_integer_type_def
  is_function_type_def is_array_type_def is_pointer_type_def is_float_type_def
  is_int1_type_def is_int32_type_def

lemma is_type_iff [simp]:
  "is_void_type t \<longleftrightarrow> t = VoidTy"
  "is_label_type t \<longleftrightarrow> t = LabelTy"
  "is_float_type t \<longleftrightarrow> t = FloatTy"
  "is_int1_type t \<longleftrightarrow> t = int1_ty"
  "is_int32_type t \<longleftrightarrow> t = int32_ty"
  "is_integer_type t \<longleftrightarrow> (\<exists>n. t = IntegerTy n)"
  "is_array_type t \<longleftrightarrow> (\<exists>e n. t = ArrayTy e n)"
  "is_pointer_type t \<longleftrightarrow> (\<exists>e. t = PointerTy e)"
  "is_function_type t \<longleftrightarrow> (\<exists>r ps. t = FunctionTy r ps)"
  by (cases t; simp add: type_tests)+

section \<open>Checked accessors and constructors\<close>

fun get_pointer_element_type :: "ty \<Rightarrow> ty res" where
  "get_pointer_element_type (PointerTy e) = Inr e"
| "get_pointer_element_type _ =
     Inl (Assert_fail ''get_pointer_element_type() called on non-pointer type'')"

fun get_array_element_type :: "ty \<Rightarrow> ty res" where
  "get_array_element_type (ArrayTy e _) = Inr e"
| "get_array_element_type _ =
     Inl (Assert_fail ''get_array_element_type() called on non-array type'')"

lemma get_pointer_element_type_Inr [simp]:
  "get_pointer_element_type t = Inr e \<longleftrightarrow> t = PointerTy e"
  by (cases t) auto

lemma get_array_element_type_Inr [simp]:
  "get_array_element_type t = Inr e \<longleftrightarrow> (\<exists>n. t = ArrayTy e n)"
  by (cases t) auto

definition is_valid_return_type :: "ty \<Rightarrow> bool" where
  "is_valid_return_type t = (is_integer_type t \<or> is_void_type t \<or> is_float_type t)"

definition is_valid_argument_type :: "ty \<Rightarrow> bool" where
  "is_valid_argument_type t = (is_integer_type t \<or> is_pointer_type t \<or> is_float_type t)"

definition is_valid_element_type :: "ty \<Rightarrow> bool" where
  "is_valid_element_type t = (is_integer_type t \<or> is_array_type t \<or> is_float_type t)"

definition FunctionType_ctor :: "ty \<Rightarrow> ty list \<Rightarrow> ty res" where
  "FunctionType_ctor result params =
     bindR (guardR (is_valid_return_type result)
              (Assert_fail ''Invalid return type for function!'')) (\<lambda>_.
     bindR (guardR (list_all is_valid_argument_type params)
              (Assert_fail ''Not a valid type for function argument!'')) (\<lambda>_.
     Inr (FunctionTy result params)))"

definition ArrayType_ctor :: "ty \<Rightarrow> u32 \<Rightarrow> ty res" where
  "ArrayType_ctor elem num_elements =
     bindR (guardR (is_valid_element_type elem)
              (Assert_fail ''Not a valid type for array element!'')) (\<lambda>_.
     Inr (ArrayTy elem num_elements))"

definition PointerType_ctor :: "ty \<Rightarrow> ty res" where
  "PointerType_ctor elem =
     bindR (guardR (get_type_id elem
                \<in> set [IntegerTyID, FloatTyID, ArrayTyID, PointerTyID])
              (Assert_fail ''Not allowed type for pointer'')) (\<lambda>_.
     Inr (PointerTy elem))"

text \<open>The types the constructors can build, from the two integer types of a module.\<close>

fun wf_ty :: "ty \<Rightarrow> bool" where
  "wf_ty VoidTy = True"
| "wf_ty LabelTy = True"
| "wf_ty FloatTy = True"
| "wf_ty (IntegerTy n) = (n = 1 \<or> n = 32)"
| "wf_ty (FunctionTy r ps) = (is_valid_return_type r \<and> wf_ty r \<and>
     list_all (\<lambda>p. is_valid_argument_type p \<and> wf_ty p) ps)"
| "wf_ty (ArrayTy e n) = (is_valid_element_type e \<and> wf_ty e)"
| "wf_ty (PointerTy e) =
     (get_type_id e \<in> {IntegerTyID, FloatTyID, ArrayTyID, PointerTyID} \<and> wf_ty e)"

lemma wf_ty_ctors:
  "FunctionType_ctor r ps = Inr t \<Longrightarrow> wf_ty r \<Longrightarrow> list_all wf_ty ps \<Longrightarrow> wf_ty t"
  "ArrayType_ctor e n = Inr t \<Longrightarrow> wf_ty e \<Longrightarrow> wf_ty t"
  "PointerType_ctor e = Inr t \<Longrightarrow> wf_ty e \<Longrightarrow> wf_ty t"
  by (auto simp: FunctionType_ctor_def ArrayType_ctor_def PointerType_ctor_def list_all_iff)

section \<open>Sizes\<close>

text \<open>
  \<open>unsigned Type::get_size() const\<close>. The product of an array is computed in
  \<open>unsigned\<close>, so it wraps modulo \<open>2\<^sup>3\<^sup>2\<close>.
\<close>

fun get_size :: "ty \<Rightarrow> u32 res" where
  "get_size (IntegerTy n) =
     (if is_int1_type (IntegerTy n) then Inr 1
      else if is_int32_type (IntegerTy n) then Inr 4
      else Inl (Assert_fail ''Type::get_size(): unexpected int type bits''))"
| "get_size (ArrayTy e n) =
     bindR (get_size e) (\<lambda>element_size. Inr (element_size * n))"
| "get_size (PointerTy _) = Inr 8"
| "get_size FloatTy = Inr 4"
| "get_size VoidTy = Inl (Assert_fail ''bad use on get_size()'')"
| "get_size LabelTy = Inl (Assert_fail ''bad use on get_size()'')"
| "get_size (FunctionTy _ _) = Inl (Assert_fail ''bad use on get_size()'')"

text \<open>What a size means: the number of bytes, computed without a bound.\<close>

fun byte_size :: "ty \<Rightarrow> nat" where
  "byte_size (IntegerTy n) = (if n = 1 then 1 else 4)"
| "byte_size (ArrayTy e n) = byte_size e * unat n"
| "byte_size (PointerTy _) = 8"
| "byte_size FloatTy = 4"
| "byte_size _ = 0"

definition sized_ty :: "ty \<Rightarrow> bool" where
  "sized_ty t \<longleftrightarrow> get_type_id t \<in> {IntegerTyID, ArrayTyID, PointerTyID, FloatTyID}"

lemma get_size_mod:
  "wf_ty t \<Longrightarrow> sized_ty t \<Longrightarrow> \<exists>s. get_size t = Inr s \<and> unat s = byte_size t mod 2 ^ 32"
proof (induction t)
  case (ArrayTy e n)
  then have "sized_ty e"
    by (cases e) (auto simp: sized_ty_def is_valid_element_type_def)
  with ArrayTy obtain s where "get_size e = Inr s" and "unat s = byte_size e mod 2 ^ 32"
    by auto
  then show ?case
    by (simp add: unat_word_ariths mod_mult_left_eq)
qed (auto simp: sized_ty_def is_int1_type_def is_int32_type_def type_tests)

lemma get_size_scalar:
  "get_size (PointerTy e) = Inr 8" "get_size FloatTy = Inr 4"
  "get_size int1_ty = Inr 1" "get_size int32_ty = Inr 4"
  by (simp_all add: type_tests)

section \<open>Printing\<close>

definition comma_sep :: "string list \<Rightarrow> string" where
  "comma_sep ss = (case ss of [] \<Rightarrow> [] | s # rest \<Rightarrow> s @ concat (map (\<lambda>t. '', '' @ t) rest))"

fun type_print :: "ty \<Rightarrow> string" where
  "type_print VoidTy = ''void''"
| "type_print LabelTy = ''label''"
| "type_print (IntegerTy n) = ''i'' @ nat_str n"
| "type_print (FunctionTy r ps) =
     type_print r @ '' ('' @ comma_sep (map type_print ps) @ '')''"
| "type_print (PointerTy e) = type_print e @ ''*''"
| "type_print (ArrayTy e n) = ''['' @ nat_str (unat n) @ '' x '' @ type_print e @ '']''"
| "type_print FloatTy = ''float''"

end
