(* ===== verification/TypeTable.thy ===== *)
theory TypeTable
  imports Types
begin

text \<open>
  The type objects of a \<open>Module\<close> and the tables that intern them
  (\<open>src/lightir/Module.cpp\<close>). The rest of the compiler compares types by pointer.
  Here the objects have addresses, the tables are the maps of the class, and the
  main result is that every type value has one address, so that comparing pointers
  is comparing the values of \<open>ty\<close>, which is how every other theory models types.
\<close>

type_synonym tid = nat

datatype tobj =
    TVoid | TLabel | TFloat
  | TInt nat
  | TFunc tid "tid list"
  | TArr tid u32
  | TPtr tid

text \<open>
  \<open>array_map\<close> is keyed by \<open>std::pair<Type*, int>\<close>: the \<open>unsigned\<close> count is
  stored under the \<open>int\<close> with the same 32 bits, so the 32-bit word is the key.
\<close>

record type_table =
  tobjs :: "tid \<rightharpoonup> tobj"
  tnext :: tid
  int1_tid :: tid
  int32_tid :: tid
  label_tid :: tid
  void_tid :: tid
  float32_tid :: tid
  pointer_map :: "tid \<rightharpoonup> tid"
  array_map :: "tid \<times> u32 \<rightharpoonup> tid"
  function_map :: "tid \<times> tid list \<rightharpoonup> tid"

definition Module_ctor :: type_table where
  "Module_ctor = \<lparr> tobjs = [0 \<mapsto> TVoid, 1 \<mapsto> TLabel, 2 \<mapsto> TInt 1, 3 \<mapsto> TInt 32, 4 \<mapsto> TFloat],
     tnext = 5, int1_tid = 2, int32_tid = 3, label_tid = 1, void_tid = 0, float32_tid = 4,
     pointer_map = Map.empty, array_map = Map.empty, function_map = Map.empty \<rparr>"

definition tobj_id :: "tobj \<Rightarrow> type_id" where
  "tobj_id ob = (case ob of TVoid \<Rightarrow> VoidTyID | TLabel \<Rightarrow> LabelTyID | TFloat \<Rightarrow> FloatTyID
     | TInt _ \<Rightarrow> IntegerTyID | TFunc _ _ \<Rightarrow> FunctionTyID | TArr _ _ \<Rightarrow> ArrayTyID
     | TPtr _ \<Rightarrow> PointerTyID)"

definition alloc_type :: "tobj \<Rightarrow> type_table \<Rightarrow> tid \<times> type_table" where
  "alloc_type ob T = (tnext T, T\<lparr>tobjs := (tobjs T)(tnext T \<mapsto> ob), tnext := Suc (tnext T)\<rparr>)"

text \<open>
  The three lookups: find the key, else construct the object (whose constructor
  checks its component types) and record it.
\<close>

definition get_pointer_type :: "tid \<Rightarrow> (type_table, tid) sm" where
  "get_pointer_type c T =
    (case pointer_map T c of
       Some p \<Rightarrow> Inr (p, T)
     | None \<Rightarrow>
         bindR (deref (tobjs T) c) (\<lambda>ob.
         bindR (guardR (tobj_id ob \<in> set [IntegerTyID, FloatTyID, ArrayTyID, PointerTyID])
                  (Assert_fail ''Not allowed type for pointer'')) (\<lambda>_.
         let (p, T') = alloc_type (TPtr c) T
         in Inr (p, T'\<lparr>pointer_map := (pointer_map T')(c \<mapsto> p)\<rparr>))))"

definition get_array_type :: "tid \<Rightarrow> u32 \<Rightarrow> (type_table, tid) sm" where
  "get_array_type c n T =
    (case array_map T (c, n) of
       Some p \<Rightarrow> Inr (p, T)
     | None \<Rightarrow>
         bindR (deref (tobjs T) c) (\<lambda>ob.
         bindR (guardR (tobj_id ob \<in> set [IntegerTyID, ArrayTyID, FloatTyID])
                  (Assert_fail ''Not a valid type for array element!'')) (\<lambda>_.
         let (p, T') = alloc_type (TArr c n) T
         in Inr (p, T'\<lparr>array_map := (array_map T')((c, n) \<mapsto> p)\<rparr>))))"

definition arg_ok :: "type_table \<Rightarrow> tid \<Rightarrow> bool" where
  "arg_ok T p = (case tobjs T p of None \<Rightarrow> False
     | Some ob \<Rightarrow> tobj_id ob \<in> set [IntegerTyID, PointerTyID, FloatTyID])"

definition get_function_type :: "tid \<Rightarrow> tid list \<Rightarrow> (type_table, tid) sm" where
  "get_function_type r ps T =
    (case function_map T (r, ps) of
       Some p \<Rightarrow> Inr (p, T)
     | None \<Rightarrow>
         bindR (deref (tobjs T) r) (\<lambda>ob.
         bindR (guardR (tobj_id ob \<in> set [IntegerTyID, VoidTyID, FloatTyID])
                  (Assert_fail ''Invalid return type for function!'')) (\<lambda>_.
         bindR (guardR (list_all (arg_ok T) ps)
                  (Assert_fail ''Not a valid type for function argument!'')) (\<lambda>_.
         let (p, T') = alloc_type (TFunc r ps) T
         in Inr (p, T'\<lparr>function_map := (function_map T')((r, ps) \<mapsto> p)\<rparr>)))))"

definition get_int32_ptr_type :: "(type_table, tid) sm" where
  "get_int32_ptr_type T = get_pointer_type (int32_tid T) T"

definition get_float_ptr_type :: "(type_table, tid) sm" where
  "get_float_ptr_type T = get_pointer_type (float32_tid T) T"

section \<open>The type a pointer denotes\<close>

inductive denotes :: "type_table \<Rightarrow> tid \<Rightarrow> ty \<Rightarrow> bool" for T where
  "tobjs T a = Some TVoid \<Longrightarrow> denotes T a VoidTy"
| "tobjs T a = Some TLabel \<Longrightarrow> denotes T a LabelTy"
| "tobjs T a = Some TFloat \<Longrightarrow> denotes T a FloatTy"
| "tobjs T a = Some (TInt n) \<Longrightarrow> denotes T a (IntegerTy n)"
| "tobjs T a = Some (TPtr c) \<Longrightarrow> denotes T c e \<Longrightarrow> denotes T a (PointerTy e)"
| "tobjs T a = Some (TArr c n) \<Longrightarrow> denotes T c e \<Longrightarrow> denotes T a (ArrayTy e n)"
| "tobjs T a = Some (TFunc r ps) \<Longrightarrow> denotes T r rt \<Longrightarrow> list_all2 (denotes T) ps ts
    \<Longrightarrow> denotes T a (FunctionTy rt ts)"

inductive_cases denotesE:
  "denotes T a VoidTy" "denotes T a LabelTy" "denotes T a FloatTy"
  "denotes T a (IntegerTy n)" "denotes T a (PointerTy e)" "denotes T a (ArrayTy e n)"
  "denotes T a (FunctionTy rt ts)"

text \<open>
  The invariant of the tables: they hold exactly the composite objects, each under
  its own key, and there is one object of each atomic type.
\<close>

definition interned :: "type_table \<Rightarrow> bool" where
  "interned T \<longleftrightarrow>
     (\<forall>a. tobjs T a \<noteq> None \<longrightarrow> a < tnext T)
   \<and> (\<forall>a c. tobjs T a = Some (TPtr c) \<longleftrightarrow> pointer_map T c = Some a)
   \<and> (\<forall>a c n. tobjs T a = Some (TArr c n) \<longleftrightarrow> array_map T (c, n) = Some a)
   \<and> (\<forall>a r ps. tobjs T a = Some (TFunc r ps) \<longleftrightarrow> function_map T (r, ps) = Some a)
   \<and> (\<forall>a b ob. tobj_id ob \<in> {VoidTyID, LabelTyID, FloatTyID, IntegerTyID}
        \<longrightarrow> tobjs T a = Some ob \<longrightarrow> tobjs T b = Some ob \<longrightarrow> a = b)"

lemma interned_Module_ctor: "interned Module_ctor"
  by (auto simp: interned_def Module_ctor_def tobj_id_def split: if_splits)

lemma internedD:
  assumes "interned T"
  shows "tobjs T a = Some (TPtr c) \<longleftrightarrow> pointer_map T c = Some a"
    and "tobjs T a = Some (TArr c n) \<longleftrightarrow> array_map T (c, n) = Some a"
    and "tobjs T a = Some (TFunc r ps) \<longleftrightarrow> function_map T (r, ps) = Some a"
  using assms unfolding interned_def by blast+

lemma interned_atom_unique:
  "interned T \<Longrightarrow> tobj_id ob \<in> {VoidTyID, LabelTyID, FloatTyID, IntegerTyID}
    \<Longrightarrow> tobjs T a = Some ob \<Longrightarrow> tobjs T b = Some ob \<Longrightarrow> a = b"
  unfolding interned_def by blast

lemma interned_object_unique:
  assumes "interned T" "tobjs T a = Some ob" "tobjs T b = Some ob"
  shows "a = b"
proof (cases "tobj_id ob \<in> {VoidTyID, LabelTyID, FloatTyID, IntegerTyID}")
  case True
  with assms show ?thesis by (blast intro: interned_atom_unique)
next
  case False
  with assms show ?thesis by (cases ob) (auto simp: internedD tobj_id_def)
qed

lemma list_all2_unique_left:
  "list_all2 (\<lambda>x y. R x y \<and> (\<forall>z. R z y \<longrightarrow> x = z)) xs ys \<Longrightarrow> list_all2 R zs ys \<Longrightarrow> xs = zs"
  by (induction xs ys arbitrary: zs rule: list_all2_induct) (auto simp: list_all2_Cons2)

lemma list_all2_unique_right:
  "list_all2 (\<lambda>x y. R x y \<and> (\<forall>z. R x z \<longrightarrow> y = z)) xs ys \<Longrightarrow> list_all2 R xs zs \<Longrightarrow> ys = zs"
  by (induction xs ys arbitrary: zs rule: list_all2_induct) (auto simp: list_all2_Cons1)

lemma denotes_object:
  "denotes T a t \<Longrightarrow> \<exists>ob. tobjs T a = Some ob \<and> (case ob of
       TVoid \<Rightarrow> t = VoidTy | TLabel \<Rightarrow> t = LabelTy | TFloat \<Rightarrow> t = FloatTy
     | TInt n \<Rightarrow> t = IntegerTy n
     | TPtr c \<Rightarrow> (\<exists>e. t = PointerTy e \<and> denotes T c e)
     | TArr c n \<Rightarrow> (\<exists>e. t = ArrayTy e n \<and> denotes T c e)
     | TFunc r ps \<Rightarrow> (\<exists>rt ts. t = FunctionTy rt ts \<and> denotes T r rt \<and> list_all2 (denotes T) ps ts))"
  by (erule denotes.cases; simp)

lemma denotes_inj:
  assumes "interned T"
  shows "denotes T a t \<Longrightarrow> denotes T b t \<Longrightarrow> a = b"
proof (induction arbitrary: b rule: denotes.induct)
  case (7 a r ps rt ts)
  from "7.prems" obtain r' ps' where b: "tobjs T b = Some (TFunc r' ps')"
    and r': "denotes T r' rt" and ps': "list_all2 (denotes T) ps' ts"
    by (rule denotesE(7))
  have "r = r'" using "7.IH"(1) r' by blast
  moreover have "ps = ps'" using "7.IH"(2) ps' by (rule list_all2_unique_left)
  ultimately show ?case using "7.hyps"(1) b assms by (blast intro: interned_object_unique)
next
  case (5 a c e)
  from "5.prems" obtain c' where "tobjs T b = Some (TPtr c')" "denotes T c' e"
    by (rule denotesE(5))
  with 5 assms show ?case by (blast intro: interned_object_unique)
next
  case (6 a c n e)
  from "6.prems" obtain c' where "tobjs T b = Some (TArr c' n)" "denotes T c' e"
    by (rule denotesE(6))
  with 6 assms show ?case by (blast intro: interned_object_unique)
qed (blast elim: denotesE intro: interned_object_unique [OF assms])+

lemma denotes_fun:
  "denotes T a t \<Longrightarrow> denotes T a t' \<Longrightarrow> t = t'"
proof (induction arbitrary: t' rule: denotes.induct)
  case (7 a r ps rt ts)
  from denotes_object [OF "7.prems"] "7.hyps"(1) obtain rt' ts' where t': "t' = FunctionTy rt' ts'"
    and r': "denotes T r rt'" and ps': "list_all2 (denotes T) ps ts'"
    by force
  have "rt = rt'" using "7.IH"(1) r' by blast
  moreover have "ts = ts'" using "7.IH"(2) ps' by (rule list_all2_unique_right)
  ultimately show ?case using t' by simp
next
  case (5 a c e)
  from denotes_object [OF "5.prems"] "5.hyps"(1) obtain e' where "t' = PointerTy e'" "denotes T c e'"
    by auto
  with "5.IH" show ?case by simp
next
  case (6 a c n e)
  from denotes_object [OF "6.prems"] "6.hyps"(1) obtain e' where "t' = ArrayTy e' n" "denotes T c e'"
    by auto
  with "6.IH" show ?case by simp
qed (drule denotes_object; simp)+

lemma denotes_extend:
  "denotes T a t \<Longrightarrow> (\<And>b ob. tobjs T b = Some ob \<Longrightarrow> tobjs T' b = Some ob) \<Longrightarrow> denotes T' a t"
proof (induction rule: denotes.induct)
  case (7 a r ps rt ts)
  from "7.IH"(2) have "list_all2 (denotes T') ps ts"
    by (rule list_all2_mono) (use "7.prems" in blast)
  then show ?case using 7 by (blast intro: denotes.intros)
qed (blast intro: denotes.intros)+

lemma denotes_pointer_iff:
  "tobjs T a = Some (TPtr c) \<Longrightarrow> denotes T a t \<longleftrightarrow> (\<exists>e. t = PointerTy e \<and> denotes T c e)"
  by (auto intro: denotes.intros elim: denotes.cases)

section \<open>Every lookup keeps the invariant and finds the type\<close>

lemma interned_fresh:
  assumes "interned T"
  shows "tobjs T (tnext T) = None" "pointer_map T c \<noteq> Some (tnext T)"
    "array_map T k \<noteq> Some (tnext T)" "function_map T f \<noteq> Some (tnext T)"
proof -
  show *: "tobjs T (tnext T) = None"
    using assms unfolding interned_def by (metis less_irrefl)
  show "pointer_map T c \<noteq> Some (tnext T)" "array_map T k \<noteq> Some (tnext T)"
    "function_map T f \<noteq> Some (tnext T)"
    using assms * unfolding interned_def by (cases k; cases f; metis option.discI)+
qed

lemma get_pointer_type_interned:
  assumes "interned T" and "get_pointer_type c T = Inr (p, T')"
  shows "interned T'"
  using assms interned_fresh [OF assms(1)]
  by (auto simp: get_pointer_type_def alloc_type_def interned_def tobj_id_def less_Suc_eq
      split: option.splits if_splits)

lemma get_array_type_interned:
  assumes "interned T" and "get_array_type c n T = Inr (p, T')"
  shows "interned T'"
  using assms interned_fresh [OF assms(1)]
  by (auto simp: get_array_type_def alloc_type_def interned_def tobj_id_def less_Suc_eq
      split: option.splits if_splits)

lemma get_function_type_interned:
  assumes "interned T" and "get_function_type r ps T = Inr (p, T')"
  shows "interned T'"
  using assms interned_fresh [OF assms(1)]
  by (auto simp: get_function_type_def alloc_type_def interned_def tobj_id_def less_Suc_eq
      split: option.splits if_splits)

lemma denotes_tobj_id: "denotes T a t \<Longrightarrow> \<exists>ob. tobjs T a = Some ob \<and> tobj_id ob = get_type_id t"
  by (erule denotes.cases) (auto simp: tobj_id_def)

lemma alloc_type_extends:
  "interned T \<Longrightarrow> tobjs T b = Some x \<Longrightarrow> ((tobjs T)(tnext T \<mapsto> ob)) b = Some x"
  using interned_fresh(1) by fastforce

lemma get_pointer_type_extends:
  assumes "interned T" "get_pointer_type c T = Inr (p, T')" "denotes T b u"
  shows "denotes T' b u"
  using assms(3) by (rule denotes_extend)
    (use assms alloc_type_extends in \<open>auto simp: get_pointer_type_def alloc_type_def
      split: option.splits if_splits\<close>)



text \<open>C10: a successful \<open>get_pointer_type\<close> keeps the tables interned, returns the one
  pointer that denotes the pointer type, changes the meaning of no other pointer, and
  succeeds exactly when the checked constructor of pointer types does.\<close>

theorem get_pointer_type_refines:
  assumes "interned T" "denotes T c e"
  shows "((\<exists>p T'. get_pointer_type c T = Inr (p, T')) \<longleftrightarrow>
           (pointer_map T c \<noteq> None \<or> PointerType_ctor e = Inr (PointerTy e))) \<and>
         (\<forall>p T'. get_pointer_type c T = Inr (p, T') \<longrightarrow>
           interned T' \<and> denotes T' p (PointerTy e) \<and> (\<forall>b u. denotes T b u \<longrightarrow> denotes T' b u))"
proof (intro conjI allI impI)
  from denotes_tobj_id [OF assms(2)] obtain ob where ob: "tobjs T c = Some ob"
    "tobj_id ob = get_type_id e" by blast
  then show "(\<exists>p T'. get_pointer_type c T = Inr (p, T')) \<longleftrightarrow>
      (pointer_map T c \<noteq> None \<or> PointerType_ctor e = Inr (PointerTy e))"
    by (auto simp: get_pointer_type_def PointerType_ctor_def alloc_type_def guardR_def
        split: option.splits)
next
  fix p T'
  assume g: "get_pointer_type c T = Inr (p, T')"
  have "denotes T' c e" using assms g by (blast intro: get_pointer_type_extends)
  moreover have "tobjs T' p = Some (TPtr c)"
    using g internedD(1) [OF assms(1)]
    by (auto simp: get_pointer_type_def alloc_type_def split: option.splits)
  ultimately show "denotes T' p (PointerTy e)" by (blast intro: denotes.intros)
  show "interned T'" using assms g by (blast intro: get_pointer_type_interned)
  show "denotes T' b u" if "denotes T b u" for b u
    using assms g that by (blast intro: get_pointer_type_extends)
qed

theorem get_pointer_type_refines_witness:
  "\<exists>p T'. get_int32_ptr_type Module_ctor = Inr (p, T') \<and> denotes T' p (PointerTy int32_ty)"
proof -
  have d: "denotes Module_ctor 3 int32_ty"
    by (auto simp: Module_ctor_def intro: denotes.intros)
  obtain p T' where g: "get_pointer_type 3 Module_ctor = Inr (p, T')"
    using get_pointer_type_refines [OF interned_Module_ctor d]
    by (auto simp: PointerType_ctor_def)
  show ?thesis using get_pointer_type_refines [OF interned_Module_ctor d] g
    by (auto simp: get_int32_ptr_type_def Module_ctor_def)
qed

end
