(* ===== verification/Values.thy ===== *)
theory Values
  imports Types
begin

text \<open>
  The object store of the light IR and its use lists: \<open>Value\<close>, \<open>User\<close> and
  \<open>Use\<close> (\<open>include/lightir/Value.hpp\<close>, \<open>User.hpp\<close>, \<open>src/lightir/Value.cpp\<close>,
  \<open>User.cpp\<close>). Every object has an address (\<open>vid\<close>); the store maps addresses to
  the fields of the classes. The central invariant is \<open>use_def_ok\<close>: the use list of
  a value names exactly the operand slots that hold it.
\<close>

type_synonym vid = nat
type_synonym f32 = "32 word"

section \<open>The object store\<close>

text \<open>\<open>Instruction::OpID\<close>, with the names of the source.\<close>

datatype opid =
    O_ret | O_br
  | O_add | O_sub | O_mul | O_sdiv
  | O_fadd | O_fsub | O_fmul | O_fdiv
  | O_alloca | O_load | O_store
  | O_ge | O_gt | O_le | O_lt | O_eq | O_ne
  | O_fge | O_fgt | O_fle | O_flt | O_feq | O_fne
  | O_phi | O_call | O_getelementptr | O_zext | O_fptosi | O_sitofp

text \<open>
  The class of an object, with the fields that only this class has. The concrete
  instruction class is determined by the opcode.
\<close>

datatype vkind =
    K_instr opid "vid option"       \<comment> \<open>\<open>op_id\<close>, \<open>parent\<close>\<close>
  | K_int int                       \<comment> \<open>\<open>ConstantInt::value\<close>\<close>
  | K_fp f32                        \<comment> \<open>\<open>ConstantFP::val\<close>, the bits of the \<open>float\<close>\<close>
  | K_zero
  | K_undef
  | K_array "vid list"              \<comment> \<open>\<open>ConstantArray::const_array\<close>\<close>
  | K_global bool "vid option"      \<comment> \<open>\<open>is_const\<close>, \<open>init_val\<close>\<close>
  | K_arg vid nat                   \<comment> \<open>\<open>parent\<close>, \<open>arg_no\<close>\<close>
  | K_func
  | K_block

type_synonym use_entry = "vid \<times> nat"     \<comment> \<open>\<open>Use\<close>: \<open>val\<close>, \<open>arg_no\<close>\<close>

record val =
  vty :: ty
  vname :: string
  vuses :: "use_entry list"
  vops :: "vid option list"
  vkind :: vkind

record bblock =
  pre_bbs :: "vid list"
  succ_bbs :: "vid list"
  instr_list :: "vid list"
  bparent :: vid

record func =
  basic_blocks :: "vid list"
  arguments :: "vid list"
  seq_cnt :: nat

record ir =
  vals :: "vid \<rightharpoonup> val"
  bbs :: "vid \<rightharpoonup> bblock"
  funcs :: "vid \<rightharpoonup> func"
  next_id :: vid
  function_list :: "vid list"
  global_list :: "vid list"
  cached_int :: "int \<rightharpoonup> vid"
  cached_bool :: "bool \<rightharpoonup> vid"
  cached_float :: "(f32 \<times> vid) list"
  cached_zero :: "ty \<rightharpoonup> vid"
  cached_undef :: "ty \<rightharpoonup> vid"

definition upd_val :: "vid \<Rightarrow> (val \<Rightarrow> val) \<Rightarrow> 'z ir_scheme \<Rightarrow> 'z ir_scheme res" where
  "upd_val v f s = bindR (deref (vals s) v) (\<lambda>r. Inr (s\<lparr>vals := (vals s)(v \<mapsto> f r)\<rparr>))"

section \<open>\<open>Value\<close>\<close>

definition Value_set_name :: "vid \<Rightarrow> string \<Rightarrow> ('z ir_scheme, bool) sm" where
  "Value_set_name v nm s =
     bindR (deref (vals s) v) (\<lambda>r.
       if vname r = '''' then Inr (True, s\<lparr>vals := (vals s)(v \<mapsto> r\<lparr>vname := nm\<rparr>)\<rparr>)
       else Inr (False, s))"

definition add_use :: "vid \<Rightarrow> vid \<Rightarrow> nat \<Rightarrow> 'z ir_scheme \<Rightarrow> 'z ir_scheme res" where
  "add_use v user arg_no = upd_val v (\<lambda>r. r\<lparr>vuses := vuses r @ [(user, arg_no)]\<rparr>)"

definition remove_use :: "vid \<Rightarrow> vid \<Rightarrow> nat \<Rightarrow> 'z ir_scheme \<Rightarrow> 'z ir_scheme res" where
  "remove_use v user arg_no =
     upd_val v (\<lambda>r. r\<lparr>vuses := filter (\<lambda>x. x \<noteq> (user, arg_no)) (vuses r)\<rparr>)"

section \<open>\<open>User\<close>\<close>

definition get_operand :: "'z ir_scheme \<Rightarrow> vid \<Rightarrow> nat \<Rightarrow> vid option res" where
  "get_operand s u i =
     bindR (deref (vals s) u) (\<lambda>r.
       if i < length (vops r) then Inr (vops r ! i) else Inl Out_of_range)"

definition set_operand :: "vid \<Rightarrow> nat \<Rightarrow> vid option \<Rightarrow> 'z ir_scheme \<Rightarrow> 'z ir_scheme res" where
  "set_operand u i v s =
     bindR (deref (vals s) u) (\<lambda>r.
     bindR (guardR (i < length (vops r)) (Assert_fail ''set_operand out of index'')) (\<lambda>_.
     bindR (case vops r ! i of None \<Rightarrow> Inr s | Some old \<Rightarrow> remove_use old u i s) (\<lambda>s1.
     bindR (case v of None \<Rightarrow> Inr s1 | Some new \<Rightarrow> add_use new u i s1) (\<lambda>s2.
     upd_val u (\<lambda>r. r\<lparr>vops := (vops r)[i := v]\<rparr>) s2))))"

definition add_operand :: "vid \<Rightarrow> vid option \<Rightarrow> 'z ir_scheme \<Rightarrow> 'z ir_scheme res" where
  "add_operand u v s =
     (case v of
        None \<Rightarrow> Inl (Assert_fail ''bad use: add_operand(nullptr)'')
      | Some w \<Rightarrow>
          bindR (deref (vals s) u) (\<lambda>r.
          bindR (add_use w u (length (vops r)) s) (\<lambda>s1.
          upd_val u (\<lambda>r. r\<lparr>vops := vops r @ [Some w]\<rparr>) s1)))"

text \<open>The loop of \<open>remove_all_operands\<close>: drop the use of every non-null operand.\<close>

fun drop_uses :: "vid \<Rightarrow> nat \<Rightarrow> vid option list \<Rightarrow> 'z ir_scheme \<Rightarrow> 'z ir_scheme res" where
  "drop_uses u i [] s = Inr s"
| "drop_uses u i (None # ops) s = drop_uses u (Suc i) ops s"
| "drop_uses u i (Some w # ops) s = bindR (remove_use w u i s) (drop_uses u (Suc i) ops)"

definition remove_all_operands :: "vid \<Rightarrow> 'z ir_scheme \<Rightarrow> 'z ir_scheme res" where
  "remove_all_operands u s =
     bindR (deref (vals s) u) (\<lambda>r.
     bindR (drop_uses u 0 (vops r) s) (\<lambda>s1.
     upd_val u (\<lambda>r. r\<lparr>vops := []\<rparr>) s1))"

text \<open>The loop of \<open>remove_operand\<close>: renumber the uses behind the removed index.\<close>

fun shift_uses :: "vid \<Rightarrow> nat \<Rightarrow> vid option list \<Rightarrow> 'z ir_scheme \<Rightarrow> 'z ir_scheme res" where
  "shift_uses u i [] s = Inr s"
| "shift_uses u i (None # ops) s = Inl Null_deref"
| "shift_uses u i (Some w # ops) s =
     bindR (remove_use w u i s) (\<lambda>s1.
     bindR (add_use w u (i - 1) s1) (shift_uses u (Suc i) ops))"

definition remove_operand :: "vid \<Rightarrow> nat \<Rightarrow> 'z ir_scheme \<Rightarrow> 'z ir_scheme res" where
  "remove_operand u idx s =
     bindR (deref (vals s) u) (\<lambda>r.
     bindR (guardR (idx < length (vops r)) (Assert_fail ''remove_operand out of index'')) (\<lambda>_.
     bindR (shift_uses u (Suc idx) (drop (Suc idx) (vops r)) s) (\<lambda>s1.
     bindR (case vops r ! idx of None \<Rightarrow> Inl Null_deref | Some w \<Rightarrow> remove_use w u idx s1) (\<lambda>s2.
     upd_val u (\<lambda>r. r\<lparr>vops := take idx (vops r) @ drop (Suc idx) (vops r)\<rparr>) s2))))"

section \<open>Replacing uses\<close>

text \<open>
  \<open>while (use_list_.size())\<close> redirect the first use. Nothing in the loop itself
  bounds it, so it is a partial function; \<open>Diverges\<close> is the loop that does not end.
\<close>

partial_function (option) rauw_loop ::
  "vid \<Rightarrow> vid option \<Rightarrow> 'z ir_scheme \<Rightarrow> 'z ir_scheme res option" where
  "rauw_loop v nv s =
     (case vals s v of
        None \<Rightarrow> Some (Inl Dangling)
      | Some r \<Rightarrow>
          (case vuses r of
             [] \<Rightarrow> Some (Inr s)
           | x # _ \<Rightarrow>
               (case set_operand (fst x) (snd x) nv s of
                  Inl e \<Rightarrow> Some (Inl e)
                | Inr s' \<Rightarrow> rauw_loop v nv s')))"

declare rauw_loop.simps [code]

definition outcome :: "'a res option \<Rightarrow> 'a res" where
  "outcome x = (case x of None \<Rightarrow> Inl Diverges | Some r \<Rightarrow> r)"

definition replace_all_use_with :: "vid \<Rightarrow> vid option \<Rightarrow> 'z ir_scheme \<Rightarrow> 'z ir_scheme res" where
  "replace_all_use_with v nv s = (if nv = Some v then Inr s else outcome (rauw_loop v nv s))"

text \<open>
  \<open>replace_use_with_if\<close>: the iterator has already moved on when the use is
  redirected, so each entry of the list at the start is visited once.
\<close>

fun replace_if_loop ::
  "(use_entry \<Rightarrow> bool) \<Rightarrow> vid option \<Rightarrow> use_entry list \<Rightarrow> 'z ir_scheme \<Rightarrow> 'z ir_scheme res" where
  "replace_if_loop pred nv [] s = Inr s"
| "replace_if_loop pred nv (x # xs) s =
     (if pred x then bindR (set_operand (fst x) (snd x) nv s) (replace_if_loop pred nv xs)
      else replace_if_loop pred nv xs s)"

definition replace_use_with_if ::
  "vid \<Rightarrow> vid option \<Rightarrow> (use_entry \<Rightarrow> bool) \<Rightarrow> 'z ir_scheme \<Rightarrow> 'z ir_scheme res" where
  "replace_use_with_if v nv pred s =
     (if nv = Some v then Inr s
      else bindR (deref (vals s) v) (\<lambda>r. replace_if_loop pred nv (vuses r) s))"

section \<open>Observations of the store\<close>

definition uses_of :: "'z ir_scheme \<Rightarrow> vid \<Rightarrow> use_entry list" where
  "uses_of s v = (case vals s v of None \<Rightarrow> [] | Some r \<Rightarrow> vuses r)"

definition ops_of :: "'z ir_scheme \<Rightarrow> vid \<Rightarrow> vid option list" where
  "ops_of s u = (case vals s u of None \<Rightarrow> [] | Some r \<Rightarrow> vops r)"

definition operand_at :: "'z ir_scheme \<Rightarrow> vid \<Rightarrow> nat \<Rightarrow> vid option" where
  "operand_at s u i = (if i < length (ops_of s u) then ops_of s u ! i else None)"

text \<open>All the fields of an object but its use list and its operands.\<close>

definition shape :: "'z ir_scheme \<Rightarrow> vid \<Rightarrow> (ty \<times> string \<times> vkind) option" where
  "shape s v = map_option (\<lambda>r. (vty r, vname r, vkind r)) (vals s v)"

text \<open>Two stores that differ in use lists and operands only.\<close>

definition same_but_uses :: "'z ir_scheme \<Rightarrow> 'z ir_scheme \<Rightarrow> bool" where
  "same_but_uses s t \<longleftrightarrow> shape s = shape t \<and> (\<exists>m. t = s\<lparr>vals := m\<rparr>)"

definition use_def_ok :: "'z ir_scheme \<Rightarrow> bool" where
  "use_def_ok s \<longleftrightarrow>
     (\<forall>v. distinct (uses_of s v))
   \<and> (\<forall>v u i. (u, i) \<in> set (uses_of s v) \<longleftrightarrow> operand_at s u i = Some v)
   \<and> (\<forall>u i v. operand_at s u i = Some v \<longrightarrow> v \<in> dom (vals s))"

lemma use_def_okI:
  assumes "\<And>v. distinct (uses_of s v)"
    and "\<And>v u i. (u, i) \<in> set (uses_of s v) \<longleftrightarrow> operand_at s u i = Some v"
    and "\<And>v u i. operand_at s u i = Some v \<Longrightarrow> v \<in> dom (vals s)"
  shows "use_def_ok s"
  using assms unfolding use_def_ok_def by blast

lemma use_def_okD:
  assumes "use_def_ok s"
  shows "distinct (uses_of s v)"
    and "(u, i) \<in> set (uses_of s v) \<longleftrightarrow> operand_at s u i = Some v"
    and "operand_at s u i = Some v \<Longrightarrow> v \<in> dom (vals s)"
  using assms unfolding use_def_ok_def by blast+

lemma dom_vals_shape: "v \<in> dom (vals s) \<longleftrightarrow> shape s v \<noteq> None"
  by (auto simp: shape_def)

lemma shape_dom: "shape s = shape t \<Longrightarrow> dom (vals s) = dom (vals t)"
  by (rule set_eqI) (simp only: dom_vals_shape)

lemma same_but_uses_refl [simp, intro]: "same_but_uses s s"
  unfolding same_but_uses_def by (intro conjI refl exI [of _ "vals s"]) simp

lemma same_but_uses_trans [trans]:
  "same_but_uses s t \<Longrightarrow> same_but_uses t u \<Longrightarrow> same_but_uses s u"
  by (auto simp: same_but_uses_def)

lemma same_but_uses_dom: "same_but_uses s t \<Longrightarrow> dom (vals t) = dom (vals s)"
  unfolding same_but_uses_def by (metis shape_dom)

section \<open>Effects of the operations\<close>

lemma upd_val_Inr_iff [simp]:
  "upd_val v f s = Inr t \<longleftrightarrow> (\<exists>r. vals s v = Some r \<and> t = s\<lparr>vals := (vals s)(v \<mapsto> f r)\<rparr>)"
  by (auto simp: upd_val_def)

lemma remove_use_effect:
  assumes "remove_use v u i s = Inr t"
  shows "v \<in> dom (vals s)" and "same_but_uses s t" and "ops_of t = ops_of s"
    and "uses_of t = (uses_of s)(v := filter (\<lambda>x. x \<noteq> (u, i)) (uses_of s v))"
  using assms
  by (auto simp: remove_use_def same_but_uses_def shape_def ops_of_def uses_of_def fun_eq_iff)

lemma add_use_effect:
  assumes "add_use v u i s = Inr t"
  shows "v \<in> dom (vals s)" and "same_but_uses s t" and "ops_of t = ops_of s"
    and "uses_of t = (uses_of s)(v := uses_of s v @ [(u, i)])"
  using assms
  by (auto simp: add_use_def same_but_uses_def shape_def ops_of_def uses_of_def fun_eq_iff)

lemma upd_ops_effect:
  assumes "upd_val u (\<lambda>r. r\<lparr>vops := g (vops r)\<rparr>) s = Inr t"
  shows "u \<in> dom (vals s)" and "same_but_uses s t" and "uses_of t = uses_of s"
    and "ops_of t = (ops_of s)(u := g (ops_of s u))"
  using assms
  by (auto simp: same_but_uses_def shape_def ops_of_def uses_of_def fun_eq_iff)

lemma remove_use_dom: "remove_use v u i s = Inr t \<Longrightarrow> dom (vals t) = dom (vals s)"
  using remove_use_effect(2) same_but_uses_dom by blast

lemma add_use_dom: "add_use v u i s = Inr t \<Longrightarrow> dom (vals t) = dom (vals s)"
  using add_use_effect(2) same_but_uses_dom by blast

lemma remove_use_total: "v \<in> dom (vals s) \<Longrightarrow> \<exists>t. remove_use v u i s = Inr t"
  by (auto simp: remove_use_def)

lemma add_use_total: "v \<in> dom (vals s) \<Longrightarrow> \<exists>t. add_use v u i s = Inr t"
  by (auto simp: add_use_def)

text \<open>One operand slot after \<open>set_operand\<close>, and the use lists of the other values.\<close>

definition without_use :: "'z ir_scheme \<Rightarrow> vid option \<Rightarrow> use_entry \<Rightarrow> vid \<Rightarrow> use_entry list" where
  "without_use s old x w =
     (if old = Some w then filter (\<lambda>y. y \<noteq> x) (uses_of s w) else uses_of s w)"

lemma set_operand_effect:
  assumes "set_operand u i v s = Inr t"
  shows "i < length (ops_of s u)" and "same_but_uses s t"
    and "ops_of t = (ops_of s)(u := (ops_of s u)[i := v])"
    and "uses_of t w = without_use s (operand_at s u i) (u, i) w @ (if v = Some w then [(u, i)] else [])"
    and "\<And>w. v = Some w \<Longrightarrow> w \<in> dom (vals s)"
proof -
  obtain r s1 s2 where r: "vals s u = Some r" and i: "i < length (vops r)"
    and s1: "(case vops r ! i of None \<Rightarrow> Inr s | Some old \<Rightarrow> remove_use old u i s) = Inr s1"
    and s2: "(case v of None \<Rightarrow> Inr s1 | Some new \<Rightarrow> add_use new u i s1) = Inr s2"
    and t: "upd_val u (\<lambda>r. r\<lparr>vops := (vops r)[i := v]\<rparr>) s2 = Inr t"
    using assms by (auto simp: set_operand_def)
  have ops: "ops_of s u = vops r" and old: "operand_at s u i = vops r ! i"
    using r i by (simp_all add: ops_of_def operand_at_def)
  show "i < length (ops_of s u)" using i ops by simp
  have 1: "same_but_uses s s1 \<and> ops_of s1 = ops_of s \<and>
      uses_of s1 = (\<lambda>w. without_use s (operand_at s u i) (u, i) w)"
    using s1 unfolding old
    by (cases "vops r ! i") (auto simp: without_use_def fun_eq_iff dest: remove_use_effect)
  have 2: "same_but_uses s1 s2 \<and> ops_of s2 = ops_of s1 \<and>
      uses_of s2 = (\<lambda>w. uses_of s1 w @ (if v = Some w then [(u, i)] else []))
      \<and> (\<forall>w. v = Some w \<longrightarrow> w \<in> dom (vals s1))"
    using s2 by (cases v) (auto simp: fun_eq_iff dest: add_use_effect)
  note 3 = upd_ops_effect [OF t]
  show "same_but_uses s t" using 1 2 3(2) by (blast intro: same_but_uses_trans)
  show "ops_of t = (ops_of s)(u := (ops_of s u)[i := v])" using 1 2 3(4) by simp
  show "uses_of t w = without_use s (operand_at s u i) (u, i) w @
      (if v = Some w then [(u, i)] else [])"
    using 1 2 3(3) by simp
  show "\<And>w. v = Some w \<Longrightarrow> w \<in> dom (vals s)" using 1 2 same_but_uses_dom by blast
qed

lemma set_operand_total:
  assumes ok: "use_def_ok s" and i: "i < length (ops_of s u)"
    and v: "\<And>w. v = Some w \<Longrightarrow> w \<in> dom (vals s)"
  shows "\<exists>t. set_operand u i v s = Inr t"
proof -
  from i obtain r where r: "vals s u = Some r" "i < length (vops r)"
    by (auto simp: ops_of_def split: option.splits)
  have "\<exists>s1. (case vops r ! i of None \<Rightarrow> Inr s | Some old \<Rightarrow> remove_use old u i s) = Inr s1"
  proof (cases "vops r ! i")
    case (Some old)
    then have "operand_at s u i = Some old" using r by (simp add: operand_at_def ops_of_def)
    then show ?thesis using Some remove_use_total [OF use_def_okD(3) [OF ok]] by simp
  qed simp
  then obtain s1 where s1: "(case vops r ! i of None \<Rightarrow> Inr s | Some old \<Rightarrow> remove_use old u i s) = Inr s1"
    by blast
  then have d1: "dom (vals s1) = dom (vals s)"
    by (cases "vops r ! i") (simp_all add: remove_use_dom)
  obtain s2 where s2: "(case v of None \<Rightarrow> Inr s1 | Some new \<Rightarrow> add_use new u i s1) = Inr s2"
    using v d1 add_use_total [of _ s1] by (cases v) (auto, blast)
  then have d2: "dom (vals s2) = dom (vals s)"
    using d1 by (cases v) (simp_all add: add_use_dom)
  then obtain r2 where "vals s2 u = Some r2" using r by blast
  then show ?thesis using r s1 s2 by (auto simp: set_operand_def)
qed

lemma operand_at_update:
  assumes "ops_of t = (ops_of s)(u := (ops_of s u)[i := v])" and "i < length (ops_of s u)"
  shows "operand_at t w j = (if w = u \<and> j = i then v else operand_at s w j)"
  using assms by (auto simp: operand_at_def)

lemma set_operand_use_def_ok:
  assumes ok: "use_def_ok s" and run: "set_operand u i v s = Inr t"
  shows "use_def_ok t"
proof (rule use_def_okI)
  note eff = set_operand_effect [OF run]
  note op = operand_at_update [OF eff(3,1)]
  note D = use_def_okD [OF ok]
  have notin: "(u, i) \<notin> set (without_use s (operand_at s u i) (u, i) w)" for w
    using D(2) [of u i w] by (auto simp: without_use_def)
  show "distinct (uses_of t w)" for w
    using notin D(1) [of w] by (simp add: eff(4)) (simp add: without_use_def)
  show "(a, j) \<in> set (uses_of t w) \<longleftrightarrow> operand_at t a j = Some w" for w a j
    using D(2) notin [of w] by (auto simp: eff(4) op without_use_def)
  show "operand_at t a j = Some w \<Longrightarrow> w \<in> dom (vals t)" for w a j
    using D(3) [of a j w] eff(5) same_but_uses_dom [OF eff(2)]
    by (auto simp: op split: if_splits)
qed

lemma set_operand_operand_at:
  "set_operand u i v s = Inr t \<Longrightarrow>
    operand_at t w j = (if w = u \<and> j = i then v else operand_at s w j)"
  using operand_at_update set_operand_effect(1,3) by blast

lemma add_operand_effect:
  assumes "add_operand u v s = Inr t"
  obtains w where "v = Some w" and "w \<in> dom (vals s)" and "same_but_uses s t"
    and "ops_of t = (ops_of s)(u := ops_of s u @ [Some w])"
    and "uses_of t = (uses_of s)(w := uses_of s w @ [(u, length (ops_of s u))])"
proof -
  from assms obtain w r s1 where w: "v = Some w" "vals s u = Some r"
    and s1: "add_use w u (length (vops r)) s = Inr s1"
    and t: "upd_val u (\<lambda>r. r\<lparr>vops := vops r @ [Some w]\<rparr>) s1 = Inr t"
    by (auto simp: add_operand_def split: option.splits)
  note e = add_use_effect [OF s1] upd_ops_effect [OF t]
  have "length (ops_of s u) = length (vops r)" using w by (simp add: ops_of_def)
  with that [OF w(1) e(1)] show ?thesis
    using e same_but_uses_trans by auto
qed

lemma add_operand_use_def_ok:
  assumes ok: "use_def_ok s" and run: "add_operand u v s = Inr t"
  shows "use_def_ok t"
proof -
  from run obtain w where w: "w \<in> dom (vals s)" and sh: "same_but_uses s t"
    and ops: "ops_of t = (ops_of s)(u := ops_of s u @ [Some w])"
    and us: "uses_of t = (uses_of s)(w := uses_of s w @ [(u, length (ops_of s u))])"
    by (rule add_operand_effect)
  note D = use_def_okD [OF ok]
  have op: "operand_at t a j =
      (if a = u \<and> j = length (ops_of s u) then Some w else operand_at s a j)" for a j
    using ops by (auto simp: operand_at_def nth_append)
  have new: "operand_at s u (length (ops_of s u)) = None" by (simp add: operand_at_def)
  show ?thesis
  proof (rule use_def_okI)
    show "distinct (uses_of t x)" for x using D(1,2) new by (auto simp: us)
    show "(a, j) \<in> set (uses_of t x) \<longleftrightarrow> operand_at t a j = Some x" for x a j
      using D(2) new by (auto simp: us op)
    show "operand_at t a j = Some x \<Longrightarrow> x \<in> dom (vals t)" for x a j
      using D(3) w same_but_uses_dom [OF sh] by (auto simp: op split: if_splits)
  qed
qed

lemma add_operand_total:
  assumes "w \<in> dom (vals s)" and "u \<in> dom (vals s)"
  shows "\<exists>t. add_operand u (Some w) s = Inr t"
proof -
  obtain r where r: "vals s u = Some r" using assms by blast
  obtain s1 where s1: "add_use w u (length (vops r)) s = Inr s1"
    using add_use_total assms(1) by blast
  have "u \<in> dom (vals s1)" using assms(2) same_but_uses_dom [OF add_use_effect(2) [OF s1]] by simp
  with r s1 show ?thesis by (auto simp: add_operand_def)
qed

section \<open>Replacing all uses\<close>

lemma rauw_loop_correct:
  assumes "use_def_ok s" and "v \<in> dom (vals s)" and "nv \<noteq> Some v"
    and "\<And>w. nv = Some w \<Longrightarrow> w \<in> dom (vals s)"
  shows "\<exists>t. rauw_loop v nv s = Some (Inr t) \<and> use_def_ok t \<and> same_but_uses s t
    \<and> uses_of t v = []
    \<and> (\<forall>u i. operand_at t u i = (if operand_at s u i = Some v then nv else operand_at s u i))"
  using assms
proof (induction "length (uses_of s v)" arbitrary: s rule: less_induct)
  case less
  note ok = \<open>use_def_ok s\<close> and D = use_def_okD [OF \<open>use_def_ok s\<close>]
  obtain r where r: "vals s v = Some r" using less.prems(2) by blast
  have us: "uses_of s v = vuses r" using r by (simp add: uses_of_def)
  show ?case
  proof (cases "vuses r")
    case Nil
    then have "operand_at s u i \<noteq> Some v" for u i using D(2) [of u i v] us by simp
    then show ?thesis using r Nil ok us by (auto simp: rauw_loop.simps)
  next
    case (Cons x xs)
    obtain u i where x: "x = (u, i)" by (cases x)
    have op: "operand_at s u i = Some v" using D(2) [of u i v] us Cons x by simp
    then have "i < length (ops_of s u)" by (simp add: operand_at_def split: if_splits)
    then obtain s' where s': "set_operand u i nv s = Inr s'"
      using set_operand_total [OF ok] less.prems(4) by blast
    note eff = set_operand_effect [OF s'] and opat = set_operand_operand_at [OF s']
    have "uses_of s' v = filter (\<lambda>y. y \<noteq> (u, i)) (uses_of s v)"
      using eff(4) [of v] less.prems(3) op by (simp add: without_use_def)
    then have len: "length (uses_of s' v) < length (uses_of s v)"
      using us Cons x by (simp add: le_imp_less_Suc)
    have dom: "dom (vals s') = dom (vals s)" by (rule same_but_uses_dom [OF eff(2)])
    obtain t where t: "rauw_loop v nv s' = Some (Inr t)" "use_def_ok t" "same_but_uses s' t"
        "uses_of t v = []"
        "\<And>u i. operand_at t u i = (if operand_at s' u i = Some v then nv else operand_at s' u i)"
      using less.hyps [OF len set_operand_use_def_ok [OF ok s']] less.prems(2-4) dom by blast
    have "rauw_loop v nv s = Some (Inr t)"
      using r Cons x s' t(1) by (simp add: rauw_loop.simps [of v nv s])
    moreover have "same_but_uses s t" using eff(2) t(3) by (rule same_but_uses_trans)
    moreover have "operand_at t a j = (if operand_at s a j = Some v then nv else operand_at s a j)" for a j
      using opat op t(5) by simp
    ultimately show ?thesis using t(2,4) by blast
  qed
qed

text \<open>\<open>replace_use_with_if\<close> redirects exactly the uses the predicate accepts.\<close>

lemma replace_if_loop_correct:
  assumes "use_def_ok s" and "nv \<noteq> Some v" and "\<And>w. nv = Some w \<Longrightarrow> w \<in> dom (vals s)"
    and "distinct xs" and "\<And>u i. (u, i) \<in> set xs \<Longrightarrow> operand_at s u i = Some v"
  shows "\<exists>t. replace_if_loop pr nv xs s = Inr t \<and> use_def_ok t \<and> same_but_uses s t
    \<and> (\<forall>u i. operand_at t u i = (if (u, i) \<in> set xs \<and> pr (u, i) then nv else operand_at s u i))"
  using assms
proof (induction xs arbitrary: s)
  case Nil
  then show ?case by auto
next
  case (Cons x xs)
  obtain u i where x: "x = (u, i)" by (cases x)
  show ?case
  proof (cases "pr x")
    case False
    with Cons.IH [OF Cons.prems(1-3)] Cons.prems(4,5) show ?thesis by fastforce
  next
    case True
    have op: "operand_at s u i = Some v" using Cons.prems(5) x by simp
    then have "i < length (ops_of s u)" by (simp add: operand_at_def split: if_splits)
    then obtain s' where s': "set_operand u i nv s = Inr s'"
      using set_operand_total [OF Cons.prems(1)] Cons.prems(3) by blast
    note eff = set_operand_effect [OF s'] and opat = set_operand_operand_at [OF s']
    have dom: "dom (vals s') = dom (vals s)" by (rule same_but_uses_dom [OF eff(2)])
    have xs: "operand_at s' a j = Some v" if "(a, j) \<in> set xs" for a j
      using that Cons.prems(4,5) x opat by auto
    obtain t where t: "replace_if_loop pr nv xs s' = Inr t" "use_def_ok t" "same_but_uses s' t"
        "\<And>a j. operand_at t a j = (if (a, j) \<in> set xs \<and> pr (a, j) then nv else operand_at s' a j)"
      using Cons.IH [OF set_operand_use_def_ok [OF Cons.prems(1) s']] Cons.prems(2-4) dom xs
      by (metis distinct.simps(2))
    have "operand_at t a j =
        (if (a, j) \<in> set (x # xs) \<and> pr (a, j) then nv else operand_at s a j)" for a j
      using t(4) opat x True by auto
    then show ?thesis
      using t True s' x same_but_uses_trans [OF eff(2) t(3)] by auto
  qed
qed

section \<open>Dropping operands\<close>

lemma drop_uses_effect:
  assumes "drop_uses u i ops s = Inr t"
  shows "same_but_uses s t \<and> ops_of t = ops_of s \<and>
    (\<forall>w. uses_of t w = filter (\<lambda>(a, j). \<not> (a = u \<and> i \<le> j \<and> j < i + length ops \<and> ops ! (j - i) = Some w))
                        (uses_of s w))"
  using assms
proof (induction u i ops s rule: drop_uses.induct)
  case (1 u i s)
  then show ?case by (auto simp: filter_id_conv)
next
  case (2 u i ops s)
  then have IH: "same_but_uses s t" "ops_of t = ops_of s"
    "\<And>w. uses_of t w = filter (\<lambda>(a, j). \<not> (a = u \<and> Suc i \<le> j \<and> j < Suc i + length ops
       \<and> ops ! (j - Suc i) = Some w)) (uses_of s w)" by auto
  have "(i \<le> j \<and> j < i + length (None # ops) \<and> (None # ops) ! (j - i) = Some w) =
      (Suc i \<le> j \<and> j < Suc i + length ops \<and> ops ! (j - Suc i) = Some w)" for j w
    by (cases "j = i") (auto simp: nth_Cons' le_Suc_eq)
  then show ?case using IH by simp
next
  case (3 u i x ops s)
  then obtain s1 where s1: "remove_use x u i s = Inr s1" and run: "drop_uses u (Suc i) ops s1 = Inr t"
    by auto
  note e = remove_use_effect [OF s1]
  have IH: "same_but_uses s1 t" "ops_of t = ops_of s1"
    "\<And>w. uses_of t w = filter (\<lambda>(a, j). \<not> (a = u \<and> Suc i \<le> j \<and> j < Suc i + length ops
       \<and> ops ! (j - Suc i) = Some w)) (uses_of s1 w)" using "3.IH" [OF s1 run] by auto
  have *: "(i \<le> j \<and> j < i + length (Some x # ops) \<and> (Some x # ops) ! (j - i) = Some w) =
      (j = i \<and> x = w \<or> Suc i \<le> j \<and> j < Suc i + length ops \<and> ops ! (j - Suc i) = Some w)" for j w
    by (cases "j = i") (auto simp: nth_Cons' le_Suc_eq)
  have "uses_of t w = filter (\<lambda>(a, j). \<not> (a = u \<and> i \<le> j \<and> j < i + length (Some x # ops)
      \<and> (Some x # ops) ! (j - i) = Some w)) (uses_of s w)" for w
    unfolding IH(3) e(4) * by (auto intro!: filter_cong)
  then show ?case using IH(1,2) e(2,3) same_but_uses_trans by auto
qed

lemma remove_all_operands_effect:
  assumes ok: "use_def_ok s" and run: "remove_all_operands u s = Inr t"
  shows "same_but_uses s t" and "ops_of t = (ops_of s)(u := [])"
    and "uses_of t w = filter (\<lambda>(a, j). a \<noteq> u) (uses_of s w)"
proof -
  obtain r s1 where r: "vals s u = Some r" and s1: "drop_uses u 0 (vops r) s = Inr s1"
    and t: "upd_val u (\<lambda>r. r\<lparr>vops := []\<rparr>) s1 = Inr t"
    using run by (auto simp: remove_all_operands_def)
  note e1 = drop_uses_effect [OF s1] and e2 = upd_ops_effect [OF t]
  have "uses_of s1 w = filter (\<lambda>(a, j). a \<noteq> u) (uses_of s w)" for w
  proof -
    have "uses_of s1 w = filter (\<lambda>(a, j). \<not> (a = u \<and> j < length (vops r) \<and> vops r ! j = Some w)) (uses_of s w)"
      using e1 by simp
    also have "\<dots> = filter (\<lambda>(a, j). a \<noteq> u) (uses_of s w)"
    proof (rule filter_cong [OF refl])
      fix x assume "x \<in> set (uses_of s w)"
      then show "(case x of (a, j) \<Rightarrow> \<not> (a = u \<and> j < length (vops r) \<and> vops r ! j = Some w)) =
          (case x of (a, j) \<Rightarrow> a \<noteq> u)"
        using use_def_okD(2) [OF ok] r
        by (auto simp: operand_at_def ops_of_def split: if_splits)
    qed
    finally show ?thesis .
  qed
  then show "same_but_uses s t" and "ops_of t = (ops_of s)(u := [])"
    and "uses_of t w = filter (\<lambda>(a, j). a \<noteq> u) (uses_of s w)"
    using e1 e2 same_but_uses_trans by auto
qed

lemma remove_all_operands_use_def_ok:
  assumes ok: "use_def_ok s" and run: "remove_all_operands u s = Inr t"
  shows "use_def_ok t"
proof (rule use_def_okI)
  note e = remove_all_operands_effect [OF ok run]
  note D = use_def_okD [OF ok]
  have op: "operand_at t a j = (if a = u then None else operand_at s a j)" for a j
    using e(2) by (simp add: operand_at_def)
  show "distinct (uses_of t w)" for w using D(1) by (simp add: e(3))
  show "(a, j) \<in> set (uses_of t w) \<longleftrightarrow> operand_at t a j = Some w" for w a j
    using D(2) by (auto simp: e(3) op)
  show "operand_at t a j = Some w \<Longrightarrow> w \<in> dom (vals t)" for w a j
    using D(3) same_but_uses_dom [OF e(1)] by (auto simp: op split: if_splits)
qed

section \<open>Removing one operand\<close>

text \<open>
  The entries the renumbering loop takes from and gives to the use list of \<open>w\<close>, when
  it runs over the operands \<open>ops\<close> starting at index \<open>i\<close>.
\<close>

fun slots_of :: "vid \<Rightarrow> nat \<Rightarrow> vid option list \<Rightarrow> vid \<Rightarrow> use_entry set" where
  "slots_of u i [] w = {}"
| "slots_of u i (x # ops) w = (if x = Some w then {(u, i)} else {}) \<union> slots_of u (Suc i) ops w"

lemma mem_slots_of:
  "(a, j) \<in> slots_of u i ops w \<longleftrightarrow> a = u \<and> i \<le> j \<and> j < i + length ops \<and> ops ! (j - i) = Some w"
  by (induction u i ops w rule: slots_of.induct) (auto simp: nth_Cons' le_Suc_eq Suc_le_eq)

lemma shift_uses_effect:
  assumes "shift_uses u i ops s = Inr t" and "0 < i"
  shows "same_but_uses s t \<and> ops_of t = ops_of s \<and>
    (\<forall>w. set (uses_of t w) = set (uses_of s w) - slots_of u i ops w \<union> slots_of u (i - 1) ops w)"
  using assms
proof (induction u i ops s rule: shift_uses.induct)
  case (3 u i x ops s)
  then obtain s1 s2 where s1: "remove_use x u i s = Inr s1" and s2: "add_use x u (i - 1) s1 = Inr s2"
    and run: "shift_uses u (Suc i) ops s2 = Inr t" by auto
  note e1 = remove_use_effect [OF s1] and e2 = add_use_effect [OF s2]
  have "same_but_uses s2 t \<and> ops_of t = ops_of s2 \<and>
      (\<forall>w. set (uses_of t w) = set (uses_of s2 w) - slots_of u (Suc i) ops w \<union> slots_of u i ops w)"
    using "3.IH" [OF s1 s2 run] by simp
  then have IH: "same_but_uses s2 t" "ops_of t = ops_of s2"
    "\<And>w. set (uses_of t w) = set (uses_of s2 w) - slots_of u (Suc i) ops w \<union> slots_of u i ops w" by auto
  have "set (uses_of t w) =
      set (uses_of s w) - slots_of u i (Some x # ops) w \<union> slots_of u (i - 1) (Some x # ops) w" for w
  proof -
    have i: "Suc (i - 1) = i" using "3.prems"(2) by simp
    have "(u, i - 1) \<notin> slots_of u (Suc i) ops w" unfolding mem_slots_of by linarith
    then show ?thesis unfolding IH(3) e2(4) e1(4) slots_of.simps i by auto
  qed
  moreover have "same_but_uses s t"
    by (rule same_but_uses_trans [OF same_but_uses_trans [OF e1(2) e2(2)] IH(1)])
  ultimately show ?case using IH(2) e1(3) e2(3) by simp
qed simp_all

lemma shift_uses_distinct:
  assumes "shift_uses u i ops s = Inr t" and "0 < i"
    and "\<And>w. distinct (uses_of s w)"
    and "\<And>w j. (u, j) \<in> set (uses_of s w) \<Longrightarrow> i \<le> j \<Longrightarrow> j < i + length ops \<Longrightarrow> ops ! (j - i) = Some w"
    and "\<And>w. ops \<noteq> [] \<Longrightarrow> hd ops = Some w \<Longrightarrow> (u, i - 1) \<notin> set (uses_of s w)"
  shows "distinct (uses_of t w)"
  using assms
proof (induction u i ops s rule: shift_uses.induct)
  case (3 u i x ops s)
  then obtain s1 s2 where s1: "remove_use x u i s = Inr s1" and s2: "add_use x u (i - 1) s1 = Inr s2"
    and run: "shift_uses u (Suc i) ops s2 = Inr t" by auto
  note e1 = remove_use_effect [OF s1] and e2 = add_use_effect [OF s2]
  have us: "uses_of s2 w = (if w = x then filter (\<lambda>y. y \<noteq> (u, i)) (uses_of s w) @ [(u, i - 1)]
      else uses_of s w)" for w
    by (simp add: e1(4) e2(4))
  show ?case
  proof (rule "3.IH" [OF s1 s2 run])
    show "0 < Suc i" by simp
    show "distinct (uses_of s2 w)" for w
      using "3.prems"(3) [of w] "3.prems"(5) [of x] by (auto simp: us)
    show "ops ! (j - Suc i) = Some w"
      if "(u, j) \<in> set (uses_of s2 w)" "Suc i \<le> j" "j < Suc i + length ops" for w j
    proof -
      have "(u, j) \<in> set (uses_of s w)" using that by (auto simp: us split: if_splits)
      then have "(Some x # ops) ! (j - i) = Some w" using "3.prems"(4) [of j w] that by simp
      then show ?thesis using that(2) by (simp add: nth_Cons')
    qed
    show "(u, Suc i - 1) \<notin> set (uses_of s2 w)" for w
      using "3.prems"(4) [of i w] "3.prems"(2) by (auto simp: us)
  qed
qed simp_all

lemma shift_uses_total:
  assumes "None \<notin> set ops" and "\<And>w. Some w \<in> set ops \<Longrightarrow> w \<in> dom (vals s)"
  shows "\<exists>t. shift_uses u i ops s = Inr t"
  using assms
proof (induction ops arbitrary: i s)
  case (Cons x ops)
  then obtain w where x: "x = Some w" by (cases x) auto
  obtain s1 where s1: "remove_use w u i s = Inr s1" using remove_use_total Cons.prems(2) x by fastforce
  obtain s2 where s2: "add_use w u (i - 1) s1 = Inr s2"
    using add_use_total remove_use_dom [OF s1] Cons.prems(2) x by fastforce
  have "dom (vals s2) = dom (vals s)" using remove_use_dom [OF s1] add_use_dom [OF s2] by simp
  then have "\<exists>t. shift_uses u (Suc i) ops s2 = Inr t" using Cons by simp
  then show ?case using x s1 s2 by simp
qed simp

lemma operand_at_remove:
  assumes "ops_of t = (ops_of s)(u := take idx (ops_of s u) @ drop (Suc idx) (ops_of s u))"
    and "idx < length (ops_of s u)"
  shows "operand_at t a j = (if a = u \<and> idx \<le> j then operand_at s u (Suc j) else operand_at s a j)"
  using assms by (auto simp: operand_at_def nth_append min_def)

lemma mem_slots_drop:
  "(a, j) \<in> slots_of u k (drop (Suc idx) (ops_of s u)) w \<longleftrightarrow>
     a = u \<and> k \<le> j \<and> operand_at s u (j - k + Suc idx) = Some w"
proof -
  have len: "j < k + (n - Suc idx) \<longleftrightarrow> j - k + Suc idx < n" if "k \<le> j" for n
    using that by linarith
  have "drop (Suc idx) xs ! (j - k) = xs ! (j - k + Suc idx)" if "j - k + Suc idx < length xs" for xs :: "vid option list"
    using that by (simp add: add.commute)
  then show ?thesis unfolding mem_slots_of operand_at_def length_drop
    by (cases "k \<le> j") (simp_all add: len)
qed

lemma remove_operand_effect:
  assumes ok: "use_def_ok s" and run: "remove_operand u idx s = Inr t"
  shows "same_but_uses s t" and "idx < length (ops_of s u)"
    and "operand_at t a j = (if a = u \<and> idx \<le> j then operand_at s u (Suc j) else operand_at s a j)"
    and "set (uses_of t w) =
      {(a, j). operand_at t a j = Some w \<and> \<not> (a = u \<and> j = idx \<and> operand_at s u idx = Some w)}"
    and "(\<forall>w. operand_at s u (Suc idx) = Some w \<longrightarrow> operand_at s u idx \<noteq> Some w)
      \<Longrightarrow> distinct (uses_of t w)"
proof -
  let ?rest = "drop (Suc idx) (ops_of s u)"
  obtain r s1 v s2 where r: "vals s u = Some r" and idx: "idx < length (vops r)"
    and s1: "shift_uses u (Suc idx) (drop (Suc idx) (vops r)) s = Inr s1"
    and v: "vops r ! idx = Some v" and s2: "remove_use v u idx s1 = Inr s2"
    and t: "upd_val u (\<lambda>r. r\<lparr>vops := take idx (vops r) @ drop (Suc idx) (vops r)\<rparr>) s2 = Inr t"
    using run by (fastforce simp: remove_operand_def simp del: upd_val_Inr_iff split: option.splits)
  have ops: "ops_of s u = vops r" using r by (simp add: ops_of_def)
  have op: "operand_at s u idx = Some v" using v idx by (simp add: operand_at_def ops)
  have e1: "same_but_uses s s1" "ops_of s1 = ops_of s"
    "\<And>w. set (uses_of s1 w) = set (uses_of s w) - slots_of u (Suc idx) ?rest w \<union> slots_of u idx ?rest w"
    using shift_uses_effect [OF s1] ops by auto
  note e2 = remove_use_effect [OF s2]
    and e3 = upd_ops_effect [where g = "\<lambda>xs. take idx xs @ drop (Suc idx) xs", OF t]
  show "same_but_uses s t" using e1(1) e2(2) e3(2) same_but_uses_trans by blast
  show "idx < length (ops_of s u)" using idx ops by simp
  have "ops_of t = (ops_of s)(u := take idx (ops_of s u) @ drop (Suc idx) (ops_of s u))"
    using e3(4) e2(3) e1(2) ops by simp
  note opt = operand_at_remove [OF this \<open>idx < length (ops_of s u)\<close>]
  show "operand_at t a j = (if a = u \<and> idx \<le> j then operand_at s u (Suc j) else operand_at s a j)" for a j
    by (rule opt)
  have "x \<in> set (uses_of t w) \<longleftrightarrow>
      x \<in> {(a, j). operand_at t a j = Some w \<and> \<not> (a = u \<and> j = idx \<and> operand_at s u idx = Some w)}" for x
  proof (cases x)
    case (Pair a j)
    have "(a, j) \<in> set (uses_of s1 w) \<longleftrightarrow>
        operand_at s a j = Some w \<and> \<not> (a = u \<and> Suc idx \<le> j) \<or>
        a = u \<and> idx \<le> j \<and> operand_at s u (Suc j) = Some w"
      unfolding e1(3) Un_iff Diff_iff mem_slots_drop use_def_okD(2) [OF ok] by auto
    then have "(a, j) \<in> set (uses_of t w) \<longleftrightarrow>
        (operand_at s a j = Some w \<and> \<not> (a = u \<and> Suc idx \<le> j) \<or>
         a = u \<and> idx \<le> j \<and> operand_at s u (Suc j) = Some w) \<and> \<not> (w = v \<and> a = u \<and> j = idx)"
      unfolding e3(3) e2(4) by auto
    moreover have "operand_at s u idx = Some w \<longleftrightarrow> w = v" using op by auto
    ultimately show ?thesis unfolding Pair mem_Collect_eq case_prod_conv opt
      by (cases "a = u"; cases "j = idx") auto
  qed
  then show "set (uses_of t w) =
      {(a, j). operand_at t a j = Some w \<and> \<not> (a = u \<and> j = idx \<and> operand_at s u idx = Some w)}"
    by blast
  assume nodup: "\<forall>w. operand_at s u (Suc idx) = Some w \<longrightarrow> operand_at s u idx \<noteq> Some w"
  have "distinct (uses_of s1 w)"
  proof (rule shift_uses_distinct [OF s1])
    show "drop (Suc idx) (vops r) ! (j - Suc idx) = Some w"
      if "(u, j) \<in> set (uses_of s w)" "Suc idx \<le> j" for w j
      using that use_def_okD(2) [OF ok] ops by (auto simp: operand_at_def split: if_splits)
    show "(u, Suc idx - 1) \<notin> set (uses_of s w)"
      if "drop (Suc idx) (vops r) \<noteq> []" "hd (drop (Suc idx) (vops r)) = Some w" for w
      using that nodup use_def_okD(2) [OF ok] ops by (auto simp: operand_at_def hd_drop_conv_nth)
  qed (use use_def_okD(1) [OF ok] in simp_all)
  then show "distinct (uses_of t w)" by (cases "w = v") (simp_all add: e3(3) e2(4))
qed

lemma remove_operand_iff:
  assumes "use_def_ok s" and "remove_operand u idx s = Inr t"
  shows "(\<forall>a j. operand_at t a j = (if a = u \<and> idx \<le> j then operand_at s u (Suc j) else operand_at s a j))
    \<and> (use_def_ok t \<longleftrightarrow> operand_at s u (Suc idx) \<noteq> operand_at s u idx)"
proof (intro conjI allI)
  note e = remove_operand_effect [OF assms] and ok = use_def_okD [OF assms(1)]
  show "operand_at t a j = (if a = u \<and> idx \<le> j then operand_at s u (Suc j) else operand_at s a j)" for a j
    by (rule e(3))
  obtain v where v: "operand_at s u idx = Some v"
    using assms(2) by (auto simp: remove_operand_def operand_at_def ops_of_def split: option.splits)
  show "use_def_ok t \<longleftrightarrow> operand_at s u (Suc idx) \<noteq> operand_at s u idx"
  proof
    assume "use_def_ok t"
    from use_def_okD(2) [OF this, of u idx v] show "operand_at s u (Suc idx) \<noteq> operand_at s u idx"
      using v by (auto simp: e(3) e(4))
  next
    assume ne: "operand_at s u (Suc idx) \<noteq> operand_at s u idx"
    show "use_def_ok t"
    proof (rule use_def_okI)
      show "distinct (uses_of t w)" for w using ne e(5) v by auto
      show "(a, j) \<in> set (uses_of t w) \<longleftrightarrow> operand_at t a j = Some w" for w a j
        using ne v by (auto simp: e(3) e(4))
      show "operand_at t a j = Some w \<Longrightarrow> w \<in> dom (vals t)" for w a j
        using ok(3) same_but_uses_dom [OF e(1)] by (auto simp: e(3) split: if_splits)
    qed
  qed
qed

section \<open>Properties\<close>

text \<open>C8: \<open>set_operand\<close> succeeds exactly on an index in range, changes that one
  operand slot and nothing else, and keeps the use lists exact: afterwards, as before,
  the use list of a value names each slot that holds it once and no other slot.\<close>

theorem set_operand_correct:
  assumes "use_def_ok s" and "\<And>w. v = Some w \<Longrightarrow> w \<in> dom (vals s)" and "u \<in> dom (vals s)"
  shows "if i < length (ops_of s u)
    then \<exists>t. set_operand u i v s = Inr t \<and> use_def_ok t \<and> same_but_uses s t
           \<and> (\<forall>a j. operand_at t a j = (if a = u \<and> j = i then v else operand_at s a j))
    else set_operand u i v s = Inl (Assert_fail ''set_operand out of index'')"
proof (cases "i < length (ops_of s u)")
  case True
  then obtain t where t: "set_operand u i v s = Inr t" using set_operand_total assms by blast
  with True show ?thesis
    using set_operand_use_def_ok [OF assms(1) t] set_operand_effect(2) [OF t] set_operand_operand_at [OF t]
    by auto
next
  case False
  with assms(3) show ?thesis by (auto simp: set_operand_def ops_of_def)
qed

text \<open>A store with three values: object 2 uses object 0 twice and object 1 once.\<close>

definition demo_val :: "use_entry list \<Rightarrow> vid option list \<Rightarrow> val" where
  "demo_val us ops = \<lparr>vty = int32_ty, vname = '''', vuses = us, vops = ops, vkind = K_undef\<rparr>"

definition empty_ir :: ir where
  "empty_ir = \<lparr>vals = Map.empty, bbs = Map.empty, funcs = Map.empty, next_id = 0,
     function_list = [], global_list = [], cached_int = Map.empty, cached_bool = Map.empty,
     cached_float = [], cached_zero = Map.empty, cached_undef = Map.empty\<rparr>"

definition demo_ir :: ir where
  "demo_ir = empty_ir\<lparr>vals :=
     [0 \<mapsto> demo_val [(2, 0), (2, 1)] [], 1 \<mapsto> demo_val [(2, 2)] [],
      2 \<mapsto> demo_val [] [Some 0, Some 0, Some 1]], next_id := 3\<rparr>"

lemmas demo_defs = demo_ir_def empty_ir_def demo_val_def

lemma demo_use_def_ok: "use_def_ok demo_ir"
proof (rule use_def_okI)
  show "distinct (uses_of demo_ir v)" for v
    by (simp add: uses_of_def demo_defs)
  show "(u, i) \<in> set (uses_of demo_ir v) \<longleftrightarrow> operand_at demo_ir u i = Some v" for v u i
    by (auto simp: uses_of_def operand_at_def ops_of_def demo_defs nth_Cons' less_Suc_eq
        numeral_3_eq_3 numeral_2_eq_2)
  show "operand_at demo_ir u i = Some v \<Longrightarrow> v \<in> dom (vals demo_ir)" for v u i
    by (auto simp: operand_at_def ops_of_def demo_defs nth_Cons' split: if_splits)
qed

lemma demo_facts:
  "dom (vals demo_ir) = {0, 1, 2}" "ops_of demo_ir 2 = [Some 0, Some 0, Some 1]"
  by (auto simp: ops_of_def demo_defs)

theorem set_operand_correct_witness:
  "\<exists>t. set_operand 2 1 (Some 1) demo_ir = Inr t \<and> use_def_ok t \<and> operand_at t 2 1 = Some 1"
  using set_operand_correct [OF demo_use_def_ok, of "Some 1" 2 1] by (auto simp: demo_facts)

text \<open>C5: \<open>replace_all_use_with\<close> ends, and redirects every use of the value to the
  new value (or to null) and no other operand; the old value has no use left and the
  use lists are exact again.\<close>

theorem replace_all_use_with_correct:
  assumes "use_def_ok s" and "v \<in> dom (vals s)" and "nv \<noteq> Some v"
    and "\<And>w. nv = Some w \<Longrightarrow> w \<in> dom (vals s)"
  shows "\<exists>t. replace_all_use_with v nv s = Inr t \<and> use_def_ok t \<and> same_but_uses s t
    \<and> uses_of t v = []
    \<and> (\<forall>u i. operand_at t u i = (if operand_at s u i = Some v then nv else operand_at s u i))"
  using rauw_loop_correct [OF assms] assms(3)
  by (auto simp: replace_all_use_with_def outcome_def)

theorem replace_all_use_with_witness:
  "\<exists>t. replace_all_use_with 0 (Some 1) demo_ir = Inr t \<and> uses_of t 0 = [] \<and> operand_at t 2 1 = Some 1"
proof -
  have "operand_at demo_ir 2 1 = Some 0" by (simp add: operand_at_def demo_facts)
  then show ?thesis
    using replace_all_use_with_correct [OF demo_use_def_ok, of 0 "Some 1"] by (auto simp: demo_facts)
qed

text \<open>C28: when \<open>remove_operand\<close> returns, the operand is gone and the later ones have
  moved down by one; the use lists are exact afterwards if and only if the removed
  operand and its successor were different values. (When they are equal the loop first
  files the successor's use under the removed index, and the last \<open>remove_use\<close> then
  deletes both.)\<close>

theorem remove_operand_exact_iff:
  assumes "use_def_ok s" and "remove_operand u idx s = Inr t"
  shows "(\<forall>a j. operand_at t a j = (if a = u \<and> idx \<le> j then operand_at s u (Suc j) else operand_at s a j))
    \<and> (use_def_ok t \<longleftrightarrow> operand_at s u (Suc idx) \<noteq> operand_at s u idx)"
  by (rule remove_operand_iff [OF assms])

theorem remove_operand_witness:
  "\<exists>t. remove_operand 2 0 demo_ir = Inr t \<and> \<not> use_def_ok t"
proof -
  obtain t where t: "remove_operand 2 0 demo_ir = Inr t"
    by (simp add: remove_operand_def remove_use_def add_use_def demo_defs)
  have "operand_at demo_ir 2 (Suc 0) = operand_at demo_ir 2 0" by (simp add: operand_at_def demo_facts)
  then show ?thesis using remove_operand_exact_iff [OF demo_use_def_ok t] t by blast
qed

end
