(* ===== verification/IRModule.thy ===== *)
theory IRModule
  imports Values
begin

text \<open>
  Objects of a module and how they are made: \<open>Constant\<close>, \<open>GlobalVariable\<close>,
  \<open>Function\<close>, \<open>Argument\<close>, \<open>BasicBlock\<close> (\<open>include/lightir\<close>, \<open>src/lightir\<close>). There is
  one module, so the caches that the source keys by value and module are keyed by
  value. \<open>ir_ok\<close> collects what holds of the store between operations: exact use
  lists, a consistent control-flow graph, instructions in the block they name,
  terminators at the end of a block only.
\<close>

section \<open>Reading objects\<close>

definition type_of :: "'z ir_scheme \<Rightarrow> vid \<Rightarrow> ty res" where
  "type_of s v = bindR (deref (vals s) v) (\<lambda>r. Inr (vty r))"

definition kind_of :: "'z ir_scheme \<Rightarrow> vid \<Rightarrow> vkind option" where
  "kind_of s v = map_option vkind (vals s v)"

text \<open>\<open>Instruction::get_instr_type\<close>; the pointer is an \<open>Instruction *\<close>.\<close>

definition instr_op :: "'z ir_scheme \<Rightarrow> vid \<Rightarrow> opid res" where
  "instr_op s i = bindR (deref (vals s) i) (\<lambda>r.
     case vkind r of K_instr op p \<Rightarrow> Inr op | _ \<Rightarrow> Inl Dangling)"

definition instr_parent :: "'z ir_scheme \<Rightarrow> vid \<Rightarrow> vid option res" where
  "instr_parent s i = bindR (deref (vals s) i) (\<lambda>r.
     case vkind r of K_instr op p \<Rightarrow> Inr p | _ \<Rightarrow> Inl Dangling)"

definition preds :: "'z ir_scheme \<Rightarrow> vid \<Rightarrow> vid list" where
  "preds s b = (case bbs s b of None \<Rightarrow> [] | Some r \<Rightarrow> pre_bbs r)"

definition succs :: "'z ir_scheme \<Rightarrow> vid \<Rightarrow> vid list" where
  "succs s b = (case bbs s b of None \<Rightarrow> [] | Some r \<Rightarrow> succ_bbs r)"

definition instrs :: "'z ir_scheme \<Rightarrow> vid \<Rightarrow> vid list" where
  "instrs s b = (case bbs s b of None \<Rightarrow> [] | Some r \<Rightarrow> instr_list r)"

definition blocks :: "'z ir_scheme \<Rightarrow> vid \<Rightarrow> vid list" where
  "blocks s f = (case funcs s f of None \<Rightarrow> [] | Some r \<Rightarrow> basic_blocks r)"

lemma instr_op_Inr [simp]:
  "instr_op s i = Inr op \<longleftrightarrow> (\<exists>p. kind_of s i = Some (K_instr op p))"
proof (cases "vals s i")
  case (Some r)
  then show ?thesis by (cases "vkind r") (auto simp: instr_op_def kind_of_def)
qed (simp add: instr_op_def kind_of_def)

section \<open>New objects\<close>

definition new_value :: "ty \<Rightarrow> string \<Rightarrow> vkind \<Rightarrow> ('z ir_scheme, vid) sm" where
  "new_value t nm k = (\<lambda>s. Inr (next_id s,
     s\<lparr>vals := (vals s)(next_id s \<mapsto> \<lparr>vty = t, vname = nm, vuses = [], vops = [], vkind = k\<rparr>),
       next_id := Suc (next_id s)\<rparr>))"

text \<open>A pointer that the code dereferences.\<close>

definition nonnull :: "'a option \<Rightarrow> ('s, 'a) sm" where
  "nonnull x = (case x of None \<Rightarrow> failM Null_deref | Some v \<Rightarrow> returnM v)"

section \<open>\<open>BasicBlock\<close>\<close>

definition upd_bb :: "vid \<Rightarrow> (bblock \<Rightarrow> bblock) \<Rightarrow> 'z ir_scheme \<Rightarrow> 'z ir_scheme res" where
  "upd_bb b f s = bindR (deref (bbs s) b) (\<lambda>r. Inr (s\<lparr>bbs := (bbs s)(b \<mapsto> f r)\<rparr>))"

definition add_pre_basic_block :: "vid \<Rightarrow> vid \<Rightarrow> 'z ir_scheme \<Rightarrow> 'z ir_scheme res" where
  "add_pre_basic_block b p = upd_bb b (\<lambda>r. r\<lparr>pre_bbs := pre_bbs r @ [p]\<rparr>)"

definition add_succ_basic_block :: "vid \<Rightarrow> vid \<Rightarrow> 'z ir_scheme \<Rightarrow> 'z ir_scheme res" where
  "add_succ_basic_block b p = upd_bb b (\<lambda>r. r\<lparr>succ_bbs := succ_bbs r @ [p]\<rparr>)"

definition remove_pre_basic_block :: "vid \<Rightarrow> vid \<Rightarrow> 'z ir_scheme \<Rightarrow> 'z ir_scheme res" where
  "remove_pre_basic_block b p = upd_bb b (\<lambda>r. r\<lparr>pre_bbs := removeAll p (pre_bbs r)\<rparr>)"

definition remove_succ_basic_block :: "vid \<Rightarrow> vid \<Rightarrow> 'z ir_scheme \<Rightarrow> 'z ir_scheme res" where
  "remove_succ_basic_block b p = upd_bb b (\<lambda>r. r\<lparr>succ_bbs := removeAll p (succ_bbs r)\<rparr>)"

definition is_terminated :: "'z ir_scheme \<Rightarrow> vid \<Rightarrow> bool res" where
  "is_terminated s b = bindR (deref (bbs s) b) (\<lambda>r.
     if instr_list r = [] then Inr False
     else bindR (instr_op s (last (instr_list r))) (\<lambda>op.
            Inr (case op of O_ret \<Rightarrow> True | O_br \<Rightarrow> True | _ \<Rightarrow> False)))"

definition get_terminator :: "'z ir_scheme \<Rightarrow> vid \<Rightarrow> vid res" where
  "get_terminator s b =
     bindR (is_terminated s b) (\<lambda>t.
     bindR (guardR t (Assert_fail ''Trying to get terminator from an bb which is not terminated'')) (\<lambda>_.
     bindR (deref (bbs s) b) (\<lambda>r. Inr (last (instr_list r)))))"

definition add_instruction :: "vid \<Rightarrow> vid \<Rightarrow> 'z ir_scheme \<Rightarrow> 'z ir_scheme res" where
  "add_instruction b i s =
     bindR (is_terminated s b) (\<lambda>t.
     bindR (guardR (\<not> t) (Assert_fail ''Inserting instruction to terminated bb'')) (\<lambda>_.
     upd_bb b (\<lambda>r. r\<lparr>instr_list := instr_list r @ [i]\<rparr>) s))"

definition add_instr_begin :: "vid \<Rightarrow> vid \<Rightarrow> 'z ir_scheme \<Rightarrow> 'z ir_scheme res" where
  "add_instr_begin b i = upd_bb b (\<lambda>r. r\<lparr>instr_list := i # instr_list r\<rparr>)"

text \<open>\<open>remove_instr\<close> takes the node out of the intrusive list, without deleting it.\<close>

definition remove_instr :: "vid \<Rightarrow> vid \<Rightarrow> 'z ir_scheme \<Rightarrow> 'z ir_scheme res" where
  "remove_instr b i = upd_bb b (\<lambda>r. r\<lparr>instr_list := remove1 i (instr_list r)\<rparr>)"

definition BasicBlock_create :: "string \<Rightarrow> vid \<Rightarrow> ('z ir_scheme, vid) sm" where
  "BasicBlock_create nm parent =
     bindM (new_value LabelTy ((if nm = '''' then '''' else ''label_'') @ nm) K_block) (\<lambda>b.
     thenM (modifyM (\<lambda>s. s\<lparr>bbs := (bbs s)(b \<mapsto>
              \<lparr>pre_bbs = [], succ_bbs = [], instr_list = [], bparent = parent\<rparr>)\<rparr>))
    (thenM (updateM (\<lambda>s. bindR (deref (funcs s) parent) (\<lambda>r.
              Inr (s\<lparr>funcs := (funcs s)(parent \<mapsto> r\<lparr>basic_blocks := basic_blocks r @ [b]\<rparr>)\<rparr>))))
    (returnM b)))"

section \<open>\<open>Function\<close> and \<open>Argument\<close>\<close>

text \<open>The constructor's loop that appends one \<open>Argument\<close> per parameter type.\<close>

fun build_args :: "vid \<Rightarrow> nat \<Rightarrow> ty list \<Rightarrow> ('z ir_scheme, unit) sm" where
  "build_args f i [] = returnM ()"
| "build_args f i (t # ts) =
     bindM (new_value t '''' (K_arg f i)) (\<lambda>a.
     thenM (updateM (\<lambda>s. bindR (deref (funcs s) f) (\<lambda>r.
              Inr (s\<lparr>funcs := (funcs s)(f \<mapsto> r\<lparr>arguments := arguments r @ [a]\<rparr>)\<rparr>))))
       (build_args f (Suc i) ts))"

definition Function_create :: "ty \<Rightarrow> ty list \<Rightarrow> string \<Rightarrow> ('z ir_scheme, vid) sm" where
  "Function_create retty params nm =
     bindM (new_value (FunctionTy retty params) nm K_func) (\<lambda>f.
     thenM (modifyM (\<lambda>s. s\<lparr>function_list := function_list s @ [f],
              funcs := (funcs s)(f \<mapsto> \<lparr>basic_blocks = [], arguments = [], seq_cnt = 0\<rparr>)\<rparr>))
    (thenM (build_args f 0 params)
    (returnM f)))"

definition get_function_type_of :: "'z ir_scheme \<Rightarrow> vid \<Rightarrow> (ty \<times> ty list) res" where
  "get_function_type_of s f = bindR (type_of s f) (\<lambda>t.
     case t of FunctionTy r ps \<Rightarrow> Inr (r, ps) | _ \<Rightarrow> Inl Dangling)"

definition get_return_type :: "'z ir_scheme \<Rightarrow> vid \<Rightarrow> ty res" where
  "get_return_type s f = bindR (get_function_type_of s f) (\<lambda>rp. Inr (fst rp))"

definition get_num_of_args :: "'z ir_scheme \<Rightarrow> vid \<Rightarrow> nat res" where
  "get_num_of_args s f = bindR (get_function_type_of s f) (\<lambda>rp. Inr (length (snd rp)))"

definition is_declaration :: "'z ir_scheme \<Rightarrow> vid \<Rightarrow> bool res" where
  "is_declaration s f = bindR (deref (funcs s) f) (\<lambda>r. Inr (basic_blocks r = []))"

text \<open>\<open>Function::remove\<close>: unlink a block from the function and from its neighbours;
  the block's own lists keep their entries.\<close>

fun unlink_preds :: "vid \<Rightarrow> vid list \<Rightarrow> 'z ir_scheme \<Rightarrow> 'z ir_scheme res" where
  "unlink_preds b [] s = Inr s"
| "unlink_preds b (p # ps) s = bindR (remove_succ_basic_block p b s) (unlink_preds b ps)"

fun unlink_succs :: "vid \<Rightarrow> vid list \<Rightarrow> 'z ir_scheme \<Rightarrow> 'z ir_scheme res" where
  "unlink_succs b [] s = Inr s"
| "unlink_succs b (p # ps) s = bindR (remove_pre_basic_block p b s) (unlink_succs b ps)"

definition Function_remove :: "vid \<Rightarrow> vid \<Rightarrow> 'z ir_scheme \<Rightarrow> 'z ir_scheme res" where
  "Function_remove f b s =
     bindR (deref (funcs s) f) (\<lambda>r.
     let s0 = s\<lparr>funcs := (funcs s)(f \<mapsto> r\<lparr>basic_blocks := remove1 b (basic_blocks r)\<rparr>)\<rparr> in
     bindR (deref (bbs s0) b) (\<lambda>rb.
     bindR (unlink_preds b (pre_bbs rb) s0) (\<lambda>s1.
     bindR (deref (bbs s1) b) (\<lambda>rb1.
     unlink_succs b (succ_bbs rb1) s1))))"

definition erase_from_parent :: "vid \<Rightarrow> 'z ir_scheme \<Rightarrow> 'z ir_scheme res" where
  "erase_from_parent b s = bindR (deref (bbs s) b) (\<lambda>r. Function_remove (bparent r) b s)"

section \<open>\<open>GlobalVariable\<close>\<close>

definition GlobalVariable_create ::
  "string \<Rightarrow> ty \<Rightarrow> bool \<Rightarrow> vid option \<Rightarrow> ('z ir_scheme, vid) sm" where
  "GlobalVariable_create nm t is_const init =
     bindM (readM (\<lambda>s. PointerType_ctor t)) (\<lambda>pt.
     bindM (new_value pt nm (K_global is_const init)) (\<lambda>g.
     thenM (modifyM (\<lambda>s. s\<lparr>global_list := global_list s @ [g]\<rparr>))
    (thenM (case init of None \<Rightarrow> returnM () | Some c \<Rightarrow> updateM (add_operand g (Some c)))
    (returnM g))))"

section \<open>Constants\<close>

text \<open>
  \<open>operator==\<close> on \<open>float\<close>: a NaN is equal to nothing, the two zeros are equal.
\<close>

definition f32_is_nan :: "f32 \<Rightarrow> bool" where
  "f32_is_nan x = (0x7F800000 < and x 0x7FFFFFFF)"

definition f32_is_zero :: "f32 \<Rightarrow> bool" where
  "f32_is_zero x = (and x 0x7FFFFFFF = 0)"

definition f32_eq :: "f32 \<Rightarrow> f32 \<Rightarrow> bool" where
  "f32_eq x y = (\<not> f32_is_nan x \<and> \<not> f32_is_nan y \<and> (x = y \<or> f32_is_zero x \<and> f32_is_zero y))"

definition ConstantInt_get_int :: "int \<Rightarrow> ('z ir_scheme, vid) sm" where
  "ConstantInt_get_int val = bindM (getM (\<lambda>s. cached_int s val)) (\<lambda>c. case c of
       Some v \<Rightarrow> returnM v
     | None \<Rightarrow> bindM (new_value int32_ty '''' (K_int val)) (\<lambda>v.
         thenM (modifyM (\<lambda>s. s\<lparr>cached_int := (cached_int s)(val \<mapsto> v)\<rparr>)) (returnM v)))"

definition ConstantInt_get_bool :: "bool \<Rightarrow> ('z ir_scheme, vid) sm" where
  "ConstantInt_get_bool val = bindM (getM (\<lambda>s. cached_bool s val)) (\<lambda>c. case c of
       Some v \<Rightarrow> returnM v
     | None \<Rightarrow> bindM (new_value int1_ty '''' (K_int (if val then 1 else 0))) (\<lambda>v.
         thenM (modifyM (\<lambda>s. s\<lparr>cached_bool := (cached_bool s)(val \<mapsto> v)\<rparr>)) (returnM v)))"

definition find_float :: "f32 \<Rightarrow> (f32 \<times> vid) list \<Rightarrow> vid option" where
  "find_float x c = map_option snd (find (\<lambda>(k, v). f32_eq k x) c)"

definition ConstantFP_get :: "f32 \<Rightarrow> ('z ir_scheme, vid) sm" where
  "ConstantFP_get val = bindM (getM (\<lambda>s. find_float val (cached_float s))) (\<lambda>c. case c of
       Some v \<Rightarrow> returnM v
     | None \<Rightarrow> bindM (new_value FloatTy '''' (K_fp val)) (\<lambda>v.
         thenM (modifyM (\<lambda>s. s\<lparr>cached_float := cached_float s @ [(val, v)]\<rparr>)) (returnM v)))"

definition ConstantZero_get :: "ty \<Rightarrow> ('z ir_scheme, vid) sm" where
  "ConstantZero_get t = bindM (getM (\<lambda>s. cached_zero s t)) (\<lambda>c. case c of
       Some v \<Rightarrow> returnM v
     | None \<Rightarrow> bindM (new_value t '''' K_zero) (\<lambda>v.
         thenM (modifyM (\<lambda>s. s\<lparr>cached_zero := (cached_zero s)(t \<mapsto> v)\<rparr>)) (returnM v)))"

definition UndefValue_get :: "ty \<Rightarrow> ('z ir_scheme, vid) sm" where
  "UndefValue_get t = bindM (getM (\<lambda>s. cached_undef s t)) (\<lambda>c. case c of
       Some v \<Rightarrow> returnM v
     | None \<Rightarrow> bindM (new_value t '''' K_undef) (\<lambda>v.
         thenM (modifyM (\<lambda>s. s\<lparr>cached_undef := (cached_undef s)(t \<mapsto> v)\<rparr>)) (returnM v)))"

text \<open>\<open>ConstantArray\<close>: the constructor calls \<open>set_operand\<close> on operands it never added.\<close>

fun set_operands_from :: "vid \<Rightarrow> nat \<Rightarrow> vid list \<Rightarrow> 'z ir_scheme \<Rightarrow> 'z ir_scheme res" where
  "set_operands_from u i [] s = Inr s"
| "set_operands_from u i (v # vs) s =
     bindR (set_operand u i (Some v) s) (set_operands_from u (Suc i) vs)"

definition ConstantArray_get :: "ty \<Rightarrow> vid list \<Rightarrow> ('z ir_scheme, vid) sm" where
  "ConstantArray_get t vs =
     bindM (new_value t '''' (K_array vs)) (\<lambda>a.
     thenM (updateM (set_operands_from a 0 vs)) (returnM a))"

section \<open>Deleting instructions\<close>

text \<open>\<open>~BranchInst\<close> unlinks the block from the targets that are still set.\<close>

fun unlink_targets :: "vid \<Rightarrow> vid option list \<Rightarrow> 'z ir_scheme \<Rightarrow> 'z ir_scheme res" where
  "unlink_targets p [] s = Inr s"
| "unlink_targets p (None # ts) s = unlink_targets p ts s"
| "unlink_targets p (Some t # ts) s =
     bindR (remove_pre_basic_block t p s) (\<lambda>s1.
     bindR (remove_succ_basic_block p t s1) (unlink_targets p ts))"

definition BranchInst_dtor :: "vid \<Rightarrow> 'z ir_scheme \<Rightarrow> 'z ir_scheme res" where
  "BranchInst_dtor i s =
     bindR (deref (vals s) i) (\<lambda>r.
     bindR (instr_parent s i) (\<lambda>p.
     bindR (if length (vops r) = 3
            then bindR (get_operand s i 1) (\<lambda>t. bindR (get_operand s i 2) (\<lambda>f. Inr [t, f]))
            else bindR (get_operand s i 0) (\<lambda>t. Inr [t])) (\<lambda>targets.
     case p of None \<Rightarrow> if filter (\<lambda>t. t \<noteq> None) targets = [] then Inr s else Inl Null_deref
     | Some b \<Rightarrow> unlink_targets b targets s)))"

text \<open>The destructors in their order: the class's own, \<open>~User\<close>, \<open>~Value\<close>.\<close>

definition delete_instr :: "vid \<Rightarrow> 'z ir_scheme \<Rightarrow> 'z ir_scheme res" where
  "delete_instr i s =
     bindR (instr_op s i) (\<lambda>op.
     bindR (if op = O_br then BranchInst_dtor i s else Inr s) (\<lambda>s1.
     bindR (remove_all_operands i s1) (\<lambda>s2.
     bindR (replace_all_use_with i None s2) (\<lambda>s3.
     Inr (s3\<lparr>vals := (vals s3)(i := None)\<rparr>)))))"

definition erase_instr :: "vid \<Rightarrow> vid \<Rightarrow> 'z ir_scheme \<Rightarrow> 'z ir_scheme res" where
  "erase_instr b i s = bindR (remove_instr b i s) (delete_instr i)"

section \<open>The invariant of the store\<close>

definition is_terminator_op :: "opid \<Rightarrow> bool" where
  "is_terminator_op op = (op = O_br \<or> op = O_ret)"

definition ids_ok :: "'z ir_scheme \<Rightarrow> bool" where
  "ids_ok s \<longleftrightarrow> (\<forall>v\<in>dom (vals s). v < next_id s)
     \<and> (\<forall>b\<in>dom (bbs s). kind_of s b = Some K_block)
     \<and> (\<forall>f\<in>dom (funcs s). kind_of s f = Some K_func)"

lemma ids_ok_dom:
  assumes "ids_ok s"
  shows "dom (bbs s) \<subseteq> dom (vals s)" "dom (funcs s) \<subseteq> dom (vals s)"
proof -
  have "v \<in> dom (vals s)" if "kind_of s v = Some k" for v k using that by (auto simp: kind_of_def)
  then show "dom (bbs s) \<subseteq> dom (vals s)" "dom (funcs s) \<subseteq> dom (vals s)"
    using assms unfolding ids_ok_def by blast+
qed

text \<open>An edge is in the successor list of its source as often as in the predecessor
  list of its target.\<close>

definition cfg_ok :: "'z ir_scheme \<Rightarrow> bool" where
  "cfg_ok s \<longleftrightarrow> (\<forall>a b. count_list (preds s b) a = count_list (succs s a) b)"

text \<open>An instruction list of the block \<open>b\<close>, given the kinds of the objects.\<close>

definition listed_ok :: "(vid \<Rightarrow> vkind option) \<Rightarrow> vid \<Rightarrow> vid list \<Rightarrow> bool" where
  "listed_ok k b is \<longleftrightarrow> distinct is
     \<and> (\<forall>i\<in>set is. \<exists>op. k i = Some (K_instr op (Some b)))
     \<and> (\<forall>i\<in>set (butlast is). \<forall>op p. k i = Some (K_instr op p) \<longrightarrow> \<not> is_terminator_op op)"

definition placed_ok :: "'z ir_scheme \<Rightarrow> bool" where
  "placed_ok s \<longleftrightarrow> (\<forall>b. listed_ok (kind_of s) b (instrs s b))"

lemma listed_ok_cong:
  assumes "\<And>i. i \<in> set is \<Longrightarrow> k' i = k i"
  shows "listed_ok k' b is = listed_ok k b is"
  using assms in_set_butlastD [of _ "is"] unfolding listed_ok_def by auto

lemma listed_ok_Nil [simp]: "listed_ok k b []"
  by (simp add: listed_ok_def)

lemma listed_ok_snoc:
  assumes "listed_ok k b is" and "i \<notin> set is" and "k i = Some (K_instr op (Some b))"
    and "is \<noteq> [] \<Longrightarrow> \<exists>op. k (last is) = Some (K_instr op (Some b)) \<and> \<not> is_terminator_op op"
  shows "listed_ok k b (is @ [i])"
proof -
  have "\<not> is_terminator_op op'" if "j \<in> set is" "k j = Some (K_instr op' p)" for j op' p
  proof (cases "j = last is")
    case True
    then show ?thesis using that assms(4) by force
  next
    case False
    then have "j \<in> set (butlast is)" using that(1) by (metis append_butlast_last_id emptyE
        in_set_conv_decomp list.set(1) rotate1.simps(2) set_ConsD set_rotate1)
    then show ?thesis using that(2) assms(1) unfolding listed_ok_def by blast
  qed
  then show ?thesis using assms(1-3) by (auto simp: listed_ok_def)
qed

definition blocks_ok :: "'z ir_scheme \<Rightarrow> bool" where
  "blocks_ok s \<longleftrightarrow> (\<forall>f. distinct (blocks s f)
     \<and> (\<forall>b\<in>set (blocks s f). \<exists>r. bbs s b = Some r \<and> bparent r = f))"

definition ir_ok :: "'z ir_scheme \<Rightarrow> bool" where
  "ir_ok s \<longleftrightarrow> use_def_ok s \<and> ids_ok s \<and> cfg_ok s \<and> placed_ok s \<and> blocks_ok s"

lemmas ir_ok_defs = ir_ok_def ids_ok_def cfg_ok_def placed_ok_def blocks_ok_def

lemmas graph_defs = preds_def succs_def instrs_def blocks_def

lemma vals_obs:
  assumes "vals t = vals s"
  shows "uses_of t = uses_of s" "operand_at t = operand_at s" "kind_of t = kind_of s"
    "use_def_ok t = use_def_ok s"
  using assms
proof -
  show u: "uses_of t = uses_of s" "operand_at t = operand_at s" "kind_of t = kind_of s"
    using assms by (simp_all add: uses_of_def operand_at_def ops_of_def kind_of_def fun_eq_iff)
  show "use_def_ok t = use_def_ok s" by (simp add: use_def_ok_def u assms)
qed

lemma ir_ok_obs:
  assumes "vals t = vals s" and "bbs t = bbs s" and "funcs t = funcs s" and "next_id t = next_id s"
  shows "ir_ok t = ir_ok s"
  using assms vals_obs [OF assms(1)] by (simp add: ir_ok_defs graph_defs)

lemma ir_ok_caches [simp]:
  "ir_ok (s\<lparr>cached_int := a\<rparr>) = ir_ok s" "ir_ok (s\<lparr>cached_bool := b\<rparr>) = ir_ok s"
  "ir_ok (s\<lparr>cached_float := c\<rparr>) = ir_ok s" "ir_ok (s\<lparr>cached_zero := d\<rparr>) = ir_ok s"
  "ir_ok (s\<lparr>cached_undef := e\<rparr>) = ir_ok s" "ir_ok (s\<lparr>global_list := g\<rparr>) = ir_ok s"
  "ir_ok (s\<lparr>function_list := h\<rparr>) = ir_ok s"
  by (rule ir_ok_obs; simp)+

lemma preserves_caches [pres]:
  "preserves ir_ok (modifyM (\<lambda>s. s\<lparr>cached_int := f1 s\<rparr>))"
  "preserves ir_ok (modifyM (\<lambda>s. s\<lparr>cached_bool := f2 s\<rparr>))"
  "preserves ir_ok (modifyM (\<lambda>s. s\<lparr>cached_float := f3 s\<rparr>))"
  "preserves ir_ok (modifyM (\<lambda>s. s\<lparr>cached_zero := f4 s\<rparr>))"
  "preserves ir_ok (modifyM (\<lambda>s. s\<lparr>cached_undef := f5 s\<rparr>))"
  "preserves ir_ok (modifyM (\<lambda>s. s\<lparr>global_list := f6 s\<rparr>))"
  by (rule preserves_modifyM, simp)+

subsection \<open>Operations on operands\<close>

lemma same_but_uses_obs:
  assumes "same_but_uses s t"
  shows "kind_of t = kind_of s" "bbs t = bbs s" "funcs t = funcs s" "next_id t = next_id s"
proof -
  have k: "kind_of x v = map_option (snd \<circ> snd) (shape x v)" for x :: "'a ir_scheme" and v
    by (simp add: kind_of_def shape_def option.map_comp o_def)
  show "kind_of t = kind_of s" using assms by (simp add: fun_eq_iff k same_but_uses_def)
  show "bbs t = bbs s" "funcs t = funcs s" "next_id t = next_id s"
    using assms by (auto simp: same_but_uses_def)
qed

lemma ir_ok_same_but_uses:
  assumes "ir_ok s" and "same_but_uses s t" and "use_def_ok t"
  shows "ir_ok t"
  using assms(1,3) same_but_uses_obs [OF assms(2)] same_but_uses_dom [OF assms(2)]
  by (simp add: ir_ok_defs graph_defs)

lemma ir_ok_use_def: "ir_ok s \<Longrightarrow> use_def_ok s"
  by (simp add: ir_ok_def)

lemma add_operand_same: "add_operand u v s = Inr t \<Longrightarrow> same_but_uses s t"
  by (erule add_operand_effect)

lemma preserves_operand_ops [pres]:
  "preserves ir_ok (updateM (add_operand u v))"
  "preserves ir_ok (updateM (set_operand u i v))"
  "preserves ir_ok (updateM (remove_all_operands u))"
proof -
  show "preserves ir_ok (updateM (add_operand u v))"
    by (rule preserves_updateM)
      (blast intro: ir_ok_same_but_uses add_operand_same add_operand_use_def_ok ir_ok_use_def)
  show "preserves ir_ok (updateM (set_operand u i v))"
    by (rule preserves_updateM)
      (blast intro: ir_ok_same_but_uses set_operand_effect(2) set_operand_use_def_ok ir_ok_use_def)
  show "preserves ir_ok (updateM (remove_all_operands u))"
    by (rule preserves_updateM)
      (blast intro: ir_ok_same_but_uses remove_all_operands_effect(1) remove_all_operands_use_def_ok ir_ok_use_def)
qed

lemma preserves_nonnull [pres]: "preserves P (nonnull x)"
  by (simp add: nonnull_def pres split: option.split)

subsection \<open>New objects\<close>

lemma new_value_run: "new_value t nm k s = Inr (v, s') \<Longrightarrow> v = next_id s"
  by (simp add: new_value_def)

lemma new_value_obs:
  assumes "ir_ok s" and "new_value t nm k s = Inr (v, s')"
  shows "uses_of s' = uses_of s" "operand_at s' = operand_at s" "kind_of s' = (kind_of s)(v \<mapsto> k)"
    "bbs s' = bbs s" "funcs s' = funcs s" "dom (vals s') = insert v (dom (vals s))"
    "next_id s' = Suc (next_id s)" "v = next_id s" "v \<notin> dom (vals s)" "v \<notin> dom (bbs s)" "v \<notin> dom (funcs s)"
proof -
  have "v = next_id s" using assms(2) by (rule new_value_run)
  moreover from this have "v \<notin> dom (vals s)" using assms(1) unfolding ir_ok_def ids_ok_def by blast
  ultimately show fresh: "v \<notin> dom (vals s)" "v \<notin> dom (bbs s)" "v \<notin> dom (funcs s)" "v = next_id s"
    using assms(1) ids_ok_dom [of s] unfolding ir_ok_def by blast+
  have new: "vals s' = (vals s)(v \<mapsto> \<lparr>vty = t, vname = nm, vuses = [], vops = [], vkind = k\<rparr>)"
    using assms(2) by (auto simp: new_value_def)
  have "ops_of s' w = ops_of s w" for w
    using fresh(1) by (cases "w = v") (auto simp: ops_of_def new split: option.split)
  then show "operand_at s' = operand_at s" by (simp add: operand_at_def fun_eq_iff)
  have "uses_of s' w = uses_of s w" for w
    using fresh(1) by (cases "w = v") (auto simp: uses_of_def new split: option.split)
  then show "uses_of s' = uses_of s" by (simp add: fun_eq_iff)
  show "kind_of s' = (kind_of s)(v \<mapsto> k)" by (auto simp: kind_of_def new fun_eq_iff)
  show "bbs s' = bbs s" "funcs s' = funcs s" "dom (vals s') = insert v (dom (vals s))"
    "next_id s' = Suc (next_id s)"
    using fresh assms(2) by (auto simp: new_value_def)
qed

lemma ir_ok_kind_dom: "i \<in> set (instrs s b) \<Longrightarrow> ir_ok s \<Longrightarrow> i \<in> dom (vals s)"
  by (fastforce simp: ir_ok_def placed_ok_def listed_ok_def kind_of_def)

lemma ir_ok_new_value:
  assumes ok: "ir_ok s" and run: "new_value t nm k s = Inr (v, s')"
  shows "ir_ok s'"
proof -
  note o = new_value_obs [OF ok run]
  have g: "preds s' = preds s" "succs s' = succs s" "instrs s' = instrs s" "blocks s' = blocks s"
    using o(4,5) by (simp_all add: graph_defs fun_eq_iff)
  have "use_def_ok s'"
  proof (rule use_def_okI)
    note D = use_def_okD [OF ir_ok_use_def [OF ok]]
    show "distinct (uses_of s' w)" for w using D(1) by (simp add: o(1))
    show "(u, i) \<in> set (uses_of s' w) \<longleftrightarrow> operand_at s' u i = Some w" for w u i
      using D(2) by (simp add: o(1,2))
    show "operand_at s' u i = Some w \<Longrightarrow> w \<in> dom (vals s')" for w u i
      using D(3) unfolding o(2,6) by blast
  qed
  moreover have "ids_ok s'"
    using ok o(8-11) unfolding ir_ok_def ids_ok_def o(3-7) by (auto simp: less_Suc_eq)
  moreover have "cfg_ok s'" "blocks_ok s'" using ok o(4) by (auto simp: ir_ok_defs g)
  moreover have "placed_ok s'"
  proof -
    have "kind_of s' i = kind_of s i" if "i \<in> set (instrs s b)" for i b
      using ir_ok_kind_dom [OF that ok] o(3,9) by auto
    then have "listed_ok (kind_of s') b (instrs s b) = listed_ok (kind_of s) b (instrs s b)" for b
      by (rule listed_ok_cong)
    then show ?thesis using ok by (simp add: ir_ok_def placed_ok_def g)
  qed
  ultimately show ?thesis by (simp add: ir_ok_def)
qed

lemma preserves_new_value [pres]: "preserves ir_ok (new_value t nm k)"
  by (rule preservesI) (rule ir_ok_new_value)

subsection \<open>The control-flow graph\<close>

lemma upd_bb_Inr_iff [simp]:
  "upd_bb b f s = Inr t \<longleftrightarrow> (\<exists>r. bbs s b = Some r \<and> t = s\<lparr>bbs := (bbs s)(b \<mapsto> f r)\<rparr>)"
  by (auto simp: upd_bb_def)

lemma count_list_snoc [simp]: "count_list (xs @ [y]) x = count_list xs x + (if x = y then 1 else 0)"
  by (induction xs) auto

text \<open>Two stores that differ in predecessor and successor lists only.\<close>

definition place_of :: "'z ir_scheme \<Rightarrow> vid \<Rightarrow> (vid list \<times> vid) option" where
  "place_of s b = map_option (\<lambda>r. (instr_list r, bparent r)) (bbs s b)"

definition same_but_edges :: "'z ir_scheme \<Rightarrow> 'z ir_scheme \<Rightarrow> bool" where
  "same_but_edges s t \<longleftrightarrow> place_of t = place_of s \<and> (\<exists>m. t = s\<lparr>bbs := m\<rparr>)"

lemma same_but_edges_refl [simp, intro]: "same_but_edges s s"
  unfolding same_but_edges_def by (intro conjI refl exI [of _ "bbs s"]) simp

lemma same_but_edges_trans [trans]:
  "same_but_edges s t \<Longrightarrow> same_but_edges t u \<Longrightarrow> same_but_edges s u"
  by (auto simp: same_but_edges_def)

lemma same_but_edges_obs:
  assumes "same_but_edges s t"
  shows "vals t = vals s" "funcs t = funcs s" "next_id t = next_id s"
    "dom (bbs t) = dom (bbs s)" "instrs t = instrs s"
    "(\<exists>r. bbs t b = Some r \<and> bparent r = f) \<longleftrightarrow> (\<exists>r. bbs s b = Some r \<and> bparent r = f)"
proof -
  have p: "place_of t = place_of s" using assms by (simp add: same_but_edges_def)
  show "vals t = vals s" "funcs t = funcs s" "next_id t = next_id s"
    using assms by (auto simp: same_but_edges_def)
  have d: "dom (bbs x) = {b. place_of x b \<noteq> None}" for x :: "'a ir_scheme"
    by (auto simp: place_of_def)
  show "dom (bbs t) = dom (bbs s)" unfolding d p ..
  have i: "instrs x b = (case place_of x b of None \<Rightarrow> [] | Some q \<Rightarrow> fst q)" for x :: "'a ir_scheme" and b
    by (simp add: instrs_def place_of_def split: option.split)
  show "instrs t = instrs s" by (simp add: fun_eq_iff i p)
  have f: "(\<exists>r. bbs x b = Some r \<and> bparent r = f) \<longleftrightarrow> (\<exists>q. place_of x b = Some q \<and> snd q = f)"
    for x :: "'a ir_scheme" and b f
    by (auto simp: place_of_def)
  show "(\<exists>r. bbs t b = Some r \<and> bparent r = f) \<longleftrightarrow> (\<exists>r. bbs s b = Some r \<and> bparent r = f)"
    by (simp only: f p)
qed

lemma ir_ok_same_but_edges:
  assumes ok: "ir_ok s" and same: "same_but_edges s t" and cfg: "cfg_ok t"
  shows "ir_ok t"
proof -
  note o = same_but_edges_obs [OF same] and v = vals_obs [OF same_but_edges_obs(1) [OF same]]
  have "blocks t = blocks s" by (simp add: blocks_def o fun_eq_iff)
  then have "blocks_ok t" using ok by (simp add: ir_ok_def blocks_ok_def o(6))
  then show ?thesis using ok cfg by (simp add: ir_ok_def ids_ok_def placed_ok_def o v)
qed

lemma add_pre_effect:
  assumes "add_pre_basic_block b p s = Inr t"
  shows "same_but_edges s t" "preds t = (preds s)(b := preds s b @ [p])" "succs t = succs s"
  using assms
  by (auto simp: add_pre_basic_block_def same_but_edges_def place_of_def preds_def succs_def fun_eq_iff)

lemma add_succ_effect:
  assumes "add_succ_basic_block b p s = Inr t"
  shows "same_but_edges s t" "succs t = (succs s)(b := succs s b @ [p])" "preds t = preds s"
  using assms
  by (auto simp: add_succ_basic_block_def same_but_edges_def place_of_def preds_def succs_def fun_eq_iff)

lemma remove_pre_effect:
  assumes "remove_pre_basic_block b p s = Inr t"
  shows "same_but_edges s t" "preds t = (preds s)(b := removeAll p (preds s b))" "succs t = succs s"
  using assms
  by (auto simp: remove_pre_basic_block_def same_but_edges_def place_of_def preds_def succs_def fun_eq_iff)

lemma remove_succ_effect:
  assumes "remove_succ_basic_block b p s = Inr t"
  shows "same_but_edges s t" "succs t = (succs s)(b := removeAll p (succs s b))" "preds t = preds s"
  using assms
  by (auto simp: remove_succ_basic_block_def same_but_edges_def place_of_def preds_def succs_def fun_eq_iff)

text \<open>The calls the branch constructor makes for one target and for two.\<close>

lemma ir_ok_link:
  assumes ok: "ir_ok s"
    and "add_pre_basic_block t b s = Inr s1" and "add_succ_basic_block b t s1 = Inr s2"
  shows "ir_ok s2"
proof -
  note e = add_pre_effect [OF assms(2)] add_succ_effect [OF assms(3)]
  have "cfg_ok s2" using ok by (simp add: ir_ok_def cfg_ok_def e)
  with ok show ?thesis using e(1,4) ir_ok_same_but_edges same_but_edges_trans by blast
qed

lemma ir_ok_link2:
  assumes ok: "ir_ok s"
    and "add_pre_basic_block t b s = Inr s1" and "add_pre_basic_block f b s1 = Inr s2"
    and "add_succ_basic_block b t s2 = Inr s3" and "add_succ_basic_block b f s3 = Inr s4"
  shows "ir_ok s4"
proof -
  note e = add_pre_effect [OF assms(2)] add_pre_effect [OF assms(3)]
    add_succ_effect [OF assms(4)] add_succ_effect [OF assms(5)]
  have "cfg_ok s4" using ok by (simp add: ir_ok_def cfg_ok_def e)
  moreover have "same_but_edges s s4" using e(1,4,7,10) same_but_edges_trans by blast
  ultimately show ?thesis using ok ir_ok_same_but_edges by blast
qed

lemma terminator_case [simp]:
  "(case op of O_ret \<Rightarrow> True | O_br \<Rightarrow> True | _ \<Rightarrow> False) = is_terminator_op op"
  by (cases op) (simp_all add: is_terminator_op_def)

lemma is_terminated_False:
  "is_terminated s b = Inr False \<longleftrightarrow> (\<exists>r. bbs s b = Some r \<and>
     (instr_list r \<noteq> [] \<longrightarrow> (\<exists>op p. kind_of s (last (instr_list r)) = Some (K_instr op p) \<and> \<not> is_terminator_op op)))"
  by (auto simp: is_terminated_def)

lemma ir_ok_add_instruction:
  assumes ok: "ir_ok s" and k: "kind_of s i = Some (K_instr op (Some b))" and new: "i \<notin> set (instrs s b)"
    and run: "add_instruction b i s = Inr t"
  shows "ir_ok t"
proof -
  obtain r where r: "bbs s b = Some r" and nt: "is_terminated s b = Inr False"
    and t: "t = s\<lparr>bbs := (bbs s)(b \<mapsto> r\<lparr>instr_list := instr_list r @ [i]\<rparr>)\<rparr>"
    using run by (auto simp: add_instruction_def)
  have p: "preds t = preds s" "succs t = succs s" "blocks t = blocks s"
    using r by (auto simp: graph_defs t fun_eq_iff)
  have q: "instrs t x = (if x = b then instrs s b @ [i] else instrs s x)" for x
    using r by (simp add: instrs_def t)
  have lb: "instrs s b = instr_list r" using r by (simp add: instrs_def)
  have l: "listed_ok (kind_of s) x (instrs s x)" for x using ok by (simp add: ir_ok_def placed_ok_def)
  have "\<exists>op. kind_of s (last (instrs s b)) = Some (K_instr op (Some b)) \<and> \<not> is_terminator_op op"
    if "instrs s b \<noteq> []"
    using nt that l [of b] r unfolding is_terminated_False listed_ok_def lb by force
  moreover have v: "kind_of t = kind_of s" "use_def_ok t = use_def_ok s" by (rule vals_obs, simp add: t)+
  ultimately have "placed_ok t" using l listed_ok_snoc [OF l new k] by (simp add: placed_ok_def q)
  moreover have "blocks_ok t"
    using ok r unfolding ir_ok_def blocks_ok_def p by (fastforce simp: t)
  moreover have "ids_ok t"
  proof -
    have "dom (bbs t) = dom (bbs s)" using r by (auto simp: t)
    moreover have "dom (funcs t) = dom (funcs s)" "dom (vals t) = dom (vals s)" "next_id t = next_id s"
      by (simp_all add: t)
    ultimately show ?thesis using ok by (simp add: ir_ok_def ids_ok_def v)
  qed
  ultimately show ?thesis using ok by (simp add: ir_ok_def cfg_ok_def p v)
qed

subsection \<open>Blocks, functions, globals and constants\<close>

lemma preserves_BasicBlock_create [pres]: "preserves ir_ok (BasicBlock_create nm f)"
proof (rule preservesI)
  fix s b t
  assume ok: "ir_ok s" and run: "BasicBlock_create nm f s = Inr (b, t)"
  obtain s1 rf where s1: "new_value LabelTy ((if nm = '''' then '''' else ''label_'') @ nm) K_block s = Inr (b, s1)"
    and rf: "funcs s1 f = Some rf"
    and t: "t = s1\<lparr>bbs := (bbs s1)(b \<mapsto> \<lparr>pre_bbs = [], succ_bbs = [], instr_list = [], bparent = f\<rparr>),
        funcs := (funcs s1)(f \<mapsto> rf\<lparr>basic_blocks := basic_blocks rf @ [b]\<rparr>)\<rparr>"
    using run by (auto simp: BasicBlock_create_def bindM_Inr_iff thenM_def modifyM_def updateM_def returnM_def)
  note ok1 = ir_ok_new_value [OF ok s1] and o = new_value_obs [OF ok s1]
  have fresh: "bbs s1 b = None" using o(4,10) by (simp add: domIff)
  have v: "kind_of t = kind_of s1" "use_def_ok t = use_def_ok s1" by (rule vals_obs, simp add: t)+
  have g: "preds t = preds s1" "succs t = succs s1" "instrs t = instrs s1"
    using fresh by (auto simp: graph_defs t fun_eq_iff)
  have bl: "blocks t x = (if x = f then blocks s1 f @ [b] else blocks s1 x)" for x
    using rf by (simp add: blocks_def t)
  have "b \<notin> set (blocks s1 x)" for x
    using ok1 fresh unfolding ir_ok_def blocks_ok_def by fastforce
  then have "blocks_ok t"
    using ok1 fresh unfolding ir_ok_def blocks_ok_def bl by (auto simp: t)
  moreover have "ids_ok t"
  proof -
    have "ids_ok s1" using ok1 by (simp add: ir_ok_def)
    then show ?thesis using o(3) rf unfolding ids_ok_def v by (auto simp: t domI)
  qed
  ultimately show "ir_ok t" using ok1 by (simp add: ir_ok_def cfg_ok_def placed_ok_def g v)
qed

lemma ir_ok_upd_arguments:
  assumes "ir_ok s" and "funcs s f = Some r"
  shows "ir_ok (s\<lparr>funcs := (funcs s)(f \<mapsto> r\<lparr>arguments := x\<rparr>)\<rparr>)" (is "ir_ok ?t")
proof -
  have v: "kind_of ?t = kind_of s" "use_def_ok ?t = use_def_ok s" by (rule vals_obs, simp)+
  have g: "preds ?t = preds s" "succs ?t = succs s" "instrs ?t = instrs s" "blocks ?t = blocks s"
    using assms(2) by (auto simp: graph_defs fun_eq_iff)
  show ?thesis using assms
    by (fastforce simp: ir_ok_def cfg_ok_def placed_ok_def blocks_ok_def ids_ok_def g v)
qed

lemma preserves_build_args [pres]: "preserves ir_ok (build_args f i ts)"
proof (induction ts arbitrary: i)
  case (Cons t ts)
  have "preserves ir_ok (updateM (\<lambda>s. bindR (deref (funcs s) f) (\<lambda>r.
      Inr (s\<lparr>funcs := (funcs s)(f \<mapsto> r\<lparr>arguments := arguments r @ [a]\<rparr>)\<rparr>))))" for a
    by (rule preserves_updateM) (auto intro: ir_ok_upd_arguments)
  with Cons show ?case by (auto intro!: pres)
qed (simp add: pres)

lemma preserves_Function_create [pres]: "preserves ir_ok (Function_create retty params nm)"
proof -
  have new: "preserves ir_ok (bindM (new_value t nm K_func) (\<lambda>f. thenM (modifyM (\<lambda>s.
      s\<lparr>function_list := function_list s @ [f],
        funcs := (funcs s)(f \<mapsto> \<lparr>basic_blocks = [], arguments = [], seq_cnt = 0\<rparr>)\<rparr>)) (m f)))"
    if m: "\<And>f. preserves ir_ok (m f)" for t nm and m :: "vid \<Rightarrow> ('a ir_scheme, 'c) sm"
  proof (rule preservesI)
    fix s x and t' :: "'a ir_scheme"
    assume ok: "ir_ok s" and run: "bindM (new_value t nm K_func) (\<lambda>f. thenM (modifyM (\<lambda>s.
      s\<lparr>function_list := function_list s @ [f],
        funcs := (funcs s)(f \<mapsto> \<lparr>basic_blocks = [], arguments = [], seq_cnt = 0\<rparr>)\<rparr>)) (m f)) s = Inr (x, t')"
    obtain f s1 where s1: "new_value t nm K_func s = Inr (f, s1)"
      and rest: "m f (s1\<lparr>function_list := function_list s1 @ [f],
        funcs := (funcs s1)(f \<mapsto> \<lparr>basic_blocks = [], arguments = [], seq_cnt = 0\<rparr>)\<rparr>) = Inr (x, t')"
      using run by (auto simp: bindM_Inr_iff thenM_def modifyM_def)
    let ?s2 = "s1\<lparr>function_list := function_list s1 @ [f],
        funcs := (funcs s1)(f \<mapsto> \<lparr>basic_blocks = [], arguments = [], seq_cnt = 0\<rparr>)\<rparr>"
    note ok1 = ir_ok_new_value [OF ok s1] and o = new_value_obs [OF ok s1]
    have fresh: "funcs s1 f = None" using o(5,11) by (simp add: domIff)
    have v: "kind_of ?s2 = kind_of s1" "use_def_ok ?s2 = use_def_ok s1" by (rule vals_obs, simp)+
    have g: "preds ?s2 = preds s1" "succs ?s2 = succs s1" "instrs ?s2 = instrs s1" "blocks ?s2 = blocks s1"
      using fresh by (auto simp: graph_defs fun_eq_iff)
    have "ir_ok ?s2"
      using ok1 o(3) by (auto simp: ir_ok_def cfg_ok_def placed_ok_def blocks_ok_def ids_ok_def g v)
    then show "ir_ok t'" using preservesD [OF m _ rest] by blast
  qed
  show ?thesis unfolding Function_create_def by (intro new pres)
qed

lemma preserves_globals_and_constants [pres]:
  "preserves ir_ok (GlobalVariable_create nm t is_const init)"
  "preserves ir_ok (ConstantInt_get_int val)"
  "preserves ir_ok (ConstantInt_get_bool b)"
  "preserves ir_ok (ConstantFP_get x)"
  "preserves ir_ok (ConstantZero_get t)"
  "preserves ir_ok (UndefValue_get t)"
  unfolding GlobalVariable_create_def ConstantInt_get_int_def ConstantInt_get_bool_def
    ConstantFP_get_def ConstantZero_get_def UndefValue_get_def
  by (intro pres; simp add: pres)+

lemma set_operands_from_fails:
  assumes "ir_ok s" and "new_value t nm k s = Inr (a, s1)" and "vs \<noteq> []"
  shows "set_operands_from a 0 vs s1 = Inl (Assert_fail ''set_operand out of index'')"
proof -
  have "\<exists>r. vals s1 a = Some r \<and> vops r = []" using assms(2) by (auto simp: new_value_def)
  with assms(3) show ?thesis by (cases vs) (auto simp: set_operand_def)
qed

lemma preserves_ConstantArray_get [pres]: "preserves ir_ok (ConstantArray_get t vs)"
proof (rule preservesI)
  fix s a s'
  assume ok: "ir_ok s" and run: "ConstantArray_get t vs s = Inr (a, s')"
  obtain s1 where s1: "new_value t '''' (K_array vs) s = Inr (a, s1)"
    and s': "set_operands_from a 0 vs s1 = Inr s'"
    using run by (auto simp: ConstantArray_get_def bindM_Inr_iff thenM_def updateM_def returnM_def)
  have "vs = []" using set_operands_from_fails [OF ok s1] s' by fastforce
  with s' ir_ok_new_value [OF ok s1] show "ir_ok s'" by simp
qed

end
