(* ===== verification/Instructions.thy ===== *)
theory Instructions
  imports IRModule
begin

text \<open>
  The instruction classes (\<open>include/lightir/Instruction.hpp\<close>,
  \<open>src/lightir/Instruction.cpp\<close>): one constructor per class with its assertions and
  its operands, the static \<open>create_*\<close> functions, and the \<open>IRBuilder\<close> that calls them at
  the insert block (\<open>include/lightir/IRBuilder.hpp\<close>). Pointers that the code
  dereferences without a test are addresses; \<open>BB_\<close>, which may be null, is an option.
\<close>

section \<open>\<open>Instruction\<close>\<close>

definition is_void_instr :: "opid \<Rightarrow> ty \<Rightarrow> bool" where
  "is_void_instr op t = (op = O_ret \<or> op = O_br \<or> op = O_store \<or> (op = O_call \<and> is_void_type t))"

definition is_cmp :: "opid \<Rightarrow> bool" where
  "is_cmp op = (op \<in> {O_ge, O_gt, O_le, O_lt, O_eq, O_ne})"

definition is_fcmp :: "opid \<Rightarrow> bool" where
  "is_fcmp op = (op \<in> {O_fge, O_fgt, O_fle, O_flt, O_feq, O_fne})"

definition isBinary :: "opid \<Rightarrow> nat \<Rightarrow> bool" where
  "isBinary op num_operand =
     (op \<in> {O_add, O_sub, O_mul, O_sdiv, O_fadd, O_fsub, O_fmul, O_fdiv} \<and> num_operand = 2)"

definition Instruction_ctor :: "ty \<Rightarrow> opid \<Rightarrow> vid option \<Rightarrow> ('z ir_scheme, vid) sm" where
  "Instruction_ctor t op parent =
     bindM (new_value t '''' (K_instr op parent)) (\<lambda>i.
     thenM (case parent of None \<Rightarrow> returnM () | Some b \<Rightarrow> updateM (add_instruction b i))
    (returnM i))"

definition set_parent :: "vid \<Rightarrow> vid option \<Rightarrow> 'z ir_scheme \<Rightarrow> 'z ir_scheme res" where
  "set_parent i p s = bindR (instr_op s i) (\<lambda>op. upd_val i (\<lambda>r. r\<lparr>vkind := K_instr op p\<rparr>) s)"

text \<open>Appending a list of operands, and the checks some constructors make per operand.\<close>

definition add_op :: "vid \<Rightarrow> vid \<Rightarrow> ('z ir_scheme, unit) sm" where
  "add_op i v = updateM (add_operand i (Some v))"

definition ty_of :: "vid \<Rightarrow> ('z ir_scheme, ty) sm" where
  "ty_of v = readM (\<lambda>s. type_of s v)"

section \<open>Arithmetic and comparisons\<close>

definition IBinaryInst_ctor :: "opid \<Rightarrow> vid \<Rightarrow> vid \<Rightarrow> vid \<Rightarrow> ('z ir_scheme, vid) sm" where
  "IBinaryInst_ctor op v1 v2 bb =
     bindM (Instruction_ctor int32_ty op (Some bb)) (\<lambda>i.
     bindM (ty_of v1) (\<lambda>t1. bindM (ty_of v2) (\<lambda>t2.
     thenM (guardM (is_int32_type t1 \<and> is_int32_type t2)
              (Assert_fail ''IBinaryInst operands are not both i32''))
    (thenM (add_op i v1) (thenM (add_op i v2) (returnM i))))))"

definition FBinaryInst_ctor :: "opid \<Rightarrow> vid \<Rightarrow> vid \<Rightarrow> vid \<Rightarrow> ('z ir_scheme, vid) sm" where
  "FBinaryInst_ctor op v1 v2 bb =
     bindM (Instruction_ctor FloatTy op (Some bb)) (\<lambda>i.
     bindM (ty_of v1) (\<lambda>t1. bindM (ty_of v2) (\<lambda>t2.
     thenM (guardM (is_float_type t1 \<and> is_float_type t2)
              (Assert_fail ''FBinaryInst operands are not both float''))
    (thenM (add_op i v1) (thenM (add_op i v2) (returnM i))))))"

definition CmpInst_ctor :: "opid \<Rightarrow> vid \<Rightarrow> vid \<Rightarrow> vid \<Rightarrow> ('z ir_scheme, vid) sm" where
  "CmpInst_ctor op lhs rhs bb =
     bindM (Instruction_ctor int1_ty op (Some bb)) (\<lambda>i.
     thenM (add_op i lhs) (thenM (add_op i rhs) (returnM i)))"

definition ICmpInst_ctor :: "opid \<Rightarrow> vid \<Rightarrow> vid \<Rightarrow> vid \<Rightarrow> ('z ir_scheme, vid) sm" where
  "ICmpInst_ctor op lhs rhs bb =
     bindM (CmpInst_ctor op lhs rhs bb) (\<lambda>i.
     bindM (ty_of lhs) (\<lambda>t1. bindM (ty_of rhs) (\<lambda>t2.
     thenM (guardM (is_int32_type t1 \<and> is_int32_type t2)
              (Assert_fail ''CmpInst operands are not both i32''))
    (returnM i))))"

definition FCmpInst_ctor :: "opid \<Rightarrow> vid \<Rightarrow> vid \<Rightarrow> vid \<Rightarrow> ('z ir_scheme, vid) sm" where
  "FCmpInst_ctor op lhs rhs bb =
     bindM (CmpInst_ctor op lhs rhs bb) (\<lambda>i.
     bindM (ty_of lhs) (\<lambda>t1. bindM (ty_of rhs) (\<lambda>t2.
     thenM (guardM (is_float_type t1 \<and> is_float_type t2)
              (Assert_fail ''FCmpInst operands are not both float''))
    (returnM i))))"

definition create_add :: "vid \<Rightarrow> vid \<Rightarrow> vid \<Rightarrow> ('z ir_scheme, vid) sm" where
  "create_add v1 v2 bb = IBinaryInst_ctor O_add v1 v2 bb"

definition create_sub :: "vid \<Rightarrow> vid \<Rightarrow> vid \<Rightarrow> ('z ir_scheme, vid) sm" where
  "create_sub v1 v2 bb = IBinaryInst_ctor O_sub v1 v2 bb"

definition create_mul :: "vid \<Rightarrow> vid \<Rightarrow> vid \<Rightarrow> ('z ir_scheme, vid) sm" where
  "create_mul v1 v2 bb = IBinaryInst_ctor O_mul v1 v2 bb"

definition create_sdiv :: "vid \<Rightarrow> vid \<Rightarrow> vid \<Rightarrow> ('z ir_scheme, vid) sm" where
  "create_sdiv v1 v2 bb = IBinaryInst_ctor O_sdiv v1 v2 bb"

definition create_fadd :: "vid \<Rightarrow> vid \<Rightarrow> vid \<Rightarrow> ('z ir_scheme, vid) sm" where
  "create_fadd v1 v2 bb = FBinaryInst_ctor O_fadd v1 v2 bb"

definition create_fsub :: "vid \<Rightarrow> vid \<Rightarrow> vid \<Rightarrow> ('z ir_scheme, vid) sm" where
  "create_fsub v1 v2 bb = FBinaryInst_ctor O_fsub v1 v2 bb"

definition create_fmul :: "vid \<Rightarrow> vid \<Rightarrow> vid \<Rightarrow> ('z ir_scheme, vid) sm" where
  "create_fmul v1 v2 bb = FBinaryInst_ctor O_fmul v1 v2 bb"

definition create_fdiv :: "vid \<Rightarrow> vid \<Rightarrow> vid \<Rightarrow> ('z ir_scheme, vid) sm" where
  "create_fdiv v1 v2 bb = FBinaryInst_ctor O_fdiv v1 v2 bb"

definition create_ge :: "vid \<Rightarrow> vid \<Rightarrow> vid \<Rightarrow> ('z ir_scheme, vid) sm" where
  "create_ge v1 v2 bb = ICmpInst_ctor O_ge v1 v2 bb"

definition create_gt :: "vid \<Rightarrow> vid \<Rightarrow> vid \<Rightarrow> ('z ir_scheme, vid) sm" where
  "create_gt v1 v2 bb = ICmpInst_ctor O_gt v1 v2 bb"

definition create_le :: "vid \<Rightarrow> vid \<Rightarrow> vid \<Rightarrow> ('z ir_scheme, vid) sm" where
  "create_le v1 v2 bb = ICmpInst_ctor O_le v1 v2 bb"

definition create_lt :: "vid \<Rightarrow> vid \<Rightarrow> vid \<Rightarrow> ('z ir_scheme, vid) sm" where
  "create_lt v1 v2 bb = ICmpInst_ctor O_lt v1 v2 bb"

definition create_eq :: "vid \<Rightarrow> vid \<Rightarrow> vid \<Rightarrow> ('z ir_scheme, vid) sm" where
  "create_eq v1 v2 bb = ICmpInst_ctor O_eq v1 v2 bb"

definition create_ne :: "vid \<Rightarrow> vid \<Rightarrow> vid \<Rightarrow> ('z ir_scheme, vid) sm" where
  "create_ne v1 v2 bb = ICmpInst_ctor O_ne v1 v2 bb"

definition create_fge :: "vid \<Rightarrow> vid \<Rightarrow> vid \<Rightarrow> ('z ir_scheme, vid) sm" where
  "create_fge v1 v2 bb = FCmpInst_ctor O_fge v1 v2 bb"

definition create_fgt :: "vid \<Rightarrow> vid \<Rightarrow> vid \<Rightarrow> ('z ir_scheme, vid) sm" where
  "create_fgt v1 v2 bb = FCmpInst_ctor O_fgt v1 v2 bb"

definition create_fle :: "vid \<Rightarrow> vid \<Rightarrow> vid \<Rightarrow> ('z ir_scheme, vid) sm" where
  "create_fle v1 v2 bb = FCmpInst_ctor O_fle v1 v2 bb"

definition create_flt :: "vid \<Rightarrow> vid \<Rightarrow> vid \<Rightarrow> ('z ir_scheme, vid) sm" where
  "create_flt v1 v2 bb = FCmpInst_ctor O_flt v1 v2 bb"

definition create_feq :: "vid \<Rightarrow> vid \<Rightarrow> vid \<Rightarrow> ('z ir_scheme, vid) sm" where
  "create_feq v1 v2 bb = FCmpInst_ctor O_feq v1 v2 bb"

definition create_fne :: "vid \<Rightarrow> vid \<Rightarrow> vid \<Rightarrow> ('z ir_scheme, vid) sm" where
  "create_fne v1 v2 bb = FCmpInst_ctor O_fne v1 v2 bb"

fun icmp_get_swapped_predicate :: "opid \<Rightarrow> opid res" where
  "icmp_get_swapped_predicate O_ge = Inr O_le"
| "icmp_get_swapped_predicate O_gt = Inr O_lt"
| "icmp_get_swapped_predicate O_le = Inr O_ge"
| "icmp_get_swapped_predicate O_lt = Inr O_gt"
| "icmp_get_swapped_predicate O_eq = Inr O_eq"
| "icmp_get_swapped_predicate O_ne = Inr O_ne"
| "icmp_get_swapped_predicate _ = Inl (Assert_fail ''unexpected icmp predicate'')"

fun fcmp_get_swapped_predicate :: "opid \<Rightarrow> opid res" where
  "fcmp_get_swapped_predicate O_fge = Inr O_fle"
| "fcmp_get_swapped_predicate O_fgt = Inr O_flt"
| "fcmp_get_swapped_predicate O_fle = Inr O_fge"
| "fcmp_get_swapped_predicate O_flt = Inr O_fgt"
| "fcmp_get_swapped_predicate O_feq = Inr O_feq"
| "fcmp_get_swapped_predicate O_fne = Inr O_fne"
| "fcmp_get_swapped_predicate _ = Inl (Assert_fail ''unexpected fcmp predicate'')"

section \<open>Calls and terminators\<close>

fun add_call_args :: "vid \<Rightarrow> ty list \<Rightarrow> vid list \<Rightarrow> ('z ir_scheme, unit) sm" where
  "add_call_args i ts [] = returnM ()"
| "add_call_args i [] (v # vs) = failM Out_of_range"
| "add_call_args i (t # ts) (v # vs) =
     bindM (ty_of v) (\<lambda>tv.
     thenM (guardM (t = tv) (Assert_fail ''CallInst: Wrong arg type''))
    (thenM (add_op i v) (add_call_args i ts vs)))"

definition CallInst_ctor :: "vid \<Rightarrow> vid list \<Rightarrow> vid \<Rightarrow> ('z ir_scheme, vid) sm" where
  "CallInst_ctor func args bb =
     bindM (readM (\<lambda>s. get_function_type_of s func)) (\<lambda>ft.
     bindM (Instruction_ctor (fst ft) O_call (Some bb)) (\<lambda>i.
     thenM (guardM (length (snd ft) = length args) (Assert_fail ''Wrong number of args''))
    (thenM (add_op i func)
    (thenM (add_call_args i (snd ft) args)
    (returnM i)))))"

definition create_call :: "vid \<Rightarrow> vid list \<Rightarrow> vid \<Rightarrow> ('z ir_scheme, vid) sm" where
  "create_call func args bb = CallInst_ctor func args bb"

definition BranchInst_ctor ::
  "vid option \<Rightarrow> vid \<Rightarrow> vid option \<Rightarrow> vid \<Rightarrow> ('z ir_scheme, vid) sm" where
  "BranchInst_ctor cond if_true if_false bb =
     bindM (Instruction_ctor VoidTy O_br (Some bb)) (\<lambda>i.
     case cond of
       None \<Rightarrow>
         thenM (guardM (if_false = None) (Assert_fail ''Given false-bb on conditionless jump''))
        (thenM (add_op i if_true)
        (thenM (updateM (\<lambda>s. bindR (add_pre_basic_block if_true bb s)
                               (add_succ_basic_block bb if_true)))
        (returnM i)))
     | Some c \<Rightarrow>
         bindM (ty_of c) (\<lambda>tc.
         thenM (guardM (is_int1_type tc) (Assert_fail ''BranchInst condition is not i1''))
        (thenM (add_op i c)
        (thenM (add_op i if_true)
        (thenM (updateM (add_operand i if_false))
        (bindM (nonnull if_false) (\<lambda>ff.
         thenM (updateM (\<lambda>s. bindR (add_pre_basic_block if_true bb s) (\<lambda>s1.
                               bindR (add_pre_basic_block ff bb s1) (\<lambda>s2.
                               bindR (add_succ_basic_block bb if_true s2)
                                     (add_succ_basic_block bb ff)))))
        (returnM i))))))))"

definition create_cond_br :: "vid \<Rightarrow> vid \<Rightarrow> vid \<Rightarrow> vid \<Rightarrow> ('z ir_scheme, vid) sm" where
  "create_cond_br cond if_true if_false bb = BranchInst_ctor (Some cond) if_true (Some if_false) bb"

definition create_br :: "vid \<Rightarrow> vid \<Rightarrow> ('z ir_scheme, vid) sm" where
  "create_br if_true bb = BranchInst_ctor None if_true None bb"

text \<open>The return type of the function that contains the block.\<close>

definition bb_return_type :: "vid \<Rightarrow> ('z ir_scheme, ty) sm" where
  "bb_return_type bb = readM (\<lambda>s. bindR (deref (bbs s) bb) (\<lambda>r. get_return_type s (bparent r)))"

definition ReturnInst_ctor :: "vid option \<Rightarrow> vid \<Rightarrow> ('z ir_scheme, vid) sm" where
  "ReturnInst_ctor val bb =
     bindM (Instruction_ctor VoidTy O_ret (Some bb)) (\<lambda>i.
     bindM (bb_return_type bb) (\<lambda>rt.
     case val of
       None \<Rightarrow> thenM (guardM (is_void_type rt) (Assert_fail '''')) (returnM i)
     | Some v \<Rightarrow>
         bindM (ty_of v) (\<lambda>tv.
         thenM (guardM (\<not> is_void_type rt) (Assert_fail ''Void function returning a value''))
        (thenM (guardM (rt = tv)
                  (Assert_fail ''ReturnInst type is different from function return type''))
        (thenM (add_op i v) (returnM i))))))"

definition create_ret :: "vid option \<Rightarrow> vid \<Rightarrow> ('z ir_scheme, vid) sm" where
  "create_ret val bb = ReturnInst_ctor val bb"

definition create_void_ret :: "vid \<Rightarrow> ('z ir_scheme, vid) sm" where
  "create_void_ret bb = ReturnInst_ctor None bb"

section \<open>Memory\<close>

text \<open>The loop of \<open>GetElementPtrInst::get_element_type\<close> from index \<open>i\<close> to \<open>n - 1\<close>:
  \<open>t\<close> is the type reached and \<open>arr\<close> the last array type seen. The measure is what is
  left of the index list.\<close>

function gep_walk :: "nat \<Rightarrow> nat \<Rightarrow> ty \<Rightarrow> ty \<Rightarrow> ty res" where
  "gep_walk n i arr t =
     (if i < n then
        bindR (get_array_element_type arr) (\<lambda>t'.
        bindR (guardR (i < n - 1 \<longrightarrow> is_array_type t') (Assert_fail ''Index error!'')) (\<lambda>_.
        gep_walk n (Suc i) (if is_array_type t' then t' else arr) t'))
      else Inr t)"
  by pat_completeness auto
termination by (relation "measure (\<lambda>(n, i, arr, t). n - i)") auto

declare gep_walk.simps [simp del]

definition gep_element_type :: "ty \<Rightarrow> nat \<Rightarrow> ty res" where
  "gep_element_type ptr_ty num_idxs =
     bindR (guardR (is_pointer_type ptr_ty)
              (Assert_fail ''GetElementPtrInst ptr is not a pointer'')) (\<lambda>_.
     bindR (get_pointer_element_type ptr_ty) (\<lambda>t.
     bindR (guardR (is_array_type t \<or> is_integer_type t \<or> is_float_type t)
              (Assert_fail ''GetElementPtrInst ptr is wrong type'')) (\<lambda>_.
     if is_array_type t then gep_walk num_idxs 1 t t else Inr t)))"

fun add_indices :: "vid \<Rightarrow> vid list \<Rightarrow> ('z ir_scheme, unit) sm" where
  "add_indices i [] = returnM ()"
| "add_indices i (v # vs) =
     bindM (ty_of v) (\<lambda>tv.
     thenM (guardM (is_integer_type tv) (Assert_fail ''Index is not integer''))
    (thenM (add_op i v) (add_indices i vs)))"

definition GetElementPtrInst_ctor :: "vid \<Rightarrow> vid list \<Rightarrow> vid \<Rightarrow> ('z ir_scheme, vid) sm" where
  "GetElementPtrInst_ctor ptr idxs bb =
     bindM (ty_of ptr) (\<lambda>tp.
     bindM (readM (\<lambda>_. bindR (gep_element_type tp (length idxs)) PointerType_ctor)) (\<lambda>t.
     bindM (Instruction_ctor t O_getelementptr (Some bb)) (\<lambda>i.
     thenM (add_op i ptr)
    (thenM (add_indices i idxs)
    (returnM i)))))"

definition create_gep :: "vid \<Rightarrow> vid list \<Rightarrow> vid \<Rightarrow> ('z ir_scheme, vid) sm" where
  "create_gep ptr idxs bb = GetElementPtrInst_ctor ptr idxs bb"

definition StoreInst_ctor :: "vid \<Rightarrow> vid \<Rightarrow> vid \<Rightarrow> ('z ir_scheme, vid) sm" where
  "StoreInst_ctor val ptr bb =
     bindM (Instruction_ctor VoidTy O_store (Some bb)) (\<lambda>i.
     bindM (ty_of ptr) (\<lambda>tp.
     bindM (readM (\<lambda>_. get_pointer_element_type tp)) (\<lambda>te.
     bindM (ty_of val) (\<lambda>tv.
     thenM (guardM (te = tv) (Assert_fail ''StoreInst ptr is not a pointer to val type''))
    (thenM (add_op i val) (thenM (add_op i ptr) (returnM i)))))))"

definition create_store :: "vid \<Rightarrow> vid \<Rightarrow> vid \<Rightarrow> ('z ir_scheme, vid) sm" where
  "create_store val ptr bb = StoreInst_ctor val ptr bb"

definition LoadInst_ctor :: "vid \<Rightarrow> vid \<Rightarrow> ('z ir_scheme, vid) sm" where
  "LoadInst_ctor ptr bb =
     bindM (ty_of ptr) (\<lambda>tp.
     bindM (readM (\<lambda>_. get_pointer_element_type tp)) (\<lambda>te.
     bindM (Instruction_ctor te O_load (Some bb)) (\<lambda>i.
     thenM (guardM (is_integer_type te \<or> is_float_type te \<or> is_pointer_type te)
              (Assert_fail ''Should not load value with type except int/float''))
    (thenM (add_op i ptr) (returnM i)))))"

definition create_load :: "vid \<Rightarrow> vid \<Rightarrow> ('z ir_scheme, vid) sm" where
  "create_load ptr bb = LoadInst_ctor ptr bb"

definition AllocaInst_ctor :: "ty \<Rightarrow> vid \<Rightarrow> ('z ir_scheme, vid) sm" where
  "AllocaInst_ctor t bb =
     bindM (readM (\<lambda>_. PointerType_ctor t)) (\<lambda>pt.
     bindM (Instruction_ctor pt O_alloca (Some bb)) (\<lambda>i.
     thenM (guardM (get_type_id t \<in> {IntegerTyID, FloatTyID, ArrayTyID, PointerTyID})
              (Assert_fail ''Not allowed type for alloca''))
    (returnM i)))"

definition create_alloca :: "ty \<Rightarrow> vid \<Rightarrow> ('z ir_scheme, vid) sm" where
  "create_alloca t bb = AllocaInst_ctor t bb"

section \<open>Conversions and phi\<close>

definition ZextInst_ctor :: "vid \<Rightarrow> ty \<Rightarrow> vid \<Rightarrow> ('z ir_scheme, vid) sm" where
  "ZextInst_ctor val t bb =
     bindM (Instruction_ctor t O_zext (Some bb)) (\<lambda>i.
     bindM (ty_of val) (\<lambda>tv.
     thenM (guardM (is_integer_type tv) (Assert_fail ''ZextInst operand is not integer''))
    (thenM (guardM (is_integer_type t) (Assert_fail ''ZextInst destination type is not integer''))
    (thenM (guardM (get_num_bits tv < get_num_bits t) (Assert_fail
       ''ZextInst operand bit size is not smaller than destination type bit size''))
    (thenM (add_op i val) (returnM i))))))"

definition create_zext :: "vid \<Rightarrow> ty \<Rightarrow> vid \<Rightarrow> ('z ir_scheme, vid) sm" where
  "create_zext val t bb = ZextInst_ctor val t bb"

definition create_zext_to_i32 :: "vid \<Rightarrow> vid \<Rightarrow> ('z ir_scheme, vid) sm" where
  "create_zext_to_i32 val bb = ZextInst_ctor val int32_ty bb"

definition FpToSiInst_ctor :: "vid \<Rightarrow> ty \<Rightarrow> vid \<Rightarrow> ('z ir_scheme, vid) sm" where
  "FpToSiInst_ctor val t bb =
     bindM (Instruction_ctor t O_fptosi (Some bb)) (\<lambda>i.
     bindM (ty_of val) (\<lambda>tv.
     thenM (guardM (is_float_type tv) (Assert_fail ''FpToSiInst operand is not float''))
    (thenM (guardM (is_integer_type t) (Assert_fail ''FpToSiInst destination type is not integer''))
    (thenM (add_op i val) (returnM i)))))"

definition create_fptosi :: "vid \<Rightarrow> ty \<Rightarrow> vid \<Rightarrow> ('z ir_scheme, vid) sm" where
  "create_fptosi val t bb = FpToSiInst_ctor val t bb"

definition create_fptosi_to_i32 :: "vid \<Rightarrow> vid \<Rightarrow> ('z ir_scheme, vid) sm" where
  "create_fptosi_to_i32 val bb = FpToSiInst_ctor val int32_ty bb"

definition SiToFpInst_ctor :: "vid \<Rightarrow> ty \<Rightarrow> vid \<Rightarrow> ('z ir_scheme, vid) sm" where
  "SiToFpInst_ctor val t bb =
     bindM (Instruction_ctor t O_sitofp (Some bb)) (\<lambda>i.
     bindM (ty_of val) (\<lambda>tv.
     thenM (guardM (is_integer_type tv) (Assert_fail ''SiToFpInst operand is not integer''))
    (thenM (guardM (is_float_type t) (Assert_fail ''SiToFpInst destination type is not float''))
    (thenM (add_op i val) (returnM i)))))"

definition create_sitofp :: "vid \<Rightarrow> vid \<Rightarrow> ('z ir_scheme, vid) sm" where
  "create_sitofp val bb = SiToFpInst_ctor val FloatTy bb"

fun add_phi_pairs :: "vid \<Rightarrow> ty \<Rightarrow> (vid \<times> vid) list \<Rightarrow> ('z ir_scheme, unit) sm" where
  "add_phi_pairs i t [] = returnM ()"
| "add_phi_pairs i t ((v, b) # ps) =
     bindM (ty_of v) (\<lambda>tv.
     thenM (guardM (t = tv) (Assert_fail ''Bad type for phi''))
    (thenM (add_op i v) (thenM (add_op i b) (add_phi_pairs i t ps))))"

text \<open>A phi is made without a block and then told its parent; it is in no instruction
  list until \<open>add_instr_begin\<close>.\<close>

definition PhiInst_ctor :: "ty \<Rightarrow> vid list \<Rightarrow> vid list \<Rightarrow> vid \<Rightarrow> ('z ir_scheme, vid) sm" where
  "PhiInst_ctor t vs val_bbs bb =
     bindM (Instruction_ctor t O_phi None) (\<lambda>i.
     thenM (guardM (length vs = length val_bbs) (Assert_fail ''Unmatched vals and bbs''))
    (thenM (add_phi_pairs i t (zip vs val_bbs))
    (thenM (updateM (set_parent i (Some bb)))
    (returnM i))))"

definition create_phi :: "ty \<Rightarrow> vid \<Rightarrow> vid list \<Rightarrow> vid list \<Rightarrow> ('z ir_scheme, vid) sm" where
  "create_phi t bb vs val_bbs = PhiInst_ctor t vs val_bbs bb"

definition add_phi_pair_operand :: "vid \<Rightarrow> vid \<Rightarrow> vid \<Rightarrow> ('z ir_scheme, unit) sm" where
  "add_phi_pair_operand i v pre_bb = thenM (add_op i v) (add_op i pre_bb)"

section \<open>The constructors keep the invariant\<close>

lemma preserves_Instruction_ctor [pres]: "preserves ir_ok (Instruction_ctor t op parent)"
proof (rule preservesI)
  fix s i s'
  assume ok: "ir_ok s" and run: "Instruction_ctor t op parent s = Inr (i, s')"
  obtain s1 where s1: "new_value t '''' (K_instr op parent) s = Inr (i, s1)"
    and rest: "(case parent of None \<Rightarrow> s' = s1 | Some b \<Rightarrow> add_instruction b i s1 = Inr s')"
    using run by (cases parent)
      (auto simp: Instruction_ctor_def bindM_Inr_iff thenM_def updateM_def returnM_def)
  note ok1 = ir_ok_new_value [OF ok s1] and o = new_value_obs [OF ok s1]
  show "ir_ok s'"
  proof (cases parent)
    case None
    then show ?thesis using rest ok1 by simp
  next
    case (Some b)
    have "i \<notin> set (instrs s1 b)"
      using ir_ok_kind_dom [of i s b] ok o(4,9) by (auto simp: instrs_def)
    moreover have "kind_of s1 i = Some (K_instr op (Some b))" using o(3) Some by simp
    moreover have "add_instruction b i s1 = Inr s'" using rest Some by simp
    ultimately show ?thesis using ir_ok_add_instruction [OF ok1] by blast
  qed
qed

lemma preserves_add_op [pres]: "preserves ir_ok (add_op i v)"
  by (simp add: add_op_def pres)

lemma preserves_ty_of [pres]: "preserves P (ty_of v)"
  by (simp add: ty_of_def pres)

lemma preserves_bb_return_type [pres]: "preserves P (bb_return_type b)"
  by (simp add: bb_return_type_def pres)

lemma preserves_arithmetic [pres]:
  "preserves ir_ok (IBinaryInst_ctor op v1 v2 bb)"
  "preserves ir_ok (FBinaryInst_ctor op v1 v2 bb)"
  "preserves ir_ok (CmpInst_ctor op v1 v2 bb)"
  unfolding IBinaryInst_ctor_def FBinaryInst_ctor_def CmpInst_ctor_def by (intro pres)+

lemma preserves_comparisons [pres]:
  "preserves ir_ok (ICmpInst_ctor op v1 v2 bb)"
  "preserves ir_ok (FCmpInst_ctor op v1 v2 bb)"
  unfolding ICmpInst_ctor_def FCmpInst_ctor_def by (intro pres)+

lemma preserves_add_call_args [pres]: "preserves ir_ok (add_call_args i ts vs)"
  by (induction i ts vs rule: add_call_args.induct) (auto intro!: pres)

lemma preserves_add_indices [pres]: "preserves ir_ok (add_indices i vs)"
  by (induction i vs rule: add_indices.induct) (auto intro!: pres)

lemma preserves_link [pres]:
  "preserves ir_ok (updateM (\<lambda>s. bindR (add_pre_basic_block t b s) (add_succ_basic_block b t)))"
  "preserves ir_ok (updateM (\<lambda>s. bindR (add_pre_basic_block t b s) (\<lambda>s1.
     bindR (add_pre_basic_block f b s1) (\<lambda>s2.
     bindR (add_succ_basic_block b t s2) (add_succ_basic_block b f)))))"
  by (rule preserves_updateM; auto intro: ir_ok_link ir_ok_link2)+

lemma preserves_calls_and_terminators [pres]:
  "preserves ir_ok (CallInst_ctor func args bb)"
  "preserves ir_ok (BranchInst_ctor cond t f bb)"
  "preserves ir_ok (ReturnInst_ctor val bb)"
  unfolding CallInst_ctor_def BranchInst_ctor_def ReturnInst_ctor_def by (intro pres)+

lemma preserves_memory [pres]:
  "preserves ir_ok (GetElementPtrInst_ctor ptr idxs bb)"
  "preserves ir_ok (StoreInst_ctor val ptr bb)"
  "preserves ir_ok (LoadInst_ctor ptr bb)"
  "preserves ir_ok (AllocaInst_ctor t bb)"
  unfolding GetElementPtrInst_ctor_def StoreInst_ctor_def LoadInst_ctor_def AllocaInst_ctor_def
  by (intro pres)+

lemma preserves_conversions [pres]:
  "preserves ir_ok (ZextInst_ctor val t bb)"
  "preserves ir_ok (FpToSiInst_ctor val t bb)"
  "preserves ir_ok (SiToFpInst_ctor val t bb)"
  unfolding ZextInst_ctor_def FpToSiInst_ctor_def SiToFpInst_ctor_def by (intro pres)+

text \<open>An instruction that names no block is in no list, so it may be given one.\<close>

definition detached :: "vid \<Rightarrow> opid \<Rightarrow> 'z ir_scheme \<Rightarrow> bool" where
  "detached i op s \<longleftrightarrow> ir_ok s \<and> kind_of s i = Some (K_instr op None)"

lemma detached_add_op: "preserves (detached i op) (add_op j v)"
  unfolding add_op_def
proof (rule preserves_updateM)
  fix s t
  assume d: "detached i op s" and run: "add_operand j (Some v) s = Inr t"
  have ok: "ir_ok s" using d by (simp add: detached_def)
  have "ir_ok t"
    using ir_ok_same_but_uses [OF ok add_operand_same [OF run]]
      add_operand_use_def_ok [OF ir_ok_use_def [OF ok] run] by blast
  then show "detached i op t" using d same_but_uses_obs(1) [OF add_operand_same [OF run]]
    by (simp add: detached_def)
qed

lemma detached_add_phi_pairs: "preserves (detached i op) (add_phi_pairs i t ps)"
  by (induction i t ps rule: add_phi_pairs.induct) (auto intro!: pres detached_add_op)

lemma ir_ok_set_parent:
  assumes d: "detached i op s" and run: "set_parent i (Some b) s = Inr t"
  shows "ir_ok t \<and> kind_of t i = Some (K_instr op (Some b)) \<and> instrs t = instrs s"
proof -
  obtain r where r: "vals s i = Some r" "vkind r = K_instr op None"
    and t: "t = s\<lparr>vals := (vals s)(i \<mapsto> r\<lparr>vkind := K_instr op (Some b)\<rparr>)\<rparr>"
    using d run by (auto simp: set_parent_def detached_def kind_of_def)
  have ok: "ir_ok s" using d by (simp add: detached_def)
  have k: "kind_of t = (kind_of s)(i \<mapsto> K_instr op (Some b))" by (auto simp: t kind_of_def)
  have u: "uses_of t = uses_of s" "ops_of t = ops_of s" "dom (vals t) = dom (vals s)"
    using r by (auto simp: t uses_of_def ops_of_def fun_eq_iff)
  then have "operand_at t = operand_at s" by (simp add: operand_at_def fun_eq_iff)
  with u have "use_def_ok t = use_def_ok s" by (simp add: use_def_ok_def)
  moreover have g: "preds t = preds s" "succs t = succs s" "instrs t = instrs s" "blocks t = blocks s"
    "bbs t = bbs s" "funcs t = funcs s" "next_id t = next_id s"
    by (simp_all add: t graph_defs fun_eq_iff)
  moreover have "kind_of s i = Some (K_instr op None)" using d by (simp add: detached_def)
  then have "placed_ok t"
    using ok listed_ok_cong [of _ "kind_of t" "kind_of s"] unfolding ir_ok_def placed_ok_def g
    by (metis (no_types, lifting) fun_upd_other k listed_ok_def option.inject option.simps(3) vkind.inject(1))
  moreover have "ids_ok t"
    using ok \<open>kind_of s i = _\<close> unfolding ir_ok_def ids_ok_def g u(3) k
    by (metis fun_upd_apply option.inject vkind.distinct(15,17))
  ultimately show ?thesis using ok by (simp add: ir_ok_def cfg_ok_def blocks_ok_def k)
qed

lemma preserves_PhiInst_ctor [pres]: "preserves ir_ok (PhiInst_ctor t vs val_bbs bb)"
proof (rule preservesI)
  fix s i s'
  assume ok: "ir_ok s" and run: "PhiInst_ctor t vs val_bbs bb s = Inr (i, s')"
  obtain s1 s2 u where s1: "Instruction_ctor t O_phi None s = Inr (i, s1)"
    and s2: "add_phi_pairs i t (zip vs val_bbs) s1 = Inr (u, s2)"
    and s': "set_parent i (Some bb) s2 = Inr s'"
    using run by (auto simp: PhiInst_ctor_def bindM_Inr_iff thenM_def updateM_def returnM_def
        guardM_def failM_def split: if_splits)
  have "kind_of s1 i = Some (K_instr O_phi None)"
    using s1 new_value_obs(3) [OF ok]
    by (auto simp: Instruction_ctor_def bindM_Inr_iff thenM_def returnM_def)
  then have "detached i O_phi s1"
    using preservesD [OF preserves_Instruction_ctor ok s1] by (simp add: detached_def)
  then have "detached i O_phi s2" using preservesD [OF detached_add_phi_pairs _ s2] by blast
  then show "ir_ok s'" using ir_ok_set_parent [OF _ s'] by blast
qed

lemma preserves_add_phi_pair_operand [pres]: "preserves ir_ok (add_phi_pair_operand i v b)"
  unfolding add_phi_pair_operand_def by (intro pres)

end
