(* ===== verification/IRBuilder.thy ===== *)
theory IRBuilder
  imports Instructions
begin

text \<open>
  \<open>IRBuilder\<close> (\<open>include/lightir/IRBuilder.hpp\<close>): the insert block \<open>BB_\<close> (which may be null)
  and the creation functions that forward to the instruction classes at that block;
  then the relation \<open>built\<close> of the stores that the public interface of the light IR
  can make, and what holds of each of them.
\<close>

record irb = ir +
  insert_block :: "vid option"

definition set_insert_point :: "vid option \<Rightarrow> ('z irb_scheme, unit) sm" where
  "set_insert_point bb = modifyM (\<lambda>s. s\<lparr>insert_block := bb\<rparr>)"

definition get_insert_block :: "('z irb_scheme, vid option) sm" where
  "get_insert_block = getM insert_block"

text \<open>\<open>bb->get_module()\<close> is the first thing every constructor does with the block.\<close>

definition at_block :: "(vid \<Rightarrow> ('z irb_scheme, 'a) sm) \<Rightarrow> ('z irb_scheme, 'a) sm" where
  "at_block f = bindM get_insert_block (\<lambda>b. bindM (nonnull b) f)"

definition build_iadd :: "vid \<Rightarrow> vid \<Rightarrow> ('z irb_scheme, vid) sm" where
  "build_iadd lhs rhs = at_block (create_add lhs rhs)"

definition build_isub :: "vid \<Rightarrow> vid \<Rightarrow> ('z irb_scheme, vid) sm" where
  "build_isub lhs rhs = at_block (create_sub lhs rhs)"

definition build_imul :: "vid \<Rightarrow> vid \<Rightarrow> ('z irb_scheme, vid) sm" where
  "build_imul lhs rhs = at_block (create_mul lhs rhs)"

definition build_isdiv :: "vid \<Rightarrow> vid \<Rightarrow> ('z irb_scheme, vid) sm" where
  "build_isdiv lhs rhs = at_block (create_sdiv lhs rhs)"

definition build_icmp_eq :: "vid \<Rightarrow> vid \<Rightarrow> ('z irb_scheme, vid) sm" where
  "build_icmp_eq lhs rhs = at_block (create_eq lhs rhs)"

definition build_icmp_ne :: "vid \<Rightarrow> vid \<Rightarrow> ('z irb_scheme, vid) sm" where
  "build_icmp_ne lhs rhs = at_block (create_ne lhs rhs)"

definition build_icmp_gt :: "vid \<Rightarrow> vid \<Rightarrow> ('z irb_scheme, vid) sm" where
  "build_icmp_gt lhs rhs = at_block (create_gt lhs rhs)"

definition build_icmp_ge :: "vid \<Rightarrow> vid \<Rightarrow> ('z irb_scheme, vid) sm" where
  "build_icmp_ge lhs rhs = at_block (create_ge lhs rhs)"

definition build_icmp_lt :: "vid \<Rightarrow> vid \<Rightarrow> ('z irb_scheme, vid) sm" where
  "build_icmp_lt lhs rhs = at_block (create_lt lhs rhs)"

definition build_icmp_le :: "vid \<Rightarrow> vid \<Rightarrow> ('z irb_scheme, vid) sm" where
  "build_icmp_le lhs rhs = at_block (create_le lhs rhs)"

definition build_fcmp_ne :: "vid \<Rightarrow> vid \<Rightarrow> ('z irb_scheme, vid) sm" where
  "build_fcmp_ne lhs rhs = at_block (create_fne lhs rhs)"

definition build_fcmp_lt :: "vid \<Rightarrow> vid \<Rightarrow> ('z irb_scheme, vid) sm" where
  "build_fcmp_lt lhs rhs = at_block (create_flt lhs rhs)"

definition build_fcmp_le :: "vid \<Rightarrow> vid \<Rightarrow> ('z irb_scheme, vid) sm" where
  "build_fcmp_le lhs rhs = at_block (create_fle lhs rhs)"

definition build_fcmp_ge :: "vid \<Rightarrow> vid \<Rightarrow> ('z irb_scheme, vid) sm" where
  "build_fcmp_ge lhs rhs = at_block (create_fge lhs rhs)"

definition build_fcmp_gt :: "vid \<Rightarrow> vid \<Rightarrow> ('z irb_scheme, vid) sm" where
  "build_fcmp_gt lhs rhs = at_block (create_fgt lhs rhs)"

definition build_fcmp_eq :: "vid \<Rightarrow> vid \<Rightarrow> ('z irb_scheme, vid) sm" where
  "build_fcmp_eq lhs rhs = at_block (create_feq lhs rhs)"

definition build_fadd :: "vid \<Rightarrow> vid \<Rightarrow> ('z irb_scheme, vid) sm" where
  "build_fadd lhs rhs = at_block (create_fadd lhs rhs)"

definition build_fsub :: "vid \<Rightarrow> vid \<Rightarrow> ('z irb_scheme, vid) sm" where
  "build_fsub lhs rhs = at_block (create_fsub lhs rhs)"

definition build_fmul :: "vid \<Rightarrow> vid \<Rightarrow> ('z irb_scheme, vid) sm" where
  "build_fmul lhs rhs = at_block (create_fmul lhs rhs)"

definition build_fdiv :: "vid \<Rightarrow> vid \<Rightarrow> ('z irb_scheme, vid) sm" where
  "build_fdiv lhs rhs = at_block (create_fdiv lhs rhs)"

definition build_call :: "vid \<Rightarrow> vid list \<Rightarrow> ('z irb_scheme, vid) sm" where
  "build_call func args = at_block (create_call func args)"

definition build_br :: "vid \<Rightarrow> ('z irb_scheme, vid) sm" where
  "build_br if_true = at_block (create_br if_true)"

definition build_cond_br :: "vid \<Rightarrow> vid \<Rightarrow> vid \<Rightarrow> ('z irb_scheme, vid) sm" where
  "build_cond_br cond if_true if_false = at_block (create_cond_br cond if_true if_false)"

definition build_ret :: "vid option \<Rightarrow> ('z irb_scheme, vid) sm" where
  "build_ret val = at_block (create_ret val)"

definition build_void_ret :: "('z irb_scheme, vid) sm" where
  "build_void_ret = at_block (create_void_ret)"

definition build_gep :: "vid \<Rightarrow> vid list \<Rightarrow> ('z irb_scheme, vid) sm" where
  "build_gep ptr idxs = at_block (create_gep ptr idxs)"

definition build_store :: "vid \<Rightarrow> vid \<Rightarrow> ('z irb_scheme, vid) sm" where
  "build_store val ptr = at_block (create_store val ptr)"

definition build_load :: "vid \<Rightarrow> ('z irb_scheme, vid) sm" where
  "build_load ptr = bindM (ty_of ptr) (\<lambda>t.
     thenM (guardM (is_pointer_type t) (Assert_fail ''ptr must be pointer type''))
       (at_block (create_load ptr)))"

definition build_alloca :: "ty \<Rightarrow> ('z irb_scheme, vid) sm" where
  "build_alloca t = at_block (create_alloca t)"

definition build_zext :: "vid \<Rightarrow> ty \<Rightarrow> ('z irb_scheme, vid) sm" where
  "build_zext val t = at_block (create_zext val t)"

definition build_sitofp :: "vid \<Rightarrow> ty \<Rightarrow> ('z irb_scheme, vid) sm" where
  "build_sitofp val t = at_block (create_sitofp val)"

definition build_fptosi :: "vid \<Rightarrow> ty \<Rightarrow> ('z irb_scheme, vid) sm" where
  "build_fptosi val t = at_block (create_fptosi val t)"

lemmas create_defs =
  create_add_def create_sub_def create_mul_def create_sdiv_def create_fadd_def
  create_fsub_def create_fmul_def create_fdiv_def create_ge_def create_gt_def
  create_le_def create_lt_def create_eq_def create_ne_def create_fge_def
  create_fgt_def create_fle_def create_flt_def create_feq_def create_fne_def
  create_call_def create_cond_br_def create_br_def create_ret_def create_void_ret_def
  create_gep_def create_store_def create_load_def create_alloca_def create_zext_def
  create_zext_to_i32_def create_fptosi_def create_fptosi_to_i32_def create_sitofp_def create_phi_def

lemmas build_defs =
  build_iadd_def build_isub_def build_imul_def build_isdiv_def build_icmp_eq_def
  build_icmp_ne_def build_icmp_gt_def build_icmp_ge_def build_icmp_lt_def build_icmp_le_def
  build_fcmp_ne_def build_fcmp_lt_def build_fcmp_le_def build_fcmp_ge_def build_fcmp_gt_def
  build_fcmp_eq_def build_fadd_def build_fsub_def build_fmul_def build_fdiv_def
  build_call_def build_br_def build_cond_br_def build_ret_def build_void_ret_def
  build_gep_def build_store_def build_load_def build_alloca_def build_zext_def
  build_sitofp_def build_fptosi_def

lemma ir_ok_more [simp]: "ir_ok (s\<lparr>insert_block := b\<rparr>) = ir_ok s"
  by (rule ir_ok_obs) simp_all

lemma preserves_insert_point [pres]:
  "preserves ir_ok (set_insert_point bb)" "preserves P get_insert_block"
  by (simp_all add: set_insert_point_def get_insert_block_def pres preserves_modifyM)

lemma preserves_at_block [pres]: "(\<And>b. preserves P (f b)) \<Longrightarrow> preserves P (at_block f)"
  unfolding at_block_def by (intro pres)

lemma preserves_create [pres]:
  "preserves ir_ok (create_add v1 v2 bb)"
  "preserves ir_ok (create_sub v1 v2 bb)"
  "preserves ir_ok (create_mul v1 v2 bb)"
  "preserves ir_ok (create_sdiv v1 v2 bb)"
  "preserves ir_ok (create_fadd v1 v2 bb)"
  "preserves ir_ok (create_fsub v1 v2 bb)"
  "preserves ir_ok (create_fmul v1 v2 bb)"
  "preserves ir_ok (create_fdiv v1 v2 bb)"
  "preserves ir_ok (create_ge v1 v2 bb)"
  "preserves ir_ok (create_gt v1 v2 bb)"
  "preserves ir_ok (create_le v1 v2 bb)"
  "preserves ir_ok (create_lt v1 v2 bb)"
  "preserves ir_ok (create_eq v1 v2 bb)"
  "preserves ir_ok (create_ne v1 v2 bb)"
  "preserves ir_ok (create_fge v1 v2 bb)"
  "preserves ir_ok (create_fgt v1 v2 bb)"
  "preserves ir_ok (create_fle v1 v2 bb)"
  "preserves ir_ok (create_flt v1 v2 bb)"
  "preserves ir_ok (create_feq v1 v2 bb)"
  "preserves ir_ok (create_fne v1 v2 bb)"
  "preserves ir_ok (create_call func args bb)"
  "preserves ir_ok (create_cond_br c t f bb)"
  "preserves ir_ok (create_br t bb)"
  "preserves ir_ok (create_ret ov bb)"
  "preserves ir_ok (create_void_ret bb)"
  "preserves ir_ok (create_gep p idxs bb)"
  "preserves ir_ok (create_store v p bb)"
  "preserves ir_ok (create_load p bb)"
  "preserves ir_ok (create_alloca ty bb)"
  "preserves ir_ok (create_zext v ty bb)"
  "preserves ir_ok (create_zext_to_i32 v bb)"
  "preserves ir_ok (create_fptosi v ty bb)"
  "preserves ir_ok (create_fptosi_to_i32 v bb)"
  "preserves ir_ok (create_sitofp v bb)"
  "preserves ir_ok (create_phi ty bb vs bs)"
  unfolding create_defs by (rule pres)+

lemma preserves_build [pres]:
  "preserves ir_ok (build_iadd lhs rhs)"
  "preserves ir_ok (build_isub lhs rhs)"
  "preserves ir_ok (build_imul lhs rhs)"
  "preserves ir_ok (build_isdiv lhs rhs)"
  "preserves ir_ok (build_icmp_eq lhs rhs)"
  "preserves ir_ok (build_icmp_ne lhs rhs)"
  "preserves ir_ok (build_icmp_gt lhs rhs)"
  "preserves ir_ok (build_icmp_ge lhs rhs)"
  "preserves ir_ok (build_icmp_lt lhs rhs)"
  "preserves ir_ok (build_icmp_le lhs rhs)"
  "preserves ir_ok (build_fcmp_ne lhs rhs)"
  "preserves ir_ok (build_fcmp_lt lhs rhs)"
  "preserves ir_ok (build_fcmp_le lhs rhs)"
  "preserves ir_ok (build_fcmp_ge lhs rhs)"
  "preserves ir_ok (build_fcmp_gt lhs rhs)"
  "preserves ir_ok (build_fcmp_eq lhs rhs)"
  "preserves ir_ok (build_fadd lhs rhs)"
  "preserves ir_ok (build_fsub lhs rhs)"
  "preserves ir_ok (build_fmul lhs rhs)"
  "preserves ir_ok (build_fdiv lhs rhs)"
  "preserves ir_ok (build_call func args)"
  "preserves ir_ok (build_br t)"
  "preserves ir_ok (build_cond_br c t f)"
  "preserves ir_ok (build_ret val)"
  "preserves ir_ok (build_void_ret)"
  "preserves ir_ok (build_gep p idxs)"
  "preserves ir_ok (build_store v p)"
  "preserves ir_ok (build_load p)"
  "preserves ir_ok (build_alloca ty)"
  "preserves ir_ok (build_zext v ty)"
  "preserves ir_ok (build_sitofp v ty)"
  "preserves ir_ok (build_fptosi v ty)"
  unfolding build_defs by (intro pres)+

section \<open>What the public interface can build\<close>

text \<open>\<open>replace_all_use_with\<close> keeps the invariant whatever the new value is.\<close>

lemma rauw_loop_keeps':
  assumes "rauw_loop v nv s = Some y"
  shows "use_def_ok s \<longrightarrow> y = Inr t \<longrightarrow> use_def_ok t \<and> same_but_uses s t"
  using assms
proof (induction arbitrary: t rule: rauw_loop.raw_induct [rotated, consumes 1])
  case (1 loop v nv s r)
  show ?case
  proof (intro impI)
    assume ok: "use_def_ok s" and r: "r = Inr t"
    obtain rv where rv: "vals s v = Some rv" using "1"(2) r by (cases "vals s v") auto
    show "use_def_ok t \<and> same_but_uses s t"
    proof (cases "vuses rv")
      case Nil
      then show ?thesis using rv "1"(2) r ok by auto
    next
      case (Cons x xs)
      then obtain s' where s': "set_operand (fst x) (snd x) nv s = Inr s'"
        and l: "loop v nv s' = Some r"
        using rv "1"(2) r by (auto split: sum.splits)
      have "use_def_ok t \<and> same_but_uses s' t"
        using "1"(1) [OF l] r set_operand_use_def_ok [OF ok s'] by blast
      then show ?thesis using set_operand_effect(2) [OF s'] same_but_uses_trans by blast
    qed
  qed
qed

lemma rauw_loop_keeps:
  "rauw_loop v nv s = Some (Inr t) \<Longrightarrow> use_def_ok s \<Longrightarrow> use_def_ok t \<and> same_but_uses s t"
  using rauw_loop_keeps' by blast

lemma replace_all_use_with_keeps:
  assumes "ir_ok s" and "replace_all_use_with v nv s = Inr t"
  shows "ir_ok t" "same_but_uses s t"
proof -
  have "t = s \<or> rauw_loop v nv s = Some (Inr t)"
    using assms(2) by (auto simp: replace_all_use_with_def outcome_def split: if_splits option.splits)
  then have "use_def_ok t \<and> same_but_uses s t"
    using rauw_loop_keeps ir_ok_use_def [OF assms(1)] by blast
  then show "ir_ok t" "same_but_uses s t" using ir_ok_same_but_uses [OF assms(1)] by blast+
qed

lemma preserves_replace_all_use_with [pres]: "preserves ir_ok (updateM (replace_all_use_with v nv))"
  by (rule preserves_updateM) (rule replace_all_use_with_keeps)

text \<open>The calls that make an object, and the calls that change operands.\<close>

inductive makes :: "(ir, vid) sm \<Rightarrow> bool" where
  "makes (BasicBlock_create nm f)"
| "makes (Function_create retty params nm)"
| "makes (GlobalVariable_create nm t is_const init)"
| "makes (ConstantInt_get_int n)"
| "makes (ConstantInt_get_bool q)"
| "makes (ConstantFP_get x)"
| "makes (ConstantZero_get t)"
| "makes (UndefValue_get t)"
| "makes (ConstantArray_get t vs)"
| "makes (create_add v1 v2 bb)"
| "makes (create_sub v1 v2 bb)"
| "makes (create_mul v1 v2 bb)"
| "makes (create_sdiv v1 v2 bb)"
| "makes (create_fadd v1 v2 bb)"
| "makes (create_fsub v1 v2 bb)"
| "makes (create_fmul v1 v2 bb)"
| "makes (create_fdiv v1 v2 bb)"
| "makes (create_ge v1 v2 bb)"
| "makes (create_gt v1 v2 bb)"
| "makes (create_le v1 v2 bb)"
| "makes (create_lt v1 v2 bb)"
| "makes (create_eq v1 v2 bb)"
| "makes (create_ne v1 v2 bb)"
| "makes (create_fge v1 v2 bb)"
| "makes (create_fgt v1 v2 bb)"
| "makes (create_fle v1 v2 bb)"
| "makes (create_flt v1 v2 bb)"
| "makes (create_feq v1 v2 bb)"
| "makes (create_fne v1 v2 bb)"
| "makes (create_call func args bb)"
| "makes (create_cond_br c t f bb)"
| "makes (create_br t bb)"
| "makes (create_ret ov bb)"
| "makes (create_void_ret bb)"
| "makes (create_gep p idxs bb)"
| "makes (create_store v p bb)"
| "makes (create_load p bb)"
| "makes (create_alloca ty bb)"
| "makes (create_zext v ty bb)"
| "makes (create_zext_to_i32 v bb)"
| "makes (create_fptosi v ty bb)"
| "makes (create_fptosi_to_i32 v bb)"
| "makes (create_sitofp v bb)"
| "makes (create_phi ty bb vs bs)"

inductive edits :: "(ir, unit) sm \<Rightarrow> bool" where
  "edits (updateM (set_operand u i v))"
| "edits (updateM (add_operand u v))"
| "edits (updateM (remove_all_operands u))"
| "edits (updateM (replace_all_use_with v nv))"
| "edits (add_phi_pair_operand i v b)"

inductive built :: "ir \<Rightarrow> bool" where
  start: "built empty_ir"
| made: "built s \<Longrightarrow> makes m \<Longrightarrow> m s = Inr (v, t) \<Longrightarrow> built t"
| edited: "built s \<Longrightarrow> edits m \<Longrightarrow> m s = Inr (u, t) \<Longrightarrow> built t"

lemma makes_preserves: "makes m \<Longrightarrow> preserves ir_ok m"
  by (induction rule: makes.induct) (rule pres)+

lemma edits_preserves: "edits m \<Longrightarrow> preserves ir_ok m"
  by (induction rule: edits.induct) (rule pres)+

lemma ir_ok_empty: "ir_ok empty_ir"
proof -
  have "uses_of empty_ir = (\<lambda>v. [])" "operand_at empty_ir = (\<lambda>u i. None)"
    by (simp_all add: uses_of_def operand_at_def ops_of_def empty_ir_def fun_eq_iff)
  then have "use_def_ok empty_ir" by (simp add: use_def_ok_def)
  then show ?thesis by (simp add: ir_ok_defs graph_defs) (simp add: empty_ir_def)
qed

lemma built_ir_ok: "built s \<Longrightarrow> ir_ok s"
  by (induction rule: built.induct)
    (auto intro: ir_ok_empty preservesD [OF makes_preserves] preservesD [OF edits_preserves])


lemma built_demo:
  "\<exists>t. built t \<and> instrs t 1 = [2] \<and> succs t 1 = [1]"
proof -
  obtain f s1 where s1: "Function_create VoidTy [] ''main'' empty_ir = Inr (f, s1)" and f: "f = 0"
    and s1': "funcs s1 = [0 \<mapsto> \<lparr>basic_blocks = [], arguments = [], seq_cnt = 0\<rparr>]" "next_id s1 = 1" "bbs s1 = Map.empty"
    by (simp add: Function_create_def empty_ir_def sm_defs new_value_def)
  obtain b s2 where s2: "BasicBlock_create '''' 0 s1 = Inr (b, s2)"
    and s2': "bbs s2 = [1 \<mapsto> \<lparr>pre_bbs = [], succ_bbs = [], instr_list = [], bparent = 0\<rparr>]"
      "next_id s2 = 2" "\<exists>r. vals s2 1 = Some r \<and> vuses r = []"
    using s1' by (auto simp: BasicBlock_create_def sm_defs new_value_def)
  have "\<exists>i s3. create_br 1 1 s2 = Inr (i, s3) \<and> instrs s3 1 = [2] \<and> succs s3 1 = [1]"
    using s2' by (auto simp: create_br_def BranchInst_ctor_def Instruction_ctor_def new_value_def sm_defs
        add_instruction_def is_terminated_def add_op_def add_operand_def add_use_def upd_val_def upd_bb_def
        add_pre_basic_block_def add_succ_basic_block_def instrs_def succs_def)
  then obtain i s3 where s3: "create_br 1 1 s2 = Inr (i, s3)" "instrs s3 1 = [2] \<and> succs s3 1 = [1]"
    by blast
  have "built s1"
    by (rule built.made [where m = "Function_create VoidTy [] ''main''", OF built.start _ s1])
      (rule makes.intros)
  then have "built s2"
    by (rule built.made [where m = "BasicBlock_create '''' 0", OF _ _ s2]) (rule makes.intros)
  then have "built s3"
    by (rule built.made [where m = "create_br 1 1", OF _ _ s3(1)]) (rule makes.intros)
  with s3(2) show ?thesis by blast
qed


end
