(* ===== verification/Naming.thy ===== *)
theory Naming
  imports IRBuilder
begin

text \<open>
  The names a function's values get before printing: \<open>Function::set_instr_name\<close> and
  \<open>Module::set_print_name\<close> (\<open>src/lightir/Function.cpp\<close>, \<open>Module.cpp\<close>). \<open>seq\<close> is the
  local map from the values named by this call to their numbers; numbering goes on from
  \<open>seq_cnt_\<close>, so that a later call does not reuse a number.
\<close>

section \<open>\<open>set_instr_name\<close>\<close>

type_synonym seq_map = "(vid \<times> nat) list"

definition name_one :: "nat \<Rightarrow> string \<Rightarrow> vid \<Rightarrow> seq_map \<Rightarrow> ('z ir_scheme, seq_map) sm" where
  "name_one cnt prefix v seq =
     (if v \<in> fst ` set seq then returnM seq
      else let seq_num = length seq + cnt in
        bindM (Value_set_name v (prefix @ nat_str seq_num)) (\<lambda>ok.
        returnM (if ok then seq @ [(v, seq_num)] else seq)))"

fun name_args :: "nat \<Rightarrow> vid list \<Rightarrow> seq_map \<Rightarrow> ('z ir_scheme, seq_map) sm" where
  "name_args cnt [] seq = returnM seq"
| "name_args cnt (a # as) seq = bindM (name_one cnt ''arg'' a seq) (name_args cnt as)"

definition is_void_of :: "'z ir_scheme \<Rightarrow> vid \<Rightarrow> bool res" where
  "is_void_of s i = bindR (instr_op s i) (\<lambda>op. bindR (type_of s i) (\<lambda>t. Inr (is_void_instr op t)))"

fun name_instrs :: "nat \<Rightarrow> vid list \<Rightarrow> seq_map \<Rightarrow> ('z ir_scheme, seq_map) sm" where
  "name_instrs cnt [] seq = returnM seq"
| "name_instrs cnt (i # is) seq =
     bindM (readM (\<lambda>s. is_void_of s i)) (\<lambda>void.
     bindM (if \<not> void then name_one cnt ''op'' i seq else returnM seq) (name_instrs cnt is))"

fun name_blocks :: "nat \<Rightarrow> vid list \<Rightarrow> seq_map \<Rightarrow> ('z ir_scheme, seq_map) sm" where
  "name_blocks cnt [] seq = returnM seq"
| "name_blocks cnt (b # bs) seq =
     bindM (name_one cnt ''label'' b seq) (\<lambda>seq1.
     bindM (readM (\<lambda>s. deref (bbs s) b)) (\<lambda>r.
     bindM (name_instrs cnt (instr_list r) seq1) (name_blocks cnt bs)))"

definition set_instr_name :: "vid \<Rightarrow> ('z ir_scheme, unit) sm" where
  "set_instr_name f =
     bindM (readM (\<lambda>s. deref (funcs s) f)) (\<lambda>r.
     bindM (name_args (seq_cnt r) (arguments r) []) (\<lambda>seq.
     bindM (name_blocks (seq_cnt r) (basic_blocks r) seq) (\<lambda>seq'.
     updateM (\<lambda>s. bindR (deref (funcs s) f) (\<lambda>r'.
       Inr (s\<lparr>funcs := (funcs s)(f \<mapsto> r'\<lparr>seq_cnt := seq_cnt r' + length seq'\<rparr>)\<rparr>))))))"

definition set_print_name :: "('z ir_scheme, unit) sm" where
  "set_print_name = bindM (getM function_list) (\<lambda>fs. forM fs set_instr_name)"

section \<open>The values to name, in order\<close>

definition name_of :: "'z ir_scheme \<Rightarrow> vid \<Rightarrow> string" where
  "name_of s v = (case vals s v of None \<Rightarrow> '''' | Some r \<Rightarrow> vname r)"

definition has_result :: "'z ir_scheme \<Rightarrow> vid \<Rightarrow> bool" where
  "has_result s i = (is_void_of s i = Inr False)"

definition locals_of_block :: "'z ir_scheme \<Rightarrow> vid \<Rightarrow> vid list" where
  "locals_of_block s b = b # filter (has_result s) (instrs s b)"

definition locals_of :: "'z ir_scheme \<Rightarrow> vid \<Rightarrow> vid list" where
  "locals_of s f = (case funcs s f of None \<Rightarrow> []
     | Some r \<Rightarrow> arguments r @ concat (map (locals_of_block s) (basic_blocks r)))"

text \<open>Naming changes names of the store and nothing else.\<close>

definition same_but_names :: "'z ir_scheme \<Rightarrow> 'z ir_scheme \<Rightarrow> bool" where
  "same_but_names s t \<longleftrightarrow>
     (\<forall>v. map_option (\<lambda>r. r\<lparr>vname := ''''\<rparr>) (vals t v) = map_option (\<lambda>r. r\<lparr>vname := ''''\<rparr>) (vals s v))
   \<and> (\<exists>m. t = s\<lparr>vals := m\<rparr>)"

lemma same_but_names_refl [simp, intro]: "same_but_names s s"
  unfolding same_but_names_def by (intro conjI allI refl exI [of _ "vals s"]) simp

lemma same_but_names_trans: "same_but_names s t \<Longrightarrow> same_but_names t u \<Longrightarrow> same_but_names s u"
  by (auto simp: same_but_names_def)

lemma same_but_names_obs:
  assumes "same_but_names s t"
  shows "is_void_of t = is_void_of s" "bbs t = bbs s" "funcs t = funcs s" "dom (vals t) = dom (vals s)"
    "locals_of t = locals_of s"
proof -
  have m: "map_option (\<lambda>r. r\<lparr>vname := ''''\<rparr>) (vals t v) = map_option (\<lambda>r. r\<lparr>vname := ''''\<rparr>) (vals s v)" for v
    using assms by (simp add: same_but_names_def)
  have ty: "type_of x v = (case map_option (\<lambda>r. r\<lparr>vname := ''''\<rparr>) (vals x v) of None \<Rightarrow> Inl Dangling | Some r \<Rightarrow> Inr (vty r))"
    and op: "instr_op x v = (case map_option (\<lambda>r. r\<lparr>vname := ''''\<rparr>) (vals x v) of None \<Rightarrow> Inl Dangling
      | Some r \<Rightarrow> (case vkind r of K_instr op p \<Rightarrow> Inr op | _ \<Rightarrow> Inl Dangling))" for x :: "'a ir_scheme" and v
    by (simp_all add: type_of_def instr_op_def deref_def bindR_def split: option.split)
  show v: "is_void_of t = is_void_of s" by (simp add: is_void_of_def fun_eq_iff ty op m)
  show b: "bbs t = bbs s" "funcs t = funcs s" using assms by (auto simp: same_but_names_def)
  have "v \<in> dom (vals t) \<longleftrightarrow> v \<in> dom (vals s)" for v using m [of v] by (cases "vals t v"; cases "vals s v") auto
  then show "dom (vals t) = dom (vals s)" by blast
  have h: "has_result t = has_result s" by (simp add: has_result_def v fun_eq_iff)
  have "locals_of_block t x = locals_of_block s x" for x
    by (simp add: locals_of_block_def instrs_def b h)
  then have "locals_of_block t = locals_of_block s" by blast
  then show "locals_of t = locals_of s" unfolding locals_of_def b by presburger
qed

section \<open>Names of one pass\<close>

text \<open>
  What a part of the pass does to the values \<open>vs\<close>, in order, when it starts with the map
  \<open>seq\<close> in \<open>s\<close> and ends with \<open>seq'\<close> in \<open>t\<close>: a named value keeps its name, an unnamed one
  gets a prefix and the next number.
\<close>

definition auto_prefix :: "string \<Rightarrow> bool" where
  "auto_prefix p \<longleftrightarrow> p \<in> {''arg'', ''label'', ''op''}"

inductive named :: "nat \<Rightarrow> vid list \<Rightarrow> nat \<Rightarrow> 'z ir_scheme \<Rightarrow> nat \<Rightarrow> 'z ir_scheme \<Rightarrow> bool" where
  named_Nil: "named cnt [] n s n s"
| named_old: "name_of s v \<noteq> '''' \<Longrightarrow> named cnt vs n s m t \<Longrightarrow> named cnt (v # vs) n s m t"
| named_new: "name_of s v = '''' \<Longrightarrow> auto_prefix p \<Longrightarrow> vals s v = Some r \<Longrightarrow>
    named cnt vs (Suc n) (s\<lparr>vals := (vals s)(v \<mapsto> r\<lparr>vname := p @ nat_str (n + cnt)\<rparr>)\<rparr>) m t \<Longrightarrow>
    named cnt (v # vs) n s m t"

lemma named_append:
  "named cnt vs n s m t \<Longrightarrow> named cnt ws m t k u \<Longrightarrow> named cnt (vs @ ws) n s k u"
  by (induction rule: named.induct) (auto intro: named.intros)

lemma set_name_effect:
  assumes "name_of s v = ''''" and "vals s v = Some r"
  shows "same_but_names s (s\<lparr>vals := (vals s)(v \<mapsto> r\<lparr>vname := nm\<rparr>)\<rparr>)"
    "name_of (s\<lparr>vals := (vals s)(v \<mapsto> r\<lparr>vname := nm\<rparr>)\<rparr>) w = (if w = v then nm else name_of s w)"
  using assms by (auto simp: same_but_names_def name_of_def)

lemma named_same: "named cnt vs n s m t \<Longrightarrow> same_but_names s t \<and> n \<le> m"
  by (induction rule: named.induct) (auto dest: set_name_effect(1) intro: same_but_names_trans)

lemma named_outside: "named cnt vs n s m t \<Longrightarrow> w \<notin> set vs \<or> name_of s w \<noteq> '''' \<Longrightarrow> name_of t w = name_of s w"
proof (induction rule: named.induct)
  case (named_new s v p r cnt vs n m t)
  then show ?case using set_name_effect(2) [OF named_new.hyps(1,3)] by auto
qed auto

lemma named_new_names:
  "named cnt vs n s m t \<Longrightarrow> w \<in> set vs \<Longrightarrow> name_of s w = '''' \<Longrightarrow>
    \<exists>p k. auto_prefix p \<and> n \<le> k \<and> k < m \<and> name_of t w = p @ nat_str (k + cnt)"
proof (induction rule: named.induct)
  case (named_new s v p r cnt vs n m t)
  note eff = set_name_effect(2) [OF named_new.hyps(1,3)]
  have "Suc n \<le> m" using named_same [OF named_new.hyps(4)] by simp
  show ?case
  proof (cases "w = v")
    case True
    have "name_of t v = p @ nat_str (n + cnt)"
      using named_outside [OF named_new.hyps(4), of v] eff by simp
    then show ?thesis using True named_new.hyps(2) \<open>Suc n \<le> m\<close> by (intro exI [of _ p] exI [of _ n]) simp
  next
    case False
    then have "\<exists>p k. auto_prefix p \<and> Suc n \<le> k \<and> k < m \<and> name_of t w = p @ nat_str (k + cnt)"
      using named_new.IH named_new.prems eff by auto
    then show ?thesis by (meson Suc_leD)
  qed
qed auto

lemma auto_name_inj:
  assumes "auto_prefix p" and "auto_prefix q" and "p @ nat_str m = q @ nat_str n"
  shows "m = n"
proof -
  have "hd (p @ nat_str m) = hd (q @ nat_str n)" using assms(3) by simp
  then have "p = q" using assms(1,2) by (auto simp: auto_prefix_def)
  then show ?thesis using assms(3) by (simp add: nat_str_inj)
qed

lemma named_inj:
  assumes "named cnt vs n s m t" and "v \<in> set vs" and "w \<in> set vs" and "v \<noteq> w"
    and "name_of s v = ''''" and "name_of s w = ''''"
  shows "name_of t v \<noteq> name_of t w"
  using assms
proof (induction rule: named.induct)
  case (named_old s x cnt vs n m t)
  then show ?case by auto
next
  case (named_new s x p r cnt vs n m t)
  note eff = set_name_effect(2) [OF named_new.hyps(1,3)]
  have x: "name_of t x = p @ nat_str (n + cnt)"
    using named_outside [OF named_new.hyps(4), of x] eff by simp
  have other: "name_of t y \<noteq> name_of t x" if y: "y \<in> set vs" "y \<noteq> x" "name_of s y = ''''" for y
  proof -
    obtain q k where "auto_prefix q" "Suc n \<le> k" "name_of t y = q @ nat_str (k + cnt)"
      using named_new_names [OF named_new.hyps(4) y(1)] y eff by auto
    moreover from this have "k + cnt \<noteq> n + cnt" by simp
    ultimately show ?thesis using x auto_name_inj [OF _ named_new.hyps(2)] by metis
  qed
  consider "v = x" | "w = x" | "v \<noteq> x" "w \<noteq> x" by blast
  then show ?case
  proof cases
    case 1
    then show ?thesis using other [of w] named_new.prems by (metis set_ConsD)
  next
    case 2
    then show ?thesis using other [of v] named_new.prems by (metis set_ConsD)
  next
    case 3
    then show ?thesis using named_new.IH named_new.prems eff by simp
  qed
qed auto

section \<open>The code is such a pass\<close>

lemma Value_set_name_run:
  "Value_set_name v nm s = Inr (ok, t) \<longleftrightarrow> (\<exists>r. vals s v = Some r \<and>
     (if vname r = '''' then ok \<and> t = s\<lparr>vals := (vals s)(v \<mapsto> r\<lparr>vname := nm\<rparr>)\<rparr> else \<not> ok \<and> t = s))"
  by (auto simp: Value_set_name_def)

text \<open>A value is visited once: the map never holds a value still to come.\<close>

definition visits :: "nat \<Rightarrow> vid list \<Rightarrow> seq_map \<Rightarrow> 'z ir_scheme \<Rightarrow> seq_map \<Rightarrow> 'z ir_scheme \<Rightarrow> bool" where
  "visits cnt vs seq s seq' t \<longleftrightarrow> named cnt vs (length seq) s (length seq') t
     \<and> fst ` set seq' \<subseteq> fst ` set seq \<union> set vs"

lemma visits_append:
  assumes "visits cnt vs seq s seq1 t" and "visits cnt ws seq1 t seq2 u"
  shows "visits cnt (vs @ ws) seq s seq2 u"
  unfolding visits_def set_append
proof
  show "named cnt (vs @ ws) (length seq) s (length seq2) u"
    by (rule named_append [of cnt vs _ s "length seq1" t]) (use assms in \<open>simp_all add: visits_def\<close>)
  show "fst ` set seq2 \<subseteq> fst ` set seq \<union> (set vs \<union> set ws)"
    using assms unfolding visits_def by blast
qed

lemma visits_fresh:
  "visits cnt vs seq s seq1 t \<Longrightarrow> A \<inter> fst ` set seq = {} \<Longrightarrow> A \<inter> set vs = {} \<Longrightarrow> A \<inter> fst ` set seq1 = {}"
  unfolding visits_def by blast

lemma visits_Nil: "visits cnt [] seq s seq s"
  by (simp add: visits_def named_Nil)

lemma visits_same: "visits cnt vs seq s seq' t \<Longrightarrow> same_but_names s t"
  by (metis named_same visits_def)

lemma name_one_visits:
  assumes "name_one cnt p v seq s = Inr (seq', t)" and "v \<notin> fst ` set seq" and "auto_prefix p"
  shows "visits cnt [v] seq s seq' t"
proof -
  obtain ok r where r: "vals s v = Some r"
    and e: "if vname r = '''' then ok \<and> t = s\<lparr>vals := (vals s)(v \<mapsto> r\<lparr>vname := p @ nat_str (length seq + cnt)\<rparr>)\<rparr>
        else \<not> ok \<and> t = s" and seq': "seq' = (if ok then seq @ [(v, length seq + cnt)] else seq)"
    using assms(1,2) by (auto simp: name_one_def bindM_Inr_iff Value_set_name_run returnM_def Let_def)
  show ?thesis
  proof (cases "vname r = ''''")
    case True
    then have "named cnt [v] (length seq) s (Suc (length seq)) t"
      using e r assms(3) by (auto simp: name_of_def intro!: named_new named_Nil)
    then show ?thesis using True e seq' by (simp add: visits_def)
  next
    case False
    then have "named cnt [v] (length seq) s (length seq) t"
      using e r by (auto simp: name_of_def intro!: named_old named_Nil)
    then show ?thesis using False e seq' by (auto simp: visits_def)
  qed
qed

lemma name_args_visits:
  "name_args cnt as seq s = Inr (seq', t) \<Longrightarrow> distinct as \<Longrightarrow> set as \<inter> fst ` set seq = {}
    \<Longrightarrow> visits cnt as seq s seq' t"
proof (induction as arbitrary: seq s)
  case Nil
  then show ?case by (simp add: returnM_def visits_Nil)
next
  case (Cons a as)
  obtain seq1 s1 where 1: "name_one cnt ''arg'' a seq s = Inr (seq1, s1)"
    and 2: "name_args cnt as seq1 s1 = Inr (seq', t)"
    using Cons.prems(1) by (auto simp: bindM_Inr_iff)
  have v: "visits cnt [a] seq s seq1 s1"
    using name_one_visits [OF 1] Cons.prems(3) by (auto simp: auto_prefix_def)
  then have "set as \<inter> fst ` set seq1 = {}"
    using Cons.prems(2,3) by (intro visits_fresh [OF v]) auto
  then show ?case using visits_append [OF v Cons.IH [OF 2]] Cons.prems(2) by simp
qed

lemma name_instrs_visits:
  "name_instrs cnt is seq s = Inr (seq', t) \<Longrightarrow> distinct is \<Longrightarrow> set is \<inter> fst ` set seq = {}
    \<Longrightarrow> visits cnt (filter (has_result s) is) seq s seq' t"
proof (induction "is" arbitrary: seq s)
  case Nil
  then show ?case by (simp add: returnM_def visits_Nil)
next
  case (Cons i "is")
  obtain void seq1 s1 where void: "is_void_of s i = Inr void"
    and 1: "(if \<not> void then name_one cnt ''op'' i seq else returnM seq) s = Inr (seq1, s1)"
    and 2: "name_instrs cnt is seq1 s1 = Inr (seq', t)"
    using Cons.prems(1) by (auto simp: bindM_Inr_iff readM_def)
  have v: "visits cnt (if has_result s i then [i] else []) seq s seq1 s1"
  proof (cases void)
    case True
    then show ?thesis using 1 void by (simp add: has_result_def returnM_def visits_Nil)
  next
    case False
    then show ?thesis using name_one_visits [of cnt "''op''" i seq s] 1 void Cons.prems(3)
      by (simp add: has_result_def auto_prefix_def)
  qed
  then have d: "set is \<inter> fst ` set seq1 = {}"
    using Cons.prems(2,3) by (intro visits_fresh [OF v]) auto
  have "has_result s1 = has_result s"
    using same_but_names_obs(1) [OF visits_same [OF v]] by (simp add: has_result_def fun_eq_iff)
  then show ?case using visits_append [OF v Cons.IH [OF 2 _ d]] Cons.prems(2) by (auto split: if_splits)
qed

lemma name_blocks_visits:
  "name_blocks cnt bs seq s = Inr (seq', t) \<Longrightarrow> distinct (concat (map (\<lambda>b. b # instrs s b) bs))
    \<Longrightarrow> set (concat (map (\<lambda>b. b # instrs s b) bs)) \<inter> fst ` set seq = {}
    \<Longrightarrow> visits cnt (concat (map (locals_of_block s) bs)) seq s seq' t"
proof (induction bs arbitrary: seq s)
  case Nil
  then show ?case by (simp add: returnM_def visits_Nil)
next
  case (Cons b bs)
  obtain seq1 s1 r seq2 s2 where 1: "name_one cnt ''label'' b seq s = Inr (seq1, s1)"
    and r: "bbs s1 b = Some r" and 2: "name_instrs cnt (instr_list r) seq1 s1 = Inr (seq2, s2)"
    and 3: "name_blocks cnt bs seq2 s2 = Inr (seq', t)"
    using Cons.prems(1) by (auto simp: bindM_Inr_iff readM_def)
  have v1: "visits cnt [b] seq s seq1 s1"
    using name_one_visits [OF 1] Cons.prems(3) by (auto simp: auto_prefix_def)
  note o1 = same_but_names_obs [OF visits_same [OF v1]]
  have i: "instr_list r = instrs s b" using r o1(2) by (simp add: instrs_def)
  have d1: "set (instr_list r) \<inter> fst ` set seq1 = {}"
    using Cons.prems(2,3) i by (intro visits_fresh [OF v1]) auto
  have dr: "distinct (instr_list r)" using Cons.prems(2) i by simp
  have "has_result s1 = has_result s" using o1(1) by (simp add: has_result_def fun_eq_iff)
  then have v2: "visits cnt (locals_of_block s b) seq s seq2 s2"
    using visits_append [OF v1 name_instrs_visits [OF 2 dr d1]] i by (simp add: locals_of_block_def)
  note o2 = same_but_names_obs [OF visits_same [OF v2]]
  have h: "has_result s2 = has_result s" using o2(1) by (simp add: has_result_def fun_eq_iff)
  have g: "instrs s2 x = instrs s x" "locals_of_block s2 x = locals_of_block s x" for x
    using o2(2) by (simp_all add: instrs_def locals_of_block_def h)
  have "set (concat (map (\<lambda>b. b # instrs s b) bs)) \<inter> fst ` set seq2 = {}"
    using Cons.prems(2,3) by (intro visits_fresh [OF v2]) (auto simp: locals_of_block_def)
  then have "visits cnt (concat (map (locals_of_block s) bs)) seq2 s2 seq' t"
    using Cons.IH [OF 3] Cons.prems(2) by (simp add: g)
  then show ?case using visits_append [OF v2] by simp
qed

definition listed :: "'z ir_scheme \<Rightarrow> vid \<Rightarrow> vid list" where
  "listed s f = (case funcs s f of None \<Rightarrow> []
     | Some r \<Rightarrow> arguments r @ concat (map (\<lambda>b. b # instrs s b) (basic_blocks r)))"

definition seq_cnt_of :: "'z ir_scheme \<Rightarrow> vid \<Rightarrow> nat" where
  "seq_cnt_of s f = (case funcs s f of None \<Rightarrow> 0 | Some r \<Rightarrow> seq_cnt r)"

text \<open>Names given so far are distinct, and the generated ones have numbers below
  \<open>seq_cnt_\<close>.\<close>

definition names_ok :: "'z ir_scheme \<Rightarrow> vid \<Rightarrow> bool" where
  "names_ok s f \<longleftrightarrow>
     (\<forall>v\<in>set (locals_of s f). \<forall>w\<in>set (locals_of s f).
        v \<noteq> w \<longrightarrow> name_of s v \<noteq> '''' \<longrightarrow> name_of s v \<noteq> name_of s w)
   \<and> (\<forall>v\<in>set (locals_of s f). \<forall>p k. auto_prefix p \<longrightarrow> name_of s v = p @ nat_str k \<longrightarrow> k < seq_cnt_of s f)"

lemma set_instr_name_effect:
  assumes run: "set_instr_name f s = Inr (u, t)" and dist: "distinct (listed s f)"
  obtains m s1 where "named (seq_cnt_of s f) (locals_of s f) 0 s m s1"
    "seq_cnt_of t f = seq_cnt_of s f + m" "name_of t = name_of s1" "locals_of t f = locals_of s f"
proof -
  obtain r seq1 s1 seq2 s2 r' where r: "funcs s f = Some r"
    and 1: "name_args (seq_cnt r) (arguments r) [] s = Inr (seq1, s1)"
    and 2: "name_blocks (seq_cnt r) (basic_blocks r) seq1 s1 = Inr (seq2, s2)"
    and r': "funcs s2 f = Some r'"
    and t: "t = s2\<lparr>funcs := (funcs s2)(f \<mapsto> r'\<lparr>seq_cnt := seq_cnt r' + length seq2\<rparr>)\<rparr>"
    using run by (auto simp: set_instr_name_def bindM_Inr_iff readM_def updateM_def)
  have l: "distinct (arguments r @ concat (map (\<lambda>b. b # instrs s b) (basic_blocks r)))"
    using dist r by (simp add: listed_def)
  have v1: "visits (seq_cnt r) (arguments r) [] s seq1 s1"
    by (rule name_args_visits [OF 1]) (use l in simp_all)
  note o1 = same_but_names_obs [OF visits_same [OF v1]]
  have h: "has_result s1 = has_result s" using o1(1) by (simp add: has_result_def fun_eq_iff)
  have i: "instrs s1 b = instrs s b" "locals_of_block s1 b = locals_of_block s b" for b
    using o1(2) by (simp_all add: instrs_def locals_of_block_def h)
  have "set (concat (map (\<lambda>b. b # instrs s1 b) (basic_blocks r))) \<inter> fst ` set seq1 = {}"
    by (rule visits_fresh [OF v1]) (use l in \<open>auto simp: i\<close>)
  moreover have "locals_of_block s1 = locals_of_block s" by (rule ext) (simp add: i)
  ultimately have "visits (seq_cnt r) (concat (map (locals_of_block s) (basic_blocks r))) seq1 s1 seq2 s2"
    using name_blocks_visits [OF 2] l by (simp add: i)
  then have v: "visits (seq_cnt r) (locals_of s f) [] s seq2 s2"
    using visits_append [OF v1] r by (simp add: locals_of_def)
  note o2 = same_but_names_obs [OF visits_same [OF v]]
  have cnt: "seq_cnt_of s f = seq_cnt r" using r by (simp add: seq_cnt_of_def)
  have "r' = r" using r r' o2(3) by simp
  show thesis
  proof (rule that)
    show "named (seq_cnt_of s f) (locals_of s f) 0 s (length seq2) s2"
      using v by (simp add: visits_def cnt)
    show "seq_cnt_of t f = seq_cnt_of s f + length seq2"
      using \<open>r' = r\<close> by (simp add: seq_cnt_of_def t r)
    show "name_of t = name_of s2" by (simp add: name_of_def t fun_eq_iff)
    have iv: "is_void_of t = is_void_of s"
      using o2(1) by (simp add: is_void_of_def instr_op_def type_of_def t fun_eq_iff)
    have "has_result t = has_result s" by (simp add: has_result_def iv fun_eq_iff)
    then have "locals_of_block t b = locals_of_block s b" for b
      using o2(2) by (simp add: locals_of_block_def instrs_def t)
    then have "locals_of_block t = locals_of_block s" by blast
    then show "locals_of t f = locals_of s f"
      using \<open>r' = r\<close> r by (simp add: locals_of_def t)
  qed
qed

section \<open>Properties\<close>

text \<open>C9: after \<open>set_instr_name\<close> every argument, basic block and value-producing
  instruction of the function has a name, two of them never have the same name, a name
  that was there before is kept, and the invariant that makes the next call safe holds
  again.\<close>

theorem set_instr_name_names_are_unique:
  assumes "set_instr_name f s = Inr (u, t)" and "distinct (listed s f)" and "names_ok s f"
  shows "(\<forall>v\<in>set (locals_of t f). name_of t v \<noteq> '''') \<and> inj_on (name_of t) (set (locals_of t f))
    \<and> (\<forall>v. name_of s v \<noteq> '''' \<longrightarrow> name_of t v = name_of s v) \<and> names_ok t f"
proof -
  obtain m s1 where n: "named (seq_cnt_of s f) (locals_of s f) 0 s m s1"
    and cnt: "seq_cnt_of t f = seq_cnt_of s f + m" and nt: "name_of t = name_of s1"
    and l: "locals_of t f = locals_of s f"
    using set_instr_name_effect [OF assms(1,2)] by blast
  have old: "name_of t v = name_of s v" if "name_of s v \<noteq> ''''" for v
    using named_outside [OF n] that by (simp add: nt)
  have new: "\<exists>p k. auto_prefix p \<and> k < m \<and> name_of t v = p @ nat_str (k + seq_cnt_of s f)"
    if "v \<in> set (locals_of s f)" "name_of s v = ''''" for v
    using named_new_names [OF n that] by (auto simp: nt)
  have ne: "name_of t v \<noteq> ''''" if "v \<in> set (locals_of s f)" for v
    using old [of v] new [OF that] by (cases "name_of s v = ''''") auto
  have mixed: "name_of t v \<noteq> name_of t w"
    if vw: "v \<in> set (locals_of s f)" "w \<in> set (locals_of s f)" "name_of s v = ''''" "name_of s w \<noteq> ''''" for v w
  proof
    assume e: "name_of t v = name_of t w"
    obtain p k where p: "auto_prefix p" "name_of t v = p @ nat_str (k + seq_cnt_of s f)"
      using new [OF vw(1,3)] by blast
    then have "name_of s w = p @ nat_str (k + seq_cnt_of s f)" using e old vw(4) by simp
    then have "k + seq_cnt_of s f < seq_cnt_of s f"
      using assms(3) p(1) vw(2) unfolding names_ok_def by blast
    then show False by simp
  qed
  have diff: "name_of t v \<noteq> name_of t w"
    if vw: "v \<in> set (locals_of s f)" "w \<in> set (locals_of s f)" "v \<noteq> w" for v w
  proof (cases "name_of s v = ''''"; cases "name_of s w = ''''")
    assume "name_of s v = ''''" "name_of s w = ''''"
    then show ?thesis using named_inj [OF n vw] by (simp add: nt)
  next
    assume "name_of s v \<noteq> ''''" "name_of s w \<noteq> ''''"
    then show ?thesis using assms(3) vw old unfolding names_ok_def by auto
  next
    assume "name_of s v = ''''" "name_of s w \<noteq> ''''"
    then show ?thesis using mixed vw by blast
  next
    assume "name_of s v \<noteq> ''''" "name_of s w = ''''"
    then show ?thesis using mixed [of w v] vw by metis
  qed
  have bound: "k < seq_cnt_of t f"
    if v: "v \<in> set (locals_of s f)" and p: "auto_prefix p" "name_of t v = p @ nat_str k" for v p k
  proof (cases "name_of s v = ''''")
    case True
    obtain q j where "auto_prefix q" "j < m" "name_of t v = q @ nat_str (j + seq_cnt_of s f)"
      using new [OF v True] by blast
    then show ?thesis using auto_name_inj [OF p(1), of q k] p(2) cnt by auto
  next
    case False
    then have "name_of s v = p @ nat_str k" using old p(2) by simp
    then have "k < seq_cnt_of s f" using assms(3) v p(1) unfolding names_ok_def by blast
    then show ?thesis by (simp add: cnt)
  qed
  show ?thesis using ne diff old bound by (auto simp: names_ok_def inj_on_def l)
qed

text \<open>A module with one function of one argument and a block that only branches to
  itself.\<close>

definition naming_demo :: ir where
  "naming_demo = empty_ir\<lparr>
     vals := [0 \<mapsto> \<lparr>vty = FunctionTy VoidTy [int32_ty], vname = ''f'', vuses = [], vops = [], vkind = K_func\<rparr>,
       1 \<mapsto> \<lparr>vty = int32_ty, vname = '''', vuses = [], vops = [], vkind = K_arg 0 0\<rparr>,
       2 \<mapsto> \<lparr>vty = LabelTy, vname = ''label_entry'', vuses = [(3, 0)], vops = [], vkind = K_block\<rparr>,
       3 \<mapsto> \<lparr>vty = VoidTy, vname = '''', vuses = [], vops = [Some 2], vkind = K_instr O_br (Some 2)\<rparr>],
     bbs := [2 \<mapsto> \<lparr>pre_bbs = [2], succ_bbs = [2], instr_list = [3], bparent = 0\<rparr>],
     funcs := [0 \<mapsto> \<lparr>basic_blocks = [2], arguments = [1], seq_cnt = 0\<rparr>], next_id := 4\<rparr>"

lemma naming_demo_locals: "locals_of naming_demo 0 = [1, 2]" "listed naming_demo 0 = [1, 2, 3]"
  "name_of naming_demo 1 = ''''" "name_of naming_demo 2 = ''label_entry''"
  by (simp_all add: locals_of_def listed_def locals_of_block_def instrs_def has_result_def is_void_of_def
      instr_op_def type_of_def is_void_instr_def name_of_def naming_demo_def empty_ir_def)

lemma label_entry_not_auto: "''label_entry'' \<noteq> p @ nat_str k"
proof
  assume "''label_entry'' = p @ nat_str k"
  then have "last ''label_entry'' = last (p @ nat_str k)" by (rule arg_cong)
  then have "CHR ''y'' = digit_char (k mod 10)"
    by (simp add: nat_str.simps [of k] split: if_splits)
  then have "of_char (CHR ''y'') = (48 + k mod 10 :: nat)" by (simp add: digit_char_def)
  then show False by simp
qed

lemma naming_demo_ok: "names_ok naming_demo 0"
  by (simp add: names_ok_def naming_demo_locals naming_demo_locals [unfolded One_nat_def]
      label_entry_not_auto)

theorem set_instr_name_witness:
  "\<exists>t. set_instr_name 0 naming_demo = Inr ((), t) \<and> name_of t 1 \<noteq> '''' \<and> names_ok t 0"
proof -
  obtain t where t: "set_instr_name 0 naming_demo = Inr ((), t)"
    and l: "locals_of t 0 = locals_of naming_demo 0"
    by (simp add: set_instr_name_def sm_defs name_one_def Value_set_name_def is_void_of_def instr_op_def
        type_of_def is_void_instr_def naming_demo_def empty_ir_def locals_of_def locals_of_block_def
        instrs_def has_result_def)
  show ?thesis
    using set_instr_name_names_are_unique [OF t _ naming_demo_ok] t l by (simp add: naming_demo_locals)
qed

end
