(* ===== verification/IRPrinter.thy ===== *)
theory IRPrinter
  imports Naming
begin

text \<open>
  The textual form of a module: \<open>print_as_op\<close>, \<open>print_instr_op_name\<close> and the \<open>print\<close>
  member of every class (\<open>src/lightir/IRprinter.cpp\<close>, \<open>Constant.cpp\<close>, \<open>BasicBlock.cpp\<close>,
  \<open>Function.cpp\<close>, \<open>GlobalVariable.cpp\<close>, \<open>Module.cpp\<close>). A \<open>float\<close> constant is printed as
  the hexadecimal bits of the \<open>double\<close> of the same value; \<open>f32_to_f64\<close> is that
  conversion.
\<close>

section \<open>Constants\<close>

definition f32_sign :: "f32 \<Rightarrow> nat" where "f32_sign x = unat x div 2 ^ 31"
definition f32_exp :: "f32 \<Rightarrow> nat" where "f32_exp x = unat x div 2 ^ 23 mod 256"
definition f32_man :: "f32 \<Rightarrow> nat" where "f32_man x = unat x mod 2 ^ 23"

text \<open>The position of the leading bit of a positive number.\<close>

fun top_bit :: "nat \<Rightarrow> nat" where
  "top_bit n = (if n \<le> 1 then 0 else Suc (top_bit (n div 2)))"

declare top_bit.simps [simp del]

text \<open>The three fields of the \<open>double\<close> of the same value (a NaN becomes quiet).\<close>

definition f64_fields :: "f32 \<Rightarrow> nat \<times> nat" where
  "f64_fields x =
     (let e = f32_exp x; m = f32_man x in
      if e = 255 then (2047, if m = 0 then 0 else or (2 ^ 51) (m * 2 ^ 29))
      else if e = 0 then
        (if m = 0 then (0, 0)
         else let k = top_bit m in (k + 874, (m - 2 ^ k) * 2 ^ (52 - k)))
      else (e + 896, m * 2 ^ 29))"

definition f32_to_f64 :: "f32 \<Rightarrow> 64 word" where
  "f32_to_f64 x = (case f64_fields x of (e, m) \<Rightarrow>
     of_nat (f32_sign x * 2 ^ 63 + e * 2 ^ 52 + m))"

definition hex_digit :: "nat \<Rightarrow> char" where
  "hex_digit d = (if d < 10 then char_of (48 + d) else char_of (87 + d))"

fun nat_hex :: "nat \<Rightarrow> string" where
  "nat_hex n = (if n < 16 then [hex_digit n] else nat_hex (n div 16) @ [hex_digit (n mod 16)])"

declare nat_hex.simps [simp del]

definition ConstantInt_print :: "ty \<Rightarrow> int \<Rightarrow> string" where
  "ConstantInt_print t n =
     (if is_integer_type t \<and> get_num_bits t = 1 then (if n = 0 then ''false'' else ''true'')
      else int_str n)"

definition ConstantFP_print :: "f32 \<Rightarrow> string" where
  "ConstantFP_print x = ''0x'' @ nat_hex (unat (f32_to_f64 x))"

text \<open>\<open>Constant::print\<close>. The elements of an array are constants again; \<open>depth\<close> bounds
  the nesting that is followed. \<open>ConstantArray_get\<close> never returns an array with
  elements, so one level is enough for every module that can be built.\<close>

fun Constant_print :: "nat \<Rightarrow> 'z ir_scheme \<Rightarrow> vid \<Rightarrow> string res" where
  "Constant_print 0 s v = Inl Diverges"
| "Constant_print (Suc depth) s v =
     bindR (deref (vals s) v) (\<lambda>r. case vkind r of
       K_int n \<Rightarrow> Inr (ConstantInt_print (vty r) n)
     | K_fp x \<Rightarrow> Inr (ConstantFP_print x)
     | K_zero \<Rightarrow> Inr ''zeroinitializer''
     | K_undef \<Rightarrow> Inr ''undef''
     | K_array vs \<Rightarrow>
         let elements = fold (\<lambda>e acc. bindR acc (\<lambda>txt.
               bindR (deref (vals s) e) (\<lambda>re.
               bindR (Constant_print depth s e) (\<lambda>p.
               Inr (txt @ (case vkind re of K_array _ \<Rightarrow> '''' | _ \<Rightarrow> type_print (vty re)) @ p @ '', '')))))
               vs (Inr '''')
         in bindR elements (\<lambda>es. Inr (type_print (vty r) @ '' ['' @ es @ '']''))
     | _ \<Rightarrow> Inl Dangling)"

section \<open>Operands and opcodes\<close>

definition print_as_op :: "'z ir_scheme \<Rightarrow> vid \<Rightarrow> bool \<Rightarrow> string res" where
  "print_as_op s v print_ty =
     bindR (deref (vals s) v) (\<lambda>r.
     bindR (case vkind r of
              K_global _ _ \<Rightarrow> Inr (''@'' @ vname r)
            | K_func \<Rightarrow> Inr (''@'' @ vname r)
            | K_int _ \<Rightarrow> Constant_print 2 s v
            | K_fp _ \<Rightarrow> Constant_print 2 s v
            | K_zero \<Rightarrow> Constant_print 2 s v
            | K_undef \<Rightarrow> Constant_print 2 s v
            | K_array _ \<Rightarrow> Constant_print 2 s v
            | _ \<Rightarrow> Inr (''%'' @ vname r)) (\<lambda>op_ir.
     Inr ((if print_ty then type_print (vty r) @ '' '' else '''') @ op_ir)))"

fun print_instr_op_name :: "opid \<Rightarrow> string" where
  "print_instr_op_name O_ret = ''ret''"
| "print_instr_op_name O_br = ''br''"
| "print_instr_op_name O_add = ''add''"
| "print_instr_op_name O_sub = ''sub''"
| "print_instr_op_name O_mul = ''mul''"
| "print_instr_op_name O_sdiv = ''sdiv''"
| "print_instr_op_name O_fadd = ''fadd''"
| "print_instr_op_name O_fsub = ''fsub''"
| "print_instr_op_name O_fmul = ''fmul''"
| "print_instr_op_name O_fdiv = ''fdiv''"
| "print_instr_op_name O_alloca = ''alloca''"
| "print_instr_op_name O_load = ''load''"
| "print_instr_op_name O_store = ''store''"
| "print_instr_op_name O_ge = ''sge''"
| "print_instr_op_name O_gt = ''sgt''"
| "print_instr_op_name O_le = ''sle''"
| "print_instr_op_name O_lt = ''slt''"
| "print_instr_op_name O_eq = ''eq''"
| "print_instr_op_name O_ne = ''ne''"
| "print_instr_op_name O_fge = ''uge''"
| "print_instr_op_name O_fgt = ''ugt''"
| "print_instr_op_name O_fle = ''ule''"
| "print_instr_op_name O_flt = ''ult''"
| "print_instr_op_name O_feq = ''ueq''"
| "print_instr_op_name O_fne = ''une''"
| "print_instr_op_name O_phi = ''phi''"
| "print_instr_op_name O_call = ''call''"
| "print_instr_op_name O_getelementptr = ''getelementptr''"
| "print_instr_op_name O_zext = ''zext''"
| "print_instr_op_name O_fptosi = ''fptosi''"
| "print_instr_op_name O_sitofp = ''sitofp''"

text \<open>\<open>get_operand(k)\<close> where the pointer is then dereferenced.\<close>

definition operand_of :: "'z ir_scheme \<Rightarrow> vid \<Rightarrow> nat \<Rightarrow> vid res" where
  "operand_of s i k = bindR (get_operand s i k) (\<lambda>v.
     case v of None \<Rightarrow> Inl Null_deref | Some w \<Rightarrow> Inr w)"

definition operand_ty_print :: "'z ir_scheme \<Rightarrow> vid \<Rightarrow> nat \<Rightarrow> string res" where
  "operand_ty_print s i k =
     bindR (operand_of s i k) (\<lambda>v. bindR (type_of s v) (\<lambda>t. Inr (type_print t)))"

definition operand_print :: "'z ir_scheme \<Rightarrow> vid \<Rightarrow> nat \<Rightarrow> bool \<Rightarrow> string res" where
  "operand_print s i k print_ty = bindR (operand_of s i k) (\<lambda>v. print_as_op s v print_ty)"

definition get_name :: "'z ir_scheme \<Rightarrow> vid \<Rightarrow> string res" where
  "get_name s v = bindR (deref (vals s) v) (\<lambda>r. Inr (vname r))"

definition op_name :: "'z ir_scheme \<Rightarrow> vid \<Rightarrow> string res" where
  "op_name s i = bindR (instr_op s i) (\<lambda>op. Inr (print_instr_op_name op))"

section \<open>Instructions\<close>

text \<open>The second operand, with its type when that differs from the first one's.\<close>

definition print_second :: "'z ir_scheme \<Rightarrow> vid \<Rightarrow> string res" where
  "print_second s i =
     bindR (operand_of s i 0) (\<lambda>v0. bindR (operand_of s i 1) (\<lambda>v1.
     bindR (type_of s v0) (\<lambda>t0. bindR (type_of s v1) (\<lambda>t1.
     if t0 = t1 then print_as_op s v1 False else print_as_op s v1 True))))"

definition print_binary_inst :: "'z ir_scheme \<Rightarrow> vid \<Rightarrow> string res" where
  "print_binary_inst s i =
     bindR (get_name s i) (\<lambda>nm. bindR (op_name s i) (\<lambda>op.
     bindR (operand_ty_print s i 0) (\<lambda>t0. bindR (operand_print s i 0 False) (\<lambda>o0.
     bindR (print_second s i) (\<lambda>o1.
     Inr (''%'' @ nm @ '' = '' @ op @ '' '' @ t0 @ '' '' @ o0 @ '', '' @ o1))))))"

definition print_cmp_inst :: "'z ir_scheme \<Rightarrow> vid \<Rightarrow> string res" where
  "print_cmp_inst s i =
     bindR (instr_op s i) (\<lambda>id.
     bindR (if is_cmp id then Inr ''icmp'' else if is_fcmp id then Inr ''fcmp''
            else Inl (Assert_fail ''Unexpected case'')) (\<lambda>cmp_type.
     bindR (get_name s i) (\<lambda>nm. bindR (op_name s i) (\<lambda>op.
     bindR (operand_ty_print s i 0) (\<lambda>t0. bindR (operand_print s i 0 False) (\<lambda>o0.
     bindR (print_second s i) (\<lambda>o1.
     Inr (''%'' @ nm @ '' = '' @ cmp_type @ '' '' @ op @ '' '' @ t0 @ '' '' @ o0 @ '', '' @ o1))))))))"

text \<open>A comma-separated list of operands, each with its type.\<close>

fun print_operands :: "'z ir_scheme \<Rightarrow> vid option list \<Rightarrow> string res" where
  "print_operands s [] = Inr ''''"
| "print_operands s (v # vs) =
     bindR (case v of None \<Rightarrow> Inl Null_deref | Some w \<Rightarrow> print_as_op s w True) (\<lambda>p.
     if vs = [] then Inr p else bindR (print_operands s vs) (\<lambda>ps. Inr (p @ '', '' @ ps)))"

definition CallInst_print :: "'z ir_scheme \<Rightarrow> vid \<Rightarrow> string res" where
  "CallInst_print s i =
     bindR (deref (vals s) i) (\<lambda>r.
     bindR (is_void_of s i) (\<lambda>void. bindR (op_name s i) (\<lambda>op.
     bindR (operand_of s i 0) (\<lambda>f. bindR (get_return_type s f) (\<lambda>rt.
     bindR (guardR (kind_of s f = Some K_func) (Assert_fail ''Wrong call operand function'')) (\<lambda>_.
     bindR (print_as_op s f False) (\<lambda>fp.
     bindR (print_operands s (drop 1 (vops r))) (\<lambda>args.
     Inr ((if \<not> void then ''%'' @ vname r @ '' = '' else '''') @ op @ '' '' @ type_print rt @ '' ''
          @ fp @ ''('' @ args @ '')'')))))))))"

definition BranchInst_print :: "'z ir_scheme \<Rightarrow> vid \<Rightarrow> string res" where
  "BranchInst_print s i =
     bindR (deref (vals s) i) (\<lambda>r. bindR (op_name s i) (\<lambda>op.
     bindR (operand_print s i 0 True) (\<lambda>o0.
     if length (vops r) = 3 then
       bindR (operand_print s i 1 True) (\<lambda>o1. bindR (operand_print s i 2 True) (\<lambda>o2.
       Inr (op @ '' '' @ o0 @ '', '' @ o1 @ '', '' @ o2)))
     else Inr (op @ '' '' @ o0))))"

definition ReturnInst_print :: "'z ir_scheme \<Rightarrow> vid \<Rightarrow> string res" where
  "ReturnInst_print s i =
     bindR (deref (vals s) i) (\<lambda>r. bindR (op_name s i) (\<lambda>op.
     if length (vops r) \<noteq> 0 then
       bindR (operand_ty_print s i 0) (\<lambda>t0. bindR (operand_print s i 0 False) (\<lambda>o0.
       Inr (op @ '' '' @ t0 @ '' '' @ o0)))
     else Inr (op @ '' void'')))"

definition GetElementPtrInst_print :: "'z ir_scheme \<Rightarrow> vid \<Rightarrow> string res" where
  "GetElementPtrInst_print s i =
     bindR (deref (vals s) i) (\<lambda>r. bindR (op_name s i) (\<lambda>op.
     bindR (operand_of s i 0) (\<lambda>p. bindR (type_of s p) (\<lambda>tp.
     bindR (guardR (is_pointer_type tp) (Assert_fail '''')) (\<lambda>_.
     bindR (get_pointer_element_type tp) (\<lambda>te.
     bindR (print_operands s (vops r)) (\<lambda>os.
     Inr (''%'' @ vname r @ '' = '' @ op @ '' '' @ type_print te @ '', '' @ os))))))))"

definition StoreInst_print :: "'z ir_scheme \<Rightarrow> vid \<Rightarrow> string res" where
  "StoreInst_print s i =
     bindR (op_name s i) (\<lambda>op. bindR (operand_ty_print s i 0) (\<lambda>t0.
     bindR (operand_print s i 0 False) (\<lambda>o0. bindR (operand_print s i 1 True) (\<lambda>o1.
     Inr (op @ '' '' @ t0 @ '' '' @ o0 @ '', '' @ o1)))))"

definition LoadInst_print :: "'z ir_scheme \<Rightarrow> vid \<Rightarrow> string res" where
  "LoadInst_print s i =
     bindR (get_name s i) (\<lambda>nm. bindR (op_name s i) (\<lambda>op.
     bindR (operand_of s i 0) (\<lambda>p. bindR (type_of s p) (\<lambda>tp.
     bindR (guardR (is_pointer_type tp) (Assert_fail '''')) (\<lambda>_.
     bindR (get_pointer_element_type tp) (\<lambda>te.
     bindR (operand_print s i 0 True) (\<lambda>o0.
     Inr (''%'' @ nm @ '' = '' @ op @ '' '' @ type_print te @ '', '' @ o0))))))))"

definition AllocaInst_print :: "'z ir_scheme \<Rightarrow> vid \<Rightarrow> string res" where
  "AllocaInst_print s i =
     bindR (get_name s i) (\<lambda>nm. bindR (op_name s i) (\<lambda>op.
     bindR (type_of s i) (\<lambda>t. bindR (get_pointer_element_type t) (\<lambda>te.
     Inr (''%'' @ nm @ '' = '' @ op @ '' '' @ type_print te)))))"

text \<open>\<open>ZextInst\<close>, \<open>FpToSiInst\<close> and \<open>SiToFpInst\<close> have the same body.\<close>

definition print_cast_inst :: "'z ir_scheme \<Rightarrow> vid \<Rightarrow> string res" where
  "print_cast_inst s i =
     bindR (get_name s i) (\<lambda>nm. bindR (op_name s i) (\<lambda>op.
     bindR (operand_ty_print s i 0) (\<lambda>t0. bindR (operand_print s i 0 False) (\<lambda>o0.
     bindR (type_of s i) (\<lambda>t.
     Inr (''%'' @ nm @ '' = '' @ op @ '' '' @ t0 @ '' '' @ o0 @ '' to '' @ type_print t))))))"

text \<open>The pairs of a phi, \<open>n\<close> of them from operand \<open>2 * k\<close> on.\<close>

fun print_phi_pairs :: "'z ir_scheme \<Rightarrow> vid \<Rightarrow> nat \<Rightarrow> nat \<Rightarrow> string res" where
  "print_phi_pairs s i k 0 = Inr ''''"
| "print_phi_pairs s i k (Suc n) =
     bindR (operand_print s i (2 * k) False) (\<lambda>v.
     bindR (operand_print s i (2 * k + 1) False) (\<lambda>b.
     bindR (print_phi_pairs s i (Suc k) n) (\<lambda>rest.
     Inr ((if k > 0 then '', '' else '''') @ ''[ '' @ v @ '', '' @ b @ '' ]'' @ rest))))"

text \<open>Predecessors that no pair of the phi names are printed with an undefined value.\<close>

fun print_phi_undefs :: "'z ir_scheme \<Rightarrow> vid option list \<Rightarrow> vid list \<Rightarrow> bool \<Rightarrow> string res" where
  "print_phi_undefs s ops [] first = Inr ''''"
| "print_phi_undefs s ops (b # bs) first =
     (if Some b \<notin> set ops then
        bindR (print_as_op s b False) (\<lambda>p. bindR (print_phi_undefs s ops bs False) (\<lambda>rest.
        Inr ((if \<not> first then '', '' else '''') @ ''[ undef, '' @ p @ '' ]'' @ rest)))
      else print_phi_undefs s ops bs first)"

definition PhiInst_print :: "'z ir_scheme \<Rightarrow> vid \<Rightarrow> string res" where
  "PhiInst_print s i =
     bindR (deref (vals s) i) (\<lambda>r. bindR (op_name s i) (\<lambda>op.
     let n = length (vops r) div 2 in
     bindR (print_phi_pairs s i 0 n) (\<lambda>pairs.
     bindR (instr_parent s i) (\<lambda>p.
     bindR (case p of None \<Rightarrow> Inl Null_deref | Some b \<Rightarrow> Inr b) (\<lambda>b.
     bindR (deref (bbs s) b) (\<lambda>rb.
     bindR (if n < length (pre_bbs rb) then print_phi_undefs s (vops r) (pre_bbs rb) (n = 0)
            else Inr '''') (\<lambda>undefs.
     Inr (''%'' @ vname r @ '' = '' @ op @ '' '' @ type_print (vty r) @ '' '' @ pairs @ undefs))))))))"

text \<open>The virtual call \<open>instr.print()\<close>.\<close>

definition Instruction_print :: "'z ir_scheme \<Rightarrow> vid \<Rightarrow> string res" where
  "Instruction_print s i = bindR (instr_op s i) (\<lambda>op.
     if op \<in> {O_add, O_sub, O_mul, O_sdiv, O_fadd, O_fsub, O_fmul, O_fdiv} then print_binary_inst s i
     else if is_cmp op \<or> is_fcmp op then print_cmp_inst s i
     else if op = O_call then CallInst_print s i
     else if op = O_br then BranchInst_print s i
     else if op = O_ret then ReturnInst_print s i
     else if op = O_getelementptr then GetElementPtrInst_print s i
     else if op = O_store then StoreInst_print s i
     else if op = O_load then LoadInst_print s i
     else if op = O_alloca then AllocaInst_print s i
     else if op = O_phi then PhiInst_print s i
     else print_cast_inst s i)"

section \<open>Blocks, functions, globals, module\<close>

text \<open>The separator is printed before every predecessor that is not the first block of
  the list, compared by address.\<close>

fun print_preds :: "'z ir_scheme \<Rightarrow> vid \<Rightarrow> vid list \<Rightarrow> string res" where
  "print_preds s first [] = Inr ''''"
| "print_preds s first (b # bs) =
     bindR (print_as_op s b False) (\<lambda>p. bindR (print_preds s first bs) (\<lambda>rest.
     Inr ((if b \<noteq> first then '', '' else '''') @ p @ rest)))"

fun print_instrs :: "'z ir_scheme \<Rightarrow> vid list \<Rightarrow> string res" where
  "print_instrs s [] = Inr ''''"
| "print_instrs s (i # is) =
     bindR (Instruction_print s i) (\<lambda>p. bindR (print_instrs s is) (\<lambda>rest.
     Inr (''  '' @ p @ [CHR 0x0A] @ rest)))"

definition BasicBlock_print :: "'z ir_scheme \<Rightarrow> vid \<Rightarrow> string res" where
  "BasicBlock_print s b =
     bindR (get_name s b) (\<lambda>nm. bindR (deref (bbs s) b) (\<lambda>r.
     bindR (if pre_bbs r = [] then Inr '''' else
              bindR (print_preds s (hd (pre_bbs r)) (pre_bbs r)) (\<lambda>p.
              Inr (replicate 48 CHR '' '' @ ''; preds = '' @ p))) (\<lambda>preds_ir.
     bindR (print_instrs s (instr_list r)) (\<lambda>instrs_ir.
     Inr (nm @ '':'' @ preds_ir @ [CHR 0x0A] @ instrs_ir)))))"

definition Argument_print :: "'z ir_scheme \<Rightarrow> vid \<Rightarrow> string res" where
  "Argument_print s a =
     bindR (deref (vals s) a) (\<lambda>r. Inr (type_print (vty r) @ '' %'' @ vname r))"

fun print_args :: "'z ir_scheme \<Rightarrow> vid list \<Rightarrow> string res" where
  "print_args s [] = Inr ''''"
| "print_args s (a # as) =
     bindR (Argument_print s a) (\<lambda>p.
     if as = [] then Inr p else bindR (print_args s as) (\<lambda>ps. Inr (p @ '', '' @ ps)))"

fun print_blocks :: "'z ir_scheme \<Rightarrow> vid list \<Rightarrow> string res" where
  "print_blocks s [] = Inr ''''"
| "print_blocks s (b # bs) =
     bindR (BasicBlock_print s b) (\<lambda>p. bindR (print_blocks s bs) (\<lambda>rest. Inr (p @ rest)))"

definition Function_print :: "vid \<Rightarrow> ('z ir_scheme, string) sm" where
  "Function_print f =
     thenM (set_instr_name f)
    (readM (\<lambda>s.
       bindR (deref (funcs s) f) (\<lambda>r.
       bindR (get_function_type_of s f) (\<lambda>ft.
       bindR (print_as_op s f False) (\<lambda>nm.
       if basic_blocks r = [] then
         Inr (''declare '' @ type_print (fst ft) @ '' '' @ nm @ ''('' @ comma_sep (map type_print (snd ft))
              @ '')'' @ [CHR 0x0A])
       else
         bindR (print_args s (arguments r)) (\<lambda>args.
         bindR (print_blocks s (basic_blocks r)) (\<lambda>body.
         Inr (''define '' @ type_print (fst ft) @ '' '' @ nm @ ''('' @ args @ '') {'' @ [CHR 0x0A]
              @ body @ ''}''))))))))"

definition GlobalVariable_print :: "'z ir_scheme \<Rightarrow> vid \<Rightarrow> string res" where
  "GlobalVariable_print s g =
     bindR (deref (vals s) g) (\<lambda>r. case vkind r of
       K_global is_const init \<Rightarrow>
         bindR (print_as_op s g False) (\<lambda>nm.
         bindR (get_pointer_element_type (vty r)) (\<lambda>te.
         bindR (case init of None \<Rightarrow> Inl Null_deref | Some c \<Rightarrow> Constant_print 2 s c) (\<lambda>i.
         Inr (nm @ '' = '' @ (if is_const then ''constant '' else ''global '') @ type_print te @ '' '' @ i))))
     | _ \<Rightarrow> Inl Dangling)"

fun print_globals :: "'z ir_scheme \<Rightarrow> vid list \<Rightarrow> string res" where
  "print_globals s [] = Inr ''''"
| "print_globals s (g # gs) =
     bindR (GlobalVariable_print s g) (\<lambda>p. bindR (print_globals s gs) (\<lambda>rest.
     Inr (p @ [CHR 0x0A] @ rest)))"

fun print_functions :: "vid list \<Rightarrow> ('z ir_scheme, string) sm" where
  "print_functions [] = returnM ''''"
| "print_functions (f # fs) =
     bindM (Function_print f) (\<lambda>p. bindM (print_functions fs) (\<lambda>rest.
     returnM (p @ [CHR 0x0A] @ rest)))"

definition Module_print :: "('z ir_scheme, string) sm" where
  "Module_print =
     thenM set_print_name
    (bindM (getM id) (\<lambda>s.
     bindM (readM (\<lambda>s. print_globals s (global_list s))) (\<lambda>gs.
     bindM (print_functions (function_list s)) (\<lambda>fs.
     returnM (gs @ fs)))))"

section \<open>Reading a printed float back\<close>

fun hex_val :: "char \<Rightarrow> nat" where
  "hex_val c = (let n = of_char c in if n < 58 then n - 48 else n - 87)"

definition parse_hex :: "string \<Rightarrow> nat" where
  "parse_hex ds = foldl (\<lambda>n c. n * 16 + hex_val c) 0 ds"

lemma hex_val_digit: "d < 16 \<Longrightarrow> hex_val (hex_digit d) = d"
  by (simp add: hex_digit_def Let_def)

lemma parse_nat_hex: "parse_hex (nat_hex n) = n"
proof (induction n rule: nat_hex.induct)
  case (1 n)
  show ?case
  proof (cases "n < 16")
    case True
    then show ?thesis by (simp add: nat_hex.simps [of n] parse_hex_def hex_val_digit del: hex_val.simps)
  next
    case False
    then have "parse_hex (nat_hex n) = parse_hex (nat_hex (n div 16)) * 16 + n mod 16"
      by (simp add: nat_hex.simps [of n] parse_hex_def hex_val_digit del: hex_val.simps)
    then show ?thesis using 1 False by simp
  qed
qed

text \<open>
  The values of the two formats as integers: a finite \<open>float\<close> is
  \<open>(-1) ^ sign * f32_scaled / 2 ^ 149\<close>, a finite \<open>double\<close> with the bits \<open>n\<close> is
  \<open>(-1) ^ sign * f64_scaled / 2 ^ 1074\<close>.
\<close>

definition f32_scaled :: "f32 \<Rightarrow> nat" where
  "f32_scaled x = (if f32_exp x = 0 then f32_man x else (2 ^ 23 + f32_man x) * 2 ^ (f32_exp x - 1))"

definition f64_sign :: "nat \<Rightarrow> nat" where "f64_sign n = n div 2 ^ 63"
definition f64_exp :: "nat \<Rightarrow> nat" where "f64_exp n = n div 2 ^ 52 mod 2048"
definition f64_man :: "nat \<Rightarrow> nat" where "f64_man n = n mod 2 ^ 52"

definition f64_scaled :: "nat \<Rightarrow> nat" where
  "f64_scaled n = (if f64_exp n = 0 then f64_man n else (2 ^ 52 + f64_man n) * 2 ^ (f64_exp n - 1))"

lemma top_bit_bounds: "0 < n \<Longrightarrow> 2 ^ top_bit n \<le> n \<and> n < 2 ^ Suc (top_bit n)"
proof (induction n rule: top_bit.induct)
  case (1 n)
  show ?case
  proof (cases "n \<le> 1")
    case True
    then have "n = 1" using 1 by simp
    then show ?thesis by (simp add: top_bit.simps)
  next
    case False
    then have t: "top_bit n = Suc (top_bit (n div 2))" by (simp add: top_bit.simps [of n])
    have "2 ^ top_bit (n div 2) \<le> n div 2 \<and> n div 2 < 2 ^ Suc (top_bit (n div 2))"
      using 1 False by auto
    then have "2 * 2 ^ top_bit (n div 2) \<le> n" "n < 2 * 2 ^ Suc (top_bit (n div 2))" by linarith+
    then show ?thesis by (simp add: t)
  qed
qed

lemma f32_field_bounds: "f32_man x < 2 ^ 23" "f32_exp x < 256" "f32_sign x < 2"
proof -
  have "unat x < 2 ^ LENGTH(32)" by (rule unsigned_less)
  then show "f32_sign x < 2" by (simp add: f32_sign_def less_mult_imp_div_less)
  show "f32_man x < 2 ^ 23" "f32_exp x < 256" by (simp_all add: f32_man_def f32_exp_def)
qed

lemma f64_decode:
  assumes "g < 2" and "e < 2048" and "m < 2 ^ 52" and n: "n = g * 2 ^ 63 + e * 2 ^ 52 + m"
  shows "f64_sign n = g" "f64_exp n = e" "f64_man n = m" "n < 2 ^ 64"
proof -
  have n': "n = (g * 2048 + e) * 2 ^ 52 + m" using n by simp
  have div: "n div 2 ^ 52 = g * 2048 + e" using assms(3) by (simp add: n')
  show "f64_man n = m" unfolding f64_man_def n' by (simp only: mod_mult_self3 mod_less assms(3))
  show "f64_exp n = e" unfolding f64_exp_def div by (simp only: mod_mult_self3 mod_less assms(2))
  have s63: "n div 2 ^ 63 = n div 2 ^ 52 div 2 ^ 11" by (simp flip: div_mult2_eq)
  have "(g * 2048 + e) div 2 ^ 11 = g" using assms(2) by simp
  then show "f64_sign n = g" unfolding f64_sign_def s63 div .
  show "n < 2 ^ 64" using assms by simp
qed

lemma f64_fields_scaled:
  assumes "f32_exp x \<noteq> 255" and "f64_fields x = (e, m)"
  shows "e < 2048 \<and> m < 2 ^ 52
    \<and> (if e = 0 then m else (2 ^ 52 + m) * 2 ^ (e - 1)) = f32_scaled x * 2 ^ 925"
proof (cases "f32_exp x = 0")
  case False
  then have "e = f32_exp x + 896" "m = f32_man x * 2 ^ 29"
    using assms by (simp_all add: f64_fields_def Let_def)
  moreover obtain k where k: "f32_exp x = Suc k" using False by (cases "f32_exp x") auto
  moreover have "(2 ^ 52 + f32_man x * 2 ^ 29) * 2 ^ (896 + k) = (2 ^ 23 + f32_man x) * 2 ^ k * (2 ^ 925 :: nat)"
  proof -
    have "(2 ^ 52 + f32_man x * 2 ^ 29) = (2 ^ 23 + f32_man x) * (2 ^ 29 :: nat)" by simp
    moreover have "(2 ^ 29 :: nat) * 2 ^ (896 + k) = 2 ^ k * 2 ^ 925" by (simp add: power_add)
    ultimately show ?thesis by (simp add: mult.assoc)
  qed
  ultimately show ?thesis using f32_field_bounds(1,2) [of x] by (simp add: f32_scaled_def)
next
  case True
  note e0 = this
  show ?thesis
  proof (cases "f32_man x = 0")
    case True
    then show ?thesis using e0 assms(2) by (simp add: f64_fields_def f32_scaled_def)
  next
    case False
    let ?k = "top_bit (f32_man x)"
    have em: "e = ?k + 874" "m = (f32_man x - 2 ^ ?k) * 2 ^ (52 - ?k)"
      using assms(2) e0 False by (simp_all add: f64_fields_def Let_def)
    have b: "2 ^ ?k \<le> f32_man x" "f32_man x < 2 ^ Suc ?k" using top_bit_bounds False by auto
    then have "(2 :: nat) ^ ?k < 2 ^ 23" using f32_field_bounds(1) [of x] by linarith
    then have k: "?k < 23" by (rule power_less_imp_less_exp [rotated]) simp
    then have p: "(2 :: nat) ^ ?k * 2 ^ (52 - ?k) = 2 ^ 52" by (simp flip: power_add)
    have "f32_man x - 2 ^ ?k < 2 ^ ?k" using b by simp
    then have "m < 2 ^ ?k * 2 ^ (52 - ?k)" unfolding em by (rule mult_strict_right_mono) simp
    moreover have "2 ^ 52 + m = f32_man x * 2 ^ (52 - ?k)"
      using mult_le_mono1 [OF b(1), of "2 ^ (52 - ?k)"] p by (simp add: em(2) diff_mult_distrib)
    moreover have "(2 :: nat) ^ (52 - ?k) * 2 ^ (873 + ?k) = 2 ^ 925" using k by (simp flip: power_add)
    ultimately show ?thesis using k p e0 by (simp add: em(1) f32_scaled_def mult.assoc)
  qed
qed

text \<open>C34: the text of a finite \<open>float\<close> constant is \<open>0x\<close> and hexadecimal digits whose value
  is the bit pattern of a \<open>double\<close> with the same sign and exactly the same magnitude, so
  no precision is lost in the printed IR.\<close>

theorem ConstantFP_print_exact:
  assumes "f32_exp x \<noteq> 255"
  shows "\<exists>ds. ConstantFP_print x = ''0x'' @ ds \<and> f64_sign (parse_hex ds) = f32_sign x
    \<and> f64_scaled (parse_hex ds) = f32_scaled x * 2 ^ 925"
proof -
  obtain e m where em: "f64_fields x = (e, m)" by (cases "f64_fields x")
  note f = f64_fields_scaled [OF assms em]
  let ?n = "f32_sign x * 2 ^ 63 + e * 2 ^ 52 + m"
  note d = f64_decode [OF f32_field_bounds(3) _ _ refl, of e m x]
  have "unat (f32_to_f64 x) = ?n"
    unfolding f32_to_f64_def em prod.case unat_of_nat by (rule mod_less) (use d(4) f in simp)
  then have "parse_hex (nat_hex (unat (f32_to_f64 x))) = ?n" by (simp only: parse_nat_hex)
  then show ?thesis using d f unfolding ConstantFP_print_def f64_scaled_def by auto
qed

theorem ConstantFP_print_witness:
  "\<exists>ds. ConstantFP_print 0x3FC00000 = ''0x'' @ ds \<and> f64_scaled (parse_hex ds) = 3 * 2 ^ 1073"
proof -
  have "f32_exp 0x3FC00000 = 127" "f32_scaled 0x3FC00000 = 3 * 2 ^ 148"
    by (simp_all add: f32_exp_def f32_scaled_def f32_man_def)
  then show ?thesis using ConstantFP_print_exact [of "0x3FC00000"] by auto
qed

end
