(* ===== verification/Regalloc.thy ===== *)
theory Regalloc
  imports Instructions "HOL-Library.Multiset"
begin

text \<open>
  Linear-scan register allocation (\<open>include/codegen/Regalloc.hpp\<close>,
  \<open>src/codegen/Regalloc.cpp\<close>). An allocator for one register class walks the live
  intervals in the order of \<open>LiveIntervalCmp\<close>; \<open>active\<close> is the \<open>std::set\<close> ordered by
  \<open>ActiveCmp\<close>, kept as its sorted list; \<open>used\<close> is the bit vector with the unused index 0.
  The order of two pointers is the order of their addresses.
\<close>

section \<open>Intervals and their orders\<close>

type_synonym interval = "int \<times> int"             \<comment> \<open>\<open>Interval\<close>: \<open>start\<close>, \<open>end\<close>\<close>
type_synonym live_interval = "interval \<times> vid"

definition iv_start :: "live_interval \<Rightarrow> int" where "iv_start li = fst (fst li)"
definition iv_end :: "live_interval \<Rightarrow> int" where "iv_end li = snd (fst li)"

definition is_arg :: "'z ir_scheme \<Rightarrow> vid \<Rightarrow> bool" where
  "is_arg s v = (case kind_of s v of Some (K_arg _ _) \<Rightarrow> True | _ \<Rightarrow> False)"

definition LiveIntervalCmp :: "'z ir_scheme \<Rightarrow> live_interval \<Rightarrow> live_interval \<Rightarrow> bool" where
  "LiveIntervalCmp s lhs rhs =
     (if is_arg s (snd lhs) \<and> \<not> is_arg s (snd rhs) then True
      else if \<not> is_arg s (snd lhs) \<and> is_arg s (snd rhs) then False
      else if iv_start lhs \<noteq> iv_start rhs then iv_start lhs < iv_start rhs
      else snd lhs < snd rhs)"

definition ActiveCmp :: "'z ir_scheme \<Rightarrow> live_interval \<Rightarrow> live_interval \<Rightarrow> bool" where
  "ActiveCmp s lhs rhs =
     (if is_arg s (snd lhs) \<and> \<not> is_arg s (snd rhs) then True
      else if \<not> is_arg s (snd lhs) \<and> is_arg s (snd rhs) then False
      else if iv_end lhs \<noteq> iv_end rhs then iv_end lhs < iv_end rhs
      else if iv_start lhs \<noteq> iv_start rhs then iv_start lhs < iv_start rhs
      else snd lhs < snd rhs)"

text \<open>\<open>std::set::insert\<close> under a strict order.\<close>

fun set_insert :: "('a \<Rightarrow> 'a \<Rightarrow> bool) \<Rightarrow> 'a \<Rightarrow> 'a list \<Rightarrow> 'a list" where
  "set_insert lt x [] = [x]"
| "set_insert lt x (y # ys) =
     (if lt x y then x # y # ys
      else if lt y x then y # set_insert lt x ys
      else y # ys)"

section \<open>\<open>RegAllocator\<close>\<close>

definition MAXR :: nat where "MAXR = 32"
definition ARG_MAX_R :: nat where "ARG_MAX_R = 8"

record ra =
  used :: "bool list"
  reg_map :: "vid \<rightharpoonup> nat"
  active :: "live_interval list"

text \<open>The constructor asserts \<open>num_regs <= MAXR\<close>; \<open>reset\<close> clears all three.\<close>

definition RegAllocator_ctor :: "nat \<Rightarrow> ra res" where
  "RegAllocator_ctor num_regs =
     bindR (guardR (num_regs \<le> MAXR) (Assert_fail '''')) (\<lambda>_.
     Inr \<lparr>used = replicate (num_regs + 1) False, reg_map = Map.empty, active = []\<rparr>)"

definition reset :: "ra \<Rightarrow> ra" where
  "reset st = st\<lparr>reg_map := Map.empty, active := [], used := replicate (length (used st)) False\<rparr>"

text \<open>\<open>used[reg] = b\<close> and \<open>used[reg]\<close>; the bit vector asserts that the index is in range.\<close>

definition set_used :: "nat \<Rightarrow> bool \<Rightarrow> ra \<Rightarrow> ra res" where
  "set_used reg b st =
     bindR (guardR (reg < length (used st)) (Assert_fail ''Out-of-bounds Bit access.'')) (\<lambda>_.
     Inr (st\<lparr>used := (used st)[reg := b]\<rparr>))"

definition get_used :: "nat \<Rightarrow> ra \<Rightarrow> bool res" where
  "get_used reg st =
     bindR (guardR (reg < length (used st)) (Assert_fail ''Out-of-bounds Bit access.'')) (\<lambda>_.
     Inr (used st ! reg))"

text \<open>\<open>find_next_unset(0)\<close>: the first clear bit behind index 0.\<close>

definition find_next_unset0 :: "bool list \<Rightarrow> nat option" where
  "find_next_unset0 bs = find (\<lambda>i. \<not> bs ! i) [1..<length bs]"

definition is_branch :: "'z ir_scheme \<Rightarrow> vid \<Rightarrow> bool" where
  "is_branch s v = (case kind_of s v of Some (K_instr O_br _) \<Rightarrow> True | _ \<Rightarrow> False)"

definition no_reg_alloca :: "'z ir_scheme \<Rightarrow> vid \<Rightarrow> bool res" where
  "no_reg_alloca s v =
     bindR (deref (vals s) v) (\<lambda>r. case vkind r of
       K_instr op _ \<Rightarrow>
         Inr (if is_void_instr op (vty r) \<or> op = O_alloca \<or> vuses r = [] then True
              else if is_cmp op \<or> is_fcmp op
              then (if length (vuses r) \<noteq> 1 then False else is_branch s (fst (hd (vuses r))))
              else False)
     | K_arg _ arg_no \<Rightarrow> Inr (ARG_MAX_R \<le> arg_no)
     | _ \<Rightarrow> Inl (Assert_fail ''only instruction and argument's LiveInterval exits''))"

text \<open>Is a value of the register class of this allocator?\<close>

definition in_class :: "bool \<Rightarrow> ty \<Rightarrow> bool" where
  "in_class is_float t = (if is_float then is_float_type t else is_integer_type t)"

fun reserve_for_arg :: "'z ir_scheme \<Rightarrow> bool \<Rightarrow> live_interval list \<Rightarrow> ra \<Rightarrow> ra res" where
  "reserve_for_arg s fl [] st = Inr st"
| "reserve_for_arg s fl (li # lis) st =
     bindR (deref (vals s) (snd li)) (\<lambda>r. case vkind r of
       K_arg _ arg_no \<Rightarrow>
         if \<not> in_class fl (vty r) then reserve_for_arg s fl lis st
         else if ARG_MAX_R \<le> arg_no then reserve_for_arg s fl lis st
         else
           let reg = arg_no + 1 in
           bindR (get_used reg st) (\<lambda>taken.
           bindR (guardR (\<not> taken) (Assert_fail ''argument register already taken'')) (\<lambda>_.
           bindR (set_used reg True st) (\<lambda>st1.
           reserve_for_arg s fl lis
             (st1\<lparr>reg_map := (reg_map st1)(snd li \<mapsto> reg),
                  active := set_insert (ActiveCmp s) li (active st1)\<rparr>))))
     | _ \<Rightarrow> reserve_for_arg s fl lis st)"

text \<open>The loop of \<open>expire_old_intervals\<close> over the intervals that were active at its
  start. \<open>reg_map[v]\<close> makes an entry 0 for a missing key.\<close>

fun expire_loop :: "int \<Rightarrow> live_interval list \<Rightarrow> ra \<Rightarrow> ra res" where
  "expire_loop start [] st = Inr st"
| "expire_loop start (i # is) st =
     (if iv_end i < start then
        let reg = (case reg_map st (snd i) of None \<Rightarrow> 0 | Some r \<Rightarrow> r);
            st0 = st\<lparr>reg_map := (reg_map st)(snd i \<mapsto> reg)\<rparr> in
        bindR (set_used reg False st0) (\<lambda>st1.
        expire_loop start is (st1\<lparr>active := remove1 i (active st1)\<rparr>))
      else expire_loop start is st)"

definition expire_old_intervals :: "live_interval \<Rightarrow> ra \<Rightarrow> ra res" where
  "expire_old_intervals li st = expire_loop (iv_start li) (active st) st"

text \<open>The victim: walk back from the end of \<open>active\<close> over arguments; if there are only
  arguments the walk stops at the first one. The list is given in reverse.\<close>

fun find_victim :: "'z ir_scheme \<Rightarrow> live_interval list \<Rightarrow> live_interval option" where
  "find_victim s [] = None"
| "find_victim s [i] = Some i"
| "find_victim s (i # j # is) = (if is_arg s (snd i) then find_victim s (j # is) else Some i)"

definition spill_at_interval :: "'z ir_scheme \<Rightarrow> live_interval \<Rightarrow> ra \<Rightarrow> ra res" where
  "spill_at_interval s li st =
     (case find_victim s (rev (active st)) of
        None \<Rightarrow> Inl (UB ''std::prev of an empty set'')
      | Some it \<Rightarrow>
          if iv_end li > iv_end it then Inr st
          else case reg_map st (snd it) of
            None \<Rightarrow> Inl (Assert_fail ''No register mapping found for the spilled value'')
          | Some reg \<Rightarrow>
              Inr (st\<lparr>reg_map := (reg_map st)(snd it := None, snd li \<mapsto> reg),
                      active := set_insert (ActiveCmp s) li (remove1 it (active st))\<rparr>))"

definition take_free_reg :: "'z ir_scheme \<Rightarrow> live_interval \<Rightarrow> ra \<Rightarrow> ra res" where
  "take_free_reg s li st =
     (case find_next_unset0 (used st) of
        None \<Rightarrow> Inl (Assert_fail ''reg != -1'')
      | Some reg \<Rightarrow>
          bindR (set_used reg True st) (\<lambda>st1.
          Inr (st1\<lparr>reg_map := (reg_map st1)(snd li \<mapsto> reg),
                   active := set_insert (ActiveCmp s) li (active st1)\<rparr>)))"

definition allocate_interval :: "'z ir_scheme \<Rightarrow> nat \<Rightarrow> live_interval \<Rightarrow> ra \<Rightarrow> ra res" where
  "allocate_interval s num_regs li st =
     bindR (expire_old_intervals li st) (\<lambda>st1.
     if length (active st1) = num_regs then spill_at_interval s li st1
     else take_free_reg s li st1)"

text \<open>The body of the loop of \<open>linear_scan\<close> is skipped for arguments, for the other
  class and for values that need no register.\<close>

definition skipped :: "'z ir_scheme \<Rightarrow> bool \<Rightarrow> vid \<Rightarrow> bool res" where
  "skipped s fl v =
     (if is_arg s v then Inr True
      else bindR (type_of s v) (\<lambda>t.
        if \<not> in_class fl t then Inr True else no_reg_alloca s v))"

fun scan :: "'z ir_scheme \<Rightarrow> nat \<Rightarrow> bool \<Rightarrow> live_interval list \<Rightarrow> ra \<Rightarrow> ra res" where
  "scan s num_regs fl [] st = Inr st"
| "scan s num_regs fl (li # lis) st =
     bindR (skipped s fl (snd li)) (\<lambda>skip.
     if skip then scan s num_regs fl lis st
     else bindR (allocate_interval s num_regs li st) (scan s num_regs fl lis))"

definition linear_scan :: "'z ir_scheme \<Rightarrow> nat \<Rightarrow> bool \<Rightarrow> live_interval list \<Rightarrow> ra \<Rightarrow> ra res" where
  "linear_scan s num_regs fl liveints st =
     bindR (reserve_for_arg s fl liveints (reset st)) (scan s num_regs fl liveints)"

section \<open>The allocation invariant\<close>

definition disjoint_ivs :: "live_interval \<Rightarrow> live_interval \<Rightarrow> bool" where
  "disjoint_ivs i j \<longleftrightarrow> iv_end i < iv_start j \<or> iv_end j < iv_start i"

text \<open>
  \<open>H\<close> is the set of intervals handled so far, \<open>p\<close> a lower bound of the starts still to
  come: the active intervals own pairwise different registers, the used bits are exactly
  the registers they own, a value that has a register and is not active has ended before
  \<open>p\<close>, and two handled values with one register have disjoint intervals.
\<close>

definition regs_ok :: "nat \<Rightarrow> ra \<Rightarrow> bool" where
  "regs_ok n st \<longleftrightarrow> length (used st) = n + 1 \<and> \<not> used st ! 0
     \<and> (\<forall>v r. reg_map st v = Some r \<longrightarrow> 1 \<le> r \<and> r \<le> n)"

definition active_ok :: "nat \<Rightarrow> ra \<Rightarrow> bool" where
  "active_ok n st \<longleftrightarrow> distinct (map snd (active st))
     \<and> (\<forall>i\<in>set (active st). \<exists>r. reg_map st (snd i) = Some r)
     \<and> (\<forall>i\<in>set (active st). \<forall>j\<in>set (active st).
          reg_map st (snd i) = reg_map st (snd j) \<longrightarrow> i = j)
     \<and> (\<forall>r. 1 \<le> r \<longrightarrow> r \<le> n \<longrightarrow>
          used st ! r = (\<exists>i\<in>set (active st). reg_map st (snd i) = Some r))"

definition handled_ok :: "int \<Rightarrow> live_interval set \<Rightarrow> ra \<Rightarrow> bool" where
  "handled_ok p H st \<longleftrightarrow> set (active st) \<subseteq> H \<and> inj_on snd H
     \<and> dom (reg_map st) \<subseteq> snd ` H
     \<and> (\<forall>i\<in>H. snd i \<in> dom (reg_map st) \<longrightarrow> i \<notin> set (active st) \<longrightarrow> iv_end i < p)
     \<and> (\<forall>i\<in>H. \<forall>j\<in>H. \<forall>r. i \<noteq> j \<longrightarrow> reg_map st (snd i) = Some r \<longrightarrow> reg_map st (snd j) = Some r
          \<longrightarrow> disjoint_ivs i j)"

definition ra_inv :: "nat \<Rightarrow> int \<Rightarrow> live_interval set \<Rightarrow> ra \<Rightarrow> bool" where
  "ra_inv n p H st \<longleftrightarrow> regs_ok n st \<and> active_ok n st \<and> handled_ok p H st"

lemmas ra_inv_defs = ra_inv_def regs_ok_def active_ok_def handled_ok_def

lemma ra_inv_later: "ra_inv n p H st \<Longrightarrow> p \<le> q \<Longrightarrow> ra_inv n q H st"
  unfolding ra_inv_def handled_ok_def by force

lemma active_bound:
  assumes "ra_inv n p H st"
  shows "length (active st) \<le> n"
proof -
  let ?f = "\<lambda>i. the (reg_map st (snd i))"
  have "inj_on ?f (set (active st))"
    using assms unfolding ra_inv_def active_ok_def inj_on_def by (metis option.sel)
  moreover have "?f ` set (active st) \<subseteq> {1..n}"
    using assms unfolding ra_inv_def active_ok_def regs_ok_def by fastforce
  ultimately have "card (set (active st)) \<le> n" using card_inj_on_le [of ?f _ "{1..n}"] by simp
  moreover have "distinct (active st)"
    using assms by (simp add: ra_inv_def active_ok_def distinct_map)
  ultimately show ?thesis by (simp add: distinct_card)
qed

lemma find_in: "find P xs = Some x \<Longrightarrow> x \<in> set xs \<and> P x"
  by (induction xs) (auto split: if_splits)

lemma free_register:
  assumes inv: "ra_inv n p H st" and "length (active st) \<noteq> n"
  obtains r where "find_next_unset0 (used st) = Some r" "1 \<le> r" "r \<le> n" "\<not> used st ! r"
proof -
  have len: "length (used st) = n + 1" using inv by (simp add: ra_inv_def regs_ok_def)
  have "length (active st) < n" using active_bound [OF inv] assms(2) by simp
  then have "card ((\<lambda>i. the (reg_map st (snd i))) ` set (active st)) < n"
    by (meson card_image_le card_length finite_set le_less_trans)
  then have "\<not> {1..n} \<subseteq> (\<lambda>i. the (reg_map st (snd i))) ` set (active st)"
    by (metis card_atLeastAtMost card_mono diff_Suc_1 finite_imageI finite_set linorder_not_less)
  then obtain r where r: "1 \<le> r" "r \<le> n" "r \<notin> (\<lambda>i. the (reg_map st (snd i))) ` set (active st)"
    by (meson atLeastAtMost_iff subsetI)
  then have "\<not> used st ! r"
    using inv unfolding ra_inv_def active_ok_def by (metis image_eqI option.sel)
  moreover have "r \<in> set [1..<length (used st)]"
    unfolding len set_upt atLeastLessThan_iff using r(1,2) by linarith
  ultimately have "\<exists>x\<in>set [1..<length (used st)]. \<not> used st ! x" by blast
  then obtain q where "find_next_unset0 (used st) = Some q"
    unfolding find_next_unset0_def by (metis (no_types, lifting) find_None_iff not_Some_eq)
  moreover from this have "1 \<le> q \<and> q \<le> n \<and> \<not> used st ! q"
    unfolding find_next_unset0_def by (auto dest!: find_in simp del: upt_Suc simp: len)
  ultimately show thesis using that by blast
qed

lemma distinct_map_snd_remove1:
  "distinct (map snd as) \<Longrightarrow> distinct (map snd (remove1 i as))"
  by (simp add: distinct_map set_remove1_eq inj_on_diff)

lemma set_set_insert:
  assumes "\<forall>y\<in>set ys. lt x y \<or> lt y x"
  shows "mset (set_insert lt x ys) = add_mset x (mset ys)"
  using assms by (induction ys) auto

lemma ActiveCmp_total: "snd i \<noteq> snd j \<Longrightarrow> ActiveCmp s i j \<or> ActiveCmp s j i"
  by (auto simp: ActiveCmp_def)

lemma active_insert:
  assumes "distinct (map snd as)" and "snd i \<notin> snd ` set as"
  shows "set (set_insert (ActiveCmp s) i as) = insert i (set as)"
    and "distinct (map snd (set_insert (ActiveCmp s) i as))"
    and "length (set_insert (ActiveCmp s) i as) = Suc (length as)"
proof -
  have "\<forall>y\<in>set as. ActiveCmp s i y \<or> ActiveCmp s y i"
    using assms(2) ActiveCmp_total by (metis image_eqI)
  then have m: "mset (set_insert (ActiveCmp s) i as) = mset (i # as)"
    by (simp add: set_set_insert)
  show "set (set_insert (ActiveCmp s) i as) = insert i (set as)"
    using arg_cong [OF m, of set_mset] by simp
  show "length (set_insert (ActiveCmp s) i as) = Suc (length as)"
    using arg_cong [OF m, of size] by simp
  have "mset (map snd (set_insert (ActiveCmp s) i as)) = mset (map snd (i # as))"
    using m by simp
  then have "distinct (map snd (set_insert (ActiveCmp s) i as)) = distinct (map snd (i # as))"
    by (rule mset_eq_imp_distinct_iff)
  then show "distinct (map snd (set_insert (ActiveCmp s) i as))" using assms by simp
qed

subsection \<open>The three steps\<close>

text \<open>A register that no active interval owns is given to a new interval.\<close>

lemma ra_inv_add:
  assumes inv: "ra_inv n p H st" and r: "1 \<le> r" "r \<le> n" "\<not> used st ! r"
    and new: "snd li \<notin> snd ` H"
    and past: "\<And>j. j \<in> H \<Longrightarrow> reg_map st (snd j) = Some r \<Longrightarrow> j \<notin> set (active st) \<Longrightarrow> disjoint_ivs j li"
    and st': "st' = st\<lparr>used := (used st)[r := True], reg_map := (reg_map st)(snd li \<mapsto> r),
      active := set_insert (ActiveCmp s) li (active st)\<rparr>"
  shows "ra_inv n p (insert li H) st'"
proof -
  have sub: "set (active st) \<subseteq> H" and inj: "inj_on snd H" and dom: "dom (reg_map st) \<subseteq> snd ` H"
    and len: "length (used st) = n + 1"
    using inv by (simp_all add: ra_inv_def handled_ok_def regs_ok_def)
  have da: "distinct (map snd (active st))" using inv by (simp add: ra_inv_def active_ok_def)
  have nla: "snd li \<notin> snd ` set (active st)" using new sub by blast
  note ins = active_insert [OF da nla, of s]
  have li: "li \<notin> H" using new by blast
  have old: "reg_map st' (snd j) = reg_map st (snd j)" if "j \<in> H" for j
  proof -
    have "snd j \<noteq> snd li" using that new by (metis image_eqI)
    then show ?thesis by (simp add: st')
  qed
  have li_r: "reg_map st' (snd li) = Some r" by (simp add: st')
  have act: "set (active st') = insert li (set (active st))" by (simp add: st' ins)
  have norm: "reg_map st (snd j) \<noteq> Some r" if "j \<in> set (active st)" for j
    using inv r that unfolding ra_inv_def active_ok_def by blast
  have "regs_ok n st'"
    using inv r(1,2) by (auto simp: ra_inv_def regs_ok_def st' nth_list_update)
  moreover have "active_ok n st'"
    unfolding active_ok_def act
  proof (intro conjI ballI allI impI)
    show "distinct (map snd (active st'))" by (simp add: st' ins)
    show "\<exists>r. reg_map st' (snd i) = Some r" if "i \<in> insert li (set (active st))" for i
      using that inv old li_r sub unfolding ra_inv_def active_ok_def by (metis insertE subsetD)
    show "i = j" if "i \<in> insert li (set (active st))" "j \<in> insert li (set (active st))"
      "reg_map st' (snd i) = reg_map st' (snd j)" for i j
      using that inv old li_r sub norm unfolding ra_inv_def active_ok_def by (metis insertE subsetD)
    show "used st' ! q = (\<exists>i\<in>insert li (set (active st)). reg_map st' (snd i) = Some q)"
      if q: "1 \<le> q" "q \<le> n" for q
    proof -
      have "used st' ! q = (q = r \<or> used st ! q)"
        using q len r(2) by (cases "q = r") (simp_all add: st')
      moreover have "used st ! q = (\<exists>i\<in>set (active st). reg_map st (snd i) = Some q)"
        using inv q unfolding ra_inv_def active_ok_def by blast
      ultimately show ?thesis using old sub li_r by (metis insertE insertI1 insertI2 option.inject subsetD)
    qed
  qed
  moreover have "handled_ok p (insert li H) st'"
    unfolding handled_ok_def act
  proof (intro conjI ballI allI impI)
    show "insert li (set (active st)) \<subseteq> insert li H" using sub by blast
    show "inj_on snd (insert li H)" using inj new by (simp add: li)
    show "dom (reg_map st') \<subseteq> snd ` insert li H" using dom by (auto simp: st')
    show "iv_end i < p" if "i \<in> insert li H" "snd i \<in> dom (reg_map st')" "i \<notin> insert li (set (active st))" for i
      using that inv old unfolding ra_inv_def handled_ok_def by (metis domIff insertE insertI1 insertI2)
    show "disjoint_ivs i j" if "i \<in> insert li H" "j \<in> insert li H" "i \<noteq> j"
      "reg_map st' (snd i) = Some q" "reg_map st' (snd j) = Some q" for i j q
    proof -
      have one: "disjoint_ivs x li" if "x \<in> H" "reg_map st (snd x) = Some r" for x
        using that past norm by blast
      have sym: "disjoint_ivs x y = disjoint_ivs y x" for x y by (auto simp: disjoint_ivs_def)
      show ?thesis
        using that inv old one sym li_r unfolding ra_inv_def handled_ok_def
        by (metis insertE option.inject)
    qed
  qed
  ultimately show ?thesis by (simp add: ra_inv_def)
qed

text \<open>An interval that has ended gives its register back.\<close>

lemma ra_inv_expire:
  assumes inv: "ra_inv n p H st" and i: "i \<in> set (active st)" "iv_end i < p"
    and r: "reg_map st (snd i) = Some r"
    and st': "st' = st\<lparr>used := (used st)[r := False], active := remove1 i (active st)\<rparr>"
  shows "ra_inv n p H st'"
proof -
  have da: "distinct (map snd (active st))" using inv by (simp add: ra_inv_def active_ok_def)
  then have act: "set (active st') = set (active st) - {i}"
    by (simp add: st' distinct_map set_remove1_eq)
  have rn: "1 \<le> r" "r \<le> n" "length (used st) = n + 1"
    using inv r unfolding ra_inv_def regs_ok_def by auto
  have "regs_ok n st'" using inv rn by (auto simp: ra_inv_def regs_ok_def st' nth_list_update)
  moreover have "active_ok n st'"
    unfolding active_ok_def act
  proof (intro conjI ballI allI impI)
    show "distinct (map snd (active st'))" using da by (simp add: st' distinct_map_snd_remove1)
    show "\<exists>r. reg_map st' (snd j) = Some r" if "j \<in> set (active st) - {i}" for j
      using that inv unfolding ra_inv_def active_ok_def by (auto simp: st')
    show "j = k" if "j \<in> set (active st) - {i}" "k \<in> set (active st) - {i}"
      "reg_map st' (snd j) = reg_map st' (snd k)" for j k
      using that inv unfolding ra_inv_def active_ok_def by (auto simp: st')
    show "used st' ! q = (\<exists>j\<in>set (active st) - {i}. reg_map st' (snd j) = Some q)"
      if q: "1 \<le> q" "q \<le> n" for q
    proof -
      have "used st' ! q = (q \<noteq> r \<and> used st ! q)" using q rn by (simp add: st' nth_list_update)
      moreover have "used st ! q = (\<exists>j\<in>set (active st). reg_map st (snd j) = Some q)"
        using inv q unfolding ra_inv_def active_ok_def by blast
      moreover have "reg_map st (snd j) \<noteq> Some r" if "j \<in> set (active st) - {i}" for j
        using that inv i(1) r unfolding ra_inv_def active_ok_def by (metis Diff_iff insertI1)
      ultimately show ?thesis using r by (auto simp: st')
    qed
  qed
  moreover have "handled_ok p H st'"
    using inv i unfolding ra_inv_def handled_ok_def act by (auto simp: st')
  ultimately show ?thesis by (simp add: ra_inv_def)
qed

text \<open>A new interval takes over the register of an active one, which goes to memory.\<close>

lemma ra_inv_steal:
  assumes inv: "ra_inv n p H st" and it: "it \<in> set (active st)" and r: "reg_map st (snd it) = Some r"
    and new: "snd li \<notin> snd ` H" and p: "p \<le> iv_start li"
    and st': "st' = st\<lparr>reg_map := (reg_map st)(snd it := None, snd li \<mapsto> r),
      active := set_insert (ActiveCmp s) li (remove1 it (active st))\<rparr>"
  shows "ra_inv n p (insert li H) st'"
proof -
  let ?st = "st\<lparr>used := (used st)[r := False], reg_map := (reg_map st)(snd it := None),
    active := remove1 it (active st)\<rparr>"
  have da: "distinct (map snd (active st))" and sub: "set (active st) \<subseteq> H" and inj: "inj_on snd H"
    using inv by (simp_all add: ra_inv_def active_ok_def handled_ok_def)
  then have act: "set (active ?st) = set (active st) - {it}"
    by (simp add: distinct_map set_remove1_eq)
  have rn: "1 \<le> r" "r \<le> n" "length (used st) = n + 1"
    using inv r unfolding ra_inv_def regs_ok_def by auto
  have other: "snd j \<noteq> snd it" if "j \<in> H" "j \<noteq> it" for j
    using that inj it sub unfolding inj_on_def by blast
  have keep: "reg_map ?st (snd j) = reg_map st (snd j)" if "j \<in> set (active st) - {it}" for j
  proof -
    have "j \<in> H" "j \<noteq> it" using that sub by blast+
    then show ?thesis using other by simp
  qed
  have "regs_ok n ?st" using inv rn by (auto simp: ra_inv_def regs_ok_def nth_list_update)
  moreover have "active_ok n ?st"
    unfolding active_ok_def act
  proof (intro conjI ballI allI impI)
    show "distinct (map snd (active ?st))" using da by (simp add: distinct_map_snd_remove1)
    show "\<exists>r. reg_map ?st (snd j) = Some r" if "j \<in> set (active st) - {it}" for j
      using that keep [OF that] inv unfolding ra_inv_def active_ok_def by (metis DiffD1)
    show "j = k" if "j \<in> set (active st) - {it}" "k \<in> set (active st) - {it}"
      "reg_map ?st (snd j) = reg_map ?st (snd k)" for j k
      using that keep [OF that(1)] keep [OF that(2)] inv unfolding ra_inv_def active_ok_def by (metis DiffD1)
    show "used ?st ! q = (\<exists>j\<in>set (active st) - {it}. reg_map ?st (snd j) = Some q)"
      if q: "1 \<le> q" "q \<le> n" for q
    proof -
      have "used ?st ! q = (q \<noteq> r \<and> used st ! q)" using q rn by (simp add: nth_list_update)
      moreover have "used st ! q = (\<exists>j\<in>set (active st). reg_map st (snd j) = Some q)"
        using inv q unfolding ra_inv_def active_ok_def by blast
      moreover have "reg_map st (snd j) \<noteq> Some r" if "j \<in> set (active st) - {it}" for j
        using that inv it r unfolding ra_inv_def active_ok_def by (metis Diff_iff insertI1)
      ultimately have "used ?st ! q = (\<exists>j\<in>set (active st) - {it}. reg_map st (snd j) = Some q)"
        using r by auto
      then show ?thesis using keep by metis
    qed
  qed
  moreover have "handled_ok p H ?st"
    unfolding handled_ok_def act
  proof (intro conjI ballI allI impI)
    show "set (active st) - {it} \<subseteq> H" "inj_on snd H" using sub inj by auto
    show "dom (reg_map ?st) \<subseteq> snd ` H" using inv unfolding ra_inv_def handled_ok_def by auto
    show "iv_end i < p" if "i \<in> H" "snd i \<in> dom (reg_map ?st)" "i \<notin> set (active st) - {it}" for i
      using that inv unfolding ra_inv_def handled_ok_def by (auto split: if_splits)
    show "disjoint_ivs i j" if "i \<in> H" "j \<in> H" "i \<noteq> j"
      "reg_map ?st (snd i) = Some q" "reg_map ?st (snd j) = Some q" for i j q
    proof -
      have "reg_map st (snd i) = Some q" "reg_map st (snd j) = Some q"
        using that(4,5) by (auto split: if_splits)
      then show ?thesis using that(1-3) inv unfolding ra_inv_def handled_ok_def by blast
    qed
  qed
  ultimately have inv': "ra_inv n p H ?st" by (simp add: ra_inv_def)
  show ?thesis
  proof (rule ra_inv_add [OF inv' rn(1,2) _ new])
    show "\<not> used ?st ! r" using rn by (simp add: nth_list_update)
    show "disjoint_ivs j li" if j: "j \<in> H" "reg_map ?st (snd j) = Some r" "j \<notin> set (active ?st)" for j
    proof -
      have "j \<noteq> it" using j(2) by auto
      then have "iv_end j < p" using inv' j unfolding ra_inv_def handled_ok_def by blast
      then show ?thesis using p by (simp add: disjoint_ivs_def)
    qed
    have "used st ! r" using inv it r rn unfolding ra_inv_def active_ok_def by blast
    then have "(used st)[r := False, r := True] = used st" using rn by (metis list_update_id list_update_overwrite)
    then show "st' = ?st\<lparr>used := (used ?st)[r := True], reg_map := (reg_map ?st)(snd li \<mapsto> r),
        active := set_insert (ActiveCmp s) li (active ?st)\<rparr>"
      by (simp add: st')
  qed
qed

subsection \<open>The operations keep the invariant\<close>

lemma regs_range:
  assumes "ra_inv n p H st" and "reg_map st v = Some r"
  shows "1 \<le> r \<and> r \<le> n \<and> r < length (used st)"
proof -
  have "1 \<le> r \<and> r \<le> n" "length (used st) = n + 1"
    using assms unfolding ra_inv_def regs_ok_def by blast+
  then show ?thesis by linarith
qed

lemma expire_loop_correct:
  assumes "ra_inv n p H st" and "start \<le> p" and "distinct xs" and "set xs \<subseteq> set (active st)"
  shows "\<exists>st'. expire_loop start xs st = Inr st' \<and> ra_inv n p H st' \<and> reg_map st' = reg_map st
    \<and> set (active st') = set (active st) - {i \<in> set xs. iv_end i < start}"
  using assms
proof (induction xs arbitrary: st)
  case Nil
  then show ?case by auto
next
  case (Cons i xs)
  show ?case
  proof (cases "iv_end i < start")
    case False
    with Cons.IH [OF Cons.prems(1,2)] Cons.prems(3,4) show ?thesis by auto
  next
    case True
    obtain r where r: "reg_map st (snd i) = Some r"
      using Cons.prems(1,4) unfolding ra_inv_def active_ok_def by auto
    have rn: "r < length (used st)" using regs_range [OF Cons.prems(1) r] by simp
    let ?st = "st\<lparr>used := (used st)[r := False], active := remove1 i (active st)\<rparr>"
    have inv: "ra_inv n p H ?st"
      by (rule ra_inv_expire [OF Cons.prems(1) _ _ r refl]) (use Cons.prems True in auto)
    have "distinct (active st)" using Cons.prems(1) by (simp add: ra_inv_def active_ok_def distinct_map)
    then have act: "set (active ?st) = set (active st) - {i}" by (simp add: set_remove1_eq)
    have "set xs \<subseteq> set (active ?st)" using Cons.prems(3,4) act by auto
    then obtain st' where st': "expire_loop start xs ?st = Inr st'" "ra_inv n p H st'"
        "reg_map st' = reg_map ?st" "set (active st') = set (active ?st) - {i \<in> set xs. iv_end i < start}"
      using Cons.IH [OF inv Cons.prems(2)] Cons.prems(3) by auto
    have "(reg_map st)(snd i \<mapsto> r) = reg_map st" using r by (simp add: fun_upd_idem_iff)
    then have same: "st\<lparr>reg_map := (reg_map st)(snd i \<mapsto> r), used := (used st)[r := False],
        active := remove1 i (active st)\<rparr> = ?st" by simp
    have run: "expire_loop start (i # xs) st = Inr st'"
      using True r rn st'(1) by (simp add: set_used_def Let_def same)
    have "set (active st') = set (active st) - {j \<in> set (i # xs). iv_end j < start}"
      using st'(4) act True by auto
    then show ?thesis using run st'(2,3) by auto
  qed
qed

lemma expire_old_intervals_correct:
  assumes "ra_inv n p H st" and "p \<le> iv_start li"
  obtains st1 where "expire_old_intervals li st = Inr st1" "ra_inv n (iv_start li) H st1"
    "reg_map st1 = reg_map st"
    "set (active st1) = {i \<in> set (active st). iv_start li \<le> iv_end i}"
proof -
  have inv: "ra_inv n (iv_start li) H st" by (rule ra_inv_later [OF assms])
  then have "distinct (active st)" by (simp add: ra_inv_def active_ok_def distinct_map)
  then obtain st1 where "expire_loop (iv_start li) (active st) st = Inr st1"
      "ra_inv n (iv_start li) H st1" "reg_map st1 = reg_map st"
      "set (active st1) = set (active st) - {i \<in> set (active st). iv_end i < iv_start li}"
    using expire_loop_correct [OF inv order.refl] by blast
  then show thesis using that by (force simp: expire_old_intervals_def)
qed

lemma find_victim_props:
  "xs \<noteq> [] \<Longrightarrow> \<exists>it. find_victim s xs = Some it \<and> it \<in> set xs
    \<and> ((\<exists>x\<in>set xs. \<not> is_arg s (snd x)) \<longrightarrow> \<not> is_arg s (snd it))"
proof (induction s xs rule: find_victim.induct)
  case (3 s i j "is")
  then show ?case by (cases "is_arg s (snd i)") auto
qed auto

text \<open>What one iteration of the loop does: the new interval takes a free register, or the
  register of a victim that ends no earlier, or stays in memory when all registers are
  taken by intervals that end no later than it.\<close>

lemma allocate_interval_cases:
  assumes inv: "ra_inv n p H st" and p: "p \<le> iv_start li" and new: "snd li \<notin> snd ` H" and n: "0 < n"
  obtains st1 :: ra and st' where "allocate_interval s n li st = Inr st'"
    and "ra_inv n (iv_start li) (insert li H) st'"
    and "reg_map st1 = reg_map st"
    and "set (active st1) = {i \<in> set (active st). iv_start li \<le> iv_end i}"
    and "length (active st1) \<noteq> n \<and> (\<exists>r. reg_map st' = (reg_map st)(snd li \<mapsto> r))
       \<or> length (active st1) = n \<and> (\<exists>it r. it \<in> set (active st1) \<and> iv_end li \<le> iv_end it
            \<and> ((\<exists>x\<in>set (active st1). \<not> is_arg s (snd x)) \<longrightarrow> \<not> is_arg s (snd it))
            \<and> reg_map st' = (reg_map st)(snd it := None, snd li \<mapsto> r))
       \<or> length (active st1) = n \<and> reg_map st' = reg_map st"
    and "length (active st1) = card (set (active st1))"
proof -
  obtain st1 where e: "expire_old_intervals li st = Inr st1" and inv1: "ra_inv n (iv_start li) H st1"
    and map1: "reg_map st1 = reg_map st"
    and act1: "set (active st1) = {i \<in> set (active st). iv_start li \<le> iv_end i}"
    by (rule expire_old_intervals_correct [OF inv p])
  have dist: "length (active st1) = card (set (active st1))"
    using inv1 by (simp add: ra_inv_def active_ok_def distinct_map distinct_card)
  show thesis
  proof (cases "length (active st1) = n")
    case False
    obtain r where r: "find_next_unset0 (used st1) = Some r" "1 \<le> r" "r \<le> n" "\<not> used st1 ! r"
      by (rule free_register [OF inv1 False])
    let ?st = "st1\<lparr>used := (used st1)[r := True], reg_map := (reg_map st1)(snd li \<mapsto> r),
      active := set_insert (ActiveCmp s) li (active st1)\<rparr>"
    have past: "disjoint_ivs j li"
      if "j \<in> H" "reg_map st1 (snd j) = Some r" "j \<notin> set (active st1)" for j
      using that inv1 unfolding ra_inv_def handled_ok_def disjoint_ivs_def by blast
    have "ra_inv n (iv_start li) (insert li H) ?st" by (rule ra_inv_add [OF inv1 r(2-4) new past refl])
    moreover have "r < length (used st1)" using inv1 r(3) by (simp add: ra_inv_def regs_ok_def)
    then have "allocate_interval s n li st = Inr ?st"
      using e False r(1) by (simp add: allocate_interval_def take_free_reg_def set_used_def)
    moreover have "reg_map ?st = (reg_map st)(snd li \<mapsto> r)" by (simp add: map1)
    ultimately show thesis by (intro that [of ?st st1]) (use map1 act1 False dist in blast)+
  next
    case True
    then have "rev (active st1) \<noteq> []" using n by auto
    then obtain it where it: "find_victim s (rev (active st1)) = Some it" "it \<in> set (rev (active st1))"
      "(\<exists>x\<in>set (rev (active st1)). \<not> is_arg s (snd x)) \<Longrightarrow> \<not> is_arg s (snd it)"
      using find_victim_props by blast
    show thesis
    proof (cases "iv_end li > iv_end it")
      case True
      have "ra_inv n (iv_start li) (insert li H) st1"
        using inv1 new unfolding ra_inv_def handled_ok_def by (auto simp: disjoint_ivs_def)
      moreover have "allocate_interval s n li st = Inr st1"
        using e True it(1) \<open>length (active st1) = n\<close> by (simp add: allocate_interval_def spill_at_interval_def)
      ultimately show thesis
        by (intro that [of st1 st1]) (use map1 act1 \<open>length (active st1) = n\<close> dist in blast)+
    next
      case False
      obtain r where r: "reg_map st1 (snd it) = Some r"
        using inv1 it(2) unfolding ra_inv_def active_ok_def by auto
      let ?st = "st1\<lparr>reg_map := (reg_map st1)(snd it := None, snd li \<mapsto> r),
        active := set_insert (ActiveCmp s) li (remove1 it (active st1))\<rparr>"
      have "ra_inv n (iv_start li) (insert li H) ?st"
        by (rule ra_inv_steal [OF inv1 _ r new order.refl refl]) (use it(2) in simp)
      moreover have "allocate_interval s n li st = Inr ?st"
        using e False it(1) r \<open>length (active st1) = n\<close>
        by (simp add: allocate_interval_def spill_at_interval_def)
      moreover have "reg_map ?st = (reg_map st)(snd it := None, snd li \<mapsto> r)" by (simp add: map1)
      moreover have "it \<in> set (active st1)" "iv_end li \<le> iv_end it"
        "(\<exists>x\<in>set (active st1). \<not> is_arg s (snd x)) \<longrightarrow> \<not> is_arg s (snd it)"
        using it False by auto
      ultimately show thesis
        by (intro that [of ?st st1]) (use map1 act1 \<open>length (active st1) = n\<close> dist in blast)+
    qed
  qed
qed

section \<open>The whole scan\<close>

text \<open>The number of an argument that \<open>reserve_for_arg\<close> gives a register.\<close>

definition arg_slot :: "'z ir_scheme \<Rightarrow> bool \<Rightarrow> vid \<Rightarrow> nat option" where
  "arg_slot s fl v = (case vals s v of None \<Rightarrow> None
     | Some r \<Rightarrow> (case vkind r of
         K_arg _ arg_no \<Rightarrow> if in_class fl (vty r) \<and> arg_no < ARG_MAX_R then Some arg_no else None
       | _ \<Rightarrow> None))"

definition wants_reg :: "'z ir_scheme \<Rightarrow> bool \<Rightarrow> vid \<Rightarrow> bool" where
  "wants_reg s fl v = (skipped s fl v = Inr False)"

lemma arg_slot_arg: "arg_slot s fl v = Some k \<Longrightarrow> is_arg s v \<and> k < 8"
  by (auto simp: arg_slot_def is_arg_def kind_of_def ARG_MAX_R_def split: option.splits vkind.splits if_splits)

lemma wants_reg_not_arg: "wants_reg s fl v \<Longrightarrow> \<not> is_arg s v"
  by (auto simp: wants_reg_def skipped_def)

lemma reserve_step:
  assumes "snd li \<in> dom (vals s)"
  shows "reserve_for_arg s fl (li # lis) st =
    (case arg_slot s fl (snd li) of None \<Rightarrow> reserve_for_arg s fl lis st
     | Some k \<Rightarrow>
         bindR (get_used (k + 1) st) (\<lambda>taken.
         bindR (guardR (\<not> taken) (Assert_fail ''argument register already taken'')) (\<lambda>_.
         bindR (set_used (k + 1) True st) (\<lambda>st1.
         reserve_for_arg s fl lis
           (st1\<lparr>reg_map := (reg_map st1)(snd li \<mapsto> k + 1),
                active := set_insert (ActiveCmp s) li (active st1)\<rparr>)))))"
proof -
  obtain r where "vals s (snd li) = Some r" using assms by blast
  then show ?thesis by (cases "vkind r") (auto simp: arg_slot_def Let_def)
qed

declare reserve_for_arg.simps(2) [simp del]

lemma reserve_correct:
  assumes "ra_inv n p H st" and "8 \<le> n" and "dom (reg_map st) \<subseteq> snd ` set (active st)"
    and "distinct (map snd lis)" and "snd ` set lis \<inter> snd ` H = {}"
    and "\<forall>li\<in>set lis. snd li \<in> dom (vals s)"
    and "\<forall>li\<in>set lis. \<forall>k. arg_slot s fl (snd li) = Some k \<longrightarrow> \<not> used st ! (k + 1)"
    and "inj_on (arg_slot s fl) {v \<in> snd ` set lis. arg_slot s fl v \<noteq> None}"
  shows "\<exists>st'. reserve_for_arg s fl lis st = Inr st'
    \<and> ra_inv n p (H \<union> {li \<in> set lis. arg_slot s fl (snd li) \<noteq> None}) st'
    \<and> (\<forall>v. reg_map st' v = (if v \<in> snd ` set lis \<and> arg_slot s fl v \<noteq> None
          then map_option Suc (arg_slot s fl v) else reg_map st v))"
  using assms
proof (induction lis arbitrary: st H)
  case Nil
  then show ?case by simp
next
  case (Cons li lis)
  note step = reserve_step [of li s fl lis st]
  have dom: "snd li \<in> dom (vals s)" using Cons.prems(6) by simp
  have new: "snd li \<notin> snd ` set lis" using Cons.prems(4) by simp
  show ?case
  proof (cases "arg_slot s fl (snd li)")
    case None
    have inj: "inj_on (arg_slot s fl) {v \<in> snd ` set lis. arg_slot s fl v \<noteq> None}"
      by (rule inj_on_subset [OF Cons.prems(8)]) auto
    obtain st' where st': "reserve_for_arg s fl lis st = Inr st'"
        "ra_inv n p (H \<union> {li \<in> set lis. arg_slot s fl (snd li) \<noteq> None}) st'"
        "\<forall>v. reg_map st' v = (if v \<in> snd ` set lis \<and> arg_slot s fl v \<noteq> None
            then map_option Suc (arg_slot s fl v) else reg_map st v)"
      using Cons.IH [OF Cons.prems(1-3) _ _ _ _ inj] Cons.prems(4-7) by auto
    have "{x \<in> set (li # lis). arg_slot s fl (snd x) \<noteq> None} = {x \<in> set lis. arg_slot s fl (snd x) \<noteq> None}"
      using None by auto
    moreover have "v \<in> snd ` set (li # lis) \<and> arg_slot s fl v \<noteq> None \<longleftrightarrow>
        v \<in> snd ` set lis \<and> arg_slot s fl v \<noteq> None" for v
      using None by auto
    ultimately show ?thesis using step [OF dom] None st' by simp
  next
    case (Some k)
    have k: "k < 8" using arg_slot_arg [OF Some] by simp
    have len: "length (used st) = n + 1" using Cons.prems(1) by (simp add: ra_inv_def regs_ok_def)
    have free: "\<not> used st ! (k + 1)" using Cons.prems(7) Some by simp
    have newH: "snd li \<notin> snd ` H" using Cons.prems(5) by auto
    let ?st = "st\<lparr>used := (used st)[k + 1 := True], reg_map := (reg_map st)(snd li \<mapsto> k + 1),
      active := set_insert (ActiveCmp s) li (active st)\<rparr>"
    have past: "disjoint_ivs j li"
      if j: "j \<in> H" "reg_map st (snd j) = Some (k + 1)" "j \<notin> set (active st)" for j
    proof -
      have "snd j \<in> snd ` set (active st)" using Cons.prems(3) j(2) by blast
      then obtain i where i: "i \<in> set (active st)" "snd i = snd j" by auto
      have "inj_on snd H" "set (active st) \<subseteq> H"
        using Cons.prems(1) by (simp_all add: ra_inv_def handled_ok_def)
      then have "i = j" using i j(1) by (meson inj_onD subsetD)
      then show ?thesis using i(1) j(3) by simp
    qed
    have inv: "ra_inv n p (insert li H) ?st"
      by (rule ra_inv_add [OF Cons.prems(1) _ _ free newH past refl]) (use k Cons.prems(2) in auto)
    have sub: "set (active st) \<subseteq> H" and da: "distinct (map snd (active st))"
      using Cons.prems(1) by (simp_all add: ra_inv_def handled_ok_def active_ok_def)
    then have "set (active ?st) = insert li (set (active st))"
      using active_insert(1) [OF da, of li s] newH by auto
    then have dom': "dom (reg_map ?st) \<subseteq> snd ` set (active ?st)" using Cons.prems(3) by auto
    have used': "\<not> used ?st ! (q + 1)" if x: "x \<in> set lis" "arg_slot s fl (snd x) = Some q" for x q
    proof -
      have "q \<noteq> k"
      proof
        assume "q = k"
        then have "snd x = snd li"
          by (intro inj_onD [OF Cons.prems(8)]) (use x Some in auto)
        then show False using new x(1) by (metis image_eqI)
      qed
      moreover have "\<not> used st ! (q + 1)" using Cons.prems(7) x by simp
      ultimately show ?thesis by simp
    qed
    have inj: "inj_on (arg_slot s fl) {v \<in> snd ` set lis. arg_slot s fl v \<noteq> None}"
      by (rule inj_on_subset [OF Cons.prems(8)]) auto
    have disj: "snd ` set lis \<inter> snd ` insert li H = {}" using Cons.prems(5) new by auto
    obtain st' where st': "reserve_for_arg s fl lis ?st = Inr st'"
        "ra_inv n p (insert li H \<union> {li \<in> set lis. arg_slot s fl (snd li) \<noteq> None}) st'"
        "\<forall>v. reg_map st' v = (if v \<in> snd ` set lis \<and> arg_slot s fl v \<noteq> None
            then map_option Suc (arg_slot s fl v) else reg_map ?st v)"
      using Cons.IH [OF inv Cons.prems(2) dom' _ disj _ _ inj] Cons.prems(4,6) used' by auto
    have "reserve_for_arg s fl (li # lis) st = Inr st'"
      using step [OF dom] Some free len k Cons.prems(2) st'(1) by (simp add: get_used_def set_used_def)
    moreover have "insert li H \<union> {li \<in> set lis. arg_slot s fl (snd li) \<noteq> None} =
        H \<union> {x \<in> set (li # lis). arg_slot s fl (snd x) \<noteq> None}" using Some by auto
    ultimately show ?thesis using st'(2,3) Some new by auto
  qed
qed

definition covers :: "int \<Rightarrow> live_interval set \<Rightarrow> live_interval set" where
  "covers p E = {i \<in> E. iv_start i \<le> p \<and> p \<le> iv_end i}"

text \<open>
  What the loop makes of \<open>st\<close> when \<open>H\<close> are the intervals handled before it: the
  invariant for \<open>H\<close> and the new ones; the registers of arguments untouched while there
  are fewer arguments than registers; and, when never more than \<open>n\<close> intervals are live at
  the start of one, a register for every value.
\<close>

definition low_pressure :: "nat \<Rightarrow> live_interval set \<Rightarrow> live_interval \<Rightarrow> bool" where
  "low_pressure n E li \<longleftrightarrow> iv_start li \<le> iv_end li \<and> card (covers (iv_start li) E) \<le> n"

definition wanting :: "'z ir_scheme \<Rightarrow> bool \<Rightarrow> live_interval list \<Rightarrow> live_interval set" where
  "wanting s fl lis = {li \<in> set lis. wants_reg s fl (snd li)}"

definition scan_result ::
  "'z ir_scheme \<Rightarrow> nat \<Rightarrow> bool \<Rightarrow> live_interval set \<Rightarrow> live_interval list \<Rightarrow> ra \<Rightarrow> ra \<Rightarrow> bool" where
  "scan_result s n fl H lis st st' \<longleftrightarrow>
     (\<exists>q. ra_inv n q (H \<union> wanting s fl lis) st')
   \<and> (card {i \<in> H. is_arg s (snd i)} < n \<longrightarrow> (\<forall>v. is_arg s v \<longrightarrow> reg_map st' v = reg_map st v))
   \<and> (snd ` H \<subseteq> dom (reg_map st) \<longrightarrow>
      (\<forall>li\<in>wanting s fl lis. low_pressure n (H \<union> wanting s fl lis) li
         \<and> (\<forall>i\<in>H. iv_start i \<le> iv_start li)) \<longrightarrow>
      snd ` (H \<union> wanting s fl lis) \<subseteq> dom (reg_map st'))"

lemma scan_correct:
  assumes "ra_inv n p H st" and "0 < n" and "finite H"
    and "\<forall>li\<in>wanting s fl lis. p \<le> iv_start li"
    and "sorted_wrt (LiveIntervalCmp s) lis"
    and "distinct (map snd lis)" and "\<forall>li\<in>wanting s fl lis. snd li \<notin> snd ` H"
    and "\<forall>li\<in>set lis. \<exists>b. skipped s fl (snd li) = Inr b"
  shows "\<exists>st'. scan s n fl lis st = Inr st' \<and> scan_result s n fl H lis st st'"
  using assms
proof (induction lis arbitrary: st H p)
  case Nil
  then show ?case by (auto simp: scan_result_def wanting_def)
next
  case (Cons li lis)
  obtain b where b: "skipped s fl (snd li) = Inr b" using Cons.prems(8) by auto
  show ?case
  proof (cases b)
    case True
    then have e: "wanting s fl (li # lis) = wanting s fl lis"
      using b by (auto simp: wanting_def wants_reg_def)
    have "\<exists>st'. scan s n fl lis st = Inr st' \<and> scan_result s n fl H lis st st'"
      by (rule Cons.IH [OF Cons.prems(1-3)]) (use Cons.prems(4-8) e in auto)
    then show ?thesis using b True by (simp add: scan_result_def e)
  next
    case False
    then have w: "wants_reg s fl (snd li)" using b by (simp add: wants_reg_def)
    then have nar: "\<not> is_arg s (snd li)" by (rule wants_reg_not_arg)
    let ?W = "wanting s fl lis"
    have e: "wanting s fl (li # lis) = insert li ?W" using w by (auto simp: wanting_def)
    have p: "p \<le> iv_start li" and new: "snd li \<notin> snd ` H" using Cons.prems(4,7) e by auto
    obtain st1 :: ra and st2 where alloc: "allocate_interval s n li st = Inr st2"
      and inv2: "ra_inv n (iv_start li) (insert li H) st2"
      and act1: "set (active st1) = {i \<in> set (active st). iv_start li \<le> iv_end i}"
      and how: "length (active st1) \<noteq> n \<and> (\<exists>r. reg_map st2 = (reg_map st)(snd li \<mapsto> r))
       \<or> length (active st1) = n \<and> (\<exists>it r. it \<in> set (active st1) \<and> iv_end li \<le> iv_end it
            \<and> ((\<exists>x\<in>set (active st1). \<not> is_arg s (snd x)) \<longrightarrow> \<not> is_arg s (snd it))
            \<and> reg_map st2 = (reg_map st)(snd it := None, snd li \<mapsto> r))
       \<or> length (active st1) = n \<and> reg_map st2 = reg_map st"
      and len1: "length (active st1) = card (set (active st1))"
      by (rule allocate_interval_cases [OF Cons.prems(1) p new Cons.prems(2), of s])
    have aH: "set (active st) \<subseteq> H" using Cons.prems(1) by (simp add: ra_inv_def handled_ok_def)
    have later: "\<forall>x\<in>?W. iv_start li \<le> iv_start x"
      using Cons.prems(5) nar wants_reg_not_arg
      by (fastforce simp: wanting_def LiveIntervalCmp_def split: if_splits)
    have "snd x \<noteq> snd li" if "x \<in> set lis" for x
      using Cons.prems(6) that by (metis distinct.simps(2) image_eqI list.simps(9) set_map)
    then have new2: "\<forall>x\<in>?W. snd x \<notin> snd ` insert li H"
      using Cons.prems(7) unfolding e by (auto simp only: wanting_def image_insert insert_iff mem_Collect_eq)
    have args: "{i \<in> insert li H. is_arg s (snd i)} = {i \<in> H. is_arg s (snd i)}" using nar by auto
    have fin: "finite (insert li H)" using Cons.prems(3) by simp
    have "\<exists>st'. scan s n fl lis st2 = Inr st' \<and> scan_result s n fl (insert li H) lis st2 st'"
      by (rule Cons.IH [OF inv2 Cons.prems(2) fin later _ _ new2]) (use Cons.prems(5,6,8) in auto)
    then obtain st' where run: "scan s n fl lis st2 = Inr st'"
      and res: "scan_result s n fl (insert li H) lis st2 st'" by blast
    have un: "insert li H \<union> ?W = H \<union> insert li ?W" by blast
    have step: "reg_map st2 v = reg_map st v"
      if small: "card {i \<in> H. is_arg s (snd i)} < n" and v: "is_arg s v" for v
    proof -
      have "\<exists>x\<in>set (active st1). \<not> is_arg s (snd x)" if "length (active st1) = n"
      proof (rule ccontr)
        assume "\<not> ?thesis"
        then have "set (active st1) \<subseteq> {i \<in> H. is_arg s (snd i)}" using act1 aH by auto
        then have "card (set (active st1)) \<le> card {i \<in> H. is_arg s (snd i)}"
          by (intro card_mono) (use Cons.prems(3) in auto)
        then show False using small that len1 by simp
      qed
      then show ?thesis using how v nar by auto
    qed
    have more: "snd ` insert li H \<subseteq> dom (reg_map st2)"
      if dom: "snd ` H \<subseteq> dom (reg_map st)" and le: "low_pressure n (H \<union> insert li ?W) li"
        and starts: "\<forall>i\<in>H. iv_start i \<le> iv_start li"
    proof -
      have "insert li (set (active st1)) \<subseteq> covers (iv_start li) (H \<union> insert li ?W)"
        using act1 aH le starts by (auto simp: covers_def low_pressure_def)
      moreover have "finite (covers (iv_start li) (H \<union> insert li ?W))"
        using fin by (simp add: covers_def wanting_def)
      ultimately have "card (insert li (set (active st1))) \<le> card (covers (iv_start li) (H \<union> insert li ?W))"
        by (rule card_mono [rotated])
      also have "\<dots> \<le> n" using le by (simp add: low_pressure_def)
      finally have "card (insert li (set (active st1))) \<le> n" .
      moreover have "li \<notin> set (active st1)" using new act1 aH by auto
      ultimately have "length (active st1) \<noteq> n" using len1 by simp
      then show ?thesis using how dom by auto
    qed
    have "scan_result s n fl H (li # lis) st st'"
      unfolding scan_result_def e un [symmetric]
    proof (intro conjI impI)
      show "\<exists>q. ra_inv n q (insert li H \<union> ?W) st'" using res by (simp add: scan_result_def)
      show "\<forall>v. is_arg s v \<longrightarrow> reg_map st' v = reg_map st v"
        if "card {i \<in> H. is_arg s (snd i)} < n"
      proof -
        have "\<forall>v. is_arg s v \<longrightarrow> reg_map st' v = reg_map st2 v"
          using that res unfolding scan_result_def args by blast
        then show ?thesis using step that by metis
      qed
      assume dom: "snd ` H \<subseteq> dom (reg_map st)"
        and low: "\<forall>x\<in>insert li ?W. low_pressure n (insert li H \<union> ?W) x \<and> (\<forall>i\<in>H. iv_start i \<le> iv_start x)"
      then have "snd ` insert li H \<subseteq> dom (reg_map st2)" using more by (simp add: un)
      moreover have "\<forall>x\<in>?W. low_pressure n (insert li H \<union> ?W) x \<and> (\<forall>i\<in>insert li H. iv_start i \<le> iv_start x)"
        using low later by blast
      ultimately show "snd ` (insert li H \<union> ?W) \<subseteq> dom (reg_map st')"
        using res unfolding scan_result_def by meson
    qed
    moreover have "scan s n fl (li # lis) st = Inr st'" using b False alloc run by simp
    ultimately show ?thesis by blast
  qed
qed

text \<open>
  The input of \<open>linear_scan\<close>: the set of live intervals in its iteration order, one
  interval per value, values that are instructions or arguments of the store, and
  arguments of one function (their numbers differ).
\<close>

definition intervals_ok :: "'z ir_scheme \<Rightarrow> bool \<Rightarrow> live_interval list \<Rightarrow> bool" where
  "intervals_ok s fl lis \<longleftrightarrow> sorted_wrt (LiveIntervalCmp s) lis \<and> distinct (map snd lis)
     \<and> (\<forall>li\<in>set lis. (\<exists>op p. kind_of s (snd li) = Some (K_instr op p))
          \<or> (\<exists>f k. kind_of s (snd li) = Some (K_arg f k)))
     \<and> inj_on (arg_slot s fl) {v \<in> snd ` set lis. arg_slot s fl v \<noteq> None}"

definition reserving :: "'z ir_scheme \<Rightarrow> bool \<Rightarrow> live_interval list \<Rightarrow> live_interval set" where
  "reserving s fl lis = {li \<in> set lis. arg_slot s fl (snd li) \<noteq> None}"

lemma skipped_total:
  assumes "(\<exists>op p. kind_of s v = Some (K_instr op p)) \<or> (\<exists>f k. kind_of s v = Some (K_arg f k))"
  shows "\<exists>b. skipped s fl v = Inr b"
proof -
  obtain r where r: "vals s v = Some r" using assms by (auto simp: kind_of_def)
  show ?thesis
  proof (cases "is_arg s v \<or> \<not> in_class fl (vty r)")
    case True
    then show ?thesis using r by (auto simp: skipped_def type_of_def)
  next
    case False
    then obtain op p where "vkind r = K_instr op p"
      using assms r by (auto simp: is_arg_def kind_of_def)
    then show ?thesis using False r by (simp add: skipped_def type_of_def no_reg_alloca_def)
  qed
qed

lemma reserving_args:
  assumes "intervals_ok s fl lis"
  shows "card {i \<in> reserving s fl lis. is_arg s (snd i)} \<le> 8" and "inj_on snd (set lis)"
proof -
  show inj: "inj_on snd (set lis)" using assms by (simp add: intervals_ok_def distinct_map)
  let ?V = "{v \<in> snd ` set lis. arg_slot s fl v \<noteq> None}"
  have "inj_on (arg_slot s fl) ?V" using assms by (simp add: intervals_ok_def)
  moreover have "arg_slot s fl ` ?V \<subseteq> Some ` {..<8}" using arg_slot_arg by fastforce
  ultimately have V: "card ?V \<le> 8"
    using card_inj_on_le [of "arg_slot s fl" ?V "Some ` {..<8}"] by (simp add: card_image)
  have "snd ` reserving s fl lis = ?V" by (auto simp: reserving_def)
  moreover have "inj_on snd (reserving s fl lis)"
    by (rule inj_on_subset [OF inj]) (auto simp: reserving_def)
  ultimately have "card (reserving s fl lis) = card ?V" by (metis card_image)
  moreover have "card {i \<in> reserving s fl lis. is_arg s (snd i)} \<le> card (reserving s fl lis)"
    by (rule card_mono) (auto simp: reserving_def)
  ultimately show "card {i \<in> reserving s fl lis. is_arg s (snd i)} \<le> 8" using V by simp
qed

lemma linear_scan_result:
  assumes ok: "intervals_ok s fl lis" and n: "8 \<le> n" and len: "length (used st) = n + 1"
  obtains st1 st' where "linear_scan s n fl lis st = Inr st'"
    and "scan_result s n fl (reserving s fl lis) lis st1 st'"
    and "\<forall>v. reg_map st1 v = (if v \<in> snd ` set lis \<and> arg_slot s fl v \<noteq> None
          then map_option Suc (arg_slot s fl v) else None)"
proof -
  let ?p = "Min (insert 0 (iv_start ` set lis))"
  have p: "\<forall>li\<in>set lis. ?p \<le> iv_start li" by simp
  have dom: "\<forall>li\<in>set lis. snd li \<in> dom (vals s)"
    using ok by (auto simp: intervals_ok_def kind_of_def)
  have inv: "ra_inv n ?p {} (reset st)"
    using len by (simp add: ra_inv_defs reset_def nth_append del: replicate_Suc)
  have free: "\<forall>li\<in>set lis. \<forall>k. arg_slot s fl (snd li) = Some k \<longrightarrow> \<not> used (reset st) ! (k + 1)"
    using len n by (auto simp: reset_def dest!: arg_slot_arg simp del: replicate_Suc)
  have "\<exists>st1. reserve_for_arg s fl lis (reset st) = Inr st1
      \<and> ra_inv n ?p ({} \<union> {li \<in> set lis. arg_slot s fl (snd li) \<noteq> None}) st1
      \<and> (\<forall>v. reg_map st1 v = (if v \<in> snd ` set lis \<and> arg_slot s fl v \<noteq> None
          then map_option Suc (arg_slot s fl v) else reg_map (reset st) v))"
    by (rule reserve_correct [OF inv n _ _ _ dom free])
      (use ok in \<open>simp_all add: intervals_ok_def reset_def\<close>)
  then obtain st1 where res: "reserve_for_arg s fl lis (reset st) = Inr st1"
    and inv1: "ra_inv n ?p (reserving s fl lis) st1"
    and map1: "\<forall>v. reg_map st1 v = (if v \<in> snd ` set lis \<and> arg_slot s fl v \<noteq> None
          then map_option Suc (arg_slot s fl v) else None)"
    by (auto simp: reserving_def reset_def)
  have fresh: "\<forall>li\<in>wanting s fl lis. snd li \<notin> snd ` reserving s fl lis"
    using wants_reg_not_arg by (auto simp: wanting_def reserving_def dest!: arg_slot_arg)
  have skip: "\<forall>li\<in>set lis. \<exists>b. skipped s fl (snd li) = Inr b"
    using ok skipped_total unfolding intervals_ok_def by blast
  have "\<exists>st'. scan s n fl lis st1 = Inr st' \<and> scan_result s n fl (reserving s fl lis) lis st1 st'"
    by (rule scan_correct [OF inv1 _ _ _ _ _ fresh skip])
      (use ok n p in \<open>auto simp: intervals_ok_def reserving_def wanting_def\<close>)
  then show thesis using that res map1 by (auto simp: linear_scan_def)
qed

section \<open>A concrete input\<close>

text \<open>One integer argument and two additions whose results are used.\<close>

definition ra_demo :: ir where
  "ra_demo = empty_ir\<lparr>vals :=
     [1 \<mapsto> \<lparr>vty = int32_ty, vname = '''', vuses = [(2, 0)], vops = [], vkind = K_arg 0 0\<rparr>,
      2 \<mapsto> \<lparr>vty = int32_ty, vname = '''', vuses = [(3, 0)], vops = [], vkind = K_instr O_add (Some 9)\<rparr>,
      3 \<mapsto> \<lparr>vty = int32_ty, vname = '''', vuses = [(4, 0)], vops = [], vkind = K_instr O_add (Some 9)\<rparr>]\<rparr>"

definition ra_demo_ivs :: "live_interval list" where
  "ra_demo_ivs = [((0, 3), 1), ((1, 5), 2), ((4, 6), 3)]"

definition ra_demo_st :: ra where
  "ra_demo_st = \<lparr>used = replicate 10 False, reg_map = Map.empty, active = []\<rparr>"

lemma ra_demo_facts:
  "is_arg ra_demo 1" "\<not> is_arg ra_demo 2" "\<not> is_arg ra_demo 3"
  "arg_slot ra_demo False 1 = Some 0" "arg_slot ra_demo False 2 = None" "arg_slot ra_demo False 3 = None"
  "wants_reg ra_demo False 2" "wants_reg ra_demo False 3"
  by (simp_all add: is_arg_def kind_of_def arg_slot_def wants_reg_def skipped_def type_of_def no_reg_alloca_def
      is_void_instr_def is_cmp_def is_fcmp_def ra_demo_def empty_ir_def in_class_def ARG_MAX_R_def)

lemma ra_demo_ok: "intervals_ok ra_demo False ra_demo_ivs"
proof -
  have "{v. v \<in> snd ` set ra_demo_ivs \<and> arg_slot ra_demo False v \<noteq> None} = {1}"
    using ra_demo_facts by (auto simp: ra_demo_ivs_def)
  then have "inj_on (arg_slot ra_demo False) {v \<in> snd ` set ra_demo_ivs. arg_slot ra_demo False v \<noteq> None}"
    by simp
  moreover have "sorted_wrt (LiveIntervalCmp ra_demo) ra_demo_ivs" "distinct (map snd ra_demo_ivs)"
    using ra_demo_facts by (simp_all add: ra_demo_ivs_def LiveIntervalCmp_def iv_start_def)
  moreover have "kind_of ra_demo 1 = Some (K_arg 0 0)" "kind_of ra_demo 2 = Some (K_instr O_add (Some 9))"
    "kind_of ra_demo 3 = Some (K_instr O_add (Some 9))"
    by (simp_all add: kind_of_def ra_demo_def empty_ir_def)
  ultimately show ?thesis by (simp add: intervals_ok_def) (simp add: ra_demo_ivs_def)
qed

lemma ra_demo_sets:
  "reserving ra_demo False ra_demo_ivs = {((0, 3), 1)}"
  "wanting ra_demo False ra_demo_ivs = {((1, 5), 2), ((4, 6), 3)}"
  using ra_demo_facts wants_reg_not_arg [of ra_demo False 1]
  by (auto simp: reserving_def wanting_def ra_demo_ivs_def)

lemma ra_demo_len: "length (used ra_demo_st) = 9 + 1"
  by (simp add: ra_demo_st_def)

section \<open>Properties\<close>

text \<open>C2: linear scan ends without a failed assertion; every register it gives is one of
  \<open>1..num_regs\<close>; and two different values with the same register have disjoint live
  intervals, so neither can overwrite the other while it is live.\<close>

theorem linear_scan_no_conflict:
  assumes "intervals_ok s fl lis" and "8 \<le> n" and "length (used st) = n + 1"
  shows "\<exists>st'. linear_scan s n fl lis st = Inr st'
    \<and> (\<forall>v r. reg_map st' v = Some r \<longrightarrow> 1 \<le> r \<and> r \<le> n)
    \<and> (\<forall>i\<in>set lis. \<forall>j\<in>set lis. \<forall>r. i \<noteq> j \<longrightarrow> reg_map st' (snd i) = Some r
         \<longrightarrow> reg_map st' (snd j) = Some r \<longrightarrow> disjoint_ivs i j)"
proof -
  obtain st1 st' where run: "linear_scan s n fl lis st = Inr st'"
    and res: "scan_result s n fl (reserving s fl lis) lis st1 st'"
    by (rule linear_scan_result [OF assms])
  let ?H = "reserving s fl lis \<union> wanting s fl lis"
  obtain q where inv: "ra_inv n q ?H st'" using res by (auto simp: scan_result_def)
  have sub: "?H \<subseteq> set lis" by (auto simp: reserving_def wanting_def)
  have inH: "i \<in> ?H" if "i \<in> set lis" "reg_map st' (snd i) = Some r" for i r
  proof -
    have "dom (reg_map st') \<subseteq> snd ` ?H" using inv by (simp add: ra_inv_def handled_ok_def)
    then have "snd i \<in> snd ` ?H" using that(2) by blast
    then obtain j where j: "j \<in> ?H" "snd i = snd j" by (rule imageE)
    then have "i = j" using inj_onD [OF reserving_args(2) [OF assms(1)] j(2) that(1)] sub by blast
    then show ?thesis using j(1) by simp
  qed
  have "disjoint_ivs i j"
    if "i \<in> set lis" "j \<in> set lis" "i \<noteq> j" "reg_map st' (snd i) = Some r" "reg_map st' (snd j) = Some r"
    for i j r
    using that inH inv unfolding ra_inv_def handled_ok_def by blast
  then show ?thesis using run regs_range [OF inv] by blast
qed

text \<open>C26: with more than eight registers an integer or float argument among the first
  eight keeps the register with its number for its whole life: it is never the spilled
  value.\<close>

theorem linear_scan_keeps_arguments:
  assumes "intervals_ok s fl lis" and "8 < n" and "length (used st) = n + 1"
    and "linear_scan s n fl lis st = Inr st'"
    and "li \<in> set lis" and "arg_slot s fl (snd li) = Some k"
  shows "reg_map st' (snd li) = Some (k + 1)"
proof -
  obtain st1 st2 where run: "linear_scan s n fl lis st = Inr st2"
    and res: "scan_result s n fl (reserving s fl lis) lis st1 st2"
    and map1: "\<forall>v. reg_map st1 v = (if v \<in> snd ` set lis \<and> arg_slot s fl v \<noteq> None
          then map_option Suc (arg_slot s fl v) else None)"
    by (rule linear_scan_result [OF assms(1) less_imp_le_nat [OF assms(2)] assms(3)])
  have "card {i \<in> reserving s fl lis. is_arg s (snd i)} < n"
    using reserving_args(1) [OF assms(1)] assms(2) by simp
  then have "reg_map st2 (snd li) = reg_map st1 (snd li)"
    using res arg_slot_arg [OF assms(6)] unfolding scan_result_def by blast
  then show ?thesis using run assms(4-6) map1 by simp
qed

text \<open>C27: no value is left in memory without need: if at the start of every interval that
  wants a register at most \<open>num_regs\<close> intervals of the class are live, every value that
  wants a register has one.\<close>

theorem linear_scan_no_needless_spill:
  assumes "intervals_ok s fl lis" and "8 \<le> n" and "length (used st) = n + 1"
    and "\<forall>li\<in>wanting s fl lis. low_pressure n (reserving s fl lis \<union> wanting s fl lis) li"
    and "\<forall>i\<in>reserving s fl lis. \<forall>li\<in>wanting s fl lis. iv_start i \<le> iv_start li"
    and "linear_scan s n fl lis st = Inr st'" and "li \<in> wanting s fl lis"
  shows "snd li \<in> dom (reg_map st')"
proof -
  obtain st1 st2 where run: "linear_scan s n fl lis st = Inr st2"
    and res: "scan_result s n fl (reserving s fl lis) lis st1 st2"
    and map1: "\<forall>v. reg_map st1 v = (if v \<in> snd ` set lis \<and> arg_slot s fl v \<noteq> None
          then map_option Suc (arg_slot s fl v) else None)"
    by (rule linear_scan_result [OF assms(1-3)])
  have "snd ` reserving s fl lis \<subseteq> dom (reg_map st1)"
    using map1 by (force simp: reserving_def)
  then have "snd ` (reserving s fl lis \<union> wanting s fl lis) \<subseteq> dom (reg_map st2)"
    using res assms(4,5) unfolding scan_result_def by blast
  then show ?thesis using assms(6,7) run by auto
qed

theorem linear_scan_no_conflict_witness:
  "\<exists>st'. linear_scan ra_demo 9 False ra_demo_ivs ra_demo_st = Inr st'
    \<and> (\<forall>v r. reg_map st' v = Some r \<longrightarrow> r \<le> 9)"
  using linear_scan_no_conflict [OF ra_demo_ok _ ra_demo_len] by auto

lemma ra_demo_run:
  obtains st' where "linear_scan ra_demo 9 False ra_demo_ivs ra_demo_st = Inr st'"
  using linear_scan_result [OF ra_demo_ok _ ra_demo_len] by auto

theorem linear_scan_keeps_arguments_witness:
  "\<exists>st'. linear_scan ra_demo 9 False ra_demo_ivs ra_demo_st = Inr st' \<and> reg_map st' 1 = Some 1"
proof -
  obtain st' where run: "linear_scan ra_demo 9 False ra_demo_ivs ra_demo_st = Inr st'" by (rule ra_demo_run)
  have "reg_map st' (snd ((0 :: int, 3 :: int), 1 :: vid)) = Some (0 + 1)"
    by (rule linear_scan_keeps_arguments [OF ra_demo_ok _ ra_demo_len run])
      (simp_all add: ra_demo_ivs_def ra_demo_facts ra_demo_facts [unfolded One_nat_def])
  with run show ?thesis by simp
qed

theorem linear_scan_no_needless_spill_witness:
  "\<exists>st'. linear_scan ra_demo 9 False ra_demo_ivs ra_demo_st = Inr st' \<and> 3 \<in> dom (reg_map st')"
proof -
  obtain st' where run: "linear_scan ra_demo 9 False ra_demo_ivs ra_demo_st = Inr st'" by (rule ra_demo_run)
  have le: "card (covers p (reserving ra_demo False ra_demo_ivs \<union> wanting ra_demo False ra_demo_ivs)) \<le> 9" for p
  proof -
    have "card (covers p {((0, 3), 1), ((1, 5), 2), ((4, 6), 3)}) \<le> card {((0, 3), 1), ((1, 5), 2), ((4 :: int, 6 :: int), 3 :: nat)}"
      by (rule card_mono) (auto simp: covers_def)
    then show ?thesis by (simp add: ra_demo_sets insert_commute)
  qed
  have "snd ((4 :: int, 6 :: int), 3 :: vid) \<in> dom (reg_map st')"
    by (rule linear_scan_no_needless_spill [OF ra_demo_ok _ ra_demo_len _ _ run])
      (use le in \<open>auto simp: ra_demo_sets low_pressure_def iv_start_def iv_end_def\<close>)
  with run show ?thesis by auto
qed

end
