(* ===== verification/Liverange.thy ===== *)
theory Liverange
  imports Regalloc
begin

text \<open>
  Backward liveness and live intervals (\<open>include/codegen/Liverange.hpp\<close>,
  \<open>src/codegen/Liverange.cpp\<close>). Every non-phi instruction and every copy statement of a
  function gets an id; \<open>in_set\<close> and \<open>out_set\<close> map ids to sets of values. \<open>phi_map\<close> (the
  copies at the end of each block) is an argument, as in the source, where it is a
  reference to the caller's map. The iteration order of a \<open>DenseSet\<close> or \<open>DenseMap\<close> has no
  influence on what the code computes.
\<close>

section \<open>State\<close>

type_synonym phi_to_copy = "vid \<times> vid"           \<comment> \<open>\<open>(dst, src)\<close>\<close>
type_synonym phi_map = "vid \<rightharpoonup> phi_to_copy list"
type_synonym live_set = "vid set"

record lra =
  bb_dfs_order :: "vid list"
  in_set :: "nat \<rightharpoonup> live_set"
  out_set :: "nat \<rightharpoonup> live_set"
  instr_id :: "vid \<rightharpoonup> nat"
  copy_id :: "phi_to_copy \<rightharpoonup> nat"
  interval_map :: "vid \<rightharpoonup> interval"
  live_intervals :: "live_interval list"

definition lra_clear :: lra where
  "lra_clear = \<lparr>bb_dfs_order = [], in_set = Map.empty, out_set = Map.empty, instr_id = Map.empty,
     copy_id = Map.empty, interval_map = Map.empty, live_intervals = []\<rparr>"

definition is_register_value :: "'z ir_scheme \<Rightarrow> vid \<Rightarrow> bool" where
  "is_register_value s v = (case kind_of s v of
     Some (K_instr _ _) \<Rightarrow> True | Some (K_arg _ _) \<Rightarrow> True | _ \<Rightarrow> False)"

definition is_phi :: "'z ir_scheme \<Rightarrow> vid \<Rightarrow> bool" where
  "is_phi s i = (case kind_of s i of Some (K_instr O_phi _) \<Rightarrow> True | _ \<Rightarrow> False)"

definition isTerminator :: "'z ir_scheme \<Rightarrow> vid \<Rightarrow> bool" where
  "isTerminator s i = (case kind_of s i of
     Some (K_instr O_ret _) \<Rightarrow> True | Some (K_instr O_br _) \<Rightarrow> True | _ \<Rightarrow> False)"

text \<open>\<open>DenseMap::operator[]\<close> on a map to numbers: a missing key reads as \<open>0\<close>.\<close>

definition sub :: "('k \<rightharpoonup> nat) \<Rightarrow> 'k \<Rightarrow> nat" where
  "sub m k = (case m k of None \<Rightarrow> 0 | Some n \<Rightarrow> n)"

definition sub_set :: "(nat \<rightharpoonup> live_set) \<Rightarrow> nat \<Rightarrow> live_set" where
  "sub_set m k = (case m k of None \<Rightarrow> {} | Some S \<Rightarrow> S)"

section \<open>Order and numbers\<close>

text \<open>
  \<open>traverse\<close>: a recursion that stops at visited blocks. The fuel counts the blocks that
  may still be visited.
\<close>

fun traverse :: "'z ir_scheme \<Rightarrow> nat \<Rightarrow> vid list \<Rightarrow> vid list \<Rightarrow> vid list res" where
  "traverse s 0 todo visited = (if todo = [] then Inr visited else Inl Diverges)"
| "traverse s (Suc fuel) [] visited = Inr visited"
| "traverse s (Suc fuel) (bb # todo) visited =
     (if bb \<in> set visited then traverse s (Suc fuel) todo visited
      else bindR (deref (bbs s) bb) (\<lambda>r.
           traverse s fuel (succ_bbs r @ todo) (visited @ [bb])))"

definition get_dfs_order :: "'z ir_scheme \<Rightarrow> vid \<Rightarrow> vid list res" where
  "get_dfs_order s f =
     bindR (deref (funcs s) f) (\<lambda>r. case basic_blocks r of
       [] \<Rightarrow> Inl Dangling
     | entry # _ \<Rightarrow> traverse s (Suc (length (basic_blocks r))) [entry] [])"

fun number_copies :: "phi_to_copy list \<Rightarrow> nat \<Rightarrow> (phi_to_copy \<rightharpoonup> nat) \<Rightarrow> nat \<times> (phi_to_copy \<rightharpoonup> nat)" where
  "number_copies [] n m = (n, m)"
| "number_copies (c # cs) n m = number_copies cs (Suc n) (m(c \<mapsto> n))"

type_synonym numbering = "nat \<times> (vid \<rightharpoonup> nat) \<times> (phi_to_copy \<rightharpoonup> nat)"

fun number_instrs :: "'z ir_scheme \<Rightarrow> phi_map \<Rightarrow> vid \<Rightarrow> vid list \<Rightarrow> numbering \<Rightarrow> numbering" where
  "number_instrs s pm bb [] num = num"
| "number_instrs s pm bb (i # is) (n, im, cm) =
     (if is_phi s i then number_instrs s pm bb is (n, im, cm)
      else
        let (n1, cm1) = (if isTerminator s i then
                           (case pm bb of None \<Rightarrow> (n, cm) | Some cs \<Rightarrow> number_copies cs n cm)
                         else (n, cm)) in
        number_instrs s pm bb is (Suc n1, im(i \<mapsto> n1), cm1))"

fun number_blocks :: "'z ir_scheme \<Rightarrow> phi_map \<Rightarrow> vid list \<Rightarrow> numbering \<Rightarrow> numbering" where
  "number_blocks s pm [] num = num"
| "number_blocks s pm (bb # bs) num = number_blocks s pm bs (number_instrs s pm bb (instrs s bb) num)"

definition make_id :: "'z ir_scheme \<Rightarrow> phi_map \<Rightarrow> lra \<Rightarrow> lra" where
  "make_id s pm st =
     (case number_blocks s pm (bb_dfs_order st) (1, instr_id st, copy_id st) of
        (n, im, cm) \<Rightarrow> st\<lparr>instr_id := im, copy_id := cm\<rparr>)"

section \<open>Data flow\<close>

fun join_succs :: "'z ir_scheme \<Rightarrow> phi_map \<Rightarrow> lra \<Rightarrow> vid list \<Rightarrow> live_set \<Rightarrow> live_set res" where
  "join_succs s pm st [] out = Inr out"
| "join_succs s pm st (succ # rest) out =
     (case dropWhile (is_phi s) (instrs s succ) of
        [] \<Rightarrow> Inl (Assert_fail ''need to find first_ir from copy-stmt'')
      | anchor # _ \<Rightarrow>
          (case instr_id st anchor of
             None \<Rightarrow> Inl (Assert_fail ''anchor not numbered'')
           | Some k \<Rightarrow>
               let entry_id =
                 (if isTerminator s anchor then
                    (case pm succ of Some (c # _) \<Rightarrow> sub (copy_id st) c | _ \<Rightarrow> k)
                  else k) in
               join_succs s pm st rest (out \<union> sub_set (in_set st) entry_id)))"

definition join_for :: "'z ir_scheme \<Rightarrow> phi_map \<Rightarrow> lra \<Rightarrow> vid \<Rightarrow> live_set res" where
  "join_for s pm st bb =
     bindR (deref (bbs s) bb) (\<lambda>r. join_succs s pm st (succ_bbs r) {})"

definition register_operands :: "'z ir_scheme \<Rightarrow> vid option list \<Rightarrow> vid list" where
  "register_operands s ops = filter (is_register_value s) (map the (filter (\<lambda>op. op \<noteq> None) ops))"

definition transfer_function :: "'z ir_scheme \<Rightarrow> vid \<Rightarrow> live_set \<Rightarrow> live_set res" where
  "transfer_function s i cur_out =
     bindR (deref (vals s) i) (\<lambda>r. bindR (instr_op s i) (\<lambda>op.
     Inr ((if is_void_instr op (vty r) then cur_out else cur_out - {i}) \<union>
          set (register_operands s (vops r)))))"

definition process_copy_stmts :: "'z ir_scheme \<Rightarrow> phi_map \<Rightarrow> vid \<Rightarrow> live_set \<Rightarrow> lra \<Rightarrow> live_set \<times> lra" where
  "process_copy_stmts s pm bb live_out st = (case pm bb of
     None \<Rightarrow> (live_out, st)
   | Some copies \<Rightarrow>
       let live_in = (live_out - set (map fst copies)) \<union> set (filter (is_register_value s) (map snd copies)) in
       (live_in,
        foldl (\<lambda>st c. st\<lparr>out_set := (out_set st)(sub (copy_id st) c \<mapsto> live_out),
                        in_set := (in_set st)(sub (copy_id st) c \<mapsto> live_in)\<rparr>) st copies))"

text \<open>The instructions of one block in reverse order; \<open>last_ir\<close> and \<open>changed\<close> as in the source.\<close>

fun sweep_instrs :: "'z ir_scheme \<Rightarrow> phi_map \<Rightarrow> vid \<Rightarrow> vid list \<Rightarrow> bool \<Rightarrow> live_set \<Rightarrow> lra \<Rightarrow> bool \<Rightarrow> (lra \<times> bool) res" where
  "sweep_instrs s pm bb [] last_ir cur_out st changed = Inr (st, changed)"
| "sweep_instrs s pm bb (i # is) last_ir cur_out st changed =
     (if is_phi s i then
        bindR (guardR (\<not> last_ir) (Assert_fail ''phi is the last ir'')) (\<lambda>_.
        sweep_instrs s pm bb is last_ir cur_out st changed)
      else
        let k = sub (instr_id st) i;
            st1 = st\<lparr>out_set := (out_set st)(k \<mapsto> cur_out)\<rparr> in
        bindR (transfer_function s i cur_out) (\<lambda>new_in.
        let old_in = sub_set (in_set st1) k;
            st2 = st1\<lparr>in_set := (in_set st1)(k \<mapsto> old_in \<union> new_in)\<rparr>;
            changed' = (changed \<or> \<not> new_in \<subseteq> old_in);
            (cur, st3) = (if isTerminator s i then process_copy_stmts s pm bb new_in st2
                          else (new_in, st2)) in
        sweep_instrs s pm bb is False cur st3 changed'))"

definition sweep_block :: "'z ir_scheme \<Rightarrow> phi_map \<Rightarrow> vid \<Rightarrow> lra \<Rightarrow> bool \<Rightarrow> (lra \<times> bool) res" where
  "sweep_block s pm bb st changed =
     bindR (get_terminator s bb) (\<lambda>terminator.
     bindR (join_for s pm st bb) (\<lambda>cur_out.
     sweep_instrs s pm bb (rev (instrs s bb)) True cur_out
       (st\<lparr>out_set := (out_set st)(sub (instr_id st) terminator \<mapsto> cur_out)\<rparr>) changed))"

fun sweep_blocks :: "'z ir_scheme \<Rightarrow> phi_map \<Rightarrow> vid list \<Rightarrow> lra \<Rightarrow> bool \<Rightarrow> (lra \<times> bool) res" where
  "sweep_blocks s pm [] st changed = Inr (st, changed)"
| "sweep_blocks s pm (bb # bs) st changed =
     bindR (sweep_block s pm bb st changed) (\<lambda>(st', changed'). sweep_blocks s pm bs st' changed')"

text \<open>The outer loop; \<open>None\<close> would be a loop that does not end.\<close>

partial_function (option) fixpoint :: "'z ir_scheme \<Rightarrow> phi_map \<Rightarrow> lra \<Rightarrow> lra res option" where
  "fixpoint s pm st =
     (case sweep_blocks s pm (rev (bb_dfs_order st)) st False of
        Inl e \<Rightarrow> Some (Inl e)
      | Inr (st', changed) \<Rightarrow> (if changed then fixpoint s pm st' else Some (Inr st')))"

section \<open>Intervals\<close>

definition in_pos :: "nat \<Rightarrow> int" where "in_pos k = 2 * int k - 1"
definition out_pos :: "nat \<Rightarrow> int" where "out_pos k = 2 * int k"

definition UNINITIAL :: int where "UNINITIAL = - 1"

text \<open>\<open>interval_map[v]\<close> starts as \<open>Interval(UNINITIAL, UNINITIAL)\<close>.\<close>

definition touch :: "interval option \<Rightarrow> int \<Rightarrow> interval" where
  "touch iv pos =
     (let (st, en) = (case iv of None \<Rightarrow> (UNINITIAL, UNINITIAL) | Some p \<Rightarrow> p) in
      (if st = UNINITIAL \<or> pos < st then pos else st,
       if en = UNINITIAL \<or> en < pos then pos else en))"

definition touch_all :: "live_set \<Rightarrow> int \<Rightarrow> (vid \<rightharpoonup> interval) \<Rightarrow> (vid \<rightharpoonup> interval)" where
  "touch_all live pos m = (\<lambda>v. if v \<in> live then Some (touch (m v) pos) else m v)"

text \<open>The entries of a map to live sets, for the ids below \<open>n\<close>.\<close>

fun touch_sets :: "(nat \<Rightarrow> int) \<Rightarrow> (nat \<rightharpoonup> live_set) \<Rightarrow> nat list \<Rightarrow> (vid \<rightharpoonup> interval) \<Rightarrow> (vid \<rightharpoonup> interval)" where
  "touch_sets pos sets [] m = m"
| "touch_sets pos sets (k # ks) m =
     touch_sets pos sets ks
       (case sets k of None \<Rightarrow> m | Some live \<Rightarrow> touch_all live (if k = 0 then 0 else pos k) m)"

fun collect_intervals :: "'z ir_scheme \<Rightarrow> (vid \<rightharpoonup> interval) \<Rightarrow> vid list \<Rightarrow> live_interval list" where
  "collect_intervals s m [] = []"
| "collect_intervals s m (v # vs) = (case m v of
     None \<Rightarrow> collect_intervals s m vs
   | Some iv \<Rightarrow> set_insert (LiveIntervalCmp s) (iv, v) (collect_intervals s m vs))"

text \<open>\<open>ids\<close> lists the keys of the maps, \<open>vs\<close> the values that can occur.\<close>

definition make_interval :: "'z ir_scheme \<Rightarrow> nat list \<Rightarrow> vid list \<Rightarrow> lra \<Rightarrow> lra" where
  "make_interval s ids vs st =
     (let m = touch_sets out_pos (out_set st) ids (touch_sets in_pos (in_set st) ids (interval_map st)) in
      st\<lparr>interval_map := m, live_intervals := collect_intervals s m vs\<rparr>)"

definition ids_of :: "'z ir_scheme \<Rightarrow> phi_map \<Rightarrow> vid list \<Rightarrow> nat list" where
  "ids_of s pm bs = [0 ..< fst (number_blocks s pm bs (1, Map.empty, Map.empty))]"

definition values_of :: "'z ir_scheme \<Rightarrow> vid \<Rightarrow> vid list" where
  "values_of s f = (case funcs s f of None \<Rightarrow> [] | Some r \<Rightarrow>
     arguments r @ concat (map (instrs s) (basic_blocks r)))"

definition lra_finish :: "'z ir_scheme \<Rightarrow> phi_map \<Rightarrow> vid \<Rightarrow> lra \<Rightarrow> lra res" where
  "lra_finish s pm f st =
     bindR (guardR (in_set st 0 = None \<and> out_set st 0 = None)
        (Assert_fail ''no instr_id will be mapped to 0'')) (\<lambda>_.
     bindR (deref (funcs s) f) (\<lambda>r.
     Inr (make_interval s (ids_of s pm (bb_dfs_order st)) (values_of s f)
       (st\<lparr>in_set := (in_set st)(0 \<mapsto> set (arguments r)), out_set := (out_set st)(0 \<mapsto> {})\<rparr>))))"

definition lra_run :: "'z ir_scheme \<Rightarrow> phi_map \<Rightarrow> vid \<Rightarrow> lra res option" where
  "lra_run s pm f =
     (case get_dfs_order s f of
        Inl e \<Rightarrow> Some (Inl e)
      | Inr order \<Rightarrow>
          (case fixpoint s pm (make_id s pm (lra_clear\<lparr>bb_dfs_order := order\<rparr>)) of
             None \<Rightarrow> None
           | Some (Inl e) \<Rightarrow> Some (Inl e)
           | Some (Inr st) \<Rightarrow> Some (lra_finish s pm f st)))"

section \<open>Debug output\<close>

text \<open>The elements of the set in the order of the iteration.\<close>

definition print_live_set :: "'z ir_scheme \<Rightarrow> vid list \<Rightarrow> string" where
  "print_live_set s ls =
     ''[ '' @ concat (map (\<lambda>v. (case vals s v of None \<Rightarrow> [] | Some r \<Rightarrow> vname r) @ '' '') ls) @ '']''"

definition print_interval :: "interval \<Rightarrow> string" where
  "print_interval iv = ''<'' @ int_str (fst iv) @ '', '' @ int_str (snd iv) @ ''>''"

end
