(* ===== verification/CodeGen.thy ===== *)
theory CodeGen
  imports IRPrinter
begin

text \<open>
  The stack-based LoongArch code generator (\<open>include/codegen/CodeGen.hpp\<close>,
  \<open>CodeGenUtil.hpp\<close>, \<open>Register.hpp\<close>, \<open>ASMInstruction.hpp\<close>, \<open>src/codegen/CodeGen.cpp\<close>,
  \<open>Register.cpp\<close>): every value has a slot in the frame, every instruction loads its
  operands into temporaries, computes and stores its result. The state is the store of
  the IR extended by the generator's context and its output, the list of assembly lines.
\<close>

unbundle bit_operations_syntax

section \<open>Assembly lines and registers\<close>

datatype inst_type = Asm_Instruction | Asm_Attribute | Asm_Label | Asm_Comment

record asm_inst =
  asm_type :: inst_type
  content :: string

definition asm_format :: "asm_inst \<Rightarrow> string" where
  "asm_format i = (case asm_type i of
       Asm_Instruction \<Rightarrow> [CHR 0x09] @ content i @ [CHR 0x0A]
     | Asm_Attribute \<Rightarrow> [CHR 0x09] @ content i @ [CHR 0x0A]
     | Asm_Label \<Rightarrow> content i @ '':'' @ [CHR 0x0A]
     | Asm_Comment \<Rightarrow> ''# '' @ content i @ [CHR 0x0A])"

text \<open>\<open>Reg\<close> and \<open>FReg\<close> hold an \<open>unsigned\<close> checked by the constructor.\<close>

definition Reg_ctor :: "nat \<Rightarrow> nat res" where
  "Reg_ctor i = bindR (guardR (i \<le> 31) (Assert_fail ''i <= 31'')) (\<lambda>_. Inr i)"

definition Reg_zero :: "nat res" where "Reg_zero = Reg_ctor 0"
definition Reg_ra :: "nat res" where "Reg_ra = Reg_ctor 1"
definition Reg_sp :: "nat res" where "Reg_sp = Reg_ctor 3"
definition Reg_fp :: "nat res" where "Reg_fp = Reg_ctor 22"

definition Reg_a :: "nat \<Rightarrow> nat res" where
  "Reg_a i = bindR (guardR (i \<le> 7) (Assert_fail ''0 <= i and i <= 7'')) (\<lambda>_. Reg_ctor (i + 4))"

definition Reg_t :: "nat \<Rightarrow> nat res" where
  "Reg_t i = bindR (guardR (i \<le> 8) (Assert_fail ''0 <= i and i <= 8'')) (\<lambda>_. Reg_ctor (i + 12))"

definition Reg_s :: "nat \<Rightarrow> nat res" where
  "Reg_s i = bindR (guardR (i \<le> 9) (Assert_fail ''0 <= i and i <= 9'')) (\<lambda>_.
     if i = 9 then Reg_ctor 22 else Reg_ctor (i + 23))"

definition Reg_print :: "nat \<Rightarrow> string res" where
  "Reg_print n =
     (if n = 0 then Inr ''$zero''
      else if n = 1 then Inr ''$ra''
      else if n = 2 then Inr ''$tp''
      else if n = 3 then Inr ''$sp''
      else if 4 \<le> n \<and> n \<le> 11 then Inr (''$a'' @ nat_str (n - 4))
      else if 12 \<le> n \<and> n \<le> 20 then Inr (''$t'' @ nat_str (n - 12))
      else if n = 22 then Inr ''$fp''
      else Inl (Assert_fail ''false''))"

definition FReg_ctor :: "nat \<Rightarrow> nat res" where
  "FReg_ctor i = bindR (guardR (i \<le> 31) (Assert_fail ''i <= 31'')) (\<lambda>_. Inr i)"

definition FReg_fa :: "nat \<Rightarrow> nat res" where
  "FReg_fa i = bindR (guardR (i \<le> 7) (Assert_fail ''0 <= i and i <= 7'')) (\<lambda>_. FReg_ctor i)"

definition FReg_ft :: "nat \<Rightarrow> nat res" where
  "FReg_ft i = bindR (guardR (i \<le> 15) (Assert_fail ''0 <= i and i <= 15'')) (\<lambda>_. FReg_ctor (i + 8))"

definition FReg_fs :: "nat \<Rightarrow> nat res" where
  "FReg_fs i = bindR (guardR (i \<le> 7) (Assert_fail ''0 <= i and i <= 7'')) (\<lambda>_. FReg_ctor (i + 24))"

definition FReg_print :: "nat \<Rightarrow> string res" where
  "FReg_print n =
     (if n \<le> 7 then Inr (''$fa'' @ nat_str n)
      else if 8 \<le> n \<and> n \<le> 23 then Inr (''$ft'' @ nat_str (n - 8))
      else if 24 \<le> n \<and> n \<le> 31 then Inr (''$fs'' @ nat_str (n - 24))
      else Inl (Assert_fail ''false''))"

section \<open>Utilities\<close>

definition ALIGN :: "u32 \<Rightarrow> u32 \<Rightarrow> u32" where
  "ALIGN x alignment = (x + (alignment - 1)) AND NOT (alignment - 1)"

definition IS_IMM_12 :: "int \<Rightarrow> bool" where
  "IS_IMM_12 x = (x \<le> 0x7FF \<and> -0x800 \<le> x)"

section \<open>The generator's state\<close>

record cg = ir +
  cg_func :: "vid option"
  cg_inst :: "vid option"
  frame_size :: u32
  offset_map :: "vid \<rightharpoonup> int"
  phi_temp_offset_map :: "vid \<rightharpoonup> int"
  next_phi_edge_id :: nat
  asm_out :: "asm_inst list"

definition context_clear :: "('z cg_scheme, unit) sm" where
  "context_clear = modifyM (\<lambda>s. s\<lparr>cg_func := None, cg_inst := None, frame_size := 0,
     offset_map := Map.empty, phi_temp_offset_map := Map.empty, next_phi_edge_id := 0\<rparr>)"

definition emit :: "inst_type \<Rightarrow> string \<Rightarrow> ('z cg_scheme, unit) sm" where
  "emit ty c = modifyM (\<lambda>s. s\<lparr>asm_out := asm_out s @ [\<lparr>asm_type = ty, content = c\<rparr>]\<rparr>)"

abbreviation append_inst :: "string \<Rightarrow> ('z cg_scheme, unit) sm" where
  "append_inst \<equiv> emit Asm_Instruction"

text \<open>The text of the overload with an argument list: every argument is followed by a
  comma and a space, and the last two characters are dropped.\<close>

definition inst_text :: "string \<Rightarrow> string list \<Rightarrow> string" where
  "inst_text inst args = butlast (butlast (inst @ '' '' @ concat (map (\<lambda>a. a @ '', '') args)))"

definition append_inst_args :: "string \<Rightarrow> string list \<Rightarrow> inst_type \<Rightarrow> ('z cg_scheme, unit) sm" where
  "append_inst_args inst args ty = emit ty (inst_text inst args)"

definition cur_func :: "('z cg_scheme, vid) sm" where
  "cur_func = bindM (getM cg_func) nonnull"

definition cur_inst :: "('z cg_scheme, vid) sm" where
  "cur_inst = bindM (getM cg_inst) nonnull"

definition inst_operand :: "vid \<Rightarrow> nat \<Rightarrow> ('z cg_scheme, vid) sm" where
  "inst_operand i k = readM (\<lambda>s. operand_of s i k)"

definition label_name :: "'z ir_scheme \<Rightarrow> vid \<Rightarrow> string res" where
  "label_name s bb =
     bindR (deref (bbs s) bb) (\<lambda>r. bindR (get_name s (bparent r)) (\<lambda>fn.
     bindR (get_name s bb) (\<lambda>bn. Inr (''.'' @ fn @ ''_'' @ bn))))"

definition exit_label_name :: "'z ir_scheme \<Rightarrow> vid \<Rightarrow> string res" where
  "exit_label_name s f = bindR (get_name s f) (\<lambda>fn. Inr (''.'' @ fn @ ''_exit''))"

section \<open>Frame layout\<close>

text \<open>\<open>-static_cast<int>(offset)\<close>.\<close>

definition neg_int :: "u32 \<Rightarrow> int" where
  "neg_int offset = - sint offset"

fun allocate_args :: "'z ir_scheme \<Rightarrow> vid list \<Rightarrow> u32 \<Rightarrow> (vid \<rightharpoonup> int) \<Rightarrow> (u32 \<times> (vid \<rightharpoonup> int)) res" where
  "allocate_args s [] offset m = Inr (offset, m)"
| "allocate_args s (a # as) offset m =
     bindR (type_of s a) (\<lambda>t. bindR (get_size t) (\<lambda>size.
     let offset' = ALIGN (offset + size) size in
     allocate_args s as offset' (m(a \<mapsto> neg_int offset'))))"

type_synonym layout = "u32 \<times> (vid \<rightharpoonup> int) \<times> (vid \<rightharpoonup> int)"

definition allocate_instr :: "'z ir_scheme \<Rightarrow> vid \<Rightarrow> layout \<Rightarrow> layout res" where
  "allocate_instr s i lay = (case lay of (offset, m, pm) \<Rightarrow>
     bindR (instr_op s i) (\<lambda>op. bindR (type_of s i) (\<lambda>t.
     bindR (if \<not> is_void_instr op t then
              bindR (get_size t) (\<lambda>size.
              let offset1 = ALIGN (offset + size) size;
                  m1 = m(i \<mapsto> neg_int offset1) in
              if op = O_phi then
                let offset2 = ALIGN (offset1 + size) size in
                Inr (offset2, m1, pm(i \<mapsto> neg_int offset2))
              else Inr (offset1, m1, pm))
            else Inr (offset, m, pm)) (\<lambda>(offset3, m3, pm3).
     if op = O_alloca then
       bindR (get_pointer_element_type t) (\<lambda>te. bindR (get_size te) (\<lambda>alloc_size.
       Inr (offset3 + alloc_size, m3, pm3)))
     else Inr (offset3, m3, pm3)))))"

fun allocate_instrs :: "'z ir_scheme \<Rightarrow> vid list \<Rightarrow> layout \<Rightarrow> layout res" where
  "allocate_instrs s [] lay = Inr lay"
| "allocate_instrs s (i # is) lay = bindR (allocate_instr s i lay) (allocate_instrs s is)"

fun allocate_blocks :: "'z ir_scheme \<Rightarrow> vid list \<Rightarrow> layout \<Rightarrow> layout res" where
  "allocate_blocks s [] lay = Inr lay"
| "allocate_blocks s (b # bs) lay =
     bindR (deref (bbs s) b) (\<lambda>r.
     bindR (allocate_instrs s (instr_list r) lay) (allocate_blocks s bs))"

definition frame_layout :: "'z ir_scheme \<Rightarrow> vid \<Rightarrow> layout res" where
  "frame_layout s f =
     bindR (deref (funcs s) f) (\<lambda>r.
     bindR (allocate_args s (arguments r) 16 Map.empty) (\<lambda>(offset, m).
     allocate_blocks s (basic_blocks r) (offset, m, Map.empty)))"

definition allocate :: "('z cg_scheme, unit) sm" where
  "allocate =
     bindM cur_func (\<lambda>f.
     bindM (readM (\<lambda>s. frame_layout s f)) (\<lambda>(offset, m, pm).
     modifyM (\<lambda>s. s\<lparr>offset_map := m, phi_temp_offset_map := pm, frame_size := ALIGN offset 16\<rparr>)))"

section \<open>Immediates\<close>

definition load_large_int32 :: "int \<Rightarrow> nat \<Rightarrow> ('z cg_scheme, unit) sm" where
  "load_large_int32 val reg =
     (let high_20 = drop_bit 12 val; low_12 = and val 0xFFF in
      bindM (liftR (Reg_print reg)) (\<lambda>r.
      thenM (append_inst_args ''lu12i.w'' [r, int_str high_20] Asm_Instruction)
            (append_inst_args ''ori'' [r, r, int_str low_12] Asm_Instruction)))"

definition load_int32 :: "int \<Rightarrow> nat \<Rightarrow> ('z cg_scheme, unit) sm" where
  "load_int32 val reg =
     (if IS_IMM_12 val then
        bindM (liftR (Reg_print reg)) (\<lambda>r.
        append_inst_args ''addi.w'' [r, ''$zero'', int_str val] Asm_Instruction)
      else load_large_int32 val reg)"

text \<open>The conversions to \<open>int32_t\<close> keep the low 32 bits as a signed number; so does the
  left shift of \<open>high_32\<close>.\<close>

definition load_large_int64 :: "int \<Rightarrow> nat \<Rightarrow> ('z cg_scheme, unit) sm" where
  "load_large_int64 val reg =
     (let low_32 = signed_take_bit 31 (and val 0xFFFFFFFF);
          high_32 = signed_take_bit 31 (drop_bit 32 val);
          high_32_low_20 = drop_bit 12 (signed_take_bit 31 (push_bit 12 high_32));
          high_32_high_12 = drop_bit 20 high_32 in
      thenM (load_large_int32 low_32 reg)
     (bindM (liftR (Reg_print reg)) (\<lambda>r.
      thenM (append_inst_args ''lu32i.d'' [r, int_str high_32_low_20] Asm_Instruction)
            (append_inst_args ''lu52i.d'' [r, r, int_str high_32_high_12] Asm_Instruction))))"

definition load_float_imm :: "f32 \<Rightarrow> nat \<Rightarrow> ('z cg_scheme, unit) sm" where
  "load_float_imm val reg =
     bindM (liftR (Reg_t 8)) (\<lambda>t8.
     thenM (load_large_int32 (sint val) t8)
    (bindM (liftR (FReg_print reg)) (\<lambda>r. bindM (liftR (Reg_print t8)) (\<lambda>t.
     append_inst_args ''movgr2fr.w'' [r, t] Asm_Instruction))))"

section \<open>Slots\<close>

text \<open>The address of a slot that is out of reach of an immediate goes to \<open>$t8\<close>.\<close>

definition far_address :: "int \<Rightarrow> ('z cg_scheme, string) sm" where
  "far_address offset =
     bindM (liftR (Reg_t 8)) (\<lambda>addr.
     thenM (load_large_int64 offset addr)
    (bindM (liftR (Reg_print addr)) (\<lambda>a.
     thenM (append_inst_args ''add.d'' [a, ''$fp'', a] Asm_Instruction) (returnM a))))"

definition load_suffix :: "ty \<Rightarrow> string res" where
  "load_suffix t = (if is_int1_type t then Inr ''.b'' else if is_int32_type t then Inr ''.w''
     else bindR (guardR (is_pointer_type t) (Assert_fail ''type->is_pointer_type()'')) (\<lambda>_. Inr ''.d''))"

definition load_slot_to_greg :: "ty \<Rightarrow> int \<Rightarrow> nat \<Rightarrow> ('z cg_scheme, unit) sm" where
  "load_slot_to_greg t offset reg =
     (if IS_IMM_12 offset then
        bindM (liftR (load_suffix t)) (\<lambda>sf. bindM (liftR (Reg_print reg)) (\<lambda>r.
        append_inst_args (''ld'' @ sf) [r, ''$fp'', int_str offset] Asm_Instruction))
      else
        bindM (far_address offset) (\<lambda>a.
        bindM (liftR (load_suffix t)) (\<lambda>sf. bindM (liftR (Reg_print reg)) (\<lambda>r.
        append_inst_args (''ld'' @ sf) [r, a, ''0''] Asm_Instruction))))"

definition load_from_stack_to_greg :: "vid \<Rightarrow> nat \<Rightarrow> ('z cg_scheme, unit) sm" where
  "load_from_stack_to_greg v reg =
     bindM (ty_of v) (\<lambda>t. bindM (readM (\<lambda>s. at_map (offset_map s) v)) (\<lambda>off.
     load_slot_to_greg t off reg))"

definition load_from_stack_to_freg :: "int \<Rightarrow> nat \<Rightarrow> ('z cg_scheme, unit) sm" where
  "load_from_stack_to_freg offset reg =
     (if IS_IMM_12 offset then
        bindM (liftR (FReg_print reg)) (\<lambda>r.
        append_inst_args ''fld.s'' [r, ''$fp'', int_str offset] Asm_Instruction)
      else
        bindM (far_address offset) (\<lambda>a. bindM (liftR (FReg_print reg)) (\<lambda>r.
        append_inst_args ''fld.s'' [r, a, ''0''] Asm_Instruction)))"

definition store_to_stack_from_greg :: "ty \<Rightarrow> int \<Rightarrow> nat \<Rightarrow> ('z cg_scheme, unit) sm" where
  "store_to_stack_from_greg t offset reg =
     (if IS_IMM_12 offset then
        bindM (liftR (load_suffix t)) (\<lambda>sf. bindM (liftR (Reg_print reg)) (\<lambda>r.
        append_inst_args (''st'' @ sf) [r, ''$fp'', int_str offset] Asm_Instruction))
      else
        bindM (far_address offset) (\<lambda>a.
        bindM (liftR (load_suffix t)) (\<lambda>sf. bindM (liftR (Reg_print reg)) (\<lambda>r.
        append_inst_args (''st'' @ sf) [r, a, ''0''] Asm_Instruction))))"

definition store_to_stack_from_freg :: "int \<Rightarrow> nat \<Rightarrow> ('z cg_scheme, unit) sm" where
  "store_to_stack_from_freg offset reg =
     (if IS_IMM_12 offset then
        bindM (liftR (FReg_print reg)) (\<lambda>r.
        append_inst_args ''fst.s'' [r, ''$fp'', int_str offset] Asm_Instruction)
      else
        bindM (far_address offset) (\<lambda>a. bindM (liftR (FReg_print reg)) (\<lambda>r.
        append_inst_args ''fst.s'' [r, a, ''0''] Asm_Instruction)))"

definition store_from_greg :: "vid \<Rightarrow> nat \<Rightarrow> ('z cg_scheme, unit) sm" where
  "store_from_greg v reg =
     bindM (ty_of v) (\<lambda>t. bindM (readM (\<lambda>s. at_map (offset_map s) v)) (\<lambda>off.
     store_to_stack_from_greg t off reg))"

definition store_from_freg :: "vid \<Rightarrow> nat \<Rightarrow> ('z cg_scheme, unit) sm" where
  "store_from_freg v reg =
     bindM (readM (\<lambda>s. at_map (offset_map s) v)) (\<lambda>off. store_to_stack_from_freg off reg)"

definition load_to_greg :: "vid \<Rightarrow> nat \<Rightarrow> ('z cg_scheme, unit) sm" where
  "load_to_greg v reg =
     bindM (readM (\<lambda>s. deref (vals s) v)) (\<lambda>r.
     thenM (guardM (is_integer_type (vty r) \<or> is_pointer_type (vty r)) (Assert_fail ''load_to_greg''))
    (case vkind r of
       K_undef \<Rightarrow> load_int32 0 reg
     | K_int n \<Rightarrow> load_int32 n reg
     | K_global _ _ \<Rightarrow>
         bindM (liftR (Reg_print reg)) (\<lambda>p.
         append_inst_args ''la.local'' [p, vname r] Asm_Instruction)
     | _ \<Rightarrow> load_from_stack_to_greg v reg))"

definition load_to_freg :: "vid \<Rightarrow> nat \<Rightarrow> ('z cg_scheme, unit) sm" where
  "load_to_freg v freg =
     bindM (readM (\<lambda>s. deref (vals s) v)) (\<lambda>r.
     thenM (guardM (is_float_type (vty r)) (Assert_fail ''val->get_type()->is_float_type()''))
    (case vkind r of
       K_undef \<Rightarrow> load_float_imm 0 freg
     | K_fp x \<Rightarrow> load_float_imm x freg
     | _ \<Rightarrow> bindM (readM (\<lambda>s. at_map (offset_map s) v)) (\<lambda>off. load_from_stack_to_freg off freg)))"

section \<open>Phi nodes on edges\<close>

type_synonym phi_copy = "vid \<times> vid"

text \<open>The scan of one phi's operand pairs from index \<open>i\<close>; a malformed operand list fails.\<close>

fun find_incoming :: "'z ir_scheme \<Rightarrow> vid \<Rightarrow> ty \<Rightarrow> vid \<Rightarrow> vid option list \<Rightarrow> vid option \<Rightarrow> vid option res" where
  "find_incoming s phi t pred (src # inc # ops) found =
     (if inc \<noteq> Some pred then find_incoming s phi t pred ops found
      else
        bindR (guardR (found = None) (Assert_fail ''Duplicate phi incoming block'')) (\<lambda>_.
        case src of
          None \<Rightarrow> Inl Null_deref
        | Some v \<Rightarrow>
            bindR (type_of s v) (\<lambda>tv.
            bindR (guardR (tv = t) (Assert_fail ''Phi incoming value has the wrong type'')) (\<lambda>_.
            find_incoming s phi t pred ops (Some v)))))"
| "find_incoming s phi t pred ops found = Inr found"

definition phi_copy_of :: "'z ir_scheme \<Rightarrow> vid \<Rightarrow> vid \<Rightarrow> phi_copy res" where
  "phi_copy_of s pred phi =
     bindR (deref (vals s) phi) (\<lambda>r.
     bindR (guardR (even (length (vops r))) (Assert_fail ''Malformed phi operands'')) (\<lambda>_.
     bindR (find_incoming s phi (vty r) pred (vops r) None) (\<lambda>found.
     case found of
       None \<Rightarrow> Inl (Assert_fail ''Missing phi value for CFG predecessor'')
     | Some v \<Rightarrow> Inr (v, phi))))"

fun collect_copies :: "'z ir_scheme \<Rightarrow> vid \<Rightarrow> vid list \<Rightarrow> phi_copy list res" where
  "collect_copies s pred [] = Inr []"
| "collect_copies s pred (i # is) =
     bindR (instr_op s i) (\<lambda>op.
     if op \<noteq> O_phi then Inr []
     else bindR (phi_copy_of s pred i) (\<lambda>c.
          bindR (collect_copies s pred is) (\<lambda>cs. Inr (c # cs))))"

definition collect_phi_copies :: "'z ir_scheme \<Rightarrow> vid \<Rightarrow> vid \<Rightarrow> phi_copy list res" where
  "collect_phi_copies s pred succ = bindR (deref (bbs s) succ) (\<lambda>r. collect_copies s pred (instr_list r))"

definition snapshot_copy :: "phi_copy \<Rightarrow> ('z cg_scheme, unit) sm" where
  "snapshot_copy c = (case c of (source, phi) \<Rightarrow>
     bindM (readM (\<lambda>s. at_map (phi_temp_offset_map s) phi)) (\<lambda>temp_offset.
     bindM (ty_of phi) (\<lambda>t.
     if is_float_type t then
       bindM (liftR (FReg_ft 0)) (\<lambda>f.
       thenM (load_to_freg source f) (store_to_stack_from_freg temp_offset f))
     else
       bindM (liftR (Reg_t 0)) (\<lambda>g.
       thenM (load_to_greg source g) (store_to_stack_from_greg t temp_offset g)))))"

definition commit_copy :: "phi_copy \<Rightarrow> ('z cg_scheme, unit) sm" where
  "commit_copy c = (case c of (source, phi) \<Rightarrow>
     bindM (readM (\<lambda>s. at_map (phi_temp_offset_map s) phi)) (\<lambda>temp_offset.
     bindM (readM (\<lambda>s. at_map (offset_map s) phi)) (\<lambda>destination_offset.
     bindM (ty_of phi) (\<lambda>t.
     if is_float_type t then
       bindM (liftR (FReg_ft 0)) (\<lambda>f.
       thenM (load_from_stack_to_freg temp_offset f) (store_to_stack_from_freg destination_offset f))
     else
       bindM (liftR (Reg_t 0)) (\<lambda>g.
       thenM (load_slot_to_greg t temp_offset g) (store_to_stack_from_greg t destination_offset g))))))"

definition emit_parallel_phi_copies :: "vid \<Rightarrow> vid \<Rightarrow> ('z cg_scheme, unit) sm" where
  "emit_parallel_phi_copies pred succ =
     bindM (readM (\<lambda>s. collect_phi_copies s pred succ)) (\<lambda>copies.
     thenM (forM copies snapshot_copy) (forM copies commit_copy))"

section \<open>Functions\<close>

fun move_args :: "nat \<Rightarrow> nat \<Rightarrow> vid list \<Rightarrow> ('z cg_scheme, unit) sm" where
  "move_args garg_cnt farg_cnt [] = returnM ()"
| "move_args garg_cnt farg_cnt (a # as) =
     bindM (ty_of a) (\<lambda>t.
     if is_float_type t then
       bindM (liftR (FReg_fa farg_cnt)) (\<lambda>f.
       thenM (store_from_freg a f) (move_args garg_cnt (Suc farg_cnt) as))
     else
       bindM (liftR (Reg_a garg_cnt)) (\<lambda>g.
       thenM (store_from_greg a g) (move_args (Suc garg_cnt) farg_cnt as)))"

definition gen_prologue :: "('z cg_scheme, unit) sm" where
  "gen_prologue =
     thenM (append_inst ''st.d $ra, $sp, -8'')
    (thenM (append_inst ''st.d $fp, $sp, -16'')
    (thenM (append_inst ''addi.d $fp, $sp, 0'')
    (bindM (getM frame_size) (\<lambda>fs.
     thenM (if IS_IMM_12 (neg_int fs) then
              append_inst (''addi.d $sp, $sp, '' @ int_str (neg_int fs))
            else
              bindM (liftR (Reg_t 0)) (\<lambda>t0.
              thenM (load_large_int64 (uint fs) t0) (append_inst ''sub.d $sp, $sp, $t0'')))
    (bindM cur_func (\<lambda>f.
     bindM (readM (\<lambda>s. deref (funcs s) f)) (\<lambda>r. move_args 0 0 (arguments r))))))))"

definition gen_epilogue :: "('z cg_scheme, unit) sm" where
  "gen_epilogue =
     bindM cur_func (\<lambda>f.
     bindM (readM (\<lambda>s. exit_label_name s f)) (\<lambda>l.
     thenM (emit Asm_Label l)
    (thenM (append_inst ''addi.d $sp, $fp, 0'')
    (thenM (append_inst ''ld.d $ra, $sp, -8'')
    (thenM (append_inst ''ld.d $fp, $sp, -16'')
           (append_inst ''jr $ra''))))))"

definition branch_to_exit :: "('z cg_scheme, unit) sm" where
  "branch_to_exit =
     bindM cur_func (\<lambda>f. bindM (readM (\<lambda>s. exit_label_name s f)) (\<lambda>l. append_inst (''b '' @ l)))"

definition num_operand :: "'z ir_scheme \<Rightarrow> vid \<Rightarrow> nat res" where
  "num_operand s i = bindR (deref (vals s) i) (\<lambda>r. Inr (length (vops r)))"

definition gen_ret :: "('z cg_scheme, unit) sm" where
  "gen_ret =
     bindM cur_inst (\<lambda>i. bindM (readM (\<lambda>s. num_operand s i)) (\<lambda>n.
     if n = 0 then
       bindM (liftR (Reg_a 0)) (\<lambda>a0. thenM (load_int32 0 a0) branch_to_exit)
     else
       bindM (inst_operand i 0) (\<lambda>v. bindM (ty_of v) (\<lambda>t.
       thenM (if is_float_type t then bindM (liftR (FReg_fa 0)) (load_to_freg v)
              else bindM (liftR (Reg_a 0)) (load_to_greg v))
         branch_to_exit))))"

definition branch_to :: "vid \<Rightarrow> ('z cg_scheme, unit) sm" where
  "branch_to bb = bindM (readM (\<lambda>s. label_name s bb)) (\<lambda>l. append_inst (''b '' @ l))"

definition new_edge_label :: "('z cg_scheme, string) sm" where
  "new_edge_label =
     bindM cur_func (\<lambda>f. bindM (readM (\<lambda>s. get_name s f)) (\<lambda>fn.
     bindM (getM next_phi_edge_id) (\<lambda>n.
     thenM (modifyM (\<lambda>s. s\<lparr>next_phi_edge_id := Suc n\<rparr>))
           (returnM (''.'' @ fn @ ''_phi_edge_'' @ nat_str n)))))"

definition gen_br :: "('z cg_scheme, unit) sm" where
  "gen_br =
     bindM cur_inst (\<lambda>i. bindM (readM (\<lambda>s. instr_parent s i)) (\<lambda>p. bindM (nonnull p) (\<lambda>pred.
     bindM (readM (\<lambda>s. num_operand s i)) (\<lambda>n.
     if n \<noteq> 3 then
       bindM (inst_operand i 0) (\<lambda>succ.
       thenM (emit_parallel_phi_copies pred succ) (branch_to succ))
     else
       bindM (liftR (Reg_t 0)) (\<lambda>t0. bindM (inst_operand i 0) (\<lambda>c.
       thenM (load_to_greg c t0)
      (bindM (inst_operand i 1) (\<lambda>true_bb. bindM (inst_operand i 2) (\<lambda>false_bb.
       bindM new_edge_label (\<lambda>true_edge_label.
       thenM (append_inst (''bnez $t0, '' @ true_edge_label))
      (thenM (emit_parallel_phi_copies pred false_bb)
      (thenM (branch_to false_bb)
      (thenM (emit Asm_Label true_edge_label)
      (thenM (emit_parallel_phi_copies pred true_bb)
             (branch_to true_bb)))))))))))))))"

section \<open>Instructions\<close>

text \<open>Operand loads: \<open>load_operand k g\<close> is \<open>load_to_greg(context.inst->get_operand(k), g)\<close>.\<close>

definition load_operand :: "nat \<Rightarrow> nat res \<Rightarrow> ('z cg_scheme, unit) sm" where
  "load_operand k reg =
     bindM cur_inst (\<lambda>i. bindM (inst_operand i k) (\<lambda>v. bindM (liftR reg) (load_to_greg v)))"

definition load_foperand :: "nat \<Rightarrow> nat res \<Rightarrow> ('z cg_scheme, unit) sm" where
  "load_foperand k freg =
     bindM cur_inst (\<lambda>i. bindM (inst_operand i k) (\<lambda>v. bindM (liftR freg) (load_to_freg v)))"

definition store_result :: "nat res \<Rightarrow> ('z cg_scheme, unit) sm" where
  "store_result reg = bindM cur_inst (\<lambda>i. bindM (liftR reg) (store_from_greg i))"

definition store_fresult :: "nat res \<Rightarrow> ('z cg_scheme, unit) sm" where
  "store_fresult freg = bindM cur_inst (\<lambda>i. bindM (liftR freg) (store_from_freg i))"

definition inst_op :: "('z cg_scheme, opid) sm" where
  "inst_op = bindM cur_inst (\<lambda>i. readM (\<lambda>s. instr_op s i))"

fun binary_text :: "opid \<Rightarrow> string res" where
  "binary_text O_add = Inr ''add.w $t2, $t0, $t1''"
| "binary_text O_sub = Inr ''sub.w $t2, $t0, $t1''"
| "binary_text O_mul = Inr ''mul.w $t2, $t0, $t1''"
| "binary_text O_sdiv = Inr ''div.w $t2, $t0, $t1''"
| "binary_text _ = Inl (Assert_fail ''false'')"

definition gen_binary :: "('z cg_scheme, unit) sm" where
  "gen_binary =
     thenM (load_operand 0 (Reg_t 0))
    (thenM (load_operand 1 (Reg_t 1))
    (bindM inst_op (\<lambda>op. bindM (liftR (binary_text op)) (\<lambda>x.
     thenM (append_inst x) (store_result (Reg_t 2))))))"

fun float_binary_text :: "opid \<Rightarrow> string res" where
  "float_binary_text O_fadd = Inr ''fadd.s $ft2, $ft0, $ft1''"
| "float_binary_text O_fsub = Inr ''fsub.s $ft2, $ft0, $ft1''"
| "float_binary_text O_fmul = Inr ''fmul.s $ft2, $ft0, $ft1''"
| "float_binary_text O_fdiv = Inr ''fdiv.s $ft2, $ft0, $ft1''"
| "float_binary_text _ = Inl (Assert_fail ''false'')"

definition gen_float_binary :: "('z cg_scheme, unit) sm" where
  "gen_float_binary =
     thenM (load_foperand 0 (FReg_ft 0))
    (thenM (load_foperand 1 (FReg_ft 1))
    (bindM inst_op (\<lambda>op. bindM (liftR (float_binary_text op)) (\<lambda>x.
     thenM (append_inst x) (store_fresult (FReg_ft 2))))))"

text \<open>\<open>offset -= alloc_size\<close> mixes \<open>int\<close> and \<open>unsigned\<close>: the subtraction wraps and the
  result is read back as an \<open>int\<close>.\<close>

definition gen_alloca :: "('z cg_scheme, unit) sm" where
  "gen_alloca =
     bindM cur_inst (\<lambda>i. bindM (ty_of i) (\<lambda>t.
     bindM (liftR (get_pointer_element_type t)) (\<lambda>te. bindM (liftR (get_size te)) (\<lambda>alloc_size.
     bindM (readM (\<lambda>s. at_map (offset_map s) i)) (\<lambda>off.
     let offset = sint (word_of_int off - alloc_size) in
     thenM (if IS_IMM_12 offset then append_inst (''addi.d $t0, $fp, '' @ int_str offset)
            else bindM (liftR (Reg_t 0)) (\<lambda>t0.
                 thenM (load_large_int64 offset t0) (append_inst ''add.d $t0, $fp, $t0'')))
           (bindM (liftR (Reg_t 0)) (store_from_greg i)))))))"

definition gen_load :: "('z cg_scheme, unit) sm" where
  "gen_load =
     thenM (load_operand 0 (Reg_t 0))
    (bindM cur_inst (\<lambda>i. bindM (ty_of i) (\<lambda>t.
     if is_float_type t then
       thenM (append_inst ''fld.s $ft0, $t0, 0'') (store_fresult (FReg_ft 0))
     else
       thenM (if is_int1_type t then append_inst ''ld.b $t1, $t0, 0''
              else if is_int32_type t then append_inst ''ld.w $t1, $t0, 0''
              else if is_pointer_type t then append_inst ''ld.d $t1, $t0, 0''
              else failM (Assert_fail ''Unsupported type in gen_load''))
             (store_result (Reg_t 1)))))"

definition gen_store :: "('z cg_scheme, unit) sm" where
  "gen_store =
     bindM cur_inst (\<lambda>i. bindM (inst_operand i 0) (\<lambda>v. bindM (ty_of v) (\<lambda>valType.
     thenM (load_operand 1 (Reg_t 0))
    (if is_float_type valType then
       thenM (load_foperand 0 (FReg_ft 0)) (append_inst ''fst.s $ft0, $t0, 0'')
     else
       thenM (load_operand 0 (Reg_t 1))
      (if is_int1_type valType then append_inst ''st.b $t1, $t0, 0''
       else if is_int32_type valType then append_inst ''st.w $t1, $t0, 0''
       else if is_pointer_type valType then append_inst ''st.d $t1, $t0, 0''
       else failM (Assert_fail ''Unsupported type in gen_load''))))))"

fun icmp_text :: "opid \<Rightarrow> string list res" where
  "icmp_text O_eq = Inr [''xor $t0, $t0, $t1'', ''sltui $t0, $t0, 1'']"
| "icmp_text O_ne = Inr [''xor $t0, $t0, $t1'', ''sltu $t0, $zero, $t0'']"
| "icmp_text O_lt = Inr [''slt $t0, $t0, $t1'']"
| "icmp_text O_gt = Inr [''slt $t0, $t1, $t0'']"
| "icmp_text O_le = Inr [''slt $t0, $t1, $t0'', ''sltui $t0, $t0, 1'']"
| "icmp_text O_ge = Inr [''slt $t0, $t0, $t1'', ''sltui $t0, $t0, 1'']"
| "icmp_text _ = Inl (Assert_fail ''false'')"

definition gen_icmp :: "('z cg_scheme, unit) sm" where
  "gen_icmp =
     thenM (load_operand 0 (Reg_t 0))
    (thenM (load_operand 1 (Reg_t 1))
    (bindM inst_op (\<lambda>op. bindM (liftR (icmp_text op)) (\<lambda>xs.
     thenM (forM xs append_inst) (store_result (Reg_t 0))))))"

fun fcmp_text :: "opid \<Rightarrow> string res" where
  "fcmp_text O_feq = Inr ''fcmp.seq.s $fcc0, $ft0, $ft1''"
| "fcmp_text O_fne = Inr ''fcmp.sne.s $fcc0, $ft0, $ft1''"
| "fcmp_text O_flt = Inr ''fcmp.slt.s $fcc0, $ft0, $ft1''"
| "fcmp_text O_fgt = Inr ''fcmp.slt.s $fcc0, $ft1, $ft0''"
| "fcmp_text O_fle = Inr ''fcmp.sle.s $fcc0, $ft0, $ft1''"
| "fcmp_text O_fge = Inr ''fcmp.sle.s $fcc0, $ft1, $ft0''"
| "fcmp_text _ = Inl (Assert_fail ''false'')"

definition gen_fcmp :: "('z cg_scheme, unit) sm" where
  "gen_fcmp =
     thenM (load_foperand 0 (FReg_ft 0))
    (thenM (load_foperand 1 (FReg_ft 1))
    (bindM inst_op (\<lambda>op. bindM (liftR (fcmp_text op)) (\<lambda>x.
     thenM (append_inst x)
    (thenM (append_inst ''movcf2gr $t0, $fcc0'') (store_result (Reg_t 0)))))))"

definition gen_zext :: "('z cg_scheme, unit) sm" where
  "gen_zext =
     thenM (load_operand 0 (Reg_t 0))
    (thenM (append_inst ''bstrpick.w $t0, $t0, 0, 0'') (store_result (Reg_t 0)))"

text \<open>\<open>ops\<close> are the operands from index 1 on.\<close>

fun pass_args :: "nat \<Rightarrow> nat \<Rightarrow> vid option list \<Rightarrow> ('z cg_scheme, unit) sm" where
  "pass_args garg_cnt farg_cnt [] = returnM ()"
| "pass_args garg_cnt farg_cnt (a # as) =
     bindM (nonnull a) (\<lambda>v. bindM (ty_of v) (\<lambda>t.
     if is_float_type t then
       thenM (guardM (farg_cnt < 8) (Assert_fail ''More than 8 floating-point call arguments''))
      (bindM (liftR (FReg_fa farg_cnt)) (\<lambda>f.
       thenM (load_to_freg v f) (pass_args garg_cnt (Suc farg_cnt) as)))
     else
       thenM (guardM (garg_cnt < 8) (Assert_fail ''More than 8 general-purpose call arguments''))
      (bindM (liftR (Reg_a garg_cnt)) (\<lambda>g.
       thenM (load_to_greg v g) (pass_args (Suc garg_cnt) farg_cnt as)))))"

definition gen_call :: "('z cg_scheme, unit) sm" where
  "gen_call =
     bindM cur_inst (\<lambda>call. bindM (inst_operand call 0) (\<lambda>callee.
     bindM (readM (\<lambda>s. deref (vals s) call)) (\<lambda>r.
     thenM (pass_args 0 0 (tl (vops r)))
    (bindM (readM (\<lambda>s. get_name s callee)) (\<lambda>fn.
     thenM (append_inst (''bl '' @ fn))
    (if is_float_type (vty r) then bindM (liftR (FReg_fa 0)) (store_from_freg call)
     else if \<not> is_void_type (vty r) then bindM (liftR (Reg_a 0)) (store_from_greg call)
     else returnM ()))))))"

text \<open>One index: \<open>first\<close> holds for the index that steps over whole objects. The size, an
  \<open>unsigned\<close>, becomes an \<open>int32_t\<close> argument.\<close>

fun gep_indices :: "bool \<Rightarrow> ty \<Rightarrow> vid option list \<Rightarrow> ('z cg_scheme, unit) sm" where
  "gep_indices first indexed_type [] = returnM ()"
| "gep_indices first indexed_type (ix # ixs) =
     bindM (nonnull ix) (\<lambda>index.
     thenM (guardM (first \<or> is_array_type indexed_type) (Assert_fail ''indexed_type->is_array_type()''))
    (bindM (liftR (if first then Inr indexed_type else get_array_element_type indexed_type)) (\<lambda>t.
     bindM (liftR (Reg_t 1)) (\<lambda>t1. thenM (load_to_greg index t1)
    (bindM (liftR (get_size t)) (\<lambda>size. bindM (liftR (Reg_t 2)) (\<lambda>t2.
     thenM (load_int32 (sint size) t2)
    (thenM (append_inst ''mul.d $t1, $t1, $t2'')
    (thenM (append_inst ''add.d $t0, $t0, $t1'')
           (gep_indices False t ixs))))))))))"

definition gen_gep :: "('z cg_scheme, unit) sm" where
  "gen_gep =
     bindM cur_inst (\<lambda>gep. bindM (inst_operand gep 0) (\<lambda>ptr.
     thenM (load_operand 0 (Reg_t 0))
    (bindM (ty_of ptr) (\<lambda>t.
     thenM (guardM (is_pointer_type t) (Assert_fail ''ptr->get_type()->is_pointer_type()''))
    (bindM (liftR (get_pointer_element_type t)) (\<lambda>indexed_type.
     bindM (readM (\<lambda>s. deref (vals s) gep)) (\<lambda>r.
     thenM (gep_indices True indexed_type (tl (vops r))) (store_result (Reg_t 0)))))))))"

definition gen_sitofp :: "('z cg_scheme, unit) sm" where
  "gen_sitofp =
     thenM (load_operand 0 (Reg_t 0))
    (thenM (append_inst ''movgr2fr.w $ft0, $t0'')
    (thenM (append_inst ''ffint.s.w $ft1, $ft0'') (store_fresult (FReg_ft 1))))"

definition gen_fptosi :: "('z cg_scheme, unit) sm" where
  "gen_fptosi =
     thenM (load_foperand 0 (FReg_ft 0))
    (thenM (append_inst ''ftintrz.w.s $ft1, $ft0'')
    (thenM (append_inst ''movfr2gr.s $t0, $ft1'') (store_result (Reg_t 0))))"

section \<open>The whole module\<close>

definition gen_inst :: "('z cg_scheme, unit) sm" where
  "gen_inst = bindM inst_op (\<lambda>op. case op of
       O_ret \<Rightarrow> gen_ret | O_br \<Rightarrow> gen_br
     | O_add \<Rightarrow> gen_binary | O_sub \<Rightarrow> gen_binary | O_mul \<Rightarrow> gen_binary | O_sdiv \<Rightarrow> gen_binary
     | O_fadd \<Rightarrow> gen_float_binary | O_fsub \<Rightarrow> gen_float_binary
     | O_fmul \<Rightarrow> gen_float_binary | O_fdiv \<Rightarrow> gen_float_binary
     | O_alloca \<Rightarrow> gen_alloca | O_load \<Rightarrow> gen_load | O_store \<Rightarrow> gen_store
     | O_ge \<Rightarrow> gen_icmp | O_gt \<Rightarrow> gen_icmp | O_le \<Rightarrow> gen_icmp
     | O_lt \<Rightarrow> gen_icmp | O_eq \<Rightarrow> gen_icmp | O_ne \<Rightarrow> gen_icmp
     | O_fge \<Rightarrow> gen_fcmp | O_fgt \<Rightarrow> gen_fcmp | O_fle \<Rightarrow> gen_fcmp
     | O_flt \<Rightarrow> gen_fcmp | O_feq \<Rightarrow> gen_fcmp | O_fne \<Rightarrow> gen_fcmp
     | O_phi \<Rightarrow> returnM () | O_call \<Rightarrow> gen_call | O_getelementptr \<Rightarrow> gen_gep
     | O_zext \<Rightarrow> gen_zext | O_fptosi \<Rightarrow> gen_fptosi | O_sitofp \<Rightarrow> gen_sitofp)"

definition run_instr :: "vid \<Rightarrow> ('z cg_scheme, unit) sm" where
  "run_instr i =
     bindM (readM (\<lambda>s. Instruction_print s i)) (\<lambda>txt.
     thenM (emit Asm_Comment txt)
    (thenM (modifyM (\<lambda>s. s\<lparr>cg_inst := Some i\<rparr>)) gen_inst))"

definition run_block :: "vid \<Rightarrow> ('z cg_scheme, unit) sm" where
  "run_block bb =
     bindM (readM (\<lambda>s. label_name s bb)) (\<lambda>l.
     thenM (emit Asm_Label l)
    (bindM (readM (\<lambda>s. deref (bbs s) bb)) (\<lambda>r. forM (instr_list r) run_instr)))"

definition run_func :: "vid \<Rightarrow> ('z cg_scheme, unit) sm" where
  "run_func f =
     bindM (readM (\<lambda>s. is_declaration s f)) (\<lambda>d.
     if d then returnM () else
     thenM context_clear
    (thenM (modifyM (\<lambda>s. s\<lparr>cg_func := Some f\<rparr>))
    (bindM (readM (\<lambda>s. get_name s f)) (\<lambda>fn.
     thenM (append_inst_args ''.globl'' [fn] Asm_Attribute)
    (thenM (append_inst_args ''.type'' [fn, ''@function''] Asm_Attribute)
    (thenM (emit Asm_Label fn)
    (thenM allocate
    (thenM gen_prologue
    (bindM (readM (\<lambda>s. deref (funcs s) f)) (\<lambda>r.
     thenM (forM (basic_blocks r) run_block) gen_epilogue))))))))))"

definition run_global :: "vid \<Rightarrow> ('z cg_scheme, unit) sm" where
  "run_global g =
     bindM (ty_of g) (\<lambda>t. bindM (liftR (get_pointer_element_type t)) (\<lambda>te.
     bindM (liftR (get_size te)) (\<lambda>size. bindM (readM (\<lambda>s. get_name s g)) (\<lambda>nm.
     thenM (append_inst_args ''.globl'' [nm] Asm_Attribute)
    (thenM (append_inst_args ''.type'' [nm, ''@object''] Asm_Attribute)
    (thenM (append_inst_args ''.size'' [nm, nat_str (unat size)] Asm_Attribute)
    (thenM (emit Asm_Label nm)
           (append_inst_args ''.space'' [nat_str (unat size)] Asm_Attribute))))))))"

definition run :: "('z cg_scheme, unit) sm" where
  "run =
     thenM set_print_name
    (bindM (getM global_list) (\<lambda>gs.
     thenM (if gs \<noteq> [] then
              thenM (emit Asm_Comment ''Global variables'')
             (thenM (emit Asm_Attribute ''.text'')
             (thenM (append_inst_args ''.section'' [''.bss'', [CHR 0x22] @ ''aw'' @ [CHR 0x22], ''@nobits''] Asm_Attribute)
                    (forM gs run_global)))
            else returnM ())
    (thenM (emit Asm_Attribute ''.text'')
    (bindM (getM function_list) (\<lambda>fs. forM fs run_func)))))"

definition asm_print :: "asm_inst list \<Rightarrow> string" where
  "asm_print out = concat (map asm_format out)"

text \<open>A generator for a module without functions, used by the examples.\<close>

definition demo_cg :: cg where
  "demo_cg = \<lparr>vals = vals demo_ir, bbs = bbs demo_ir, funcs = funcs demo_ir, next_id = next_id demo_ir,
     function_list = [], global_list = [], cached_int = Map.empty, cached_bool = Map.empty,
     cached_float = [], cached_zero = Map.empty, cached_undef = Map.empty,
     cg_func = None, cg_inst = None, frame_size = 0, offset_map = Map.empty,
     phi_temp_offset_map = Map.empty, next_phi_edge_id = 0, asm_out = []\<rparr>"

end
