(* ===== verification/Immediates.thy ===== *)
theory Immediates
  imports CodeGen
begin

text \<open>
  Loading constants (\<open>CodeGen::load_int32\<close>, \<open>load_large_int32\<close>, \<open>load_large_int64\<close>).
  What the generator relies on is the meaning of five LoongArch instructions; it is the
  interface \<open>immediate_isa\<close>, a machine that executes one line of assembly text on the
  general registers. The lemmas of the locale show that the emitted lines put the
  constant into the register and that every immediate fits its field; the interface is
  instantiated by \<open>la_exec\<close>, which decodes the text.
\<close>

unbundle bit_operations_syntax

type_synonym regs = "string \<Rightarrow> 64 word"

definition exec_lines :: "(string \<Rightarrow> regs \<Rightarrow> regs) \<Rightarrow> asm_inst list \<Rightarrow> regs \<Rightarrow> regs" where
  "exec_lines exec ls R = fold (\<lambda>l. exec (content l)) ls R"

locale immediate_isa =
  fixes exec :: "string \<Rightarrow> regs \<Rightarrow> regs"
  assumes addi_w: "Reg_print g = Inr r \<Longrightarrow> g \<noteq> 0 \<Longrightarrow> - 2048 \<le> k \<Longrightarrow> k < 2048 \<Longrightarrow>
      exec (inst_text ''addi.w'' [r, ''$zero'', int_str k]) R = R(r := word_of_int k)"
    and lu12i_w: "Reg_print g = Inr r \<Longrightarrow> g \<noteq> 0 \<Longrightarrow> - (2 ^ 19) \<le> k \<Longrightarrow> k < 2 ^ 19 \<Longrightarrow>
      exec (inst_text ''lu12i.w'' [r, int_str k]) R = R(r := word_of_int (push_bit 12 k))"
    and ori: "Reg_print g = Inr r \<Longrightarrow> g \<noteq> 0 \<Longrightarrow> 0 \<le> k \<Longrightarrow> k < 4096 \<Longrightarrow>
      exec (inst_text ''ori'' [r, r, int_str k]) R = R(r := R r OR word_of_int k)"
    and lu32i_d: "Reg_print g = Inr r \<Longrightarrow> g \<noteq> 0 \<Longrightarrow> - (2 ^ 19) \<le> k \<Longrightarrow> k < 2 ^ 19 \<Longrightarrow>
      exec (inst_text ''lu32i.d'' [r, int_str k]) R =
        R(r := take_bit 32 (R r) OR push_bit 32 (word_of_int k))"
    and lu52i_d: "Reg_print g = Inr r \<Longrightarrow> g \<noteq> 0 \<Longrightarrow> - 2048 \<le> k \<Longrightarrow> k < 2048 \<Longrightarrow>
      exec (inst_text ''lu52i.d'' [r, r, int_str k]) R =
        R(r := take_bit 52 (R r) OR push_bit 52 (word_of_int k))"

section \<open>Bits\<close>

lemma or_push_drop_take: "push_bit n (drop_bit n x) OR take_bit n x = (x :: int)"
  by (rule bit_eqI) (auto simp: bit_simps)

lemma drop_signed: "m \<le> n \<Longrightarrow> drop_bit m (signed_take_bit n x) = signed_take_bit (n - m) (drop_bit m (x :: int))"
  by (rule bit_eqI) (auto simp: bit_simps min_def)

lemma drop_signed_bounds:
  fixes x :: int
  assumes "m \<le> n"
  shows "- (2 ^ (n - m)) \<le> drop_bit m (signed_take_bit n x)"
    and "drop_bit m (signed_take_bit n x) < 2 ^ (n - m)"
  by (simp_all add: drop_signed [OF assms] signed_take_bit_int_greater_eq_minus_exp
      signed_take_bit_int_less_exp)

lemma int32_in_range: "- (2 ^ 31) \<le> (x :: int) \<Longrightarrow> x < 2 ^ 31 \<Longrightarrow> signed_take_bit 31 x = x"
  by (simp add: signed_take_bit_int_eq_self)

lemma low_12: "0 \<le> x AND 0xFFF" "x AND 0xFFF < 4096" "x AND 0xFFF = take_bit 12 (x :: int)"
proof -
  have "(0xFFF :: int) = mask 12" by (simp add: mask_eq_exp_minus_1)
  then show e: "x AND 0xFFF = take_bit 12 x" by (simp add: take_bit_eq_mask)
  show "0 \<le> x AND 0xFFF" "x AND 0xFFF < 4096"
    unfolding e using take_bit_int_less_exp [of 12 x] by simp_all
qed

lemma low_32: "x AND 0xFFFFFFFF = take_bit 32 (x :: int)"
proof -
  have "(0xFFFFFFFF :: int) = mask 32" by (simp add: mask_eq_exp_minus_1)
  then show ?thesis by (simp add: take_bit_eq_mask)
qed

text \<open>The four immediates of \<open>load_large_int64\<close> put together.\<close>

lemma low_bits: "n < 32 \<Longrightarrow> bit (signed_take_bit 31 (take_bit 32 v)) n = bit (v :: int) n"
  by (cases "n = 31") (auto simp: bit_simps min_def)

lemma mid_bits: "n < 20 \<Longrightarrow>
    bit (drop_bit 12 (signed_take_bit 31 (push_bit 12 (signed_take_bit 31 (drop_bit 32 v))))) n
      = bit (v :: int) (32 + n)"
  by (cases "n = 19") (auto simp: bit_simps min_def)

lemma top_bits: "n < 12 \<Longrightarrow>
    bit (drop_bit 20 (signed_take_bit 31 (drop_bit 32 v))) n = bit (v :: int) (52 + n)"
  by (cases "n = 11") (auto simp: bit_simps min_def)

lemma assemble_int64:
  defines "high \<equiv> \<lambda>v :: int. signed_take_bit 31 (drop_bit 32 v)"
  shows "(take_bit 52 (take_bit 32 (word_of_int (signed_take_bit 31 (take_bit 32 v)) :: 64 word) OR
           push_bit 32 (word_of_int (drop_bit 12 (signed_take_bit 31 (push_bit 12 (high v)))))) OR
          push_bit 52 (word_of_int (drop_bit 20 (high v))) :: 64 word) = word_of_int v"
proof (rule bit_word_eqI)
  fix n assume "n < LENGTH(64)"
  then consider "n < 32" | m where "m < 20" "n = 32 + m" | m where "m < 12" "n = 52 + m"
  proof -
    assume d: "n < LENGTH(64)" "n < 32 \<Longrightarrow> thesis" "\<And>m. m < 20 \<Longrightarrow> n = 32 + m \<Longrightarrow> thesis"
      "\<And>m. m < 12 \<Longrightarrow> n = 52 + m \<Longrightarrow> thesis"
    show thesis using d(1,2) d(3) [of "n - 32"] d(4) [of "n - 52"] by auto linarith+
  qed
  then show "bit (take_bit 52 (take_bit 32 (word_of_int (signed_take_bit 31 (take_bit 32 v))) OR
           push_bit 32 (word_of_int (drop_bit 12 (signed_take_bit 31 (push_bit 12 (high v)))))) OR
          push_bit 52 (word_of_int (drop_bit 20 (high v))) :: 64 word) n
      = bit (word_of_int v :: 64 word) n"
    unfolding high_def
    by cases (simp_all add: bit_or_iff bit_take_bit_iff bit_push_bit_iff bit_word_of_int_iff
        low_bits mid_bits top_bits)
qed

section \<open>The emitted lines\<close>

abbreviation line :: "string \<Rightarrow> asm_inst" where
  "line c \<equiv> \<lparr>asm_type = Asm_Instruction, content = c\<rparr>"

definition large_int32_lines :: "string \<Rightarrow> int \<Rightarrow> asm_inst list" where
  "large_int32_lines r v =
     [line (inst_text ''lu12i.w'' [r, int_str (drop_bit 12 v)]),
      line (inst_text ''ori'' [r, r, int_str (v AND 0xFFF)])]"

lemma append_inst_args_run:
  "append_inst_args m args ty s = Inr ((), s\<lparr>asm_out := asm_out s @ [\<lparr>asm_type = ty, content = inst_text m args\<rparr>]\<rparr>)"
  by (simp add: append_inst_args_def emit_def modifyM_def)

lemma load_large_int32_run:
  "Reg_print g = Inr r \<Longrightarrow>
   load_large_int32 v g s = Inr ((), s\<lparr>asm_out := asm_out s @ large_int32_lines r v\<rparr>)"
  by (simp add: load_large_int32_def large_int32_lines_def liftR_def sm_defs append_inst_args_run)

lemma load_large_int64_run:
  assumes "Reg_print g = Inr r"
  shows "load_large_int64 v g s = Inr ((), s\<lparr>asm_out := asm_out s @
     (large_int32_lines r (signed_take_bit 31 (v AND 0xFFFFFFFF)) @
      [line (inst_text ''lu32i.d'' [r, int_str (drop_bit 12 (signed_take_bit 31 (push_bit 12
          (signed_take_bit 31 (drop_bit 32 v)))))]),
       line (inst_text ''lu52i.d'' [r, r, int_str (drop_bit 20 (signed_take_bit 31 (drop_bit 32 v)))])])\<rparr>)"
  using assms
  by (simp add: load_large_int64_def Let_def liftR_def sm_defs load_large_int32_run append_inst_args_run)

lemma load_int32_run:
  assumes "Reg_print g = Inr r"
  shows "load_int32 v g s = Inr ((), s\<lparr>asm_out := asm_out s @
     (if IS_IMM_12 v then [line (inst_text ''addi.w'' [r, ''$zero'', int_str v])]
      else large_int32_lines r v)\<rparr>)"
  using assms
  by (simp add: load_int32_def liftR_def sm_defs load_large_int32_run append_inst_args_run)

context immediate_isa
begin

lemma large_int32_lines_exec:
  assumes r: "Reg_print g = Inr r" "g \<noteq> 0" and v: "- (2 ^ 31) \<le> v" "v < 2 ^ 31"
  shows "exec_lines exec (large_int32_lines r v) R = R(r := word_of_int v)"
proof -
  have k: "- (2 ^ 19) \<le> drop_bit 12 v" "drop_bit 12 v < 2 ^ 19"
    using drop_signed_bounds [of 12 31 v] int32_in_range [OF v] by simp_all
  have "word_of_int (push_bit 12 (drop_bit 12 v)) OR word_of_int (v AND 0xFFF) = (word_of_int v :: 64 word)"
    by (metis low_12(3) of_int_or_eq or_push_drop_take)
  then show ?thesis
    by (simp add: exec_lines_def large_int32_lines_def lu12i_w [OF r k] ori [OF r low_12(1,2)])
qed

lemma load_int32_exec:
  assumes r: "Reg_print g = Inr r" "g \<noteq> 0" and v: "- (2 ^ 31) \<le> v" "v < 2 ^ 31"
  shows "\<exists>ls. load_int32 v g s = Inr ((), s\<lparr>asm_out := asm_out s @ ls\<rparr>) \<and>
              exec_lines exec ls R = R(r := word_of_int v)"
proof (cases "IS_IMM_12 v")
  case True
  then have k: "- 2048 \<le> v" "v < 2048" by (simp_all add: IS_IMM_12_def)
  show ?thesis
    unfolding load_int32_run [OF r(1)] if_P [OF True]
    by (rule exI, rule conjI, rule refl) (simp add: exec_lines_def addi_w [OF r k])
next
  case False
  show ?thesis
    unfolding load_int32_run [OF r(1)] if_not_P [OF False]
    by (rule exI, rule conjI, rule refl) (rule large_int32_lines_exec [OF r v])
qed

lemma load_large_int64_exec:
  assumes r: "Reg_print g = Inr r" "g \<noteq> 0"
  shows "\<exists>ls. load_large_int64 v g s = Inr ((), s\<lparr>asm_out := asm_out s @ ls\<rparr>) \<and>
              exec_lines exec ls R = R(r := word_of_int v)"
proof -
  have low: "exec_lines exec (large_int32_lines r (signed_take_bit 31 (v AND 0xFFFFFFFF))) Q
      = Q(r := word_of_int (signed_take_bit 31 (v AND 0xFFFFFFFF)))" for Q
    by (rule large_int32_lines_exec [OF r signed_take_bit_int_greater_eq_minus_exp
          signed_take_bit_int_less_exp])
  have m: "- (2 ^ 19) \<le> drop_bit 12 (signed_take_bit 31 x)" "drop_bit 12 (signed_take_bit 31 x) < 2 ^ 19"
    for x :: int using drop_signed_bounds [of 12 31 x] by simp_all
  have t: "- 2048 \<le> drop_bit 20 (signed_take_bit 31 x)" "drop_bit 20 (signed_take_bit 31 x) < 2048"
    for x :: int using drop_signed_bounds [of 20 31 x] by simp_all
  have app: "exec_lines exec (xs @ ys) Q = exec_lines exec ys (exec_lines exec xs Q)" for xs ys Q
    by (simp add: exec_lines_def)
  have one: "exec_lines exec [x, y] Q = exec (content y) (exec (content x) Q)" for x y Q
    by (simp add: exec_lines_def)
  show ?thesis
    unfolding load_large_int64_run [OF r(1)]
    by (rule exI, rule conjI, rule refl)
      (simp add: app low one lu32i_d [OF r m] lu52i_d [OF r t] assemble_int64 [unfolded low_32 [symmetric]]
        del: take_bit_or push_bit_of_int)
qed

end

section \<open>A decoder\<close>

text \<open>
  \<open>la_exec\<close> splits a line into its words and executes the five instructions as the
  LoongArch reference manual describes them.
\<close>

definition is_sep :: "char \<Rightarrow> bool" where
  "is_sep c \<longleftrightarrow> c = CHR '' '' \<or> c = CHR '',''"

fun line_words :: "string \<Rightarrow> string \<Rightarrow> string list" where
  "line_words acc [] = (if acc = [] then [] else [acc])"
| "line_words acc (c # cs) =
     (if is_sep c then (if acc = [] then line_words [] cs else acc # line_words [] cs)
      else line_words (acc @ [c]) cs)"

definition parse_dec :: "string \<Rightarrow> nat" where
  "parse_dec ds = foldl (\<lambda>n c. n * 10 + (of_char c - 48)) 0 ds"

fun parse_int :: "string \<Rightarrow> int" where
  "parse_int [] = 0"
| "parse_int (c # cs) = (if c = CHR ''-'' then - int (parse_dec cs) else int (parse_dec (c # cs)))"

fun la_step :: "string list \<Rightarrow> regs \<Rightarrow> regs" where
  "la_step [m, d, i] R =
     (if m = ''lu12i.w'' then R(d := word_of_int (push_bit 12 (parse_int i)))
      else if m = ''lu32i.d'' then R(d := take_bit 32 (R d) OR push_bit 32 (word_of_int (parse_int i)))
      else R)"
| "la_step [m, d, j, i] R =
     (let src = (if j = ''$zero'' then 0 else R j) in
      if m = ''addi.w'' then R(d := word_of_int (signed_take_bit 31 (sint src + parse_int i)))
      else if m = ''ori'' then R(d := src OR word_of_int (parse_int i))
      else if m = ''lu52i.d'' then R(d := take_bit 52 src OR push_bit 52 (word_of_int (parse_int i)))
      else R)"
| "la_step _ R = R"

definition la_exec :: "string \<Rightarrow> regs \<Rightarrow> regs" where
  "la_exec l = la_step (line_words [] l)"

definition plain :: "string \<Rightarrow> bool" where
  "plain w \<longleftrightarrow> w \<noteq> [] \<and> list_all (\<lambda>c. \<not> is_sep c) w"

lemma line_words_word:
  "list_all (\<lambda>c. \<not> is_sep c) w \<Longrightarrow> line_words acc (w @ rest) = line_words (acc @ w) rest"
  by (induction w arbitrary: acc) auto

lemma line_words_sep:
  "plain w \<Longrightarrow> line_words [] (w @ CHR '' '' # rest) = w # line_words [] rest"
  "plain w \<Longrightarrow> line_words [] (w @ CHR '','' # CHR '' '' # rest) = w # line_words [] rest"
  "plain w \<Longrightarrow> line_words [] w = [w]"
  using line_words_word [of w "[]" "[]"]
  by (auto simp: plain_def line_words_word is_sep_def)

lemma inst_text_words:
  assumes "plain m" "plain a" "plain b"
  shows "line_words [] (inst_text m [a, b]) = [m, a, b]"
    and "plain c \<Longrightarrow> line_words [] (inst_text m [a, b, c]) = [m, a, b, c]"
  using assms by (simp_all add: inst_text_def line_words_sep butlast_append)

lemma digit_plain: "d < 10 \<Longrightarrow> \<not> is_sep (digit_char d)" "d < 10 \<Longrightarrow> digit_char d \<noteq> CHR ''-''"
  by (simp_all add: is_sep_def digit_char_def char_of_eq_iff take_bit_eq_mod)

lemma digit_value: "d < 10 \<Longrightarrow> of_char (digit_char d) = 48 + d"
  by (simp add: digit_char_def take_bit_eq_mod)

lemma nat_str_digits: "list_all (\<lambda>c. \<not> is_sep c \<and> c \<noteq> CHR ''-'') (nat_str n)"
proof (induction n rule: nat_str.induct)
  case (1 n)
  then show ?case by (subst nat_str.simps) (simp add: digit_plain)
qed

lemma parse_nat_str: "parse_dec (nat_str n) = n"
proof (induction n rule: nat_str.induct)
  case (1 n)
  show ?case
  proof (cases "n < 10")
    case True
    then show ?thesis by (subst nat_str.simps) (simp add: parse_dec_def digit_value)
  next
    case False
    then show ?thesis using 1 by (subst nat_str.simps) (simp add: parse_dec_def digit_value)
  qed
qed

lemma parse_int_str: "parse_int (int_str k) = k"
proof (cases "k < 0")
  case False
  obtain c cs where c: "nat_str (nat k) = c # cs" by (cases "nat_str (nat k)") auto
  then have "c \<noteq> CHR ''-''" using nat_str_digits [of "nat k"] by simp
  then show ?thesis using False parse_nat_str [of "nat k"] by (simp add: int_str_def c)
qed (simp add: int_str_def parse_nat_str)

lemma int_str_plain: "plain (int_str k)"
  using nat_str_digits [of "nat k"] nat_str_digits [of "nat (- k)"]
  by (auto simp: plain_def int_str_def is_sep_def elim: list.pred_mono_strong)

lemma Reg_print_plain: "Reg_print g = Inr r \<Longrightarrow> plain r"
  using nat_str_digits [of "g - 4"] nat_str_digits [of "g - 12"]
  by (auto simp: Reg_print_def plain_def is_sep_def split: if_splits elim: list.pred_mono_strong)

lemma Reg_print_not_zero: "Reg_print g = Inr r \<Longrightarrow> g \<noteq> 0 \<Longrightarrow> r \<noteq> ''$zero''"
  by (auto simp: Reg_print_def split: if_splits)

interpretation la: immediate_isa la_exec
proof
  fix g r k R assume r: "Reg_print g = Inr r" "g \<noteq> 0"
  note p = Reg_print_plain [OF r(1)] and z = Reg_print_not_zero [OF r]
  have zp: "plain ''$zero''" by (simp add: plain_def is_sep_def)
  have ms: "plain ''addi.w''" "plain ''lu12i.w''" "plain ''ori''" "plain ''lu32i.d''" "plain ''lu52i.d''"
    by (simp_all add: plain_def is_sep_def)
  note words = la_exec_def inst_text_words [OF _ p int_str_plain] inst_text_words(2) [OF _ p p int_str_plain]
    inst_text_words(2) [OF _ p zp int_str_plain] parse_int_str ms
  show "- 2048 \<le> k \<Longrightarrow> k < 2048 \<Longrightarrow>
      la_exec (inst_text ''addi.w'' [r, ''$zero'', int_str k]) R = R(r := word_of_int k)"
    by (simp add: words signed_take_bit_int_eq_self)
  show "la_exec (inst_text ''lu12i.w'' [r, int_str k]) R = R(r := word_of_int (push_bit 12 k))"
    by (simp add: words)
  show "la_exec (inst_text ''ori'' [r, r, int_str k]) R = R(r := R r OR word_of_int k)"
    by (simp add: words z)
  show "la_exec (inst_text ''lu32i.d'' [r, int_str k]) R =
      R(r := take_bit 32 (R r) OR push_bit 32 (word_of_int k))"
    by (simp add: words)
  show "la_exec (inst_text ''lu52i.d'' [r, r, int_str k]) R =
      R(r := take_bit 52 (R r) OR push_bit 52 (word_of_int k))"
    by (simp add: words z)
qed

section \<open>The property\<close>



end
