(* ===== verification/FrameLayout.thy ===== *)
theory FrameLayout
  imports CodeGen
begin

text \<open>
  The stack frame of a function (\<open>CodeGen::allocate\<close>). The specification is a list of
  storage requests (a slot for every argument and result, a second slot for every phi,
  an area for every \<open>alloca\<close>), placed one after the other by unbounded arithmetic. The
  32-bit code computes that layout as long as it ends below \<open>2\<^sup>3\<^sup>1 - 16\<close>, and the layout
  keeps the slots apart, aligned and inside the frame.
\<close>

unbundle bit_operations_syntax

section \<open>Specification\<close>

datatype slot = Value_slot vid | Temp_slot vid | Area vid

type_synonym request = "slot \<times> nat"

definition align_up :: "nat \<Rightarrow> nat \<Rightarrow> nat" where
  "align_up x a = (x + a - 1) div a * a"

fun place :: "nat \<Rightarrow> request \<Rightarrow> nat" where
  "place off (Area v, n) = off + n"
| "place off (sl, n) = align_up (off + n) n"

definition layout_end :: "nat \<Rightarrow> request list \<Rightarrow> nat" where
  "layout_end off rs = foldl place off rs"

fun layout_of :: "nat \<Rightarrow> request list \<Rightarrow> (slot \<times> nat \<times> nat) list" where
  "layout_of off [] = []"
| "layout_of off (r # rs) = (fst r, place off r, snd r) # layout_of (place off r) rs"

definition ty_at :: "'z ir_scheme \<Rightarrow> vid \<Rightarrow> ty" where
  "ty_at s v = (case vals s v of None \<Rightarrow> VoidTy | Some r \<Rightarrow> vty r)"

definition op_at :: "'z ir_scheme \<Rightarrow> vid \<Rightarrow> opid option" where
  "op_at s v = (case kind_of s v of Some (K_instr op p) \<Rightarrow> Some op | _ \<Rightarrow> None)"

definition alloca_size :: "ty \<Rightarrow> nat" where
  "alloca_size t = (case t of PointerTy e \<Rightarrow> byte_size e | _ \<Rightarrow> 0)"

definition instr_requests :: "'z ir_scheme \<Rightarrow> vid \<Rightarrow> request list" where
  "instr_requests s i = (case op_at s i of None \<Rightarrow> [] | Some op \<Rightarrow>
     (if is_void_instr op (ty_at s i) then [] else
        (Value_slot i, byte_size (ty_at s i)) #
        (if op = O_phi then [(Temp_slot i, byte_size (ty_at s i))] else [])) @
     (if op = O_alloca then [(Area i, alloca_size (ty_at s i))] else []))"

definition requests :: "'z ir_scheme \<Rightarrow> vid \<Rightarrow> request list" where
  "requests s f =
     (case funcs s f of None \<Rightarrow> [] | Some r \<Rightarrow>
        map (\<lambda>a. (Value_slot a, byte_size (ty_at s a))) (arguments r) @
        concat (map (\<lambda>b. concat (map (instr_requests s) (instrs s b))) (basic_blocks r)))"

text \<open>The types that arguments and results have, and the types that can be allocated.\<close>

definition scalar_ty :: "ty \<Rightarrow> bool" where
  "scalar_ty t \<longleftrightarrow> t = int1_ty \<or> t = int32_ty \<or> t = FloatTy \<or> is_pointer_type t"

definition instr_frame_ok :: "'z ir_scheme \<Rightarrow> vid \<Rightarrow> bool" where
  "instr_frame_ok s i \<longleftrightarrow> (case op_at s i of None \<Rightarrow> False | Some op \<Rightarrow>
     (is_void_instr op (ty_at s i) \<or> scalar_ty (ty_at s i)) \<and>
     (op = O_alloca \<longrightarrow> (case ty_at s i of PointerTy e \<Rightarrow> wf_ty e \<and> sized_ty e | _ \<Rightarrow> False)))"

definition frame_ok :: "'z ir_scheme \<Rightarrow> vid \<Rightarrow> bool" where
  "frame_ok s f \<longleftrightarrow> (case funcs s f of None \<Rightarrow> False | Some r \<Rightarrow>
     list_all (\<lambda>a. scalar_ty (ty_at s a)) (arguments r) \<and>
     list_all (\<lambda>b. list_all (instr_frame_ok s) (instrs s b)) (basic_blocks r) \<and>
     distinct (arguments r @ concat (map (instrs s) (basic_blocks r))))"

section \<open>The 32-bit arithmetic\<close>

lemma ALIGN_pow2:
  assumes "k \<le> 4" and "unat x + 2 ^ k \<le> 2 ^ 31"
  shows "unat (ALIGN x (2 ^ k)) = align_up (unat x) (2 ^ k)"
proof -
  have k31: "(2::nat) ^ k < 2 ^ 32" using assms(1) by (intro power_strict_increasing) simp_all
  have u: "unat (2 ^ k :: u32) = 2 ^ k"
  proof -
    have "k \<in> {0, 1, 2, 3, 4}" using assms(1) by auto
    then show ?thesis by auto
  qed
  have le: "(1 :: u32) \<le> 2 ^ k" unfolding word_le_nat_alt u by simp
  have um: "unat (2 ^ k - 1 :: u32) = 2 ^ k - 1" using le u by (simp add: unat_sub)
  have sum: "unat (x + (2 ^ k - 1)) = unat x + (2 ^ k - 1)"
    using assms k31 by (subst unat_add_lem [THEN iffD1]) (simp_all add: um)
  have m: "(2 ^ k - 1 :: u32) = mask k" by (simp add: mask_eq_exp_minus_1)
  have "(x + (2 ^ k - 1)) AND NOT (2 ^ k - 1) = push_bit k (drop_bit k (x + (2 ^ k - 1)))"
    unfolding m by (rule bit_word_eqI) (auto simp: bit_simps)
  then have "unat (ALIGN x (2 ^ k)) = unat (push_bit k (drop_bit k (x + (2 ^ k - 1))))"
    by (simp add: ALIGN_def)
  also have "\<dots> = take_bit 32 (push_bit k (drop_bit k (unat (x + (2 ^ k - 1)))))"
  proof -
    have "take_bit 32 (unat y) = unat y" for y :: u32
      using unsigned_less [of y] by (simp add: take_bit_nat_eq_self_iff)
    then show ?thesis by (simp add: unsigned_push_bit_eq unsigned_drop_bit_eq)
  qed
  also have "\<dots> = take_bit 32 ((unat x + (2 ^ k - 1)) div 2 ^ k * 2 ^ k)"
    unfolding sum by (simp add: push_bit_eq_mult drop_bit_eq_div)
  also have "\<dots> = (unat x + (2 ^ k - 1)) div 2 ^ k * 2 ^ k"
  proof -
    have "(unat x + (2 ^ k - 1)) div 2 ^ k * 2 ^ k \<le> unat x + (2 ^ k - 1)" by (rule div_times_less_eq_dividend)
    moreover have "unat x + (2 ^ k - 1) < 2 ^ 32"
    proof -
      have "unat x + (2 ^ k - 1) \<le> unat x + 2 ^ k" by simp
      also have "\<dots> \<le> 2 ^ 31" by (rule assms(2))
      also have "\<dots> < (2 :: nat) ^ 32" by simp
      finally show ?thesis .
    qed
    ultimately have "(unat x + (2 ^ k - 1)) div 2 ^ k * 2 ^ k < 2 ^ 32" by (rule order.strict_trans1)
    then show ?thesis by (simp only: take_bit_nat_eq_self_iff)
  qed
  finally show ?thesis by (simp add: align_up_def)
qed

lemma align_up_bounds: "0 < a \<Longrightarrow> x \<le> align_up x a \<and> align_up x a < x + a \<and> a dvd align_up x a"
proof -
  assume a: "0 < a"
  have e: "align_up x a = (x + a - 1) - (x + a - 1) mod a"
    by (simp only: align_up_def minus_mod_eq_div_mult)
  have "(x + a - 1) mod a < a" using a by simp
  then have "x \<le> align_up x a \<and> align_up x a < x + a" unfolding e using a by linarith
  then show ?thesis by (simp add: align_up_def)
qed

section \<open>The code computes the specified layout\<close>

lemma scalar_size:
  assumes "scalar_ty t"
  shows "\<exists>k \<le> 4. get_size t = Inr (2 ^ k) \<and> byte_size t = 2 ^ k"
proof -
  consider "t = int1_ty" | "t = int32_ty" | "t = FloatTy" | e where "t = PointerTy e"
    using assms by (cases t) (auto simp: scalar_ty_def is_pointer_type_def)
  then show ?thesis
    by cases (rule exI [of _ 0] exI [of _ 2] exI [of _ 3]; simp add: get_size_scalar)+
qed

lemma layout_end_simps [simp]:
  "layout_end off [] = off"
  "layout_end off (r # rs) = layout_end (place off r) rs"
  "layout_end off (xs @ ys) = layout_end (layout_end off xs) ys"
  by (simp_all add: layout_end_def)

fun request_ok :: "request \<Rightarrow> bool" where
  "request_ok (Area v, n) \<longleftrightarrow> True"
| "request_ok (sl, n) \<longleftrightarrow> (\<exists>k \<le> 4. n = 2 ^ k)"

lemma place_bounds:
  assumes "request_ok (sl, n)"
  shows "off + n \<le> place off (sl, n)" and "(\<forall>v. sl \<noteq> Area v) \<longrightarrow> n dvd place off (sl, n)"
    and "place off (sl, n) \<le> off + 2 * n"
proof -
  have "0 < n" if "\<forall>v. sl \<noteq> Area v"
    using assms that by (cases sl) auto
  then show "off + n \<le> place off (sl, n)" "(\<forall>v. sl \<noteq> Area v) \<longrightarrow> n dvd place off (sl, n)"
    "place off (sl, n) \<le> off + 2 * n"
    using align_up_bounds [of n "off + n"] by (cases sl; auto)+
qed

lemma layout_end_mono: "list_all request_ok rs \<Longrightarrow> off \<le> layout_end off rs"
proof (induction rs arbitrary: off)
  case (Cons r rs)
  obtain sl n where r: "r = (sl, n)" by (cases r)
  then have "off \<le> place off r" using Cons.prems place_bounds(1) [of sl n off] by simp
  also have "\<dots> \<le> layout_end (place off r) rs" using Cons by simp
  finally show ?case by simp
qed simp

type_synonym offsets = "(vid \<rightharpoonup> int) \<times> (vid \<rightharpoonup> int)"

fun write_slot :: "nat \<Rightarrow> request \<Rightarrow> offsets \<Rightarrow> offsets" where
  "write_slot off (Value_slot v, n) (m, pm) = (m(v \<mapsto> - int (place off (Value_slot v, n))), pm)"
| "write_slot off (Temp_slot v, n) (m, pm) = (m, pm(v \<mapsto> - int (place off (Temp_slot v, n))))"
| "write_slot off (Area v, n) (m, pm) = (m, pm)"

fun write_slots :: "nat \<Rightarrow> request list \<Rightarrow> offsets \<Rightarrow> offsets" where
  "write_slots off [] ms = ms"
| "write_slots off (r # rs) ms = write_slots (place off r) rs (write_slot off r ms)"

lemma write_slots_append:
  "write_slots off (xs @ ys) ms = write_slots (layout_end off xs) ys (write_slots off xs ms)"
  by (induction xs arbitrary: off ms) auto

definition stands_for :: "layout \<Rightarrow> nat \<Rightarrow> offsets \<Rightarrow> bool" where
  "stands_for lay off ms \<longleftrightarrow> (case lay of (o32, m, pm) \<Rightarrow> unat o32 = off \<and> ms = (m, pm))"

lemma neg_int_small: "unat x < 2 ^ 31 \<Longrightarrow> neg_int x = - int (unat x)"
proof -
  assume "unat x < 2 ^ 31"
  then have "int (unat x) < 2 ^ 31" by (metis of_nat_less_iff of_nat_numeral of_nat_power)
  then have "uint x < 2 ^ 31" by simp
  moreover have "- (2 ^ 31) \<le> uint x" using uint_ge_0 [of x] by (rule order.trans [rotated]) simp
  ultimately have "sint x = uint x"
    unfolding sint_uint by (intro signed_take_bit_int_eq_self) simp_all
  then show "neg_int x = - int (unat x)" by (simp add: neg_int_def)
qed

lemma ALIGN_slot:
  assumes "scalar_ty t" and "get_size t = Inr sz" and "\<forall>v. sl \<noteq> Area v"
    and "place (unat x) (sl, byte_size t) + 16 \<le> 2 ^ 31"
  shows "unat (ALIGN (x + sz) sz) = place (unat x) (sl, byte_size t)"
    and "neg_int (ALIGN (x + sz) sz) = - int (place (unat x) (sl, byte_size t))"
proof -
  obtain k where k: "k \<le> 4" "sz = 2 ^ k" "byte_size t = 2 ^ k"
    using scalar_size [OF assms(1)] assms(2) by auto
  have u: "unat (2 ^ k :: u32) = 2 ^ k"
  proof -
    have "k \<in> {0, 1, 2, 3, 4}" using k(1) by auto
    then show ?thesis by auto
  qed
  have k16: "(2 :: nat) ^ k \<le> 16" using power_increasing [of k 4 "2 :: nat"] k(1) by simp
  have pl: "place (unat x) (sl, 2 ^ k) = align_up (unat x + 2 ^ k) (2 ^ k)"
    using assms(3) by (cases sl) auto
  have b: "unat x + 2 ^ k \<le> align_up (unat x + 2 ^ k) (2 ^ k)"
    using align_up_bounds [of "2 ^ k" "unat x + 2 ^ k"] by simp
  have small: "unat x + 2 ^ k + 16 \<le> 2 ^ 31" using assms(4) pl b k(3) by simp
  then have sum: "unat (x + 2 ^ k) = unat x + 2 ^ k"
    by (subst unat_add_lem [THEN iffD1]) (simp_all add: u)
  have "unat (ALIGN (x + 2 ^ k) (2 ^ k)) = align_up (unat x + 2 ^ k) (2 ^ k)"
    using ALIGN_pow2 [OF k(1), of "x + 2 ^ k"] small k16 unfolding sum by simp
  then show e: "unat (ALIGN (x + sz) sz) = place (unat x) (sl, byte_size t)"
    using pl k by simp
  show "neg_int (ALIGN (x + sz) sz) = - int (place (unat x) (sl, byte_size t))"
    using neg_int_small [of "ALIGN (x + sz) sz"] assms(4) unfolding e by simp
qed

lemma allocate_args_layout:
  assumes "list_all (\<lambda>a. scalar_ty (ty_at s a)) as" and "unat off = n"
    and "allocate_args s as off m = Inr (off', m')"
    and "layout_end n (map (\<lambda>a. (Value_slot a, byte_size (ty_at s a))) as) + 16 \<le> 2 ^ 31"
  shows "stands_for (off', m', pm) (layout_end n (map (\<lambda>a. (Value_slot a, byte_size (ty_at s a))) as))
     (write_slots n (map (\<lambda>a. (Value_slot a, byte_size (ty_at s a))) as) (m, pm))"
  using assms
proof (induction as arbitrary: off n m)
  case (Cons a as)
  let ?rs = "map (\<lambda>a. (Value_slot a, byte_size (ty_at s a))) as"
  let ?p = "place n (Value_slot a, byte_size (ty_at s a))"
  from Cons.prems obtain w where sz: "get_size (ty_at s a) = Inr w"
    and rest: "allocate_args s as (ALIGN (off + w) w) (m(a \<mapsto> neg_int (ALIGN (off + w) w))) = Inr (off', m')"
    by (auto simp: type_of_def ty_at_def Let_def)
  have "list_all request_ok ?rs"
    using Cons.prems(1) scalar_size by (fastforce simp: list_all_iff)
  then have "?p \<le> layout_end ?p ?rs" by (rule layout_end_mono)
  then have bound: "place (unat off) (Value_slot a, byte_size (ty_at s a)) + 16 \<le> 2 ^ 31"
    using Cons.prems(2,4) by simp
  have sc: "scalar_ty (ty_at s a)" using Cons.prems(1) by simp
  have step: "unat (ALIGN (off + w) w) = ?p" "neg_int (ALIGN (off + w) w) = - int ?p"
    using ALIGN_slot [OF sc sz _ bound] unfolding Cons.prems(2) by blast+
  have "stands_for (off', m', pm) (layout_end ?p ?rs)
      (write_slots ?p ?rs (m(a \<mapsto> neg_int (ALIGN (off + w) w)), pm))"
    by (rule Cons.IH [OF _ step(1) rest]) (use Cons.prems in simp_all)
  then show ?case unfolding step(2) by (simp only: list.map layout_end_simps write_slots.simps write_slot.simps)
qed (simp add: stands_for_def)

lemma instr_requests_ok: "instr_frame_ok s i \<Longrightarrow> list_all request_ok (instr_requests s i)"
  using scalar_size by (fastforce simp: instr_frame_ok_def instr_requests_def split: option.splits)

lemma area_step:
  assumes "wf_ty e" "sized_ty e" "get_size e = Inr w" and "unat x + byte_size e + 16 \<le> 2 ^ 31"
  shows "unat (x + w) = unat x + byte_size e"
proof -
  have "byte_size e < 2 ^ 32" using assms(4) by simp
  then have w: "unat w = byte_size e" using get_size_mod [OF assms(1,2)] assms(3) by auto
  show ?thesis using assms(4) by (subst unat_add_lem [THEN iffD1]) (simp_all add: w)
qed

lemma allocate_instr_layout:
  assumes ok: "instr_frame_ok s i" and st: "stands_for lay n (m, pm)"
    and run: "allocate_instr s i lay = Inr lay'"
    and bound: "layout_end n (instr_requests s i) + 16 \<le> 2 ^ 31"
  shows "stands_for lay' (layout_end n (instr_requests s i)) (write_slots n (instr_requests s i) (m, pm))"
proof -
  obtain off where lay: "lay = (off, m, pm)" and off: "unat off = n"
    using st by (cases lay) (auto simp: stands_for_def)
  from run obtain op where op: "instr_op s i = Inr op" and t: "type_of s i = Inr (ty_at s i)"
    unfolding allocate_instr_def by (auto simp: lay type_of_def ty_at_def)
  have op_at: "op_at s i = Some op" using op by (auto simp: op_at_def)
  let ?t = "ty_at s i" let ?n = "byte_size ?t"
  show ?thesis
  proof (cases "is_void_instr op ?t")
    case True
    then have "op \<noteq> O_alloca" by (auto simp: is_void_instr_def)
    then show ?thesis
      using run st True by (simp add: allocate_instr_def lay op t instr_requests_def op_at del: instr_op_Inr)
  next
    case False
    then have sc: "scalar_ty ?t" using ok op_at by (auto simp: instr_frame_ok_def)
    then obtain w where w: "get_size ?t = Inr w" using scalar_size by blast
    let ?p = "place n (Value_slot i, ?n)"
    have "?p \<le> layout_end n (instr_requests s i)"
      using layout_end_mono [of "tl (instr_requests s i)" ?p] instr_requests_ok [OF ok] False
      by (auto simp: instr_requests_def op_at)
    then have b1: "place (unat off) (Value_slot i, ?n) + 16 \<le> 2 ^ 31" using bound off by simp
    have s1: "unat (ALIGN (off + w) w) = ?p" "neg_int (ALIGN (off + w) w) = - int ?p"
      using ALIGN_slot [OF sc w _ b1] unfolding off by blast+
    consider "op = O_phi" | "op = O_alloca" | "op \<noteq> O_phi" "op \<noteq> O_alloca" by blast
    then show ?thesis
    proof cases
      case 1
      let ?o = "ALIGN (off + w) w" let ?q = "place ?p (Temp_slot i, ?n)"
      have end1: "layout_end n (instr_requests s i) = ?q"
        using False 1 by (simp add: instr_requests_def op_at)
      have b2: "place (unat ?o) (Temp_slot i, ?n) + 16 \<le> 2 ^ 31" using bound unfolding end1 s1 .
      have s2: "unat (ALIGN (?o + w) w) = ?q" "neg_int (ALIGN (?o + w) w) = - int ?q"
        using ALIGN_slot [OF sc w _ b2] unfolding s1 by blast+
      have "lay' = (ALIGN (?o + w) w, m(i \<mapsto> neg_int ?o), pm(i \<mapsto> neg_int (ALIGN (?o + w) w)))"
        using run False 1 by (simp add: allocate_instr_def lay op t w Let_def del: instr_op_Inr)
      then show ?thesis unfolding end1
        using False 1 by (simp add: stands_for_def instr_requests_def op_at s1 s2 del: place.simps)
    next
      case 2
      then obtain e where e: "?t = PointerTy e" "wf_ty e" "sized_ty e"
        using ok op_at by (auto simp: instr_frame_ok_def split: ty.splits)
      from get_size_mod [OF e(2,3)] obtain z where z: "get_size e = Inr z" by blast
      let ?o = "ALIGN (off + w) w"
      have end1: "layout_end n (instr_requests s i) = ?p + byte_size e"
        using False 2 e by (simp add: instr_requests_def op_at alloca_size_def del: place.simps) simp
      have s2: "unat (?o + z) = ?p + byte_size e"
        using area_step [OF e(2,3) z, of ?o] bound unfolding end1 s1 by blast
      have "lay' = (?o + z, m(i \<mapsto> neg_int ?o), pm)"
        using run False 2 e z w by (simp add: allocate_instr_def lay op t Let_def del: instr_op_Inr)
      then show ?thesis unfolding end1
        using False 2 e by (simp add: stands_for_def instr_requests_def op_at s1 s2 alloca_size_def del: place.simps)
    next
      case 3
      have "lay' = (ALIGN (off + w) w, m(i \<mapsto> neg_int (ALIGN (off + w) w)), pm)"
        using run False 3 w by (simp add: allocate_instr_def lay op t Let_def del: instr_op_Inr)
      then show ?thesis
        using False 3 by (simp add: stands_for_def instr_requests_def op_at s1 del: place.simps)
    qed
  qed
qed

lemma allocate_instrs_layout:
  assumes "list_all (instr_frame_ok s) is" and "stands_for lay n ms"
    and "allocate_instrs s is lay = Inr lay'"
    and "layout_end n (concat (map (instr_requests s) is)) + 16 \<le> 2 ^ 31"
  shows "stands_for lay' (layout_end n (concat (map (instr_requests s) is)))
           (write_slots n (concat (map (instr_requests s) is)) ms)"
  using assms
proof (induction "is" arbitrary: lay n ms)
  case (Cons i "is")
  let ?rs = "concat (map (instr_requests s) is)"
  from Cons.prems(3) obtain lay1 where l1: "allocate_instr s i lay = Inr lay1"
    and rest: "allocate_instrs s is lay1 = Inr lay'" by auto
  have "list_all request_ok ?rs"
    using Cons.prems(1) instr_requests_ok by (fastforce simp: list_all_iff)
  then have b1: "layout_end n (instr_requests s i) + 16 \<le> 2 ^ 31"
    using layout_end_mono [of ?rs "layout_end n (instr_requests s i)"] Cons.prems(4) by simp
  obtain m pm where ms: "ms = (m, pm)" by (cases ms)
  have "stands_for lay1 (layout_end n (instr_requests s i)) (write_slots n (instr_requests s i) ms)"
    unfolding ms by (rule allocate_instr_layout [OF _ _ l1 b1]) (use Cons.prems ms in simp_all)
  then show ?case
    using Cons.IH [OF _ _ rest] Cons.prems by (simp add: write_slots_append)
qed simp

definition block_requests :: "'z ir_scheme \<Rightarrow> vid \<Rightarrow> request list" where
  "block_requests s b = concat (map (instr_requests s) (instrs s b))"

lemma allocate_blocks_layout:
  assumes "list_all (\<lambda>b. list_all (instr_frame_ok s) (instrs s b)) bs" and "stands_for lay n ms"
    and "allocate_blocks s bs lay = Inr lay'"
    and "layout_end n (concat (map (block_requests s) bs)) + 16 \<le> 2 ^ 31"
  shows "stands_for lay' (layout_end n (concat (map (block_requests s) bs)))
           (write_slots n (concat (map (block_requests s) bs)) ms)"
  using assms
proof (induction bs arbitrary: lay n ms)
  case (Cons b bs)
  let ?rs = "concat (map (block_requests s) bs)"
  from Cons.prems(3) obtain lay1 where l1: "allocate_instrs s (instrs s b) lay = Inr lay1"
    and rest: "allocate_blocks s bs lay1 = Inr lay'" by (auto simp: instrs_def)
  have "list_all request_ok ?rs"
    using Cons.prems(1) instr_requests_ok by (fastforce simp: list_all_iff block_requests_def)
  then have b1: "layout_end n (block_requests s b) + 16 \<le> 2 ^ 31"
    using layout_end_mono [of ?rs "layout_end n (block_requests s b)"] Cons.prems(4) by simp
  have "stands_for lay1 (layout_end n (block_requests s b)) (write_slots n (block_requests s b) ms)"
    unfolding block_requests_def
    by (rule allocate_instrs_layout [OF _ _ l1 b1 [unfolded block_requests_def]]) (use Cons.prems in simp_all)
  then show ?case
    using Cons.IH [OF _ _ rest] Cons.prems by (simp add: write_slots_append)
qed simp

lemma requests_eq:
  "funcs s f = Some r \<Longrightarrow> requests s f =
     map (\<lambda>a. (Value_slot a, byte_size (ty_at s a))) (arguments r) @
     concat (map (block_requests s) (basic_blocks r))"
  by (simp add: requests_def block_requests_def [abs_def])

lemma frame_layout_refines:
  assumes ok: "frame_ok s f" and run: "frame_layout s f = Inr lay"
    and bound: "layout_end 16 (requests s f) + 16 \<le> 2 ^ 31"
  shows "stands_for lay (layout_end 16 (requests s f)) (write_slots 16 (requests s f) (Map.empty, Map.empty))"
proof -
  obtain r where r: "funcs s f = Some r" using ok by (auto simp: frame_ok_def split: option.splits)
  let ?as = "map (\<lambda>a. (Value_slot a, byte_size (ty_at s a))) (arguments r)"
  let ?bs = "concat (map (block_requests s) (basic_blocks r))"
  from run r obtain off m where a: "allocate_args s (arguments r) 16 Map.empty = Inr (off, m)"
    and b: "allocate_blocks s (basic_blocks r) (off, m, Map.empty) = Inr lay"
    by (auto simp: frame_layout_def)
  have okr: "list_all (\<lambda>a. scalar_ty (ty_at s a)) (arguments r)"
    "list_all (\<lambda>b. list_all (instr_frame_ok s) (instrs s b)) (basic_blocks r)"
    using ok r by (simp_all add: frame_ok_def)
  have "list_all request_ok ?bs"
    using okr(2) instr_requests_ok by (fastforce simp: list_all_iff block_requests_def)
  then have b1: "layout_end 16 ?as + 16 \<le> 2 ^ 31"
    using layout_end_mono [of ?bs "layout_end 16 ?as"] bound by (simp add: requests_eq [OF r])
  have "stands_for (off, m, Map.empty) (layout_end 16 ?as) (write_slots 16 ?as (Map.empty, Map.empty))"
    by (rule allocate_args_layout [OF okr(1) _ a b1]) simp
  from allocate_blocks_layout [OF okr(2) this b] bound show ?thesis
    by (simp add: requests_eq [OF r] write_slots_append)
qed

section \<open>What the layout guarantees\<close>

lemma layout_of_length [simp]: "length (layout_of off rs) = length rs"
  by (induction rs arbitrary: off) auto

lemma layout_of_nth:
  "k < length rs \<Longrightarrow> snd (snd (layout_of off rs ! k)) = snd (rs ! k) \<and> fst (layout_of off rs ! k) = fst (rs ! k)"
  by (induction rs arbitrary: off k) (auto simp: nth_Cons split: nat.splits)

lemma layout_of_bounds:
  assumes "list_all request_ok rs" and "(sl, o1, n) \<in> set (layout_of off rs)"
  shows "off + n \<le> o1 \<and> o1 \<le> layout_end off rs \<and> ((\<forall>v. sl \<noteq> Area v) \<longrightarrow> n dvd o1)"
  using assms
proof (induction rs arbitrary: off)
  case (Cons r rs)
  obtain sl' n' where r: "r = (sl', n')" by (cases r)
  have pb: "off + n' \<le> place off r" "(\<forall>v. sl' \<noteq> Area v) \<longrightarrow> n' dvd place off r"
    using Cons.prems(1) place_bounds(1,2) [of sl' n' off] unfolding r by simp_all
  have mono: "place off r \<le> layout_end (place off r) rs"
    using Cons.prems(1) by (intro layout_end_mono) simp
  show ?case
  proof (cases "(sl, o1, n) \<in> set (layout_of (place off r) rs)")
    case True
    then show ?thesis using Cons.IH [OF _ True] Cons.prems(1) pb by simp
  next
    case False
    then have "(sl, o1, n) = (sl', place off r, n')" using Cons.prems(2) by (simp add: r)
    then show ?thesis using pb mono by (simp add: r)
  qed
qed simp

lemma layout_of_sorted:
  assumes "list_all request_ok rs" and "k < j" and "j < length rs"
  shows "fst (snd (layout_of off rs ! k)) + snd (snd (layout_of off rs ! j)) \<le> fst (snd (layout_of off rs ! j))"
  using assms
proof (induction rs arbitrary: off k j)
  case (Cons r rs)
  then obtain j' where j: "j = Suc j'" by (cases j) auto
  show ?case
  proof (cases k)
    case 0
    obtain sl o1 n where e: "layout_of (place off r) rs ! j' = (sl, o1, n)"
      by (cases "layout_of (place off r) rs ! j'")
    have "(sl, o1, n) \<in> set (layout_of (place off r) rs)"
      unfolding e [symmetric] using Cons.prems(3) j by simp
    then have "place off r + n \<le> o1"
      using layout_of_bounds [of rs] Cons.prems(1) by simp
    then show ?thesis by (simp add: j 0 e)
  next
    case (Suc k')
    then show ?thesis using Cons.IH [of k' j' "place off r"] Cons.prems j by simp
  qed
qed simp

fun areas_follow :: "slot option \<Rightarrow> request list \<Rightarrow> bool" where
  "areas_follow p [] \<longleftrightarrow> True"
| "areas_follow p ((sl, n) # rs) \<longleftrightarrow>
     (case sl of Area v \<Rightarrow> p = Some (Value_slot v) | _ \<Rightarrow> True) \<and> areas_follow (Some sl) rs"

lemma areas_follow_append:
  "areas_follow p xs \<Longrightarrow> areas_follow None ys \<Longrightarrow> areas_follow p (xs @ ys)"
proof (induction xs arbitrary: p)
  case Nil
  then show ?case by (cases ys) (auto split: slot.splits)
qed auto

lemma areas_follow_concat: "(\<And>x. x \<in> set xs \<Longrightarrow> areas_follow None (g x)) \<Longrightarrow> areas_follow None (concat (map g xs))"
  by (induction xs) (auto intro: areas_follow_append)

definition slot_of :: "offsets \<Rightarrow> request \<Rightarrow> int option" where
  "slot_of ms r = (case r of
     (Value_slot v, n) \<Rightarrow> fst ms v
   | (Temp_slot v, n) \<Rightarrow> snd ms v
   | (Area v, n) \<Rightarrow> map_option (\<lambda>off. off - int n) (fst ms v))"

lemma write_slot_other:
  "fst r \<noteq> Value_slot v \<Longrightarrow> fst (write_slot off r ms) v = fst ms v"
  "fst r \<noteq> Temp_slot v \<Longrightarrow> snd (write_slot off r ms) v = snd ms v"
  by (cases "(off, r, ms)" rule: write_slot.cases; simp)+

lemma write_slots_other:
  "Value_slot v \<notin> fst ` set rs \<Longrightarrow> fst (write_slots off rs ms) v = fst ms v"
  "Temp_slot v \<notin> fst ` set rs \<Longrightarrow> snd (write_slots off rs ms) v = snd ms v"
  by (induction rs arbitrary: off ms) (auto simp: write_slot_other)

lemma write_slots_layout:
  assumes "distinct (map fst rs)" and "areas_follow p rs"
    and "\<And>v. p = Some (Value_slot v) \<Longrightarrow> fst ms v = Some (- int off) \<and> Value_slot v \<notin> fst ` set rs"
  shows "map (slot_of (write_slots off rs ms)) rs = map (\<lambda>e. Some (- int (fst (snd e)))) (layout_of off rs)"
  using assms
proof (induction rs arbitrary: p off ms)
  case (Cons r rs)
  obtain sl n where r: "r = (sl, n)" by (cases r)
  obtain m pm where ms: "ms = (m, pm)" by (cases ms)
  let ?ms = "write_slot off r ms"
  have notin: "sl \<notin> fst ` set rs" using Cons.prems(1) by (simp add: r)
  have tail: "map (slot_of (write_slots (place off r) rs ?ms)) rs
      = map (\<lambda>e. Some (- int (fst (snd e)))) (layout_of (place off r) rs)"
  proof (rule Cons.IH)
    show "distinct (map fst rs)" "areas_follow (Some sl) rs" using Cons.prems by (simp_all add: r)
    fix v assume "Some sl = Some (Value_slot v)"
    then show "fst ?ms v = Some (- int (place off r)) \<and> Value_slot v \<notin> fst ` set rs"
      using notin by (simp add: r ms)
  qed
  have "slot_of (write_slots (place off r) rs ?ms) r = Some (- int (place off r))"
  proof (cases sl)
    case (Value_slot v)
    then show ?thesis using write_slots_other(1) [of v rs "place off r" ?ms] notin
      by (simp add: slot_of_def r ms del: place.simps)
  next
    case (Temp_slot v)
    then show ?thesis using write_slots_other(2) [of v rs "place off r" ?ms] notin
      by (simp add: slot_of_def r ms del: place.simps)
  next
    case (Area v)
    then have "p = Some (Value_slot v)" using Cons.prems(2) by (simp add: r)
    then have "fst ms v = Some (- int off)" "Value_slot v \<notin> fst ` set rs"
      using Cons.prems(3) by auto
    then show ?thesis using write_slots_other(1) [of v rs "place off r" ?ms] Area
      by (simp add: slot_of_def r ms)
  qed
  then show ?case using tail by simp
qed simp

fun slot_vid :: "slot \<Rightarrow> vid" where
  "slot_vid (Value_slot v) = v"
| "slot_vid (Temp_slot v) = v"
| "slot_vid (Area v) = v"

lemma instr_requests_vids: "r \<in> set (instr_requests s i) \<Longrightarrow> slot_vid (fst r) = i"
  by (auto simp: instr_requests_def split: option.splits if_splits)

lemma requests_distinct:
  assumes "frame_ok s f"
  shows "distinct (map fst (requests s f))" and "areas_follow None (requests s f)"
    and "list_all request_ok (requests s f)"
proof -
  obtain r where r: "funcs s f = Some r" using assms by (auto simp: frame_ok_def split: option.splits)
  let ?is = "concat (map (instrs s) (basic_blocks r))"
  let ?as = "map (\<lambda>a. (Value_slot a, byte_size (ty_at s a))) (arguments r)"
  have eq: "requests s f = ?as @ concat (map (instr_requests s) ?is)"
  proof -
    have "concat (map (block_requests s) bs) = concat (map (instr_requests s) (concat (map (instrs s) bs)))" for bs
      by (induction bs) (simp_all add: block_requests_def)
    then show ?thesis by (simp add: requests_eq [OF r])
  qed
  have d: "distinct (arguments r @ ?is)" and okr: "list_all (\<lambda>a. scalar_ty (ty_at s a)) (arguments r)"
    "\<And>i. i \<in> set ?is \<Longrightarrow> instr_frame_ok s i"
    using assms r by (auto simp: frame_ok_def list_all_iff)
  have di: "distinct (map fst (concat (map (instr_requests s) is)))" if "distinct is" for "is"
    using that
  proof (induction "is")
    case (Cons i "is")
    have "distinct (map fst (instr_requests s i))"
      by (auto simp: instr_requests_def split: option.splits)
    moreover have "fst ` set (instr_requests s i) \<inter> fst ` set (concat (map (instr_requests s) is)) = {}"
      using Cons.prems by (auto dest!: instr_requests_vids)
    ultimately show ?case using Cons by simp
  qed simp
  have "fst ` set ?as \<inter> fst ` set (concat (map (instr_requests s) ?is)) = {}"
    using d by (auto dest!: instr_requests_vids) blast
  moreover have "distinct (map fst ?as)" using d by (simp add: distinct_map inj_on_def comp_def)
  ultimately show "distinct (map fst (requests s f))"
    using di [of ?is] d by (simp add: eq image_image)
  have a1: "areas_follow p (map (\<lambda>a. (Value_slot a, byte_size (ty_at s a))) as)" for p as
    by (induction as arbitrary: p) auto
  have "areas_follow None (instr_requests s i)" for i
    by (auto simp: instr_requests_def is_void_instr_def split: option.splits)
  then show "areas_follow None (requests s f)"
    unfolding eq by (intro areas_follow_append a1 areas_follow_concat)
  show "list_all request_ok (requests s f)"
    unfolding eq using okr instr_requests_ok scalar_size by (fastforce simp: list_all_iff)
qed

section \<open>The properties\<close>

lemma layout_end_16: "unat (ALIGN x 16) = align_up (unat x) 16" if "unat x + 16 \<le> 2 ^ 31"
  using ALIGN_pow2 [of 4 x] that by simp

lemma allocate_run:
  assumes "cg_func s = Some f" and "allocate s = Inr ((), s')"
  obtains off m pm where "frame_layout s f = Inr (off, m, pm)"
    and "s' = s\<lparr>offset_map := m, phi_temp_offset_map := pm, frame_size := ALIGN off 16\<rparr>"
  using assms by (auto simp: allocate_def cur_func_def nonnull_def sm_defs split: sum.splits)


definition frame_demo :: cg where
  "frame_demo = demo_cg\<lparr>
     vals := [1 \<mapsto> \<lparr>vty = FunctionTy VoidTy [], vname = ''f'', vuses = [], vops = [], vkind = K_func\<rparr>,
              2 \<mapsto> \<lparr>vty = LabelTy, vname = ''label_entry'', vuses = [], vops = [], vkind = K_block\<rparr>,
              3 \<mapsto> \<lparr>vty = int1_ty, vname = ''arg0'', vuses = [], vops = [], vkind = K_arg 1 0\<rparr>,
              4 \<mapsto> \<lparr>vty = PointerTy (ArrayTy int32_ty 5), vname = ''op0'', vuses = [], vops = [],
                   vkind = K_instr O_alloca (Some 2)\<rparr>,
              5 \<mapsto> \<lparr>vty = int32_ty, vname = ''op1'', vuses = [], vops = [], vkind = K_instr O_phi (Some 2)\<rparr>],
     bbs := [2 \<mapsto> \<lparr>pre_bbs = [], succ_bbs = [], instr_list = [4, 5], bparent = 1\<rparr>],
     funcs := [1 \<mapsto> \<lparr>basic_blocks = [2], arguments = [3], seq_cnt = 0\<rparr>],
     cg_func := Some 1\<rparr>"

lemma frame_demo_requests:
  "requests frame_demo 1 =
     [(Value_slot 3, 1), (Value_slot 4, 8), (Area 4, 20), (Value_slot 5, 4), (Temp_slot 5, 4)]"
  by (simp add: requests_def frame_demo_def instr_requests_def instrs_def op_at_def kind_of_def ty_at_def
      is_void_instr_def alloca_size_def)


end
