(* ===== verification/Scope.thy ===== *)
theory Scope
  imports Prelude
begin

text \<open>
  Name scopes (\<open>class Scope\<close> in \<open>include/cminusfc/cminusf_builder.hpp\<close>): a stack of maps.
  The locale \<open>scope_table\<close> states what the AST visitor relies on, and its lemmas give the
  scoping rules of the language: a block neither adds nor removes bindings outside of it,
  inner bindings hide outer ones, the first of two bindings of a name in a scope wins.
  The stack is a list with the current scope first.
\<close>

section \<open>The class\<close>

type_synonym 'v scope = "(string \<rightharpoonup> 'v) list"

definition scope_enter :: "'v scope \<Rightarrow> 'v scope" where
  "scope_enter inner = Map.empty # inner"

text \<open>\<open>pop_back\<close> and the access to the last element are undefined on an empty stack.\<close>

definition scope_exit :: "'v scope \<Rightarrow> 'v scope res" where
  "scope_exit inner = (case inner of [] \<Rightarrow> Inl (UB ''pop_back'') | _ # rest \<Rightarrow> Inr rest)"

definition in_global :: "'v scope \<Rightarrow> bool" where
  "in_global inner = (length inner = 1)"

definition scope_push :: "string \<Rightarrow> 'v \<Rightarrow> 'v scope \<Rightarrow> (bool \<times> 'v scope) res" where
  "scope_push nm v inner = (case inner of
     [] \<Rightarrow> Inl (UB ''inner[inner.size() - 1]'')
   | m # rest \<Rightarrow>
       (if m nm = None then Inr (True, m(nm \<mapsto> v) # rest) else Inr (False, m # rest)))"

fun scope_find :: "string \<Rightarrow> 'v scope \<Rightarrow> 'v res" where
  "scope_find nm [] = Inl (Assert_fail ''Name not found in scope'')"
| "scope_find nm (m # rest) = (case m nm of Some v \<Rightarrow> Inr v | None \<Rightarrow> scope_find nm rest)"

section \<open>The interface\<close>

locale scope_table =
  fixes enter :: "'s \<Rightarrow> 's"
    and exit :: "'s \<Rightarrow> 's res"
    and push :: "string \<Rightarrow> 'v \<Rightarrow> 's \<Rightarrow> (bool \<times> 's) res"
    and find :: "string \<Rightarrow> 's \<Rightarrow> 'v res"
  assumes exit_enter: "exit (enter s) = Inr s"
    and find_enter: "find nm (enter s) = find nm s"
    and push_enter: "push nm v (enter s) \<noteq> Inl e \<and> push nm v (enter s) \<noteq> Inr (False, t)"
    and exit_push: "push nm v s = Inr (b, t) \<Longrightarrow> exit t = exit s"
    and find_push: "push nm v s = Inr (True, t) \<Longrightarrow> find nm' t = (if nm' = nm then Inr v else find nm' s)"
    and find_push_old: "push nm v s = Inr (False, t) \<Longrightarrow> find nm' t = find nm' s"
begin

text \<open>A sequence of declarations.\<close>

fun push_all :: "(string \<times> 'v) list \<Rightarrow> 's \<Rightarrow> 's res" where
  "push_all [] s = Inr s"
| "push_all ((nm, v) # ds) s = bindR (push nm v s) (\<lambda>(b, t). push_all ds t)"

lemma exit_push_all: "push_all ds s = Inr t \<Longrightarrow> exit t = exit s"
proof (induction ds arbitrary: s)
  case (Cons d ds)
  obtain nm v where d: "d = (nm, v)" by (cases d)
  with Cons.prems obtain b u where "push nm v s = Inr (b, u)" "push_all ds u = Inr t" by auto
  then show ?case using Cons.IH exit_push by metis
qed simp

lemma find_push_all_other:
  "push_all ds s = Inr t \<Longrightarrow> nm \<notin> fst ` set ds \<Longrightarrow> find nm t = find nm s"
proof (induction ds arbitrary: s)
  case (Cons d ds)
  obtain n v where d: "d = (n, v)" by (cases d)
  with Cons.prems obtain b u where u: "push n v s = Inr (b, u)" "push_all ds u = Inr t" by auto
  have "find nm u = find nm s"
    using u(1) Cons.prems(2) d by (cases b) (simp_all add: find_push find_push_old)
  then show ?case using Cons.IH [OF u(2)] Cons.prems(2) by simp
qed simp

text \<open>A block: declarations after \<open>enter\<close>, then \<open>exit\<close>.\<close>

lemma block_restores: "push_all ds (enter s) = Inr t \<Longrightarrow> exit t = Inr s"
  by (simp add: exit_push_all exit_enter)

lemma block_hides:
  assumes "push_all ((nm, v) # ds) (enter s) = Inr t" and "nm \<notin> fst ` set ds"
  shows "find nm t = Inr v"
proof -
  obtain b u where u: "push nm v (enter s) = Inr (b, u)" "push_all ds u = Inr t"
    using assms(1) by auto
  then have "b" using push_enter [of nm v s] by (cases b) auto
  then show ?thesis using find_push_all_other [OF u(2) assms(2)] find_push u(1) by simp
qed

end

interpretation sc: scope_table scope_enter scope_exit scope_push scope_find
  by unfold_locales (auto simp: scope_enter_def scope_exit_def scope_push_def split: list.splits if_splits)

end
