(* ===== verification/AST.thy ===== *)
theory AST
  imports Types
begin

text \<open>
  The abstract syntax tree (\<open>include/common/ast.hpp\<close>): the structs as constructors, with
  the subclass relation as the choice of a constructor (\<open>ASTFactor\<close> is an \<open>ASTNum\<close>, an
  \<open>ASTVar\<close>, an \<open>ASTCall\<close> or an \<open>ASTExpression\<close>) and a pointer that may be null as an option.
\<close>

datatype CminusType = TYPE_INT | TYPE_FLOAT | TYPE_VOID
datatype RelOp = OP_LE | OP_LT | OP_GT | OP_GE | OP_EQ | OP_NEQ
datatype AddOp = OP_PLUS | OP_MINUS
datatype MulOp = OP_MUL | OP_DIV

text \<open>The union \<open>i_val\<close>/\<open>f_val\<close> of an \<open>ASTNum\<close> is its 32 bits.\<close>

datatype ast_num = ASTNum (num_type: CminusType) (num_bits: u32)

definition i_val :: "ast_num \<Rightarrow> int" where "i_val n = sint (num_bits n)"
definition f_val :: "ast_num \<Rightarrow> u32" where "f_val n = num_bits n"

datatype ast_var_declaration =
  ASTVarDeclaration (var_type: CminusType) (var_id: string) (var_num: "ast_num option")

datatype ast_param = ASTParam (param_type: CminusType) (param_id: string) (isarray: bool)

datatype ast_expression =
    ASTAssignExpression ast_var ast_expression
  | ASTSimpleExpression ast_additive "ast_additive option" RelOp
and ast_additive = ASTAdditiveExpression "ast_additive option" AddOp ast_term
and ast_term = ASTTerm "ast_term option" MulOp ast_factor
and ast_factor =
    Factor_num ast_num
  | Factor_var ast_var
  | Factor_call ast_call
  | Factor_expression ast_expression
and ast_var = ASTVar string "ast_expression option"
and ast_call = ASTCall string "ast_expression list"

datatype ast_statement =
    ASTCompoundStmt "ast_var_declaration list" "ast_statement list"
  | ASTExpressionStmt "ast_expression option"
  | ASTSelectionStmt ast_expression ast_statement "ast_statement option"
  | ASTIterationStmt ast_expression ast_statement
  | ASTReturnStmt "ast_expression option"

datatype ast_declaration =
    Var_declaration ast_var_declaration
  | ASTFunDeclaration CminusType string "ast_param list" ast_statement
      \<comment> \<open>the body is an \<open>ASTCompoundStmt\<close>\<close>

datatype ast_program = ASTProgram "ast_declaration list"

end
