(* ===== verification/CminusfBuilder.thy ===== *)
theory CminusfBuilder
  imports IRBuilder Scope AST
begin

text \<open>
  From the syntax tree to the light IR (\<open>include/cminusfc/cminusf_builder.hpp\<close>,
  \<open>src/cminusfc/cminusf_builder.cpp\<close>): the visitor \<open>CminusfBuilder\<close>, whose state is the
  module, the insert point of its \<open>IRBuilder\<close>, the scopes and the context. The visitor of
  an expression returns the value, that of a statement nothing (the source returns null).
\<close>

section \<open>State\<close>

record cb = irb +
  scope :: "vid scope"
  ctx_func :: "vid option"
  block_counter :: nat

definition push_name :: "string \<Rightarrow> vid \<Rightarrow> ('z cb_scheme, unit) sm" where
  "push_name nm v = updateM (\<lambda>s. bindR (scope_push nm v (scope s)) (\<lambda>(b, sc). Inr (s\<lparr>scope := sc\<rparr>)))"

definition find_name :: "string \<Rightarrow> ('z cb_scheme, vid) sm" where
  "find_name nm = readM (\<lambda>s. scope_find nm (scope s))"

definition enter_scope :: "('z cb_scheme, unit) sm" where
  "enter_scope = modifyM (\<lambda>s. s\<lparr>scope := scope_enter (scope s)\<rparr>)"

definition exit_scope :: "('z cb_scheme, unit) sm" where
  "exit_scope = updateM (\<lambda>s. bindR (scope_exit (scope s)) (\<lambda>sc. Inr (s\<lparr>scope := sc\<rparr>)))"

definition next_block_id :: "('z cb_scheme, nat) sm" where
  "next_block_id = (\<lambda>s. Inr (block_counter s, s\<lparr>block_counter := Suc (block_counter s)\<rparr>))"

definition block_name :: "string \<Rightarrow> nat \<Rightarrow> string" where
  "block_name prefix n = prefix @ nat_str n"

definition cur_function :: "('z cb_scheme, vid) sm" where
  "cur_function = bindM (getM ctx_func) nonnull"

definition new_block :: "string \<Rightarrow> nat \<Rightarrow> ('z cb_scheme, vid) sm" where
  "new_block prefix n = bindM cur_function (\<lambda>f. BasicBlock_create (block_name prefix n) f)"

text \<open>\<open>builder->get_insert_block()->is_terminated()\<close>.\<close>

definition at_end :: "('z cb_scheme, bool) sm" where
  "at_end = bindM get_insert_block (\<lambda>b. bindM (nonnull b) (\<lambda>bb. readM (\<lambda>s. is_terminated s bb)))"

definition CONST_INT :: "int \<Rightarrow> ('z cb_scheme, vid) sm" where
  "CONST_INT n = ConstantInt_get_int n"

definition CONST_FP :: "f32 \<Rightarrow> ('z cb_scheme, vid) sm" where
  "CONST_FP x = ConstantFP_get x"

section \<open>Conversions\<close>

definition cast_value_to_type :: "vid \<Rightarrow> ty \<Rightarrow> ('z cb_scheme, vid) sm" where
  "cast_value_to_type v target_type =
     bindM (ty_of v) (\<lambda>val_type.
     if val_type = target_type then returnM v
     else if is_float_type target_type \<and> is_integer_type val_type then build_sitofp v target_type
     else if is_integer_type target_type \<and> is_float_type val_type then build_fptosi v target_type
     else if is_integer_type target_type \<and> is_integer_type val_type \<and>
             get_num_bits val_type < get_num_bits target_type then build_zext v target_type
     else failM (Unreachable ''Unsupported type conversion''))"

definition load_or_decay :: "vid \<Rightarrow> ('z cb_scheme, vid) sm" where
  "load_or_decay v =
     bindM (ty_of v) (\<lambda>t.
     if \<not> is_pointer_type t then returnM v
     else bindM (liftR (get_pointer_element_type t)) (\<lambda>te.
       if is_array_type te then
         bindM (CONST_INT 0) (\<lambda>z0. bindM (CONST_INT 0) (\<lambda>z1. build_gep v [z0, z1]))
       else build_load v))"

definition load_if_scalar :: "vid \<Rightarrow> ('z cb_scheme, vid) sm" where
  "load_if_scalar v =
     bindM (ty_of v) (\<lambda>t.
     if \<not> is_pointer_type t then returnM v
     else bindM (liftR (get_pointer_element_type t)) (\<lambda>te.
       thenM (guardM (\<not> is_array_type te) (Assert_fail ''load_if_scalar: cannot handle array type''))
         (build_load v)))"

definition prepare_condition :: "vid \<Rightarrow> ('z cb_scheme, vid) sm" where
  "prepare_condition v =
     bindM (load_if_scalar v) (\<lambda>cond. bindM (ty_of cond) (\<lambda>condType.
     if is_int1_type condType then returnM cond
     else if is_int32_type condType then bindM (CONST_INT 0) (\<lambda>z. build_icmp_ne cond z)
     else if is_float_type condType then bindM (CONST_FP 0) (\<lambda>z. build_fcmp_ne cond z)
     else failM (Unreachable ''Invalid condition type'')))"

definition promote_operands :: "vid \<Rightarrow> vid \<Rightarrow> ('z cb_scheme, vid \<times> vid) sm" where
  "promote_operands lhs0 rhs0 =
     bindM (load_if_scalar lhs0) (\<lambda>lhs. bindM (load_if_scalar rhs0) (\<lambda>rhs.
     bindM (ty_of lhs) (\<lambda>lhs_type. bindM (ty_of rhs) (\<lambda>rhs_type.
     if is_float_type lhs_type then
       bindM (cast_value_to_type rhs FloatTy) (\<lambda>rhs'. returnM (lhs, rhs'))
     else if is_float_type rhs_type then
       bindM (cast_value_to_type lhs FloatTy) (\<lambda>lhs'. returnM (lhs', rhs))
     else if is_integer_type lhs_type \<and> is_integer_type rhs_type then
       bindM (cast_value_to_type lhs int32_ty) (\<lambda>lhs'.
       bindM (cast_value_to_type rhs int32_ty) (\<lambda>rhs'. returnM (lhs', rhs')))
     else failM (Unreachable ''Invalid operand types in promote_operands'')))))"

section \<open>Expressions\<close>

definition visit_num :: "ast_num \<Rightarrow> ('z cb_scheme, vid) sm" where
  "visit_num node = (case num_type node of
       TYPE_INT \<Rightarrow> CONST_INT (i_val node)
     | TYPE_FLOAT \<Rightarrow> CONST_FP (f_val node)
     | TYPE_VOID \<Rightarrow> failM (Unreachable ''Invalid ASTNum type''))"

fun float_compare :: "RelOp \<Rightarrow> vid \<Rightarrow> vid \<Rightarrow> ('z cb_scheme, vid) sm" where
  "float_compare OP_LE l r = build_fcmp_le l r"
| "float_compare OP_LT l r = build_fcmp_lt l r"
| "float_compare OP_GT l r = build_fcmp_gt l r"
| "float_compare OP_GE l r = build_fcmp_ge l r"
| "float_compare OP_EQ l r = build_fcmp_eq l r"
| "float_compare OP_NEQ l r = build_fcmp_ne l r"

fun int_compare :: "RelOp \<Rightarrow> vid \<Rightarrow> vid \<Rightarrow> ('z cb_scheme, vid) sm" where
  "int_compare OP_LE l r = build_icmp_le l r"
| "int_compare OP_LT l r = build_icmp_lt l r"
| "int_compare OP_GT l r = build_icmp_gt l r"
| "int_compare OP_GE l r = build_icmp_ge l r"
| "int_compare OP_EQ l r = build_icmp_eq l r"
| "int_compare OP_NEQ l r = build_icmp_ne l r"

fun add_operation :: "AddOp \<Rightarrow> bool \<Rightarrow> vid \<Rightarrow> vid \<Rightarrow> ('z cb_scheme, vid) sm" where
  "add_operation OP_PLUS is_float l r = (if is_float then build_fadd l r else build_iadd l r)"
| "add_operation OP_MINUS is_float l r = (if is_float then build_fsub l r else build_isub l r)"

fun mul_operation :: "MulOp \<Rightarrow> bool \<Rightarrow> vid \<Rightarrow> vid \<Rightarrow> ('z cb_scheme, vid) sm" where
  "mul_operation OP_MUL is_float l r = (if is_float then build_fmul l r else build_imul l r)"
| "mul_operation OP_DIV is_float l r = (if is_float then build_fdiv l r else build_isdiv l r)"

text \<open>Both operands promoted, then the operation of their common type.\<close>

definition arithmetic ::
  "(bool \<Rightarrow> vid \<Rightarrow> vid \<Rightarrow> ('z cb_scheme, vid) sm) \<Rightarrow> string \<Rightarrow> vid \<Rightarrow> vid \<Rightarrow> ('z cb_scheme, vid) sm" where
  "arithmetic f msg l r =
     bindM (promote_operands l r) (\<lambda>(l_val, r_val). bindM (ty_of l_val) (\<lambda>t.
     if is_float_type t then f True l_val r_val
     else if is_int32_type t then f False l_val r_val
     else failM (Unreachable msg)))"

text \<open>The subscript of \<open>ASTVar\<close>: the check for a negative index, then the address.\<close>

definition subscript :: "vid \<Rightarrow> ty \<Rightarrow> vid \<Rightarrow> ('z cb_scheme, vid) sm" where
  "subscript var element_type index =
     bindM (load_if_scalar index) (\<lambda>loaded. bindM (cast_value_to_type loaded int32_ty) (\<lambda>idx.
     bindM (CONST_INT 0) (\<lambda>zero. bindM (build_icmp_lt idx zero) (\<lambda>cmp.
     bindM next_block_id (\<lambda>n.
     bindM (new_block ''neg_idx_abort'' n) (\<lambda>neg_block.
     bindM (new_block ''neg_idx_cont'' n) (\<lambda>cont_block.
     bindM (build_cond_br cmp neg_block cont_block) (\<lambda>_.
     thenM (set_insert_point (Some neg_block))
    (bindM (find_name ''neg_idx_except'') (\<lambda>except_func.
     bindM (build_call except_func []) (\<lambda>_.
     bindM (build_br cont_block) (\<lambda>_.
     thenM (set_insert_point (Some cont_block))
    (if is_pointer_type element_type then
       bindM (build_load var) (\<lambda>p. build_gep p [idx])
     else
       bindM (CONST_INT 0) (\<lambda>z. build_gep var [z, idx]))))))))))))))"

definition callee_of :: "string \<Rightarrow> nat \<Rightarrow> ('z cb_scheme, vid \<times> ty list) sm" where
  "callee_of nm num_args =
     bindM (find_name nm) (\<lambda>callee. bindM (ty_of callee) (\<lambda>t.
     thenM (guardM (is_function_type t) (Assert_fail ''callee must be function type''))
    (bindM (readM (\<lambda>s. get_function_type_of s callee)) (\<lambda>ft.
     thenM (guardM (length (snd ft) = num_args) (Assert_fail ''argument count mismatch''))
       (returnM (callee, snd ft))))))"

definition variable_of :: "string \<Rightarrow> ('z cb_scheme, vid) sm" where
  "variable_of nm =
     bindM (find_name nm) (\<lambda>var. bindM (ty_of var) (\<lambda>t.
     thenM (guardM (is_pointer_type t) (Assert_fail ''var must be pointer type'')) (returnM var)))"

definition subscripted_type :: "vid \<Rightarrow> ('z cb_scheme, ty) sm" where
  "subscripted_type var =
     bindM (ty_of var) (\<lambda>t. bindM (liftR (get_pointer_element_type t)) (\<lambda>te.
     thenM (guardM (is_array_type te \<or> is_pointer_type te)
              (Assert_fail ''array subscript applied to non-array or non-pointer variable''))
       (returnM te)))"

definition store_assigned :: "vid \<Rightarrow> vid \<Rightarrow> ('z cb_scheme, vid) sm" where
  "store_assigned ptr e =
     bindM (load_if_scalar e) (\<lambda>loaded. bindM (ty_of ptr) (\<lambda>t.
     bindM (liftR (get_pointer_element_type t)) (\<lambda>ptr_type.
     bindM (cast_value_to_type loaded ptr_type) (\<lambda>v.
     bindM (build_store v ptr) (\<lambda>_. returnM v)))))"

fun visit_expression :: "ast_expression \<Rightarrow> ('z cb_scheme, vid) sm"
  and visit_additive :: "ast_additive \<Rightarrow> ('z cb_scheme, vid) sm"
  and visit_term :: "ast_term \<Rightarrow> ('z cb_scheme, vid) sm"
  and visit_factor :: "ast_factor \<Rightarrow> ('z cb_scheme, vid) sm"
  and visit_var :: "ast_var \<Rightarrow> ('z cb_scheme, vid) sm"
  and visit_call :: "ast_call \<Rightarrow> ('z cb_scheme, vid) sm"
  and visit_args :: "ast_expression list \<Rightarrow> ty list \<Rightarrow> ('z cb_scheme, vid list) sm" where
  "visit_expression (ASTAssignExpression var e) =
     bindM (visit_var var) (\<lambda>ptr. bindM (visit_expression e) (\<lambda>v. store_assigned ptr v))"
| "visit_expression (ASTSimpleExpression l None op) = visit_additive l"
| "visit_expression (ASTSimpleExpression l (Some r) op) =
     bindM (visit_additive l) (\<lambda>l_val. bindM (visit_additive r) (\<lambda>r_val.
     arithmetic (\<lambda>fl. if fl then float_compare op else int_compare op)
       ''Invalid relational operator'' l_val r_val))"
| "visit_additive (ASTAdditiveExpression None op t) = visit_term t"
| "visit_additive (ASTAdditiveExpression (Some a) op t) =
     bindM (visit_additive a) (\<lambda>l_val. bindM (visit_term t) (\<lambda>r_val.
     arithmetic (add_operation op) ''Invalid additive operator'' l_val r_val))"
| "visit_term (ASTTerm None op f) = visit_factor f"
| "visit_term (ASTTerm (Some t) op f) =
     bindM (visit_term t) (\<lambda>l_val. bindM (visit_factor f) (\<lambda>r_val.
     arithmetic (mul_operation op) ''Invalid multiplicative operator'' l_val r_val))"
| "visit_factor (Factor_num n) = visit_num n"
| "visit_factor (Factor_var v) = visit_var v"
| "visit_factor (Factor_call c) = visit_call c"
| "visit_factor (Factor_expression e) = visit_expression e"
| "visit_var (ASTVar nm None) = variable_of nm"
| "visit_var (ASTVar nm (Some e)) =
     bindM (variable_of nm) (\<lambda>var. bindM (subscripted_type var) (\<lambda>element_type.
     bindM (visit_expression e) (\<lambda>index. subscript var element_type index)))"
| "visit_call (ASTCall nm args) =
     bindM (callee_of nm (length args)) (\<lambda>(callee, param_types).
     bindM (visit_args args param_types) (\<lambda>vs. build_call callee vs))"
| "visit_args [] ts = returnM []"
| "visit_args (a # as) [] = failM Out_of_range"
| "visit_args (a # as) (t # ts) =
     bindM (visit_expression a) (\<lambda>e. bindM (load_or_decay e) (\<lambda>arg_val.
     bindM (cast_value_to_type arg_val t) (\<lambda>v.
     bindM (visit_args as ts) (\<lambda>vs. returnM (v # vs)))))"

section \<open>Statements\<close>

definition visit_var_declaration :: "ast_var_declaration \<Rightarrow> ('z cb_scheme, vid) sm" where
  "visit_var_declaration node =
     (let elem_type = (if var_type node = TYPE_INT then int32_ty else FloatTy) in
      bindM (case var_num node of
               None \<Rightarrow> returnM elem_type
             | Some n \<Rightarrow> liftR (ArrayType_ctor elem_type (word_of_int (i_val n)))) (\<lambda>vt.
      bindM (getM scope) (\<lambda>sc.
      if in_global sc then
        bindM (ConstantZero_get elem_type) (\<lambda>init.
        bindM (GlobalVariable_create (var_id node) vt False (Some init)) (\<lambda>g.
        thenM (push_name (var_id node) g) (returnM g)))
      else
        bindM (build_alloca vt) (\<lambda>a. thenM (push_name (var_id node) a) (returnM a)))))"

text \<open>\<open>if (!terminated) create_br(target)\<close>.\<close>

definition br_unless_terminated :: "vid \<Rightarrow> ('z cb_scheme, unit) sm" where
  "br_unless_terminated target =
     bindM at_end (\<lambda>t. if t then returnM () else bindM (build_br target) (\<lambda>_. returnM ()))"

fun visit_declarations :: "ast_var_declaration list \<Rightarrow> ('z cb_scheme, unit) sm" where
  "visit_declarations [] = returnM ()"
| "visit_declarations (d # ds) = bindM (visit_var_declaration d) (\<lambda>_. visit_declarations ds)"

definition visit_return :: "ast_expression option \<Rightarrow> ('z cb_scheme, unit) sm" where
  "visit_return eo = (case eo of
       None \<Rightarrow> bindM build_void_ret (\<lambda>_. returnM ())
     | Some e \<Rightarrow>
         bindM (visit_expression e) (\<lambda>v. bindM (load_if_scalar v) (\<lambda>loaded.
         bindM cur_function (\<lambda>f. bindM (readM (\<lambda>s. get_return_type s f)) (\<lambda>ret_type.
         bindM (cast_value_to_type loaded ret_type) (\<lambda>r.
         bindM (build_ret (Some r)) (\<lambda>_. returnM ())))))))"

fun visit_statement :: "ast_statement \<Rightarrow> ('z cb_scheme, unit) sm"
  and visit_statements :: "ast_statement list \<Rightarrow> ('z cb_scheme, unit) sm"
  and visit_else :: "ast_statement option \<Rightarrow> ('z cb_scheme, unit) sm" where
  "visit_statement (ASTCompoundStmt decls stmts) =
     thenM enter_scope
    (thenM (visit_declarations decls)
    (thenM (visit_statements stmts) exit_scope))"
| "visit_statement (ASTExpressionStmt eo) = (case eo of
       None \<Rightarrow> failM Null_deref
     | Some e \<Rightarrow> bindM (visit_expression e) (\<lambda>_. returnM ()))"
| "visit_statement (ASTSelectionStmt e st els) =
     bindM (visit_expression e) (\<lambda>v. bindM (prepare_condition v) (\<lambda>cond.
     bindM next_block_id (\<lambda>n.
     bindM (new_block ''then'' n) (\<lambda>then_block.
     bindM (new_block ''else'' n) (\<lambda>else_block.
     bindM (new_block ''end'' n) (\<lambda>end_block.
     bindM (build_cond_br cond then_block else_block) (\<lambda>_.
     thenM (set_insert_point (Some then_block))
    (thenM (visit_statement st)
    (thenM (br_unless_terminated end_block)
    (thenM (set_insert_point (Some else_block))
    (thenM (visit_else els)
    (thenM (br_unless_terminated end_block)
           (set_insert_point (Some end_block))))))))))))))"
| "visit_statement (ASTIterationStmt e st) =
     bindM next_block_id (\<lambda>n.
     bindM (new_block ''while_entry'' n) (\<lambda>entry_block.
     bindM (new_block ''while_body'' n) (\<lambda>body_block.
     bindM (new_block ''while_end'' n) (\<lambda>end_block.
     bindM (build_br entry_block) (\<lambda>_.
     thenM (set_insert_point (Some entry_block))
    (bindM (visit_expression e) (\<lambda>v. bindM (prepare_condition v) (\<lambda>cond.
     bindM (build_cond_br cond body_block end_block) (\<lambda>_.
     thenM (set_insert_point (Some body_block))
    (thenM (visit_statement st)
    (thenM (br_unless_terminated entry_block)
           (set_insert_point (Some end_block)))))))))))))"
| "visit_statement (ASTReturnStmt eo) = visit_return eo"
| "visit_statements [] = returnM ()"
| "visit_statements (st # rest) =
     thenM (visit_statement st) (bindM at_end (\<lambda>t. if t then returnM () else visit_statements rest))"
| "visit_else None = returnM ()"
| "visit_else (Some st) = visit_statement st"

section \<open>Functions and programs\<close>

definition param_ty :: "ast_param \<Rightarrow> ty res" where
  "param_ty p = (case param_type p of
       TYPE_INT \<Rightarrow> Inr (if isarray p then PointerTy int32_ty else int32_ty)
     | TYPE_FLOAT \<Rightarrow> Inr (if isarray p then PointerTy FloatTy else FloatTy)
     | TYPE_VOID \<Rightarrow> Inl (Unreachable ''Invalid parameter type''))"

fun param_tys :: "ast_param list \<Rightarrow> ty list res" where
  "param_tys [] = Inr []"
| "param_tys (p # ps) = bindR (param_ty p) (\<lambda>t. bindR (param_tys ps) (\<lambda>ts. Inr (t # ts)))"

definition return_ty :: "CminusType \<Rightarrow> ty" where
  "return_ty t = (case t of TYPE_INT \<Rightarrow> int32_ty | TYPE_FLOAT \<Rightarrow> FloatTy | TYPE_VOID \<Rightarrow> VoidTy)"

text \<open>Every parameter gets a stack slot; \<open>llvm::zip\<close> of the parameters and the arguments.\<close>

fun store_params :: "(ast_param \<times> vid) list \<Rightarrow> ('z cb_scheme, unit) sm" where
  "store_params [] = returnM ()"
| "store_params ((param, arg) # rest) =
     bindM (ty_of arg) (\<lambda>t. bindM (build_alloca t) (\<lambda>arg_alloca.
     bindM (build_store arg arg_alloca) (\<lambda>_.
     thenM (push_name (param_id param) arg_alloca) (store_params rest))))"

definition finish_function :: "('z cb_scheme, unit) sm" where
  "finish_function =
     bindM at_end (\<lambda>t.
     if t then returnM ()
     else bindM cur_function (\<lambda>f. bindM (readM (\<lambda>s. get_return_type s f)) (\<lambda>rt.
       if is_void_type rt then bindM build_void_ret (\<lambda>_. returnM ())
       else if is_float_type rt then
         bindM (CONST_FP 0) (\<lambda>z. bindM (build_ret (Some z)) (\<lambda>_. returnM ()))
       else
         bindM (CONST_INT 0) (\<lambda>z. bindM (build_ret (Some z)) (\<lambda>_. returnM ())))))"

fun visit_declaration :: "ast_declaration \<Rightarrow> ('z cb_scheme, unit) sm" where
  "visit_declaration (Var_declaration d) = bindM (visit_var_declaration d) (\<lambda>_. returnM ())"
| "visit_declaration (ASTFunDeclaration t nm params body) =
     bindM (liftR (param_tys params)) (\<lambda>param_types.
     bindM (liftR (FunctionType_ctor (return_ty t) param_types)) (\<lambda>_.
     bindM (Function_create (return_ty t) param_types nm) (\<lambda>f.
     thenM (push_name nm f)
    (thenM (modifyM (\<lambda>s. s\<lparr>ctx_func := Some f\<rparr>))
    (bindM (BasicBlock_create ''entry'' f) (\<lambda>funBB.
     thenM (set_insert_point (Some funBB))
    (thenM enter_scope
    (bindM (readM (\<lambda>s. deref (funcs s) f)) (\<lambda>r.
     thenM (store_params (zip params (arguments r)))
    (thenM (visit_statement body)
    (thenM finish_function exit_scope)))))))))))"

fun visit_program :: "ast_program \<Rightarrow> ('z cb_scheme, unit) sm" where
  "visit_program (ASTProgram decls) = forM decls visit_declaration"

text \<open>The constructor: an empty module with the declarations of the runtime functions.\<close>

definition CminusfBuilder_init :: "('z cb_scheme, unit) sm" where
  "CminusfBuilder_init =
     bindM (Function_create int32_ty [] ''input'') (\<lambda>input_fun.
     bindM (Function_create VoidTy [int32_ty] ''output'') (\<lambda>output_fun.
     bindM (Function_create VoidTy [FloatTy] ''outputFloat'') (\<lambda>output_float_fun.
     bindM (Function_create VoidTy [] ''neg_idx_except'') (\<lambda>neg_idx_except_fun.
     thenM enter_scope
    (thenM (push_name ''input'' input_fun)
    (thenM (push_name ''output'' output_fun)
    (thenM (push_name ''outputFloat'' output_float_fun)
           (push_name ''neg_idx_except'' neg_idx_except_fun))))))))"

definition empty_cb :: cb where
  "empty_cb = \<lparr>vals = Map.empty, bbs = Map.empty, funcs = Map.empty, next_id = 0,
     function_list = [], global_list = [], cached_int = Map.empty, cached_bool = Map.empty,
     cached_float = [], cached_zero = Map.empty, cached_undef = Map.empty,
     insert_block = None, scope = [], ctx_func = None, block_counter = 0\<rparr>"

definition build_module :: "ast_program \<Rightarrow> (unit \<times> cb) res" where
  "build_module p = thenM CminusfBuilder_init (visit_program p) empty_cb"

end
