(* ===== verification/OpenBlocks.thy ===== *)
theory OpenBlocks
  imports CminusfBuilder
begin

text \<open>
  What the AST visitor does to the blocks it fills: \<open>open_blocks\<close> are the blocks without a
  terminator. Every creation function of the \<open>IRBuilder\<close> keeps them or closes the insert
  block; every visited expression or statement leaves open, apart from its own insert
  block, what was open before. So every block of a finished module has a terminator,
  and the scopes after a statement are those before it.
\<close>

section \<open>Open blocks\<close>

definition open_blocks :: "'z ir_scheme \<Rightarrow> vid set" where
  "open_blocks s = {b. is_terminated s b = Inr False}"

definition opens :: "vid set \<Rightarrow> vid set \<Rightarrow> 'z \<Rightarrow> 'z ir_scheme \<Rightarrow> bool" where
  "opens X D c s \<longleftrightarrow> ir_ok s \<and> open_blocks s = X \<and> dom (bbs s) = D \<and> ir.more s = c"

lemma open_blocks_iff:
  "b \<in> open_blocks s \<longleftrightarrow> b \<in> dom (bbs s) \<and> (instrs s b \<noteq> [] \<longrightarrow>
     (\<exists>op p. kind_of s (last (instrs s b)) = Some (K_instr op p) \<and> \<not> is_terminator_op op))"
  by (auto simp: open_blocks_def is_terminated_False instrs_def)

lemma open_blocks_eq:
  assumes "dom (bbs t) = dom (bbs s)" and "instrs t = instrs s"
    and "\<And>b i. i \<in> set (instrs s b) \<Longrightarrow> kind_of t i = kind_of s i"
  shows "open_blocks t = open_blocks s"
proof (rule set_eqI)
  fix b
  have "kind_of t (last (instrs s b)) = kind_of s (last (instrs s b))" if "instrs s b \<noteq> []"
    using assms(3) that by (meson last_in_set)
  then show "b \<in> open_blocks t \<longleftrightarrow> b \<in> open_blocks s"
    unfolding open_blocks_iff assms(1,2) by auto
qed

lemma opens_step:
  assumes "opens X D c s" and "ir_ok t" and "dom (bbs t) = dom (bbs s)" and "instrs t = instrs s"
    and "\<And>b i. i \<in> set (instrs s b) \<Longrightarrow> kind_of t i = kind_of s i" and "ir.more t = ir.more s"
  shows "opens X D c t"
  using assms open_blocks_eq [of t s] by (simp add: opens_def)

lemma opens_new_value:
  assumes "opens X D c s" and "new_value t nm k s = Inr (v, s')"
  shows "opens X D c s'"
proof (rule opens_step [OF assms(1)])
  have ok: "ir_ok s" using assms(1) by (simp add: opens_def)
  note o = new_value_obs [OF ok assms(2)]
  show "ir_ok s'" by (rule ir_ok_new_value [OF ok assms(2)])
  show "dom (bbs s') = dom (bbs s)" by (simp only: o(4))
  show "instrs s' = instrs s" by (simp add: instrs_def o(4) fun_eq_iff)
  show "kind_of s' i = kind_of s i" if "i \<in> set (instrs s b)" for b i
    using ir_ok_kind_dom [OF that ok] o(3,9) by auto
  show "ir.more s' = ir.more s" using assms(2) by (auto simp: new_value_def)
qed

lemma preserves_opens_new_value [pres]: "preserves (opens X D c) (new_value t nm k)"
  by (rule preservesI) (rule opens_new_value)

lemma opens_same:
  "vals t = vals s \<Longrightarrow> bbs t = bbs s \<Longrightarrow> funcs t = funcs s \<Longrightarrow> next_id t = next_id s \<Longrightarrow>
   ir.more t = ir.more s \<Longrightarrow> opens X D c t = opens X D c s"
proof -
  assume a: "vals t = vals s" "bbs t = bbs s" "funcs t = funcs s" "next_id t = next_id s" "ir.more t = ir.more s"
  have "open_blocks t = open_blocks s"
    by (rule open_blocks_eq) (use a in \<open>simp_all add: instrs_def [abs_def] kind_of_def\<close>)
  then show ?thesis using ir_ok_obs [OF a(1-4)] a by (simp add: opens_def)
qed

lemma preserves_opens_caches [pres]:
  "preserves (opens X D c) (modifyM (\<lambda>s. s\<lparr>cached_int := f1 s\<rparr>))"
  "preserves (opens X D c) (modifyM (\<lambda>s. s\<lparr>cached_bool := f2 s\<rparr>))"
  "preserves (opens X D c) (modifyM (\<lambda>s. s\<lparr>cached_float := f3 s\<rparr>))"
  "preserves (opens X D c) (modifyM (\<lambda>s. s\<lparr>cached_zero := f4 s\<rparr>))"
  "preserves (opens X D c) (modifyM (\<lambda>s. s\<lparr>cached_undef := f5 s\<rparr>))"
  "preserves (opens X D c) (modifyM (\<lambda>s. s\<lparr>global_list := f6 s\<rparr>))"
  by (rule preserves_modifyM, subst opens_same; simp)+

lemma same_but_uses_more: "same_but_uses s t \<Longrightarrow> ir.more t = ir.more s"
  by (auto simp: same_but_uses_def)

lemma preserves_opens_add_operand [pres]: "preserves (opens X D c) (updateM (add_operand u v))"
proof (rule preserves_updateM)
  fix s t :: "'a ir_scheme"
  assume o: "opens X D c s" and run: "add_operand u v s = Inr t"
  have ok: "ir_ok s" using o by (simp add: opens_def)
  note same = add_operand_same [OF run] and obs = same_but_uses_obs [OF add_operand_same [OF run]]
  have "ir_ok t" using ir_ok_same_but_uses [OF ok same] add_operand_use_def_ok [OF ir_ok_use_def [OF ok] run] .
  then show "opens X D c t"
    by (rule opens_step [OF o]) (simp_all add: obs instrs_def fun_eq_iff same_but_uses_more [OF same])
qed

lemma opens_same_but_edges:
  assumes "opens X D c s" and "same_but_edges s t" and "ir_ok t"
  shows "opens X D c t"
proof -
  note o = same_but_edges_obs [OF assms(2)] and v = vals_obs [OF same_but_edges_obs(1) [OF assms(2)]]
  have "ir.more t = ir.more s" using assms(2) by (auto simp: same_but_edges_def)
  then show ?thesis using assms(3) by (intro opens_step [OF assms(1)]) (simp_all add: o v)
qed

lemma preserves_opens_link [pres]:
  "preserves (opens X D c) (updateM (\<lambda>s. bindR (add_pre_basic_block t b s) (add_succ_basic_block b t)))"
  "preserves (opens X D c) (updateM (\<lambda>s. bindR (add_pre_basic_block t b s) (\<lambda>s1.
     bindR (add_pre_basic_block f b s1) (\<lambda>s2.
     bindR (add_succ_basic_block b t s2) (add_succ_basic_block b f)))))"
proof -
  show "preserves (opens X D c) (updateM (\<lambda>s. bindR (add_pre_basic_block t b s) (add_succ_basic_block b t)))"
  proof (rule preserves_updateM)
    fix s s' :: "'a ir_scheme"
    assume o: "opens X D c s" and "bindR (add_pre_basic_block t b s) (add_succ_basic_block b t) = Inr s'"
    then obtain s1 where r: "add_pre_basic_block t b s = Inr s1" "add_succ_basic_block b t s1 = Inr s'" by auto
    have "same_but_edges s s'"
      using add_pre_effect(1) [OF r(1)] add_succ_effect(1) [OF r(2)] same_but_edges_trans by blast
    moreover have "ir_ok s'" using o ir_ok_link [OF _ r] by (simp add: opens_def)
    ultimately show "opens X D c s'" using opens_same_but_edges [OF o] by blast
  qed
  show "preserves (opens X D c) (updateM (\<lambda>s. bindR (add_pre_basic_block t b s) (\<lambda>s1.
     bindR (add_pre_basic_block f b s1) (\<lambda>s2.
     bindR (add_succ_basic_block b t s2) (add_succ_basic_block b f)))))"
  proof (rule preserves_updateM)
    fix s s' :: "'a ir_scheme"
    assume o: "opens X D c s" and "bindR (add_pre_basic_block t b s) (\<lambda>s1.
     bindR (add_pre_basic_block f b s1) (\<lambda>s2.
     bindR (add_succ_basic_block b t s2) (add_succ_basic_block b f))) = Inr s'"
    then obtain s1 s2 s3 where r: "add_pre_basic_block t b s = Inr s1" "add_pre_basic_block f b s1 = Inr s2"
      "add_succ_basic_block b t s2 = Inr s3" "add_succ_basic_block b f s3 = Inr s'" by auto
    have "same_but_edges s s'"
      using add_pre_effect(1) [OF r(1)] add_pre_effect(1) [OF r(2)] add_succ_effect(1) [OF r(3)]
        add_succ_effect(1) [OF r(4)] same_but_edges_trans by blast
    moreover have "ir_ok s'" using o ir_ok_link2 [OF _ r] by (simp add: opens_def)
    ultimately show "opens X D c s'" using opens_same_but_edges [OF o] by blast
  qed
qed

text \<open>The constructor of the base class: the effect on the open blocks.\<close>

lemma opens_Instruction_ctor:
  assumes o: "opens X D c s" and run: "Instruction_ctor t op (Some b) s = Inr (i, s')"
  shows "b \<in> X \<and> opens (if is_terminator_op op then X - {b} else X) D c s'"
proof -
  obtain s1 where s1: "new_value t '''' (K_instr op (Some b)) s = Inr (i, s1)"
    and add: "add_instruction b i s1 = Inr s'"
    using run by (auto simp: Instruction_ctor_def bindM_Inr_iff thenM_def updateM_def returnM_def)
  have ok: "ir_ok s" using o by (simp add: opens_def)
  have o1: "opens X D c s1" by (rule opens_new_value [OF o s1])
  have k: "kind_of s1 i = Some (K_instr op (Some b))" using new_value_obs(3) [OF ok s1] by simp
  obtain r where r: "bbs s1 b = Some r" and nt: "is_terminated s1 b = Inr False"
    and s': "s' = s1\<lparr>bbs := (bbs s1)(b \<mapsto> r\<lparr>instr_list := instr_list r @ [i]\<rparr>)\<rparr>"
    using add by (auto simp: add_instruction_def)
  have q: "instrs s' x = (if x = b then instrs s1 b @ [i] else instrs s1 x)" for x
    using r by (simp add: instrs_def s')
  have kk: "kind_of s' = kind_of s1" by (simp add: s' kind_of_def fun_eq_iff)
  have d: "dom (bbs s') = dom (bbs s1)" using r by (auto simp: s')
  have bX: "b \<in> open_blocks s1" using nt by (simp add: open_blocks_def)
  have "open_blocks s' = (if is_terminator_op op then open_blocks s1 - {b} else open_blocks s1)"
    using bX k by (auto simp: open_blocks_iff q kk d set_eq_iff)
  moreover have "ir_ok s'" by (rule preservesD [OF preserves_Instruction_ctor ok run])
  ultimately show ?thesis using o1 bX d by (simp add: opens_def s')
qed

lemma preserves_opens_Instruction_ctor [pres]:
  "\<not> is_terminator_op op \<Longrightarrow> preserves (opens X D c) (Instruction_ctor t op (Some b))"
  by (rule preservesI) (use opens_Instruction_ctor in fastforce)

lemma preserves_opens_build_args [pres]: "preserves (opens X D c) (build_args f i ts)"
proof (induction ts arbitrary: i)
  case (Cons t ts)
  have "preserves (opens X D c) (updateM (\<lambda>s. bindR (deref (funcs s) f) (\<lambda>r.
      Inr (s\<lparr>funcs := (funcs s)(f \<mapsto> r\<lparr>arguments := arguments r @ [a]\<rparr>)\<rparr>))))" for a
  proof (rule preserves_updateM)
    fix s s' :: "'a ir_scheme"
    assume o: "opens X D c s" and "bindR (deref (funcs s) f) (\<lambda>r.
      Inr (s\<lparr>funcs := (funcs s)(f \<mapsto> r\<lparr>arguments := arguments r @ [a]\<rparr>)\<rparr>)) = Inr s'"
    then obtain r where r: "funcs s f = Some r"
      and s': "s' = s\<lparr>funcs := (funcs s)(f \<mapsto> r\<lparr>arguments := arguments r @ [a]\<rparr>)\<rparr>" by auto
    have "ir_ok s'" using o ir_ok_upd_arguments [OF _ r] by (simp add: opens_def s')
    then show "opens X D c s'"
      by (rule opens_step [OF o]) (simp_all add: s' instrs_def [abs_def] kind_of_def)
  qed
  with Cons show ?case by (auto intro!: pres)
qed (simp add: pres)

lemma opens_Function_create:
  assumes o: "opens X D c s" and run: "Function_create retty params nm s = Inr (f, t)"
  shows "opens X D c t"
proof -
  have ok: "ir_ok s" using o by (simp add: opens_def)
  obtain s1 u where s1: "new_value (FunctionTy retty params) nm K_func s = Inr (f, s1)"
    and rest: "build_args f 0 params (s1\<lparr>function_list := function_list s1 @ [f],
        funcs := (funcs s1)(f \<mapsto> \<lparr>basic_blocks = [], arguments = [], seq_cnt = 0\<rparr>)\<rparr>) = Inr (u, t)"
    using run by (auto simp: Function_create_def bindM_Inr_iff thenM_def modifyM_def returnM_def)
  let ?s2 = "s1\<lparr>function_list := function_list s1 @ [f],
        funcs := (funcs s1)(f \<mapsto> \<lparr>basic_blocks = [], arguments = [], seq_cnt = 0\<rparr>)\<rparr>"
  have o1: "opens X D c s1" by (rule opens_new_value [OF o s1])
  note n = new_value_obs [OF ok s1]
  have fresh: "funcs s1 f = None" using n(5,11) by (simp add: domIff)
  have v: "kind_of ?s2 = kind_of s1" "use_def_ok ?s2 = use_def_ok s1" by (rule vals_obs, simp)+
  have g: "preds ?s2 = preds s1" "succs ?s2 = succs s1" "instrs ?s2 = instrs s1" "blocks ?s2 = blocks s1"
    using fresh by (auto simp: graph_defs fun_eq_iff)
  have "ir_ok ?s2"
    using ir_ok_new_value [OF ok s1] n(3)
    by (auto simp: ir_ok_def cfg_ok_def placed_ok_def blocks_ok_def ids_ok_def g v)
  then have "opens X D c ?s2" by (rule opens_step [OF o1]) (simp_all add: g v)
  then show ?thesis using preservesD [OF preserves_opens_build_args _ rest] by blast
qed

lemma preserves_opens_Function_create [pres]: "preserves (opens X D c) (Function_create retty params nm)"
  by (rule preservesI) (rule opens_Function_create)

lemma preserves_opens_constants [pres]:
  "preserves (opens X D c) (GlobalVariable_create nm t is_const init)"
  "preserves (opens X D c) (ConstantInt_get_int val)"
  "preserves (opens X D c) (ConstantFP_get x)"
  "preserves (opens X D c) (ConstantZero_get t)"
  unfolding GlobalVariable_create_def ConstantInt_get_int_def ConstantFP_get_def ConstantZero_get_def
  by (intro pres; simp add: pres)+

lemma preserves_opens_add_op [pres]: "preserves (opens X D c) (add_op i v)"
  by (simp add: add_op_def pres)

lemma preserves_opens_lists [pres]:
  "preserves (opens X D c) (add_call_args i ts vs)" "preserves (opens X D c) (add_indices i vs)"
proof -
  show "preserves (opens X D c) (add_call_args i ts vs)"
    by (induction i ts vs rule: add_call_args.induct) (auto intro!: pres)
  show "preserves (opens X D c) (add_indices i vs)"
    by (induction i vs rule: add_indices.induct) (auto intro!: pres)
qed

lemma terminator_ops [simp]:
  "is_terminator_op O_ret" "is_terminator_op O_br"
  "\<not> is_terminator_op O_add" "\<not> is_terminator_op O_sub" "\<not> is_terminator_op O_mul"
  "\<not> is_terminator_op O_sdiv" "\<not> is_terminator_op O_fadd" "\<not> is_terminator_op O_fsub"
  "\<not> is_terminator_op O_fmul" "\<not> is_terminator_op O_fdiv" "\<not> is_terminator_op O_alloca"
  "\<not> is_terminator_op O_load" "\<not> is_terminator_op O_store" "\<not> is_terminator_op O_ge"
  "\<not> is_terminator_op O_gt" "\<not> is_terminator_op O_le" "\<not> is_terminator_op O_lt"
  "\<not> is_terminator_op O_eq" "\<not> is_terminator_op O_ne" "\<not> is_terminator_op O_fge"
  "\<not> is_terminator_op O_fgt" "\<not> is_terminator_op O_fle" "\<not> is_terminator_op O_flt"
  "\<not> is_terminator_op O_feq" "\<not> is_terminator_op O_fne" "\<not> is_terminator_op O_call"
  "\<not> is_terminator_op O_getelementptr" "\<not> is_terminator_op O_zext"
  "\<not> is_terminator_op O_fptosi" "\<not> is_terminator_op O_sitofp"
  by (simp_all add: is_terminator_op_def)

lemma preserves_opens_operations [pres]:
  "\<not> is_terminator_op op \<Longrightarrow> preserves (opens X D c) (IBinaryInst_ctor op v1 v2 bb)"
  "\<not> is_terminator_op op \<Longrightarrow> preserves (opens X D c) (FBinaryInst_ctor op v1 v2 bb)"
  "\<not> is_terminator_op op \<Longrightarrow> preserves (opens X D c) (ICmpInst_ctor op v1 v2 bb)"
  "\<not> is_terminator_op op \<Longrightarrow> preserves (opens X D c) (FCmpInst_ctor op v1 v2 bb)"
  unfolding IBinaryInst_ctor_def FBinaryInst_ctor_def ICmpInst_ctor_def FCmpInst_ctor_def CmpInst_ctor_def
  by (intro pres; assumption)+

lemma preserves_opens_others [pres]:
  "preserves (opens X D c) (CallInst_ctor func args bb)"
  "preserves (opens X D c) (GetElementPtrInst_ctor ptr idxs bb)"
  "preserves (opens X D c) (StoreInst_ctor val ptr bb)"
  "preserves (opens X D c) (LoadInst_ctor ptr bb)"
  "preserves (opens X D c) (AllocaInst_ctor t bb)"
  "preserves (opens X D c) (ZextInst_ctor val t bb)"
  "preserves (opens X D c) (FpToSiInst_ctor val t bb)"
  "preserves (opens X D c) (SiToFpInst_ctor val t bb)"
  unfolding CallInst_ctor_def GetElementPtrInst_ctor_def StoreInst_ctor_def LoadInst_ctor_def
    AllocaInst_ctor_def ZextInst_ctor_def FpToSiInst_ctor_def SiToFpInst_ctor_def
  by (intro pres; simp)+

lemmas straight_build_defs =
  build_iadd_def build_isub_def build_imul_def build_isdiv_def build_icmp_eq_def
  build_icmp_ne_def build_icmp_gt_def build_icmp_ge_def build_icmp_lt_def build_icmp_le_def
  build_fcmp_ne_def build_fcmp_lt_def build_fcmp_le_def build_fcmp_ge_def build_fcmp_gt_def
  build_fcmp_eq_def build_fadd_def build_fsub_def build_fmul_def build_fdiv_def
  build_call_def build_gep_def build_store_def build_load_def build_alloca_def build_zext_def
  build_sitofp_def build_fptosi_def

text \<open>All creation functions but the terminators.\<close>

lemma preserves_opens_build [pres]:
  "preserves (opens X D c) (build_iadd v w)" "preserves (opens X D c) (build_isub v w)"
  "preserves (opens X D c) (build_imul v w)" "preserves (opens X D c) (build_isdiv v w)"
  "preserves (opens X D c) (build_icmp_eq v w)" "preserves (opens X D c) (build_icmp_ne v w)"
  "preserves (opens X D c) (build_icmp_gt v w)" "preserves (opens X D c) (build_icmp_ge v w)"
  "preserves (opens X D c) (build_icmp_lt v w)" "preserves (opens X D c) (build_icmp_le v w)"
  "preserves (opens X D c) (build_fcmp_eq v w)" "preserves (opens X D c) (build_fcmp_ne v w)"
  "preserves (opens X D c) (build_fcmp_gt v w)" "preserves (opens X D c) (build_fcmp_ge v w)"
  "preserves (opens X D c) (build_fcmp_lt v w)" "preserves (opens X D c) (build_fcmp_le v w)"
  "preserves (opens X D c) (build_fadd v w)" "preserves (opens X D c) (build_fsub v w)"
  "preserves (opens X D c) (build_fmul v w)" "preserves (opens X D c) (build_fdiv v w)"
  "preserves (opens X D c) (build_call v ws)" "preserves (opens X D c) (build_gep v ws)"
  "preserves (opens X D c) (build_store v w)" "preserves (opens X D c) (build_load v)"
  "preserves (opens X D c) (build_alloca t)" "preserves (opens X D c) (build_zext v t)"
  "preserves (opens X D c) (build_sitofp v t)" "preserves (opens X D c) (build_fptosi v t)"
  unfolding straight_build_defs create_defs by (intro pres; simp)+

section \<open>Terminators and new blocks\<close>

lemma opens_terminator:
  assumes rest: "\<And>i X D c. preserves (opens X D c) (rest i)" and op: "is_terminator_op op"
    and o: "opens X D c s" and run: "bindM (Instruction_ctor t op (Some b)) rest s = Inr (x, s')"
  shows "opens (X - {b}) D c s'"
proof -
  obtain i s1 where s1: "Instruction_ctor t op (Some b) s = Inr (i, s1)" "rest i s1 = Inr (x, s')"
    using run by (auto simp: bindM_Inr_iff)
  have "opens (X - {b}) D c s1" using opens_Instruction_ctor [OF o s1(1)] op by simp
  then show ?thesis using preservesD [OF rest _ s1(2)] by blast
qed

lemma opens_BranchInst_ctor:
  "opens X D c s \<Longrightarrow> BranchInst_ctor cond t f b s = Inr (i, s') \<Longrightarrow> opens (X - {b}) D c s'"
  unfolding BranchInst_ctor_def
  by (erule (1) opens_terminator [rotated 2]) (auto intro!: pres)

lemma opens_ReturnInst_ctor:
  "opens X D c s \<Longrightarrow> ReturnInst_ctor v b s = Inr (i, s') \<Longrightarrow> opens (X - {b}) D c s'"
  unfolding ReturnInst_ctor_def
  by (erule (1) opens_terminator [rotated 2]) (auto intro!: pres)

lemma opens_BasicBlock_create:
  assumes o: "opens X D c s" and run: "BasicBlock_create nm f s = Inr (b, t)"
  shows "b \<notin> D \<and> opens (insert b X) (insert b D) c t"
proof -
  have ok: "ir_ok s" using o by (simp add: opens_def)
  obtain s1 rf where s1: "new_value LabelTy ((if nm = '''' then '''' else ''label_'') @ nm) K_block s = Inr (b, s1)"
    and t: "t = s1\<lparr>bbs := (bbs s1)(b \<mapsto> \<lparr>pre_bbs = [], succ_bbs = [], instr_list = [], bparent = f\<rparr>),
        funcs := (funcs s1)(f \<mapsto> rf\<lparr>basic_blocks := basic_blocks rf @ [b]\<rparr>)\<rparr>"
    using run by (auto simp: BasicBlock_create_def bindM_Inr_iff thenM_def modifyM_def updateM_def returnM_def)
  have o1: "opens X D c s1" by (rule opens_new_value [OF o s1])
  have fresh: "b \<notin> dom (bbs s1)" using new_value_obs(4,10) [OF ok s1] by simp
  have "bbs s1 b = None" using fresh by (simp add: domIff)
  then have q: "instrs t = instrs s1" by (auto simp: instrs_def t fun_eq_iff)
  have nil: "instrs s1 b = []" using fresh by (simp add: instrs_def domIff)
  have k: "kind_of t = kind_of s1" by (simp add: t kind_of_def fun_eq_iff)
  have d: "dom (bbs t) = insert b (dom (bbs s1))" by (auto simp: t)
  have "open_blocks t = insert b (open_blocks s1)"
    using nil by (auto simp: open_blocks_iff q k d set_eq_iff)
  moreover have "ir_ok t" by (rule preservesD [OF preserves_BasicBlock_create ok run])
  ultimately show ?thesis using o1 fresh d by (simp add: opens_def t)
qed

section \<open>Statements about runs\<close>

definition triple :: "('s \<Rightarrow> bool) \<Rightarrow> ('s, 'a) sm \<Rightarrow> ('a \<Rightarrow> 's \<Rightarrow> bool) \<Rightarrow> bool" where
  "triple P m Q \<longleftrightarrow> (\<forall>s x t. P s \<longrightarrow> m s = Inr (x, t) \<longrightarrow> Q x t)"

lemma tripleI: "(\<And>s x t. P s \<Longrightarrow> m s = Inr (x, t) \<Longrightarrow> Q x t) \<Longrightarrow> triple P m Q"
  by (simp add: triple_def)

lemma preserves_triple: "preserves P m \<longleftrightarrow> triple P m (\<lambda>_. P)"
  by (simp add: preserves_def triple_def)

lemma triple_bind: "triple P m R \<Longrightarrow> (\<And>x. triple (R x) (f x) Q) \<Longrightarrow> triple P (bindM m f) Q"
  unfolding triple_def bindM_Inr_iff by blast

lemma triple_then: "triple P m (\<lambda>_. R) \<Longrightarrow> triple R k Q \<Longrightarrow> triple P (thenM m k) Q"
  unfolding thenM_def by (rule triple_bind)

lemma triple_keep: "preserves P m \<Longrightarrow> (\<And>x. triple P (f x) Q) \<Longrightarrow> triple P (bindM m f) Q"
  by (simp add: preserves_triple triple_bind)

lemma triple_keep_then: "preserves P m \<Longrightarrow> triple P k Q \<Longrightarrow> triple P (thenM m k) Q"
  by (simp add: preserves_triple triple_then)

lemma triple_return: "(\<And>s. P s \<Longrightarrow> Q x s) \<Longrightarrow> triple P (returnM x) Q"
  by (simp add: triple_def returnM_def)

lemma triple_weaken: "triple P m Q \<Longrightarrow> (\<And>s. P' s \<Longrightarrow> P s) \<Longrightarrow> (\<And>x s. Q x s \<Longrightarrow> Q' x s) \<Longrightarrow> triple P' m Q'"
  unfolding triple_def by blast

text \<open>
  \<open>running Y sc\<close>: the blocks \<open>Y\<close> are open, apart from the insert block; \<open>closed Y sc\<close>: the
  same, with a terminated insert block. \<open>sc\<close> are the scopes.
\<close>

definition inserts_ok :: "'z cb_scheme \<Rightarrow> bool" where
  "inserts_ok s \<longleftrightarrow> ir_ok s \<and> (\<forall>b. insert_block s = Some b \<longrightarrow> b \<in> dom (bbs s))"

definition running :: "vid set \<Rightarrow> vid scope \<Rightarrow> 'z cb_scheme \<Rightarrow> bool" where
  "running Y sc s \<longleftrightarrow> inserts_ok s \<and> open_blocks s - set_option (insert_block s) = Y \<and> scope s = sc"

definition closed :: "vid set \<Rightarrow> vid scope \<Rightarrow> 'z cb_scheme \<Rightarrow> bool" where
  "closed Y sc s \<longleftrightarrow> inserts_ok s \<and> open_blocks s = Y \<and> set_option (insert_block s) \<inter> Y = {} \<and> scope s = sc"

lemma more_fields:
  "ir.more t = ir.more s \<Longrightarrow> insert_block t = insert_block s"
  "ir.more t' = ir.more s' \<Longrightarrow> scope t' = scope s' \<and> ctx_func t' = ctx_func s'"
  by (cases t; cases s; simp) (cases t'; cases s'; simp)

lemma preserves_running_opens:
  assumes "\<And>X D c. preserves (opens X D c) m"
  shows "preserves (running Y sc) m" "preserves (closed Y sc) m"
proof -
  have "opens (open_blocks s) (dom (bbs s)) (ir.more s) t"
    if "inserts_ok s" "m s = Inr (x, t)" for s x t
  proof -
    have "opens (open_blocks s) (dom (bbs s)) (ir.more s) s" using that(1) by (simp add: opens_def inserts_ok_def)
    then show ?thesis by (rule preservesD [OF assms _ that(2)])
  qed
  then have "inserts_ok t \<and> open_blocks t = open_blocks s \<and> insert_block t = insert_block s \<and> scope t = scope s"
    if "inserts_ok s" "m s = Inr (x, t)" for s x t
    using that more_fields unfolding opens_def inserts_ok_def by metis
  then show "preserves (running Y sc) m" "preserves (closed Y sc) m"
    unfolding preserves_def running_def closed_def by metis+
qed

lemma triple_new_block:
  assumes "\<And>b. b \<notin> Y \<Longrightarrow> triple (running (insert b Y) sc) (f b) Q"
  shows "triple (running Y sc) (bindM (new_block p n) f) Q"
proof (rule tripleI)
  fix s x t
  assume r: "running Y sc s" and run: "bindM (new_block p n) f s = Inr (x, t)"
  obtain b s1 g where s1: "BasicBlock_create (block_name p n) g s = Inr (b, s1)" and rest: "f b s1 = Inr (x, t)"
    using run by (auto simp: bindM_Inr_iff new_block_def cur_function_def nonnull_def getM_def returnM_def
        failM_def split: option.splits)
  have "opens (open_blocks s) (dom (bbs s)) (ir.more s) s"
    using r by (simp add: opens_def running_def inserts_ok_def)
  from opens_BasicBlock_create [OF this s1] have b: "b \<notin> dom (bbs s)"
    and o: "opens (insert b (open_blocks s)) (insert b (dom (bbs s))) (ir.more s) s1" by blast+
  have same: "insert_block s1 = insert_block s" "scope s1 = scope s"
    using o more_fields unfolding opens_def by metis+
  have "open_blocks s \<subseteq> dom (bbs s)" by (auto simp: open_blocks_iff)
  then have "b \<notin> Y" using r b by (auto simp: running_def)
  moreover have "b \<notin> set_option (insert_block s)" using r b by (auto simp: running_def inserts_ok_def)
  then have "running (insert b Y) sc s1"
    using r o same by (auto simp: running_def inserts_ok_def opens_def)
  ultimately show "Q x t" using assms rest by (auto simp: triple_def)
qed

lemma terminator_closes:
  assumes "\<And>b s i s' X D c. opens X D c s \<Longrightarrow> m b s = Inr (i, s') \<Longrightarrow> opens (X - {b}) D c s'"
  shows "triple (running Y sc) (at_block m) (\<lambda>_. closed Y sc)"
proof (rule tripleI)
  fix s x t
  assume r: "running Y sc s" and run: "at_block m s = Inr (x, t)"
  obtain b where b: "insert_block s = Some b" and mb: "m b s = Inr (x, t)"
    using run by (auto simp: at_block_def bindM_Inr_iff get_insert_block_def nonnull_def getM_def returnM_def
        failM_def split: option.splits)
  have "opens (open_blocks s) (dom (bbs s)) (ir.more s) s"
    using r by (simp add: opens_def running_def inserts_ok_def)
  from assms [OF this mb] have o: "opens (open_blocks s - {b}) (dom (bbs s)) (ir.more s) t" .
  have "insert_block t = insert_block s" "scope t = scope s"
    using o more_fields unfolding opens_def by metis+
  then show "closed Y sc t" using r o b by (auto simp: running_def closed_def inserts_ok_def opens_def)
qed

lemma triple_terminators:
  "triple (running Y sc) (build_br b1) (\<lambda>_. closed Y sc)"
  "triple (running Y sc) (build_cond_br v b1 b2) (\<lambda>_. closed Y sc)"
  "triple (running Y sc) (build_ret r) (\<lambda>_. closed Y sc)"
  "triple (running Y sc) build_void_ret (\<lambda>_. closed Y sc)"
  unfolding build_br_def build_cond_br_def build_ret_def build_void_ret_def create_br_def create_cond_br_def
    create_ret_def create_void_ret_def
  by (rule terminator_closes, (erule opens_BranchInst_ctor opens_ReturnInst_ctor)?, assumption)+

lemma triple_set_insert:
  "b \<in> Y \<Longrightarrow> triple (closed Y sc) (set_insert_point (Some b)) (\<lambda>_. running (Y - {b}) sc)"
  by (auto simp: triple_def set_insert_point_def modifyM_def closed_def running_def inserts_ok_def
      open_blocks_iff instrs_def kind_of_def)

lemma closed_running: "closed Y sc s \<Longrightarrow> running Y sc s"
  by (auto simp: closed_def running_def)

lemma triple_at_end: "triple (running Y sc) at_end (\<lambda>e s. if e then closed Y sc s else running Y sc s)"
  by (auto simp: triple_def at_end_def bindM_Inr_iff get_insert_block_def nonnull_def getM_def readM_def
      returnM_def failM_def running_def closed_def open_blocks_def split: option.splits)

section \<open>The visitor\<close>

lemma preserves_running_more:
  assumes "\<And>s x t. m s = Inr (x, t) \<Longrightarrow>
      vals t = vals s \<and> bbs t = bbs s \<and> funcs t = funcs s \<and> next_id t = next_id s \<and>
      insert_block t = insert_block s \<and> scope t = scope s"
  shows "preserves (running Y sc) m" "preserves (closed Y sc) m"
proof -
  have "inserts_ok t = inserts_ok s \<and> open_blocks t = open_blocks s" if "m s = Inr (x, t)" for s x t
  proof -
    note a = assms [OF that]
    have "open_blocks t = open_blocks s"
      by (rule open_blocks_eq) (use a in \<open>simp_all add: instrs_def [abs_def] kind_of_def\<close>)
    moreover have "ir_ok t = ir_ok s" by (rule ir_ok_obs) (use a in simp_all)
    ultimately show ?thesis using a by (simp add: inserts_ok_def)
  qed
  with assms show "preserves (running Y sc) m" "preserves (closed Y sc) m"
    unfolding preserves_def running_def closed_def by metis+
qed

lemma preserves_next_block_id [pres]: "preserves (running Y sc) next_block_id"
  by (rule preserves_running_more) (auto simp: next_block_id_def)

lemma preserves_find_name [pres]: "preserves P (find_name nm)" "preserves P cur_function"
  by (simp_all add: find_name_def cur_function_def pres)

lemma preserves_running_const [pres]:
  "preserves (running Y sc) (CONST_INT n)" "preserves (running Y sc) (CONST_FP x)"
  unfolding CONST_INT_def CONST_FP_def by (rule preserves_running_opens; intro pres)+

lemma preserves_running_build [pres]:
  "preserves (running Y sc) (build_iadd v w)"
  "preserves (running Y sc) (build_isub v w)"
  "preserves (running Y sc) (build_imul v w)"
  "preserves (running Y sc) (build_isdiv v w)"
  "preserves (running Y sc) (build_icmp_eq v w)"
  "preserves (running Y sc) (build_icmp_ne v w)"
  "preserves (running Y sc) (build_icmp_gt v w)"
  "preserves (running Y sc) (build_icmp_ge v w)"
  "preserves (running Y sc) (build_icmp_lt v w)"
  "preserves (running Y sc) (build_icmp_le v w)"
  "preserves (running Y sc) (build_fcmp_eq v w)"
  "preserves (running Y sc) (build_fcmp_ne v w)"
  "preserves (running Y sc) (build_fcmp_gt v w)"
  "preserves (running Y sc) (build_fcmp_ge v w)"
  "preserves (running Y sc) (build_fcmp_lt v w)"
  "preserves (running Y sc) (build_fcmp_le v w)"
  "preserves (running Y sc) (build_fadd v w)"
  "preserves (running Y sc) (build_fsub v w)"
  "preserves (running Y sc) (build_fmul v w)"
  "preserves (running Y sc) (build_fdiv v w)"
  "preserves (running Y sc) (build_call v ws)"
  "preserves (running Y sc) (build_gep v ws)"
  "preserves (running Y sc) (build_store v w)"
  "preserves (running Y sc) (build_load v)"
  "preserves (running Y sc) (build_alloca t)"
  "preserves (running Y sc) (build_zext v t)"
  "preserves (running Y sc) (build_sitofp v t)"
  "preserves (running Y sc) (build_fptosi v t)"
  by (rule preserves_running_opens; intro pres)+

lemma preserves_running_convert [pres]:
  "preserves (running Y sc) (cast_value_to_type v t)"
  "preserves (running Y sc) (load_or_decay v)"
  "preserves (running Y sc) (load_if_scalar v)"
  "preserves (running Y sc) (variable_of nm)"
  "preserves (running Y sc) (subscripted_type v)"
  "preserves (running Y sc) (callee_of nm n)"
  unfolding cast_value_to_type_def load_or_decay_def load_if_scalar_def variable_of_def
    subscripted_type_def callee_of_def by (intro pres)+

lemma preserves_running_convert2 [pres]:
  "preserves (running Y sc) (prepare_condition v)"
  "preserves (running Y sc) (promote_operands v w)"
  "preserves (running Y sc) (store_assigned p e)"
  unfolding prepare_condition_def promote_operands_def store_assigned_def by (intro pres)+

lemma preserves_case_prod [pres]: "(\<And>a b. preserves P (f a b)) \<Longrightarrow> preserves P (case p of (a, b) \<Rightarrow> f a b)"
  by (cases p) simp

lemma preserves_running_operation [pres]:
  "preserves (running Y sc) (float_compare op v w)" "preserves (running Y sc) (int_compare op v w)"
  "preserves (running Y sc) (add_operation aop fl v w)"
  "preserves (running Y sc) (mul_operation mop fl v w)"
proof -
  show "preserves (running Y sc) (float_compare op v w)" "preserves (running Y sc) (int_compare op v w)"
    by (cases op; simp; intro pres)+
  show "preserves (running Y sc) (add_operation aop fl v w)" by (cases aop; simp; intro pres impI conjI)
  show "preserves (running Y sc) (mul_operation mop fl v w)" by (cases mop; simp; intro pres impI conjI)
qed

lemma preserves_running_arithmetic [pres]:
  assumes "\<And>fl v w. preserves (running Y sc) (f fl v w)"
  shows "preserves (running Y sc) (arithmetic f msg v w)"
  unfolding arithmetic_def by (intro pres assms)

lemma triple_close_then:
  "triple (running Y sc) m (\<lambda>_. closed Y sc) \<Longrightarrow> (\<And>x. triple (closed Y sc) (f x) Q) \<Longrightarrow>
   triple (running Y sc) (bindM m f) Q"
  by (rule triple_bind)

lemma triple_set_then:
  "b \<in> Y \<Longrightarrow> triple (running (Y - {b}) sc) k Q \<Longrightarrow> triple (closed Y sc) (thenM (set_insert_point (Some b)) k) Q"
  by (rule triple_then [OF triple_set_insert])

lemma preserves_subscript [pres]: "preserves (running Y sc) (subscript var t index)"
  unfolding preserves_triple subscript_def
proof (rule triple_keep, intro pres, rule triple_keep, intro pres, rule triple_keep, intro pres,
    rule triple_keep, intro pres, rule triple_keep, intro pres, rule triple_new_block, rule triple_new_block,
    rule triple_close_then [OF triple_terminators(2)], rule triple_set_then, simp)
  fix neg cont idx n
  assume b: "neg \<notin> Y" "cont \<notin> insert neg Y"
  then have e: "insert cont (insert neg Y) - {neg} = insert cont Y" "insert cont Y - {cont} = Y" by auto
  show "triple (running (insert cont (insert neg Y) - {neg}) sc)
      (bindM (find_name ''neg_idx_except'') (\<lambda>except_func. bindM (build_call except_func []) (\<lambda>_.
       bindM (build_br cont) (\<lambda>_. thenM (set_insert_point (Some cont))
        (if is_pointer_type t then bindM (build_load var) (\<lambda>p. build_gep p [idx])
         else bindM (CONST_INT 0) (\<lambda>z. build_gep var [z, idx]))))))
      (\<lambda>_. running Y sc)"
    unfolding e(1)
    by (rule triple_keep, intro pres, rule triple_keep, intro pres,
        rule triple_close_then [OF triple_terminators(1)], rule triple_set_then, simp,
        unfold e(2), fold preserves_triple, intro pres)
qed

lemma preserves_visit_expressions [pres]:
  "preserves (running Y sc) (visit_expression e :: ('z cb_scheme, vid) sm)" "preserves (running Y sc) (visit_additive a :: ('z cb_scheme, vid) sm)"
  "preserves (running Y sc) (visit_term tm :: ('z cb_scheme, vid) sm)" "preserves (running Y sc) (visit_factor f :: ('z cb_scheme, vid) sm)"
  "preserves (running Y sc) (visit_var v :: ('z cb_scheme, vid) sm)" "preserves (running Y sc) (visit_call c :: ('z cb_scheme, vid) sm)"
  "preserves (running Y sc) (visit_args as ts :: ('z cb_scheme, vid list) sm)"
  by (induction e and a and tm and f and v and c and as ts
      rule: visit_expression_visit_additive_visit_term_visit_factor_visit_var_visit_call_visit_args.induct)
    (simp_all add: pres visit_num_def split: CminusType.split)

section \<open>Statements\<close>

definition running_in :: "vid set \<Rightarrow> vid scope \<Rightarrow> 'z cb_scheme \<Rightarrow> bool" where
  "running_in Y sc s \<longleftrightarrow> (\<exists>sc'. running Y sc' s \<and> scope_exit sc' = Inr sc)"

lemma preserves_running_in:
  "(\<And>sc'. preserves (running Y sc') m) \<Longrightarrow> preserves (running_in Y sc) m"
  unfolding preserves_def running_in_def by blast

lemma preserves_running_in_ops [pres]:
  "preserves (running_in Y sc) (build_alloca t)" "preserves (running_in Y sc) (build_store v w)"
  "preserves (running_in Y sc) (ConstantZero_get t)"
  "preserves (running_in Y sc) (GlobalVariable_create nm t k init)"
  by (rule preserves_running_in, (intro pres | rule preserves_running_opens; intro pres))+

lemma running_scope:
  "running Y sc s \<Longrightarrow> running Y sc' (s\<lparr>scope := sc'\<rparr>)"
proof -
  assume r: "running Y sc s"
  let ?t = "s\<lparr>scope := sc'\<rparr>"
  have "open_blocks ?t = open_blocks s"
    by (rule open_blocks_eq) (simp_all add: instrs_def [abs_def] kind_of_def)
  moreover have "ir_ok ?t = ir_ok s" by (rule ir_ok_obs) simp_all
  ultimately show ?thesis using r by (simp add: running_def inserts_ok_def)
qed

lemma preserves_push_name [pres]: "preserves (running_in Y sc) (push_name nm v)"
  unfolding push_name_def
proof (rule preserves_updateM)
  fix s t :: "'a cb_scheme"
  assume "running_in Y sc s" and "bindR (scope_push nm v (scope s)) (\<lambda>(b, sc). Inr (s\<lparr>scope := sc\<rparr>)) = Inr t"
  then obtain sc1 b sc2 where r: "running Y sc1 s" "scope_exit sc1 = Inr sc"
    and p: "scope_push nm v sc1 = Inr (b, sc2)" and t: "t = s\<lparr>scope := sc2\<rparr>"
    by (auto simp: running_in_def running_def)
  then show "running_in Y sc t"
    using running_scope [OF r(1)] sc.exit_push [OF p] unfolding running_in_def by metis
qed

lemma triple_enter: "triple (running Y sc) enter_scope (\<lambda>_. running_in Y sc)"
proof (rule tripleI)
  fix s x and t :: "'a cb_scheme"
  assume r: "running Y sc s" and run: "enter_scope s = Inr (x, t)"
  then have "t = s\<lparr>scope := scope_enter sc\<rparr>" by (auto simp: enter_scope_def modifyM_def running_def)
  then show "running_in Y sc t" using running_scope [OF r] sc.exit_enter [of sc] unfolding running_in_def by metis
qed

lemma triple_exit: "triple (running_in Y sc) exit_scope (\<lambda>_. running Y sc)"
proof (rule tripleI)
  fix s x and t :: "'a cb_scheme"
  assume "running_in Y sc s" and run: "exit_scope s = Inr (x, t)"
  then obtain sc' where r: "running Y sc' s" "scope_exit sc' = Inr sc" by (auto simp: running_in_def)
  then have "t = s\<lparr>scope := sc\<rparr>" using run by (auto simp: exit_scope_def updateM_def running_def)
  then show "running Y sc t" using running_scope [OF r(1)] by simp
qed

lemma preserves_visit_var_declaration [pres]: "preserves (running_in Y sc) (visit_var_declaration d)"
  unfolding visit_var_declaration_def Let_def by (intro pres)

lemma preserves_visit_declarations [pres]: "preserves (running_in Y sc) (visit_declarations ds)"
  by (induction ds) (simp_all add: pres)

lemma triple_br_unless:
  "triple (running Y sc) (br_unless_terminated b) (\<lambda>_. closed Y sc)"
  unfolding br_unless_terminated_def
proof (rule triple_bind [OF triple_at_end])
  fix e
  show "triple (\<lambda>s. if e then closed Y sc s else running Y sc s)
      (if e then returnM () else bindM (build_br b) (\<lambda>_. returnM ())) (\<lambda>_. closed Y sc)"
    by (cases e) (auto intro!: triple_return triple_close_then triple_terminators)
qed

lemma triple_running: "triple P m (\<lambda>_. closed Y sc) \<Longrightarrow> triple P m (\<lambda>_. running Y sc)"
  by (erule triple_weaken) (auto intro: closed_running)

lemma preserves_visit_return [pres]: "preserves (running Y sc) (visit_return eo)"
  unfolding visit_return_def
proof (rule preserves_option)
  show "preserves (running Y sc) (bindM build_void_ret (\<lambda>_. returnM ()))"
    unfolding preserves_triple
    by (rule triple_running, rule triple_close_then [OF triple_terminators(4)], rule triple_return)
next
  fix e
  show "preserves (running Y sc) (bindM (visit_expression e) (\<lambda>v. bindM (load_if_scalar v) (\<lambda>loaded.
      bindM cur_function (\<lambda>f. bindM (readM (\<lambda>s. get_return_type s f)) (\<lambda>ret_type.
      bindM (cast_value_to_type loaded ret_type) (\<lambda>r. bindM (build_ret (Some r)) (\<lambda>_. returnM ())))))))"
    unfolding preserves_triple
    by (rule triple_running, (rule triple_keep, intro pres)+,
        rule triple_close_then [OF triple_terminators(3)], rule triple_return)
qed

lemma preserves_selection:
  assumes "\<And>Y. preserves (running Y sc) m" and "\<And>Y. preserves (running Y sc) k"
  shows "preserves (running Y sc)
    (bindM (new_block ''then'' n) (\<lambda>then_block. bindM (new_block ''else'' n) (\<lambda>else_block.
     bindM (new_block ''end'' n) (\<lambda>end_block. bindM (build_cond_br cond then_block else_block) (\<lambda>_.
     thenM (set_insert_point (Some then_block)) (thenM m (thenM (br_unless_terminated end_block)
    (thenM (set_insert_point (Some else_block)) (thenM k (thenM (br_unless_terminated end_block)
           (set_insert_point (Some end_block))))))))))))"
  unfolding preserves_triple
proof (rule triple_new_block, rule triple_new_block, rule triple_new_block,
    rule triple_close_then [OF triple_terminators(2)], rule triple_set_then, simp)
  fix t e d
  assume b: "t \<notin> Y" "e \<notin> insert t Y" "d \<notin> insert e (insert t Y)"
  then have s: "insert d (insert e (insert t Y)) - {t} = insert d (insert e Y)"
    "insert d (insert e Y) - {e} = insert d Y" "insert d Y - {d} = Y" by auto
  show "triple (running (insert d (insert e (insert t Y)) - {t}) sc)
      (thenM m (thenM (br_unless_terminated d) (thenM (set_insert_point (Some e))
      (thenM k (thenM (br_unless_terminated d) (set_insert_point (Some d))))))) (\<lambda>_. running Y sc)"
    unfolding s(1)
    by (rule triple_keep_then [OF assms(1)], rule triple_then [OF triple_br_unless], rule triple_set_then, simp,
        unfold s(2), rule triple_keep_then [OF assms(2)], rule triple_then [OF triple_br_unless],
        rule triple_set_insert [of d "insert d Y" sc, unfolded s(3)], simp)
qed

lemma preserves_iteration:
  assumes "\<And>Y. preserves (running Y sc) c" and "\<And>Y v. preserves (running Y sc) (g v)"
    and "\<And>Y. preserves (running Y sc) m"
  shows "preserves (running Y sc)
    (bindM (new_block ''while_entry'' n) (\<lambda>entry_block. bindM (new_block ''while_body'' n) (\<lambda>body_block.
     bindM (new_block ''while_end'' n) (\<lambda>end_block. bindM (build_br entry_block) (\<lambda>_.
     thenM (set_insert_point (Some entry_block)) (bindM c (\<lambda>v. bindM (g v) (\<lambda>cond.
     bindM (build_cond_br cond body_block end_block) (\<lambda>_. thenM (set_insert_point (Some body_block))
    (thenM m (thenM (br_unless_terminated entry_block) (set_insert_point (Some end_block)))))))))))))"
  unfolding preserves_triple
proof (rule triple_new_block, rule triple_new_block, rule triple_new_block,
    rule triple_close_then [OF triple_terminators(1)], rule triple_set_then, simp)
  fix t e d
  assume b: "t \<notin> Y" "e \<notin> insert t Y" "d \<notin> insert e (insert t Y)"
  then have s: "insert d (insert e (insert t Y)) - {t} = insert d (insert e Y)"
    "insert d (insert e Y) - {e} = insert d Y" "insert d Y - {d} = Y" by auto
  show "triple (running (insert d (insert e (insert t Y)) - {t}) sc)
      (bindM c (\<lambda>v. bindM (g v) (\<lambda>cond. bindM (build_cond_br cond e d) (\<lambda>_.
       thenM (set_insert_point (Some e)) (thenM m (thenM (br_unless_terminated t) (set_insert_point (Some d))))))))
      (\<lambda>_. running Y sc)"
    unfolding s(1)
    by (rule triple_keep [OF assms(1)], rule triple_keep [OF assms(2)],
        rule triple_close_then [OF triple_terminators(2)], rule triple_set_then, simp, unfold s(2),
        rule triple_keep_then [OF assms(3)], rule triple_then [OF triple_br_unless],
        rule triple_set_insert [of d "insert d Y" sc, unfolded s(3)], simp)
qed

lemma preserves_visit_statement [pres]:
  "preserves (running Y sc) (visit_statement st :: ('z cb_scheme, unit) sm)"
  "preserves (running Y sc) (visit_statements sts :: ('z cb_scheme, unit) sm)"
  "preserves (running Y sc) (visit_else els :: ('z cb_scheme, unit) sm)"
proof (induction st and sts and els arbitrary: Y sc and Y sc and Y sc
    rule: visit_statement_visit_statements_visit_else.induct)
  case (1 decls stmts)
  show ?case unfolding visit_statement.simps preserves_triple
    by (rule triple_then [OF triple_enter], rule triple_keep_then, intro pres, rule triple_keep_then,
        rule preserves_running_in, rule 1, rule triple_exit)
next
  case (2 eo)
  show ?case by (cases eo) (simp_all add: pres)
next
  case (3 e st els)
  show ?case unfolding visit_statement.simps by (intro pres preserves_selection 3)
next
  case (4 e st)
  show ?case unfolding visit_statement.simps by (intro preserves_iteration pres 4)
next
  case (7 st rest)
  show ?case unfolding visit_statements.simps preserves_triple
  proof (rule triple_keep_then [OF 7(1)], rule triple_bind [OF triple_at_end])
    fix e
    show "triple (\<lambda>s. if e then closed Y sc s else running Y sc s)
        (if e then returnM () else visit_statements rest :: ('z cb_scheme, unit) sm) (\<lambda>_. running Y sc)"
    proof (cases e)
      case True
      then show ?thesis by (auto intro!: triple_return closed_running)
    next
      case False
      show ?thesis using 7(2) [OF False, of Y sc] False by (simp add: preserves_triple)
    qed
  qed
qed (simp_all add: pres)

section \<open>Modules\<close>

text \<open>Between declarations: no open block, and only the outermost scope.\<close>

definition idle :: "'z cb_scheme \<Rightarrow> bool" where
  "idle s \<longleftrightarrow> ir_ok s \<and> open_blocks s = {} \<and> scope_exit (scope s) = Inr []"

lemma preserves_idle_opens:
  fixes m :: "('z cb_scheme, 'a) sm"
  assumes "\<And>X D c. preserves (opens X D c) m"
  shows "preserves idle m"
proof (rule preservesI)
  fix s x and t :: "'z cb_scheme"
  assume i: "idle s" and run: "m s = Inr (x, t)"
  have "opens {} (dom (bbs s)) (ir.more s) s" using i by (simp add: idle_def opens_def)
  from preservesD [OF assms this run] have o: "opens {} (dom (bbs s)) (ir.more s) t" .
  then have "scope t = scope s" using more_fields(2) unfolding opens_def by metis
  then show "idle t" using o i by (simp add: idle_def opens_def)
qed

lemma idle_obs:
  assumes "idle s" and "vals t = vals s" "bbs t = bbs s" "funcs t = funcs s" "next_id t = next_id s"
    and "scope_exit (scope t) = scope_exit (scope s)"
  shows "idle t"
proof -
  have "open_blocks t = open_blocks s"
    by (rule open_blocks_eq) (use assms in \<open>simp_all add: instrs_def [abs_def] kind_of_def\<close>)
  moreover have "ir_ok t = ir_ok s" by (rule ir_ok_obs) (use assms in simp_all)
  ultimately show ?thesis using assms by (simp add: idle_def)
qed

lemma preserves_idle_push [pres]: "preserves idle (push_name nm v)"
  unfolding push_name_def
proof (rule preserves_updateM)
  fix s t :: "'a cb_scheme"
  assume i: "idle s" and "bindR (scope_push nm v (scope s)) (\<lambda>(b, sc). Inr (s\<lparr>scope := sc\<rparr>)) = Inr t"
  then obtain b sc2 where p: "scope_push nm v (scope s) = Inr (b, sc2)" and t: "t = s\<lparr>scope := sc2\<rparr>" by auto
  show "idle t" by (rule idle_obs [OF i]) (simp_all add: t sc.exit_push [OF p])
qed

lemma preserves_idle_var [pres]: "preserves idle (visit_var_declaration d)"
proof -
  have "preserves idle (build_alloca t)" "preserves idle (ConstantZero_get t)"
    "preserves idle (GlobalVariable_create nm t k init)" for t nm k init
    by (rule preserves_idle_opens, intro pres)+
  then show ?thesis unfolding visit_var_declaration_def Let_def by (intro pres)
qed

lemma triple_entry_block:
  assumes "\<And>sc. scope_exit sc = Inr [] \<Longrightarrow> triple (running {} sc) k Q"
  shows "triple idle (bindM (BasicBlock_create nm f) (\<lambda>b. thenM (set_insert_point (Some b)) k)) Q"
proof (rule tripleI)
  fix s x t
  assume i: "idle s" and run: "bindM (BasicBlock_create nm f) (\<lambda>b. thenM (set_insert_point (Some b)) k) s = Inr (x, t)"
  obtain b s1 where s1: "BasicBlock_create nm f s = Inr (b, s1)" and rest: "k (s1\<lparr>insert_block := Some b\<rparr>) = Inr (x, t)"
    using run by (auto simp: bindM_Inr_iff thenM_def set_insert_point_def modifyM_def)
  have "opens {} (dom (bbs s)) (ir.more s) s" using i by (simp add: idle_def opens_def)
  from opens_BasicBlock_create [OF this s1]
  have o: "opens {b} (insert b (dom (bbs s))) (ir.more s) s1" by simp
  have sc: "scope s1 = scope s" using o more_fields(2) unfolding opens_def by metis
  let ?t = "s1\<lparr>insert_block := Some b\<rparr>"
  have "open_blocks ?t = open_blocks s1"
    by (rule open_blocks_eq) (simp_all add: instrs_def [abs_def] kind_of_def)
  then have "running {} (scope s) ?t" using o sc by (auto simp: running_def inserts_ok_def opens_def)
  then show "Q x t" using assms [of "scope s"] i rest by (auto simp: triple_def idle_def)
qed

lemma preserves_store_params [pres]: "preserves (running_in Y sc) (store_params ps)"
  by (induction ps rule: store_params.induct) (auto intro!: pres)

lemma triple_finish: "triple (running_in Y sc) finish_function (\<lambda>_ s. \<exists>sc'. closed Y sc' s \<and> scope_exit sc' = Inr sc)"
proof -
  have fin: "triple (running Y sc') finish_function (\<lambda>_. closed Y sc')" for sc'
    unfolding finish_function_def
  proof (rule triple_bind [OF triple_at_end])
    fix e
    have ret: "triple (running Y sc') (bindM build_void_ret (\<lambda>_. returnM ())) (\<lambda>_. closed Y sc')"
      "triple (running Y sc') (bindM (build_ret r) (\<lambda>_. returnM ())) (\<lambda>_. closed Y sc')" for r
      by (rule triple_close_then [OF triple_terminators(4)] triple_close_then [OF triple_terminators(3)],
          rule triple_return, assumption)+
    have "triple (running Y sc') (bindM cur_function (\<lambda>f. bindM (readM (\<lambda>s. get_return_type s f)) (\<lambda>rt.
       if is_void_type rt then bindM build_void_ret (\<lambda>_. returnM ())
       else if is_float_type rt then bindM (CONST_FP 0) (\<lambda>z. bindM (build_ret (Some z)) (\<lambda>_. returnM ()))
       else bindM (CONST_INT 0) (\<lambda>z. bindM (build_ret (Some z)) (\<lambda>_. returnM ()))))) (\<lambda>_. closed Y sc')"
      by (rule triple_keep, intro pres, rule triple_keep, intro pres)
        (auto intro!: ret triple_keep [OF preserves_running_const(1)] triple_keep [OF preserves_running_const(2)])
    then show "triple (\<lambda>s. if e then closed Y sc' s else running Y sc' s)
       (if e then returnM () else bindM cur_function (\<lambda>f. bindM (readM (\<lambda>s. get_return_type s f)) (\<lambda>rt.
       if is_void_type rt then bindM build_void_ret (\<lambda>_. returnM ())
       else if is_float_type rt then bindM (CONST_FP 0) (\<lambda>z. bindM (build_ret (Some z)) (\<lambda>_. returnM ()))
       else bindM (CONST_INT 0) (\<lambda>z. bindM (build_ret (Some z)) (\<lambda>_. returnM ()))))) (\<lambda>_. closed Y sc')"
      by (cases e) (auto intro!: triple_return)
  qed
  show ?thesis
  proof (rule tripleI)
    fix s x and t :: "'a cb_scheme"
    assume "running_in Y sc s" "finish_function s = Inr (x, t)"
    then show "\<exists>sc'. closed Y sc' t \<and> scope_exit sc' = Inr sc"
      using fin unfolding running_in_def triple_def by blast
  qed
qed

lemma triple_exit_idle:
  assumes "scope_exit sc = Inr []"
  shows "triple (\<lambda>s. \<exists>sc'. closed {} sc' s \<and> scope_exit sc' = Inr sc) exit_scope (\<lambda>_. idle)"
proof (rule tripleI)
  fix s x and t :: "'a cb_scheme"
  assume "\<exists>sc'. closed {} sc' s \<and> scope_exit sc' = Inr sc" and run: "exit_scope s = Inr (x, t)"
  then obtain sc' where c: "closed {} sc' s" "scope_exit sc' = Inr sc" by blast
  then have t: "t = s\<lparr>scope := sc\<rparr>" using run by (auto simp: exit_scope_def updateM_def closed_def)
  have "open_blocks t = open_blocks s"
    by (rule open_blocks_eq) (simp_all add: t instrs_def [abs_def] kind_of_def)
  moreover have "ir_ok t = ir_ok s" by (rule ir_ok_obs) (simp_all add: t)
  ultimately show "idle t" using c assms by (simp add: idle_def closed_def inserts_ok_def t)
qed

lemma preserves_idle_declaration [pres]: "preserves idle (visit_declaration d)"
proof (cases d)
  case (Var_declaration v)
  then show ?thesis by (simp add: pres)
next
  case (ASTFunDeclaration t nm params body)
  have F: "preserves idle (Function_create rt ps nm)" for rt ps
    by (rule preserves_idle_opens) (intro pres)
  have C: "preserves idle (modifyM (\<lambda>s. s\<lparr>ctx_func := Some f\<rparr>))" for f
    by (rule preserves_modifyM) (erule idle_obs, simp_all)
  show ?thesis
    unfolding ASTFunDeclaration visit_declaration.simps preserves_triple
    apply (rule triple_keep, intro pres, rule triple_keep, intro pres, rule triple_keep, rule F)
    apply (rule triple_keep_then, intro pres, rule triple_keep_then, rule C, rule triple_entry_block)
    apply (rule triple_then [OF triple_enter], rule triple_keep, intro pres, rule triple_keep_then, intro pres)
    apply (rule triple_keep_then, rule preserves_running_in, intro pres)
    apply (rule triple_then [OF triple_finish], erule triple_exit_idle)
    done
qed

lemma idle_terminated:
  assumes "idle s" and "b \<in> dom (bbs s)"
  shows "is_terminated s b = Inr True"
proof -
  have nb: "b \<notin> open_blocks s" and ok: "listed_ok (kind_of s) b (instrs s b)"
    using assms by (auto simp: idle_def ir_ok_def placed_ok_def)
  obtain r where r: "bbs s b = Some r" using assms(2) by blast
  have ib: "instrs s b = instr_list r" by (simp add: instrs_def r)
  have ne: "instr_list r \<noteq> []" using nb r ib by (auto simp: open_blocks_iff)
  then obtain op where "kind_of s (last (instr_list r)) = Some (K_instr op (Some b))"
    using ok last_in_set [OF ne] unfolding listed_ok_def ib by blast
  then show ?thesis using nb r ne ib by (auto simp: is_terminated_def open_blocks_iff)
qed

lemma idle_empty: "idle (empty_cb\<lparr>scope := [Map.empty]\<rparr>)"
proof -
  have "uses_of empty_cb = (\<lambda>v. [])" "operand_at empty_cb = (\<lambda>u i. None)"
    by (simp_all add: uses_of_def operand_at_def ops_of_def empty_cb_def fun_eq_iff)
  then have "use_def_ok empty_cb" by (simp add: use_def_ok_def)
  then have "ir_ok empty_cb" by (simp add: ir_ok_defs graph_defs) (simp add: empty_cb_def)
  then have "ir_ok (empty_cb\<lparr>scope := [Map.empty]\<rparr>)" by (subst ir_ok_obs [of _ empty_cb]) simp_all
  moreover have "open_blocks (empty_cb\<lparr>scope := [Map.empty]\<rparr>) = {}"
    by (auto simp: open_blocks_iff empty_cb_def)
  ultimately show ?thesis by (simp add: idle_def scope_exit_def)
qed

lemma visit_program_idle:
  assumes "build_module p = Inr (u, s)"
  shows "idle s"
proof -
  have F: "preserves idle (Function_create rt ps nm)" for rt ps nm
    by (rule preserves_idle_opens) (intro pres)
  have P: "preserves idle (visit_program p)" by (cases p) (simp add: pres)
  obtain s1 v where s1: "CminusfBuilder_init empty_cb = Inr (v, s1)" and rest: "visit_program p s1 = Inr (u, s)"
    using assms by (auto simp: build_module_def thenM_def bindM_Inr_iff)
  have "idle s1"
  proof -
    text \<open>The functions are made in the empty stack of scopes, which the first scope then replaces.\<close>
    define start :: "cb \<Rightarrow> bool" where "start = (\<lambda>s. ir_ok s \<and> open_blocks s = {} \<and> scope s = [])"
    have G: "preserves start (Function_create rt ps nm)" for rt ps nm
    proof (rule preservesI)
      fix s x t assume a: "start s" and r: "Function_create rt ps nm s = Inr (x, t)"
      have "opens {} (dom (bbs s)) (ir.more s) s" using a by (simp add: start_def opens_def)
      from opens_Function_create [OF this r] have o: "opens {} (dom (bbs s)) (ir.more s) t" .
      then have "scope t = scope s" using more_fields(2) unfolding opens_def by metis
      then show "start t" using o a by (simp add: start_def opens_def)
    qed
    have E: "triple start enter_scope (\<lambda>_. idle)"
    proof (rule tripleI)
      fix s x t assume a: "start s" and r: "enter_scope s = Inr (x, t)"
      then have t: "t = s\<lparr>scope := [Map.empty]\<rparr>" by (auto simp: enter_scope_def modifyM_def start_def scope_enter_def)
      have "open_blocks t = open_blocks s"
        by (rule open_blocks_eq) (simp_all add: t instrs_def [abs_def] kind_of_def)
      moreover have "ir_ok t = ir_ok s" by (rule ir_ok_obs) (simp_all add: t)
      ultimately show "idle t" using a by (simp add: idle_def start_def t scope_exit_def)
    qed
    have "idle (empty_cb\<lparr>scope := [Map.empty]\<rparr>)" by (rule idle_empty)
    then have "start empty_cb"
      using ir_ok_obs [of "empty_cb\<lparr>scope := [Map.empty]\<rparr>" empty_cb]
      by (auto simp: start_def idle_def open_blocks_iff empty_cb_def)
    moreover have "triple start CminusfBuilder_init (\<lambda>_. idle)"
      unfolding CminusfBuilder_init_def
      by (rule triple_keep [OF G], rule triple_keep [OF G], rule triple_keep [OF G], rule triple_keep [OF G],
          rule triple_then [OF E], fold preserves_triple, intro pres)
    ultimately show ?thesis using s1 by (simp add: triple_def)
  qed
  then show ?thesis using preservesD [OF P _ rest] by blast
qed

text \<open>
  C1. A module that the AST visitor has built (for any program on which it does not abort)
  is consistent: exact use lists, matching predecessor and successor lists, instructions
  in the block they name and terminators only at the end of a block, blocks listed once in
  their function; every block of the module ends in a terminator; and only the outermost
  scope is left.
\<close>

theorem built_programs_are_well_formed:
  assumes "build_module p = Inr (u, s)"
  shows "use_def_ok s \<and> cfg_ok s \<and> placed_ok s \<and> blocks_ok s \<and>
    (\<forall>b \<in> dom (bbs s). is_terminated s b = Inr True) \<and> in_global (scope s)"
proof -
  have i: "idle s" by (rule visit_program_idle [OF assms])
  have "in_global (scope s)"
    using i by (auto simp: idle_def scope_exit_def in_global_def split: list.splits)
  moreover have "is_terminated s b = Inr True" if "b \<in> dom (bbs s)" for b
    using idle_terminated [OF i that] .
  ultimately show ?thesis using i by (simp add: idle_def ir_ok_def)
qed

text \<open>Evaluation: the monad applied to a state, and the definitions that a run unfolds.\<close>

lemma sm_apply:
  "returnM x s = Inr (x, s)"
  "bindM m f s = (case m s of Inl e \<Rightarrow> Inl e | Inr p \<Rightarrow> (case p of (x, s') \<Rightarrow> f x s'))"
  "failM e s = Inl e"
  "getM g s = Inr (g s, s)"
  "modifyM h s = Inr ((), h s)"
  "readM r s = (case r s of Inl e \<Rightarrow> Inl e | Inr x \<Rightarrow> Inr (x, s))"
  "updateM k s = (case k s of Inl e \<Rightarrow> Inl e | Inr s' \<Rightarrow> Inr ((), s'))"
  "guardM b e = (if b then returnM () else failM e)"
  "thenM m k' s = (case m s of Inl e \<Rightarrow> Inl e | Inr p \<Rightarrow> (case p of (x, s') \<Rightarrow> k' s'))"
  by (simp_all add: sm_defs bindR_def split: sum.splits prod.splits)

lemma bind_weak:
  "m = m' \<Longrightarrow> bindM m f s = bindM m' f s" "m = m' \<Longrightarrow> thenM m k s = thenM m' k s"
  by simp_all

lemmas visit_eval = sm_apply Let_def bindR_def guardR_def deref_def liftR_def new_value_def Function_create_def
  push_name_def find_name_def scope_push_def scope_enter_def scope_exit_def enter_scope_def exit_scope_def
  in_global_def next_block_id_def block_name_def new_block_def cur_function_def at_end_def nonnull_def
  param_ty_def return_ty_def FunctionType_ctor_def PointerType_ctor_def ArrayType_ctor_def
  BasicBlock_create_def set_insert_point_def get_insert_block_def at_block_def
  visit_return_def visit_var_declaration_def finish_function_def br_unless_terminated_def visit_num_def
  i_val_def variable_of_def store_assigned_def arithmetic_def promote_operands_def prepare_condition_def
  load_if_scalar_def cast_value_to_type_def CONST_INT_def ConstantInt_get_int_def
  ty_of_def type_of_def instr_op_def get_return_type_def get_function_type_of_def bb_return_type_def
  build_defs create_defs ReturnInst_ctor_def BranchInst_ctor_def AllocaInst_ctor_def LoadInst_ctor_def
  StoreInst_ctor_def IBinaryInst_ctor_def ICmpInst_ctor_def CmpInst_ctor_def Instruction_ctor_def
  add_instruction_def is_terminated_def upd_bb_def add_pre_basic_block_def add_succ_basic_block_def
  add_op_def add_operand_def add_use_def upd_val_def
  is_valid_return_type_def is_valid_argument_type_def is_valid_element_type_def isBinary_def type_tests

section \<open>An example\<close>

text \<open>\<open>int main(void) { while (1) return 2; }\<close>\<close>

definition num_expression :: "u32 \<Rightarrow> ast_expression" where
  "num_expression n = ASTSimpleExpression
     (ASTAdditiveExpression None OP_PLUS (ASTTerm None OP_MUL (Factor_num (ASTNum TYPE_INT n)))) None OP_LE"

definition demo_program :: ast_program where
  "demo_program = ASTProgram [ASTFunDeclaration TYPE_INT ''main'' []
     (ASTCompoundStmt [] [ASTIterationStmt (num_expression 1) (ASTReturnStmt (Some (num_expression 2)))])]"

lemmas demo_defs = demo_program_def num_expression_def
  build_module_def CminusfBuilder_init_def empty_cb_def

lemma demo_program_builds: "\<not> isl (build_module demo_program)"
  by (simp add: demo_defs visit_eval cong: bind_weak)

theorem built_programs_witness:
  "\<exists>u s. build_module demo_program = Inr (u, s) \<and>
     (\<forall>b \<in> dom (bbs s). is_terminated s b = Inr True) \<and> in_global (scope s)"
proof -
  obtain u s where run: "build_module demo_program = Inr (u, s)"
    using demo_program_builds by (cases "build_module demo_program") auto
  show ?thesis using built_programs_are_well_formed [OF run] run by blast
qed

end
