(* ===== verification/Worklist.thy ===== *)
theory Worklist
  imports Prelude
begin

text \<open>
  Loops of the passes. \<open>whileR\<close> is a \<open>while\<close> loop whose body may abort; \<open>None\<close> is a loop
  that does not end. The locale \<open>worklist\<close> is the contract of a worklist that marks what
  is reachable: a step takes the first element, marks what it leads to and queues what
  was not marked before. Its lemmas show that the loop ends and that exactly the
  reachable elements are marked; the passes interpret it on their own steps.
\<close>

section \<open>\<open>while\<close>\<close>

partial_function (option) whileR :: "('s \<Rightarrow> bool) \<Rightarrow> ('s \<Rightarrow> 's res) \<Rightarrow> 's \<Rightarrow> 's res option" where
  "whileR b c s =
     (if b s then (case c s of Inl e \<Rightarrow> Some (Inl e) | Inr s' \<Rightarrow> whileR b c s') else Some (Inr s))"

declare whileR.simps [code]

lemma whileR_stop [simp]: "\<not> b s \<Longrightarrow> whileR b c s = Some (Inr s)"
  by (simp add: whileR.simps)

lemma whileR_step: "b s \<Longrightarrow> c s = Inr s' \<Longrightarrow> whileR b c s = whileR b c s'"
  by (simp add: whileR.simps [of b c s])

lemma whileR_fail: "b s \<Longrightarrow> c s = Inl e \<Longrightarrow> whileR b c s = Some (Inl e)"
  by (simp add: whileR.simps [of b c s])

text \<open>Total correctness: an invariant, a body that succeeds, and a measure that falls.\<close>

lemma whileR_total:
  assumes "I s"
    and "\<And>s. I s \<Longrightarrow> b s \<Longrightarrow> \<exists>s'. c s = Inr s' \<and> I s' \<and> (s', s) \<in> R"
    and "wf R"
  shows "\<exists>t. whileR b c s = Some (Inr t) \<and> I t \<and> \<not> b t"
  using assms(3,1)
proof (induction s rule: wf_induct_rule)
  case (less s)
  show ?case
  proof (cases "b s")
    case True
    with assms(2) less.prems obtain s' where "c s = Inr s'" "I s'" "(s', s) \<in> R" by blast
    then show ?thesis using less.IH True whileR_step by metis
  qed (use less.prems in simp)
qed

text \<open>Partial correctness.\<close>

lemma whileR_partial':
  assumes "whileR b c s = Some r"
  shows "(\<forall>s s'. I s \<longrightarrow> b s \<longrightarrow> c s = Inr s' \<longrightarrow> I s') \<longrightarrow> I s \<longrightarrow> r = Inr t \<longrightarrow> I t \<and> \<not> b t"
  using assms
proof (induction rule: whileR.raw_induct [rotated, consumes 1])
  case (1 loop b c s r)
  show ?case
  proof (cases "b s")
    case False
    then show ?thesis using "1"(2) by auto
  next
    case True
    show ?thesis
    proof (cases "c s")
      case (Inl e)
      then show ?thesis using "1"(2) True by auto
    next
      case (Inr s')
      then have "loop b c s' = Some r" using "1"(2) True by simp
      from "1"(1) [OF this] True Inr show ?thesis by blast
    qed
  qed
qed

lemma whileR_partial:
  assumes "whileR b c s = Some (Inr t)" and "I s"
    and "\<And>s s'. I s \<Longrightarrow> b s \<Longrightarrow> c s = Inr s' \<Longrightarrow> I s'"
  shows "I t" "\<not> b t"
  using whileR_partial' [OF assms(1), where I = I and t = t] assms(2,3) by blast+

section \<open>Reachability by a worklist\<close>

definition reach :: "('a \<Rightarrow> 'a set) \<Rightarrow> 'a set \<Rightarrow> 'a set" where
  "reach nxt A = {(x, y). y \<in> nxt x}\<^sup>* `` A"

lemma reach_superset: "A \<subseteq> reach nxt A"
  by (auto simp: reach_def)

lemma reach_closed: "x \<in> reach nxt A \<Longrightarrow> y \<in> nxt x \<Longrightarrow> y \<in> reach nxt A"
  by (auto simp: reach_def intro: rtrancl_into_rtrancl)

lemma reach_least:
  assumes "A \<subseteq> B" and "\<And>x y. x \<in> B \<Longrightarrow> y \<in> nxt x \<Longrightarrow> y \<in> B"
  shows "reach nxt A \<subseteq> B"
proof
  fix y assume "y \<in> reach nxt A"
  then obtain x where "x \<in> A" "(x, y) \<in> {(x, y). y \<in> nxt x}\<^sup>*" by (auto simp: reach_def)
  from this(2) show "y \<in> B"
    by (induction rule: rtrancl_induct) (use \<open>x \<in> A\<close> assms in auto)
qed

lemma reach_mono_on:
  assumes "\<And>x. x \<in> reach nxt A \<Longrightarrow> nxt' x = nxt x"
  shows "reach nxt' A = reach nxt A"
proof
  show "reach nxt' A \<subseteq> reach nxt A"
    using assms by (intro reach_least reach_superset) (auto intro: reach_closed)
  have "x \<in> reach nxt' A \<inter> reach nxt A" if "x \<in> reach nxt A" for x
  proof -
    have "reach nxt A \<subseteq> reach nxt' A \<inter> reach nxt A"
      using assms by (intro reach_least) (auto intro: reach_closed subsetD [OF reach_superset])
    with that show ?thesis by blast
  qed
  then show "reach nxt A \<subseteq> reach nxt' A" by blast
qed

locale worklist =
  fixes work :: "'s \<Rightarrow> 'a list"
    and seen :: "'s \<Rightarrow> 'a set"
    and nxt :: "'a \<Rightarrow> 'a set"
    and step :: "'s \<Rightarrow> 's res"
    and ok :: "'s \<Rightarrow> bool"
    and univ :: "'a set"
  assumes finite_univ: "finite univ"
    and seen_univ: "ok s \<Longrightarrow> seen s \<subseteq> univ"
    and step_ok: "ok s \<Longrightarrow> work s = x # xs \<Longrightarrow> x \<in> seen s \<Longrightarrow>
      \<exists>s' new. step s = Inr s' \<and> ok s' \<and> seen s' = seen s \<union> nxt x \<and> work s' = xs @ new \<and>
        set new = nxt x - seen s"
begin

text \<open>What is marked but no longer queued leads to marked elements only.\<close>

definition frontier :: "'a set \<Rightarrow> 's \<Rightarrow> bool" where
  "frontier A s \<longleftrightarrow> ok s \<and> A \<subseteq> seen s \<and> seen s \<subseteq> reach nxt A \<and> set (work s) \<subseteq> seen s \<and>
     (\<forall>x\<in>seen s - set (work s). nxt x \<subseteq> seen s)"

lemma frontier_step:
  assumes F: "frontier A s" and w: "work s \<noteq> []"
  shows "\<exists>s'. step s = Inr s' \<and> frontier A s' \<and>
    (s', s) \<in> measures [\<lambda>s. card (univ - seen s), \<lambda>s. length (work s)]"
proof -
  obtain x xs where x: "work s = x # xs" using w by (cases "work s") auto
  have ok: "ok s" and mem: "x \<in> seen s" using F x by (auto simp: frontier_def)
  obtain s' new where s': "step s = Inr s'" "ok s'" "seen s' = seen s \<union> nxt x"
    "work s' = xs @ new" "set new = nxt x - seen s"
    using step_ok [OF ok x mem] by blast
  have "frontier A s'"
    unfolding frontier_def
  proof (intro conjI ballI)
    show "ok s'" by (rule s'(2))
    show "A \<subseteq> seen s'" using F s'(3) by (auto simp: frontier_def)
    show "seen s' \<subseteq> reach nxt A"
      using F s'(3) mem reach_closed [of x nxt A] by (auto simp: frontier_def)
    have "set (work s') = set xs \<union> (nxt x - seen s)" using s'(4,5) by simp
    then show "set (work s') \<subseteq> seen s'" using F s'(3) x by (auto simp: frontier_def)
    show "nxt y \<subseteq> seen s'" if "y \<in> seen s' - set (work s')" for y
    proof (cases "y = x")
      case True
      then show ?thesis using s'(3) by blast
    next
      case False
      then have "y \<in> seen s - set (work s)"
        using that s'(3) x \<open>set (work s') = _\<close> by auto
      then show ?thesis using F s'(3) unfolding frontier_def by blast
    qed
  qed
  moreover have "card (univ - seen s') < card (univ - seen s) \<or>
      card (univ - seen s') = card (univ - seen s) \<and> length (work s') < length (work s)"
  proof (cases "nxt x \<subseteq> seen s")
    case True
    have "set new = {}" unfolding s'(5) using True by blast
    moreover have "seen s' = seen s" unfolding s'(3) using True by blast
    ultimately have "new = []" and "seen s' = seen s" by simp_all
    then have "card (univ - seen s') = card (univ - seen s)" and "work s' = xs"
      using s'(4) by simp_all
    then show ?thesis by (simp only: x list.size) simp
  next
    case False
    then have "univ - seen s' \<subset> univ - seen s" using seen_univ [OF s'(2)] s'(3) by blast
    then show ?thesis using finite_univ by (simp add: psubset_card_mono)
  qed
  ultimately show ?thesis using s'(1) by auto
qed

lemma search_total:
  assumes "ok s" and "seen s = A" and "set (work s) = A"
  shows "\<exists>t. whileR (\<lambda>s. work s \<noteq> []) step s = Some (Inr t) \<and> ok t \<and> seen t = reach nxt A"
proof -
  have "frontier A s" using assms by (simp add: frontier_def reach_superset)
  then obtain t where t: "whileR (\<lambda>s. work s \<noteq> []) step s = Some (Inr t)" "frontier A t" "work t = []"
    using whileR_total [where I = "frontier A" and b = "\<lambda>s. work s \<noteq> []" and c = step]
      frontier_step wf_measures by meson
  have "reach nxt A \<subseteq> seen t"
    using t(2,3) by (intro reach_least) (auto simp: frontier_def)
  with t show ?thesis by (auto simp: frontier_def)
qed

end

end
