(* ===== verification/FuncInfo.thy ===== *)
theory FuncInfo
  imports IRBuilder Worklist
begin

text \<open>
  Purity of functions (\<open>include/passes/FuncInfo.hpp\<close>, \<open>src/passes/FuncInfo.cpp\<close>). Each
  function is first judged by its own body; a worklist then carries impurity from a
  function to those that contain an instruction using it. The map \<open>is_pure\<close> is an
  \<open>unordered_map\<close>: \<open>operator[]\<close> enters \<open>false\<close> for a missing key, \<open>at\<close> throws.
\<close>

section \<open>The analysis\<close>

text \<open>\<open>Instruction::get_function\<close>: the parent's parent.\<close>

definition get_function :: "'z ir_scheme \<Rightarrow> vid \<Rightarrow> vid res" where
  "get_function s i =
     bindR (instr_parent s i) (\<lambda>p. case p of
       None \<Rightarrow> Inl Null_deref
     | Some b \<Rightarrow> bindR (deref (bbs s) b) (\<lambda>r. Inr (bparent r)))"

fun first_pointer_operand :: "'z ir_scheme \<Rightarrow> vid option list \<Rightarrow> vid option res" where
  "first_pointer_operand s [] = Inr None"
| "first_pointer_operand s (None # ops) = Inl Null_deref"
| "first_pointer_operand s (Some op # ops) =
     bindR (type_of s op) (\<lambda>t. if is_pointer_type t then Inr (Some op) else first_pointer_operand s ops)"

text \<open>The address a pointer is derived from. The recursion follows operands, so it need not
  end on a graph with a cycle of \<open>getelementptr\<close>.\<close>

partial_function (option) get_first_addr :: "'z ir_scheme \<Rightarrow> vid option \<Rightarrow> vid option res option" where
  "get_first_addr s v =
     (case v of
        None \<Rightarrow> Some (Inr None)
      | Some i \<Rightarrow>
          (case vals s i of
             None \<Rightarrow> Some (Inl Dangling)
           | Some r \<Rightarrow>
               (case vkind r of
                  K_instr op p \<Rightarrow>
                    (if op = O_alloca then Some (Inr v)
                     else if op = O_getelementptr then
                       (case get_operand s i 0 of
                          Inl e \<Rightarrow> Some (Inl e)
                        | Inr w \<Rightarrow> get_first_addr s w)
                     else if op = O_load then Some (Inr v)
                     else
                       (case first_pointer_operand s (vops r) of
                          Inl e \<Rightarrow> Some (Inl e)
                        | Inr None \<Rightarrow> Some (Inr v)
                        | Inr (Some w) \<Rightarrow> get_first_addr s (Some w)))
                | _ \<Rightarrow> Some (Inr v))))"

declare get_first_addr.simps [code]

definition is_alloca :: "'z ir_scheme \<Rightarrow> vid option \<Rightarrow> bool" where
  "is_alloca s v = (case v of None \<Rightarrow> False | Some i \<Rightarrow>
     (case kind_of s i of Some (K_instr O_alloca p) \<Rightarrow> True | _ \<Rightarrow> False))"

definition is_local_store :: "'z ir_scheme \<Rightarrow> vid \<Rightarrow> bool res" where
  "is_local_store s i = bindR (get_operand s i 1) (\<lambda>lval.
     bindR (outcome (get_first_addr s lval)) (\<lambda>addr. Inr (is_alloca s addr)))"

definition is_local_load :: "'z ir_scheme \<Rightarrow> vid \<Rightarrow> bool res" where
  "is_local_load s i = bindR (get_operand s i 0) (\<lambda>lval.
     bindR (outcome (get_first_addr s lval)) (\<lambda>addr. Inr (is_alloca s addr)))"

definition is_side_effect_inst :: "'z ir_scheme \<Rightarrow> vid \<Rightarrow> bool res" where
  "is_side_effect_inst s i =
     bindR (instr_op s i) (\<lambda>op.
     if op = O_store then bindR (is_local_store s i) (\<lambda>l. Inr (\<not> l))
     else if op = O_load then bindR (is_local_load s i) (\<lambda>l. Inr (\<not> l))
     else Inr False)"

text \<open>The two nested loops of \<open>trivial_mark\<close>: does any instruction have a side effect?\<close>

fun any_side_effect :: "'z ir_scheme \<Rightarrow> vid list \<Rightarrow> bool res" where
  "any_side_effect s [] = Inr False"
| "any_side_effect s (i # is) =
     bindR (is_side_effect_inst s i) (\<lambda>b. if b then Inr True else any_side_effect s is)"

type_synonym purity = "vid \<rightharpoonup> bool"

definition trivially_pure :: "'z ir_scheme \<Rightarrow> vid \<Rightarrow> bool res" where
  "trivially_pure s f =
     bindR (is_declaration s f) (\<lambda>d.
     bindR (deref (vals s) f) (\<lambda>r.
     if d \<or> vname r = ''main'' then Inr False
     else
       bindR (get_function_type_of s f) (\<lambda>ft.
       if \<exists>t\<in>set (snd ft). \<not> is_integer_type t \<and> \<not> is_float_type t then Inr False
       else bindR (any_side_effect s (concat (map (instrs s) (blocks s f)))) (\<lambda>b. Inr (\<not> b)))))"

record func_info =
  fi_worklist :: "vid list"
  is_pure :: purity

definition trivial_mark :: "'z ir_scheme \<Rightarrow> vid \<Rightarrow> func_info \<Rightarrow> func_info res" where
  "trivial_mark s f st =
     bindR (trivially_pure s f) (\<lambda>b. Inr (st\<lparr>is_pure := (is_pure st)(f \<mapsto> b)\<rparr>))"

definition pure_entry :: "purity \<Rightarrow> vid \<Rightarrow> bool" where
  "pure_entry m f = (m f = Some True)"

text \<open>One use of an impure function: its user's function becomes impure, and is queued if
  it was not. The test \<open>is_pure[func]\<close> enters a missing key.\<close>

definition process_use :: "'z ir_scheme \<Rightarrow> use_entry \<Rightarrow> func_info \<Rightarrow> func_info res" where
  "process_use s u st = (case kind_of s (fst u) of
     Some (K_instr op p) \<Rightarrow>
       bindR (get_function s (fst u)) (\<lambda>g.
       Inr (if pure_entry (is_pure st) g
            then st\<lparr>is_pure := (is_pure st)(g \<mapsto> False), fi_worklist := fi_worklist st @ [g]\<rparr>
            else st\<lparr>is_pure := (is_pure st)(g \<mapsto> False)\<rparr>))
   | Some _ \<Rightarrow> Inr st
   | None \<Rightarrow> Inl Dangling)"

fun process_uses :: "'z ir_scheme \<Rightarrow> use_entry list \<Rightarrow> func_info \<Rightarrow> func_info res" where
  "process_uses s [] st = Inr st"
| "process_uses s (u # us) st = bindR (process_use s u st) (process_uses s us)"

definition process_function :: "'z ir_scheme \<Rightarrow> vid \<Rightarrow> func_info \<Rightarrow> func_info res" where
  "process_function s f st = bindR (deref (vals s) f) (\<lambda>r. process_uses s (vuses r) st)"

fun mark_functions :: "'z ir_scheme \<Rightarrow> vid list \<Rightarrow> func_info \<Rightarrow> func_info res" where
  "mark_functions s [] st = Inr st"
| "mark_functions s (f # fs) st =
     bindR (trivial_mark s f st) (\<lambda>st1.
     mark_functions s fs (if pure_entry (is_pure st1) f then st1
                          else st1\<lparr>fi_worklist := fi_worklist st1 @ [f]\<rparr>))"

definition process_next :: "'z ir_scheme \<Rightarrow> func_info \<Rightarrow> func_info res" where
  "process_next s st = (case fi_worklist st of
     [] \<Rightarrow> Inl (UB ''front'')
   | now # rest \<Rightarrow> process_function s now (st\<lparr>fi_worklist := rest\<rparr>))"

definition FuncInfo_run :: "'z ir_scheme \<Rightarrow> func_info res option" where
  "FuncInfo_run s =
     (case mark_functions s (function_list s) \<lparr>fi_worklist = [], is_pure = Map.empty\<rparr> of
        Inl e \<Rightarrow> Some (Inl e)
      | Inr st \<Rightarrow> whileR (\<lambda>st. fi_worklist st \<noteq> []) (process_next s) st)"

definition is_pure_function :: "func_info \<Rightarrow> vid \<Rightarrow> bool res" where
  "is_pure_function st f = at_map (is_pure st) f"

section \<open>Who uses a function\<close>

definition calls :: "'z ir_scheme \<Rightarrow> vid \<Rightarrow> vid \<Rightarrow> bool" where
  "calls s g f \<longleftrightarrow> (\<exists>u i op b r. operand_at s u i = Some f \<and>
     kind_of s u = Some (K_instr op (Some b)) \<and> bbs s b = Some r \<and> bparent r = g)"

text \<open>Every instruction that uses a function of the module is in a block.\<close>

definition users_ok :: "'z ir_scheme \<Rightarrow> bool" where
  "users_ok s \<longleftrightarrow> (\<forall>f\<in>set (function_list s). \<forall>x\<in>set (uses_of s f). \<forall>op p.
     kind_of s (fst x) = Some (K_instr op p) \<longrightarrow> (\<exists>g. get_function s (fst x) = Inr g))"

definition user_functions :: "'z ir_scheme \<Rightarrow> use_entry list \<Rightarrow> vid set" where
  "user_functions s us = {g. \<exists>x\<in>set us. \<exists>op p. kind_of s (fst x) = Some (K_instr op p) \<and>
     get_function s (fst x) = Inr g}"

lemma get_function_Inr:
  "get_function s u = Inr g \<longleftrightarrow>
     (\<exists>op b r. kind_of s u = Some (K_instr op (Some b)) \<and> bbs s b = Some r \<and> bparent r = g)"
proof (cases "vals s u")
  case (Some r)
  then show ?thesis
    by (cases "vkind r") (auto simp: get_function_def instr_parent_def kind_of_def split: option.splits)
qed (simp add: get_function_def instr_parent_def kind_of_def)

lemma user_functions_uses_of:
  assumes "use_def_ok s"
  shows "user_functions s (uses_of s f) = {g. calls s g f}"
proof -
  have "g \<in> user_functions s us \<longleftrightarrow> (\<exists>x\<in>set us. get_function s (fst x) = Inr g)" for g us
    unfolding user_functions_def get_function_Inr by auto
  moreover have "(\<exists>x\<in>set (uses_of s f). get_function s (fst x) = Inr g) \<longleftrightarrow>
      (\<exists>u i. operand_at s u i = Some f \<and> get_function s u = Inr g)" for g
    using use_def_okD(2) [OF assms, of _ _ f] by (metis fst_conv prod.exhaust_sel)
  ultimately show ?thesis unfolding calls_def get_function_Inr by blast
qed

lemma operand_user_dom: "operand_at s u i = Some v \<Longrightarrow> \<exists>k. kind_of s u = Some k"
  by (auto simp: operand_at_def ops_of_def kind_of_def split: if_splits option.splits)

lemma process_uses_effect:
  assumes "\<And>x. x \<in> set us \<Longrightarrow> \<exists>k. kind_of s (fst x) = Some k \<and>
      (\<forall>op p. k = K_instr op p \<longrightarrow> (\<exists>g. get_function s (fst x) = Inr g))"
  shows "\<exists>st' new. process_uses s us st = Inr st' \<and> fi_worklist st' = fi_worklist st @ new \<and>
    set new = {g \<in> user_functions s us. is_pure st g = Some True} \<and>
    is_pure st' = (\<lambda>g. if g \<in> user_functions s us then Some False else is_pure st g)"
  using assms
proof (induction us arbitrary: st)
  case Nil
  then show ?case by (simp add: user_functions_def)
next
  case (Cons x us)
  obtain k where k: "kind_of s (fst x) = Some k"
    "\<And>op p. k = K_instr op p \<Longrightarrow> \<exists>g. get_function s (fst x) = Inr g"
    using Cons.prems [of x] by auto
  have IH: "\<exists>st' new. process_uses s us st1 = Inr st' \<and> fi_worklist st' = fi_worklist st1 @ new \<and>
    set new = {g \<in> user_functions s us. is_pure st1 g = Some True} \<and>
    is_pure st' = (\<lambda>g. if g \<in> user_functions s us then Some False else is_pure st1 g)" for st1
    using Cons.IH Cons.prems by simp
  show ?case
  proof (cases "\<exists>op p. k = K_instr op p")
    case False
    then have "process_use s x st = Inr st" using k(1) by (cases k) (auto simp: process_use_def)
    moreover have "user_functions s (x # us) = user_functions s us"
      using k(1) False by (auto simp: user_functions_def)
    ultimately show ?thesis using IH [of st] by simp
  next
    case True
    then obtain g where g: "get_function s (fst x) = Inr g" using k(2) by blast
    define st1 where "st1 = (if pure_entry (is_pure st) g
      then st\<lparr>is_pure := (is_pure st)(g \<mapsto> False), fi_worklist := fi_worklist st @ [g]\<rparr>
      else st\<lparr>is_pure := (is_pure st)(g \<mapsto> False)\<rparr>)"
    have st1: "process_use s x st = Inr st1" using True k(1) g by (auto simp: process_use_def st1_def)
    have uf: "user_functions s (x # us) = insert g (user_functions s us)"
      using k(1) True g by (auto simp: user_functions_def)
    obtain st' new where r: "process_uses s us st1 = Inr st'" "fi_worklist st' = fi_worklist st1 @ new"
      "set new = {h \<in> user_functions s us. is_pure st1 h = Some True}"
      "is_pure st' = (\<lambda>h. if h \<in> user_functions s us then Some False else is_pure st1 h)"
      using IH by blast
    have m: "is_pure st1 = (is_pure st)(g \<mapsto> False)" by (simp add: st1_def)
    have w: "fi_worklist st1 = fi_worklist st @ (if is_pure st g = Some True then [g] else [])"
      by (simp add: st1_def pure_entry_def)
    show ?thesis
      using st1 r
      by (intro exI [of _ st'] exI [of _ "(if is_pure st g = Some True then [g] else []) @ new"])
        (auto simp: uf m w fun_eq_iff)
  qed
qed

lemma process_uses_run:
  assumes "\<And>x. x \<in> set us \<Longrightarrow> \<exists>k. kind_of s (fst x) = Some k \<and>
      (\<forall>op p. k = K_instr op p \<longrightarrow> (\<exists>g. get_function s (fst x) = Inr g))"
    and "is_pure st = m" and "fi_worklist st = w"
  shows "\<exists>st' new. process_uses s us st = Inr st' \<and> fi_worklist st' = w @ new \<and>
    set new = {g \<in> user_functions s us. m g = Some True} \<and>
    is_pure st' = (\<lambda>g. if g \<in> user_functions s us then Some False else m g)"
  unfolding assms(2,3) [symmetric] by (rule process_uses_effect [OF assms(1)])

definition fi_ok :: "'z ir_scheme \<Rightarrow> func_info \<Rightarrow> bool" where
  "fi_ok s st \<longleftrightarrow> use_def_ok s \<and> users_ok s \<and> set (function_list s) \<subseteq> dom (vals s) \<and>
     set (function_list s) \<subseteq> dom (is_pure st) \<and>
     {g. is_pure st g = Some True} \<subseteq> set (function_list s)"

definition fi_seen :: "'z ir_scheme \<Rightarrow> func_info \<Rightarrow> vid set" where
  "fi_seen s st = {f \<in> set (function_list s). is_pure st f = Some False}"

definition callers :: "'z ir_scheme \<Rightarrow> vid \<Rightarrow> vid set" where
  "callers s f = {g \<in> set (function_list s). calls s g f}"

lemma fi_step:
  assumes ok: "fi_ok s st" and w: "fi_worklist st = f # fs" and f: "f \<in> fi_seen s st"
  shows "\<exists>st' new. process_next s st = Inr st' \<and> fi_ok s st' \<and>
    fi_seen s st' = fi_seen s st \<union> callers s f \<and> fi_worklist st' = fs @ new \<and>
    set new = callers s f - fi_seen s st"
proof -
  have fl: "f \<in> set (function_list s)" using f by (simp add: fi_seen_def)
  then obtain r where r: "vals s f = Some r" using ok by (auto simp: fi_ok_def)
  have ud: "use_def_ok s" and us: "users_ok s" using ok by (auto simp: fi_ok_def)
  have uses: "uses_of s f = vuses r" using r by (simp add: uses_of_def)
  have "\<exists>k. kind_of s (fst x) = Some k \<and> (\<forall>op p. k = K_instr op p \<longrightarrow> (\<exists>g. get_function s (fst x) = Inr g))"
    if "x \<in> set (vuses r)" for x
  proof -
    have "operand_at s (fst x) (snd x) = Some f"
      using that use_def_okD(2) [OF ud, of "fst x" "snd x" f] uses by simp
    then obtain k where "kind_of s (fst x) = Some k" using operand_user_dom by blast
    then show ?thesis using us fl that uses by (fastforce simp: users_ok_def)
  qed
  then obtain st' new where st': "process_uses s (vuses r) (st\<lparr>fi_worklist := fs\<rparr>) = Inr st'"
    "fi_worklist st' = fs @ new" "set new = {g \<in> user_functions s (vuses r). is_pure st g = Some True}"
    "is_pure st' = (\<lambda>g. if g \<in> user_functions s (vuses r) then Some False else is_pure st g)"
    using process_uses_run [of "vuses r" s "st\<lparr>fi_worklist := fs\<rparr>" "is_pure st" fs] by auto
  have uf: "user_functions s (vuses r) = {g. calls s g f}"
    using user_functions_uses_of [OF ud, of f] uses by simp
  have "process_next s st = Inr st'" using w r st'(1) by (simp add: process_next_def process_function_def)
  moreover have "fi_ok s st'" using ok by (auto simp: fi_ok_def st'(4))
  moreover have "fi_seen s st' = fi_seen s st \<union> callers s f"
    by (auto simp: fi_seen_def callers_def st'(4) uf)
  moreover have "set new = callers s f - fi_seen s st"
    using ok by (auto simp: st'(3) uf fi_seen_def callers_def fi_ok_def)
  ultimately show ?thesis using st'(2) by blast
qed

interpretation fi: worklist fi_worklist "fi_seen s" "callers s" "process_next s" "fi_ok s"
    "set (function_list s)" for s :: "'z ir_scheme"
proof unfold_locales
  show "finite (set (function_list s))" by simp
  show "fi_seen s st \<subseteq> set (function_list s)" for st by (auto simp: fi_seen_def)
  show "\<exists>st' new. process_next s st = Inr st' \<and> fi_ok s st' \<and>
    fi_seen s st' = fi_seen s st \<union> callers s x \<and> fi_worklist st' = xs @ new \<and>
    set new = callers s x - fi_seen s st"
    if "fi_ok s st" "fi_worklist st = x # xs" "x \<in> fi_seen s st" for st x xs
    using that by (rule fi_step)
qed

lemma mark_functions_effect:
  assumes "\<And>f. f \<in> set fs \<Longrightarrow> trivially_pure s f = Inr (b f)"
  shows "\<exists>st'. mark_functions s fs st = Inr st' \<and>
    is_pure st' = (\<lambda>f. if f \<in> set fs then Some (b f) else is_pure st f) \<and>
    fi_worklist st' = fi_worklist st @ filter (\<lambda>f. \<not> b f) fs"
  using assms
proof (induction fs arbitrary: st)
  case (Cons f fs)
  define st1 where "st1 = st\<lparr>is_pure := (is_pure st)(f \<mapsto> b f)\<rparr>"
  define st2 where "st2 = (if b f then st1 else st1\<lparr>fi_worklist := fi_worklist st1 @ [f]\<rparr>)"
  have "mark_functions s (f # fs) st = mark_functions s fs st2"
    using Cons.prems [of f] by (simp add: trivial_mark_def st1_def st2_def pure_entry_def)
  moreover obtain st' where "mark_functions s fs st2 = Inr st'"
    "is_pure st' = (\<lambda>f. if f \<in> set fs then Some (b f) else is_pure st2 f)"
    "fi_worklist st' = fi_worklist st2 @ filter (\<lambda>f. \<not> b f) fs"
    using Cons.IH [of st2] Cons.prems by auto
  ultimately show ?case
    by (intro exI [of _ st']) (auto simp: st1_def st2_def fun_eq_iff simp del: mark_functions.simps)
qed simp

lemma mark_functions_run:
  assumes "\<And>f. f \<in> set fs \<Longrightarrow> trivially_pure s f = Inr (b f)"
    and "is_pure st = m" and "fi_worklist st = w"
  shows "\<exists>st'. mark_functions s fs st = Inr st' \<and>
    is_pure st' = (\<lambda>f. if f \<in> set fs then Some (b f) else m f) \<and>
    fi_worklist st' = w @ filter (\<lambda>f. \<not> b f) fs"
  unfolding assms(2,3) [symmetric] by (rule mark_functions_effect [OF assms(1)])

section \<open>What the analysis computes\<close>


text \<open>A declaration (object 0) and a function (object 1) whose only instruction calls it.\<close>

definition fi_demo :: ir where
  "fi_demo = empty_ir\<lparr>vals :=
     [0 \<mapsto> \<lparr>vty = FunctionTy VoidTy [], vname = ''output'', vuses = [(3, 0)], vops = [], vkind = K_func\<rparr>,
      1 \<mapsto> \<lparr>vty = FunctionTy VoidTy [], vname = ''g'', vuses = [], vops = [], vkind = K_func\<rparr>,
      2 \<mapsto> \<lparr>vty = LabelTy, vname = '''', vuses = [], vops = [], vkind = K_block\<rparr>,
      3 \<mapsto> \<lparr>vty = VoidTy, vname = '''', vuses = [], vops = [Some 0], vkind = K_instr O_call (Some 2)\<rparr>],
     bbs := [2 \<mapsto> \<lparr>pre_bbs = [], succ_bbs = [], instr_list = [3], bparent = 1\<rparr>],
     funcs := [0 \<mapsto> \<lparr>basic_blocks = [], arguments = [], seq_cnt = 0\<rparr>,
       1 \<mapsto> \<lparr>basic_blocks = [2], arguments = [], seq_cnt = 0\<rparr>],
     next_id := 4, function_list := [0, 1]\<rparr>"

lemma fi_demo_simps:
  "\<exists>r. vals fi_demo 0 = Some r \<and> vty r = FunctionTy VoidTy [] \<and> vname r = ''output''"
  "\<exists>r. vals fi_demo 1 = Some r \<and> vty r = FunctionTy VoidTy [] \<and> vname r = ''g''"
  "instr_op fi_demo 3 = Inr O_call" "blocks fi_demo 1 = [2]" "instrs fi_demo 2 = [3]"
  "is_declaration fi_demo 0 = Inr True" "is_declaration fi_demo 1 = Inr False"
  by (simp_all add: fi_demo_def empty_ir_def blocks_def instrs_def is_declaration_def kind_of_def)

lemma fi_demo_use_def_ok: "use_def_ok fi_demo"
proof (rule use_def_okI)
  show "distinct (uses_of fi_demo v)" for v
    by (simp add: uses_of_def fi_demo_def empty_ir_def)
  show "(u, i) \<in> set (uses_of fi_demo v) \<longleftrightarrow> operand_at fi_demo u i = Some v" for v u i
    by (auto simp: uses_of_def operand_at_def ops_of_def fi_demo_def empty_ir_def)
  show "operand_at fi_demo u i = Some v \<Longrightarrow> v \<in> dom (vals fi_demo)" for v u i
    by (auto simp: operand_at_def ops_of_def fi_demo_def empty_ir_def split: if_splits)
qed


end
