(* ===== verification/Erasing.thy ===== *)
theory Erasing
  imports IRBuilder Worklist
begin

text \<open>
  What it means to take an instruction out of its block (\<open>BasicBlock::remove_instr\<close>) and
  to delete it (\<open>erase_instr\<close>, the destructors): lemmas the passes share.
\<close>

definition is_phi_instr :: "'z ir_scheme \<Rightarrow> vid \<Rightarrow> bool" where
  "is_phi_instr s i = (case kind_of s i of Some (K_instr O_phi _) \<Rightarrow> True | _ \<Rightarrow> False)"

lemma is_phi_instr_iff: "is_phi_instr s i \<longleftrightarrow> (\<exists>p. kind_of s i = Some (K_instr O_phi p))"
  by (auto simp: is_phi_instr_def split: option.splits vkind.splits opid.splits)

section \<open>Instruction lists\<close>

lemma butlast_filter_subset: "set (butlast (filter P xs)) \<subseteq> set (butlast xs)"
proof (cases xs rule: rev_cases)
  case (snoc ys x)
  then show ?thesis by (auto dest: in_set_butlastD)
qed simp

lemma listed_ok_filter: "listed_ok k b is \<Longrightarrow> listed_ok k b (filter P is)"
  using butlast_filter_subset [of P "is"] unfolding listed_ok_def by fastforce

lemma remove1_filter: "distinct xs \<Longrightarrow> remove1 x xs = filter (\<lambda>y. y \<noteq> x) xs"
  unfolding distinct_remove1_removeAll by (induction xs) auto

lemma ir_ok_listed: "ir_ok s \<Longrightarrow> listed_ok (kind_of s) b (instrs s b)"
  by (simp add: ir_ok_def placed_ok_def)

lemma ir_ok_distinct_instrs: "ir_ok s \<Longrightarrow> distinct (instrs s b)"
  using ir_ok_listed by (auto simp: listed_ok_def)

lemma ir_ok_instr_kind:
  "ir_ok s \<Longrightarrow> i \<in> set (instrs s b) \<Longrightarrow> \<exists>op. kind_of s i = Some (K_instr op (Some b))"
  using ir_ok_listed [of s b] by (auto simp: listed_ok_def)

lemma ir_ok_one_block: "ir_ok s \<Longrightarrow> i \<in> set (instrs s b) \<Longrightarrow> i \<in> set (instrs s c) \<Longrightarrow> b = c"
  using ir_ok_instr_kind [of s i b] ir_ok_instr_kind [of s i c] by fastforce

lemma instrs_bbs: "i \<in> set (instrs s b) \<Longrightarrow> \<exists>r. bbs s b = Some r"
  by (cases "bbs s b") (simp_all add: instrs_def)

lemma ir_ok_operand_dom: "ir_ok s \<Longrightarrow> operand_at s u i = Some v \<Longrightarrow> v \<in> dom (vals s)"
  using use_def_okD(3) [OF ir_ok_use_def] .

lemma ir_ok_bound: "ir_ok s \<Longrightarrow> v \<in> dom (vals s) \<Longrightarrow> v < next_id s"
  by (simp add: ir_ok_def ids_ok_def)

lemma kind_of_dom: "kind_of s v = Some k \<Longrightarrow> v \<in> dom (vals s)"
  by (auto simp: kind_of_def)

lemma operand_at_mem: "Some d \<in> set (ops_of s u) \<longleftrightarrow> (\<exists>j. operand_at s u j = Some d)"
  by (auto simp: operand_at_def in_set_conv_nth split: if_splits)

definition parents :: "'z ir_scheme \<Rightarrow> vid \<Rightarrow> vid option" where
  "parents s b = map_option bparent (bbs s b)"

text \<open>Replacing the instruction list of one block by a part of it.\<close>

lemma ir_ok_filter_instrs:
  assumes ok: "ir_ok s" and r: "bbs s b = Some r"
    and t: "t = s\<lparr>bbs := (bbs s)(b \<mapsto> r\<lparr>instr_list := filter P (instr_list r)\<rparr>)\<rparr>"
  shows "ir_ok t" and "instrs t = (instrs s)(b := filter P (instrs s b))"
    and "vals t = vals s" "funcs t = funcs s" "next_id t = next_id s" "preds t = preds s"
    "succs t = succs s" "blocks t = blocks s" "parents t = parents s"
proof -
  show "parents t = parents s" using r by (auto simp: t parents_def fun_eq_iff)
  show i: "instrs t = (instrs s)(b := filter P (instrs s b))"
    using r by (auto simp: t instrs_def fun_eq_iff)
  show g: "vals t = vals s" "funcs t = funcs s" "next_id t = next_id s" "preds t = preds s"
    "succs t = succs s" "blocks t = blocks s"
    using r by (auto simp: t graph_defs fun_eq_iff)
  note v = vals_obs [OF g(1)]
  have "placed_ok t" using ok by (auto simp: ir_ok_def placed_ok_def i v(3) intro: listed_ok_filter)
  moreover have "blocks_ok t"
    using ok r unfolding ir_ok_def blocks_ok_def g(6) by (fastforce simp: t)
  moreover have "ids_ok t"
  proof -
    have "dom (bbs t) = dom (bbs s)" using r by (auto simp: t)
    then show ?thesis using ok by (simp add: ir_ok_def ids_ok_def v(3) g)
  qed
  ultimately show "ir_ok t" using ok by (simp add: ir_ok_def cfg_ok_def g v(4))
qed

lemma remove_instr_effect:
  assumes ok: "ir_ok s" and i: "i \<in> set (instrs s b)"
  shows "\<exists>t. remove_instr b i s = Inr t \<and> ir_ok t \<and>
    instrs t = (instrs s)(b := filter (\<lambda>y. y \<noteq> i) (instrs s b)) \<and>
    vals t = vals s \<and> funcs t = funcs s \<and> next_id t = next_id s \<and> preds t = preds s \<and> succs t = succs s \<and>
    blocks t = blocks s \<and> parents t = parents s \<and> (\<exists>m. t = s\<lparr>bbs := m\<rparr>)"
proof -
  obtain r where r: "bbs s b = Some r" using instrs_bbs [OF i] by blast
  let ?t = "s\<lparr>bbs := (bbs s)(b \<mapsto> r\<lparr>instr_list := filter (\<lambda>y. y \<noteq> i) (instr_list r)\<rparr>)\<rparr>"
  have "remove1 i (instr_list r) = filter (\<lambda>y. y \<noteq> i) (instr_list r)"
    using ir_ok_distinct_instrs [OF ok, of b] r by (simp add: instrs_def remove1_filter)
  then have "remove_instr b i s = Inr ?t" using r by (simp add: remove_instr_def)
  with ir_ok_filter_instrs [OF ok r refl] show ?thesis by blast
qed

section \<open>Deleting an object\<close>

lemma rauw_loop_length':
  assumes "rauw_loop v nv s = Some y"
  shows "y = Inr t \<longrightarrow> length (ops_of t u) = length (ops_of s u)"
  using assms
proof (induction arbitrary: t rule: rauw_loop.raw_induct [rotated, consumes 1])
  case (1 loop v nv s r)
  show ?case
  proof
    assume r: "r = Inr t"
    obtain rv where rv: "vals s v = Some rv" using "1"(2) r by (cases "vals s v") auto
    show "length (ops_of t u) = length (ops_of s u)"
    proof (cases "vuses rv")
      case Nil
      then show ?thesis using rv "1"(2) r by auto
    next
      case (Cons x xs)
      then obtain s' where s': "set_operand (fst x) (snd x) nv s = Inr s'" and l: "loop v nv s' = Some r"
        using rv "1"(2) r by (auto split: sum.splits)
      have "length (ops_of s' u) = length (ops_of s u)" using set_operand_effect(3) [OF s'] by simp
      then show ?thesis using "1"(1) [OF l, of t] r by simp
    qed
  qed
qed

text \<open>\<open>replace_all_use_with(nullptr)\<close>, which the destructor of a value calls.\<close>

lemma nullify_uses:
  assumes ok: "ir_ok s" and v: "v \<in> dom (vals s)"
  shows "\<exists>t. replace_all_use_with v None s = Inr t \<and> ir_ok t \<and> same_but_uses s t \<and> uses_of t v = [] \<and>
    (\<forall>u i. operand_at t u i = (if operand_at s u i = Some v then None else operand_at s u i)) \<and>
    (\<forall>u. length (ops_of t u) = length (ops_of s u))"
proof -
  obtain t where t: "rauw_loop v None s = Some (Inr t)" "use_def_ok t" "same_but_uses s t" "uses_of t v = []"
    "\<And>u i. operand_at t u i = (if operand_at s u i = Some v then None else operand_at s u i)"
    using rauw_loop_correct [OF ir_ok_use_def [OF ok] v, of None] by blast
  then show ?thesis
    using ir_ok_same_but_uses [OF ok t(3,2)] rauw_loop_length' [OF t(1), of t]
    by (auto simp: replace_all_use_with_def outcome_def)
qed

lemma ir_ok_forget:
  assumes ok: "ir_ok s" and k: "kind_of s i = Some (K_instr op p)"
    and free: "\<And>b. i \<notin> set (instrs s b)" "uses_of s i = []" "\<And>j. operand_at s i j = None"
    and t: "t = s\<lparr>vals := (vals s)(i := None)\<rparr>"
  shows "ir_ok t" "kind_of t = (kind_of s)(i := None)" "operand_at t = operand_at s"
    "uses_of t = uses_of s" "\<And>u. u \<noteq> i \<Longrightarrow> ops_of t u = ops_of s u"
proof -
  show "ops_of t u = ops_of s u" if "u \<noteq> i" for u using that by (simp add: t ops_of_def)
  show k': "kind_of t = (kind_of s)(i := None)" by (auto simp: t kind_of_def)
  show u: "uses_of t = uses_of s" using free(2) by (auto simp: t uses_of_def fun_eq_iff)
  have "operand_at t u j = operand_at s u j" for u j
    using free(3) [of j] by (cases "u = i") (simp_all add: t operand_at_def ops_of_def)
  then show o: "operand_at t = operand_at s" by (simp add: fun_eq_iff)
  note D = use_def_okD [OF ir_ok_use_def [OF ok]]
  have unused: "operand_at s u j \<noteq> Some i" for u j using D(2) [of u j i] free(2) by simp
  have "use_def_ok t"
  proof (rule use_def_okI)
    show "distinct (uses_of t v)" for v using D(1) by (simp add: u)
    show "(a, j) \<in> set (uses_of t v) \<longleftrightarrow> operand_at t a j = Some v" for v a j using D(2) by (simp add: u o)
    have "dom (vals t) = dom (vals s) - {i}" by (auto simp: t)
    then show "v \<in> dom (vals t)" if "operand_at t a j = Some v" for v a j
      using that D(3) [of a j v] unused [of a j] unfolding o by auto
  qed
  moreover have "placed_ok t"
  proof -
    have "listed_ok (kind_of t) b (instrs s b) = listed_ok (kind_of s) b (instrs s b)" for b
      using free(1) [of b] by (intro listed_ok_cong) (auto simp: k')
    moreover have "instrs t = instrs s" by (simp add: t instrs_def fun_eq_iff)
    ultimately show ?thesis using ok by (simp add: ir_ok_def placed_ok_def)
  qed
  moreover have "ids_ok t"
  proof -
    have "bbs t = bbs s" "funcs t = funcs s" "next_id t = next_id s" "dom (vals t) \<subseteq> dom (vals s)"
      by (auto simp: t)
    moreover have "i \<notin> dom (bbs s)" "i \<notin> dom (funcs s)"
      using ok k unfolding ir_ok_def ids_ok_def by (metis option.inject vkind.distinct(15,17))+
    ultimately show ?thesis using ok unfolding ir_ok_def ids_ok_def k' by auto
  qed
  moreover have "preds t = preds s" "succs t = succs s" "blocks t = blocks s" "bbs t = bbs s"
    by (simp_all add: t graph_defs fun_eq_iff)
  ultimately show "ir_ok t" using ok by (simp add: ir_ok_def cfg_ok_def blocks_ok_def)
qed

text \<open>Two stores with the same blocks, functions and kinds, whose operands may differ.\<close>

definition same_layout :: "'z ir_scheme \<Rightarrow> 'z ir_scheme \<Rightarrow> bool" where
  "same_layout s t \<longleftrightarrow> bbs t = bbs s \<and> funcs t = funcs s \<and> next_id t = next_id s \<and> function_list t = function_list s"

lemma same_layout_obs:
  assumes "same_layout s t"
  shows "instrs t = instrs s" "preds t = preds s" "succs t = succs s" "blocks t = blocks s"
  using assms by (simp_all add: same_layout_def graph_defs fun_eq_iff)

lemma same_but_uses_layout: "same_but_uses s t \<Longrightarrow> same_layout s t"
  by (auto simp: same_but_uses_def same_layout_def)

lemma remove_all_operands_total:
  assumes ok: "ir_ok s" and u: "u \<in> dom (vals s)"
  shows "\<exists>t. remove_all_operands u s = Inr t \<and> ir_ok t \<and> same_but_uses s t \<and>
    (\<forall>a j. operand_at t a j = (if a = u then None else operand_at s a j)) \<and>
    ops_of t = (ops_of s)(u := []) \<and> (\<forall>w. uses_of t w = filter (\<lambda>(a, j). a \<noteq> u) (uses_of s w))"
proof -
  obtain r where r: "vals s u = Some r" using u by blast
  have in_dom: "w \<in> dom (vals s)" if w: "Some w \<in> set (vops r)" for w
  proof -
    obtain j where "j < length (vops r)" "vops r ! j = Some w" using w unfolding in_set_conv_nth by blast
    then have "operand_at s u j = Some w" using r by (simp add: operand_at_def ops_of_def)
    then show ?thesis by (rule use_def_okD(3) [OF ir_ok_use_def [OF ok]])
  qed
  have "\<exists>t. drop_uses u i ops s1 = Inr t"
    if "\<And>w. Some w \<in> set ops \<Longrightarrow> w \<in> dom (vals s1)" for ops i and s1 :: "'a ir_scheme"
    using that
  proof (induction u i ops s1 rule: drop_uses.induct)
    case (3 u i w ops s1)
    obtain s2 where s2: "remove_use w u i s1 = Inr s2" using remove_use_total "3.prems" by fastforce
    then show ?case using "3.IH" [OF s2] "3.prems" remove_use_dom [OF s2] by simp
  qed auto
  then obtain s1 where s1: "drop_uses u 0 (vops r) s = Inr s1" using in_dom by blast
  have "dom (vals s1) = dom (vals s)" using drop_uses_effect [OF s1] same_but_uses_dom by blast
  then obtain r1 where "vals s1 u = Some r1" using u by blast
  then obtain t where t: "remove_all_operands u s = Inr t"
    using r s1 by (auto simp: remove_all_operands_def)
  note e = remove_all_operands_effect [OF ir_ok_use_def [OF ok] t]
  have "ir_ok t" using ir_ok_same_but_uses [OF ok e(1)]
      remove_all_operands_use_def_ok [OF ir_ok_use_def [OF ok] t] by blast
  then show ?thesis using t e by (auto simp: operand_at_def)
qed

text \<open>The destructor of an instruction that is no branch and in no block's list.\<close>

lemma delete_instr_effect:
  assumes ok: "ir_ok s" and k: "kind_of s i = Some (K_instr op p)" "op \<noteq> O_br"
    and free: "\<And>b. i \<notin> set (instrs s b)"
  shows "\<exists>t. delete_instr i s = Inr t \<and> ir_ok t \<and> kind_of t = (kind_of s)(i := None) \<and> same_layout s t \<and>
    (\<forall>u j. operand_at t u j = (if u = i \<or> operand_at s u j = Some i then None else operand_at s u j)) \<and>
    (\<forall>u. u \<noteq> i \<longrightarrow> length (ops_of t u) = length (ops_of s u))"
proof -
  have i: "i \<in> dom (vals s)" using k(1) by (auto simp: kind_of_def)
  obtain s1 where s1: "remove_all_operands i s = Inr s1" "ir_ok s1" "same_but_uses s s1"
    "\<And>a j. operand_at s1 a j = (if a = i then None else operand_at s a j)" "ops_of s1 = (ops_of s)(i := [])"
    using remove_all_operands_total [OF ok i] by blast
  have i1: "i \<in> dom (vals s1)" using i same_but_uses_dom [OF s1(3)] by simp
  obtain s2 where s2: "replace_all_use_with i None s1 = Inr s2" "ir_ok s2" "same_but_uses s1 s2" "uses_of s2 i = []"
    "\<And>u j. operand_at s2 u j = (if operand_at s1 u j = Some i then None else operand_at s1 u j)"
    "\<And>u. length (ops_of s2 u) = length (ops_of s1 u)"
    using nullify_uses [OF s1(2) i1] by blast
  let ?t = "s2\<lparr>vals := (vals s2)(i := None)\<rparr>"
  have same: "same_but_uses s s2" using s1(3) s2(3) by (rule same_but_uses_trans)
  note o = same_but_uses_obs [OF same]
  have "instrs s2 = instrs s" using same_layout_obs same_but_uses_layout [OF same] by blast
  have ops: "operand_at s2 i j = None" for j by (simp add: s2(5) s1(4))
  have f: "ir_ok ?t" "kind_of ?t = (kind_of s2)(i := None)" "operand_at ?t = operand_at s2"
    "\<And>u. u \<noteq> i \<Longrightarrow> ops_of ?t u = ops_of s2 u"
    using ir_ok_forget [OF s2(2) _ _ s2(4) ops refl, of op p] k(1) free o(1) \<open>instrs s2 = instrs s\<close> by simp_all
  have "delete_instr i s = Inr ?t" using s1(1) s2(1) k by (simp add: delete_instr_def)
  moreover have "same_layout s ?t" using same_but_uses_layout [OF same] by (simp add: same_layout_def)
  ultimately show ?thesis using f s1(4,5) s2(5,6) o(1) by auto
qed

text \<open>\<open>erase_instr\<close> on an instruction of the block that is no branch.\<close>

lemma erase_instr_effect:
  assumes ok: "ir_ok s" and i: "i \<in> set (instrs s b)" and k: "kind_of s i = Some (K_instr op p)" "op \<noteq> O_br"
  shows "\<exists>t. erase_instr b i s = Inr t \<and> ir_ok t \<and> kind_of t = (kind_of s)(i := None) \<and>
    instrs t = (\<lambda>c. filter (\<lambda>y. y \<noteq> i) (instrs s c)) \<and> funcs t = funcs s \<and> preds t = preds s \<and>
    succs t = succs s \<and> next_id t = next_id s \<and> function_list t = function_list s \<and> parents t = parents s \<and>
    (\<forall>u j. operand_at t u j = (if u = i \<or> operand_at s u j = Some i then None else operand_at s u j)) \<and>
    (\<forall>u. u \<noteq> i \<longrightarrow> length (ops_of t u) = length (ops_of s u))"
proof -
  obtain s1 where s1: "remove_instr b i s = Inr s1" "ir_ok s1"
    "instrs s1 = (instrs s)(b := filter (\<lambda>y. y \<noteq> i) (instrs s b))" "vals s1 = vals s" "funcs s1 = funcs s"
    "next_id s1 = next_id s" "preds s1 = preds s" "succs s1 = succs s" "\<exists>m. s1 = s\<lparr>bbs := m\<rparr>"
    "parents s1 = parents s"
    using remove_instr_effect [OF ok i] by blast
  note v = vals_obs [OF s1(4)]
  have "i \<notin> set (instrs s c)" if "c \<noteq> b" for c using ir_ok_one_block [OF ok i, of c] that by blast
  then have other: "filter (\<lambda>y. y \<noteq> i) (instrs s c) = instrs s c" if "c \<noteq> b" for c
    using that by (simp add: filter_id_conv) blast
  have free: "i \<notin> set (instrs s1 c)" for c using other [of c] by (auto simp: s1(3) filter_id_conv)
  obtain t where t: "delete_instr i s1 = Inr t" "ir_ok t" "kind_of t = (kind_of s1)(i := None)" "same_layout s1 t"
    "\<And>u j. operand_at t u j = (if u = i \<or> operand_at s1 u j = Some i then None else operand_at s1 u j)"
    "\<And>u. u \<noteq> i \<Longrightarrow> length (ops_of t u) = length (ops_of s1 u)"
    using delete_instr_effect [OF s1(2) _ k(2) free] k(1) v(3) by metis
  have "instrs t = (\<lambda>c. filter (\<lambda>y. y \<noteq> i) (instrs s c))"
    using same_layout_obs(1) [OF t(4)] other by (auto simp: s1(3) fun_eq_iff)
  moreover have "function_list t = function_list s" using s1(9) t(4) by (auto simp: same_layout_def)
  moreover have "erase_instr b i s = Inr t" using s1(1) t(1) by (simp add: erase_instr_def)
  moreover have "parents t = parents s" using s1(10) t(4) by (simp add: same_layout_def parents_def fun_eq_iff)
  moreover have "ops_of s1 = ops_of s" using s1(4) by (simp add: ops_of_def fun_eq_iff)
  ultimately show ?thesis
    using t same_layout_obs [OF t(4)] s1 v by (auto simp: same_layout_def)
qed

text \<open>\<open>x\<close> is the module \<open>s\<close> without the instructions in \<open>D\<close>.\<close>

definition removed :: "'z ir_scheme \<Rightarrow> vid set \<Rightarrow> 'z ir_scheme \<Rightarrow> bool" where
  "removed s D x \<longleftrightarrow> ir_ok x \<and> kind_of x = (\<lambda>v. if v \<in> D then None else kind_of s v) \<and>
     instrs x = (\<lambda>c. filter (\<lambda>y. y \<notin> D) (instrs s c)) \<and> funcs x = funcs s \<and> preds x = preds s \<and>
     succs x = succs s \<and> function_list x = function_list s \<and> parents x = parents s \<and>
     (\<forall>u j. operand_at x u j = (if u \<in> D \<or> (\<exists>i\<in>D. operand_at s u j = Some i) then None else operand_at s u j)) \<and>
     (\<forall>u. u \<notin> D \<longrightarrow> length (ops_of x u) = length (ops_of s u))"

lemma removed_refl: "ir_ok s \<Longrightarrow> removed s {} s"
  by (simp add: removed_def)

lemma removed_trans:
  assumes "removed s D x" and "removed x E y"
  shows "removed s (D \<union> E) y"
  using assms by (auto simp: removed_def fun_eq_iff intro!: filter_cong)

lemma removed_is_phi: "removed s E t \<Longrightarrow> is_phi_instr t i \<longleftrightarrow> i \<notin> E \<and> is_phi_instr s i"
  by (auto simp: removed_def is_phi_instr_iff)

lemma erase_instr_removed:
  assumes "ir_ok s" and "i \<in> set (instrs s b)" and "kind_of s i = Some (K_instr op p)" and "op \<noteq> O_br"
  shows "\<exists>t. erase_instr b i s = Inr t \<and> removed s {i} t"
  using erase_instr_effect [OF assms] by (auto simp: removed_def fun_eq_iff)

section \<open>Replacing a value\<close>

lemma replace_all_use_with_total:
  assumes ok: "ir_ok s" and v: "v \<in> dom (vals s)" and w: "w \<in> dom (vals s)" "w \<noteq> v"
  shows "\<exists>t. replace_all_use_with v (Some w) s = Inr t \<and> ir_ok t \<and> same_but_uses s t \<and> uses_of t v = [] \<and>
    (\<forall>u. ops_of t u = map (\<lambda>x. if x = Some v then Some w else x) (ops_of s u))"
proof -
  obtain t where t: "rauw_loop v (Some w) s = Some (Inr t)" "use_def_ok t" "same_but_uses s t" "uses_of t v = []"
    "\<And>u i. operand_at t u i = (if operand_at s u i = Some v then Some w else operand_at s u i)"
    using rauw_loop_correct [OF ir_ok_use_def [OF ok] v, of "Some w"] w by blast
  have "ops_of t u = map (\<lambda>x. if x = Some v then Some w else x) (ops_of s u)" for u
  proof (rule nth_equalityI)
    show len: "length (ops_of t u) = length (map (\<lambda>x. if x = Some v then Some w else x) (ops_of s u))"
      using rauw_loop_length' [OF t(1), of t u] by simp
    show "ops_of t u ! i = map (\<lambda>x. if x = Some v then Some w else x) (ops_of s u) ! i"
      if "i < length (ops_of t u)" for i
      using t(5) [of u i] that len by (simp add: operand_at_def split: if_splits)
  qed
  then show ?thesis
    using t ir_ok_same_but_uses [OF ok t(3,2)] w(2) by (auto simp: replace_all_use_with_def outcome_def)
qed

end
