(* ===== verification/DeadCode.thy ===== *)
theory DeadCode
  imports FuncInfo Erasing "HOL-Library.Multiset"
begin

text \<open>
  Dead-code elimination (\<open>src/passes/DeadCode.cpp\<close>): \<open>mark\<close> finds the instructions that
  the critical ones need, \<open>sweep\<close> deletes the others, and \<open>run\<close> repeats both over all
  functions until nothing is deleted. \<open>marked\<close> is the set of the keys mapped to true (the
  map's \<open>operator[]\<close> reads a missing key as false). The \<open>unordered_set\<close> of the
  instructions to delete is walked in an unspecified order: \<open>order\<close> is that order.
\<close>

section \<open>The pass\<close>

record dead_code =
  dc_worklist :: "vid list"
  marked :: "vid set"

definition is_critical :: "func_info \<Rightarrow> 'z ir_scheme \<Rightarrow> vid \<Rightarrow> bool res" where
  "is_critical fi s ins =
     bindR (instr_op s ins) (\<lambda>op.
     if op = O_call then
       bindR (get_operand s ins 0) (\<lambda>callee. case callee of
         None \<Rightarrow> Inl Out_of_range
       | Some f \<Rightarrow> if kind_of s f = Some K_func
           then bindR (is_pure_function fi f) (\<lambda>b. Inr (\<not> b)) else Inl Out_of_range)
     else Inr (op = O_br \<or> op = O_ret \<or> op = O_store))"

fun mark_critical :: "func_info \<Rightarrow> 'z ir_scheme \<Rightarrow> vid list \<Rightarrow> dead_code \<Rightarrow> dead_code res" where
  "mark_critical fi s [] st = Inr st"
| "mark_critical fi s (i # is) st =
     bindR (is_critical fi s i) (\<lambda>c.
     mark_critical fi s is
       (if c then st\<lparr>marked := insert i (marked st), dc_worklist := dc_worklist st @ [i]\<rparr> else st))"

text \<open>One operand of \<open>mark(Instruction *)\<close>.\<close>

definition mark_operand :: "'z ir_scheme \<Rightarrow> vid \<Rightarrow> vid option \<Rightarrow> dead_code \<Rightarrow> dead_code res" where
  "mark_operand s ins op st = (case op of
     None \<Rightarrow> Inr st
   | Some d \<Rightarrow> (case kind_of s d of
       None \<Rightarrow> Inl Dangling
     | Some (K_instr _ _) \<Rightarrow>
         if d \<in> marked st then Inr st
         else bindR (get_function s d) (\<lambda>f1. bindR (get_function s ins) (\<lambda>f2.
           Inr (if f1 \<noteq> f2 then st
                else st\<lparr>marked := insert d (marked st), dc_worklist := dc_worklist st @ [d]\<rparr>)))
     | Some _ \<Rightarrow> Inr st))"

fun mark_operands :: "'z ir_scheme \<Rightarrow> vid \<Rightarrow> vid option list \<Rightarrow> dead_code \<Rightarrow> dead_code res" where
  "mark_operands s ins [] st = Inr st"
| "mark_operands s ins (op # ops) st = bindR (mark_operand s ins op st) (mark_operands s ins ops)"

definition mark_next :: "'z ir_scheme \<Rightarrow> dead_code \<Rightarrow> dead_code res" where
  "mark_next s st = (case dc_worklist st of
     [] \<Rightarrow> Inl (UB ''front'')
   | now # rest \<Rightarrow> bindR (deref (vals s) now) (\<lambda>r.
       mark_operands s now (vops r) (st\<lparr>dc_worklist := rest\<rparr>)))"

definition func_instrs :: "'z ir_scheme \<Rightarrow> vid \<Rightarrow> vid list" where
  "func_instrs s f = concat (map (instrs s) (blocks s f))"

definition mark :: "func_info \<Rightarrow> 'z ir_scheme \<Rightarrow> vid \<Rightarrow> dead_code res" where
  "mark fi s f =
     bindR (mark_critical fi s (func_instrs s f) \<lparr>dc_worklist = [], marked = {}\<rparr>) (\<lambda>st.
     outcome (whileR (\<lambda>st. dc_worklist st \<noteq> []) (mark_next s) st))"

fun clear_operands :: "vid list \<Rightarrow> 'z ir_scheme \<Rightarrow> 'z ir_scheme res" where
  "clear_operands [] s = Inr s"
| "clear_operands (i # is) s = bindR (remove_all_operands i s) (clear_operands is)"

fun erase_all :: "vid list \<Rightarrow> 'z ir_scheme \<Rightarrow> 'z ir_scheme res" where
  "erase_all [] s = Inr s"
| "erase_all (i # is) s =
     bindR (instr_parent s i) (\<lambda>p. case p of
       None \<Rightarrow> Inl Null_deref
     | Some b \<Rightarrow> bindR (erase_instr b i s) (erase_all is))"

definition sweep :: "(vid list \<Rightarrow> vid list) \<Rightarrow> vid set \<Rightarrow> vid \<Rightarrow> 'z ir_scheme \<Rightarrow> ('z ir_scheme \<times> nat) res" where
  "sweep order M f s =
     (let wait_del = filter (\<lambda>i. i \<notin> M) (func_instrs s f) in
      bindR (clear_operands (order wait_del) s) (\<lambda>s1.
      bindR (erase_all (order wait_del) s1) (\<lambda>s2.
      Inr (s2, length wait_del))))"

text \<open>The state of \<open>run\<close>: \<open>changed\<close>, the module, \<open>ins_count\<close>.\<close>

type_synonym 'z dc_state = "bool \<times> 'z ir_scheme \<times> nat"

fun dead_functions :: "(vid list \<Rightarrow> vid list) \<Rightarrow> func_info \<Rightarrow> vid list \<Rightarrow> 'z dc_state \<Rightarrow> 'z dc_state res" where
  "dead_functions order fi [] st = Inr st"
| "dead_functions order fi (f # fs) (changed, s, n) =
     bindR (mark fi s f) (\<lambda>m.
     bindR (sweep order (marked m) f s) (\<lambda>(s', k).
     dead_functions order fi fs (changed \<or> k \<noteq> 0, s', n + k)))"

definition dead_round :: "(vid list \<Rightarrow> vid list) \<Rightarrow> func_info \<Rightarrow> 'z dc_state \<Rightarrow> 'z dc_state res" where
  "dead_round order fi st = (case st of (_, s, n) \<Rightarrow>
     dead_functions order fi (function_list s) (False, s, n))"

text \<open>The \<open>do\<close>-loop runs its body once before the test, so it starts with a true flag.\<close>

definition DeadCode_run :: "(vid list \<Rightarrow> vid list) \<Rightarrow> 'z ir_scheme \<Rightarrow> ('z ir_scheme \<times> nat) res" where
  "DeadCode_run order s =
     bindR (outcome (FuncInfo_run s)) (\<lambda>fi.
     bindR (outcome (whileR fst (dead_round order fi) (True, s, 0))) (\<lambda>(_, s', n).
     Inr (s', n)))"

section \<open>Marking\<close>

definition is_instr :: "'z ir_scheme \<Rightarrow> vid \<Rightarrow> bool" where
  "is_instr s v \<longleftrightarrow> (\<exists>op p. kind_of s v = Some (K_instr op p))"

text \<open>Every instruction is in a block of the store.\<close>

definition instrs_placed :: "'z ir_scheme \<Rightarrow> bool" where
  "instrs_placed s \<longleftrightarrow> (\<forall>v. is_instr s v \<longrightarrow> (\<exists>g. get_function s v = Inr g))"

text \<open>The instructions of the same function that an instruction has as operands.\<close>

definition needs :: "'z ir_scheme \<Rightarrow> vid \<Rightarrow> vid set" where
  "needs s x = {d. (\<exists>j. operand_at s x j = Some d) \<and> is_instr s d \<and> get_function s d = get_function s x}"

definition needed_ops :: "'z ir_scheme \<Rightarrow> vid \<Rightarrow> vid option list \<Rightarrow> vid set" where
  "needed_ops s x ops = {d. Some d \<in> set ops \<and> is_instr s d \<and> get_function s d = get_function s x}"

lemma needs_ops_of: "needs s x = needed_ops s x (ops_of s x)"
proof -
  show ?thesis by (simp add: needs_def needed_ops_def operand_at_mem)
qed

lemma mark_operand_effect:
  assumes placed: "instrs_placed s" and x: "is_instr s x" and op: "\<And>d. op = Some d \<Longrightarrow> d \<in> dom (vals s)"
  shows "mark_operand s x op st = Inr (if needed_ops s x [op] \<subseteq> marked st then st
    else st\<lparr>marked := marked st \<union> needed_ops s x [op], dc_worklist := dc_worklist st @ [the op]\<rparr>)"
proof (cases op)
  case None
  then show ?thesis by (simp add: mark_operand_def needed_ops_def)
next
  case (Some d)
  obtain k where k: "kind_of s d = Some k" using op Some by (auto simp: kind_of_def)
  show ?thesis
  proof (cases "is_instr s d")
    case False
    then have "mark_operand s x op st = Inr st"
      using k Some by (cases k) (auto simp: mark_operand_def is_instr_def)
    with False Some show ?thesis by (auto simp: needed_ops_def)
  next
    case True
    then obtain o' p where k': "kind_of s d = Some (K_instr o' p)" by (auto simp: is_instr_def)
    obtain f g where "get_function s d = Inr f" "get_function s x = Inr g"
      using placed x True unfolding instrs_placed_def by blast
    moreover from this have "needed_ops s x [op] = (if f = g then {d} else {})"
      using Some True by (auto simp: needed_ops_def)
    ultimately show ?thesis using k' Some by (auto simp: mark_operand_def)
  qed
qed

lemma mark_operands_effect:
  assumes placed: "instrs_placed s" and x: "is_instr s x"
    and ops: "\<And>d. Some d \<in> set ops \<Longrightarrow> d \<in> dom (vals s)"
  shows "\<exists>st' new. mark_operands s x ops st = Inr st' \<and> marked st' = marked st \<union> needed_ops s x ops \<and>
    dc_worklist st' = dc_worklist st @ new \<and> set new = needed_ops s x ops - marked st"
  using ops
proof (induction ops arbitrary: st)
  case Nil
  then show ?case by (simp add: needed_ops_def)
next
  case (Cons op ops)
  define st1 where "st1 = (if needed_ops s x [op] \<subseteq> marked st then st
    else st\<lparr>marked := marked st \<union> needed_ops s x [op], dc_worklist := dc_worklist st @ [the op]\<rparr>)"
  have st1: "mark_operand s x op st = Inr st1"
    unfolding st1_def by (rule mark_operand_effect [OF placed x]) (use Cons.prems in auto)
  obtain st' new where r: "mark_operands s x ops st1 = Inr st'" "marked st' = marked st1 \<union> needed_ops s x ops"
    "dc_worklist st' = dc_worklist st1 @ new" "set new = needed_ops s x ops - marked st1"
    using Cons.IH [of st1] Cons.prems by auto
  have split: "needed_ops s x (op # ops) = needed_ops s x [op] \<union> needed_ops s x ops"
    by (auto simp: needed_ops_def)
  have m: "marked st1 = marked st \<union> needed_ops s x [op]" by (auto simp: st1_def)
  have one: "needed_ops s x [op] \<subseteq> {the op}" by (auto simp: needed_ops_def)
  let ?w = "if needed_ops s x [op] \<subseteq> marked st then [] else [the op]"
  have "dc_worklist st1 = dc_worklist st @ ?w" by (simp add: st1_def)
  moreover have "set ?w = needed_ops s x [op] - marked st" using one by auto
  ultimately show ?case using st1 r m split by (intro exI [of _ st'] exI [of _ "?w @ new"]) auto
qed

definition dc_ok :: "'z ir_scheme \<Rightarrow> dead_code \<Rightarrow> bool" where
  "dc_ok s st \<longleftrightarrow> ir_ok s \<and> instrs_placed s \<and> marked st \<subseteq> {v. is_instr s v}"

lemma mark_step:
  assumes ok: "dc_ok s st" and w: "dc_worklist st = x # xs" and x: "x \<in> marked st"
  shows "\<exists>st' new. mark_next s st = Inr st' \<and> dc_ok s st' \<and> marked st' = marked st \<union> needs s x \<and>
    dc_worklist st' = xs @ new \<and> set new = needs s x - marked st"
proof -
  have i: "is_instr s x" and placed: "instrs_placed s" using ok x by (auto simp: dc_ok_def)
  then obtain r where r: "vals s x = Some r" by (auto simp: is_instr_def kind_of_def)
  have ops: "ops_of s x = vops r" using r by (simp add: ops_of_def)
  have dom: "d \<in> dom (vals s)" if "Some d \<in> set (vops r)" for d
    using that ok ir_ok_operand_dom unfolding ops [symmetric] operand_at_mem dc_ok_def by blast
  obtain st' new where st': "mark_operands s x (vops r) (st\<lparr>dc_worklist := xs\<rparr>) = Inr st'"
    "marked st' = marked st \<union> needed_ops s x (vops r)" "dc_worklist st' = xs @ new"
    "set new = needed_ops s x (vops r) - marked st"
    using mark_operands_effect [OF placed i dom, of "vops r" "st\<lparr>dc_worklist := xs\<rparr>"] by auto
  have "mark_next s st = Inr st'" using w r st'(1) by (simp add: mark_next_def)
  moreover have "dc_ok s st'" using ok by (auto simp: dc_ok_def st'(2) needed_ops_def)
  ultimately show ?thesis using st'(2-4) unfolding needs_ops_of ops by blast
qed

interpretation dc: worklist dc_worklist marked "needs s" "mark_next s" "dc_ok s" "{v. v < next_id s}"
  for s :: "'z ir_scheme"
proof unfold_locales
  show "finite {v. v < next_id s}" by simp
  show "marked st \<subseteq> {v. v < next_id s}" if "dc_ok s st" for st
    using that ir_ok_bound [of s, OF _ kind_of_dom] unfolding dc_ok_def is_instr_def by blast
  show "\<exists>st' new. mark_next s st = Inr st' \<and> dc_ok s st' \<and> marked st' = marked st \<union> needs s x \<and>
    dc_worklist st' = xs @ new \<and> set new = needs s x - marked st"
    if "dc_ok s st" "dc_worklist st = x # xs" "x \<in> marked st" for st x xs
    using that by (rule mark_step)
qed

lemma mark_critical_effect:
  assumes "\<And>i. i \<in> set is \<Longrightarrow> is_critical fi s i = Inr (c i)"
  shows "\<exists>st'. mark_critical fi s is st = Inr st' \<and> marked st' = marked st \<union> {i \<in> set is. c i} \<and>
    dc_worklist st' = dc_worklist st @ filter c is"
  using assms
proof (induction "is" arbitrary: st)
  case (Cons i "is")
  let ?st1 = "if c i then st\<lparr>marked := insert i (marked st), dc_worklist := dc_worklist st @ [i]\<rparr> else st"
  obtain st' where "mark_critical fi s is ?st1 = Inr st'" "marked st' = marked ?st1 \<union> {i \<in> set is. c i}"
    "dc_worklist st' = dc_worklist ?st1 @ filter c is"
    using Cons.IH [of ?st1] Cons.prems by auto
  moreover have "mark_critical fi s (i # is) st = mark_critical fi s is ?st1" using Cons.prems [of i] by simp
  ultimately show ?case by (intro exI [of _ st']) (auto simp del: mark_critical.simps)
qed simp

lemma func_instrs_kind:
  "ir_ok s \<Longrightarrow> i \<in> set (func_instrs s f) \<Longrightarrow> is_instr s i"
  by (auto simp: func_instrs_def is_instr_def dest: ir_ok_instr_kind)

lemma mark_effect:
  assumes "ir_ok s" and "instrs_placed s"
    and "\<And>i. i \<in> set (func_instrs s f) \<Longrightarrow> is_critical fi s i = Inr (c i)"
  shows "\<exists>st. mark fi s f = Inr st \<and> marked st = reach (needs s) {i \<in> set (func_instrs s f). c i} \<and> dc_ok s st"
proof -
  obtain st0 where st0: "mark_critical fi s (func_instrs s f) \<lparr>dc_worklist = [], marked = {}\<rparr> = Inr st0"
    "marked st0 = {i \<in> set (func_instrs s f). c i}" "dc_worklist st0 = filter c (func_instrs s f)"
    using mark_critical_effect [OF assms(3), of "func_instrs s f" "\<lparr>dc_worklist = [], marked = {}\<rparr>"] by auto
  have "dc_ok s st0" using assms(1,2) func_instrs_kind [OF assms(1)] by (auto simp: dc_ok_def st0(2))
  from dc.search_total [OF this st0(2)] obtain st where
    "whileR (\<lambda>st. dc_worklist st \<noteq> []) (mark_next s) st0 = Some (Inr st)" "dc_ok s st"
    "marked st = reach (needs s) {i \<in> set (func_instrs s f). c i}"
    by (auto simp: st0(3))
  then show ?thesis by (simp add: mark_def st0(1) outcome_def)
qed

section \<open>Sweeping\<close>

lemma clear_operands_effect:
  assumes "ir_ok s" and "set ls \<subseteq> dom (vals s)"
  shows "\<exists>t. clear_operands ls s = Inr t \<and> ir_ok t \<and> same_but_uses s t \<and>
    (\<forall>a j. operand_at t a j = (if a \<in> set ls then None else operand_at s a j)) \<and>
    (\<forall>u. u \<notin> set ls \<longrightarrow> ops_of t u = ops_of s u)"
  using assms
proof (induction ls arbitrary: s)
  case (Cons i ls)
  obtain s1 where s1: "remove_all_operands i s = Inr s1" "ir_ok s1" "same_but_uses s s1"
    "\<And>a j. operand_at s1 a j = (if a = i then None else operand_at s a j)" "ops_of s1 = (ops_of s)(i := [])"
    using remove_all_operands_total [OF Cons.prems(1)] Cons.prems(2) by force
  obtain t where "clear_operands ls s1 = Inr t" "ir_ok t" "same_but_uses s1 t"
    "\<And>a j. operand_at t a j = (if a \<in> set ls then None else operand_at s1 a j)"
    "\<And>u. u \<notin> set ls \<Longrightarrow> ops_of t u = ops_of s1 u"
    using Cons.IH [OF s1(2)] Cons.prems(2) same_but_uses_dom [OF s1(3)] by auto
  then show ?case using s1 same_but_uses_trans [OF s1(3)] by auto
qed auto

lemma erase_all_effect:
  assumes "ir_ok s" and "distinct ls"
    and "\<And>i. i \<in> set ls \<Longrightarrow> \<exists>b op. i \<in> set (instrs s b) \<and> kind_of s i = Some (K_instr op (Some b)) \<and> op \<noteq> O_br"
  shows "\<exists>t. erase_all ls s = Inr t \<and> ir_ok t \<and>
    kind_of t = (\<lambda>v. if v \<in> set ls then None else kind_of s v) \<and>
    instrs t = (\<lambda>c. filter (\<lambda>y. y \<notin> set ls) (instrs s c)) \<and> funcs t = funcs s \<and> preds t = preds s \<and>
    succs t = succs s \<and> next_id t = next_id s \<and> function_list t = function_list s \<and> parents t = parents s \<and>
    (\<forall>u j. operand_at t u j = (if u \<in> set ls \<or> (\<exists>i\<in>set ls. operand_at s u j = Some i) then None else operand_at s u j)) \<and>
    (\<forall>u. u \<notin> set ls \<longrightarrow> length (ops_of t u) = length (ops_of s u))"
  using assms
proof (induction ls arbitrary: s)
  case Nil
  then show ?case by simp
next
  case (Cons i ls)
  obtain b op where b: "i \<in> set (instrs s b)" "kind_of s i = Some (K_instr op (Some b))" "op \<noteq> O_br"
    using Cons.prems(3) [of i] by auto
  then have par: "instr_parent s i = Inr (Some b)" by (auto simp: instr_parent_def kind_of_def)
  obtain s1 where s1: "erase_instr b i s = Inr s1" "ir_ok s1" "kind_of s1 = (kind_of s)(i := None)"
    "instrs s1 = (\<lambda>c. filter (\<lambda>y. y \<noteq> i) (instrs s c))" "funcs s1 = funcs s" "preds s1 = preds s"
    "succs s1 = succs s" "next_id s1 = next_id s" "function_list s1 = function_list s"
    "parents s1 = parents s" "\<And>u j. operand_at s1 u j = (if u = i \<or> operand_at s u j = Some i then None else operand_at s u j)"
    "\<And>u. u \<noteq> i \<Longrightarrow> length (ops_of s1 u) = length (ops_of s u)"
    using erase_instr_effect [OF Cons.prems(1) b] by blast
  have "\<exists>b op. k \<in> set (instrs s1 b) \<and> kind_of s1 k = Some (K_instr op (Some b)) \<and> op \<noteq> O_br"
    if "k \<in> set ls" for k
    using Cons.prems(2) Cons.prems(3) [of k] that by (auto simp: s1(3,4))
  then obtain t where t: "erase_all ls s1 = Inr t" "ir_ok t"
    "kind_of t = (\<lambda>v. if v \<in> set ls then None else kind_of s1 v)"
    "instrs t = (\<lambda>c. filter (\<lambda>y. y \<notin> set ls) (instrs s1 c))" "funcs t = funcs s1" "preds t = preds s1"
    "succs t = succs s1" "next_id t = next_id s1" "function_list t = function_list s1"
    "parents t = parents s1" "\<And>u j. operand_at t u j = (if u \<in> set ls \<or> (\<exists>i\<in>set ls. operand_at s1 u j = Some i) then None else operand_at s1 u j)"
    "\<And>u. u \<notin> set ls \<Longrightarrow> length (ops_of t u) = length (ops_of s1 u)"
    using Cons.IH [OF s1(2)] Cons.prems(2) by auto
  have "erase_all (i # ls) s = Inr t" using par s1(1) t(1) by simp
  moreover have "kind_of t = (\<lambda>v. if v \<in> set (i # ls) then None else kind_of s v)"
    by (auto simp: t(3) s1(3) fun_eq_iff)
  moreover have "instrs t = (\<lambda>c. filter (\<lambda>y. y \<notin> set (i # ls)) (instrs s c))"
    by (auto simp: t(4) s1(4) fun_eq_iff intro!: filter_cong)
  moreover have "operand_at t u j = (if u \<in> set (i # ls) \<or> (\<exists>k\<in>set (i # ls). operand_at s u j = Some k)
      then None else operand_at s u j)" for u j
    by (auto simp: t(11) s1(11))
  ultimately show ?case using t(2,5-10,12) s1(5-10,12) by auto
qed

lemma removed_func_instrs:
  "removed s D x \<Longrightarrow> func_instrs x f = filter (\<lambda>y. y \<notin> D) (func_instrs s f)"
  by (simp add: removed_def func_instrs_def blocks_def filter_concat o_def)

lemma get_function_parents:
  "get_function s u = Inr g \<longleftrightarrow>
     (\<exists>op b. kind_of s u = Some (K_instr op (Some b)) \<and> parents s b = Some g)"
  unfolding get_function_Inr parents_def by auto

lemma removed_get_function:
  "removed s D x \<Longrightarrow> get_function x u = Inr g \<longleftrightarrow> u \<notin> D \<and> get_function s u = Inr g"
  unfolding get_function_parents removed_def by auto

lemma removed_is_instr: "removed s D x \<Longrightarrow> is_instr x u \<longleftrightarrow> u \<notin> D \<and> is_instr s u"
  by (auto simp: removed_def is_instr_def)

lemma removed_placed: "instrs_placed s \<Longrightarrow> removed s D x \<Longrightarrow> instrs_placed x"
  by (simp add: instrs_placed_def removed_get_function removed_is_instr)

lemma distinct_concat_instrs:
  assumes "ir_ok s" and "distinct bs"
  shows "distinct (concat (map (instrs s) bs))"
  using assms(2)
proof (induction bs)
  case (Cons b bs)
  have "set (instrs s b) \<inter> set (concat (map (instrs s) bs)) = {}"
    using Cons.prems ir_ok_one_block [OF assms(1)] by fastforce
  then show ?case using Cons ir_ok_distinct_instrs [OF assms(1)] by simp
qed simp

lemma distinct_func_instrs: "ir_ok s \<Longrightarrow> distinct (func_instrs s f)"
  unfolding func_instrs_def by (rule distinct_concat_instrs) (simp_all add: ir_ok_def blocks_ok_def)

lemma func_instrs_function:
  assumes "ir_ok s" and "i \<in> set (func_instrs s f)"
  shows "get_function s i = Inr f"
proof -
  obtain b where b: "b \<in> set (blocks s f)" "i \<in> set (instrs s b)" using assms(2) by (auto simp: func_instrs_def)
  then obtain r where "bbs s b = Some r" "bparent r = f" using assms(1) by (auto simp: ir_ok_def blocks_ok_def)
  then show ?thesis using ir_ok_instr_kind [OF assms(1) b(2)] unfolding get_function_Inr by blast
qed

lemma sweep_effect:
  assumes ok: "ir_ok s" and perm: "\<And>xs. mset (order xs) = mset xs"
    and no_br: "\<And>i p. i \<in> set (func_instrs s f) \<Longrightarrow> i \<notin> M \<Longrightarrow> kind_of s i \<noteq> Some (K_instr O_br p)"
  shows "\<exists>t. sweep order M f s = Inr (t, card (set (func_instrs s f) - M)) \<and>
    removed s (set (func_instrs s f) - M) t"
proof -
  let ?w = "filter (\<lambda>i. i \<notin> M) (func_instrs s f)" and ?D = "set (func_instrs s f) - M"
  have set_w: "set (order ?w) = ?D" and dist: "distinct (order ?w)"
    using distinct_func_instrs [OF ok, of f] mset_eq_setD [OF perm [of ?w]]
      mset_eq_imp_distinct_iff [OF perm [of ?w]] by auto
  have "set (order ?w) \<subseteq> dom (vals s)"
    using func_instrs_kind [OF ok] unfolding set_w is_instr_def kind_of_def by fastforce
  then obtain s1 where s1: "clear_operands (order ?w) s = Inr s1" "ir_ok s1" "same_but_uses s s1"
    "\<And>a j. operand_at s1 a j = (if a \<in> ?D then None else operand_at s a j)"
    "\<And>u. u \<notin> ?D \<Longrightarrow> ops_of s1 u = ops_of s u"
    using clear_operands_effect [OF ok, of "order ?w"] unfolding set_w by blast
  note k = same_but_uses_obs(1) [OF s1(3)] and l = same_layout_obs [OF same_but_uses_layout [OF s1(3)]]
  have "\<exists>b op. i \<in> set (instrs s1 b) \<and> kind_of s1 i = Some (K_instr op (Some b)) \<and> op \<noteq> O_br"
    if "i \<in> set (order ?w)" for i
  proof -
    have i: "i \<in> set (func_instrs s f)" "i \<notin> M" using that unfolding set_w by auto
    then obtain b where "i \<in> set (instrs s b)" by (auto simp: func_instrs_def)
    then show ?thesis using ir_ok_instr_kind [OF ok] no_br [OF i] unfolding k l by blast
  qed
  then obtain t where t: "erase_all (order ?w) s1 = Inr t" "ir_ok t"
    "kind_of t = (\<lambda>v. if v \<in> ?D then None else kind_of s1 v)"
    "instrs t = (\<lambda>c. filter (\<lambda>y. y \<notin> ?D) (instrs s1 c))" "funcs t = funcs s1" "preds t = preds s1"
    "succs t = succs s1" "function_list t = function_list s1" "parents t = parents s1"
    "\<And>u j. operand_at t u j = (if u \<in> ?D \<or> (\<exists>i\<in>?D. operand_at s1 u j = Some i) then None else operand_at s1 u j)"
    "\<And>u. u \<notin> ?D \<Longrightarrow> length (ops_of t u) = length (ops_of s1 u)"
    using erase_all_effect [OF s1(2) dist] unfolding set_w by blast
  have "length ?w = card ?D"
    using distinct_card [of ?w] distinct_func_instrs [OF ok, of f] by (simp add: set_diff_eq)
  then have "sweep order M f s = Inr (t, card ?D)" by (simp add: sweep_def s1(1) t(1))
  moreover have "parents s1 = parents s"
    using same_but_uses_layout [OF s1(3)] by (simp add: same_layout_def parents_def fun_eq_iff)
  moreover have "funcs s1 = funcs s" "function_list s1 = function_list s"
    using same_but_uses_layout [OF s1(3)] by (simp_all add: same_layout_def)
  ultimately show ?thesis
    using t(2,5-9) k l unfolding removed_def by (auto simp: t(3,4,10,11) s1(4,5))
qed

section \<open>The whole pass\<close>

definition kept :: "func_info \<Rightarrow> 'z ir_scheme \<Rightarrow> vid \<Rightarrow> vid set" where
  "kept fi s f = reach (needs s) {i \<in> set (func_instrs s f). is_critical fi s i = Inr True}"

text \<open>The inputs of the pass: every instruction is in a block of the function that its
  instruction operands are in, and the callee of every call has been analysed.\<close>

definition dc_input :: "func_info \<Rightarrow> 'z ir_scheme \<Rightarrow> bool" where
  "dc_input fi s \<longleftrightarrow> ir_ok s \<and> instrs_placed s \<and>
     (\<forall>u j d. operand_at s u j = Some d \<longrightarrow> is_instr s d \<longrightarrow> is_instr s u \<longrightarrow> get_function s d = get_function s u) \<and>
     (\<forall>f\<in>set (function_list s). \<forall>i\<in>set (func_instrs s f). \<exists>c. is_critical fi s i = Inr c)"

definition module_instrs :: "'z ir_scheme \<Rightarrow> vid set" where
  "module_instrs s = (\<Union>f\<in>set (function_list s). set (func_instrs s f))"

definition droppable :: "func_info \<Rightarrow> 'z ir_scheme \<Rightarrow> vid set \<Rightarrow> bool" where
  "droppable fi s D \<longleftrightarrow> D \<subseteq> module_instrs s \<and> (\<forall>f\<in>set (function_list s). D \<inter> kept fi s f = {})"

lemma kept_function:
  assumes ok: "ir_ok s" and x: "x \<in> kept fi s f"
  shows "is_instr s x \<and> get_function s x = Inr f"
proof -
  have "kept fi s f \<subseteq> {x. is_instr s x \<and> get_function s x = Inr f}"
    unfolding kept_def
    by (rule reach_least) (auto simp: func_instrs_kind [OF ok] func_instrs_function [OF ok] needs_def)
  then show ?thesis using x by blast
qed

lemma kept_closed: "x \<in> kept fi s f \<Longrightarrow> d \<in> needs s x \<Longrightarrow> d \<in> kept fi s f"
  unfolding kept_def by (rule reach_closed)

lemma kept_critical: "i \<in> set (func_instrs s f) \<Longrightarrow> is_critical fi s i = Inr True \<Longrightarrow> i \<in> kept fi s f"
  unfolding kept_def by (rule subsetD [OF reach_superset]) simp

lemma get_operand_at: "operand_at s u i = Some v \<Longrightarrow> get_operand s u i = Inr (Some v)"
  by (auto simp: operand_at_def ops_of_def get_operand_def split: if_splits option.splits)

lemma get_operand_Some: "get_operand s u i = Inr (Some v) \<longleftrightarrow> operand_at s u i = Some v"
  by (auto simp: operand_at_def ops_of_def get_operand_def split: if_splits option.splits)

lemma removed_critical:
  assumes rem: "removed s D x" and D: "\<And>d. d \<in> D \<Longrightarrow> is_instr s d" and i: "i \<notin> D"
    and c: "is_critical fi s i = Inr c"
  shows "is_critical fi x i = Inr c"
proof -
  have kind: "kind_of x v = kind_of s v" if "v \<notin> D" for v using rem that by (simp add: removed_def)
  obtain op p where op: "kind_of s i = Some (K_instr op p)" using c by (auto simp: is_critical_def)
  then have ops: "instr_op s i = Inr op" "instr_op x i = Inr op" using kind [OF i] by simp_all
  show ?thesis
  proof (cases "op = O_call")
    case False
    then show ?thesis using c ops by (simp add: is_critical_def del: instr_op_Inr)
  next
    case True
    then obtain g where g: "operand_at s i 0 = Some g" "kind_of s g = Some K_func" "is_pure_function fi g = Inr (\<not> c)"
      using c ops unfolding get_operand_Some [symmetric]
      by (auto simp: is_critical_def simp del: instr_op_Inr split: option.splits if_splits)
    then have "g \<notin> D" using D [of g] by (auto simp: is_instr_def)
    then have "operand_at x i 0 = Some g" "kind_of x g = Some K_func"
      using rem g i kind by (auto simp: removed_def)
    then show ?thesis using ops True g(3) by (simp add: is_critical_def get_operand_at del: instr_op_Inr)
  qed
qed

lemma mark_removed:
  assumes inp: "dc_input fi s" and rem: "removed s D x" and drop: "droppable fi s D"
    and f: "f \<in> set (function_list s)"
  shows "\<exists>st. mark fi x f = Inr st \<and> marked st = kept fi s f"
proof -
  have ok: "ir_ok s" and placed: "instrs_placed s" using inp by (auto simp: dc_input_def)
  have D: "is_instr s d" if "d \<in> D" for d
    using that drop func_instrs_kind [OF ok] by (auto simp: droppable_def module_instrs_def)
  have K: "D \<inter> kept fi s f = {}" using drop f by (simp add: droppable_def)
  define c where "c i = (is_critical fi s i = Inr True)" for i
  have crit: "is_critical fi x i = Inr (c i)" if "i \<in> set (func_instrs x f)" for i
  proof -
    have i: "i \<in> set (func_instrs s f)" "i \<notin> D" using that removed_func_instrs [OF rem] by auto
    then obtain b where b: "is_critical fi s i = Inr b" using inp f unfolding dc_input_def by blast
    then have "c i = b" by (simp add: c_def)
    then show ?thesis using removed_critical [OF rem D i(2) b] by simp
  qed
  have "{i \<in> set (func_instrs x f). c i} = {i \<in> set (func_instrs s f). is_critical fi s i = Inr True}"
    using removed_func_instrs [OF rem, of f] K kept_critical [of _ s f fi] by (auto simp: c_def)
  moreover have "needs x u = needs s u" if u: "u \<in> kept fi s f" for u
  proof -
    have iu: "is_instr s u" "get_function s u = Inr f" using kept_function [OF ok u] by auto
    have nD: "u \<notin> D" using K u by blast
    have "d \<notin> D" if "d \<in> needs s u" for d using kept_closed [OF u that] K by blast
    moreover have "operand_at x u j = Some d \<longleftrightarrow> operand_at s u j = Some d \<and> d \<notin> D" for j d
      using rem nD by (auto simp: removed_def)
    moreover have "get_function x d = get_function x u \<longleftrightarrow> get_function s d = get_function s u"
      if d: "d \<notin> D" "is_instr s d" for d
    proof -
      obtain g where "get_function s d = Inr g" using placed d(2) by (auto simp: instrs_placed_def)
      then show ?thesis using d(1) iu(2) nD removed_get_function [OF rem] by (metis Inr_inject)
    qed
    ultimately show ?thesis
      using removed_is_instr [OF rem] unfolding needs_def by blast
  qed
  then have "reach (needs x) {i \<in> set (func_instrs s f). is_critical fi s i = Inr True} = kept fi s f"
    unfolding kept_def by (intro reach_mono_on) (simp add: kept_def)
  moreover have "ir_ok x" using rem by (simp add: removed_def)
  ultimately show ?thesis using mark_effect [of x f fi c, OF _ removed_placed [OF placed rem] crit] by auto
qed

lemma sweep_removed:
  assumes inp: "dc_input fi s" and rem: "removed s D x" and drop: "droppable fi s D"
    and f: "f \<in> set (function_list s)" and perm: "\<And>xs. mset (order xs) = mset xs"
  defines "E \<equiv> set (func_instrs s f) - D - kept fi s f"
  shows "\<exists>y. sweep order (kept fi s f) f x = Inr (y, card E) \<and> removed s (D \<union> E) y \<and> droppable fi s (D \<union> E)"
proof -
  have ok: "ir_ok s" using inp by (auto simp: dc_input_def)
  have E: "set (func_instrs x f) - kept fi s f = E"
    using removed_func_instrs [OF rem, of f] by (auto simp: E_def)
  have "kind_of x i \<noteq> Some (K_instr O_br p)" if "i \<in> set (func_instrs x f)" "i \<notin> kept fi s f" for i p
  proof
    assume "kind_of x i = Some (K_instr O_br p)"
    then have "kind_of s i = Some (K_instr O_br p)" using rem by (auto simp: removed_def split: if_splits)
    then have "is_critical fi s i = Inr True" by (auto simp: is_critical_def)
    then show False using kept_critical that removed_func_instrs [OF rem, of f] by auto
  qed
  moreover have "ir_ok x" using rem by (simp add: removed_def)
  ultimately obtain y where y: "sweep order (kept fi s f) f x = Inr (y, card E)" "removed x E y"
    using sweep_effect [of x order f "kept fi s f"] perm unfolding E by blast
  have "E \<inter> kept fi s g = {}" for g
    using kept_function [OF ok, of _ fi g] func_instrs_function [OF ok, of _ f] by (fastforce simp: E_def)
  then have "droppable fi s (D \<union> E)"
    using drop f by (auto simp: droppable_def module_instrs_def E_def)
  then show ?thesis using y removed_trans [OF rem] by blast
qed

lemma dead_functions_effect:
  assumes inp: "dc_input fi s" and perm: "\<And>xs. mset (order xs) = mset xs"
    and "removed s D x" and "droppable fi s D" and "set fs \<subseteq> set (function_list s)"
  shows "\<exists>y E. dead_functions order fi fs (ch, x, n) = Inr (ch \<or> E \<noteq> D, y, n + card (E - D)) \<and>
    removed s E y \<and> droppable fi s E \<and> D \<subseteq> E \<and> (\<forall>f\<in>set fs. set (func_instrs s f) - E \<subseteq> kept fi s f)"
  using assms(3-5)
proof (induction fs arbitrary: ch x n D)
  case Nil
  then show ?case by (intro exI [of _ x] exI [of _ D]) simp
next
  case (Cons f fs)
  have f: "f \<in> set (function_list s)" using Cons.prems(3) by simp
  obtain st where st: "mark fi x f = Inr st" "marked st = kept fi s f"
    using mark_removed [OF inp Cons.prems(1,2) f] by blast
  define E1 where "E1 = set (func_instrs s f) - D - kept fi s f"
  obtain y where y: "sweep order (kept fi s f) f x = Inr (y, card E1)" "removed s (D \<union> E1) y" "droppable fi s (D \<union> E1)"
    using sweep_removed [OF inp Cons.prems(1,2) f perm] unfolding E1_def by blast
  have sub: "set fs \<subseteq> set (function_list s)" using Cons.prems(3) by simp
  obtain z E where z: "dead_functions order fi fs (ch \<or> card E1 \<noteq> 0, y, n + card E1) =
      Inr ((ch \<or> card E1 \<noteq> 0) \<or> E \<noteq> D \<union> E1, z, n + card E1 + card (E - (D \<union> E1)))"
    "removed s E z" "droppable fi s E" "D \<union> E1 \<subseteq> E" "\<forall>f\<in>set fs. set (func_instrs s f) - E \<subseteq> kept fi s f"
    using Cons.IH [OF y(2,3) sub, of "ch \<or> card E1 \<noteq> 0" "n + card E1"] by blast
  have fin: "finite E1" "finite E" using z(3) by (auto simp: E1_def droppable_def module_instrs_def
        intro: finite_subset [of E "\<Union>f\<in>set (function_list s). set (func_instrs s f)"])
  have disj: "D \<inter> E1 = {}" by (auto simp: E1_def)
  have "E - D = E1 \<union> (E - (D \<union> E1))" using z(4) disj by auto
  then have "card (E - D) = card E1 + card (E - (D \<union> E1))"
    using fin card_Un_disjoint [of E1 "E - (D \<union> E1)"] by auto
  moreover have "((ch \<or> card E1 \<noteq> 0) \<or> E \<noteq> D \<union> E1) = (ch \<or> E \<noteq> D)"
    using fin(1) z(4) disj by (auto simp: card_eq_0_iff)
  ultimately have "dead_functions order fi (f # fs) (ch, x, n) = Inr (ch \<or> E \<noteq> D, z, n + card (E - D))"
    using st y(1) z(1) by (simp add: add.assoc)
  moreover have "set (func_instrs s f) - E \<subseteq> kept fi s f" using z(4) by (auto simp: E1_def)
  ultimately show ?case using z by (intro exI [of _ z] exI [of _ E]) auto
qed

text \<open>The invariant of the outer loop: what is left to drop when \<open>changed\<close> is false.\<close>

definition dc_loop :: "func_info \<Rightarrow> 'z ir_scheme \<Rightarrow> 'z dc_state \<Rightarrow> vid set \<Rightarrow> bool" where
  "dc_loop fi s st D = (case st of (ch, x, n) \<Rightarrow> removed s D x \<and> droppable fi s D \<and> n = card D \<and>
     (\<not> ch \<longrightarrow> (\<forall>f\<in>set (function_list s). set (func_instrs s f) - D \<subseteq> kept fi s f)))"

definition alive :: "'z ir_scheme \<Rightarrow> 'z dc_state \<Rightarrow> nat" where
  "alive s st = card {i \<in> module_instrs s. kind_of (fst (snd st)) i \<noteq> None}"

lemma finite_module_instrs [simp]: "finite (module_instrs s)"
  by (simp add: module_instrs_def)

lemma dead_round_step:
  assumes inp: "dc_input fi s" and perm: "\<And>xs. mset (order xs) = mset xs"
    and loop: "\<exists>D. dc_loop fi s st D" and "fst st"
  shows "\<exists>st'. dead_round order fi st = Inr st' \<and> (\<exists>D. dc_loop fi s st' D) \<and>
    (st', st) \<in> measures [alive s, \<lambda>st. if fst st then 1 else 0]"
proof -
  obtain x n D where st: "st = (True, x, n)" and D: "removed s D x" "droppable fi s D" "n = card D"
    using loop \<open>fst st\<close> by (cases st) (auto simp: dc_loop_def)
  have fl: "function_list x = function_list s" using D(1) by (simp add: removed_def)
  obtain y E where y: "dead_functions order fi (function_list s) (False, x, n) =
      Inr (E \<noteq> D, y, n + card (E - D))" "removed s E y" "droppable fi s E" "D \<subseteq> E"
    "\<forall>f\<in>set (function_list s). set (func_instrs s f) - E \<subseteq> kept fi s f"
    using dead_functions_effect [OF inp perm D(1,2), of "function_list s" False n] by auto
  have fin: "finite E" using y(3) finite_subset [OF _ finite_module_instrs] by (auto simp: droppable_def)
  then have card: "n + card (E - D) = card E"
    using y(4) D(3) by (simp add: card_Diff_subset finite_subset card_mono)
  have gone: "alive s (c, z, m) = card (module_instrs s - F)" if "removed s F z" for c z m F
  proof -
    have "kind_of s i \<noteq> None" if "i \<in> module_instrs s" for i
      using that inp func_instrs_kind by (fastforce simp: module_instrs_def dc_input_def is_instr_def)
    then have "{i \<in> module_instrs s. kind_of z i \<noteq> None} = module_instrs s - F"
      using that by (auto simp: removed_def)
    then show ?thesis by (simp add: alive_def)
  qed
  have "card (module_instrs s - E) < card (module_instrs s - D)" if "E \<noteq> D"
  proof -
    have "module_instrs s - E \<subset> module_instrs s - D" using that y(3,4) by (auto simp: droppable_def)
    then show ?thesis by (simp add: psubset_card_mono)
  qed
  moreover have "dead_round order fi st = Inr (E \<noteq> D, y, n + card (E - D))"
    using y(1) by (simp add: dead_round_def st fl)
  moreover have "dc_loop fi s (E \<noteq> D, y, n + card (E - D)) E" using y card by (simp add: dc_loop_def)
  moreover have "((E \<noteq> D, y, n + card (E - D)), st) \<in> measures [alive s, \<lambda>st. if fst st then 1 else 0]"
    using \<open>E \<noteq> D \<Longrightarrow> _\<close> gone [OF y(2)] gone [OF D(1)] by (cases "E = D") (simp_all add: st)
  ultimately show ?thesis by blast
qed

text \<open>C12: the pass ends. What remains of every function are, in their order, exactly the
  instructions that a critical instruction needs through a chain of operands; each keeps
  its operands, the module is well formed, and the count is the number of deletions. The
  order in which the hash set is walked does not matter.\<close>

theorem dead_code_correct:
  assumes "FuncInfo_run s = Some (Inr fi)" and "dc_input fi s" and "\<And>xs. mset (order xs) = mset xs"
  shows "\<exists>t. DeadCode_run order s = Inr (t, card (module_instrs s - (\<Union>f\<in>set (function_list s). kept fi s f))) \<and>
    ir_ok t \<and> (\<forall>f\<in>set (function_list s).
      func_instrs t f = filter (\<lambda>i. i \<in> kept fi s f) (func_instrs s f) \<and>
      (\<forall>i\<in>set (func_instrs t f). kind_of t i = kind_of s i \<and> operand_at t i = operand_at s i))"
proof -
  have ok: "ir_ok s" using assms(2) by (simp add: dc_input_def)
  have "dc_loop fi s (True, s, 0) {}" using removed_refl [OF ok] by (simp add: dc_loop_def droppable_def)
  then obtain st D where run: "whileR fst (dead_round order fi) (True, s, 0) = Some (Inr st)"
    and D: "dc_loop fi s st D" "\<not> fst st"
    using whileR_total [where I = "\<lambda>st. \<exists>D. dc_loop fi s st D" and b = fst and c = "dead_round order fi",
        OF _ dead_round_step [OF assms(2,3)] wf_measures] by blast
  obtain t n where st: "st = (False, t, n)" using D(2) by (cases st) auto
  have rem: "removed s D t" and drop: "droppable fi s D" and n: "n = card D"
    and left: "\<And>f. f \<in> set (function_list s) \<Longrightarrow> set (func_instrs s f) - D \<subseteq> kept fi s f"
    using D(1) by (auto simp: dc_loop_def st)
  have iff: "i \<notin> D \<longleftrightarrow> i \<in> kept fi s f" if "f \<in> set (function_list s)" "i \<in> set (func_instrs s f)" for i f
    using left [OF that(1)] that drop by (auto simp: droppable_def)
  have "D = module_instrs s - (\<Union>f\<in>set (function_list s). kept fi s f)"
    using drop left unfolding droppable_def module_instrs_def by blast
  then have "DeadCode_run order s = Inr (t, card (module_instrs s - (\<Union>f\<in>set (function_list s). kept fi s f)))"
    using run assms(1) n by (simp add: DeadCode_run_def outcome_def st)
  moreover have "func_instrs t f = filter (\<lambda>i. i \<in> kept fi s f) (func_instrs s f)"
    if "f \<in> set (function_list s)" for f
    unfolding removed_func_instrs [OF rem] using iff [OF that] by (rule filter_cong [OF refl])
  moreover have "kind_of t i = kind_of s i \<and> operand_at t i = operand_at s i"
    if "f \<in> set (function_list s)" "i \<in> kept fi s f" "i \<in> set (func_instrs s f)" for f i
  proof -
    have nD: "i \<notin> D" using iff [OF that(1,3)] that(2) by simp
    have "operand_at s i j \<noteq> Some d" if d: "d \<in> D" for j d
    proof
      assume op: "operand_at s i j = Some d"
      have "is_instr s d" using d drop func_instrs_kind [OF ok] by (auto simp: droppable_def module_instrs_def)
      then have "d \<in> needs s i"
        using op assms(2) kept_function [OF ok \<open>i \<in> kept fi s f\<close>] by (auto simp: needs_def dc_input_def)
      then have "d \<in> kept fi s f" using kept_closed \<open>i \<in> kept fi s f\<close> by blast
      then show False using drop d \<open>f \<in> _\<close> by (auto simp: droppable_def)
    qed
    then show ?thesis using rem nD by (auto simp: removed_def fun_eq_iff)
  qed
  ultimately show ?thesis using rem by (auto simp: removed_def)
qed

text \<open>A function \<open>main\<close> with a dead addition (object 2) and a return (object 3).\<close>

definition dc_demo :: ir where
  "dc_demo = empty_ir\<lparr>vals :=
     [0 \<mapsto> \<lparr>vty = FunctionTy VoidTy [], vname = ''main'', vuses = [], vops = [], vkind = K_func\<rparr>,
      1 \<mapsto> \<lparr>vty = LabelTy, vname = '''', vuses = [], vops = [], vkind = K_block\<rparr>,
      2 \<mapsto> \<lparr>vty = int32_ty, vname = '''', vuses = [], vops = [Some 4], vkind = K_instr O_add (Some 1)\<rparr>,
      3 \<mapsto> \<lparr>vty = VoidTy, vname = '''', vuses = [], vops = [], vkind = K_instr O_ret (Some 1)\<rparr>,
      4 \<mapsto> \<lparr>vty = int32_ty, vname = '''', vuses = [(2, 0)], vops = [], vkind = K_int 1\<rparr>],
     bbs := [1 \<mapsto> \<lparr>pre_bbs = [], succ_bbs = [], instr_list = [2, 3], bparent = 0\<rparr>],
     funcs := [0 \<mapsto> \<lparr>basic_blocks = [1], arguments = [], seq_cnt = 0\<rparr>],
     next_id := 5, function_list := [0]\<rparr>"

lemma dc_demo_obs:
  "uses_of dc_demo v = (if v = 4 then [(2, 0)] else [])"
  "operand_at dc_demo u j = (if u = 2 \<and> j = 0 then Some 4 else None)"
  "kind_of dc_demo = [0 \<mapsto> K_func, 1 \<mapsto> K_block, 2 \<mapsto> K_instr O_add (Some 1), 3 \<mapsto> K_instr O_ret (Some 1), 4 \<mapsto> K_int 1]"
  "instrs dc_demo b = (if b = 1 then [2, 3] else [])" "preds dc_demo b = []" "succs dc_demo b = []"
  "blocks dc_demo f = (if f = 0 then [1] else [])" "dom (vals dc_demo) = {0, 1, 2, 3, 4}"
  "dom (bbs dc_demo) = {1}" "dom (funcs dc_demo) = {0}" "next_id dc_demo = 5" "function_list dc_demo = [0]"
  "map_option bparent (bbs dc_demo b) = (if b = 1 then Some 0 else None)"
  by (auto simp: dc_demo_def empty_ir_def uses_of_def operand_at_def ops_of_def kind_of_def graph_defs fun_eq_iff)

lemma ir_ok_dc_demo: "ir_ok dc_demo"
proof -
  have "use_def_ok dc_demo" by (rule use_def_okI) (auto simp: dc_demo_obs split: if_splits)
  moreover have "ids_ok dc_demo" unfolding ids_ok_def dc_demo_obs by simp
  moreover have "cfg_ok dc_demo" by (simp add: cfg_ok_def dc_demo_obs)
  moreover have "placed_ok dc_demo"
    by (simp add: placed_ok_def listed_ok_def dc_demo_obs is_terminator_op_def)
  moreover have "blocks_ok dc_demo"
    by (auto simp: blocks_ok_def dc_demo_obs) (auto simp: dc_demo_def)
  ultimately show ?thesis by (simp add: ir_ok_def)
qed

theorem dead_code_witness:
  "\<exists>t. DeadCode_run rev dc_demo = Inr (t, 1) \<and> func_instrs t 0 = [3] \<and> ir_ok t"
proof -
  let ?fi = "\<lparr>fi_worklist = [], is_pure = [0 \<mapsto> False]\<rparr>"
  have gf: "get_function dc_demo i = Inr g \<longleftrightarrow> i \<in> {2, 3} \<and> g = 0" for i g
    unfolding get_function_parents parents_def dc_demo_obs by auto
  obtain r rf where r: "vals dc_demo 0 = Some r" "vname r = ''main''" "vuses r = []"
    and rf: "funcs dc_demo 0 = Some rf" "basic_blocks rf = [1]"
    by (simp add: dc_demo_def empty_ir_def)
  have "trivially_pure dc_demo 0 = Inr False"
    using r rf by (simp add: trivially_pure_def is_declaration_def del: bindR_Inr_iff)
  moreover have "process_next dc_demo \<lparr>fi_worklist = [0], is_pure = [0 \<mapsto> False]\<rparr> = Inr ?fi"
    using r by (simp add: process_next_def process_function_def del: bindR_Inr_iff)
  ultimately have fi: "FuncInfo_run dc_demo = Some (Inr ?fi)"
    by (simp add: FuncInfo_run_def dc_demo_obs trivial_mark_def pure_entry_def whileR_step)
  have fn: "func_instrs dc_demo 0 = [2, 3]" by (simp add: func_instrs_def dc_demo_obs)
  have crit: "is_critical ?fi dc_demo i = Inr (i = 3)" if "i = 2 \<or> i = 3" for i
  proof -
    have "instr_op dc_demo i = Inr (if i = 3 then O_ret else O_add)" using that by (auto simp: dc_demo_obs)
    then show ?thesis by (simp add: is_critical_def del: instr_op_Inr)
  qed
  have inp: "dc_input ?fi dc_demo"
    unfolding dc_input_def
    using ir_ok_dc_demo crit by (auto simp: instrs_placed_def is_instr_def gf fn dc_demo_obs split: if_splits)
  have "needs dc_demo x = {}" for x by (auto simp: needs_def is_instr_def dc_demo_obs)
  then have "kept ?fi dc_demo 0 = {3}"
    using crit by (auto simp: kept_def reach_def fn)
  then show ?thesis
    using dead_code_correct [OF fi inp, of rev]
    by (auto simp: fn dc_demo_obs module_instrs_def)
qed

end
