(* ===== verification/SimplifyPhi.thy ===== *)
theory SimplifyPhi
  imports Erasing
begin

text \<open>
  Removal of trivial phis (\<open>src/passes/SimplifyPhi.cpp\<close>). A phi all of whose incoming
  values are itself or one other value is replaced by that value; the phis that used it are
  queued again. The correctness statement is a substitution: every remaining operand is the
  old one with the removed phis replaced, and the substitution makes all incoming values of
  a removed phi equal.
\<close>

section \<open>The pass\<close>

text \<open>\<open>findReplacement\<close>: the loop over the even operands.\<close>

fun find_replacement_loop :: "vid \<Rightarrow> vid option list \<Rightarrow> vid option \<Rightarrow> vid option" where
  "find_replacement_loop phi [] replacement = replacement"
| "find_replacement_loop phi (incoming # rest) replacement =
     (let rest' = drop 1 rest in
      if incoming = Some phi then find_replacement_loop phi rest' replacement
      else if replacement = None then find_replacement_loop phi rest' incoming
      else if incoming \<noteq> replacement then None
      else find_replacement_loop phi rest' replacement)"

definition findReplacement :: "'z ir_scheme \<Rightarrow> vid \<Rightarrow> vid option res" where
  "findReplacement s phi = bindR (deref (vals s) phi) (\<lambda>r. Inr (find_replacement_loop phi (vops r) None))"

record 'z sphi =
  sp_worklist :: "vid list"
  phis_to_erase :: "vid set"
  sp_ir :: "'z ir_scheme"

text \<open>The phis at the head of a block, with the assertion on each.\<close>

fun queue_block :: "'z ir_scheme \<Rightarrow> vid list \<Rightarrow> vid list res" where
  "queue_block s [] = Inr []"
| "queue_block s (i # is) =
     (if is_phi_instr s i then
        bindR (deref (vals s) i) (\<lambda>r.
        bindR (guardR (0 < length (vops r) \<and> even (length (vops r)))
                 (Assert_fail ''num_operands > 0 && !(num_operands & 1)'')) (\<lambda>_.
        bindR (queue_block s is) (\<lambda>q. Inr (i # q))))
      else Inr [])"

fun queue_blocks :: "'z ir_scheme \<Rightarrow> vid list \<Rightarrow> vid list res" where
  "queue_blocks s [] = Inr []"
| "queue_blocks s (b # bs) =
     bindR (queue_block s (instrs s b)) (\<lambda>q. bindR (queue_blocks s bs) (\<lambda>q'. Inr (q @ q')))"

definition addToWorklist :: "'z ir_scheme \<Rightarrow> use_entry list \<Rightarrow> vid list" where
  "addToWorklist s uses = filter (is_phi_instr s) (map fst uses)"

definition simplify_next :: "'z sphi \<Rightarrow> 'z sphi res" where
  "simplify_next st = (case sp_worklist st of
     [] \<Rightarrow> Inl (UB ''front'')
   | cur # rest \<Rightarrow>
       if cur \<in> phis_to_erase st then Inr (st\<lparr>sp_worklist := rest\<rparr>)
       else
         bindR (findReplacement (sp_ir st) cur) (\<lambda>replacement.
         if replacement \<noteq> None \<and> replacement \<noteq> Some cur then
           bindR (deref (vals (sp_ir st)) cur) (\<lambda>r.
           bindR (replace_all_use_with cur replacement (sp_ir st)) (\<lambda>s'.
           Inr \<lparr>sp_worklist = rest @ addToWorklist (sp_ir st) (vuses r),
                phis_to_erase = insert cur (phis_to_erase st), sp_ir = s'\<rparr>))
         else Inr (st\<lparr>sp_worklist := rest\<rparr>)))"

fun erase_phis :: "vid set \<Rightarrow> vid \<Rightarrow> vid list \<Rightarrow> 'z ir_scheme \<Rightarrow> 'z ir_scheme res" where
  "erase_phis D b [] s = Inr s"
| "erase_phis D b (i # is) s =
     (if is_phi_instr s i \<and> i \<in> D then bindR (erase_instr b i s) (erase_phis D b is)
      else erase_phis D b is s)"

fun erase_blocks :: "vid set \<Rightarrow> vid list \<Rightarrow> 'z ir_scheme \<Rightarrow> 'z ir_scheme res" where
  "erase_blocks D [] s = Inr s"
| "erase_blocks D (b # bs) s = bindR (erase_phis D b (instrs s b) s) (erase_blocks D bs)"

definition simplifyFunction :: "vid \<Rightarrow> 'z ir_scheme \<Rightarrow> 'z ir_scheme res" where
  "simplifyFunction f s =
     bindR (queue_blocks s (blocks s f)) (\<lambda>q.
     bindR (outcome (whileR (\<lambda>st. sp_worklist st \<noteq> []) simplify_next
              \<lparr>sp_worklist = q, phis_to_erase = {}, sp_ir = s\<rparr>)) (\<lambda>st.
     erase_blocks (phis_to_erase st) (blocks (sp_ir st) f) (sp_ir st)))"

fun simplify_functions :: "vid list \<Rightarrow> 'z ir_scheme \<Rightarrow> 'z ir_scheme res" where
  "simplify_functions [] s = Inr s"
| "simplify_functions (f # fs) s =
     bindR (is_declaration s f) (\<lambda>d.
     bindR (if d then Inr s else simplifyFunction f s) (simplify_functions fs))"

definition SimplifyPhi_run :: "'z ir_scheme \<Rightarrow> 'z ir_scheme res" where
  "SimplifyPhi_run s = simplify_functions (function_list s) s"

section \<open>Replacements\<close>

text \<open>The incoming values: the operands at even positions.\<close>

fun evens :: "'a list \<Rightarrow> 'a list" where
  "evens [] = []"
| "evens (x # xs) = x # evens (drop 1 xs)"

lemma find_replacement_loop_Some:
  assumes "find_replacement_loop phi ops r = Some v" and "r \<noteq> Some phi"
  shows "v \<noteq> phi \<and> (r = None \<or> r = Some v) \<and>
    (\<forall>x\<in>set (evens ops). x = Some phi \<or> x = Some v \<or> x = None) \<and> (r = Some v \<or> Some v \<in> set ops)"
  using assms
proof (induction phi ops r rule: find_replacement_loop.induct)
  case (2 phi x rest r)
  have sub: "set (drop 1 rest) \<subseteq> set rest" by (rule set_drop_subset)
  consider "x = Some phi" | "x \<noteq> Some phi" "r = None" | "x \<noteq> Some phi" "r \<noteq> None" "x = r"
    using 2(4) by (auto simp: Let_def split: if_splits)
  then show ?case
  proof cases
    case 1
    then show ?thesis using 2(1) [OF refl 1] 2(4,5) sub by auto
  next
    case 2
    then show ?thesis using "2.IH"(2) [OF refl 2] "2.prems" sub by (auto simp: Let_def)
  next
    case 3
    then show ?thesis using "2.IH"(3) [OF refl 3(1,2)] "2.prems" sub by (auto simp: Let_def)
  qed
qed auto

lemma evens_map: "evens (map f xs) = map f (evens xs)"
  by (induction xs rule: evens.induct) (simp_all add: drop_map)

lemma evens_subset: "set (evens xs) \<subseteq> set xs"
  by (induction xs rule: evens.induct) (auto dest: in_set_dropD)

definition trivial_phi :: "'z ir_scheme \<Rightarrow> vid \<Rightarrow> bool" where
  "trivial_phi s p \<longleftrightarrow> find_replacement_loop p (ops_of s p) None \<noteq> None"

text \<open>The store is \<open>s\<close> with the substitution \<open>\<sigma>\<close> applied to every operand; \<open>D\<close> are the phis
  that are substituted.\<close>

definition substituted :: "'z ir_scheme \<Rightarrow> vid set \<Rightarrow> (vid \<Rightarrow> vid) \<Rightarrow> 'z ir_scheme \<Rightarrow> bool" where
  "substituted s D \<sigma> x \<longleftrightarrow> ir_ok x \<and> same_but_uses s x \<and> D \<subseteq> {p. is_phi_instr s p} \<and>
     (\<forall>v. v \<notin> D \<longrightarrow> \<sigma> v = v) \<and> (\<forall>v. \<sigma> v \<notin> D) \<and>
     (\<forall>u. ops_of x u = map (map_option \<sigma>) (ops_of s u)) \<and>
     (\<forall>p\<in>D. \<forall>v. Some v \<in> set (evens (ops_of s p)) \<longrightarrow> \<sigma> v = \<sigma> p)"

definition sphi_inv :: "'z ir_scheme \<Rightarrow> vid list \<Rightarrow> 'z sphi \<Rightarrow> bool" where
  "sphi_inv s q st \<longleftrightarrow> (\<exists>\<sigma>. substituted s (phis_to_erase st) \<sigma> (sp_ir st)) \<and>
     set (sp_worklist st) \<subseteq> {p. is_phi_instr s p} \<and>
     (\<forall>p\<in>set q. p \<notin> phis_to_erase st \<longrightarrow> p \<in> set (sp_worklist st) \<or> \<not> trivial_phi (sp_ir st) p)"

lemma substituted_step:
  assumes sub: "substituted s D \<sigma> x" and cur: "is_phi_instr s cur" "cur \<notin> D"
    and f: "find_replacement_loop cur (ops_of x cur) None = Some r"
  shows "\<exists>y. replace_all_use_with cur (Some r) x = Inr y \<and>
    substituted s (insert cur D) (\<lambda>v. if \<sigma> v = cur then r else \<sigma> v) y \<and>
    (\<forall>p. Some cur \<notin> set (ops_of x p) \<longrightarrow> ops_of y p = ops_of x p)"
proof -
  note S = sub [unfolded substituted_def]
  have fr: "r \<noteq> cur" "\<forall>v\<in>set (evens (ops_of x cur)). v = Some cur \<or> v = Some r \<or> v = None"
    "Some r \<in> set (ops_of x cur)"
    using find_replacement_loop_Some [OF f] by auto
  have ok: "ir_ok x" and ops: "\<And>u. ops_of x u = map (map_option \<sigma>) (ops_of s u)" using S by auto
  have k: "kind_of x = kind_of s" using S same_but_uses_obs(1) by blast
  have dom: "cur \<in> dom (vals x)" using cur(1) kind_of_dom [of x cur] unfolding is_phi_instr_iff k by blast
  have r: "r \<in> dom (vals x)" using fr(3) ir_ok_operand_dom [OF ok] unfolding operand_at_mem by blast
  obtain w where "r = \<sigma> w" using fr(3) unfolding ops by (auto simp: eq_commute [of "Some r"])
  then have rD: "r \<notin> D" using S by blast
  obtain y where y: "replace_all_use_with cur (Some r) x = Inr y" "ir_ok y" "same_but_uses x y"
    "\<And>u. ops_of y u = map (\<lambda>v. if v = Some cur then Some r else v) (ops_of x u)"
    using replace_all_use_with_total [OF ok dom r fr(1)] by blast
  let ?\<sigma> = "\<lambda>v. if \<sigma> v = cur then r else \<sigma> v"
  have "substituted s (insert cur D) ?\<sigma> y"
    unfolding substituted_def
  proof (intro conjI allI impI ballI)
    show "ir_ok y" by (rule y(2))
    show "same_but_uses s y" using S y(3) same_but_uses_trans by blast
    show "insert cur D \<subseteq> {p. is_phi_instr s p}" using S cur(1) by auto
    show "?\<sigma> v = v" if "v \<notin> insert cur D" for v using S that by auto
    show "?\<sigma> v \<notin> insert cur D" for v using S fr(1) rD by auto
    show "ops_of y u = map (map_option ?\<sigma>) (ops_of s u)" for u
      unfolding y(4) ops by (auto simp: map_option_case split: option.split)
    show "?\<sigma> v = ?\<sigma> p" if p: "p \<in> insert cur D" and v: "Some v \<in> set (evens (ops_of s p))" for p v
    proof (cases "p \<in> D")
      case True
      then have "\<sigma> v = \<sigma> p" using S v by blast
      then show ?thesis by simp
    next
      case False
      then have "p = cur" using p by simp
      then have "Some (\<sigma> v) \<in> set (evens (ops_of x cur))" using v unfolding ops evens_map by force
      then have "\<sigma> v = cur \<or> \<sigma> v = r" using fr(2) by auto
      moreover have "\<sigma> cur = cur" using S cur(2) by blast
      ultimately show ?thesis using \<open>p = cur\<close> by auto
    qed
  qed
  moreover have "ops_of y p = ops_of x p" if "Some cur \<notin> set (ops_of x p)" for p
    unfolding y(4) using that by (auto intro: map_idI)
  ultimately show ?thesis using y(1) by blast
qed

lemma simplify_step:
  assumes inv: "sphi_inv s q st" and q: "set q \<subseteq> {p. is_phi_instr s p}" and w: "sp_worklist st \<noteq> []"
  shows "\<exists>st'. simplify_next st = Inr st' \<and> sphi_inv s q st' \<and> (st', st) \<in>
    measures [\<lambda>st. card ({p. p < next_id s} - phis_to_erase st), \<lambda>st. length (sp_worklist st)]"
proof -
  obtain cur rest where cur: "sp_worklist st = cur # rest" using w by (cases "sp_worklist st") auto
  let ?D = "phis_to_erase st" and ?x = "sp_ir st"
  obtain \<sigma> where sub: "substituted s ?D \<sigma> ?x" using inv by (auto simp: sphi_inv_def)
  have phi: "is_phi_instr s cur" using inv cur by (simp add: sphi_inv_def)
  have k: "kind_of ?x = kind_of s" "next_id ?x = next_id s"
    using sub same_but_uses_obs(1,4) unfolding substituted_def by blast+
  obtain rc where rc: "vals ?x cur = Some rc" using phi unfolding is_phi_instr_iff k(1) [symmetric] kind_of_def by auto
  have ops: "vops rc = ops_of ?x cur" and uses: "vuses rc = uses_of ?x cur" using rc by (simp_all add: ops_of_def uses_of_def)
  define skip where "skip = st\<lparr>sp_worklist := rest\<rparr>"
  have skip: "(skip, st) \<in> measures [\<lambda>st. card ({p. p < next_id s} - phis_to_erase st), \<lambda>st. length (sp_worklist st)]"
    by (simp add: skip_def cur)
  have skip_inv: "sphi_inv s q skip" if "cur \<in> ?D \<or> \<not> trivial_phi ?x cur"
    using inv cur that by (auto simp: sphi_inv_def skip_def)
  have fr: "findReplacement ?x cur = Inr (find_replacement_loop cur (ops_of ?x cur) None)"
    using rc ops by (simp add: findReplacement_def)
  show ?thesis
  proof (cases "cur \<in> ?D \<or> find_replacement_loop cur (ops_of ?x cur) None = None")
    case True
    then have "simplify_next st = Inr skip" using fr by (auto simp: simplify_next_def cur skip_def)
    moreover have "sphi_inv s q skip" using True by (intro skip_inv) (auto simp: trivial_phi_def)
    ultimately show ?thesis using skip by blast
  next
    case False
    then obtain r where r: "find_replacement_loop cur (ops_of ?x cur) None = Some r" and cD: "cur \<notin> ?D" by auto
    have "r \<noteq> cur" using find_replacement_loop_Some [OF r] by simp
    obtain y where y: "replace_all_use_with cur (Some r) ?x = Inr y"
      "substituted s (insert cur ?D) (\<lambda>v. if \<sigma> v = cur then r else \<sigma> v) y"
      "\<And>p. Some cur \<notin> set (ops_of ?x p) \<Longrightarrow> ops_of y p = ops_of ?x p"
      using substituted_step [OF sub phi cD r] by blast
    define st' where "st' = \<lparr>sp_worklist = rest @ addToWorklist ?x (vuses rc), phis_to_erase = insert cur ?D, sp_ir = y\<rparr>"
    have run: "simplify_next st = Inr st'"
      using cD fr r rc \<open>r \<noteq> cur\<close> y(1) by (simp add: simplify_next_def cur st'_def)
    have queued: "p \<in> set (addToWorklist ?x (vuses rc))" if user: "Some cur \<in> set (ops_of ?x p)" "is_phi_instr s p" for p
    proof -
      obtain j where "operand_at ?x p j = Some cur" using user(1) unfolding operand_at_mem by blast
      then have "(p, j) \<in> set (vuses rc)"
        unfolding uses using sub use_def_okD(2) ir_ok_use_def unfolding substituted_def by blast
      then show ?thesis using user(2) unfolding addToWorklist_def is_phi_instr_iff k(1) by force
    qed
    have "p \<in> set (sp_worklist st') \<or> \<not> trivial_phi y p" if p: "p \<in> set q" "p \<notin> insert cur ?D" for p
    proof (cases "Some cur \<in> set (ops_of ?x p)")
      case True
      then show ?thesis using queued q p(1) by (auto simp: st'_def)
    next
      case False
      have "p \<in> set rest \<or> \<not> trivial_phi ?x p" using inv p cur by (auto simp: sphi_inv_def)
      then show ?thesis using y(3) [OF False] by (auto simp: st'_def trivial_phi_def)
    qed
    moreover have "set (addToWorklist ?x (vuses rc)) \<subseteq> {p. is_phi_instr s p}"
      unfolding addToWorklist_def is_phi_instr_iff k(1) by auto
    ultimately have "sphi_inv s q st'"
      using y(2) inv cur by (auto simp: sphi_inv_def st'_def)
    moreover have "card ({p. p < next_id s} - phis_to_erase st') < card ({p. p < next_id s} - ?D)"
    proof -
      have "cur < next_id s"
        using ir_ok_bound [of ?x cur] sub rc unfolding substituted_def k(2) by blast
      then have "{p. p < next_id s} - phis_to_erase st' \<subset> {p. p < next_id s} - ?D" using cD by (auto simp: st'_def)
      then show ?thesis by (simp add: psubset_card_mono)
    qed
    ultimately show ?thesis using run by auto
  qed
qed

section \<open>Erasing the replaced phis\<close>

lemma erase_phis_effect:
  assumes "ir_ok s" and "set is \<subseteq> set (instrs s b)" and "distinct is"
  shows "\<exists>t. erase_phis D b is s = Inr t \<and> removed s {i \<in> set is. is_phi_instr s i \<and> i \<in> D} t"
  using assms
proof (induction "is" arbitrary: s)
  case Nil
  then show ?case by (simp add: removed_refl)
next
  case (Cons i "is")
  show ?case
  proof (cases "is_phi_instr s i \<and> i \<in> D")
    case False
    then have "{k \<in> set (i # is). is_phi_instr s k \<and> k \<in> D} = {k \<in> set is. is_phi_instr s k \<and> k \<in> D}" by auto
    moreover have "erase_phis D b (i # is) s = erase_phis D b is s" using False by auto
    ultimately show ?thesis using Cons.IH [OF Cons.prems(1)] Cons.prems by simp
  next
    case True
    then obtain p where "kind_of s i = Some (K_instr O_phi p)" by (auto simp: is_phi_instr_iff)
    then obtain s1 where s1: "erase_instr b i s = Inr s1" "removed s {i} s1"
      using erase_instr_removed [OF Cons.prems(1), of i b O_phi p] Cons.prems(2) by auto
    have "set is \<subseteq> set (instrs s1 b)" "ir_ok s1"
      using Cons.prems(2,3) s1(2) by (auto simp: removed_def)
    then obtain t where t: "erase_phis D b is s1 = Inr t" "removed s1 {k \<in> set is. is_phi_instr s1 k \<and> k \<in> D} t"
      using Cons.IH Cons.prems(3) by auto
    have "{i} \<union> {k \<in> set is. is_phi_instr s1 k \<and> k \<in> D} = {k \<in> set (i # is). is_phi_instr s k \<and> k \<in> D}"
      using True removed_is_phi [OF s1(2)] Cons.prems(3) by auto
    then show ?thesis using removed_trans [OF s1(2) t(2)] True s1(1) t(1) by auto
  qed
qed

lemma erase_blocks_effect:
  assumes "ir_ok s" and "distinct bs"
  shows "\<exists>t. erase_blocks D bs s = Inr t \<and>
    removed s {i \<in> set (concat (map (instrs s) bs)). is_phi_instr s i \<and> i \<in> D} t"
  using assms
proof (induction bs arbitrary: s)
  case Nil
  then show ?case by (simp add: removed_refl)
next
  case (Cons b bs)
  let ?E = "{i \<in> set (instrs s b). is_phi_instr s i \<and> i \<in> D}"
  obtain s1 where s1: "erase_phis D b (instrs s b) s = Inr s1" "removed s ?E s1"
    using erase_phis_effect [OF Cons.prems(1) subset_refl ir_ok_distinct_instrs [OF Cons.prems(1)]] by blast
  have other: "instrs s1 c = instrs s c" if "c \<in> set bs" for c
  proof -
    have "set (instrs s c) \<inter> ?E = {}"
      using that Cons.prems(2) ir_ok_one_block [OF Cons.prems(1), of _ b c] by auto
    moreover have "instrs s1 c = filter (\<lambda>y. y \<notin> ?E) (instrs s c)" using s1(2) by (simp add: removed_def)
    ultimately show ?thesis by (simp only: filter_id_conv) blast
  qed
  obtain t where t: "erase_blocks D bs s1 = Inr t"
    "removed s1 {i \<in> set (concat (map (instrs s1) bs)). is_phi_instr s1 i \<and> i \<in> D} t"
    using Cons.IH [of s1] Cons.prems(2) s1(2) by (auto simp: removed_def)
  have "map (instrs s1) bs = map (instrs s) bs" using other by simp
  then have "?E \<union> {i \<in> set (concat (map (instrs s1) bs)). is_phi_instr s1 i \<and> i \<in> D} =
      {i \<in> set (concat (map (instrs s) (b # bs))). is_phi_instr s i \<and> i \<in> D}"
    using removed_is_phi [OF s1(2)] by auto
  then show ?case using removed_trans [OF s1(2) t(2)] s1(1) t(1) by simp
qed

section \<open>What the pass achieves\<close>

text \<open>The phis at the heads of the blocks of a function; their operands come in pairs.\<close>

definition head_phis :: "'z ir_scheme \<Rightarrow> vid \<Rightarrow> vid list" where
  "head_phis s f = concat (map (\<lambda>b. takeWhile (is_phi_instr s) (instrs s b)) (blocks s f))"

definition pairs_ok :: "'z ir_scheme \<Rightarrow> vid \<Rightarrow> bool" where
  "pairs_ok s p \<longleftrightarrow> 0 < length (ops_of s p) \<and> even (length (ops_of s p))"

lemma queue_block_effect:
  "(\<forall>p\<in>set (takeWhile (is_phi_instr s) is). pairs_ok s p) \<Longrightarrow> queue_block s is = Inr (takeWhile (is_phi_instr s) is)"
proof (induction "is")
  case (Cons i "is")
  show ?case
  proof (cases "is_phi_instr s i")
    case True
    then obtain r where r: "vals s i = Some r" by (auto simp: is_phi_instr_iff kind_of_def)
    then have "0 < length (vops r) \<and> even (length (vops r))"
      using Cons.prems True by (simp add: pairs_ok_def ops_of_def)
    then show ?thesis using Cons True r by (simp del: bindR_Inr_iff)
  qed simp
qed simp

lemma queue_blocks_effect:
  "(\<forall>b\<in>set bs. \<forall>p\<in>set (takeWhile (is_phi_instr s) (instrs s b)). pairs_ok s p) \<Longrightarrow>
    queue_blocks s bs = Inr (concat (map (\<lambda>b. takeWhile (is_phi_instr s) (instrs s b)) bs))"
  by (induction bs) (simp_all add: queue_block_effect)

text \<open>C13: the simplification of a function ends and leaves a well-formed module. There is a
  substitution that fixes every value but the removed phis, gives all incoming values of
  a removed phi the value of the phi, and has no removed phi as a result; every operand
  left in the module is the old operand under it. No phi at the head of a block of the
  result has a single incoming value besides itself.\<close>

theorem simplify_phi_correct:
  assumes ok: "ir_ok s" and pairs: "\<forall>p\<in>set (head_phis s f). pairs_ok s p"
  shows "\<exists>t D \<sigma>. simplifyFunction f s = Inr t \<and> ir_ok t \<and> D \<subseteq> {p. is_phi_instr s p} \<and>
    (\<forall>v. v \<notin> D \<longrightarrow> \<sigma> v = v) \<and> (\<forall>v. \<sigma> v \<notin> D) \<and>
    (\<forall>p\<in>D. \<forall>v. Some v \<in> set (evens (ops_of s p)) \<longrightarrow> \<sigma> v = \<sigma> p) \<and>
    (\<forall>b\<in>set (blocks s f). instrs t b = filter (\<lambda>i. i \<notin> D) (instrs s b)) \<and>
    (\<forall>i. i \<notin> D \<longrightarrow> kind_of t i = kind_of s i \<and> ops_of t i = map (map_option \<sigma>) (ops_of s i)) \<and>
    (\<forall>p\<in>set (head_phis s f). p \<notin> D \<longrightarrow> \<not> trivial_phi t p)"
proof -
  let ?q = "head_phis s f" and ?st = "\<lparr>sp_worklist = head_phis s f, phis_to_erase = {}, sp_ir = s\<rparr>"
  have q: "set ?q \<subseteq> {p. is_phi_instr s p}" by (auto simp: head_phis_def dest: set_takeWhileD)
  have "queue_blocks s (blocks s f) = Inr ?q"
    unfolding head_phis_def by (rule queue_blocks_effect) (use pairs in \<open>auto simp: head_phis_def\<close>)
  moreover have "substituted s {} (\<lambda>v. v) s"
  proof -
    have "map_option (\<lambda>v. v :: vid) = (\<lambda>x. x)" by (simp add: fun_eq_iff option.map_ident)
    then show ?thesis using ok by (simp add: substituted_def)
  qed
  then have "sphi_inv s ?q ?st" using q by (auto simp: sphi_inv_def)
  then obtain st where st: "whileR (\<lambda>st. sp_worklist st \<noteq> []) simplify_next ?st = Some (Inr st)"
    "sphi_inv s ?q st" "sp_worklist st = []"
    using whileR_total [where I = "sphi_inv s ?q" and b = "\<lambda>st. sp_worklist st \<noteq> []" and c = simplify_next,
        OF _ simplify_step [OF _ q] wf_measures] by blast
  obtain \<sigma> where sub: "substituted s (phis_to_erase st) \<sigma> (sp_ir st)" using st(2) by (auto simp: sphi_inv_def)
  let ?D = "phis_to_erase st" and ?x = "sp_ir st"
  note S = sub [unfolded substituted_def]
  have okx: "ir_ok ?x" and same: "same_but_uses s ?x" using S by auto
  note o = same_but_uses_obs [OF same] and l = same_layout_obs [OF same_but_uses_layout [OF same]]
  let ?E = "{i \<in> set (concat (map (instrs ?x) (blocks ?x f))). is_phi_instr ?x i \<and> i \<in> ?D}"
  obtain t where t: "erase_blocks ?D (blocks ?x f) ?x = Inr t" "removed ?x ?E t"
    using erase_blocks_effect [OF okx, of "blocks ?x f" ?D] okx by (auto simp: ir_ok_def blocks_ok_def)
  note R = t(2) [unfolded removed_def]
  have phi: "is_phi_instr ?x i = is_phi_instr s i" for i by (simp add: is_phi_instr_iff o)
  have run: "simplifyFunction f s = Inr t"
    using \<open>queue_blocks s (blocks s f) = Inr ?q\<close> st(1) t(1) by (simp add: simplifyFunction_def outcome_def)
  have opx: "operand_at ?x u j = map_option \<sigma> (operand_at s u j)" for u j
    using S by (simp add: operand_at_def)
  have free: "operand_at ?x u j \<noteq> Some d" if "d \<in> ?D" for u j d
    using S that unfolding opx by auto
  have opt: "operand_at t i j = operand_at ?x i j" if "i \<notin> ?D" for i j
    using R that free [of _ i j] by (auto split: if_splits)
  have ops: "ops_of t i = ops_of ?x i" if "i \<notin> ?D" for i
  proof (rule nth_equalityI)
    show len: "length (ops_of t i) = length (ops_of ?x i)" using R that by blast
    show "ops_of t i ! j = ops_of ?x i ! j" if "j < length (ops_of t i)" for j
      using opt [OF \<open>i \<notin> ?D\<close>, of j] that len by (simp add: operand_at_def)
  qed
  have "instrs t b = filter (\<lambda>i. i \<notin> ?D) (instrs s b)" if b: "b \<in> set (blocks s f)" for b
  proof -
    have "i \<notin> ?E \<longleftrightarrow> i \<notin> ?D" if "i \<in> set (instrs s b)" for i
      using that b S phi unfolding l by auto
    then show ?thesis using R unfolding l by (auto intro!: filter_cong)
  qed
  moreover have "kind_of t i = kind_of s i" if "i \<notin> ?D" for i using R that by (simp add: o)
  moreover have "\<not> trivial_phi t p" if "p \<in> set ?q" "p \<notin> ?D" for p
    using st(2,3) that ops by (auto simp: sphi_inv_def trivial_phi_def)
  ultimately show ?thesis
    using run R S ops by (intro exI [of _ t] exI [of _ ?D] exI [of _ \<sigma>]) auto
qed

text \<open>A block (object 1) with a phi (object 2) of one constant (object 4), and a return of
  the phi (object 3).\<close>

definition sp_demo :: ir where
  "sp_demo = empty_ir\<lparr>vals :=
     [0 \<mapsto> \<lparr>vty = FunctionTy int32_ty [], vname = ''f'', vuses = [], vops = [], vkind = K_func\<rparr>,
      1 \<mapsto> \<lparr>vty = LabelTy, vname = '''', vuses = [(2, 1), (2, 3)], vops = [], vkind = K_block\<rparr>,
      2 \<mapsto> \<lparr>vty = int32_ty, vname = '''', vuses = [(3, 0)], vops = [Some 4, Some 1, Some 4, Some 1],
           vkind = K_instr O_phi (Some 1)\<rparr>,
      3 \<mapsto> \<lparr>vty = VoidTy, vname = '''', vuses = [], vops = [Some 2], vkind = K_instr O_ret (Some 1)\<rparr>,
      4 \<mapsto> \<lparr>vty = int32_ty, vname = '''', vuses = [(2, 0), (2, 2)], vops = [], vkind = K_int 1\<rparr>],
     bbs := [1 \<mapsto> \<lparr>pre_bbs = [], succ_bbs = [], instr_list = [2, 3], bparent = 0\<rparr>],
     funcs := [0 \<mapsto> \<lparr>basic_blocks = [1], arguments = [], seq_cnt = 0\<rparr>],
     next_id := 5, function_list := [0]\<rparr>"

lemma sp_demo_obs:
  "uses_of sp_demo v = (if v = 4 then [(2, 0), (2, 2)] else if v = 2 then [(3, 0)]
     else if v = 1 then [(2, 1), (2, 3)] else [])"
  "ops_of sp_demo u = (if u = 2 then [Some 4, Some 1, Some 4, Some 1] else if u = 3 then [Some 2] else [])"
  "kind_of sp_demo = [0 \<mapsto> K_func, 1 \<mapsto> K_block, 2 \<mapsto> K_instr O_phi (Some 1), 3 \<mapsto> K_instr O_ret (Some 1), 4 \<mapsto> K_int 1]"
  "instrs sp_demo b = (if b = 1 then [2, 3] else [])" "preds sp_demo b = []" "succs sp_demo b = []"
  "blocks sp_demo f = (if f = 0 then [1] else [])" "dom (vals sp_demo) = {0, 1, 2, 3, 4}"
  "dom (bbs sp_demo) = {1}" "dom (funcs sp_demo) = {0}" "next_id sp_demo = 5" "function_list sp_demo = [0]"
  by (auto simp: sp_demo_def empty_ir_def uses_of_def ops_of_def kind_of_def graph_defs fun_eq_iff)

lemma ir_ok_sp_demo: "ir_ok sp_demo"
proof -
  have "use_def_ok sp_demo"
    by (rule use_def_okI) (auto simp: sp_demo_obs operand_at_def nth_Cons' split: if_splits)
  moreover have "ids_ok sp_demo" unfolding ids_ok_def sp_demo_obs by simp
  moreover have "cfg_ok sp_demo" by (simp add: cfg_ok_def sp_demo_obs)
  moreover have "placed_ok sp_demo"
    by (simp add: placed_ok_def listed_ok_def sp_demo_obs is_terminator_op_def)
  moreover have "blocks_ok sp_demo"
    by (auto simp: blocks_ok_def sp_demo_obs) (auto simp: sp_demo_def)
  ultimately show ?thesis by (simp add: ir_ok_def)
qed

theorem simplify_phi_witness:
  "\<exists>t. simplifyFunction 0 sp_demo = Inr t \<and> instrs t 1 = [3] \<and> ops_of t 3 = [Some 4]"
proof -
  have phi: "is_phi_instr sp_demo i \<longleftrightarrow> i = 2" for i by (auto simp: is_phi_instr_iff sp_demo_obs split: if_splits)
  have heads: "head_phis sp_demo 0 = [2]" by (simp add: head_phis_def sp_demo_obs phi)
  then have "\<forall>p\<in>set (head_phis sp_demo 0). pairs_ok sp_demo p" by (simp add: pairs_ok_def sp_demo_obs)
  from simplify_phi_correct [OF ir_ok_sp_demo this] obtain t D \<sigma> where t: "simplifyFunction 0 sp_demo = Inr t"
    and D: "D \<subseteq> {p. is_phi_instr sp_demo p}" and fixed: "\<forall>v. v \<notin> D \<longrightarrow> \<sigma> v = v"
    and cong: "\<forall>p\<in>D. \<forall>v. Some v \<in> set (evens (ops_of sp_demo p)) \<longrightarrow> \<sigma> v = \<sigma> p"
    and ins: "\<forall>b\<in>set (blocks sp_demo 0). instrs t b = filter (\<lambda>i. i \<notin> D) (instrs sp_demo b)"
    and ops: "\<forall>i. i \<notin> D \<longrightarrow> kind_of t i = kind_of sp_demo i \<and> ops_of t i = map (map_option \<sigma>) (ops_of sp_demo i)"
    and triv: "\<forall>p\<in>set (head_phis sp_demo 0). p \<notin> D \<longrightarrow> \<not> trivial_phi t p"
    by (elim exE conjE) (rule that)
  have D2: "D \<subseteq> {2}" using D phi by blast
  have "2 \<in> D"
  proof (rule ccontr)
    assume n: "2 \<notin> D"
    then have "\<sigma> v = v" for v using D2 fixed by blast
    then have "ops_of t 2 = [Some 4, Some 1, Some 4, Some 1]" using ops n by (simp add: sp_demo_obs)
    then have "trivial_phi t 2" by (simp add: trivial_phi_def)
    then show False using triv n heads by simp
  qed
  moreover have "3 \<notin> D" "4 \<notin> D" using D2 by auto
  moreover have "\<sigma> 4 = \<sigma> 2" using cong \<open>2 \<in> D\<close> by (auto simp: sp_demo_obs)
  moreover have "\<sigma> 2 = 4" using fixed \<open>4 \<notin> D\<close> \<open>\<sigma> 4 = \<sigma> 2\<close> by simp
  moreover have "instrs t 1 = [3]" using ins \<open>2 \<in> D\<close> \<open>3 \<notin> D\<close> by (simp add: sp_demo_obs)
  moreover have "ops_of t 3 = [Some (\<sigma> 2)]" using ops \<open>3 \<notin> D\<close> by (simp add: sp_demo_obs)
  ultimately show ?thesis using t by auto
qed

end
