(* ===== verification/UnreachableBlockElim.thy ===== *)
theory UnreachableBlockElim
  imports Erasing "HOL-Library.Multiset"
begin

text \<open>
  Removal of unreachable blocks (\<open>src/passes/UnreachableBlockElim.cpp\<close>): a search from the
  entry block along the targets of the branches, then every block that was not found is
  taken out of the function, after the phis of its successors have dropped the pair that
  comes from it.
\<close>

section \<open>The pass\<close>

text \<open>\<open>remove_dead_predecessor_from_phis\<close>: the loop that looks for the pair of the dead block;
  the operands from index \<open>i\<close> on.\<close>

fun find_pair :: "vid \<Rightarrow> nat \<Rightarrow> vid option list \<Rightarrow> nat option res" where
  "find_pair dead i [] = Inr None"
| "find_pair dead i [v] = Inl Out_of_range"
| "find_pair dead i (v # b # rest) =
     (if b = Some dead then Inr (Some i) else find_pair dead (i + 2) rest)"

definition drop_pair :: "vid \<Rightarrow> vid \<Rightarrow> 'z ir_scheme \<Rightarrow> 'z ir_scheme res" where
  "drop_pair dead phi s =
     bindR (deref (vals s) phi) (\<lambda>r.
     bindR (find_pair dead 0 (vops r)) (\<lambda>found. case found of
       None \<Rightarrow> Inr s
     | Some i \<Rightarrow> bindR (remove_operand phi (i + 1) s) (remove_operand phi i)))"

fun drop_pairs :: "vid \<Rightarrow> vid list \<Rightarrow> 'z ir_scheme \<Rightarrow> 'z ir_scheme res" where
  "drop_pairs dead [] s = Inr s"
| "drop_pairs dead (i # is) s =
     (if is_phi_instr s i then bindR (drop_pair dead i s) (drop_pairs dead is) else Inr s)"

definition remove_dead_predecessor_from_phis :: "vid \<Rightarrow> vid \<Rightarrow> 'z ir_scheme \<Rightarrow> 'z ir_scheme res" where
  "remove_dead_predecessor_from_phis succ dead s = drop_pairs dead (instrs s succ) s"

text \<open>The successors that the terminator names.\<close>

definition branch_targets :: "'z ir_scheme \<Rightarrow> vid \<Rightarrow> vid list res" where
  "branch_targets s b =
     bindR (get_terminator s b) (\<lambda>i.
     bindR (instr_op s i) (\<lambda>op. bindR (deref (vals s) i) (\<lambda>r.
     if op \<noteq> O_br then Inr []
     else
       let targets = (if length (vops r) = 3 then [vops r ! 1, vops r ! 2] else take 1 (vops r)) in
       bindR (guardR (targets \<noteq> []) Out_of_range) (\<lambda>_.
       bindR (guardR (None \<notin> set targets) Null_deref) (\<lambda>_.
       Inr (map the targets))))))"

record ube =
  ub_worklist :: "vid list"
  reachable_blocks :: "vid set"

fun visit_succs :: "vid list \<Rightarrow> ube \<Rightarrow> ube" where
  "visit_succs [] st = st"
| "visit_succs (succ # rest) st =
     visit_succs rest
       (if succ \<in> reachable_blocks st then st
        else st\<lparr>reachable_blocks := insert succ (reachable_blocks st),
                ub_worklist := ub_worklist st @ [succ]\<rparr>)"

definition visit_next :: "'z ir_scheme \<Rightarrow> ube \<Rightarrow> ube res" where
  "visit_next s st = (case ub_worklist st of
     [] \<Rightarrow> Inl (UB ''front'')
   | block # rest \<Rightarrow>
       bindR (branch_targets s block) (\<lambda>ts. Inr (visit_succs ts (st\<lparr>ub_worklist := rest\<rparr>))))"

fun drop_from_succs :: "vid \<Rightarrow> vid list \<Rightarrow> 'z ir_scheme \<Rightarrow> 'z ir_scheme res" where
  "drop_from_succs dead [] s = Inr s"
| "drop_from_succs dead (succ # rest) s =
     bindR (remove_dead_predecessor_from_phis succ dead s) (drop_from_succs dead rest)"

fun remove_unreached :: "vid \<Rightarrow> vid set \<Rightarrow> vid list \<Rightarrow> 'z ir_scheme \<Rightarrow> 'z ir_scheme res" where
  "remove_unreached f R [] s = Inr s"
| "remove_unreached f R (b # bs) s =
     bindR (if b \<in> R then Inr s
            else bindR (drop_from_succs b (succs s b) s) (Function_remove f b)) (remove_unreached f R bs)"

definition elim_function :: "vid \<Rightarrow> 'z ir_scheme \<Rightarrow> 'z ir_scheme res" where
  "elim_function f s = (case blocks s f of
     [] \<Rightarrow> Inl (UB ''front'')
   | entry # _ \<Rightarrow>
       bindR (outcome (whileR (\<lambda>st. ub_worklist st \<noteq> []) (visit_next s)
                \<lparr>ub_worklist = [entry], reachable_blocks = {entry}\<rparr>)) (\<lambda>st.
       remove_unreached f (reachable_blocks st) (blocks s f) s))"

fun elim_functions :: "vid list \<Rightarrow> 'z ir_scheme \<Rightarrow> 'z ir_scheme res" where
  "elim_functions [] s = Inr s"
| "elim_functions (f # fs) s =
     bindR (is_declaration s f) (\<lambda>d.
     bindR (if d then Inr s else elim_function f s) (elim_functions fs))"

definition UnreachableBlockElim_run :: "'z ir_scheme \<Rightarrow> 'z ir_scheme res" where
  "UnreachableBlockElim_run s = elim_functions (function_list s) s"

section \<open>The search\<close>

definition targets :: "'z ir_scheme \<Rightarrow> vid \<Rightarrow> vid set" where
  "targets s b = (case branch_targets s b of Inl e \<Rightarrow> {} | Inr ts \<Rightarrow> set ts)"

definition ub_ok :: "'z ir_scheme \<Rightarrow> vid \<Rightarrow> ube \<Rightarrow> bool" where
  "ub_ok s f st \<longleftrightarrow> reachable_blocks st \<subseteq> set (blocks s f) \<and>
     (\<forall>b\<in>set (blocks s f). \<exists>ts. branch_targets s b = Inr ts \<and> set ts \<subseteq> set (blocks s f))"

lemma visit_succs_effect:
  "\<exists>new. visit_succs ts st = st\<lparr>reachable_blocks := reachable_blocks st \<union> set ts, ub_worklist := ub_worklist st @ new\<rparr>
    \<and> set new = set ts - reachable_blocks st"
proof (induction ts arbitrary: st)
  case Nil
  show ?case by (intro exI [of _ "[]"]) simp
next
  case (Cons t ts)
  show ?case
  proof (cases "t \<in> reachable_blocks st")
    case True
    then show ?thesis using Cons.IH [of st] by (auto simp: insert_absorb)
  next
    case False
    let ?st1 = "st\<lparr>reachable_blocks := insert t (reachable_blocks st), ub_worklist := ub_worklist st @ [t]\<rparr>"
    obtain new where "visit_succs ts ?st1 = ?st1\<lparr>reachable_blocks := reachable_blocks ?st1 \<union> set ts,
        ub_worklist := ub_worklist ?st1 @ new\<rparr>" "set new = set ts - reachable_blocks ?st1"
      using Cons.IH by blast
    then show ?thesis using False by (intro exI [of _ "t # new"]) auto
  qed
qed

lemma visit_step:
  assumes ok: "ub_ok s f st" and w: "ub_worklist st = b # bs" and b: "b \<in> reachable_blocks st"
  shows "\<exists>st' new. visit_next s st = Inr st' \<and> ub_ok s f st' \<and>
    reachable_blocks st' = reachable_blocks st \<union> targets s b \<and> ub_worklist st' = bs @ new \<and>
    set new = targets s b - reachable_blocks st"
proof -
  obtain ts where ts: "branch_targets s b = Inr ts" "set ts \<subseteq> set (blocks s f)"
    using ok b unfolding ub_ok_def by blast
  obtain new where "visit_succs ts (st\<lparr>ub_worklist := bs\<rparr>) = st\<lparr>reachable_blocks := reachable_blocks st \<union> set ts,
      ub_worklist := bs @ new\<rparr>" "set new = set ts - reachable_blocks st"
    using visit_succs_effect [of ts "st\<lparr>ub_worklist := bs\<rparr>"] by auto
  then show ?thesis using ok w ts by (auto simp: visit_next_def ub_ok_def targets_def)
qed

interpretation ub: worklist ub_worklist reachable_blocks "targets s" "visit_next s" "ub_ok s f"
    "set (blocks s f)" for s :: "'z ir_scheme" and f
proof unfold_locales
  show "finite (set (blocks s f))" by simp
  show "reachable_blocks st \<subseteq> set (blocks s f)" if "ub_ok s f st" for st using that by (simp add: ub_ok_def)
  show "\<exists>st' new. visit_next s st = Inr st' \<and> ub_ok s f st' \<and>
    reachable_blocks st' = reachable_blocks st \<union> targets s x \<and> ub_worklist st' = xs @ new \<and>
    set new = targets s x - reachable_blocks st"
    if "ub_ok s f st" "ub_worklist st = x # xs" "x \<in> reachable_blocks st" for st x xs
    using that by (rule visit_step)
qed

section \<open>Dropping pairs\<close>

lemma remove_operand_ops:
  assumes r: "vals s u = Some r" and i: "i < length (vops r)" and nn: "None \<notin> set (vops r)"
    and dom: "\<And>w. Some w \<in> set (vops r) \<Longrightarrow> w \<in> dom (vals s)"
  shows "\<exists>t. remove_operand u i s = Inr t \<and> same_but_uses s t \<and>
    ops_of t = (ops_of s)(u := take i (ops_of s u) @ drop (Suc i) (ops_of s u))"
proof -
  have ops: "ops_of s u = vops r" using r by (simp add: ops_of_def)
  obtain s1 where s1: "shift_uses u (Suc i) (drop (Suc i) (vops r)) s = Inr s1"
    using shift_uses_total [of "drop (Suc i) (vops r)" s] nn dom by (meson in_set_dropD)
  have e1: "same_but_uses s s1" "ops_of s1 = ops_of s" using shift_uses_effect [OF s1] by auto
  have mem: "vops r ! i \<in> set (vops r)" using i by simp
  then obtain w where w: "vops r ! i = Some w" using nn by (metis not_None_eq)
  then have "w \<in> dom (vals s)" using dom mem by simp
  then obtain s2 where s2: "remove_use w u i s1 = Inr s2"
    using remove_use_total same_but_uses_dom [OF e1(1)] by blast
  note e2 = remove_use_effect [OF s2]
  have same: "same_but_uses s s2" using e1(1) e2(2) by (rule same_but_uses_trans)
  obtain r2 where r2: "vals s2 u = Some r2" using r same_but_uses_dom [OF same] by blast
  let ?t = "s2\<lparr>vals := (vals s2)(u \<mapsto> r2\<lparr>vops := take i (vops r2) @ drop (Suc i) (vops r2)\<rparr>)\<rparr>"
  have eq: "vops r2 = vops r" using e1(2) e2(3) r2 r by (simp add: ops_of_def fun_eq_iff) (metis option.simps(5))
  have t: "upd_val u (\<lambda>r. r\<lparr>vops := take i (vops r) @ drop (Suc i) (vops r)\<rparr>) s2 = Inr ?t" using r2 by simp
  note e3 = upd_ops_effect [where g = "\<lambda>xs. take i xs @ drop (Suc i) xs", OF t]
  have "remove_operand u i s = Inr ?t"
    using r i s1 w s2 r2 eq by (simp add: remove_operand_def upd_val_def)
  moreover have "same_but_uses s ?t" using same e3(2) by (rule same_but_uses_trans)
  ultimately show ?thesis using e3(4) e1(2) e2(3) by auto
qed

text \<open>The operands without the first pair of the block \<open>dead\<close>.\<close>

fun drop_first :: "vid \<Rightarrow> vid option list \<Rightarrow> vid option list" where
  "drop_first dead [] = []"
| "drop_first dead [v] = [v]"
| "drop_first dead (v # b # rest) = (if b = Some dead then rest else v # b # drop_first dead rest)"

fun pair_blocks :: "vid option list \<Rightarrow> vid list" where
  "pair_blocks (v # Some b # rest) = b # pair_blocks rest"
| "pair_blocks _ = []"

definition pairs_wf :: "'z ir_scheme \<Rightarrow> vid option list \<Rightarrow> bool" where
  "pairs_wf s ops \<longleftrightarrow> even (length ops) \<and> None \<notin> set ops \<and> (\<forall>w. Some w \<in> set ops \<longrightarrow> w \<in> dom (vals s))"

lemma drop_first_subset: "set (drop_first d ops) \<subseteq> set ops"
  by (induction d ops rule: drop_first.induct) auto

lemma pairs_wf_drop_first: "pairs_wf s ops \<Longrightarrow> pairs_wf s (drop_first d ops)"
proof -
  have "even (length ops) \<Longrightarrow> even (length (drop_first d ops))"
    by (induction d ops rule: drop_first.induct) auto
  then show "pairs_wf s ops \<Longrightarrow> pairs_wf s (drop_first d ops)"
    using drop_first_subset [of d ops] by (auto simp: pairs_wf_def)
qed

lemma mset_pair_blocks_drop:
  "even (length ops) \<Longrightarrow> None \<notin> set ops \<Longrightarrow>
    mset (pair_blocks (drop_first d ops)) = mset (pair_blocks ops) - {#d#}"
proof (induction d ops rule: drop_first.induct)
  case (3 d v b rest)
  then obtain c where "b = Some c" by (cases b) auto
  then show ?case using 3 by auto
qed auto

lemma find_pair_drop_first:
  assumes "even (length ops)"
  shows "case find_pair d i ops of Inl e \<Rightarrow> False | Inr None \<Rightarrow> drop_first d ops = ops
    | Inr (Some k) \<Rightarrow> i \<le> k \<and> k - i + 1 < length ops \<and> drop_first d ops = take (k - i) ops @ drop (k - i + 2) ops"
  using assms
proof (induction d i ops rule: find_pair.induct)
  case (3 d i v b rest)
  show ?case
  proof (cases "b = Some d")
    case False
    then have IH: "case find_pair d (i + 2) rest of Inl e \<Rightarrow> False | Inr None \<Rightarrow> drop_first d rest = rest
      | Inr (Some k) \<Rightarrow> i + 2 \<le> k \<and> k - (i + 2) + 1 < length rest \<and>
          drop_first d rest = take (k - (i + 2)) rest @ drop (k - (i + 2) + 2) rest"
      using 3 by simp
    show ?thesis
    proof (cases "find_pair d (i + 2) rest")
      case (Inr o')
      show ?thesis
      proof (cases o')
        case (Some k)
        then obtain m where m: "k = i + 2 + m" using IH Inr by (auto dest: le_Suc_ex)
        then show ?thesis using IH Inr Some False by simp
      qed (use IH Inr False in simp)
    qed (use IH in simp)
  qed simp
qed auto

lemma take_drop_twice:
  "take i (take (Suc i) xs @ drop (i + 2) xs) @ drop (Suc i) (take (Suc i) xs @ drop (i + 2) xs) = take i xs @ drop (i + 2) xs"
  if "Suc i < length xs"
  using that by (simp add: min_def)

lemma drop_pair_effect:
  assumes p: "p \<in> dom (vals s)" and wf: "pairs_wf s (ops_of s p)"
  shows "\<exists>t. drop_pair d p s = Inr t \<and> same_but_uses s t \<and> ops_of t = (ops_of s)(p := drop_first d (ops_of s p))"
proof -
  obtain r where r: "vals s p = Some r" using p by blast
  have ops: "ops_of s p = vops r" using r by (simp add: ops_of_def)
  have F: "case find_pair d 0 (vops r) of Inl e \<Rightarrow> False | Inr None \<Rightarrow> drop_first d (vops r) = vops r
    | Inr (Some k) \<Rightarrow> k + 1 < length (vops r) \<and> drop_first d (vops r) = take k (vops r) @ drop (k + 2) (vops r)"
    using find_pair_drop_first [of "vops r" d 0] wf ops by (simp add: pairs_wf_def split: sum.splits option.splits)
  show ?thesis
  proof (cases "find_pair d 0 (vops r)")
    case (Inr found)
    show ?thesis
    proof (cases found)
      case None
      then have "(ops_of s)(p := drop_first d (ops_of s p)) = ops_of s" using F Inr ops by auto
      then show ?thesis using r Inr None by (auto simp: drop_pair_def)
    next
      case (Some k)
      then have k: "k + 1 < length (vops r)" "drop_first d (vops r) = take k (vops r) @ drop (k + 2) (vops r)"
        using F Inr by auto
      obtain s1 where s1: "remove_operand p (k + 1) s = Inr s1" "same_but_uses s s1"
        "ops_of s1 = (ops_of s)(p := take (k + 1) (vops r) @ drop (Suc (k + 1)) (vops r))"
        using remove_operand_ops [OF r k(1)] wf ops unfolding pairs_wf_def by auto
      obtain r1 where r1: "vals s1 p = Some r1" using r same_but_uses_dom [OF s1(2)] by blast
      have ops1: "vops r1 = take (k + 1) (vops r) @ drop (Suc (k + 1)) (vops r)"
        using s1(3) r1 by (simp add: ops_of_def fun_eq_iff) (metis option.simps(5))
      have sub: "set (vops r1) \<subseteq> set (vops r)" unfolding ops1 using set_take_subset set_drop_subset by fastforce
      obtain t where t: "remove_operand p k s1 = Inr t" "same_but_uses s1 t"
        "ops_of t = (ops_of s1)(p := take k (vops r1) @ drop (Suc k) (vops r1))"
      proof -
        have a: "k < length (vops r1)" using k(1) ops1 by simp
        have b: "None \<notin> set (vops r1)" using sub wf ops by (auto simp: pairs_wf_def)
        have c: "w \<in> dom (vals s1)" if "Some w \<in> set (vops r1)" for w
        proof -
          have "Some w \<in> set (vops r)" using that sub by blast
          then have "w \<in> dom (vals s)" using wf unfolding pairs_wf_def ops by blast
          then show ?thesis using same_but_uses_dom [OF s1(2)] by simp
        qed
        have d: "ops_of s1 p = vops r1" using r1 by (simp add: ops_of_def)
        have "\<exists>t. remove_operand p k s1 = Inr t \<and> same_but_uses s1 t \<and>
            ops_of t = (ops_of s1)(p := take k (vops r1) @ drop (Suc k) (vops r1))"
          using remove_operand_ops [OF r1 a b c] unfolding d .
        then show ?thesis using that by blast
      qed
      have "take k (vops r1) @ drop (Suc k) (vops r1) = drop_first d (vops r)"
        using take_drop_twice [of k "vops r"] k unfolding ops1 by simp
      then have "ops_of t = (ops_of s)(p := drop_first d (ops_of s p))" using t(3) s1(3) ops by simp
      then show ?thesis using r Inr Some s1(1,2) t(1,2) same_but_uses_trans by (auto simp: drop_pair_def)
    qed
  qed (use F in simp)
qed

section \<open>Removing one block\<close>

definition heads :: "'z ir_scheme \<Rightarrow> vid \<Rightarrow> vid list" where
  "heads s c = takeWhile (is_phi_instr s) (instrs s c)"

lemma drop_pairs_effect:
  assumes "distinct is" and "\<And>p. p \<in> set (takeWhile (is_phi_instr s) is) \<Longrightarrow> pairs_wf s (ops_of s p)"
  shows "\<exists>t. drop_pairs d is s = Inr t \<and> same_but_uses s t \<and>
    ops_of t = (\<lambda>u. if u \<in> set (takeWhile (is_phi_instr s) is) then drop_first d (ops_of s u) else ops_of s u)"
  using assms
proof (induction "is" arbitrary: s)
  case Nil
  then show ?case by auto
next
  case (Cons i "is")
  show ?case
  proof (cases "is_phi_instr s i")
    case False
    then show ?thesis by auto
  next
    case True
    then have "i \<in> dom (vals s)" using kind_of_dom by (auto simp: is_phi_instr_iff)
    moreover have "pairs_wf s (ops_of s i)" using Cons.prems(2) [of i] True by simp
    ultimately obtain s1 where s1: "drop_pair d i s = Inr s1" "same_but_uses s s1"
      "ops_of s1 = (ops_of s)(i := drop_first d (ops_of s i))"
      using drop_pair_effect by blast
    have k: "is_phi_instr s1 = is_phi_instr s"
      using same_but_uses_obs(1) [OF s1(2)] by (simp add: is_phi_instr_def fun_eq_iff)
    have ni: "i \<notin> set (takeWhile (is_phi_instr s) is)" using Cons.prems(1) set_takeWhileD by fastforce
    have "pairs_wf s1 (ops_of s1 p)" if p: "p \<in> set (takeWhile (is_phi_instr s1) is)" for p
    proof -
      have "p \<noteq> i" using p ni k by auto
      then have "pairs_wf s (ops_of s1 p)" using Cons.prems(2) [of p] p True k s1(3) by simp
      then show ?thesis using same_but_uses_dom [OF s1(2)] by (simp add: pairs_wf_def)
    qed
    then obtain t where t: "drop_pairs d is s1 = Inr t" "same_but_uses s1 t"
      "ops_of t = (\<lambda>u. if u \<in> set (takeWhile (is_phi_instr s1) is) then drop_first d (ops_of s1 u) else ops_of s1 u)"
      using Cons.IH [of s1] Cons.prems(1) by auto
    have "ops_of t = (\<lambda>u. if u \<in> set (takeWhile (is_phi_instr s) (i # is)) then drop_first d (ops_of s u) else ops_of s u)"
      using t(3) s1(3) True ni k by (auto simp: fun_eq_iff)
    then show ?thesis using True s1(1,2) t(1,2) same_but_uses_trans by auto
  qed
qed

text \<open>Every phi at the head of a block has one pair for each edge into the block.\<close>

definition phi_matches :: "'z ir_scheme \<Rightarrow> vid list \<Rightarrow> vid \<Rightarrow> bool" where
  "phi_matches s ps p \<longleftrightarrow> pairs_wf s (ops_of s p) \<and> mset (pair_blocks (ops_of s p)) = mset ps"

text \<open>What is left of the incoming edges after \<open>n\<close> pairs of \<open>d\<close> are gone.\<close>

definition short_of :: "'z ir_scheme \<Rightarrow> vid multiset \<Rightarrow> vid \<Rightarrow> bool" where
  "short_of s M p \<longleftrightarrow> pairs_wf s (ops_of s p) \<and> mset (pair_blocks (ops_of s p)) = M"

lemma drop_from_succs_effect:
  assumes dist: "\<And>c. distinct (instrs s c)"
    and one: "\<And>i c c'. i \<in> set (instrs s c) \<Longrightarrow> i \<in> set (instrs s c') \<Longrightarrow> c = c'"
    and "\<And>c p. c \<in> V \<Longrightarrow> p \<in> set (heads s c) \<Longrightarrow> short_of s (M c) p" and "set cs \<subseteq> V"
  shows "\<exists>t. drop_from_succs d cs s = Inr t \<and> same_but_uses s t \<and>
    (\<forall>c\<in>V. \<forall>p\<in>set (heads s c). short_of t (M c - replicate_mset (count_list cs c) d) p)"
  using assms
proof (induction cs arbitrary: s M)
  case Nil
  then show ?case by auto
next
  case (Cons c0 cs)
  have c0: "c0 \<in> V" and sub: "set cs \<subseteq> V" using Cons.prems(4) by auto
  have "pairs_wf s (ops_of s p)" if "p \<in> set (takeWhile (is_phi_instr s) (instrs s c0))" for p
    using Cons.prems(3) [OF c0, of p] that by (simp add: heads_def short_of_def)
  then obtain s1 where s1: "drop_pairs d (instrs s c0) s = Inr s1" "same_but_uses s s1"
    "ops_of s1 = (\<lambda>u. if u \<in> set (heads s c0) then drop_first d (ops_of s u) else ops_of s u)"
    using drop_pairs_effect [OF Cons.prems(1)] unfolding heads_def by blast
  have i: "instrs s1 = instrs s" using same_layout_obs [OF same_but_uses_layout [OF s1(2)]] by simp
  have k: "is_phi_instr s1 = is_phi_instr s"
    using same_but_uses_obs(1) [OF s1(2)] by (simp add: is_phi_instr_def fun_eq_iff)
  have h: "heads s1 = heads s" by (rule ext) (simp only: heads_def i k)
  have wf: "pairs_wf s1 ops = pairs_wf s ops" for ops by (simp add: pairs_wf_def same_but_uses_dom [OF s1(2)])
  let ?M = "\<lambda>c. M c - replicate_mset (if c = c0 then 1 else 0) d"
  have "short_of s1 (?M c) p" if c: "c \<in> V" "p \<in> set (heads s1 c)" for c p
  proof -
    have p: "short_of s (M c) p" using Cons.prems(3) c h by simp
    have in_instrs: "q \<in> set (instrs s c')" if "q \<in> set (heads s c')" for q c'
      using that by (auto simp: heads_def dest: set_takeWhileD)
    have "p \<in> set (heads s c0) \<longleftrightarrow> c = c0"
      using c h in_instrs Cons.prems(2) by metis
    then show ?thesis
      using p pairs_wf_drop_first [of s "ops_of s p" d] mset_pair_blocks_drop [of "ops_of s p" d]
      unfolding short_of_def wf s1(3) by (auto simp: pairs_wf_def)
  qed
  then obtain t where t: "drop_from_succs d cs s1 = Inr t" "same_but_uses s1 t"
    "\<forall>c\<in>V. \<forall>p\<in>set (heads s1 c). short_of t (?M c - replicate_mset (count_list cs c) d) p"
    using Cons.IH [of s1 ?M] Cons.prems(1,2) sub unfolding i by blast
  have "?M c - replicate_mset (count_list cs c) d = M c - replicate_mset (count_list (c0 # cs) c) d" for c
    by (auto simp: diff_diff_add)
  then have "\<forall>c\<in>V. \<forall>p\<in>set (heads s c). short_of t (M c - replicate_mset (count_list (c0 # cs) c) d) p"
    using t(3) h by simp
  moreover have "drop_from_succs d (c0 # cs) s = Inr t"
    using s1(1) t(1) by (simp add: remove_dead_predecessor_from_phis_def)
  ultimately show ?case using s1(2) t(2) same_but_uses_trans by blast
qed

lemma unlink_preds_effect:
  assumes "set ps \<subseteq> dom (bbs s)"
  shows "\<exists>t. unlink_preds b ps s = Inr t \<and> same_but_edges s t \<and> preds t = preds s \<and>
    succs t = (\<lambda>a. if a \<in> set ps then removeAll b (succs s a) else succs s a)"
  using assms
proof (induction ps arbitrary: s)
  case Nil
  then show ?case by auto
next
  case (Cons p ps)
  obtain s1 where s1: "remove_succ_basic_block p b s = Inr s1"
    using Cons.prems by (auto simp: remove_succ_basic_block_def)
  note e = remove_succ_effect [OF s1]
  have "set ps \<subseteq> dom (bbs s1)" using Cons.prems same_but_edges_obs(4) [OF e(1)] by simp
  then obtain t where t: "unlink_preds b ps s1 = Inr t" "same_but_edges s1 t" "preds t = preds s1"
    "succs t = (\<lambda>a. if a \<in> set ps then removeAll b (succs s1 a) else succs s1 a)"
    using Cons.IH by blast
  have "succs t = (\<lambda>a. if a \<in> set (p # ps) then removeAll b (succs s a) else succs s a)"
    by (auto simp: t(4) e(2) fun_eq_iff)
  then show ?case using s1 t e(1,3) same_but_edges_trans by auto
qed

lemma unlink_succs_effect:
  assumes "set ps \<subseteq> dom (bbs s)"
  shows "\<exists>t. unlink_succs b ps s = Inr t \<and> same_but_edges s t \<and> succs t = succs s \<and>
    preds t = (\<lambda>a. if a \<in> set ps then removeAll b (preds s a) else preds s a)"
  using assms
proof (induction ps arbitrary: s)
  case Nil
  then show ?case by auto
next
  case (Cons p ps)
  obtain s1 where s1: "remove_pre_basic_block p b s = Inr s1"
    using Cons.prems by (auto simp: remove_pre_basic_block_def)
  note e = remove_pre_effect [OF s1]
  have "set ps \<subseteq> dom (bbs s1)" using Cons.prems same_but_edges_obs(4) [OF e(1)] by simp
  then obtain t where t: "unlink_succs b ps s1 = Inr t" "same_but_edges s1 t" "succs t = succs s1"
    "preds t = (\<lambda>a. if a \<in> set ps then removeAll b (preds s1 a) else preds s1 a)"
    using Cons.IH by blast
  have "preds t = (\<lambda>a. if a \<in> set (p # ps) then removeAll b (preds s a) else preds s a)"
    by (auto simp: t(4) e(2) fun_eq_iff)
  then show ?case using s1 t e(1,3) same_but_edges_trans by auto
qed

text \<open>Blocks \<open>V\<close> whose edges stay inside \<open>V\<close> and agree in both directions.\<close>

definition closed_cfg :: "'z ir_scheme \<Rightarrow> vid set \<Rightarrow> bool" where
  "closed_cfg s V \<longleftrightarrow> V \<subseteq> dom (bbs s) \<and>
     (\<forall>a\<in>V. set (preds s a) \<subseteq> V \<and> set (succs s a) \<subseteq> V) \<and>
     (\<forall>a\<in>V. \<forall>b\<in>V. count_list (preds s b) a = count_list (succs s a) b)"

lemma closed_cfg_edge: "closed_cfg s V \<Longrightarrow> a \<in> V \<Longrightarrow> b \<in> V \<Longrightarrow> a \<in> set (preds s b) \<longleftrightarrow> b \<in> set (succs s a)"
  unfolding closed_cfg_def by (metis count_list_0_iff)

lemma count_list_removeAll: "count_list (removeAll x xs) y = (if x = y then 0 else count_list xs y)"
  by (induction xs) auto

lemma Function_remove_effect:
  assumes cl: "closed_cfg s V" and b: "b \<in> V" and r: "funcs s f = Some r"
  shows "\<exists>t. Function_remove f b s = Inr t \<and> vals t = vals s \<and> instrs t = instrs s \<and>
    blocks t = (blocks s)(f := remove1 b (blocks s f)) \<and> closed_cfg t (V - {b}) \<and> f \<in> dom (funcs t) \<and>
    (\<forall>c\<in>V - {b}. preds t c = removeAll b (preds s c) \<and> succs t c = removeAll b (succs s c))"
proof -
  let ?s0 = "s\<lparr>funcs := (funcs s)(f \<mapsto> r\<lparr>basic_blocks := remove1 b (basic_blocks r)\<rparr>)\<rparr>"
  have g: "preds ?s0 = preds s" "succs ?s0 = succs s" "instrs ?s0 = instrs s" "bbs ?s0 = bbs s"
    by (simp_all add: graph_defs fun_eq_iff)
  have bl: "blocks ?s0 = (blocks s)(f := remove1 b (blocks s f))" using r by (auto simp: blocks_def fun_eq_iff)
  obtain rb where rb: "bbs s b = Some rb" using cl b by (auto simp: closed_cfg_def)
  have p: "pre_bbs rb = preds s b" using rb by (simp add: preds_def)
  have "set (preds s b) \<subseteq> dom (bbs ?s0)" using cl b unfolding closed_cfg_def g by blast
  then obtain s1 where s1: "unlink_preds b (preds s b) ?s0 = Inr s1" "same_but_edges ?s0 s1" "preds s1 = preds s"
    "succs s1 = (\<lambda>a. if a \<in> set (preds s b) then removeAll b (succs s a) else succs s a)"
    using unlink_preds_effect [of "preds s b" ?s0 b] unfolding g by blast
  note o1 = same_but_edges_obs [OF s1(2)]
  obtain rb1 where rb1: "bbs s1 b = Some rb1" using rb o1(4) unfolding g by blast
  have q: "succ_bbs rb1 = succs s1 b" using rb1 by (simp add: succs_def)
  have sub: "set (succs s1 b) \<subseteq> set (succs s b)" by (auto simp: s1(4))
  then have "set (succs s1 b) \<subseteq> dom (bbs s1)" using cl b o1(4) unfolding closed_cfg_def g by blast
  then obtain t where t: "unlink_succs b (succs s1 b) s1 = Inr t" "same_but_edges s1 t" "succs t = succs s1"
    "preds t = (\<lambda>a. if a \<in> set (succs s1 b) then removeAll b (preds s1 a) else preds s1 a)"
    using unlink_succs_effect by blast
  note o2 = same_but_edges_obs [OF t(2)]
  have run: "Function_remove f b s = Inr t"
    using r rb rb1 s1(1) t(1) p q by (simp add: Function_remove_def Let_def)
  have edges: "preds t c = removeAll b (preds s c) \<and> succs t c = removeAll b (succs s c)" if c: "c \<in> V - {b}" for c
  proof -
    have "c \<in> set (succs s1 b) \<longleftrightarrow> c \<in> set (succs s b)" using c by (auto simp: s1(4))
    moreover have "c \<in> set (succs s b) \<longleftrightarrow> b \<in> set (preds s c)" "c \<in> set (preds s b) \<longleftrightarrow> b \<in> set (succs s c)"
      using closed_cfg_edge [OF cl] b c by auto
    ultimately show ?thesis by (auto simp: t(3,4) s1(3,4) removeAll_id)
  qed
  have "closed_cfg t (V - {b})"
    using cl edges o1(4) o2(4) unfolding closed_cfg_def g by (auto simp: count_list_removeAll)
  moreover have "blocks t = (blocks s)(f := remove1 b (blocks s f))"
    using o1(2) o2(2) unfolding bl [symmetric] by (simp add: blocks_def fun_eq_iff)
  ultimately show ?thesis using run edges o1(1,2,5) o2(1,2,5) g(3) by auto
qed

section \<open>The function after the pass\<close>

lemma count_list_mset: "count_list xs x = count (mset xs) x"
  by (induction xs) auto

lemma mset_removeAll_count: "mset (removeAll b xs) = mset xs - replicate_mset (count_list xs b) b"
  by (rule multiset_eqI) (auto simp: count_list_removeAll simp flip: count_list_mset)

text \<open>The function has been reduced to the blocks \<open>V\<close>.\<close>

definition reduced :: "'z ir_scheme \<Rightarrow> vid \<Rightarrow> vid set \<Rightarrow> 'z ir_scheme \<Rightarrow> bool" where
  "reduced s f V x \<longleftrightarrow> closed_cfg x V \<and> kind_of x = kind_of s \<and> dom (vals x) = dom (vals s) \<and>
     instrs x = instrs s \<and> blocks x f = filter (\<lambda>b. b \<in> V) (blocks s f) \<and> f \<in> dom (funcs x) \<and>
     (\<forall>c\<in>V. preds x c = filter (\<lambda>b. b \<in> V) (preds s c) \<and> succs x c = filter (\<lambda>b. b \<in> V) (succs s c) \<and>
        (\<forall>p\<in>set (heads s c). phi_matches x (preds x c) p))"

lemma heads_cong: "kind_of x = kind_of s \<Longrightarrow> instrs x = instrs s \<Longrightarrow> heads x = heads s"
  by (rule ext) (simp add: heads_def is_phi_instr_def [abs_def])

lemma reduced_step:
  assumes ok: "ir_ok s" and red: "reduced s f V x" and b: "b \<in> V" and V: "V \<subseteq> set (blocks s f)"
  shows "\<exists>y. bindR (drop_from_succs b (succs x b) x) (Function_remove f b) = Inr y \<and> reduced s f (V - {b}) y"
proof -
  note R = red [unfolded reduced_def]
  have cl: "closed_cfg x V" and ix: "instrs x = instrs s" and kx: "kind_of x = kind_of s" using R by auto
  have hx: "heads x = heads s" by (rule heads_cong [OF kx ix])
  have dist: "distinct (instrs x c)" for c using ir_ok_distinct_instrs [OF ok] ix by simp
  have one: "c = c'" if "i \<in> set (instrs x c)" "i \<in> set (instrs x c')" for i c c'
    using that ir_ok_one_block [OF ok] unfolding ix by blast
  have short: "short_of x (mset (preds x c)) p" if "c \<in> V" "p \<in> set (heads x c)" for c p
    using R that unfolding hx by (simp add: short_of_def phi_matches_def)
  have sub: "set (succs x b) \<subseteq> V" using cl b by (simp add: closed_cfg_def)
  obtain x1 where x1: "drop_from_succs b (succs x b) x = Inr x1" "same_but_uses x x1"
    "\<forall>c\<in>V. \<forall>p\<in>set (heads x c). short_of x1 (mset (preds x c) - replicate_mset (count_list (succs x b) c) b) p"
  proof -
    have "\<exists>t. drop_from_succs b (succs x b) x = Inr t \<and> same_but_uses x t \<and>
      (\<forall>c\<in>V. \<forall>p\<in>set (heads x c). short_of t (mset (preds x c) - replicate_mset (count_list (succs x b) c) b) p)"
    proof (rule drop_from_succs_effect)
      show "distinct (instrs x c)" for c by (rule dist)
      show "c = c'" if "i \<in> set (instrs x c)" "i \<in> set (instrs x c')" for i c c' using that by (rule one)
      show "short_of x (mset (preds x c)) p" if "c \<in> V" "p \<in> set (heads x c)" for c p using that by (rule short)
    qed (rule sub)
    then show ?thesis using that by blast
  qed
  note o = same_but_uses_obs [OF x1(2)] and l = same_layout_obs [OF same_but_uses_layout [OF x1(2)]]
  have cl1: "closed_cfg x1 V" using cl by (simp add: closed_cfg_def l o(2))
  obtain rf where rf: "funcs x1 f = Some rf" using R o(3) by (auto simp: domIff)
  obtain y where y: "Function_remove f b x1 = Inr y" "vals y = vals x1" "instrs y = instrs x1"
    "blocks y = (blocks x1)(f := remove1 b (blocks x1 f))" "closed_cfg y (V - {b})" "f \<in> dom (funcs y)"
    "\<forall>c\<in>V - {b}. preds y c = removeAll b (preds x1 c) \<and> succs y c = removeAll b (succs x1 c)"
    using Function_remove_effect [OF cl1 b rf] by blast
  have rem: "removeAll b (filter (\<lambda>c. c \<in> V) xs) = filter (\<lambda>c. c \<in> V - {b}) xs" for xs :: "vid list"
    by (induction xs) auto
  have "distinct (blocks x f)" using R ok by (simp add: ir_ok_def blocks_ok_def)
  then have bl: "blocks y f = filter (\<lambda>c. c \<in> V - {b}) (blocks s f)"
    using R rem by (simp add: y(4) l distinct_remove1_removeAll)

  have edges: "preds y c = filter (\<lambda>a. a \<in> V - {b}) (preds s c)" "succs y c = filter (\<lambda>a. a \<in> V - {b}) (succs s c)"
    if "c \<in> V - {b}" for c
    using y(7) that R rem unfolding l by auto
  have "phi_matches y (preds y c) p" if c: "c \<in> V - {b}" and p: "p \<in> set (heads s c)" for c p
  proof -
    have "count_list (preds x c) b = count_list (succs x b) c" using cl b c by (simp add: closed_cfg_def)
    then have "short_of x1 (mset (removeAll b (preds x c))) p"
      using x1(3) c p unfolding hx mset_removeAll_count by simp
    moreover have "preds y c = removeAll b (preds x c)" using y(7) c l by simp
    moreover have "ops_of y = ops_of x1" "pairs_wf y = pairs_wf x1"
      by (rule ext, simp add: ops_of_def pairs_wf_def y(2))+
    ultimately show ?thesis by (simp add: short_of_def phi_matches_def)
  qed
  then have "reduced s f (V - {b}) y"
    using y(5,6) bl edges R vals_obs(3) [OF y(2)] o(1) same_but_uses_dom [OF x1(2)] l(1)
    unfolding reduced_def y(2,3) by auto
  then show ?thesis using x1(1) y(1) by auto
qed

lemma remove_unreached_effect:
  assumes ok: "ir_ok s" and "reduced s f V x" and "V \<subseteq> set (blocks s f)" and "distinct bs" and "set bs \<subseteq> V"
  shows "\<exists>y. remove_unreached f R bs x = Inr y \<and> reduced s f (V - (set bs - R)) y"
  using assms(2-5)
proof (induction bs arbitrary: x V)
  case Nil
  then show ?case by simp
next
  case (Cons b bs)
  show ?case
  proof (cases "b \<in> R")
    case True
    then have "V - (set (b # bs) - R) = V - (set bs - R)" by auto
    then show ?thesis using Cons.IH [OF Cons.prems(1,2)] Cons.prems(3,4) True by simp
  next
    case False
    have bV: "b \<in> V" using Cons.prems(4) by simp
    obtain y where y: "bindR (drop_from_succs b (succs x b) x) (Function_remove f b) = Inr y" "reduced s f (V - {b}) y"
      using reduced_step [OF ok Cons.prems(1) bV Cons.prems(2)] by blast
    obtain z where z: "remove_unreached f R bs y = Inr z" "reduced s f (V - {b} - (set bs - R)) z"
      using Cons.IH [OF y(2)] Cons.prems(2-4) by auto
    have "V - {b} - (set bs - R) = V - (set (b # bs) - R)" using False by auto
    then show ?thesis using y z False by (simp del: bindR_Inr_iff)
  qed
qed

text \<open>C14: the pass ends. It keeps, in their order, exactly the blocks that the entry
  reaches, with their instructions and successors; a predecessor list loses exactly its
  unreachable entries, and a phi that had one pair for each incoming edge still has.\<close>

theorem unreachable_blocks_correct:
  assumes "ir_ok s" and "blocks s f = entry # rest"
    and "\<forall>b\<in>set (blocks s f). \<exists>ts. branch_targets s b = Inr ts \<and> set ts = set (succs s b)"
    and "\<forall>b\<in>set (blocks s f). set (preds s b) \<union> set (succs s b) \<subseteq> set (blocks s f)"
    and "\<forall>b\<in>set (blocks s f). \<forall>p\<in>set (heads s b). phi_matches s (preds s b) p"
  defines "R \<equiv> {(a, b). a \<in> set (blocks s f) \<and> b \<in> set (succs s a)}\<^sup>* `` {entry}"
  shows "\<exists>t. elim_function f s = Inr t \<and> blocks t f = filter (\<lambda>b. b \<in> R) (blocks s f) \<and>
    (\<forall>b\<in>set (blocks t f). instrs t b = instrs s b \<and> succs t b = succs s b \<and>
       preds t b = filter (\<lambda>a. a \<in> R) (preds s b) \<and> (\<forall>p\<in>set (heads t b). phi_matches t (preds t b) p))"
proof -
  let ?B = "set (blocks s f)"
  have tg: "targets s b = set (succs s b)" if "b \<in> ?B" for b using assms(3) that by (fastforce simp: targets_def)
  have ok0: "ub_ok s f \<lparr>ub_worklist = [entry], reachable_blocks = {entry}\<rparr>"
    using assms(2-4) unfolding ub_ok_def by fastforce
  obtain st where st: "whileR (\<lambda>st. ub_worklist st \<noteq> []) (visit_next s)
      \<lparr>ub_worklist = [entry], reachable_blocks = {entry}\<rparr> = Some (Inr st)" "ub_ok s f st"
    "reachable_blocks st = reach (targets s) {entry}"
    using ub.search_total [OF ok0, of "{entry}"] by auto
  have RB: "reach (targets s) {entry} \<subseteq> ?B" using st(2,3) by (simp add: ub_ok_def)
  have "reach (\<lambda>a. if a \<in> ?B then set (succs s a) else {}) {entry} = reach (targets s) {entry}"
    by (rule reach_mono_on) (use RB tg in auto)
  moreover have "{(x, y). y \<in> (if x \<in> ?B then set (succs s x) else {})} = {(a, b). a \<in> ?B \<and> b \<in> set (succs s a)}"
    by (auto split: if_splits)
  ultimately have R: "reachable_blocks st = R" by (simp add: st(3) R_def reach_def)
  have closed: "b \<in> R" if "a \<in> R" "b \<in> set (succs s a)" for a b
    using reach_closed [of a "targets s" "{entry}" b] that tg RB R unfolding st(3) by auto
  have B: "\<exists>r. bbs s b = Some r" if "b \<in> ?B" for b using that assms(1) by (auto simp: ir_ok_def blocks_ok_def)
  have "closed_cfg s ?B"
    using B assms(4) assms(1) unfolding closed_cfg_def ir_ok_def cfg_ok_def by blast
  moreover have "filter (\<lambda>b. b \<in> ?B) (preds s c) = preds s c" "filter (\<lambda>b. b \<in> ?B) (succs s c) = succs s c" if "c \<in> ?B" for c
    using assms(4) that by (auto simp: filter_id_conv)
  moreover have "f \<in> dom (funcs s)" using assms(2) by (auto simp: blocks_def split: option.splits)
  ultimately have "reduced s f ?B s" using assms(5) by (simp add: reduced_def)
  moreover have "distinct (blocks s f)" using assms(1) by (simp add: ir_ok_def blocks_ok_def)
  ultimately obtain t where t: "remove_unreached f R (blocks s f) s = Inr t" "reduced s f (?B - (?B - R)) t"
    using remove_unreached_effect [OF assms(1), of f ?B s "blocks s f" R] by auto
  have V: "?B - (?B - R) = ?B \<inter> R" by auto
  have "elim_function f s = Inr t" using assms(2) st(1) t(1) R by (simp add: elim_function_def outcome_def)
  moreover have bl: "blocks t f = filter (\<lambda>b. b \<in> R) (blocks s f)"
    using t(2) unfolding reduced_def V by (auto intro!: filter_cong)
  moreover have "instrs t b = instrs s b \<and> succs t b = succs s b \<and>
       preds t b = filter (\<lambda>a. a \<in> R) (preds s b) \<and> (\<forall>p\<in>set (heads t b). phi_matches t (preds t b) p)"
    if b: "b \<in> set (blocks t f)" for b
  proof -
    have bV: "b \<in> ?B \<inter> R" using b bl by auto
    note T = t(2) [unfolded reduced_def V]
    have "succs t b = filter (\<lambda>b. b \<in> ?B \<inter> R) (succs s b)" using T bV by blast
    also have "\<dots> = succs s b" using closed bV assms(4) by (auto simp: filter_id_conv)
    finally have "succs t b = succs s b" .
    moreover have "preds t b = filter (\<lambda>a. a \<in> R) (preds s b)"
      using T bV assms(4) by (auto intro!: filter_cong)
    moreover have "heads t = heads s" using T by (intro heads_cong) auto
    moreover have "\<forall>p\<in>set (heads t b). phi_matches t (preds t b) p" using T bV \<open>heads t = heads s\<close> by (metis (no_types, lifting))
    moreover have "instrs t = instrs s" using T by blast
    ultimately show ?thesis by simp
  qed
  ultimately show ?thesis by blast
qed

section \<open>The use lists\<close>

text \<open>C29: after the pair of a dead block has been dropped from a phi the use lists are exact
  if and only if the next pair brings a different value. (The block is removed first, so
  the two values are neighbours when the second \<open>remove_operand\<close> runs.)\<close>

theorem drop_pair_exact_iff:
  assumes ok: "use_def_ok s" and wf: "pairs_wf s (ops_of s p)" and "p \<in> dom (vals s)"
    and found: "find_pair d 0 (ops_of s p) = Inr (Some i)"
    and "operand_at s p (Suc (Suc i)) \<noteq> Some d" and "operand_at s p i \<noteq> Some d"
  shows "\<exists>t. drop_pair d p s = Inr t \<and> ops_of t p = drop_first d (ops_of s p) \<and>
    (use_def_ok t \<longleftrightarrow> operand_at s p (Suc (Suc i)) \<noteq> operand_at s p i)"
proof -
  obtain t where t: "drop_pair d p s = Inr t" "ops_of t = (ops_of s)(p := drop_first d (ops_of s p))"
    using drop_pair_effect [OF assms(3) wf] by blast
  obtain r where r: "vals s p = Some r" using assms(3) by blast
  then have ops: "ops_of s p = vops r" by (simp add: ops_of_def)
  obtain s1 where s1: "remove_operand p (Suc i) s = Inr s1" "remove_operand p i s1 = Inr t"
    using t(1) r found ops by (auto simp: drop_pair_def)
  have "find_pair d j xs = Inr (Some k) \<Longrightarrow> j \<le> k \<and> Suc (k - j) < length xs \<and> xs ! Suc (k - j) = Some d" for j xs k
  proof (induction d j xs rule: find_pair.induct)
    case (3 d j v b rest)
    show ?case
    proof (cases "b = Some d")
      case False
      then have "j + 2 \<le> k \<and> Suc (k - (j + 2)) < length rest \<and> rest ! Suc (k - (j + 2)) = Some d" using 3 by simp
      moreover from this have "k - j = Suc (Suc (k - (j + 2)))" by linarith
      ultimately show ?thesis by simp
    qed (use 3 in simp)
  qed auto
  from this [OF found] have "operand_at s p (Suc i) = Some d" by (simp add: operand_at_def)
  note e1 = remove_operand_iff [OF ok s1(1)]
  have ok1: "use_def_ok s1" using e1 assms(5) \<open>operand_at s p (Suc i) = Some d\<close> by simp
  note e2 = remove_operand_iff [OF ok1 s1(2)]
  have "use_def_ok t \<longleftrightarrow> operand_at s p (Suc (Suc i)) \<noteq> operand_at s p i"
    using e2 e1 by simp
  then show ?thesis using t by auto
qed

text \<open>A phi (object 0) that gets the value 1 from the blocks 2 and 3.\<close>

definition ub_demo :: ir where
  "ub_demo = empty_ir\<lparr>vals :=
     [0 \<mapsto> demo_val [] [Some 1, Some 2, Some 1, Some 3], 1 \<mapsto> demo_val [(0, 0), (0, 2)] [],
      2 \<mapsto> demo_val [(0, 1)] [], 3 \<mapsto> demo_val [(0, 3)] []], next_id := 4\<rparr>"

lemma ub_demo_obs:
  "uses_of ub_demo v = (if v = 1 then [(0, 0), (0, 2)] else if v = 2 then [(0, 1)] else if v = 3 then [(0, 3)] else [])"
  "ops_of ub_demo u = (if u = 0 then [Some 1, Some 2, Some 1, Some 3] else [])" "dom (vals ub_demo) = {0, 1, 2, 3}"
  by (auto simp: ub_demo_def demo_defs uses_of_def ops_of_def)

theorem drop_pair_witness:
  "\<exists>t. drop_pair 2 0 ub_demo = Inr t \<and> ops_of t 0 = [Some 1, Some 3] \<and> \<not> use_def_ok t"
proof -
  have ok: "use_def_ok ub_demo"
    by (rule use_def_okI) (auto simp: ub_demo_obs operand_at_def nth_Cons' split: if_splits)
  have "pairs_wf ub_demo (ops_of ub_demo 0)" by (auto simp: pairs_wf_def ub_demo_obs)
  from drop_pair_exact_iff [OF ok this, of 2 0] show ?thesis
    by (auto simp: ub_demo_obs operand_at_def)
qed

text \<open>A function with the blocks 1 (jumps to 2), 2 (a phi and a return) and 3 (jumps to 2),
  which nothing reaches.\<close>

definition ube_demo :: ir where
  "ube_demo = empty_ir\<lparr>vals :=
     [0 \<mapsto> \<lparr>vty = FunctionTy int32_ty [], vname = ''f'', vuses = [], vops = [], vkind = K_func\<rparr>,
      1 \<mapsto> \<lparr>vty = LabelTy, vname = '''', vuses = [(5, 1)], vops = [], vkind = K_block\<rparr>,
      2 \<mapsto> \<lparr>vty = LabelTy, vname = '''', vuses = [(4, 0), (7, 0)], vops = [], vkind = K_block\<rparr>,
      3 \<mapsto> \<lparr>vty = LabelTy, vname = '''', vuses = [(5, 3)], vops = [], vkind = K_block\<rparr>,
      4 \<mapsto> \<lparr>vty = VoidTy, vname = '''', vuses = [], vops = [Some 2], vkind = K_instr O_br (Some 1)\<rparr>,
      5 \<mapsto> \<lparr>vty = int32_ty, vname = '''', vuses = [(6, 0)], vops = [Some 8, Some 1, Some 9, Some 3],
           vkind = K_instr O_phi (Some 2)\<rparr>,
      6 \<mapsto> \<lparr>vty = VoidTy, vname = '''', vuses = [], vops = [Some 5], vkind = K_instr O_ret (Some 2)\<rparr>,
      7 \<mapsto> \<lparr>vty = VoidTy, vname = '''', vuses = [], vops = [Some 2], vkind = K_instr O_br (Some 3)\<rparr>,
      8 \<mapsto> \<lparr>vty = int32_ty, vname = '''', vuses = [(5, 0)], vops = [], vkind = K_int 1\<rparr>,
      9 \<mapsto> \<lparr>vty = int32_ty, vname = '''', vuses = [(5, 2)], vops = [], vkind = K_int 2\<rparr>],
     bbs := [1 \<mapsto> \<lparr>pre_bbs = [], succ_bbs = [2], instr_list = [4], bparent = 0\<rparr>,
       2 \<mapsto> \<lparr>pre_bbs = [1, 3], succ_bbs = [], instr_list = [5, 6], bparent = 0\<rparr>,
       3 \<mapsto> \<lparr>pre_bbs = [], succ_bbs = [2], instr_list = [7], bparent = 0\<rparr>],
     funcs := [0 \<mapsto> \<lparr>basic_blocks = [1, 2, 3], arguments = [], seq_cnt = 0\<rparr>],
     next_id := 10, function_list := [0]\<rparr>"

lemma ube_demo_obs:
  "uses_of ube_demo v = (if v = 1 then [(5, 1)] else if v = 2 then [(4, 0), (7, 0)] else if v = 3 then [(5, 3)]
     else if v = 5 then [(6, 0)] else if v = 8 then [(5, 0)] else if v = 9 then [(5, 2)] else [])"
  "ops_of ube_demo u = (if u = 4 \<or> u = 7 then [Some 2] else if u = 5 then [Some 8, Some 1, Some 9, Some 3]
     else if u = 6 then [Some 5] else [])"
  "kind_of ube_demo = [0 \<mapsto> K_func, 1 \<mapsto> K_block, 2 \<mapsto> K_block, 3 \<mapsto> K_block, 4 \<mapsto> K_instr O_br (Some 1),
     5 \<mapsto> K_instr O_phi (Some 2), 6 \<mapsto> K_instr O_ret (Some 2), 7 \<mapsto> K_instr O_br (Some 3), 8 \<mapsto> K_int 1, 9 \<mapsto> K_int 2]"
  "instrs ube_demo b = (if b = 1 then [4] else if b = 2 then [5, 6] else if b = 3 then [7] else [])"
  "preds ube_demo b = (if b = 2 then [1, 3] else [])" "succs ube_demo b = (if b = 1 \<or> b = 3 then [2] else [])"
  "blocks ube_demo f = (if f = 0 then [1, 2, 3] else [])" "dom (vals ube_demo) = {0, 1, 2, 3, 4, 5, 6, 7, 8, 9}"
  "dom (bbs ube_demo) = {1, 2, 3}" "dom (funcs ube_demo) = {0}" "next_id ube_demo = 10"
  by (auto simp: ube_demo_def empty_ir_def uses_of_def ops_of_def kind_of_def graph_defs fun_eq_iff)

lemma ir_ok_ube_demo: "ir_ok ube_demo"
proof -
  have "use_def_ok ube_demo"
    by (rule use_def_okI) (auto simp: ube_demo_obs operand_at_def nth_Cons' split: if_splits)
  moreover have "ids_ok ube_demo" unfolding ids_ok_def ube_demo_obs by simp
  moreover have "cfg_ok ube_demo" by (simp add: cfg_ok_def ube_demo_obs)
  moreover have "placed_ok ube_demo"
    by (simp add: placed_ok_def listed_ok_def ube_demo_obs is_terminator_op_def)
  moreover have "blocks_ok ube_demo"
    by (auto simp: blocks_ok_def ube_demo_obs) (auto simp: ube_demo_def)
  ultimately show ?thesis by (simp add: ir_ok_def)
qed

lemma ube_demo_targets:
  "branch_targets ube_demo 1 = Inr [2]" "branch_targets ube_demo 2 = Inr []" "branch_targets ube_demo 3 = Inr [2]"
  by (simp_all add: branch_targets_def get_terminator_def is_terminated_def instr_op_def ube_demo_def
      is_terminator_op_def del: bindR_Inr_iff instr_op_Inr deref_Inr_iff)

theorem unreachable_blocks_witness:
  "\<exists>t. elim_function 0 ube_demo = Inr t \<and> blocks t 0 = [1, 2] \<and> preds t 2 = [1]"
proof -
  let ?E = "{(a, b). a \<in> set (blocks ube_demo 0) \<and> b \<in> set (succs ube_demo a)}"
  have bl: "blocks ube_demo 0 = [1, 2, 3]" by (simp add: ube_demo_obs)
  have "?E\<^sup>* `` {1} \<subseteq> {1, 2}"
  proof
    fix b assume "b \<in> ?E\<^sup>* `` {1}"
    then have "(1, b) \<in> ?E\<^sup>*" by simp
    then show "b \<in> {1, 2}" by (induction rule: rtrancl_induct) (auto simp: ube_demo_obs split: if_splits)
  qed
  moreover have "(1, 2) \<in> ?E" by (simp add: ube_demo_obs)
  ultimately have R: "?E\<^sup>* `` {1} = {1, 2}" by (auto intro: r_into_rtrancl)
  have tg: "\<forall>b\<in>set (blocks ube_demo 0). \<exists>ts. branch_targets ube_demo b = Inr ts \<and> set ts = set (succs ube_demo b)"
    using ube_demo_targets by (simp add: ube_demo_obs)
  have cl: "\<forall>b\<in>set (blocks ube_demo 0). set (preds ube_demo b) \<union> set (succs ube_demo b) \<subseteq> set (blocks ube_demo 0)"
    by (auto simp: ube_demo_obs)
  have ph: "is_phi_instr ube_demo i \<longleftrightarrow> i = 5" for i by (auto simp: is_phi_instr_iff ube_demo_obs split: if_splits)
  have m: "\<forall>b\<in>set (blocks ube_demo 0). \<forall>p\<in>set (heads ube_demo b). phi_matches ube_demo (preds ube_demo b) p"
    by (auto simp: ube_demo_obs heads_def ph phi_matches_def pairs_wf_def)
  show ?thesis
    using unreachable_blocks_correct [OF ir_ok_ube_demo bl tg cl m] unfolding R
    by (auto simp: ube_demo_obs)
qed

end
