(* ===== verification/Inserting.thy ===== *)
theory Inserting
  imports Erasing
begin

text \<open>
  What creating a basic block and appending a branch do to a consistent store: the
  counterpart of \<open>Erasing\<close>, shared by the passes that add code.
\<close>

lemma ops_of_new_value:
  assumes "ir_ok s" and "new_value t nm k s = Inr (v, s')"
  shows "ops_of s' = ops_of s"
proof
  fix w
  have new: "vals s' = (vals s)(v \<mapsto> \<lparr>vty = t, vname = nm, vuses = [], vops = [], vkind = k\<rparr>)"
    using assms(2) by (auto simp: new_value_def)
  have "v \<notin> dom (vals s)" using new_value_obs(9) [OF assms] .
  then show "ops_of s' w = ops_of s w"
    by (cases "w = v") (auto simp: ops_of_def new split: option.split)
qed

lemma instr_op_kind:
  "instr_op s i = (case kind_of s i of Some (K_instr op p) \<Rightarrow> Inr op | _ \<Rightarrow> Inl Dangling)"
proof (cases "vals s i")
  case (Some r)
  then show ?thesis by (cases "vkind r") (simp_all add: instr_op_def kind_of_def)
qed (simp add: instr_op_def kind_of_def)

lemma parents_dom: "dom (parents s) = dom (bbs s)"
  by (auto simp: parents_def)

lemma same_but_edges_parents: "same_but_edges s t \<Longrightarrow> parents t = parents s"
proof -
  assume "same_but_edges s t"
  then have "place_of t = place_of s" by (simp add: same_but_edges_def)
  moreover have "parents x b = map_option snd (place_of x b)" for x :: "'a ir_scheme" and b
    by (simp add: parents_def place_of_def option.map_comp o_def)
  ultimately show ?thesis by (simp add: fun_eq_iff)
qed

lemma same_but_edges_function_list: "same_but_edges s t \<Longrightarrow> function_list t = function_list s"
  by (auto simp: same_but_edges_def)

lemma same_but_edges_ops: "same_but_edges s t \<Longrightarrow> ops_of t = ops_of s"
  by (auto simp: same_but_edges_def ops_of_def fun_eq_iff)

section \<open>Blocks\<close>

lemma BasicBlock_create_effect:
  assumes ok: "ir_ok s" and f: "f \<in> dom (funcs s)"
  shows "\<exists>t. BasicBlock_create nm f s = Inr (next_id s, t) \<and> ir_ok t \<and>
    kind_of t = (kind_of s)(next_id s \<mapsto> K_block) \<and> ops_of t = ops_of s \<and> preds t = preds s \<and> succs t = succs s \<and>
    instrs t = instrs s \<and> blocks t = (blocks s)(f := blocks s f @ [next_id s]) \<and>
    parents t = (parents s)(next_id s \<mapsto> f) \<and> dom (funcs t) = dom (funcs s) \<and> function_list t = function_list s"
proof -
  obtain rf where rf: "funcs s f = Some rf" using f by blast
  let ?b = "next_id s"
  obtain s1 where s1: "new_value LabelTy ((if nm = '''' then '''' else ''label_'') @ nm) K_block s = Inr (?b, s1)"
    by (simp add: new_value_def)
  note o = new_value_obs [OF ok s1]
  let ?t = "s1\<lparr>bbs := (bbs s1)(?b \<mapsto> \<lparr>pre_bbs = [], succ_bbs = [], instr_list = [], bparent = f\<rparr>),
      funcs := (funcs s1)(f \<mapsto> rf\<lparr>basic_blocks := basic_blocks rf @ [?b]\<rparr>)\<rparr>"
  have run: "BasicBlock_create nm f s = Inr (?b, ?t)"
    using s1 rf o(5) by (simp add: BasicBlock_create_def bindM_def thenM_def modifyM_def updateM_def returnM_def)
  have fresh: "bbs s ?b = None" using o(10) by (simp add: domIff)
  have fl: "function_list s1 = function_list s" using s1 by (auto simp: new_value_def)
  have "ir_ok ?t" using preservesD [OF preserves_BasicBlock_create ok run] .
  moreover have "kind_of ?t = kind_of s1" by (simp add: kind_of_def fun_eq_iff)
  moreover have "ops_of ?t = ops_of s1" by (simp add: ops_of_def fun_eq_iff)
  moreover have "preds ?t = preds s" "succs ?t = succs s" "instrs ?t = instrs s"
    "blocks ?t = (blocks s)(f := blocks s f @ [?b])"
    using fresh rf by (auto simp: graph_defs o(4,5) fun_eq_iff)
  moreover have "parents ?t = (parents s)(?b \<mapsto> f)" by (auto simp: parents_def o(4) fun_eq_iff)
  moreover have "dom (funcs ?t) = dom (funcs s)" using rf by (auto simp: o(5))
  ultimately show ?thesis using run o(3) ops_of_new_value [OF ok s1] fl by auto
qed

section \<open>Branches\<close>

lemma add_pre_total: "b \<in> dom (bbs s) \<Longrightarrow> \<exists>t. add_pre_basic_block b p s = Inr t"
  by (auto simp: add_pre_basic_block_def)

lemma add_succ_total: "b \<in> dom (bbs s) \<Longrightarrow> \<exists>t. add_succ_basic_block b p s = Inr t"
  by (auto simp: add_succ_basic_block_def)

lemma remove_pre_total: "b \<in> dom (bbs s) \<Longrightarrow> \<exists>t. remove_pre_basic_block b p s = Inr t"
  by (auto simp: remove_pre_basic_block_def)

lemma remove_succ_total: "b \<in> dom (bbs s) \<Longrightarrow> \<exists>t. remove_succ_basic_block b p s = Inr t"
  by (auto simp: remove_succ_basic_block_def)

lemma link_effect:
  assumes "b \<in> dom (bbs s)" and "c \<in> dom (bbs s)"
  shows "\<exists>t. bindR (add_pre_basic_block c b s) (add_succ_basic_block b c) = Inr t \<and> same_but_edges s t \<and>
    preds t = (preds s)(c := preds s c @ [b]) \<and> succs t = (succs s)(b := succs s b @ [c])"
proof -
  obtain s1 where s1: "add_pre_basic_block c b s = Inr s1" using add_pre_total assms(2) by blast
  note e1 = add_pre_effect [OF s1]
  have "b \<in> dom (bbs s1)" using assms(1) same_but_edges_obs(4) [OF e1(1)] by blast
  then obtain t where t: "add_succ_basic_block b c s1 = Inr t" using add_succ_total by blast
  note e2 = add_succ_effect [OF t]
  show ?thesis using s1 t e1 e2 same_but_edges_trans by auto
qed

text \<open>A new instruction at the end of a block that has no terminator yet.\<close>

lemma Instruction_ctor_effect:
  assumes ok: "ir_ok s" and b: "b \<in> dom (bbs s)" and nt: "is_terminated s b = Inr False"
  shows "\<exists>t. Instruction_ctor ty op (Some b) s = Inr (next_id s, t) \<and> ir_ok t \<and>
    kind_of t = (kind_of s)(next_id s \<mapsto> K_instr op (Some b)) \<and> ops_of t = ops_of s \<and>
    preds t = preds s \<and> succs t = succs s \<and> instrs t = (instrs s)(b := instrs s b @ [next_id s]) \<and>
    blocks t = blocks s \<and> parents t = parents s \<and> funcs t = funcs s \<and> function_list t = function_list s \<and>
    dom (vals t) = insert (next_id s) (dom (vals s))"
proof -
  let ?i = "next_id s"
  obtain s1 where s1: "new_value ty '''' (K_instr op (Some b)) s = Inr (?i, s1)" by (simp add: new_value_def)
  note o = new_value_obs [OF ok s1]
  obtain r where r: "bbs s b = Some r" using b by blast
  let ?t = "s1\<lparr>bbs := (bbs s1)(b \<mapsto> r\<lparr>instr_list := instr_list r @ [?i]\<rparr>)\<rparr>"
  have "is_terminated s1 b = Inr False"
  proof -
    have "last (instr_list r) \<noteq> ?i" if "instr_list r \<noteq> []"
    proof -
      have "last (instr_list r) \<in> set (instrs s b)" using that r by (simp add: instrs_def)
      then show ?thesis using ir_ok_kind_dom [OF _ ok] o(9) by metis
    qed
    then show ?thesis using nt r unfolding is_terminated_False by (auto simp: o(3,4))
  qed
  then have "add_instruction b ?i s1 = Inr ?t" using r by (simp add: add_instruction_def o(4))
  then have run: "Instruction_ctor ty op (Some b) s = Inr (?i, ?t)"
    using s1 by (simp add: Instruction_ctor_def bindM_def thenM_def updateM_def returnM_def)
  have fl: "function_list s1 = function_list s" using s1 by (auto simp: new_value_def)
  have "ir_ok ?t" using preservesD [OF preserves_Instruction_ctor ok run] .
  moreover have "kind_of ?t = kind_of s1" by (simp add: kind_of_def fun_eq_iff)
  moreover have "ops_of ?t = ops_of s1" by (simp add: ops_of_def fun_eq_iff)
  moreover have "preds ?t = preds s" "succs ?t = succs s" "instrs ?t = (instrs s)(b := instrs s b @ [?i])"
    "blocks ?t = blocks s" "parents ?t = parents s" "funcs ?t = funcs s" "dom (vals ?t) = insert ?i (dom (vals s))"
    using r by (auto simp: graph_defs parents_def o(4,5,6) fun_eq_iff)
  ultimately show ?thesis using run o(3) ops_of_new_value [OF ok s1] fl by auto
qed

lemma create_br_effect:
  assumes ok: "ir_ok s" and b: "b \<in> dom (bbs s)" and c: "c \<in> dom (bbs s)" and nt: "is_terminated s b = Inr False"
  shows "\<exists>t. create_br c b s = Inr (next_id s, t) \<and> ir_ok t \<and>
    kind_of t = (kind_of s)(next_id s \<mapsto> K_instr O_br (Some b)) \<and> ops_of t = (ops_of s)(next_id s := [Some c]) \<and>
    preds t = (preds s)(c := preds s c @ [b]) \<and> succs t = (succs s)(b := succs s b @ [c]) \<and>
    instrs t = (instrs s)(b := instrs s b @ [next_id s]) \<and>
    blocks t = blocks s \<and> parents t = parents s \<and> funcs t = funcs s \<and> function_list t = function_list s"
proof -
  let ?i = "next_id s"
  obtain s1 where s1: "Instruction_ctor VoidTy O_br (Some b) s = Inr (?i, s1)" "ir_ok s1"
    "kind_of s1 = (kind_of s)(?i \<mapsto> K_instr O_br (Some b))" "ops_of s1 = ops_of s"
    "preds s1 = preds s" "succs s1 = succs s" "instrs s1 = (instrs s)(b := instrs s b @ [?i])"
    "blocks s1 = blocks s" "parents s1 = parents s" "funcs s1 = funcs s" "function_list s1 = function_list s"
    "dom (vals s1) = insert ?i (dom (vals s))"
    using Instruction_ctor_effect [OF ok b nt] by blast
  have "c \<in> dom (vals s1)" "?i \<in> dom (vals s1)"
    using c s1(12) ok ids_ok_dom(1) [of s] unfolding ir_ok_def by blast+
  then obtain s2 where s2: "add_operand ?i (Some c) s1 = Inr s2" using add_operand_total by blast
  have e2: "same_but_uses s1 s2 \<and> ops_of s2 = (ops_of s1)(?i := ops_of s1 ?i @ [Some c])"
    using s2 by (rule add_operand_effect) simp
  note o2 = same_but_uses_obs [OF e2 [THEN conjunct1]]
  have d2: "dom (bbs s2) = dom (bbs s)"
    using s1(9) o2(2) parents_dom [of s1] parents_dom [of s] by simp
  obtain t where t: "bindR (add_pre_basic_block c b s2) (add_succ_basic_block b c) = Inr t" "same_but_edges s2 t"
    "preds t = (preds s2)(c := preds s2 c @ [b])" "succs t = (succs s2)(b := succs s2 b @ [c])"
    using link_effect [of b s2 c] b c unfolding d2 by blast
  note ot = same_but_edges_obs [OF t(2)]
  have run: "create_br c b s = Inr (?i, t)"
    using s1(1) s2 t(1) by (simp add: create_br_def BranchInst_ctor_def bindM_def thenM_def updateM_def
        returnM_def guardM_def add_op_def del: bindR_Inr_iff)
  have "ir_ok t" using preservesD [OF preserves_calls_and_terminators(2) ok run [unfolded create_br_def]] .
  moreover have "ops_of s ?i = []"
    using ok unfolding ir_ok_def ids_ok_def by (auto simp: ops_of_def split: option.split)
  moreover have "kind_of t = kind_of s2" by (rule vals_obs(3) [OF ot(1)])
  moreover have "ops_of t = ops_of s2" by (rule same_but_edges_ops [OF t(2)])
  moreover have g2: "preds s2 = preds s1" "succs s2 = succs s1" "instrs s2 = instrs s1" "blocks s2 = blocks s1"
    "parents s2 = parents s1" "function_list s2 = function_list s1"
    using same_layout_obs [OF same_but_uses_layout [OF e2 [THEN conjunct1]]] o2
      same_but_uses_layout [OF e2 [THEN conjunct1]]
    by (simp_all add: parents_def fun_eq_iff same_layout_def)
  moreover have "blocks t = blocks s2" by (simp add: blocks_def ot fun_eq_iff)
  ultimately show ?thesis
    using run s1 e2 o2 t ot same_but_edges_parents [OF t(2)] same_but_edges_function_list [OF t(2)] by simp
qed

text \<open>A load has its address, a store its value and its address.\<close>

definition accesses_ok :: "'z ir_scheme \<Rightarrow> vid \<Rightarrow> bool" where
  "accesses_ok s i \<longleftrightarrow> (\<forall>b. (kind_of s i = Some (K_instr O_load b) \<longrightarrow> ops_of s i \<noteq> []) \<and>
     (kind_of s i = Some (K_instr O_store b) \<longrightarrow> 2 \<le> length (ops_of s i)))"

end
