(* ===== verification/SplitCriticalEdges.thy ===== *)
theory SplitCriticalEdges
  imports UnreachableBlockElim Inserting
begin

text \<open>
  Splitting of critical edges (\<open>src/passes/SplitCriticalEdges.cpp\<close>): an edge from a block
  with several successors to a block with several predecessors gets a block of its own.
  The edges are collected first, then split one after the other.
\<close>

section \<open>The pass\<close>

text \<open>The loop over the predecessors of one block.\<close>

fun collect_from_preds :: "'z ir_scheme \<Rightarrow> vid \<Rightarrow> vid set \<Rightarrow> vid list \<Rightarrow> (vid \<times> vid) list res" where
  "collect_from_preds s succ visited [] = Inr []"
| "collect_from_preds s succ visited (pred # rest) =
     (if pred \<in> visited then collect_from_preds s succ visited rest
      else
        bindR (deref (bbs s) pred) (\<lambda>r.
        bindR (collect_from_preds s succ (insert pred visited) rest) (\<lambda>es.
        Inr (if 1 < card (set (succ_bbs r)) then (pred, succ) # es else es))))"

fun collect_from_blocks :: "'z ir_scheme \<Rightarrow> vid list \<Rightarrow> (vid \<times> vid) list res" where
  "collect_from_blocks s [] = Inr []"
| "collect_from_blocks s (succ # rest) =
     bindR (deref (bbs s) succ) (\<lambda>r.
     bindR (if card (set (pre_bbs r)) < 2 then Inr []
            else collect_from_preds s succ {} (pre_bbs r)) (\<lambda>es.
     bindR (collect_from_blocks s rest) (\<lambda>es'. Inr (es @ es'))))"

definition collectCriticalEdges :: "'z ir_scheme \<Rightarrow> vid \<Rightarrow> (vid \<times> vid) list res" where
  "collectCriticalEdges s f = collect_from_blocks s (blocks s f)"

text \<open>Redirect the branch of \<open>pred\<close>: the first target that is \<open>succ\<close>.\<close>

definition redirect_branch :: "vid \<Rightarrow> vid \<Rightarrow> vid \<Rightarrow> 'z ir_scheme \<Rightarrow> 'z ir_scheme res" where
  "redirect_branch terminator succ middle s =
     bindR (get_operand s terminator 1) (\<lambda>t1.
     if t1 = Some succ then set_operand terminator 1 (Some middle) s
     else
       bindR (get_operand s terminator 2) (\<lambda>t2.
       bindR (guardR (t2 = Some succ) (Assert_fail ''successor is not a target of predecessor's terminator'')) (\<lambda>_.
       set_operand terminator 2 (Some middle) s)))"

definition relink_edge :: "vid \<Rightarrow> vid \<Rightarrow> vid \<Rightarrow> 'z ir_scheme \<Rightarrow> 'z ir_scheme res" where
  "relink_edge pred succ middle s =
     bindR (remove_succ_basic_block pred succ s) (\<lambda>s1.
     bindR (remove_pre_basic_block succ pred s1) (\<lambda>s2.
     bindR (add_succ_basic_block pred middle s2)
           (add_pre_basic_block middle pred)))"

text \<open>\<open>dynamic_cast<BranchInst *>\<close> of the terminator, and the assertion on it.\<close>

definition conditional_terminator :: "'z ir_scheme \<Rightarrow> vid \<Rightarrow> vid res" where
  "conditional_terminator s pred =
     bindR (get_terminator s pred) (\<lambda>i.
     bindR (instr_op s i) (\<lambda>op. bindR (deref (vals s) i) (\<lambda>r.
     bindR (guardR (op = O_br \<and> length (vops r) = 3)
              (Assert_fail ''a critical edge must leave a conditional branch'')) (\<lambda>_.
     Inr i))))"

definition splitEdge :: "vid \<Rightarrow> vid \<Rightarrow> nat \<Rightarrow> ('z ir_scheme, vid) sm" where
  "splitEdge pred succ split_block_id =
     bindM (readM (\<lambda>s. deref (bbs s) pred)) (\<lambda>rp.
     bindM (readM (\<lambda>s. deref (bbs s) succ)) (\<lambda>rs.
     thenM (guardM (bparent rp = bparent rs) (Assert_fail ''cannot split an edge across functions''))
    (bindM (readM (\<lambda>s. conditional_terminator s pred)) (\<lambda>terminator.
     bindM (BasicBlock_create (''critical_edge_'' @ nat_str split_block_id) (bparent rp)) (\<lambda>middle.
     thenM (updateM (redirect_branch terminator succ middle))
    (thenM (updateM (relink_edge pred succ middle))
    (bindM (create_br succ middle) (\<lambda>br.
     returnM middle))))))))"

text \<open>The operands of one phi at the odd positions \<open>i\<close>, \<open>i + 2\<close>, and so on.\<close>

function rewrite_phi :: "vid \<Rightarrow> vid \<Rightarrow> vid \<Rightarrow> nat \<Rightarrow> nat \<Rightarrow> 'z ir_scheme \<Rightarrow> 'z ir_scheme res" where
  "rewrite_phi old_pred new_pred phi i num s =
     (if i < num then
        bindR (get_operand s phi i) (\<lambda>v.
        bindR (if v = Some old_pred then set_operand phi i (Some new_pred) s else Inr s)
          (rewrite_phi old_pred new_pred phi (i + 2) num))
      else Inr s)"
  by pat_completeness auto
termination by (relation "measure (\<lambda>(op, np, phi, i, num, s). num - i)") auto

declare rewrite_phi.simps [simp del]

fun rewrite_phis :: "vid \<Rightarrow> vid \<Rightarrow> vid list \<Rightarrow> 'z ir_scheme \<Rightarrow> 'z ir_scheme res" where
  "rewrite_phis old_pred new_pred [] s = Inr s"
| "rewrite_phis old_pred new_pred (i # is) s =
     (if is_phi_instr s i then
        bindR (deref (vals s) i) (\<lambda>r.
        bindR (guardR (even (length (vops r))) (Assert_fail ''malformed phi instruction'')) (\<lambda>_.
        bindR (rewrite_phi old_pred new_pred i 1 (length (vops r)) s) (rewrite_phis old_pred new_pred is)))
      else Inr s)"

definition rewritePhiPredecessors :: "vid \<Rightarrow> vid \<Rightarrow> vid \<Rightarrow> 'z ir_scheme \<Rightarrow> 'z ir_scheme res" where
  "rewritePhiPredecessors succ old_pred new_pred s = rewrite_phis old_pred new_pred (instrs s succ) s"

fun split_edges :: "nat \<Rightarrow> (vid \<times> vid) list \<Rightarrow> 'z ir_scheme \<Rightarrow> 'z ir_scheme res" where
  "split_edges idx [] s = Inr s"
| "split_edges idx ((pred, succ) # es) s =
     bindR (splitEdge pred succ idx s) (\<lambda>(middle, s1).
     bindR (rewritePhiPredecessors succ pred middle s1) (split_edges (Suc idx) es))"

definition split_function :: "vid \<Rightarrow> 'z ir_scheme \<Rightarrow> 'z ir_scheme res" where
  "split_function f s =
     bindR (collectCriticalEdges s f) (\<lambda>es. if es = [] then Inr s else split_edges 0 es s)"

fun split_functions :: "vid list \<Rightarrow> 'z ir_scheme \<Rightarrow> 'z ir_scheme res" where
  "split_functions [] s = Inr s"
| "split_functions (f # fs) s =
     bindR (is_declaration s f) (\<lambda>d.
     bindR (if d then Inr s else split_function f s) (split_functions fs))"

definition SplitCriticalEdges_run :: "'z ir_scheme \<Rightarrow> 'z ir_scheme res" where
  "SplitCriticalEdges_run s = split_functions (function_list s) s"

section \<open>Collecting the critical edges\<close>

definition critical :: "'z ir_scheme \<Rightarrow> vid \<Rightarrow> vid \<Rightarrow> bool" where
  "critical s a b \<longleftrightarrow> a \<in> set (preds s b) \<and> 2 \<le> card (set (preds s b)) \<and> 1 < card (set (succs s a))"

lemma collect_from_preds_effect:
  "set ps \<subseteq> dom (bbs s) \<Longrightarrow> \<exists>es. collect_from_preds s c vis ps = Inr es \<and> distinct es \<and>
    set es = {(a, c) |a. a \<in> set ps - vis \<and> 1 < card (set (succs s a))}"
proof (induction s c vis ps rule: collect_from_preds.induct)
  case (2 s c vis a ps)
  show ?case
  proof (cases "a \<in> vis")
    case True
    then obtain es where "collect_from_preds s c vis (a # ps) = Inr es" "distinct es"
      "set es = {(a, c) |a. a \<in> set ps - vis \<and> 1 < card (set (succs s a))}"
      using "2.IH"(1) "2.prems" by auto
    moreover have "set (a # ps) - vis = set ps - vis" using True by auto
    ultimately show ?thesis by auto
  next
    case False
    obtain r where r: "bbs s a = Some r" using "2.prems" by auto
    then obtain es where es: "collect_from_preds s c (insert a vis) ps = Inr es" "distinct es"
      "set es = {(b, c) |b. b \<in> set ps - insert a vis \<and> 1 < card (set (succs s b))}"
      using "2.IH"(2) [of r] False "2.prems" by auto
    have "succ_bbs r = succs s a" using r by (simp add: succs_def)
    then show ?thesis using False r es by auto
  qed
qed simp

lemma collectCriticalEdges_effect:
  assumes "set (blocks s f) \<subseteq> dom (bbs s)" and "\<And>b. b \<in> set (blocks s f) \<Longrightarrow> set (preds s b) \<subseteq> dom (bbs s)"
    and "distinct (blocks s f)"
  shows "\<exists>es. collectCriticalEdges s f = Inr es \<and> distinct es \<and>
    set es = {(a, b). b \<in> set (blocks s f) \<and> critical s a b}"
proof -
  have "\<exists>es. collect_from_blocks s bs = Inr es \<and> distinct es \<and> set es = {(a, b). b \<in> set bs \<and> critical s a b}"
    if "distinct bs" "set bs \<subseteq> dom (bbs s)" "\<And>b. b \<in> set bs \<Longrightarrow> set (preds s b) \<subseteq> dom (bbs s)" for bs
    using that
  proof (induction bs)
    case (Cons b bs)
    obtain r where r: "bbs s b = Some r" using Cons.prems(2) by auto
    have p: "pre_bbs r = preds s b" using r by (simp add: preds_def)
    obtain es' where es': "collect_from_blocks s bs = Inr es'" "distinct es'"
      "set es' = {(a, b). b \<in> set bs \<and> critical s a b}"
      using Cons by auto
    obtain es where es: "(if card (set (preds s b)) < 2 then Inr [] else collect_from_preds s b {} (preds s b)) = Inr es"
      "distinct es" "set es = {(a, b) |a. critical s a b}"
    proof (cases "card (set (preds s b)) < 2")
      case True
      then show ?thesis using that [of "[]"] by (auto simp: critical_def)
    next
      case False
      then show ?thesis
        using collect_from_preds_effect [of "preds s b" s b "{}"] Cons.prems(3) [of b] that
        by (auto simp: critical_def)
    qed
    have "collect_from_blocks s (b # bs) = Inr (es @ es')" using r p es(1) es'(1) by (simp split: if_splits)
    moreover have "distinct (es @ es')" using es es' Cons.prems(1) by auto
    moreover have "set (es @ es') = {(a, c). c \<in> set (b # bs) \<and> critical s a c}" using es(3) es'(3) by auto
    ultimately show ?case by blast
  qed simp
  from this [OF assms(3,1,2)] show ?thesis by (simp add: collectCriticalEdges_def)
qed

section \<open>One edge\<close>

lemma get_terminator_cong:
  assumes "b \<in> dom (bbs t) \<longleftrightarrow> b \<in> dom (bbs s)" and "instrs t b = instrs s b"
    and k: "\<And>i. i \<in> set (instrs s b) \<Longrightarrow> kind_of t i = kind_of s i"
  shows "get_terminator t b = get_terminator s b"
proof (cases "bbs s b")
  case None
  then have "bbs t b = None" using assms(1) by blast
  with None show ?thesis by (simp add: get_terminator_def is_terminated_def deref_def)
next
  case (Some r)
  then obtain r' where r': "bbs t b = Some r'" using assms(1) by blast
  have l: "instr_list r' = instr_list r" using assms(2) Some r' by (simp add: instrs_def)
  have "instr_op t (last (instr_list r)) = instr_op s (last (instr_list r))" if "instr_list r \<noteq> []"
    using that k [of "last (instr_list r)"] Some by (simp add: instr_op_kind instrs_def)
  then show ?thesis using Some r' l by (simp add: get_terminator_def is_terminated_def del: instr_op_Inr)
qed

lemma get_terminator_at:
  assumes "b \<in> dom (bbs s)" and "instrs s b \<noteq> []" and "kind_of s (last (instrs s b)) = Some (K_instr op p)"
    and "is_terminator_op op"
  shows "get_terminator s b = Inr (last (instrs s b))"
  using assms
  by (auto simp: get_terminator_def is_terminated_def instrs_def instr_op_kind simp del: bindR_Inr_iff instr_op_Inr)

lemma redirect_branch_effect:
  assumes ok: "ir_ok s" and ops: "ops_of s i = [x, Some t1, Some t2]" and c: "t1 = c \<or> t2 = c" and m: "m \<in> dom (vals s)"
  shows "\<exists>t. redirect_branch i c m s = Inr t \<and> ir_ok t \<and> same_but_uses s t \<and>
    ops_of t = (ops_of s)(i := [x, Some (if t1 = c then m else t1), Some (if t1 = c then t2 else m)])"
proof -
  obtain r where r: "vals s i = Some r" "vops r = [x, Some t1, Some t2]"
    using ops by (cases "vals s i") (auto simp: ops_of_def)
  have g: "get_operand s i 1 = Inr (Some t1)" "get_operand s i 2 = Inr (Some t2)"
    using r by (simp_all add: get_operand_def)
  have set: "\<exists>t. set_operand i j (Some m) s = Inr t \<and> ir_ok t \<and> same_but_uses s t \<and>
      ops_of t = (ops_of s)(i := (ops_of s i)[j := Some m])" if "j < 3" for j
  proof -
    have "j < length (ops_of s i)" using that ops by simp
    then obtain t where t: "set_operand i j (Some m) s = Inr t"
      using set_operand_total [OF ir_ok_use_def [OF ok], of j i "Some m"] m by blast
    note e = set_operand_effect [OF t]
    show ?thesis
      using t e(2,3) ir_ok_same_but_uses [OF ok e(2) set_operand_use_def_ok [OF ir_ok_use_def [OF ok] t]] by blast
  qed
  show ?thesis
  proof (cases "t1 = c")
    case True
    obtain t where "set_operand i 1 (Some m) s = Inr t" "ir_ok t" "same_but_uses s t"
      "ops_of t = (ops_of s)(i := (ops_of s i)[1 := Some m])" using set [of 1] by auto
    then show ?thesis using True g(1) ops by (intro exI [of _ t]) (simp add: redirect_branch_def del: bindR_Inr_iff)
  next
    case False
    obtain t where "set_operand i 2 (Some m) s = Inr t" "ir_ok t" "same_but_uses s t"
      "ops_of t = (ops_of s)(i := (ops_of s i)[2 := Some m])" using set [of 2] by auto
    moreover have "[x, Some t1, Some t2][2 := Some m] = [x, Some t1, Some m]" by (simp add: numeral_2_eq_2)
    ultimately show ?thesis using False c g ops by (intro exI [of _ t]) (simp add: redirect_branch_def del: bindR_Inr_iff)
  qed
qed

lemma relink_edge_effect:
  assumes ok: "ir_ok s" and d: "a \<in> dom (bbs s)" "c \<in> dom (bbs s)" "m \<in> dom (bbs s)"
    and new: "preds s m = []" "succs s m = []" and ne: "m \<noteq> a" "m \<noteq> c"
  shows "\<exists>t. relink_edge a c m s = Inr t \<and> ir_ok t \<and> same_but_edges s t \<and>
    preds t = (preds s)(c := removeAll a (preds s c), m := [a]) \<and>
    succs t = (succs s)(a := removeAll c (succs s a) @ [m])"
proof -
  obtain s1 where s1: "remove_succ_basic_block a c s = Inr s1" using remove_succ_total d by blast
  note e1 = remove_succ_effect [OF s1]
  have d1: "dom (bbs s1) = dom (bbs s)" using same_but_edges_obs(4) [OF e1(1)] .
  obtain s2 where s2: "remove_pre_basic_block c a s1 = Inr s2" using remove_pre_total d d1 by blast
  note e2 = remove_pre_effect [OF s2]
  have d2: "dom (bbs s2) = dom (bbs s)" using same_but_edges_obs(4) [OF e2(1)] d1 by simp
  obtain s3 where s3: "add_succ_basic_block a m s2 = Inr s3" using add_succ_total d d2 by blast
  note e3 = add_succ_effect [OF s3]
  have d3: "dom (bbs s3) = dom (bbs s)" using same_but_edges_obs(4) [OF e3(1)] d2 by simp
  obtain t where t: "add_pre_basic_block m a s3 = Inr t" using add_pre_total d d3 by blast
  note e4 = add_pre_effect [OF t]
  have run: "relink_edge a c m s = Inr t" using s1 s2 s3 t by (simp add: relink_edge_def)
  have same: "same_but_edges s t" using e1(1) e2(1) e3(1) e4(1) same_but_edges_trans by blast
  have p: "preds t = (preds s)(c := removeAll a (preds s c), m := [a])"
    using ne new by (simp add: e4(2) e3(3) e2(2) e1(3) fun_eq_iff)
  have q: "succs t = (succs s)(a := removeAll c (succs s a) @ [m])"
    by (simp add: e4(3) e3(2) e2(3) e1(2) fun_eq_iff)
  have C: "count_list (preds s b) x = count_list (succs s x) b" for x b using ok by (simp add: ir_ok_def cfg_ok_def)
  have "count_list (preds s m) x = 0" "count_list (succs s m) x = 0" for x using new by simp_all
  then have "count_list (succs s x) m = 0" for x using C by metis
  then have "cfg_ok t" using C ne new unfolding cfg_ok_def p q by (auto simp: count_list_removeAll)
  then show ?thesis using run same p q ir_ok_same_but_edges [OF ok same] by blast
qed

lemma edges_undef: "b \<notin> dom (bbs s) \<Longrightarrow> preds s b = [] \<and> succs s b = [] \<and> instrs s b = []"
  by (simp add: graph_defs domIff)

lemma splitEdge_effect:
  assumes ok: "ir_ok s" and f: "f \<in> dom (funcs s)" and par: "parents s a = Some f" "parents s c = Some f"
    and i: "get_terminator s a = Inr i" "kind_of s i = Some (K_instr O_br q)"
    and ops: "ops_of s i = [x, Some t1, Some t2]" and c: "t1 = c \<or> t2 = c"
  shows "\<exists>t m br. splitEdge a c n s = Inr (m, t) \<and> ir_ok t \<and> m \<notin> dom (vals s) \<and> br \<notin> dom (vals s) \<and> m \<noteq> br \<and>
    kind_of t = (kind_of s)(m \<mapsto> K_block, br \<mapsto> K_instr O_br (Some m)) \<and>
    ops_of t = (ops_of s)(i := [x, Some (if t1 = c then m else t1), Some (if t1 = c then t2 else m)], br := [Some c]) \<and>
    preds t = (preds s)(c := removeAll a (preds s c) @ [m], m := [a]) \<and>
    succs t = (succs s)(a := removeAll c (succs s a) @ [m], m := [c]) \<and>
    instrs t = (instrs s)(m := [br]) \<and> blocks t = (blocks s)(f := blocks s f @ [m]) \<and>
    parents t = (parents s)(m \<mapsto> f) \<and> dom (funcs t) = dom (funcs s)"
proof -
  let ?m = "next_id s"
  have d: "a \<in> dom (bbs s)" "c \<in> dom (bbs s)" using par parents_dom [of s] by auto
  have m: "?m \<notin> dom (vals s)" using ir_ok_bound [OF ok] by blast
  have mb: "?m \<notin> dom (bbs s)" using m ok ids_ok_dom(1) [of s] unfolding ir_ok_def by blast
  obtain s1 where s1: "BasicBlock_create (''critical_edge_'' @ nat_str n) f s = Inr (?m, s1)" "ir_ok s1"
    "kind_of s1 = (kind_of s)(?m \<mapsto> K_block)" "ops_of s1 = ops_of s" "preds s1 = preds s" "succs s1 = succs s"
    "instrs s1 = instrs s" "blocks s1 = (blocks s)(f := blocks s f @ [?m])" "parents s1 = (parents s)(?m \<mapsto> f)"
    "dom (funcs s1) = dom (funcs s)" "function_list s1 = function_list s"
    using BasicBlock_create_effect [OF ok f] by blast
  have m1: "?m \<in> dom (vals s1)" using s1(3) kind_of_dom by (metis fun_upd_same)
  obtain s2 where s2: "redirect_branch i c ?m s1 = Inr s2" "ir_ok s2" "same_but_uses s1 s2"
    "ops_of s2 = (ops_of s1)(i := [x, Some (if t1 = c then ?m else t1), Some (if t1 = c then t2 else ?m)])"
    using redirect_branch_effect [OF s1(2) _ c m1] ops s1(4) by metis
  note o2 = same_but_uses_obs [OF s2(3)]
  note l2 = same_layout_obs [OF same_but_uses_layout [OF s2(3)]]
  have p2: "parents s2 = parents s1" by (simp add: parents_def o2 fun_eq_iff)
  have d2: "dom (bbs s2) = insert ?m (dom (bbs s))"
    using parents_dom [of s2] parents_dom [of s] p2 s1(9) by simp
  have ne: "?m \<noteq> a" "?m \<noteq> c" using mb d by auto
  have u: "preds s ?m = []" "succs s ?m = []" "instrs s ?m = []" using edges_undef [OF mb] by simp_all
  obtain s3 where s3: "relink_edge a c ?m s2 = Inr s3" "ir_ok s3" "same_but_edges s2 s3"
    "preds s3 = (preds s2)(c := removeAll a (preds s2 c), ?m := [a])"
    "succs s3 = (succs s2)(a := removeAll c (succs s2 a) @ [?m])"
    using relink_edge_effect [OF s2(2), of a c ?m] d d2 ne u l2 s1(5,6) by auto
  note o3 = same_but_edges_obs [OF s3(3)]
  have d3: "dom (bbs s3) = insert ?m (dom (bbs s))" using o3(4) d2 by simp
  have i3: "instrs s3 = instrs s" using o3(5) l2(1) s1(7) by simp
  have "is_terminated s3 ?m = Inr False"
  proof -
    obtain r3 where r3: "bbs s3 ?m = Some r3" using d3 by blast
    have "instrs s3 ?m = []" using i3 u(3) by simp
    then show ?thesis using r3 by (simp add: is_terminated_def instrs_def)
  qed
  then obtain t where t: "create_br c ?m s3 = Inr (next_id s3, t)" "ir_ok t"
    "kind_of t = (kind_of s3)(next_id s3 \<mapsto> K_instr O_br (Some ?m))" "ops_of t = (ops_of s3)(next_id s3 := [Some c])"
    "preds t = (preds s3)(c := preds s3 c @ [?m])" "succs t = (succs s3)(?m := succs s3 ?m @ [c])"
    "instrs t = (instrs s3)(?m := instrs s3 ?m @ [next_id s3])" "blocks t = blocks s3" "parents t = parents s3"
    "funcs t = funcs s3"
    using create_br_effect [OF s3(2), of ?m c] d3 d by blast
  have k3: "kind_of s3 = (kind_of s)(?m \<mapsto> K_block)" using vals_obs(3) [OF o3(1)] o2(1) s1(3) by simp
  have "dom (vals s3) = insert ?m (dom (vals s))"
  proof -
    have "dom (vals y) = {v. kind_of y v \<noteq> None}" for y :: "'a ir_scheme" by (auto simp: kind_of_def)
    then show ?thesis using k3 by auto
  qed
  then have br: "next_id s3 \<notin> dom (vals s)" "?m \<noteq> next_id s3"
  proof -
    have "next_id s3 \<notin> insert ?m (dom (vals s))"
      using ir_ok_bound [OF s3(2), of "next_id s3"] unfolding \<open>dom (vals s3) = _\<close> by auto
    then show "next_id s3 \<notin> dom (vals s)" "?m \<noteq> next_id s3" by auto
  qed
  obtain rp rs where rp: "bbs s a = Some rp" "bbs s c = Some rs" "bparent rp = f" "bparent rs = f"
    using par by (auto simp: parents_def)
  have ct: "conditional_terminator s a = Inr i"
  proof -
    obtain ri where "vals s i = Some ri" "vops ri = [x, Some t1, Some t2]"
      using ops by (cases "vals s i") (auto simp: ops_of_def)
    moreover have "instr_op s i = Inr O_br" using i(2) by simp
    ultimately show ?thesis using i(1) by (simp add: conditional_terminator_def del: bindR_Inr_iff instr_op_Inr)
  qed
  have run: "splitEdge a c n s = Inr (?m, t)"
    using rp ct s1(1) s2(1) s3(1) t(1)
    by (simp add: splitEdge_def bindM_def thenM_def readM_def guardM_def returnM_def updateM_def del: bindR_Inr_iff)
  have "parents t = (parents s)(?m \<mapsto> f)" using t(9) same_but_edges_parents [OF s3(3)] p2 s1(9) by simp
  moreover have "blocks t = (blocks s)(f := blocks s f @ [?m])"
  proof -
    have "blocks s3 = blocks s2" by (simp add: blocks_def o3 fun_eq_iff)
    then show ?thesis using t(8) l2(4) s1(8) by simp
  qed
  moreover have "dom (funcs t) = dom (funcs s)" using t(10) o3(2) o2(3) s1(10) by simp
  moreover have "instrs t = (instrs s)(?m := [next_id s3])" using t(7) i3 u(3) by simp
  moreover have "succs t = (succs s)(a := removeAll c (succs s a) @ [?m], ?m := [c])"
    using t(6) s3(5) l2(3) s1(6) ne u(2) by (auto simp: fun_eq_iff)
  moreover have "preds t = (preds s)(c := removeAll a (preds s c) @ [?m], ?m := [a])"
    using t(5) s3(4) l2(2) s1(5) ne by (auto simp: fun_eq_iff)
  moreover have "ops_of t = (ops_of s)(i := [x, Some (if t1 = c then ?m else t1), Some (if t1 = c then t2 else ?m)],
      next_id s3 := [Some c])"
    using t(4) same_but_edges_ops [OF s3(3)] s2(4) s1(4) by simp
  moreover have "kind_of t = (kind_of s)(?m \<mapsto> K_block, next_id s3 \<mapsto> K_instr O_br (Some ?m))" using t(3) k3 by simp
  ultimately show ?thesis using run t(2) m br by blast
qed

section \<open>The phis of the target\<close>

text \<open>The predecessors of a phi's pairs, renamed.\<close>

fun rename_preds :: "(vid \<Rightarrow> vid) \<Rightarrow> vid option list \<Rightarrow> vid option list" where
  "rename_preds g (v # b # rest) = v # map_option g b # rename_preds g rest"
| "rename_preds g ops = ops"

lemma rename_preds_length [simp]: "length (rename_preds g ops) = length ops"
  by (induction g ops rule: rename_preds.induct) auto

lemma rename_preds_id: "(\<And>b. b \<in> set (pair_blocks ops) \<Longrightarrow> g b = b) \<Longrightarrow> None \<notin> set ops \<Longrightarrow> rename_preds g ops = ops"
  by (induction ops rule: pair_blocks.induct) (auto split: option.splits)

lemma rename_preds_comp:
  "(\<And>b. b \<in> set (pair_blocks ops) \<Longrightarrow> h (g b) = k b) \<Longrightarrow> None \<notin> set ops \<Longrightarrow>
    rename_preds h (rename_preds g ops) = rename_preds k ops"
  by (induction ops rule: pair_blocks.induct) auto

lemma rename_preds_pairs:
  "even (length ops) \<Longrightarrow> None \<notin> set ops \<Longrightarrow> pair_blocks (rename_preds g ops) = map g (pair_blocks ops)"
  by (induction ops rule: pair_blocks.induct) auto

lemma rename_preds_mem:
  "Some w \<in> set (rename_preds g ops) \<Longrightarrow> None \<notin> set ops \<Longrightarrow> Some w \<in> set ops \<or> w \<in> g ` set (pair_blocks ops)"
  by (induction ops rule: pair_blocks.induct) auto

lemma rename_preds_None: "None \<in> set (rename_preds g ops) \<longleftrightarrow> None \<in> set ops"
  by (induction g ops rule: rename_preds.induct) auto

abbreviation swap_block :: "vid \<Rightarrow> vid \<Rightarrow> vid \<Rightarrow> vid" where
  "swap_block a m \<equiv> (\<lambda>b. if b = a then m else b)"

lemma rewrite_phi_effect:
  assumes "ir_ok s" and "m \<in> dom (vals s)" and "ops_of s p = xs @ ys" and "even (length ys)"
    and "i = Suc (length xs)" and "num = length (xs @ ys)"
  shows "\<exists>t. rewrite_phi a m p i num s = Inr t \<and> ir_ok t \<and> same_but_uses s t \<and>
    ops_of t = (ops_of s)(p := xs @ rename_preds (swap_block a m) ys)"
  using assms
proof (induction "swap_block a m" ys arbitrary: xs s i rule: rename_preds.induct)
  case (1 v b rest)
  note ok = \<open>ir_ok s\<close> and md = \<open>m \<in> dom (vals s)\<close> and ops = \<open>ops_of s p = xs @ v # b # rest\<close>
  obtain r where r: "vals s p = Some r" "vops r = xs @ v # b # rest"
    using ops by (cases "vals s p") (auto simp: ops_of_def)
  have g: "get_operand s p i = Inr b" using r \<open>i = _\<close> by (simp add: get_operand_def nth_append)
  obtain s1 where s1: "(if b = Some a then set_operand p i (Some m) s else Inr s) = Inr s1" "ir_ok s1" "same_but_uses s s1"
    "ops_of s1 = (ops_of s)(p := (xs @ [v, map_option (swap_block a m) b]) @ rest)"
  proof (cases "b = Some a")
    case True
    have "i < length (ops_of s p)" using ops \<open>i = _\<close> by simp
    then obtain t where t: "set_operand p i (Some m) s = Inr t"
      using set_operand_total [OF ir_ok_use_def [OF ok], of i p "Some m"] md by blast
    note e = set_operand_effect [OF t]
    have "(xs @ v # b # rest)[i := Some m] = xs @ v # Some m # rest" using \<open>i = _\<close> by (simp add: list_update_append)
    then show ?thesis
      using that [of t] t True e(2,3) ops ir_ok_same_but_uses [OF ok e(2) set_operand_use_def_ok [OF ir_ok_use_def [OF ok] t]]
      by simp
  next
    case False
    then have "map_option (swap_block a m) b = b" by (cases b) auto
    then have "ops_of s = (ops_of s)(p := (xs @ [v, map_option (swap_block a m) b]) @ rest)" using ops by (simp add: fun_eq_iff)
    then show ?thesis using that [of s] False ok by simp
  qed
  have "m \<in> dom (vals s1)" using md same_but_uses_dom [OF s1(3)] by simp
  moreover have "ops_of s1 p = (xs @ [v, map_option (swap_block a m) b]) @ rest" using s1(4) by simp
  ultimately obtain t where t: "rewrite_phi a m p (i + 2) num s1 = Inr t" "ir_ok t" "same_but_uses s1 t"
    "ops_of t = (ops_of s1)(p := (xs @ [v, map_option (swap_block a m) b]) @ rename_preds (swap_block a m) rest)"
    using "1.hyps" [of s1 "xs @ [v, map_option (swap_block a m) b]" "i + 2"] s1(2) "1.prems" by auto
  have "rewrite_phi a m p i num s = Inr t"
    using g s1(1) t(1) "1.prems"(5,6) by (subst rewrite_phi.simps) (simp del: bindR_Inr_iff)
  moreover have "same_but_uses s t" using s1(3) t(3) by (rule same_but_uses_trans)
  ultimately show ?case using t(2,4) s1(4) by auto
next
  case "2_1"
  then have "ops_of s = (ops_of s)(p := xs)" by (simp add: fun_eq_iff)
  then show ?case using "2_1" by (intro exI [of _ s]) (simp add: rewrite_phi.simps)
next
  case "2_2"
  then show ?case by simp
qed

lemma rewrite_phis_effect:
  assumes "ir_ok s" and "m \<in> dom (vals s)" and "distinct is"
    and "\<And>p. p \<in> set (takeWhile (is_phi_instr s) is) \<Longrightarrow> even (length (ops_of s p))"
  shows "\<exists>t. rewrite_phis a m is s = Inr t \<and> ir_ok t \<and> same_but_uses s t \<and>
    ops_of t = (\<lambda>u. if u \<in> set (takeWhile (is_phi_instr s) is) then rename_preds (swap_block a m) (ops_of s u) else ops_of s u)"
  using assms
proof (induction "is" arbitrary: s)
  case (Cons i "is")
  show ?case
  proof (cases "is_phi_instr s i")
    case True
    then obtain r where r: "vals s i = Some r" by (auto simp: is_phi_instr_iff kind_of_def)
    have ops: "ops_of s i = vops r" using r by (simp add: ops_of_def)
    have ev: "even (length (vops r))" using Cons.prems(4) [of i] True ops by simp
    obtain s1 where s1: "rewrite_phi a m i 1 (length (vops r)) s = Inr s1" "ir_ok s1" "same_but_uses s s1"
      "ops_of s1 = (ops_of s)(i := rename_preds (swap_block a m) (vops r))"
      using rewrite_phi_effect [OF Cons.prems(1,2), of i "[]" "vops r" 1] ops ev by auto
    have ph: "is_phi_instr s1 = is_phi_instr s"
      using same_but_uses_obs(1) [OF s1(3)] by (simp add: is_phi_instr_def fun_eq_iff)
    have "m \<in> dom (vals s1)" using Cons.prems(2) same_but_uses_dom [OF s1(3)] by simp
    moreover have "even (length (ops_of s1 p))" if "p \<in> set (takeWhile (is_phi_instr s1) is)" for p
      using that Cons.prems(3,4) True by (auto simp: ph s1(4) dest: set_takeWhileD)
    ultimately obtain t where t: "rewrite_phis a m is s1 = Inr t" "ir_ok t" "same_but_uses s1 t"
      "ops_of t = (\<lambda>u. if u \<in> set (takeWhile (is_phi_instr s1) is) then rename_preds (swap_block a m) (ops_of s1 u) else ops_of s1 u)"
      using Cons.IH [OF s1(2)] Cons.prems(3) by auto
    have "i \<notin> set (takeWhile (is_phi_instr s) is)" using Cons.prems(3) by (auto dest: set_takeWhileD)
    then have "ops_of t = (\<lambda>u. if u \<in> set (takeWhile (is_phi_instr s) (i # is)) then rename_preds (swap_block a m) (ops_of s u) else ops_of s u)"
      using True ops unfolding t(4) ph s1(4) by (auto simp: fun_eq_iff)
    moreover have "rewrite_phis a m (i # is) s = Inr t" using True r ev s1(1) t(1) by (simp del: bindR_Inr_iff)
    moreover have "same_but_uses s t" using s1(3) t(3) by (rule same_but_uses_trans)
    ultimately show ?thesis using t(2) by blast
  qed (use Cons.prems in auto)
qed auto

section \<open>The function after the pass\<close>

text \<open>The edges \<open>E\<close> have been split, the edge \<open>e\<close> at the new block \<open>mid e\<close>: the target of an
  edge out of \<open>a\<close>, and the source of an edge into \<open>c\<close>.\<close>

definition target_of :: "(vid \<times> vid) set \<Rightarrow> (vid \<times> vid \<Rightarrow> vid) \<Rightarrow> vid \<Rightarrow> vid \<Rightarrow> vid" where
  "target_of E mid a c = (if (a, c) \<in> E then mid (a, c) else c)"

definition source_of :: "(vid \<times> vid) set \<Rightarrow> (vid \<times> vid \<Rightarrow> vid) \<Rightarrow> vid \<Rightarrow> vid \<Rightarrow> vid" where
  "source_of E mid c a = (if (a, c) \<in> E then mid (a, c) else a)"

definition is_branch :: "'z ir_scheme \<Rightarrow> vid \<Rightarrow> bool" where
  "is_branch s i \<longleftrightarrow> (\<exists>p. kind_of s i = Some (K_instr O_br p))"

definition split_of :: "'z ir_scheme \<Rightarrow> vid \<Rightarrow> (vid \<times> vid) list \<Rightarrow> (vid \<times> vid \<Rightarrow> vid) \<Rightarrow> 'z ir_scheme \<Rightarrow> bool" where
  "split_of s f E mid x \<longleftrightarrow>
     blocks x f = blocks s f @ map mid E \<and> distinct (blocks x f) \<and>
     (\<forall>v. kind_of s v \<noteq> None \<longrightarrow> kind_of x v = kind_of s v) \<and>
     (\<forall>a\<in>set (blocks s f). instrs x a = instrs s a \<and>
        (\<forall>ts. branch_targets s a = Inr ts \<longrightarrow> branch_targets x a = Inr (map (target_of (set E) mid a) ts)) \<and>
        mset (succs x a) = image_mset (target_of (set E) mid a) (mset (succs s a)) \<and>
        mset (preds x a) = image_mset (source_of (set E) mid a) (mset (preds s a)) \<and>
        (\<forall>p\<in>set (heads s a). ops_of x p = rename_preds (source_of (set E) mid a) (ops_of s p))) \<and>
     (\<forall>i. kind_of s i \<noteq> None \<longrightarrow> \<not> is_branch s i \<longrightarrow> (\<forall>a\<in>set (blocks s f). i \<notin> set (heads s a)) \<longrightarrow>
        ops_of x i = ops_of s i) \<and>
     (\<forall>(a, c)\<in>set E. preds x (mid (a, c)) = [a] \<and> succs x (mid (a, c)) = [c] \<and>
        branch_targets x (mid (a, c)) = Inr [c] \<and> heads x (mid (a, c)) = [])"

text \<open>What the pass starts from.\<close>

definition split_input :: "'z ir_scheme \<Rightarrow> vid \<Rightarrow> bool" where
  "split_input s f \<longleftrightarrow> ir_ok s \<and> f \<in> dom (funcs s) \<and>
     (\<forall>a\<in>set (blocks s f). set (preds s a) \<subseteq> set (blocks s f) \<and> set (succs s a) \<subseteq> set (blocks s f) \<and>
        (\<exists>ts. branch_targets s a = Inr ts \<and> mset ts = mset (succs s a)) \<and>
        (\<forall>p\<in>set (heads s a). phi_matches s (preds s a) p))"

text \<open>\<open>branch_targets\<close> over the observations of the store.\<close>

definition listed_targets :: "opid \<Rightarrow> vid option list \<Rightarrow> vid list res" where
  "listed_targets op ops =
     (if op \<noteq> O_br then Inr []
      else
        let targets = (if length ops = 3 then [ops ! 1, ops ! 2] else take 1 ops) in
        bindR (guardR (targets \<noteq> []) Out_of_range) (\<lambda>_.
        bindR (guardR (None \<notin> set targets) Null_deref) (\<lambda>_.
        Inr (map the targets))))"

lemma branch_targets_ops:
  "branch_targets s b = bindR (get_terminator s b) (\<lambda>i.
     case kind_of s i of Some (K_instr op p) \<Rightarrow> listed_targets op (ops_of s i) | _ \<Rightarrow> Inl Dangling)"
proof (cases "get_terminator s b")
  case (Inr i)
  show ?thesis
  proof (cases "vals s i")
    case (Some r)
    then show ?thesis using Inr
      by (cases "vkind r") (simp_all add: branch_targets_def instr_op_kind kind_of_def ops_of_def listed_targets_def
          del: bindR_Inr_iff instr_op_Inr)
  qed (use Inr in \<open>simp add: branch_targets_def instr_op_kind kind_of_def del: instr_op_Inr\<close>)
qed (simp add: branch_targets_def)

lemma get_terminator_last: "get_terminator s a = Inr i \<Longrightarrow> instrs s a \<noteq> [] \<and> i = last (instrs s a)"
  by (auto simp: get_terminator_def is_terminated_def instrs_def split: if_splits)

lemma branch_targets_cong:
  assumes "b \<in> dom (bbs t) \<longleftrightarrow> b \<in> dom (bbs s)" and "instrs t b = instrs s b"
    and k: "\<And>i. i \<in> set (instrs s b) \<Longrightarrow> kind_of t i = kind_of s i"
    and o: "\<And>i. i \<in> set (instrs s b) \<Longrightarrow> is_branch s i \<Longrightarrow> ops_of t i = ops_of s i"
  shows "branch_targets t b = branch_targets s b"
proof (cases "get_terminator s b")
  case (Inl e)
  then show ?thesis using get_terminator_cong [of b t s] assms by (simp add: branch_targets_ops)
next
  case (Inr i)
  then have i: "i \<in> set (instrs s b)" using get_terminator_last [OF Inr] by auto
  have t: "get_terminator t b = Inr i" using get_terminator_cong [of b t s] assms Inr by simp
  show ?thesis
  proof (cases "is_branch s i")
    case True
    show ?thesis unfolding branch_targets_ops t Inr bindR_simps k [OF i] o [OF i True] ..
  next
    case False
    then have "(case kind_of s i of Some (K_instr op p) \<Rightarrow> listed_targets op u | _ \<Rightarrow> Inl Dangling)
      = (case kind_of s i of Some (K_instr op p) \<Rightarrow> listed_targets op v | _ \<Rightarrow> Inl Dangling)" for u v
      by (auto simp: is_branch_def listed_targets_def split: option.split vkind.split)
    then show ?thesis unfolding branch_targets_ops t Inr bindR_simps k [OF i] .
  qed
qed

lemma branch_targets_two:
  assumes "branch_targets s a = Inr ts" and "1 < length ts"
  shows "\<exists>i q x t1 t2. get_terminator s a = Inr i \<and> kind_of s i = Some (K_instr O_br q) \<and>
    ops_of s i = [x, Some t1, Some t2] \<and> ts = [t1, t2]"
proof -
  obtain i where i1: "get_terminator s a = Inr i"
    and c: "(case kind_of s i of Some (K_instr op p) \<Rightarrow> listed_targets op (ops_of s i) | _ \<Rightarrow> Inl Dangling) = Inr ts"
    using assms(1) unfolding branch_targets_ops bindR_Inr_iff by blast
  obtain k where k: "kind_of s i = Some k" using c by (cases "kind_of s i") simp_all
  obtain op q where i: "get_terminator s a = Inr i" "kind_of s i = Some (K_instr op q)"
    and l: "listed_targets op (ops_of s i) = Inr ts"
    using c i1 k by (cases k) simp_all
  have op: "op = O_br" using l assms(2) by (cases "op = O_br") (auto simp: listed_targets_def)
  have "length (ops_of s i) = 3"
  proof (rule ccontr)
    assume "length (ops_of s i) \<noteq> 3"
    then have "ts = map the (take 1 (ops_of s i))" using l op by (simp add: listed_targets_def Let_def)
    then show False using assms(2) by simp
  qed
  note br = op this
  obtain x t1 t2 where v: "ops_of s i = [x, t1, t2]" using br(2) by (auto simp: numeral_3_eq_3 length_Suc_conv)
  have ts: "None \<noteq> t1 \<and> None \<noteq> t2 \<and> [the t1, the t2] = ts"
    using l unfolding v br(1) by (simp add: listed_targets_def)
  then obtain c1 c2 where "t1 = Some c1" "t2 = Some c2" by (cases t1; cases t2) simp_all
  then have "kind_of s i = Some (K_instr O_br q)" "ops_of s i = [x, Some c1, Some c2]" "ts = [c1, c2]"
    using i(2) br(1) v ts by simp_all
  with i(1) show ?thesis by blast
qed

lemma image_mset_redirect:
  assumes "count M a = 1" and "g a = a" and "\<And>b. b \<in># M \<Longrightarrow> b \<noteq> a \<Longrightarrow> g b \<noteq> a"
    and h: "\<And>b. h b = (if b = a then m else g b)"
  shows "filter_mset (\<lambda>b. b \<noteq> a) (image_mset g M) + {#m#} = image_mset h M"
proof -
  have "a \<in># M" using assms(1) by (metis count_eq_zero_iff zero_neq_one)
  then obtain N where M: "M = add_mset a N" by (meson mset_add)
  have "a \<notin># N" using assms(1) by (simp add: M count_eq_zero_iff)
  then have "image_mset h N = image_mset g N" using h by (intro image_mset_cong) auto
  moreover have "filter_mset (\<lambda>b. b \<noteq> a) (image_mset g N) = image_mset g N"
  proof -
    have "g b \<noteq> a" if "b \<in># N" for b
      using assms(3) [of b] that \<open>a \<notin># N\<close> by (cases "b = a") (simp_all add: M)
    then have "\<forall>b\<in>#image_mset g N. b \<noteq> a" by auto
    then show ?thesis by (simp add: filter_mset_eq_conv)
  qed
  ultimately show ?thesis using assms(2) h by (simp add: M)
qed

lemma mset_removeAll_filter: "mset (removeAll a xs) = filter_mset (\<lambda>b. b \<noteq> a) (mset xs)"
  by (induction xs) auto

lemma heads_kinds:
  assumes "instrs t b = instrs s b" and "\<And>i. i \<in> set (instrs s b) \<Longrightarrow> kind_of t i = kind_of s i"
  shows "heads t b = heads s b"
  using assms by (auto simp: heads_def is_phi_instr_def intro!: takeWhile_cong)

lemma heads_phi: "p \<in> set (heads s b) \<Longrightarrow> is_phi_instr s p \<and> p \<in> set (instrs s b)"
  by (auto simp: heads_def dest: set_takeWhileD)

lemma phi_not_branch: "is_phi_instr s p \<Longrightarrow> \<not> is_branch s p"
  by (auto simp: is_phi_instr_iff is_branch_def)

text \<open>A critical edge leaves a conditional branch with two different targets.\<close>

lemma critical_edge_branch:
  assumes inp: "split_input s f" and c: "c \<in> set (blocks s f)" and crit: "critical s a c"
  shows "a \<in> set (blocks s f) \<and> count_list (succs s a) c = 1 \<and>
    (\<exists>t1 t2. branch_targets s a = Inr [t1, t2] \<and> t1 \<noteq> t2 \<and> c \<in> {t1, t2} \<and>
       t1 \<in> set (blocks s f) \<and> t2 \<in> set (blocks s f) \<and> mset (succs s a) = {#t1, t2#})"
proof -
  have a: "a \<in> set (blocks s f)" using inp c crit by (auto simp: split_input_def critical_def)
  obtain ts where ts: "branch_targets s a = Inr ts" "mset ts = mset (succs s a)"
    using inp a by (auto simp: split_input_def)
  have st: "set ts = set (succs s a)" using mset_eq_setD [OF ts(2)] .
  have two: "1 < card (set ts)" using crit by (simp add: critical_def st)
  have "1 < length ts" using two card_length [of ts] by linarith
  then obtain i q x t1 t2 where t: "ts = [t1, t2]" using branch_targets_two [OF ts(1)] by blast
  have ne: "t1 \<noteq> t2" using two t by auto
  have "count_list (preds s c) a = count_list (succs s a) c"
    using inp by (simp add: split_input_def ir_ok_def cfg_ok_def)
  moreover have "count_list (preds s c) a \<noteq> 0" using crit by (simp add: critical_def count_list_0_iff)
  ultimately have "c \<in> set (succs s a)" by (metis count_list_0_iff)
  then have ct: "c \<in> {t1, t2}" using st t by auto
  moreover have "count_list (succs s a) c = count (mset ts) c" by (simp add: ts(2) count_list_mset)
  then have "count_list (succs s a) c = 1" using ct ne t by auto
  moreover have "{t1, t2} \<subseteq> set (blocks s f)" using inp a st t by (auto simp: split_input_def)
  ultimately show ?thesis using a ts t ne by auto
qed

lemma split_of_mids: "split_of s f E mid x \<Longrightarrow> e \<in> set E \<Longrightarrow> mid e \<notin> set (blocks s f)"
proof -
  assume sp: "split_of s f E mid x" and e: "e \<in> set E"
  have "distinct (blocks s f @ map mid E)" using sp unfolding split_of_def by metis
  then show ?thesis using e by auto
qed

lemma split_of_branch:
  assumes inp: "split_input s f" and sp: "split_of s f E mid x" and ok: "ir_ok x"
    and c: "c \<in> set (blocks s f)" and crit: "critical s a c" and new: "(a, c) \<notin> set E"
  shows "\<exists>i q u t1 t2. branch_targets s a = Inr [t1, t2] \<and> t1 \<noteq> t2 \<and> c \<in> {t1, t2} \<and>
    get_terminator x a = Inr i \<and> kind_of x i = Some (K_instr O_br q) \<and>
    ops_of x i = [u, Some (target_of (set E) mid a t1), Some (target_of (set E) mid a t2)] \<and>
    target_of (set E) mid a c = c \<and> (\<forall>t\<in>{t1, t2}. t \<noteq> c \<longrightarrow> target_of (set E) mid a t \<noteq> c)"
proof -
  let ?V = "set (blocks s f)" and ?g = "target_of (set E) mid a"
  obtain t1 t2 where t: "branch_targets s a = Inr [t1, t2]" "t1 \<noteq> t2" "c \<in> {t1, t2}" and a: "a \<in> ?V"
    using critical_edge_branch [OF inp c crit] by blast
  have "branch_targets x a = Inr (map ?g [t1, t2])" using sp a t(1) by (auto simp: split_of_def)
  then have "branch_targets x a = Inr [?g t1, ?g t2]" by simp
  from branch_targets_two [OF this] obtain i q u where i: "get_terminator x a = Inr i"
    "kind_of x i = Some (K_instr O_br q)" "ops_of x i = [u, Some (?g t1), Some (?g t2)]" by auto
  have "mid e \<noteq> c" if "e \<in> set E" for e
    using split_of_mids [OF sp that] c by blast
  then have "?g t \<noteq> c" if "t \<noteq> c" for t using that by (auto simp: target_of_def)
  moreover have "?g c = c" using new by (simp add: target_of_def)
  ultimately show ?thesis using t i by blast
qed

text \<open>The store after \<open>splitEdge\<close> and \<open>rewritePhiPredecessors\<close> on one critical edge.\<close>

definition edge_split :: "'z ir_scheme \<Rightarrow> vid \<Rightarrow> vid \<Rightarrow> vid \<Rightarrow> vid \<Rightarrow> vid \<Rightarrow> vid option list \<Rightarrow> vid \<Rightarrow> 'z ir_scheme \<Rightarrow> bool" where
  "edge_split x f a c m i ops br y \<longleftrightarrow> ir_ok y \<and> m \<notin> dom (vals x) \<and> br \<notin> dom (vals x) \<and> m \<noteq> br \<and>
     kind_of y = (kind_of x)(m \<mapsto> K_block, br \<mapsto> K_instr O_br (Some m)) \<and>
     ops_of y = (\<lambda>u. if u \<in> set (heads x c) then rename_preds (swap_block a m) (ops_of x u)
       else ((ops_of x)(i := ops, br := [Some c])) u) \<and>
     preds y = (preds x)(c := removeAll a (preds x c) @ [m], m := [a]) \<and>
     succs y = (succs x)(a := removeAll c (succs x a) @ [m], m := [c]) \<and>
     instrs y = (instrs x)(m := [br]) \<and> blocks y = (blocks x)(f := blocks x f @ [m]) \<and> dom (funcs y) = dom (funcs x) \<and>
     dom (bbs y) = insert m (dom (bbs x))"

lemma edge_split_exists:
  assumes ok: "ir_ok x" and f: "f \<in> dom (funcs x)" and par: "parents x a = Some f" "parents x c = Some f"
    and i: "get_terminator x a = Inr i" "kind_of x i = Some (K_instr O_br q)"
    and ops: "ops_of x i = [u, Some t1, Some t2]" and c: "t1 = c \<or> t2 = c"
    and ev: "\<And>p. p \<in> set (heads x c) \<Longrightarrow> even (length (ops_of x p))"
  shows "\<exists>m y br x1. splitEdge a c n x = Inr (m, x1) \<and> rewritePhiPredecessors c a m x1 = Inr y \<and>
    edge_split x f a c m i [u, Some (if t1 = c then m else t1), Some (if t1 = c then t2 else m)] br y"
proof -
  obtain x1 m br where s: "splitEdge a c n x = Inr (m, x1)" "ir_ok x1" "m \<notin> dom (vals x)" "br \<notin> dom (vals x)" "m \<noteq> br"
    "kind_of x1 = (kind_of x)(m \<mapsto> K_block, br \<mapsto> K_instr O_br (Some m))"
    "ops_of x1 = (ops_of x)(i := [u, Some (if t1 = c then m else t1), Some (if t1 = c then t2 else m)], br := [Some c])"
    "preds x1 = (preds x)(c := removeAll a (preds x c) @ [m], m := [a])"
    "succs x1 = (succs x)(a := removeAll c (succs x a) @ [m], m := [c])"
    "instrs x1 = (instrs x)(m := [br])" "blocks x1 = (blocks x)(f := blocks x f @ [m])"
    "parents x1 = (parents x)(m \<mapsto> f)" "dom (funcs x1) = dom (funcs x)"
    using splitEdge_effect [OF ok f par i ops c, of n] by (elim exE conjE) (rule that)
  have kd: "j \<in> dom (vals x) \<Longrightarrow> kind_of x1 j = kind_of x j" for j using s(3,4) by (auto simp: s(6))
  have "c \<in> dom (vals x)" using par(2) parents_dom [of x] ok ids_ok_dom(1) [of x] unfolding ir_ok_def by blast
  then have "c \<noteq> m" using s(3) by blast
  then have hc: "heads x1 c = heads x c"
    using kd ir_ok_kind_dom [OF _ ok] s(10) by (intro heads_kinds) auto
  have no: "p \<noteq> i \<and> p \<noteq> br" if "p \<in> set (heads x c)" for p
  proof -
    have p: "is_phi_instr x p" "p \<in> set (instrs x c)" using heads_phi [OF that] by blast+
    have "p \<noteq> i" using p(1) i(2) by (auto simp: is_phi_instr_iff)
    moreover have "p \<noteq> br" using ir_ok_kind_dom [OF p(2) ok] s(4) by auto
    ultimately show ?thesis by blast
  qed
  then have po: "ops_of x1 p = ops_of x p" if "p \<in> set (heads x c)" for p using that by (simp add: s(7))
  have md: "m \<in> dom (vals x1)" using s(5,6) kind_of_dom [of x1 m K_block] by simp
  have dist: "distinct (instrs x1 c)" using ir_ok_distinct_instrs [OF s(2)] .
  obtain y where y: "rewrite_phis a m (instrs x1 c) x1 = Inr y" "ir_ok y" "same_but_uses x1 y"
    "ops_of y = (\<lambda>u. if u \<in> set (heads x c) then rename_preds (swap_block a m) (ops_of x1 u) else ops_of x1 u)"
    using rewrite_phis_effect [OF s(2) md dist, of a] ev po hc unfolding heads_def by fastforce
  note o = same_but_uses_obs [OF y(3)] and l = same_layout_obs [OF same_but_uses_layout [OF y(3)]]
  have "ops_of y = (\<lambda>v. if v \<in> set (heads x c) then rename_preds (swap_block a m) (ops_of x v)
       else ((ops_of x)(i := [u, Some (if t1 = c then m else t1), Some (if t1 = c then t2 else m)], br := [Some c])) v)"
  proof
    fix v
    show "ops_of y v = (if v \<in> set (heads x c) then rename_preds (swap_block a m) (ops_of x v)
       else ((ops_of x)(i := [u, Some (if t1 = c then m else t1), Some (if t1 = c then t2 else m)], br := [Some c])) v)"
    proof (cases "v \<in> set (heads x c)")
      case True
      show ?thesis unfolding y(4) using True po [OF True] by simp
    next
      case False
      show ?thesis unfolding y(4) s(7) using False by simp
    qed
  qed
  moreover have "dom (bbs y) = insert m (dom (bbs x))"
    using parents_dom [of x1] parents_dom [of x] by (simp add: o(2) s(12))
  ultimately have "edge_split x f a c m i [u, Some (if t1 = c then m else t1), Some (if t1 = c then t2 else m)] br y"
    unfolding edge_split_def o l s(6,8-11) o(3) using y(2) s(3-5,13) by simp
  then show ?thesis using s(1) y(1) unfolding rewritePhiPredecessors_def by blast
qed

definition next_edge :: "'z ir_scheme \<Rightarrow> vid \<Rightarrow> (vid \<times> vid) list \<Rightarrow> (vid \<times> vid \<Rightarrow> vid) \<Rightarrow> 'z ir_scheme \<Rightarrow> vid \<Rightarrow> vid \<Rightarrow> bool" where
  "next_edge s f E mid x a c \<longleftrightarrow> split_input s f \<and> split_of s f E mid x \<and> ir_ok x \<and>
     a \<in> set (blocks s f) \<and> c \<in> set (blocks s f) \<and> critical s a c \<and> (a, c) \<notin> set E"

lemma next_edge_obs:
  assumes n: "next_edge s f E mid x a c" and b: "b \<in> set (blocks s f)"
  shows "b \<in> dom (vals x)" "b \<in> dom (bbs x)" "instrs x b = instrs s b" "parents x b = Some f"
    "mset (succs x b) = image_mset (target_of (set E) mid b) (mset (succs s b))"
    "mset (preds x b) = image_mset (source_of (set E) mid b) (mset (preds s b))"
    "\<And>e. e \<in> set E \<Longrightarrow> mid e \<noteq> b" "heads x b = heads s b"
    "\<And>p. p \<in> set (heads s b) \<Longrightarrow> ops_of x p = rename_preds (source_of (set E) mid b) (ops_of s p)"
    "\<And>ts. branch_targets s b = Inr ts \<Longrightarrow> branch_targets x b = Inr (map (target_of (set E) mid b) ts)"
proof -
  have ok: "ir_ok x" and oks: "ir_ok s" and sp: "split_of s f E mid x"
    using n by (simp_all add: next_edge_def split_input_def)
  have "b \<in> set (blocks x f)" using sp b unfolding split_of_def by (metis UnCI set_append)
  then show p: "parents x b = Some f" using ok by (auto simp: ir_ok_def blocks_ok_def parents_def)
  then show d: "b \<in> dom (bbs x)" using parents_dom [of x] by blast
  then show "b \<in> dom (vals x)" using ok ids_ok_dom(1) [of x] unfolding ir_ok_def by blast
  show "\<And>e. e \<in> set E \<Longrightarrow> mid e \<noteq> b" using split_of_mids [OF sp] b by blast
  show i: "instrs x b = instrs s b"
    and "mset (succs x b) = image_mset (target_of (set E) mid b) (mset (succs s b))"
    and "mset (preds x b) = image_mset (source_of (set E) mid b) (mset (preds s b))"
    and "\<And>p. p \<in> set (heads s b) \<Longrightarrow> ops_of x p = rename_preds (source_of (set E) mid b) (ops_of s p)"
    and "\<And>ts. branch_targets s b = Inr ts \<Longrightarrow> branch_targets x b = Inr (map (target_of (set E) mid b) ts)"
    using sp b unfolding split_of_def by metis+
  have "kind_of x j = kind_of s j" if "j \<in> set (instrs s b)" for j
    using ir_ok_instr_kind [OF oks that] sp unfolding split_of_def by (metis option.distinct(1))
  then show "heads x b = heads s b" using i by (rule heads_kinds [rotated])
qed

lemma split_step_edges:
  assumes n: "next_edge s f E mid x a c" and es: "edge_split x f a c m i ops br y" and b: "b \<in> set (blocks s f)"
  defines "E' \<equiv> insert (a, c) (set E)" and "mid' \<equiv> mid((a, c) := m)"
  shows "mset (succs y b) = image_mset (target_of E' mid' b) (mset (succs s b))"
    and "mset (preds y b) = image_mset (source_of E' mid' b) (mset (preds s b))"
proof -
  have new: "(a, c) \<notin> set E" and inp: "split_input s f" and ac: "a \<in> set (blocks s f)" "c \<in> set (blocks s f)"
    and crit: "critical s a c"
    using n by (simp_all add: next_edge_def)
  have m: "m \<noteq> b" using next_edge_obs(1) [OF n b] es by (auto simp: edge_split_def)
  have one: "count_list (succs s a) c = 1" "count_list (preds s c) a = 1"
    using critical_edge_branch [OF inp ac(2) crit] inp by (simp_all add: split_input_def ir_ok_def cfg_ok_def)
  have T: "target_of E' mid' b d = (if (b, d) = (a, c) then m else target_of (set E) mid b d)" for b d
    using new by (auto simp: target_of_def E'_def mid'_def)
  have S: "source_of E' mid' d b = (if (b, d) = (a, c) then m else source_of (set E) mid d b)" for b d
    using new by (auto simp: source_of_def E'_def mid'_def)
  show "mset (succs y b) = image_mset (target_of E' mid' b) (mset (succs s b))"
  proof (cases "b = a")
    case True
    have "mset (succs y a) = filter_mset (\<lambda>d. d \<noteq> c) (mset (succs x a)) + {#m#}"
      using es m True by (simp add: edge_split_def mset_removeAll_filter)
    also have "\<dots> = image_mset (target_of E' mid' a) (mset (succs s a))"
      unfolding next_edge_obs(5) [OF n ac(1)]
      by (rule image_mset_redirect)
        (use one(1) new next_edge_obs(7) [OF n ac(2)] T in \<open>auto simp: count_list_mset target_of_def\<close>)
    finally show ?thesis using True by simp
  next
    case False
    then have "target_of E' mid' b = target_of (set E) mid b" using T by (simp add: fun_eq_iff)
    then show ?thesis using next_edge_obs(5) [OF n b] es m False by (simp add: edge_split_def)
  qed
  show "mset (preds y b) = image_mset (source_of E' mid' b) (mset (preds s b))"
  proof (cases "b = c")
    case True
    have "mset (preds y c) = filter_mset (\<lambda>d. d \<noteq> a) (mset (preds x c)) + {#m#}"
      using es m True by (simp add: edge_split_def mset_removeAll_filter)
    also have "\<dots> = image_mset (source_of E' mid' c) (mset (preds s c))"
      unfolding next_edge_obs(6) [OF n ac(2)]
      by (rule image_mset_redirect)
        (use one(2) new next_edge_obs(7) [OF n ac(1)] S in \<open>auto simp: count_list_mset source_of_def\<close>)
    finally show ?thesis using True by simp
  next
    case False
    then have "source_of E' mid' b = source_of (set E) mid b" using S by (simp add: fun_eq_iff)
    then show ?thesis using next_edge_obs(6) [OF n b] es m False by (simp add: edge_split_def)
  qed
qed

lemma next_edge_kind:
  assumes n: "next_edge s f E mid x a c" and k: "kind_of s j \<noteq> None"
  shows "kind_of x j = kind_of s j" "j \<in> dom (vals x)"
proof -
  show "kind_of x j = kind_of s j" using n k by (simp add: next_edge_def split_of_def)
  then show "j \<in> dom (vals x)" using k kind_of_dom [of x j] by (metis option.exhaust)
qed

lemma split_step_ops:
  assumes n: "next_edge s f E mid x a c" and es: "edge_split x f a c m i ops br y"
    and i: "kind_of x i = Some (K_instr O_br q)"
  shows "b \<in> set (blocks s f) \<Longrightarrow> p \<in> set (heads s b) \<Longrightarrow>
      ops_of y p = rename_preds (source_of (insert (a, c) (set E)) (mid((a, c) := m)) b) (ops_of s p)"
    and "kind_of s j \<noteq> None \<Longrightarrow> \<not> is_branch s j \<Longrightarrow> (\<And>b. b \<in> set (blocks s f) \<Longrightarrow> j \<notin> set (heads s b)) \<Longrightarrow>
      ops_of y j = ops_of s j"
proof -
  have new: "(a, c) \<notin> set E" and inp: "split_input s f" and ac: "a \<in> set (blocks s f)" "c \<in> set (blocks s f)"
    and sp: "split_of s f E mid x" and oks: "ir_ok s"
    using n by (simp_all add: next_edge_def split_input_def)
  have br: "br \<notin> dom (vals x)" using es by (simp add: edge_split_def)
  have hc: "heads x c = heads s c" using next_edge_obs(8) [OF n ac(2)] .
  show "ops_of y p = rename_preds (source_of (insert (a, c) (set E)) (mid((a, c) := m)) b) (ops_of s p)"
    if b: "b \<in> set (blocks s f)" and p: "p \<in> set (heads s b)"
  proof -
    have ph: "is_phi_instr s p" "p \<in> set (instrs s b)" using heads_phi [OF p] by blast+
    have k: "kind_of s p \<noteq> None" using ph(1) by (auto simp: is_phi_instr_iff)
    have "p \<noteq> br" using next_edge_kind(2) [OF n k] br by blast
    moreover have "p \<noteq> i" using next_edge_kind(1) [OF n k] ph(1) i by (auto simp: is_phi_instr_iff)
    ultimately have o: "ops_of y p = (if p \<in> set (heads s c) then rename_preds (swap_block a m) (ops_of x p) else ops_of x p)"
      using es hc by (simp add: edge_split_def)
    show ?thesis
    proof (cases "b = c")
      case True
      have "None \<notin> set (ops_of s p)" using inp b p by (auto simp: split_input_def phi_matches_def pairs_wf_def)
      then have "rename_preds (swap_block a m) (rename_preds (source_of (set E) mid c) (ops_of s p)) =
          rename_preds (source_of (insert (a, c) (set E)) (mid((a, c) := m)) c) (ops_of s p)"
        using new next_edge_obs(7) [OF n ac(1)] by (intro rename_preds_comp) (auto simp: source_of_def)
      then show ?thesis using o p True next_edge_obs(9) [OF n b p] by simp
    next
      case False
      then have "p \<notin> set (heads s c)" using ph(2) heads_phi [of p s c] ir_ok_one_block [OF oks, of p b c] by blast
      moreover have "source_of (insert (a, c) (set E)) (mid((a, c) := m)) b = source_of (set E) mid b"
        using False by (auto simp: source_of_def fun_eq_iff)
      ultimately show ?thesis using o next_edge_obs(9) [OF n b p] by simp
    qed
  qed
  show "ops_of y j = ops_of s j"
    if j: "kind_of s j \<noteq> None" "\<not> is_branch s j" "\<And>b. b \<in> set (blocks s f) \<Longrightarrow> j \<notin> set (heads s b)"
  proof -
    have "j \<noteq> br" using next_edge_kind(2) [OF n j(1)] br by blast
    moreover have "j \<noteq> i" using next_edge_kind(1) [OF n j(1)] j(2) i unfolding is_branch_def by metis
    moreover have "j \<notin> set (heads x c)" using j(3) [OF ac(2)] hc by simp
    ultimately have "ops_of y j = ops_of x j" using es by (simp add: edge_split_def)
    moreover have "ops_of x j = ops_of s j" using sp j unfolding split_of_def by blast
    ultimately show ?thesis by simp
  qed
qed

text \<open>The terminators: that of \<open>a\<close> has been redirected, the others are unchanged.\<close>

lemma split_step_other:
  assumes n: "next_edge s f E mid x a c" and es: "edge_split x f a c m i ops br y"
    and i: "get_terminator x a = Inr i" and b: "b \<in> dom (bbs x)" "b \<noteq> a"
  shows "branch_targets y b = branch_targets x b" "heads y b = heads x b" "instrs y b = instrs x b"
proof -
  have ok: "ir_ok x" and new: "m \<notin> dom (vals x)" "br \<notin> dom (vals x)"
    using n es by (simp_all add: next_edge_def edge_split_def)
  have "b \<in> dom (vals x)" using b ok ids_ok_dom(1) [of x] unfolding ir_ok_def by blast
  then have m: "b \<noteq> m" using new by blast
  then show ins: "instrs y b = instrs x b" using es by (simp add: edge_split_def)
  have k: "kind_of y j = kind_of x j" if "j \<in> set (instrs x b)" for j
    using ir_ok_kind_dom [OF that ok] es by (auto simp: edge_split_def)
  then show "heads y b = heads x b" by (rule heads_kinds [OF ins])
  have "i \<in> set (instrs x a)" using get_terminator_last [OF i] by auto
  then have "ops_of y j = ops_of x j" if "j \<in> set (instrs x b)" "is_branch x j" for j
    using that es ir_ok_kind_dom [OF that(1) ok] ir_ok_one_block [OF ok, of j a b] b(2) phi_not_branch heads_phi [of j x c]
    by (auto simp: edge_split_def)
  then show "branch_targets y b = branch_targets x b"
    using b(1) es k ins by (intro branch_targets_cong) (auto simp: edge_split_def)
qed

lemma split_step_targets:
  assumes n: "next_edge s f E mid x a c"
    and t: "branch_targets s a = Inr [t1, t2]" "t1 \<noteq> t2" "c \<in> {t1, t2}"
    and i: "get_terminator x a = Inr i" "kind_of x i = Some (K_instr O_br q)"
    and g: "target_of (set E) mid a c = c" "\<And>t. t \<in> {t1, t2} \<Longrightarrow> t \<noteq> c \<Longrightarrow> target_of (set E) mid a t \<noteq> c"
    and es: "edge_split x f a c m i [u, Some (if target_of (set E) mid a t1 = c then m else target_of (set E) mid a t1),
        Some (if target_of (set E) mid a t1 = c then target_of (set E) mid a t2 else m)] br y"
    and b: "b \<in> set (blocks s f)" "branch_targets s b = Inr ts"
  shows "branch_targets y b = Inr (map (target_of (insert (a, c) (set E)) (mid((a, c) := m)) b) ts)"
proof (cases "b = a")
  case False
  then have "target_of (insert (a, c) (set E)) (mid((a, c) := m)) b = target_of (set E) mid b"
    by (auto simp: target_of_def fun_eq_iff)
  then show ?thesis
    using split_step_other(1) [OF n es i(1) next_edge_obs(2) [OF n b(1)] False] next_edge_obs(10) [OF n b] by simp
next
  case True
  have ok: "ir_ok x" and new: "m \<notin> dom (vals x)" "br \<notin> dom (vals x)"
    using n es by (simp_all add: next_edge_def edge_split_def)
  have m: "a \<noteq> m" using next_edge_obs(1) [OF n b(1)] True new by blast
  then have ins: "instrs y a = instrs x a" using es by (simp add: edge_split_def)
  have k: "kind_of y j = kind_of x j" if "j \<in> set (instrs x a)" for j
    using ir_ok_kind_dom [OF that ok] es by (auto simp: edge_split_def)
  have ii: "i \<in> set (instrs x a)" using get_terminator_last [OF i(1)] by auto
  have "a \<in> dom (bbs y) \<longleftrightarrow> a \<in> dom (bbs x)" using es m by (simp add: edge_split_def)
  then have "get_terminator y a = Inr i" using get_terminator_cong [of a y x] ins k i(1) by simp
  moreover have "kind_of y i = Some (K_instr O_br q)" using k [OF ii] i(2) by simp
  moreover have "i \<notin> set (heads x c)" "i \<noteq> br"
    using phi_not_branch [of x] heads_phi [of i x c] i(2) ir_ok_kind_dom [OF ii ok] new
    by (auto simp: is_branch_def)
  then have "ops_of y i = [u, Some (if target_of (set E) mid a t1 = c then m else target_of (set E) mid a t1),
      Some (if target_of (set E) mid a t1 = c then target_of (set E) mid a t2 else m)]"
    using es by (simp add: edge_split_def)
  moreover have "(target_of (set E) mid a t1 = c) = (t1 = c)" using g(1) g(2) [of t1] by auto
  ultimately have "branch_targets y a = Inr [if t1 = c then m else target_of (set E) mid a t1,
      if t1 = c then target_of (set E) mid a t2 else m]"
    by (simp add: branch_targets_ops listed_targets_def)
  moreover have "ts = [t1, t2]" using b(2) t(1) True by simp
  moreover have "target_of (insert (a, c) (set E)) (mid((a, c) := m)) a d = (if d = c then m else target_of (set E) mid a d)" for d
    by (simp add: target_of_def)
  ultimately show ?thesis using True t(2,3) by auto
qed

lemma split_step:
  assumes n: "next_edge s f E mid x a c" and f: "f \<in> dom (funcs x)"
  shows "\<exists>m x1 y. splitEdge a c k x = Inr (m, x1) \<and> rewritePhiPredecessors c a m x1 = Inr y \<and> ir_ok y \<and>
    f \<in> dom (funcs y) \<and> split_of s f (E @ [(a, c)]) (mid((a, c) := m)) y"
proof -
  have inp: "split_input s f" and sp: "split_of s f E mid x" and ok: "ir_ok x" and crit: "critical s a c"
    and ac: "a \<in> set (blocks s f)" "c \<in> set (blocks s f)" and new: "(a, c) \<notin> set E"
    using n by (simp_all add: next_edge_def)
  let ?g = "target_of (set E) mid a"
  obtain i q u t1 t2 where t: "branch_targets s a = Inr [t1, t2]" "t1 \<noteq> t2" "c \<in> {t1, t2}"
    and i: "get_terminator x a = Inr i" "kind_of x i = Some (K_instr O_br q)"
    and ops: "ops_of x i = [u, Some (?g t1), Some (?g t2)]"
    and g: "?g c = c" "\<forall>t\<in>{t1, t2}. t \<noteq> c \<longrightarrow> ?g t \<noteq> c"
    using split_of_branch [OF inp sp ok ac(2) crit new] by blast
  have ev: "even (length (ops_of x p))" if "p \<in> set (heads x c)" for p
    using that inp ac(2) next_edge_obs(8,9) [OF n ac(2)] by (auto simp: split_input_def phi_matches_def pairs_wf_def)
  have gc: "?g t1 = c \<or> ?g t2 = c" using g(1) t(3) by auto
  obtain m y br x1 where run: "splitEdge a c k x = Inr (m, x1)" "rewritePhiPredecessors c a m x1 = Inr y"
    and es: "edge_split x f a c m i [u, Some (if ?g t1 = c then m else ?g t1), Some (if ?g t1 = c then ?g t2 else m)] br y"
    using edge_split_exists [OF ok f next_edge_obs(4) [OF n ac(1)] next_edge_obs(4) [OF n ac(2)] i ops gc ev, of k]
    by blast
  let ?E = "E @ [(a, c)]" and ?mid = "mid((a, c) := m)"
  have E: "set ?E = insert (a, c) (set E)" by simp
  have oky: "ir_ok y" using es by (simp add: edge_split_def)
  have "map ?mid E = map mid E" using new by auto
  then have bl: "blocks y f = blocks s f @ map ?mid ?E"
    using es sp by (simp add: edge_split_def split_of_def)
  have M: "preds y (?mid (b, d)) = [b] \<and> succs y (?mid (b, d)) = [d] \<and>
      branch_targets y (?mid (b, d)) = Inr [d] \<and> heads y (?mid (b, d)) = []" if e: "(b, d) \<in> set ?E" for b d
  proof (cases "(b, d) = (a, c)")
    case False
    then have bd: "(b, d) \<in> set E" using e by auto
    have "blocks x f = blocks s f @ map mid E" using sp unfolding split_of_def by (elim conjE)
    then have "mid (b, d) \<in> set (blocks x f)" using bd by simp
    then have d: "mid (b, d) \<in> dom (bbs x)" using ok by (auto simp: ir_ok_def blocks_ok_def)
    have ne: "mid (b, d) \<noteq> a" "mid (b, d) \<noteq> c" using next_edge_obs(7) [OF n _ bd] ac by blast+
    have "mid (b, d) \<noteq> m" using d ok ids_ok_dom(1) [of x] es unfolding ir_ok_def edge_split_def by blast
    then show ?thesis
      using split_step_other(1,2) [OF n es i(1) d ne(1)] False ne es sp bd by (auto simp: edge_split_def split_of_def)
  next
    case True
    have ne: "m \<noteq> a" "m \<noteq> c" using next_edge_obs(1) [OF n] ac es unfolding edge_split_def by blast+
    have ins: "instrs y m = [br]" "m \<in> dom (bbs y)" and kb: "kind_of y br = Some (K_instr O_br (Some m))"
      using es by (simp_all add: edge_split_def)
    have "get_terminator y m = Inr br" using get_terminator_at [OF ins(2)] ins(1) kb by (simp add: is_terminator_op_def)
    moreover have "br \<notin> set (heads x c)" using heads_phi [of br x c] ir_ok_kind_dom [OF _ ok] es by (auto simp: edge_split_def)
    then have "ops_of y br = [Some c]" using es by (simp add: edge_split_def)
    ultimately have "branch_targets y m = Inr [c]" using kb by (simp add: branch_targets_ops listed_targets_def)
    moreover have "heads y m = []" using ins kb by (simp add: heads_def is_phi_instr_def)
    ultimately show ?thesis using True es ne by (simp add: edge_split_def)
  qed
  have "split_of s f ?E ?mid y"
    unfolding split_of_def E
  proof (intro conjI allI ballI impI)
    show "blocks y f = blocks s f @ map ?mid ?E" by (rule bl)
    show "distinct (blocks y f)" using oky by (simp add: ir_ok_def blocks_ok_def)
    show "kind_of y v = kind_of s v" if "kind_of s v \<noteq> None" for v
      using next_edge_kind [OF n that] es by (auto simp: edge_split_def)
    show "instrs y b = instrs s b" if "b \<in> set (blocks s f)" for b
      using next_edge_obs(1,3) [OF n that] es by (auto simp: edge_split_def)
    show "branch_targets y b = Inr (map (target_of (insert (a, c) (set E)) ?mid b) ts)"
      if "b \<in> set (blocks s f)" "branch_targets s b = Inr ts" for b ts
      by (rule split_step_targets [OF n t i g(1) _ es that]) (use g(2) in blast)
    show "mset (succs y b) = image_mset (target_of (insert (a, c) (set E)) ?mid b) (mset (succs s b))"
      "mset (preds y b) = image_mset (source_of (insert (a, c) (set E)) ?mid b) (mset (preds s b))"
      if "b \<in> set (blocks s f)" for b
      by (rule split_step_edges [OF n es that])+
    show "ops_of y p = rename_preds (source_of (insert (a, c) (set E)) ?mid b) (ops_of s p)"
      if "b \<in> set (blocks s f)" "p \<in> set (heads s b)" for b p
      by (rule split_step_ops(1) [OF n es i(2) that])
    show "ops_of y j = ops_of s j"
      if "kind_of s j \<noteq> None" "\<not> is_branch s j" "\<forall>b\<in>set (blocks s f). j \<notin> set (heads s b)" for j
      by (rule split_step_ops(2) [OF n es i(2) that(1,2)]) (use that(3) in blast)
    show "case e of (b, d) \<Rightarrow> preds y (?mid (b, d)) = [b] \<and> succs y (?mid (b, d)) = [d] \<and>
        branch_targets y (?mid (b, d)) = Inr [d] \<and> heads y (?mid (b, d)) = []" if "e \<in> insert (a, c) (set E)" for e
      using M that unfolding E by (cases e) blast
  qed
  moreover have "f \<in> dom (funcs y)" using es f by (simp add: edge_split_def)
  ultimately show ?thesis using run oky by blast
qed

lemma split_edges_effect:
  assumes "split_input s f" and "split_of s f E mid x" and "ir_ok x" and "f \<in> dom (funcs x)"
    and "distinct (E @ es)" and "\<And>a c. (a, c) \<in> set es \<Longrightarrow> c \<in> set (blocks s f) \<and> critical s a c"
  shows "\<exists>y mid'. split_edges k es x = Inr y \<and> ir_ok y \<and> split_of s f (E @ es) mid' y"
  using assms(2-)
proof (induction es arbitrary: E mid x k)
  case Nil
  then show ?case by auto
next
  case (Cons e es)
  obtain a c where e: "e = (a, c)" by (cases e)
  have ce: "c \<in> set (blocks s f)" "critical s a c" using Cons.prems(5) e by auto
  have n: "next_edge s f E mid x a c"
    using assms(1) Cons.prems(1,2,4) ce critical_edge_branch [OF assms(1) ce] e by (auto simp: next_edge_def)
  obtain m x1 y where y: "splitEdge a c k x = Inr (m, x1)" "rewritePhiPredecessors c a m x1 = Inr y" "ir_ok y"
    "f \<in> dom (funcs y)" "split_of s f (E @ [(a, c)]) (mid((a, c) := m)) y"
    using split_step [OF n Cons.prems(3), of k] by blast
  obtain z mid' where z: "split_edges (Suc k) es y = Inr z" "ir_ok z" "split_of s f ((E @ [(a, c)]) @ es) mid' z"
    using Cons.IH [OF y(5,3,4), of "Suc k"] Cons.prems(4,5) e by auto
  have "split_edges k (e # es) x = Inr z" using e y(1,2) z(1) by (simp del: bindR_Inr_iff)
  then show ?case using z e by auto
qed

lemma split_of_blocks: "split_of s f E mid t \<Longrightarrow> blocks t f = blocks s f @ map mid E"
  unfolding split_of_def by (elim conjE)

lemma split_of_mid:
  "split_of s f E mid t \<Longrightarrow> (a, c) \<in> set E \<Longrightarrow> preds t (mid (a, c)) = [a] \<and> succs t (mid (a, c)) = [c] \<and>
     heads t (mid (a, c)) = []"
  unfolding split_of_def by blast

lemma split_of_no_critical:
  assumes inp: "split_input s f" and sp: "split_of s f E mid t" and E: "set E = {(a, c). c \<in> set (blocks s f) \<and> critical s a c}"
    and c: "c \<in> set (blocks t f)"
  shows "\<not> critical t a c"
proof
  assume crit: "critical t a c"
  note bl = split_of_blocks [OF sp] and M = split_of_mid [OF sp]
  have cV: "c \<in> set (blocks s f)"
  proof (rule ccontr)
    assume "c \<notin> set (blocks s f)"
    then have "c \<in> mid ` set E" using c unfolding bl by auto
    then obtain e where e: "e \<in> set E" "c = mid e" by blast
    obtain b d where "e = (b, d)" by (cases e)
    then have "(b, d) \<in> set E" "c = mid (b, d)" using e by simp_all
    then have "preds t c = [b]" using M by blast
    then show False using crit by (simp add: critical_def)
  qed
  have p: "set (preds t c) = source_of (set E) mid c ` set (preds s c)"
  proof -
    have "mset (preds t c) = image_mset (source_of (set E) mid c) (mset (preds s c))"
      using sp cV unfolding split_of_def by blast
    then show ?thesis by (metis set_image_mset set_mset_mset)
  qed
  obtain b where b: "b \<in> set (preds s c)" "a = source_of (set E) mid c b" using crit p by (auto simp: critical_def)
  show False
  proof (cases "(b, c) \<in> set E")
    case True
    then have "succs t a = [c]" using M b(2) unfolding source_of_def by auto
    then show False using crit by (simp add: critical_def)
  next
    case False
    then have ab: "a = b" using b(2) by (simp add: source_of_def)
    have "card (set (preds t c)) \<le> card (set (preds s c))" unfolding p by (rule card_image_le) simp
    moreover have "card (set (succs t b)) \<le> card (set (succs s b))" if "b \<in> set (blocks s f)"
    proof -
      have "mset (succs t b) = image_mset (target_of (set E) mid b) (mset (succs s b))"
        using sp that unfolding split_of_def by blast
      then have "set (succs t b) = target_of (set E) mid b ` set (succs s b)" by (metis set_image_mset set_mset_mset)
      then show ?thesis by (simp add: card_image_le)
    qed
    moreover have "b \<in> set (blocks s f)" if "b \<in> set (preds s c)" for b
      using inp cV that by (auto simp: split_input_def)
    moreover have "\<not> critical s b c" using False E cV by blast
    ultimately show False using crit b(1) ab unfolding critical_def by fastforce
  qed
qed

lemma split_of_phis:
  assumes inp: "split_input s f" and sp: "split_of s f E mid t" and ok: "ir_ok t"
    and c: "c \<in> set (blocks t f)" and p: "p \<in> set (heads t c)"
  shows "phi_matches t (preds t c) p"
proof -
  note bl = split_of_blocks [OF sp] and M = split_of_mid [OF sp]
  have cV: "c \<in> set (blocks s f)"
  proof (rule ccontr)
    assume "c \<notin> set (blocks s f)"
    then have "c \<in> mid ` set E" using c unfolding bl by auto
    then obtain e where e: "e \<in> set E" "c = mid e" by blast
    obtain b d where "e = (b, d)" by (cases e)
    then have "(b, d) \<in> set E" "c = mid (b, d)" using e by simp_all
    then have "heads t c = []" using M by blast
    then show False using p by simp
  qed
  have oks: "ir_ok s" using inp by (simp add: split_input_def)
  have ins: "instrs t c = instrs s c" using sp cV unfolding split_of_def by blast
  have "kind_of t j = kind_of s j" if "j \<in> set (instrs s c)" for j
    using ir_ok_instr_kind [OF oks that] sp unfolding split_of_def by (metis option.distinct(1))
  then have ps: "p \<in> set (heads s c)" using heads_kinds [OF ins] p by simp
  then have ops: "ops_of t p = rename_preds (source_of (set E) mid c) (ops_of s p)"
    using sp cV unfolding split_of_def by blast
  have pm: "phi_matches s (preds s c) p" using inp cV ps by (simp add: split_input_def)
  then have wf: "even (length (ops_of s p))" "None \<notin> set (ops_of s p)" by (simp_all add: phi_matches_def pairs_wf_def)
  have "w \<in> dom (vals t)" if "Some w \<in> set (ops_of t p)" for w
    using that ir_ok_operand_dom [OF ok] unfolding operand_at_mem by blast
  then have "pairs_wf t (ops_of t p)" using wf by (simp add: pairs_wf_def ops rename_preds_None)
  moreover have "mset (preds t c) = image_mset (source_of (set E) mid c) (mset (preds s c))"
    using sp cV unfolding split_of_def by blast
  ultimately show ?thesis using pm wf by (simp add: phi_matches_def ops rename_preds_pairs)
qed

lemma split_function_effect:
  assumes inp: "split_input s f"
  shows "\<exists>t E mid. split_function f s = Inr t \<and> ir_ok t \<and> distinct E \<and>
    set E = {(a, c). c \<in> set (blocks s f) \<and> critical s a c} \<and> split_of s f E mid t"
proof -
  have ok: "ir_ok s" and f: "f \<in> dom (funcs s)" using inp by (simp_all add: split_input_def)
  have B: "set (blocks s f) \<subseteq> dom (bbs s)" using ok by (auto simp: ir_ok_def blocks_ok_def)
  moreover have "set (preds s b) \<subseteq> dom (bbs s)" if "b \<in> set (blocks s f)" for b
    using that inp B unfolding split_input_def by blast
  moreover have "distinct (blocks s f)" using ok by (simp add: ir_ok_def blocks_ok_def)
  ultimately obtain es where es: "collectCriticalEdges s f = Inr es" "distinct es"
    "set es = {(a, b). b \<in> set (blocks s f) \<and> critical s a b}"
    using collectCriticalEdges_effect [of s f] by blast
  have "None \<notin> set (ops_of s p)" if "b \<in> set (blocks s f)" "p \<in> set (heads s b)" for b p
    using inp that by (auto simp: split_input_def phi_matches_def pairs_wf_def)
  then have "split_of s f [] (\<lambda>_. 0) s"
    using \<open>distinct (blocks s f)\<close> rename_preds_id [of _ "source_of {} (\<lambda>_. 0) _"]
    by (simp add: split_of_def target_of_def [abs_def] source_of_def [abs_def])
  then obtain t mid where t: "split_edges 0 es s = Inr t" "ir_ok t" "split_of s f es mid t"
    using split_edges_effect [OF inp _ ok f, of "[]" "\<lambda>_. 0" es 0] es by auto
  have "split_function f s = Inr t" using es(1) t(1) by (auto simp: split_function_def)
  then show ?thesis using t es by blast
qed

section \<open>The property\<close>

text \<open>C15: on a function whose branches agree with its edge lists and whose phis match their
  predecessors, the pass terminates, keeps the module consistent, puts one new block on
  every critical edge (\<open>split_of\<close>: the branch, the edge lists and the phi pairs are redirected
  to it, everything else is unchanged), leaves no critical edge, and every phi of the result
  has one pair for each incoming edge.\<close>

theorem split_critical_edges_correct:
  assumes "split_input s f"
  shows "\<exists>t E mid. split_function f s = Inr t \<and> ir_ok t \<and> distinct E \<and>
    set E = {(a, c). c \<in> set (blocks s f) \<and> critical s a c} \<and> split_of s f E mid t \<and>
    (\<forall>c\<in>set (blocks t f). (\<forall>a. \<not> critical t a c) \<and> (\<forall>p\<in>set (heads t c). phi_matches t (preds t c) p))"
proof -
  obtain t E mid where t: "split_function f s = Inr t" "ir_ok t" "distinct E"
    "set E = {(a, c). c \<in> set (blocks s f) \<and> critical s a c}" "split_of s f E mid t"
    using split_function_effect [OF assms] by blast
  then show ?thesis
    using split_of_no_critical [OF assms t(5,4)] split_of_phis [OF assms t(5,2)] by blast
qed

text \<open>A function with the blocks 1 (jumps to 2 or 3), 2 (jumps to 3) and 3 (a phi and a
  return): the edge from 1 to 3 is critical.\<close>

definition split_demo :: ir where
  "split_demo = empty_ir\<lparr>vals :=
     [0 \<mapsto> \<lparr>vty = FunctionTy int32_ty [], vname = ''f'', vuses = [], vops = [], vkind = K_func\<rparr>,
      1 \<mapsto> \<lparr>vty = LabelTy, vname = '''', vuses = [(6, 1)], vops = [], vkind = K_block\<rparr>,
      2 \<mapsto> \<lparr>vty = LabelTy, vname = '''', vuses = [(4, 1), (6, 3)], vops = [], vkind = K_block\<rparr>,
      3 \<mapsto> \<lparr>vty = LabelTy, vname = '''', vuses = [(4, 2), (5, 0)], vops = [], vkind = K_block\<rparr>,
      4 \<mapsto> \<lparr>vty = VoidTy, vname = '''', vuses = [], vops = [Some 9, Some 2, Some 3], vkind = K_instr O_br (Some 1)\<rparr>,
      5 \<mapsto> \<lparr>vty = VoidTy, vname = '''', vuses = [], vops = [Some 3], vkind = K_instr O_br (Some 2)\<rparr>,
      6 \<mapsto> \<lparr>vty = int32_ty, vname = '''', vuses = [(7, 0)], vops = [Some 8, Some 1, Some 10, Some 2],
           vkind = K_instr O_phi (Some 3)\<rparr>,
      7 \<mapsto> \<lparr>vty = VoidTy, vname = '''', vuses = [], vops = [Some 6], vkind = K_instr O_ret (Some 3)\<rparr>,
      8 \<mapsto> \<lparr>vty = int32_ty, vname = '''', vuses = [(6, 0)], vops = [], vkind = K_int 1\<rparr>,
      9 \<mapsto> \<lparr>vty = int1_ty, vname = '''', vuses = [(4, 0)], vops = [], vkind = K_int 1\<rparr>,
      10 \<mapsto> \<lparr>vty = int32_ty, vname = '''', vuses = [(6, 2)], vops = [], vkind = K_int 2\<rparr>],
     bbs := [1 \<mapsto> \<lparr>pre_bbs = [], succ_bbs = [2, 3], instr_list = [4], bparent = 0\<rparr>,
       2 \<mapsto> \<lparr>pre_bbs = [1], succ_bbs = [3], instr_list = [5], bparent = 0\<rparr>,
       3 \<mapsto> \<lparr>pre_bbs = [1, 2], succ_bbs = [], instr_list = [6, 7], bparent = 0\<rparr>],
     funcs := [0 \<mapsto> \<lparr>basic_blocks = [1, 2, 3], arguments = [], seq_cnt = 0\<rparr>],
     next_id := 11, function_list := [0]\<rparr>"

lemma split_demo_obs:
  "uses_of split_demo v = (if v = 1 then [(6, 1)] else if v = 2 then [(4, 1), (6, 3)] else if v = 3 then [(4, 2), (5, 0)]
     else if v = 6 then [(7, 0)] else if v = 8 then [(6, 0)] else if v = 9 then [(4, 0)] else if v = 10 then [(6, 2)] else [])"
  "ops_of split_demo u = (if u = 4 then [Some 9, Some 2, Some 3] else if u = 5 then [Some 3]
     else if u = 6 then [Some 8, Some 1, Some 10, Some 2] else if u = 7 then [Some 6] else [])"
  "kind_of split_demo = [0 \<mapsto> K_func, 1 \<mapsto> K_block, 2 \<mapsto> K_block, 3 \<mapsto> K_block, 4 \<mapsto> K_instr O_br (Some 1),
     5 \<mapsto> K_instr O_br (Some 2), 6 \<mapsto> K_instr O_phi (Some 3), 7 \<mapsto> K_instr O_ret (Some 3), 8 \<mapsto> K_int 1, 9 \<mapsto> K_int 1,
     10 \<mapsto> K_int 2]"
  "instrs split_demo b = (if b = 1 then [4] else if b = 2 then [5] else if b = 3 then [6, 7] else [])"
  "preds split_demo b = (if b = 2 then [1] else if b = 3 then [1, 2] else [])"
  "succs split_demo b = (if b = 1 then [2, 3] else if b = 2 then [3] else [])"
  "blocks split_demo f = (if f = 0 then [1, 2, 3] else [])" "dom (vals split_demo) = {0, 1, 2, 3, 4, 5, 6, 7, 8, 9, 10}"
  "dom (bbs split_demo) = {1, 2, 3}" "dom (funcs split_demo) = {0}" "next_id split_demo = 11"
  by (auto simp: split_demo_def empty_ir_def uses_of_def ops_of_def kind_of_def graph_defs fun_eq_iff)

lemma ir_ok_split_demo: "ir_ok split_demo"
proof -
  have "use_def_ok split_demo"
    by (rule use_def_okI) (auto simp: split_demo_obs operand_at_def nth_Cons' split: if_splits)
  moreover have "ids_ok split_demo" unfolding ids_ok_def split_demo_obs by simp
  moreover have "cfg_ok split_demo" by (simp add: cfg_ok_def split_demo_obs)
  moreover have "placed_ok split_demo"
    by (simp add: placed_ok_def listed_ok_def split_demo_obs is_terminator_op_def)
  moreover have "blocks_ok split_demo"
    by (auto simp: blocks_ok_def split_demo_obs) (auto simp: split_demo_def)
  ultimately show ?thesis by (simp add: ir_ok_def)
qed

lemma split_demo_input: "split_input split_demo 0"
proof -
  have ph: "is_phi_instr split_demo i \<longleftrightarrow> i = 6" for i by (auto simp: is_phi_instr_iff split_demo_obs split: if_splits)
  have "branch_targets split_demo 1 = Inr [2, 3]" "branch_targets split_demo 2 = Inr [3]" "branch_targets split_demo 3 = Inr []"
    by (simp_all add: branch_targets_def get_terminator_def is_terminated_def instr_op_def split_demo_def
        is_terminator_op_def del: bindR_Inr_iff instr_op_Inr deref_Inr_iff)
  then show ?thesis
    using ir_ok_split_demo
    by (simp add: split_input_def split_demo_obs heads_def ph phi_matches_def pairs_wf_def)
qed

theorem split_critical_edges_witness:
  "\<exists>t m. split_function 0 split_demo = Inr t \<and> blocks t 0 = [1, 2, 3, m] \<and> succs t m = [3] \<and> preds t m = [1] \<and>
    ops_of t 6 = [Some 8, Some m, Some 10, Some 2]"
proof -
  obtain t E mid where t: "split_function 0 split_demo = Inr t" "distinct E"
    "set E = {(a, c). c \<in> set (blocks split_demo 0) \<and> critical split_demo a c}" "split_of split_demo 0 E mid t"
    using split_critical_edges_correct [OF split_demo_input] by (elim exE conjE) (rule that)
  have two: "card {Suc 0, 2} = 2" "card {2, 3 :: nat} = 2" by simp_all
  have "critical split_demo a 3 \<longleftrightarrow> a = 1" for a
    using two by (auto simp: critical_def split_demo_obs)
  moreover have "\<not> critical split_demo a 1" "\<not> critical split_demo a 2" for a
    by (simp_all add: critical_def split_demo_obs)
  ultimately have "set E = {(1, 3)}" unfolding t(3) by (auto simp: split_demo_obs)
  then have E: "E = [(1, 3)]" using t(2) by (cases E; cases "tl E") auto
  have ph: "is_phi_instr split_demo i \<longleftrightarrow> i = 6" for i by (auto simp: is_phi_instr_iff split_demo_obs split: if_splits)
  have "6 \<in> set (heads split_demo 3)" by (simp add: heads_def ph split_demo_obs)
  then have "ops_of t 6 = rename_preds (source_of {(1, 3)} mid 3) (ops_of split_demo 6)"
    using t(4) unfolding split_of_def E by (simp add: split_demo_obs)
  then have "ops_of t 6 = [Some 8, Some (mid (1, 3)), Some 10, Some 2]" by (simp add: split_demo_obs source_of_def)
  moreover have "blocks t 0 = [1, 2, 3, mid (1, 3)]" using split_of_blocks [OF t(4)] by (simp add: E split_demo_obs)
  moreover have "succs t (mid (1, 3)) = [3] \<and> preds t (mid (1, 3)) = [1]" using split_of_mid [OF t(4), of 1 3] by (simp add: E)
  ultimately show ?thesis using t(1) by blast
qed

end
