(* ===== verification/Dominators.thy ===== *)
theory Dominators
  imports IRBuilder Worklist
begin

text \<open>
  Dominators (\<open>include/passes/Dominators.hpp\<close>, \<open>src/passes/Dominators.cpp\<close>): post-order
  numbering by depth-first search, immediate dominators by iteration to a fixed point
  (Cooper, Harvey, Kennedy), dominance frontiers and the children in the dominator tree.
  A block pointer that may be null is an option; the \<open>std::map\<close>s are keyed by such a
  pointer, because \<open>create_dominance_frontier\<close> and \<open>create_dom_tree_succ\<close> write under the
  null key for a block that the entry does not reach.
\<close>

record dominators =
  reverse_post_order :: "vid list"
  post_order_id :: "vid \<rightharpoonup> nat"
  idom :: "vid \<rightharpoonup> vid option"
  dom_frontier :: "vid option \<rightharpoonup> vid set"
  dom_tree_succ_blocks :: "vid option \<rightharpoonup> vid set"

definition empty_dominators :: dominators where
  "empty_dominators = \<lparr>reverse_post_order = [], post_order_id = Map.empty, idom = Map.empty,
     dom_frontier = Map.empty, dom_tree_succ_blocks = Map.empty\<rparr>"

section \<open>Access\<close>

text \<open>\<open>std::map::at\<close> on a block pointer.\<close>

definition get_idom :: "(vid \<rightharpoonup> vid option) \<Rightarrow> vid option \<Rightarrow> vid option res" where
  "get_idom m b = (case b of None \<Rightarrow> Inl Out_of_range | Some x \<Rightarrow> at_map m x)"

definition get_dominance_frontier :: "dominators \<Rightarrow> vid \<Rightarrow> vid set res" where
  "get_dominance_frontier d b = at_map (dom_frontier d) (Some b)"

definition get_dom_tree_succ_blocks :: "dominators \<Rightarrow> vid \<Rightarrow> vid set res" where
  "get_dom_tree_succ_blocks d b = at_map (dom_tree_succ_blocks d) (Some b)"

definition set_idom :: "vid \<Rightarrow> vid option \<Rightarrow> dominators \<Rightarrow> dominators" where
  "set_idom b v d = d\<lparr>idom := (idom d)(b \<mapsto> v)\<rparr>"

text \<open>\<open>operator[]\<close> makes a missing entry: an empty set, or the number 0.\<close>

definition entry_set :: "('k \<rightharpoonup> 'v set) \<Rightarrow> 'k \<Rightarrow> 'v set" where
  "entry_set m k = (case m k of None \<Rightarrow> {} | Some S \<Rightarrow> S)"

definition add_dominance_frontier :: "vid option \<Rightarrow> vid \<Rightarrow> dominators \<Rightarrow> dominators" where
  "add_dominance_frontier b x d =
     d\<lparr>dom_frontier := (dom_frontier d)(b \<mapsto> insert x (entry_set (dom_frontier d) b))\<rparr>"

definition add_dom_tree_succ_block :: "vid option \<Rightarrow> vid \<Rightarrow> dominators \<Rightarrow> dominators" where
  "add_dom_tree_succ_block b x d =
     d\<lparr>dom_tree_succ_blocks := (dom_tree_succ_blocks d)(b \<mapsto> insert x (entry_set (dom_tree_succ_blocks d) b))\<rparr>"

definition post_id :: "(vid \<rightharpoonup> nat) \<Rightarrow> vid \<Rightarrow> nat" where
  "post_id m b = (case m b of None \<Rightarrow> 0 | Some n \<Rightarrow> n)"

section \<open>Post-order\<close>

text \<open>The state of the search: \<open>visited\<close>, the list of finished blocks, their numbers.\<close>

record post_order =
  po_visited :: "vid set"
  po_list :: "vid list"
  po_ids :: "vid \<rightharpoonup> nat"

definition finish_block :: "vid \<Rightarrow> post_order \<Rightarrow> post_order" where
  "finish_block b st = st\<lparr>po_ids := (po_ids st)(b \<mapsto> length (po_list st)), po_list := po_list st @ [b]\<rparr>"

text \<open>The loop over the successors; a block that was not visited is visited by the same loop
  over its own successors.\<close>

partial_function (option) visit_successors ::
  "'z ir_scheme \<Rightarrow> vid list \<Rightarrow> post_order \<Rightarrow> post_order res option" where
  "visit_successors s bs st =
     (case bs of
        [] \<Rightarrow> Some (Inr st)
      | b # rest \<Rightarrow>
          if b \<in> po_visited st then visit_successors s rest st
          else
            (case bbs s b of
               None \<Rightarrow> Some (Inl Dangling)
             | Some r \<Rightarrow>
                 Option.bind (visit_successors s (succ_bbs r) (st\<lparr>po_visited := insert b (po_visited st)\<rparr>)) (\<lambda>x.
                 case x of
                   Inl e \<Rightarrow> Some (Inl e)
                 | Inr st1 \<Rightarrow> visit_successors s rest (finish_block b st1))))"

declare visit_successors.simps [code]

definition post_order_visit :: "'z ir_scheme \<Rightarrow> vid \<Rightarrow> post_order \<Rightarrow> post_order res" where
  "post_order_visit s b st =
     bindR (deref (bbs s) b) (\<lambda>r.
     bindR (outcome (visit_successors s (succ_bbs r) (st\<lparr>po_visited := insert b (po_visited st)\<rparr>))) (\<lambda>st1.
     Inr (finish_block b st1)))"

definition entry_block :: "'z ir_scheme \<Rightarrow> vid \<Rightarrow> vid res" where
  "entry_block s f = (case blocks s f of [] \<Rightarrow> Inl (UB ''front'') | b # _ \<Rightarrow> Inr b)"

definition create_reverse_post_order :: "'z ir_scheme \<Rightarrow> vid \<Rightarrow> dominators \<Rightarrow> dominators res" where
  "create_reverse_post_order s f d =
     bindR (entry_block s f) (\<lambda>e.
     bindR (post_order_visit s e \<lparr>po_visited = {}, po_list = [], po_ids = Map.empty\<rparr>) (\<lambda>st.
     Inr (d\<lparr>reverse_post_order := rev (po_list st), post_order_id := po_ids st\<rparr>)))"

section \<open>Immediate dominators\<close>

text \<open>One step of an inner loop of \<open>intersect\<close>: \<open>assert(get_idom(b)); b = get_idom(b);\<close>\<close>

definition climb :: "string \<Rightarrow> (vid \<rightharpoonup> vid option) \<Rightarrow> vid \<Rightarrow> vid res" where
  "climb msg m b = bindR (get_idom m (Some b)) (\<lambda>p. case p of
     None \<Rightarrow> Inl (Assert_fail msg) | Some x \<Rightarrow> Inr x)"

definition intersect_step :: "(vid \<rightharpoonup> nat) \<Rightarrow> (vid \<rightharpoonup> vid option) \<Rightarrow> vid \<times> vid \<Rightarrow> (vid \<times> vid) res" where
  "intersect_step ids m = (\<lambda>(b1, b2).
     bindR (outcome (whileR (\<lambda>b. post_id ids b < post_id ids b2) (climb ''get_idom(b1)'' m) b1)) (\<lambda>b1'.
     bindR (outcome (whileR (\<lambda>b. post_id ids b < post_id ids b1') (climb ''get_idom(b2)'' m) b2)) (\<lambda>b2'.
     Inr (b1', b2'))))"

definition intersect :: "(vid \<rightharpoonup> nat) \<Rightarrow> (vid \<rightharpoonup> vid option) \<Rightarrow> vid \<Rightarrow> vid \<Rightarrow> vid res" where
  "intersect ids m b1 b2 =
     bindR (outcome (whileR (\<lambda>(b1, b2). b1 \<noteq> b2) (intersect_step ids m) (b1, b2))) (\<lambda>b. Inr (fst b))"

text \<open>The first predecessor that has an immediate dominator.\<close>

fun find_processed :: "(vid \<rightharpoonup> vid option) \<Rightarrow> vid list \<Rightarrow> vid option res" where
  "find_processed m [] = Inr None"
| "find_processed m (p # ps) =
     bindR (get_idom m (Some p)) (\<lambda>i. if i \<noteq> None then Inr (Some p) else find_processed m ps)"

fun intersect_all :: "(vid \<rightharpoonup> nat) \<Rightarrow> (vid \<rightharpoonup> vid option) \<Rightarrow> vid \<Rightarrow> vid list \<Rightarrow> vid \<Rightarrow> vid res" where
  "intersect_all ids m pred [] new_idom = Inr new_idom"
| "intersect_all ids m pred (p # ps) new_idom =
     (if p = pred then intersect_all ids m pred ps new_idom
      else
        bindR (get_idom m (Some p)) (\<lambda>i.
        if i \<noteq> None then bindR (intersect ids m p new_idom) (intersect_all ids m pred ps)
        else intersect_all ids m pred ps new_idom))"

text \<open>The body of the loop over the blocks in reverse post-order. The state is the flag
  \<open>changed\<close> and the map \<open>idom_\<close>.\<close>

definition idom_block :: "'z ir_scheme \<Rightarrow> (vid \<rightharpoonup> nat) \<Rightarrow> vid \<Rightarrow> vid \<Rightarrow>
    bool \<times> (vid \<rightharpoonup> vid option) \<Rightarrow> (bool \<times> (vid \<rightharpoonup> vid option)) res" where
  "idom_block s ids root b = (\<lambda>(changed, m).
     if b = root then Inr (changed, m)
     else
       bindR (deref (bbs s) b) (\<lambda>r.
       bindR (find_processed m (pre_bbs r)) (\<lambda>found. case found of
         None \<Rightarrow> Inl (Assert_fail ''pred'')
       | Some pred \<Rightarrow>
           bindR (intersect_all ids m pred (pre_bbs r) pred) (\<lambda>new_idom.
           bindR (get_idom m (Some b)) (\<lambda>old.
           Inr (if old \<noteq> Some new_idom then (True, m(b \<mapsto> Some new_idom)) else (changed, m)))))))"

fun idom_blocks :: "'z ir_scheme \<Rightarrow> (vid \<rightharpoonup> nat) \<Rightarrow> vid \<Rightarrow> vid list \<Rightarrow>
    bool \<times> (vid \<rightharpoonup> vid option) \<Rightarrow> (bool \<times> (vid \<rightharpoonup> vid option)) res" where
  "idom_blocks s ids root [] st = Inr st"
| "idom_blocks s ids root (b # bs) st = bindR (idom_block s ids root b st) (idom_blocks s ids root bs)"

definition idom_round :: "'z ir_scheme \<Rightarrow> (vid \<rightharpoonup> nat) \<Rightarrow> vid \<Rightarrow> vid list \<Rightarrow>
    bool \<times> (vid \<rightharpoonup> vid option) \<Rightarrow> (bool \<times> (vid \<rightharpoonup> vid option)) res" where
  "idom_round s ids root rpo st = idom_blocks s ids root rpo (False, snd st)"

definition create_idom :: "'z ir_scheme \<Rightarrow> vid \<Rightarrow> dominators \<Rightarrow> dominators res" where
  "create_idom s f d =
     (let d0 = fold (\<lambda>b. set_idom b None) (blocks s f) d in
      bindR (entry_block s f) (\<lambda>root.
      bindR (outcome (whileR fst (idom_round s (post_order_id d) root (reverse_post_order d))
               (True, (idom d0)(root \<mapsto> Some root)))) (\<lambda>(_, m).
      Inr (d0\<lparr>idom := m\<rparr>))))"

section \<open>Frontiers and the dominator tree\<close>

definition runner_step :: "vid \<Rightarrow> vid option \<times> dominators \<Rightarrow> (vid option \<times> dominators) res" where
  "runner_step b = (\<lambda>(runner, d).
     let d1 = add_dominance_frontier runner b d in
     bindR (get_idom (idom d1) runner) (\<lambda>r. Inr (r, d1)))"

text \<open>The walk from one predecessor \<open>p\<close> of \<open>b\<close>; \<open>i\<close> is \<open>get_idom(bb)\<close>, which the walk does not change.\<close>

definition frontier_walk :: "vid \<Rightarrow> vid \<Rightarrow> dominators \<Rightarrow> dominators res" where
  "frontier_walk b p d =
     bindR (get_idom (idom d) (Some b)) (\<lambda>i.
     bindR (outcome (whileR (\<lambda>(runner, _). runner \<noteq> i) (runner_step b) (Some p, d))) (\<lambda>(_, d1).
     Inr d1))"

fun frontier_preds :: "vid \<Rightarrow> vid list \<Rightarrow> dominators \<Rightarrow> dominators res" where
  "frontier_preds b [] d = Inr d"
| "frontier_preds b (p # ps) d = bindR (frontier_walk b p d) (frontier_preds b ps)"

fun create_dominance_frontier :: "'z ir_scheme \<Rightarrow> vid list \<Rightarrow> dominators \<Rightarrow> dominators res" where
  "create_dominance_frontier s [] d = Inr d"
| "create_dominance_frontier s (b # bs) d =
     bindR (deref (bbs s) b) (\<lambda>r.
     bindR (if 2 \<le> length (pre_bbs r) then frontier_preds b (pre_bbs r) d else Inr d)
       (create_dominance_frontier s bs))"

fun create_dom_tree_succ :: "vid list \<Rightarrow> dominators \<Rightarrow> dominators res" where
  "create_dom_tree_succ [] d = Inr d"
| "create_dom_tree_succ (b # bs) d =
     bindR (get_idom (idom d) (Some b)) (\<lambda>i.
     create_dom_tree_succ bs (if i \<noteq> Some b then add_dom_tree_succ_block i b d else d))"

section \<open>\<open>run\<close>\<close>

text \<open>\<open>insert\<close> does not replace an entry that is there.\<close>

definition insert_entry :: "'k \<Rightarrow> 'v \<Rightarrow> ('k \<rightharpoonup> 'v) \<Rightarrow> ('k \<rightharpoonup> 'v)" where
  "insert_entry k v m = (if m k = None then m(k \<mapsto> v) else m)"

definition init_block :: "vid \<Rightarrow> dominators \<Rightarrow> dominators" where
  "init_block b d = d\<lparr>idom := insert_entry b None (idom d), dom_frontier := insert_entry (Some b) {} (dom_frontier d),
     dom_tree_succ_blocks := insert_entry (Some b) {} (dom_tree_succ_blocks d)\<rparr>"

definition dominators_of_function :: "'z ir_scheme \<Rightarrow> vid \<Rightarrow> dominators \<Rightarrow> dominators res" where
  "dominators_of_function s f d =
     (if blocks s f = [] then Inr d
      else
        bindR (create_reverse_post_order s f (fold init_block (blocks s f) d)) (\<lambda>d1.
        bindR (create_idom s f d1) (\<lambda>d2.
        bindR (create_dominance_frontier s (blocks s f) d2)
          (create_dom_tree_succ (blocks s f)))))"

fun dominators_of_functions :: "'z ir_scheme \<Rightarrow> vid list \<Rightarrow> dominators \<Rightarrow> dominators res" where
  "dominators_of_functions s [] d = Inr d"
| "dominators_of_functions s (f # fs) d =
     bindR (dominators_of_function s f d) (dominators_of_functions s fs)"

definition Dominators_run :: "'z ir_scheme \<Rightarrow> dominators res" where
  "Dominators_run s = dominators_of_functions s (function_list s) empty_dominators"

section \<open>The numbering\<close>

text \<open>A block's number is its position in the list of finished blocks.\<close>

definition numbered :: "post_order \<Rightarrow> bool" where
  "numbered st \<longleftrightarrow> distinct (po_list st) \<and> dom (po_ids st) = set (po_list st) \<and>
     (\<forall>i<length (po_list st). po_ids st (po_list st ! i) = Some i)"

abbreviation po_num :: "post_order \<Rightarrow> vid \<Rightarrow> nat" where
  "po_num st \<equiv> post_id (po_ids st)"

lemma numbered_nth: "numbered st \<Longrightarrow> i < length (po_list st) \<Longrightarrow> po_num st (po_list st ! i) = i"
  by (simp add: numbered_def post_id_def)

lemma numbered_finish:
  assumes "numbered st" and "b \<notin> set (po_list st)"
  shows "numbered (finish_block b st)"
  using assms by (auto simp: numbered_def finish_block_def nth_append less_Suc_eq in_set_conv_nth)

lemma numbered_extend:
  assumes "numbered st" and "numbered st'" and "po_list st' = po_list st @ new" and "b \<in> set (po_list st)"
  shows "po_num st' b = po_num st b"
proof -
  obtain i where "i < length (po_list st)" "po_list st ! i = b" using assms(4) by (auto simp: in_set_conv_nth)
  then show ?thesis
    using numbered_nth [OF assms(1), of i] numbered_nth [OF assms(2), of i] assms(3) by (simp add: nth_append)
qed

text \<open>What the loop over the successors \<open>bs\<close> adds: each new block is one of \<open>bs\<close> or a successor
  of a new block with a higher number.\<close>

definition dfs_adds :: "'z ir_scheme \<Rightarrow> vid set \<Rightarrow> vid list \<Rightarrow> post_order \<Rightarrow> vid list \<Rightarrow> post_order \<Rightarrow> bool" where
  "dfs_adds s V bs st new st' \<longleftrightarrow> numbered st' \<and> po_list st' = po_list st @ new \<and>
     po_visited st' = po_visited st \<union> set new \<and> set new \<inter> po_visited st = {} \<and> set new \<subseteq> V \<and>
     set bs \<subseteq> po_visited st' \<and> (\<forall>b\<in>set new. set (succs s b) \<subseteq> po_visited st') \<and>
     (\<forall>b\<in>set new. b \<in> set bs \<or> (\<exists>p\<in>set new. b \<in> set (succs s p) \<and> po_num st' b < po_num st' p))"

definition dfs_ok :: "vid set \<Rightarrow> post_order \<Rightarrow> bool" where
  "dfs_ok V st \<longleftrightarrow> numbered st \<and> set (po_list st) \<subseteq> po_visited st \<and> po_visited st \<subseteq> V"

lemma dfs_adds_ok: "dfs_ok V st \<Longrightarrow> dfs_adds s V bs st new st' \<Longrightarrow> dfs_ok V st'"
  by (auto simp: dfs_ok_def dfs_adds_def)

lemma dfs_adds_block:
  assumes ok: "dfs_ok V st" and b: "b \<in> V" "b \<notin> po_visited st"
    and one: "dfs_adds s V (succs s b) (st\<lparr>po_visited := insert b (po_visited st)\<rparr>) new1 st1"
    and two: "dfs_adds s V rest (finish_block b st1) new2 st2"
  shows "dfs_adds s V (b # rest) st (new1 @ b # new2) st2"
proof -
  note O = one [unfolded dfs_adds_def] and T = two [unfolded dfs_adds_def]
  have l1: "po_list st1 = po_list st @ new1" and v1: "po_visited st1 = insert b (po_visited st) \<union> set new1"
    and d1: "set new1 \<inter> insert b (po_visited st) = {}" and n1: "numbered st1"
    using O by simp_all
  have bl: "b \<notin> set (po_list st1)" using ok b(2) d1 l1 by (auto simp: dfs_ok_def)
  have nf: "numbered (finish_block b st1)" using numbered_finish [OF n1 bl] .
  have lf: "po_list (finish_block b st1) = po_list st1 @ [b]" "po_visited (finish_block b st1) = po_visited st1"
    by (simp_all add: finish_block_def)
  have l2: "po_list st2 = (po_list st1 @ [b]) @ new2" and n2: "numbered st2" using T lf by simp_all
  have e1: "po_num st2 x = po_num st1 x" if "x \<in> set new1" for x
    using numbered_extend [OF n1 n2, of "b # new2" x] that l1 l2 by simp
  have len: "po_num st2 b = length (po_list st1)"
    using numbered_nth [OF n2, of "length (po_list st1)"] l2 by (simp add: nth_append)
  have less: "po_num st2 x < po_num st2 b" if x: "x \<in> set new1" for x
  proof -
    obtain i where i: "i < length new1" "x = new1 ! i" using x by (auto simp: in_set_conv_nth)
    then have "x = po_list st2 ! (length (po_list st) + i)" using l1 l2 by (simp add: nth_append)
    then have "po_num st2 x = length (po_list st) + i"
      using numbered_nth [OF n2, of "length (po_list st) + i"] i l1 l2 by simp
    then show ?thesis using len i l1 by simp
  qed
  have "x \<in> set (b # rest) \<or> (\<exists>p\<in>set (new1 @ b # new2). x \<in> set (succs s p) \<and> po_num st2 x < po_num st2 p)"
    if "x \<in> set (new1 @ b # new2)" for x
  proof -
    consider "x \<in> set new1" | "x = b" | "x \<in> set new2" using \<open>x \<in> set (new1 @ b # new2)\<close> by auto
    then show ?thesis
    proof cases
      case 1
      then have "x \<in> set (succs s b) \<or> (\<exists>p\<in>set new1. x \<in> set (succs s p) \<and> po_num st1 x < po_num st1 p)"
        using O by blast
      then show ?thesis using less [OF 1] e1 1 by auto
    next
      case 3
      then have "x \<in> set rest \<or> (\<exists>p\<in>set new2. x \<in> set (succs s p) \<and> po_num st2 x < po_num st2 p)" using T by blast
      then show ?thesis by auto
    qed simp
  qed
  moreover have "po_visited st2 = po_visited st \<union> set (new1 @ b # new2)" using T v1 lf by auto
  moreover have "set (new1 @ b # new2) \<inter> po_visited st = {}" using T d1 v1 lf b(2) by auto
  moreover have "set (succs s x) \<subseteq> po_visited st2" if "x \<in> set (new1 @ b # new2)" for x
  proof -
    have sub: "po_visited st1 \<subseteq> po_visited st2" using T lf by auto
    have "x \<in> set new1 \<or> x = b \<or> x \<in> set new2" using that by auto
    moreover have "\<forall>y\<in>set new1. set (succs s y) \<subseteq> po_visited st1" "set (succs s b) \<subseteq> po_visited st1"
      "\<forall>y\<in>set new2. set (succs s y) \<subseteq> po_visited st2" using O T by blast+
    ultimately show ?thesis using sub by blast
  qed
  ultimately show ?thesis using n2 l1 l2 O T b(1) unfolding dfs_adds_def by auto
qed

lemma visit_successors_Nil [simp]: "visit_successors s [] st = Some (Inr st)"
  by (simp add: visit_successors.simps)

lemma visit_successors_seen: "b \<in> po_visited st \<Longrightarrow> visit_successors s (b # rest) st = visit_successors s rest st"
  by (subst visit_successors.simps) simp

lemma visit_successors_new:
  assumes "b \<notin> po_visited st" and "bbs s b = Some r"
    and "visit_successors s (succ_bbs r) (st\<lparr>po_visited := insert b (po_visited st)\<rparr>) = Some (Inr st1)"
  shows "visit_successors s (b # rest) st = visit_successors s rest (finish_block b st1)"
  using assms by (subst visit_successors.simps) simp

lemma visit_successors_effect:
  assumes fin: "finite V" and closed: "\<And>a. a \<in> V \<Longrightarrow> a \<in> dom (bbs s) \<and> set (succs s a) \<subseteq> V"
    and "dfs_ok V st" and "set bs \<subseteq> V"
  shows "\<exists>new st'. visit_successors s bs st = Some (Inr st') \<and> dfs_adds s V bs st new st'"
  using assms(3,4)
proof (induction "(bs, st)" arbitrary: bs st rule: wf_induct_rule
    [OF wf_measures, of "[\<lambda>(bs, st). card (V - po_visited st), \<lambda>(bs, st). length bs]"])
  case (1 bs st)
  note ok = \<open>dfs_ok V st\<close>
  show ?case
  proof (cases bs)
    case Nil
    then show ?thesis using ok
      by (intro exI [of _ "[]"] exI [of _ st]) (simp add: dfs_adds_def dfs_ok_def)
  next
    case (Cons b rest)
    show ?thesis
    proof (cases "b \<in> po_visited st")
      case True
      obtain new st' where st': "visit_successors s rest st = Some (Inr st')" "dfs_adds s V rest st new st'"
        using "1.hyps" [of rest st] ok "1.prems"(2) Cons by auto
      have "visit_successors s bs st = Some (Inr st')" using Cons True st'(1) by (simp add: visit_successors_seen)
      moreover have "dfs_adds s V bs st new st'" using st'(2) True unfolding dfs_adds_def Cons by simp blast
      ultimately show ?thesis by blast
    next
      case False
      have b: "b \<in> V" using Cons "1.prems"(2) by simp
      then obtain r where r: "bbs s b = Some r" using closed by blast
      have su: "succ_bbs r = succs s b" using r by (simp add: succs_def)
      let ?st = "st\<lparr>po_visited := insert b (po_visited st)\<rparr>"
      have less: "card (V - insert b (po_visited st)) < card (V - po_visited st)"
        using b False fin by (intro psubset_card_mono) auto
      have "dfs_ok V ?st" using ok b by (auto simp: dfs_ok_def numbered_def)
      then obtain new1 st1 where st1: "visit_successors s (succs s b) ?st = Some (Inr st1)"
        "dfs_adds s V (succs s b) ?st new1 st1"
        using "1.hyps" [of "succs s b" ?st] less closed [OF b] by auto
      have ok1: "dfs_ok V st1" using dfs_adds_ok [OF \<open>dfs_ok V ?st\<close> st1(2)] .
      have bl: "b \<notin> set (po_list st1)" "insert b (po_visited st) \<subseteq> po_visited st1"
        using st1(2) ok False by (auto simp: dfs_adds_def dfs_ok_def)
      have okf: "dfs_ok V (finish_block b st1)"
        using ok1 bl numbered_finish [of st1 b] by (auto simp: dfs_ok_def finish_block_def)
      have "card (V - po_visited st1) \<le> card (V - insert b (po_visited st))"
        using bl(2) fin by (intro card_mono) auto
      then obtain new2 st2 where st2: "visit_successors s rest (finish_block b st1) = Some (Inr st2)"
        "dfs_adds s V rest (finish_block b st1) new2 st2"
        using "1.hyps" [of rest "finish_block b st1"] less okf "1.prems"(2) Cons by (auto simp: finish_block_def)
      have "visit_successors s bs st = Some (Inr st2)"
        using visit_successors_new [OF False r] Cons su st1(1) st2(1) by simp
      then show ?thesis using dfs_adds_block [OF ok b False st1(2) st2(2)] Cons by blast
    qed
  qed
qed

end
