(* ===== verification/DomTree.thy ===== *)
theory DomTree
  imports Dominators
begin

text \<open>
  The mathematics behind \<open>Dominators::create_idom\<close>: paths and dominance in a graph given by
  its predecessor lists, the forest of a partial map of parents, and what lifting one node
  to a meet of its predecessors does to that forest.
\<close>

section \<open>Paths and dominance\<close>

inductive path_to :: "('a \<Rightarrow> 'a list) \<Rightarrow> 'a \<Rightarrow> 'a list \<Rightarrow> 'a \<Rightarrow> bool" for ps e where
  path_start: "path_to ps e [e] e"
| path_step: "path_to ps e p a \<Longrightarrow> a \<in> set (ps b) \<Longrightarrow> path_to ps e (p @ [b]) b"

definition dominates :: "('a \<Rightarrow> 'a list) \<Rightarrow> 'a \<Rightarrow> 'a \<Rightarrow> 'a \<Rightarrow> bool" where
  "dominates ps e a b \<longleftrightarrow> (\<forall>p. path_to ps e p b \<longrightarrow> a \<in> set p)"

lemma path_to_last: "path_to ps e p b \<Longrightarrow> b \<in> set p \<and> e \<in> set p"
  by (induction rule: path_to.induct) auto

lemma dominates_refl [simp]: "dominates ps e b b"
  by (auto simp: dominates_def dest: path_to_last)

lemma dominates_entry: "dominates ps e a e \<longleftrightarrow> a = e"
proof
  assume "dominates ps e a e"
  then have "a \<in> set [e]" using path_start [of ps e] unfolding dominates_def by blast
  then show "a = e" by simp
qed simp

lemma dominates_step: "dominates ps e a b \<Longrightarrow> a \<noteq> b \<Longrightarrow> p \<in> set (ps b) \<Longrightarrow> dominates ps e a p"
  unfolding dominates_def using path_step [of ps e _ p b] by fastforce

text \<open>Graphs whose nodes have numbers such that every node but the entry has a predecessor
  \<open>par\<close> with a higher number.\<close>

definition ordered_cfg :: "('a \<Rightarrow> 'a list) \<Rightarrow> 'a set \<Rightarrow> 'a \<Rightarrow> ('a \<Rightarrow> nat) \<Rightarrow> ('a \<Rightarrow> 'a) \<Rightarrow> bool" where
  "ordered_cfg ps V e po par \<longleftrightarrow> finite V \<and> e \<in> V \<and> (\<forall>b\<in>V. set (ps b) \<subseteq> V) \<and> inj_on po V \<and>
     (\<forall>b\<in>V. po b \<le> po e) \<and> (\<forall>b\<in>V - {e}. par b \<in> set (ps b) \<and> po b < po (par b))"

section \<open>Forests\<close>

definition up :: "'a \<Rightarrow> ('a \<rightharpoonup> 'a) \<Rightarrow> 'a \<Rightarrow> 'a set" where
  "up e D c = (if c = e then {} else set_option (D c))"

definition anc :: "'a \<Rightarrow> ('a \<rightharpoonup> 'a) \<Rightarrow> 'a \<Rightarrow> 'a set" where
  "anc e D b = reach (up e D) {b}"

text \<open>A forest with one root: parents have higher numbers.\<close>

definition idom_tree :: "'a set \<Rightarrow> 'a \<Rightarrow> ('a \<Rightarrow> nat) \<Rightarrow> ('a \<rightharpoonup> 'a) \<Rightarrow> bool" where
  "idom_tree V e po D \<longleftrightarrow> dom D \<subseteq> V \<and> D e = Some e \<and> (\<forall>b\<in>V. po b \<le> po e) \<and>
     (\<forall>b d. D b = Some d \<longrightarrow> b \<noteq> e \<longrightarrow> d \<in> dom D \<and> po b < po d)"

lemma reach_unfold: "reach nxt {b} = insert b (reach nxt (nxt b))"
proof
  show "reach nxt {b} \<subseteq> insert b (reach nxt (nxt b))"
    by (rule reach_least) (auto intro: subsetD [OF reach_superset] reach_closed)
  have "reach nxt (nxt b) \<subseteq> reach nxt {b}"
    by (rule reach_least) (auto intro: reach_closed subsetD [OF reach_superset])
  then show "insert b (reach nxt (nxt b)) \<subseteq> reach nxt {b}" using reach_superset [of "{b}" nxt] by auto
qed

lemma reach_empty [simp]: "reach nxt {} = {}"
  by (simp add: reach_def)

lemma anc_entry [simp]: "anc e D e = {e}"
  by (simp add: anc_def reach_unfold [of _ e] up_def)

lemma anc_unfold: "b \<noteq> e \<Longrightarrow> D b = Some d \<Longrightarrow> anc e D b = insert b (anc e D d)"
  by (simp add: anc_def reach_unfold [of _ b] up_def)

lemma anc_self [simp]: "b \<in> anc e D b"
  by (simp add: anc_def reach_unfold [of _ b])

lemma climb_induct:
  assumes tree: "idom_tree V e po D" and b: "b \<in> dom D" and base: "P e"
    and step: "\<And>b d. b \<noteq> e \<Longrightarrow> D b = Some d \<Longrightarrow> d \<in> dom D \<Longrightarrow> po b < po d \<Longrightarrow> P d \<Longrightarrow> P b"
  shows "P b"
  using b
proof (induction "po e - po b" arbitrary: b rule: less_induct)
  case less
  show ?case
  proof (cases "b = e")
    case False
    obtain d where d: "D b = Some d" using less.prems by blast
    have "d \<in> dom D" "po b < po d" using tree d False by (auto simp: idom_tree_def)
    moreover have "po d \<le> po e" using tree \<open>d \<in> dom D\<close> by (auto simp: idom_tree_def)
    ultimately show ?thesis using less.hyps [of d] step [OF False d] by simp
  qed (use base in simp)
qed

lemma anc_po:
  assumes tree: "idom_tree V e po D" and "b \<in> dom D" and "x \<in> anc e D b"
  shows "x \<in> dom D \<and> (x = b \<or> po b < po x)"
  using assms(2,3)
proof (induction b rule: climb_induct [OF tree, consumes 1, case_names entry up])
  case entry
  then show ?case using tree by (auto simp: idom_tree_def)
next
  case (up b d)
  then show ?case by (auto simp: anc_unfold)
qed

lemma anc_entry_mem:
  assumes tree: "idom_tree V e po D" and "b \<in> dom D"
  shows "e \<in> anc e D b"
  using assms(2)
proof (induction b rule: climb_induct [OF tree, consumes 1, case_names entry up])
  case (up b d)
  then show ?case by (auto simp: anc_unfold)
qed simp

lemma anc_sub: "x \<in> anc e D b \<Longrightarrow> anc e D x \<subseteq> anc e D b"
  unfolding anc_def by (rule reach_least) (auto intro: reach_closed)

lemma anc_linear:
  assumes tree: "idom_tree V e po D" and "b \<in> dom D" and "x \<in> anc e D b" "y \<in> anc e D b" "po x < po y"
  shows "y \<in> anc e D x"
  using assms(2-)
proof (induction b rule: climb_induct [OF tree, consumes 1, case_names entry up])
  case entry
  then show ?case by simp
next
  case (up b d)
  show ?case
  proof (cases "x = b")
    case False
    then have x: "x \<in> anc e D d" using up by (auto simp: anc_unfold)
    then have "po b < po x" using up(3,4) anc_po [OF tree, of d x] by auto
    then have "y \<noteq> b" using up.prems by auto
    then show ?thesis using up x by (auto simp: anc_unfold)
  qed (use up.prems in simp)
qed

text \<open>Giving the node \<open>b\<close> the parent \<open>n\<close>.\<close>

lemma tree_upd:
  assumes "idom_tree V e po D" and "b \<in> V" and "b \<noteq> e" and "n \<in> dom D" and "po b < po n"
  shows "idom_tree V e po (D(b \<mapsto> n))"
  using assms by (auto simp: idom_tree_def)

lemma anc_upd_same:
  assumes tree: "idom_tree V e po D" and c: "c \<in> dom D" and b: "b \<notin> anc e D c"
  shows "anc e (D(b \<mapsto> n)) c = anc e D c"
  using c b
proof (induction c rule: climb_induct [OF tree, consumes 1, case_names entry up])
  case (up c d)
  then have "c \<noteq> b" by auto
  then have "anc e (D(b \<mapsto> n)) c = insert c (anc e (D(b \<mapsto> n)) d)" using up by (intro anc_unfold) auto
  then show ?case using up by (auto simp: anc_unfold)
qed simp

lemma anc_upd_self:
  assumes tree: "idom_tree V e po D" and b: "b \<in> V" "b \<noteq> e" and n: "n \<in> dom D" "po b < po n"
  shows "anc e (D(b \<mapsto> n)) b = insert b (anc e D n)"
proof -
  have "b \<notin> anc e D n" using anc_po [OF tree, of n b] n by auto
  then have "anc e (D(b \<mapsto> n)) n = anc e D n" using anc_upd_same [OF tree n(1)] by simp
  then show ?thesis using anc_unfold [of b e "D(b \<mapsto> n)" n] b(2) by simp
qed

lemma anc_upd:
  assumes tree: "idom_tree V e po D" and b: "b \<in> V" "b \<noteq> e" and n: "n \<in> dom D" "po b < po n" and c: "c \<in> dom D"
    and bc: "b \<in> anc e D c"
  shows "anc e (D(b \<mapsto> n)) c = {y \<in> anc e D c. po y < po b} \<union> insert b (anc e D n)"
  using c bc
proof (induction c rule: climb_induct [OF tree, consumes 1, case_names entry up])
  case entry
  then show ?case using b(2) by simp
next
  case (up c d)
  have cd: "c \<in> dom D" using up(2) by blast
  show ?case
  proof (cases "c = b")
    case True
    then have E: "{y \<in> anc e D b. po y < po b} = {}" using anc_po [OF tree cd] by force
    show ?thesis unfolding True E anc_upd_self [OF tree b n] by simp
  next
    case False
    then have bd: "b \<in> anc e D d" using up by (auto simp: anc_unfold)
    then have "po c < po b" using anc_po [OF tree, of d b] up(3,4) by auto
    then have "{y \<in> anc e D c. po y < po b} = insert c {y \<in> anc e D d. po y < po b}"
      using up by (auto simp: anc_unfold)
    moreover have "anc e (D(b \<mapsto> n)) c = insert c (anc e (D(b \<mapsto> n)) d)" using up False by (intro anc_unfold) auto
    ultimately show ?thesis unfolding up.IH [OF bd] by (simp only: Un_insert_left)
  qed
qed

section \<open>Meets\<close>

text \<open>The common ancestors of the predecessors that are in the tree already.\<close>

definition meet :: "('a \<Rightarrow> 'a list) \<Rightarrow> 'a \<Rightarrow> ('a \<rightharpoonup> 'a) \<Rightarrow> 'a \<Rightarrow> 'a set" where
  "meet ps e D b = (\<Inter>p\<in>set (ps b) \<inter> dom D. anc e D p)"

text \<open>The invariant of the iteration, when the nodes with numbers from \<open>k\<close> on have been
  processed in the current round. \<open>tanc\<close> are the ancestors along \<open>par\<close>.\<close>

definition par_map :: "'a set \<Rightarrow> 'a \<Rightarrow> ('a \<Rightarrow> 'a) \<Rightarrow> ('a \<rightharpoonup> 'a)" where
  "par_map V e par = (\<lambda>b. if b \<in> V then Some (if b = e then e else par b) else None)"

definition chk_inv :: "('a \<Rightarrow> 'a list) \<Rightarrow> 'a set \<Rightarrow> 'a \<Rightarrow> ('a \<Rightarrow> nat) \<Rightarrow> ('a \<Rightarrow> 'a) \<Rightarrow> nat \<Rightarrow> ('a \<rightharpoonup> 'a) \<Rightarrow> bool" where
  "chk_inv ps V e po par k D \<longleftrightarrow> idom_tree V e po D \<and>
     (\<forall>x\<in>V. k \<le> po x \<longrightarrow> x \<in> dom D) \<and>
     (\<forall>c\<in>dom D - {e}. par c \<in> dom D \<and> meet ps e D c \<subseteq> anc e D c \<and>
        (\<forall>y\<in>anc e D c - {c}. y \<in> anc e D (par c) \<or> (k \<le> po y \<and> po c < k))) \<and>
     (\<forall>c\<in>dom D. anc e D c \<subseteq> anc e (par_map V e par) c \<and> (\<forall>d. dominates ps e d c \<longrightarrow> d \<in> anc e D c))"

lemma par_map_tree: "ordered_cfg ps V e po par \<Longrightarrow> idom_tree V e po (par_map V e par)"
  by (auto simp: ordered_cfg_def idom_tree_def par_map_def dom_def)

lemma chk_inv_start:
  assumes "ordered_cfg ps V e po par"
  shows "chk_inv ps V e po par (po e) [e \<mapsto> e]"
proof -
  have e: "e \<in> V" "\<And>b. b \<in> V \<Longrightarrow> po b \<le> po e" "inj_on po V" using assms by (auto simp: ordered_cfg_def)
  then have "x = e" if "x \<in> V" "po e \<le> po x" for x
    using that inj_onD [OF e(3), of x e] by fastforce
  then show ?thesis using e by (auto simp: chk_inv_def idom_tree_def dominates_entry)
qed

lemma chk_inv_next_round:
  assumes g: "ordered_cfg ps V e po par" and inv: "chk_inv ps V e po par 0 D"
  shows "chk_inv ps V e po par (Suc (po e)) D"
  using inv unfolding chk_inv_def by auto

text \<open>A path along \<open>par\<close> from an ancestor.\<close>

lemma par_path:
  assumes g: "ordered_cfg ps V e po par" and c: "c \<in> V" and b: "b \<in> anc e (par_map V e par) c"
    and p: "path_to ps e p b"
  shows "\<exists>q. path_to ps e (p @ q) c \<and> (\<forall>x\<in>set q. po x < po b)"
proof -
  have tree: "idom_tree V e po (par_map V e par)" by (rule par_map_tree [OF g])
  have "c \<in> dom (par_map V e par)" using c by (auto simp: par_map_def)
  then show ?thesis using b
  proof (induction c rule: climb_induct [OF tree, consumes 1, case_names entry up])
    case entry
    then show ?case using p by (intro exI [of _ "[]"]) simp
  next
    case (up c d)
    show ?case
    proof (cases "b = c")
      case True
      then show ?thesis using p by (intro exI [of _ "[]"]) simp
    next
      case False
      then have bd: "b \<in> anc e (par_map V e par) d" using up by (auto simp: anc_unfold)
      then obtain q where q: "path_to ps e (p @ q) d" "\<forall>x\<in>set q. po x < po b" using up by blast
      have "d = par c" "c \<in> V" using up(1,2) by (auto simp: par_map_def split: if_splits)
      then have "d \<in> set (ps c)" using g up(1) by (simp add: ordered_cfg_def)
      then have "path_to ps e (p @ (q @ [c])) c" using path_step [OF q(1)] by simp
      moreover have "po c < po b" using anc_po [OF tree up(3) bd] up(4) by auto
      ultimately show ?thesis using q(2) by (intro exI [of _ "q @ [c]"]) auto
    qed
  qed
qed

text \<open>One update, split into the facts it has to keep.\<close>

definition chk_update :: "('a \<Rightarrow> 'a list) \<Rightarrow> 'a set \<Rightarrow> 'a \<Rightarrow> ('a \<Rightarrow> nat) \<Rightarrow> ('a \<Rightarrow> 'a) \<Rightarrow> 'a \<Rightarrow> 'a \<Rightarrow> ('a \<rightharpoonup> 'a) \<Rightarrow> bool" where
  "chk_update ps V e po par b n D \<longleftrightarrow> ordered_cfg ps V e po par \<and> chk_inv ps V e po par (Suc (po b)) D \<and>
     b \<in> V \<and> b \<noteq> e \<and> n \<in> dom D \<and> anc e D n = meet ps e D b"

lemma chk_update_obs:
  assumes u: "chk_update ps V e po par b n D"
  shows "idom_tree V e po D" "inj_on po V" "dom D \<subseteq> V" "b \<in> V" "b \<noteq> e" "n \<in> dom D" "par b \<in> dom D" "par b \<in> set (ps b)"
    "po b < po (par b)" "po b < po n" "anc e D n = meet ps e D b" "anc e D n \<subseteq> anc e D (par b)"
    "\<And>c. c \<in> dom D - {e} \<Longrightarrow> par c \<in> dom D \<and> par c \<in> set (ps c) \<and> po c < po (par c) \<and> meet ps e D c \<subseteq> anc e D c"
    "\<And>c y. c \<in> dom D - {e} \<Longrightarrow> y \<in> anc e D c - {c} \<Longrightarrow> y \<in> anc e D (par c) \<or> (po b < po y \<and> po c \<le> po b)"
    "\<And>c. c \<in> dom D \<Longrightarrow> anc e D c \<subseteq> anc e (par_map V e par) c"
    "\<And>c d. c \<in> dom D \<Longrightarrow> dominates ps e d c \<Longrightarrow> d \<in> anc e D c"
    "\<And>x. x \<in> V \<Longrightarrow> po b < po x \<Longrightarrow> x \<in> dom D"
proof -
  have g: "ordered_cfg ps V e po par" and inv: "chk_inv ps V e po par (Suc (po b)) D"
    and b: "b \<in> V" "b \<noteq> e" and n: "n \<in> dom D" "anc e D n = meet ps e D b"
    using u by (simp_all add: chk_update_def)
  show t: "idom_tree V e po D" and "dom D \<subseteq> V" using inv by (auto simp: chk_inv_def idom_tree_def)
  show "inj_on po V" using g by (simp add: ordered_cfg_def)
  show "b \<in> V" "b \<noteq> e" "n \<in> dom D" "anc e D n = meet ps e D b" by (fact b n)+
  show f: "x \<in> dom D" if "x \<in> V" "po b < po x" for x using inv that unfolding chk_inv_def by (meson Suc_leI)
  show pb: "par b \<in> set (ps b)" "po b < po (par b)" using g b by (simp_all add: ordered_cfg_def)
  moreover have "par b \<in> V" using g b pb(1) by (auto simp: ordered_cfg_def)
  ultimately show pd: "par b \<in> dom D" using f by blast
  show np: "anc e D n \<subseteq> anc e D (par b)" using pd pb(1) by (auto simp: n(2) meet_def)
  then have "n \<in> anc e D (par b)" using anc_self [of n e D] by blast
  then have "n = par b \<or> po (par b) < po n" using anc_po [OF t pd] by blast
  then show "po b < po n" using pb(2) by auto
  show "par c \<in> dom D \<and> par c \<in> set (ps c) \<and> po c < po (par c) \<and> meet ps e D c \<subseteq> anc e D c" if "c \<in> dom D - {e}" for c
    using inv g that \<open>dom D \<subseteq> V\<close> unfolding chk_inv_def ordered_cfg_def by blast
  show "y \<in> anc e D (par c) \<or> (po b < po y \<and> po c \<le> po b)" if "c \<in> dom D - {e}" "y \<in> anc e D c - {c}" for c y
    using inv that unfolding chk_inv_def less_Suc_eq_le Suc_le_eq by blast
  show "anc e D c \<subseteq> anc e (par_map V e par) c" if "c \<in> dom D" for c using inv that unfolding chk_inv_def by blast
  show "d \<in> anc e D c" if "c \<in> dom D" "dominates ps e d c" for c d using inv that unfolding chk_inv_def by blast
qed

lemma chk_update_anc:
  assumes u: "chk_update ps V e po par b n D"
  shows "anc e (D(b \<mapsto> n)) b = insert b (anc e D n)"
    and "c \<in> dom D \<Longrightarrow> b \<notin> anc e D c \<Longrightarrow> anc e (D(b \<mapsto> n)) c = anc e D c"
    and "c \<in> dom D \<Longrightarrow> b \<in> anc e D c \<Longrightarrow> anc e (D(b \<mapsto> n)) c = {y \<in> anc e D c. po y < po b} \<union> insert b (anc e D n)"
    and "c \<in> dom D \<Longrightarrow> anc e (D(b \<mapsto> n)) c \<subseteq> anc e D c"
    and "meet ps e (D(b \<mapsto> n)) c \<subseteq> meet ps e D c"
proof -
  note o = chk_update_obs [OF u]
  show "anc e (D(b \<mapsto> n)) b = insert b (anc e D n)" by (rule anc_upd_self [OF o(1,4-6,10)])
  show same: "c \<in> dom D \<Longrightarrow> b \<notin> anc e D c \<Longrightarrow> anc e (D(b \<mapsto> n)) c = anc e D c" for c
    by (rule anc_upd_same [OF o(1)])
  show upd: "c \<in> dom D \<Longrightarrow> b \<in> anc e D c \<Longrightarrow>
      anc e (D(b \<mapsto> n)) c = {y \<in> anc e D c. po y < po b} \<union> insert b (anc e D n)" for c
    by (rule anc_upd [OF o(1,4-6,10)])
  have sub: "c \<in> dom D \<Longrightarrow> anc e (D(b \<mapsto> n)) c \<subseteq> anc e D c" for c
  proof (cases "b \<in> anc e D c")
    case True
    assume c: "c \<in> dom D"
    have "b \<in> dom D" using anc_po [OF o(1) c True] by blast
    then have "anc e D n \<subseteq> anc e D b" using o(5,11) o(13) [of b] by blast
    then have "anc e D n \<subseteq> anc e D c" using anc_sub [OF True] by blast
    then show ?thesis using upd [OF c True] True by blast
  qed (use same in blast)
  show "c \<in> dom D \<Longrightarrow> anc e (D(b \<mapsto> n)) c \<subseteq> anc e D c" by (rule sub)
  show "meet ps e (D(b \<mapsto> n)) c \<subseteq> meet ps e D c"
  proof
    fix x assume x: "x \<in> meet ps e (D(b \<mapsto> n)) c"
    have "x \<in> anc e D p" if "p \<in> set (ps c) \<inter> dom D" for p
    proof -
      have "p \<in> set (ps c) \<inter> dom (D(b \<mapsto> n))" using that by auto
      then have "x \<in> anc e (D(b \<mapsto> n)) p" using x unfolding meet_def by blast
      then show ?thesis using sub that by blast
    qed
    then show "x \<in> meet ps e D c" unfolding meet_def by blast
  qed
qed

lemma chk_update_eq:
  assumes u: "chk_update ps V e po par b n D" and x: "x \<in> dom D" "po x \<le> po b"
  shows "x = b \<or> po x < po b"
  using x chk_update_obs(2-4) [OF u] inj_onD [of po V x b] by fastforce

lemma chk_update_meet:
  assumes u: "chk_update ps V e po par b n D" and c: "c \<in> insert b (dom D) - {e}"
  shows "meet ps e (D(b \<mapsto> n)) c \<subseteq> anc e (D(b \<mapsto> n)) c"
proof -
  note o = chk_update_obs [OF u] and a = chk_update_anc [OF u]
  show ?thesis
  proof (cases "c = b")
    case True
    then show ?thesis using a(1) a(5) [of b] o(11) by blast
  next
    case False
    then have cd: "c \<in> dom D - {e}" using c by auto
    show ?thesis
    proof (cases "b \<in> anc e D c")
      case False
      then show ?thesis using a(2) [of c] a(5) [of c] o(13) [OF cd] cd by blast
    next
      case True
      have pc: "par c \<in> dom D" "par c \<in> set (ps c)" using o(13) [OF cd] by simp_all
      have bp: "b \<in> anc e D (par c)" using o(14) [OF cd, of b] True False by auto
      show ?thesis
      proof
        fix x assume x: "x \<in> meet ps e (D(b \<mapsto> n)) c"
        then have xc: "x \<in> anc e D c" using a(5) [of c] o(13) [OF cd] by blast
        then have xd: "x \<in> dom D" using anc_po [OF o(1)] cd by blast
        show "x \<in> anc e (D(b \<mapsto> n)) c"
        proof (cases "po x \<le> po b")
          case True
          then show ?thesis using chk_update_eq [OF u xd] a(3) [of c] \<open>b \<in> anc e D c\<close> xc cd by blast
        next
          case False
          have "par c \<in> set (ps c) \<inter> dom (D(b \<mapsto> n))" using pc by auto
          then have "x \<in> anc e (D(b \<mapsto> n)) (par c)" using x unfolding meet_def by blast
          then have "x \<in> anc e D n" using a(3) [OF pc(1) bp] False by auto
          then show ?thesis using a(3) [of c] \<open>b \<in> anc e D c\<close> cd by blast
        qed
      qed
    qed
  qed
qed

lemma chk_update_chain:
  assumes u: "chk_update ps V e po par b n D" and c: "c \<in> insert b (dom D) - {e}"
    and y: "y \<in> anc e (D(b \<mapsto> n)) c - {c}"
  shows "y \<in> anc e (D(b \<mapsto> n)) (par c) \<or> (po b \<le> po y \<and> po c < po b)"
proof -
  note o = chk_update_obs [OF u] and a = chk_update_anc [OF u]
  have low: "b \<notin> anc e D x" if "x \<in> dom D" "po b < po x" for x using anc_po [OF o(1) that(1), of b] that(2) by auto
  show ?thesis
  proof (cases "c = b")
    case True
    have "anc e (D(b \<mapsto> n)) (par b) = anc e D (par b)" using a(2) [OF o(7) low [OF o(7,9)]] .
    moreover have "y \<in> anc e D n" using y a(1) True by auto
    ultimately show ?thesis using o(12) True by blast
  next
    case False
    then have cd: "c \<in> dom D - {e}" using c by auto
    have pc: "par c \<in> dom D" "po c < po (par c)" using o(13) [OF cd] by simp_all
    show ?thesis
    proof (cases "po c \<le> po b")
      case False
      then have "anc e (D(b \<mapsto> n)) c = anc e D c" "anc e (D(b \<mapsto> n)) (par c) = anc e D (par c)"
        using a(2) low pc cd by auto
      then show ?thesis using o(14) [OF cd, of y] y False by auto
    next
      case True
      then have cb: "po c < po b" using chk_update_eq [OF u, of c] cd \<open>c \<noteq> b\<close> by auto
      show ?thesis
      proof (cases "po b \<le> po y")
        case False
        have "y \<in> anc e D c - {c}" using a(4) [of c] y cd by blast
        then have "y \<in> anc e D (par c)" using o(14) [OF cd, of y] False by auto
        then show ?thesis using a(2) [OF pc(1)] a(3) [OF pc(1)] False by (cases "b \<in> anc e D (par c)") auto
      qed (use cb in simp)
    qed
  qed
qed

lemma chk_update_dominators:
  assumes u: "chk_update ps V e po par b n D" and c: "c \<in> insert b (dom D)"
  shows "anc e (D(b \<mapsto> n)) c \<subseteq> anc e (par_map V e par) c"
    and "dominates ps e d c \<Longrightarrow> d \<in> anc e (D(b \<mapsto> n)) c"
proof -
  note o = chk_update_obs [OF u] and a = chk_update_anc [OF u]
  have g: "ordered_cfg ps V e po par" using u by (simp add: chk_update_def)
  have "anc e (par_map V e par) b = insert b (anc e (par_map V e par) (par b))"
    using o(4,5) by (intro anc_unfold) (simp_all add: par_map_def)
  then have tb: "insert b (anc e D n) \<subseteq> anc e (par_map V e par) b" using o(12) o(15) [OF o(7)] by blast
  show "anc e (D(b \<mapsto> n)) c \<subseteq> anc e (par_map V e par) c"
    using c tb a(1) a(4) [of c] o(15) [of c] by blast
  have db: "d \<in> insert b (anc e D n)" if d: "dominates ps e d b" for d
  proof (cases "d = b")
    case False
    have "d \<in> anc e D p" if "p \<in> set (ps b) \<inter> dom D" for p
      using dominates_step [OF d False, of p] o(16) [of p] that by blast
    then show ?thesis unfolding o(11) meet_def by blast
  qed simp
  show "d \<in> anc e (D(b \<mapsto> n)) c" if d: "dominates ps e d c"
  proof (cases "c \<in> dom D \<and> c \<noteq> b")
    case False
    then show ?thesis using c db [of d] a(1) d by auto
  next
    case True
    then have dc: "d \<in> anc e D c" using o(16) d by blast
    then have dd: "d \<in> dom D" using anc_po [OF o(1)] True by blast
    show ?thesis
    proof (cases "b \<in> anc e D c")
      case False
      then show ?thesis using a(2) dc True by blast
    next
      case bc: True
      show ?thesis
      proof (cases "po d \<le> po b")
        case True
        then show ?thesis using chk_update_eq [OF u dd] a(3) [of c] bc dc \<open>c \<in> dom D \<and> c \<noteq> b\<close> by blast
      next
        case False
        have bt: "b \<in> anc e (par_map V e par) c" using o(15) [of c] bc True by blast
        have "d \<in> set p" if p: "path_to ps e p b" for p
        proof -
          obtain q where q: "path_to ps e (p @ q) c" "\<forall>x\<in>set q. po x < po b"
            using par_path [OF g _ bt p] True o(3) by blast
          then have "d \<in> set (p @ q)" using d unfolding dominates_def by blast
          then show ?thesis using q(2) False by auto
        qed
        then have "dominates ps e d b" unfolding dominates_def by blast
        then show ?thesis using db [of d] a(3) [of c] bc True by blast
      qed
    qed
  qed
qed

lemma chk_update_inv:
  assumes u: "chk_update ps V e po par b n D"
  shows "chk_inv ps V e po par (po b) (D(b \<mapsto> n))"
proof -
  note o = chk_update_obs [OF u]
  have d: "dom (D(b \<mapsto> n)) = insert b (dom D)" by auto
  have 1: "x \<in> insert b (dom D)" if "x \<in> V" "po b \<le> po x" for x
    using that o(17) [of x] inj_onD [OF o(2), of x b] o(4) by fastforce
  have 2: "par c \<in> insert b (dom D)" if "c \<in> insert b (dom D) - {e}" for c
    using that o(7,13) by (cases "c = b") auto
  show ?thesis
    unfolding chk_inv_def d
  proof (intro conjI ballI allI impI)
    show "idom_tree V e po (D(b \<mapsto> n))" by (rule tree_upd [OF o(1,4-6,10)])
    show "x \<in> insert b (dom D)" if "x \<in> V" "po b \<le> po x" for x by (rule 1 [OF that])
    show "par c \<in> insert b (dom D)" if "c \<in> insert b (dom D) - {e}" for c by (rule 2 [OF that])
    show "meet ps e (D(b \<mapsto> n)) c \<subseteq> anc e (D(b \<mapsto> n)) c" if "c \<in> insert b (dom D) - {e}" for c
      by (rule chk_update_meet [OF u that])
    show "y \<in> anc e (D(b \<mapsto> n)) (par c) \<or> (po b \<le> po y \<and> po c < po b)"
      if "c \<in> insert b (dom D) - {e}" "y \<in> anc e (D(b \<mapsto> n)) c - {c}" for c y
      by (rule chk_update_chain [OF u that])
    show "anc e (D(b \<mapsto> n)) c \<subseteq> anc e (par_map V e par) c" if "c \<in> insert b (dom D)" for c
      by (rule chk_update_dominators(1) [OF u that])
    show "d \<in> anc e (D(b \<mapsto> n)) c" if "c \<in> insert b (dom D)" "dominates ps e d c" for c d
      by (rule chk_update_dominators(2) [OF u that])
  qed
qed

text \<open>An update never moves a node down.\<close>

lemma chk_update_lifts:
  assumes u: "chk_update ps V e po par b n D" and d: "D b = Some d" "d \<noteq> n"
  shows "po d < po n"
proof -
  note o = chk_update_obs [OF u]
  have "anc e D b = insert b (anc e D d)" using anc_unfold [of b e D d] o(5) d(1) by blast
  moreover have "n \<in> anc e D b" using o(13) [of b] o(5,11) d(1) anc_self [of n e D] by blast
  moreover have "n \<noteq> b" using o(10) by auto
  ultimately have "n \<in> anc e D d" by blast
  moreover have "d \<in> dom D" using o(1,5) d(1) by (auto simp: idom_tree_def)
  ultimately show ?thesis using anc_po [OF o(1), of d n] d(2) by blast
qed

text \<open>In a fixed point the ancestors are exactly the dominators.\<close>

lemma chk_fixpoint:
  assumes g: "ordered_cfg ps V e po par" and inv: "chk_inv ps V e po par 0 D"
    and fix_pt: "\<And>b. b \<in> V \<Longrightarrow> b \<noteq> e \<Longrightarrow> anc e D b = insert b (meet ps e D b)" and b: "b \<in> V"
  shows "anc e D b = {a. dominates ps e a b}"
proof
  have D: "V \<subseteq> dom D" using inv by (auto simp: chk_inv_def)
  then show "{a. dominates ps e a b} \<subseteq> anc e D b" using inv b by (auto simp: chk_inv_def)
  show "anc e D b \<subseteq> {a. dominates ps e a b}"
  proof (intro subsetI CollectI, unfold dominates_def, intro allI impI)
    fix a p assume "a \<in> anc e D b" "path_to ps e p b"
    from this(2,1) b show "a \<in> set p"
    proof (induction arbitrary: a rule: path_to.induct)
      case path_start
      then show ?case by simp
    next
      case (path_step p x b)
      show ?case
      proof (cases "b = e")
        case False
        have x: "x \<in> V" using g path_step by (auto simp: ordered_cfg_def)
        have "a = b \<or> a \<in> meet ps e D b" using fix_pt [OF path_step.prems(2) False] path_step.prems(1) by blast
        then show ?thesis using path_step x D unfolding meet_def by auto
      qed (use path_step in simp)
    qed
  qed
qed

end
