(* ===== verification/Idom.thy ===== *)
theory Idom
  imports DomTree
begin

text \<open>
  \<open>Dominators::create_idom\<close> computes the immediate dominators: \<open>intersect\<close> finds the meet of
  two nodes of the forest, each update of the loop is an update of \<open>DomTree\<close>, and the loop
  ends because every change moves a node up.
\<close>

section \<open>The map as a forest\<close>

text \<open>The forest of one function, whose blocks are \<open>V\<close>.\<close>

definition tree_of :: "vid set \<Rightarrow> (vid \<rightharpoonup> vid option) \<Rightarrow> vid \<rightharpoonup> vid" where
  "tree_of V m b = (if b \<in> V then case m b of Some (Some d) \<Rightarrow> Some d | _ \<Rightarrow> None else None)"

lemma tree_of_Some: "tree_of V m b = Some d \<longleftrightarrow> b \<in> V \<and> m b = Some (Some d)"
  by (auto simp: tree_of_def split: option.splits)

lemma tree_of_upd: "b \<in> V \<Longrightarrow> tree_of V (m(b \<mapsto> Some n)) = (tree_of V m)(b \<mapsto> n)"
  by (auto simp: tree_of_def fun_eq_iff)

lemma climb_Some [simp]: "tree_of V m b = Some d \<Longrightarrow> climb msg m b = Inr d"
  by (simp add: tree_of_Some climb_def get_idom_def)

section \<open>\<open>intersect\<close>\<close>

lemma climb_loop:
  assumes tree: "idom_tree V e po (tree_of V m)" and b: "b \<in> dom (tree_of V m)" and k: "k \<le> po e"
  shows "\<exists>x. whileR (\<lambda>b. po b < k) (climb msg m) b = Some (Inr x) \<and> x \<in> dom (tree_of V m) \<and> k \<le> po x \<and>
    anc e (tree_of V m) x = {y \<in> anc e (tree_of V m) b. k \<le> po y} \<and> (po b < k \<or> x = b) \<and> po b \<le> po x"
proof -
  let ?D = "tree_of V m"
  let ?I = "\<lambda>x. x \<in> dom ?D \<and> x \<in> anc e ?D b \<and> {y \<in> anc e ?D b. k \<le> po y} \<subseteq> anc e ?D x \<and> (po b < k \<or> x = b)"
  have "\<exists>x. whileR (\<lambda>b. po b < k) (climb msg m) b = Some (Inr x) \<and> ?I x \<and> \<not> po x < k"
  proof (rule whileR_total [where R = "measure (\<lambda>x. po e - po x)"])
    show "?I b" using b by simp
    fix x assume I: "?I x" and lt: "po x < k"
    then obtain d where d: "?D x = Some d" by blast
    have ne: "x \<noteq> e" using lt k by auto
    have dd: "d \<in> dom ?D" "po x < po d" using tree d ne by (auto simp: idom_tree_def)
    have ax: "anc e ?D x = insert x (anc e ?D d)" using anc_unfold [of x e ?D d] ne d by blast
    have "{y \<in> anc e ?D b. k \<le> po y} \<subseteq> anc e ?D d" using I ax lt by auto
    moreover have "d \<in> anc e ?D b" using anc_sub [of x e ?D b] I ax anc_self [of d e ?D] by blast
    moreover have "po b < k"
    proof (cases "x = b")
      case False
      then show ?thesis using I by blast
    qed (use lt in simp)
    moreover have "po d \<le> po e" using tree dd(1) by (auto simp: idom_tree_def)
    ultimately show "\<exists>x'. climb msg m x = Inr x' \<and> ?I x' \<and> (x', x) \<in> measure (\<lambda>x. po e - po x)"
      using d dd by (intro exI [of _ d]) auto
  qed simp
  then obtain x where x: "whileR (\<lambda>b. po b < k) (climb msg m) b = Some (Inr x)" "?I x" and nk: "\<not> po x < k" by blast
  then have kx: "k \<le> po x" by simp
  have "anc e ?D x \<subseteq> {y \<in> anc e ?D b. k \<le> po y}"
    using anc_sub [of x e ?D b] anc_po [OF tree, of x] x(2) kx by fastforce
  moreover have "po b \<le> po x" using anc_po [OF tree b, of x] x(2) by auto
  ultimately show ?thesis using x kx by blast
qed

lemma intersect_meet:
  assumes tree: "idom_tree V e (post_id ids) (tree_of V m)" and inj: "inj_on (post_id ids) V"
    and b: "b1 \<in> dom (tree_of V m)" "b2 \<in> dom (tree_of V m)"
  shows "\<exists>z\<in>dom (tree_of V m). intersect ids m b1 b2 = Inr z \<and>
    anc e (tree_of V m) z = anc e (tree_of V m) b1 \<inter> anc e (tree_of V m) b2"
proof -
  let ?D = "tree_of V m" and ?po = "post_id ids"
  let ?I = "\<lambda>(x, y). x \<in> dom ?D \<and> y \<in> dom ?D \<and> anc e ?D x \<inter> anc e ?D y = anc e ?D b1 \<inter> anc e ?D b2"
  have le: "?po x \<le> ?po e" if "x \<in> dom ?D" for x using tree that by (auto simp: idom_tree_def)
  have "\<exists>z. whileR (\<lambda>(b1, b2). b1 \<noteq> b2) (intersect_step ids m) (b1, b2) = Some (Inr z) \<and> ?I z \<and> \<not> (case z of (b1, b2) \<Rightarrow> b1 \<noteq> b2)"
  proof (rule whileR_total [where R = "measure (\<lambda>(x, y). (?po e - ?po x) + (?po e - ?po y))"])
    show "?I (b1, b2)" using b by simp
    fix st assume "?I st" "case st of (b1, b2) \<Rightarrow> b1 \<noteq> b2"
    then obtain x y where st: "st = (x, y)" "x \<in> dom ?D" "y \<in> dom ?D" "x \<noteq> y"
      "anc e ?D x \<inter> anc e ?D y = anc e ?D b1 \<inter> anc e ?D b2" by (cases st) auto
    obtain x' where x': "whileR (\<lambda>b. ?po b < ?po y) (climb ''get_idom(b1)'' m) x = Some (Inr x')" "x' \<in> dom ?D"
      "?po y \<le> ?po x'" "anc e ?D x' = {z \<in> anc e ?D x. ?po y \<le> ?po z}" "?po x < ?po y \<or> x' = x" "?po x \<le> ?po x'"
      using climb_loop [OF tree st(2) le [OF st(3)]] by blast
    obtain y' where y': "whileR (\<lambda>b. ?po b < ?po x') (climb ''get_idom(b2)'' m) y = Some (Inr y')" "y' \<in> dom ?D"
      "?po x' \<le> ?po y'" "anc e ?D y' = {z \<in> anc e ?D y. ?po x' \<le> ?po z}" "?po y < ?po x' \<or> y' = y" "?po y \<le> ?po y'"
      using climb_loop [OF tree st(3) le [OF x'(2)]] by blast
    have "intersect_step ids m st = Inr (x', y')"
      using x'(1) y'(1) st(1) by (simp add: intersect_step_def outcome_def)
    moreover have "anc e ?D x' \<inter> anc e ?D y' = anc e ?D x \<inter> anc e ?D y"
    proof
      show "anc e ?D x' \<inter> anc e ?D y' \<subseteq> anc e ?D x \<inter> anc e ?D y" unfolding x'(4) y'(4) by blast
      show "anc e ?D x \<inter> anc e ?D y \<subseteq> anc e ?D x' \<inter> anc e ?D y'"
      proof
        fix z assume z: "z \<in> anc e ?D x \<inter> anc e ?D y"
        then have "?po y \<le> ?po z" using anc_po [OF tree st(3), of z] by auto
        then have zx: "z \<in> anc e ?D x'" using z unfolding x'(4) by blast
        then have "?po x' \<le> ?po z" using anc_po [OF tree x'(2), of z] by auto
        then show "z \<in> anc e ?D x' \<inter> anc e ?D y'" using z zx unfolding y'(4) by blast
      qed
    qed
    moreover have "?po x \<noteq> ?po y" using inj st(2-4) tree by (auto simp: idom_tree_def dest: inj_onD)
    then have "?po x < ?po x' \<or> ?po y < ?po y'" using x'(3,5) y'(3,5) by auto
    then have "(?po e - ?po x') + (?po e - ?po y') < (?po e - ?po x) + (?po e - ?po y)"
      using x'(6) y'(6) le [OF x'(2)] le [OF y'(2)] by linarith
    ultimately show "\<exists>z. intersect_step ids m st = Inr z \<and> ?I z \<and>
        (z, st) \<in> measure (\<lambda>(x, y). (?po e - ?po x) + (?po e - ?po y))"
      using st x'(2) y'(2) by (intro exI [of _ "(x', y')"]) simp
  qed simp
  then obtain z where "whileR (\<lambda>(b1, b2). b1 \<noteq> b2) (intersect_step ids m) (b1, b2) = Some (Inr (z, z))" "?I (z, z)"
    by (auto split: prod.splits)
  then show ?thesis by (intro bexI [of _ z]) (auto simp: intersect_def outcome_def)
qed

section \<open>One block\<close>

lemma get_idom_Some [simp]: "get_idom m (Some b) = at_map m b"
  by (simp add: get_idom_def)

lemma at_map_in: "b \<in> dom m \<Longrightarrow> at_map m b = Inr (the (m b))"
  by (auto simp: at_map_def)

lemma tree_dom: "b \<in> V \<Longrightarrow> V \<subseteq> dom m \<Longrightarrow> the (m b) \<noteq> None \<longleftrightarrow> b \<in> dom (tree_of V m)"
  by (auto simp: tree_of_def dom_def split: option.splits)

lemma find_processed_effect:
  assumes "V \<subseteq> dom m" and "set qs \<subseteq> V" and "set qs \<inter> dom (tree_of V m) \<noteq> {}"
  shows "\<exists>p\<in>set qs \<inter> dom (tree_of V m). find_processed m qs = Inr (Some p)"
  using assms(2,3)
proof (induction qs)
  case (Cons p qs)
  have p: "p \<in> V" "p \<in> dom m" using Cons.prems assms(1) by auto
  show ?case
  proof (cases "p \<in> dom (tree_of V m)")
    case True
    then show ?thesis using tree_dom [OF p(1) assms(1)] p(2) by (simp add: at_map_in)
  next
    case False
    then have "\<exists>q\<in>set qs \<inter> dom (tree_of V m). find_processed m qs = Inr (Some q)" using Cons by auto
    then show ?thesis using tree_dom [OF p(1) assms(1)] p(2) False by (simp add: at_map_in)
  qed
qed simp

lemma intersect_all_effect:
  assumes tree: "idom_tree V e (post_id ids) (tree_of V m)" and inj: "inj_on (post_id ids) V"
    and dom: "V \<subseteq> dom m" and "set qs \<subseteq> V" and "z \<in> dom (tree_of V m)"
  shows "\<exists>n\<in>dom (tree_of V m). intersect_all ids m pred qs z = Inr n \<and>
    anc e (tree_of V m) n =
      anc e (tree_of V m) z \<inter> (\<Inter>p\<in>(set qs - {pred}) \<inter> dom (tree_of V m). anc e (tree_of V m) p)"
  using assms(4,5)
proof (induction qs arbitrary: z)
  case (Cons p qs)
  let ?D = "tree_of V m"
  have p: "p \<in> V" "p \<in> dom m" using Cons.prems dom by auto
  show ?case
  proof (cases "p \<noteq> pred \<and> p \<in> dom ?D")
    case True
    obtain x where x: "x \<in> dom ?D" "intersect ids m p z = Inr x" "anc e ?D x = anc e ?D p \<inter> anc e ?D z"
      using intersect_meet [OF tree inj, of p z] True Cons.prems(2) by blast
    obtain n where n: "n \<in> dom ?D" "intersect_all ids m pred qs x = Inr n"
      "anc e ?D n = anc e ?D x \<inter> (\<Inter>p\<in>(set qs - {pred}) \<inter> dom ?D. anc e ?D p)"
      using Cons.IH [OF _ x(1)] Cons.prems(1) by auto
    have "(set (p # qs) - {pred}) \<inter> dom ?D = insert p ((set qs - {pred}) \<inter> dom ?D)" using True by auto
    then have "anc e ?D n = anc e ?D z \<inter> (\<Inter>p\<in>(set (p # qs) - {pred}) \<inter> dom ?D. anc e ?D p)"
      unfolding n(3) x(3) by auto
    then show ?thesis using n(1,2) x(2) True tree_dom [OF p(1) dom] p(2) by (intro bexI [of _ n]) (simp_all add: at_map_in)
  next
    case False
    then have eq: "(set (p # qs) - {pred}) \<inter> dom ?D = (set qs - {pred}) \<inter> dom ?D" by auto
    have "intersect_all ids m pred (p # qs) z = intersect_all ids m pred qs z"
      using False tree_dom [OF p(1) dom] p(2) by (auto simp: at_map_in)
    then show ?thesis using Cons.IH [OF _ Cons.prems(2)] Cons.prems(1) unfolding eq by auto
  qed
qed simp

definition cfg_of :: "'z ir_scheme \<Rightarrow> vid set \<Rightarrow> vid \<Rightarrow> (vid \<rightharpoonup> nat) \<Rightarrow> (vid \<Rightarrow> vid) \<Rightarrow> bool" where
  "cfg_of s V e ids par \<longleftrightarrow> ordered_cfg (preds s) V e (post_id ids) par \<and> V \<subseteq> dom (bbs s)"

lemma idom_block_effect:
  assumes g: "cfg_of s V e ids par" and inv: "chk_inv (preds s) V e (post_id ids) par (Suc (post_id ids b)) (tree_of V m)"
    and dom: "V \<subseteq> dom m" and b: "b \<in> V" "b \<noteq> e"
  shows "\<exists>n. chk_update (preds s) V e (post_id ids) par b n (tree_of V m) \<and>
    idom_block s ids e b (c, m) = Inr (if m b \<noteq> Some (Some n) then (True, m(b \<mapsto> Some n)) else (c, m))"
proof -
  let ?D = "tree_of V m" and ?po = "post_id ids"
  have og: "ordered_cfg (preds s) V e ?po par" using g by (simp add: cfg_of_def)
  have tree: "idom_tree V e ?po ?D" using inv by (simp add: chk_inv_def)
  have inj: "inj_on ?po V" using og by (simp add: ordered_cfg_def)
  obtain r where r: "bbs s b = Some r" using g b(1) by (auto simp: cfg_of_def)
  then have ps: "pre_bbs r = preds s b" by (simp add: preds_def)
  have sub: "set (preds s b) \<subseteq> V" and par: "par b \<in> set (preds s b)" "?po b < ?po (par b)"
    using og b by (auto simp: ordered_cfg_def)
  have "par b \<in> V" using par(1) sub by blast
  then have "par b \<in> dom ?D" using inv par(2) unfolding chk_inv_def by (meson Suc_leI)
  then have ne: "set (preds s b) \<inter> dom ?D \<noteq> {}" using par(1) by blast
  obtain p where p: "p \<in> set (preds s b) \<inter> dom ?D" "find_processed m (preds s b) = Inr (Some p)"
    using find_processed_effect [OF dom sub ne] by blast
  obtain n where n: "n \<in> dom ?D" "intersect_all ids m p (preds s b) p = Inr n"
    "anc e ?D n = anc e ?D p \<inter> (\<Inter>q\<in>(set (preds s b) - {p}) \<inter> dom ?D. anc e ?D q)"
    using intersect_all_effect [OF tree inj dom sub, of p p] p(1) by blast
  have "anc e ?D n = meet (preds s) e ?D b" using p(1) unfolding n(3) meet_def by blast
  then have "chk_update (preds s) V e ?po par b n ?D" using og inv b n(1) by (simp add: chk_update_def)
  moreover obtain old where "m b = Some old" using b(1) dom by blast
  then have "idom_block s ids e b (c, m) = Inr (if m b \<noteq> Some (Some n) then (True, m(b \<mapsto> Some n)) else (c, m))"
    using b(2) r p(2) n(2) ps by (simp add: idom_block_def at_map_def deref_def)
  ultimately show ?thesis by blast
qed

section \<open>One round\<close>

text \<open>How far the nodes are from the entry; a node outside the forest is farthest.\<close>

definition idom_pot :: "vid set \<Rightarrow> vid \<Rightarrow> (vid \<Rightarrow> nat) \<Rightarrow> (vid \<rightharpoonup> vid) \<Rightarrow> nat" where
  "idom_pot V e po D = (\<Sum>b\<in>V. case D b of None \<Rightarrow> Suc (po e) | Some d \<Rightarrow> po e - po d)"

lemma idom_pot_upd:
  assumes u: "chk_update ps V e po par b n D" and d: "D b \<noteq> Some n"
  shows "idom_pot V e po (D(b \<mapsto> n)) < idom_pot V e po D"
proof -
  note o = chk_update_obs [OF u]
  have fin: "finite V" using u by (simp add: chk_update_def ordered_cfg_def)
  have le: "po x \<le> po e" if "x \<in> dom D" for x using o(1) that by (auto simp: idom_tree_def)
  have "(case (D(b \<mapsto> n)) b of None \<Rightarrow> Suc (po e) | Some d \<Rightarrow> po e - po d) <
    (case D b of None \<Rightarrow> Suc (po e) | Some d \<Rightarrow> po e - po d)"
  proof (cases "D b")
    case (Some d)
    then have "po d < po n" using chk_update_lifts [OF u Some] assms(2) by simp
    then show ?thesis using Some le [OF o(6)] by simp
  qed simp
  then show ?thesis unfolding idom_pot_def using fin o(4) by (intro sum_strict_mono_ex1) auto
qed

lemma chk_inv_skip_entry:
  assumes g: "ordered_cfg ps V e po par" and inv: "chk_inv ps V e po par (Suc (po e)) D"
  shows "chk_inv ps V e po par (po e) D"
proof -
  have e: "\<And>b. b \<in> V \<Longrightarrow> po b \<le> po e" "inj_on po V" "e \<in> V" using g by (auto simp: ordered_cfg_def)
  have tree: "idom_tree V e po D" using inv by (simp add: chk_inv_def)
  have top: "x = e" if "x \<in> V" "po e \<le> po x" for x
    using that e(1) [of x] e(3) inj_onD [OF e(2), of x e] by fastforce
  have le: "\<not> Suc (po e) \<le> po y" if "c \<in> dom D" "y \<in> anc e D c" for c y
  proof -
    have "y \<in> V" using anc_po [OF tree that] tree unfolding idom_tree_def by blast
    then show ?thesis using e(1) [of y] by linarith
  qed
  have "e \<in> dom D" using tree by (auto simp: idom_tree_def)
  then show ?thesis using inv top le unfolding chk_inv_def by blast
qed

lemma chk_inv_begin:
  assumes "ordered_cfg ps V e po par"
  shows "chk_inv ps V e po par (Suc (po e)) [e \<mapsto> e]"
proof -
  have "\<not> Suc (po e) \<le> po x" if "x \<in> V" for x using that assms by (force simp: ordered_cfg_def)
  then show ?thesis using chk_inv_start [OF assms] unfolding chk_inv_def by auto
qed

text \<open>What the blocks with numbers below \<open>k\<close> do to the flag and the map.\<close>

definition round_post :: "(vid \<Rightarrow> vid list) \<Rightarrow> vid set \<Rightarrow> vid \<Rightarrow> (vid \<Rightarrow> nat) \<Rightarrow> (vid \<Rightarrow> vid) \<Rightarrow> nat \<Rightarrow>
    bool \<Rightarrow> (vid \<rightharpoonup> vid option) \<Rightarrow> bool \<Rightarrow> (vid \<rightharpoonup> vid option) \<Rightarrow> bool" where
  "round_post ps V e po par k c m c' m' \<longleftrightarrow> V \<subseteq> dom m' \<and> (\<forall>x. x \<notin> V \<longrightarrow> m' x = m x) \<and>
     chk_inv ps V e po par 0 (tree_of V m') \<and> (c \<longrightarrow> c') \<and>
     idom_pot V e po (tree_of V m') \<le> idom_pot V e po (tree_of V m) \<and>
     (\<not> c \<longrightarrow> c' \<longrightarrow> idom_pot V e po (tree_of V m') < idom_pot V e po (tree_of V m)) \<and>
     (\<not> c' \<longrightarrow> m' = m \<and> (\<forall>b\<in>V. po b < k \<longrightarrow> b \<noteq> e \<longrightarrow>
        anc e (tree_of V m) b = insert b (meet ps e (tree_of V m) b)))"

lemma round_post_block:
  assumes u: "chk_update ps V e po par b n (tree_of V m)" and k: "po b = k"
    and st: "(c1, m1) = (if m b \<noteq> Some (Some n) then (True, m(b \<mapsto> Some n)) else (c, m))"
    and post: "round_post ps V e po par k c1 m1 c' m'"
  shows "round_post ps V e po par (Suc k) c m c' m'"
proof -
  note o = chk_update_obs [OF u]
  show ?thesis
  proof (cases "m b = Some (Some n)")
    case True
    then have eq: "c1 = c" "m1 = m" using st by simp_all
    have "tree_of V m b = Some n" using True o(4) by (simp add: tree_of_Some)
    then have "anc e (tree_of V m) b = insert b (meet ps e (tree_of V m) b)"
      using anc_unfold [of b e "tree_of V m" n] o(5,11) by simp
    moreover have "x = b" if "x \<in> V" "po x < Suc k" "\<not> po x < k" for x
      using inj_onD [OF o(2), of x b] that o(4) k by simp
    ultimately show ?thesis using post unfolding round_post_def eq by blast
  next
    case False
    then have eq: "c1" "m1 = m(b \<mapsto> Some n)" using st by simp_all
    have "tree_of V m b \<noteq> Some n" using False o(4) by (simp add: tree_of_Some)
    then have "idom_pot V e po (tree_of V m1) < idom_pot V e po (tree_of V m)"
      using idom_pot_upd [OF u] tree_of_upd [OF o(4)] eq(2) by simp
    moreover have "m1 x = m x" if "x \<notin> V" for x using that eq(2) o(4) by auto
    ultimately show ?thesis using post eq(1) unfolding round_post_def by fastforce
  qed
qed

lemma idom_blocks_effect:
  assumes g: "cfg_of s V e ids par" and l: "set l = V" "\<And>i. i < length l \<Longrightarrow> post_id ids (l ! i) = i"
    and "k \<le> length l" and "chk_inv (preds s) V e (post_id ids) par k (tree_of V m)" and "V \<subseteq> dom m"
  shows "\<exists>c' m'. idom_blocks s ids e (rev (take k l)) (c, m) = Inr (c', m') \<and>
    round_post (preds s) V e (post_id ids) par k c m c' m'"
  using assms(4-)
proof (induction k arbitrary: c m)
  case 0
  then show ?case by (auto simp: round_post_def)
next
  case (Suc k)
  let ?b = "l ! k" and ?po = "post_id ids"
  have og: "ordered_cfg (preds s) V e ?po par" using g by (simp add: cfg_of_def)
  have k: "k < length l" using Suc.prems(1) by simp
  then have b: "?po ?b = k" "?b \<in> V" using l by auto
  have rpo: "rev (take (Suc k) l) = ?b # rev (take k l)" using k by (simp add: take_Suc_conv_app_nth)
  show ?case
  proof (cases "?b = e")
    case True
    then have "chk_inv (preds s) V e ?po par k (tree_of V m)" using chk_inv_skip_entry [OF og] Suc.prems(2) b(1) by simp
    then obtain c' m' where r: "idom_blocks s ids e (rev (take k l)) (c, m) = Inr (c', m')"
      "round_post (preds s) V e ?po par k c m c' m'" using Suc.IH [of m c] Suc.prems k by auto
    have "x = e" if "x \<in> V" "?po x < Suc k" "\<not> ?po x < k" for x
      using inj_onD [of ?po V x ?b] that og True b by (simp add: ordered_cfg_def)
    then have "round_post (preds s) V e ?po par (Suc k) c m c' m'" using r(2) unfolding round_post_def by blast
    then show ?thesis using r(1) rpo True by (simp add: idom_block_def)
  next
    case False
    obtain n where u: "chk_update (preds s) V e ?po par ?b n (tree_of V m)"
      and blk: "idom_block s ids e ?b (c, m) = Inr (if m ?b \<noteq> Some (Some n) then (True, m(?b \<mapsto> Some n)) else (c, m))"
      using idom_block_effect [OF g _ Suc.prems(3) b(2) False, of c] Suc.prems(2) b(1) by auto
    obtain c1 m1 where st: "(c1, m1) = (if m ?b \<noteq> Some (Some n) then (True, m(?b \<mapsto> Some n)) else (c, m))"
      by (metis surj_pair)
    have t1: "tree_of V m1 = (tree_of V m)(?b \<mapsto> n)"
    proof (cases "m ?b = Some (Some n)")
      case True
      then have "m1 = m" "tree_of V m ?b = Some n" using st b(2) by (simp_all add: tree_of_Some)
      then show ?thesis by (simp add: fun_upd_idem)
    qed (use st tree_of_upd [OF b(2)] in simp)
    then have "chk_inv (preds s) V e ?po par k (tree_of V m1)" using chk_update_inv [OF u] b(1) by simp
    moreover have "V \<subseteq> dom m1" using st Suc.prems(3) by (auto split: if_splits)
    ultimately obtain c' m' where r: "idom_blocks s ids e (rev (take k l)) (c1, m1) = Inr (c', m')"
      "round_post (preds s) V e ?po par k c1 m1 c' m'" using Suc.IH [of m1 c1] k by auto
    have "idom_blocks s ids e (rev (take (Suc k) l)) (c, m) = Inr (c', m')"
      using r(1) blk st rpo by simp
    then show ?thesis using round_post_block [OF u b(1) st r(2)] by blast
  qed
qed

section \<open>The loop\<close>

lemma idom_loop:
  assumes g: "cfg_of s V e ids par" and l: "set l = V" "\<And>i. i < length l \<Longrightarrow> post_id ids (l ! i) = i"
    and last: "l \<noteq> []" "last l = e" and m0: "V \<subseteq> dom m0" "tree_of V m0 = [e \<mapsto> e]"
  shows "\<exists>m. whileR fst (idom_round s ids e (rev l)) (True, m0) = Some (Inr (False, m)) \<and> V \<subseteq> dom m \<and>
    (\<forall>x. x \<notin> V \<longrightarrow> m x = m0 x) \<and> idom_tree V e (post_id ids) (tree_of V m) \<and> V \<subseteq> dom (tree_of V m) \<and>
    (\<forall>b\<in>V. anc e (tree_of V m) b = {a. dominates (preds s) e a b})"
proof -
  let ?po = "post_id ids" and ?ps = "preds s"
  let ?inv = "\<lambda>k m. chk_inv ?ps V e ?po par k (tree_of V m)"
  let ?fp = "\<lambda>m. \<forall>b\<in>V. b \<noteq> e \<longrightarrow> anc e (tree_of V m) b = insert b (meet ?ps e (tree_of V m) b)"
  let ?I = "\<lambda>(c, m). V \<subseteq> dom m \<and> (\<forall>x. x \<notin> V \<longrightarrow> m x = m0 x) \<and> ?inv (Suc (?po e)) m \<and> (\<not> c \<longrightarrow> ?inv 0 m \<and> ?fp m)"
  let ?R = "measures [\<lambda>(c, m). idom_pot V e ?po (tree_of V m), \<lambda>(c, m). if c then 1 else 0]"
  have og: "ordered_cfg ?ps V e ?po par" using g by (simp add: cfg_of_def)
  have poe: "length l = Suc (?po e)" using last l(2) [of "length l - 1"] by (simp add: last_conv_nth)
  have low: "?po b < length l" if "b \<in> V" for b using that og poe by (auto simp: ordered_cfg_def less_Suc_eq_le)
  have "\<exists>t. whileR fst (idom_round s ids e (rev l)) (True, m0) = Some (Inr t) \<and> ?I t \<and> \<not> fst t"
  proof (rule whileR_total [where R = ?R])
    show "?I (True, m0)" using m0 chk_inv_begin [OF og] by simp
    fix st assume I: "?I st" and c: "fst st"
    obtain m where st: "st = (True, m)" using c by (cases st) auto
    obtain c' m' where r: "idom_blocks s ids e (rev l) (False, m) = Inr (c', m')"
      and post: "round_post ?ps V e ?po par (length l) False m c' m'"
      using idom_blocks_effect [OF g l, of "length l" m False] I poe unfolding st by auto
    have "idom_round s ids e (rev l) st = Inr (c', m')" using r by (simp add: idom_round_def st)
    moreover have "?I (c', m')"
      using post I chk_inv_next_round [OF og, of "tree_of V m'"] low unfolding round_post_def st by auto
    moreover have "((c', m'), st) \<in> ?R" using post unfolding round_post_def st by (cases c') auto
    ultimately show "\<exists>t. idom_round s ids e (rev l) st = Inr t \<and> ?I t \<and> (t, st) \<in> ?R" by blast
  qed simp
  then obtain m where m: "whileR fst (idom_round s ids e (rev l)) (True, m0) = Some (Inr (False, m))" "?I (False, m)"
    by auto
  then have inv: "?inv 0 m" and fp: "?fp m" by simp_all
  have "anc e (tree_of V m) b = {a. dominates ?ps e a b}" if "b \<in> V" for b
    by (rule chk_fixpoint [OF og inv _ that]) (use fp in blast)
  moreover have "idom_tree V e ?po (tree_of V m)" using inv by (simp add: chk_inv_def)
  moreover have "V \<subseteq> dom (tree_of V m)" using inv unfolding chk_inv_def by blast
  ultimately show ?thesis using m by (intro exI [of _ m]) simp
qed

section \<open>The search gives the order\<close>

text \<open>The edges of the blocks of a function stay inside it, and the entry reaches all of them.\<close>

definition connected_cfg :: "'z ir_scheme \<Rightarrow> vid \<Rightarrow> bool" where
  "connected_cfg s f \<longleftrightarrow> blocks s f \<noteq> [] \<and>
     (\<forall>b\<in>set (blocks s f). set (succs s b) \<subseteq> set (blocks s f) \<and> set (preds s b) \<subseteq> set (blocks s f) \<and>
        (\<exists>p. path_to (preds s) (hd (blocks s f)) p b))"

lemma preds_iff_succs: "ir_ok s \<Longrightarrow> a \<in> set (preds s b) \<longleftrightarrow> b \<in> set (succs s a)"
  unfolding ir_ok_def cfg_ok_def by (metis count_notin count_list_0_iff)

lemma search_order:
  assumes ok: "ir_ok s" and V: "V = set (blocks s f)" and e: "e = hd (blocks s f)" and conn: "connected_cfg s f"
  shows "\<exists>st. post_order_visit s e \<lparr>po_visited = {}, po_list = [], po_ids = Map.empty\<rparr> = Inr st \<and>
    numbered st \<and> set (po_list st) = V \<and> po_list st \<noteq> [] \<and> last (po_list st) = e \<and>
    (\<exists>par. cfg_of s V e (po_ids st) par)"
proof -
  let ?st0 = "\<lparr>po_visited = {e}, po_list = [], po_ids = Map.empty\<rparr>"
  have eV: "e \<in> V" using conn V e by (simp add: connected_cfg_def)
  have cl: "b \<in> dom (bbs s) \<and> set (succs s b) \<subseteq> V" if "b \<in> V" for b
    using ok conn that V by (force simp: ir_ok_def blocks_ok_def connected_cfg_def)
  have "dfs_ok V ?st0" using eV by (simp add: dfs_ok_def numbered_def)
  then obtain new st1 where v: "visit_successors s (succs s e) ?st0 = Some (Inr st1)"
    and add: "dfs_adds s V (succs s e) ?st0 new st1"
    using visit_successors_effect [of V s ?st0 "succs s e"] cl eV V by auto
  note A = add [unfolded dfs_adds_def]
  have l1: "po_list st1 = new" and n1: "numbered st1" and v1: "po_visited st1 = insert e (set new)"
    and en: "e \<notin> set new" and nV: "set new \<subseteq> V" using A by simp_all
  define st where "st = finish_block e st1"
  have l: "po_list st = new @ [e]" using l1 by (simp add: st_def finish_block_def)
  have num: "numbered st" using numbered_finish [OF n1] en l1 by (simp add: st_def)
  obtain r where "bbs s e = Some r" using cl [OF eV] by blast
  then have run: "post_order_visit s e \<lparr>po_visited = {}, po_list = [], po_ids = Map.empty\<rparr> = Inr st"
    using v by (simp add: post_order_visit_def deref_def outcome_def succs_def st_def)
  have closed: "set (succs s b) \<subseteq> insert e (set new)" if "b \<in> insert e (set new)" for b
    using that A v1 by auto
  have all: "b \<in> insert e (set new)" if "path_to (preds s) e p b" for p b
    using that by induction (use closed preds_iff_succs [OF ok] in blast)+
  have "b \<in> insert e (set new)" if "b \<in> V" for b using conn that all unfolding connected_cfg_def V e by blast
  then have setl: "set (po_list st) = V" using nV eV l by auto
  have pn: "po_num st (po_list st ! i) = i" if "i < length (po_list st)" for i by (rule numbered_nth [OF num that])
  have same: "po_num st b = po_num st1 b" if "b \<in> set new" for b
    using numbered_extend [OF n1 num, of "[e]" b] that l l1 by simp
  have pe: "po_num st e = length new" using pn [of "length new"] l by simp
  have lt: "po_num st b < length new" if bn: "b \<in> set new" for b
  proof -
    obtain i where i: "i < length new" "new ! i = b" using bn by (auto simp: in_set_conv_nth)
    then show ?thesis using pn [of i] l by (simp add: nth_append)
  qed
  have "\<exists>p. p \<in> set (preds s b) \<and> po_num st b < po_num st p" if b: "b \<in> V - {e}" for b
  proof -
    have bn: "b \<in> set new" using b setl l by auto
    then consider "b \<in> set (succs s e)" | p where "p \<in> set new" "b \<in> set (succs s p)" "po_num st1 b < po_num st1 p"
      using A by blast
    then show ?thesis
    proof cases
      case 1
      then show ?thesis using lt [OF bn] pe preds_iff_succs [OF ok] by auto
    next
      case 2
      then show ?thesis using same bn preds_iff_succs [OF ok] by auto
    qed
  qed
  then obtain par where par: "\<And>b. b \<in> V - {e} \<Longrightarrow> par b \<in> set (preds s b) \<and> po_num st b < po_num st (par b)"
    by metis
  have "inj_on (po_num st) V"
    using pn num unfolding setl [symmetric] by (auto intro!: inj_onI simp: in_set_conv_nth)
  moreover have "po_num st b \<le> po_num st e" if "b \<in> V" for b
    using that setl l lt pe by (cases "b = e") (auto simp: less_imp_le)
  ultimately have "cfg_of s V e (po_ids st) par"
    using conn eV V par cl unfolding cfg_of_def ordered_cfg_def connected_cfg_def by auto
  then show ?thesis using run num setl l by auto
qed

end
