(* ===== verification/Dominance.thy ===== *)
theory Dominance
  imports Idom
begin

text \<open>
  What \<open>Dominators::run\<close> leaves: immediate dominators, dominance frontiers and dominator-tree
  children of every function whose entry block reaches all its blocks.
\<close>

section \<open>Maps to sets that grow\<close>

definition grows :: "('k \<rightharpoonup> 'v set) \<Rightarrow> ('k \<Rightarrow> 'v set) \<Rightarrow> ('k \<rightharpoonup> 'v set) \<Rightarrow> bool" where
  "grows F G F' \<longleftrightarrow> (\<forall>k. F' k = (if G k = {} then F k else Some (entry_set F k \<union> G k)))"

lemma grows_refl [simp]: "grows F (\<lambda>k. {}) F"
  by (simp add: grows_def)

lemma grows_entry: "grows F G F' \<Longrightarrow> entry_set F' k = entry_set F k \<union> G k"
  by (auto simp: grows_def entry_set_def)

lemma grows_trans:
  assumes "grows F G F'" and "grows F' H F''" and "\<And>k. K k = G k \<union> H k"
  shows "grows F K F''"
  unfolding grows_def
proof
  fix k
  have "F' k = (if G k = {} then F k else Some (entry_set F k \<union> G k))"
    and "F'' k = (if H k = {} then F' k else Some (entry_set F' k \<union> H k))"
    using assms(1,2) by (simp_all add: grows_def)
  then show "F'' k = (if K k = {} then F k else Some (entry_set F k \<union> K k))"
    using grows_entry [OF assms(1), of k] assms(3) [of k] by auto
qed

lemma grows_upd: "grows F (\<lambda>k. if k = b then {x} else {}) (F(b \<mapsto> insert x (entry_set F b)))"
  by (simp add: grows_def)

section \<open>The walk to the immediate dominator\<close>

lemma frontier_walk_effect:
  assumes tree: "idom_tree V e po (tree_of V (idom d))" and p: "p \<in> dom (tree_of V (idom d))"
    and b: "tree_of V (idom d) b = Some i" and i: "i \<in> anc e (tree_of V (idom d)) p"
  shows "\<exists>F. frontier_walk b p d = Inr (d\<lparr>dom_frontier := F\<rparr>) \<and> grows (dom_frontier d)
    (\<lambda>k. if k \<in> Some ` (anc e (tree_of V (idom d)) p - anc e (tree_of V (idom d)) i) then {b} else {}) F"
proof -
  let ?D = "tree_of V (idom d)"
  let ?G = "\<lambda>x k. if k \<in> Some ` (anc e ?D p - anc e ?D x) then {b} else {}"
  let ?I = "\<lambda>(r, d1). \<exists>x F. r = Some x \<and> d1 = d\<lparr>dom_frontier := F\<rparr> \<and> x \<in> dom ?D \<and> x \<in> anc e ?D p \<and>
    i \<in> anc e ?D x \<and> grows (dom_frontier d) (?G x) F"
  let ?w = "whileR (\<lambda>(runner, _). runner \<noteq> Some i) (runner_step b) (Some p, d)"
  have "\<exists>t. ?w = Some (Inr t) \<and> ?I t \<and> \<not> (case t of (runner, _) \<Rightarrow> runner \<noteq> Some i)"
  proof (rule whileR_total [where R = "measure (\<lambda>(r, _). po e - po (the r))"])
    show "?I (Some p, d)" using p i by (auto intro!: exI [of _ "dom_frontier d"])
    fix st assume I: "?I st" and ne: "case st of (runner, _) \<Rightarrow> runner \<noteq> Some i"
    obtain x F where st: "st = (Some x, d\<lparr>dom_frontier := F\<rparr>)" "x \<in> dom ?D" "x \<in> anc e ?D p" "i \<in> anc e ?D x"
      "grows (dom_frontier d) (?G x) F" using I by (cases st) auto
    have xi: "x \<noteq> i" using ne st(1) by simp
    obtain y where y: "?D x = Some y" using st(2) by blast
    have xe: "x \<noteq> e" using st(4) xi by auto
    have yd: "y \<in> dom ?D" "po x < po y" using tree y xe by (auto simp: idom_tree_def)
    have ax: "anc e ?D x = insert x (anc e ?D y)" using anc_unfold [of x e ?D y] xe y by blast
    have xy: "x \<notin> anc e ?D y" using anc_po [OF tree yd(1), of x] yd(2) by auto
    have yp: "y \<in> anc e ?D p" using anc_sub [of x e ?D p] st(3) ax anc_self [of y e ?D] by blast
    have G: "?G y k = ?G x k \<union> (if k = Some x then {b} else {})" for k using st(3) ax xy by auto
    have step: "runner_step b st = Inr (Some y, d\<lparr>dom_frontier := F(Some x \<mapsto> insert b (entry_set F (Some x)))\<rparr>)"
      using y by (simp add: runner_step_def st(1) add_dominance_frontier_def tree_of_Some at_map_def)
    have "grows (dom_frontier d) (?G y) (F(Some x \<mapsto> insert b (entry_set F (Some x))))"
      by (rule grows_trans [OF st(5) grows_upd G])
    moreover have "i \<in> anc e ?D y" using st(4) xi unfolding ax by simp
    moreover have "po y \<le> po e" using tree yd(1) by (auto simp: idom_tree_def)
    ultimately show "\<exists>t. runner_step b st = Inr t \<and> ?I t \<and> (t, st) \<in> measure (\<lambda>(r, _). po e - po (the r))"
      using step yd yp st(1) by (intro exI [of _ "(Some y, d\<lparr>dom_frontier := F(Some x \<mapsto> insert b (entry_set F (Some x)))\<rparr>)"]) auto
  qed simp
  then obtain F where "?w = Some (Inr (Some i, d\<lparr>dom_frontier := F\<rparr>))" "grows (dom_frontier d) (?G i) F" by auto
  then show ?thesis using b by (intro exI [of _ F]) (simp add: frontier_walk_def tree_of_Some at_map_def outcome_def)
qed

text \<open>The blocks whose frontier the predecessors \<open>qs\<close> of \<open>b\<close> put it in.\<close>

definition walked :: "'a \<Rightarrow> ('a \<rightharpoonup> 'a) \<Rightarrow> 'a \<Rightarrow> 'a set \<Rightarrow> 'a option \<Rightarrow> 'a set" where
  "walked e D b qs k = (if \<exists>p\<in>qs. k \<in> Some ` (anc e D p - (\<Union>i\<in>set_option (D b). anc e D i)) then {b} else {})"

lemma frontier_preds_effect:
  assumes tree: "idom_tree V e po (tree_of V (idom d))" and b: "tree_of V (idom d) b = Some i"
    and qs: "\<And>p. p \<in> set qs \<Longrightarrow> p \<in> dom (tree_of V (idom d)) \<and> i \<in> anc e (tree_of V (idom d)) p"
  shows "\<exists>F. frontier_preds b qs d = Inr (d\<lparr>dom_frontier := F\<rparr>) \<and>
    grows (dom_frontier d) (walked e (tree_of V (idom d)) b (set qs)) F"
  using tree b qs
proof (induction qs arbitrary: d)
  case Nil
  then show ?case by (intro exI [of _ "dom_frontier d"]) (simp add: walked_def)
next
  case (Cons p qs)
  let ?D = "tree_of V (idom d)"
  obtain F where F: "frontier_walk b p d = Inr (d\<lparr>dom_frontier := F\<rparr>)" "grows (dom_frontier d)
      (\<lambda>k. if k \<in> Some ` (anc e ?D p - anc e ?D i) then {b} else {}) F"
    using frontier_walk_effect [OF Cons.prems(1) _ Cons.prems(2)] Cons.prems(3) by (metis list.set_intros(1))
  obtain F' where F': "frontier_preds b qs (d\<lparr>dom_frontier := F\<rparr>) = Inr (d\<lparr>dom_frontier := F'\<rparr>)"
    "grows F (walked e ?D b (set qs)) F'"
    using Cons.IH [of "d\<lparr>dom_frontier := F\<rparr>"] Cons.prems by auto
  have "grows (dom_frontier d) (walked e ?D b (set (p # qs))) F'"
    by (rule grows_trans [OF F(2) F'(2)]) (use Cons.prems(2) in \<open>auto simp: walked_def\<close>)
  then show ?case using F(1) F'(1) by auto
qed

definition frontiers :: "(vid \<Rightarrow> vid list) \<Rightarrow> vid \<Rightarrow> (vid \<rightharpoonup> vid) \<Rightarrow> vid set \<Rightarrow> vid option \<Rightarrow> vid set" where
  "frontiers ps e D bs k = (\<Union>b\<in>{b \<in> bs. 2 \<le> length (ps b)}. walked e D b (set (ps b)) k)"

lemma create_dominance_frontier_effect:
  assumes tree: "idom_tree V e po (tree_of V (idom d))"
    and bs: "\<And>b. b \<in> set bs \<Longrightarrow> b \<in> dom (bbs s) \<and> (\<exists>i. tree_of V (idom d) b = Some i \<and>
      (\<forall>p\<in>set (preds s b). p \<in> dom (tree_of V (idom d)) \<and> i \<in> anc e (tree_of V (idom d)) p))"
  shows "\<exists>F. create_dominance_frontier s bs d = Inr (d\<lparr>dom_frontier := F\<rparr>) \<and>
    grows (dom_frontier d) (frontiers (preds s) e (tree_of V (idom d)) (set bs)) F"
  using tree bs
proof (induction bs arbitrary: d)
  case Nil
  then show ?case by (intro exI [of _ "dom_frontier d"]) (simp add: frontiers_def)
next
  case (Cons b bs)
  let ?D = "tree_of V (idom d)"
  let ?G = "\<lambda>k. if 2 \<le> length (preds s b) then walked e ?D b (set (preds s b)) k else {}"
  obtain r i where r: "bbs s b = Some r" and i: "?D b = Some i"
    "\<forall>p\<in>set (preds s b). p \<in> dom ?D \<and> i \<in> anc e ?D p" using Cons.prems(2) [of b] by auto
  have ps: "pre_bbs r = preds s b" using r by (simp add: preds_def)
  obtain F where F: "(if 2 \<le> length (pre_bbs r) then frontier_preds b (pre_bbs r) d else Inr d) =
      Inr (d\<lparr>dom_frontier := F\<rparr>)" "grows (dom_frontier d) ?G F"
  proof (cases "2 \<le> length (preds s b)")
    case True
    then show ?thesis using frontier_preds_effect [OF Cons.prems(1) i(1)] i(2) ps that by auto
  next
    case False
    then show ?thesis using ps that [of "dom_frontier d"] by simp
  qed
  obtain F' where F': "create_dominance_frontier s bs (d\<lparr>dom_frontier := F\<rparr>) = Inr (d\<lparr>dom_frontier := F'\<rparr>)"
    "grows F (frontiers (preds s) e ?D (set bs)) F'"
    using Cons.IH [of "d\<lparr>dom_frontier := F\<rparr>"] Cons.prems by auto
  have "grows (dom_frontier d) (frontiers (preds s) e ?D (set (b # bs))) F'"
    by (rule grows_trans [OF F(2) F'(2)]) (auto simp: frontiers_def)
  then show ?case using F(1) F'(1) r by (auto simp: deref_def)
qed

definition children :: "(vid \<rightharpoonup> vid option) \<Rightarrow> vid set \<Rightarrow> vid option \<Rightarrow> vid set" where
  "children m bs k = {b \<in> bs. m b = Some k \<and> k \<noteq> Some b}"

lemma create_dom_tree_succ_effect:
  "set bs \<subseteq> dom (idom d) \<Longrightarrow> \<exists>T. create_dom_tree_succ bs d = Inr (d\<lparr>dom_tree_succ_blocks := T\<rparr>) \<and>
    grows (dom_tree_succ_blocks d) (children (idom d) (set bs)) T"
proof (induction bs arbitrary: d)
  case Nil
  then show ?case by (intro exI [of _ "dom_tree_succ_blocks d"]) (simp add: children_def)
next
  case (Cons b bs)
  let ?G = "\<lambda>k. if idom d b = Some k \<and> k \<noteq> Some b then {b} else {}"
  obtain i where i: "idom d b = Some i" using Cons.prems by auto
  define T where "T = (if i \<noteq> Some b then (dom_tree_succ_blocks d)(i \<mapsto> insert b (entry_set (dom_tree_succ_blocks d) i))
    else dom_tree_succ_blocks d)"
  have T: "grows (dom_tree_succ_blocks d) ?G T" using i by (simp add: grows_def T_def)
  obtain T' where T': "create_dom_tree_succ bs (d\<lparr>dom_tree_succ_blocks := T\<rparr>) = Inr (d\<lparr>dom_tree_succ_blocks := T'\<rparr>)"
    "grows T (children (idom d) (set bs)) T'"
    using Cons.IH [of "d\<lparr>dom_tree_succ_blocks := T\<rparr>"] Cons.prems by auto
  have "grows (dom_tree_succ_blocks d) (children (idom d) (set (b # bs))) T'"
    by (rule grows_trans [OF T T'(2)]) (auto simp: children_def)
  moreover have "create_dom_tree_succ (b # bs) d = Inr (d\<lparr>dom_tree_succ_blocks := T'\<rparr>)"
    using i T'(1) by (cases "i = Some b") (simp_all add: at_map_def add_dom_tree_succ_block_def T_def)
  ultimately show ?case by blast
qed

section \<open>What it means\<close>

text \<open>The immediate dominator is the strict dominator that all strict dominators dominate. The
  frontier of \<open>r\<close> is where its dominance ends.\<close>

definition idom_of :: "('a \<Rightarrow> 'a list) \<Rightarrow> 'a \<Rightarrow> 'a \<Rightarrow> 'a \<Rightarrow> bool" where
  "idom_of ps e i b \<longleftrightarrow> i \<noteq> b \<and> dominates ps e i b \<and> (\<forall>a. dominates ps e a b \<longrightarrow> a \<noteq> b \<longrightarrow> dominates ps e a i)"

definition frontier_of :: "('a \<Rightarrow> 'a list) \<Rightarrow> 'a \<Rightarrow> 'a set \<Rightarrow> 'a \<Rightarrow> 'a set" where
  "frontier_of ps e V r =
     {b \<in> V. (\<exists>p\<in>set (ps b). dominates ps e r p) \<and> \<not> (dominates ps e r b \<and> r \<noteq> b)}"

text \<open>A forest whose ancestors are the dominators.\<close>

definition dominator_tree :: "('a \<Rightarrow> 'a list) \<Rightarrow> 'a set \<Rightarrow> 'a \<Rightarrow> ('a \<Rightarrow> nat) \<Rightarrow> ('a \<rightharpoonup> 'a) \<Rightarrow> bool" where
  "dominator_tree ps V e po D \<longleftrightarrow> idom_tree V e po D \<and> V \<subseteq> dom D \<and> (\<forall>b\<in>V. set (ps b) \<subseteq> V) \<and>
     (\<forall>b\<in>V - {e}. \<exists>p\<in>set (ps b). po b < po p) \<and> (\<forall>b\<in>V. anc e D b = {a. dominates ps e a b})"

lemma dominator_tree_dom:
  assumes "dominator_tree ps V e po D"
  shows "idom_tree V e po D" "dom D = V" "\<And>a b. b \<in> V \<Longrightarrow> a \<in> anc e D b \<longleftrightarrow> dominates ps e a b"
    "\<And>b p. b \<in> V \<Longrightarrow> p \<in> set (ps b) \<Longrightarrow> p \<in> V" "\<And>b. b \<in> V \<Longrightarrow> b \<noteq> e \<Longrightarrow> \<exists>p\<in>set (ps b). po b < po p"
  using assms by (auto simp: dominator_tree_def idom_tree_def)

lemma dominates_po:
  assumes D: "dominator_tree ps V e po D" and "dominates ps e a b" and "b \<in> V"
  shows "a \<in> V \<and> (a = b \<or> po b < po a)"
  using anc_po [OF dominator_tree_dom(1) [OF D], of b a] dominator_tree_dom(2,3) [OF D] assms(2,3) by auto

lemma dominator_tree_idom:
  assumes D: "dominator_tree ps V e po D" and b: "D b = Some i" "b \<noteq> e"
  shows "idom_of ps e i b"
proof -
  note t = dominator_tree_dom [OF D]
  have V: "b \<in> V" "i \<in> V" "po b < po i" using t(1,2) b by (auto simp: idom_tree_def)
  have "anc e D b = insert b (anc e D i)" using anc_unfold [of b e D i] b by blast
  then have "dominates ps e a b \<longleftrightarrow> a = b \<or> dominates ps e a i" for a using t(3) V by blast
  then show ?thesis using V(3) by (auto simp: idom_of_def)
qed

lemma idom_of_unique:
  assumes D: "dominator_tree ps V e po D" and "idom_of ps e i b" and "idom_of ps e j b" and b: "b \<in> V"
  shows "i = j"
proof -
  have ij: "dominates ps e i b" "dominates ps e j b" "dominates ps e i j" "dominates ps e j i"
    using assms(2,3) by (simp_all add: idom_of_def)
  then have "i \<in> V" "j \<in> V" using dominates_po [OF D _ b] by blast+
  then have "i = j \<or> po j < po i" "j = i \<or> po i < po j" using dominates_po [OF D ij(3)] dominates_po [OF D ij(4)] by blast+
  then show ?thesis by auto
qed

lemma dominator_tree_children:
  assumes D: "dominator_tree ps V e po D" and m: "D = tree_of V m"
  shows "children m V (Some r) = {b \<in> V. idom_of ps e r b}"
proof -
  note t = dominator_tree_dom [OF D]
  have De: "D e = Some e" using t(1) by (simp add: idom_tree_def)
  have "m b = Some (Some r) \<and> r \<noteq> b \<longleftrightarrow> idom_of ps e r b" if b: "b \<in> V" for b
  proof (cases "b = e")
    case True
    then show ?thesis using De m by (auto simp: tree_of_Some idom_of_def dominates_entry)
  next
    case False
    obtain i where i: "D b = Some i" using b t(2) by blast
    then have "m b = Some (Some i)" using m by (simp add: tree_of_Some)
    moreover have ii: "idom_of ps e i b" using dominator_tree_idom [OF D i False] .
    moreover have "r = i" if "idom_of ps e r b" using idom_of_unique [OF D that ii b] .
    moreover have "i \<noteq> b" using ii by (simp add: idom_of_def)
    ultimately show ?thesis by auto
  qed
  then show ?thesis by (auto simp: children_def)
qed

lemma dominator_tree_join:
  assumes D: "dominator_tree ps V e po D" and b: "b \<in> V" "b \<noteq> e" and i: "D b = Some i" and p: "p \<in> set (ps b)"
  shows "p \<in> V \<and> i \<in> anc e D p"
proof -
  note t = dominator_tree_dom [OF D]
  have "idom_of ps e i b" using dominator_tree_idom [OF D i b(2)] .
  then have "dominates ps e i p" using dominates_step [of ps e i b p] p by (simp add: idom_of_def)
  then show ?thesis using t(3,4) b(1) p by blast
qed

text \<open>A block with one predecessor is in the frontier of none.\<close>

lemma one_pred_no_frontier:
  assumes D: "dominator_tree ps V e po D" and b: "b \<in> V" "b \<noteq> e" and p: "set (ps b) = {p}" and r: "dominates ps e r p"
  shows "dominates ps e r b \<and> r \<noteq> b"
proof
  note t = dominator_tree_dom [OF D]
  show "dominates ps e r b"
    unfolding dominates_def
  proof (intro allI impI)
    fix q assume "path_to ps e q b"
    then show "r \<in> set q" using r p b(2) unfolding dominates_def by cases auto
  qed
  have "p \<in> V" "po b < po p" using t(4) [OF b(1), of p] t(5) [OF b] p by simp_all
  then show "r \<noteq> b" using dominates_po [OF D r] by auto
qed

lemma dominator_tree_frontier:
  assumes D: "dominator_tree ps V e po D" and entry: "ps e = []"
  shows "frontiers ps e D V (Some r) = frontier_of ps e V r"
proof -
  note t = dominator_tree_dom [OF D]
  have walk: "b \<in> walked e D b (set (ps b)) (Some r) \<longleftrightarrow>
      (\<exists>p\<in>set (ps b). dominates ps e r p) \<and> \<not> (dominates ps e r b \<and> r \<noteq> b)" if b: "b \<in> V" "b \<noteq> e" for b
  proof -
    obtain i where i: "D b = Some i" using b t(2) by blast
    have iV: "i \<in> V" "po b < po i" using t(1,2) i b(2) by (auto simp: idom_tree_def)
    have ab: "anc e D b = insert b (anc e D i)" using anc_unfold [of b e D i] i b(2) by blast
    have "b \<notin> anc e D i" using dominates_po [OF D _ iV(1), of b] t(3) [OF iV(1)] iV(2) by auto
    then have "r \<in> anc e D i \<longleftrightarrow> dominates ps e r b \<and> r \<noteq> b" using ab t(3) [OF b(1)] by blast
    moreover have "r \<in> anc e D p \<longleftrightarrow> dominates ps e r p" if "p \<in> set (ps b)" for p
      using t(3,4) b(1) that by blast
    ultimately show ?thesis using i by (auto simp: walked_def)
  qed
  have one: "2 \<le> length (ps b)" if b: "b \<in> V" "b \<noteq> e" and p: "p \<in> set (ps b)" "dominates ps e r p"
    "\<not> (dominates ps e r b \<and> r \<noteq> b)" for b p
  proof (rule ccontr)
    assume "\<not> 2 \<le> length (ps b)"
    then have "ps b = [p]" using p(1) by (cases "ps b" rule: list.exhaust; cases "tl (ps b)") auto
    then show False using one_pred_no_frontier [OF D b, of p r] p(2,3) by simp
  qed
  have sub: "walked e D b A k \<subseteq> {b}" for b A k by (simp add: walked_def)
  show ?thesis
  proof (intro set_eqI iffI)
    fix x assume "x \<in> frontiers ps e D V (Some r)"
    then obtain b where "b \<in> V" "2 \<le> length (ps b)" "x \<in> walked e D b (set (ps b)) (Some r)"
      by (auto simp: frontiers_def)
    moreover from this(3) have "x = b" using sub by blast
    ultimately have x: "x \<in> V" "x \<in> walked e D x (set (ps x)) (Some r)" "ps x \<noteq> []" by auto
    then show "x \<in> frontier_of ps e V r" using walk [of x] entry by (auto simp: frontier_of_def)
  next
    fix x assume x: "x \<in> frontier_of ps e V r"
    then have xV: "x \<in> V" "x \<noteq> e" using entry by (auto simp: frontier_of_def)
    then show "x \<in> frontiers ps e D V (Some r)"
      using walk [OF xV] one [OF xV] x unfolding frontier_of_def frontiers_def by blast
  qed
qed

section \<open>One function\<close>

lemma fold_init_block:
  "fold init_block bs d = d\<lparr>idom := (\<lambda>x. if x \<in> set bs \<and> idom d x = None then Some None else idom d x),
     dom_frontier := (\<lambda>k. if k \<in> Some ` set bs \<and> dom_frontier d k = None then Some {} else dom_frontier d k),
     dom_tree_succ_blocks := (\<lambda>k. if k \<in> Some ` set bs \<and> dom_tree_succ_blocks d k = None then Some {}
       else dom_tree_succ_blocks d k)\<rparr>"
  by (induction bs arbitrary: d) (auto simp: init_block_def insert_entry_def fun_eq_iff)

lemma fold_set_idom: "fold (\<lambda>b. set_idom b v) bs d = d\<lparr>idom := (\<lambda>x. if x \<in> set bs then Some v else idom d x)\<rparr>"
  by (induction bs arbitrary: d) (auto simp: set_idom_def fun_eq_iff)

lemma create_reverse_post_order_effect:
  assumes ok: "ir_ok s" and conn: "connected_cfg s f"
  shows "\<exists>l ids par. create_reverse_post_order s f d = Inr (d\<lparr>reverse_post_order := rev l, post_order_id := ids\<rparr>) \<and>
    (\<forall>i<length l. post_id ids (l ! i) = i) \<and> set l = set (blocks s f) \<and> l \<noteq> [] \<and> last l = hd (blocks s f) \<and>
    cfg_of s (set (blocks s f)) (hd (blocks s f)) ids par"
proof -
  let ?V = "set (blocks s f)" and ?e = "hd (blocks s f)"
  have e: "entry_block s f = Inr ?e" using conn by (cases "blocks s f") (simp_all add: connected_cfg_def entry_block_def)
  obtain st par where st: "post_order_visit s ?e \<lparr>po_visited = {}, po_list = [], po_ids = Map.empty\<rparr> = Inr st"
    "numbered st" "set (po_list st) = ?V" "po_list st \<noteq> []" "last (po_list st) = ?e" "cfg_of s ?V ?e (po_ids st) par"
    using search_order [OF ok refl refl conn] by blast
  then show ?thesis
    by (intro exI [of _ "po_list st"] exI [of _ "po_ids st"] exI [of _ par])
      (simp add: create_reverse_post_order_def e numbered_nth)
qed

lemma create_idom_effect:
  assumes conn: "connected_cfg s f" and V: "V = set (blocks s f)" and e: "e = hd (blocks s f)"
    and g: "cfg_of s V e (post_order_id d) par"
    and l: "reverse_post_order d = rev l" "set l = V" "\<And>i. i < length l \<Longrightarrow> post_id (post_order_id d) (l ! i) = i"
    and last: "l \<noteq> []" "last l = e"
  shows "\<exists>m. create_idom s f d = Inr (d\<lparr>idom := m\<rparr>) \<and> (\<forall>x. x \<notin> V \<longrightarrow> m x = idom d x) \<and>
    dominator_tree (preds s) V e (post_id (post_order_id d)) (tree_of V m)"
proof -
  let ?m0 = "\<lambda>x. if x \<in> V then Some None else idom d x"
  have eb: "entry_block s f = Inr e" using conn e by (cases "blocks s f") (simp_all add: connected_cfg_def entry_block_def)
  have eV: "e \<in> V" using V e conn by (simp add: connected_cfg_def)
  have t0: "tree_of V (?m0(e \<mapsto> Some e)) = [e \<mapsto> e]" using eV by (auto simp: tree_of_def fun_eq_iff)
  have d0: "V \<subseteq> dom (?m0(e \<mapsto> Some e))" by auto
  obtain m where m: "whileR fst (idom_round s (post_order_id d) e (rev l)) (True, ?m0(e \<mapsto> Some e)) = Some (Inr (False, m))"
    "\<forall>x. x \<notin> V \<longrightarrow> m x = (?m0(e \<mapsto> Some e)) x" "idom_tree V e (post_id (post_order_id d)) (tree_of V m)"
    "V \<subseteq> dom (tree_of V m)" "\<forall>b\<in>V. anc e (tree_of V m) b = {a. dominates (preds s) e a b}"
    using idom_loop [OF g l(2,3) last d0 t0] by blast
  have "m x = idom d x" if "x \<notin> V" for x using m(2) that eV by auto
  moreover have "create_idom s f d = Inr (d\<lparr>idom := m\<rparr>)"
    using m(1) by (simp add: create_idom_def fold_set_idom eb outcome_def l(1) V [symmetric])
  moreover have "\<exists>p\<in>set (preds s b). post_id (post_order_id d) b < post_id (post_order_id d) p" if "b \<in> V - {e}" for b
    using g that unfolding cfg_of_def ordered_cfg_def by blast
  ultimately show ?thesis using m(3-5) conn unfolding dominator_tree_def connected_cfg_def V by blast
qed

text \<open>What the analysis says about a function.\<close>

definition dominators_ok :: "'z ir_scheme \<Rightarrow> vid \<Rightarrow> dominators \<Rightarrow> bool" where
  "dominators_ok s f d \<longleftrightarrow> (let ps = preds s; e = hd (blocks s f) in \<forall>b\<in>set (blocks s f).
     (\<exists>i. get_idom (idom d) (Some b) = Inr (Some i) \<and> (if b = e then i = e else idom_of ps e i b)) \<and>
     get_dominance_frontier d b = Inr (frontier_of ps e (set (blocks s f)) b) \<and>
     get_dom_tree_succ_blocks d b = Inr {c \<in> set (blocks s f). idom_of ps e b c})"

definition untouched :: "vid set \<Rightarrow> dominators \<Rightarrow> dominators \<Rightarrow> bool" where
  "untouched V d d' \<longleftrightarrow> (\<forall>x. x \<notin> V \<longrightarrow> idom d' x = idom d x \<and> dom_frontier d' (Some x) = dom_frontier d (Some x) \<and>
     dom_tree_succ_blocks d' (Some x) = dom_tree_succ_blocks d (Some x))"

lemma frontiers_in:
  assumes D: "dominator_tree ps V e po D"
  shows "x \<notin> V \<Longrightarrow> frontiers ps e D V (Some x) = {}"
proof -
  note t = dominator_tree_dom [OF D]
  assume x: "x \<notin> V"
  have "x \<notin> anc e D p" if "b \<in> V" "p \<in> set (ps b)" for b p
    using t(4) [OF that] anc_po [OF t(1), of p x] t(2) x by blast
  then show ?thesis by (auto simp: frontiers_def walked_def)
qed

lemma children_in:
  assumes D: "dominator_tree ps V e po D" and m: "D = tree_of V m" and x: "x \<notin> V"
  shows "children m V (Some x) = {}"
  unfolding dominator_tree_children [OF D m] using dominates_po [OF D, of x] x by (auto simp: idom_of_def)

lemma dominators_of_function_effect:
  assumes ok: "ir_ok s" and conn: "connected_cfg s f" and entry: "preds s (hd (blocks s f)) = []"
    and fresh: "\<And>b. b \<in> set (blocks s f) \<Longrightarrow> dom_frontier d (Some b) = None \<and> dom_tree_succ_blocks d (Some b) = None"
  shows "\<exists>d'. dominators_of_function s f d = Inr d' \<and> dominators_ok s f d' \<and> untouched (set (blocks s f)) d d'"
proof -
  define V e where "V = set (blocks s f)" and "e = hd (blocks s f)"
  define d0 where "d0 = fold init_block (blocks s f) d"
  obtain l ids par where l: "create_reverse_post_order s f d0 = Inr (d0\<lparr>reverse_post_order := rev l, post_order_id := ids\<rparr>)"
    "\<And>i. i < length l \<Longrightarrow> post_id ids (l ! i) = i" "set l = V" "l \<noteq> []" "last l = e" "cfg_of s V e ids par"
    unfolding V_def e_def using create_reverse_post_order_effect [OF ok conn, of d0] by blast
  define d1 where "d1 = d0\<lparr>reverse_post_order := rev l, post_order_id := ids\<rparr>"
  obtain m where m: "create_idom s f d1 = Inr (d1\<lparr>idom := m\<rparr>)" "\<forall>x. x \<notin> V \<longrightarrow> m x = idom d1 x"
    "dominator_tree (preds s) V e (post_id ids) (tree_of V m)"
    using create_idom_effect [OF conn V_def e_def, of d1 par l] l by (auto simp: d1_def)
  let ?D = "tree_of V m" and ?d2 = "d1\<lparr>idom := m\<rparr>"
  note t = dominator_tree_dom [OF m(3)]
  have De: "?D e = Some e" using t(1) by (simp add: idom_tree_def)
  have join: "b \<in> dom (bbs s) \<and> (\<exists>i. ?D b = Some i \<and> (\<forall>p\<in>set (preds s b). p \<in> dom ?D \<and> i \<in> anc e ?D p))"
    if b: "b \<in> V" for b
  proof -
    have "b \<in> dom (bbs s)" using l(6) b by (auto simp: cfg_of_def)
    moreover obtain i where i: "?D b = Some i" using b t(2) by blast
    ultimately show ?thesis using dominator_tree_join [OF m(3) b _ i] entry t(2) by (cases "b = e") (auto simp: e_def)
  qed
  obtain F where F: "create_dominance_frontier s (blocks s f) ?d2 = Inr (?d2\<lparr>dom_frontier := F\<rparr>)"
    "grows (dom_frontier d1) (frontiers (preds s) e ?D V) F"
    using create_dominance_frontier_effect [of V e "post_id ids" ?d2 "blocks s f" s] t(1) join by (auto simp: V_def)
  have "set (blocks s f) \<subseteq> dom m" using t(2) by (auto simp: V_def dom_def tree_of_Some)
  then obtain T where T: "create_dom_tree_succ (blocks s f) (?d2\<lparr>dom_frontier := F\<rparr>) =
      Inr (?d2\<lparr>dom_frontier := F, dom_tree_succ_blocks := T\<rparr>)" "grows (dom_tree_succ_blocks d1) (children m V) T"
    using create_dom_tree_succ_effect [of "blocks s f" "?d2\<lparr>dom_frontier := F\<rparr>"] by (auto simp: V_def)
  define d' where "d' = ?d2\<lparr>dom_frontier := F, dom_tree_succ_blocks := T\<rparr>"
  have ne: "blocks s f \<noteq> []" using conn by (simp add: connected_cfg_def)
  have run: "dominators_of_function s f d = Inr d'"
    unfolding dominators_of_function_def d0_def [symmetric] l(1) d1_def [symmetric] using ne m(1) F(1) T(1)
    by (simp add: l(1) d1_def [symmetric] d'_def)
  have d1: "dom_frontier d1 (Some b) = Some {}" "dom_tree_succ_blocks d1 (Some b) = Some {}" if "b \<in> V" for b
    using fresh that by (auto simp: d1_def d0_def fold_init_block V_def)
  have out: "dom_frontier d1 (Some b) = dom_frontier d (Some b)" "dom_tree_succ_blocks d1 (Some b) = dom_tree_succ_blocks d (Some b)"
    "idom d1 b = idom d b" if "b \<notin> V" for b
    using that by (auto simp: d1_def d0_def fold_init_block V_def)
  have "get_dominance_frontier d' b = Inr (frontier_of (preds s) e V b)" if b: "b \<in> V" for b
    using F(2) d1(1) [OF b] dominator_tree_frontier [OF m(3), of b] entry
    by (auto simp: grows_def get_dominance_frontier_def at_map_def d'_def entry_set_def e_def)
  moreover have "get_dom_tree_succ_blocks d' b = Inr {c \<in> V. idom_of (preds s) e b c}" if b: "b \<in> V" for b
    using T(2) d1(2) [OF b] dominator_tree_children [OF m(3) refl, of b]
    by (auto simp: grows_def get_dom_tree_succ_blocks_def at_map_def d'_def entry_set_def)
  moreover have "\<exists>i. get_idom (idom d') (Some b) = Inr (Some i) \<and> (if b = e then i = e else idom_of (preds s) e i b)"
    if b: "b \<in> V" for b
  proof -
    obtain i where i: "?D b = Some i" using b t(2) by blast
    then have "m b = Some (Some i)" by (simp add: tree_of_Some)
    then show ?thesis using dominator_tree_idom [OF m(3) i] De i by (auto simp: at_map_def d'_def)
  qed
  ultimately have "dominators_ok s f d'" unfolding dominators_ok_def Let_def V_def [symmetric] e_def [symmetric] by blast
  moreover have "untouched V d d'"
    using F(2) T(2) frontiers_in [OF m(3)] children_in [OF m(3) refl] m(2) out
    by (simp add: untouched_def grows_def d'_def)
  ultimately show ?thesis using run by (auto simp: V_def)
qed

section \<open>The module\<close>

lemma dominators_ok_untouched:
  assumes "dominators_ok s f d" and "untouched V d d'" and "set (blocks s f) \<inter> V = {}"
  shows "dominators_ok s f d'"
proof -
  have "idom d' b = idom d b" "dom_frontier d' (Some b) = dom_frontier d (Some b)"
    "dom_tree_succ_blocks d' (Some b) = dom_tree_succ_blocks d (Some b)" if "b \<in> set (blocks s f)" for b
    using assms(2,3) that unfolding untouched_def by blast+
  then show ?thesis
    using assms(1) by (simp add: dominators_ok_def get_dominance_frontier_def get_dom_tree_succ_blocks_def at_map_def Let_def)
qed

lemma untouched_trans: "untouched V d d1 \<Longrightarrow> untouched W d1 d2 \<Longrightarrow> untouched (V \<union> W) d d2"
  by (simp add: untouched_def)

lemma blocks_disjoint: "ir_ok s \<Longrightarrow> f \<noteq> g \<Longrightarrow> set (blocks s f) \<inter> set (blocks s g) = {}"
  unfolding ir_ok_def blocks_ok_def by (metis disjoint_iff option.inject)

lemma dominators_of_functions_effect:
  assumes ok: "ir_ok s"
    and "\<And>f. f \<in> set fs \<Longrightarrow> blocks s f \<noteq> [] \<Longrightarrow> connected_cfg s f \<and> preds s (hd (blocks s f)) = []"
    and "distinct fs"
    and "\<And>f b. f \<in> set fs \<Longrightarrow> b \<in> set (blocks s f) \<Longrightarrow> dom_frontier d (Some b) = None \<and> dom_tree_succ_blocks d (Some b) = None"
  shows "\<exists>d'. dominators_of_functions s fs d = Inr d' \<and> untouched (\<Union>f\<in>set fs. set (blocks s f)) d d' \<and>
    (\<forall>f\<in>set fs. dominators_ok s f d')"
  using assms(2-)
proof (induction fs arbitrary: d)
  case Nil
  then show ?case by (simp add: untouched_def)
next
  case (Cons f fs)
  have "\<exists>d1. dominators_of_function s f d = Inr d1 \<and> dominators_ok s f d1 \<and> untouched (set (blocks s f)) d d1"
  proof (cases "blocks s f = []")
    case True
    then show ?thesis by (intro exI [of _ d]) (simp add: dominators_of_function_def dominators_ok_def untouched_def)
  next
    case False
    then have "connected_cfg s f" "preds s (hd (blocks s f)) = []" using Cons.prems(1) [of f] by simp_all
    then show ?thesis by (rule dominators_of_function_effect [OF ok]) (rule Cons.prems(3) [of f], simp_all)
  qed
  then obtain d1 where d1: "dominators_of_function s f d = Inr d1" "dominators_ok s f d1"
    "untouched (set (blocks s f)) d d1" by blast
  have dis: "set (blocks s f) \<inter> set (blocks s g) = {}" if "g \<in> set fs" for g
    using blocks_disjoint [OF ok, of f g] Cons.prems(2) that by auto
  have fresh: "dom_frontier d1 (Some b) = None \<and> dom_tree_succ_blocks d1 (Some b) = None"
    if "g \<in> set fs" "b \<in> set (blocks s g)" for g b
  proof -
    have "b \<notin> set (blocks s f)" using dis [OF that(1)] that(2) by blast
    then have "dom_frontier d1 (Some b) = dom_frontier d (Some b)"
      "dom_tree_succ_blocks d1 (Some b) = dom_tree_succ_blocks d (Some b)" using d1(3) by (simp_all add: untouched_def)
    then show ?thesis using Cons.prems(3) [of g b] that by simp
  qed
  have "\<exists>d'. dominators_of_functions s fs d1 = Inr d' \<and> untouched (\<Union>f\<in>set fs. set (blocks s f)) d1 d' \<and>
    (\<forall>f\<in>set fs. dominators_ok s f d')"
  proof (rule Cons.IH)
    show "connected_cfg s g \<and> preds s (hd (blocks s g)) = []" if "g \<in> set fs" "blocks s g \<noteq> []" for g
      using Cons.prems(1) [of g] that by simp
    show "distinct fs" using Cons.prems(2) by simp
    show "dom_frontier d1 (Some b) = None \<and> dom_tree_succ_blocks d1 (Some b) = None"
      if "g \<in> set fs" "b \<in> set (blocks s g)" for g b by (rule fresh [OF that])
  qed
  then obtain d' where d': "dominators_of_functions s fs d1 = Inr d'" "untouched (\<Union>f\<in>set fs. set (blocks s f)) d1 d'"
    "\<forall>f\<in>set fs. dominators_ok s f d'" by blast
  have "dominators_ok s f d'" by (rule dominators_ok_untouched [OF d1(2) d'(2)]) (use dis in blast)
  then show ?case using d1(1) d' untouched_trans [OF d1(3) d'(2)] by simp
qed


section \<open>An example\<close>

definition dom_demo :: ir where
  "dom_demo = empty_ir\<lparr>vals :=
     [0 \<mapsto> \<lparr>vty = FunctionTy VoidTy [], vname = ''f'', vuses = [], vops = [], vkind = K_func\<rparr>,
      1 \<mapsto> \<lparr>vty = LabelTy, vname = '''', vuses = [], vops = [], vkind = K_block\<rparr>,
      2 \<mapsto> \<lparr>vty = LabelTy, vname = '''', vuses = [], vops = [], vkind = K_block\<rparr>,
      3 \<mapsto> \<lparr>vty = LabelTy, vname = '''', vuses = [], vops = [], vkind = K_block\<rparr>,
      4 \<mapsto> \<lparr>vty = LabelTy, vname = '''', vuses = [], vops = [], vkind = K_block\<rparr>],
    bbs := [1 \<mapsto> \<lparr>pre_bbs = [], succ_bbs = [2, 3], instr_list = [], bparent = 0\<rparr>,
      2 \<mapsto> \<lparr>pre_bbs = [1], succ_bbs = [4], instr_list = [], bparent = 0\<rparr>,
      3 \<mapsto> \<lparr>pre_bbs = [1], succ_bbs = [4], instr_list = [], bparent = 0\<rparr>,
      4 \<mapsto> \<lparr>pre_bbs = [2, 3], succ_bbs = [], instr_list = [], bparent = 0\<rparr>],
    funcs := [0 \<mapsto> \<lparr>basic_blocks = [1, 2, 3, 4], arguments = [], seq_cnt = 0\<rparr>], function_list := [0], next_id := 5\<rparr>"

lemma dom_demo_obs:
  "uses_of dom_demo v = []" "ops_of dom_demo u = []"
  "kind_of dom_demo = [0 \<mapsto> K_func, 1 \<mapsto> K_block, 2 \<mapsto> K_block, 3 \<mapsto> K_block, 4 \<mapsto> K_block]"
  "instrs dom_demo b = []" "preds dom_demo b = (if b = 2 \<or> b = 3 then [1] else if b = 4 then [2, 3] else [])"
  "succs dom_demo b = (if b = 1 then [2, 3] else if b = 2 \<or> b = 3 then [4] else [])"
  "blocks dom_demo f = (if f = 0 then [1, 2, 3, 4] else [])" "dom (vals dom_demo) = {0, 1, 2, 3, 4}"
  "dom (bbs dom_demo) = {1, 2, 3, 4}" "dom (funcs dom_demo) = {0}" "next_id dom_demo = 5" "function_list dom_demo = [0]"
  by (auto simp: dom_demo_def empty_ir_def uses_of_def ops_of_def kind_of_def graph_defs fun_eq_iff)

lemma ir_ok_dom_demo: "ir_ok dom_demo"
proof -
  have "use_def_ok dom_demo" by (rule use_def_okI) (auto simp: dom_demo_obs operand_at_def)
  moreover have "ids_ok dom_demo" unfolding ids_ok_def dom_demo_obs by simp
  moreover have "cfg_ok dom_demo" by (simp add: cfg_ok_def dom_demo_obs)
  moreover have "placed_ok dom_demo" by (simp add: placed_ok_def dom_demo_obs)
  moreover have "blocks_ok dom_demo" by (auto simp: blocks_ok_def dom_demo_obs) (auto simp: dom_demo_def)
  ultimately show ?thesis by (simp add: ir_ok_def)
qed

lemma dom_demo_paths:
  "path_to (preds dom_demo) 1 [1] 1" "path_to (preds dom_demo) 1 [1, 2] 2" "path_to (preds dom_demo) 1 [1, 3] 3"
  "path_to (preds dom_demo) 1 [1, 2, 4] 4" "path_to (preds dom_demo) 1 [1, 3, 4] 4"
proof -
  show s: "path_to (preds dom_demo) 1 [1] 1" by (rule path_start)
  show 2: "path_to (preds dom_demo) 1 [1, 2] 2" using path_step [OF s, of 2] by (simp add: dom_demo_obs)
  show 3: "path_to (preds dom_demo) 1 [1, 3] 3" using path_step [OF s, of 3] by (simp add: dom_demo_obs)
  show "path_to (preds dom_demo) 1 [1, 2, 4] 4" using path_step [OF 2, of 4] by (simp add: dom_demo_obs)
  show "path_to (preds dom_demo) 1 [1, 3, 4] 4" using path_step [OF 3, of 4] by (simp add: dom_demo_obs)
qed


end
