(* ===== verification/Floats.thy ===== *)
theory Floats
  imports IRPrinter
begin

text \<open>
  Arithmetic on the bits of \<open>float\<close> (IEEE binary32, rounding to nearest, ties to even) as far as
  the compiler uses it: the value of a decimal constant and the operations of the constant folder.
  A finite \<open>float\<close> has the value \<open>(-1) ^ f32_sign * f32_scaled / 2 ^ 149\<close>.
\<close>

section \<open>Rounding\<close>

text \<open>The quotient \<open>n / d\<close> rounded to the nearest integer, a tie to the even one.\<close>

definition round_div :: "nat \<Rightarrow> nat \<Rightarrow> nat" where
  "round_div n d =
     (let m = n div d; r = n mod d in
      if d < 2 * r \<or> (2 * r = d \<and> odd m) then m + 1 else m)"

text \<open>The bits of \<open>n / d\<close> without its sign. Above \<open>2 ^ 24\<close> units of \<open>2 ^ -149\<close> the spacing of the
  values is \<open>2 ^ k\<close> units; a carry out of the significand moves to the next exponent by itself.\<close>

definition f32_inf :: nat where "f32_inf = 255 * 2 ^ 23"

definition f32_round :: "nat \<Rightarrow> nat \<Rightarrow> nat" where
  "f32_round n d =
     (let k = top_bit (n * 2 ^ 149 div d) - 23 in
      min f32_inf (k * 2 ^ 23 + round_div (n * 2 ^ 149) (d * 2 ^ k)))"

lemma round_div_bounds:
  assumes "0 < d"
  shows "n div d \<le> round_div n d" "round_div n d \<le> n div d + 1"
    "2 * n \<le> 2 * d * round_div n d + d" "2 * d * round_div n d \<le> 2 * n + d"
proof -
  obtain q r where qr: "n div d = q" "n mod d = r" "r < d" using assms by simp
  then have n: "n = d * q + r" using mult_div_mod_eq [of d n] by simp
  have rd: "round_div n d = (if d < 2 * r \<or> (2 * r = d \<and> odd q) then q + 1 else q)"
    by (simp add: round_div_def Let_def qr)
  show "n div d \<le> round_div n d" "round_div n d \<le> n div d + 1" by (simp_all add: rd qr)
  show "2 * n \<le> 2 * d * round_div n d + d" "2 * d * round_div n d \<le> 2 * n + d"
    unfolding rd using qr(3) n by (auto simp: algebra_simps)
qed

lemma round_div_exact: "0 < d \<Longrightarrow> n = q * d \<Longrightarrow> round_div n d = q"
  by (simp add: round_div_def)

section \<open>Decimal constants\<close>

definition is_digit :: "char \<Rightarrow> bool" where
  "is_digit c \<longleftrightarrow> (of_char c :: nat) \<in> {48..57}"

definition dec_val :: "string \<Rightarrow> nat" where
  "dec_val ds = foldl (\<lambda>n c. 10 * n + (of_char c - 48)) 0 ds"

text \<open>\<open>std::stoi\<close>: white space, a sign, digits; what follows is ignored.\<close>

definition is_space :: "char \<Rightarrow> bool" where
  "is_space c \<longleftrightarrow> (of_char c :: nat) \<in> {9..13} \<or> c = CHR '' ''"

definition stoi :: "string \<Rightarrow> int res" where
  "stoi s =
     (let t = dropWhile is_space s;
          neg = (case t of c # _ \<Rightarrow> c = CHR ''-'' | [] \<Rightarrow> False);
          u = (case t of c # r \<Rightarrow> if c = CHR ''-'' \<or> c = CHR ''+'' then r else t | [] \<Rightarrow> []);
          ds = takeWhile is_digit u; v = (if neg then - int (dec_val ds) else int (dec_val ds)) in
      if ds = [] then Inl (Abort ''std::invalid_argument'')
      else if v < - (2 ^ 31) \<or> 2 ^ 31 \<le> v then Inl Out_of_range
      else Inr v)"

text \<open>\<open>std::stof\<close> on the texts that the scanner calls \<open>FLOATCONST\<close>: digits with a point, no sign and
  no exponent. A result out of range, or tiny and not exact, is \<open>std::out_of_range\<close>.\<close>

definition stof :: "string \<Rightarrow> f32 res" where
  "stof s =
     (let a = takeWhile is_digit s;
          b = (case dropWhile is_digit s of c # r \<Rightarrow> if c = CHR ''.'' then takeWhile is_digit r else [] | [] \<Rightarrow> []);
          n = dec_val (a @ b); d = 10 ^ length b; x = f32_round n d in
      if a @ b = [] then Inl (Abort ''std::invalid_argument'')
      else if x = f32_inf \<or> (n * 2 ^ 126 < d \<and> n * 2 ^ 149 mod d \<noteq> 0) then Inl Out_of_range
      else Inr (of_nat x))"

section \<open>Arithmetic\<close>

text \<open>The sign bit, the signed value in units of \<open>2 ^ -149\<close>, and the bits made from a sign and a
  magnitude. \<open>nan\<close> says which NaN the machine makes of two operands that have no result.\<close>

definition f32_is_inf :: "f32 \<Rightarrow> bool" where
  "f32_is_inf x \<longleftrightarrow> unat x mod 2 ^ 31 = f32_inf"

definition f32_int :: "f32 \<Rightarrow> int" where
  "f32_int x = (if f32_sign x = 1 then - int (f32_scaled x) else int (f32_scaled x))"

definition f32_make :: "nat \<Rightarrow> nat \<Rightarrow> f32" where
  "f32_make sign bits = of_nat (sign * 2 ^ 31 + bits)"

definition f32_neg :: "f32 \<Rightarrow> f32" where
  "f32_neg x = xor x 0x80000000"

definition f32_add :: "(f32 \<Rightarrow> f32 \<Rightarrow> f32) \<Rightarrow> f32 \<Rightarrow> f32 \<Rightarrow> f32" where
  "f32_add nan x y =
     (if f32_is_nan x \<or> f32_is_nan y then nan x y
      else if f32_is_inf x then (if f32_is_inf y \<and> f32_sign x \<noteq> f32_sign y then nan x y else x)
      else if f32_is_inf y then y
      else
        let v = f32_int x + f32_int y in
        if v = 0 then f32_make (if f32_sign x = 1 \<and> f32_sign y = 1 then 1 else 0) 0
        else f32_make (if v < 0 then 1 else 0) (f32_round (nat \<bar>v\<bar>) (2 ^ 149)))"

definition f32_sub :: "(f32 \<Rightarrow> f32 \<Rightarrow> f32) \<Rightarrow> f32 \<Rightarrow> f32 \<Rightarrow> f32" where
  "f32_sub nan x y = (if f32_is_nan x \<or> f32_is_nan y then nan x y else f32_add nan x (f32_neg y))"

definition f32_mul :: "(f32 \<Rightarrow> f32 \<Rightarrow> f32) \<Rightarrow> f32 \<Rightarrow> f32 \<Rightarrow> f32" where
  "f32_mul nan x y =
     (let sign = (if f32_sign x = f32_sign y then 0 else 1) in
      if f32_is_nan x \<or> f32_is_nan y then nan x y
      else if f32_is_inf x \<or> f32_is_inf y then
        (if f32_is_zero x \<or> f32_is_zero y then nan x y else f32_make sign f32_inf)
      else f32_make sign (f32_round (f32_scaled x * f32_scaled y) (2 ^ 298)))"

definition f32_div :: "(f32 \<Rightarrow> f32 \<Rightarrow> f32) \<Rightarrow> f32 \<Rightarrow> f32 \<Rightarrow> f32" where
  "f32_div nan x y =
     (let sign = (if f32_sign x = f32_sign y then 0 else 1) in
      if f32_is_nan x \<or> f32_is_nan y then nan x y
      else if f32_is_inf x then (if f32_is_inf y then nan x y else f32_make sign f32_inf)
      else if f32_is_inf y then f32_make sign 0
      else if f32_is_zero y then (if f32_is_zero x then nan x y else f32_make sign f32_inf)
      else f32_make sign (f32_round (f32_scaled x) (f32_scaled y)))"

text \<open>Comparisons: the order of the magnitudes is the order of their bits; a NaN is not comparable.\<close>

definition f32_key :: "f32 \<Rightarrow> int" where
  "f32_key x = (if f32_sign x = 1 then - int (unat x mod 2 ^ 31) else int (unat x mod 2 ^ 31))"

definition f32_lt :: "f32 \<Rightarrow> f32 \<Rightarrow> bool" where
  "f32_lt x y \<longleftrightarrow> \<not> f32_is_nan x \<and> \<not> f32_is_nan y \<and> f32_key x < f32_key y"

definition f32_le :: "f32 \<Rightarrow> f32 \<Rightarrow> bool" where
  "f32_le x y \<longleftrightarrow> \<not> f32_is_nan x \<and> \<not> f32_is_nan y \<and> f32_key x \<le> f32_key y"

text \<open>Conversions.\<close>

definition f32_of_int :: "int \<Rightarrow> f32" where
  "f32_of_int c = f32_make (if c < 0 then 1 else 0) (f32_round (nat \<bar>c\<bar>) 1)"

text \<open>The integral part of \<open>static_cast<double>\<close> of a \<open>float\<close>, if the test of the folder lets it through.\<close>

definition f32_to_int :: "f32 \<Rightarrow> int option" where
  "f32_to_int x =
     (if f32_is_nan x \<or> (2 ^ 31 - 1) * 2 ^ 149 < f32_int x \<or> f32_int x < - (2 ^ 31) * 2 ^ 149 then None
      else Some (if f32_sign x = 1 then - int (f32_scaled x div 2 ^ 149) else int (f32_scaled x div 2 ^ 149)))"

end
