(* ===== verification/ParseTree.thy ===== *)
theory ParseTree
  imports AST Floats
begin

text \<open>
  From the parse tree to the syntax tree (\<open>src/common/syntax_tree.c\<close>, \<open>src/common/ast.cpp\<close>). A node
  of the parse tree has a name and children; the name of a token is its text. \<open>transform_node_iter\<close>
  is split into one definition per kind of node, each with the recursive call as an argument.
  A \<open>static_cast\<close> to a class the object does not have is undefined behaviour.
\<close>

section \<open>Parse trees\<close>

datatype syntax_tree_node = Node (node_name: string) (children_of: "syntax_tree_node list")

text \<open>\<open>strncpy\<close> into the 30 bytes of \<open>name\<close>: a longer text is cut and not terminated.\<close>

definition SYNTAX_TREE_NODE_NAME_MAX :: nat where "SYNTAX_TREE_NODE_NAME_MAX = 30"

definition new_syntax_tree_node :: "string option \<Rightarrow> syntax_tree_node" where
  "new_syntax_tree_node name = (case name of
     None \<Rightarrow> Node '''' []
   | Some x \<Rightarrow> Node (take SYNTAX_TREE_NODE_NAME_MAX x) [])"

text \<open>There is room for ten children.\<close>

definition syntax_tree_add_child :: "syntax_tree_node \<Rightarrow> syntax_tree_node \<Rightarrow> syntax_tree_node res" where
  "syntax_tree_add_child parent child =
     (if length (children_of parent) < 10 then Inr (Node (node_name parent) (children_of parent @ [child]))
      else Inl (UB ''children''))"

text \<open>Reading a name as a C string, and a child that may not be there.\<close>

definition c_str :: "syntax_tree_node \<Rightarrow> string res" where
  "c_str n = (if length (node_name n) < SYNTAX_TREE_NODE_NAME_MAX then Inr (node_name n) else Inl (UB ''name not terminated''))"

abbreviation children_num :: "syntax_tree_node \<Rightarrow> nat" where
  "children_num n \<equiv> length (children_of n)"

definition child :: "syntax_tree_node \<Rightarrow> nat \<Rightarrow> syntax_tree_node res" where
  "child n i = (if i < children_num n then Inr (children_of n ! i) else Inl (UB ''children''))"

lemma child_size: "child n i = Inr c \<Longrightarrow> size c < size n"
  by (cases n) (auto simp: child_def size_list_estimation' intro!: less_Suc_eq_le [THEN iffD2] size_list_estimation' split: if_splits)

section \<open>Syntax nodes\<close>

datatype ast_node =
    N_program ast_program
  | N_declaration ast_declaration
  | N_param ast_param
  | N_statement ast_statement
  | N_factor ast_factor
  | N_additive ast_additive
  | N_term ast_term

definition bad_cast :: "'a res" where "bad_cast = Inl (UB ''static_cast'')"

definition as_declaration :: "ast_node \<Rightarrow> ast_declaration res" where
  "as_declaration n = (case n of N_declaration d \<Rightarrow> Inr d | _ \<Rightarrow> bad_cast)"
definition as_var_declaration :: "ast_node \<Rightarrow> ast_var_declaration res" where
  "as_var_declaration n = (case n of N_declaration (Var_declaration d) \<Rightarrow> Inr d | _ \<Rightarrow> bad_cast)"
definition as_param :: "ast_node \<Rightarrow> ast_param res" where
  "as_param n = (case n of N_param p \<Rightarrow> Inr p | _ \<Rightarrow> bad_cast)"
definition as_statement :: "ast_node \<Rightarrow> ast_statement res" where
  "as_statement n = (case n of N_statement s \<Rightarrow> Inr s | _ \<Rightarrow> bad_cast)"
definition as_compound_stmt :: "ast_node \<Rightarrow> ast_statement res" where
  "as_compound_stmt n = (case n of N_statement (ASTCompoundStmt ds ss) \<Rightarrow> Inr (ASTCompoundStmt ds ss) | _ \<Rightarrow> bad_cast)"
definition as_expression :: "ast_node \<Rightarrow> ast_expression res" where
  "as_expression n = (case n of N_factor (Factor_expression e) \<Rightarrow> Inr e | _ \<Rightarrow> bad_cast)"
definition as_var :: "ast_node \<Rightarrow> ast_var res" where
  "as_var n = (case n of N_factor (Factor_var v) \<Rightarrow> Inr v | _ \<Rightarrow> bad_cast)"
definition as_additive :: "ast_node \<Rightarrow> ast_additive res" where
  "as_additive n = (case n of N_additive a \<Rightarrow> Inr a | _ \<Rightarrow> bad_cast)"
definition as_term :: "ast_node \<Rightarrow> ast_term res" where
  "as_term n = (case n of N_term t \<Rightarrow> Inr t | _ \<Rightarrow> bad_cast)"
definition as_factor :: "ast_node \<Rightarrow> ast_factor res" where
  "as_factor n = (case n of N_factor f \<Rightarrow> Inr f | _ \<Rightarrow> bad_cast)"

lemmas cast_defs = as_declaration_def as_var_declaration_def as_param_def as_statement_def as_compound_stmt_def
  as_expression_def as_var_def as_additive_def as_term_def as_factor_def

section \<open>Lists\<close>

text \<open>The loop \<open>while (list_ptr->children_num == k)\<close> pushes the child \<open>k - 1\<close> and goes to the
  child 0. The result is what the stack pops, and the last \<open>list_ptr\<close>.\<close>

function unroll :: "nat \<Rightarrow> syntax_tree_node \<Rightarrow> (syntax_tree_node list \<times> syntax_tree_node) res" where
  "unroll k n =
     (if children_num n = k then
        bindR (child n (k - 1)) (\<lambda>c. bindR (child n 0) (\<lambda>m. bindR (unroll k m) (\<lambda>(cs, last).
        Inr (cs @ [c], last))))
      else Inr ([], n))"
  by auto
termination by (relation "measure (size \<circ> snd)") (auto dest: child_size)

declare unroll.simps [simp del]

fun mapR :: "('a \<Rightarrow> 'b res) \<Rightarrow> 'a list \<Rightarrow> 'b list res" where
  "mapR f [] = Inr []"
| "mapR f (x # xs) = bindR (f x) (\<lambda>y. bindR (mapR f xs) (\<lambda>ys. Inr (y # ys)))"

lemma mapR_cong [fundef_cong]: "xs = ys \<Longrightarrow> (\<And>x. x \<in> set ys \<Longrightarrow> f x = g x) \<Longrightarrow> mapR f xs = mapR g ys"
  by (induction xs arbitrary: ys) (auto intro!: bindR_cong)

lemma unroll_size:
  "unroll k n = Inr (cs, l) \<Longrightarrow> size l \<le> size n \<and> (\<forall>c\<in>set cs. size c < size n)"
proof (induction k n arbitrary: cs l rule: unroll.induct)
  case (1 k n)
  show ?case
  proof (cases "children_num n = k")
    case False
    then show ?thesis using "1.prems" by (simp add: unroll.simps)
  next
    case True
    then obtain c m cs' where c: "child n (k - 1) = Inr c" "child n 0 = Inr m" "unroll k m = Inr (cs', l)" "cs = cs' @ [c]"
      using "1.prems" by (auto simp: unroll.simps [of k n])
    then show ?thesis using "1.IH" [OF True c(1-3)] child_size [OF c(1)] child_size [OF c(2)] by auto
  qed
qed


section \<open>Printing the parse tree\<close>

fun print_syntax_tree_node :: "nat \<Rightarrow> syntax_tree_node \<Rightarrow> string res" where
  "print_syntax_tree_node level (Node x cs) =
     bindR (c_str (Node x cs)) (\<lambda>y.
     bindR (mapR (print_syntax_tree_node (level + 1)) cs) (\<lambda>ls.
     Inr (concat (replicate level ''|  '') @ ''>--'' @ (if cs = [] then ''*'' else ''+'') @ '' '' @ y @ [CHR 0x0A] @ concat ls)))"

section \<open>One kind of node\<close>

text \<open>A list: the elements from the left; \<open>end\<close> says whether the last \<open>list_ptr\<close> holds one more.\<close>

definition transform_list :: "(syntax_tree_node \<Rightarrow> ast_node res) \<Rightarrow> (ast_node \<Rightarrow> 'a res) \<Rightarrow> nat \<Rightarrow> bool \<Rightarrow>
    syntax_tree_node \<Rightarrow> 'a list res" where
  "transform_list tr as k end n =
     bindR (unroll k n) (\<lambda>(cs, last).
     bindR (if end then bindR (child last 0) (\<lambda>c. Inr (c # cs)) else Inr cs) (\<lambda>ns.
     mapR (\<lambda>c. bindR (tr c) as) ns))"

definition transform_program :: "(syntax_tree_node \<Rightarrow> ast_node res) \<Rightarrow> syntax_tree_node \<Rightarrow> ast_node res" where
  "transform_program tr n =
     bindR (child n 0) (\<lambda>l.
     bindR (transform_list tr as_declaration 2 True l) (\<lambda>ds.
     Inr (N_program (ASTProgram ds))))"

text \<open>The keyword of a type specifier.\<close>

definition type_name :: "syntax_tree_node \<Rightarrow> string res" where
  "type_name n = bindR (child n 0) (\<lambda>t. bindR (child t 0) (\<lambda>k. Inr (node_name k)))"

definition var_type_of :: "string \<Rightarrow> CminusType" where
  "var_type_of k = (if k = ''int'' then TYPE_INT else TYPE_FLOAT)"

definition fun_type_of :: "string \<Rightarrow> CminusType" where
  "fun_type_of k = (if k = ''int'' then TYPE_INT else if k = ''float'' then TYPE_FLOAT else TYPE_VOID)"

definition child_name :: "syntax_tree_node \<Rightarrow> nat \<Rightarrow> string res" where
  "child_name n i = bindR (child n i) c_str"

definition int_node :: "int \<Rightarrow> ast_num" where
  "int_node v = ASTNum TYPE_INT (word_of_int v)"

definition transform_var_declaration :: "syntax_tree_node \<Rightarrow> ast_node res" where
  "transform_var_declaration n =
     bindR (type_name n) (\<lambda>k.
     if children_num n = 3 then
       bindR (child_name n 1) (\<lambda>x.
       Inr (N_declaration (Var_declaration (ASTVarDeclaration (var_type_of k) x None))))
     else if children_num n = 6 then
       bindR (child_name n 1) (\<lambda>x.
       bindR (child_name n 3) (\<lambda>t.
       bindR (stoi t) (\<lambda>v.
       Inr (N_declaration (Var_declaration (ASTVarDeclaration (var_type_of k) x (Some (int_node v))))))))
     else Inl (Abort ''[ast]: var-declaration transform failure!''))"

definition transform_params :: "(syntax_tree_node \<Rightarrow> ast_node res) \<Rightarrow> syntax_tree_node \<Rightarrow> ast_param list res" where
  "transform_params tr n =
     bindR (child n 0) (\<lambda>l.
     if children_num l = 0 then Inr [] else transform_list tr as_param 3 True l)"

definition transform_fun_declaration :: "(syntax_tree_node \<Rightarrow> ast_node res) \<Rightarrow> syntax_tree_node \<Rightarrow> ast_node res" where
  "transform_fun_declaration tr n =
     bindR (type_name n) (\<lambda>k.
     bindR (child_name n 1) (\<lambda>x.
     bindR (child n 3) (\<lambda>p.
     bindR (transform_params tr p) (\<lambda>ps.
     bindR (child n 5) (\<lambda>c.
     bindR (bindR (tr c) as_compound_stmt) (\<lambda>body.
     Inr (N_declaration (ASTFunDeclaration (fun_type_of k) x ps body))))))))"

definition transform_param :: "syntax_tree_node \<Rightarrow> ast_node res" where
  "transform_param n =
     bindR (type_name n) (\<lambda>k.
     bindR (child_name n 1) (\<lambda>x.
     Inr (N_param (ASTParam (var_type_of k) x (2 < children_num n)))))"

definition transform_compound_stmt :: "(syntax_tree_node \<Rightarrow> ast_node res) \<Rightarrow> syntax_tree_node \<Rightarrow> ast_node res" where
  "transform_compound_stmt tr n =
     bindR (child n 1) (\<lambda>l.
     bindR (transform_list tr as_var_declaration 2 False l) (\<lambda>ds.
     bindR (child n 2) (\<lambda>m.
     bindR (transform_list tr as_statement 2 False m) (\<lambda>ss.
     Inr (N_statement (ASTCompoundStmt ds ss))))))"

definition transform_as :: "(syntax_tree_node \<Rightarrow> ast_node res) \<Rightarrow> (ast_node \<Rightarrow> 'a res) \<Rightarrow> syntax_tree_node \<Rightarrow> nat \<Rightarrow> 'a res" where
  "transform_as tr as n i = bindR (child n i) (\<lambda>c. bindR (tr c) as)"

definition transform_expression_stmt :: "(syntax_tree_node \<Rightarrow> ast_node res) \<Rightarrow> syntax_tree_node \<Rightarrow> ast_node res" where
  "transform_expression_stmt tr n =
     (if children_num n = 2 then
        bindR (transform_as tr as_expression n 0) (\<lambda>e. Inr (N_statement (ASTExpressionStmt (Some e))))
      else Inr (N_statement (ASTExpressionStmt None)))"

definition transform_selection_stmt :: "(syntax_tree_node \<Rightarrow> ast_node res) \<Rightarrow> syntax_tree_node \<Rightarrow> ast_node res" where
  "transform_selection_stmt tr n =
     bindR (transform_as tr as_expression n 2) (\<lambda>e.
     bindR (transform_as tr as_statement n 4) (\<lambda>s1.
     if children_num n = 7 then
       bindR (transform_as tr as_statement n 6) (\<lambda>s2. Inr (N_statement (ASTSelectionStmt e s1 (Some s2))))
     else Inr (N_statement (ASTSelectionStmt e s1 None))))"

definition transform_iteration_stmt :: "(syntax_tree_node \<Rightarrow> ast_node res) \<Rightarrow> syntax_tree_node \<Rightarrow> ast_node res" where
  "transform_iteration_stmt tr n =
     bindR (transform_as tr as_expression n 2) (\<lambda>e.
     bindR (transform_as tr as_statement n 4) (\<lambda>s. Inr (N_statement (ASTIterationStmt e s))))"

definition transform_return_stmt :: "(syntax_tree_node \<Rightarrow> ast_node res) \<Rightarrow> syntax_tree_node \<Rightarrow> ast_node res" where
  "transform_return_stmt tr n =
     (if children_num n = 3 then
        bindR (transform_as tr as_expression n 1) (\<lambda>e. Inr (N_statement (ASTReturnStmt (Some e))))
      else Inr (N_statement (ASTReturnStmt None)))"

definition transform_expression :: "(syntax_tree_node \<Rightarrow> ast_node res) \<Rightarrow> syntax_tree_node \<Rightarrow> ast_node res" where
  "transform_expression tr n =
     (if children_num n = 1 then transform_as tr Inr n 0
      else
        bindR (transform_as tr as_var n 0) (\<lambda>v.
        bindR (transform_as tr as_expression n 2) (\<lambda>e.
        Inr (N_factor (Factor_expression (ASTAssignExpression v e))))))"

definition transform_var :: "(syntax_tree_node \<Rightarrow> ast_node res) \<Rightarrow> syntax_tree_node \<Rightarrow> ast_node res" where
  "transform_var tr n =
     bindR (child_name n 0) (\<lambda>x.
     if children_num n = 4 then
       bindR (transform_as tr as_expression n 2) (\<lambda>e. Inr (N_factor (Factor_var (ASTVar x (Some e)))))
     else Inr (N_factor (Factor_var (ASTVar x None))))"

text \<open>The operators. \<open>new\<close> with parentheses zeroes the node, so an operator that is not set is the
  first of its enumeration.\<close>

definition relop_of :: "string \<Rightarrow> RelOp" where
  "relop_of x = (if x = ''<='' then OP_LE else if x = ''<'' then OP_LT else if x = ''>'' then OP_GT
     else if x = ''>='' then OP_GE else if x = ''=='' then OP_EQ else if x = ''!='' then OP_NEQ else OP_LE)"

definition addop_of :: "string \<Rightarrow> AddOp" where
  "addop_of x = (if x = ''+'' then OP_PLUS else if x = ''-'' then OP_MINUS else OP_PLUS)"

definition mulop_of :: "string \<Rightarrow> MulOp" where
  "mulop_of x = (if x = ''*'' then OP_MUL else if x = ''/'' then OP_DIV else OP_MUL)"

definition op_name_of :: "syntax_tree_node \<Rightarrow> string res" where
  "op_name_of n = bindR (child n 1) (\<lambda>p. bindR (child p 0) (\<lambda>c. Inr (node_name c)))"

definition transform_simple_expression :: "(syntax_tree_node \<Rightarrow> ast_node res) \<Rightarrow> syntax_tree_node \<Rightarrow> ast_node res" where
  "transform_simple_expression tr n =
     bindR (transform_as tr as_additive n 0) (\<lambda>l.
     if children_num n = 3 then
       bindR (op_name_of n) (\<lambda>x.
       bindR (transform_as tr as_additive n 2) (\<lambda>r.
       Inr (N_factor (Factor_expression (ASTSimpleExpression l (Some r) (relop_of x))))))
     else Inr (N_factor (Factor_expression (ASTSimpleExpression l None OP_LE))))"

definition transform_additive_expression :: "(syntax_tree_node \<Rightarrow> ast_node res) \<Rightarrow> syntax_tree_node \<Rightarrow> ast_node res" where
  "transform_additive_expression tr n =
     (if children_num n = 3 then
        bindR (transform_as tr as_additive n 0) (\<lambda>l.
        bindR (op_name_of n) (\<lambda>x.
        bindR (transform_as tr as_term n 2) (\<lambda>t.
        Inr (N_additive (ASTAdditiveExpression (Some l) (addop_of x) t)))))
      else bindR (transform_as tr as_term n 0) (\<lambda>t. Inr (N_additive (ASTAdditiveExpression None OP_PLUS t))))"

definition transform_term :: "(syntax_tree_node \<Rightarrow> ast_node res) \<Rightarrow> syntax_tree_node \<Rightarrow> ast_node res" where
  "transform_term tr n =
     (if children_num n = 3 then
        bindR (transform_as tr as_term n 0) (\<lambda>l.
        bindR (op_name_of n) (\<lambda>x.
        bindR (transform_as tr as_factor n 2) (\<lambda>f.
        Inr (N_term (ASTTerm (Some l) (mulop_of x) f)))))
      else bindR (transform_as tr as_factor n 0) (\<lambda>f. Inr (N_term (ASTTerm None OP_MUL f))))"

definition transform_factor :: "(syntax_tree_node \<Rightarrow> ast_node res) \<Rightarrow> syntax_tree_node \<Rightarrow> ast_node res" where
  "transform_factor tr n =
     (let i = (if children_num n = 3 then 1 else 0) in
      bindR (child n i) (\<lambda>c.
      if node_name c \<in> {''expression'', ''var'', ''call''} then tr c
      else if node_name c = ''integer'' then
        bindR (child_name c 0) (\<lambda>t. bindR (stoi t) (\<lambda>v. Inr (N_factor (Factor_num (int_node v)))))
      else if node_name c = ''float'' then
        bindR (child_name c 0) (\<lambda>t. bindR (stof t) (\<lambda>v. Inr (N_factor (Factor_num (ASTNum TYPE_FLOAT v)))))
      else Inl (Abort ''Abort due to node cast error.'')))"

definition transform_call :: "(syntax_tree_node \<Rightarrow> ast_node res) \<Rightarrow> syntax_tree_node \<Rightarrow> ast_node res" where
  "transform_call tr n =
     bindR (child_name n 0) (\<lambda>x.
     bindR (child n 2) (\<lambda>a.
     bindR (child a 0) (\<lambda>l.
     if node_name l = ''arg-list'' then
       bindR (transform_list tr as_expression 3 True l) (\<lambda>es. Inr (N_factor (Factor_call (ASTCall x es))))
     else Inr (N_factor (Factor_call (ASTCall x []))))))"

section \<open>All kinds\<close>

lemma transform_list_cong [fundef_cong]:
  assumes "\<And>c. size c < size n \<Longrightarrow> tr c = tr' c"
  shows "transform_list tr as k end n = transform_list tr' as k end n"
proof -
  have "mapR (\<lambda>c. bindR (tr c) as) ns = mapR (\<lambda>c. bindR (tr' c) as) ns"
    if u: "unroll k n = Inr (cs, l)" and ns: "(if end then bindR (child l 0) (\<lambda>c. Inr (c # cs)) else Inr cs) = Inr ns" for cs l ns
    using unroll_size [OF u] ns child_size [of l 0] assms by (auto intro!: mapR_cong split: if_splits)
  then show ?thesis unfolding transform_list_def by (auto intro!: bindR_cong)
qed

lemma transform_as_cong [fundef_cong]:
  assumes "\<And>c. size c < size n \<Longrightarrow> tr c = tr' c"
  shows "transform_as tr as n i = transform_as tr' as n i"
  using child_size [of n i] assms by (auto simp: transform_as_def intro!: bindR_cong)

lemma transform_cong [fundef_cong]:
  assumes "\<And>c. size c < size n \<Longrightarrow> tr c = tr' c"
  shows "transform_program tr n = transform_program tr' n" "transform_params tr n = transform_params tr' n"
    "transform_fun_declaration tr n = transform_fun_declaration tr' n"
    "transform_compound_stmt tr n = transform_compound_stmt tr' n"
    "transform_expression_stmt tr n = transform_expression_stmt tr' n"
    "transform_selection_stmt tr n = transform_selection_stmt tr' n"
    "transform_iteration_stmt tr n = transform_iteration_stmt tr' n"
    "transform_return_stmt tr n = transform_return_stmt tr' n"
    "transform_expression tr n = transform_expression tr' n" "transform_var tr n = transform_var tr' n"
    "transform_simple_expression tr n = transform_simple_expression tr' n"
    "transform_additive_expression tr n = transform_additive_expression tr' n"
    "transform_term tr n = transform_term tr' n" "transform_factor tr n = transform_factor tr' n"
    "transform_call tr n = transform_call tr' n"
proof -
  have below: "tr c' = tr' c'" if "child n i = Inr c" "size c' < size c" for i c c'
    using assms child_size [OF that(1)] that(2) by simp
  have params: "transform_params tr c = transform_params tr' c" if "child n i = Inr c" for i c
    using below [OF that] child_size [of c 0] by (auto simp: transform_params_def intro!: bindR_cong transform_list_cong)
  have as: "transform_as tr as n i = transform_as tr' as n i" for as :: "ast_node \<Rightarrow> 'b res" and i
    by (rule transform_as_cong [OF assms])
  show "transform_program tr n = transform_program tr' n"
    using below by (auto simp: transform_program_def intro!: bindR_cong transform_list_cong)
  show "transform_params tr n = transform_params tr' n"
    using below by (auto simp: transform_params_def intro!: bindR_cong transform_list_cong)
  show "transform_compound_stmt tr n = transform_compound_stmt tr' n"
    using below by (auto simp: transform_compound_stmt_def intro!: bindR_cong transform_list_cong)
  show "transform_fun_declaration tr n = transform_fun_declaration tr' n"
    using params child_size [of n] assms by (auto simp: transform_fun_declaration_def intro!: bindR_cong)
  show "transform_call tr n = transform_call tr' n"
    using below child_size by (auto simp: transform_call_def intro!: bindR_cong transform_list_cong) (meson order.strict_trans)
  show "transform_factor tr n = transform_factor tr' n"
    using child_size [of n] assms by (auto simp: transform_factor_def Let_def intro!: bindR_cong)
qed (simp_all only: transform_expression_stmt_def transform_selection_stmt_def transform_iteration_stmt_def
    transform_return_stmt_def transform_expression_def transform_var_def transform_simple_expression_def
    transform_additive_expression_def transform_term_def transform_as_cong [of n tr tr', OF assms])

function transform_node_iter :: "syntax_tree_node \<Rightarrow> ast_node res" where
  "transform_node_iter n =
     (let x = node_name n in
      if x = ''program'' then transform_program transform_node_iter n
      else if x = ''declaration'' then transform_as transform_node_iter Inr n 0
      else if x = ''var-declaration'' then transform_var_declaration n
      else if x = ''fun-declaration'' then transform_fun_declaration transform_node_iter n
      else if x = ''param'' then transform_param n
      else if x = ''compound-stmt'' then transform_compound_stmt transform_node_iter n
      else if x = ''statement'' then transform_as transform_node_iter Inr n 0
      else if x = ''expression-stmt'' then transform_expression_stmt transform_node_iter n
      else if x = ''selection-stmt'' then transform_selection_stmt transform_node_iter n
      else if x = ''iteration-stmt'' then transform_iteration_stmt transform_node_iter n
      else if x = ''return-stmt'' then transform_return_stmt transform_node_iter n
      else if x = ''expression'' then transform_expression transform_node_iter n
      else if x = ''var'' then transform_var transform_node_iter n
      else if x = ''simple-expression'' then transform_simple_expression transform_node_iter n
      else if x = ''additive-expression'' then transform_additive_expression transform_node_iter n
      else if x = ''term'' then transform_term transform_node_iter n
      else if x = ''factor'' then transform_factor transform_node_iter n
      else if x = ''call'' then transform_call transform_node_iter n
      else Inl (Abort ''[ast]: transform failure!''))"
  by auto
termination by (relation "measure size") auto

declare transform_node_iter.simps [simp del]

text \<open>The constructor of \<open>AST\<close>. The root is \<open>None\<close> if the parser did not set it; the argument is
  \<open>None\<close> for a null pointer.\<close>

definition AST_ctor :: "syntax_tree_node option option \<Rightarrow> ast_program res" where
  "AST_ctor s = (case s of
     None \<Rightarrow> Inl (Abort ''empty input tree!'')
   | Some None \<Rightarrow> Inl (UB ''root not initialised'')
   | Some (Some root) \<Rightarrow>
       bindR (transform_node_iter root) (\<lambda>n. case n of N_program p \<Rightarrow> Inr p | _ \<Rightarrow> bad_cast))"

end
