(* ===== verification/Grammar.thy ===== *)
theory Grammar
  imports ParseTree
begin

text \<open>
  The grammar (\<open>src/parser/syntax_analyzer.y\<close>, tokens of \<open>lexical_analyzer.l\<close>) as the relation between
  a token string and the tree the actions build, and the printing of a syntax tree as tokens. The
  generated tables are not modelled: the relation says which trees a parser for this grammar
  can return, and \<open>transform_node_iter\<close> is right on each of them.
\<close>

section \<open>Tokens\<close>

definition keyword_texts :: "string set" where
  "keyword_texts = {''else'', ''if'', ''int'', ''return'', ''void'', ''while'', ''float''}"

definition is_letter :: "char \<Rightarrow> bool" where
  "is_letter c \<longleftrightarrow> (of_char c :: nat) \<in> {65..90} \<union> {97..122}"

definition is_identifier :: "string \<Rightarrow> bool" where
  "is_identifier x \<longleftrightarrow> x \<noteq> [] \<and> list_all is_letter x \<and> x \<notin> keyword_texts"

definition is_integer :: "string \<Rightarrow> bool" where
  "is_integer x \<longleftrightarrow> x \<noteq> [] \<and> list_all is_digit x"

definition is_floatconst :: "string \<Rightarrow> bool" where
  "is_floatconst x \<longleftrightarrow> (case dropWhile is_digit x of
     [] \<Rightarrow> False
   | c # b \<Rightarrow> c = CHR ''.'' \<and> list_all is_digit b \<and> takeWhile is_digit x @ b \<noteq> [])"

text \<open>\<open>pass_node\<close> and the helper \<open>node\<close> of the actions.\<close>

definition leaf :: "string \<Rightarrow> syntax_tree_node" where
  "leaf x = new_syntax_tree_node (Some x)"

definition node :: "string \<Rightarrow> syntax_tree_node list \<Rightarrow> syntax_tree_node" where
  "node x cs = Node x (if cs = [] then [leaf ''epsilon''] else cs)"

section \<open>Derivations\<close>

datatype grammar_symbol =
    NT_program | NT_declaration_list | NT_declaration | NT_var_declaration | NT_fun_declaration
  | NT_type_specifier | NT_params | NT_param_list | NT_param | NT_compound_stmt | NT_local_declarations
  | NT_statement_list | NT_statement | NT_expression_stmt | NT_selection_stmt | NT_iteration_stmt
  | NT_return_stmt | NT_expression | NT_var | NT_simple_expression | NT_relop | NT_additive_expression
  | NT_addop | NT_term | NT_mulop | NT_factor | NT_integer | NT_float_const | NT_call | NT_args | NT_arg_list

inductive derives :: "grammar_symbol \<Rightarrow> string list \<Rightarrow> syntax_tree_node \<Rightarrow> bool" where
  "derives NT_declaration_list w t \<Longrightarrow> derives NT_program w (node ''program'' [t])"
| "derives NT_declaration_list w1 t1 \<Longrightarrow> derives NT_declaration w2 t2 \<Longrightarrow>
    derives NT_declaration_list (w1 @ w2) (node ''declaration-list'' [t1, t2])"
| "derives NT_declaration w t \<Longrightarrow> derives NT_declaration_list w (node ''declaration-list'' [t])"
| "derives NT_var_declaration w t \<Longrightarrow> derives NT_declaration w (node ''declaration'' [t])"
| "derives NT_fun_declaration w t \<Longrightarrow> derives NT_declaration w (node ''declaration'' [t])"
| "derives NT_type_specifier w t \<Longrightarrow> is_identifier x \<Longrightarrow>
    derives NT_var_declaration (w @ [x, '';'']) (node ''var-declaration'' [t, leaf x, leaf '';''])"
| "derives NT_type_specifier w t \<Longrightarrow> is_identifier x \<Longrightarrow> is_integer i \<Longrightarrow>
    derives NT_var_declaration (w @ [x, ''['', i, '']'', '';''])
      (node ''var-declaration'' [t, leaf x, leaf ''['', leaf i, leaf '']'', leaf '';''])"
| "derives NT_type_specifier w t \<Longrightarrow> is_identifier x \<Longrightarrow> derives NT_params wp p \<Longrightarrow> derives NT_compound_stmt wc c \<Longrightarrow>
    derives NT_fun_declaration (w @ [x, ''(''] @ wp @ ['')''] @ wc)
      (node ''fun-declaration'' [t, leaf x, leaf ''('', p, leaf '')'', c])"
| "x \<in> {''int'', ''float'', ''void''} \<Longrightarrow> derives NT_type_specifier [x] (node ''type-specifier'' [leaf x])"
| "derives NT_param_list w t \<Longrightarrow> derives NT_params w (node ''params'' [t])"
| "derives NT_params [''void''] (node ''params'' [leaf ''void''])"
| "derives NT_param_list w1 t1 \<Longrightarrow> derives NT_param w2 t2 \<Longrightarrow>
    derives NT_param_list (w1 @ ['',''] @ w2) (node ''param-list'' [t1, leaf '','', t2])"
| "derives NT_param w t \<Longrightarrow> derives NT_param_list w (node ''param-list'' [t])"
| "derives NT_type_specifier w t \<Longrightarrow> is_identifier x \<Longrightarrow>
    derives NT_param (w @ [x]) (node ''param'' [t, leaf x])"
| "derives NT_type_specifier w t \<Longrightarrow> is_identifier x \<Longrightarrow>
    derives NT_param (w @ [x, ''['', '']'']) (node ''param'' [t, leaf x, leaf ''['', leaf '']''])"
| "derives NT_local_declarations w1 t1 \<Longrightarrow> derives NT_statement_list w2 t2 \<Longrightarrow>
    derives NT_compound_stmt ([''{''] @ w1 @ w2 @ [''}'']) (node ''compound-stmt'' [leaf ''{'', t1, t2, leaf ''}''])"
| "derives NT_local_declarations [] (node ''local-declarations'' [])"
| "derives NT_local_declarations w1 t1 \<Longrightarrow> derives NT_var_declaration w2 t2 \<Longrightarrow>
    derives NT_local_declarations (w1 @ w2) (node ''local-declarations'' [t1, t2])"
| "derives NT_statement_list [] (node ''statement-list'' [])"
| "derives NT_statement_list w1 t1 \<Longrightarrow> derives NT_statement w2 t2 \<Longrightarrow>
    derives NT_statement_list (w1 @ w2) (node ''statement-list'' [t1, t2])"
| "derives NT_expression_stmt w t \<Longrightarrow> derives NT_statement w (node ''statement'' [t])"
| "derives NT_compound_stmt w t \<Longrightarrow> derives NT_statement w (node ''statement'' [t])"
| "derives NT_selection_stmt w t \<Longrightarrow> derives NT_statement w (node ''statement'' [t])"
| "derives NT_iteration_stmt w t \<Longrightarrow> derives NT_statement w (node ''statement'' [t])"
| "derives NT_return_stmt w t \<Longrightarrow> derives NT_statement w (node ''statement'' [t])"
| "derives NT_expression w t \<Longrightarrow> derives NT_expression_stmt (w @ ['';'']) (node ''expression-stmt'' [t, leaf '';''])"
| "derives NT_expression_stmt ['';''] (node ''expression-stmt'' [leaf '';''])"
| "derives NT_expression w1 t1 \<Longrightarrow> derives NT_statement w2 t2 \<Longrightarrow>
    derives NT_selection_stmt ([''if'', ''(''] @ w1 @ ['')''] @ w2)
      (node ''selection-stmt'' [leaf ''if'', leaf ''('', t1, leaf '')'', t2])"
| "derives NT_expression w1 t1 \<Longrightarrow> derives NT_statement w2 t2 \<Longrightarrow> derives NT_statement w3 t3 \<Longrightarrow>
    derives NT_selection_stmt ([''if'', ''(''] @ w1 @ ['')''] @ w2 @ [''else''] @ w3)
      (node ''selection-stmt'' [leaf ''if'', leaf ''('', t1, leaf '')'', t2, leaf ''else'', t3])"
| "derives NT_expression w1 t1 \<Longrightarrow> derives NT_statement w2 t2 \<Longrightarrow>
    derives NT_iteration_stmt ([''while'', ''(''] @ w1 @ ['')''] @ w2)
      (node ''iteration-stmt'' [leaf ''while'', leaf ''('', t1, leaf '')'', t2])"
| "derives NT_return_stmt [''return'', '';''] (node ''return-stmt'' [leaf ''return'', leaf '';''])"
| "derives NT_expression w t \<Longrightarrow>
    derives NT_return_stmt ([''return''] @ w @ ['';'']) (node ''return-stmt'' [leaf ''return'', t, leaf '';''])"
| "derives NT_var w1 t1 \<Longrightarrow> derives NT_expression w2 t2 \<Longrightarrow>
    derives NT_expression (w1 @ [''=''] @ w2) (node ''expression'' [t1, leaf ''='', t2])"
| "derives NT_simple_expression w t \<Longrightarrow> derives NT_expression w (node ''expression'' [t])"
| "is_identifier x \<Longrightarrow> derives NT_var [x] (node ''var'' [leaf x])"
| "is_identifier x \<Longrightarrow> derives NT_expression w t \<Longrightarrow>
    derives NT_var ([x, ''[''] @ w @ ['']'']) (node ''var'' [leaf x, leaf ''['', t, leaf '']''])"
| "derives NT_additive_expression w1 t1 \<Longrightarrow> derives NT_relop wo p \<Longrightarrow> derives NT_additive_expression w2 t2 \<Longrightarrow>
    derives NT_simple_expression (w1 @ wo @ w2) (node ''simple-expression'' [t1, p, t2])"
| "derives NT_additive_expression w t \<Longrightarrow> derives NT_simple_expression w (node ''simple-expression'' [t])"
| "x \<in> {''<'', ''<='', ''>'', ''>='', ''=='', ''!=''} \<Longrightarrow> derives NT_relop [x] (node ''relop'' [leaf x])"
| "derives NT_additive_expression w1 t1 \<Longrightarrow> derives NT_addop wo p \<Longrightarrow> derives NT_term w2 t2 \<Longrightarrow>
    derives NT_additive_expression (w1 @ wo @ w2) (node ''additive-expression'' [t1, p, t2])"
| "derives NT_term w t \<Longrightarrow> derives NT_additive_expression w (node ''additive-expression'' [t])"
| "x \<in> {''+'', ''-''} \<Longrightarrow> derives NT_addop [x] (node ''addop'' [leaf x])"
| "derives NT_term w1 t1 \<Longrightarrow> derives NT_mulop wo p \<Longrightarrow> derives NT_factor w2 t2 \<Longrightarrow>
    derives NT_term (w1 @ wo @ w2) (node ''term'' [t1, p, t2])"
| "derives NT_factor w t \<Longrightarrow> derives NT_term w (node ''term'' [t])"
| "x \<in> {''*'', ''/''} \<Longrightarrow> derives NT_mulop [x] (node ''mulop'' [leaf x])"
| "derives NT_expression w t \<Longrightarrow>
    derives NT_factor ([''(''] @ w @ ['')'']) (node ''factor'' [leaf ''('', t, leaf '')''])"
| "derives NT_var w t \<Longrightarrow> derives NT_factor w (node ''factor'' [t])"
| "derives NT_call w t \<Longrightarrow> derives NT_factor w (node ''factor'' [t])"
| "derives NT_integer w t \<Longrightarrow> derives NT_factor w (node ''factor'' [t])"
| "derives NT_float_const w t \<Longrightarrow> derives NT_factor w (node ''factor'' [t])"
| "is_integer x \<Longrightarrow> derives NT_integer [x] (node ''integer'' [leaf x])"
| "is_floatconst x \<Longrightarrow> derives NT_float_const [x] (node ''float'' [leaf x])"
| "is_identifier x \<Longrightarrow> derives NT_args w t \<Longrightarrow>
    derives NT_call ([x, ''(''] @ w @ ['')'']) (node ''call'' [leaf x, leaf ''('', t, leaf '')''])"
| "derives NT_arg_list w t \<Longrightarrow> derives NT_args w (node ''args'' [t])"
| "derives NT_args [] (node ''args'' [])"
| "derives NT_arg_list w1 t1 \<Longrightarrow> derives NT_expression w2 t2 \<Longrightarrow>
    derives NT_arg_list (w1 @ ['',''] @ w2) (node ''arg-list'' [t1, leaf '','', t2])"
| "derives NT_expression w t \<Longrightarrow> derives NT_arg_list w (node ''arg-list'' [t])"


section \<open>Printing a syntax tree as tokens\<close>

text \<open>A constant is its value: the text of a number is not kept.\<close>

datatype lexeme = Txt string | Int_lit u32 | Float_lit u32

definition lexeme_of :: "string \<Rightarrow> lexeme" where
  "lexeme_of x =
     (if is_integer x then (case stoi x of Inr v \<Rightarrow> Int_lit (word_of_int v) | Inl _ \<Rightarrow> Txt x)
      else if is_floatconst x then (case stof x of Inr v \<Rightarrow> Float_lit v | Inl _ \<Rightarrow> Txt x)
      else Txt x)"

definition type_text :: "CminusType \<Rightarrow> string" where
  "type_text t = (case t of TYPE_INT \<Rightarrow> ''int'' | TYPE_FLOAT \<Rightarrow> ''float'' | TYPE_VOID \<Rightarrow> ''void'')"

definition relop_text :: "RelOp \<Rightarrow> string" where
  "relop_text p = (case p of OP_LE \<Rightarrow> ''<='' | OP_LT \<Rightarrow> ''<'' | OP_GT \<Rightarrow> ''>'' | OP_GE \<Rightarrow> ''>='' | OP_EQ \<Rightarrow> ''=='' | OP_NEQ \<Rightarrow> ''!='')"

definition addop_text :: "AddOp \<Rightarrow> string" where
  "addop_text p = (case p of OP_PLUS \<Rightarrow> ''+'' | OP_MINUS \<Rightarrow> ''-'')"

definition mulop_text :: "MulOp \<Rightarrow> string" where
  "mulop_text p = (case p of OP_MUL \<Rightarrow> ''*'' | OP_DIV \<Rightarrow> ''/'')"

fun lex_num :: "ast_num \<Rightarrow> lexeme list" where
  "lex_num (ASTNum t b) = [if t = TYPE_INT then Int_lit b else Float_lit b]"

fun lex_expression :: "ast_expression \<Rightarrow> lexeme list"
  and lex_additive :: "ast_additive \<Rightarrow> lexeme list"
  and lex_term :: "ast_term \<Rightarrow> lexeme list"
  and lex_factor :: "ast_factor \<Rightarrow> lexeme list"
  and lex_var :: "ast_var \<Rightarrow> lexeme list"
  and lex_call :: "ast_call \<Rightarrow> lexeme list"
  and lex_args :: "ast_expression list \<Rightarrow> lexeme list" where
  "lex_expression (ASTAssignExpression v e) = lex_var v @ [Txt ''=''] @ lex_expression e"
| "lex_expression (ASTSimpleExpression l None p) = lex_additive l"
| "lex_expression (ASTSimpleExpression l (Some r) p) = lex_additive l @ [Txt (relop_text p)] @ lex_additive r"
| "lex_additive (ASTAdditiveExpression None p t) = lex_term t"
| "lex_additive (ASTAdditiveExpression (Some l) p t) = lex_additive l @ [Txt (addop_text p)] @ lex_term t"
| "lex_term (ASTTerm None p f) = lex_factor f"
| "lex_term (ASTTerm (Some l) p f) = lex_term l @ [Txt (mulop_text p)] @ lex_factor f"
| "lex_factor (Factor_num n) = lex_num n"
| "lex_factor (Factor_var v) = lex_var v"
| "lex_factor (Factor_call c) = lex_call c"
| "lex_factor (Factor_expression e) = [Txt ''(''] @ lex_expression e @ [Txt '')'']"
| "lex_var (ASTVar x None) = [Txt x]"
| "lex_var (ASTVar x (Some e)) = [Txt x, Txt ''[''] @ lex_expression e @ [Txt '']'']"
| "lex_call (ASTCall x es) = [Txt x, Txt ''(''] @ lex_args es @ [Txt '')'']"
| "lex_args [] = []"
| "lex_args (e # es) = lex_expression e @ (if es = [] then [] else Txt '','' # lex_args es)"

fun lex_var_declaration :: "ast_var_declaration \<Rightarrow> lexeme list" where
  "lex_var_declaration (ASTVarDeclaration t x None) = [Txt (type_text t), Txt x, Txt '';'']"
| "lex_var_declaration (ASTVarDeclaration t x (Some n)) =
     [Txt (type_text t), Txt x, Txt ''[''] @ lex_num n @ [Txt '']'', Txt '';'']"

fun lex_statement :: "ast_statement \<Rightarrow> lexeme list" where
  "lex_statement (ASTCompoundStmt ds ss) =
     [Txt ''{''] @ concat (map lex_var_declaration ds) @ concat (map lex_statement ss) @ [Txt ''}'']"
| "lex_statement (ASTExpressionStmt None) = [Txt '';'']"
| "lex_statement (ASTExpressionStmt (Some e)) = lex_expression e @ [Txt '';'']"
| "lex_statement (ASTSelectionStmt e s1 None) = [Txt ''if'', Txt ''(''] @ lex_expression e @ [Txt '')''] @ lex_statement s1"
| "lex_statement (ASTSelectionStmt e s1 (Some s2)) =
     [Txt ''if'', Txt ''(''] @ lex_expression e @ [Txt '')''] @ lex_statement s1 @ [Txt ''else''] @ lex_statement s2"
| "lex_statement (ASTIterationStmt e s) = [Txt ''while'', Txt ''(''] @ lex_expression e @ [Txt '')''] @ lex_statement s"
| "lex_statement (ASTReturnStmt None) = [Txt ''return'', Txt '';'']"
| "lex_statement (ASTReturnStmt (Some e)) = [Txt ''return''] @ lex_expression e @ [Txt '';'']"

fun lex_param :: "ast_param \<Rightarrow> lexeme list" where
  "lex_param (ASTParam t x a) = [Txt (type_text t), Txt x] @ (if a then [Txt ''['', Txt '']''] else [])"

fun lex_param_list :: "ast_param list \<Rightarrow> lexeme list" where
  "lex_param_list [] = []"
| "lex_param_list (p # ps) = lex_param p @ (if ps = [] then [] else Txt '','' # lex_param_list ps)"

fun lex_declaration :: "ast_declaration \<Rightarrow> lexeme list" where
  "lex_declaration (Var_declaration d) = lex_var_declaration d"
| "lex_declaration (ASTFunDeclaration t x ps body) =
     [Txt (type_text t), Txt x, Txt ''(''] @ (if ps = [] then [Txt ''void''] else lex_param_list ps) @ [Txt '')''] @
     lex_statement body"

fun lex_program :: "ast_program \<Rightarrow> lexeme list" where
  "lex_program (ASTProgram ds) = concat (map lex_declaration ds)"

section \<open>Every tree of the grammar is transformed\<close>

text \<open>What the texts of the tokens must satisfy: they fit into a node, and a number is in range.\<close>

definition token_ok :: "string \<Rightarrow> bool" where
  "token_ok x \<longleftrightarrow> length x < SYNTAX_TREE_NODE_NAME_MAX \<and> (is_integer x \<longrightarrow> (case stoi x of Inr v \<Rightarrow> True | Inl _ \<Rightarrow> False)) \<and>
     (is_floatconst x \<longrightarrow> (case stof x of Inr v \<Rightarrow> True | Inl _ \<Rightarrow> False))"

text \<open>No variable or parameter is declared \<open>void\<close>.\<close>

fun no_void_vars :: "syntax_tree_node \<Rightarrow> bool" where
  "no_void_vars (Node x cs) \<longleftrightarrow>
     \<not> ((x = ''var-declaration'' \<or> x = ''param'') \<and> take 1 cs = [node ''type-specifier'' [leaf ''void'']]) \<and>
     list_all no_void_vars cs"

lemma tr_node:
  "transform_node_iter (Node ''program'' cs) = transform_program transform_node_iter (Node ''program'' cs)"
  "transform_node_iter (Node ''declaration'' cs) = transform_as transform_node_iter Inr (Node ''declaration'' cs) 0"
  "transform_node_iter (Node ''var-declaration'' cs) = transform_var_declaration (Node ''var-declaration'' cs)"
  "transform_node_iter (Node ''fun-declaration'' cs) = transform_fun_declaration transform_node_iter (Node ''fun-declaration'' cs)"
  "transform_node_iter (Node ''param'' cs) = transform_param (Node ''param'' cs)"
  "transform_node_iter (Node ''compound-stmt'' cs) = transform_compound_stmt transform_node_iter (Node ''compound-stmt'' cs)"
  "transform_node_iter (Node ''statement'' cs) = transform_as transform_node_iter Inr (Node ''statement'' cs) 0"
  "transform_node_iter (Node ''expression-stmt'' cs) = transform_expression_stmt transform_node_iter (Node ''expression-stmt'' cs)"
  "transform_node_iter (Node ''selection-stmt'' cs) = transform_selection_stmt transform_node_iter (Node ''selection-stmt'' cs)"
  "transform_node_iter (Node ''iteration-stmt'' cs) = transform_iteration_stmt transform_node_iter (Node ''iteration-stmt'' cs)"
  "transform_node_iter (Node ''return-stmt'' cs) = transform_return_stmt transform_node_iter (Node ''return-stmt'' cs)"
  "transform_node_iter (Node ''expression'' cs) = transform_expression transform_node_iter (Node ''expression'' cs)"
  "transform_node_iter (Node ''var'' cs) = transform_var transform_node_iter (Node ''var'' cs)"
  "transform_node_iter (Node ''simple-expression'' cs) = transform_simple_expression transform_node_iter (Node ''simple-expression'' cs)"
  "transform_node_iter (Node ''additive-expression'' cs) = transform_additive_expression transform_node_iter (Node ''additive-expression'' cs)"
  "transform_node_iter (Node ''term'' cs) = transform_term transform_node_iter (Node ''term'' cs)"
  "transform_node_iter (Node ''factor'' cs) = transform_factor transform_node_iter (Node ''factor'' cs)"
  "transform_node_iter (Node ''call'' cs) = transform_call transform_node_iter (Node ''call'' cs)"
  by (simp_all add: transform_node_iter.simps)

lemma child_Node [simp]: "child (Node x cs) i = (if i < length cs then Inr (cs ! i) else Inl (UB ''children''))"
  by (simp add: child_def)

lemma leaf_short: "token_ok x \<Longrightarrow> leaf x = Node x []"
  by (simp add: leaf_def new_syntax_tree_node_def token_ok_def)

lemma leaf_epsilon [simp]: "leaf ''epsilon'' = Node ''epsilon'' []"
  by (simp add: leaf_def new_syntax_tree_node_def SYNTAX_TREE_NODE_NAME_MAX_def)

lemma c_str_short: "token_ok x \<Longrightarrow> c_str (Node x cs) = Inr x"
  by (simp add: c_str_def token_ok_def)

lemma letter_not_digit: "is_letter c \<Longrightarrow> \<not> is_digit c \<and> c \<noteq> CHR ''.''"
  by (auto simp: is_letter_def is_digit_def)

lemma lexeme_identifier: "is_identifier x \<Longrightarrow> lexeme_of x = Txt x"
  using letter_not_digit by (cases x) (auto simp: is_identifier_def lexeme_of_def is_integer_def is_floatconst_def)

lemma lexeme_integer: "is_integer x \<Longrightarrow> token_ok x \<Longrightarrow> \<exists>v. stoi x = Inr v \<and> lexeme_of x = Int_lit (word_of_int v)"
  by (auto simp: token_ok_def lexeme_of_def split: sum.splits)

lemma floatconst_not_integer: "is_floatconst x \<Longrightarrow> \<not> is_integer x"
  by (cases "dropWhile is_digit x = []") (auto simp: is_floatconst_def is_integer_def list_all_iff dropWhile_eq_Nil_conv)

lemma lexeme_float: "is_floatconst x \<Longrightarrow> token_ok x \<Longrightarrow> \<exists>v. stof x = Inr v \<and> lexeme_of x = Float_lit v"
  using floatconst_not_integer [of x] by (auto simp: token_ok_def lexeme_of_def split: sum.splits)

lemma lexeme_fixed [simp]:
  "lexeme_of ''int'' = Txt ''int''" "lexeme_of ''float'' = Txt ''float''" "lexeme_of ''void'' = Txt ''void''"
  "lexeme_of ''if'' = Txt ''if''" "lexeme_of ''else'' = Txt ''else''" "lexeme_of ''while'' = Txt ''while''"
  "lexeme_of ''return'' = Txt ''return''" "lexeme_of '';'' = Txt '';''" "lexeme_of '','' = Txt '',''"
  "lexeme_of ''('' = Txt ''(''" "lexeme_of '')'' = Txt '')''" "lexeme_of ''['' = Txt ''[''" "lexeme_of '']'' = Txt '']''"
  "lexeme_of ''{'' = Txt ''{''" "lexeme_of ''}'' = Txt ''}''" "lexeme_of ''='' = Txt ''=''" "lexeme_of ''<'' = Txt ''<''"
  "lexeme_of ''<='' = Txt ''<=''" "lexeme_of ''>'' = Txt ''>''" "lexeme_of ''>='' = Txt ''>=''" "lexeme_of ''=='' = Txt ''==''"
  "lexeme_of ''!='' = Txt ''!=''" "lexeme_of ''+'' = Txt ''+''" "lexeme_of ''-'' = Txt ''-''" "lexeme_of ''*'' = Txt ''*''"
  "lexeme_of ''/'' = Txt ''/''"
  by (simp_all add: lexeme_of_def is_integer_def is_floatconst_def is_digit_def)

text \<open>A left-recursive list: the elements of the child 0, then the child \<open>k - 1\<close>.\<close>

lemma transform_list_snoc:
  assumes "length cs = k" and "0 < k" and "transform_list tr as k b (cs ! 0) = Inr xs"
    and "bindR (tr (cs ! (k - 1))) as = Inr x"
  shows "transform_list tr as k b (Node y cs) = Inr (xs @ [x])"
proof -
  have app: "mapR f (us @ [u]) = Inr (vs @ [v])" if "mapR f us = Inr vs" "f u = Inr v" for f :: "syntax_tree_node \<Rightarrow> 'a res" and us u vs v
    using that by (induction us arbitrary: vs) auto
  obtain ns l where u: "unroll k (cs ! 0) = Inr (ns, l)" using assms(3) by (auto simp: transform_list_def)
  have "unroll k (Node y cs) = Inr (ns @ [cs ! (k - 1)], l)" using assms(1,2) u by (simp add: unroll.simps [of k "Node y cs"])
  then show ?thesis
    using assms(3,4) u app [of "\<lambda>c. bindR (tr c) as"] by (cases b) (auto simp: transform_list_def)
qed

lemma transform_list_one: "length cs = 1 \<Longrightarrow> k \<noteq> 1 \<Longrightarrow> bindR (tr (cs ! 0)) as = Inr x \<Longrightarrow>
    transform_list tr as k True (Node y cs) = Inr [x]"
  by (simp add: transform_list_def unroll.simps [of k "Node y cs"])

lemma transform_list_none: "length cs = 1 \<Longrightarrow> k \<noteq> 1 \<Longrightarrow> transform_list tr as k False (Node y cs) = Inr []"
  by (simp add: transform_list_def unroll.simps [of k "Node y cs"])

lemma lex_args_snoc: "lex_args (es @ [e]) = lex_args es @ (if es = [] then [] else [Txt '','']) @ lex_expression e"
  by (induction es) auto

lemma lex_param_list_snoc: "lex_param_list (ps @ [p]) = lex_param_list ps @ (if ps = [] then [] else [Txt '','']) @ lex_param p"
  by (induction ps) auto

text \<open>What the trees of a symbol are turned into, and that the tokens are those of the result.\<close>

definition yields :: "syntax_tree_node \<Rightarrow> string list \<Rightarrow> lexeme list \<Rightarrow> bool" where
  "yields t w ls \<longleftrightarrow> (no_void_vars t \<longrightarrow> ls = map lexeme_of w)"

fun good :: "grammar_symbol \<Rightarrow> string list \<Rightarrow> syntax_tree_node \<Rightarrow> bool" where
  "good NT_program w t \<longleftrightarrow> (\<exists>p. transform_node_iter t = Inr (N_program p) \<and> yields t w (lex_program p))"
| "good NT_declaration_list w t \<longleftrightarrow> (\<exists>ds. transform_list transform_node_iter as_declaration 2 True t = Inr ds \<and>
     yields t w (concat (map lex_declaration ds)))"
| "good NT_declaration w t \<longleftrightarrow> (\<exists>d. transform_node_iter t = Inr (N_declaration d) \<and> yields t w (lex_declaration d))"
| "good NT_var_declaration w t \<longleftrightarrow> (\<exists>d. transform_node_iter t = Inr (N_declaration (Var_declaration d)) \<and>
     yields t w (lex_var_declaration d))"
| "good NT_fun_declaration w t \<longleftrightarrow> (\<exists>d. transform_node_iter t = Inr (N_declaration d) \<and> yields t w (lex_declaration d))"
| "good NT_type_specifier w t \<longleftrightarrow> (\<exists>x\<in>{''int'', ''float'', ''void''}. w = [x] \<and> t = node ''type-specifier'' [leaf x])"
| "good NT_params w t \<longleftrightarrow> (\<exists>ps. transform_params transform_node_iter t = Inr ps \<and>
     yields t w (if ps = [] then [Txt ''void''] else lex_param_list ps))"
| "good NT_param_list w t \<longleftrightarrow> (\<exists>ps. ps \<noteq> [] \<and> children_num t \<noteq> 0 \<and>
     transform_list transform_node_iter as_param 3 True t = Inr ps \<and> yields t w (lex_param_list ps))"
| "good NT_param w t \<longleftrightarrow> (\<exists>p. transform_node_iter t = Inr (N_param p) \<and> yields t w (lex_param p))"
| "good NT_compound_stmt w t \<longleftrightarrow> (\<exists>ds ss. transform_node_iter t = Inr (N_statement (ASTCompoundStmt ds ss)) \<and>
     yields t w (lex_statement (ASTCompoundStmt ds ss)))"
| "good NT_local_declarations w t \<longleftrightarrow> (\<exists>ds. transform_list transform_node_iter as_var_declaration 2 False t = Inr ds \<and>
     yields t w (concat (map lex_var_declaration ds)))"
| "good NT_statement_list w t \<longleftrightarrow> (\<exists>ss. transform_list transform_node_iter as_statement 2 False t = Inr ss \<and>
     yields t w (concat (map lex_statement ss)))"
| "good NT_statement w t \<longleftrightarrow> (\<exists>s. transform_node_iter t = Inr (N_statement s) \<and> yields t w (lex_statement s))"
| "good NT_expression_stmt w t \<longleftrightarrow> (\<exists>s. transform_node_iter t = Inr (N_statement s) \<and> yields t w (lex_statement s))"
| "good NT_selection_stmt w t \<longleftrightarrow> (\<exists>s. transform_node_iter t = Inr (N_statement s) \<and> yields t w (lex_statement s))"
| "good NT_iteration_stmt w t \<longleftrightarrow> (\<exists>s. transform_node_iter t = Inr (N_statement s) \<and> yields t w (lex_statement s))"
| "good NT_return_stmt w t \<longleftrightarrow> (\<exists>s. transform_node_iter t = Inr (N_statement s) \<and> yields t w (lex_statement s))"
| "good NT_expression w t \<longleftrightarrow> node_name t = ''expression'' \<and>
     (\<exists>e. transform_node_iter t = Inr (N_factor (Factor_expression e)) \<and> yields t w (lex_expression e))"
| "good NT_var w t \<longleftrightarrow> node_name t = ''var'' \<and>
     (\<exists>v. transform_node_iter t = Inr (N_factor (Factor_var v)) \<and> yields t w (lex_var v))"
| "good NT_simple_expression w t \<longleftrightarrow> (\<exists>e. transform_node_iter t = Inr (N_factor (Factor_expression e)) \<and> yields t w (lex_expression e))"
| "good NT_additive_expression w t \<longleftrightarrow> (\<exists>a. transform_node_iter t = Inr (N_additive a) \<and> yields t w (lex_additive a))"
| "good NT_term w t \<longleftrightarrow> (\<exists>a. transform_node_iter t = Inr (N_term a) \<and> yields t w (lex_term a))"
| "good NT_factor w t \<longleftrightarrow> (\<exists>f. transform_node_iter t = Inr (N_factor f) \<and> yields t w (lex_factor f))"
| "good NT_call w t \<longleftrightarrow> node_name t = ''call'' \<and>
     (\<exists>c. transform_node_iter t = Inr (N_factor (Factor_call c)) \<and> yields t w (lex_call c))"
| "good NT_relop w t \<longleftrightarrow> (\<exists>x\<in>{''<'', ''<='', ''>'', ''>='', ''=='', ''!=''}. w = [x] \<and> t = node ''relop'' [leaf x])"
| "good NT_addop w t \<longleftrightarrow> (\<exists>x\<in>{''+'', ''-''}. w = [x] \<and> t = node ''addop'' [leaf x])"
| "good NT_mulop w t \<longleftrightarrow> (\<exists>x\<in>{''*'', ''/''}. w = [x] \<and> t = node ''mulop'' [leaf x])"
| "good NT_integer w t \<longleftrightarrow> (\<exists>x. is_integer x \<and> w = [x] \<and> t = node ''integer'' [leaf x])"
| "good NT_float_const w t \<longleftrightarrow> (\<exists>x. is_floatconst x \<and> w = [x] \<and> t = node ''float'' [leaf x])"
| "good NT_args w t \<longleftrightarrow> (\<exists>l cs. t = Node ''args'' (l # cs) \<and> (\<exists>es. (if node_name l = ''arg-list''
     then transform_list transform_node_iter as_expression 3 True l = Inr es else es = []) \<and> yields t w (lex_args es)))"
| "good NT_arg_list w t \<longleftrightarrow> node_name t = ''arg-list'' \<and> (\<exists>es. es \<noteq> [] \<and>
     transform_list transform_node_iter as_expression 3 True t = Inr es \<and> yields t w (lex_args es))"

lemmas transform_defs = transform_program_def transform_var_declaration_def transform_fun_declaration_def
  transform_param_def transform_compound_stmt_def transform_expression_stmt_def transform_selection_stmt_def
  transform_iteration_stmt_def transform_return_stmt_def transform_expression_def transform_var_def
  transform_simple_expression_def transform_additive_expression_def transform_term_def transform_factor_def
  transform_call_def transform_params_def transform_as_def child_name_def type_name_def op_name_of_def

lemma transform_derives:
  "derives g w t \<Longrightarrow> \<forall>x\<in>set w. token_ok x \<Longrightarrow> good g w t"
proof (induction rule: derives.induct)
  case (2 w1 t1 w2 t2)
  then obtain xs x where "transform_list transform_node_iter as_declaration 2 True t1 = Inr xs" "bindR (transform_node_iter t2) as_declaration = Inr x"
    and "yields t1 w1 (concat (map lex_declaration xs)) \<and> yields t2 w2 (lex_declaration x)"
    by (auto simp: cast_defs simp del: bindR_Inr_iff)
  then show ?case using transform_list_snoc [of "[t1, t2]" 2 transform_node_iter as_declaration True xs x "''declaration-list''"] "2.prems"
    by (auto simp: node_def yields_def leaf_short lex_args_snoc lex_param_list_snoc split: if_splits)
next
  case (12 w1 t1 w2 t2)
  then obtain xs x where "transform_list transform_node_iter as_param 3 True t1 = Inr xs" "bindR (transform_node_iter t2) as_param = Inr x"
    and "xs \<noteq> [] \<and> yields t1 w1 (lex_param_list xs) \<and> yields t2 w2 (lex_param x)"
    by (auto simp: cast_defs simp del: bindR_Inr_iff)
  then show ?case using transform_list_snoc [of "[t1, leaf '','', t2]" 3 transform_node_iter as_param True xs x "''param-list''"] "12.prems"
    by (auto simp: node_def yields_def leaf_short lex_args_snoc lex_param_list_snoc split: if_splits)
next
  case (18 w1 t1 w2 t2)
  then obtain xs x where "transform_list transform_node_iter as_var_declaration 2 False t1 = Inr xs" "bindR (transform_node_iter t2) as_var_declaration = Inr x"
    and "yields t1 w1 (concat (map lex_var_declaration xs)) \<and> yields t2 w2 (lex_var_declaration x)"
    by (auto simp: cast_defs simp del: bindR_Inr_iff)
  then show ?case using transform_list_snoc [of "[t1, t2]" 2 transform_node_iter as_var_declaration False xs x "''local-declarations''"] "18.prems"
    by (auto simp: node_def yields_def leaf_short lex_args_snoc lex_param_list_snoc split: if_splits)
next
  case (20 w1 t1 w2 t2)
  then obtain xs x where "transform_list transform_node_iter as_statement 2 False t1 = Inr xs" "bindR (transform_node_iter t2) as_statement = Inr x"
    and "yields t1 w1 (concat (map lex_statement xs)) \<and> yields t2 w2 (lex_statement x)"
    by (auto simp: cast_defs simp del: bindR_Inr_iff)
  then show ?case using transform_list_snoc [of "[t1, t2]" 2 transform_node_iter as_statement False xs x "''statement-list''"] "20.prems"
    by (auto simp: node_def yields_def leaf_short lex_args_snoc lex_param_list_snoc split: if_splits)
next
  case (56 w1 t1 w2 t2)
  then obtain xs x where "transform_list transform_node_iter as_expression 3 True t1 = Inr xs" "bindR (transform_node_iter t2) as_expression = Inr x"
    and "xs \<noteq> [] \<and> yields t1 w1 (lex_args xs) \<and> yields t2 w2 (lex_expression x)"
    by (auto simp: cast_defs simp del: bindR_Inr_iff)
  then show ?case using transform_list_snoc [of "[t1, leaf '','', t2]" 3 transform_node_iter as_expression True xs x "''arg-list''"] "56.prems"
    by (auto simp: node_def yields_def leaf_short lex_args_snoc lex_param_list_snoc split: if_splits)
qed (auto simp: node_def tr_node transform_defs yields_def cast_defs leaf_short c_str_short lexeme_identifier
    type_text_def var_type_of_def fun_type_of_def relop_of_def relop_text_def addop_of_def addop_text_def mulop_of_def
    mulop_text_def int_node_def dest: lexeme_integer lexeme_float
    simp: transform_list_one transform_list_none simp del: bindR_Inr_iff)

section \<open>Properties\<close>

text \<open>The class of the node that the trees of a symbol become; the other symbols are only read as
  parts of these.\<close>

definition node_class :: "grammar_symbol \<Rightarrow> ast_node \<Rightarrow> bool" where
  "node_class g n \<longleftrightarrow> (case g of
     NT_program \<Rightarrow> (\<exists>p. n = N_program p)
   | NT_declaration \<Rightarrow> (\<exists>d. n = N_declaration d)
   | NT_var_declaration \<Rightarrow> (\<exists>d. n = N_declaration (Var_declaration d))
   | NT_fun_declaration \<Rightarrow> (\<exists>d. n = N_declaration d)
   | NT_param \<Rightarrow> (\<exists>p. n = N_param p)
   | NT_compound_stmt \<Rightarrow> (\<exists>ds ss. n = N_statement (ASTCompoundStmt ds ss))
   | NT_statement \<Rightarrow> (\<exists>s. n = N_statement s)
   | NT_expression_stmt \<Rightarrow> (\<exists>s. n = N_statement s)
   | NT_selection_stmt \<Rightarrow> (\<exists>s. n = N_statement s)
   | NT_iteration_stmt \<Rightarrow> (\<exists>s. n = N_statement s)
   | NT_return_stmt \<Rightarrow> (\<exists>s. n = N_statement s)
   | NT_expression \<Rightarrow> (\<exists>e. n = N_factor (Factor_expression e))
   | NT_simple_expression \<Rightarrow> (\<exists>e. n = N_factor (Factor_expression e))
   | NT_var \<Rightarrow> (\<exists>v. n = N_factor (Factor_var v))
   | NT_additive_expression \<Rightarrow> (\<exists>a. n = N_additive a)
   | NT_term \<Rightarrow> (\<exists>t. n = N_term t)
   | NT_factor \<Rightarrow> (\<exists>f. n = N_factor f)
   | NT_call \<Rightarrow> (\<exists>c. n = N_factor (Factor_call c))
   | _ \<Rightarrow> False)"

definition transformed :: "grammar_symbol \<Rightarrow> bool" where
  "transformed g \<longleftrightarrow> g \<notin> {NT_declaration_list, NT_type_specifier, NT_params, NT_param_list, NT_local_declarations,
     NT_statement_list, NT_relop, NT_addop, NT_mulop, NT_integer, NT_float_const, NT_args, NT_arg_list}"

text \<open>
  C31. Typing of \<open>transform_node_iter\<close>: on every tree of the grammar whose tokens fit into a node and
  whose numbers are in range it returns a node of the class that its callers cast the result to, so no
  \<open>static_cast\<close> is undefined, no child is missing and no branch aborts.
\<close>

theorem transform_is_typed:
  assumes "derives g w t" and "transformed g" and "\<forall>x\<in>set w. token_ok x"
  shows "\<exists>n. transform_node_iter t = Inr n \<and> node_class g n"
  using transform_derives [OF assms(1,3)] assms(2) by (cases g) (auto simp: node_class_def transformed_def)


text \<open>
  C32. An identifier of thirty letters or more is read past the end of the node's name: the scanner and
  the grammar accept it, and \<open>transform_node_iter\<close> is undefined on its tree.
\<close>

theorem long_identifier_is_undefined:
  assumes "is_identifier x" and "SYNTAX_TREE_NODE_NAME_MAX \<le> length x"
  shows "\<exists>t. derives NT_var [x] t \<and> transform_node_iter t = Inl (UB ''name not terminated'')"
proof (intro exI conjI)
  show "derives NT_var [x] (node ''var'' [leaf x])" by (rule derives.intros(35) [OF assms(1)])
  show "transform_node_iter (node ''var'' [leaf x]) = Inl (UB ''name not terminated'')"
    using assms(2)
    by (simp add: node_def tr_node transform_var_def child_name_def leaf_def new_syntax_tree_node_def c_str_def)
qed

section \<open>Examples\<close>

definition demo_tokens :: "string list" where
  "demo_tokens = [''int'', ''f'', ''('', ''void'', '')'', ''{'', ''return'', ''7'', '';'', ''}'']"

definition demo_expression :: syntax_tree_node where
  "demo_expression = node ''expression'' [node ''simple-expression'' [node ''additive-expression''
     [node ''term'' [node ''factor'' [node ''integer'' [leaf ''7'']]]]]]"

definition demo_body :: syntax_tree_node where
  "demo_body = node ''compound-stmt'' [leaf ''{'', node ''local-declarations'' [], node ''statement-list''
     [node ''statement-list'' [], node ''statement'' [node ''return-stmt'' [leaf ''return'', demo_expression, leaf '';'']]], leaf ''}'']"

definition demo_tree :: syntax_tree_node where
  "demo_tree = node ''program'' [node ''declaration-list'' [node ''declaration'' [node ''fun-declaration''
     [node ''type-specifier'' [leaf ''int''], leaf ''f'', leaf ''('', node ''params'' [leaf ''void''], leaf '')'', demo_body]]]]"

lemma demo_derives: "derives NT_program demo_tokens demo_tree"
proof -
  have i: "is_identifier ''f''" by (simp add: is_identifier_def keyword_texts_def is_letter_def)
  have n: "is_integer ''7''" by (simp add: is_integer_def is_digit_def)
  have e: "derives NT_expression [''7''] demo_expression"
    unfolding demo_expression_def by (rule derives.intros(34,38,41,44,49) derives.intros(51) [OF n])+
  note r = derives.intros(25) [OF derives.intros(32) [OF e]]
  note b = derives.intros(16) [OF derives.intros(17) derives.intros(20) [OF derives.intros(19) r]]
  have ts: "derives NT_type_specifier [''int''] (node ''type-specifier'' [leaf ''int''])" by (rule derives.intros) simp
  then show ?thesis
    using derives.intros(1) [OF derives.intros(3) [OF derives.intros(5) [OF derives.intros(8) [OF ts i derives.intros(11) b]]]]
    by (simp add: demo_tokens_def demo_tree_def demo_body_def)
qed

lemma demo_tokens_ok: "\<forall>x\<in>set demo_tokens. token_ok x"
  by (simp add: demo_tokens_def token_ok_def SYNTAX_TREE_NODE_NAME_MAX_def is_integer_def is_floatconst_def is_digit_def
      stoi_def is_space_def dec_val_def)

theorem transform_is_typed_witness: "\<exists>n. transform_node_iter demo_tree = Inr n \<and> node_class NT_program n"
  using transform_is_typed [OF demo_derives _ demo_tokens_ok] by (simp add: transformed_def)


theorem long_identifier_witness:
  "\<exists>t. derives NT_var [replicate 30 CHR ''a''] t \<and> transform_node_iter t = Inl (UB ''name not terminated'')"
proof (rule long_identifier_is_undefined)
  show "is_identifier (replicate 30 CHR ''a'')"
    by (simp add: is_identifier_def keyword_texts_def is_letter_def numeral_eq_Suc)
qed (simp add: SYNTAX_TREE_NODE_NAME_MAX_def)

end
