(* ===== verification/ASTPrinter.thy ===== *)
theory ASTPrinter
  imports ParseTree
begin

text \<open>
  The debug printer of the syntax tree (\<open>ASTPrinter\<close> in \<open>src/common/ast.cpp\<close>). Every visit
  leaves \<open>depth\<close> as it found it, so the depth is an argument; the result is what is written to
  \<open>std::cout\<close>. Visiting a number that is neither \<open>int\<close> nor \<open>float\<close> aborts.
\<close>

section \<open>\<open>operator<<\<close> on a \<open>float\<close>\<close>

text \<open>Six significant digits, trailing zeros dropped, with an exponent below \<open>10 ^ -4\<close> and from
  \<open>10 ^ 6\<close> on (the format \<open>%g\<close>). The value is \<open>n / 2 ^ 149\<close>.\<close>

definition scaled_pow10 :: "int \<Rightarrow> nat \<Rightarrow> nat \<times> nat" where
  "scaled_pow10 x n = (if 0 \<le> x then (n * 10 ^ nat x, 2 ^ 149) else (n, 2 ^ 149 * 10 ^ nat (- x)))"

definition dec_exponent :: "nat \<Rightarrow> int" where
  "dec_exponent n = last (filter (\<lambda>x. case scaled_pow10 (- x) n of (a, b) \<Rightarrow> b \<le> a) [- 46..39])"

definition six_digits :: "nat \<Rightarrow> nat \<times> int" where
  "six_digits n =
     (let x = dec_exponent n; m = (case scaled_pow10 (5 - x) n of (a, b) \<Rightarrow> round_div a b) in
      if m = 10 ^ 6 then (10 ^ 5, x + 1) else (m, x))"

definition strip_zeros :: "string \<Rightarrow> string" where
  "strip_zeros s = rev (dropWhile (\<lambda>c. c = CHR ''0'') (rev s))"

definition with_point :: "string \<Rightarrow> string \<Rightarrow> string" where
  "with_point a b = (let f = strip_zeros b in if f = [] then a else a @ ''.'' @ f)"

definition exponent_str :: "int \<Rightarrow> string" where
  "exponent_str x =
     ''e'' @ (if x < 0 then ''-'' else ''+'') @ (if \<bar>x\<bar> < 10 then ''0'' else []) @ nat_str (nat \<bar>x\<bar>)"

definition f32_str :: "f32 \<Rightarrow> string" where
  "f32_str v =
     (let sign = (if f32_sign v = 1 then ''-'' else []); n = f32_scaled v in
      sign @
      (if f32_is_nan v then ''nan''
       else if f32_exp v = 255 then ''inf''
       else if n = 0 then ''0''
       else
         (case six_digits n of (m, x) \<Rightarrow>
          let ds = nat_str m in
          if x < -4 \<or> 6 \<le> x then with_point (take 1 ds) (drop 1 ds) @ exponent_str x
          else if 0 \<le> x then with_point (take (nat x + 1) ds) (drop (nat x + 1) ds)
          else with_point ''0'' (replicate (nat (- x) - 1) CHR ''0'' @ ds))))"

section \<open>Visits\<close>

definition endl :: string where "endl = [CHR 0x0A]"

definition dashes :: "nat \<Rightarrow> string" where "dashes depth = replicate depth CHR ''-''"

definition relop_str :: "RelOp \<Rightarrow> string" where
  "relop_str p = (case p of OP_LT \<Rightarrow> ''<'' | OP_LE \<Rightarrow> ''<='' | OP_GE \<Rightarrow> ''>='' | OP_GT \<Rightarrow> ''>'' | OP_EQ \<Rightarrow> ''=='' | OP_NEQ \<Rightarrow> ''!='')"

definition addop_str :: "AddOp \<Rightarrow> string" where
  "addop_str p = (case p of OP_PLUS \<Rightarrow> ''+'' | OP_MINUS \<Rightarrow> ''-'')"

definition mulop_str :: "MulOp \<Rightarrow> string" where
  "mulop_str p = (case p of OP_MUL \<Rightarrow> ''*'' | OP_DIV \<Rightarrow> ''/'')"

definition ast_visit_num :: "nat \<Rightarrow> ast_num \<Rightarrow> string res" where
  "ast_visit_num d n =
     (if num_type n = TYPE_INT then Inr (dashes d @ ''num (int): '' @ int_str (i_val n) @ endl)
      else if num_type n = TYPE_FLOAT then Inr (dashes d @ ''num (float): '' @ f32_str (f_val n) @ endl)
      else Inl (Abort ''Abort due to node cast error.''))"

definition out_then :: "string \<Rightarrow> string res \<Rightarrow> string res" where
  "out_then s r = bindR r (\<lambda>t. Inr (s @ t))"

definition join_out :: "string res \<Rightarrow> string res \<Rightarrow> string res" where
  "join_out r1 r2 = bindR r1 (\<lambda>s. out_then s r2)"

definition ast_visit_var_declaration :: "nat \<Rightarrow> ast_var_declaration \<Rightarrow> string res" where
  "ast_visit_var_declaration d v =
     out_then (dashes d @ ''var-declaration: '' @ var_id v)
       (case var_num v of
          Some n \<Rightarrow> out_then (''[]'' @ endl) (ast_visit_num (d + 2) n)
        | None \<Rightarrow> Inr endl)"

fun ast_visit_expression :: "nat \<Rightarrow> ast_expression \<Rightarrow> string res"
  and ast_visit_additive :: "nat \<Rightarrow> ast_additive \<Rightarrow> string res"
  and ast_visit_term :: "nat \<Rightarrow> ast_term \<Rightarrow> string res"
  and ast_visit_factor :: "nat \<Rightarrow> ast_factor \<Rightarrow> string res"
  and ast_visit_var :: "nat \<Rightarrow> ast_var \<Rightarrow> string res"
  and ast_visit_call :: "nat \<Rightarrow> ast_call \<Rightarrow> string res"
  and ast_visit_args :: "nat \<Rightarrow> ast_expression list \<Rightarrow> string res" where
  "ast_visit_expression d (ASTAssignExpression v e) =
     out_then (dashes d @ ''assign-expression'' @ endl)
       (join_out (ast_visit_var (d + 2) v) (ast_visit_expression (d + 2) e))"
| "ast_visit_expression d (ASTSimpleExpression l None p) =
     out_then (dashes d @ ''simple-expression'' @ endl) (ast_visit_additive (d + 2) l)"
| "ast_visit_expression d (ASTSimpleExpression l (Some r) p) =
     out_then (dashes d @ ''simple-expression'' @ '': '' @ relop_str p @ endl)
       (join_out (ast_visit_additive (d + 2) l) (ast_visit_additive (d + 2) r))"
| "ast_visit_additive d (ASTAdditiveExpression None p t) =
     out_then (dashes d @ ''additive-expression'' @ endl) (ast_visit_term (d + 2) t)"
| "ast_visit_additive d (ASTAdditiveExpression (Some l) p t) =
     out_then (dashes d @ ''additive-expression'' @ '': '' @ addop_str p @ endl)
       (join_out (ast_visit_additive (d + 2) l) (ast_visit_term (d + 2) t))"
| "ast_visit_term d (ASTTerm None p f) =
     out_then (dashes d @ ''term'' @ endl) (ast_visit_factor (d + 2) f)"
| "ast_visit_term d (ASTTerm (Some l) p f) =
     out_then (dashes d @ ''term'' @ '': '' @ mulop_str p @ endl)
       (join_out (ast_visit_term (d + 2) l) (ast_visit_factor (d + 2) f))"
| "ast_visit_factor d (Factor_num n) = ast_visit_num d n"
| "ast_visit_factor d (Factor_var v) = ast_visit_var d v"
| "ast_visit_factor d (Factor_call c) = ast_visit_call d c"
| "ast_visit_factor d (Factor_expression e) = ast_visit_expression d e"
| "ast_visit_var d (ASTVar x (Some e)) =
     out_then (dashes d @ ''var: '' @ x @ ''[]'' @ endl) (ast_visit_expression (d + 2) e)"
| "ast_visit_var d (ASTVar x None) = Inr (dashes d @ ''var: '' @ x @ endl)"
| "ast_visit_call d (ASTCall x es) =
     out_then (dashes d @ ''call: '' @ x @ ''()'' @ endl) (ast_visit_args (d + 2) es)"
| "ast_visit_args d [] = Inr []"
| "ast_visit_args d (e # es) = join_out (ast_visit_expression d e) (ast_visit_args d es)"

fun out_all :: "('a \<Rightarrow> string res) \<Rightarrow> 'a list \<Rightarrow> string res" where
  "out_all f [] = Inr []"
| "out_all f (x # xs) = join_out (f x) (out_all f xs)"

lemma out_all_cong [fundef_cong]: "xs = ys \<Longrightarrow> (\<And>x. x \<in> set ys \<Longrightarrow> f x = g x) \<Longrightarrow> out_all f xs = out_all g ys"
  by (induction xs arbitrary: ys) auto

fun ast_visit_statement :: "nat \<Rightarrow> ast_statement \<Rightarrow> string res" where
  "ast_visit_statement d (ASTCompoundStmt ds ss) =
     out_then (dashes d @ ''compound-stmt'' @ endl)
       (join_out (out_all (ast_visit_var_declaration (d + 2)) ds) (out_all (ast_visit_statement (d + 2)) ss))"
| "ast_visit_statement d (ASTExpressionStmt x) =
     out_then (dashes d @ ''expression-stmt'' @ endl)
       (case x of None \<Rightarrow> Inr [] | Some e \<Rightarrow> ast_visit_expression (d + 2) e)"
| "ast_visit_statement d (ASTSelectionStmt e s1 s2) =
     out_then (dashes d @ ''selection-stmt'' @ endl)
       (join_out (ast_visit_expression (d + 2) e)
         (join_out (ast_visit_statement (d + 2) s1)
           (case s2 of None \<Rightarrow> Inr [] | Some s \<Rightarrow> ast_visit_statement (d + 2) s)))"
| "ast_visit_statement d (ASTIterationStmt e s) =
     out_then (dashes d @ ''iteration-stmt'' @ endl)
       (join_out (ast_visit_expression (d + 2) e) (ast_visit_statement (d + 2) s))"
| "ast_visit_statement d (ASTReturnStmt x) =
     out_then (dashes d @ ''return-stmt'')
       (case x of
          None \<Rightarrow> Inr ('': void'' @ endl)
        | Some e \<Rightarrow> out_then endl (ast_visit_expression (d + 2) e))"

definition ast_visit_param :: "nat \<Rightarrow> ast_param \<Rightarrow> string res" where
  "ast_visit_param d p = Inr (dashes d @ ''param: '' @ param_id p @ (if isarray p then ''[]'' else []) @ endl)"

fun ast_visit_declaration :: "nat \<Rightarrow> ast_declaration \<Rightarrow> string res" where
  "ast_visit_declaration d (Var_declaration v) = ast_visit_var_declaration d v"
| "ast_visit_declaration d (ASTFunDeclaration t x ps body) =
     out_then (dashes d @ ''fun-declaration: '' @ x @ endl)
       (join_out (out_all (ast_visit_param (d + 2)) ps) (ast_visit_statement (d + 2) body))"

fun ast_visit_program :: "nat \<Rightarrow> ast_program \<Rightarrow> string res" where
  "ast_visit_program d (ASTProgram ds) =
     out_then (dashes d @ ''program'' @ endl) (out_all (ast_visit_declaration (d + 2)) ds)"

end
