(* ===== verification/ConstFolder.thy ===== *)
theory ConstFolder
  imports IRModule Floats "HOL-Library.Signed_Division"
begin

text \<open>
  The constant folder (\<open>src/passes/common/ConstFolder.cpp\<close>). A constant the folder gives up on is
  \<open>None\<close>, the null pointer. The arithmetic on \<open>int\<close> is undefined when it overflows. \<open>nan\<close> stands
  for the NaN the host makes of two operands without a result.
\<close>

definition is_constant :: "'z ir_scheme \<Rightarrow> vid \<Rightarrow> bool" where
  "is_constant s v = (case kind_of s v of
     Some (K_int _) \<Rightarrow> True | Some (K_fp _) \<Rightarrow> True | Some K_zero \<Rightarrow> True | Some K_undef \<Rightarrow> True
   | Some (K_array _) \<Rightarrow> True | _ \<Rightarrow> False)"

text \<open>\<open>dynamic_cast<Constant *>(instr->get_operand(i))\<close>.\<close>

definition constant_operand :: "'z ir_scheme \<Rightarrow> vid \<Rightarrow> nat \<Rightarrow> vid option res" where
  "constant_operand s i j = bindR (get_operand s i j) (\<lambda>v. case v of
     None \<Rightarrow> Inr None
   | Some c \<Rightarrow> Inr (if is_constant s c then Some c else None))"

definition int_in_range :: "int \<Rightarrow> bool" where
  "int_in_range v \<longleftrightarrow> - (2 ^ 31) \<le> v \<and> v < 2 ^ 31"

definition some_int :: "int \<Rightarrow> ('z ir_scheme, vid option) sm" where
  "some_int v =
     thenM (guardM (int_in_range v) (UB ''signed integer overflow''))
    (bindM (ConstantInt_get_int v) (\<lambda>c. returnM (Some c)))"

definition some_bool :: "bool \<Rightarrow> ('z ir_scheme, vid option) sm" where
  "some_bool b = bindM (ConstantInt_get_bool b) (\<lambda>c. returnM (Some c))"

definition some_float :: "f32 \<Rightarrow> ('z ir_scheme, vid option) sm" where
  "some_float v = bindM (ConstantFP_get v) (\<lambda>c. returnM (Some c))"

definition compute_int :: "opid \<Rightarrow> int \<Rightarrow> int \<Rightarrow> ('z ir_scheme, vid option) sm" where
  "compute_int p c1 c2 = (case p of
     O_add \<Rightarrow> some_int (c1 + c2)
   | O_sub \<Rightarrow> some_int (c1 - c2)
   | O_mul \<Rightarrow> some_int (c1 * c2)
   | O_sdiv \<Rightarrow> (if c2 = 0 then returnM None else some_int (c1 sdiv c2))
   | O_eq \<Rightarrow> some_bool (c1 = c2)
   | O_ne \<Rightarrow> some_bool (c1 \<noteq> c2)
   | O_gt \<Rightarrow> some_bool (c1 > c2)
   | O_ge \<Rightarrow> some_bool (c1 \<ge> c2)
   | O_lt \<Rightarrow> some_bool (c1 < c2)
   | O_le \<Rightarrow> some_bool (c1 \<le> c2)
   | _ \<Rightarrow> returnM None)"

definition compute_fp :: "(f32 \<Rightarrow> f32 \<Rightarrow> f32) \<Rightarrow> opid \<Rightarrow> f32 \<Rightarrow> f32 \<Rightarrow> ('z ir_scheme, vid option) sm" where
  "compute_fp nan p c1 c2 = (case p of
     O_fadd \<Rightarrow> some_float (f32_add nan c1 c2)
   | O_fsub \<Rightarrow> some_float (f32_sub nan c1 c2)
   | O_fmul \<Rightarrow> some_float (f32_mul nan c1 c2)
   | O_fdiv \<Rightarrow> (if f32_is_nan c1 \<or> f32_is_nan c2 then returnM None else some_float (f32_div nan c1 c2))
   | O_feq \<Rightarrow> some_bool (f32_eq c1 c2)
   | O_fne \<Rightarrow> some_bool (\<not> f32_eq c1 c2)
   | O_fgt \<Rightarrow> some_bool (f32_lt c2 c1)
   | O_fge \<Rightarrow> some_bool (f32_le c2 c1)
   | O_flt \<Rightarrow> some_bool (f32_lt c1 c2)
   | O_fle \<Rightarrow> some_bool (f32_le c1 c2)
   | _ \<Rightarrow> returnM None)"

definition is_int_fold :: "opid \<Rightarrow> bool" where
  "is_int_fold p \<longleftrightarrow> p \<in> {O_add, O_sub, O_mul, O_sdiv, O_ge, O_gt, O_le, O_lt, O_eq, O_ne}"

definition is_fp_fold :: "opid \<Rightarrow> bool" where
  "is_fp_fold p \<longleftrightarrow> p \<in> {O_fadd, O_fsub, O_fmul, O_fdiv, O_fge, O_fgt, O_fle, O_flt, O_feq, O_fne}"

definition compute2 :: "(f32 \<Rightarrow> f32 \<Rightarrow> f32) \<Rightarrow> opid \<Rightarrow> vid \<Rightarrow> vid \<Rightarrow> ('z ir_scheme, vid option) sm" where
  "compute2 nan p v1 v2 =
     bindM (getM (\<lambda>s. (kind_of s v1, kind_of s v2))) (\<lambda>k.
     if is_int_fold p then
       (case k of (Some (K_int c1), Some (K_int c2)) \<Rightarrow> compute_int p c1 c2 | _ \<Rightarrow> returnM None)
     else if is_fp_fold p then
       (case k of (Some (K_fp c1), Some (K_fp c2)) \<Rightarrow> compute_fp nan p c1 c2 | _ \<Rightarrow> returnM None)
     else returnM None)"

definition compute1 :: "opid \<Rightarrow> vid \<Rightarrow> ('z ir_scheme, vid option) sm" where
  "compute1 p v =
     bindM (getM (\<lambda>s. kind_of s v)) (\<lambda>k. case p of
       O_sitofp \<Rightarrow> (case k of Some (K_int c) \<Rightarrow> some_float (f32_of_int c) | _ \<Rightarrow> returnM None)
     | O_fptosi \<Rightarrow> (case k of
           Some (K_fp c) \<Rightarrow> (case f32_to_int c of None \<Rightarrow> returnM None | Some i \<Rightarrow> some_int i)
         | _ \<Rightarrow> returnM None)
     | O_zext \<Rightarrow> (case k of Some (K_int c) \<Rightarrow> some_int c | _ \<Rightarrow> returnM None)
     | _ \<Rightarrow> returnM None)"

definition try_fold :: "(f32 \<Rightarrow> f32 \<Rightarrow> f32) \<Rightarrow> vid \<Rightarrow> ('z ir_scheme, vid option) sm" where
  "try_fold nan i =
     bindM (readM (\<lambda>s. instr_op s i)) (\<lambda>p.
     bindM (readM (\<lambda>s. bindR (deref (vals s) i) (\<lambda>r. Inr (length (vops r))))) (\<lambda>num.
     if num = 2 then
       bindM (readM (\<lambda>s. constant_operand s i 0)) (\<lambda>value1.
       bindM (readM (\<lambda>s. constant_operand s i 1)) (\<lambda>value2.
       case (value1, value2) of
         (Some c1, Some c2) \<Rightarrow> compute2 nan p c1 c2
       | _ \<Rightarrow> returnM None))
     else if num = 1 then
       bindM (readM (\<lambda>s. constant_operand s i 0)) (\<lambda>value1. case value1 of
         None \<Rightarrow> returnM None
       | Some c \<Rightarrow> compute1 p c)
     else returnM None))"

section \<open>The caches of constants\<close>

text \<open>A cached constant has the value it is cached for, and an \<open>int\<close> is in range.\<close>

definition consts_ok :: "'z ir_scheme \<Rightarrow> bool" where
  "consts_ok s \<longleftrightarrow> (\<forall>c v. cached_int s c = Some v \<longrightarrow> kind_of s v = Some (K_int c)) \<and>
     (\<forall>b v. cached_bool s b = Some v \<longrightarrow> kind_of s v = Some (K_int (if b then 1 else 0))) \<and>
     (\<forall>(x, v)\<in>set (cached_float s). kind_of s v = Some (K_fp x)) \<and>
     (\<forall>v c. kind_of s v = Some (K_int c) \<longrightarrow> int_in_range c)"

text \<open>At most the constant \<open>c\<close> is new; it has no operands.\<close>

definition grown :: "'z ir_scheme \<Rightarrow> vid \<Rightarrow> 'z ir_scheme \<Rightarrow> bool" where
  "grown s c t \<longleftrightarrow> ir_ok t \<and> consts_ok t \<and> dom (vals t) = insert c (dom (vals s)) \<and> (\<forall>v\<in>dom (vals s). vals t v = vals s v) \<and> ops_of t = ops_of s \<and>
     (\<exists>m n c1 c2 c3. t = s\<lparr>vals := m, next_id := n, cached_int := c1, cached_bool := c2, cached_float := c3\<rparr>)"

lemma grown_refl: "ir_ok s \<Longrightarrow> consts_ok s \<Longrightarrow> kind_of s c = Some k \<Longrightarrow> grown s c s"
  by (auto simp: grown_def kind_of_def intro!: exI [of _ "vals s"] exI [of _ "next_id s"] exI [of _ "cached_int s"]
      exI [of _ "cached_bool s"] exI [of _ "cached_float s"])

lemma grown_obs:
  assumes "grown s c t"
  shows "ir_ok t" "consts_ok t" "ops_of t = ops_of s" "bbs t = bbs s" "funcs t = funcs s" "function_list t = function_list s"
    "\<And>v. v \<in> dom (vals s) \<Longrightarrow> kind_of t v = kind_of s v" "dom (vals t) = insert c (dom (vals s))"
proof -
  show "ir_ok t" "consts_ok t" "ops_of t = ops_of s" using assms by (auto simp: grown_def)
  show "bbs t = bbs s" "funcs t = funcs s" "function_list t = function_list s"
    using assms by (auto simp: grown_def)
  have v: "vals t v = vals s v" if "v \<in> dom (vals s)" for v using assms that by (simp add: grown_def)
  show "kind_of t v = kind_of s v" if "v \<in> dom (vals s)" for v using v [OF that] by (simp add: kind_of_def)
  show "dom (vals t) = insert c (dom (vals s))" using assms by (simp add: grown_def)
qed

lemma grown_new:
  assumes ok: "ir_ok s" "consts_ok s" and new: "new_value ty '''' k s = Inr (c, s1)"
    and t: "t = s1\<lparr>cached_int := c1, cached_bool := c2, cached_float := c3\<rparr>" and tok: "ir_ok t"
    and k: "\<And>v. k = K_int v \<Longrightarrow> int_in_range v"
    and caches: "\<And>x v. c1 x = Some v \<Longrightarrow> cached_int s x = Some v \<or> v = c \<and> k = K_int x"
      "\<And>x v. c2 x = Some v \<Longrightarrow> cached_bool s x = Some v \<or> v = c \<and> k = K_int (if x then 1 else 0)"
      "\<And>x v. (x, v) \<in> set c3 \<Longrightarrow> (x, v) \<in> set (cached_float s) \<or> v = c \<and> k = K_fp x"
  shows "grown s c t \<and> kind_of t c = Some k"
proof -
  have c: "c = next_id s" and s1: "s1 = s\<lparr>vals := (vals s)(c \<mapsto> \<lparr>vty = ty, vname = '''', vuses = [], vops = [], vkind = k\<rparr>),
      next_id := Suc (next_id s)\<rparr>"
    using new by (auto simp: new_value_def)
  have fresh: "c \<notin> dom (vals s)" using ok(1) c by (auto simp: ir_ok_def ids_ok_def)
  then have none: "vals s c = None" by blast
  have vt: "vals t = (vals s)(c \<mapsto> \<lparr>vty = ty, vname = '''', vuses = [], vops = [], vkind = k\<rparr>)" by (simp add: t s1)
  have kt: "kind_of t v = (if v = c then Some k else kind_of s v)" for v by (simp add: kind_of_def vt)
  have fr: "kind_of s v \<noteq> Some j" if "v = c" for v j using that none by (simp add: kind_of_def)
  have old: "kind_of t v = Some j" "v \<noteq> c" if "kind_of s v = Some j" for v j using that fr kt by metis+
  have "consts_ok t"
    unfolding consts_ok_def
  proof (intro conjI allI impI ballI)
    show "kind_of t v = Some (K_int x)" if "cached_int t x = Some v" for x v
    proof -
      have "c1 x = Some v" using that by (simp add: t)
      then show ?thesis using caches(1) [of x v] ok(2) old(1) [of v] kt [of v] unfolding consts_ok_def by metis
    qed
    show "kind_of t v = Some (K_int (if x then 1 else 0))" if "cached_bool t x = Some v" for x v
    proof -
      have "c2 x = Some v" using that by (simp add: t)
      then show ?thesis using caches(2) [of x v] ok(2) old(1) [of v] kt [of v] unfolding consts_ok_def by metis
    qed
    show "case p of (x, v) \<Rightarrow> kind_of t v = Some (K_fp x)" if "p \<in> set (cached_float t)" for p
    proof -
      obtain x v where p: "p = (x, v)" by (cases p)
      then have "(x, v) \<in> set c3" using that by (simp add: t)
      moreover have "kind_of t v = Some (K_fp x)" if "(x, v) \<in> set (cached_float s)"
        using that ok(2) old(1) unfolding consts_ok_def by blast
      ultimately show ?thesis using caches(3) [of x v] kt [of v] p by auto
    qed
    show "int_in_range x" if "kind_of t v = Some (K_int x)" for v x
      using that k [of x] kt [of v] ok(2) by (auto simp: consts_ok_def split: if_splits)
  qed
  moreover have "ops_of t = ops_of s" by (auto simp: ops_of_def vt fun_eq_iff none)
  moreover have "\<forall>v\<in>dom (vals s). vals t v = vals s v" using fresh by (auto simp: vt)
  moreover have "t = s\<lparr>vals := vals t, next_id := next_id t, cached_int := c1, cached_bool := c2, cached_float := c3\<rparr>"
    by (simp add: t s1)
  moreover have "dom (vals t) = insert c (dom (vals s))" by (simp add: vt)
  moreover have "kind_of t c = Some k" by (simp add: kt)
  ultimately show ?thesis using tok unfolding grown_def by (intro conjI exI)
qed

lemma ConstantInt_get_int_effect:
  assumes ok: "ir_ok s" "consts_ok s" and r: "int_in_range v"
  shows "\<exists>c t. ConstantInt_get_int v s = Inr (c, t) \<and> grown s c t \<and> kind_of t c = Some (K_int v)"
proof (cases "cached_int s v")
  case (Some c)
  then have k: "kind_of s c = Some (K_int v)" using ok(2) by (simp add: consts_ok_def)
  show ?thesis using grown_refl [OF ok k] k Some
    by (simp add: ConstantInt_get_int_def bindM_def getM_def returnM_def)
next
  case None
  obtain c s1 where n: "new_value int32_ty '''' (K_int v) s = Inr (c, s1)" by (simp add: new_value_def)
  let ?t = "s1\<lparr>cached_int := (cached_int s1)(v \<mapsto> c)\<rparr>"
  have run: "ConstantInt_get_int v s = Inr (c, ?t)"
    using None n by (simp add: ConstantInt_get_int_def bindM_def getM_def returnM_def thenM_def modifyM_def)
  have same: "cached_int s1 = cached_int s" "cached_bool s1 = cached_bool s" "cached_float s1 = cached_float s"
    using n by (auto simp: new_value_def)
  have t: "?t = s1\<lparr>cached_int := (cached_int s1)(v \<mapsto> c), cached_bool := cached_bool s1, cached_float := cached_float s1\<rparr>" by simp
  have tok: "ir_ok ?t" using preservesD [OF preserves_globals_and_constants(2) ok(1) run] .
  have "grown s c ?t \<and> kind_of ?t c = Some (K_int v)"
    by (rule grown_new [OF ok n t tok]) (auto simp: same r split: if_splits)
  then show ?thesis using run by blast
qed

lemma ConstantInt_get_bool_effect:
  assumes ok: "ir_ok s" "consts_ok s"
  shows "\<exists>c t. ConstantInt_get_bool b s = Inr (c, t) \<and> grown s c t \<and> kind_of t c = Some (K_int (if b then 1 else 0))"
proof (cases "cached_bool s b")
  case (Some c)
  then have k: "kind_of s c = Some (K_int (if b then 1 else 0))" using ok(2) by (simp add: consts_ok_def)
  show ?thesis using grown_refl [OF ok k] k Some
    by (simp add: ConstantInt_get_bool_def bindM_def getM_def returnM_def)
next
  case None
  let ?k = "K_int (if b then 1 else 0)"
  obtain c s1 where n: "new_value int1_ty '''' ?k s = Inr (c, s1)" by (simp add: new_value_def)
  let ?t = "s1\<lparr>cached_bool := (cached_bool s1)(b \<mapsto> c)\<rparr>"
  have run: "ConstantInt_get_bool b s = Inr (c, ?t)"
    using None n by (simp add: ConstantInt_get_bool_def bindM_def getM_def returnM_def thenM_def modifyM_def)
  have same: "cached_int s1 = cached_int s" "cached_bool s1 = cached_bool s" "cached_float s1 = cached_float s"
    using n by (auto simp: new_value_def)
  have t: "?t = s1\<lparr>cached_int := cached_int s1, cached_bool := (cached_bool s1)(b \<mapsto> c), cached_float := cached_float s1\<rparr>" by simp
  have tok: "ir_ok ?t" using preservesD [OF preserves_globals_and_constants(3) ok(1) run] .
  have "grown s c ?t \<and> kind_of ?t c = Some ?k"
    by (rule grown_new [OF ok n t tok]) (auto simp: same int_in_range_def split: if_splits)
  then show ?thesis using run by blast
qed

text \<open>The cache of \<open>float\<close> constants compares with \<open>==\<close>: a zero may come back with the other sign.\<close>

definition same_float :: "f32 \<Rightarrow> f32 \<Rightarrow> bool" where
  "same_float x y \<longleftrightarrow> x = y \<or> f32_is_zero x \<and> f32_is_zero y"

lemma ConstantFP_get_effect:
  assumes ok: "ir_ok s" "consts_ok s"
  shows "\<exists>c t y. ConstantFP_get x s = Inr (c, t) \<and> grown s c t \<and> kind_of t c = Some (K_fp y) \<and> same_float x y \<and>
    (c \<in> dom (vals s) \<or> y = x)"
proof (cases "find_float x (cached_float s)")
  case (Some c)
  then obtain y where "(y, c) \<in> set (cached_float s)" "f32_eq y x"
    by (auto simp: find_float_def find_Some_iff) (metis nth_mem)
  moreover then have k: "kind_of s c = Some (K_fp y)" using ok(2) unfolding consts_ok_def by auto
  moreover have "ConstantFP_get x s = Inr (c, s)"
    using Some by (simp add: ConstantFP_get_def bindM_def getM_def returnM_def)
  ultimately show ?thesis using grown_refl [OF ok k] k by (auto simp: same_float_def f32_eq_def kind_of_def)
next
  case None
  obtain c s1 where n: "new_value FloatTy '''' (K_fp x) s = Inr (c, s1)" by (simp add: new_value_def)
  let ?t = "s1\<lparr>cached_float := cached_float s1 @ [(x, c)]\<rparr>"
  have run: "ConstantFP_get x s = Inr (c, ?t)"
    using None n by (simp add: ConstantFP_get_def bindM_def getM_def returnM_def thenM_def modifyM_def)
  have same: "cached_int s1 = cached_int s" "cached_bool s1 = cached_bool s" "cached_float s1 = cached_float s"
    using n by (auto simp: new_value_def)
  have t: "?t = s1\<lparr>cached_int := cached_int s1, cached_bool := cached_bool s1, cached_float := cached_float s1 @ [(x, c)]\<rparr>" by simp
  have tok: "ir_ok ?t" using preservesD [OF preserves_globals_and_constants(4) ok(1) run] .
  have "grown s c ?t \<and> kind_of ?t c = Some (K_fp x)"
    by (rule grown_new [OF ok n t tok]) (auto simp: same)
  then show ?thesis using run by (auto simp: same_float_def)
qed

section \<open>The machine\<close>

text \<open>Values at run time: words, floats, and what the folder does not touch (addresses, aggregates).
  \<open>alu\<close> is what the instruction computes on the machine, where \<open>int\<close> arithmetic wraps around;
  \<open>None\<close> for other operations and for a division by zero.\<close>

datatype 'a mval = VI u32 | VF f32 | VO 'a

definition truth :: "bool \<Rightarrow> 'a mval" where
  "truth b = VI (if b then 1 else 0)"

definition alu_int :: "opid \<Rightarrow> u32 \<Rightarrow> u32 \<Rightarrow> 'a mval option" where
  "alu_int p a b = (case p of
     O_add \<Rightarrow> Some (VI (a + b))
   | O_sub \<Rightarrow> Some (VI (a - b))
   | O_mul \<Rightarrow> Some (VI (a * b))
   | O_sdiv \<Rightarrow> if b = 0 then None else Some (VI (word_of_int (sint a sdiv sint b)))
   | O_eq \<Rightarrow> Some (truth (a = b))
   | O_ne \<Rightarrow> Some (truth (a \<noteq> b))
   | O_gt \<Rightarrow> Some (truth (sint a > sint b))
   | O_ge \<Rightarrow> Some (truth (sint a \<ge> sint b))
   | O_lt \<Rightarrow> Some (truth (sint a < sint b))
   | O_le \<Rightarrow> Some (truth (sint a \<le> sint b))
   | _ \<Rightarrow> None)"

definition alu_fp :: "(f32 \<Rightarrow> f32 \<Rightarrow> f32) \<Rightarrow> opid \<Rightarrow> f32 \<Rightarrow> f32 \<Rightarrow> 'a mval option" where
  "alu_fp nan p a b = (case p of
     O_fadd \<Rightarrow> Some (VF (f32_add nan a b))
   | O_fsub \<Rightarrow> Some (VF (f32_sub nan a b))
   | O_fmul \<Rightarrow> Some (VF (f32_mul nan a b))
   | O_fdiv \<Rightarrow> Some (VF (f32_div nan a b))
   | O_feq \<Rightarrow> Some (truth (f32_eq a b))
   | O_fne \<Rightarrow> Some (truth (\<not> f32_eq a b))
   | O_fgt \<Rightarrow> Some (truth (f32_lt b a))
   | O_fge \<Rightarrow> Some (truth (f32_le b a))
   | O_flt \<Rightarrow> Some (truth (f32_lt a b))
   | O_fle \<Rightarrow> Some (truth (f32_le a b))
   | _ \<Rightarrow> None)"

definition alu :: "(f32 \<Rightarrow> f32 \<Rightarrow> f32) \<Rightarrow> opid \<Rightarrow> 'a mval option list \<Rightarrow> 'a mval option" where
  "alu nan p vs = (case vs of
     [Some (VI a), Some (VI b)] \<Rightarrow> alu_int p a b
   | [Some (VF a), Some (VF b)] \<Rightarrow> alu_fp nan p a b
   | [Some (VI a)] \<Rightarrow> (if p = O_sitofp then Some (VF (f32_of_int (sint a))) else if p = O_zext then Some (VI a) else None)
   | [Some (VF a)] \<Rightarrow> (if p = O_fptosi then map_option (\<lambda>i. VI (word_of_int i)) (f32_to_int a) else None)
   | _ \<Rightarrow> None)"

text \<open>The value of a scalar constant, and the constants that stand for a value.\<close>

definition scalar_value :: "vkind \<Rightarrow> 'a mval option" where
  "scalar_value k = (case k of K_int c \<Rightarrow> Some (VI (word_of_int c)) | K_fp x \<Rightarrow> Some (VF x) | _ \<Rightarrow> None)"

definition stands_for :: "vkind \<Rightarrow> 'a mval \<Rightarrow> bool" where
  "stands_for k x \<longleftrightarrow> (case (k, x) of
     (K_int c, VI w) \<Rightarrow> w = word_of_int c
   | (K_fp y, VF z) \<Rightarrow> same_float z y
   | _ \<Rightarrow> False)"

text \<open>The value of an operand where the objects that are not scalar constants have the values \<open>env\<close>.\<close>

definition eval :: "'z ir_scheme \<Rightarrow> (vid \<Rightarrow> 'a mval) \<Rightarrow> vid \<Rightarrow> 'a mval" where
  "eval s env v = (case Option.bind (kind_of s v) scalar_value of Some x \<Rightarrow> x | None \<Rightarrow> env v)"

definition slot_values :: "'z ir_scheme \<Rightarrow> (vid \<Rightarrow> 'a mval) \<Rightarrow> vid \<Rightarrow> 'a mval option list" where
  "slot_values s env i = map (map_option (eval s env)) (ops_of s i)"

lemma eval_const [simp]:
  "kind_of s v = Some (K_int c) \<Longrightarrow> eval s env v = VI (word_of_int c)"
  "kind_of s v = Some (K_fp x) \<Longrightarrow> eval s env v = VF x"
  by (simp_all add: eval_def scalar_value_def)

lemma sint_of_int: "int_in_range c \<Longrightarrow> sint (word_of_int c :: u32) = c"
  by (simp add: int_in_range_def sint_sbintrunc' signed_take_bit_int_eq_self)

lemma of_int_eq_iff: "int_in_range c \<Longrightarrow> int_in_range d \<Longrightarrow> (word_of_int c :: u32) = word_of_int d \<longleftrightarrow> c = d"
  by (metis sint_of_int)

text \<open>The outcomes of a fold: undefined, given up, or a constant for the machine's result.\<close>

definition fold_outcome :: "('z ir_scheme \<Rightarrow> (vid option \<times> 'z ir_scheme) res) \<Rightarrow> 'z ir_scheme \<Rightarrow> 'a mval option \<Rightarrow> bool" where
  "fold_outcome m s x \<longleftrightarrow> m s = Inl (UB ''signed integer overflow'') \<or> m s = Inr (None, s) \<or>
     (\<exists>c t k y. m s = Inr (Some c, t) \<and> grown s c t \<and> kind_of t c = Some k \<and> x = Some y \<and> stands_for k y \<and>
        (c \<in> dom (vals s) \<or> scalar_value k = Some y))"

lemma fold_outcome_none [simp]: "fold_outcome (returnM None) s x"
  by (simp add: fold_outcome_def returnM_def)

lemma some_int_outcome:
  assumes ok: "ir_ok s" "consts_ok s" and x: "x = Some (VI (word_of_int v))"
  shows "fold_outcome (some_int v) s x"
proof (cases "int_in_range v")
  case True
  obtain c t where "ConstantInt_get_int v s = Inr (c, t)" "grown s c t" "kind_of t c = Some (K_int v)"
    using ConstantInt_get_int_effect [OF ok True] by blast
  then have "some_int v s = Inr (Some c, t)" using True
    by (simp add: some_int_def thenM_def bindM_def guardM_def returnM_def liftR_def)
  then show ?thesis using \<open>grown s c t\<close> \<open>kind_of t c = _\<close> x unfolding fold_outcome_def by (auto simp: stands_for_def scalar_value_def)
next
  case False
  then show ?thesis by (simp add: fold_outcome_def some_int_def thenM_def bindM_def guardM_def liftR_def failM_def)
qed

lemma some_bool_outcome:
  assumes ok: "ir_ok s" "consts_ok s" and x: "x = Some (truth b)"
  shows "fold_outcome (some_bool b) s x"
proof -
  obtain c t where "ConstantInt_get_bool b s = Inr (c, t)" "grown s c t" "kind_of t c = Some (K_int (if b then 1 else 0))"
    using ConstantInt_get_bool_effect [OF ok] by blast
  moreover from this(1) have "some_bool b s = Inr (Some c, t)" by (simp add: some_bool_def bindM_def returnM_def)
  ultimately show ?thesis using x unfolding fold_outcome_def by (auto simp: stands_for_def truth_def scalar_value_def)
qed

lemma some_float_outcome:
  assumes ok: "ir_ok s" "consts_ok s" and x: "x = Some (VF v)"
  shows "fold_outcome (some_float v) s x"
proof -
  obtain c t y where "ConstantFP_get v s = Inr (c, t)" "grown s c t" "kind_of t c = Some (K_fp y)" "same_float v y" "c \<in> dom (vals s) \<or> y = v"
    using ConstantFP_get_effect [OF ok] by blast
  moreover from this(1) have "some_float v s = Inr (Some c, t)" by (simp add: some_float_def bindM_def returnM_def)
  ultimately show ?thesis using x unfolding fold_outcome_def by (auto simp: stands_for_def scalar_value_def)
qed

lemmas outcomes = some_int_outcome some_bool_outcome some_float_outcome

lemma compute_int_outcome:
  assumes ok: "ir_ok s" "consts_ok s" and r: "int_in_range c1" "int_in_range c2"
  shows "fold_outcome (compute_int p c1 c2) s (alu_int p (word_of_int c1) (word_of_int c2))"
proof -
  have z: "(word_of_int c2 :: u32) = 0 \<longleftrightarrow> c2 = 0" using of_int_eq_iff [of c2 0] r by (simp add: int_in_range_def)
  note a = compute_int_def alu_int_def opid.case
  show ?thesis
  proof (cases p)
    case O_sdiv
    then show ?thesis using r z by (auto simp: a sint_of_int intro!: outcomes [OF ok])
  next
    case O_eq
    then show ?thesis by (simp add: a of_int_eq_iff [OF r] outcomes [OF ok])
  next
    case O_ne
    then show ?thesis by (simp add: a of_int_eq_iff [OF r] outcomes [OF ok])
  qed (simp_all add: a sint_of_int r outcomes [OF ok] wi_hom_syms)
qed

lemma compute_fp_outcome:
  assumes ok: "ir_ok s" "consts_ok s"
  shows "fold_outcome (compute_fp nan p c1 c2) s (alu_fp nan p c1 c2)"
  by (cases p) (auto simp: compute_fp_def alu_fp_def intro!: outcomes [OF ok])

lemma compute2_outcome:
  assumes ok: "ir_ok s" "consts_ok s"
  shows "fold_outcome (compute2 nan p v1 v2) s (alu nan p [Some (eval s env v1), Some (eval s env v2)])"
proof -
  have r: "int_in_range c" if "kind_of s v = Some (K_int c)" for v c using that ok(2) by (auto simp: consts_ok_def)
  have "(\<exists>c1 c2. kind_of s v1 = Some (K_int c1) \<and> kind_of s v2 = Some (K_int c2) \<and> is_int_fold p) \<or>
    (\<exists>c1 c2. kind_of s v1 = Some (K_fp c1) \<and> kind_of s v2 = Some (K_fp c2) \<and> \<not> is_int_fold p \<and> is_fp_fold p) \<or>
    compute2 nan p v1 v2 s = Inr (None, s)"
    by (simp add: compute2_def bindM_def getM_def returnM_def split: option.split vkind.split)
  then consider c1 c2 where "kind_of s v1 = Some (K_int c1)" "kind_of s v2 = Some (K_int c2)" "is_int_fold p"
    | c1 c2 where "kind_of s v1 = Some (K_fp c1)" "kind_of s v2 = Some (K_fp c2)" "\<not> is_int_fold p" "is_fp_fold p"
    | "compute2 nan p v1 v2 s = Inr (None, s)" by blast
  then show ?thesis
  proof cases
    case 1
    then have "compute2 nan p v1 v2 s = compute_int p c1 c2 s" by (simp add: compute2_def bindM_def getM_def)
    then show ?thesis using compute_int_outcome [OF ok r r, OF 1(1,2), of p] 1
      by (simp add: fold_outcome_def alu_def)
  next
    case 2
    then have "compute2 nan p v1 v2 s = compute_fp nan p c1 c2 s" by (simp add: compute2_def bindM_def getM_def)
    then show ?thesis using compute_fp_outcome [OF ok, of nan p c1 c2] 2
      by (simp add: fold_outcome_def alu_def)
  qed (simp add: fold_outcome_def)
qed

lemma compute1_outcome:
  assumes ok: "ir_ok s" "consts_ok s"
  shows "fold_outcome (compute1 p v) s (alu nan p [Some (eval s env v)])"
proof -
  have r: "int_in_range c" if "kind_of s v = Some (K_int c)" for c using that ok(2) by (auto simp: consts_ok_def)
  have "(\<exists>c. kind_of s v = Some (K_int c)) \<and> (p = O_sitofp \<or> p = O_zext) \<or>
    (\<exists>c i. kind_of s v = Some (K_fp c) \<and> p = O_fptosi \<and> f32_to_int c = Some i) \<or> compute1 p v s = Inr (None, s)"
    by (simp add: compute1_def bindM_def getM_def returnM_def split: option.split vkind.split opid.split)
  then consider c where "kind_of s v = Some (K_int c)" "p = O_sitofp" | c where "kind_of s v = Some (K_int c)" "p = O_zext"
    | c i where "kind_of s v = Some (K_fp c)" "p = O_fptosi" "f32_to_int c = Some i"
    | "compute1 p v s = Inr (None, s)" by blast
  then show ?thesis
  proof cases
    case 1
    then have c: "compute1 p v s = some_float (f32_of_int c) s" by (simp add: compute1_def bindM_def getM_def)
    show ?thesis using some_float_outcome [OF ok refl, of "f32_of_int c"] 1 r [OF 1(1)]
      unfolding fold_outcome_def c by (simp add: alu_def sint_of_int)
  next
    case 2
    then have c: "compute1 p v s = some_int c s" by (simp add: compute1_def bindM_def getM_def)
    show ?thesis using some_int_outcome [OF ok refl, of c] 2
      unfolding fold_outcome_def c by (simp add: alu_def)
  next
    case 3
    then have c: "compute1 p v s = some_int i s" by (simp add: compute1_def bindM_def getM_def)
    show ?thesis using some_int_outcome [OF ok refl, of i] 3
      unfolding fold_outcome_def c by (simp add: alu_def)
  qed (simp add: fold_outcome_def)
qed

lemma instr_record:
  assumes "kind_of s i = Some (K_instr p b)"
  obtains r where "vals s i = Some r" "instr_op s i = Inr p" "vops r = ops_of s i"
proof -
  obtain r where "vals s i = Some r" "vkind r = K_instr p b" using assms by (auto simp: kind_of_def)
  then show thesis by (intro that [of r]) (simp_all add: instr_op_def ops_of_def del: instr_op_Inr)
qed

lemma constant_operand_at:
  assumes "vals s i = Some r" "j < length (ops_of s i)"
  shows "constant_operand s i j = Inr (case ops_of s i ! j of None \<Rightarrow> None | Some c \<Rightarrow> if is_constant s c then Some c else None)"
proof -
  have "vops r = ops_of s i" using assms(1) by (simp add: ops_of_def)
  then have "get_operand s i j = Inr (ops_of s i ! j)" using assms by (simp add: get_operand_def)
  then show ?thesis by (cases "ops_of s i ! j") (simp_all add: constant_operand_def)
qed

text \<open>A fold is undefined, gives up, or finds a constant for what the instruction computes.\<close>

lemma try_fold_outcome:
  assumes ok: "ir_ok s" "consts_ok s" and i: "kind_of s i = Some (K_instr p b)"
  shows "fold_outcome (try_fold nan i) s (alu nan p (slot_values s env i))"
proof -
  obtain r where r: "vals s i = Some r" "instr_op s i = Inr p" "vops r = ops_of s i" using instr_record [OF i] .
  note run = try_fold_def bindM_def readM_def returnM_def
  consider v1 v2 where "ops_of s i = [Some v1, Some v2]" "is_constant s v1" "is_constant s v2"
    | v where "ops_of s i = [Some v]" "is_constant s v"
    | "try_fold nan i s = Inr (None, s)"
  proof (cases "length (ops_of s i) = 2")
    case True
    then obtain a c where ac: "ops_of s i = [a, c]" by (auto simp: numeral_2_eq_2 length_Suc_conv)
    then show ?thesis using that r constant_operand_at [OF r(1), of 0] constant_operand_at [OF r(1), of 1]
      by (cases a; cases c) (auto simp: run split: if_splits)
  next
    case False
    show ?thesis
    proof (cases "length (ops_of s i) = 1")
      case True
      then obtain a where a: "ops_of s i = [a]" by (auto simp: length_Suc_conv)
      then show ?thesis using that r constant_operand_at [OF r(1), of 0] by (cases a) (auto simp: run split: if_splits)
    qed (use False that r in \<open>auto simp: run\<close>)
  qed
  then show ?thesis
  proof cases
    case 1
    then have "try_fold nan i s = compute2 nan p v1 v2 s"
      using r constant_operand_at [OF r(1), of 0] constant_operand_at [OF r(1), of 1] by (simp add: run del: instr_op_Inr)
    then show ?thesis using compute2_outcome [OF ok, of nan p v1 v2 env] 1 by (simp add: fold_outcome_def slot_values_def)
  next
    case 2
    then have "try_fold nan i s = compute1 p v s"
      using r constant_operand_at [OF r(1), of 0] by (simp add: run del: instr_op_Inr)
    then show ?thesis using compute1_outcome [OF ok, of p v nan env] 2 by (simp add: fold_outcome_def slot_values_def)
  qed (simp add: fold_outcome_def)
qed

section \<open>Integers\<close>

text \<open>The exact result of an instruction on integers.\<close>

definition int_result :: "opid \<Rightarrow> int \<Rightarrow> int \<Rightarrow> int option" where
  "int_result p a b = (case p of
     O_add \<Rightarrow> Some (a + b) | O_sub \<Rightarrow> Some (a - b) | O_mul \<Rightarrow> Some (a * b)
   | O_sdiv \<Rightarrow> if b = 0 then None else Some (a sdiv b)
   | O_eq \<Rightarrow> Some (of_bool (a = b)) | O_ne \<Rightarrow> Some (of_bool (a \<noteq> b))
   | O_gt \<Rightarrow> Some (of_bool (a > b)) | O_ge \<Rightarrow> Some (of_bool (a \<ge> b))
   | O_lt \<Rightarrow> Some (of_bool (a < b)) | O_le \<Rightarrow> Some (of_bool (a \<le> b))
   | _ \<Rightarrow> None)"

definition is_exact_fold :: "('z ir_scheme \<Rightarrow> (vid option \<times> 'z ir_scheme) res) \<Rightarrow> 'z ir_scheme \<Rightarrow> int option \<Rightarrow> bool" where
  "is_exact_fold m s x \<longleftrightarrow> (case x of
     None \<Rightarrow> m s = Inr (None, s)
   | Some v \<Rightarrow>
       if int_in_range v then \<exists>c t. m s = Inr (Some c, t) \<and> kind_of t c = Some (K_int v)
       else m s = Inl (UB ''signed integer overflow''))"

lemma some_int_exact: "ir_ok s \<Longrightarrow> consts_ok s \<Longrightarrow> is_exact_fold (some_int v) s (Some v)"
  using ConstantInt_get_int_effect [of s v]
  by (auto simp: is_exact_fold_def some_int_def thenM_def bindM_def guardM_def returnM_def liftR_def failM_def)

lemma some_bool_exact: "ir_ok s \<Longrightarrow> consts_ok s \<Longrightarrow> is_exact_fold (some_bool b) s (Some (of_bool b))"
  using ConstantInt_get_bool_effect [of s b]
  by (auto simp: is_exact_fold_def some_bool_def bindM_def returnM_def int_in_range_def split: if_splits)

lemma none_exact: "is_exact_fold (returnM None) s None"
  by (simp add: is_exact_fold_def returnM_def)

lemma try_fold_int:
  assumes i: "kind_of s i = Some (K_instr p b)" and ops: "ops_of s i = [Some v1, Some v2]"
    and k: "kind_of s v1 = Some (K_int c1)" "kind_of s v2 = Some (K_int c2)"
  shows "try_fold nan i s = (if is_int_fold p then compute_int p c1 c2 s else Inr (None, s))"
proof -
  obtain r where r: "vals s i = Some r" "instr_op s i = Inr p" "vops r = ops_of s i" using instr_record [OF i] .
  have "is_constant s v1" "is_constant s v2" using k by (simp_all add: is_constant_def)
  then have "try_fold nan i s = compute2 nan p v1 v2 s"
    using r constant_operand_at [OF r(1), of 0] constant_operand_at [OF r(1), of 1]
    by (simp add: try_fold_def bindM_def readM_def returnM_def ops del: instr_op_Inr)
  then show ?thesis using k by (simp add: compute2_def bindM_def getM_def returnM_def)
qed

text \<open>C33. Folding an instruction on two \<open>int\<close> constants (\<open>ConstFolder::try_fold\<close>) is exact: it gives the
  constant for the mathematical result when that fits 32 bits, gives up on a division by zero and on
  other opcodes, and overflows a C++ \<open>int\<close> (undefined behaviour of the compiler) in all other cases,
  among them the smallest \<open>int\<close> divided by \<open>-1\<close>.\<close>

theorem int_fold_exact:
  assumes "ir_ok s" "consts_ok s" "kind_of s i = Some (K_instr p b)" "ops_of s i = [Some v1, Some v2]"
    and "kind_of s v1 = Some (K_int c1)" "kind_of s v2 = Some (K_int c2)"
  shows "is_exact_fold (try_fold nan i) s (int_result p c1 c2)"
proof -
  have "try_fold nan i s = compute_int p c1 c2 s"
    using try_fold_int [OF assms(3-6), of nan] by (cases p) (simp_all add: compute_int_def is_int_fold_def returnM_def)
  then have "is_exact_fold (try_fold nan i) s x = is_exact_fold (compute_int p c1 c2) s x" for x
    by (simp only: is_exact_fold_def)
  moreover have "is_exact_fold (compute_int p c1 c2) s (int_result p c1 c2)"
    by (cases p) (simp_all add: compute_int_def int_result_def some_int_exact some_bool_exact none_exact assms(1,2) del: of_bool_eq_iff)
  ultimately show ?thesis by simp
qed

end
