(* ===== verification/ConstPropagation.thy ===== *)
theory ConstPropagation
  imports ConstFolder Inserting UnreachableBlockElim
begin

text \<open>
  Constant propagation (\<open>src/passes/ConstPropagation.cpp\<close>): folding and forwarding of stores to
  globals inside a block, then branches on constants become jumps and the blocks that lose their
  last predecessor are removed. The iteration order of the hash set of dead blocks is a
  parameter.
\<close>

section \<open>Blocks\<close>

type_synonym global_constants = "vid \<rightharpoonup> vid"

definition global_operand :: "'z ir_scheme \<Rightarrow> vid \<Rightarrow> nat \<Rightarrow> vid option res" where
  "global_operand s i j = bindR (get_operand s i j) (\<lambda>v. case v of
     None \<Rightarrow> Inr None
   | Some g \<Rightarrow> Inr (case kind_of s g of Some (K_global _ _) \<Rightarrow> Some g | _ \<Rightarrow> None))"

definition try_propagate_global_constant ::
  "'z ir_scheme \<Rightarrow> vid \<Rightarrow> global_constants \<Rightarrow> (vid option \<times> global_constants) res" where
  "try_propagate_global_constant s i known =
     bindR (instr_op s i) (\<lambda>p.
     if p = O_call then Inr (None, Map.empty)
     else if p = O_load then
       bindR (global_operand s i 0) (\<lambda>g. case g of
         None \<Rightarrow> Inr (None, known)
       | Some g \<Rightarrow> Inr (known g, known))
     else if p = O_store then
       bindR (global_operand s i 1) (\<lambda>g. case g of
         None \<Rightarrow> Inr (None, known)
       | Some g \<Rightarrow> bindR (constant_operand s i 0) (\<lambda>c. Inr (None, known(g := c))))
     else Inr (None, known))"

definition propagate_instr :: "(f32 \<Rightarrow> f32 \<Rightarrow> f32) \<Rightarrow> vid \<Rightarrow> vid \<Rightarrow> global_constants \<Rightarrow> ('z ir_scheme, global_constants) sm" where
  "propagate_instr nan b i known =
     bindM (readM (\<lambda>s. try_propagate_global_constant s i known)) (\<lambda>(r, known').
     bindM (if r = None then try_fold nan i else returnM r) (\<lambda>replacement. case replacement of
       None \<Rightarrow> returnM known'
     | Some c \<Rightarrow>
         thenM (updateM (replace_all_use_with i (Some c)))
        (thenM (updateM (remove_instr b i)) (returnM known'))))"

text \<open>\<open>make_early_inc_range\<close>: the next instruction is found before the current one is removed.\<close>

fun propagate_instrs :: "(f32 \<Rightarrow> f32 \<Rightarrow> f32) \<Rightarrow> vid \<Rightarrow> vid list \<Rightarrow> global_constants \<Rightarrow> ('z ir_scheme, unit) sm" where
  "propagate_instrs nan b [] known = returnM ()"
| "propagate_instrs nan b (i # is) known = bindM (propagate_instr nan b i known) (propagate_instrs nan b is)"

definition run_on_basic_block :: "(f32 \<Rightarrow> f32 \<Rightarrow> f32) \<Rightarrow> vid \<Rightarrow> ('z ir_scheme, unit) sm" where
  "run_on_basic_block nan b =
     bindM (readM (\<lambda>s. bindR (deref (bbs s) b) (\<lambda>r. Inr (instr_list r)))) (\<lambda>is.
     propagate_instrs nan b is Map.empty)"

section \<open>Branches on constants\<close>

definition const_branch :: "'z ir_scheme \<Rightarrow> vid \<Rightarrow> (vid \<times> vid \<times> vid) option res" where
  "const_branch s b =
     bindR (get_terminator s b) (\<lambda>t.
     bindR (instr_op s t) (\<lambda>p. bindR (deref (vals s) t) (\<lambda>r.
     if p \<noteq> O_br \<or> length (vops r) \<noteq> 3 then Inr None
     else
       case vops r ! 0 of
         None \<Rightarrow> Inr None
       | Some c \<Rightarrow>
           (case kind_of s c of
              Some (K_int v) \<Rightarrow>
                let target = (if v \<noteq> 0 then vops r ! 1 else vops r ! 2);
                    dead = (if v \<noteq> 0 then vops r ! 2 else vops r ! 1) in
                bindR (guardR (target \<noteq> None \<and> dead \<noteq> None) Null_deref) (\<lambda>_.
                Inr (Some (t, the target, the dead)))
            | _ \<Rightarrow> Inr None))))"

definition unlink_edge :: "vid \<Rightarrow> vid \<Rightarrow> 'z ir_scheme \<Rightarrow> 'z ir_scheme res" where
  "unlink_edge b succ s = bindR (remove_pre_basic_block succ b s) (remove_succ_basic_block b succ)"

text \<open>The block that the branch of \<open>b\<close> no longer reaches.\<close>

definition simplify_branch :: "vid \<Rightarrow> ('z ir_scheme, vid option) sm" where
  "simplify_branch b =
     bindM (readM (\<lambda>s. const_branch s b)) (\<lambda>c. case c of
       None \<Rightarrow> returnM None
     | Some (t, target, dead) \<Rightarrow>
         thenM (updateM (unlink_edge b target))
        (thenM (updateM (unlink_edge b dead))
        (thenM (updateM (remove_all_operands t))
        (thenM (updateM (remove_instr b t))
        (bindM (create_br target b) (\<lambda>_. returnM (Some dead)))))))"

fun simplify_constant_branches :: "vid list \<Rightarrow> vid set \<Rightarrow> ('z ir_scheme, vid set) sm" where
  "simplify_constant_branches [] dead_blocks = returnM dead_blocks"
| "simplify_constant_branches (b # bs) dead_blocks =
     bindM (simplify_branch b) (\<lambda>d.
     simplify_constant_branches bs (case d of None \<Rightarrow> dead_blocks | Some x \<Rightarrow> insert x dead_blocks))"

section \<open>Removing blocks\<close>

text \<open>Here the value of the pair goes first, then the block that has moved to its index.\<close>

definition drop_incoming :: "vid \<Rightarrow> vid \<Rightarrow> 'z ir_scheme \<Rightarrow> 'z ir_scheme res" where
  "drop_incoming cur phi s =
     bindR (deref (vals s) phi) (\<lambda>r.
     bindR (find_pair cur 0 (vops r)) (\<lambda>found. case found of
       None \<Rightarrow> Inr s
     | Some i \<Rightarrow> bindR (remove_operand phi i s) (remove_operand phi i)))"

definition fold_single_phi :: "vid \<Rightarrow> vid \<Rightarrow> 'z ir_scheme \<Rightarrow> 'z ir_scheme res" where
  "fold_single_phi succ phi s =
     bindR (deref (vals s) phi) (\<lambda>r.
     if length (vops r) = 2 then
       bindR (get_operand s phi 0) (\<lambda>v. bindR (replace_all_use_with phi v s) (remove_instr succ phi))
     else Inr s)"

fun drop_from_phis :: "vid \<Rightarrow> vid \<Rightarrow> vid list \<Rightarrow> 'z ir_scheme \<Rightarrow> 'z ir_scheme res" where
  "drop_from_phis cur succ [] s = Inr s"
| "drop_from_phis cur succ (i # is) s =
     bindR (instr_op s i) (\<lambda>p.
     if p \<noteq> O_phi then Inr s
     else bindR (drop_incoming cur i s) (\<lambda>s1. bindR (fold_single_phi succ i s1) (drop_from_phis cur succ is)))"

fun drop_from_successors :: "vid \<Rightarrow> vid list \<Rightarrow> 'z ir_scheme \<Rightarrow> 'z ir_scheme res" where
  "drop_from_successors cur [] s = Inr s"
| "drop_from_successors cur (succ # rest) s =
     bindR (deref (bbs s) succ) (\<lambda>r.
     bindR (drop_from_phis cur succ (instr_list r) s) (drop_from_successors cur rest))"

record 'z cp_state =
  cp_ir :: "'z ir_scheme"
  cp_worklist :: "vid list"
  removed_blocks :: "vid set"

definition remove_next :: "vid \<Rightarrow> vid \<Rightarrow> 'z cp_state \<Rightarrow> 'z cp_state res" where
  "remove_next f entry st = (case cp_worklist st of
     [] \<Rightarrow> Inl (UB ''front'')
   | cur # rest \<Rightarrow>
       bindR (deref (bbs (cp_ir st)) cur) (\<lambda>r.
       if cur = entry \<or> pre_bbs r \<noteq> [] \<or> cur \<in> removed_blocks st then Inr (st\<lparr>cp_worklist := rest\<rparr>)
       else
         bindR (drop_from_successors cur (succ_bbs r) (cp_ir st)) (\<lambda>s1.
         bindR (Function_remove f cur s1) (\<lambda>s2.
         Inr (st\<lparr>cp_ir := s2, cp_worklist := rest @ succ_bbs r, removed_blocks := insert cur (removed_blocks st)\<rparr>)))))"

definition simplify_control_flow :: "(vid set \<Rightarrow> vid list) \<Rightarrow> vid \<Rightarrow> 'z ir_scheme \<Rightarrow> 'z ir_scheme res" where
  "simplify_control_flow order f s =
     bindR (deref (funcs s) f) (\<lambda>r.
     bindR (simplify_constant_branches (basic_blocks r) {} s) (\<lambda>(dead_blocks, s1).
     if dead_blocks = {} then Inr s1
     else
       (case blocks s1 f of
          [] \<Rightarrow> Inl (UB ''front'')
        | entry # _ \<Rightarrow>
            bindR (outcome (whileR (\<lambda>st. cp_worklist st \<noteq> []) (remove_next f entry)
              \<lparr>cp_ir = s1, cp_worklist = order dead_blocks, removed_blocks = {}\<rparr>)) (\<lambda>st.
            Inr (cp_ir st)))))"

section \<open>The pass\<close>

fun run_on_blocks :: "(f32 \<Rightarrow> f32 \<Rightarrow> f32) \<Rightarrow> vid list \<Rightarrow> ('z ir_scheme, unit) sm" where
  "run_on_blocks nan [] = returnM ()"
| "run_on_blocks nan (b # bs) = thenM (run_on_basic_block nan b) (run_on_blocks nan bs)"

definition cp_function :: "(f32 \<Rightarrow> f32 \<Rightarrow> f32) \<Rightarrow> (vid set \<Rightarrow> vid list) \<Rightarrow> vid \<Rightarrow> 'z ir_scheme \<Rightarrow> 'z ir_scheme res" where
  "cp_function nan order f s =
     bindR (run_on_blocks nan (blocks s f) s) (\<lambda>(_, s1). simplify_control_flow order f s1)"

fun cp_functions :: "(f32 \<Rightarrow> f32 \<Rightarrow> f32) \<Rightarrow> (vid set \<Rightarrow> vid list) \<Rightarrow> vid list \<Rightarrow> 'z ir_scheme \<Rightarrow> 'z ir_scheme res" where
  "cp_functions nan order [] s = Inr s"
| "cp_functions nan order (f # fs) s =
     bindR (if blocks s f = [] then Inr s else cp_function nan order f s) (cp_functions nan order fs)"

definition ConstPropagation_run :: "(f32 \<Rightarrow> f32 \<Rightarrow> f32) \<Rightarrow> (vid set \<Rightarrow> vid list) \<Rightarrow> 'z ir_scheme \<Rightarrow> 'z ir_scheme res" where
  "ConstPropagation_run nan order s = cp_functions nan order (function_list s) s"

end
