(* ===== verification/ConstSemantics.thy ===== *)
theory ConstSemantics
  imports ConstPropagation
begin

text \<open>
  What a basic block does before and after constant propagation. The machine has values for the
  instructions, the contents of the scalar globals, and the rest of its state, which the parameter
  \<open>externals\<close> changes: calls may change everything, the other operations (memory behind computed
  addresses, jumps, returns) leave the scalar globals alone. A phi has its value on entry.
\<close>

section \<open>Executing a block\<close>

record ('a, 'r) machine =
  vregs :: "vid \<Rightarrow> 'a mval"
  gmem :: "vid \<Rightarrow> 'a mval"
  world :: 'r

record ('a, 'r) externals =
  do_call :: "vid \<Rightarrow> 'a mval option list \<Rightarrow> (vid \<Rightarrow> 'a mval) \<Rightarrow> 'r \<Rightarrow> 'a mval \<times> (vid \<Rightarrow> 'a mval) \<times> 'r"
  do_other :: "vid \<Rightarrow> opid \<Rightarrow> 'a mval option list \<Rightarrow> (vid \<Rightarrow> 'a mval) \<Rightarrow> 'r \<Rightarrow> 'a mval \<times> 'r"

definition global_at :: "'z ir_scheme \<Rightarrow> vid \<Rightarrow> nat \<Rightarrow> vid option" where
  "global_at s i j = (case operand_at s i j of
     Some g \<Rightarrow> (case kind_of s g of Some (K_global _ _) \<Rightarrow> Some g | _ \<Rightarrow> None)
   | None \<Rightarrow> None)"

definition accessed_global :: "'z ir_scheme \<Rightarrow> opid \<Rightarrow> vid \<Rightarrow> vid option" where
  "accessed_global s p i = (if p = O_load then global_at s i 0 else if p = O_store then global_at s i 1 else None)"

definition access_global :: "opid \<Rightarrow> vid \<Rightarrow> vid \<Rightarrow> 'a mval option list \<Rightarrow> ('a, 'r) machine \<Rightarrow> ('a, 'r) machine" where
  "access_global p i g xs m =
     (if p = O_load then m\<lparr>vregs := (vregs m)(i := gmem m g)\<rparr>
      else case xs of Some x # _ \<Rightarrow> m\<lparr>gmem := (gmem m)(g := x)\<rparr> | _ \<Rightarrow> m)"

definition exec_op ::
  "(f32 \<Rightarrow> f32 \<Rightarrow> f32) \<Rightarrow> ('a, 'r) externals \<Rightarrow> opid \<Rightarrow> vid \<Rightarrow> vid option \<Rightarrow> 'a mval option list \<Rightarrow> ('a, 'r) machine \<Rightarrow> ('a, 'r) machine" where
  "exec_op nan ext p i target xs m =
     (if p = O_phi then m
      else if p = O_call then
        (case do_call ext i xs (gmem m) (world m) of (x, m', r) \<Rightarrow> m\<lparr>vregs := (vregs m)(i := x), gmem := m', world := r\<rparr>)
      else case target of
        Some g \<Rightarrow> access_global p i g xs m
      | None \<Rightarrow> (case alu nan p xs of
            Some x \<Rightarrow> m\<lparr>vregs := (vregs m)(i := x)\<rparr>
          | None \<Rightarrow> (case do_other ext i p xs (gmem m) (world m) of (x, r) \<Rightarrow> m\<lparr>vregs := (vregs m)(i := x), world := r\<rparr>)))"

definition exec_instr :: "(f32 \<Rightarrow> f32 \<Rightarrow> f32) \<Rightarrow> ('a, 'r) externals \<Rightarrow> 'z ir_scheme \<Rightarrow> vid \<Rightarrow> ('a, 'r) machine \<Rightarrow> ('a, 'r) machine" where
  "exec_instr nan ext s i m = (case kind_of s i of
     Some (K_instr p _) \<Rightarrow> exec_op nan ext p i (accessed_global s p i) (slot_values s (vregs m) i) m
   | _ \<Rightarrow> m)"

definition exec_instrs :: "(f32 \<Rightarrow> f32 \<Rightarrow> f32) \<Rightarrow> ('a, 'r) externals \<Rightarrow> 'z ir_scheme \<Rightarrow> vid list \<Rightarrow> ('a, 'r) machine \<Rightarrow> ('a, 'r) machine" where
  "exec_instrs nan ext s is m = fold (exec_instr nan ext s) is m"

lemma exec_instrs_simps [simp]:
  "exec_instrs nan ext s [] m = m"
  "exec_instrs nan ext s (i # is) m = exec_instrs nan ext s is (exec_instr nan ext s i m)"
  "exec_instrs nan ext s (xs @ ys) m = exec_instrs nan ext s ys (exec_instrs nan ext s xs m)"
  by (simp_all add: exec_instrs_def)

text \<open>An instruction uses no value that it or a later one defines, unless it is a phi.\<close>

fun ordered :: "'z ir_scheme \<Rightarrow> vid list \<Rightarrow> bool" where
  "ordered s [] \<longleftrightarrow> True"
| "ordered s (i # is) \<longleftrightarrow> (is_phi_instr s i \<or> (\<forall>v\<in>set (i # is). Some v \<notin> set (ops_of s i))) \<and> ordered s is"

lemma ordered_append:
  "ordered s (xs @ ys) \<longleftrightarrow> ordered s xs \<and> ordered s ys \<and>
     (\<forall>i\<in>set xs. is_phi_instr s i \<or> (\<forall>v\<in>set ys. Some v \<notin> set (ops_of s i)))"
  by (induction xs) auto

lemma exec_instr_env: "v \<noteq> i \<Longrightarrow> vregs (exec_instr nan ext s i m) v = vregs m v"
  by (auto simp: exec_instr_def exec_op_def access_global_def split: option.split vkind.split prod.split list.split)

lemma exec_instrs_env: "v \<notin> set is \<Longrightarrow> vregs (exec_instrs nan ext s is m) v = vregs m v"
  by (induction "is" arbitrary: m) (simp_all add: exec_instr_env)

lemma eval_cong: "kind_of t v = kind_of s v \<Longrightarrow> f v = g v \<Longrightarrow> eval t f v = eval s g v"
  by (simp add: eval_def split: option.split)

lemma eval_instr: "kind_of s i = Some (K_instr p b) \<Longrightarrow> eval s f i = f i"
  by (simp add: eval_def scalar_value_def)

lemma alu_none: "p \<in> {O_call, O_load, O_store, O_phi} \<Longrightarrow> alu nan p xs = None"
  by (auto simp: alu_def alu_int_def alu_fp_def split: list.split option.split mval.split)

section \<open>Growing the constants\<close>

lemma grown_global_at:
  assumes "grown s c t" "ir_ok s"
  shows "global_at t i j = global_at s i j"
proof -
  have "operand_at t i j = operand_at s i j" using grown_obs(3) [OF assms(1)] by (simp add: operand_at_def)
  then show ?thesis using grown_obs(7) [OF assms(1)] ir_ok_operand_dom [OF assms(2)]
    by (auto simp: global_at_def split: option.split)
qed

lemma grown_slot_values:
  assumes "grown s c t" "ir_ok s"
  shows "slot_values t e i = slot_values s e i"
proof -
  have "eval t e v = eval s e v" if "Some v \<in> set (ops_of s i)" for v
    using that grown_obs(7) [OF assms(1)] ir_ok_operand_dom [OF assms(2)]
    by (intro eval_cong refl) (auto simp: operand_at_mem)
  then show ?thesis unfolding slot_values_def grown_obs(3) [OF assms(1)]
    by (intro map_cong refl option.map_cong) auto
qed

lemma grown_exec_instr:
  assumes "grown s c t" "ir_ok s" "i \<in> dom (vals s)"
  shows "exec_instr nan ext t i m = exec_instr nan ext s i m"
  by (simp add: exec_instr_def accessed_global_def grown_obs(7) [OF assms(1,3)] grown_slot_values [OF assms(1,2)]
      grown_global_at [OF assms(1,2)] split: option.split vkind.split)

lemma grown_exec_instrs:
  assumes "grown s c t" "ir_ok s" "set is \<subseteq> dom (vals s)"
  shows "exec_instrs nan ext t is m = exec_instrs nan ext s is m"
  using assms(3) by (induction "is" arbitrary: m) (simp_all add: grown_exec_instr [OF assms(1,2)])

section \<open>Replacing an instruction by a constant\<close>

text \<open>\<open>t\<close> is \<open>s\<close> with the operands \<open>i\<close> replaced by \<open>c\<close>.\<close>

definition redirected :: "'z ir_scheme \<Rightarrow> vid \<Rightarrow> vid \<Rightarrow> 'z ir_scheme \<Rightarrow> bool" where
  "redirected s i c t \<longleftrightarrow> kind_of t = kind_of s \<and>
     (\<forall>u. ops_of t u = map (\<lambda>x. if x = Some i then Some c else x) (ops_of s u))"

definition constant_for :: "'z ir_scheme \<Rightarrow> vid \<Rightarrow> vid \<Rightarrow> bool" where
  "constant_for s i c \<longleftrightarrow> (\<exists>p b. kind_of s i = Some (K_instr p b)) \<and> is_constant s c"

lemma constant_not_instr: "is_constant s c \<Longrightarrow> kind_of s i = Some (K_instr p b) \<Longrightarrow> c \<noteq> i"
  by (auto simp: is_constant_def)

lemma redirected_global_at:
  assumes t: "redirected s i c t" and c: "constant_for s i c"
  shows "global_at t u j = global_at s u j"
proof -
  have op: "operand_at t u j = (if operand_at s u j = Some i then Some c else operand_at s u j)"
    using t by (auto simp: operand_at_def redirected_def)
  have "kind_of s c \<noteq> Some (K_global ty x)" "kind_of s i \<noteq> Some (K_global ty x)" for ty x
    using c by (auto simp: constant_for_def is_constant_def)
  then show ?thesis using t unfolding redirected_def
    by (auto simp: global_at_def op split: option.split vkind.split)
qed

lemma redirected_slot_values:
  assumes t: "redirected s i c t" and c: "constant_for s i c" and x: "eval s g c = f i" and e: "\<And>v. v \<noteq> i \<Longrightarrow> f v = g v"
  shows "slot_values t g u = slot_values s f u"
proof -
  have "map_option (eval t g) (if x = Some i then Some c else x) = map_option (eval s f) x" for x
  proof (cases x)
    case (Some v)
    then show ?thesis using c t x e [of v] eval_instr [of s i _ _ f]
      by (auto simp: constant_for_def redirected_def intro!: eval_cong) (simp add: eval_def)
  qed simp
  then show ?thesis using t by (simp add: slot_values_def redirected_def comp_def)
qed

lemma redirected_before:
  assumes t: "redirected s i c t" and c: "constant_for s i c" and "Some i \<notin> set (ops_of s u) \<or> is_phi_instr s u"
  shows "exec_instr nan ext t u m = exec_instr nan ext s u m"
proof (cases "is_phi_instr s u")
  case True
  then show ?thesis using t by (auto simp: is_phi_instr_iff redirected_def exec_instr_def exec_op_def)
next
  case False
  then have n: "Some i \<notin> set (ops_of s u)" using assms(3) by simp
  have "ops_of t u = ops_of s u" using t n unfolding redirected_def by (auto intro: map_idI)
  moreover have "kind_of t = kind_of s" using t by (simp add: redirected_def)
  moreover from this have "eval t (vregs m) = eval s (vregs m)" by (simp add: eval_def fun_eq_iff)
  ultimately show ?thesis using redirected_global_at [OF t c]
    by (simp add: exec_instr_def slot_values_def accessed_global_def split: option.split vkind.split)
qed

lemma redirected_prefix:
  assumes t: "redirected s i c t" and c: "constant_for s i c" and "\<forall>u\<in>set us. Some i \<notin> set (ops_of s u) \<or> is_phi_instr s u"
  shows "exec_instrs nan ext t us m = exec_instrs nan ext s us m"
  using assms(3) by (induction us arbitrary: m) (simp_all add: redirected_before [OF t c])

text \<open>The two machines after the replaced instruction.\<close>

definition behind :: "'z ir_scheme \<Rightarrow> vid \<Rightarrow> vid \<Rightarrow> ('a, 'r) machine \<Rightarrow> ('a, 'r) machine \<Rightarrow> bool" where
  "behind s i c m n \<longleftrightarrow> gmem n = gmem m \<and> world n = world m \<and> (\<forall>v. v \<noteq> i \<longrightarrow> vregs n v = vregs m v) \<and>
     eval s (vregs n) c = vregs m i"

lemma exec_instr_at:
  "kind_of s i = Some (K_instr p b) \<Longrightarrow>
    exec_instr nan ext s i m = exec_op nan ext p i (accessed_global s p i) (slot_values s (vregs m) i) m"
  by (simp add: exec_instr_def)

lemma exec_op_behind:
  assumes "gmem n = gmem m" "world n = world m" "\<And>v. v \<noteq> i \<Longrightarrow> vregs n v = vregs m v"
  shows "gmem (exec_op nan ext p u g xs n) = gmem (exec_op nan ext p u g xs m)"
    "world (exec_op nan ext p u g xs n) = world (exec_op nan ext p u g xs m)"
    "v \<noteq> i \<Longrightarrow> vregs (exec_op nan ext p u g xs n) v = vregs (exec_op nan ext p u g xs m) v"
  using assms by (simp_all add: exec_op_def access_global_def split: option.split prod.split list.split)

lemma redirected_after:
  fixes m n :: "('a, 'r) machine"
  assumes t: "redirected s i c t" and c: "constant_for s i c" and b: "behind s i c m n" and u: "u \<noteq> i"
  shows "behind s i c (exec_instr nan ext s u m) (exec_instr nan ext t u n)"
proof -
  have sv: "slot_values t (vregs n) u = slot_values s (vregs m) u"
    using b by (intro redirected_slot_values [OF t c]) (auto simp: behind_def)
  have e: "eval s (vregs n') c = eval s (vregs n) c" if "vregs n' c = vregs n c" for n' :: "('a, 'r) machine"
    using that by (simp add: eval_def split: option.split)
  show ?thesis
  proof (cases "\<exists>p b. kind_of s u = Some (K_instr p b)")
    case True
    then obtain p b' where k: "kind_of s u = Some (K_instr p b')" by blast
    have cu: "c \<noteq> u" using c k constant_not_instr [OF _ k] by (auto simp: constant_for_def)
    have kt: "kind_of t u = Some (K_instr p b')" using t k by (simp add: redirected_def)
    let ?m = "exec_instr nan ext s u m" and ?n = "exec_instr nan ext t u n"
    have ec: "eval s (vregs ?n) c = vregs ?m i"
      using e [of ?n] exec_instr_env [OF cu, of nan ext t n] exec_instr_env [of i u nan ext s m] u b
      by (auto simp: behind_def)
    moreover have "gmem ?n = gmem ?m \<and> world ?n = world ?m \<and> (\<forall>v. v \<noteq> i \<longrightarrow> vregs ?n v = vregs ?m v)"
    proof -
      have r: "?m = exec_op nan ext p u (accessed_global s p u) (slot_values s (vregs m) u) m"
        "?n = exec_op nan ext p u (accessed_global s p u) (slot_values s (vregs m) u) n"
        by (simp_all add: exec_instr_at [OF k] exec_instr_at [OF kt] sv accessed_global_def redirected_global_at [OF t c])
      have b': "gmem n = gmem m" "world n = world m" "\<And>v. v \<noteq> i \<Longrightarrow> vregs n v = vregs m v" using b by (simp_all add: behind_def)
      show ?thesis unfolding r using exec_op_behind [of n m i, OF b'] by blast
    qed
    ultimately show ?thesis by (simp add: behind_def)
  next
    case False
    then show ?thesis using b t
      by (auto simp: exec_instr_def redirected_def split: option.split vkind.split)
  qed
qed

lemma redirected_suffix:
  assumes t: "redirected s i c t" and c: "constant_for s i c" and "behind s i c m n" "i \<notin> set us"
  shows "behind s i c (exec_instrs nan ext s us m) (exec_instrs nan ext t us n)"
  using assms(3,4) by (induction us arbitrary: m n) (simp_all add: redirected_after [OF t c])

section \<open>Globals with a known constant\<close>

definition known_ok :: "'z ir_scheme \<Rightarrow> ('a, 'r) machine \<Rightarrow> global_constants \<Rightarrow> bool" where
  "known_ok s m known \<longleftrightarrow> (\<forall>g c. known g = Some c \<longrightarrow> is_constant s c \<and> eval s (vregs m) c = gmem m g)"

lemma known_ok_empty [simp]: "known_ok s m Map.empty"
  by (simp add: known_ok_def)

lemma eval_other: "f v = g v \<Longrightarrow> eval s f v = eval s g v"
  by (rule eval_cong) simp_all

lemma known_ok_mono:
  assumes "known_ok s m known" "gmem n = gmem m" "\<And>c. is_constant s c \<Longrightarrow> vregs n c = vregs m c"
  shows "known_ok s n known"
proof -
  have "eval s (vregs n) c = eval s (vregs m) c" if "is_constant s c" for c
    by (rule eval_other) (rule assms(3) [OF that])
  then show ?thesis using assms(1,2) by (auto simp: known_ok_def)
qed

text \<open>What \<open>try_propagate_global_constant\<close> answers, by the kind of access.\<close>

lemma operand_global:
  assumes "vals s i = Some r" "j < length (ops_of s i)"
  shows "global_operand s i j = Inr (global_at s i j)"
proof -
  have "vops r = ops_of s i" using assms(1) by (simp add: ops_of_def)
  then have "get_operand s i j = Inr (ops_of s i ! j)" using assms by (simp add: get_operand_def)
  then show ?thesis using assms(2) by (cases "ops_of s i ! j") (simp_all add: global_operand_def global_at_def operand_at_def)
qed

lemma try_propagate_answer:
  assumes k: "kind_of s i = Some (K_instr p b)" and acc: "accesses_ok s i"
  shows "try_propagate_global_constant s i known = Inr (
    if p = O_call then (None, Map.empty)
    else case accessed_global s p i of
      None \<Rightarrow> (None, known)
    | Some g \<Rightarrow> if p = O_load then (known g, known)
        else (None, known(g := case ops_of s i ! 0 of Some c \<Rightarrow> if is_constant s c then Some c else None | None \<Rightarrow> None)))"
proof -
  obtain r where r: "vals s i = Some r" "instr_op s i = Inr p" "vops r = ops_of s i" using instr_record [OF k] .
  note run = try_propagate_global_constant_def accessed_global_def
  consider "p = O_call" | "p = O_load" | "p = O_store" | "p \<noteq> O_call" "p \<noteq> O_load" "p \<noteq> O_store" by blast
  then show ?thesis
  proof cases
    case 2
    then have "0 < length (ops_of s i)" using acc k by (auto simp: accesses_ok_def)
    then show ?thesis using 2 r operand_global [OF r(1)] by (simp add: run del: instr_op_Inr split: option.split)
  next
    case 3
    then have l: "2 \<le> length (ops_of s i)" using acc k by (auto simp: accesses_ok_def)
    then have "0 < length (ops_of s i)" "1 < length (ops_of s i)" by linarith+
    then show ?thesis using 3 r operand_global [OF r(1), of 1] constant_operand_at [OF r(1), of 0]
      by (simp add: run del: instr_op_Inr split: option.split)
  qed (use r in \<open>simp_all add: run del: instr_op_Inr\<close>)
qed

lemma known_value:
  assumes k: "kind_of s i = Some (K_instr p b)" and acc: "accesses_ok s i" and kn: "known_ok s m known"
    and r: "try_propagate_global_constant s i known = Inr (Some c, known')"
  shows "known' = known \<and> constant_for s i c \<and>
    exec_instr nan ext s i m = m\<lparr>vregs := (vregs m)(i := eval s (vregs m) c)\<rparr> \<and> p = O_load"
proof -
  obtain g where g: "p = O_load" "accessed_global s p i = Some g" "known g = Some c" "known' = known"
  proof (cases "accessed_global s p i")
    case (Some g)
    have "p = O_load \<and> known g = Some c \<and> known' = known"
      using r unfolding try_propagate_answer [OF k acc] Some by (auto split: if_splits)
    then show ?thesis using Some that by blast
  next
    case None
    show ?thesis using r unfolding try_propagate_answer [OF k acc] None by (simp split: if_splits)
  qed
  moreover from this have "is_constant s c" "eval s (vregs m) c = gmem m g" using kn unfolding known_ok_def by blast+
  moreover have "exec_instr nan ext s i m = m\<lparr>vregs := (vregs m)(i := gmem m g)\<rparr>"
    using g by (simp add: exec_instr_at [OF k] exec_op_def access_global_def)
  ultimately show ?thesis using k by (simp add: constant_for_def)
qed

lemma known_step:
  assumes k: "kind_of s i = Some (K_instr p b)" and acc: "accesses_ok s i" and kn: "known_ok s m known"
    and r: "try_propagate_global_constant s i known = Inr (c, known')"
  shows "known_ok s (exec_instr nan ext s i m) known'"
proof -
  let ?n = "exec_instr nan ext s i m"
  have same: "vregs ?n c = vregs m c" if "is_constant s c" for c
    using exec_instr_env [OF constant_not_instr [OF that k]] .
  note ans = try_propagate_answer [OF k acc, of known, unfolded r]
  note ex = exec_instr_at [OF k] exec_op_def access_global_def
  show ?thesis
  proof (cases "p = O_call")
    case False
    note p = False
    show ?thesis
    proof (cases "accessed_global s p i")
      case None
      then have "known' = known" using ans p by simp
      moreover have "gmem ?n = gmem m" using None p by (simp add: ex split: option.split prod.split)
      ultimately show ?thesis using known_ok_mono [OF kn _ same] by simp
    next
      case (Some g)
      show ?thesis
      proof (cases "p = O_load")
        case True
        then have "known' = known" using ans Some by simp
        moreover have "gmem ?n = gmem m" using Some True by (simp add: ex)
        ultimately show ?thesis using known_ok_mono [OF kn _ same] by simp
      next
        case False
        then have st: "p = O_store" using Some by (simp add: accessed_global_def split: if_splits)
        then have "2 \<le> length (ops_of s i)" using acc k by (auto simp: accesses_ok_def)
        then obtain a us where a: "ops_of s i = a # us" by (cases "ops_of s i") auto
        have k': "known' = known(g := case a of Some c \<Rightarrow> if is_constant s c then Some c else None | None \<Rightarrow> None)"
          using ans p False Some by (simp add: a)
        have n: "?n = (case a of None \<Rightarrow> m | Some v \<Rightarrow> m\<lparr>gmem := (gmem m)(g := eval s (vregs m) v)\<rparr>)"
          using st Some by (cases a) (simp_all add: ex slot_values_def a)
        have regs: "vregs ?n = vregs m" unfolding n by (simp split: option.split)
        show ?thesis unfolding known_ok_def regs
          using kn unfolding k' n by (auto simp: known_ok_def split: if_splits option.splits)
      qed
    qed
  qed (use ans in simp)
qed

section \<open>One instruction\<close>

definition neg_zero :: f32 where
  "neg_zero = 0x80000000"

definition sane :: "'z ir_scheme \<Rightarrow> vid \<Rightarrow> bool" where
  "sane s b \<longleftrightarrow> ir_ok s \<and> consts_ok s \<and> ordered s (instrs s b) \<and> (\<forall>i\<in>set (instrs s b). accesses_ok s i) \<and>
     (\<forall>v. kind_of s v \<noteq> Some (K_fp neg_zero))"

text \<open>The block does the same to the globals and to the rest of the machine, the instructions that are
  left have the same values, and so has every operand of the program afterwards.\<close>

definition block_refines ::
  "(f32 \<Rightarrow> f32 \<Rightarrow> f32) \<Rightarrow> ('a, 'r) externals \<Rightarrow> ('a, 'r) machine \<Rightarrow> vid \<Rightarrow> 'z ir_scheme \<Rightarrow> 'z ir_scheme \<Rightarrow> bool" where
  "block_refines nan ext m b s t \<longleftrightarrow>
     (let F = exec_instrs nan ext s (instrs s b) m; G = exec_instrs nan ext t (instrs t b) m in
       gmem G = gmem F \<and> world G = world F \<and>
       (\<forall>v. v \<notin> set (instrs s b) - set (instrs t b) \<longrightarrow> vregs G v = vregs F v) \<and>
       (\<forall>u. slot_values t (vregs G) u = slot_values s (vregs F) u) \<and>
       set (instrs t b) \<subseteq> set (instrs s b))"

lemma block_refines_refl: "block_refines nan ext m b s s"
  by (simp add: block_refines_def Let_def)

lemma block_refines_trans:
  "block_refines nan ext m b s t \<Longrightarrow> block_refines nan ext m b t u \<Longrightarrow> block_refines nan ext m b s u"
  unfolding block_refines_def Let_def by (auto simp: subset_iff)

text \<open>The run computes no negative zero.\<close>

definition no_neg_zero :: "(f32 \<Rightarrow> f32 \<Rightarrow> f32) \<Rightarrow> ('a, 'r) externals \<Rightarrow> ('a, 'r) machine \<Rightarrow> vid \<Rightarrow> 'z ir_scheme \<Rightarrow> bool" where
  "no_neg_zero nan ext m b s \<longleftrightarrow>
     (\<forall>i\<in>set (instrs s b). vregs (exec_instrs nan ext s (instrs s b) m) i \<noteq> VF neg_zero)"

lemma no_neg_zero_refines:
  "no_neg_zero nan ext m b s \<Longrightarrow> block_refines nan ext m b s t \<Longrightarrow> no_neg_zero nan ext m b t"
  unfolding no_neg_zero_def block_refines_def Let_def by (metis DiffD2 subsetD)

lemma redirected_ordered:
  assumes t: "redirected s i c t" and c: "is_constant s c"
    and us: "\<forall>u\<in>set us. \<exists>p b. kind_of s u = Some (K_instr p b)" and o: "ordered s us"
  shows "ordered t us"
proof -
  have "Some v \<in> set (ops_of s u)" if "Some v \<in> set (ops_of t u)" "\<exists>p b. kind_of s v = Some (K_instr p b)" for v u
    using that t constant_not_instr [OF c, of v] by (auto simp: redirected_def split: if_splits)
  then have step: "\<forall>v\<in>set (u # us). Some v \<notin> set (ops_of t u)"
    if "\<forall>v\<in>set (u # us). Some v \<notin> set (ops_of s u)" "\<forall>v\<in>set (u # us). \<exists>p b. kind_of s v = Some (K_instr p b)" for u us
    using that by blast
  have "is_phi_instr t u = is_phi_instr s u" for u using t by (simp add: is_phi_instr_def redirected_def)
  then show ?thesis using us o by (induction us) (use step in auto)
qed

lemma replace_step:
  assumes s: "sane s b" and l: "instrs s b = ps @ i # us" and c: "constant_for s i c" and np: "\<not> is_phi_instr s i"
    and x: "exec_instr nan ext s i (exec_instrs nan ext s ps m) =
      (exec_instrs nan ext s ps m)\<lparr>vregs := (vregs (exec_instrs nan ext s ps m))(i := eval s (vregs (exec_instrs nan ext s ps m)) c)\<rparr>"
  shows "\<exists>t. bindR (replace_all_use_with i (Some c) s) (remove_instr b i) = Inr t \<and> sane t b \<and>
    block_refines nan ext m b s t \<and> instrs t b = ps @ us \<and> redirected s i c t \<and>
    exec_instrs nan ext t ps m = exec_instrs nan ext s ps m"
proof -
  have ok: "ir_ok s" using s by (simp add: sane_def)
  obtain p b' where k: "kind_of s i = Some (K_instr p b')" and ck: "is_constant s c"
    using c by (auto simp: constant_for_def)
  have ne: "c \<noteq> i" using constant_not_instr [OF ck k] .
  have "c \<in> dom (vals s)" using ck by (auto simp: is_constant_def kind_of_def split: option.splits)
  then obtain s1 where s1: "replace_all_use_with i (Some c) s = Inr s1" "ir_ok s1" "same_but_uses s s1"
    "\<And>u. ops_of s1 u = map (\<lambda>x. if x = Some i then Some c else x) (ops_of s u)"
    using replace_all_use_with_total [OF ok kind_of_dom [OF k] _ ne] by blast
  note o1 = same_but_uses_obs [OF s1(3)]
  have i1: "instrs s1 = instrs s" by (simp add: instrs_def fun_eq_iff o1)
  obtain t where t: "remove_instr b i s1 = Inr t" "ir_ok t" "instrs t = (instrs s1)(b := filter (\<lambda>y. y \<noteq> i) (instrs s1 b))"
    "vals t = vals s1" "\<exists>m. t = s1\<lparr>bbs := m\<rparr>"
    using remove_instr_effect [OF s1(2), of i b] by (auto simp: i1 l)
  have kt: "kind_of t = kind_of s" "ops_of t = ops_of s1" using vals_obs [OF t(4)] o1(1) by (auto simp: ops_of_def t(4))
  have red: "redirected s i c t" by (simp add: redirected_def kt s1(4))
  have d: "distinct (ps @ i # us)" using ir_ok_distinct_instrs [OF ok, of b] l by simp
  have "filter (\<lambda>y. y \<noteq> i) xs = xs" if "i \<notin> set xs" for xs using that by (induction xs) auto
  then have it: "instrs t b = ps @ us" using d by (simp add: t(3) i1 l)
  have os: "ordered s (ps @ i # us)" using s l by (simp add: sane_def)
  have "cached_int t = cached_int s" "cached_bool t = cached_bool s" "cached_float t = cached_float s"
    using t(5) s1(3) by (auto simp: same_but_uses_def)
  then have cok: "consts_ok t" using s by (simp add: sane_def consts_ok_def kt)
  have "\<forall>u\<in>set (ps @ us). \<exists>p b. kind_of s u = Some (K_instr p b)"
    using ir_ok_instr_kind [OF ok, of _ b] unfolding l by fastforce
  moreover have "ordered s (ps @ us)" using os by (auto simp: ordered_append)
  ultimately have "ordered t (ps @ us)" using redirected_ordered [OF red ck] by blast
  moreover have "accesses_ok t u = accesses_ok s u" for u by (simp add: accesses_ok_def kt s1(4))
  ultimately have st: "sane t b" using s t(2) cok by (simp add: sane_def it l kt(1))
  have pre: "exec_instrs nan ext t ps m = exec_instrs nan ext s ps m"
    using os by (intro redirected_prefix [OF red c]) (auto simp: ordered_append)
  let ?P = "exec_instrs nan ext s ps m"
  let ?F = "exec_instrs nan ext s (instrs s b) m" and ?G = "exec_instrs nan ext t (instrs t b) m"
  have "eval s (vregs ?P) c = eval s f c" if "f = vregs ?P" for f using that by simp
  have "behind s i c (?P\<lparr>vregs := (vregs ?P)(i := eval s (vregs ?P) c)\<rparr>) ?P" by (simp add: behind_def)
  then have "behind s i c ?F ?G"
    using redirected_suffix [OF red c _ , of _ _ us nan ext] d by (simp add: l it x pre)
  then have g: "gmem ?G = gmem ?F" "world ?G = world ?F" "\<And>v. v \<noteq> i \<Longrightarrow> vregs ?G v = vregs ?F v"
    "eval s (vregs ?G) c = vregs ?F i" by (simp_all add: behind_def)
  have "slot_values t (vregs ?G) u = slot_values s (vregs ?F) u" for u
    by (rule redirected_slot_values [OF red c]) (simp_all add: g)
  then have "block_refines nan ext m b s t"
    unfolding block_refines_def Let_def
  proof (intro conjI allI impI)
    show "vregs ?G v = vregs ?F v" if "v \<notin> set (instrs s b) - set (instrs t b)" for v
    proof (rule g(3))
      show "v \<noteq> i" using that d by (auto simp: l it)
    qed
  qed (use g(1,2) in \<open>auto simp: l it\<close>)
  moreover have "bindR (replace_all_use_with i (Some c) s) (remove_instr b i) = Inr t" by (simp add: s1 t)
  ultimately show ?thesis using st it red pre by blast
qed

lemma grown_step:
  assumes s: "sane s b" and g: "grown s c t" and k: "kind_of t c = Some k" "k \<noteq> K_fp neg_zero"
  shows "sane t b" "block_refines nan ext m b s t" "instrs t b = instrs s b"
    "set is \<subseteq> set (instrs s b) \<Longrightarrow> exec_instrs nan ext t is m = exec_instrs nan ext s is m"
proof -
  have ok: "ir_ok s" using s by (simp add: sane_def)
  note o = grown_obs [OF g]
  have d: "set (instrs s b) \<subseteq> dom (vals s)" using ir_ok_instr_kind [OF ok] kind_of_dom by blast
  have ex: "exec_instrs nan ext t is m = exec_instrs nan ext s is m" if "set is \<subseteq> set (instrs s b)" for "is"
    using grown_exec_instrs [OF g ok] that d by blast
  then show "set is \<subseteq> set (instrs s b) \<Longrightarrow> exec_instrs nan ext t is m = exec_instrs nan ext s is m" .
  show i: "instrs t b = instrs s b" by (simp add: instrs_def o(4))
  have "ordered t us = ordered s us" if "set us \<subseteq> dom (vals s)" for us
    using that by (induction us) (auto simp: o(3) is_phi_instr_def o(7))
  moreover have "accesses_ok t u = accesses_ok s u" if "u \<in> dom (vals s)" for u
    using that by (simp add: accesses_ok_def o(3,7))
  moreover have "kind_of t v \<noteq> Some (K_fp neg_zero)" for v
  proof (cases "v = c")
    case False
    show ?thesis
    proof (cases "v \<in> dom (vals s)")
      case False
      then have "v \<notin> dom (vals t)" using o(8) \<open>v \<noteq> c\<close> by simp
      then show ?thesis using kind_of_dom [of t v] by blast
    qed (use s in \<open>simp add: o(7) sane_def\<close>)
  qed (use k in simp)
  ultimately show "sane t b" using s d o(1,2) unfolding sane_def i by blast
  show "block_refines nan ext m b s t"
    using ex [of "instrs s b"] by (simp add: block_refines_def i grown_slot_values [OF g ok])
qed

lemma alu_value:
  assumes k: "kind_of s i = Some (K_instr p b)" and y: "alu nan p (slot_values s (vregs m) i) = Some y"
  shows "exec_instr nan ext s i m = m\<lparr>vregs := (vregs m)(i := y)\<rparr>" "\<not> is_phi_instr s i"
    "p \<notin> {O_call, O_load, O_store}"
proof -
  have "p \<notin> {O_call, O_load, O_store, O_phi}" using y alu_none [of p nan "slot_values s (vregs m) i"] by fastforce
  then show p: "p \<notin> {O_call, O_load, O_store}" by simp
  have "p \<noteq> O_phi" using y alu_none [of p nan "slot_values s (vregs m) i"] by fastforce
  then show "\<not> is_phi_instr s i" "exec_instr nan ext s i m = m\<lparr>vregs := (vregs m)(i := y)\<rparr>"
    using k y p by (auto simp: is_phi_instr_iff exec_instr_def exec_op_def accessed_global_def)
qed

lemma f32_zeros:
  assumes "f32_is_zero x"
  shows "x = 0 \<or> x = neg_zero"
proof -
  have "(0x7FFFFFFF :: f32) = mask 31" by (simp add: mask_eq_exp_minus_1)
  then have "take_bit 31 x = 0" using assms by (simp add: f32_is_zero_def take_bit_eq_mask and.commute)
  then have "take_bit 31 (unat x) = 0" by (metis unat_0 unsigned_take_bit_eq)
  then have m: "unat x mod 2 ^ 31 = 0" by (simp add: take_bit_eq_mod)
  have "unat x < 2 ^ 32" using unsigned_less [of x, where ?'a = nat] by simp
  then have "unat x div 2 ^ 31 < 2" by (simp add: div_less_iff_less_mult)
  moreover have "unat x = unat x div 2 ^ 31 * 2 ^ 31" using m by (simp add: mod_0_imp_dvd)
  moreover have "q = 0 \<or> q = 1" if "q < 2" for q :: nat using that by auto
  ultimately have "unat x = 0 \<or> unat x = 2 ^ 31" by fastforce
  then show ?thesis
  proof
    assume "unat x = 2 ^ 31"
    then have "unat x = unat neg_zero" by (simp add: neg_zero_def)
    then show ?thesis by (simp add: unsigned_word_eqI)
  qed (simp add: unat_eq_zero)
qed

text \<open>A constant that stands for a value that is not the negative zero has this value.\<close>

lemma stands_for_eval:
  assumes "kind_of s c = Some k" "stands_for k y" "k \<noteq> K_fp neg_zero" "y \<noteq> VF neg_zero"
  shows "eval s f c = y" "is_constant s c"
proof -
  note z = f32_zeros
  show "eval s f c = y" using assms z
    by (cases k; cases y) (auto simp: stands_for_def same_float_def)
  show "is_constant s c" using assms by (cases k) (auto simp: stands_for_def is_constant_def)
qed

definition overflows :: "error + 'a \<Rightarrow> bool" where
  "overflows r \<longleftrightarrow> r = Inl (UB ''signed integer overflow'')"

text \<open>After an instruction the ones before it are \<open>qs\<close>, and the constants of globals are right there.\<close>

definition step_done ::
  "(f32 \<Rightarrow> f32 \<Rightarrow> f32) \<Rightarrow> ('a, 'r) externals \<Rightarrow> ('a, 'r) machine \<Rightarrow> vid \<Rightarrow> 'z ir_scheme \<Rightarrow> vid list \<Rightarrow> vid list \<Rightarrow>
    global_constants \<Rightarrow> 'z ir_scheme \<Rightarrow> bool" where
  "step_done nan ext m b s qs us known t \<longleftrightarrow> sane t b \<and> block_refines nan ext m b s t \<and> instrs t b = qs @ us \<and>
     known_ok t (exec_instrs nan ext t qs m) known"

lemma replaced_done:
  assumes s: "sane s b" and l: "instrs s b = ps @ i # us" and c: "constant_for s i c" and np: "\<not> is_phi_instr s i"
    and x: "exec_instr nan ext s i P = P\<lparr>vregs := (vregs P)(i := eval s (vregs P) c)\<rparr>" and P: "P = exec_instrs nan ext s ps m"
    and kn: "known_ok s P known"
  shows "\<exists>t. thenM (updateM (replace_all_use_with i (Some c))) (thenM (updateM (remove_instr b i)) (returnM known)) s =
      Inr (known, t) \<and> step_done nan ext m b s ps us known t"
proof -
  obtain t where t: "bindR (replace_all_use_with i (Some c) s) (remove_instr b i) = Inr t" "sane t b"
    "block_refines nan ext m b s t" "instrs t b = ps @ us" "redirected s i c t"
    "exec_instrs nan ext t ps m = exec_instrs nan ext s ps m"
    using replace_step [OF s l c np x [unfolded P]] by blast
  have "is_constant t = is_constant s" "eval t = (eval s :: (vid \<Rightarrow> 'b mval) \<Rightarrow> _)" using t(5)
    by (auto simp: redirected_def is_constant_def eval_def fun_eq_iff)
  then have "known_ok t P known" using kn by (simp add: known_ok_def)
  moreover have "thenM (updateM (replace_all_use_with i (Some c))) (thenM (updateM (remove_instr b i)) (returnM known)) s =
      Inr (known, t)"
    using t(1) by (auto simp: thenM_def bindM_def updateM_def returnM_def)
  ultimately show ?thesis using t(2-6) P by (auto simp: step_done_def)
qed

lemma unchanged_done:
  assumes s: "sane s b" and l: "instrs s b = ps @ i # us" and k: "kind_of s i = Some (K_instr p b')"
    and kn: "known_ok s (exec_instrs nan ext s ps m) known" and r: "try_propagate_global_constant s i known = Inr (c, known')"
  shows "step_done nan ext m b s (ps @ [i]) us known' s"
proof -
  have "accesses_ok s i" using s l by (simp add: sane_def)
  then show ?thesis using s l known_step [OF k _ kn r] by (simp add: step_done_def block_refines_refl)
qed

lemma propagate_instr_done:
  fixes m :: "('a, 'r) machine"
  assumes s: "sane s b" and z: "no_neg_zero nan ext m b s" and l: "instrs s b = ps @ i # us"
    and kn: "known_ok s (exec_instrs nan ext s ps m) known"
  shows "overflows (propagate_instr nan b i known s) \<or>
    (\<exists>known' t qs. propagate_instr nan b i known s = Inr (known', t) \<and> step_done nan ext m b s qs us known' t)"
proof -
  let ?P = "exec_instrs nan ext s ps m"
  have ok: "ir_ok s" "consts_ok s" and acc: "accesses_ok s i" using s l by (simp_all add: sane_def)
  obtain p where k: "kind_of s i = Some (K_instr p (Some b))" using ir_ok_instr_kind [OF ok(1), of i b] l by auto
  obtain q where "try_propagate_global_constant s i known = Inr q" using try_propagate_answer [OF k acc] by blast
  then obtain r known' where r: "try_propagate_global_constant s i known = Inr (r, known')" by (cases q) blast
  note run = propagate_instr_def bindM_def readM_def r
  show ?thesis
  proof (cases r)
    case (Some c)
    note v = known_value [OF k acc kn r [unfolded Some]]
    then have "\<not> is_phi_instr s i" using k by (auto simp: is_phi_instr_iff)
    then show ?thesis using replaced_done [OF s l _ _ _ refl kn] v Some by (fastforce simp: run returnM_def)
  next
    case None
    have fold: "propagate_instr nan b i known s = (case try_fold nan i s of Inl e \<Rightarrow> Inl e
      | Inr (None, t) \<Rightarrow> Inr (known', t)
      | Inr (Some c, t) \<Rightarrow> thenM (updateM (replace_all_use_with i (Some c)))
          (thenM (updateM (remove_instr b i)) (returnM known')) t)"
      by (auto simp: run None returnM_def split: sum.split option.split)
    from try_fold_outcome [OF ok k, of nan "vregs ?P"] consider
      "try_fold nan i s = Inl (UB ''signed integer overflow'')" | "try_fold nan i s = Inr (None, s)"
      | c t kk y where "try_fold nan i s = Inr (Some c, t)" "grown s c t" "kind_of t c = Some kk"
        "alu nan p (slot_values s (vregs ?P) i) = Some y" "stands_for kk y"
        "c \<in> dom (vals s) \<or> scalar_value kk = Some y"
      unfolding fold_outcome_def by blast
    then show ?thesis
    proof cases
      case 2
      then show ?thesis using unchanged_done [OF s l k kn r] by (auto simp: fold)
    next
      case 3
      note y = alu_value [OF k 3(4)]
      have kk': "known' = known"
        using r y(3) unfolding try_propagate_answer [OF k acc] by (simp add: accessed_global_def)
      have "i \<notin> set us" using ir_ok_distinct_instrs [OF ok(1), of b] l by simp
      then have "vregs (exec_instrs nan ext s (instrs s b) m) i = y" by (simp add: l y(1) exec_instrs_env)
      then have yz: "y \<noteq> VF neg_zero" using z l by (auto simp: no_neg_zero_def)
      have kz: "kk \<noteq> K_fp neg_zero"
      proof (rule notI)
        assume "kk = K_fp neg_zero"
        then have "kind_of s c = Some (K_fp neg_zero)"
          using 3(3,6) yz grown_obs(7) [OF 3(2), of c] by (auto simp: scalar_value_def)
        then show False using s by (simp add: sane_def)
      qed
      note g = grown_step [OF s 3(2,3) kz]
      note e = stands_for_eval [OF 3(3,5) kz yz]
      have lt: "instrs t b = ps @ i # us" by (simp add: g(3) l)
      have Pt: "?P = exec_instrs nan ext t ps m" by (rule g(4) [symmetric]) (use l in auto)
      have kt: "kind_of t i = Some (K_instr p (Some b))" using grown_obs(7) [OF 3(2)] k kind_of_dom [OF k] by simp
      have x: "exec_instr nan ext t i ?P = ?P\<lparr>vregs := (vregs ?P)(i := eval t (vregs ?P) c)\<rparr>"
        by (simp add: grown_exec_instr [OF 3(2) ok(1) kind_of_dom [OF k]] y(1) e(1))
      have knt: "known_ok t ?P known"
        unfolding known_ok_def
      proof (intro allI impI)
        fix gl v assume "known gl = Some v"
        then have v: "is_constant s v" "eval s (vregs ?P) v = gmem ?P gl" using kn unfolding known_ok_def by blast+
        then have "kind_of t v = kind_of s v"
          using grown_obs(7) [OF 3(2), of v] kind_of_dom [of s v] by (auto simp: is_constant_def split: option.splits)
        then show "is_constant t v \<and> eval t (vregs ?P) v = gmem ?P gl"
          using v eval_cong [of t v s "vregs ?P" "vregs ?P"] by (simp add: is_constant_def)
      qed
      have np: "\<not> is_phi_instr t i" using y(2) k kt by (simp add: is_phi_instr_def)
      have c: "constant_for t i c" using kt e(2) by (simp add: constant_for_def)
      obtain t' where t': "propagate_instr nan b i known s = Inr (known', t')" "step_done nan ext m b t ps us known t'"
        using replaced_done [OF g(1) lt c np x Pt knt] unfolding fold 3(1) kk' by auto
      then have "step_done nan ext m b s ps us known' t'"
        using block_refines_trans [OF g(2)] by (auto simp: step_done_def kk')
      then show ?thesis using t'(1) by blast
    qed (simp add: overflows_def fold)
  qed
qed

section \<open>A block\<close>

lemma propagate_instrs_done:
  assumes "sane s b" "no_neg_zero nan ext m b s" "instrs s b = ps @ us" "known_ok s (exec_instrs nan ext s ps m) known"
  shows "overflows (propagate_instrs nan b us known s) \<or>
    (\<exists>t. propagate_instrs nan b us known s = Inr ((), t) \<and> sane t b \<and> block_refines nan ext m b s t)"
  using assms
proof (induction us arbitrary: s ps known)
  case (Cons i us)
  from propagate_instr_done [OF Cons.prems]
  show ?case
  proof
    assume "\<exists>known' t qs. propagate_instr nan b i known s = Inr (known', t) \<and> step_done nan ext m b s qs us known' t"
    then obtain known' t qs where t: "propagate_instr nan b i known s = Inr (known', t)" "sane t b"
      "block_refines nan ext m b s t" "instrs t b = qs @ us" "known_ok t (exec_instrs nan ext t qs m) known'"
      by (auto simp: step_done_def)
    have "propagate_instrs nan b (i # us) known s = propagate_instrs nan b us known' t" by (simp add: bindM_def t(1))
    with Cons.IH [OF t(2) no_neg_zero_refines [OF Cons.prems(2) t(3)] t(4,5)]
    show ?thesis using block_refines_trans [OF t(3)] by metis
  qed (simp add: overflows_def bindM_def)
qed (simp add: returnM_def block_refines_refl)


section \<open>An example\<close>

text \<open>A block (object 1) that adds 2 and 3 (object 3), stores the sum in a global (object 2), loads it
  again (object 5) and returns it.\<close>

definition cp_demo :: ir where
  "cp_demo = empty_ir\<lparr>vals :=
     [0 \<mapsto> \<lparr>vty = FunctionTy int32_ty [], vname = ''f'', vuses = [], vops = [], vkind = K_func\<rparr>,
      1 \<mapsto> \<lparr>vty = LabelTy, vname = '''', vuses = [], vops = [], vkind = K_block\<rparr>,
      2 \<mapsto> \<lparr>vty = PointerTy int32_ty, vname = ''g'', vuses = [(4, 1), (5, 0)], vops = [], vkind = K_global False None\<rparr>,
      3 \<mapsto> \<lparr>vty = int32_ty, vname = '''', vuses = [(4, 0)], vops = [Some 7, Some 8], vkind = K_instr O_add (Some 1)\<rparr>,
      4 \<mapsto> \<lparr>vty = VoidTy, vname = '''', vuses = [], vops = [Some 3, Some 2], vkind = K_instr O_store (Some 1)\<rparr>,
      5 \<mapsto> \<lparr>vty = int32_ty, vname = '''', vuses = [(6, 0)], vops = [Some 2], vkind = K_instr O_load (Some 1)\<rparr>,
      6 \<mapsto> \<lparr>vty = VoidTy, vname = '''', vuses = [], vops = [Some 5], vkind = K_instr O_ret (Some 1)\<rparr>,
      7 \<mapsto> \<lparr>vty = int32_ty, vname = '''', vuses = [(3, 0)], vops = [], vkind = K_int 2\<rparr>,
      8 \<mapsto> \<lparr>vty = int32_ty, vname = '''', vuses = [(3, 1)], vops = [], vkind = K_int 3\<rparr>],
     bbs := [1 \<mapsto> \<lparr>pre_bbs = [], succ_bbs = [], instr_list = [3, 4, 5, 6], bparent = 0\<rparr>],
     funcs := [0 \<mapsto> \<lparr>basic_blocks = [1], arguments = [], seq_cnt = 0\<rparr>],
     next_id := 9, cached_int := [2 \<mapsto> 7, 3 \<mapsto> 8], function_list := [0]\<rparr>"

lemma cp_demo_run:
  "map_sum id (\<lambda>(_, t). (instrs t 1, kind_of t 9, ops_of t 6)) (run_on_basic_block (\<lambda>x y. x) 1 cp_demo) =
    Inr ([4, 6], Some (K_int 5), [Some 9])"
  by code_simp

lemma cp_demo_obs:
  "uses_of cp_demo v = (if v = 2 then [(4, 1), (5, 0)] else if v = 3 then [(4, 0)] else if v = 5 then [(6, 0)]
     else if v = 7 then [(3, 0)] else if v = 8 then [(3, 1)] else [])"
  "ops_of cp_demo u = (if u = 3 then [Some 7, Some 8] else if u = 4 then [Some 3, Some 2] else if u = 5 then [Some 2]
     else if u = 6 then [Some 5] else [])"
  "kind_of cp_demo = [0 \<mapsto> K_func, 1 \<mapsto> K_block, 2 \<mapsto> K_global False None, 3 \<mapsto> K_instr O_add (Some 1),
     4 \<mapsto> K_instr O_store (Some 1), 5 \<mapsto> K_instr O_load (Some 1), 6 \<mapsto> K_instr O_ret (Some 1), 7 \<mapsto> K_int 2, 8 \<mapsto> K_int 3]"
  "instrs cp_demo b = (if b = 1 then [3, 4, 5, 6] else [])" "preds cp_demo b = []" "succs cp_demo b = []"
  "blocks cp_demo f = (if f = 0 then [1] else [])" "dom (vals cp_demo) = {0, 1, 2, 3, 4, 5, 6, 7, 8}"
  "dom (bbs cp_demo) = {1}" "dom (funcs cp_demo) = {0}" "next_id cp_demo = 9"
  by (auto simp: cp_demo_def empty_ir_def uses_of_def ops_of_def kind_of_def graph_defs fun_eq_iff)

lemma ir_ok_cp_demo: "ir_ok cp_demo"
proof -
  have "use_def_ok cp_demo"
    by (rule use_def_okI) (auto simp: cp_demo_obs operand_at_def nth_Cons' split: if_splits)
  moreover have "ids_ok cp_demo" unfolding ids_ok_def cp_demo_obs by simp
  moreover have "cfg_ok cp_demo" by (simp add: cfg_ok_def cp_demo_obs)
  moreover have "placed_ok cp_demo"
    by (simp add: placed_ok_def listed_ok_def cp_demo_obs is_terminator_op_def)
  moreover have "blocks_ok cp_demo"
    by (auto simp: blocks_ok_def cp_demo_obs) (auto simp: cp_demo_def)
  ultimately show ?thesis by (simp add: ir_ok_def)
qed

lemma consts_ok_cp_demo: "consts_ok cp_demo"
  by (auto simp: consts_ok_def cp_demo_obs int_in_range_def) (auto simp: cp_demo_def empty_ir_def split: if_splits)

theorem int_fold_witness: "is_exact_fold (try_fold (\<lambda>x y. x) 3) cp_demo (Some 5)"
  using int_fold_exact [OF ir_ok_cp_demo consts_ok_cp_demo, of 3 O_add "Some 1" 7 8 2 3 "\<lambda>x y. x"]
  by (simp add: cp_demo_obs int_result_def)

text \<open>The rest of the machine is what the last operation that is not an access to a global saw.\<close>

definition demo_externals :: "(unit, unit mval option list) externals" where
  "demo_externals = \<lparr>do_call = \<lambda>i xs m r. (VI 0, m, r), do_other = \<lambda>i p xs m r. (VI 0, xs)\<rparr>"

definition demo_machine :: "(unit, unit mval option list) machine" where
  "demo_machine = \<lparr>vregs = \<lambda>v. VO (), gmem = \<lambda>v. VI 7, world = []\<rparr>"


section \<open>Stale incoming values\<close>

text \<open>Block 1 branches on a constant to block 2 (else 3), block 2 jumps to block 3, and block 3 has a phi
  with a value for each. The edge from 1 to 3 goes, but 3 keeps a predecessor, so it is not
  removed and nothing drops the value its phi has for block 1.\<close>

definition stale_demo :: ir where
  "stale_demo = empty_ir\<lparr>vals :=
     [0 \<mapsto> \<lparr>vty = FunctionTy int32_ty [], vname = ''f'', vuses = [], vops = [], vkind = K_func\<rparr>,
      1 \<mapsto> \<lparr>vty = LabelTy, vname = '''', vuses = [(6, 1)], vops = [], vkind = K_block\<rparr>,
      2 \<mapsto> \<lparr>vty = LabelTy, vname = '''', vuses = [(4, 1), (6, 3)], vops = [], vkind = K_block\<rparr>,
      3 \<mapsto> \<lparr>vty = LabelTy, vname = '''', vuses = [(4, 2), (5, 0)], vops = [], vkind = K_block\<rparr>,
      4 \<mapsto> \<lparr>vty = VoidTy, vname = '''', vuses = [], vops = [Some 8, Some 2, Some 3], vkind = K_instr O_br (Some 1)\<rparr>,
      5 \<mapsto> \<lparr>vty = VoidTy, vname = '''', vuses = [], vops = [Some 3], vkind = K_instr O_br (Some 2)\<rparr>,
      6 \<mapsto> \<lparr>vty = int32_ty, vname = '''', vuses = [(7, 0)], vops = [Some 9, Some 1, Some 10, Some 2],
           vkind = K_instr O_phi (Some 3)\<rparr>,
      7 \<mapsto> \<lparr>vty = VoidTy, vname = '''', vuses = [], vops = [Some 6], vkind = K_instr O_ret (Some 3)\<rparr>,
      8 \<mapsto> \<lparr>vty = int1_ty, vname = '''', vuses = [(4, 0)], vops = [], vkind = K_int 1\<rparr>,
      9 \<mapsto> \<lparr>vty = int32_ty, vname = '''', vuses = [(6, 0)], vops = [], vkind = K_int 7\<rparr>,
      10 \<mapsto> \<lparr>vty = int32_ty, vname = '''', vuses = [(6, 2)], vops = [], vkind = K_int 2\<rparr>],
     bbs := [1 \<mapsto> \<lparr>pre_bbs = [], succ_bbs = [2, 3], instr_list = [4], bparent = 0\<rparr>,
       2 \<mapsto> \<lparr>pre_bbs = [1], succ_bbs = [3], instr_list = [5], bparent = 0\<rparr>,
       3 \<mapsto> \<lparr>pre_bbs = [1, 2], succ_bbs = [], instr_list = [6, 7], bparent = 0\<rparr>],
     funcs := [0 \<mapsto> \<lparr>basic_blocks = [1, 2, 3], arguments = [], seq_cnt = 0\<rparr>],
     next_id := 11, cached_int := [7 \<mapsto> 9, 2 \<mapsto> 10], cached_bool := [True \<mapsto> 8], function_list := [0]\<rparr>"

theorem stale_phi_incoming:
  "map_sum id (\<lambda>t. (blocks t 0, succs t 1, preds t 3, ops_of t 6)) (simplify_control_flow sorted_list_of_set 0 stale_demo) =
    Inr ([1, 2, 3], [2], [2], [Some 9, Some 1, Some 10, Some 2])"
  by code_simp

end
