(* ===== verification/Mem2Reg.thy ===== *)
theory Mem2Reg
  imports Dominators DeadCode Inserting
begin

text \<open>
  Promotion of stack slots to values (\<open>src/passes/Mem2Reg.cpp\<close>): the allocas that are only loaded
  from and stored to, phis at the iterated dominance frontiers of their stores, and the renaming
  along the dominator tree. The fields of the pass are the record \<open>m2r\<close>, passed along beside the
  module. The sets and maps keyed by pointers are walked in an unspecified order: \<open>orders\<close>.
\<close>

record orders =
  set_order :: "vid set \<Rightarrow> vid list"
  pair_order :: "(vid \<times> vid) set \<Rightarrow> (vid \<times> vid) list"

record m2r =
  promotable_allocas :: "vid set"
  instructions_to_delete :: "vid list"
  phi_to_alloca :: "vid \<rightharpoonup> vid"
  var_stack :: "vid \<rightharpoonup> vid option list"
  block_phi_map :: "vid \<rightharpoonup> (vid \<times> vid) set"

definition reset_function_state :: m2r where
  "reset_function_state = \<lparr>promotable_allocas = {}, instructions_to_delete = [], phi_to_alloca = Map.empty,
     var_stack = Map.empty, block_phi_map = Map.empty\<rparr>"

section \<open>The allocas to promote\<close>

definition is_op :: "opid \<Rightarrow> 'z ir_scheme \<Rightarrow> vid \<Rightarrow> bool" where
  "is_op p s i = (case kind_of s i of Some (K_instr q _) \<Rightarrow> p = q | _ \<Rightarrow> False)"

definition invalid_use :: "'z ir_scheme \<Rightarrow> vid \<Rightarrow> use_entry \<Rightarrow> bool res" where
  "invalid_use s a u =
     (if is_op O_load s (fst u) then bindR (get_operand s (fst u) 0) (\<lambda>v. Inr (v \<noteq> Some a))
      else if is_op O_store s (fst u) then bindR (get_operand s (fst u) 1) (\<lambda>v. Inr (v \<noteq> Some a))
      else Inr True)"

fun has_invalid_use :: "'z ir_scheme \<Rightarrow> vid \<Rightarrow> use_entry list \<Rightarrow> bool res" where
  "has_invalid_use s a [] = Inr False"
| "has_invalid_use s a (u # us) = bindR (invalid_use s a u) (\<lambda>b. if b then Inr True else has_invalid_use s a us)"

fun collect_allocas :: "'z ir_scheme \<Rightarrow> vid list \<Rightarrow> vid set \<Rightarrow> vid set res" where
  "collect_allocas s [] P = Inr P"
| "collect_allocas s (i # is) P =
     (if is_op O_alloca s i then
        bindR (has_invalid_use s i (uses_of s i)) (\<lambda>b. collect_allocas s is (if b then P else insert i P))
      else collect_allocas s is P)"

definition collect_promotable_allocas :: "'z ir_scheme \<Rightarrow> vid \<Rightarrow> m2r \<Rightarrow> m2r res" where
  "collect_promotable_allocas s f st =
     bindR (collect_allocas s (func_instrs s f) (promotable_allocas st)) (\<lambda>P. Inr (st\<lparr>promotable_allocas := P\<rparr>))"

section \<open>Phis\<close>

text \<open>The promotable alloca in operand \<open>j\<close>.\<close>

definition promoted_operand :: "'z ir_scheme \<Rightarrow> vid set \<Rightarrow> vid \<Rightarrow> nat \<Rightarrow> vid option res" where
  "promoted_operand s P i j = bindR (get_operand s i j) (\<lambda>v. case v of
     None \<Rightarrow> Inr None
   | Some a \<Rightarrow> Inr (if is_op O_alloca s a \<and> a \<in> P then Some a else None))"

text \<open>\<open>alloca_def_blocks\<close> as a relation between allocas and blocks.\<close>

fun collect_defs :: "'z ir_scheme \<Rightarrow> vid set \<Rightarrow> vid \<Rightarrow> vid list \<Rightarrow> (vid \<times> vid) set \<Rightarrow> (vid \<times> vid) set res" where
  "collect_defs s P b [] D = Inr D"
| "collect_defs s P b (i # is) D =
     (if is_op O_store s i then
        bindR (promoted_operand s P i 1) (\<lambda>a. collect_defs s P b is (case a of None \<Rightarrow> D | Some a \<Rightarrow> insert (a, b) D))
      else collect_defs s P b is D)"

fun collect_def_blocks :: "'z ir_scheme \<Rightarrow> vid set \<Rightarrow> vid list \<Rightarrow> (vid \<times> vid) set \<Rightarrow> (vid \<times> vid) set res" where
  "collect_def_blocks s P [] D = Inr D"
| "collect_def_blocks s P (b # bs) D = bindR (collect_defs s P b (instrs s b) D) (collect_def_blocks s P bs)"

definition def_blocks :: "(vid \<times> vid) set \<Rightarrow> vid \<Rightarrow> vid set" where
  "def_blocks D a = snd ` {p \<in> D. fst p = a}"

definition get_alloca_type :: "vid \<Rightarrow> ('z ir_scheme, ty) sm" where
  "get_alloca_type a = bindM (ty_of a) (\<lambda>t. liftR (get_pointer_element_type t))"

definition insert_phi :: "vid \<Rightarrow> vid \<Rightarrow> ('z ir_scheme, vid) sm" where
  "insert_phi a frontier =
     bindM (get_alloca_type a) (\<lambda>t.
     bindM (create_phi t frontier [] []) (\<lambda>phi.
     thenM (updateM (add_instr_begin frontier phi)) (returnM phi)))"

record 'z phi_state =
  ps_worklist :: "vid list"
  phi_blocks :: "vid set"
  ps_m2r :: m2r
  ps_ir :: "'z ir_scheme"

definition visit_frontier :: "vid \<Rightarrow> vid set \<Rightarrow> vid \<Rightarrow> 'z phi_state \<Rightarrow> 'z phi_state res" where
  "visit_frontier a D frontier st =
     (if frontier \<in> phi_blocks st then Inr st
      else
        bindR (insert_phi a frontier (ps_ir st)) (\<lambda>(phi, s).
        Inr (st\<lparr>phi_blocks := insert frontier (phi_blocks st), ps_ir := s,
          ps_m2r := (ps_m2r st)\<lparr>
            block_phi_map := (block_phi_map (ps_m2r st))(frontier \<mapsto>
              insert (phi, a) (entry_set (block_phi_map (ps_m2r st)) frontier)),
            phi_to_alloca := (phi_to_alloca (ps_m2r st))(phi \<mapsto> a)\<rparr>,
          ps_worklist := (if frontier \<in> D then ps_worklist st else ps_worklist st @ [frontier])\<rparr>)))"

fun visit_frontiers :: "vid \<Rightarrow> vid set \<Rightarrow> vid list \<Rightarrow> 'z phi_state \<Rightarrow> 'z phi_state res" where
  "visit_frontiers a D [] st = Inr st"
| "visit_frontiers a D (b # bs) st =
     bindR (visit_frontier a D b st) (visit_frontiers a D bs)"

definition place_next :: "orders \<Rightarrow> dominators \<Rightarrow> vid \<Rightarrow> vid set \<Rightarrow> 'z phi_state \<Rightarrow> 'z phi_state res" where
  "place_next ord d a D st = (case ps_worklist st of
     [] \<Rightarrow> Inl (UB ''front'')
   | b # rest \<Rightarrow>
       bindR (get_dominance_frontier d b) (\<lambda>df.
       visit_frontiers a D (set_order ord df) (st\<lparr>ps_worklist := rest\<rparr>)))"

definition place_phis :: "orders \<Rightarrow> dominators \<Rightarrow> vid \<Rightarrow> vid set \<Rightarrow> m2r \<Rightarrow> ('z ir_scheme, m2r) sm" where
  "place_phis ord d a D st s =
     bindR (outcome (whileR (\<lambda>st. ps_worklist st \<noteq> []) (place_next ord d a D)
       \<lparr>ps_worklist = set_order ord D, phi_blocks = {}, ps_m2r = st, ps_ir = s\<rparr>)) (\<lambda>st'.
     Inr (ps_m2r st', ps_ir st'))"

fun place_all_phis :: "orders \<Rightarrow> dominators \<Rightarrow> (vid \<times> vid) set \<Rightarrow> vid list \<Rightarrow> m2r \<Rightarrow> ('z ir_scheme, m2r) sm" where
  "place_all_phis ord d defs [] st = returnM st"
| "place_all_phis ord d defs (a # as) st =
     bindM (place_phis ord d a (def_blocks defs a) st) (place_all_phis ord d defs as)"

definition generate_phi :: "orders \<Rightarrow> dominators \<Rightarrow> vid \<Rightarrow> m2r \<Rightarrow> ('z ir_scheme, m2r) sm" where
  "generate_phi ord d f st =
     bindM (readM (\<lambda>s. collect_def_blocks s (promotable_allocas st) (blocks s f) {})) (\<lambda>defs.
     place_all_phis ord d defs (set_order ord (fst ` defs)) st)"

section \<open>Renaming\<close>

definition get_reaching_def :: "(vid \<rightharpoonup> vid option list) \<Rightarrow> vid \<Rightarrow> ('z ir_scheme, vid option) sm" where
  "get_reaching_def stacks a = (case stacks a of
     Some (v # vs) \<Rightarrow> returnM (last (v # vs))
   | _ \<Rightarrow> bindM (get_alloca_type a) (\<lambda>t. bindM (UndefValue_get t) (\<lambda>u. returnM (Some u))))"

text \<open>A definition: pushed on the stack of the alloca and counted.\<close>

definition push_def :: "vid \<Rightarrow> vid option \<Rightarrow> m2r \<times> (vid \<rightharpoonup> nat) \<Rightarrow> m2r \<times> (vid \<rightharpoonup> nat)" where
  "push_def a v = (\<lambda>(st, counts).
     (st\<lparr>var_stack := (var_stack st)(a \<mapsto> (case var_stack st a of None \<Rightarrow> [] | Some vs \<Rightarrow> vs) @ [v])\<rparr>,
      counts(a \<mapsto> (case counts a of None \<Rightarrow> 1 | Some n \<Rightarrow> Suc n))))"

definition mark_deleted :: "vid \<Rightarrow> m2r \<times> (vid \<rightharpoonup> nat) \<Rightarrow> m2r \<times> (vid \<rightharpoonup> nat)" where
  "mark_deleted i = (\<lambda>(st, counts). (st\<lparr>instructions_to_delete := instructions_to_delete st @ [i]\<rparr>, counts))"

definition rename_instr :: "vid \<Rightarrow> m2r \<times> (vid \<rightharpoonup> nat) \<Rightarrow> ('z ir_scheme, m2r \<times> (vid \<rightharpoonup> nat)) sm" where
  "rename_instr i st =
     bindM (readM (\<lambda>s. instr_op s i)) (\<lambda>p.
     if p = O_phi then
       (case phi_to_alloca (fst st) i of
          None \<Rightarrow> failM (Assert_fail ''phi not created by generate_phi'')
        | Some a \<Rightarrow> returnM (push_def a (Some i) st))
     else if p = O_store then
       bindM (readM (\<lambda>s. promoted_operand s (promotable_allocas (fst st)) i 1)) (\<lambda>a. case a of
         None \<Rightarrow> returnM st
       | Some a \<Rightarrow>
           bindM (readM (\<lambda>s. get_operand s i 0)) (\<lambda>v. returnM (push_def a v (mark_deleted i st))))
     else if p = O_load then
       bindM (readM (\<lambda>s. promoted_operand s (promotable_allocas (fst st)) i 0)) (\<lambda>a. case a of
         None \<Rightarrow> returnM st
       | Some a \<Rightarrow>
           bindM (get_reaching_def (var_stack (fst st)) a) (\<lambda>v.
           thenM (updateM (replace_all_use_with i v)) (returnM (mark_deleted i st))))
     else returnM st)"

fun rename_instrs :: "vid list \<Rightarrow> m2r \<times> (vid \<rightharpoonup> nat) \<Rightarrow> ('z ir_scheme, m2r \<times> (vid \<rightharpoonup> nat)) sm" where
  "rename_instrs [] st = returnM st"
| "rename_instrs (i # is) st = bindM (rename_instr i st) (rename_instrs is)"

fun fill_phis :: "vid \<Rightarrow> (vid \<rightharpoonup> vid option list) \<Rightarrow> (vid \<times> vid) list \<Rightarrow> ('z ir_scheme, unit) sm" where
  "fill_phis b stacks [] = returnM ()"
| "fill_phis b stacks ((phi, a) # ps) =
     bindM (get_reaching_def stacks a) (\<lambda>v.
     thenM (updateM (add_operand phi v)) (thenM (updateM (add_operand phi (Some b))) (fill_phis b stacks ps)))"

fun fill_successors :: "orders \<Rightarrow> vid \<Rightarrow> m2r \<Rightarrow> vid list \<Rightarrow> ('z ir_scheme, unit) sm" where
  "fill_successors ord b st [] = returnM ()"
| "fill_successors ord b st (succ # rest) =
     thenM (fill_phis b (var_stack st) (pair_order ord (entry_set (block_phi_map st) succ))) (fill_successors ord b st rest)"

definition rename_block :: "orders \<Rightarrow> vid \<Rightarrow> m2r \<Rightarrow> ('z ir_scheme, m2r \<times> (vid \<rightharpoonup> nat)) sm" where
  "rename_block ord b st =
     bindM (readM (\<lambda>s. deref (bbs s) b)) (\<lambda>r.
     bindM (rename_instrs (instr_list r) (st, Map.empty)) (\<lambda>st1.
     thenM (fill_successors ord b (fst st1) (succ_bbs r)) (returnM st1)))"

definition pop_counts :: "(vid \<rightharpoonup> nat) \<Rightarrow> m2r \<Rightarrow> m2r" where
  "pop_counts counts st = st\<lparr>var_stack := (\<lambda>a. case counts a of
     None \<Rightarrow> var_stack st a
   | Some n \<Rightarrow> map_option (\<lambda>vs. take (length vs - n) vs) (var_stack st a))\<rparr>"

text \<open>\<open>rename\<close> on each of a list of blocks: a child of the dominator tree and then its siblings.\<close>

partial_function (option) rename_blocks ::
  "orders \<Rightarrow> dominators \<Rightarrow> vid list \<Rightarrow> m2r \<Rightarrow> 'z ir_scheme \<Rightarrow> (m2r \<times> 'z ir_scheme) res option" where
  "rename_blocks ord d bs st s = (case bs of
     [] \<Rightarrow> Some (Inr (st, s))
   | b # rest \<Rightarrow>
       (case rename_block ord b st s of
          Inl e \<Rightarrow> Some (Inl e)
        | Inr ((st1, counts), s1) \<Rightarrow>
            (case get_dom_tree_succ_blocks d b of
               Inl e \<Rightarrow> Some (Inl e)
             | Inr children \<Rightarrow>
                 Option.bind (rename_blocks ord d (set_order ord children) st1 s1) (\<lambda>x. case x of
                   Inl e \<Rightarrow> Some (Inl e)
                 | Inr (st2, s2) \<Rightarrow> rename_blocks ord d rest (pop_counts counts st2) s2))))"

declare rename_blocks.simps [code]

definition rename :: "orders \<Rightarrow> dominators \<Rightarrow> vid \<Rightarrow> m2r \<Rightarrow> ('z ir_scheme, m2r) sm" where
  "rename ord d b st s = outcome (rename_blocks ord d [b] st s)"

section \<open>Deleting\<close>

fun erase_unused_allocas :: "vid list \<Rightarrow> 'z ir_scheme \<Rightarrow> 'z ir_scheme res" where
  "erase_unused_allocas [] s = Inr s"
| "erase_unused_allocas (a # as) s =
     bindR (deref (vals s) a) (\<lambda>r.
     if vuses r \<noteq> [] then erase_unused_allocas as s
     else bindR (remove_all_operands a s) (\<lambda>s1. bindR (erase_all [a] s1) (erase_unused_allocas as)))"

definition delete_promoted_memory_instructions :: "orders \<Rightarrow> m2r \<Rightarrow> 'z ir_scheme \<Rightarrow> 'z ir_scheme res" where
  "delete_promoted_memory_instructions ord st s =
     bindR (clear_operands (instructions_to_delete st) s) (\<lambda>s1.
     bindR (erase_all (instructions_to_delete st) s1)
       (erase_unused_allocas (set_order ord (promotable_allocas st))))"

section \<open>The pass\<close>

definition promote_function :: "orders \<Rightarrow> dominators \<Rightarrow> vid \<Rightarrow> 'z ir_scheme \<Rightarrow> 'z ir_scheme res" where
  "promote_function ord d f s =
     bindR (collect_promotable_allocas s f reset_function_state) (\<lambda>st.
     bindR (generate_phi ord d f st s) (\<lambda>(st1, s1).
     bindR (entry_block s1 f) (\<lambda>entry.
     bindR (rename ord d entry st1 s1) (\<lambda>(st2, s2).
     delete_promoted_memory_instructions ord st2 s2))))"

fun promote_functions :: "orders \<Rightarrow> dominators \<Rightarrow> vid list \<Rightarrow> 'z ir_scheme \<Rightarrow> 'z ir_scheme res" where
  "promote_functions ord d [] s = Inr s"
| "promote_functions ord d (f # fs) s =
     bindR (is_declaration s f) (\<lambda>decl.
     bindR (if decl then Inr s else promote_function ord d f s) (promote_functions ord d fs))"

definition Mem2Reg_run :: "orders \<Rightarrow> 'z ir_scheme \<Rightarrow> 'z ir_scheme res" where
  "Mem2Reg_run ord s = bindR (Dominators_run s) (\<lambda>d. promote_functions ord d (function_list s) s)"

end
