(* ===== verification/PhiPlacement.thy ===== *)
theory PhiPlacement
  imports Mem2Reg
begin

text \<open>
  Where promotion puts phis: the allocas it finds, and the worklist over dominance frontiers
  against the iterated dominance frontier.
\<close>

section \<open>A phi at the head of a block\<close>

lemma ir_ok_add_instr_begin:
  assumes ok: "ir_ok s" and k: "kind_of s i = Some (K_instr op (Some b))" and new: "i \<notin> set (instrs s b)"
    and nt: "\<not> is_terminator_op op" and r: "bbs s b = Some r"
    and t: "t = s\<lparr>bbs := (bbs s)(b \<mapsto> r\<lparr>instr_list := i # instr_list r\<rparr>)\<rparr>"
  shows "ir_ok t"
proof -
  have p: "preds t = preds s" "succs t = succs s" "blocks t = blocks s" and q: "instrs t = (instrs s)(b := i # instrs s b)"
    using r by (auto simp: graph_defs t fun_eq_iff)
  have v: "kind_of t = kind_of s" "use_def_ok t = use_def_ok s" by (rule vals_obs, simp add: t)+
  have "listed_ok (kind_of s) b (i # instrs s b)"
    using ir_ok_listed [OF ok, of b] k new nt by (auto simp: listed_ok_def)
  then have "placed_ok t" using ir_ok_listed [OF ok] by (simp add: placed_ok_def q v)
  moreover have "blocks_ok t" using ok r unfolding ir_ok_def blocks_ok_def p by (fastforce simp: t)
  moreover have "dom (bbs t) = dom (bbs s)" using r by (auto simp: t)
  then have "ids_ok t" using ok by (simp add: ir_ok_def ids_ok_def v) (simp add: t)
  ultimately show ?thesis using ok by (simp add: ir_ok_def cfg_ok_def p v)
qed

definition phi_record :: "ty \<Rightarrow> vid \<Rightarrow> val" where
  "phi_record t b = \<lparr>vty = t, vname = '''', vuses = [], vops = [], vkind = K_instr O_phi (Some b)\<rparr>"

definition with_phi :: "ty \<Rightarrow> vid \<Rightarrow> 'z ir_scheme \<Rightarrow> 'z ir_scheme" where
  "with_phi t b s = s\<lparr>vals := (vals s)(next_id s \<mapsto> phi_record t b), next_id := Suc (next_id s),
     bbs := (bbs s)(b := map_option (\<lambda>r. r\<lparr>instr_list := next_id s # instr_list r\<rparr>) (bbs s b))\<rparr>"

lemma insert_phi_effect:
  assumes ok: "ir_ok s" and b: "b \<in> dom (bbs s)" and a: "vals s a = Some r" "vty r = PointerTy t"
  shows "insert_phi a b s = Inr (next_id s, with_phi t b s)" "ir_ok (with_phi t b s)"
proof -
  let ?i = "next_id s"
  let ?s1 = "s\<lparr>vals := (vals s)(?i \<mapsto> phi_record t b), next_id := Suc ?i\<rparr>"
  obtain rb where rb: "bbs s b = Some rb" using b by blast
  have c: "create_phi t b [] [] s = Inr (?i, ?s1)"
    by (simp add: create_phi_def PhiInst_ctor_def Instruction_ctor_def new_value_def bindM_def thenM_def returnM_def
        guardM_def liftR_def updateM_def set_parent_def instr_op_def upd_val_def phi_record_def
        del: instr_op_Inr deref_Inr_iff bindR_Inr_iff)
  have w: "with_phi t b s = ?s1\<lparr>bbs := (bbs ?s1)(b \<mapsto> rb\<lparr>instr_list := ?i # instr_list rb\<rparr>)\<rparr>"
    by (simp add: with_phi_def rb)
  have "get_alloca_type a s = Inr (t, s)"
    using a by (simp add: get_alloca_type_def ty_of_def readM_def bindM_def liftR_def type_of_def returnM_def)
  then show "insert_phi a b s = Inr (?i, with_phi t b s)"
    using c rb unfolding w by (simp add: insert_phi_def bindM_def thenM_def updateM_def add_instr_begin_def upd_bb_def returnM_def)
  have "?i \<notin> set (instrs s b)" using ir_ok_instr_kind [OF ok, of ?i b] kind_of_dom ir_ok_bound [OF ok] by blast
  moreover have "instrs ?s1 = instrs s" "kind_of ?s1 ?i = Some (K_instr O_phi (Some b))"
    by (simp_all add: instrs_def kind_of_def phi_record_def fun_eq_iff)
  moreover have "ir_ok ?s1"
    using preservesD [OF preserves_PhiInst_ctor ok c [unfolded create_phi_def]] .
  ultimately show "ir_ok (with_phi t b s)"
    using rb by (intro ir_ok_add_instr_begin [where op = O_phi, OF _ _ _ _ _ w]) (simp_all add: is_terminator_op_def)
qed

section \<open>A set of phis\<close>

text \<open>\<open>t\<close> is \<open>s\<close> with one new phi for every pair of an alloca and a block in \<open>R\<close>: the blocks begin
  with their phis, and the two maps of the pass hold exactly them.\<close>

definition phis_at :: "(vid \<times> vid \<Rightarrow> vid) \<Rightarrow> 'z ir_scheme \<Rightarrow> (vid \<times> vid) set \<Rightarrow> m2r \<Rightarrow> 'z ir_scheme \<Rightarrow> bool" where
  "phis_at ph s R st' t \<longleftrightarrow> inj_on ph R \<and> (\<forall>p\<in>R. ph p \<notin> dom (vals s)) \<and>
     dom (vals t) = dom (vals s) \<union> ph ` R \<and> (\<forall>v\<in>dom (vals s). vals t v = vals s v) \<and>
     (\<forall>p\<in>R. \<exists>ty. vals t (ph p) = Some (phi_record ty (snd p)) \<and> type_of s (fst p) = Inr (PointerTy ty) \<and>
        phi_to_alloca st' (ph p) = Some (fst p)) \<and>
     (\<forall>b. \<exists>ps. instrs t b = ps @ instrs s b \<and> set ps = ph ` {p \<in> R. snd p = b} \<and> distinct ps \<and>
        entry_set (block_phi_map st') b = (\<lambda>p. (ph p, fst p)) ` {p \<in> R. snd p = b})"

definition placed :: "'z ir_scheme \<Rightarrow> m2r \<Rightarrow> (vid \<times> vid) set \<Rightarrow> m2r \<Rightarrow> 'z ir_scheme \<Rightarrow> bool" where
  "placed s st R st' t \<longleftrightarrow> ir_ok t \<and> (\<exists>ph. phis_at ph s R st' t) \<and>
     promotable_allocas st' = promotable_allocas st \<and> var_stack st' = var_stack st \<and>
     instructions_to_delete st' = instructions_to_delete st \<and>
     preds t = preds s \<and> succs t = succs s \<and> blocks t = blocks s \<and> dom (bbs t) = dom (bbs s) \<and>
     function_list t = function_list s"

lemma placed_refl:
  assumes "ir_ok s" and "block_phi_map st = Map.empty" "phi_to_alloca st = Map.empty"
  shows "placed s st {} st s"
  using assms by (simp add: placed_def phis_at_def entry_set_def)

lemma with_phi_obs:
  assumes "ir_ok s" and "b \<in> dom (bbs s)"
  shows "vals (with_phi t b s) = (vals s)(next_id s \<mapsto> phi_record t b)"
    "instrs (with_phi t b s) = (instrs s)(b := next_id s # instrs s b)" "preds (with_phi t b s) = preds s"
    "succs (with_phi t b s) = succs s" "blocks (with_phi t b s) = blocks s" "dom (bbs (with_phi t b s)) = dom (bbs s)"
    "function_list (with_phi t b s) = function_list s" "next_id s \<notin> dom (vals s)"
proof -
  obtain r where r: "bbs s b = Some r" using assms(2) by blast
  show "next_id s \<notin> dom (vals s)" using ir_ok_bound [OF assms(1), of "next_id s"] by blast
  show "instrs (with_phi t b s) = (instrs s)(b := next_id s # instrs s b)" "preds (with_phi t b s) = preds s"
    "succs (with_phi t b s) = succs s" "blocks (with_phi t b s) = blocks s" "dom (bbs (with_phi t b s)) = dom (bbs s)"
    using r by (auto simp: with_phi_def graph_defs fun_eq_iff)
qed (simp_all add: with_phi_def)

lemma entry_set_upd: "entry_set (m(k \<mapsto> v)) x = (if x = k then v else entry_set m x)"
  by (simp add: entry_set_def)

definition add_phi :: "vid \<Rightarrow> vid \<Rightarrow> vid \<Rightarrow> m2r \<Rightarrow> m2r" where
  "add_phi phi a b st = st\<lparr>block_phi_map := (block_phi_map st)(b \<mapsto> insert (phi, a) (entry_set (block_phi_map st) b)),
     phi_to_alloca := (phi_to_alloca st)(phi \<mapsto> a)\<rparr>"

lemma placed_insert:
  assumes p: "placed s st R st' t" and new: "(a, b) \<notin> R" and b: "b \<in> dom (bbs s)" and a: "type_of s a = Inr (PointerTy ty)"
  shows "\<exists>phi t'. insert_phi a b t = Inr (phi, t') \<and> placed s st (insert (a, b) R) (add_phi phi a b st') t'"
proof -
  obtain ph where at: "phis_at ph s R st' t" using p by (auto simp: placed_def)
  have ph: "inj_on ph R" "\<forall>p\<in>R. ph p \<notin> dom (vals s)" "dom (vals t) = dom (vals s) \<union> ph ` R"
    and old: "\<forall>v\<in>dom (vals s). vals t v = vals s v"
    and rec: "\<forall>p\<in>R. \<exists>ty. vals t (ph p) = Some (phi_record ty (snd p)) \<and> type_of s (fst p) = Inr (PointerTy ty) \<and>
        phi_to_alloca st' (ph p) = Some (fst p)"
    and ls: "\<forall>b. \<exists>ps. instrs t b = ps @ instrs s b \<and> set ps = ph ` {p \<in> R. snd p = b} \<and> distinct ps \<and>
        entry_set (block_phi_map st') b = (\<lambda>p. (ph p, fst p)) ` {p \<in> R. snd p = b}"
    using at unfolding phis_at_def by simp_all
  have ok: "ir_ok t" and bt: "b \<in> dom (bbs t)" using p b by (simp_all add: placed_def)
  obtain r where r: "vals s a = Some r" "vty r = PointerTy ty" using a by (auto simp: type_of_def)
  then have rt: "vals t a = Some r" using old by (simp add: domIff)
  note o = with_phi_obs [OF ok bt]
  let ?i = "next_id t" and ?t = "with_phi ty b t"
  define ph' where "ph' = ph((a, b) := ?i)"
  have fresh: "?i \<notin> dom (vals s)" "?i \<notin> ph ` R" using o(8) ph(3) by auto
  have ph': "ph' p = ph p" if "p \<in> R" for p using that new by (auto simp: ph'_def)
  have img: "ph' ` {p \<in> insert (a, b) R. snd p = c} = (if c = b then insert ?i (ph ` {p \<in> R. snd p = c}) else ph ` {p \<in> R. snd p = c})"
    "(\<lambda>p. (ph' p, fst p)) ` {p \<in> insert (a, b) R. snd p = c} =
      (if c = b then insert (?i, a) ((\<lambda>p. (ph p, fst p)) ` {p \<in> R. snd p = c}) else (\<lambda>p. (ph p, fst p)) ` {p \<in> R. snd p = c})" for c
  proof -
    have "{p \<in> insert (a, b) R. snd p = c} = (if c = b then insert (a, b) {p \<in> R. snd p = c} else {p \<in> R. snd p = c})" by auto
    moreover have "ph' ` {p \<in> R. snd p = c} = ph ` {p \<in> R. snd p = c}"
      "(\<lambda>p. (ph' p, fst p)) ` {p \<in> R. snd p = c} = (\<lambda>p. (ph p, fst p)) ` {p \<in> R. snd p = c}"
      using ph' by (auto intro!: image_cong)
    moreover have "ph' (a, b) = ?i" by (simp add: ph'_def)
    ultimately show "ph' ` {p \<in> insert (a, b) R. snd p = c} =
        (if c = b then insert ?i (ph ` {p \<in> R. snd p = c}) else ph ` {p \<in> R. snd p = c})"
      "(\<lambda>p. (ph' p, fst p)) ` {p \<in> insert (a, b) R. snd p = c} =
        (if c = b then insert (?i, a) ((\<lambda>p. (ph p, fst p)) ` {p \<in> R. snd p = c}) else (\<lambda>p. (ph p, fst p)) ` {p \<in> R. snd p = c})"
      by (cases "c = b"; simp)+
  qed
  have "inj_on ph' (insert (a, b) R)"
  proof -
    have "inj_on ph' R" using ph(1) ph' inj_on_cong [of R ph' ph] by blast
    moreover have "ph' (a, b) \<notin> ph' ` R"
    proof
      assume "ph' (a, b) \<in> ph' ` R"
      then obtain p where "p \<in> R" "ph' (a, b) = ph' p" by blast
      then have "?i = ph p" using ph' by (simp add: ph'_def)
      then show False using fresh(2) \<open>p \<in> R\<close> by blast
    qed
    ultimately show ?thesis using new by simp
  qed
  moreover have "\<forall>p\<in>insert (a, b) R. ph' p \<notin> dom (vals s)" using ph(2) fresh(1) ph' by (auto simp: ph'_def)
  moreover have "ph' ` insert (a, b) R = insert ?i (ph ` R)" 
  proof -
    have "ph' ` R = ph ` R" using ph' by (rule image_cong [OF refl])
    moreover have "ph' (a, b) = ?i" by (simp add: ph'_def)
    ultimately show ?thesis by simp
  qed
  then have "dom (vals ?t) = dom (vals s) \<union> ph' ` insert (a, b) R" by (simp add: o(1) ph(3))
  moreover have "\<forall>v\<in>dom (vals s). vals ?t v = vals s v" using old fresh(1) by (auto simp: o(1))
  moreover have "\<forall>p\<in>insert (a, b) R. \<exists>ty. vals ?t (ph' p) = Some (phi_record ty (snd p)) \<and>
      type_of s (fst p) = Inr (PointerTy ty) \<and> phi_to_alloca (add_phi ?i a b st') (ph' p) = Some (fst p)"
  proof
    fix p assume "p \<in> insert (a, b) R"
    then show "\<exists>ty. vals ?t (ph' p) = Some (phi_record ty (snd p)) \<and>
      type_of s (fst p) = Inr (PointerTy ty) \<and> phi_to_alloca (add_phi ?i a b st') (ph' p) = Some (fst p)"
    proof
      assume "p = (a, b)"
      then show ?thesis using a by (simp add: o(1) ph'_def add_phi_def)
    next
      assume pR: "p \<in> R"
      then have "ph p \<noteq> ?i" using fresh(2) by (metis imageI)
      then show ?thesis using bspec [OF rec pR] ph' [OF pR] by (auto simp: o(1) add_phi_def)
    qed
  qed
  moreover have "\<forall>c. \<exists>ps. instrs ?t c = ps @ instrs s c \<and> set ps = ph' ` {p \<in> insert (a, b) R. snd p = c} \<and> distinct ps \<and>
      entry_set (block_phi_map (add_phi ?i a b st')) c = (\<lambda>p. (ph' p, fst p)) ` {p \<in> insert (a, b) R. snd p = c}"
  proof
    fix c
    obtain ps where ps: "instrs t c = ps @ instrs s c" "set ps = ph ` {p \<in> R. snd p = c}" "distinct ps"
      "entry_set (block_phi_map st') c = (\<lambda>p. (ph p, fst p)) ` {p \<in> R. snd p = c}" using ls by blast
    have es: "entry_set (block_phi_map (add_phi ?i a b st')) c =
        (if c = b then insert (?i, a) (entry_set (block_phi_map st') c) else entry_set (block_phi_map st') c)"
      by (simp add: add_phi_def entry_set_upd)
    have "?i \<notin> set ps" using fresh(2) ps(2) by auto
    then show "\<exists>ps. instrs ?t c = ps @ instrs s c \<and> set ps = ph' ` {p \<in> insert (a, b) R. snd p = c} \<and> distinct ps \<and>
      entry_set (block_phi_map (add_phi ?i a b st')) c = (\<lambda>p. (ph' p, fst p)) ` {p \<in> insert (a, b) R. snd p = c}"
      unfolding img es o(2) using ps
      by (intro exI [of _ "if c = b then ?i # ps else ps"]) (cases "c = b"; simp)
  qed
  ultimately have "phis_at ph' s (insert (a, b) R) (add_phi ?i a b st') ?t" unfolding phis_at_def by simp
  moreover have "ir_ok ?t" using insert_phi_effect(2) [OF ok bt rt r(2)] .
  ultimately have "placed s st (insert (a, b) R) (add_phi ?i a b st') ?t"
    using p unfolding placed_def by (auto simp: o(1-7) add_phi_def)
  then show ?thesis using insert_phi_effect(1) [OF ok bt rt r(2)] by blast
qed

section \<open>The worklist\<close>

text \<open>The dominance frontier of a block, where the analysis knows one.\<close>

definition DF :: "dominators \<Rightarrow> vid \<Rightarrow> vid set" where
  "DF d b = entry_set (dom_frontier d) (Some b)"

text \<open>Every block has a frontier, of blocks of the store, and the orders list sets.\<close>

definition frontiers_ok :: "orders \<Rightarrow> dominators \<Rightarrow> vid set \<Rightarrow> bool" where
  "frontiers_ok ord d B \<longleftrightarrow> finite B \<and> (\<forall>b\<in>B. Some b \<in> dom (dom_frontier d) \<and> DF d b \<subseteq> B) \<and>
     (\<forall>A. finite A \<longrightarrow> set (set_order ord A) = A \<and> distinct (set_order ord A))"

lemma get_dominance_frontier_DF:
  assumes "frontiers_ok ord d B" and "b \<in> B"
  shows "get_dominance_frontier d b = Inr (DF d b)" "set (set_order ord (DF d b)) = DF d b"
proof -
  obtain F where F: "dom_frontier d (Some b) = Some F" using assms unfolding frontiers_ok_def by blast
  then show "get_dominance_frontier d b = Inr (DF d b)"
    by (simp add: DF_def entry_set_def get_dominance_frontier_def)
  show "set (set_order ord (DF d b)) = DF d b"
    using assms unfolding frontiers_ok_def by (meson finite_subset)
qed

text \<open>The invariant while the phis of one alloca are placed: \<open>R\<close> are those of the allocas before.\<close>

definition placing :: "orders \<Rightarrow> dominators \<Rightarrow> 'z ir_scheme \<Rightarrow> m2r \<Rightarrow> (vid \<times> vid) set \<Rightarrow> vid \<Rightarrow> vid set \<Rightarrow> 'z phi_state \<Rightarrow> bool" where
  "placing ord d s st R a D ps \<longleftrightarrow> frontiers_ok ord d (dom (bbs s)) \<and> D \<subseteq> dom (bbs s) \<and> a \<notin> fst ` R \<and>
     (\<exists>ty. type_of s a = Inr (PointerTy ty)) \<and> phi_blocks ps \<subseteq> dom (bbs s) \<and>
     placed s st (R \<union> {a} \<times> phi_blocks ps) (ps_m2r ps) (ps_ir ps)"

definition queued_or_done :: "dominators \<Rightarrow> vid set \<Rightarrow> 'z phi_state \<Rightarrow> bool" where
  "queued_or_done d D ps \<longleftrightarrow> (\<forall>x\<in>D \<union> phi_blocks ps. x \<in> set (ps_worklist ps) \<or> DF d x \<subseteq> phi_blocks ps) \<and>
     (\<forall>y\<in>phi_blocks ps. \<exists>x\<in>D \<union> phi_blocks ps. y \<in> DF d x)"

lemma visit_frontier_step:
  assumes p: "placing ord d s st R a D ps" and fr: "fr \<in> dom (bbs s)"
  shows "\<exists>ps' new. visit_frontier a D fr ps = Inr ps' \<and> placing ord d s st R a D ps' \<and>
    phi_blocks ps' = insert fr (phi_blocks ps) \<and> ps_worklist ps' = ps_worklist ps @ new \<and>
    set new = {fr} - phi_blocks ps - D"
proof (cases "fr \<in> phi_blocks ps")
  case True
  then show ?thesis using p by (intro exI [of _ ps] exI [of _ "[]"]) (auto simp: visit_frontier_def)
next
  case False
  obtain ty where ty: "type_of s a = Inr (PointerTy ty)" using p by (auto simp: placing_def)
  have new: "(a, fr) \<notin> R \<union> {a} \<times> phi_blocks ps" using p False by (force simp: placing_def)
  have pl: "placed s st (R \<union> {a} \<times> phi_blocks ps) (ps_m2r ps) (ps_ir ps)" using p by (simp add: placing_def)
  obtain phi t' where t': "insert_phi a fr (ps_ir ps) = Inr (phi, t')"
    "placed s st (insert (a, fr) (R \<union> {a} \<times> phi_blocks ps)) (add_phi phi a fr (ps_m2r ps)) t'"
    using placed_insert [OF pl new fr ty] by blast
  let ?ps = "ps\<lparr>phi_blocks := insert fr (phi_blocks ps), ps_ir := t', ps_m2r := add_phi phi a fr (ps_m2r ps),
    ps_worklist := (if fr \<in> D then ps_worklist ps else ps_worklist ps @ [fr])\<rparr>"
  have "visit_frontier a D fr ps = Inr ?ps" using False t'(1) by (simp add: visit_frontier_def add_phi_def)
  moreover have "R \<union> {a} \<times> insert fr (phi_blocks ps) = insert (a, fr) (R \<union> {a} \<times> phi_blocks ps)" by auto
  then have "placing ord d s st R a D ?ps" using p t'(2) fr by (simp add: placing_def)
  ultimately show ?thesis using False
    by (intro exI [of _ ?ps] exI [of _ "if fr \<in> D then [] else [fr]"]) auto
qed

lemma visit_frontiers_step:
  assumes "placing ord d s st R a D ps" and "set fs \<subseteq> dom (bbs s)"
  shows "\<exists>ps' new. visit_frontiers a D fs ps = Inr ps' \<and> placing ord d s st R a D ps' \<and>
    phi_blocks ps' = phi_blocks ps \<union> set fs \<and> ps_worklist ps' = ps_worklist ps @ new \<and>
    set new = set fs - phi_blocks ps - D"
  using assms
proof (induction fs arbitrary: ps)
  case Nil
  then show ?case by (intro exI [of _ ps] exI [of _ "[]"]) simp
next
  case (Cons f fs)
  obtain p1 n1 where p1: "visit_frontier a D f ps = Inr p1" "placing ord d s st R a D p1"
    "phi_blocks p1 = insert f (phi_blocks ps)" "ps_worklist p1 = ps_worklist ps @ n1" "set n1 = {f} - phi_blocks ps - D"
    using visit_frontier_step [OF Cons.prems(1), of f] Cons.prems(2) by (metis list.set_intros(1) subsetD)
  obtain p2 n2 where p2: "visit_frontiers a D fs p1 = Inr p2" "placing ord d s st R a D p2"
    "phi_blocks p2 = phi_blocks p1 \<union> set fs" "ps_worklist p2 = ps_worklist p1 @ n2" "set n2 = set fs - phi_blocks p1 - D"
    using Cons.IH [OF p1(2)] Cons.prems(2) by (metis list.set_intros(2) subset_code(1))
  have "visit_frontiers a D (f # fs) ps = Inr p2" using p1(1) p2(1) by simp
  moreover have "phi_blocks p2 = phi_blocks ps \<union> set (f # fs)" by (auto simp: p2(3) p1(3))
  moreover have "set (n1 @ n2) = set (f # fs) - phi_blocks ps - D" by (auto simp: p1(3,5) p2(5))
  ultimately show ?case using p2(2,4) p1(4) by (intro exI [of _ p2] exI [of _ "n1 @ n2"]) simp
qed

definition phi_ok :: "orders \<Rightarrow> dominators \<Rightarrow> 'z ir_scheme \<Rightarrow> m2r \<Rightarrow> (vid \<times> vid) set \<Rightarrow> vid \<Rightarrow> vid set \<Rightarrow> 'z phi_state \<Rightarrow> bool" where
  "phi_ok ord d s st R a D ps \<longleftrightarrow> placing ord d s st R a D ps \<and> queued_or_done d D ps"

lemma place_next_step:
  assumes ok: "phi_ok ord d s st R a D ps" and w: "ps_worklist ps = x # xs" and x: "x \<in> D \<union> phi_blocks ps"
  shows "\<exists>ps' new. place_next ord d a D ps = Inr ps' \<and> phi_ok ord d s st R a D ps' \<and>
    D \<union> phi_blocks ps' = D \<union> phi_blocks ps \<union> DF d x \<and> ps_worklist ps' = xs @ new \<and>
    set new = DF d x - (D \<union> phi_blocks ps)"
proof -
  let ?p = "ps\<lparr>ps_worklist := xs\<rparr>"
  have p: "placing ord d s st R a D ?p" using ok by (simp add: phi_ok_def placing_def)
  have fo: "frontiers_ok ord d (dom (bbs s))" and xB: "x \<in> dom (bbs s)"
    using ok x by (auto simp: phi_ok_def placing_def)
  note df = get_dominance_frontier_DF [OF fo xB]
  have "set (set_order ord (DF d x)) \<subseteq> dom (bbs s)" using fo xB df(2) by (auto simp: frontiers_ok_def)
  from visit_frontiers_step [OF p this] df(2)
  obtain ps' new where ps': "visit_frontiers a D (set_order ord (DF d x)) ?p = Inr ps'" "placing ord d s st R a D ps'"
    "phi_blocks ps' = phi_blocks ps \<union> DF d x" "ps_worklist ps' = xs @ new" "set new = DF d x - phi_blocks ps - D" by auto
  have run: "place_next ord d a D ps = Inr ps'" using w df(1) ps'(1) by (simp add: place_next_def)
  have q: "queued_or_done d D ps" using ok by (simp add: phi_ok_def)
  have "y \<in> set (ps_worklist ps') \<or> DF d y \<subseteq> phi_blocks ps'" if y: "y \<in> D \<union> phi_blocks ps'" for y
  proof (cases "y \<in> D \<union> phi_blocks ps")
    case True
    then have "y \<in> set (x # xs) \<or> DF d y \<subseteq> phi_blocks ps" using q w by (auto simp: queued_or_done_def)
    then show ?thesis using ps'(3,4) by auto
  qed (use y ps'(3,4,5) in auto)
  moreover have "\<forall>y\<in>phi_blocks ps'. \<exists>z\<in>D \<union> phi_blocks ps'. y \<in> DF d z"
    using q x ps'(3) unfolding queued_or_done_def by blast
  ultimately have "phi_ok ord d s st R a D ps'" using ps'(2) by (simp add: phi_ok_def queued_or_done_def)
  then show ?thesis using run ps'(3,4,5) by (intro exI [of _ ps'] exI [of _ new]) auto
qed

interpretation pp: worklist ps_worklist "\<lambda>ps. D \<union> phi_blocks ps" "DF d" "place_next ord d a D"
    "phi_ok ord d s st R a D" "dom (bbs s) \<inter> {b. finite (dom (bbs s))}"
  for ord d s st R a D
proof unfold_locales
  show "finite (dom (bbs s) \<inter> {b. finite (dom (bbs s))})" by (cases "finite (dom (bbs s))") simp_all
  show "D \<union> phi_blocks ps \<subseteq> dom (bbs s) \<inter> {b. finite (dom (bbs s))}" if "phi_ok ord d s st R a D ps" for ps
    using that by (auto simp: phi_ok_def placing_def frontiers_ok_def)
  show "\<exists>ps' new. place_next ord d a D ps = Inr ps' \<and> phi_ok ord d s st R a D ps' \<and>
    D \<union> phi_blocks ps' = D \<union> phi_blocks ps \<union> DF d x \<and> ps_worklist ps' = xs @ new \<and>
    set new = DF d x - (D \<union> phi_blocks ps)"
    if "phi_ok ord d s st R a D ps" "ps_worklist ps = x # xs" "x \<in> D \<union> phi_blocks ps" for ps x xs
    using that by (rule place_next_step)
qed

section \<open>The iterated dominance frontier\<close>

definition IDF :: "dominators \<Rightarrow> vid set \<Rightarrow> vid set" where
  "IDF d D = (\<Union>b\<in>reach (DF d) D. DF d b)"

lemma IDF_empty [simp]: "IDF d {} = {}"
  by (simp add: IDF_def reach_def)

lemma place_phis_effect:
  assumes p: "placed s st R st' t" and fo: "frontiers_ok ord d (dom (bbs s))" and D: "D \<subseteq> dom (bbs s)"
    and a: "a \<notin> fst ` R" "type_of s a = Inr (PointerTy ty)"
  shows "\<exists>st'' t'. place_phis ord d a D st' t = Inr (st'', t') \<and> placed s st (R \<union> {a} \<times> IDF d D) st'' t'"
proof -
  let ?ps = "\<lparr>ps_worklist = set_order ord D, phi_blocks = {}, ps_m2r = st', ps_ir = t\<rparr>"
  have so: "set (set_order ord D) = D" using fo D unfolding frontiers_ok_def by (meson finite_subset)
  have "phi_ok ord d s st R a D ?ps"
    using p fo D a so by (simp add: phi_ok_def placing_def queued_or_done_def)
  then obtain ps where ps: "whileR (\<lambda>ps. ps_worklist ps \<noteq> []) (place_next ord d a D) ?ps = Some (Inr ps)"
    "phi_ok ord d s st R a D ps" "D \<union> phi_blocks ps = reach (DF d) D"
    using pp.search_total [of ord d s st R a D ?ps D] so by auto
  have "ps_worklist ps = []" using whileR_partial(2) [OF ps(1), where I = "\<lambda>_. True"] by simp
  then have "\<forall>x\<in>reach (DF d) D. DF d x \<subseteq> phi_blocks ps" "\<forall>y\<in>phi_blocks ps. \<exists>x\<in>reach (DF d) D. y \<in> DF d x"
    using ps(2) unfolding phi_ok_def queued_or_done_def ps(3) by simp_all
  then have "phi_blocks ps = IDF d D" unfolding IDF_def by blast
  then show ?thesis using ps(1,2) by (auto simp: place_phis_def outcome_def phi_ok_def placing_def)
qed

lemma place_all_phis_effect:
  assumes "placed s st R st' t" and "frontiers_ok ord d (dom (bbs s))" and "\<And>a. def_blocks defs a \<subseteq> dom (bbs s)"
    and "distinct as" "set as \<inter> fst ` R = {}" "\<And>a. a \<in> set as \<Longrightarrow> \<exists>ty. type_of s a = Inr (PointerTy ty)"
  shows "\<exists>st'' t'. place_all_phis ord d defs as st' t = Inr (st'', t') \<and>
    placed s st (R \<union> {(a, b). a \<in> set as \<and> b \<in> IDF d (def_blocks defs a)}) st'' t'"
  using assms(1,4-6)
proof (induction "as" arbitrary: R st' t)
  case (Cons a as)
  obtain ty where ty: "type_of s a = Inr (PointerTy ty)" using Cons.prems(4) by auto
  have aR: "a \<notin> fst ` R" using Cons.prems(3) by auto
  obtain st1 t1 where s1: "place_phis ord d a (def_blocks defs a) st' t = Inr (st1, t1)"
    "placed s st (R \<union> {a} \<times> IDF d (def_blocks defs a)) st1 t1"
    using place_phis_effect [OF Cons.prems(1) assms(2,3) aR ty] by blast
  have d: "distinct as" "a \<notin> set as" "set as \<inter> fst ` (R \<union> {a} \<times> IDF d (def_blocks defs a)) = {}"
    using Cons.prems(2,3) by auto
  obtain st2 t2 where s2: "place_all_phis ord d defs as st1 t1 = Inr (st2, t2)"
    "placed s st (R \<union> {a} \<times> IDF d (def_blocks defs a) \<union> {(a, b). a \<in> set as \<and> b \<in> IDF d (def_blocks defs a)}) st2 t2"
    using Cons.IH [OF s1(2) d(1,3)] Cons.prems(4) by auto
  have "R \<union> {a} \<times> IDF d (def_blocks defs a) \<union> {(a, b). a \<in> set as \<and> b \<in> IDF d (def_blocks defs a)} =
      R \<union> {(c, b). c \<in> set (a # as) \<and> b \<in> IDF d (def_blocks defs c)}" by auto
  moreover have "place_all_phis ord d defs (a # as) st' t = Inr (st2, t2)" using s1(1) s2(1) by (simp add: bindM_def)
  ultimately show ?case using s2(2) by auto
qed (auto simp: returnM_def)

section \<open>The allocas and their definitions\<close>

definition promotable :: "'z ir_scheme \<Rightarrow> vid \<Rightarrow> vid \<Rightarrow> bool" where
  "promotable s f a \<longleftrightarrow> a \<in> set (func_instrs s f) \<and> is_op O_alloca s a \<and>
     (\<forall>(u, j)\<in>set (uses_of s a). is_op O_load s u \<and> operand_at s u 0 = Some a \<or>
        is_op O_store s u \<and> operand_at s u 1 = Some a)"

definition store_blocks :: "'z ir_scheme \<Rightarrow> vid \<Rightarrow> vid \<Rightarrow> vid set" where
  "store_blocks s f a = {b \<in> set (blocks s f). \<exists>i\<in>set (instrs s b). is_op O_store s i \<and> operand_at s i 1 = Some a}"

lemma is_op_iff: "is_op p s i \<longleftrightarrow> (\<exists>b. kind_of s i = Some (K_instr p b))"
  by (auto simp: is_op_def split: option.splits vkind.splits)

lemma get_operand_at_nth:
  assumes "i \<in> dom (vals s)" and "j < length (ops_of s i)"
  shows "get_operand s i j = Inr (operand_at s i j)"
proof -
  obtain r where "vals s i = Some r" using assms(1) by blast
  then show ?thesis using assms(2) by (simp add: get_operand_def operand_at_def ops_of_def)
qed

lemma access_operands:
  assumes "accesses_ok s i"
  shows "is_op O_load s i \<Longrightarrow> get_operand s i 0 = Inr (operand_at s i 0)"
    and "is_op O_store s i \<Longrightarrow> get_operand s i 1 = Inr (operand_at s i 1)"
proof -
  have dom: "i \<in> dom (vals s)" if "is_op p s i" for p using that kind_of_dom [of s i] by (auto simp: is_op_iff)
  show "get_operand s i 0 = Inr (operand_at s i 0)" if "is_op O_load s i"
    using assms that by (intro get_operand_at_nth dom [OF that]) (auto simp: is_op_iff accesses_ok_def)
  show "get_operand s i 1 = Inr (operand_at s i 1)" if "is_op O_store s i"
    using assms that by (intro get_operand_at_nth dom [OF that]) (auto simp: is_op_iff accesses_ok_def)
qed

lemma has_invalid_use_effect:
  assumes "\<And>u. accesses_ok s u"
  shows "has_invalid_use s a us = Inr (\<not> (\<forall>(u, j)\<in>set us. is_op O_load s u \<and> operand_at s u 0 = Some a \<or>
        is_op O_store s u \<and> operand_at s u 1 = Some a))"
proof (induction us)
  case (Cons x us)
  obtain u j where x: "x = (u, j)" by (cases x)
  have ne: "\<not> (is_op O_load s u \<and> is_op O_store s u)" by (auto simp: is_op_iff)
  have "invalid_use s a x = Inr (\<not> (is_op O_load s u \<and> operand_at s u 0 = Some a \<or>
      is_op O_store s u \<and> operand_at s u 1 = Some a))"
    using access_operands [OF assms, of u] ne by (auto simp: invalid_use_def x)
  then show ?case using Cons by (simp add: x)
qed simp

lemma collect_allocas_effect:
  assumes "\<And>u. accesses_ok s u"
  shows "collect_allocas s is P = Inr (P \<union> {a \<in> set is. is_op O_alloca s a \<and>
     (\<forall>(u, j)\<in>set (uses_of s a). is_op O_load s u \<and> operand_at s u 0 = Some a \<or>
        is_op O_store s u \<and> operand_at s u 1 = Some a)})"
  by (induction "is" arbitrary: P) (auto simp: has_invalid_use_effect [OF assms])

lemma collect_promotable_effect:
  assumes "\<And>u. accesses_ok s u"
  shows "collect_promotable_allocas s f reset_function_state =
    Inr (reset_function_state\<lparr>promotable_allocas := {a. promotable s f a}\<rparr>)"
  by (simp add: collect_promotable_allocas_def collect_allocas_effect [OF assms] reset_function_state_def promotable_def)

lemma collect_defs_effect:
  assumes "\<And>u. accesses_ok s u"
  shows "collect_defs s P b is D = Inr (D \<union> {(a, b) | a i. i \<in> set is \<and> is_op O_store s i \<and>
    operand_at s i 1 = Some a \<and> is_op O_alloca s a \<and> a \<in> P})"
proof (induction "is" arbitrary: D)
  case (Cons i "is")
  show ?case
  proof (cases "is_op O_store s i")
    case True
    then have "get_operand s i 1 = Inr (operand_at s i 1)" using access_operands(2) [OF assms] by blast
    then show ?thesis using True Cons by (cases "operand_at s i 1") (auto simp: promoted_operand_def)
  qed (use Cons in auto)
qed simp

lemma collect_def_blocks_effect:
  assumes "\<And>u. accesses_ok s u"
  shows "collect_def_blocks s P bs D = Inr (D \<union> {(a, b). b \<in> set bs \<and> is_op O_alloca s a \<and> a \<in> P \<and>
    (\<exists>i\<in>set (instrs s b). is_op O_store s i \<and> operand_at s i 1 = Some a)})"
  by (induction bs arbitrary: D) (auto simp: collect_defs_effect [OF assms])

text \<open>C17. Promotion puts phis exactly where SSA form needs them. \<open>collect_promotable_allocas\<close> finds the allocas
  of the function all of whose uses are loads from them and stores to them (a store of the address itself
  lets it escape). \<open>generate_phi\<close> terminates for every iteration order of the hash sets; for each of these
  allocas it puts one empty phi of the alloca's element type at the head of every block of the iterated
  dominance frontier of the blocks that store to it, records it in its two maps, changes nothing else,
  and leaves a consistent module.\<close>

theorem phis_at_iterated_frontiers:
  assumes "ir_ok s" and "\<And>i. accesses_ok s i" and "frontiers_ok ord d (dom (bbs s))"
    and "\<And>a. promotable s f a \<Longrightarrow> \<exists>ty. type_of s a = Inr (PointerTy ty)"
  shows "\<exists>st st' t. collect_promotable_allocas s f reset_function_state = Inr st \<and>
    promotable_allocas st = {a. promotable s f a} \<and> generate_phi ord d f st s = Inr (st', t) \<and>
    placed s st {(a, b). promotable s f a \<and> b \<in> IDF d (store_blocks s f a)} st' t"
proof -
  let ?st = "reset_function_state\<lparr>promotable_allocas := {a. promotable s f a}\<rparr>"
  define defs where "defs = {(a, b). b \<in> set (blocks s f) \<and> is_op O_alloca s a \<and> promotable s f a \<and>
    (\<exists>i\<in>set (instrs s b). is_op O_store s i \<and> operand_at s i 1 = Some a)}"
  have c: "collect_def_blocks s (promotable_allocas ?st) (blocks s f) {} = Inr defs"
    by (simp add: collect_def_blocks_effect [OF assms(2)] defs_def)
  have db: "def_blocks defs a = (if promotable s f a then store_blocks s f a else {})" for a
    by (auto simp: def_blocks_def defs_def store_blocks_def promotable_def image_iff)
  have sub: "def_blocks defs a \<subseteq> dom (bbs s)" for a
    using assms(1) by (auto simp: db store_blocks_def ir_ok_def blocks_ok_def)
  have fin: "finite (fst ` defs)"
  proof (rule finite_subset)
    show "fst ` defs \<subseteq> set (func_instrs s f)" by (auto simp: defs_def promotable_def)
  qed simp
  then have so: "set (set_order ord (fst ` defs)) = fst ` defs" "distinct (set_order ord (fst ` defs))"
    using assms(3) by (simp_all add: frontiers_ok_def)
  have ty: "\<exists>ty. type_of s a = Inr (PointerTy ty)" if "a \<in> set (set_order ord (fst ` defs))" for a
    using that assms(4) unfolding so(1) by (auto simp: defs_def)
  have "placed s ?st {} ?st s" by (rule placed_refl [OF assms(1)]) (simp_all add: reset_function_state_def)
  then obtain st' t where t: "place_all_phis ord d defs (set_order ord (fst ` defs)) ?st s = Inr (st', t)"
    "placed s ?st ({} \<union> {(a, b). a \<in> set (set_order ord (fst ` defs)) \<and> b \<in> IDF d (def_blocks defs a)}) st' t"
    using place_all_phis_effect [OF _ assms(3) sub so(2), of ?st "{}" ?st s] ty by fastforce
  have "a \<in> fst ` defs \<longleftrightarrow> promotable s f a \<and> store_blocks s f a \<noteq> {}" for a
    by (auto simp: defs_def store_blocks_def promotable_def image_iff)
  then have "{} \<union> {(a, b). a \<in> set (set_order ord (fst ` defs)) \<and> b \<in> IDF d (def_blocks defs a)} =
      {(a, b). promotable s f a \<and> b \<in> IDF d (store_blocks s f a)}"
    by (auto simp: so(1) db)
  with t have "placed s ?st {(a, b). promotable s f a \<and> b \<in> IDF d (store_blocks s f a)} st' t" by simp
  moreover have "generate_phi ord d f ?st s = Inr (st', t)"
    using t(1) c by (simp add: generate_phi_def bindM_def readM_def)
  ultimately show ?thesis using collect_promotable_effect [OF assms(2), of f] by auto
qed

section \<open>An example\<close>

text \<open>Block 1 allocates a slot (object 5), stores 1 in it and branches to 2 and 3; block 2 stores 5 in it;
  both join in block 4, which loads the slot and returns the value.\<close>

definition m2r_demo :: ir where
  "m2r_demo = empty_ir\<lparr>vals :=
     [0 \<mapsto> \<lparr>vty = FunctionTy int32_ty [], vname = ''f'', vuses = [], vops = [], vkind = K_func\<rparr>,
      1 \<mapsto> \<lparr>vty = LabelTy, vname = '''', vuses = [], vops = [], vkind = K_block\<rparr>,
      2 \<mapsto> \<lparr>vty = LabelTy, vname = '''', vuses = [(7, 1)], vops = [], vkind = K_block\<rparr>,
      3 \<mapsto> \<lparr>vty = LabelTy, vname = '''', vuses = [(7, 2)], vops = [], vkind = K_block\<rparr>,
      4 \<mapsto> \<lparr>vty = LabelTy, vname = '''', vuses = [(9, 0), (10, 0)], vops = [], vkind = K_block\<rparr>,
      5 \<mapsto> \<lparr>vty = PointerTy int32_ty, vname = '''', vuses = [(6, 1), (8, 1), (11, 0)], vops = [],
           vkind = K_instr O_alloca (Some 1)\<rparr>,
      6 \<mapsto> \<lparr>vty = VoidTy, vname = '''', vuses = [], vops = [Some 13, Some 5], vkind = K_instr O_store (Some 1)\<rparr>,
      7 \<mapsto> \<lparr>vty = VoidTy, vname = '''', vuses = [], vops = [Some 14, Some 2, Some 3], vkind = K_instr O_br (Some 1)\<rparr>,
      8 \<mapsto> \<lparr>vty = VoidTy, vname = '''', vuses = [], vops = [Some 15, Some 5], vkind = K_instr O_store (Some 2)\<rparr>,
      9 \<mapsto> \<lparr>vty = VoidTy, vname = '''', vuses = [], vops = [Some 4], vkind = K_instr O_br (Some 2)\<rparr>,
      10 \<mapsto> \<lparr>vty = VoidTy, vname = '''', vuses = [], vops = [Some 4], vkind = K_instr O_br (Some 3)\<rparr>,
      11 \<mapsto> \<lparr>vty = int32_ty, vname = '''', vuses = [(12, 0)], vops = [Some 5], vkind = K_instr O_load (Some 4)\<rparr>,
      12 \<mapsto> \<lparr>vty = VoidTy, vname = '''', vuses = [], vops = [Some 11], vkind = K_instr O_ret (Some 4)\<rparr>,
      13 \<mapsto> \<lparr>vty = int32_ty, vname = '''', vuses = [(6, 0)], vops = [], vkind = K_int 1\<rparr>,
      14 \<mapsto> \<lparr>vty = int1_ty, vname = '''', vuses = [(7, 0)], vops = [], vkind = K_int 1\<rparr>,
      15 \<mapsto> \<lparr>vty = int32_ty, vname = '''', vuses = [(8, 0)], vops = [], vkind = K_int 5\<rparr>],
     bbs := [1 \<mapsto> \<lparr>pre_bbs = [], succ_bbs = [2, 3], instr_list = [5, 6, 7], bparent = 0\<rparr>,
       2 \<mapsto> \<lparr>pre_bbs = [1], succ_bbs = [4], instr_list = [8, 9], bparent = 0\<rparr>,
       3 \<mapsto> \<lparr>pre_bbs = [1], succ_bbs = [4], instr_list = [10], bparent = 0\<rparr>,
       4 \<mapsto> \<lparr>pre_bbs = [2, 3], succ_bbs = [], instr_list = [11, 12], bparent = 0\<rparr>],
     funcs := [0 \<mapsto> \<lparr>basic_blocks = [1, 2, 3, 4], arguments = [], seq_cnt = 0\<rparr>],
     next_id := 16, cached_int := [1 \<mapsto> 13, 5 \<mapsto> 15], cached_bool := [True \<mapsto> 14], function_list := [0]\<rparr>"

definition demo_orders :: orders where
  "demo_orders = \<lparr>set_order = sorted_list_of_set,
     pair_order = \<lambda>S. filter (\<lambda>p. p \<in> S) (List.product [0..<20] [0..<20])\<rparr>"

text \<open>The whole pass: a phi (object 16) replaces the slot.\<close>

lemma m2r_demo_run:
  "map_sum id (\<lambda>t. (map (instrs t) [1, 2, 3, 4], ops_of t 16, ops_of t 12)) (Mem2Reg_run demo_orders m2r_demo) =
    Inr ([[7], [9], [10], [16, 12]], [Some 15, Some 2, Some 13, Some 3], [Some 16])"
  by code_simp

lemma m2r_demo_obs:
  "uses_of m2r_demo v = (if v = 2 then [(7, 1)] else if v = 3 then [(7, 2)] else if v = 4 then [(9, 0), (10, 0)]
     else if v = 5 then [(6, 1), (8, 1), (11, 0)] else if v = 11 then [(12, 0)] else if v = 13 then [(6, 0)]
     else if v = 14 then [(7, 0)] else if v = 15 then [(8, 0)] else [])"
  "ops_of m2r_demo u = (if u = 6 then [Some 13, Some 5] else if u = 7 then [Some 14, Some 2, Some 3]
     else if u = 8 then [Some 15, Some 5] else if u = 9 \<or> u = 10 then [Some 4] else if u = 11 then [Some 5]
     else if u = 12 then [Some 11] else [])"
  "kind_of m2r_demo = [0 \<mapsto> K_func, 1 \<mapsto> K_block, 2 \<mapsto> K_block, 3 \<mapsto> K_block, 4 \<mapsto> K_block, 5 \<mapsto> K_instr O_alloca (Some 1),
     6 \<mapsto> K_instr O_store (Some 1), 7 \<mapsto> K_instr O_br (Some 1), 8 \<mapsto> K_instr O_store (Some 2), 9 \<mapsto> K_instr O_br (Some 2),
     10 \<mapsto> K_instr O_br (Some 3), 11 \<mapsto> K_instr O_load (Some 4), 12 \<mapsto> K_instr O_ret (Some 4),
     13 \<mapsto> K_int 1, 14 \<mapsto> K_int 1, 15 \<mapsto> K_int 5]"
  "instrs m2r_demo b = (if b = 1 then [5, 6, 7] else if b = 2 then [8, 9] else if b = 3 then [10] else if b = 4 then [11, 12] else [])"
  "preds m2r_demo b = (if b = 2 \<or> b = 3 then [1] else if b = 4 then [2, 3] else [])"
  "succs m2r_demo b = (if b = 1 then [2, 3] else if b = 2 \<or> b = 3 then [4] else [])"
  "blocks m2r_demo f = (if f = 0 then [1, 2, 3, 4] else [])"
  "dom (vals m2r_demo) = {0, 1, 2, 3, 4, 5, 6, 7, 8, 9, 10, 11, 12, 13, 14, 15}" "dom (bbs m2r_demo) = {1, 2, 3, 4}"
  "dom (funcs m2r_demo) = {0}" "next_id m2r_demo = 16" "type_of m2r_demo 5 = Inr (PointerTy int32_ty)"
  by (auto simp: m2r_demo_def empty_ir_def uses_of_def ops_of_def kind_of_def graph_defs fun_eq_iff type_of_def)

lemma ir_ok_m2r_demo: "ir_ok m2r_demo"
proof -
  have "use_def_ok m2r_demo"
    by (rule use_def_okI) (auto simp: m2r_demo_obs operand_at_def nth_Cons' split: if_splits)
  moreover have "ids_ok m2r_demo" unfolding ids_ok_def m2r_demo_obs by simp
  moreover have "cfg_ok m2r_demo" by (simp add: cfg_ok_def m2r_demo_obs)
  moreover have "placed_ok m2r_demo"
    by (simp add: placed_ok_def listed_ok_def m2r_demo_obs is_terminator_op_def)
  moreover have "blocks_ok m2r_demo"
    by (auto simp: blocks_ok_def m2r_demo_obs) (auto simp: m2r_demo_def)
  ultimately show ?thesis by (simp add: ir_ok_def)
qed

definition demo_dominators :: dominators where
  "demo_dominators = \<lparr>reverse_post_order = [1, 3, 2, 4], post_order_id = [4 \<mapsto> 0, 2 \<mapsto> 1, 3 \<mapsto> 2, 1 \<mapsto> 3],
     idom = [1 \<mapsto> Some 1, 2 \<mapsto> Some 1, 3 \<mapsto> Some 1, 4 \<mapsto> Some 1],
     dom_frontier = [Some 1 \<mapsto> {}, Some 2 \<mapsto> {4}, Some 3 \<mapsto> {4}, Some 4 \<mapsto> {}],
     dom_tree_succ_blocks = [Some 1 \<mapsto> {2, 3, 4}, Some 2 \<mapsto> {}, Some 3 \<mapsto> {}, Some 4 \<mapsto> {}]\<rparr>"

theorem phis_at_iterated_frontiers_witness:
  "\<exists>st st' t. collect_promotable_allocas m2r_demo 0 reset_function_state = Inr st \<and>
    generate_phi demo_orders demo_dominators 0 st m2r_demo = Inr (st', t) \<and> placed m2r_demo st {(5, 4)} st' t"
proof -
  have acc: "accesses_ok m2r_demo i" for i by (auto simp: accesses_ok_def m2r_demo_obs split: if_splits)
  have df: "DF demo_dominators b = (if b = 2 \<or> b = 3 then {4} else {})" for b
    by (simp add: DF_def entry_set_def demo_dominators_def)
  have fo: "frontiers_ok demo_orders demo_dominators (dom (bbs m2r_demo))"
    unfolding frontiers_ok_def df m2r_demo_obs by (auto simp: demo_dominators_def demo_orders_def)
  have op: "operand_at m2r_demo 6 (Suc 0) = Some 5" "operand_at m2r_demo 8 (Suc 0) = Some 5" "operand_at m2r_demo 11 0 = Some 5"
    by (simp_all add: operand_at_def m2r_demo_obs)
  have pr: "promotable m2r_demo 0 a \<longleftrightarrow> a = 5" for a
    by (auto simp: promotable_def func_instrs_def is_op_iff m2r_demo_obs op split: if_splits)
  have sb: "store_blocks m2r_demo 0 5 = {1, 2}"
    by (auto simp: store_blocks_def is_op_iff m2r_demo_obs operand_at_def split: if_splits)
  have "reach (DF demo_dominators) {1, 2} = {1, 2, 4}"
  proof
    show "reach (DF demo_dominators) {1, 2} \<subseteq> {1, 2, 4}" by (rule reach_least) (auto simp: df split: if_splits)
    have "{1, 2} \<subseteq> reach (DF demo_dominators) {1, 2}" by (rule reach_superset)
    moreover from this have "2 \<in> reach (DF demo_dominators) {1, 2}" by blast
    then have "4 \<in> reach (DF demo_dominators) {1, 2}" by (rule reach_closed) (simp add: df)
    ultimately show "{1, 2, 4} \<subseteq> reach (DF demo_dominators) {1, 2}" by blast
  qed
  then have "IDF demo_dominators {1, 2} = {4}" by (simp add: IDF_def df)
  then have "promotable m2r_demo 0 a \<and> b \<in> IDF demo_dominators (store_blocks m2r_demo 0 a) \<longleftrightarrow> a = 5 \<and> b = 4" for a b
    using sb unfolding pr by (metis singleton_iff)
  then have R: "{(a, b). promotable m2r_demo 0 a \<and> b \<in> IDF demo_dominators (store_blocks m2r_demo 0 a)} = {(5, 4)}"
    by auto
  have ty: "\<exists>ty. type_of m2r_demo a = Inr (PointerTy ty)" if "promotable m2r_demo 0 a" for a
    using that m2r_demo_obs(12) by (simp only: pr) blast
  show ?thesis using phis_at_iterated_frontiers [OF ir_ok_m2r_demo acc fo ty, of 0] unfolding R by blast
qed

end
