(* ===== verification/LoopInfo.thy ===== *)
theory LoopInfo
  imports Dominators
begin

text \<open>
  Loops (\<open>include/passes/LoopInfo.hpp\<close>, \<open>src/passes/LoopInfo.cpp\<close>): the control flow graph of a
  function, its strongly connected components by Tarjan's algorithm, and the loops, from the outer
  ones to the inner ones: when the header of a loop has been found it is taken out of the graph and
  the components of the rest are searched again. A \<open>CFGNode\<close> is named by its block. The hash sets of
  pointers are walked in an unspecified order: \<open>loop_orders\<close>.
\<close>

record loop_orders =
  node_order :: "vid set \<Rightarrow> vid list"
  group_order :: "vid set list \<Rightarrow> vid set list"
  loop_order :: "nat set \<Rightarrow> nat list"

text \<open>A node's neighbours; its \<open>index\<close> and \<open>low_link\<close> are in the state of the search.\<close>

record cfg_node =
  nd_succs :: "vid set"
  nd_prevs :: "vid set"

type_synonym cfg = "vid \<rightharpoonup> cfg_node"

section \<open>The graph\<close>

fun find_nodes :: "vid set \<Rightarrow> string \<Rightarrow> vid list \<Rightarrow> vid set res" where
  "find_nodes known msg [] = Inr {}"
| "find_nodes known msg (b # bs) =
     bindR (guardR (b \<in> known) (Assert_fail msg)) (\<lambda>_.
     bindR (find_nodes known msg bs) (\<lambda>A. Inr (insert b A)))"

fun build_edges :: "'z ir_scheme \<Rightarrow> vid set \<Rightarrow> vid list \<Rightarrow> cfg \<Rightarrow> cfg res" where
  "build_edges s known [] gr = Inr gr"
| "build_edges s known (b # bs) gr =
     bindR (deref (bbs s) b) (\<lambda>r.
     bindR (guardR (b \<in> known) (Assert_fail ''BasicBlock not found in map'')) (\<lambda>_.
     bindR (find_nodes known ''Predecessor not found in map'' (pre_bbs r)) (\<lambda>ps.
     bindR (find_nodes known ''Successor not found in map'' (succ_bbs r)) (\<lambda>ss.
     build_edges s known bs (gr(b \<mapsto> \<lparr>nd_succs = ss, nd_prevs = ps\<rparr>))))))"

definition build_cfg :: "'z ir_scheme \<Rightarrow> vid \<Rightarrow> cfg res" where
  "build_cfg s f = build_edges s (set (blocks s f)) (blocks s f) Map.empty"

section \<open>Strongly connected components\<close>

record tarjan =
  tj_index :: "vid \<rightharpoonup> nat"
  tj_low :: "vid \<rightharpoonup> nat"
  index_count :: nat
  tj_stack :: "vid list"
  tj_groups :: "vid set list"

definition start_search :: tarjan where
  "start_search = \<lparr>tj_index = Map.empty, tj_low = Map.empty, index_count = 0, tj_stack = [], tj_groups = []\<rparr>"

text \<open>Dereferencing an empty \<open>std::optional\<close>.\<close>

definition optional_value :: "('k \<rightharpoonup> 'v) \<Rightarrow> 'k \<Rightarrow> 'v res" where
  "optional_value m k = (case m k of None \<Rightarrow> Inl (UB ''empty optional'') | Some v \<Rightarrow> Inr v)"

definition enter_node :: "vid \<Rightarrow> tarjan \<Rightarrow> tarjan" where
  "enter_node v st = st\<lparr>tj_index := (tj_index st)(v \<mapsto> index_count st), tj_low := (tj_low st)(v \<mapsto> index_count st),
     index_count := Suc (index_count st), tj_stack := v # tj_stack st\<rparr>"

definition lower_link :: "vid \<Rightarrow> nat \<Rightarrow> tarjan \<Rightarrow> tarjan res" where
  "lower_link v l st =
     bindR (optional_value (tj_low st) v) (\<lambda>a. Inr (st\<lparr>tj_low := (tj_low st)(v \<mapsto> min a l)\<rparr>))"

text \<open>The loop that pops the stack down to \<open>v\<close>; the top of the stack is the head of the list.\<close>

fun pop_group :: "vid \<Rightarrow> vid list \<Rightarrow> vid set \<Rightarrow> vid set \<times> vid list" where
  "pop_group v [] grp = (grp, [])"
| "pop_group v (m # stk) grp =
     (if m = v then (insert m grp, stk) else pop_group v stk (insert m grp))"

definition close_node :: "vid \<Rightarrow> tarjan \<Rightarrow> tarjan res" where
  "close_node v st =
     bindR (optional_value (tj_index st) v) (\<lambda>i.
     bindR (optional_value (tj_low st) v) (\<lambda>l.
     if i = l then
       (let (grp, stk) = pop_group v (tj_stack st) {} in
        Inr (st\<lparr>tj_stack := stk, tj_groups := tj_groups st @ [grp]\<rparr>))
     else Inr st))"

text \<open>The end of the recursive call on a successor \<open>w\<close> of \<open>v\<close> and the update of \<open>v\<close>'s link.\<close>

definition return_to :: "vid \<Rightarrow> vid \<Rightarrow> tarjan \<Rightarrow> tarjan res" where
  "return_to v w st =
     bindR (close_node w st) (\<lambda>st1.
     bindR (optional_value (tj_low st1) w) (\<lambda>l. lower_link v l st1))"

text \<open>The loop of \<open>traverse\<close> over the successors of \<open>v\<close>; a successor without index is entered, its
  own successors are scanned by the same loop, and it is closed.\<close>

partial_function (option) scan_succs ::
  "cfg \<Rightarrow> (vid set \<Rightarrow> vid list) \<Rightarrow> vid set \<Rightarrow> vid \<Rightarrow> vid list \<Rightarrow> tarjan \<Rightarrow> tarjan res option" where
  "scan_succs gr ord nodes v ws st = (case ws of
     [] \<Rightarrow> Some (Inr st)
   | w # rest \<Rightarrow>
       if w \<notin> nodes then scan_succs gr ord nodes v rest st
       else
         (case tj_index st w of
            None \<Rightarrow>
              (case gr w of
                 None \<Rightarrow> Some (Inl Dangling)
               | Some nd \<Rightarrow>
                   Option.bind (scan_succs gr ord nodes w (ord (nd_succs nd)) (enter_node w st)) (\<lambda>x.
                   case bindR x (return_to v w) of
                     Inl e \<Rightarrow> Some (Inl e)
                   | Inr st1 \<Rightarrow> scan_succs gr ord nodes v rest st1))
          | Some i \<Rightarrow>
              if w \<in> set (tj_stack st) then
                (case lower_link v i st of
                   Inl e \<Rightarrow> Some (Inl e)
                 | Inr st1 \<Rightarrow> scan_succs gr ord nodes v rest st1)
              else scan_succs gr ord nodes v rest st))"

declare scan_succs.simps [code]

definition traverse :: "cfg \<Rightarrow> (vid set \<Rightarrow> vid list) \<Rightarrow> vid set \<Rightarrow> vid \<Rightarrow> tarjan \<Rightarrow> tarjan res" where
  "traverse gr ord nodes v st =
     bindR (deref gr v) (\<lambda>nd.
     bindR (outcome (scan_succs gr ord nodes v (ord (nd_succs nd)) (enter_node v st))) (close_node v))"

fun traverse_all :: "cfg \<Rightarrow> (vid set \<Rightarrow> vid list) \<Rightarrow> vid set \<Rightarrow> vid list \<Rightarrow> tarjan \<Rightarrow> tarjan res" where
  "traverse_all gr ord nodes [] st = Inr st"
| "traverse_all gr ord nodes (v # vs) st =
     bindR (if tj_index st v = None then traverse gr ord nodes v st else Inr st)
       (traverse_all gr ord nodes vs)"

definition find_scc :: "cfg \<Rightarrow> (vid set \<Rightarrow> vid list) \<Rightarrow> vid set \<Rightarrow> vid set list res" where
  "find_scc gr ord nodes =
     bindR (traverse_all gr ord nodes (ord nodes) start_search) (\<lambda>st. Inr (tj_groups st))"

section \<open>Loops\<close>

definition is_loop :: "cfg \<Rightarrow> (vid set \<Rightarrow> vid list) \<Rightarrow> vid set \<Rightarrow> bool res" where
  "is_loop gr ord scc =
     (if scc = {} then Inr False
      else if card scc > 1 then Inr True
      else
        (let v = hd (ord scc) in bindR (deref gr v) (\<lambda>nd. Inr (v \<in> nd_succs nd))))"

text \<open>A node is a candidate for the header when some predecessor is the entry of the function or
  lies outside the component.\<close>

definition entered :: "cfg \<Rightarrow> vid \<Rightarrow> vid set \<Rightarrow> vid \<Rightarrow> bool" where
  "entered gr entry scc v = (case gr v of
     None \<Rightarrow> False
   | Some nd \<Rightarrow> \<exists>p\<in>nd_prevs nd. p = entry \<or> p \<notin> scc)"

definition find_loop_header :: "cfg \<Rightarrow> (vid set \<Rightarrow> vid list) \<Rightarrow> vid \<Rightarrow> vid set \<Rightarrow> vid option" where
  "find_loop_header gr ord entry scc =
     (let candidates = Set.filter (entered gr entry scc) scc in
      if card candidates \<noteq> 1 then None else Some (hd (ord candidates)))"

text \<open>The fields of the analysis. A loop is a block set behind a pointer: pointers are numbered in
  the order of their allocation.\<close>

record loop_info =
  loop_set :: "nat set"
  loop_blocks :: "nat \<rightharpoonup> vid set"
  func2loop :: "vid \<rightharpoonup> nat set"
  base2loop :: "vid \<rightharpoonup> nat"
  loop2base :: "nat \<rightharpoonup> vid"
  bb2base :: "vid \<rightharpoonup> vid"
  next_loop :: nat

definition empty_loop_info :: loop_info where
  "empty_loop_info = \<lparr>loop_set = {}, loop_blocks = Map.empty, func2loop = Map.empty, base2loop = Map.empty,
     loop2base = Map.empty, bb2base = Map.empty, next_loop = 0\<rparr>"

definition add_loop :: "(vid set \<Rightarrow> vid list) \<Rightarrow> vid \<Rightarrow> vid set \<Rightarrow> vid \<Rightarrow> loop_info \<Rightarrow> loop_info" where
  "add_loop ord f scc header li =
     (let l = next_loop li in
      li\<lparr>loop_set := insert l (loop_set li), loop_blocks := (loop_blocks li)(l \<mapsto> scc),
        func2loop := (func2loop li)(f \<mapsto> insert l (entry_set (func2loop li) f)),
        loop2base := (loop2base li)(l \<mapsto> header), base2loop := (base2loop li)(header \<mapsto> l),
        bb2base := fold (\<lambda>b m. m(b \<mapsto> header)) (ord scc) (bb2base li), next_loop := Suc l\<rparr>)"

text \<open>One component: either all of its nodes are removed, or it is a loop and its header is.\<close>

definition visit_group :: "cfg \<Rightarrow> (vid set \<Rightarrow> vid list) \<Rightarrow> vid \<Rightarrow> vid \<Rightarrow> vid set \<Rightarrow>
    vid set \<times> loop_info \<Rightarrow> (vid set \<times> loop_info) res" where
  "visit_group gr ord f entry scc = (\<lambda>(to_remove, li).
     bindR (is_loop gr ord scc) (\<lambda>lp.
     case (if lp then find_loop_header gr ord entry scc else None) of
       None \<Rightarrow> Inr (to_remove \<union> scc, li)
     | Some h \<Rightarrow> Inr (insert h to_remove, add_loop ord f scc h li)))"

fun visit_groups :: "cfg \<Rightarrow> (vid set \<Rightarrow> vid list) \<Rightarrow> vid \<Rightarrow> vid \<Rightarrow> vid set list \<Rightarrow>
    vid set \<times> loop_info \<Rightarrow> (vid set \<times> loop_info) res" where
  "visit_groups gr ord f entry [] st = Inr st"
| "visit_groups gr ord f entry (g # gs) st =
     bindR (visit_group gr ord f entry g st) (visit_groups gr ord f entry gs)"

text \<open>The body of \<open>while (true)\<close>; the first component of the state says that there was no \<open>break\<close>.\<close>

definition loop_round :: "cfg \<Rightarrow> loop_orders \<Rightarrow> vid \<Rightarrow> vid \<Rightarrow>
    bool \<times> vid set \<times> loop_info \<Rightarrow> (bool \<times> vid set \<times> loop_info) res" where
  "loop_round gr ords f entry = (\<lambda>(_, remaining, li).
     bindR (find_scc gr (node_order ords) remaining) (\<lambda>sccs.
     if sccs = [] then Inr (False, remaining, li)
     else
       bindR (visit_groups gr (node_order ords) f entry (group_order ords sccs) ({}, li)) (\<lambda>(to_remove, li1).
       Inr (True, remaining - to_remove, li1))))"

definition loops_of_function :: "loop_orders \<Rightarrow> 'z ir_scheme \<Rightarrow> vid \<Rightarrow> loop_info \<Rightarrow> loop_info res" where
  "loops_of_function ords s f li =
     bindR (build_cfg s f) (\<lambda>gr.
     bindR (entry_block s f) (\<lambda>entry.
     bindR (outcome (whileR fst (loop_round gr ords f entry) (True, set (blocks s f), li))) (\<lambda>(_, _, li1).
     Inr li1)))"

fun loops_of_functions :: "loop_orders \<Rightarrow> 'z ir_scheme \<Rightarrow> vid list \<Rightarrow> loop_info \<Rightarrow> loop_info res" where
  "loops_of_functions ords s [] li = Inr li"
| "loops_of_functions ords s (f # fs) li =
     bindR (is_declaration s f) (\<lambda>decl.
     bindR (if decl then Inr li else loops_of_function ords s f li) (loops_of_functions ords s fs))"

definition LoopInfo_run :: "loop_orders \<Rightarrow> 'z ir_scheme \<Rightarrow> loop_info res" where
  "LoopInfo_run ords s = loops_of_functions ords s (function_list s) empty_loop_info"

section \<open>Queries\<close>

definition get_base :: "loop_info \<Rightarrow> nat \<Rightarrow> vid option" where
  "get_base li l = loop2base li l"

text \<open>The innermost loop that contains \<open>b\<close>; null when there is none.\<close>

definition get_innermost :: "loop_info \<Rightarrow> vid \<Rightarrow> nat option" where
  "get_innermost li b = (case bb2base li b of None \<Rightarrow> None | Some h \<Rightarrow> base2loop li h)"

fun parent_from :: "loop_info \<Rightarrow> vid set \<Rightarrow> vid \<Rightarrow> vid list \<Rightarrow> nat option res" where
  "parent_from li body base [] = Inr None"
| "parent_from li body base (p # ps) =
     (if p \<in> body then parent_from li body base ps
      else (case get_innermost li p of
         None \<Rightarrow> Inr None
       | Some l \<Rightarrow> bindR (deref (loop_blocks li) l) (\<lambda>blks. Inr (if base \<in> blks then Some l else None))))"

definition get_parent :: "loop_info \<Rightarrow> 'z ir_scheme \<Rightarrow> nat \<Rightarrow> nat option res" where
  "get_parent li s l = (case loop2base li l of
     None \<Rightarrow> Inl Null_deref
   | Some base \<Rightarrow>
       bindR (deref (bbs s) base) (\<lambda>r.
       bindR (deref (loop_blocks li) l) (\<lambda>body. parent_from li body base (pre_bbs r))))"

definition get_loops :: "loop_info \<Rightarrow> vid \<Rightarrow> nat set" where
  "get_loops li f = entry_set (func2loop li) f"

end
