(* ===== verification/LoopInvHoist.thy ===== *)
theory LoopInvHoist
  imports LoopInfo DeadCode
begin

text \<open>
  Hoisting of loop-invariant instructions (\<open>src/passes/LoopInvHoist.cpp\<close>): what may be moved, the
  invariant instructions of a loop, their topological order, and the walk over the loop tree from
  the inner loops to the outer ones. The orders of the hash sets are those of \<open>LoopInfo\<close>.
\<close>

section \<open>Invariant instructions\<close>

definition is_binary :: "'z ir_scheme \<Rightarrow> opid \<Rightarrow> vid \<Rightarrow> bool" where
  "is_binary s p v \<longleftrightarrow> p \<in> {O_add, O_sub, O_mul, O_sdiv, O_fadd, O_fsub, O_fmul, O_fdiv} \<and> length (ops_of s v) = 2"

definition is_movable :: "'z ir_scheme \<Rightarrow> opid \<Rightarrow> vid \<Rightarrow> bool" where
  "is_movable s p v \<longleftrightarrow> is_binary s p v \<or> p \<in> {O_sitofp, O_fptosi, O_zext, O_ge, O_gt, O_le, O_lt, O_eq, O_ne,
     O_fge, O_fgt, O_fle, O_flt, O_feq, O_fne, O_getelementptr}"

text \<open>What the class and the place of a value say; \<open>None\<close> when the operands decide.\<close>

definition invariant_by_itself :: "'z ir_scheme \<Rightarrow> vid set \<Rightarrow> vid set \<Rightarrow> vid \<Rightarrow> bool option res" where
  "invariant_by_itself s loop processed v = (case kind_of s v of
     None \<Rightarrow> Inl Dangling
   | Some (K_instr p b) \<Rightarrow> Inr (
       if b \<notin> Some ` loop then Some True
       else if b \<in> Some ` processed then Some False
       else if \<not> is_movable s p v then Some False
       else None)
   | Some _ \<Rightarrow> Inr (Some True))"

text \<open>\<open>all_of\<close> over a list of operands, with the cache; a value that is not decided by itself is
  decided by the same loop over its operands.\<close>

partial_function (option) all_invariant ::
  "'z ir_scheme \<Rightarrow> vid set \<Rightarrow> vid set \<Rightarrow> vid option list \<Rightarrow> (vid \<rightharpoonup> bool) \<Rightarrow> (bool \<times> (vid \<rightharpoonup> bool)) res option" where
  "all_invariant s loop processed vs cache = (case vs of
     [] \<Rightarrow> Some (Inr (True, cache))
   | v # rest \<Rightarrow>
       (case v of
          None \<Rightarrow> all_invariant s loop processed rest cache
        | Some x \<Rightarrow>
            (case cache x of
               Some b \<Rightarrow> if b then all_invariant s loop processed rest cache else Some (Inr (False, cache))
             | None \<Rightarrow>
                 (case invariant_by_itself s loop processed x of
                    Inl e \<Rightarrow> Some (Inl e)
                  | Inr (Some b) \<Rightarrow>
                      if b then all_invariant s loop processed rest (cache(x \<mapsto> True))
                      else Some (Inr (False, cache(x \<mapsto> False)))
                  | Inr None \<Rightarrow>
                      Option.bind (all_invariant s loop processed (ops_of s x) cache) (\<lambda>r. case r of
                        Inl e \<Rightarrow> Some (Inl e)
                      | Inr (b, cache1) \<Rightarrow>
                          if b then all_invariant s loop processed rest (cache1(x \<mapsto> True))
                          else Some (Inr (False, cache1(x \<mapsto> False))))))))"

declare all_invariant.simps [code]

definition is_loop_invariant :: "'z ir_scheme \<Rightarrow> vid set \<Rightarrow> vid set \<Rightarrow> vid \<Rightarrow> (vid \<rightharpoonup> bool) \<Rightarrow> (bool \<times> (vid \<rightharpoonup> bool)) res" where
  "is_loop_invariant s loop processed v cache = outcome (all_invariant s loop processed [Some v] cache)"

text \<open>\<open>SetVector::insert\<close>.\<close>

definition sv_insert :: "'a \<Rightarrow> 'a list \<Rightarrow> 'a list" where
  "sv_insert x xs = (if x \<in> set xs then xs else xs @ [x])"

fun collect_from_instrs :: "'z ir_scheme \<Rightarrow> vid set \<Rightarrow> vid set \<Rightarrow> vid list \<Rightarrow> vid list \<times> (vid \<rightharpoonup> bool) \<Rightarrow>
    (vid list \<times> (vid \<rightharpoonup> bool)) res" where
  "collect_from_instrs s loop processed [] st = Inr st"
| "collect_from_instrs s loop processed (i # is) (acc, cache) =
     bindR (is_loop_invariant s loop processed i cache) (\<lambda>(b, cache1).
     collect_from_instrs s loop processed is (if b then sv_insert i acc else acc, cache1))"

fun collect_from_blocks :: "'z ir_scheme \<Rightarrow> vid set \<Rightarrow> vid set \<Rightarrow> vid list \<Rightarrow> vid list \<times> (vid \<rightharpoonup> bool) \<Rightarrow>
    (vid list \<times> (vid \<rightharpoonup> bool)) res" where
  "collect_from_blocks s loop processed [] st = Inr st"
| "collect_from_blocks s loop processed (b # bs) st =
     bindR (if b \<in> processed then Inr st
            else bindR (deref (bbs s) b) (\<lambda>r. collect_from_instrs s loop processed (instr_list r) st))
       (collect_from_blocks s loop processed bs)"

definition collect_loop_invariant_instructions :: "loop_orders \<Rightarrow> 'z ir_scheme \<Rightarrow> vid set \<Rightarrow> vid set \<Rightarrow> vid list res" where
  "collect_loop_invariant_instructions ords s loop processed =
     bindR (collect_from_blocks s loop processed (node_order ords loop) ([], Map.empty)) (\<lambda>(acc, _). Inr acc)"

section \<open>Topological order\<close>

definition in_set_operand :: "'z ir_scheme \<Rightarrow> vid list \<Rightarrow> vid option \<Rightarrow> bool" where
  "in_set_operand s is v = (case v of None \<Rightarrow> False | Some x \<Rightarrow> is_instr s x \<and> x \<in> set is)"

text \<open>The counters are \<open>unsigned\<close>.\<close>

definition count_deps :: "'z ir_scheme \<Rightarrow> vid list \<Rightarrow> vid \<Rightarrow> 32 word" where
  "count_deps s is i = fold (\<lambda>v n. if in_set_operand s is v then n + 1 else n) (ops_of s i) 0"

definition init_deps :: "'z ir_scheme \<Rightarrow> vid list \<Rightarrow> vid \<rightharpoonup> 32 word" where
  "init_deps s is = fold (\<lambda>i m. m(i \<mapsto> count_deps s is i)) is Map.empty"

record topo =
  remaining_deps :: "vid \<rightharpoonup> 32 word"
  topo_worklist :: "vid list"
  sorted_order :: "vid list"

text \<open>One use of the instruction that was taken: its user has one dependency less.\<close>

definition release :: "'z ir_scheme \<Rightarrow> use_entry \<Rightarrow> topo \<Rightarrow> topo" where
  "release s u st = (case remaining_deps st (fst u) of
     None \<Rightarrow> st
   | Some n \<Rightarrow>
       if \<not> is_instr s (fst u) then st
       else st\<lparr>remaining_deps := (remaining_deps st)(fst u \<mapsto> n - 1),
         topo_worklist := topo_worklist st @ (if n - 1 = 0 then [fst u] else [])\<rparr>)"

definition topo_step :: "'z ir_scheme \<Rightarrow> topo \<Rightarrow> topo res" where
  "topo_step s st = (case topo_worklist st of
     [] \<Rightarrow> Inl (UB ''front'')
   | i # rest \<Rightarrow>
       bindR (deref (vals s) i) (\<lambda>r.
       Inr (fold (release s) (vuses r) (st\<lparr>topo_worklist := rest, sorted_order := sorted_order st @ [i]\<rparr>))))"

definition compute_topological_order :: "'z ir_scheme \<Rightarrow> vid list \<Rightarrow> vid list option res" where
  "compute_topological_order s is =
     (let deps = init_deps s is in
      bindR (outcome (whileR (\<lambda>st. topo_worklist st \<noteq> []) (topo_step s)
        \<lparr>remaining_deps = deps, topo_worklist = filter (\<lambda>i. deps i = Some 0) is, sorted_order = []\<rparr>)) (\<lambda>st.
      Inr (if length (sorted_order st) = length is then Some (sorted_order st) else None)))"

section \<open>Moving\<close>

fun move_instrs :: "vid \<Rightarrow> vid list \<Rightarrow> 'z ir_scheme \<Rightarrow> 'z ir_scheme res" where
  "move_instrs preheader [] s = Inr s"
| "move_instrs preheader (i # is) s =
     (case kind_of s i of
        Some (K_instr p (Some source)) \<Rightarrow>
          bindR (remove_instr source i s) (\<lambda>s1.
          bindR (set_parent i (Some preheader) s1) (\<lambda>s2.
          bindR (add_instruction preheader i s2) (move_instrs preheader is)))
      | _ \<Rightarrow> Inl Null_deref)"

definition outside_preds :: "'z ir_scheme \<Rightarrow> vid set \<Rightarrow> vid \<Rightarrow> vid list res" where
  "outside_preds s loop header = bindR (deref (bbs s) header) (\<lambda>r. Inr (filter (\<lambda>p. p \<notin> loop) (pre_bbs r)))"

definition hoist_from_current_loop :: "loop_orders \<Rightarrow> vid set \<Rightarrow> vid \<Rightarrow> vid set \<Rightarrow> 'z ir_scheme \<Rightarrow> 'z ir_scheme res" where
  "hoist_from_current_loop ords loop header processed s =
     bindR (outside_preds s loop header) (\<lambda>ps. case ps of
       [preheader] \<Rightarrow>
         bindR (deref (bbs s) preheader) (\<lambda>r.
         if length (succ_bbs r) \<noteq> 1 then Inr s
         else
           bindR (collect_loop_invariant_instructions ords s loop processed) (\<lambda>inv.
           bindR (compute_topological_order s inv) (\<lambda>order. case order of
             None \<Rightarrow> Inr s
           | Some [] \<Rightarrow> Inr s
           | Some (i # is) \<Rightarrow>
               bindR (get_terminator s preheader) (\<lambda>terminator.
               bindR (remove_instr preheader terminator s) (\<lambda>s1.
               bindR (move_instrs preheader (i # is) s1) (add_instruction preheader terminator))))))
     | _ \<Rightarrow> Inr s)"

text \<open>\<open>hoist_invariants\<close> on each of a list of loops: the subloops first, then the loop.\<close>

partial_function (option) hoist_loops ::
  "loop_orders \<Rightarrow> (nat \<rightharpoonup> nat set) \<Rightarrow> loop_info \<Rightarrow> nat list \<Rightarrow> vid set \<Rightarrow> 'z ir_scheme \<Rightarrow> (vid set \<times> 'z ir_scheme) res option" where
  "hoist_loops ords tree li ls processed s = (case ls of
     [] \<Rightarrow> Some (Inr (processed, s))
   | l # rest \<Rightarrow>
       Option.bind (hoist_loops ords tree li (loop_order ords (entry_set tree l)) processed s) (\<lambda>r.
       case bindR r (\<lambda>(processed1, s1).
           bindR (deref (loop_blocks li) l) (\<lambda>body.
           bindR (case get_base li l of
                    None \<Rightarrow> Inr s1
                  | Some base \<Rightarrow> hoist_from_current_loop ords body base processed1 s1) (\<lambda>s2.
           Inr (processed1 \<union> body, s2)))) of
         Inl e \<Rightarrow> Some (Inl e)
       | Inr (processed2, s2) \<Rightarrow> hoist_loops ords tree li rest processed2 s2))"

declare hoist_loops.simps [code]

definition hoist_invariants :: "loop_orders \<Rightarrow> (nat \<rightharpoonup> nat set) \<Rightarrow> loop_info \<Rightarrow> nat \<Rightarrow> vid set \<Rightarrow> 'z ir_scheme \<Rightarrow>
    (vid set \<times> 'z ir_scheme) res" where
  "hoist_invariants ords tree li l processed s = outcome (hoist_loops ords tree li [l] processed s)"

section \<open>The pass\<close>

fun build_loop_tree :: "loop_info \<Rightarrow> 'z ir_scheme \<Rightarrow> nat list \<Rightarrow> (nat \<rightharpoonup> nat set) \<times> nat list \<Rightarrow> ((nat \<rightharpoonup> nat set) \<times> nat list) res" where
  "build_loop_tree li s [] st = Inr st"
| "build_loop_tree li s (l # ls) (tree, roots) =
     bindR (get_parent li s l) (\<lambda>p. build_loop_tree li s ls (case p of
       None \<Rightarrow> (tree, roots @ [l])
     | Some q \<Rightarrow> (tree(q \<mapsto> insert l (entry_set tree q)), roots)))"

fun hoist_roots :: "loop_orders \<Rightarrow> (nat \<rightharpoonup> nat set) \<Rightarrow> loop_info \<Rightarrow> nat list \<Rightarrow> 'z ir_scheme \<Rightarrow> 'z ir_scheme res" where
  "hoist_roots ords tree li [] s = Inr s"
| "hoist_roots ords tree li (l # ls) s =
     bindR (hoist_invariants ords tree li l {} s) (\<lambda>(_, s1). hoist_roots ords tree li ls s1)"

definition LoopInvHoist_run :: "loop_orders \<Rightarrow> 'z ir_scheme \<Rightarrow> 'z ir_scheme res" where
  "LoopInvHoist_run ords s =
     bindR (LoopInfo_run ords s) (\<lambda>li.
     bindR (build_loop_tree li s (loop_order ords (loop_set li)) (Map.empty, [])) (\<lambda>(tree, roots).
     hoist_roots ords tree li roots s))"

end
