(* ===== verification/TopoOrder.thy ===== *)
theory TopoOrder
  imports LoopInvHoist
begin

text \<open>
  \<open>compute_topological_order\<close> of the hoisting pass: it ends, an answer lists the instructions with
  operands before users, and it gives up only when the operands among the instructions form a cycle.
\<close>

section \<open>Counting operands\<close>

text \<open>The slots of \<open>u\<close> that hold an element of \<open>A\<close>.\<close>

definition slots :: "'z ir_scheme \<Rightarrow> vid set \<Rightarrow> vid \<Rightarrow> nat set" where
  "slots s A u = {j. \<exists>v\<in>A. operand_at s u j = Some v}"

lemma slots_bound: "slots s A u \<subseteq> {..<length (ops_of s u)}"
  by (auto simp: slots_def operand_at_def split: if_splits)

lemma finite_slots [simp]: "finite (slots s A u)"
  by (rule finite_subset [OF slots_bound]) simp

lemma card_slots_le: "card (slots s A u) \<le> length (ops_of s u)"
  using card_mono [OF _ slots_bound [of s A u]] by simp

lemma slots_insert: "slots s (insert c A) u = slots s A u \<union> slots s {c} u"
  by (auto simp: slots_def)

lemma card_slots_remove:
  assumes "c \<in> A"
  shows "card (slots s A u) = card (slots s (A - {c}) u) + card (slots s {c} u)"
proof -
  have "slots s A u = slots s (A - {c}) u \<union> slots s {c} u"
    using slots_insert [of s c "A - {c}" u] assms by (simp add: insert_absorb)
  moreover have "slots s (A - {c}) u \<inter> slots s {c} u = {}" by (auto simp: slots_def)
  ultimately show ?thesis by (simp add: card_Un_disjoint)
qed

lemma slots_empty_iff: "card (slots s A u) = 0 \<longleftrightarrow> (\<forall>v\<in>A. \<forall>j. operand_at s u j \<noteq> Some v)"
  unfolding card_0_eq [OF finite_slots] by (auto simp: slots_def)

text \<open>The uses of \<open>c\<close> by \<open>u\<close>.\<close>

lemma card_slots_uses:
  assumes "use_def_ok s"
  shows "card (slots s {c} u) = length (filter (\<lambda>x. fst x = u) (uses_of s c))"
proof -
  have d: "distinct (filter (\<lambda>x. fst x = u) (uses_of s c))" using use_def_okD(1) [OF assms] by simp
  have "set (filter (\<lambda>x. fst x = u) (uses_of s c)) = Pair u ` slots s {c} u"
    using use_def_okD(2) [OF assms] by (force simp: slots_def)
  then have "card (set (filter (\<lambda>x. fst x = u) (uses_of s c))) = card (slots s {c} u)"
    by (simp add: card_image inj_on_def)
  then show ?thesis using distinct_card [OF d] by simp
qed

lemma count_fold: "fold (\<lambda>v n. if P v then n + 1 else n) vs n = n + word_of_nat (length (filter P vs))"
  by (induction vs arbitrary: n) (simp_all add: add.assoc)

lemma count_deps_slots:
  assumes "\<forall>i\<in>set is. is_instr s i"
  shows "count_deps s is u = word_of_nat (card (slots s (set is) u))"
proof -
  have "slots s (set is) u = {j. j < length (ops_of s u) \<and> in_set_operand s is (ops_of s u ! j)}"
    using assms by (auto simp: slots_def operand_at_def in_set_operand_def split: option.splits if_splits)
  then show ?thesis using count_fold [of "in_set_operand s is" "ops_of s u" 0] by (simp add: count_deps_def length_filter_conv_card)
qed

lemma u32_zero:
  assumes "n < 2 ^ 32"
  shows "(word_of_nat n :: 32 word) = 0 \<longleftrightarrow> n = 0"
proof -
  have "unat (word_of_nat n :: 32 word) = n" using assms by (simp add: unsigned_of_nat take_bit_nat_eq_self_iff)
  then show ?thesis by (metis unat_0 unat_eq_0)
qed

lemma init_deps_at: "init_deps s is u = (if u \<in> set is then Some (count_deps s is u) else None)"
proof -
  have "fold (\<lambda>i m. m(i \<mapsto> f i)) xs m u = (if u \<in> set xs then Some (f u) else m u)" for f :: "vid \<Rightarrow> 32 word" and xs m
    by (induction xs arbitrary: m) auto
  then show ?thesis by (simp add: init_deps_def)
qed

section \<open>The invariant\<close>

text \<open>Operands among \<open>A\<close> stand before their users.\<close>

definition operands_first :: "'z ir_scheme \<Rightarrow> vid set \<Rightarrow> vid list \<Rightarrow> bool" where
  "operands_first s A xs \<longleftrightarrow> (\<forall>j<length xs. \<forall>v\<in>A. \<forall>k. operand_at s (xs ! j) k = Some v \<longrightarrow> v \<in> set (take j xs))"

lemma operands_first_append:
  assumes "operands_first s A xs" and "\<forall>v\<in>A. \<forall>k. operand_at s u k = Some v \<longrightarrow> v \<in> set xs"
  shows "operands_first s A (xs @ [u])"
  using assms by (auto simp: operands_first_def nth_append less_Suc_eq)

text \<open>The counters while the uses \<open>us\<close> of the taken instruction have not been visited; \<open>A\<close> is what
  has not been taken.\<close>

definition counted :: "'z ir_scheme \<Rightarrow> vid list \<Rightarrow> use_entry list \<Rightarrow> topo \<Rightarrow> vid \<Rightarrow> bool" where
  "counted s is us st u \<longleftrightarrow>
     remaining_deps st u = Some (word_of_nat (card (slots s (set is - set (sorted_order st)) u) + length (filter (\<lambda>x. fst x = u) us))) \<and>
     card (slots s (set is - set (sorted_order st)) u) + length (filter (\<lambda>x. fst x = u) us) < 2 ^ 32 \<and>
     (card (slots s (set is - set (sorted_order st)) u) + length (filter (\<lambda>x. fst x = u) us) = 0 \<longleftrightarrow>
       u \<in> set (sorted_order st @ topo_worklist st))"

definition topo_inv :: "'z ir_scheme \<Rightarrow> vid list \<Rightarrow> use_entry list \<Rightarrow> topo \<Rightarrow> bool" where
  "topo_inv s is us st \<longleftrightarrow> distinct (sorted_order st @ topo_worklist st) \<and> set (sorted_order st @ topo_worklist st) \<subseteq> set is \<and>
     operands_first s (set is) (sorted_order st @ topo_worklist st) \<and> dom (remaining_deps st) = set is \<and>
     (\<forall>u\<in>set is. counted s is us st u)"

lemma release_inv:
  assumes inv: "topo_inv s is (x # us) st" and instr: "\<forall>i\<in>set is. is_instr s i"
  shows "topo_inv s is us (release s x st)" and "sorted_order (release s x st) = sorted_order st"
proof -
  let ?u = "fst x" and ?st = "release s x st" and ?L = "sorted_order st @ topo_worklist st"
  show "topo_inv s is us ?st"
  proof (cases "?u \<in> set is")
    case False
    then have "?u \<notin> dom (remaining_deps st)" using inv by (simp add: topo_inv_def)
    then have same: "?st = st" by (simp add: release_def domIff)
    have "counted s is us st u" if u: "u \<in> set is" for u
    proof -
      have "counted s is (x # us) st u" using inv u by (simp add: topo_inv_def)
      moreover have "?u \<noteq> u" using u False by auto
      ultimately show ?thesis by (simp add: counted_def)
    qed
    then show ?thesis using inv by (simp add: topo_inv_def same)
  next
    case True
    define n where "n = card (slots s (set is - set (sorted_order st)) ?u) + length (filter (\<lambda>y. fst y = ?u) us)"
    have "counted s is (x # us) st ?u" using inv True by (simp add: topo_inv_def)
    then have rd: "remaining_deps st ?u = Some (word_of_nat (Suc n))" and less: "n < 2 ^ 32" and new: "?u \<notin> set ?L"
      by (auto simp: counted_def n_def)
    have st: "?st = st\<lparr>remaining_deps := (remaining_deps st)(?u \<mapsto> word_of_nat n), topo_worklist := topo_worklist st @ (if n = 0 then [?u] else [])\<rparr>"
      using rd instr True u32_zero [OF less] by (simp add: release_def)
    have first: "operands_first s (set is) (?L @ [?u])" if "n = 0"
    proof (rule operands_first_append)
      show "operands_first s (set is) ?L" using inv by (simp add: topo_inv_def)
      have "card (slots s (set is - set (sorted_order st)) ?u) = 0" using that by (simp add: n_def)
      then show "\<forall>v\<in>set is. \<forall>k. operand_at s ?u k = Some v \<longrightarrow> v \<in> set ?L" unfolding slots_empty_iff by auto
    qed
    have "counted s is us ?st u" if u: "u \<in> set is" for u
    proof (cases "u = ?u")
      case True
      then show ?thesis using new less by (simp add: counted_def st n_def)
    next
      case False
      have "counted s is (x # us) st u" using inv u by (simp add: topo_inv_def)
      then show ?thesis using False by (simp add: counted_def st)
    qed
    then show ?thesis using inv True new first unfolding topo_inv_def by (simp add: st insert_absorb)
  qed
  show "sorted_order ?st = sorted_order st" by (auto simp: release_def split: option.split)
qed

lemma release_all_inv:
  assumes "\<forall>i\<in>set is. is_instr s i"
  shows "topo_inv s is us st \<Longrightarrow>
    topo_inv s is [] (fold (release s) us st) \<and> sorted_order (fold (release s) us st) = sorted_order st"
  by (induction us arbitrary: st) (use release_inv [OF _ assms] in auto)

lemma topo_step_inv:
  assumes ok: "use_def_ok s" and instr: "\<forall>i\<in>set is. is_instr s i" and inv: "topo_inv s is [] st"
    and ne: "topo_worklist st \<noteq> []"
  shows "\<exists>st'. topo_step s st = Inr st' \<and> topo_inv s is [] st' \<and>
    (st', st) \<in> measure (\<lambda>st. length is - length (sorted_order st))"
proof -
  obtain c rest where c: "topo_worklist st = c # rest" using ne by (cases "topo_worklist st") auto
  have cis: "c \<in> set is" "c \<notin> set (sorted_order st)" using inv c by (auto simp: topo_inv_def)
  obtain r where r: "vals s c = Some r" using instr cis(1) by (auto simp: is_instr_def kind_of_def)
  then have uses: "vuses r = uses_of s c" by (simp add: uses_of_def)
  let ?st = "st\<lparr>topo_worklist := rest, sorted_order := sorted_order st @ [c]\<rparr>"
  have D: "set is - set (sorted_order ?st) = (set is - set (sorted_order st)) - {c}" by auto
  have L: "sorted_order ?st @ topo_worklist ?st = sorted_order st @ topo_worklist st" using c by simp
  have cnt: "card (slots s (set is - set (sorted_order st)) u) =
      card (slots s (set is - set (sorted_order st) - {c}) u) + length (filter (\<lambda>x. fst x = u) (uses_of s c))" for u
    using card_slots_remove [of c "set is - set (sorted_order st)" s u] card_slots_uses [OF ok, of c u] cis by simp
  have "counted s is (vuses r) ?st u" if "u \<in> set is" for u
  proof -
    have "counted s is [] st u" using inv that by (simp add: topo_inv_def)
    then show ?thesis unfolding counted_def L D uses cnt by simp
  qed
  then have "topo_inv s is (vuses r) ?st" using inv unfolding topo_inv_def L by simp
  from release_all_inv [OF instr this]
  have st': "topo_inv s is [] (fold (release s) (vuses r) ?st)" "sorted_order (fold (release s) (vuses r) ?st) = sorted_order st @ [c]"
    by simp_all
  have "distinct (sorted_order st @ [c])" "set (sorted_order st @ [c]) \<subseteq> set is" using inv c by (auto simp: topo_inv_def)
  then have "length (sorted_order st @ [c]) \<le> card (set is)" by (metis card_mono distinct_card finite_set)
  then have "length (sorted_order st) < length is" using card_length [of "is"] by simp
  then show ?thesis using c r st' by (simp add: topo_step_def)
qed

section \<open>The result\<close>

definition operand_relation :: "'z ir_scheme \<Rightarrow> vid set \<Rightarrow> (vid \<times> vid) set" where
  "operand_relation s A = {(v, u). v \<in> A \<and> u \<in> A \<and> (\<exists>k. operand_at s u k = Some v)}"

definition orderable :: "'z ir_scheme \<Rightarrow> vid list \<Rightarrow> bool" where
  "orderable s is \<longleftrightarrow> use_def_ok s \<and> distinct is \<and> (\<forall>i\<in>set is. is_instr s i \<and> length (ops_of s i) < 2 ^ 32)"

text \<open>Elements that all wait for another one of them form a cycle.\<close>

lemma waiting_cycle:
  assumes "finite A" and "A \<noteq> {}" and "\<And>u. u \<in> A \<Longrightarrow> \<exists>v\<in>A. \<exists>k. operand_at s u k = Some v"
  shows "\<not> acyclic (operand_relation s A)"
proof
  assume "acyclic (operand_relation s A)"
  moreover have "finite (operand_relation s A)"
    by (rule finite_subset [of _ "A \<times> A"]) (use assms(1) in \<open>auto simp: operand_relation_def\<close>)
  ultimately have w: "wf (operand_relation s A)" by (rule_tac finite_acyclic_wf)
  obtain x where "x \<in> A" using assms(2) by blast
  from wfE_min [OF w this] obtain u where "u \<in> A" "\<And>v. (v, u) \<in> operand_relation s A \<Longrightarrow> v \<notin> A" by blast
  moreover from this(1) obtain v where "v \<in> A" "(v, u) \<in> operand_relation s A" using assms(3) unfolding operand_relation_def by blast
  ultimately show False by blast
qed

lemma acyclic_operand_mono: "acyclic (operand_relation s A) \<Longrightarrow> B \<subseteq> A \<Longrightarrow> acyclic (operand_relation s B)"
  by (rule acyclic_subset) (auto simp: operand_relation_def)

lemma topo_start:
  assumes "orderable s is"
  shows "topo_inv s is [] \<lparr>remaining_deps = init_deps s is, topo_worklist = filter (\<lambda>i. init_deps s is i = Some 0) is, sorted_order = []\<rparr>"
proof -
  have d: "init_deps s is u = Some (word_of_nat (card (slots s (set is) u)))" and b: "card (slots s (set is) u) < 2 ^ 32"
    if "u \<in> set is" for u
    using assms that count_deps_slots [of "is" s u] le_less_trans [OF card_slots_le [of s "set is" u], of "2 ^ 32"]
    by (auto simp: orderable_def init_deps_at)
  have "operands_first s (set is) (filter (\<lambda>i. init_deps s is i = Some 0) is)"
    unfolding operands_first_def
  proof (intro allI ballI impI)
    fix j v k
    assume j: "j < length (filter (\<lambda>i. init_deps s is i = Some 0) is)" and v: "v \<in> set is"
      and k: "operand_at s (filter (\<lambda>i. init_deps s is i = Some 0) is ! j) k = Some v"
    have "filter (\<lambda>i. init_deps s is i = Some 0) is ! j \<in> set (filter (\<lambda>i. init_deps s is i = Some 0) is)" using j by (rule nth_mem)
    then have "card (slots s (set is) (filter (\<lambda>i. init_deps s is i = Some 0) is ! j)) = 0" using d u32_zero [OF b] by auto
    then show "v \<in> set (take j (filter (\<lambda>i. init_deps s is i = Some 0) is))" using v k unfolding slots_empty_iff by blast
  qed
  moreover have "dom (init_deps s is) = set is" by (auto simp: init_deps_at split: if_splits)
  ultimately show ?thesis using assms d b u32_zero [OF b] by (simp add: topo_inv_def orderable_def counted_def)
qed

lemma topological_order:
  assumes ok: "orderable s is"
  shows "\<exists>r. compute_topological_order s is = Inr r \<and> (case r of
    Some xs \<Rightarrow> distinct xs \<and> set xs = set is \<and> operands_first s (set is) xs
  | None \<Rightarrow> \<not> acyclic (operand_relation s (set is)))"
proof -
  let ?st = "\<lparr>remaining_deps = init_deps s is, topo_worklist = filter (\<lambda>i. init_deps s is i = Some 0) is, sorted_order = []\<rparr>"
  have u: "use_def_ok s" and instr: "\<forall>i\<in>set is. is_instr s i" and d: "distinct is" using ok by (simp_all add: orderable_def)
  have "\<exists>t. whileR (\<lambda>st. topo_worklist st \<noteq> []) (topo_step s) ?st = Some (Inr t) \<and> topo_inv s is [] t \<and> \<not> topo_worklist t \<noteq> []"
    by (rule whileR_total [where R = "measure (\<lambda>st. length is - length (sorted_order st))"])
      (use topo_start [OF ok] topo_step_inv [OF u instr] in blast)+
  then obtain t where t: "whileR (\<lambda>st. topo_worklist st \<noteq> []) (topo_step s) ?st = Some (Inr t)" "topo_inv s is [] t" "topo_worklist t = []"
    by blast
  let ?xs = "sorted_order t"
  have c: "compute_topological_order s is = Inr (if length ?xs = length is then Some ?xs else None)"
    using t(1) by (simp add: compute_topological_order_def outcome_def Let_def)
  have xs: "distinct ?xs" "set ?xs \<subseteq> set is" "operands_first s (set is) ?xs" using t(2,3) by (simp_all add: topo_inv_def)
  show ?thesis
  proof (cases "length ?xs = length is")
    case True
    then have "card (set ?xs) = card (set is)" using xs(1) d by (simp add: distinct_card)
    then have "set ?xs = set is" using xs(2) by (simp add: card_subset_eq)
    then show ?thesis using c True xs by simp
  next
    case False
    have "set is - set ?xs \<noteq> {}"
    proof
      assume "set is - set ?xs = {}"
      then have "set is = set ?xs" using xs(2) by blast
      then show False using False xs(1) d by (metis distinct_card)
    qed
    moreover have "\<exists>v\<in>set is - set ?xs. \<exists>k. operand_at s u k = Some v" if u: "u \<in> set is - set ?xs" for u
    proof -
      have "counted s is [] t u" using t(2) u by (simp add: topo_inv_def)
      then have "card (slots s (set is - set ?xs) u) \<noteq> 0" using t(3) u by (simp add: counted_def)
      then show ?thesis unfolding slots_empty_iff by blast
    qed
    ultimately have "\<not> acyclic (operand_relation s (set is - set ?xs))" by (intro waiting_cycle) auto
    then have "\<not> acyclic (operand_relation s (set is))" using acyclic_operand_mono [of s "set is"] by blast
    then show ?thesis using c False by simp
  qed
qed

end
