(* ===== verification/Tarjan.thy ===== *)
theory Tarjan
  imports LoopInfo
begin

text \<open>
  \<open>LoopInfo::find_scc\<close> against its specification: the groups it returns are the strongly connected
  components of the graph, each one once. The invariant follows the colours of the search: \<open>G\<close> is
  the set of nodes whose traversal has not ended.
\<close>

section \<open>The specification\<close>

definition cfg_edges :: "cfg \<Rightarrow> vid set \<Rightarrow> (vid \<times> vid) set" where
  "cfg_edges gr nodes = {(x, y). x \<in> nodes \<and> y \<in> nodes \<and> (\<exists>nd. gr x = Some nd \<and> y \<in> nd_succs nd)}"

definition component_of :: "(vid \<times> vid) set \<Rightarrow> vid \<Rightarrow> vid set" where
  "component_of E v = {x. (v, x) \<in> E\<^sup>* \<and> (x, v) \<in> E\<^sup>*}"

definition searchable :: "cfg \<Rightarrow> (vid set \<Rightarrow> vid list) \<Rightarrow> vid set \<Rightarrow> bool" where
  "searchable gr ord nodes \<longleftrightarrow> finite nodes \<and> (\<forall>x\<in>nodes. \<exists>nd. gr x = Some nd \<and> finite (nd_succs nd)) \<and>
     (\<forall>A. finite A \<longrightarrow> set (ord A) = A)"

lemma component_refl [simp]: "v \<in> component_of E v"
  by (simp add: component_of_def)

lemma component_eq: "x \<in> component_of E v \<Longrightarrow> component_of E x = component_of E v"
  by (auto simp: component_of_def intro: rtrancl_trans)

lemma closed_rtrancl: "(x, y) \<in> E\<^sup>* \<Longrightarrow> x \<in> A \<Longrightarrow> E `` A \<subseteq> A \<Longrightarrow> y \<in> A"
  by (induction rule: rtrancl_induct) auto

section \<open>The invariant\<close>

abbreviation idx :: "tarjan \<Rightarrow> vid \<Rightarrow> nat" where
  "idx st x \<equiv> the (tj_index st x)"

abbreviation grouped :: "tarjan \<Rightarrow> vid set" where
  "grouped st \<equiv> \<Union> (set (tj_groups st))"

definition tj_shape :: "vid set \<Rightarrow> tarjan \<Rightarrow> bool" where
  "tj_shape nodes st \<longleftrightarrow> dom (tj_index st) = set (tj_stack st) \<union> grouped st \<and>
     set (tj_stack st) \<inter> grouped st = {} \<and> dom (tj_index st) \<subseteq> nodes \<and> dom (tj_low st) = dom (tj_index st) \<and>
     sorted_wrt (\<lambda>x y. idx st y < idx st x) (tj_stack st) \<and> (\<forall>x\<in>dom (tj_index st). idx st x < index_count st)"

definition groups_ok :: "(vid \<times> vid) set \<Rightarrow> tarjan \<Rightarrow> bool" where
  "groups_ok E st \<longleftrightarrow> distinct (tj_groups st) \<and> (\<forall>g\<in>set (tj_groups st). \<exists>v\<in>g. g = component_of E v) \<and>
     E `` grouped st \<subseteq> grouped st"

definition gray_ok :: "(vid \<times> vid) set \<Rightarrow> vid set \<Rightarrow> tarjan \<Rightarrow> bool" where
  "gray_ok E G st \<longleftrightarrow> G \<subseteq> set (tj_stack st) \<and> (\<forall>x\<in>dom (tj_index st) - G. E `` {x} \<subseteq> dom (tj_index st)) \<and>
     (\<forall>x\<in>G. \<forall>y\<in>set (tj_stack st). idx st x \<le> idx st y \<longrightarrow> (x, y) \<in> E\<^sup>*) \<and>
     (\<forall>y\<in>set (tj_stack st). \<exists>x\<in>G. idx st x \<le> idx st y \<and> (y, x) \<in> E\<^sup>*)"

definition tj_inv :: "(vid \<times> vid) set \<Rightarrow> vid set \<Rightarrow> vid set \<Rightarrow> tarjan \<Rightarrow> bool" where
  "tj_inv E nodes G st \<longleftrightarrow> tj_shape nodes st \<and> groups_ok E st \<and> gray_ok E G st"

text \<open>The link of an open node \<open>v\<close> whose successors \<open>D\<close> have been scanned: the index of a node of the
  stack that \<open>v\<close> reaches, and no edge from \<open>v\<close> or above leads further down.\<close>

definition low_ok :: "(vid \<times> vid) set \<Rightarrow> vid \<Rightarrow> vid set \<Rightarrow> tarjan \<Rightarrow> bool" where
  "low_ok E v D st \<longleftrightarrow> (\<exists>l. tj_low st v = Some l \<and> l \<le> idx st v \<and>
     (\<exists>y\<in>set (tj_stack st). idx st y = l \<and> (v, y) \<in> E\<^sup>*) \<and>
     (\<forall>x\<in>set (tj_stack st). \<forall>y\<in>set (tj_stack st). idx st v \<le> idx st x \<longrightarrow> (x, y) \<in> E \<longrightarrow>
        (x = v \<longrightarrow> y \<in> D) \<longrightarrow> l \<le> idx st y)) \<and> D \<subseteq> dom (tj_index st)"

lemma stack_distinct: "tj_shape nodes st \<Longrightarrow> distinct (tj_stack st)"
  unfolding tj_shape_def distinct_conv_nth sorted_wrt_iff_nth_less
  by (metis linorder_neqE_nat less_irrefl)

lemma indexed_nodes: "tj_shape nodes st \<Longrightarrow> dom (tj_index st) \<subseteq> nodes"
  unfolding tj_shape_def by blast

lemma shape_stack: "tj_shape nodes st \<Longrightarrow> x \<in> set (tj_stack st) \<Longrightarrow> \<exists>i. tj_index st x = Some i"
  unfolding tj_shape_def by blast

lemma stack_split:
  assumes "tj_shape nodes st" and "tj_stack st = xs @ v # ys"
  shows "x \<in> set xs \<longrightarrow> idx st v < idx st x" and "x \<in> set ys \<longrightarrow> idx st x < idx st v"
  using assms by (auto simp: tj_shape_def sorted_wrt_append)

lemma pop_group_split:
  "v \<notin> set xs \<Longrightarrow> pop_group v (xs @ v # ys) A = (insert v (A \<union> set xs), ys)"
  by (induction xs arbitrary: A) auto

section \<open>Entering and closing a node\<close>

lemma enter_inv:
  assumes inv: "tj_inv E nodes G st" and w: "w \<in> nodes" "tj_index st w = None"
    and E: "\<And>x. x \<in> G \<Longrightarrow> (x, w) \<in> E\<^sup>*"
  shows "tj_inv E nodes (insert w G) (enter_node w st)" and "low_ok E w {} (enter_node w st)"
proof -
  have shape: "tj_shape nodes st" and gr: "groups_ok E st" and gray: "gray_ok E G st" using inv by (simp_all add: tj_inv_def)
  have wn: "w \<notin> dom (tj_index st)" using w(2) by blast
  have new: "w \<notin> set (tj_stack st)" "w \<notin> grouped st" using shape wn unfolding tj_shape_def by blast+
  have less: "\<forall>x\<in>set (tj_stack st). idx st x < index_count st" using shape by (auto simp: tj_shape_def)
  have same: "\<forall>x\<in>set (tj_stack st). x \<noteq> w" using new by blast
  have s: "sorted_wrt (\<lambda>x y. idx (enter_node w st) y < idx (enter_node w st) x) (tj_stack st)"
    using shape same unfolding tj_shape_def enter_node_def by (auto elim!: sorted_wrt_mono_rel [rotated])
  have dom: "dom (tj_index (enter_node w st)) = insert w (dom (tj_index st))" by (auto simp: enter_node_def)
  have "tj_shape nodes (enter_node w st)"
    unfolding tj_shape_def dom
  proof (intro conjI)
    show "insert w (dom (tj_index st)) = set (tj_stack (enter_node w st)) \<union> grouped (enter_node w st)"
      using shape by (simp add: tj_shape_def enter_node_def)
    show "set (tj_stack (enter_node w st)) \<inter> grouped (enter_node w st) = {}"
      using shape new by (simp add: tj_shape_def enter_node_def)
    show "insert w (dom (tj_index st)) \<subseteq> nodes" using shape w(1) unfolding tj_shape_def by blast
    show "dom (tj_low (enter_node w st)) = insert w (dom (tj_index st))"
      using shape by (simp add: tj_shape_def enter_node_def)
    show "sorted_wrt (\<lambda>x y. idx (enter_node w st) y < idx (enter_node w st) x) (tj_stack (enter_node w st))"
      using s less same by (simp add: enter_node_def)
    show "\<forall>x\<in>insert w (dom (tj_index st)). idx (enter_node w st) x < index_count (enter_node w st)"
      using shape wn by (auto simp: tj_shape_def enter_node_def less_Suc_eq)
  qed
  moreover have "groups_ok E (enter_node w st)" using gr by (simp add: groups_ok_def enter_node_def)
  moreover have "gray_ok E (insert w G) (enter_node w st)"
    unfolding gray_ok_def
  proof (intro conjI)
    show "insert w G \<subseteq> set (tj_stack (enter_node w st))" using gray by (auto simp: gray_ok_def enter_node_def)
    show "\<forall>x\<in>dom (tj_index (enter_node w st)) - insert w G. E `` {x} \<subseteq> dom (tj_index (enter_node w st))"
      using gray unfolding gray_ok_def enter_node_def by auto
    have "G \<subseteq> set (tj_stack st)" using gray by (simp add: gray_ok_def)
    then show "\<forall>x\<in>insert w G. \<forall>y\<in>set (tj_stack (enter_node w st)).
        idx (enter_node w st) x \<le> idx (enter_node w st) y \<longrightarrow> (x, y) \<in> E\<^sup>*"
    proof (intro ballI impI)
      fix x y assume x: "x \<in> insert w G" and y: "y \<in> set (tj_stack (enter_node w st))"
        and le: "idx (enter_node w st) x \<le> idx (enter_node w st) y"
      consider "y = w" "x = w" | "y = w" "x \<in> G" | "x = w" "y \<in> set (tj_stack st)" | "x \<in> G" "y \<in> set (tj_stack st)"
        using x y by (auto simp: enter_node_def)
      then show "(x, y) \<in> E\<^sup>*"
      proof cases
        case 2
        then show ?thesis using E by simp
      next
        case 3
        then show ?thesis using le less same by (auto simp: enter_node_def)
      next
        case 4
        then have "x \<noteq> w" "y \<noteq> w" using same \<open>G \<subseteq> set (tj_stack st)\<close> by auto
        then have "idx st x \<le> idx st y" using le by (simp add: enter_node_def)
        then show ?thesis using gray 4 unfolding gray_ok_def by blast
      qed simp
    qed
    show "\<forall>y\<in>set (tj_stack (enter_node w st)). \<exists>x\<in>insert w G.
        idx (enter_node w st) x \<le> idx (enter_node w st) y \<and> (y, x) \<in> E\<^sup>*"
    proof
      fix y assume "y \<in> set (tj_stack (enter_node w st))"
      then consider "y = w" | "y \<in> set (tj_stack st)" by (auto simp: enter_node_def)
      then show "\<exists>x\<in>insert w G. idx (enter_node w st) x \<le> idx (enter_node w st) y \<and> (y, x) \<in> E\<^sup>*"
      proof cases
        case 2
        then obtain x where x: "x \<in> G" "idx st x \<le> idx st y" "(y, x) \<in> E\<^sup>*" using gray by (auto simp: gray_ok_def)
        have "x \<noteq> w" "y \<noteq> w" using x(1) 2 same \<open>G \<subseteq> set (tj_stack st)\<close> by auto
        then show ?thesis using x by (auto simp: enter_node_def)
      qed auto
    qed
  qed
  ultimately show "tj_inv E nodes (insert w G) (enter_node w st)" by (simp add: tj_inv_def)
  show "low_ok E w {} (enter_node w st)"
    using less same unfolding low_ok_def by (auto simp: enter_node_def)
qed

definition top_gray :: "vid set \<Rightarrow> vid \<Rightarrow> tarjan \<Rightarrow> bool" where
  "top_gray G v st \<longleftrightarrow> v \<in> G \<and> (\<forall>x\<in>G. idx st x \<le> idx st v)"

lemma stack_reaches_top:
  assumes "gray_ok E G st" and "top_gray G v st" and "x \<in> set (tj_stack st)"
  shows "(x, v) \<in> E\<^sup>*"
proof -
  obtain g where g: "g \<in> G" "(x, g) \<in> E\<^sup>*" using assms(1,3) by (auto simp: gray_ok_def)
  moreover have "(g, v) \<in> E\<^sup>*" using assms(1,2) g(1) by (auto simp: gray_ok_def top_gray_def)
  ultimately show ?thesis by (rule_tac rtrancl_trans)
qed

text \<open>What is popped is the component of the node.\<close>

lemma popped_component:
  assumes inv: "tj_inv E nodes G st" and v: "top_gray G v st" and low: "low_ok E v (E `` {v}) st"
    and root: "tj_low st v = tj_index st v" and st: "tj_stack st = xs @ v # ys"
  shows "component_of E v = insert v (set xs)" and "E `` (insert v (set xs) \<union> grouped st) \<subseteq> insert v (set xs) \<union> grouped st"
proof -
  let ?T = "insert v (set xs)"
  have shape: "tj_shape nodes st" and gr: "groups_ok E st" and gray: "gray_ok E G st" using inv by (simp_all add: tj_inv_def)
  have T: "x \<in> ?T \<longleftrightarrow> x \<in> set (tj_stack st) \<and> idx st v \<le> idx st x" for x
    using stack_split [OF shape st, of x] st by auto
  have vis: "dom (tj_index st) = set (tj_stack st) \<union> grouped st" and disj: "set (tj_stack st) \<inter> grouped st = {}"
    using shape by (simp_all add: tj_shape_def)
  show closed: "E `` (?T \<union> grouped st) \<subseteq> ?T \<union> grouped st"
  proof
    fix y assume "y \<in> E `` (?T \<union> grouped st)"
    then obtain x where xy: "(x, y) \<in> E" and x: "x \<in> ?T \<or> x \<in> grouped st" by blast
    show "y \<in> ?T \<union> grouped st"
    proof (cases "x \<in> grouped st")
      case True
      then show ?thesis using gr xy unfolding groups_ok_def by blast
    next
      case False
      then have xT: "x \<in> set (tj_stack st)" "idx st v \<le> idx st x" using x T by blast+
      have "y \<in> dom (tj_index st)"
      proof (cases "x = v")
        case True
        then show ?thesis using low xy unfolding low_ok_def by blast
      next
        case False
        have "x \<notin> G"
        proof
          assume "x \<in> G"
          then have "idx st x \<le> idx st v" using v by (simp add: top_gray_def)
          moreover have "idx st v < idx st x" using False x xT stack_split [OF shape st, of x] st by auto
          ultimately show False by simp
        qed
        then show ?thesis using gray xT(1) xy vis unfolding gray_ok_def by blast
      qed
      then consider "y \<in> grouped st" | "y \<in> set (tj_stack st)" using vis by blast
      then show ?thesis
      proof cases
        case 2
        obtain l where "tj_low st v = Some l" and l: "l \<le> idx st y"
          using low xT 2 xy unfolding low_ok_def by blast
        then have "idx st v \<le> idx st y" using root by simp
        then show ?thesis using T 2 by blast
      qed blast
    qed
  qed
  show "component_of E v = ?T"
  proof
    show "?T \<subseteq> component_of E v"
    proof
      fix x assume x: "x \<in> ?T"
      then have xs: "x \<in> set (tj_stack st)" "idx st v \<le> idx st x" using T by blast+
      have "(v, x) \<in> E\<^sup>*" using gray v xs unfolding gray_ok_def top_gray_def by blast
      then show "x \<in> component_of E v" using stack_reaches_top [OF gray v xs(1)] by (simp add: component_of_def)
    qed
    show "component_of E v \<subseteq> ?T"
    proof
      fix x assume "x \<in> component_of E v"
      then have vx: "(v, x) \<in> E\<^sup>*" and xv: "(x, v) \<in> E\<^sup>*" by (simp_all add: component_of_def)
      have "x \<in> ?T \<union> grouped st" using closed_rtrancl [OF vx _ closed] by blast
      moreover have "x \<notin> grouped st"
      proof
        assume "x \<in> grouped st"
        moreover have "E `` grouped st \<subseteq> grouped st" using gr by (simp add: groups_ok_def)
        ultimately have "v \<in> grouped st" by (rule closed_rtrancl [OF xv])
        moreover have "v \<in> set (tj_stack st)" using st by simp
        ultimately show False using disj by blast
      qed
      ultimately show "x \<in> ?T" by blast
    qed
  qed
qed

text \<open>Closing \<open>v\<close>: either it stays on the stack below its link, or its component is popped.\<close>

definition closed_to :: "vid \<Rightarrow> tarjan \<Rightarrow> tarjan \<Rightarrow> bool" where
  "closed_to v st st' \<longleftrightarrow> tj_index st' = tj_index st \<and> tj_low st' = tj_low st \<and>
     (idx st v > the (tj_low st v) \<and> tj_stack st' = tj_stack st \<or>
      idx st v = the (tj_low st v) \<and> (\<exists>xs. tj_stack st = xs @ v # tj_stack st'))"

lemma close_black:
  assumes inv: "tj_inv E nodes G st" and v: "top_gray G v st" and low: "low_ok E v (E `` {v}) st"
    and less: "tj_low st v = Some l" "l < idx st v"
  shows "tj_inv E nodes (G - {v}) st"
proof -
  have gray: "gray_ok E G st" and shape: "tj_shape nodes st" using inv by (simp_all add: tj_inv_def)
  obtain z where z: "z \<in> set (tj_stack st)" "idx st z = l" "(v, z) \<in> E\<^sup>*" using low less(1) by (auto simp: low_ok_def)
  obtain h where h: "h \<in> G" "idx st h \<le> l" "(z, h) \<in> E\<^sup>*" using gray z(1,2) unfolding gray_ok_def by blast
  have hv: "h \<in> G - {v}" using h less(2) by auto
  have "gray_ok E (G - {v}) st"
    unfolding gray_ok_def
  proof (intro conjI)
    show "G - {v} \<subseteq> set (tj_stack st)" using gray by (auto simp: gray_ok_def)
    show "\<forall>x\<in>dom (tj_index st) - (G - {v}). E `` {x} \<subseteq> dom (tj_index st)"
    proof
      fix x assume "x \<in> dom (tj_index st) - (G - {v})"
      then consider "x = v" | "x \<in> dom (tj_index st) - G" by blast
      then show "E `` {x} \<subseteq> dom (tj_index st)"
        by cases (use low gray in \<open>auto simp: low_ok_def gray_ok_def\<close>)
    qed
    show "\<forall>x\<in>G - {v}. \<forall>y\<in>set (tj_stack st). idx st x \<le> idx st y \<longrightarrow> (x, y) \<in> E\<^sup>*"
      using gray unfolding gray_ok_def by blast
    show "\<forall>y\<in>set (tj_stack st). \<exists>x\<in>G - {v}. idx st x \<le> idx st y \<and> (y, x) \<in> E\<^sup>*"
    proof
      fix y assume y: "y \<in> set (tj_stack st)"
      then obtain x where x: "x \<in> G" "idx st x \<le> idx st y" "(y, x) \<in> E\<^sup>*" using gray unfolding gray_ok_def by blast
      show "\<exists>x\<in>G - {v}. idx st x \<le> idx st y \<and> (y, x) \<in> E\<^sup>*"
      proof (cases "x = v")
        case True
        then have "(y, h) \<in> E\<^sup>*" using x(3) z(3) h(3) by (metis rtrancl_trans)
        moreover have "idx st h \<le> idx st y" using True x(2) h(2) less(2) by simp
        ultimately show ?thesis using hv by blast
      qed (use x in blast)
    qed
  qed
  then show ?thesis using inv by (simp add: tj_inv_def)
qed

lemma close_popped:
  assumes inv: "tj_inv E nodes G st" and v: "top_gray G v st" and low: "low_ok E v (E `` {v}) st"
    and root: "tj_low st v = tj_index st v" and st: "tj_stack st = xs @ v # ys"
  shows "tj_inv E nodes (G - {v}) (st\<lparr>tj_stack := ys, tj_groups := tj_groups st @ [insert v (set xs)]\<rparr>)"
proof -
  let ?st = "st\<lparr>tj_stack := ys, tj_groups := tj_groups st @ [insert v (set xs)]\<rparr>"
  have gray: "gray_ok E G st" and shape: "tj_shape nodes st" and gr: "groups_ok E st" using inv by (simp_all add: tj_inv_def)
  have dist: "distinct (tj_stack st)" by (rule stack_distinct [OF shape])
  have G: "G - {v} \<subseteq> set ys"
  proof
    fix x assume x: "x \<in> G - {v}"
    then have "x \<in> set (tj_stack st)" and "idx st x \<le> idx st v" using gray v by (auto simp: gray_ok_def top_gray_def)
    then show "x \<in> set ys" using stack_split [OF shape st, of x] st x by auto
  qed
  have "grouped ?st = insert v (set xs) \<union> grouped st" by auto
  note comp = popped_component [OF assms]
  have "tj_shape nodes ?st"
    unfolding tj_shape_def
  proof (intro conjI)
    show "dom (tj_index ?st) = set (tj_stack ?st) \<union> grouped ?st" using shape st by (auto simp: tj_shape_def)
    show "set (tj_stack ?st) \<inter> grouped ?st = {}" using shape st dist by (auto simp: tj_shape_def)
    show "dom (tj_index ?st) \<subseteq> nodes" using indexed_nodes [OF shape] by simp
    show "dom (tj_low ?st) = dom (tj_index ?st)" using shape unfolding tj_shape_def by simp
    show "sorted_wrt (\<lambda>x y. idx ?st y < idx ?st x) (tj_stack ?st)"
      using shape st by (simp add: tj_shape_def sorted_wrt_append)
    show "\<forall>x\<in>dom (tj_index ?st). idx ?st x < index_count ?st" using shape unfolding tj_shape_def by simp
  qed
  moreover have "groups_ok E ?st"
    unfolding groups_ok_def
  proof (intro conjI)
    have "v \<notin> grouped st" using shape st by (auto simp: tj_shape_def)
    then have "insert v (set xs) \<notin> set (tj_groups st)" by blast
    then show "distinct (tj_groups ?st)" using gr by (simp add: groups_ok_def)
    show "\<forall>g\<in>set (tj_groups ?st). \<exists>v\<in>g. g = component_of E v"
      using gr comp(1) by (auto simp: groups_ok_def)
    show "E `` grouped ?st \<subseteq> grouped ?st" using comp(2) unfolding \<open>grouped ?st = _\<close> .
  qed
  moreover have "gray_ok E (G - {v}) ?st"
    unfolding gray_ok_def
  proof (intro conjI)
    show "G - {v} \<subseteq> set (tj_stack ?st)" using G by simp
    show "\<forall>x\<in>dom (tj_index ?st) - (G - {v}). E `` {x} \<subseteq> dom (tj_index ?st)"
    proof
      fix x assume "x \<in> dom (tj_index ?st) - (G - {v})"
      then consider "x = v" | "x \<in> dom (tj_index st) - G" by auto
      then show "E `` {x} \<subseteq> dom (tj_index ?st)"
        by cases (use low gray in \<open>auto simp: low_ok_def gray_ok_def\<close>)
    qed
    show "\<forall>x\<in>G - {v}. \<forall>y\<in>set (tj_stack ?st). idx ?st x \<le> idx ?st y \<longrightarrow> (x, y) \<in> E\<^sup>*"
      using gray st by (auto simp: gray_ok_def)
    show "\<forall>y\<in>set (tj_stack ?st). \<exists>x\<in>G - {v}. idx ?st x \<le> idx ?st y \<and> (y, x) \<in> E\<^sup>*"
    proof
      fix y assume "y \<in> set (tj_stack ?st)"
      then have y: "y \<in> set ys" by simp
      then have "y \<in> set (tj_stack st)" using st by simp
      then obtain x where x: "x \<in> G" "idx st x \<le> idx st y" "(y, x) \<in> E\<^sup>*" using gray unfolding gray_ok_def by blast
      have "idx st y < idx st v" using stack_split(2) [OF shape st, of y] y by blast
      then have "x \<noteq> v" using x(2) by auto
      then show "\<exists>x\<in>G - {v}. idx ?st x \<le> idx ?st y \<and> (y, x) \<in> E\<^sup>*" using x by auto
    qed
  qed
  ultimately show ?thesis by (simp add: tj_inv_def)
qed

lemma close_node_inv:
  assumes inv: "tj_inv E nodes G st" and v: "top_gray G v st" and low: "low_ok E v (E `` {v}) st"
  shows "\<exists>st'. close_node v st = Inr st' \<and> tj_inv E nodes (G - {v}) st' \<and> closed_to v st st'"
proof -
  have shape: "tj_shape nodes st" and G: "G \<subseteq> set (tj_stack st)" using inv by (simp_all add: tj_inv_def gray_ok_def)
  then have vs: "v \<in> set (tj_stack st)" using v by (auto simp: top_gray_def)
  then obtain i where i: "tj_index st v = Some i" using shape_stack [OF shape] by blast
  obtain l where l: "tj_low st v = Some l" "l \<le> i" using low i by (auto simp: low_ok_def)
  show ?thesis
  proof (cases "l = i")
    case False
    then have "close_node v st = Inr st" using i l by (simp add: close_node_def optional_value_def)
    moreover have "closed_to v st st" using False i l by (simp add: closed_to_def)
    ultimately show ?thesis using close_black [OF inv v low l(1)] False i l by simp
  next
    case True
    obtain xs ys where st: "tj_stack st = xs @ v # ys" using vs by (meson split_list)
    have "v \<notin> set xs" using stack_distinct [OF shape] st by simp
    then have "close_node v st = Inr (st\<lparr>tj_stack := ys, tj_groups := tj_groups st @ [insert v (set xs)]\<rparr>)"
      using True i l st by (simp add: close_node_def optional_value_def pop_group_split)
    moreover have "closed_to v st (st\<lparr>tj_stack := ys, tj_groups := tj_groups st @ [insert v (set xs)]\<rparr>)"
      using True i l st by (simp add: closed_to_def)
    ultimately show ?thesis using close_popped [OF inv v low _ st] True i l by simp
  qed
qed

section \<open>Scanning the successors\<close>

text \<open>What the loop over the successors of \<open>v\<close> keeps: the stack grows on top of the old one, and
  nothing is written to nodes met before except the link of \<open>v\<close>.\<close>

definition scan_extends :: "vid \<Rightarrow> tarjan \<Rightarrow> tarjan \<Rightarrow> bool" where
  "scan_extends v st st' \<longleftrightarrow> dom (tj_index st) \<subseteq> dom (tj_index st') \<and> (\<exists>new. tj_stack st' = new @ tj_stack st) \<and>
     (\<forall>x\<in>dom (tj_index st). tj_index st' x = tj_index st x \<and> (x \<noteq> v \<longrightarrow> tj_low st' x = tj_low st x))"

lemma scan_extends_refl: "scan_extends v st st"
  by (simp add: scan_extends_def)

lemma scan_extends_trans:
  assumes "scan_extends v st st1" and "scan_extends v st1 st2"
  shows "scan_extends v st st2"
proof -
  obtain new1 new2 where "tj_stack st1 = new1 @ tj_stack st" "tj_stack st2 = new2 @ tj_stack st1"
    using assms unfolding scan_extends_def by blast
  then have "tj_stack st2 = (new2 @ new1) @ tj_stack st" by simp
  moreover have "\<forall>x\<in>dom (tj_index st). tj_index st2 x = tj_index st x \<and> (x \<noteq> v \<longrightarrow> tj_low st2 x = tj_low st x)"
  proof
    fix x assume "x \<in> dom (tj_index st)"
    then show "tj_index st2 x = tj_index st x \<and> (x \<noteq> v \<longrightarrow> tj_low st2 x = tj_low st x)"
      using assms unfolding scan_extends_def by (metis subsetD)
  qed
  moreover have "dom (tj_index st) \<subseteq> dom (tj_index st2)" using assms unfolding scan_extends_def by (metis subset_trans)
  ultimately show ?thesis unfolding scan_extends_def by blast
qed

lemma lower_link_inv:
  assumes "tj_inv E nodes G st" and "tj_low st v = Some a"
  shows "tj_inv E nodes G (st\<lparr>tj_low := (tj_low st)(v \<mapsto> b)\<rparr>)"
proof -
  let ?st = "st\<lparr>tj_low := (tj_low st)(v \<mapsto> b)\<rparr>"
  have "insert v (dom (tj_low st)) = dom (tj_low st)" using assms(2) by (rule insert_dom)
  then have eqs: "dom (tj_low ?st) = dom (tj_low st)" "tj_index ?st = tj_index st" "tj_stack ?st = tj_stack st"
    "tj_groups ?st = tj_groups st" "index_count ?st = index_count st" by simp_all
  show ?thesis using assms(1) unfolding tj_inv_def tj_shape_def groups_ok_def gray_ok_def eqs .
qed

text \<open>A successor on the stack lowers the link to its index.\<close>

lemma low_stack_successor:
  assumes low: "low_ok E v D st" and w: "w \<in> set (tj_stack st)" "(v, w) \<in> E" and i: "tj_index st w = Some i"
    and a: "tj_low st v = Some a"
  shows "low_ok E v (insert w D) (st\<lparr>tj_low := (tj_low st)(v \<mapsto> min a i)\<rparr>)"
proof -
  have "a \<le> idx st v" and y: "\<exists>y\<in>set (tj_stack st). idx st y = a \<and> (v, y) \<in> E\<^sup>*" and D: "D \<subseteq> dom (tj_index st)"
    and L: "\<forall>x\<in>set (tj_stack st). \<forall>y\<in>set (tj_stack st). idx st v \<le> idx st x \<longrightarrow> (x, y) \<in> E \<longrightarrow>
        (x = v \<longrightarrow> y \<in> D) \<longrightarrow> a \<le> idx st y"
    using low a by (auto simp: low_ok_def)
  have "\<exists>y\<in>set (tj_stack st). idx st y = min a i \<and> (v, y) \<in> E\<^sup>*"
  proof (cases "a \<le> i")
    case False
    then have "idx st w = min a i" "(v, w) \<in> E\<^sup>*" using w(2) i by auto
    then show ?thesis using w(1) by blast
  qed (use y in \<open>simp add: min_def\<close>)
  moreover have "min a i \<le> idx st y" if "x \<in> set (tj_stack st)" "y \<in> set (tj_stack st)" "idx st v \<le> idx st x"
    "(x, y) \<in> E" "x = v \<longrightarrow> y \<in> insert w D" for x y
  proof (cases "x = v \<and> y = w")
    case False
    then have "a \<le> idx st y" using L that by blast
    then show ?thesis by simp
  qed (use i in simp)
  ultimately show ?thesis using \<open>a \<le> idx st v\<close> D i unfolding low_ok_def by auto
qed

lemma low_grouped_successor:
  assumes "low_ok E v D st" and "w \<notin> set (tj_stack st)" and "w \<in> dom (tj_index st)"
  shows "low_ok E v (insert w D) st"
  using assms unfolding low_ok_def by auto

text \<open>After the recursive call on \<open>w\<close> has ended.\<close>

lemma low_returned:
  assumes low: "low_ok E v D st" and shape: "tj_shape nodes st" and v: "v \<in> set (tj_stack st)" and w: "(v, w) \<in> E" "tj_index st w = None"
    and low2: "low_ok E w (E `` {w}) st2" and shape2: "tj_shape nodes st2"
    and ext: "scan_extends w (enter_node w st) st2" and cl: "closed_to w st2 st3"
    and a: "tj_low st v = Some a" and l: "tj_low st2 w = Some l"
  shows "low_ok E v (insert w D) (st3\<lparr>tj_low := (tj_low st3)(v \<mapsto> min a l)\<rparr>)" and "tj_low st3 v = Some a"
    and "scan_extends v st (st3\<lparr>tj_low := (tj_low st3)(v \<mapsto> min a l)\<rparr>)"
proof -
  let ?st = "st3\<lparr>tj_low := (tj_low st3)(v \<mapsto> min a l)\<rparr>"
  have D: "D \<subseteq> dom (tj_index st)" using low by (simp add: low_ok_def)
  obtain new where new: "tj_stack st2 = new @ w # tj_stack st"
    using ext unfolding scan_extends_def enter_node_def by auto
  have i3: "tj_index st3 = tj_index st2" "tj_low st3 = tj_low st2" using cl by (simp_all add: closed_to_def)
  have keep: "tj_index st2 x = tj_index st x \<and> tj_low st2 x = tj_low st x" if "x \<in> dom (tj_index st)" for x
  proof -
    have "x \<noteq> w" using that w(2) by auto
    moreover have "x \<in> dom (tj_index (enter_node w st))" using that by (auto simp: enter_node_def)
    ultimately have "tj_index st2 x = tj_index (enter_node w st) x" "tj_low st2 x = tj_low (enter_node w st) x"
      using ext unfolding scan_extends_def by blast+
    then show ?thesis using \<open>x \<noteq> w\<close> by (simp add: enter_node_def)
  qed
  have old: "x \<in> dom (tj_index st)" if "x \<in> set (tj_stack st)" for x using shape_stack [OF shape that] by blast
  have same: "idx st3 x = idx st x" if "x \<in> set (tj_stack st)" for x using keep [OF old [OF that]] i3 by simp
  have dom3: "insert w (dom (tj_index st)) \<subseteq> dom (tj_index st3)"
    using ext i3 unfolding scan_extends_def enter_node_def by auto
  have above: "idx st3 w \<le> idx st3 x" if "x \<in> set (tj_stack st2) - set (tj_stack st)" for x
    using stack_split(1) [OF shape2 new, of x] that new i3 by auto
  have below: "idx st3 x < idx st3 w" if "x \<in> set (tj_stack st)" for x
    using stack_split(2) [OF shape2 new, of x] that i3 by auto
  have cases: "tj_stack st3 = tj_stack st2 \<or> tj_stack st3 = tj_stack st \<and> idx st3 w = l"
  proof (cases "idx st2 w = l")
    case True
    then obtain xs where xs: "tj_stack st2 = xs @ w # tj_stack st3" using cl l by (auto simp: closed_to_def)
    have "distinct (xs @ w # tj_stack st3)" using stack_distinct [OF shape2] xs by simp
    then have "tj_stack st3 = tj_stack st" using xs new append_Cons_eq_iff [of w xs "tj_stack st3" new "tj_stack st"] by auto
    then show ?thesis using True i3 by simp
  qed (use cl l in \<open>auto simp: closed_to_def\<close>)
  then have stack3: "set (tj_stack st) \<subseteq> set (tj_stack st3)" "set (tj_stack st3) \<subseteq> set (tj_stack st2)" using new by auto
  have a_le: "a \<le> idx st v" and y0: "\<exists>y\<in>set (tj_stack st). idx st y = a \<and> (v, y) \<in> E\<^sup>*"
    and L: "\<And>x y. x \<in> set (tj_stack st) \<Longrightarrow> y \<in> set (tj_stack st) \<Longrightarrow> idx st v \<le> idx st x \<Longrightarrow> (x, y) \<in> E \<Longrightarrow>
        (x = v \<longrightarrow> y \<in> D) \<Longrightarrow> a \<le> idx st y"
    using low a by (auto simp: low_ok_def)
  have y1: "\<exists>y\<in>set (tj_stack st2). idx st2 y = l \<and> (w, y) \<in> E\<^sup>*"
    and L2: "\<And>x y. x \<in> set (tj_stack st2) \<Longrightarrow> y \<in> set (tj_stack st2) \<Longrightarrow> idx st2 w \<le> idx st2 x \<Longrightarrow> (x, y) \<in> E \<Longrightarrow>
        l \<le> idx st2 y"
    using low2 l by (auto simp: low_ok_def)
  have v3: "idx st3 v = idx st v" "idx st3 v < idx st3 w" using same [OF v] below [OF v] by simp_all
  show low3: "tj_low st3 v = Some a" using keep [OF old [OF v]] i3 a by simp
  show "scan_extends v st ?st"
    unfolding scan_extends_def
  proof (intro conjI)
    show "dom (tj_index st) \<subseteq> dom (tj_index ?st)" using dom3 by simp
    show "\<exists>new. tj_stack ?st = new @ tj_stack st" using cases new by (auto intro: exI [of _ "new @ [w]"])
    show "\<forall>x\<in>dom (tj_index st). tj_index ?st x = tj_index st x \<and> (x \<noteq> v \<longrightarrow> tj_low ?st x = tj_low st x)"
      using keep i3 by simp
  qed
  have "\<exists>y\<in>set (tj_stack st3). idx st3 y = min a l \<and> (v, y) \<in> E\<^sup>*"
  proof (cases "a \<le> l")
    case True
    obtain y where "y \<in> set (tj_stack st)" "idx st y = a" "(v, y) \<in> E\<^sup>*" using y0 by blast
    then show ?thesis using same stack3(1) True by (intro bexI [of _ y]) auto
  next
    case False
    then have "tj_stack st3 = tj_stack st2" using cases v3 a_le by auto
    moreover obtain y where "y \<in> set (tj_stack st2)" "idx st2 y = l" "(w, y) \<in> E\<^sup>*" using y1 by blast
    moreover have "(v, y) \<in> E\<^sup>*" using w(1) \<open>(w, y) \<in> E\<^sup>*\<close> by (rule converse_rtrancl_into_rtrancl)
    ultimately show ?thesis using False i3 by (intro bexI [of _ y]) auto
  qed
  moreover have "min a l \<le> idx st3 y" if xy: "x \<in> set (tj_stack st3)" "y \<in> set (tj_stack st3)" "idx st3 v \<le> idx st3 x"
    "(x, y) \<in> E" "x = v \<longrightarrow> y \<in> insert w D" for x y
  proof (cases "y \<in> set (tj_stack st)")
    case False
    then have "idx st3 w \<le> idx st3 y" using above xy(2) stack3(2) by blast
    then show ?thesis using v3 a_le by simp
  next
    case True
    show ?thesis
    proof (cases "x \<in> set (tj_stack st)")
      case x: True
      have "y \<noteq> w" using below [OF True] by auto
      then have "a \<le> idx st y" using L [OF x True _ xy(4)] xy(3,5) same [OF x] v3 by simp
      then show ?thesis using same [OF True] by simp
    next
      case False
      then have "tj_stack st3 = tj_stack st2" using cases xy(1) by auto
      then have "l \<le> idx st2 y" using L2 [of x y] xy above [of x] False i3 by simp
      then show ?thesis using i3 by simp
    qed
  qed
  moreover have "D \<subseteq> dom (tj_index st3)" "w \<in> dom (tj_index st3)" using D dom3 by blast+
  ultimately show "low_ok E v (insert w D) ?st"
    using a_le v3(1) unfolding low_ok_def by auto
qed

section \<open>The search\<close>

lemma gray_visited:
  assumes "gray_ok E G st" and "tj_shape nodes st" and "x \<in> G"
  shows "x \<in> dom (tj_index st)"
proof -
  have "x \<in> set (tj_stack st)" using assms(1,3) by (auto simp: gray_ok_def)
  then show ?thesis using shape_stack [OF assms(2)] by blast
qed

lemma top_gray_extends:
  assumes "top_gray G v st" and "gray_ok E G st" and "tj_shape nodes st" and "scan_extends u st st'"
  shows "top_gray G v st'"
proof -
  have "idx st' x = idx st x" if "x \<in> G" for x
  proof -
    have "x \<in> dom (tj_index st)" by (rule gray_visited [OF assms(2,3) that])
    then show ?thesis using assms(4) unfolding scan_extends_def by simp
  qed
  then show ?thesis using assms(1) by (simp add: top_gray_def)
qed

lemma enter_top_gray:
  assumes "gray_ok E G st" and "tj_shape nodes st" and "tj_index st w = None"
  shows "top_gray (insert w G) w (enter_node w st)"
proof -
  have "idx st x < index_count st \<and> x \<noteq> w" if "x \<in> G" for x
  proof -
    have x: "x \<in> dom (tj_index st)" by (rule gray_visited [OF assms(1,2) that])
    moreover have "idx st x < index_count st" using assms(2) x unfolding tj_shape_def by blast
    ultimately show ?thesis using assms(3) by auto
  qed
  then show ?thesis by (auto simp: top_gray_def enter_node_def intro: less_imp_le)
qed

lemma return_to_inv:
  assumes inv: "tj_inv E nodes G st" and v: "top_gray G v st" and low: "low_ok E v D st"
    and w: "(v, w) \<in> E" "tj_index st w = None"
    and inv2: "tj_inv E nodes (insert w G) st2" and low2: "low_ok E w (E `` {w}) st2"
    and ext: "scan_extends w (enter_node w st) st2"
  shows "\<exists>st'. return_to v w st2 = Inr st' \<and> tj_inv E nodes G st' \<and> low_ok E v (insert w D) st' \<and> scan_extends v st st'"
proof -
  have shape: "tj_shape nodes st" and gray: "gray_ok E G st" and shape2: "tj_shape nodes st2"
    using inv inv2 by (simp_all add: tj_inv_def)
  have wv: "v \<in> set (tj_stack st)" using v gray by (auto simp: top_gray_def gray_ok_def)
  have "w \<notin> G" using shape_stack [OF shape, of w] w(2) gray by (auto simp: gray_ok_def)
  have ent: "tj_inv E nodes (insert w G) (enter_node w st)"
  proof (rule enter_inv [OF inv _ w(2)])
    show "w \<in> nodes" using indexed_nodes [OF shape2] ext unfolding scan_extends_def enter_node_def by auto
    show "(x, w) \<in> E\<^sup>*" if "x \<in> G" for x
    proof -
      have "(x, v) \<in> E\<^sup>*" using gray v wv that unfolding gray_ok_def top_gray_def by blast
      then show ?thesis using w(1) by (rule rtrancl_into_rtrancl)
    qed
  qed
  have "top_gray (insert w G) w st2"
    using ent by (intro top_gray_extends [OF enter_top_gray [OF gray shape w(2)] _ _ ext]) (auto simp: tj_inv_def)
  then obtain st3 where st3: "close_node w st2 = Inr st3" "tj_inv E nodes (insert w G - {w}) st3" "closed_to w st2 st3"
    using close_node_inv [OF inv2 _ low2] by blast
  obtain a where a: "tj_low st v = Some a" using low by (auto simp: low_ok_def)
  obtain l where l: "tj_low st2 w = Some l" using low2 by (auto simp: low_ok_def)
  note R = low_returned [OF low shape wv w low2 shape2 ext st3(3) a l]
  have "tj_low st3 w = Some l" using st3(3) l by (simp add: closed_to_def)
  then have "return_to v w st2 = Inr (st3\<lparr>tj_low := (tj_low st3)(v \<mapsto> min a l)\<rparr>)"
    using st3(1) R(2) by (simp add: return_to_def lower_link_def optional_value_def)
  moreover have "tj_inv E nodes G st3" using st3(2) \<open>w \<notin> G\<close> by (simp add: insert_Diff_if)
  ultimately show ?thesis using R lower_link_inv [OF _ R(2)] by blast
qed

lemma cfg_edges_image:
  assumes "searchable gr ord nodes" and "x \<in> nodes" and "gr x = Some nd"
  shows "cfg_edges gr nodes `` {x} = set (ord (nd_succs nd)) \<inter> nodes"
proof -
  have "set (ord (nd_succs nd)) = nd_succs nd" using assms by (force simp: searchable_def)
  then show ?thesis using assms(2,3) by (auto simp: cfg_edges_def)
qed

definition scanned :: "cfg \<Rightarrow> (vid set \<Rightarrow> vid list) \<Rightarrow> vid set \<Rightarrow> vid set \<Rightarrow> vid \<Rightarrow> vid set \<Rightarrow> vid list \<Rightarrow> tarjan \<Rightarrow> bool" where
  "scanned gr ord nodes G v D ws st \<longleftrightarrow> (\<exists>st'. scan_succs gr ord nodes v ws st = Some (Inr st') \<and>
     tj_inv (cfg_edges gr nodes) nodes G st' \<and> low_ok (cfg_edges gr nodes) v (D \<union> (set ws \<inter> nodes)) st' \<and>
     scan_extends v st st')"

lemma scanned_Cons:
  assumes "scanned gr ord nodes G v D' ws st1" and "scan_extends v st st1"
    and "scan_succs gr ord nodes v (w # ws) st = scan_succs gr ord nodes v ws st1"
    and "D' = D \<union> ({w} \<inter> nodes)"
  shows "scanned gr ord nodes G v D (w # ws) st"
proof -
  have "D' \<union> set ws \<inter> nodes = D \<union> (set (w # ws) \<inter> nodes)" using assms(4) by auto
  then show ?thesis using assms(1-3) scan_extends_trans unfolding scanned_def by metis
qed

lemma scan_total:
  assumes ok: "searchable gr ord nodes"
    and "tj_inv (cfg_edges gr nodes) nodes G st" and "top_gray G v st" and "low_ok (cfg_edges gr nodes) v D st"
    and "set ws \<inter> nodes \<subseteq> cfg_edges gr nodes `` {v}" and "card (nodes - dom (tj_index st)) \<le> n"
  shows "scanned gr ord nodes G v D ws st"
  using assms(2-)
proof (induction n arbitrary: G v D ws st rule: less_induct)
  case (less n)
  let ?E = "cfg_edges gr nodes"
  show ?case using less.prems
  proof (induction ws arbitrary: D st)
    case Nil
    then show ?case by (simp add: scanned_def scan_succs.simps scan_extends_refl)
  next
    case (Cons w ws)
    have shape: "tj_shape nodes st" and gray: "gray_ok ?E G st" using Cons.prems(1) by (simp_all add: tj_inv_def)
    have fin: "finite nodes" using ok by (simp add: searchable_def)
    have rest: "scanned gr ord nodes G v D' ws st1"
      if "tj_inv ?E nodes G st1" "low_ok ?E v D' st1" "scan_extends v st st1" for st1 D'
    proof (rule Cons.IH [OF that(1) top_gray_extends [OF Cons.prems(2) gray shape that(3)] that(2)])
      show "set ws \<inter> nodes \<subseteq> ?E `` {v}" using Cons.prems(4) by auto
      have "card (nodes - dom (tj_index st1)) \<le> card (nodes - dom (tj_index st))"
        using that(3) fin by (intro card_mono) (auto simp: scan_extends_def)
      then show "card (nodes - dom (tj_index st1)) \<le> n" using Cons.prems(5) by simp
    qed
    show ?case
    proof (cases "w \<in> nodes")
      case False
      then show ?thesis
        using rest [OF Cons.prems(1,3) scan_extends_refl] scan_extends_refl
        by (intro scanned_Cons [where ?st1.0 = st and D' = D]) (simp_all add: scan_succs.simps [of _ _ _ _ "w # ws"])
    next
      case wn: True
      then have vw: "(v, w) \<in> ?E" using Cons.prems(4) by auto
      then have "v \<in> nodes" by (simp add: cfg_edges_def)
      obtain a where a: "tj_low st v = Some a" using Cons.prems(3) by (auto simp: low_ok_def)
      show ?thesis
      proof (cases "tj_index st w")
        case None
        obtain nd where nd: "gr w = Some nd" using ok wn by (auto simp: searchable_def)
        have E: "(x, w) \<in> ?E\<^sup>*" if "x \<in> G" for x
        proof -
          have "v \<in> set (tj_stack st)" using Cons.prems(2) gray by (auto simp: top_gray_def gray_ok_def)
          then have "(x, v) \<in> ?E\<^sup>*" using gray Cons.prems(2) that unfolding gray_ok_def top_gray_def by blast
          then show ?thesis using vw by (rule rtrancl_into_rtrancl)
        qed
        note ent = enter_inv [OF Cons.prems(1) wn None E]
        have "nodes - dom (tj_index (enter_node w st)) \<subset> nodes - dom (tj_index st)"
          using wn None by (auto simp: enter_node_def)
        then have "card (nodes - dom (tj_index (enter_node w st))) < card (nodes - dom (tj_index st))"
          using fin by (simp add: psubset_card_mono)
        then have "card (nodes - dom (tj_index (enter_node w st))) < n" using Cons.prems(5) by simp
        from less.IH [OF this ent(1) enter_top_gray [OF gray shape None] ent(2), of "ord (nd_succs nd)"]
        have "scanned gr ord nodes (insert w G) w {} (ord (nd_succs nd)) (enter_node w st)"
          using cfg_edges_image [OF ok wn nd] by simp
        then obtain st2 where st2: "scan_succs gr ord nodes w (ord (nd_succs nd)) (enter_node w st) = Some (Inr st2)"
          "tj_inv ?E nodes (insert w G) st2" "low_ok ?E w (?E `` {w}) st2" "scan_extends w (enter_node w st) st2"
          using cfg_edges_image [OF ok wn nd] unfolding scanned_def by auto
        obtain st3 where st3: "return_to v w st2 = Inr st3" "tj_inv ?E nodes G st3" "low_ok ?E v (insert w D) st3"
          "scan_extends v st st3"
          using return_to_inv [OF Cons.prems(1-3) vw None st2(2-4)] by blast
        have "scan_succs gr ord nodes v (w # ws) st = scan_succs gr ord nodes v ws st3"
          using wn None nd st2(1) st3(1) by (simp add: scan_succs.simps [of _ _ _ _ "w # ws"])
        then show ?thesis
          using scanned_Cons [OF rest [OF st3(2-4)] st3(4)] wn by simp
      next
        case (Some i)
        show ?thesis
        proof (cases "w \<in> set (tj_stack st)")
          case True
          let ?st = "st\<lparr>tj_low := (tj_low st)(v \<mapsto> min a i)\<rparr>"
          have "lower_link v i st = Inr ?st" using a by (simp add: lower_link_def optional_value_def)
          then have "scan_succs gr ord nodes v (w # ws) st = scan_succs gr ord nodes v ws ?st"
            using wn Some True by (simp add: scan_succs.simps [of _ _ _ _ "w # ws"])
          moreover have "scan_extends v st ?st" by (simp add: scan_extends_def)
          moreover have "low_ok ?E v (insert w D) ?st" by (rule low_stack_successor [OF Cons.prems(3) True vw Some a])
          ultimately show ?thesis
            using scanned_Cons [OF rest [OF lower_link_inv [OF Cons.prems(1) a]]] wn by simp
        next
          case False
          have "scan_succs gr ord nodes v (w # ws) st = scan_succs gr ord nodes v ws st"
            using wn Some False by (simp add: scan_succs.simps [of _ _ _ _ "w # ws"])
          moreover have "low_ok ?E v (insert w D) st"
            using low_grouped_successor [OF Cons.prems(3) False] Some by blast
          ultimately show ?thesis
            using scanned_Cons [OF rest [OF Cons.prems(1) _ scan_extends_refl] scan_extends_refl] wn by simp
        qed
      qed
    qed
  qed
qed

lemma tj_inv_idle: "tj_inv E nodes {} st \<Longrightarrow> tj_stack st = []"
  by (cases "tj_stack st") (auto simp: tj_inv_def gray_ok_def)

lemma traverse_total:
  assumes ok: "searchable gr ord nodes" and inv: "tj_inv (cfg_edges gr nodes) nodes {} st"
    and v: "v \<in> nodes" "tj_index st v = None"
  shows "\<exists>st'. traverse gr ord nodes v st = Inr st' \<and> tj_inv (cfg_edges gr nodes) nodes {} st' \<and>
    insert v (dom (tj_index st)) \<subseteq> dom (tj_index st')"
proof -
  let ?E = "cfg_edges gr nodes"
  obtain nd where nd: "gr v = Some nd" using ok v(1) by (auto simp: searchable_def)
  have shape: "tj_shape nodes st" and gray: "gray_ok ?E {} st" using inv by (simp_all add: tj_inv_def)
  note ent = enter_inv [OF inv v, simplified]
  have "scanned gr ord nodes {v} v {} (ord (nd_succs nd)) (enter_node v st)"
    using cfg_edges_image [OF ok v(1) nd] by (intro scan_total [OF ok ent(1) enter_top_gray [OF gray shape v(2)] ent(2) _ order_refl]) simp
  then obtain st2 where st2: "scan_succs gr ord nodes v (ord (nd_succs nd)) (enter_node v st) = Some (Inr st2)"
    "tj_inv ?E nodes {v} st2" "low_ok ?E v (?E `` {v}) st2" "scan_extends v (enter_node v st) st2"
    using cfg_edges_image [OF ok v(1) nd] unfolding scanned_def by auto
  obtain st3 where st3: "close_node v st2 = Inr st3" "tj_inv ?E nodes {} st3" "closed_to v st2 st3"
    using close_node_inv [OF st2(2) _ st2(3)] by (auto simp: top_gray_def)
  have "insert v (dom (tj_index st)) \<subseteq> dom (tj_index st3)"
    using st2(4) st3(3) unfolding scan_extends_def enter_node_def closed_to_def by auto
  moreover have "traverse gr ord nodes v st = Inr st3"
    using nd st2(1) st3(1) by (simp add: traverse_def outcome_def)
  ultimately show ?thesis using st3(2) by blast
qed

lemma traverse_all_total:
  assumes ok: "searchable gr ord nodes"
  shows "tj_inv (cfg_edges gr nodes) nodes {} st \<Longrightarrow> set vs \<subseteq> nodes \<Longrightarrow>
    \<exists>st'. traverse_all gr ord nodes vs st = Inr st' \<and> tj_inv (cfg_edges gr nodes) nodes {} st' \<and>
      set vs \<union> dom (tj_index st) \<subseteq> dom (tj_index st')"
proof (induction vs arbitrary: st)
  case (Cons v vs)
  have "\<exists>st1. (if tj_index st v = None then traverse gr ord nodes v st else Inr st) = Inr st1 \<and>
      tj_inv (cfg_edges gr nodes) nodes {} st1 \<and> insert v (dom (tj_index st)) \<subseteq> dom (tj_index st1)"
  proof (cases "tj_index st v")
    case None
    then show ?thesis using traverse_total [OF ok Cons.prems(1)] Cons.prems(2) by simp
  qed (use Cons.prems(1) in auto)
  then obtain st1 where st1: "(if tj_index st v = None then traverse gr ord nodes v st else Inr st) = Inr st1"
    "tj_inv (cfg_edges gr nodes) nodes {} st1" "insert v (dom (tj_index st)) \<subseteq> dom (tj_index st1)" by blast
  obtain st2 where st2: "traverse_all gr ord nodes vs st1 = Inr st2" "tj_inv (cfg_edges gr nodes) nodes {} st2"
    "set vs \<union> dom (tj_index st1) \<subseteq> dom (tj_index st2)"
    using Cons.IH [OF st1(2)] Cons.prems(2) by auto
  have "set (v # vs) \<union> dom (tj_index st) \<subseteq> dom (tj_index st2)" using st1(3) st2(3) unfolding list.set by blast
  then show ?case using st1(1) st2(1,2) by (simp del: bindR_Inr_iff)
qed (auto simp: subset_iff)

lemma tj_inv_start: "tj_inv E nodes {} start_search"
  by (simp add: tj_inv_def tj_shape_def groups_ok_def gray_ok_def start_search_def)

lemma component_in_nodes: "v \<in> nodes \<Longrightarrow> component_of (cfg_edges gr nodes) v \<subseteq> nodes"
proof
  fix x assume "v \<in> nodes" and "x \<in> component_of (cfg_edges gr nodes) v"
  moreover have "cfg_edges gr nodes `` nodes \<subseteq> nodes" by (auto simp: cfg_edges_def)
  ultimately show "x \<in> nodes" using closed_rtrancl [of v x "cfg_edges gr nodes" nodes] by (simp add: component_of_def)
qed

lemma components_found:
  assumes ok: "searchable gr ord nodes"
  shows "\<exists>gs. find_scc gr ord nodes = Inr gs \<and> distinct gs \<and> set gs = component_of (cfg_edges gr nodes) ` nodes"
proof -
  let ?E = "cfg_edges gr nodes"
  have ord: "set (ord nodes) = nodes" using ok by (simp add: searchable_def)
  obtain st where st: "traverse_all gr ord nodes (ord nodes) start_search = Inr st" "tj_inv ?E nodes {} st"
    "nodes \<subseteq> dom (tj_index st)"
    using traverse_all_total [OF ok tj_inv_start [of ?E nodes], of "ord nodes"] ord by auto
  have shape: "tj_shape nodes st" and gr: "groups_ok ?E st" using st(2) by (simp_all add: tj_inv_def)
  have "grouped st = dom (tj_index st)" using shape tj_inv_idle [OF st(2)] by (simp add: tj_shape_def)
  then have all: "grouped st = nodes" using indexed_nodes [OF shape] st(3) by blast
  have cls: "\<And>g. g \<in> set (tj_groups st) \<Longrightarrow> \<exists>v\<in>g. g = component_of ?E v" using gr unfolding groups_ok_def by blast
  have "set (tj_groups st) = component_of ?E ` nodes"
  proof
    show "set (tj_groups st) \<subseteq> component_of ?E ` nodes"
    proof
      fix g assume g: "g \<in> set (tj_groups st)"
      then obtain v where v: "v \<in> g" "g = component_of ?E v" using cls by blast
      then have "v \<in> nodes" using g all by blast
      then show "g \<in> component_of ?E ` nodes" using v(2) by blast
    qed
    show "component_of ?E ` nodes \<subseteq> set (tj_groups st)"
    proof
      fix g assume "g \<in> component_of ?E ` nodes"
      then obtain v where v: "v \<in> nodes" "g = component_of ?E v" by blast
      then obtain h where h: "h \<in> set (tj_groups st)" "v \<in> h" using all by blast
      then obtain u where "h = component_of ?E u" using cls by blast
      then show "g \<in> set (tj_groups st)" using component_eq h v(2) by metis
    qed
  qed
  then show ?thesis using st(1) gr by (simp add: find_scc_def groups_ok_def)
qed

text \<open>C18. \<open>LoopInfo::find_scc\<close> ends without undefined behaviour and returns the strongly connected
  components of the graph on the given nodes: the classes of mutual reachability along edges between
  these nodes, every class exactly once.\<close>

theorem find_scc_components:
  assumes "searchable gr ord nodes"
  shows "\<exists>gs. find_scc gr ord nodes = Inr gs \<and> distinct gs \<and> set gs = component_of (cfg_edges gr nodes) ` nodes"
  by (rule components_found [OF assms])

definition demo_cfg :: cfg where
  "demo_cfg = Map.empty(1 \<mapsto> \<lparr>nd_succs = {2}, nd_prevs = {}\<rparr>, 2 \<mapsto> \<lparr>nd_succs = {3, 5}, nd_prevs = {1, 4}\<rparr>,
     3 \<mapsto> \<lparr>nd_succs = {3, 4}, nd_prevs = {2, 3}\<rparr>, 4 \<mapsto> \<lparr>nd_succs = {2}, nd_prevs = {3}\<rparr>,
     5 \<mapsto> \<lparr>nd_succs = {}, nd_prevs = {2}\<rparr>)"

lemma demo_searchable: "searchable demo_cfg sorted_list_of_set {1, 2, 3, 4, 5}"
  by (simp add: searchable_def demo_cfg_def)

lemma demo_find_scc: "find_scc demo_cfg sorted_list_of_set {1, 2, 3, 4, 5} = Inr [{5}, {2, 3, 4}, {1}]"
  by (simp add: find_scc_def traverse_def scan_succs.simps demo_cfg_def optional_value_def close_node_def
      start_search_def enter_node_def return_to_def lower_link_def outcome_def)

theorem find_scc_components_witness:
  "\<exists>gs. find_scc demo_cfg sorted_list_of_set {1, 2, 3, 4, 5} = Inr gs \<and> {2, 3, 4} \<in> set gs \<and>
     {2, 3, 4} \<in> component_of (cfg_edges demo_cfg {1, 2, 3, 4, 5}) ` {1, 2, 3, 4, 5}"
proof -
  have gs: "set [{5}, {2, 3, 4}, {1}] = component_of (cfg_edges demo_cfg {1, 2, 3, 4, 5}) ` {1, 2, 3, 4, 5}"
    using find_scc_components [OF demo_searchable] demo_find_scc by simp
  have "{2, 3, 4} \<in> set [{5}, {2, 3, 4}, {1 :: vid}]" by simp
  then have "{2, 3, 4} \<in> component_of (cfg_edges demo_cfg {1, 2, 3, 4, 5}) ` {1, 2, 3, 4, 5}" unfolding gs .
  then show ?thesis using demo_find_scc by simp
qed

end
