(* ===== verification/LoopNest.thy ===== *)
theory LoopNest
  imports Tarjan
begin

text \<open>
  What \<open>LoopInfo::run\<close> finds: every loop is strongly connected, not trivial, and entered from
  outside only through its header; the loop that \<open>get_innermost\<close> returns for a block is contained in
  every other loop that was found around the block.
\<close>

section \<open>The specification\<close>

definition flow :: "'z ir_scheme \<Rightarrow> vid set \<Rightarrow> (vid \<times> vid) set" where
  "flow s B = {(x, y). x \<in> B \<and> y \<in> B \<and> y \<in> set (succs s x)}"

definition single_entry_loop :: "'z ir_scheme \<Rightarrow> vid \<Rightarrow> vid set \<Rightarrow> bool" where
  "single_entry_loop s h B \<longleftrightarrow> h \<in> B \<and> (\<forall>x\<in>B. \<forall>y\<in>B. (x, y) \<in> (flow s B)\<^sup>*) \<and> (h, h) \<in> (flow s B)\<^sup>+ \<and>
     (\<forall>b\<in>B - {h}. set (preds s b) \<subseteq> B)"

definition orders_ok :: "loop_orders \<Rightarrow> bool" where
  "orders_ok ords \<longleftrightarrow> (\<forall>A. finite A \<longrightarrow> set (node_order ords A) = A) \<and>
     (\<forall>gs. distinct gs \<longrightarrow> set (group_order ords gs) = set gs \<and> distinct (group_order ords gs))"

text \<open>The edges of each function stay among its blocks.\<close>

definition local_flow :: "'z ir_scheme \<Rightarrow> vid \<Rightarrow> bool" where
  "local_flow s f \<longleftrightarrow> (\<forall>b\<in>set (blocks s f). b \<in> dom (bbs s) \<and> set (preds s b) \<subseteq> set (blocks s f) \<and>
     set (succs s b) \<subseteq> set (blocks s f))"

definition function_cfg :: "'z ir_scheme \<Rightarrow> vid \<Rightarrow> cfg" where
  "function_cfg s f b = (if b \<in> set (blocks s f) then Some \<lparr>nd_succs = set (succs s b), nd_prevs = set (preds s b)\<rparr> else None)"

section \<open>The graph\<close>

lemma find_nodes_total: "set bs \<subseteq> known \<Longrightarrow> find_nodes known msg bs = Inr (set bs)"
  by (induction bs) auto

lemma build_edges_total:
  assumes "set bs \<subseteq> known" and "\<And>b. b \<in> set bs \<Longrightarrow> b \<in> dom (bbs s) \<and> set (preds s b) \<subseteq> known \<and> set (succs s b) \<subseteq> known"
  shows "build_edges s known bs gr =
    Inr (\<lambda>b. if b \<in> set bs then Some \<lparr>nd_succs = set (succs s b), nd_prevs = set (preds s b)\<rparr> else gr b)"
  using assms
proof (induction bs arbitrary: gr)
  case (Cons b bs)
  obtain r where r: "bbs s b = Some r" using Cons.prems(2) [of b] by auto
  then have "preds s b = pre_bbs r" "succs s b = succ_bbs r" by (simp_all add: preds_def succs_def)
  moreover have "set (pre_bbs r) \<subseteq> known" "set (succ_bbs r) \<subseteq> known"
    using Cons.prems(2) [of b] calculation by simp_all
  ultimately show ?case
    using Cons r find_nodes_total by (auto simp: fun_eq_iff)
qed simp

lemma build_cfg_total: "local_flow s f \<Longrightarrow> build_cfg s f = Inr (function_cfg s f)"
  using build_edges_total [of "blocks s f" "set (blocks s f)" s Map.empty]
  by (simp add: build_cfg_def local_flow_def function_cfg_def fun_eq_iff)

lemma function_cfg_searchable:
  assumes "orders_ok ords" and "R \<subseteq> set (blocks s f)"
  shows "searchable (function_cfg s f) (node_order ords) R"
  using assms by (auto simp: searchable_def function_cfg_def orders_ok_def intro: finite_subset)

lemma cfg_edges_flow:
  assumes "R \<subseteq> set (blocks s f)"
  shows "cfg_edges (function_cfg s f) R = flow s R"
  using assms by (auto simp: cfg_edges_def function_cfg_def flow_def split: if_splits)

section \<open>Components\<close>

lemma flow_mono: "A \<subseteq> B \<Longrightarrow> flow s A \<subseteq> flow s B"
  by (auto simp: flow_def)

lemma component_mono: "E \<subseteq> F \<Longrightarrow> component_of E x \<subseteq> component_of F x"
  unfolding component_of_def using rtrancl_mono by blast

text \<open>A path between two nodes of a component stays inside the component.\<close>

lemma component_path:
  assumes "(x, y) \<in> (flow s R)\<^sup>*" and "(y, x) \<in> (flow s R)\<^sup>*"
  shows "(x, y) \<in> (flow s (component_of (flow s R) x))\<^sup>*"
  using assms
proof (induction rule: rtrancl_induct)
  case (step y z)
  let ?C = "component_of (flow s R) x"
  have "(y, x) \<in> (flow s R)\<^sup>*" using step.hyps(2) step.prems by (rule converse_rtrancl_into_rtrancl)
  then have "y \<in> ?C" "(x, y) \<in> (flow s ?C)\<^sup>*" using step by (simp_all add: component_of_def)
  moreover have "(x, z) \<in> (flow s R)\<^sup>*" using step.hyps by (rule rtrancl_into_rtrancl)
  then have "z \<in> ?C" using step.prems by (simp add: component_of_def)
  ultimately have "(y, z) \<in> flow s ?C" using step.hyps(2) by (simp add: flow_def)
  with \<open>(x, y) \<in> (flow s ?C)\<^sup>*\<close> show ?case by (rule rtrancl_into_rtrancl)
qed simp

lemma component_connected:
  assumes "C = component_of (flow s R) v" and "x \<in> C" and "y \<in> C"
  shows "(x, y) \<in> (flow s C)\<^sup>*"
proof -
  have "C = component_of (flow s R) x" using component_eq assms(1,2) by metis
  moreover from this have "(x, y) \<in> (flow s R)\<^sup>*" "(y, x) \<in> (flow s R)\<^sup>*" using assms(3) by (simp_all add: component_of_def)
  ultimately show ?thesis using component_path by metis
qed

section \<open>One component\<close>

lemma is_loop_total:
  assumes ok: "searchable gr ord R" and "C \<subseteq> R" and "C \<noteq> {}"
  shows "\<exists>b. is_loop gr ord C = Inr b \<and> (b \<longrightarrow> card C > 1 \<or> (\<exists>v nd. C = {v} \<and> gr v = Some nd \<and> v \<in> nd_succs nd))"
proof (cases "card C > 1")
  case False
  have "finite C" using assms finite_subset by (auto simp: searchable_def)
  then have "card C = 1" using False assms(3) by (simp add: le_less_Suc_eq Suc_leI card_gt_0_iff le_antisym)
  then obtain v where v: "C = {v}" by (auto simp: card_1_singleton_iff)
  obtain nd where nd: "gr v = Some nd" using ok assms(2) v by (auto simp: searchable_def)
  have "set (ord C) = {v}" using ok \<open>finite C\<close> v by (simp add: searchable_def)
  then have "hd (ord C) = v" by (metis empty_set hd_in_set insert_not_empty singletonD)
  then show ?thesis using v nd by (simp add: is_loop_def)
qed (use assms(3) in \<open>simp add: is_loop_def ex_bool_eq\<close>)

lemma find_loop_header_spec:
  assumes ok: "searchable gr ord R" and C: "C \<subseteq> R" and h: "find_loop_header gr ord entry C = Some h"
  shows "h \<in> C" and "\<And>b nd. b \<in> C - {h} \<Longrightarrow> gr b = Some nd \<Longrightarrow> nd_prevs nd \<subseteq> C"
proof -
  let ?D = "Set.filter (entered gr entry C) C"
  have "card ?D = 1" and hd: "h = hd (ord ?D)" using h by (simp_all add: find_loop_header_def Let_def split: if_splits)
  then obtain v where v: "?D = {v}" by (auto simp: card_1_singleton_iff)
  then have "set (ord ?D) = {v}" using ok by (simp add: searchable_def)
  then have "h = v" using hd by (metis empty_set hd_in_set insert_not_empty singletonD)
  then have D: "?D = {h}" using v by simp
  then have "h \<in> ?D" by simp
  then show "h \<in> C" by simp
  fix b nd assume b: "b \<in> C - {h}" "gr b = Some nd"
  then have "b \<notin> ?D" using D by blast
  then have "\<not> entered gr entry C b" using b(1) by simp
  then show "nd_prevs nd \<subseteq> C" using b(2) by (auto simp: entered_def)
qed

lemma group_single_entry:
  assumes o: "orders_ok ords" and R: "R \<subseteq> set (blocks s f)" and C: "C = component_of (flow s R) v" "v \<in> R"
    and lp: "is_loop (function_cfg s f) (node_order ords) C = Inr True"
    and h: "find_loop_header (function_cfg s f) (node_order ords) entry C = Some h"
  shows "single_entry_loop s h C"
proof -
  let ?gr = "function_cfg s f"
  note ok = function_cfg_searchable [OF o R]
  have CR: "C \<subseteq> R" using component_in_nodes [OF C(2)] C(1) cfg_edges_flow [OF R] by metis
  note H = find_loop_header_spec [OF ok CR h]
  have con: "(x, y) \<in> (flow s C)\<^sup>*" if "x \<in> C" "y \<in> C" for x y using component_connected [OF C(1) that] .
  have "(h, h) \<in> (flow s C)\<^sup>+"
  proof -
    have "C \<noteq> {}" using H(1) by blast
    then consider "card C > 1" | u nd where "C = {u}" "?gr u = Some nd" "u \<in> nd_succs nd"
      using is_loop_total [OF ok CR] lp by auto
    then show ?thesis
    proof cases
      case 1
      then have "C \<noteq> {h}" by auto
      then obtain y where y: "y \<in> C" "y \<noteq> h" using H(1) by blast
      then have "(h, y) \<in> (flow s C)\<^sup>+" using con [OF H(1) y(1)] by (metis rtranclD)
      then show ?thesis using con [OF y(1) H(1)] by (rule trancl_rtrancl_trancl)
    next
      case 2
      then have "(h, h) \<in> flow s C" using H(1) CR R by (auto simp: flow_def function_cfg_def split: if_splits)
      then show ?thesis by blast
    qed
  qed
  moreover have "set (preds s b) \<subseteq> C" if b: "b \<in> C - {h}" for b
  proof -
    have "b \<in> set (blocks s f)" using b CR R by blast
    then show ?thesis using H(2) [OF b] by (simp add: function_cfg_def)
  qed
  ultimately show ?thesis using H(1) con by (simp add: single_entry_loop_def)
qed

section \<open>The nest\<close>

text \<open>What holds between rounds: \<open>R\<close> is the rest of the graph, \<open>T\<close> the nodes that the current round will
  remove.\<close>

definition loop_entry :: "'z ir_scheme \<Rightarrow> vid set \<Rightarrow> vid set \<Rightarrow> loop_info \<Rightarrow> nat \<Rightarrow> bool" where
  "loop_entry s R T li l \<longleftrightarrow> l < next_loop li \<and> (\<exists>B h. loop_blocks li l = Some B \<and> loop2base li l = Some h \<and>
     base2loop li h = Some l \<and> single_entry_loop s h B \<and> h \<notin> R - T \<and> (\<forall>x\<in>R \<inter> B. component_of (flow s R) x \<subseteq> B) \<and>
     (\<forall>b\<in>B. bb2base li b \<noteq> None))"

definition innermost :: "loop_info \<Rightarrow> vid \<Rightarrow> nat \<Rightarrow> bool" where
  "innermost li b l \<longleftrightarrow> l \<in> loop_set li \<and> (\<exists>B. loop_blocks li l = Some B \<and> b \<in> B \<and>
     (\<forall>l'\<in>loop_set li. \<forall>B'. loop_blocks li l' = Some B' \<longrightarrow> b \<in> B' \<longrightarrow> B \<subseteq> B'))"

definition nest :: "'z ir_scheme \<Rightarrow> vid set \<Rightarrow> vid set \<Rightarrow> loop_info \<Rightarrow> bool" where
  "nest s R T li \<longleftrightarrow> (\<forall>l\<in>loop_set li. loop_entry s R T li l) \<and>
     (\<forall>b h. bb2base li b = Some h \<longrightarrow> (\<exists>l. base2loop li h = Some l \<and> loop2base li l = Some h \<and> innermost li b l))"

lemma nest_around:
  assumes "nest s R T li" and "l \<in> loop_set li" and "loop_blocks li l = Some B" and "x \<in> R" "x \<in> B"
  shows "component_of (flow s R) x \<subseteq> B"
proof -
  have "loop_entry s R T li l" using assms(1,2) by (simp add: nest_def)
  then have "\<forall>x\<in>R \<inter> B. component_of (flow s R) x \<subseteq> B" using assms(3) by (auto simp only: loop_entry_def option.inject)
  then show ?thesis using assms(4,5) by blast
qed

lemma nest_header:
  assumes "nest s R T li" and "l \<in> loop_set li" and "loop2base li l = Some h"
  shows "h \<notin> R - T"
  using assms by (auto simp: nest_def loop_entry_def)

lemma fold_bb2base: "fold (\<lambda>b m. m(b \<mapsto> h)) xs m b = (if b \<in> set xs then Some h else m b)"
  by (induction xs arbitrary: m) auto

lemma nest_add_loop:
  assumes N: "nest s R T li" and C: "C = component_of (flow s R) v" "C \<subseteq> R" "C \<inter> T = {}"
    and loop: "single_entry_loop s h C" and ord: "set (ord C) = C"
  shows "nest s R (insert h T) (add_loop ord f C h li)"
proof -
  let ?li = "add_loop ord f C h li" and ?n = "next_loop li"
  have hC: "h \<in> C" using loop by (simp add: single_entry_loop_def)
  have bb: "bb2base ?li b = (if b \<in> C then Some h else bb2base li b)" for b
    using ord by (simp add: add_loop_def Let_def fold_bb2base)
  have sets: "loop_set ?li = insert ?n (loop_set li)" "loop_blocks ?li = (loop_blocks li)(?n \<mapsto> C)"
    "loop2base ?li = (loop2base li)(?n \<mapsto> h)" "base2loop ?li = (base2loop li)(h \<mapsto> ?n)" "next_loop ?li = Suc ?n"
    by (simp_all add: add_loop_def Let_def)
  have old: "l < ?n" if "l \<in> loop_set li" for l using N that by (auto simp: nest_def loop_entry_def)
  have comp: "component_of (flow s R) x = C" if "x \<in> C" for x using component_eq C(1) that by metis
  have around: "C \<subseteq> B" if "l \<in> loop_set li" "loop_blocks li l = Some B" "x \<in> C" "x \<in> B" for l B x
  proof -
    have "component_of (flow s R) x \<subseteq> B" using nest_around [OF N that(1,2) _ that(4)] that(3) C(2) by blast
    then show ?thesis using comp [OF that(3)] by simp
  qed
  have "loop_entry s R (insert h T) ?li l" if l: "l \<in> loop_set ?li" for l
  proof (cases "l = ?n")
    case True
    then show ?thesis using loop comp bb by (auto simp: loop_entry_def sets)
  next
    case False
    then have ll: "l \<in> loop_set li" using l sets by simp
    then obtain B k where k: "loop_blocks li l = Some B" "loop2base li l = Some k" "base2loop li k = Some l"
      "single_entry_loop s k B" "k \<notin> R - T" "\<forall>x\<in>R \<inter> B. component_of (flow s R) x \<subseteq> B" "\<forall>b\<in>B. bb2base li b \<noteq> None"
      using N unfolding nest_def loop_entry_def by blast
    have "k \<noteq> h" using k(5) hC C(2,3) by blast
    then show ?thesis using k False old [OF ll] bb by (auto simp: loop_entry_def sets)
  qed
  moreover have "\<exists>l. base2loop ?li k = Some l \<and> loop2base ?li l = Some k \<and> innermost ?li b l" if bk: "bb2base ?li b = Some k" for b k
  proof (cases "b \<in> C")
    case True
    then have "k = h" using bk bb by simp
    moreover have "innermost ?li b ?n"
      using True around old by (auto simp: innermost_def sets)
    ultimately show ?thesis by (simp add: sets)
  next
    case False
    then have "bb2base li b = Some k" using bk bb by simp
    then obtain l where l: "base2loop li k = Some l" "loop2base li l = Some k" "innermost li b l"
      using N unfolding nest_def by blast
    have ll: "l \<in> loop_set li" using l(3) by (simp add: innermost_def)
    have "innermost ?li b l" using l(3) old False by (auto simp: innermost_def sets)
    moreover have "k \<noteq> h" using nest_header [OF N ll l(2)] hC C(2,3) by blast
    ultimately show ?thesis using l(1,2) old [OF ll] by (simp add: sets)
  qed
  ultimately show ?thesis by (simp add: nest_def)
qed

definition bodies :: "loop_info \<Rightarrow> vid set" where
  "bodies li = {b. \<exists>l\<in>loop_set li. \<exists>B. loop_blocks li l = Some B \<and> b \<in> B}"

lemma nest_mono: "nest s R T li \<Longrightarrow> T \<subseteq> T' \<Longrightarrow> nest s R T' li"
  unfolding nest_def loop_entry_def by blast

lemma nest_shrink:
  assumes "nest s R T li"
  shows "nest s (R - T) {} li"
proof -
  have "loop_entry s (R - T) {} li l" if l: "loop_entry s R T li l" for l
  proof -
    obtain B h where k: "loop_blocks li l = Some B" "loop2base li l = Some h" "base2loop li h = Some l"
      "single_entry_loop s h B" "h \<notin> R - T" "\<forall>x\<in>R \<inter> B. component_of (flow s R) x \<subseteq> B" "\<forall>b\<in>B. bb2base li b \<noteq> None"
      and n: "l < next_loop li"
      using l unfolding loop_entry_def by blast
    have "\<forall>x\<in>(R - T) \<inter> B. component_of (flow s (R - T)) x \<subseteq> B"
      using k(6) component_mono [OF flow_mono, of "R - T" R s] by blast
    then show ?thesis using k(1-5,7) n unfolding loop_entry_def by auto
  qed
  then show ?thesis using assms by (auto simp: nest_def)
qed

lemma nest_restart:
  assumes "nest s R T li" and "bodies li \<inter> R' = {}"
  shows "nest s R' {} li"
proof -
  have "loop_entry s R' {} li l" if l: "l \<in> loop_set li" "loop_entry s R T li l" for l
  proof -
    obtain B h where k: "loop_blocks li l = Some B" "loop2base li l = Some h" "base2loop li h = Some l"
      "single_entry_loop s h B" "\<forall>b\<in>B. bb2base li b \<noteq> None" and n: "l < next_loop li"
      using l(2) unfolding loop_entry_def by blast
    have B: "B \<inter> R' = {}" using assms(2) l(1) k(1) unfolding bodies_def by blast
    then have "h \<notin> R'" using k(4) by (auto simp: single_entry_loop_def)
    then show ?thesis using k n B unfolding loop_entry_def by auto
  qed
  then show ?thesis using assms(1) by (auto simp: nest_def)
qed

lemma bodies_add_loop:
  assumes "nest s R T li"
  shows "bodies (add_loop ord f C h li) \<subseteq> bodies li \<union> C"
proof -
  have "l < next_loop li" if "l \<in> loop_set li" for l using assms that by (auto simp: nest_def loop_entry_def)
  then show ?thesis by (auto simp: bodies_def add_loop_def Let_def split: if_splits)
qed

section \<open>The rounds\<close>

definition visited_groups :: "'z ir_scheme \<Rightarrow> vid set \<Rightarrow> vid set \<Rightarrow> vid set \<Rightarrow> loop_info \<Rightarrow> vid set \<times> loop_info \<Rightarrow> bool" where
  "visited_groups s R C T li = (\<lambda>(T', li'). nest s R T' li' \<and> T \<subseteq> T' \<and> T' \<subseteq> T \<union> C \<and> (C \<noteq> {} \<longrightarrow> T' \<inter> C \<noteq> {}) \<and>
     bodies li' \<subseteq> bodies li \<union> C)"

lemma visit_group_total:
  assumes o: "orders_ok ords" and R: "R \<subseteq> set (blocks s f)" and C: "C = component_of (flow s R) v" "v \<in> R" "C \<inter> T = {}"
    and N: "nest s R T li"
  shows "\<exists>st. visit_group (function_cfg s f) (node_order ords) f' entry C (T, li) = Inr st \<and> visited_groups s R C T li st"
proof -
  let ?gr = "function_cfg s f" and ?ord = "node_order ords"
  have CR: "C \<subseteq> R" using component_in_nodes [OF C(2)] C(1) cfg_edges_flow [OF R] by metis
  have ne: "C \<noteq> {}" using C(1) component_refl by blast
  obtain lp where lp: "is_loop ?gr ?ord C = Inr lp" using is_loop_total [OF function_cfg_searchable [OF o R] CR ne] by blast
  show ?thesis
  proof (cases "if lp then find_loop_header ?gr ?ord entry C else None")
    case None
    then have "visit_group ?gr ?ord f' entry C (T, li) = Inr (T \<union> C, li)" using lp by (simp add: visit_group_def)
    moreover have "visited_groups s R C T li (T \<union> C, li)" using nest_mono [OF N] ne by (auto simp: visited_groups_def)
    ultimately show ?thesis by blast
  next
    case (Some h)
    then have h: "lp" "find_loop_header ?gr ?ord entry C = Some h" by (simp_all split: if_splits)
    have loop: "single_entry_loop s h C" using group_single_entry [OF o R C(1,2) _ h(2)] lp h(1) by simp
    have "finite C" by (rule finite_subset [OF subset_trans [OF CR R]]) simp
    then have ord: "set (?ord C) = C" using o by (simp add: orders_ok_def)
    have "visit_group ?gr ?ord f' entry C (T, li) = Inr (insert h T, add_loop ?ord f' C h li)"
      using lp h by (simp add: visit_group_def)
    moreover have "visited_groups s R C T li (insert h T, add_loop ?ord f' C h li)"
      using nest_add_loop [where ord = ?ord, OF N C(1) CR C(3) loop ord] bodies_add_loop [OF N] loop
      by (auto simp: visited_groups_def single_entry_loop_def)
    ultimately show ?thesis by blast
  qed
qed

lemma components_disjoint:
  assumes "A = component_of E v" and "B = component_of E w" and "A \<noteq> B"
  shows "A \<inter> B = {}"
  using assms component_eq by blast

lemma visit_groups_total:
  assumes o: "orders_ok ords" and R: "R \<subseteq> set (blocks s f)"
  shows "distinct gs \<Longrightarrow> set gs \<subseteq> component_of (flow s R) ` R \<Longrightarrow> \<Union> (set gs) \<inter> T = {} \<Longrightarrow> nest s R T li \<Longrightarrow>
    \<exists>st. visit_groups (function_cfg s f) (node_order ords) f' entry gs (T, li) = Inr st \<and>
      visited_groups s R (\<Union> (set gs)) T li st"
proof (induction gs arbitrary: T li)
  case Nil
  then show ?case by (auto simp: visited_groups_def)
next
  case (Cons C gs)
  let ?U = "\<Union> (set gs)"
  obtain v where v: "C = component_of (flow s R) v" "v \<in> R" using Cons.prems(2) by auto
  have ne: "C \<noteq> {}" using v(1) component_refl by blast
  have "C \<inter> T = {}" using Cons.prems(3) by auto
  then obtain T1 li1 where one: "visit_group (function_cfg s f) (node_order ords) f' entry C (T, li) = Inr (T1, li1)"
    "visited_groups s R C T li (T1, li1)"
    using visit_group_total [OF o R v _ Cons.prems(4)] by (metis prod.collapse)
  have "C \<inter> D = {}" if "D \<in> set gs" for D
  proof -
    obtain w where "D = component_of (flow s R) w" using Cons.prems(2) \<open>D \<in> set gs\<close> by auto
    moreover have "C \<noteq> D" using Cons.prems(1) that by auto
    ultimately show ?thesis using components_disjoint [OF v(1)] by blast
  qed
  moreover have "T1 \<subseteq> T \<union> C" and N1: "nest s R T1 li1" using one(2) by (simp_all add: visited_groups_def)
  moreover have "?U \<inter> T = {}" using Cons.prems(3) by auto
  ultimately have "?U \<inter> T1 = {}" by blast
  then obtain T2 li2 where two: "visit_groups (function_cfg s f) (node_order ords) f' entry gs (T1, li1) = Inr (T2, li2)"
    "visited_groups s R ?U T1 li1 (T2, li2)"
    using Cons.IH [OF _ _ _ N1] Cons.prems(1,2) by (metis distinct.simps(2) list.set_intros(2) prod.collapse subsetD subsetI)
  have "visited_groups s R (\<Union> (set (C # gs))) T li (T2, li2)"
    using one(2) two(2) ne by (auto simp: visited_groups_def)
  then show ?case using one(1) two(1) by (simp del: bindR_Inr_iff)
qed

definition round_inv :: "'z ir_scheme \<Rightarrow> vid \<Rightarrow> vid set \<Rightarrow> bool \<times> vid set \<times> loop_info \<Rightarrow> bool" where
  "round_inv s f D = (\<lambda>(_, R, li). R \<subseteq> set (blocks s f) \<and> nest s R {} li \<and> bodies li \<subseteq> D)"

lemma loop_round_total:
  assumes o: "orders_ok ords" and D: "set (blocks s f) \<subseteq> D" and I: "round_inv s f D (True, R, li)"
  shows "\<exists>st. loop_round (function_cfg s f) ords f entry (True, R, li) = Inr st \<and> round_inv s f D st \<and>
    (st, (True, R, li)) \<in> measure (\<lambda>(b, R, _). card R + (if b then 1 else 0))"
proof -
  let ?gr = "function_cfg s f"
  have R: "R \<subseteq> set (blocks s f)" and N: "nest s R {} li" and B: "bodies li \<subseteq> D" using I by (simp_all add: round_inv_def)
  have "finite R" using R finite_subset by blast
  obtain gs where gs: "find_scc ?gr (node_order ords) R = Inr gs" "distinct gs" "set gs = component_of (flow s R) ` R"
    using components_found [OF function_cfg_searchable [OF o R]] cfg_edges_flow [OF R] by auto
  show ?thesis
  proof (cases "gs = []")
    case True
    then have "loop_round ?gr ords f entry (True, R, li) = Inr (False, R, li)" using gs(1) by (simp add: loop_round_def)
    then show ?thesis using I by (simp add: round_inv_def)
  next
    case False
    let ?gs = "group_order ords gs"
    have g: "set ?gs = set gs" "distinct ?gs" using o gs(2) by (simp_all add: orders_ok_def)
    have U: "\<Union> (set ?gs) \<subseteq> R"
      unfolding g gs(3) using component_in_nodes [of _ R ?gr] cfg_edges_flow [OF R] by auto
    obtain T li1 where st: "visit_groups ?gr (node_order ords) f entry ?gs ({}, li) = Inr (T, li1)"
      "visited_groups s R (\<Union> (set ?gs)) {} li (T, li1)"
      using visit_groups_total [OF o R g(2) _ _ N, of f entry] g(1) gs(3) by (metis Int_empty_right order_refl prod.collapse)
    have "R \<noteq> {}" using False gs(3) by auto
    then obtain x where "x \<in> R" by blast
    then have "component_of (flow s R) x \<in> set ?gs" using g(1) gs(3) by blast
    then have "\<Union> (set ?gs) \<noteq> {}" using component_refl by blast
    then have "R - T \<subset> R" using st(2) U by (auto simp: visited_groups_def)
    then have "card (R - T) < card R" using \<open>finite R\<close> by (rule_tac psubset_card_mono)
    moreover have "loop_round ?gr ords f entry (True, R, li) = Inr (True, R - T, li1)"
      using False gs(1) st(1) by (simp add: loop_round_def)
    moreover have "round_inv s f D (True, R - T, li1)"
    proof -
      have "bodies li1 \<subseteq> D" using st(2) U R D B unfolding visited_groups_def by blast
      then show ?thesis using st(2) nest_shrink R by (auto simp: round_inv_def visited_groups_def)
    qed
    ultimately show ?thesis by auto
  qed
qed

section \<open>The analysis\<close>

lemma loops_of_function_total:
  assumes o: "orders_ok ords" and local: "local_flow s f" and ne: "blocks s f \<noteq> []"
    and N: "nest s R T li" and B: "bodies li \<subseteq> D" "D \<inter> set (blocks s f) = {}"
  shows "\<exists>li'. loops_of_function ords s f li = Inr li' \<and> nest s {} {} li' \<and> bodies li' \<subseteq> D \<union> set (blocks s f)"
proof -
  let ?gr = "function_cfg s f" and ?D = "D \<union> set (blocks s f)"
  obtain entry where entry: "entry_block s f = Inr entry" using ne by (cases "blocks s f") (auto simp: entry_block_def)
  have "nest s (set (blocks s f)) {} li" using nest_restart [OF N] B by blast
  then have "round_inv s f ?D (True, set (blocks s f), li)" using B by (auto simp: round_inv_def)
  then have "\<exists>t. whileR fst (loop_round ?gr ords f entry) (True, set (blocks s f), li) = Some (Inr t) \<and>
      round_inv s f ?D t \<and> \<not> fst t"
  proof (rule whileR_total)
    fix st :: "bool \<times> vid set \<times> loop_info"
    assume "round_inv s f ?D st" and "fst st"
    then obtain R1 li1 where "st = (True, R1, li1)" "round_inv s f ?D (True, R1, li1)" by (cases st) auto
    then show "\<exists>st'. loop_round ?gr ords f entry st = Inr st' \<and> round_inv s f ?D st' \<and>
        (st', st) \<in> measure (\<lambda>(b, R, _). card R + (if b then 1 else 0))"
      using loop_round_total [OF o, of s f ?D R1 li1 entry] by simp
  qed simp
  then obtain b R1 li1 where t: "whileR fst (loop_round ?gr ords f entry) (True, set (blocks s f), li) = Some (Inr (b, R1, li1))"
    "round_inv s f ?D (b, R1, li1)" by (metis prod.collapse)
  have "nest s {} {} li1" using nest_restart [of s R1 "{}" li1 "{}"] t(2) by (simp add: round_inv_def)
  moreover have "loops_of_function ords s f li = Inr li1"
    using build_cfg_total [OF local] entry t(1) by (simp add: loops_of_function_def outcome_def)
  ultimately show ?thesis using t(2) by (auto simp: round_inv_def)
qed

definition loopable :: "'z ir_scheme \<Rightarrow> bool" where
  "loopable s \<longleftrightarrow> distinct (function_list s) \<and> blocks_ok s \<and> (\<forall>f\<in>set (function_list s). f \<in> dom (funcs s) \<and> local_flow s f)"

lemma function_blocks_disjoint: "blocks_ok s \<Longrightarrow> f \<noteq> g \<Longrightarrow> set (blocks s f) \<inter> set (blocks s g) = {}"
  unfolding blocks_ok_def disjoint_iff by (metis option.inject)

lemma loops_of_functions_total:
  assumes o: "orders_ok ords" and b: "blocks_ok s"
  shows "distinct fs \<Longrightarrow> \<forall>f\<in>set fs. f \<in> dom (funcs s) \<and> local_flow s f \<Longrightarrow> nest s {} {} li \<Longrightarrow>
    \<forall>f\<in>set fs. bodies li \<inter> set (blocks s f) = {} \<Longrightarrow>
    \<exists>li'. loops_of_functions ords s fs li = Inr li' \<and> nest s {} {} li'"
proof (induction fs arbitrary: li)
  case (Cons f fs)
  obtain r where r: "funcs s f = Some r" using Cons.prems(2) by auto
  have decl: "is_declaration s f = Inr (blocks s f = [])" using r by (simp add: is_declaration_def blocks_def)
  have "\<exists>li1. (if blocks s f = [] then Inr li else loops_of_function ords s f li) = Inr li1 \<and> nest s {} {} li1 \<and>
      bodies li1 \<subseteq> bodies li \<union> set (blocks s f)"
    using loops_of_function_total [OF o _ _ Cons.prems(3) order_refl] Cons.prems(2,3,4) by auto
  then obtain li1 where li1: "(if blocks s f = [] then Inr li else loops_of_function ords s f li) = Inr li1"
    "nest s {} {} li1" "bodies li1 \<subseteq> bodies li \<union> set (blocks s f)" by blast
  have "bodies li1 \<inter> set (blocks s g) = {}" if "g \<in> set fs" for g
  proof -
    have "bodies li \<inter> set (blocks s g) = {}" using Cons.prems(4) that by simp
    moreover have "set (blocks s f) \<inter> set (blocks s g) = {}" using Cons.prems(1) that by (intro function_blocks_disjoint [OF b]) auto
    ultimately show ?thesis using li1(3) by blast
  qed
  then obtain li2 where "loops_of_functions ords s fs li1 = Inr li2" "nest s {} {} li2"
    using Cons.IH [OF _ _ li1(2)] Cons.prems(1,2) by auto
  then show ?case using li1(1) decl by (simp del: bindR_Inr_iff)
qed simp

lemma LoopInfo_run_total:
  assumes "orders_ok ords" and "loopable s"
  shows "\<exists>li. LoopInfo_run ords s = Inr li \<and> nest s {} {} li"
proof -
  have "nest s {} {} empty_loop_info" "bodies empty_loop_info = {}" by (simp_all add: nest_def bodies_def empty_loop_info_def)
  then show ?thesis using loops_of_functions_total [OF assms(1), of s "function_list s" empty_loop_info] assms(2) by (simp add: LoopInfo_run_def loopable_def)
qed

text \<open>C20. \<open>LoopInfo::run\<close> ends on every module whose edges stay inside functions, whatever the order in
  which it walks its hash sets, and each loop it registers has a header \<open>get_base\<close>, is a strongly
  connected set of blocks with at least one edge, and can be entered from outside only at the header.\<close>

theorem loops_single_entry:
  assumes "orders_ok ords" and "loopable s"
  shows "\<exists>li. LoopInfo_run ords s = Inr li \<and> (\<forall>l\<in>loop_set li. \<exists>h B. get_base li l = Some h \<and>
    loop_blocks li l = Some B \<and> single_entry_loop s h B)"
  using LoopInfo_run_total [OF assms] by (fastforce simp: nest_def loop_entry_def get_base_def)

text \<open>C21. \<open>get_innermost\<close> answers null exactly for the blocks in no loop, and otherwise a loop around the
  block that lies inside every other loop around the block.\<close>

theorem get_innermost_correct:
  assumes "orders_ok ords" and "loopable s"
  shows "\<exists>li. LoopInfo_run ords s = Inr li \<and> (\<forall>b. case get_innermost li b of
    None \<Rightarrow> b \<notin> bodies li | Some l \<Rightarrow> innermost li b l)"
proof -
  obtain li where li: "LoopInfo_run ords s = Inr li" "nest s {} {} li" using LoopInfo_run_total [OF assms] by blast
  have "case get_innermost li b of None \<Rightarrow> b \<notin> bodies li | Some l \<Rightarrow> innermost li b l" for b
  proof (cases "bb2base li b")
    case None
    have "b \<notin> bodies li"
    proof
      assume "b \<in> bodies li"
      then obtain l B where l: "l \<in> loop_set li" "loop_blocks li l = Some B" "b \<in> B" by (auto simp: bodies_def)
      then have "\<forall>b\<in>B. bb2base li b \<noteq> None" using li(2) by (force simp: nest_def loop_entry_def)
      then show False using l(3) None by blast
    qed
    then show ?thesis using None by (simp add: get_innermost_def)
  next
    case (Some h)
    then obtain l where "base2loop li h = Some l" "innermost li b l" using li(2) unfolding nest_def by blast
    then show ?thesis using Some by (simp add: get_innermost_def)
  qed
  then show ?thesis using li(1) by blast
qed

section \<open>An example\<close>

text \<open>A function with a loop of the blocks 2, 3 and 4 around a loop of the block 3.\<close>

definition loop_demo :: ir where
  "loop_demo = \<lparr>vals = Map.empty, bbs = Map.empty(1 \<mapsto> \<lparr>pre_bbs = [], succ_bbs = [2], instr_list = [], bparent = 0\<rparr>,
     2 \<mapsto> \<lparr>pre_bbs = [1, 4], succ_bbs = [3, 5], instr_list = [], bparent = 0\<rparr>,
     3 \<mapsto> \<lparr>pre_bbs = [2, 3], succ_bbs = [3, 4], instr_list = [], bparent = 0\<rparr>,
     4 \<mapsto> \<lparr>pre_bbs = [3], succ_bbs = [2], instr_list = [], bparent = 0\<rparr>,
     5 \<mapsto> \<lparr>pre_bbs = [2], succ_bbs = [], instr_list = [], bparent = 0\<rparr>),
     funcs = Map.empty(0 \<mapsto> \<lparr>basic_blocks = [1, 2, 3, 4, 5], arguments = [], seq_cnt = 0\<rparr>), next_id = 6,
     function_list = [0], global_list = [], cached_int = Map.empty, cached_bool = Map.empty, cached_float = [],
     cached_zero = Map.empty, cached_undef = Map.empty\<rparr>"

definition sorted_orders :: loop_orders where
  "sorted_orders = \<lparr>node_order = sorted_list_of_set, group_order = (\<lambda>gs. gs), loop_order = sorted_list_of_set\<rparr>"

lemma sorted_orders_ok: "orders_ok sorted_orders"
  by (simp add: orders_ok_def sorted_orders_def)

lemma loop_demo_loopable: "loopable loop_demo"
  by (auto simp: loopable_def blocks_ok_def local_flow_def blocks_def preds_def succs_def loop_demo_def split: option.splits)

lemma loop_demo_run:
  "map_sum id (\<lambda>li. (loop_set li, loop_blocks li 0, loop_blocks li 1, get_innermost li 3, get_innermost li 5, get_parent li loop_demo 1))
     (LoopInfo_run sorted_orders loop_demo) = Inr ({0, 1}, Some {2, 3, 4}, Some {3}, Some 1, None, Inr (Some 0))"
  by code_simp

theorem loops_single_entry_witness:
  "\<exists>li. LoopInfo_run sorted_orders loop_demo = Inr li \<and> loop_set li = {0, 1} \<and>
     (\<forall>l\<in>{0, 1}. \<exists>h B. get_base li l = Some h \<and> loop_blocks li l = Some B \<and> single_entry_loop loop_demo h B)"
  using loops_single_entry [OF sorted_orders_ok loop_demo_loopable] loop_demo_run by auto

theorem get_innermost_correct_witness:
  "\<exists>li. LoopInfo_run sorted_orders loop_demo = Inr li \<and> innermost li 3 1 \<and> 5 \<notin> bodies li"
proof -
  obtain li where li: "LoopInfo_run sorted_orders loop_demo = Inr li"
    and q: "\<And>b. case get_innermost li b of None \<Rightarrow> b \<notin> bodies li | Some l \<Rightarrow> innermost li b l"
    using get_innermost_correct [OF sorted_orders_ok loop_demo_loopable] by blast
  have "get_innermost li 3 = Some 1" "get_innermost li 5 = None" using loop_demo_run li by simp_all
  then show ?thesis using li q [of 3] q [of 5] by simp
qed

end
