(* ===== verification/Hoisting.thy ===== *)
theory Hoisting
  imports TopoOrder LoopNest Inserting
begin

text \<open>
  What \<open>hoist_from_current_loop\<close> does to a consistent module: which instructions are invariant, by an
  inductive definition, where they go, and in which order. The lemmas on moving one instruction
  are the counterpart of \<open>Inserting\<close> for code that changes its block.
\<close>

section \<open>Invariant instructions\<close>

text \<open>A value is invariant when its definition is outside the loop, or when it is a movable instruction
  of the loop, outside the subloops that were handled before, and all its operands are invariant.\<close>

inductive loop_invariant :: "'z ir_scheme \<Rightarrow> vid set \<Rightarrow> vid set \<Rightarrow> vid \<Rightarrow> bool" for s loop processed where
  outside: "invariant_by_itself s loop processed v = Inr (Some True) \<Longrightarrow> loop_invariant s loop processed v"
| movable: "invariant_by_itself s loop processed v = Inr None \<Longrightarrow>
    (\<And>w. Some w \<in> set (ops_of s v) \<Longrightarrow> loop_invariant s loop processed w) \<Longrightarrow> loop_invariant s loop processed v"

inductive_simps loop_invariant_iff: "loop_invariant s loop processed v"

lemma all_invariant_simps:
  "all_invariant s loop processed [] c = Some (Inr (True, c))"
  "all_invariant s loop processed (None # vs) c = all_invariant s loop processed vs c"
  "all_invariant s loop processed (Some x # vs) c = (case c x of
     Some b \<Rightarrow> if b then all_invariant s loop processed vs c else Some (Inr (False, c))
   | None \<Rightarrow> (case invariant_by_itself s loop processed x of
       Inl e \<Rightarrow> Some (Inl e)
     | Inr (Some b) \<Rightarrow>
         if b then all_invariant s loop processed vs (c(x \<mapsto> True)) else Some (Inr (False, c(x \<mapsto> False)))
     | Inr None \<Rightarrow> Option.bind (all_invariant s loop processed (ops_of s x) c) (\<lambda>r. case r of
         Inl e \<Rightarrow> Some (Inl e)
       | Inr (b, c1) \<Rightarrow>
           if b then all_invariant s loop processed vs (c1(x \<mapsto> True)) else Some (Inr (False, c1(x \<mapsto> False))))))"
  by (subst all_invariant.simps, simp)+

definition movable_set :: "'z ir_scheme \<Rightarrow> vid set \<Rightarrow> vid set \<Rightarrow> vid set" where
  "movable_set s loop processed = {v. invariant_by_itself s loop processed v = Inr None}"

definition all_loop_invariant :: "'z ir_scheme \<Rightarrow> vid set \<Rightarrow> vid set \<Rightarrow> vid option list \<Rightarrow> bool" where
  "all_loop_invariant s loop processed vs \<longleftrightarrow> (\<forall>w. Some w \<in> set vs \<longrightarrow> loop_invariant s loop processed w)"

definition cache_ok :: "'z ir_scheme \<Rightarrow> vid set \<Rightarrow> vid set \<Rightarrow> (vid \<rightharpoonup> bool) \<Rightarrow> bool" where
  "cache_ok s loop processed cache \<longleftrightarrow> (\<forall>v b. cache v = Some b \<longrightarrow> b = loop_invariant s loop processed v)"

definition decided :: "'z ir_scheme \<Rightarrow> vid set \<Rightarrow> vid set \<Rightarrow> vid option list \<Rightarrow> bool" where
  "decided s loop processed vs \<longleftrightarrow> (\<forall>cache. cache_ok s loop processed cache \<longrightarrow>
     (\<exists>cache'. all_invariant s loop processed vs cache = Some (Inr (all_loop_invariant s loop processed vs, cache')) \<and>
        cache_ok s loop processed cache'))"

lemma invariant_by_itself_cases:
  assumes "v \<in> dom (vals s)"
  obtains "invariant_by_itself s loop processed v = Inr (Some False)" "\<not> loop_invariant s loop processed v"
  | "invariant_by_itself s loop processed v = Inr (Some True)" "loop_invariant s loop processed v"
  | "invariant_by_itself s loop processed v = Inr None"
      "loop_invariant s loop processed v = all_loop_invariant s loop processed (ops_of s v)"
proof -
  obtain k where "kind_of s v = Some k" using assms by (auto simp: kind_of_def)
  then have "\<exists>x. invariant_by_itself s loop processed v = Inr x" by (auto simp: invariant_by_itself_def split: vkind.split)
  then consider "invariant_by_itself s loop processed v = Inr (Some False)" | "invariant_by_itself s loop processed v = Inr (Some True)"
    | "invariant_by_itself s loop processed v = Inr None" by (metis (full_types) not_None_eq)
  then show ?thesis
    by cases (use that loop_invariant_iff [of s loop processed v] in \<open>simp_all add: all_loop_invariant_def\<close>)
qed

lemma decided_list:
  assumes "\<And>w. Some w \<in> set vs \<Longrightarrow> w \<in> dom (vals s)"
    and "\<And>w. Some w \<in> set vs \<Longrightarrow> w \<in> movable_set s loop processed \<Longrightarrow> decided s loop processed (ops_of s w)"
  shows "decided s loop processed vs"
  using assms
proof (induction vs)
  case Nil
  then show ?case by (simp add: decided_def all_loop_invariant_def all_invariant_simps)
next
  case (Cons v vs)
  let ?all = "all_loop_invariant s loop processed" and ?ok = "cache_ok s loop processed"
  have rest: "\<exists>cache'. all_invariant s loop processed vs cache = Some (Inr (?all vs, cache')) \<and> ?ok cache'" if "?ok cache" for cache
    using Cons.IH Cons.prems that by (auto simp: decided_def)
  show ?case
  proof (cases v)
    case None
    then have "?all (v # vs) = ?all vs" by (simp add: all_loop_invariant_def)
    then show ?thesis using rest None by (auto simp: decided_def all_invariant_simps)
  next
    case (Some x)
    have all: "?all (v # vs) = (loop_invariant s loop processed x \<and> ?all vs)" using Some by (auto simp: all_loop_invariant_def)
    have x: "x \<in> dom (vals s)" using Cons.prems(1) Some by simp
    show ?thesis
      unfolding decided_def
    proof (intro allI impI)
      fix cache assume ok: "?ok cache"
      have put: "?ok (c(x \<mapsto> loop_invariant s loop processed x))" if "?ok c" for c using that by (simp add: cache_ok_def)
      show "\<exists>cache'. all_invariant s loop processed (v # vs) cache = Some (Inr (?all (v # vs), cache')) \<and> ?ok cache'"
      proof (cases "cache x")
        case c: (Some b)
        then have "b = loop_invariant s loop processed x" using ok by (simp add: cache_ok_def)
        then show ?thesis using rest [OF ok] ok all c Some by (simp add: all_invariant_simps)
      next
        case None
        show ?thesis
        proof (cases rule: invariant_by_itself_cases [OF x, of loop processed])
          case 1
          then show ?thesis using put [OF ok] all None Some by (simp add: all_invariant_simps)
        next
          case 2
          then show ?thesis using rest [OF put [OF ok]] all None Some by (simp add: all_invariant_simps)
        next
          case ops: 3
          then have "decided s loop processed (ops_of s x)" using Cons.prems(2) Some by (simp add: movable_set_def)
          then obtain c1 where c1: "all_invariant s loop processed (ops_of s x) cache = Some (Inr (?all (ops_of s x), c1))" "?ok c1"
            using ok by (auto simp: decided_def)
          show ?thesis using rest [OF put [OF c1(2)]] put [OF c1(2)] c1(1) ops all None Some
            by (cases "?all (ops_of s x)") (simp_all add: all_invariant_simps)
        qed
      qed
    qed
  qed
qed

text \<open>The test ends when the movable instructions of the loop do not form a cycle.\<close>

definition no_movable_cycle :: "'z ir_scheme \<Rightarrow> vid set \<Rightarrow> vid set \<Rightarrow> bool" where
  "no_movable_cycle s loop processed \<longleftrightarrow> wf (operand_relation s (movable_set s loop processed))"

lemma decided_ops:
  assumes ok: "ir_ok s" and "no_movable_cycle s loop processed"
  shows "v \<in> movable_set s loop processed \<Longrightarrow> decided s loop processed (ops_of s v)"
  using assms(2) unfolding no_movable_cycle_def
proof (induction v rule: wf_induct_rule)
  case (less v)
  show ?case
  proof (rule decided_list)
    show "w \<in> dom (vals s)" if "Some w \<in> set (ops_of s v)" for w
      using that ir_ok_operand_dom [OF ok] by (auto simp: operand_at_mem)
    show "decided s loop processed (ops_of s w)" if "Some w \<in> set (ops_of s v)" "w \<in> movable_set s loop processed" for w
      using less that by (auto simp: operand_relation_def operand_at_mem)
  qed
qed

lemma is_loop_invariant_total:
  assumes ok: "ir_ok s" and cyc: "no_movable_cycle s loop processed" and v: "v \<in> dom (vals s)"
    and cache: "cache_ok s loop processed cache"
  shows "\<exists>cache'. is_loop_invariant s loop processed v cache = Inr (loop_invariant s loop processed v, cache') \<and>
    cache_ok s loop processed cache'"
proof -
  have "decided s loop processed [Some v]" 
  proof (rule decided_list)
    show "w \<in> dom (vals s)" if "Some w \<in> set [Some v]" for w using that v by simp
    show "decided s loop processed (ops_of s w)" if "w \<in> movable_set s loop processed" for w by (rule decided_ops [OF ok cyc that])
  qed
  then obtain c where "all_invariant s loop processed [Some v] cache = Some (Inr (all_loop_invariant s loop processed [Some v], c))"
    "cache_ok s loop processed c" using cache unfolding decided_def by blast
  moreover have "all_loop_invariant s loop processed [Some v] = loop_invariant s loop processed v" by (simp add: all_loop_invariant_def)
  ultimately show ?thesis by (simp add: is_loop_invariant_def outcome_def)
qed

section \<open>Collecting\<close>

lemma collect_from_instrs_total:
  assumes ok: "ir_ok s" and cyc: "no_movable_cycle s loop processed"
  shows "set is \<subseteq> dom (vals s) \<Longrightarrow> distinct acc \<Longrightarrow> cache_ok s loop processed cache \<Longrightarrow>
    \<exists>acc' cache'. collect_from_instrs s loop processed is (acc, cache) = Inr (acc', cache') \<and> distinct acc' \<and>
      set acc' = set acc \<union> {i \<in> set is. loop_invariant s loop processed i} \<and> cache_ok s loop processed cache'"
proof (induction "is" arbitrary: acc cache)
  case (Cons i "is")
  obtain c1 where c1: "is_loop_invariant s loop processed i cache = Inr (loop_invariant s loop processed i, c1)" "cache_ok s loop processed c1"
    using is_loop_invariant_total [OF ok cyc _ Cons.prems(3)] Cons.prems(1) by auto
  let ?acc = "if loop_invariant s loop processed i then sv_insert i acc else acc"
  have "distinct ?acc" using Cons.prems(2) by (simp add: sv_insert_def)
  moreover have "set ?acc = set acc \<union> {j. j = i \<and> loop_invariant s loop processed j}" by (auto simp: sv_insert_def)
  ultimately show ?case using Cons.IH [of ?acc c1] Cons.prems(1) c1 by fastforce
qed simp

lemma collect_from_blocks_total:
  assumes ok: "ir_ok s" and cyc: "no_movable_cycle s loop processed"
  shows "set bs - processed \<subseteq> dom (bbs s) \<Longrightarrow> distinct acc \<Longrightarrow> cache_ok s loop processed cache \<Longrightarrow>
    \<exists>acc' cache'. collect_from_blocks s loop processed bs (acc, cache) = Inr (acc', cache') \<and> distinct acc' \<and>
      set acc' = set acc \<union> {i. \<exists>b\<in>set bs - processed. i \<in> set (instrs s b) \<and> loop_invariant s loop processed i} \<and>
      cache_ok s loop processed cache'"
proof (induction bs arbitrary: acc cache)
  case (Cons b bs)
  show ?case
  proof (cases "b \<in> processed")
    case True
    then have "set (b # bs) - processed = set bs - processed" by auto
    then show ?thesis using Cons True by simp
  next
    case False
    then obtain r where r: "bbs s b = Some r" using Cons.prems(1) by auto
    then have i: "instr_list r = instrs s b" by (simp add: instrs_def)
    have "set (instrs s b) \<subseteq> dom (vals s)" using ir_ok_kind_dom [OF _ ok] by blast
    then obtain acc1 c1 where one: "collect_from_instrs s loop processed (instrs s b) (acc, cache) = Inr (acc1, c1)" "distinct acc1"
      "set acc1 = set acc \<union> {i \<in> set (instrs s b). loop_invariant s loop processed i}" "cache_ok s loop processed c1"
      using collect_from_instrs_total [OF ok cyc _ Cons.prems(2,3)] by blast
    have "set bs - processed \<subseteq> dom (bbs s)" using Cons.prems(1) by auto
    then obtain acc2 c2 where two: "collect_from_blocks s loop processed bs (acc1, c1) = Inr (acc2, c2)" "distinct acc2"
      "set acc2 = set acc1 \<union> {i. \<exists>b\<in>set bs - processed. i \<in> set (instrs s b) \<and> loop_invariant s loop processed i}"
      "cache_ok s loop processed c2"
      using Cons.IH [OF _ one(2,4)] by blast
    have "set (b # bs) - processed = insert b (set bs - processed)" using False by auto
    then have "set acc2 = set acc \<union> {i. \<exists>b\<in>set (b # bs) - processed. i \<in> set (instrs s b) \<and> loop_invariant s loop processed i}"
      unfolding two(3) one(3) by auto
    then show ?thesis using False r i one(1) two by simp
  qed
qed simp

definition invariants :: "'z ir_scheme \<Rightarrow> vid set \<Rightarrow> vid set \<Rightarrow> vid set" where
  "invariants s loop processed = {i. \<exists>b\<in>loop - processed. i \<in> set (instrs s b) \<and> loop_invariant s loop processed i}"

lemma collect_total:
  assumes "ir_ok s" and "no_movable_cycle s loop processed" and "orders_ok ords" and "finite loop" and "loop - processed \<subseteq> dom (bbs s)"
  shows "\<exists>is. collect_loop_invariant_instructions ords s loop processed = Inr is \<and> distinct is \<and> set is = invariants s loop processed"
proof -
  have "set (node_order ords loop) = loop" using assms(3,4) by (simp add: orders_ok_def)
  then show ?thesis
    using collect_from_blocks_total [OF assms(1,2), of "node_order ords loop" "[]" Map.empty] assms(5)
    by (auto simp: collect_loop_invariant_instructions_def invariants_def cache_ok_def)
qed

section \<open>Moving one instruction\<close>

text \<open>An instruction in no list can be given a parent.\<close>

lemma reparent_effect:
  assumes ok: "ir_ok s" and k: "kind_of s i = Some (K_instr p b)" and free: "\<And>b. i \<notin> set (instrs s b)"
  shows "\<exists>t. set_parent i (Some c) s = Inr t \<and> ir_ok t \<and> kind_of t = (kind_of s)(i \<mapsto> K_instr p (Some c)) \<and>
    same_layout s t \<and> ops_of t = ops_of s \<and> uses_of t = uses_of s"
proof -
  obtain r where r: "vals s i = Some r" "vkind r = K_instr p b" using k by (auto simp: kind_of_def)
  let ?t = "s\<lparr>vals := (vals s)(i \<mapsto> r\<lparr>vkind := K_instr p (Some c)\<rparr>)\<rparr>"
  have run: "set_parent i (Some c) s = Inr ?t" using r by (simp add: set_parent_def instr_op_def)
  have k': "kind_of ?t = (kind_of s)(i \<mapsto> K_instr p (Some c))" by (auto simp: kind_of_def)
  have u: "uses_of ?t = uses_of s" "ops_of ?t = ops_of s" "dom (vals ?t) = dom (vals s)"
    using r by (auto simp: uses_of_def ops_of_def fun_eq_iff)
  then have "operand_at ?t = operand_at s" by (simp add: operand_at_def fun_eq_iff)
  then have ud: "use_def_ok ?t = use_def_ok s" using u unfolding use_def_ok_def by metis
  have lay: "same_layout s ?t" by (simp add: same_layout_def)
  note g = same_layout_obs [OF lay]
  have "listed_ok (kind_of ?t) b' (instrs s b') = listed_ok (kind_of s) b' (instrs s b')" for b'
    using free [of b'] k' by (intro listed_ok_cong) auto
  then have "placed_ok ?t" using ok by (simp add: ir_ok_def placed_ok_def g)
  moreover have "ids_ok ?t"
  proof -
    have "i \<notin> dom (bbs s)" "i \<notin> dom (funcs s)" using ok k unfolding ir_ok_def ids_ok_def by (metis option.inject vkind.distinct(15,17))+
    then have "\<forall>b\<in>dom (bbs s). kind_of ?t b = Some K_block" "\<forall>f\<in>dom (funcs s). kind_of ?t f = Some K_func"
      using ok unfolding ir_ok_def ids_ok_def k' by auto
    moreover have "\<forall>v\<in>dom (vals s). v < next_id s" using ok unfolding ir_ok_def ids_ok_def by blast
    ultimately show ?thesis unfolding ids_ok_def u(3) by simp
  qed
  moreover have "blocks_ok ?t" "cfg_ok ?t" using ok by (simp_all add: ir_ok_def blocks_ok_def cfg_ok_def g)
  ultimately have "ir_ok ?t" using ok ud by (simp add: ir_ok_def)
  then show ?thesis using run k' lay u by blast
qed

lemma add_instruction_effect:
  assumes ok: "ir_ok s" and k: "kind_of s i = Some (K_instr p (Some b))" and new: "i \<notin> set (instrs s b)"
    and nt: "is_terminated s b = Inr False"
  shows "\<exists>t. add_instruction b i s = Inr t \<and> ir_ok t \<and> instrs t = (instrs s)(b := instrs s b @ [i]) \<and> vals t = vals s \<and>
    preds t = preds s \<and> succs t = succs s \<and> blocks t = blocks s \<and> dom (bbs t) = dom (bbs s) \<and> funcs t = funcs s"
proof -
  obtain r where r: "bbs s b = Some r" using nt by (auto simp: is_terminated_False)
  let ?t = "s\<lparr>bbs := (bbs s)(b \<mapsto> r\<lparr>instr_list := instr_list r @ [i]\<rparr>)\<rparr>"
  have run: "add_instruction b i s = Inr ?t" using r nt by (simp add: add_instruction_def)
  have "instrs ?t = (instrs s)(b := instrs s b @ [i])" "preds ?t = preds s" "succs ?t = succs s" "blocks ?t = blocks s"
    using r by (auto simp: graph_defs fun_eq_iff)
  moreover have "dom (bbs ?t) = dom (bbs s)" using r by auto
  ultimately show ?thesis using run ir_ok_add_instruction [OF ok k new run] by simp
qed

text \<open>Before and after the move of the instructions \<open>xs\<close> to the end of the open block \<open>h\<close>.\<close>

definition moved :: "'z ir_scheme \<Rightarrow> vid \<Rightarrow> vid list \<Rightarrow> 'z ir_scheme \<Rightarrow> bool" where
  "moved s h xs t \<longleftrightarrow> ir_ok t \<and> ops_of t = ops_of s \<and> uses_of t = uses_of s \<and>
     (\<forall>v. kind_of t v = (if v \<in> set xs then map_option (\<lambda>k. case k of K_instr p b \<Rightarrow> K_instr p (Some h) | _ \<Rightarrow> k) (kind_of s v)
        else kind_of s v)) \<and>
     preds t = preds s \<and> succs t = succs s \<and> blocks t = blocks s \<and> dom (bbs t) = dom (bbs s) \<and> funcs t = funcs s \<and>
     (\<forall>b. instrs t b = (if b = h then instrs s h @ xs else filter (\<lambda>i. i \<notin> set xs) (instrs s b)))"

lemma moved_Nil: "ir_ok s \<Longrightarrow> moved s h [] s"
  by (simp add: moved_def)

lemma moved_Cons:
  assumes one: "moved s h [x] s1" and two: "moved s1 h xs t" and x: "x \<notin> set xs"
  shows "moved s h (x # xs) t"
proof -
  have k: "kind_of t v = (if v \<in> set (x # xs) then map_option (\<lambda>k. case k of K_instr p b \<Rightarrow> K_instr p (Some h) | _ \<Rightarrow> k) (kind_of s v)
      else kind_of s v)" for v
    using one two x by (simp add: moved_def)
  have i: "instrs t b = (if b = h then instrs s h @ x # xs else filter (\<lambda>i. i \<notin> set (x # xs)) (instrs s b))" for b
    using one two by (simp add: moved_def conj_commute)
  have "ir_ok t" "ops_of t = ops_of s" "uses_of t = uses_of s" "preds t = preds s" "succs t = succs s" "blocks t = blocks s"
    "dom (bbs t) = dom (bbs s)" "funcs t = funcs s" using one two by (simp_all add: moved_def)
  then show ?thesis unfolding moved_def using k i by blast
qed

lemma move_one:
  assumes ok: "ir_ok s" and i: "i \<in> set (instrs s b)" "kind_of s i = Some (K_instr p (Some b))" "\<not> is_terminator_op p"
    and h: "b \<noteq> h" "is_terminated s h = Inr False"
  shows "\<exists>t. bindR (remove_instr b i s) (\<lambda>s1. bindR (set_parent i (Some h) s1) (add_instruction h i)) = Inr t \<and>
    moved s h [i] t \<and> is_terminated t h = Inr False"
proof -
  obtain s1 where s1: "remove_instr b i s = Inr s1" "ir_ok s1" "instrs s1 = (instrs s)(b := filter (\<lambda>y. y \<noteq> i) (instrs s b))"
    "vals s1 = vals s" "funcs s1 = funcs s" "preds s1 = preds s" "succs s1 = succs s" "blocks s1 = blocks s" "parents s1 = parents s"
    using remove_instr_effect [OF ok i(1)] by blast
  note v1 = vals_obs [OF s1(4)]
  have o1: "ops_of s1 = ops_of s" using s1(4) by (simp add: ops_of_def fun_eq_iff)
  have free: "i \<notin> set (instrs s1 c)" for c
    using ir_ok_one_block [OF ok i(1), of c] by (auto simp: s1(3))
  obtain s2 where s2: "set_parent i (Some h) s1 = Inr s2" "ir_ok s2" "kind_of s2 = (kind_of s1)(i \<mapsto> K_instr p (Some h))"
    "same_layout s1 s2" "ops_of s2 = ops_of s1" "uses_of s2 = uses_of s1"
    using reparent_effect [OF s1(2) _ free, of p "Some b" h] i(2) v1(3) by auto
  note g2 = same_layout_obs [OF s2(4)]
  have b2: "bbs s2 = bbs s1" "funcs s2 = funcs s1" using s2(4) by (simp_all add: same_layout_def)
  have d1: "dom (bbs s1) = dom (bbs s)" using s1(9) parents_dom [of s1] parents_dom [of s] by simp
  have ih: "instrs s2 h = instrs s h" using h(1) g2 s1(3) by simp
  have nt2: "is_terminated s2 h = Inr False"
  proof -
    have "h \<in> dom (bbs s2)" using h(2) d1 b2 by (auto simp: is_terminated_False)
    moreover have "last (instrs s h) \<noteq> i" if "instrs s h \<noteq> []"
      using ir_ok_one_block [OF ok i(1), of h] h(1) that last_in_set by metis
    ultimately show ?thesis
      using h(2) ih s2(3) v1(3) unfolding is_terminated_False by (auto simp: instrs_def split: option.splits)
  qed
  have k2: "kind_of s2 i = Some (K_instr p (Some h))" using s2(3) by simp
  obtain t where t: "add_instruction h i s2 = Inr t" "ir_ok t" "instrs t = (instrs s2)(h := instrs s2 h @ [i])" "vals t = vals s2"
    "preds t = preds s2" "succs t = succs s2" "blocks t = blocks s2" "dom (bbs t) = dom (bbs s2)" "funcs t = funcs s2"
    using add_instruction_effect [OF s2(2) k2 _ nt2] free g2 by metis
  note vt = vals_obs [OF t(4)]
  have ot: "ops_of t = ops_of s2" using t(4) by (simp add: ops_of_def fun_eq_iff)
  have "instrs t c = (if c = h then instrs s h @ [i] else filter (\<lambda>y. y \<notin> set [i]) (instrs s c))" for c
  proof -
    have "filter (\<lambda>y. y \<noteq> i) (instrs s c) = instrs s c" if "c \<noteq> b"
      using ir_ok_one_block [OF ok i(1), of c] that by (simp add: filter_id_conv) metis
    then show ?thesis using t(3) g2 s1(3) h(1) by (cases "c = b") auto
  qed
  then have "moved s h [i] t"
    using t s2 s1 vt v1 ot o1 g2 b2 d1 i(2) by (simp add: moved_def)
  moreover have "is_terminated t h = Inr False"
  proof -
    obtain r where "bbs t h = Some r" using nt2 t(8) by (auto simp: is_terminated_False)
    moreover from this have "instr_list r = instrs t h" by (simp add: instrs_def)
    then have "instr_list r = instrs s2 h @ [i]" using t(3) by simp
    ultimately show ?thesis using k2 i(3) vt(3) by (simp add: is_terminated_False)
  qed
  ultimately show ?thesis using s1(1) s2(1) t(1) by (simp del: bindR_Inr_iff)
qed

lemma move_instrs_total:
  assumes "ir_ok s" and "distinct xs" and "is_terminated s h = Inr False"
    and "\<And>i. i \<in> set xs \<Longrightarrow> \<exists>b p. i \<in> set (instrs s b) \<and> kind_of s i = Some (K_instr p (Some b)) \<and> \<not> is_terminator_op p \<and> b \<noteq> h"
  shows "\<exists>t. move_instrs h xs s = Inr t \<and> moved s h xs t \<and> is_terminated t h = Inr False"
  using assms
proof (induction xs arbitrary: s)
  case (Cons i xs)
  obtain b p where i: "i \<in> set (instrs s b)" "kind_of s i = Some (K_instr p (Some b))" "\<not> is_terminator_op p" "b \<noteq> h"
    using Cons.prems(4) [of i] by auto
  obtain s1 where s1: "bindR (remove_instr b i s) (\<lambda>s1. bindR (set_parent i (Some h) s1) (add_instruction h i)) = Inr s1"
    "moved s h [i] s1" "is_terminated s1 h = Inr False"
    using move_one [OF Cons.prems(1) i(1,2,3,4) Cons.prems(3)] by blast
  have "\<exists>b p. j \<in> set (instrs s1 b) \<and> kind_of s1 j = Some (K_instr p (Some b)) \<and> \<not> is_terminator_op p \<and> b \<noteq> h" if j: "j \<in> set xs" for j
  proof -
    obtain c q where "j \<in> set (instrs s c)" "kind_of s j = Some (K_instr q (Some c))" "\<not> is_terminator_op q" "c \<noteq> h"
      using Cons.prems(4) [of j] j by auto
    moreover have "j \<noteq> i" using j Cons.prems(2) by auto
    ultimately show ?thesis using s1(2) by (intro exI [of _ c] exI [of _ q]) (simp add: moved_def)
  qed
  then obtain t where t: "move_instrs h xs s1 = Inr t" "moved s1 h xs t" "is_terminated t h = Inr False"
    using Cons.IH [of s1] s1(2,3) Cons.prems(2) by (auto simp: moved_def)
  have "move_instrs h (i # xs) s = bindR (bindR (remove_instr b i s) (\<lambda>s1. bindR (set_parent i (Some h) s1) (add_instruction h i))) (move_instrs h xs)"
    using i(2) by (simp add: bindR_assoc)
  then have "move_instrs h (i # xs) s = Inr t" using s1(1) t(1) by (simp del: bindR_Inr_iff)
  then show ?case using moved_Cons [OF s1(2) t(2)] Cons.prems(2) t(3) by simp
qed (simp add: moved_Nil)

section \<open>The loop\<close>

definition hoistable_loop :: "loop_orders \<Rightarrow> 'z ir_scheme \<Rightarrow> vid set \<Rightarrow> vid set \<Rightarrow> vid \<Rightarrow> vid \<Rightarrow> bool" where
  "hoistable_loop ords s loop processed header p \<longleftrightarrow> ir_ok s \<and> orders_ok ords \<and> finite loop \<and> loop - processed \<subseteq> dom (bbs s) \<and>
     no_movable_cycle s loop processed \<and> header \<in> dom (bbs s) \<and> filter (\<lambda>q. q \<notin> loop) (preds s header) = [p] \<and>
     succs s p = [header] \<and> p \<in> dom (bbs s) \<and> is_terminated s p = Inr True \<and>
     (\<forall>i op b. kind_of s i = Some (K_instr op (Some b)) \<longrightarrow> b \<in> loop \<longrightarrow> i \<in> set (instrs s b) \<and> length (ops_of s i) < 2 ^ 32)"

definition reparented :: "vid \<Rightarrow> vkind \<Rightarrow> vkind" where
  "reparented h k = (case k of K_instr p b \<Rightarrow> K_instr p (Some h) | _ \<Rightarrow> k)"

text \<open>The invariant instructions \<open>xs\<close> stand before the terminator of the block \<open>p\<close>, each after its
  operands; nothing else has changed.\<close>

definition hoisted :: "'z ir_scheme \<Rightarrow> vid set \<Rightarrow> vid set \<Rightarrow> vid \<Rightarrow> vid list \<Rightarrow> 'z ir_scheme \<Rightarrow> bool" where
  "hoisted s loop processed p xs t \<longleftrightarrow> distinct xs \<and> set xs = invariants s loop processed \<and>
     (\<forall>j<length xs. \<forall>v. Some v \<in> set (ops_of s (xs ! j)) \<longrightarrow>
        v \<in> set (take j xs) \<or> invariant_by_itself s loop processed v = Inr (Some True)) \<and>
     ir_ok t \<and> ops_of t = ops_of s \<and> preds t = preds s \<and> succs t = succs s \<and> blocks t = blocks s \<and>
     (\<forall>v. kind_of t v = (if v \<in> set xs then map_option (reparented p) (kind_of s v) else kind_of s v)) \<and>
     (\<forall>b. instrs t b = (if b = p then butlast (instrs s p) @ xs @ [last (instrs s p)] else filter (\<lambda>i. i \<notin> set xs) (instrs s b)))"

lemma invariants_movable:
  assumes ok: "ir_ok s" and i: "i \<in> invariants s loop processed"
  shows "\<exists>b p. b \<in> loop - processed \<and> i \<in> set (instrs s b) \<and> kind_of s i = Some (K_instr p (Some b)) \<and> \<not> is_terminator_op p \<and>
    i \<in> movable_set s loop processed \<and> all_loop_invariant s loop processed (ops_of s i)"
proof -
  obtain b where b: "b \<in> loop - processed" "i \<in> set (instrs s b)" "loop_invariant s loop processed i" using i by (auto simp: invariants_def)
  obtain p where p: "kind_of s i = Some (K_instr p (Some b))" using ir_ok_instr_kind [OF ok b(2)] by blast
  have "invariant_by_itself s loop processed i \<noteq> Inr (Some True)" using p b(1) by (simp add: invariant_by_itself_def)
  then have n: "invariant_by_itself s loop processed i = Inr None" "all_loop_invariant s loop processed (ops_of s i)"
    using b(3) loop_invariant_iff [of s loop processed i] by (simp_all add: all_loop_invariant_def)
  then have "is_movable s p i" using p b(1) by (auto simp: invariant_by_itself_def split: if_splits)
  then have "\<not> is_terminator_op p" by (auto simp: is_movable_def is_binary_def is_terminator_op_def)
  then show ?thesis using b p n by (auto simp: movable_set_def)
qed

lemma movable_invariant:
  assumes H: "hoistable_loop ords s loop processed header p" and v: "v \<in> movable_set s loop processed" "loop_invariant s loop processed v"
  shows "v \<in> invariants s loop processed"
proof -
  obtain q b where k: "kind_of s v = Some (K_instr q b)" "b \<in> Some ` loop" "b \<notin> Some ` processed"
    using v(1) by (auto simp: movable_set_def invariant_by_itself_def split: option.splits vkind.splits if_splits)
  then obtain c where c: "b = Some c" "c \<in> loop - processed" by auto
  then have "v \<in> set (instrs s c)" using H k(1) by (auto simp: hoistable_loop_def)
  then show ?thesis using c(2) v(2) by (auto simp: invariants_def)
qed

lemma filter_last: "distinct xs \<Longrightarrow> xs \<noteq> [] \<Longrightarrow> filter (\<lambda>y. y \<noteq> last xs) xs = butlast xs"
  by (induction xs rule: rev_induct) (auto simp: filter_id_conv)

lemma order_of_invariants:
  assumes H: "hoistable_loop ords s loop processed header p"
  shows "\<exists>is xs. collect_loop_invariant_instructions ords s loop processed = Inr is \<and>
    compute_topological_order s is = Inr (Some xs) \<and> distinct xs \<and> set xs = invariants s loop processed \<and>
    (\<forall>j<length xs. \<forall>v. Some v \<in> set (ops_of s (xs ! j)) \<longrightarrow>
        v \<in> set (take j xs) \<or> invariant_by_itself s loop processed v = Inr (Some True))"
proof -
  have ok: "ir_ok s" and cyc: "no_movable_cycle s loop processed" using H by (simp_all add: hoistable_loop_def)
  obtain "is" where is': "collect_loop_invariant_instructions ords s loop processed = Inr is" "distinct is" "set is = invariants s loop processed"
    using collect_total [OF ok cyc, of ords] H by (auto simp: hoistable_loop_def)
  have "is_instr s i \<and> length (ops_of s i) < 2 ^ 32" if "i \<in> set is" for i
    using invariants_movable [OF ok] that H unfolding is'(3) hoistable_loop_def is_instr_def by blast
  then have ord: "orderable s is" using is'(2) ok by (simp add: orderable_def ir_ok_def)
  have "set is \<subseteq> movable_set s loop processed" using invariants_movable [OF ok] is'(3) by blast
  moreover have "acyclic (operand_relation s (movable_set s loop processed))"
    using cyc by (simp add: no_movable_cycle_def wf_acyclic)
  ultimately have "acyclic (operand_relation s (set is))" using acyclic_operand_mono by blast
  then obtain xs where xs: "compute_topological_order s is = Inr (Some xs)" "distinct xs" "set xs = set is" "operands_first s (set is) xs"
    using topological_order [OF ord] by (auto split: option.splits)
  have "v \<in> set (take j xs) \<or> invariant_by_itself s loop processed v = Inr (Some True)"
    if j: "j < length xs" and v: "Some v \<in> set (ops_of s (xs ! j))" for j v
  proof -
    have "xs ! j \<in> invariants s loop processed" using j xs(3) is'(3) nth_mem by metis
    then have "loop_invariant s loop processed v" using invariants_movable [OF ok] v by (fastforce simp: all_loop_invariant_def)
    then consider "invariant_by_itself s loop processed v = Inr (Some True)" | "v \<in> movable_set s loop processed" "loop_invariant s loop processed v"
      using loop_invariant_iff [of s loop processed v] by (auto simp: movable_set_def)
    then show ?thesis
    proof cases
      case 2
      then have "v \<in> set is" using movable_invariant [OF H] is'(3) by blast
      moreover obtain k where "operand_at s (xs ! j) k = Some v" using v by (auto simp: operand_at_mem)
      ultimately show ?thesis using xs(4) j by (auto simp: operands_first_def)
    qed simp
  qed
  then show ?thesis using is' xs by blast
qed

lemma hoist_moves:
  assumes H: "hoistable_loop ords s loop processed header p"
  shows "\<exists>xs t. hoist_from_current_loop ords loop header processed s = Inr t \<and> hoisted s loop processed p xs t"
proof -
  have ok: "ir_ok s" and dh: "header \<in> dom (bbs s)" and dp: "p \<in> dom (bbs s)" and ps: "filter (\<lambda>q. q \<notin> loop) (preds s header) = [p]"
    and sp: "succs s p = [header]" and tm: "is_terminated s p = Inr True" using H by (simp_all add: hoistable_loop_def)
  have "p \<in> set (filter (\<lambda>q. q \<notin> loop) (preds s header))" unfolding ps by simp
  then have pl: "p \<notin> loop" by simp
  obtain "is" xs where order: "collect_loop_invariant_instructions ords s loop processed = Inr is"
    "compute_topological_order s is = Inr (Some xs)" "distinct xs" "set xs = invariants s loop processed"
    "\<forall>j<length xs. \<forall>v. Some v \<in> set (ops_of s (xs ! j)) \<longrightarrow>
        v \<in> set (take j xs) \<or> invariant_by_itself s loop processed v = Inr (Some True)"
    using order_of_invariants [OF H] by blast
  have out: "outside_preds s loop header = Inr [p]" using dh ps by (auto simp: outside_preds_def preds_def)
  obtain r where r: "bbs s p = Some r" using dp by blast
  then have lr: "length (succ_bbs r) = 1" "instr_list r = instrs s p" using sp by (auto simp: succs_def instrs_def)
  let ?T = "last (instrs s p)"
  have ne: "instrs s p \<noteq> []" using tm r lr(2) by (auto simp: is_terminated_def)
  have gt: "get_terminator s p = Inr ?T" using tm r lr(2) by (simp add: get_terminator_def)
  have d: "distinct (instrs s p)" by (rule ir_ok_distinct_instrs [OF ok])
  have T: "?T \<in> set (instrs s p)" using ne by simp
  show ?thesis
  proof (cases xs)
    case Nil
    then have "hoist_from_current_loop ords loop header processed s = Inr s"
      using out r lr order by (simp add: hoist_from_current_loop_def)
    moreover have "hoisted s loop processed p [] s"
      using order Nil ok ne by (simp add: hoisted_def)
    ultimately show ?thesis by blast
  next
    case (Cons x xs')
    obtain s1 where s1: "remove_instr p ?T s = Inr s1" "ir_ok s1" "instrs s1 = (instrs s)(p := filter (\<lambda>y. y \<noteq> ?T) (instrs s p))"
      "vals s1 = vals s" "preds s1 = preds s" "succs s1 = succs s" "blocks s1 = blocks s" "parents s1 = parents s"
      using remove_instr_effect [OF ok T] by blast
    note v1 = vals_obs [OF s1(4)]
    have o1: "ops_of s1 = ops_of s" using s1(4) by (simp add: ops_of_def fun_eq_iff)
    have i1: "instrs s1 p = butlast (instrs s p)" using s1(3) filter_last [OF d ne] by simp
    have nt: "is_terminated s1 p = Inr False"
    proof -
      have "p \<in> dom (bbs s1)" using s1(8) dp parents_dom [of s1] parents_dom [of s] by simp
      then obtain r1 where r1: "bbs s1 p = Some r1" "instr_list r1 = butlast (instrs s p)" using i1 by (auto simp: instrs_def)
      moreover have "\<exists>op b. kind_of s i = Some (K_instr op b) \<and> \<not> is_terminator_op op" if "i \<in> set (butlast (instrs s p))" for i
        using ir_ok_listed [OF ok, of p] that in_set_butlastD [OF that] unfolding listed_ok_def by blast
      ultimately show ?thesis unfolding is_terminated_False v1(3) by simp
    qed
    have xs: "\<exists>b q. i \<in> set (instrs s1 b) \<and> kind_of s1 i = Some (K_instr q (Some b)) \<and> \<not> is_terminator_op q \<and> b \<noteq> p" if "i \<in> set xs" for i
      using invariants_movable [OF ok, of i loop processed] that order(4) pl s1(3) v1(3) by fastforce
    obtain s2 where s2: "move_instrs p xs s1 = Inr s2" "moved s1 p xs s2" "is_terminated s2 p = Inr False"
      using move_instrs_total [OF s1(2) order(3) nt xs] by blast
    obtain q where q: "kind_of s ?T = Some (K_instr q (Some p))" using ir_ok_instr_kind [OF ok T] by blast
    have Txs: "?T \<notin> set xs"
    proof
      assume "?T \<in> set xs"
      then obtain b where "b \<in> loop" "?T \<in> set (instrs s b)" using order(4) by (auto simp: invariants_def)
      then show False using ir_ok_one_block [OF ok T] pl by blast
    qed
    have ok2: "ir_ok s2" using s2(2) by (simp add: moved_def)
    have k2: "kind_of s2 ?T = Some (K_instr q (Some p))" using s2(2) Txs q v1(3) by (simp add: moved_def)
    have "?T \<notin> set (instrs s2 p)"
    proof -
      have "instrs s p = butlast (instrs s p) @ [?T]" using ne by simp
      then have "?T \<notin> set (butlast (instrs s p))" using d by (metis distinct_append disjoint_iff list.set_intros(1))
      then show ?thesis using s2(2) Txs i1 by (simp add: moved_def)
    qed
    from add_instruction_effect [OF ok2 k2 this s2(3)]
    obtain t where t: "add_instruction p ?T s2 = Inr t" "ir_ok t" "instrs t = (instrs s2)(p := instrs s2 p @ [?T])"
      "vals t = vals s2" "preds t = preds s2" "succs t = succs s2" "blocks t = blocks s2"
      by blast
    note vt = vals_obs [OF t(4)]
    have ot: "ops_of t = ops_of s2" using t(4) by (simp add: ops_of_def fun_eq_iff)
    have "hoist_from_current_loop ords loop header processed s = Inr t"
      using out r lr order(1,2) Cons gt s1(1) s2(1) t(1) by (simp add: hoist_from_current_loop_def del: bindR_Inr_iff)
    moreover have "hoisted s loop processed p xs t"
    proof -
      note m = s2(2) [unfolded moved_def, folded reparented_def]
      have "kind_of t v = (if v \<in> set xs then map_option (reparented p) (kind_of s v) else kind_of s v)" for v
        using m vt(3) v1(3) by simp
      moreover have "instrs t b = (if b = p then butlast (instrs s p) @ xs @ [?T] else filter (\<lambda>i. i \<notin> set xs) (instrs s b))" for b
        using m i1 by (simp add: t(3) s1(3))
      moreover have "ops_of t = ops_of s" "preds t = preds s" "succs t = succs s" "blocks t = blocks s"
        using m ot o1 t(5-7) s1(5-7) by simp_all
      ultimately show ?thesis using order(3-5) t(2) unfolding hoisted_def by blast
    qed
    ultimately show ?thesis by blast
  qed
qed

text \<open>C19. \<open>hoist_from_current_loop\<close> on a loop with a preheader \<open>p\<close> in a consistent module, when no cycle of
  operands avoids the phis: it ends without a failed assertion, moves exactly the invariant
  instructions of the loop that no subloop has handled, puts them before the terminator of \<open>p\<close> with
  operands before users, and leaves the module consistent and otherwise unchanged.\<close>

theorem invariants_are_hoisted:
  assumes "hoistable_loop ords s loop processed header p"
  shows "\<exists>xs t. hoist_from_current_loop ords loop header processed s = Inr t \<and> hoisted s loop processed p xs t"
  by (rule hoist_moves [OF assms])

text \<open>C22. \<open>compute_topological_order\<close> on distinct instructions with exact use lists ends; its answer is a
  permutation of them in which every operand stands before its users, and it gives up only when the
  operands among them form a cycle.\<close>

theorem topological_order_correct:
  assumes "orderable s is"
  shows "\<exists>r. compute_topological_order s is = Inr r \<and> (case r of
    Some xs \<Rightarrow> distinct xs \<and> set xs = set is \<and> operands_first s (set is) xs
  | None \<Rightarrow> \<not> acyclic (operand_relation s (set is)))"
  by (rule topological_order [OF assms])

section \<open>An example\<close>

text \<open>Block 2 is a loop; it adds a constant to itself, multiplies the sum with itself and branches.\<close>

definition licm_demo :: ir where
  "licm_demo = empty_ir\<lparr>vals :=
     [0 \<mapsto> \<lparr>vty = FunctionTy VoidTy [], vname = ''f'', vuses = [], vops = [], vkind = K_func\<rparr>,
      1 \<mapsto> \<lparr>vty = LabelTy, vname = '''', vuses = [], vops = [], vkind = K_block\<rparr>,
      2 \<mapsto> \<lparr>vty = LabelTy, vname = '''', vuses = [(8, 0), (11, 1)], vops = [], vkind = K_block\<rparr>,
      3 \<mapsto> \<lparr>vty = LabelTy, vname = '''', vuses = [(11, 2)], vops = [], vkind = K_block\<rparr>,
      4 \<mapsto> \<lparr>vty = int32_ty, vname = '''', vuses = [(9, 0), (9, 1)], vops = [], vkind = K_int 7\<rparr>,
      5 \<mapsto> \<lparr>vty = int1_ty, vname = '''', vuses = [(11, 0)], vops = [], vkind = K_int 1\<rparr>,
      8 \<mapsto> \<lparr>vty = VoidTy, vname = '''', vuses = [], vops = [Some 2], vkind = K_instr O_br (Some 1)\<rparr>,
      9 \<mapsto> \<lparr>vty = int32_ty, vname = '''', vuses = [(10, 0), (10, 1)], vops = [Some 4, Some 4], vkind = K_instr O_add (Some 2)\<rparr>,
      10 \<mapsto> \<lparr>vty = int32_ty, vname = '''', vuses = [], vops = [Some 9, Some 9], vkind = K_instr O_mul (Some 2)\<rparr>,
      11 \<mapsto> \<lparr>vty = VoidTy, vname = '''', vuses = [], vops = [Some 5, Some 2, Some 3], vkind = K_instr O_br (Some 2)\<rparr>,
      12 \<mapsto> \<lparr>vty = VoidTy, vname = '''', vuses = [], vops = [], vkind = K_instr O_ret (Some 3)\<rparr>],
     bbs := [1 \<mapsto> \<lparr>pre_bbs = [], succ_bbs = [2], instr_list = [8], bparent = 0\<rparr>,
       2 \<mapsto> \<lparr>pre_bbs = [1, 2], succ_bbs = [2, 3], instr_list = [9, 10, 11], bparent = 0\<rparr>,
       3 \<mapsto> \<lparr>pre_bbs = [2], succ_bbs = [], instr_list = [12], bparent = 0\<rparr>],
     funcs := [0 \<mapsto> \<lparr>basic_blocks = [1, 2, 3], arguments = [], seq_cnt = 0\<rparr>],
     next_id := 13, cached_int := [7 \<mapsto> 4], cached_bool := [True \<mapsto> 5], function_list := [0]\<rparr>"

lemma is_instr_code [code]:
  "is_instr s v = (case kind_of s v of Some (K_instr p b) \<Rightarrow> True | _ \<Rightarrow> False)"
  by (auto simp: is_instr_def split: option.split vkind.split)

lemma licm_demo_run:
  "map_sum id (\<lambda>t. map (instrs t) [1, 2, 3]) (LoopInvHoist_run sorted_orders licm_demo) = Inr [[9, 10, 8], [11], [12]]"
  by code_simp

lemma licm_demo_obs:
  "uses_of licm_demo v = (if v = 2 then [(8, 0), (11, 1)] else if v = 3 then [(11, 2)] else if v = 4 then [(9, 0), (9, 1)]
     else if v = 5 then [(11, 0)] else if v = 9 then [(10, 0), (10, 1)] else [])"
  "ops_of licm_demo u = (if u = 8 then [Some 2] else if u = 9 then [Some 4, Some 4] else if u = 10 then [Some 9, Some 9]
     else if u = 11 then [Some 5, Some 2, Some 3] else [])"
  "kind_of licm_demo = [0 \<mapsto> K_func, 1 \<mapsto> K_block, 2 \<mapsto> K_block, 3 \<mapsto> K_block, 4 \<mapsto> K_int 7, 5 \<mapsto> K_int 1,
     8 \<mapsto> K_instr O_br (Some 1), 9 \<mapsto> K_instr O_add (Some 2), 10 \<mapsto> K_instr O_mul (Some 2), 11 \<mapsto> K_instr O_br (Some 2),
     12 \<mapsto> K_instr O_ret (Some 3)]"
  "instrs licm_demo b = (if b = 1 then [8] else if b = 2 then [9, 10, 11] else if b = 3 then [12] else [])"
  "preds licm_demo b = (if b = 2 then [1, 2] else if b = 3 then [2] else [])"
  "succs licm_demo b = (if b = 1 then [2] else if b = 2 then [2, 3] else [])"
  "blocks licm_demo f = (if f = 0 then [1, 2, 3] else [])"
  "dom (vals licm_demo) = {0, 1, 2, 3, 4, 5, 8, 9, 10, 11, 12}" "dom (bbs licm_demo) = {1, 2, 3}"
  "dom (funcs licm_demo) = {0}" "next_id licm_demo = 13" "is_terminated licm_demo (Suc 0) = Inr True"
  by (auto simp: licm_demo_def empty_ir_def uses_of_def ops_of_def kind_of_def graph_defs fun_eq_iff is_terminated_def
      instr_op_def is_terminator_op_def)

lemma ir_ok_licm_demo: "ir_ok licm_demo"
proof -
  have "use_def_ok licm_demo"
    by (rule use_def_okI) (auto simp: licm_demo_obs operand_at_def nth_Cons' split: if_splits)
  moreover have "ids_ok licm_demo" unfolding ids_ok_def licm_demo_obs by simp
  moreover have "cfg_ok licm_demo" by (simp add: cfg_ok_def licm_demo_obs)
  moreover have "placed_ok licm_demo" by (simp add: placed_ok_def listed_ok_def licm_demo_obs is_terminator_op_def)
  moreover have "blocks_ok licm_demo" by (auto simp: blocks_ok_def licm_demo_obs) (auto simp: licm_demo_def)
  ultimately show ?thesis by (simp add: ir_ok_def)
qed

lemma licm_demo_movable: "movable_set licm_demo {2} {} = {9, 10}"
  by (auto simp: movable_set_def invariant_by_itself_def licm_demo_obs is_movable_def is_binary_def split: if_splits)

lemma licm_demo_hoistable: "hoistable_loop sorted_orders licm_demo {2} {} 2 1"
proof -
  have "operand_relation licm_demo {9, 10} = {(9, 10)}"
    by (auto simp: operand_relation_def operand_at_def licm_demo_obs nth_Cons' split: if_splits)
  moreover have "wf {(9 :: vid, 10)}" by (intro finite_acyclic_wf) (auto simp: acyclic_def trancl_insert)
  ultimately have "no_movable_cycle licm_demo {2} {}" by (simp add: no_movable_cycle_def licm_demo_movable)
  then show ?thesis
    using ir_ok_licm_demo sorted_orders_ok by (auto simp: hoistable_loop_def licm_demo_obs split: if_splits)
qed

theorem invariants_are_hoisted_witness:
  "\<exists>xs t. hoist_from_current_loop sorted_orders {2} 2 {} licm_demo = Inr t \<and> hoisted licm_demo {2} {} 1 xs t \<and> {9, 10} \<subseteq> set xs"
proof -
  have "loop_invariant licm_demo {2} {} 4" by (rule loop_invariant.outside) (simp add: invariant_by_itself_def licm_demo_obs)
  then have "loop_invariant licm_demo {2} {} 9"
    using licm_demo_movable by (rule_tac loop_invariant.movable) (auto simp: movable_set_def licm_demo_obs)
  moreover from this have "loop_invariant licm_demo {2} {} 10"
    using licm_demo_movable by (rule_tac loop_invariant.movable) (auto simp: movable_set_def licm_demo_obs)
  ultimately have "{9, 10} \<subseteq> invariants licm_demo {2} {}" by (simp add: invariants_def licm_demo_obs)
  moreover obtain xs t where "hoist_from_current_loop sorted_orders {2} 2 {} licm_demo = Inr t" "hoisted licm_demo {2} {} 1 xs t"
    using invariants_are_hoisted [OF licm_demo_hoistable] by blast
  moreover from this(2) have "set xs = invariants licm_demo {2} {}" by (simp only: hoisted_def)
  ultimately show ?thesis by blast
qed

theorem topological_order_correct_witness:
  "\<exists>r. compute_topological_order licm_demo [10, 9] = Inr r \<and> (case r of
    Some xs \<Rightarrow> distinct xs \<and> set xs = {9, 10} \<and> operands_first licm_demo {9, 10} xs
  | None \<Rightarrow> \<not> acyclic (operand_relation licm_demo {9, 10}))"
proof -
  have ord: "orderable licm_demo [10, 9]"
    using ir_ok_licm_demo by (simp add: orderable_def ir_ok_def is_instr_def licm_demo_obs)
  have e: "set [10, 9] = {9, 10 :: vid}" by auto
  show ?thesis by (rule topological_order_correct [OF ord, unfolded e])
qed

end
