(* ===== verification/ValueTable.thy ===== *)
theory ValueTable
  imports ConstFolder FuncInfo Instructions
begin

text \<open>
  The value table of global value numbering (\<open>src/passes/GlobalValueNumbering.cpp\<close>, lines 31 to 547):
  expressions over value numbers, their canonical form, and the table that gives equal numbers to
  values it can show equal. \<open>lookupOrAdd\<close> numbers the operands of a value before the value and may not
  end (on a cycle without a phi), so it is a partial function, here on lists of values; a number is 0
  only in an entry \<open>operator[]\<close> has just made, and the 32-bit counter of numbers, which has an entry of the table behind
  each of its values, is a \<open>nat\<close>. The object the folder makes constants in is the field \<open>folder\<close>.
\<close>

section \<open>Operations that may not end\<close>

type_synonym ('s, 'a) smo = "'s \<Rightarrow> ('a \<times> 's) res option"

definition bindMO :: "('s, 'a) smo \<Rightarrow> ('a \<Rightarrow> ('s, 'b) smo) \<Rightarrow> ('s, 'b) smo" where
  "bindMO m f = (\<lambda>t. Option.bind (m t) (\<lambda>r. case r of Inl e \<Rightarrow> Some (Inl e) | Inr p \<Rightarrow> f (fst p) (snd p)))"

definition liftMO :: "('s, 'a) sm \<Rightarrow> ('s, 'a) smo" where
  "liftMO m = (\<lambda>t. Some (m t))"

lemma bindMO_mono [partial_function_mono]:
  assumes "\<And>t. mono_option (\<lambda>f. m f t)" "\<And>x t. mono_option (\<lambda>f. k f x t)"
  shows "mono_option (\<lambda>f. bindMO (m f) (k f) t)"
  unfolding bindMO_def
proof (rule bind_mono [OF assms(1)])
  show "mono_option (\<lambda>f. case r of Inl e \<Rightarrow> Some (Inl e) | Inr p \<Rightarrow> k f (fst p) (snd p))" for r
    using assms(2) by (cases r) (simp_all add: option.const_mono)
qed

lemma applied_mono [partial_function_mono]:
  "(b \<Longrightarrow> mono_option (\<lambda>f. m f t)) \<Longrightarrow> (\<not> b \<Longrightarrow> mono_option (\<lambda>f. k f t)) \<Longrightarrow> mono_option (\<lambda>f. (if b then m f else k f) t)"
  "(x = None \<Longrightarrow> mono_option (\<lambda>f. m f t)) \<Longrightarrow> (\<And>y. x = Some y \<Longrightarrow> mono_option (\<lambda>f. h f y t)) \<Longrightarrow>
    mono_option (\<lambda>f. (case x of None \<Rightarrow> m f | Some y \<Rightarrow> h f y) t)"
  by (cases b, simp_all) (cases x, simp_all)

section \<open>Expressions\<close>

record expression =
  opcode :: opid
  var_args :: "nat list"
  expr_type :: ty
  commutative :: bool

text \<open>\<open>operator==\<close> compares all but the flag, which nothing reads.\<close>

type_synonym expr_key = "opid \<times> nat list \<times> ty"

definition expr_key :: "expression \<Rightarrow> expr_key" where
  "expr_key e = (opcode e, var_args e, expr_type e)"

definition is_commutative :: "opid \<Rightarrow> bool" where
  "is_commutative p \<longleftrightarrow> p \<in> {O_add, O_mul, O_fadd, O_fmul, O_eq, O_ne, O_feq, O_fne}"

definition is_cmp_instr :: "opid \<Rightarrow> bool" where
  "is_cmp_instr p \<longleftrightarrow> is_cmp p \<or> is_fcmp p"

definition get_swapped_predicate :: "opid \<Rightarrow> opid res" where
  "get_swapped_predicate p = (case p of
     O_ge \<Rightarrow> Inr O_le | O_gt \<Rightarrow> Inr O_lt | O_le \<Rightarrow> Inr O_ge | O_lt \<Rightarrow> Inr O_gt | O_eq \<Rightarrow> Inr O_eq | O_ne \<Rightarrow> Inr O_ne
   | O_fge \<Rightarrow> Inr O_fle | O_fgt \<Rightarrow> Inr O_flt | O_fle \<Rightarrow> Inr O_fge | O_flt \<Rightarrow> Inr O_fgt
   | O_feq \<Rightarrow> Inr O_feq | O_fne \<Rightarrow> Inr O_fne
   | _ \<Rightarrow> Inl (Assert_fail ''unexpected predicate''))"

definition sort_commutative :: "opid \<Rightarrow> expression \<Rightarrow> expression res" where
  "sort_commutative p e =
     (if is_commutative p then
        (case var_args e of
           [a, b] \<Rightarrow> Inr (e\<lparr>var_args := if a > b then [b, a] else [a, b], commutative := True\<rparr>)
         | _ \<Rightarrow> Inl (Assert_fail ''expr.var_args.size() == 2''))
      else Inr e)"

definition sort_predicate :: "opid \<Rightarrow> expression \<Rightarrow> expression res" where
  "sort_predicate p e =
     (if is_cmp_instr p then
        (case var_args e of
           a # b # rest \<Rightarrow>
             (if a > b then
                bindR (get_swapped_predicate p) (\<lambda>q. Inr (e\<lparr>var_args := b # a # rest, opcode := q, commutative := True\<rparr>))
              else Inr e)
         | _ \<Rightarrow> Inl (Assert_fail ''idx < size()''))
      else Inr e)"

definition finalize_expression :: "expression \<Rightarrow> opid \<Rightarrow> expression res" where
  "finalize_expression e p = bindR (sort_commutative p e) (sort_predicate p)"

section \<open>The table\<close>

record 'z value_table =
  value_numbering :: "vid option \<rightharpoonup> nat"
  expression_numbering :: "expr_key \<rightharpoonup> nat"
  numbering_phi :: "nat \<rightharpoonup> vid"
  const_numbering :: "nat \<rightharpoonup> vid"
  expressions :: "expression list"
  expr_idx :: "nat list"
  next_expr_number :: nat
  next_value_number :: nat
  folder :: "'z ir_scheme"

definition ValueTable_ctor :: "'z ir_scheme \<Rightarrow> 'z value_table" where
  "ValueTable_ctor s = \<lparr>value_numbering = Map.empty, expression_numbering = Map.empty, numbering_phi = Map.empty,
     const_numbering = Map.empty, expressions = [], expr_idx = [], next_expr_number = 0, next_value_number = 1,
     folder = s\<rparr>"

definition constantFor :: "'z value_table \<Rightarrow> nat \<Rightarrow> vid option" where
  "constantFor t n = const_numbering t n"

definition resize :: "nat list \<Rightarrow> nat \<Rightarrow> nat list" where
  "resize xs n = take n xs @ replicate (n - length xs) 0"

definition assignExpNewValueNum :: "expression \<Rightarrow> ('z value_table, nat \<times> bool) sm" where
  "assignExpNewValueNum e t = (case expression_numbering t (expr_key e) of
     Some n \<Rightarrow> Inr ((n, False), t)
   | None \<Rightarrow>
       let n = next_value_number t;
           idx = (if length (expr_idx t) < n + 1 then resize (expr_idx t) (n * 2) else expr_idx t) in
       Inr ((n, True), t\<lparr>
         expressions := expressions t @ [e],
         expression_numbering := (expression_numbering t)(expr_key e \<mapsto> n),
         expr_idx := idx[n := next_expr_number t],
         next_value_number := n + 1,
         next_expr_number := next_expr_number t + 1\<rparr>))"

definition getConstant :: "'z value_table \<Rightarrow> vid option \<Rightarrow> vid option" where
  "getConstant t v =
     (if (case v of Some c \<Rightarrow> is_constant (folder t) c | None \<Rightarrow> False) then v
      else Option.bind (value_numbering t v) (const_numbering t))"

text \<open>An operation on the module, where the folder makes its constants.\<close>

definition on_module :: "('z ir_scheme, 'a) sm \<Rightarrow> ('z value_table, 'a) sm" where
  "on_module m t = bindR (m (folder t)) (\<lambda>(x, s). Inr (x, t\<lparr>folder := s\<rparr>))"

definition table_operand :: "vid \<Rightarrow> nat \<Rightarrow> ('z value_table, vid option) sm" where
  "table_operand i j = readM (\<lambda>t. get_operand (folder t) i j)"

definition get_num_operand :: "vid \<Rightarrow> ('z value_table, nat) sm" where
  "get_num_operand i = readM (\<lambda>t. bindR (deref (vals (folder t)) i) (\<lambda>r. Inr (length (vops r))))"

definition table_op :: "vid \<Rightarrow> ('z value_table, opid) sm" where
  "table_op i = readM (\<lambda>t. instr_op (folder t) i)"

definition tryFoldConst :: "(f32 \<Rightarrow> f32 \<Rightarrow> f32) \<Rightarrow> vid \<Rightarrow> ('z value_table, vid option) sm" where
  "tryFoldConst nan i =
     bindM (get_num_operand i) (\<lambda>num.
     bindM (table_op i) (\<lambda>p.
     if num = 2 then
       bindM (table_operand i 0) (\<lambda>v0.
       bindM (getM (\<lambda>t. getConstant t v0)) (\<lambda>c0.
       bindM (table_operand i 1) (\<lambda>v1.
       bindM (getM (\<lambda>t. getConstant t v1)) (\<lambda>c1.
       case (c0, c1) of
         (Some a, Some b) \<Rightarrow> on_module (compute2 nan p a b)
       | _ \<Rightarrow> returnM None))))
     else if num = 1 then
       bindM (table_operand i 0) (\<lambda>v0.
       bindM (getM (\<lambda>t. getConstant t v0)) (\<lambda>c0.
       case c0 of Some a \<Rightarrow> on_module (compute1 p a) | None \<Rightarrow> returnM None))
     else returnM None))"

section \<open>Numbering\<close>

text \<open>A value that is no instruction, and an instruction that is like no other.\<close>

definition number_leaf :: "vid option \<Rightarrow> ('z value_table, nat list) sm" where
  "number_leaf v t =
     (let n = next_value_number t in
      Inr ([n], t\<lparr>value_numbering := (value_numbering t)(v \<mapsto> n),
        const_numbering := (case v of
            None \<Rightarrow> const_numbering t
          | Some c \<Rightarrow> if is_constant (folder t) c then (const_numbering t)(n \<mapsto> c) else const_numbering t),
        next_value_number := n + 1\<rparr>))"

definition number_fresh :: "vid \<Rightarrow> ('z value_table, nat list) sm" where
  "number_fresh i t =
     (let n = next_value_number t in
      Inr ([n], t\<lparr>value_numbering := (value_numbering t)(Some i \<mapsto> n), next_value_number := n + 1\<rparr>))"

definition share_number :: "vid \<Rightarrow> nat \<Rightarrow> ('z value_table, nat list) sm" where
  "share_number i n t = Inr ([n], t\<lparr>value_numbering := (value_numbering t)(Some i \<mapsto> n)\<rparr>)"

text \<open>\<open>createExpr\<close> once the operands have their numbers.\<close>

definition create_expr :: "vid \<Rightarrow> nat list \<Rightarrow> ('z value_table, expression) sm" where
  "create_expr i args =
     bindM (table_op i) (\<lambda>p.
     bindM (readM (\<lambda>t. type_of (folder t) i)) (\<lambda>ty.
     liftR (finalize_expression \<lparr>opcode = p, var_args = args, expr_type = ty, commutative = False\<rparr> p)))"

definition number_expr :: "vid \<Rightarrow> expression \<Rightarrow> ('z value_table, nat list) sm" where
  "number_expr i e = bindM (assignExpNewValueNum e) (\<lambda>ret. share_number i (fst ret))"

definition calls_pure :: "func_info \<Rightarrow> vid \<Rightarrow> ('z value_table, bool) sm" where
  "calls_pure fi i = readM (\<lambda>t.
     bindR (get_operand (folder t) i 0) (\<lambda>callee. case callee of
       None \<Rightarrow> Inr False
     | Some f \<Rightarrow> (case kind_of (folder t) f of Some K_func \<Rightarrow> is_pure_function fi f | _ \<Rightarrow> Inr False)))"

definition is_structural :: "opid \<Rightarrow> bool" where
  "is_structural p \<longleftrightarrow> p \<in> {O_add, O_sub, O_mul, O_sdiv, O_fadd, O_fsub, O_fmul, O_fdiv, O_ge, O_gt, O_le, O_lt, O_eq, O_ne,
     O_fge, O_fgt, O_fle, O_flt, O_feq, O_fne, O_zext, O_fptosi, O_sitofp}"

text \<open>Phis: the incoming values are the operands at even places.\<close>

fun evens :: "'a list \<Rightarrow> 'a list" where
  "evens [] = []"
| "evens [x] = [x]"
| "evens (x # y # rest) = x # evens rest"

definition enter_phi :: "vid \<Rightarrow> ('z value_table, nat) sm" where
  "enter_phi i t =
     (let self = next_value_number t in
      Inr (self, t\<lparr>value_numbering := (value_numbering t)(Some i \<mapsto> self),
        numbering_phi := (numbering_phi t)(self \<mapsto> i), next_value_number := self + 1\<rparr>))"

definition scan_incoming :: "nat list \<Rightarrow> nat \<times> bool" where
  "scan_incoming ns = foldl (\<lambda>(first, same) n. if first = 0 then (n, same) else (first, same \<and> n = first)) (0, True) ns"

definition settle_phi :: "vid \<Rightarrow> nat \<Rightarrow> nat \<Rightarrow> ('z value_table, nat list) sm" where
  "settle_phi i self n t =
     Inr ([n], t\<lparr>value_numbering := (value_numbering t)(Some i \<mapsto> n), numbering_phi := (numbering_phi t)(self := None)\<rparr>)"

text \<open>\<open>createPhiExpr\<close> once the operands have their numbers; a last operand without a block is out of range.\<close>

definition create_phi_expr :: "vid \<Rightarrow> nat list \<Rightarrow> ('z value_table, expression) sm" where
  "create_phi_expr i args =
     thenM (guardM (even (length args)) Out_of_range)
    (bindM (readM (\<lambda>t. type_of (folder t) i)) (\<lambda>ty.
     returnM \<lparr>opcode = O_phi, var_args = args, expr_type = ty, commutative = False\<rparr>))"

definition register_phi :: "vid \<Rightarrow> nat \<Rightarrow> expression \<Rightarrow> ('z value_table, nat list) sm" where
  "register_phi i self e t = (case expression_numbering t (expr_key e) of
     None \<Rightarrow> Inr ([self], t\<lparr>expression_numbering := (expression_numbering t)(expr_key e \<mapsto> self)\<rparr>)
   | Some existing \<Rightarrow> settle_phi i self existing t)"

definition table_instr :: "'z value_table \<Rightarrow> vid option \<Rightarrow> vid option" where
  "table_instr t v = (case v of
     None \<Rightarrow> None
   | Some i \<Rightarrow> (case kind_of (folder t) i of Some (K_instr _ _) \<Rightarrow> Some i | _ \<Rightarrow> None))"

text \<open>\<open>lookupOrAdd\<close> on each of a list of values; on a single value it is the code's function.\<close>

partial_function (option) number_all ::
  "(f32 \<Rightarrow> f32 \<Rightarrow> f32) \<Rightarrow> func_info \<Rightarrow> vid option list \<Rightarrow> 'z value_table \<Rightarrow> (nat list \<times> 'z value_table) res option" where
  "number_all nan fi vs t = (case vs of
     [] \<Rightarrow> Some (Inr ([], t))
   | v # rest \<Rightarrow>
     if rest \<noteq> [] then
       bindMO (number_all nan fi [v]) (\<lambda>ns. bindMO (number_all nan fi rest) (\<lambda>ms. liftMO (returnM (ns @ ms)))) t
     else (case value_numbering t v of
       Some n \<Rightarrow> Some (Inr ([n], t))
     | None \<Rightarrow> (case table_instr t v of
         None \<Rightarrow> liftMO (number_leaf v) t
       | Some i \<Rightarrow>
         bindMO (liftMO (tryFoldConst nan i)) (\<lambda>folded. case folded of
           Some c \<Rightarrow> bindMO (number_all nan fi [Some c]) (\<lambda>ns. liftMO (share_number i (hd ns)))
         | None \<Rightarrow>
           bindMO (liftMO (table_op i)) (\<lambda>p.
           if p = O_call then
             bindMO (liftMO (calls_pure fi i)) (\<lambda>pure.
             if pure then
               bindMO (number_all nan fi (ops_of (folder t) i)) (\<lambda>args.
               bindMO (liftMO (create_expr i args)) (\<lambda>e. liftMO (number_expr i e)))
             else liftMO (number_fresh i))
           else if is_structural p then
             bindMO (number_all nan fi (ops_of (folder t) i)) (\<lambda>args.
             bindMO (liftMO (create_expr i args)) (\<lambda>e.
             bindMO (liftMO (tryFoldConst nan i)) (\<lambda>late_folded. case late_folded of
               Some c \<Rightarrow> bindMO (number_all nan fi [Some c]) (\<lambda>ns. liftMO (share_number i (hd ns)))
             | None \<Rightarrow> liftMO (number_expr i e))))
           else if p = O_phi then
             bindMO (liftMO (enter_phi i)) (\<lambda>self.
             bindMO (number_all nan fi (evens (ops_of (folder t) i))) (\<lambda>incoming.
             if snd (scan_incoming incoming) \<and> ops_of (folder t) i \<noteq> [] then
               liftMO (settle_phi i self (fst (scan_incoming incoming)))
             else
               bindMO (number_all nan fi (ops_of (folder t) i)) (\<lambda>args.
               bindMO (liftMO (create_phi_expr i args)) (\<lambda>e. liftMO (register_phi i self e)))))
           else liftMO (number_fresh i))) t)))"

declare number_all.simps [code]

definition lookupOrAdd :: "(f32 \<Rightarrow> f32 \<Rightarrow> f32) \<Rightarrow> func_info \<Rightarrow> vid option \<Rightarrow> ('z value_table, nat) sm" where
  "lookupOrAdd nan fi v t = bindR (outcome (number_all nan fi [v] t)) (\<lambda>(ns, t'). Inr (hd ns, t'))"

end
