(* ===== verification/GlobalValueNumbering.thy ===== *)
theory GlobalValueNumbering
  imports ValueTable Mem2Reg
begin

text \<open>
  The global value numbering pass (\<open>src/passes/GlobalValueNumbering.cpp\<close>): numbers across an edge, phi
  congruence, duplicate phis, the walk over the dominator tree with a table of leaders, and the
  replacement of uses. The maps of the walk are the record \<open>gvn\<close>; the sets of children and the map of
  replacements are walked in an unspecified order: \<open>orders\<close>. The JSON dump is not modelled beyond the
  leaders it keeps.
\<close>

section \<open>Phi congruence\<close>

text \<open>The incoming value for \<open>pred\<close>; a last operand without a block is out of range.\<close>

fun incoming_for :: "vid \<Rightarrow> vid option list \<Rightarrow> vid option option res" where
  "incoming_for pred [] = Inr None"
| "incoming_for pred [v] = Inl Out_of_range"
| "incoming_for pred (v # b # rest) = (if b = Some pred then Inr (Some v) else incoming_for pred rest)"

definition phiTranslate :: "(f32 \<Rightarrow> f32 \<Rightarrow> f32) \<Rightarrow> func_info \<Rightarrow> vid \<Rightarrow> vid \<Rightarrow> nat \<Rightarrow> ('z value_table, nat) sm" where
  "phiTranslate nan fi pred phi_block num =
     bindM (getM (\<lambda>t. numbering_phi t num)) (\<lambda>phi. case phi of
       None \<Rightarrow> returnM num
     | Some phi \<Rightarrow>
         bindM (readM (\<lambda>t. instr_parent (folder t) phi)) (\<lambda>p.
         if p \<noteq> Some phi_block then returnM num
         else
           bindM (readM (\<lambda>t. incoming_for pred (ops_of (folder t) phi))) (\<lambda>v. case v of
             None \<Rightarrow> returnM num
           | Some v \<Rightarrow> lookupOrAdd nan fi v)))"

text \<open>The operands along an edge: their translated numbers, their constants, and whether one changed.\<close>

fun edge_operands :: "(f32 \<Rightarrow> f32 \<Rightarrow> f32) \<Rightarrow> func_info \<Rightarrow> vid \<Rightarrow> vid \<Rightarrow> vid option list \<Rightarrow>
    ('z value_table, nat list \<times> vid option list \<times> bool) sm" where
  "edge_operands nan fi pred bb [] = returnM ([], [], False)"
| "edge_operands nan fi pred bb (v # vs) =
     bindM (lookupOrAdd nan fi v) (\<lambda>operand_num.
     bindM (phiTranslate nan fi pred bb operand_num) (\<lambda>translated_num.
     bindM (getM (\<lambda>t. const_numbering t translated_num)) (\<lambda>c.
     bindM (edge_operands nan fi pred bb vs) (\<lambda>rest.
     returnM (translated_num # fst rest, c # fst (snd rest), translated_num \<noteq> operand_num \<or> snd (snd rest))))))"

definition fold_edge :: "(f32 \<Rightarrow> f32 \<Rightarrow> f32) \<Rightarrow> opid \<Rightarrow> vid option list \<Rightarrow> ('z value_table, vid option) sm" where
  "fold_edge nan p consts = (case consts of
     [Some a, Some b] \<Rightarrow> on_module (compute2 nan p a b)
   | [Some a] \<Rightarrow> on_module (compute1 p a)
   | _ \<Rightarrow> returnM None)"

text \<open>The number of the instruction on the edge from \<open>pred\<close>.\<close>

definition edge_value :: "(f32 \<Rightarrow> f32 \<Rightarrow> f32) \<Rightarrow> func_info \<Rightarrow> vid \<Rightarrow> vid \<Rightarrow> vid \<Rightarrow> ('z value_table, nat \<times> bool) sm" where
  "edge_value nan fi i bb pred =
     bindM (readM (\<lambda>t. deref (vals (folder t)) i)) (\<lambda>r.
     bindM (edge_operands nan fi pred bb (vops r)) (\<lambda>(args, consts, translated).
     bindM (create_expr i args) (\<lambda>edge_expr.
     bindM (table_op i) (\<lambda>p.
     bindM (fold_edge nan p consts) (\<lambda>folded.
     bindM (case folded of
         Some c \<Rightarrow> lookupOrAdd nan fi (Some c)
       | None \<Rightarrow> bindM (assignExpNewValueNum edge_expr) (\<lambda>ret. returnM (fst ret))) (\<lambda>edge_vn.
     returnM (edge_vn, translated)))))))"

fun edge_values :: "(f32 \<Rightarrow> f32 \<Rightarrow> f32) \<Rightarrow> func_info \<Rightarrow> vid \<Rightarrow> vid \<Rightarrow> vid list \<Rightarrow> ('z value_table, nat list \<times> bool) sm" where
  "edge_values nan fi i bb [] = returnM ([], False)"
| "edge_values nan fi i bb (pred # ps) =
     bindM (edge_value nan fi i bb pred) (\<lambda>(vn, translated).
     bindM (edge_values nan fi i bb ps) (\<lambda>(vns, any_translated).
     returnM (vn # vns, translated \<or> any_translated)))"

text \<open>The arguments of the phi that has the values of the edges.\<close>

fun phi_args :: "(f32 \<Rightarrow> f32 \<Rightarrow> f32) \<Rightarrow> func_info \<Rightarrow> nat list \<Rightarrow> vid list \<Rightarrow> ('z value_table, nat list) sm" where
  "phi_args nan fi (vn # vns) (pred # ps) =
     bindM (lookupOrAdd nan fi (Some pred)) (\<lambda>b.
     bindM (phi_args nan fi vns ps) (\<lambda>rest. returnM (vn # b # rest)))"
| "phi_args nan fi _ _ = returnM []"

definition may_translate :: "'z ir_scheme \<Rightarrow> vid \<Rightarrow> bool res" where
  "may_translate s i =
     bindR (instr_op s i) (\<lambda>p.
     Inr (p \<noteq> O_phi \<and> ops_of s i \<noteq> [] \<and>
       (isBinary p (length (ops_of s i)) \<or> is_cmp p \<or> is_fcmp p \<or> p \<in> {O_sitofp, O_fptosi, O_zext})))"

definition tryPhiCongruence ::
  "(f32 \<Rightarrow> f32 \<Rightarrow> f32) \<Rightarrow> func_info \<Rightarrow> vid \<Rightarrow> vid \<Rightarrow> (nat \<rightharpoonup> vid) \<Rightarrow> ('z value_table, vid option) sm" where
  "tryPhiCongruence nan fi i bb leaders =
     bindM (readM (\<lambda>t. may_translate (folder t) i)) (\<lambda>ok.
     if \<not> ok then returnM None
     else
       bindM (readM (\<lambda>t. deref (bbs (folder t)) bb)) (\<lambda>r.
       if length (pre_bbs r) < 2 then returnM None
       else
         bindM (edge_values nan fi i bb (pre_bbs r)) (\<lambda>(edge_vns, any_translated).
         if \<not> any_translated then returnM None
         else if \<forall>vn\<in>set edge_vns. vn = hd edge_vns then
           getM (\<lambda>t. case leaders (hd edge_vns) of Some v \<Rightarrow> Some v | None \<Rightarrow> constantFor t (hd edge_vns))
         else
           bindM (readM (\<lambda>t. type_of (folder t) i)) (\<lambda>ty.
           bindM (phi_args nan fi edge_vns (pre_bbs r)) (\<lambda>args.
           getM (\<lambda>t. Option.bind (expression_numbering t (O_phi, args, ty)) leaders))))))"

section \<open>Duplicate phis\<close>

text \<open>The maps of the walk; the replacements in the order they are made.\<close>

record 'z gvn =
  vn :: "'z value_table"
  leader_table :: "nat \<rightharpoonup> vid"
  history :: "(nat \<times> vid) list"
  replace_map :: "(vid \<times> vid) list"
  pout_leaders :: "vid \<rightharpoonup> (nat \<times> vid) list"

fun same_operands :: "vid option list \<Rightarrow> vid option list \<Rightarrow> bool res" where
  "same_operands (v # b # vs) (w # c # ws) = (if v \<noteq> w \<or> b \<noteq> c then Inr False else same_operands vs ws)"
| "same_operands [v] [w] = (if v \<noteq> w then Inr False else Inl Out_of_range)"
| "same_operands _ _ = Inr True"

definition same_phi :: "'z ir_scheme \<Rightarrow> vid \<Rightarrow> vid \<Rightarrow> bool res" where
  "same_phi s a b =
     (if length (ops_of s a) \<noteq> length (ops_of s b) then Inr False else same_operands (ops_of s a) (ops_of s b))"

text \<open>The first of the phis before \<open>phi\<close> that is still there and is the same.\<close>

fun find_same_phi :: "'z ir_scheme \<Rightarrow> (vid \<times> vid) list \<Rightarrow> vid \<Rightarrow> vid list \<Rightarrow> vid option res" where
  "find_same_phi s reps phi [] = Inr None"
| "find_same_phi s reps phi (other # others) =
     (if other \<in> fst ` set reps then find_same_phi s reps phi others
      else bindR (same_phi s phi other) (\<lambda>same. if same then Inr (Some other) else find_same_phi s reps phi others))"

fun drop_duplicates :: "'z ir_scheme \<Rightarrow> vid list \<Rightarrow> vid list \<Rightarrow> (vid \<times> vid) list \<Rightarrow> (vid \<times> vid) list res" where
  "drop_duplicates s seen [] reps = Inr reps"
| "drop_duplicates s seen (phi # phis) reps =
     bindR (if phi \<in> fst ` set reps then Inr None else find_same_phi s reps phi seen) (\<lambda>dup.
     drop_duplicates s (seen @ [phi]) phis (case dup of None \<Rightarrow> reps | Some other \<Rightarrow> reps @ [(phi, other)]))"

definition eliminateDuplicatePhis :: "vid \<Rightarrow> 'z gvn \<Rightarrow> 'z gvn res" where
  "eliminateDuplicatePhis bb g =
     (let s = folder (vn g) in
      bindR (deref (bbs s) bb) (\<lambda>r.
      bindR (drop_duplicates s [] (filter (is_phi_instr s) (instr_list r)) (replace_map g)) (\<lambda>reps.
      Inr (g\<lparr>replace_map := reps\<rparr>))))"

section \<open>The walk over the dominator tree\<close>

definition on_table :: "('z value_table, 'a) sm \<Rightarrow> ('z gvn, 'a) sm" where
  "on_table m g = bindR (m (vn g)) (\<lambda>(x, t). Inr (x, g\<lparr>vn := t\<rparr>))"

definition add_replacement :: "vid \<Rightarrow> vid \<Rightarrow> ('z gvn, unit) sm" where
  "add_replacement i v = modifyM (\<lambda>g. g\<lparr>replace_map := replace_map g @ [(i, v)]\<rparr>)"

definition add_leader :: "nat \<Rightarrow> vid \<Rightarrow> ('z gvn, unit) sm" where
  "add_leader num i = modifyM (\<lambda>g. g\<lparr>leader_table := (leader_table g)(num \<mapsto> i), history := history g @ [(num, i)]\<rparr>)"

definition analyze_instr :: "(f32 \<Rightarrow> f32 \<Rightarrow> f32) \<Rightarrow> func_info \<Rightarrow> vid \<Rightarrow> vid \<Rightarrow> ('z gvn, unit) sm" where
  "analyze_instr nan fi bb i =
     bindM (readM (\<lambda>g. deref (vals (folder (vn g))) i)) (\<lambda>r.
     bindM (on_table (table_op i)) (\<lambda>p.
     bindM (getM replace_map) (\<lambda>reps.
     if is_void_instr p (vty r) \<or> i \<in> fst ` set reps then returnM ()
     else
       bindM (on_table (lookupOrAdd nan fi (Some i))) (\<lambda>num.
       bindM (getM leader_table) (\<lambda>leaders. case leaders num of
         Some v \<Rightarrow> add_replacement i v
       | None \<Rightarrow>
         bindM (getM (\<lambda>g. constantFor (vn g) num)) (\<lambda>c. case c of
           Some c \<Rightarrow> add_replacement i c
         | None \<Rightarrow>
           bindM (on_table (tryPhiCongruence nan fi i bb leaders)) (\<lambda>phi_repl. case phi_repl of
             Some v \<Rightarrow> add_replacement i v
           | None \<Rightarrow> add_leader num i)))))))"

fun analyze_instrs :: "(f32 \<Rightarrow> f32 \<Rightarrow> f32) \<Rightarrow> func_info \<Rightarrow> vid \<Rightarrow> vid list \<Rightarrow> ('z gvn, unit) sm" where
  "analyze_instrs nan fi bb [] = returnM ()"
| "analyze_instrs nan fi bb (i # is) = thenM (analyze_instr nan fi bb i) (analyze_instrs nan fi bb is)"

definition analyze_block :: "bool \<Rightarrow> (f32 \<Rightarrow> f32 \<Rightarrow> f32) \<Rightarrow> func_info \<Rightarrow> vid \<Rightarrow> ('z gvn, unit) sm" where
  "analyze_block dump_json nan fi bb =
     thenM (updateM (eliminateDuplicatePhis bb))
    (bindM (readM (\<lambda>g. deref (bbs (folder (vn g))) bb)) (\<lambda>r.
     thenM (analyze_instrs nan fi bb (instr_list r))
       (modifyM (\<lambda>g. if dump_json then g\<lparr>pout_leaders := (pout_leaders g)(bb \<mapsto> history g)\<rparr> else g))))"

text \<open>The bindings made since \<open>old_size\<close>, the last one first.\<close>

definition unbind :: "nat \<Rightarrow> 'z gvn \<Rightarrow> 'z gvn" where
  "unbind old_size g = g\<lparr>
     leader_table := fold (\<lambda>bind m. m(fst bind := None)) (rev (drop old_size (history g))) (leader_table g),
     history := take old_size (history g)\<rparr>"

text \<open>\<open>analyzeGVN\<close> on each of a list of blocks: a child of the dominator tree and then its siblings.\<close>

partial_function (option) analyze_blocks ::
  "bool \<Rightarrow> (f32 \<Rightarrow> f32 \<Rightarrow> f32) \<Rightarrow> orders \<Rightarrow> dominators \<Rightarrow> func_info \<Rightarrow> vid list \<Rightarrow> 'z gvn \<Rightarrow> 'z gvn res option" where
  "analyze_blocks dump nan ord d fi bs g = (case bs of
     [] \<Rightarrow> Some (Inr g)
   | b # rest \<Rightarrow>
       (case analyze_block dump nan fi b g of
          Inl e \<Rightarrow> Some (Inl e)
        | Inr (u, g1) \<Rightarrow>
            (case get_dom_tree_succ_blocks d b of
               Inl e \<Rightarrow> Some (Inl e)
             | Inr children \<Rightarrow>
                 Option.bind (analyze_blocks dump nan ord d fi (set_order ord children) g1) (\<lambda>x. case x of
                   Inl e \<Rightarrow> Some (Inl e)
                 | Inr g2 \<Rightarrow> analyze_blocks dump nan ord d fi rest (unbind (length (history g)) g2)))))"

declare analyze_blocks.simps [code]

definition analyzeGVN :: "bool \<Rightarrow> (f32 \<Rightarrow> f32 \<Rightarrow> f32) \<Rightarrow> orders \<Rightarrow> dominators \<Rightarrow> func_info \<Rightarrow> vid \<Rightarrow> 'z gvn \<Rightarrow> 'z gvn res" where
  "analyzeGVN dump nan ord d fi b g = outcome (analyze_blocks dump nan ord d fi [b] g)"

section \<open>The pass\<close>

fun replace_uses :: "(vid \<times> vid) list \<Rightarrow> 'z ir_scheme \<Rightarrow> 'z ir_scheme res" where
  "replace_uses [] s = Inr s"
| "replace_uses ((i, v) # reps) s = bindR (replace_all_use_with i (Some v) s) (replace_uses reps)"

definition gvn_start :: "'z ir_scheme \<Rightarrow> 'z gvn" where
  "gvn_start s = \<lparr>vn = ValueTable_ctor s, leader_table = Map.empty, history = [], replace_map = [], pout_leaders = Map.empty\<rparr>"

definition gvn_function :: "bool \<Rightarrow> (f32 \<Rightarrow> f32 \<Rightarrow> f32) \<Rightarrow> orders \<Rightarrow> dominators \<Rightarrow> func_info \<Rightarrow> vid \<Rightarrow> 'z ir_scheme \<Rightarrow> 'z ir_scheme res" where
  "gvn_function dump nan ord d fi f s =
     bindR (entry_block s f) (\<lambda>entry.
     bindR (analyzeGVN dump nan ord d fi entry (gvn_start s)) (\<lambda>g.
     replace_uses (pair_order ord (set (replace_map g))) (folder (vn g))))"

fun gvn_functions :: "bool \<Rightarrow> (f32 \<Rightarrow> f32 \<Rightarrow> f32) \<Rightarrow> orders \<Rightarrow> dominators \<Rightarrow> func_info \<Rightarrow> vid list \<Rightarrow> 'z ir_scheme \<Rightarrow> 'z ir_scheme res" where
  "gvn_functions dump nan ord d fi [] s = Inr s"
| "gvn_functions dump nan ord d fi (f # fs) s =
     bindR (is_declaration s f) (\<lambda>decl.
     bindR (if decl then Inr s else gvn_function dump nan ord d fi f s) (gvn_functions dump nan ord d fi fs))"

text \<open>The pass with the analyses it asks for; they come before the naming of the values.\<close>

definition gvn_with :: "bool \<Rightarrow> (f32 \<Rightarrow> f32 \<Rightarrow> f32) \<Rightarrow> orders \<Rightarrow> dominators \<Rightarrow> func_info \<Rightarrow> 'z ir_scheme \<Rightarrow> 'z ir_scheme res" where
  "gvn_with dump nan ord d fi s =
     bindR (set_print_name s) (\<lambda>(u, s1). gvn_functions dump nan ord d fi (function_list s1) s1)"

definition GlobalValueNumbering_run :: "bool \<Rightarrow> (f32 \<Rightarrow> f32 \<Rightarrow> f32) \<Rightarrow> orders \<Rightarrow> 'z ir_scheme \<Rightarrow> 'z ir_scheme res" where
  "GlobalValueNumbering_run dump nan ord s =
     bindR (Dominators_run s) (\<lambda>d.
     bindR (outcome (FuncInfo_run s)) (\<lambda>fi. gvn_with dump nan ord d fi s))"

end
