(* ===== verification/ValueNumbers.thy ===== *)
theory ValueNumbers
  imports ValueTable ConstSemantics
begin

text \<open>
  What a value number stands for: expressions have values, the canonical form of an expression has
  the value of the expression, and, in an execution that runs every block at most once, the table gives
  equal numbers only to equal values.
\<close>

section \<open>Expressions\<close>

text \<open>An execution: the values of the instructions and of the objects that are not scalar constants
  (a label for each block), the predecessor it came from in a block with the given predecessors, and
  what an operation yields where \<open>alu\<close> has no result: a division by zero, or a call of a pure
  function.\<close>

record 'a execution =
  env :: "vid \<Rightarrow> 'a mval"
  taken :: "'a mval option set \<Rightarrow> 'a mval option"
  otherwise :: "opid \<Rightarrow> ty \<Rightarrow> 'a mval option list \<Rightarrow> 'a mval option"

fun odds :: "'a list \<Rightarrow> 'a list" where
  "odds (x # y # rest) = y # odds rest"
| "odds _ = []"

fun incoming_value :: "'a option \<Rightarrow> 'a option list \<Rightarrow> 'a option" where
  "incoming_value b (x # c # rest) = (if c = b then x else incoming_value b rest)"
| "incoming_value b _ = None"

definition denote :: "(f32 \<Rightarrow> f32 \<Rightarrow> f32) \<Rightarrow> 'a execution \<Rightarrow> opid \<Rightarrow> ty \<Rightarrow> 'a mval option list \<Rightarrow> 'a mval option" where
  "denote nan X p ty xs =
     (if p = O_phi then incoming_value (taken X (set (odds xs))) xs
      else case alu nan p xs of Some x \<Rightarrow> Some x | None \<Rightarrow> otherwise X p ty xs)"

text \<open>The value of an expression over numbers with the values \<open>\<rho>\<close>.\<close>

definition key_value :: "(f32 \<Rightarrow> f32 \<Rightarrow> f32) \<Rightarrow> 'a execution \<Rightarrow> (nat \<Rightarrow> 'a mval option) \<Rightarrow> expr_key \<Rightarrow> 'a mval option" where
  "key_value nan X \<rho> e = (case e of (p, ns, ty) \<Rightarrow> denote nan X p ty (map \<rho> ns))"

text \<open>Operands of the kinds the operation is for.\<close>

lemma f32_inf_eq:
  assumes "f32_is_inf x" "f32_is_inf y" "f32_sign x = f32_sign y"
  shows "x = y"
proof -
  have "unat x = unat y"
    using assms by (metis f32_is_inf_def f32_sign_def div_mult_mod_eq)
  then show ?thesis by (simp add: unsigned_word_eqI)
qed

lemma f32_add_commute: "(\<And>x y. nan x y = nan y x) \<Longrightarrow> f32_add nan x y = f32_add nan y x"
  by (auto simp: f32_add_def Let_def add.commute intro: f32_inf_eq)

lemma f32_mul_commute: "(\<And>x y. nan x y = nan y x) \<Longrightarrow> f32_mul nan x y = f32_mul nan y x"
  by (auto simp: f32_mul_def Let_def mult.commute)

text \<open>The operation on exchanged operands.\<close>

definition swaps :: "opid \<Rightarrow> opid \<Rightarrow> bool" where
  "swaps p q \<longleftrightarrow> is_commutative p \<and> q = p \<or> get_swapped_predicate p = Inr q"

text \<open>The machine makes the same NaN of two operands in both orders, and treats them alike where an operation
  has no result.\<close>

definition symmetric :: "(f32 \<Rightarrow> f32 \<Rightarrow> f32) \<Rightarrow> 'a execution \<Rightarrow> bool" where
  "symmetric nan X \<longleftrightarrow> (\<forall>x y. nan x y = nan y x) \<and>
     (\<forall>p q ty x y zs. swaps p q \<longrightarrow> otherwise X p ty (x # y # zs) = otherwise X q ty (y # x # zs))"

lemma f32_eq_commute: "f32_eq a b = f32_eq b a"
  by (auto simp: f32_eq_def)

lemma alu_int_swap: "swaps p q \<Longrightarrow> alu_int q b a = alu_int p a b"
  using eq_commute [of a b]
  by (cases p) (auto simp: swaps_def is_commutative_def get_swapped_predicate_def alu_int_def add.commute mult.commute)

lemma alu_fp_swap: "swaps p q \<Longrightarrow> (\<And>x y. nan x y = nan y x) \<Longrightarrow> alu_fp nan q b a = alu_fp nan p a b"
  using f32_eq_commute [of a b]
  by (cases p) (auto simp: swaps_def is_commutative_def get_swapped_predicate_def alu_fp_def
      intro: f32_add_commute f32_mul_commute)

text \<open>With more than two operands, no operation has a result.\<close>

lemma alu_more: "alu nan p (x # y # z # zs) = None"
  by (simp add: alu_def split: option.split mval.split)

lemma alu_swap:
  assumes "swaps p q" "\<And>x y. nan x y = nan y x"
  shows "alu nan q (y # x # zs) = alu nan p (x # y # zs)"
proof (cases zs)
  case Nil
  then show ?thesis using alu_int_swap [OF assms(1)] alu_fp_swap [OF assms]
    by (auto simp: alu_def split: option.split mval.split)
qed (simp add: alu_more)

lemma swaps_not_phi: "swaps p q \<Longrightarrow> p \<noteq> O_phi \<and> q \<noteq> O_phi"
  by (cases p) (auto simp: swaps_def is_commutative_def get_swapped_predicate_def)

lemma denote_swap:
  assumes "symmetric nan X" "swaps p q"
  shows "denote nan X q ty (y # x # zs) = denote nan X p ty (x # y # zs)"
proof -
  have "alu nan q (y # x # zs) = alu nan p (x # y # zs)"
    using assms by (intro alu_swap) (auto simp: symmetric_def)
  moreover have "otherwise X q ty (y # x # zs) = otherwise X p ty (x # y # zs)"
    using assms unfolding symmetric_def by metis
  ultimately show ?thesis using swaps_not_phi [OF assms(2)] by (simp add: denote_def split: option.split)
qed

definition swapped :: "expression \<Rightarrow> expression \<Rightarrow> bool" where
  "swapped e e' \<longleftrightarrow> expr_key e' = expr_key e \<or>
     (\<exists>a b rest q. var_args e = a # b # rest \<and> swaps (opcode e) q \<and> expr_key e' = (q, b # a # rest, expr_type e))"

lemma finalize_cases:
  assumes "finalize_expression e (opcode e) = Inr e'"
  shows "swapped e e'"
proof -
  obtain e1 where e1: "sort_commutative (opcode e) e = Inr e1" "sort_predicate (opcode e) e1 = Inr e'"
    using assms(1) by (auto simp: finalize_expression_def)
  show ?thesis
  proof (cases "is_commutative (opcode e)")
    case True
    then obtain a b where ab: "var_args e = [a, b]" "e1 = e\<lparr>var_args := if a > b then [b, a] else [a, b], commutative := True\<rparr>"
      using e1(1) by (auto simp: sort_commutative_def split: list.splits)
    then have "e' = e1" using e1(2) by (auto simp: sort_predicate_def split: if_splits)
    then show ?thesis using True ab by (auto simp: swapped_def expr_key_def swaps_def)
  next
    case False
    then have "e1 = e" using e1(1) by (simp add: sort_commutative_def)
    then show ?thesis using e1(2)
      by (auto simp: sort_predicate_def swapped_def expr_key_def swaps_def split: if_splits list.splits)
  qed
qed

lemma swapped_value:
  assumes "symmetric nan X" "swapped e e'"
  shows "key_value nan X \<rho> (expr_key e') = key_value nan X \<rho> (expr_key e)"
  using assms(2) denote_swap [OF assms(1)] unfolding swapped_def
  by (auto simp: expr_key_def key_value_def)

lemma swapped_args: "swapped e e' \<Longrightarrow> set (var_args e') = set (var_args e)"
  by (auto simp: swapped_def expr_key_def)

section \<open>Modules that grow\<close>

text \<open>The folder only adds constants.\<close>

definition const_ext :: "'z ir_scheme \<Rightarrow> 'z ir_scheme \<Rightarrow> bool" where
  "const_ext s t \<longleftrightarrow> ir_ok t \<and> consts_ok t \<and> (\<forall>v\<in>dom (vals s). vals t v = vals s v) \<and>
     (\<forall>v\<in>dom (vals t) - dom (vals s). is_constant t v \<and> ops_of t v = []) \<and>
     (\<exists>m n c1 c2 c3. t = s\<lparr>vals := m, next_id := n, cached_int := c1, cached_bool := c2, cached_float := c3\<rparr>)"

lemma const_ext_refl: "ir_ok s \<Longrightarrow> consts_ok s \<Longrightarrow> const_ext s s"
  by (auto simp: const_ext_def intro!: exI [of _ "vals s"] exI [of _ "next_id s"] exI [of _ "cached_int s"]
      exI [of _ "cached_bool s"] exI [of _ "cached_float s"])

lemma const_ext_obs:
  assumes "const_ext s t"
  shows "ir_ok t" "consts_ok t" "v \<in> dom (vals s) \<Longrightarrow> vals t v = vals s v" "dom (vals s) \<subseteq> dom (vals t)"
    "v \<in> dom (vals s) \<Longrightarrow> kind_of t v = kind_of s v" "v \<in> dom (vals s) \<Longrightarrow> ops_of t v = ops_of s v"
    "v \<in> dom (vals s) \<Longrightarrow> type_of t v = type_of s v"
    "bbs t = bbs s" "funcs t = funcs s" "function_list t = function_list s" "global_list t = global_list s"
proof -
  have v: "vals t v = vals s v" if "v \<in> dom (vals s)" for v using assms that by (auto simp: const_ext_def)
  show "ir_ok t" "consts_ok t" using assms by (simp_all add: const_ext_def)
  show "vals t v = vals s v" "kind_of t v = kind_of s v" "ops_of t v = ops_of s v" "type_of t v = type_of s v"
    if "v \<in> dom (vals s)" using v [OF that] by (simp_all add: kind_of_def ops_of_def type_of_def deref_def)
  show "dom (vals s) \<subseteq> dom (vals t)" using v by (auto simp: dom_def)
  show "bbs t = bbs s" "funcs t = funcs s" "function_list t = function_list s" "global_list t = global_list s"
    using assms by (auto simp: const_ext_def)
qed

lemma const_ext_new: "const_ext s t \<Longrightarrow> v \<in> dom (vals t) \<Longrightarrow> v \<notin> dom (vals s) \<Longrightarrow> is_constant t v \<and> ops_of t v = []"
  by (simp add: const_ext_def)

lemma const_ext_ops: "const_ext s t \<Longrightarrow> ops_of t v = ops_of s v"
  using const_ext_obs(6) [of s t v] const_ext_new [of s t v]
  by (cases "v \<in> dom (vals s)"; cases "v \<in> dom (vals t)") (auto simp: ops_of_def domIff split: option.split)

lemma const_ext_instr: "const_ext s t \<Longrightarrow> kind_of t v = Some (K_instr p b) \<longleftrightarrow> kind_of s v = Some (K_instr p b)"
  using const_ext_obs(5) [of s t v] const_ext_new [of s t v] constant_not_instr [of t v v p b]
    kind_of_dom [of t v "K_instr p b"] kind_of_dom [of s v "K_instr p b"] by (cases "v \<in> dom (vals s)") auto

lemma const_ext_trans:
  assumes a: "const_ext s t" and b: "const_ext t u"
  shows "const_ext s u"
proof -
  have d: "dom (vals s) \<subseteq> dom (vals t)" by (rule const_ext_obs(4) [OF a])
  have "vals u v = vals s v" if "v \<in> dom (vals s)" for v
    using const_ext_obs(3) [OF b, of v] const_ext_obs(3) [OF a that] d that by auto
  moreover have "is_constant u v \<and> ops_of u v = []" if "v \<in> dom (vals u) - dom (vals s)" for v
  proof (cases "v \<in> dom (vals t)")
    case True
    then have "is_constant t v \<and> ops_of t v = []" using a that by (auto simp: const_ext_def)
    then show ?thesis using const_ext_obs(5,6) [OF b True] by (simp add: is_constant_def)
  qed (use b that in \<open>auto simp: const_ext_def\<close>)
  moreover have "\<exists>m n c1 c2 c3. u = s\<lparr>vals := m, next_id := n, cached_int := c1, cached_bool := c2, cached_float := c3\<rparr>"
    using a b unfolding const_ext_def by fastforce
  ultimately show ?thesis using b unfolding const_ext_def by blast
qed

lemma is_constant_mono: "const_ext s t \<Longrightarrow> is_constant s c \<Longrightarrow> is_constant t c"
  using const_ext_obs(5) [of s t c] by (auto simp: is_constant_def kind_of_def dom_def split: option.splits)

lemma grown_const_ext:
  assumes "grown s c t" "kind_of t c = Some k" "stands_for k y" "ir_ok s"
  shows "const_ext s t"
proof -
  have t: "ir_ok t" "consts_ok t" "dom (vals t) = insert c (dom (vals s))" "\<forall>v\<in>dom (vals s). vals t v = vals s v"
    "ops_of t = ops_of s"
    "\<exists>m n c1 c2 c3. t = s\<lparr>vals := m, next_id := n, cached_int := c1, cached_bool := c2, cached_float := c3\<rparr>"
    using assms(1) by (simp_all add: grown_def)
  have "is_constant t c" using assms(2,3) by (cases k) (simp_all add: stands_for_def is_constant_def)
  moreover have "ops_of s v = []" if "v \<notin> dom (vals s)" for v using that by (auto simp: ops_of_def domIff)
  ultimately show ?thesis using t unfolding const_ext_def by auto
qed

text \<open>A fold: the module grows, and the constant it yields, if any, has the value \<open>x\<close> unless a zero of the
  wrong sign comes in.\<close>

definition no_neg_const :: "'z ir_scheme \<Rightarrow> bool" where
  "no_neg_const s \<longleftrightarrow> (\<forall>v. kind_of s v \<noteq> Some (K_fp neg_zero))"

lemma no_neg_const_mono: "const_ext s t \<Longrightarrow> no_neg_const t \<Longrightarrow> no_neg_const s"
  using const_ext_obs(5) [of s t] kind_of_dom [of s] unfolding no_neg_const_def by metis

lemma fold_outcome_ext:
  assumes "fold_outcome m s x" "m s = Inr (c, t)" "ir_ok s" "consts_ok s"
  shows "const_ext s t"
  using assms grown_const_ext [OF _ _ _ assms(3)] const_ext_refl [OF assms(3,4)]
  unfolding fold_outcome_def by auto

lemma fold_outcome_value:
  assumes "fold_outcome m s x" "m s = Inr (Some c, t)" "no_neg_const t" "x \<noteq> Some (VF neg_zero)"
  shows "Some (eval t f c) = x" "is_constant t c" "c \<in> dom (vals t)"
proof -
  obtain k y where k: "kind_of t c = Some k" "x = Some y" "stands_for k y" "grown s c t"
    using assms(1,2) by (auto simp: fold_outcome_def)
  have "k \<noteq> K_fp neg_zero" using k(1) assms(3) by (auto simp: no_neg_const_def)
  then show "Some (eval t f c) = x" "is_constant t c"
    using stands_for_eval [OF k(1,3)] assms(4) k(2) by auto
  show "c \<in> dom (vals t)" using kind_of_dom [OF k(1)] .
qed

section \<open>What the table says\<close>

definition value_in :: "'z ir_scheme \<Rightarrow> 'a execution \<Rightarrow> vid option \<Rightarrow> 'a mval option" where
  "value_in s X v = map_option (eval s (env X)) v"

definition known :: "'z ir_scheme \<Rightarrow> vid option \<Rightarrow> bool" where
  "known s v \<longleftrightarrow> (\<forall>x. v = Some x \<longrightarrow> x \<in> dom (vals s))"

lemma known_simps [simp]: "known s None" "known s (Some x) \<longleftrightarrow> x \<in> dom (vals s)"
  by (simp_all add: known_def)

lemma const_ext_value: "const_ext s t \<Longrightarrow> known s v \<Longrightarrow> value_in t X v = value_in s X v"
  using const_ext_obs(5) [of s t] by (cases v) (auto simp: value_in_def intro!: eval_cong)

lemma known_mono: "const_ext s t \<Longrightarrow> known s v \<Longrightarrow> known t v"
  using const_ext_obs(4) [of s t] by (auto simp: known_def)

text \<open>The instructions whose number comes from their operands, and the executions in which their values do.\<close>

definition pure_call :: "func_info \<Rightarrow> 'z ir_scheme \<Rightarrow> vid \<Rightarrow> bool" where
  "pure_call fi s i \<longleftrightarrow> (case operand_at s i 0 of
     None \<Rightarrow> False
   | Some f \<Rightarrow> kind_of s f = Some K_func \<and> is_pure fi f = Some True)"

definition from_operands :: "func_info \<Rightarrow> 'z ir_scheme \<Rightarrow> opid \<Rightarrow> vid \<Rightarrow> bool" where
  "from_operands fi s p i \<longleftrightarrow> is_structural p \<or> p = O_phi \<or> p = O_call \<and> pure_call fi s i"

definition solves :: "(f32 \<Rightarrow> f32 \<Rightarrow> f32) \<Rightarrow> func_info \<Rightarrow> 'z ir_scheme \<Rightarrow> 'a execution \<Rightarrow> bool" where
  "solves nan fi s X \<longleftrightarrow> (\<forall>i p b ty. kind_of s i = Some (K_instr p b) \<and> type_of s i = Inr ty \<and> from_operands fi s p i \<longrightarrow>
     env X i \<noteq> VF neg_zero \<and> Some (env X i) = denote nan X p ty (slot_values s (env X) i))"

lemma value_instr: "kind_of s i = Some (K_instr p b) \<Longrightarrow> value_in s X (Some i) = Some (env X i)"
  by (simp add: value_in_def eval_instr)

lemma slot_values_map: "slot_values s (env X) i = map (value_in s X) (ops_of s i)"
  by (simp add: slot_values_def value_in_def)

text \<open>The numbers have the values \<open>\<rho>\<close>.\<close>

definition values_ok :: "'a execution \<Rightarrow> (nat \<Rightarrow> 'a mval option) \<Rightarrow> 'z value_table \<Rightarrow> bool" where
  "values_ok X \<rho> t \<longleftrightarrow> (\<forall>v n. value_numbering t v = Some n \<longrightarrow>
     0 < n \<and> n < next_value_number t \<and> known (folder t) v \<and> \<rho> n = value_in (folder t) X v)"

definition exprs_ok :: "(f32 \<Rightarrow> f32 \<Rightarrow> f32) \<Rightarrow> 'a execution \<Rightarrow> (nat \<Rightarrow> 'a mval option) \<Rightarrow> 'z value_table \<Rightarrow> bool" where
  "exprs_ok nan X \<rho> t \<longleftrightarrow> (\<forall>e n. expression_numbering t e = Some n \<longrightarrow>
     0 < n \<and> n < next_value_number t \<and> (\<forall>m\<in>set (fst (snd e)). m < next_value_number t) \<and> \<rho> n = key_value nan X \<rho> e)"

definition consts_num :: "'a execution \<Rightarrow> (nat \<Rightarrow> 'a mval option) \<Rightarrow> 'z value_table \<Rightarrow> bool" where
  "consts_num X \<rho> t \<longleftrightarrow> (\<forall>n c. const_numbering t n = Some c \<longrightarrow>
     n < next_value_number t \<and> c \<in> dom (vals (folder t)) \<and> is_constant (folder t) c \<and> \<rho> n = value_in (folder t) X (Some c))"

definition phis_num :: "'a execution \<Rightarrow> (nat \<Rightarrow> 'a mval option) \<Rightarrow> 'z value_table \<Rightarrow> bool" where
  "phis_num X \<rho> t \<longleftrightarrow> (\<forall>n i. numbering_phi t n = Some i \<longrightarrow>
     n < next_value_number t \<and> (\<exists>b. kind_of (folder t) i = Some (K_instr O_phi b)) \<and> \<rho> n = value_in (folder t) X (Some i))"

definition table_ok :: "(f32 \<Rightarrow> f32 \<Rightarrow> f32) \<Rightarrow> 'z ir_scheme \<Rightarrow> 'a execution \<Rightarrow> (nat \<Rightarrow> 'a mval option) \<Rightarrow> 'z value_table \<Rightarrow> bool" where
  "table_ok nan s X \<rho> t \<longleftrightarrow> const_ext s (folder t) \<and> 0 < next_value_number t \<and>
     values_ok X \<rho> t \<and> exprs_ok nan X \<rho> t \<and> consts_num X \<rho> t \<and> phis_num X \<rho> t"

lemma table_okD:
  assumes "table_ok nan s X \<rho> t"
  shows "const_ext s (folder t)" "0 < next_value_number t" "values_ok X \<rho> t" "exprs_ok nan X \<rho> t" "consts_num X \<rho> t"
    "phis_num X \<rho> t"
  using assms by (simp_all add: table_ok_def)

lemma table_start: "ir_ok s \<Longrightarrow> consts_ok s \<Longrightarrow> table_ok nan s X \<rho> (ValueTable_ctor s)"
  by (simp add: table_ok_def ValueTable_ctor_def values_ok_def exprs_ok_def consts_num_def phis_num_def const_ext_refl)

text \<open>The same numbers, with the same values.\<close>

definition agree :: "'z value_table \<Rightarrow> (nat \<Rightarrow> 'a mval option) \<Rightarrow> (nat \<Rightarrow> 'a mval option) \<Rightarrow> bool" where
  "agree t \<rho> \<rho>' \<longleftrightarrow> (\<forall>n<next_value_number t. \<rho>' n = \<rho> n)"

lemma agree_refl [simp, intro]: "agree t \<rho> \<rho>"
  by (simp add: agree_def)

lemma agree_trans: "agree t \<rho> \<rho>' \<Longrightarrow> agree t' \<rho>' \<rho>'' \<Longrightarrow> next_value_number t \<le> next_value_number t' \<Longrightarrow> agree t \<rho> \<rho>''"
  by (simp add: agree_def)

lemma key_value_agree:
  assumes "\<forall>m\<in>set (fst (snd e)). \<rho>' m = \<rho> m"
  shows "key_value nan X \<rho>' e = key_value nan X \<rho> e"
proof -
  obtain p ns ty where e: "e = (p, ns, ty)" using prod_cases3 by blast
  then have "map \<rho>' ns = map \<rho> ns" using assms by simp
  then show ?thesis by (simp only: key_value_def e prod.case)
qed

text \<open>One more number, of any value.\<close>

lemma table_bump:
  assumes ok: "table_ok nan s X \<rho> t" and n: "n = next_value_number t"
  shows "table_ok nan s X (\<rho>(n := x)) (t\<lparr>next_value_number := n + 1\<rparr>)" "agree t \<rho> (\<rho>(n := x))"
proof -
  note d = table_okD [OF ok]
  let ?t = "t\<lparr>next_value_number := n + 1\<rparr>" and ?r = "\<rho>(n := x)"
  have "values_ok X ?r ?t" using d(3) n unfolding values_ok_def by fastforce
  moreover have "exprs_ok nan X ?r ?t"
    unfolding exprs_ok_def
  proof (intro allI impI)
    fix e m assume "expression_numbering ?t e = Some m"
    then have m: "0 < m" "m < next_value_number t" "\<forall>m\<in>set (fst (snd e)). m < next_value_number t" "\<rho> m = key_value nan X \<rho> e"
      using d(4) unfolding exprs_ok_def by (simp_all del: split_paired_All)
    have "key_value nan X ?r e = key_value nan X \<rho> e"
      by (rule key_value_agree) (use m(3) n in auto)
    then show "0 < m \<and> m < next_value_number ?t \<and> (\<forall>m\<in>set (fst (snd e)). m < next_value_number ?t) \<and> ?r m = key_value nan X ?r e"
      using m n by auto
  qed
  moreover have "consts_num X ?r ?t" using d(5) n unfolding consts_num_def by fastforce
  moreover have "phis_num X ?r ?t" using d(6) n unfolding phis_num_def by fastforce
  ultimately show "table_ok nan s X ?r ?t" using d(1) by (simp add: table_ok_def)
  show "agree t \<rho> ?r" using n by (simp add: agree_def)
qed

lemma table_folder:
  assumes ok: "table_ok nan s X \<rho> t" and e: "const_ext (folder t) u"
  shows "table_ok nan s X \<rho> (t\<lparr>folder := u\<rparr>)"
proof -
  note d = table_okD [OF ok] and v = const_ext_value [OF e] and k = known_mono [OF e]
  have vx: "known (folder t) v \<Longrightarrow> value_in u X v = value_in (folder t) X v" for v by (rule v)
  have "consts_num X \<rho> (t\<lparr>folder := u\<rparr>)"
    unfolding consts_num_def
  proof (intro allI impI)
    fix n c assume "const_numbering (t\<lparr>folder := u\<rparr>) n = Some c"
    then have c: "n < next_value_number t" "c \<in> dom (vals (folder t))" "is_constant (folder t) c" "\<rho> n = value_in (folder t) X (Some c)"
      using d(5) by (simp_all add: consts_num_def)
    then show "n < next_value_number (t\<lparr>folder := u\<rparr>) \<and> c \<in> dom (vals (folder (t\<lparr>folder := u\<rparr>))) \<and>
        is_constant (folder (t\<lparr>folder := u\<rparr>)) c \<and> \<rho> n = value_in (folder (t\<lparr>folder := u\<rparr>)) X (Some c)"
      using v [of "Some c" X] k [of "Some c"] is_constant_mono [OF e] by simp
  qed
  moreover have "values_ok X \<rho> (t\<lparr>folder := u\<rparr>)" using d(3) vx k by (simp add: values_ok_def)
  moreover have "exprs_ok nan X \<rho> (t\<lparr>folder := u\<rparr>)" using d(4) by (simp add: exprs_ok_def)
  moreover have "phis_num X \<rho> (t\<lparr>folder := u\<rparr>)"
    unfolding phis_num_def
  proof (intro allI impI)
    fix n i assume "numbering_phi (t\<lparr>folder := u\<rparr>) n = Some i"
    then obtain b where i: "n < next_value_number t" "kind_of (folder t) i = Some (K_instr O_phi b)"
        "\<rho> n = value_in (folder t) X (Some i)"
      using d(6) by (auto simp: phis_num_def)
    then show "n < next_value_number (t\<lparr>folder := u\<rparr>) \<and> (\<exists>b. kind_of (folder (t\<lparr>folder := u\<rparr>)) i = Some (K_instr O_phi b)) \<and>
        \<rho> n = value_in (folder (t\<lparr>folder := u\<rparr>)) X (Some i)"
      using vx [of "Some i"] kind_of_dom [OF i(2)] const_ext_instr [OF e] by simp
  qed
  ultimately show ?thesis using d(1,2) const_ext_trans [OF _ e] by (simp add: table_ok_def)
qed

lemma table_value:
  assumes "table_ok nan s X \<rho> t" "0 < n" "n < next_value_number t" "known (folder t) v" "\<rho> n = value_in (folder t) X v"
  shows "table_ok nan s X \<rho> (t\<lparr>value_numbering := (value_numbering t)(v \<mapsto> n)\<rparr>)"
  using assms by (simp add: table_ok_def values_ok_def exprs_ok_def consts_num_def phis_num_def)

lemma table_expr:
  assumes "table_ok nan s X \<rho> t" "0 < n" "n < next_value_number t" "\<forall>m\<in>set (fst (snd e)). m < next_value_number t"
    "\<rho> n = key_value nan X \<rho> e"
  shows "table_ok nan s X \<rho> (t\<lparr>expression_numbering := (expression_numbering t)(e \<mapsto> n)\<rparr>)"
  using assms by (simp add: table_ok_def values_ok_def exprs_ok_def consts_num_def phis_num_def del: split_paired_All)

lemma table_const:
  assumes "table_ok nan s X \<rho> t" "n < next_value_number t" "c \<in> dom (vals (folder t))" "is_constant (folder t) c"
    "\<rho> n = value_in (folder t) X (Some c)"
  shows "table_ok nan s X \<rho> (t\<lparr>const_numbering := (const_numbering t)(n \<mapsto> c)\<rparr>)"
  using assms by (simp add: table_ok_def values_ok_def exprs_ok_def consts_num_def phis_num_def)

lemma table_phi:
  assumes "table_ok nan s X \<rho> t" "n < next_value_number t" "kind_of (folder t) i = Some (K_instr O_phi b)"
    "\<rho> n = value_in (folder t) X (Some i)"
  shows "table_ok nan s X \<rho> (t\<lparr>numbering_phi := (numbering_phi t)(n \<mapsto> i)\<rparr>)"
  using assms by (simp add: table_ok_def values_ok_def exprs_ok_def consts_num_def phis_num_def)

lemma table_drop_phi: "table_ok nan s X \<rho> t \<Longrightarrow> table_ok nan s X \<rho> (t\<lparr>numbering_phi := (numbering_phi t)(n := None)\<rparr>)"
  by (simp add: table_ok_def values_ok_def exprs_ok_def consts_num_def phis_num_def)

lemma table_lists:
  "table_ok nan s X \<rho> (t\<lparr>expressions := es, expr_idx := idx, next_expr_number := k\<rparr>) = table_ok nan s X \<rho> t"
  by (simp add: table_ok_def values_ok_def exprs_ok_def consts_num_def phis_num_def)

section \<open>Cases of \<open>lookupOrAdd\<close>\<close>

lemma bindMO_Inr_iff:
  "bindMO m f t = Some (Inr r) \<longleftrightarrow> (\<exists>x t1. m t = Some (Inr (x, t1)) \<and> f x t1 = Some (Inr r))"
proof (cases "m t")
  case (Some y)
  then show ?thesis by (cases y) (auto simp: bindMO_def)
qed (simp add: bindMO_def)

lemma liftMO_Inr_iff: "liftMO m t = Some (Inr r) \<longleftrightarrow> m t = Inr r"
  by (simp add: liftMO_def)

lemmas smo_iffs = bindMO_Inr_iff liftMO_Inr_iff

text \<open>A relation between values, numbers and tables that every way to number a value keeps.\<close>

lemma number_all_induct [consumes 1, case_names Nil Cons Hit Leaf Fold Other Pure Late Expr Same Phi]:
  assumes run: "number_all nan fi vs t = Some (Inr (ns, t'))"
    and nil: "\<And>t. Q [] t [] t"
    and cons: "\<And>v rest t ns t1 ms t2. Q [v] t ns t1 \<Longrightarrow> Q rest t1 ms t2 \<Longrightarrow> Q (v # rest) t (ns @ ms) t2"
    and hit: "\<And>v t n. value_numbering t v = Some n \<Longrightarrow> Q [v] t [n] t"
    and leaf: "\<And>v t ns t1. value_numbering t v = None \<Longrightarrow> table_instr t v = None \<Longrightarrow> number_leaf v t = Inr (ns, t1) \<Longrightarrow> Q [v] t ns t1"
    and folded: "\<And>i t c t1 ns t2 ms t3. table_instr t (Some i) = Some i \<Longrightarrow> tryFoldConst nan i t = Inr (Some c, t1) \<Longrightarrow>
      Q [Some c] t1 ns t2 \<Longrightarrow> share_number i (hd ns) t2 = Inr (ms, t3) \<Longrightarrow> Q [Some i] t ms t3"
    and other: "\<And>i t t1 ms t2. table_instr t (Some i) = Some i \<Longrightarrow> tryFoldConst nan i t = Inr (None, t1) \<Longrightarrow>
      number_fresh i t1 = Inr (ms, t2) \<Longrightarrow> Q [Some i] t ms t2"
    and pure: "\<And>i t t1 args t2 e ms t3. table_instr t (Some i) = Some i \<Longrightarrow> tryFoldConst nan i t = Inr (None, t1) \<Longrightarrow>
      table_op i t1 = Inr (O_call, t1) \<Longrightarrow> calls_pure fi i t1 = Inr (True, t1) \<Longrightarrow> Q (ops_of (folder t) i) t1 args t2 \<Longrightarrow>
      create_expr i args t2 = Inr (e, t2) \<Longrightarrow> number_expr i e t2 = Inr (ms, t3) \<Longrightarrow> Q [Some i] t ms t3"
    and late: "\<And>i t t1 p args t2 e c t3 ns t4 ms t5. table_instr t (Some i) = Some i \<Longrightarrow> tryFoldConst nan i t = Inr (None, t1) \<Longrightarrow>
      table_op i t1 = Inr (p, t1) \<Longrightarrow> is_structural p \<Longrightarrow> Q (ops_of (folder t) i) t1 args t2 \<Longrightarrow>
      create_expr i args t2 = Inr (e, t2) \<Longrightarrow> tryFoldConst nan i t2 = Inr (Some c, t3) \<Longrightarrow>
      Q [Some c] t3 ns t4 \<Longrightarrow> share_number i (hd ns) t4 = Inr (ms, t5) \<Longrightarrow> Q [Some i] t ms t5"
    and expr: "\<And>i t t1 p args t2 e t3 ms t4. table_instr t (Some i) = Some i \<Longrightarrow> tryFoldConst nan i t = Inr (None, t1) \<Longrightarrow>
      table_op i t1 = Inr (p, t1) \<Longrightarrow> is_structural p \<Longrightarrow> Q (ops_of (folder t) i) t1 args t2 \<Longrightarrow>
      create_expr i args t2 = Inr (e, t2) \<Longrightarrow> tryFoldConst nan i t2 = Inr (None, t3) \<Longrightarrow>
      number_expr i e t3 = Inr (ms, t4) \<Longrightarrow> Q [Some i] t ms t4"
    and same: "\<And>i t t1 self t2 incoming t3 ms t4. table_instr t (Some i) = Some i \<Longrightarrow> tryFoldConst nan i t = Inr (None, t1) \<Longrightarrow>
      table_op i t1 = Inr (O_phi, t1) \<Longrightarrow> enter_phi i t1 = Inr (self, t2) \<Longrightarrow> Q (evens (ops_of (folder t) i)) t2 incoming t3 \<Longrightarrow>
      snd (scan_incoming incoming) \<Longrightarrow> ops_of (folder t) i \<noteq> [] \<Longrightarrow>
      settle_phi i self (fst (scan_incoming incoming)) t3 = Inr (ms, t4) \<Longrightarrow> Q [Some i] t ms t4"
    and phi: "\<And>i t t1 self t2 incoming t3 args t4 e ms t5. table_instr t (Some i) = Some i \<Longrightarrow> tryFoldConst nan i t = Inr (None, t1) \<Longrightarrow>
      table_op i t1 = Inr (O_phi, t1) \<Longrightarrow> enter_phi i t1 = Inr (self, t2) \<Longrightarrow> Q (evens (ops_of (folder t) i)) t2 incoming t3 \<Longrightarrow>
      Q (ops_of (folder t) i) t3 args t4 \<Longrightarrow> create_phi_expr i args t4 = Inr (e, t4) \<Longrightarrow>
      register_phi i self e t4 = Inr (ms, t5) \<Longrightarrow> Q [Some i] t ms t5"
  shows "Q vs t ns t'"
proof -
  have table_op_state: "t1 = t" if "table_op i t = Inr (p, t1)" for i and t t1 :: "'a value_table" and p
    using that by (auto simp: table_op_def readM_def)
  have calls_state: "t1 = t" if "calls_pure fi i t = Inr (p, t1)" for i and t t1 :: "'a value_table" and p
    using that by (auto simp: calls_pure_def readM_def)
  have expr_state: "t1 = t" if "create_expr i args t = Inr (e, t1)" for i args and t t1 :: "'a value_table" and e
    using that by (auto simp: create_expr_def bindM_Inr_iff readM_def liftR_def table_op_def)
  have phi_state: "t1 = t" if "create_phi_expr i args t = Inr (e, t1)" for i args and t t1 :: "'a value_table" and e
    using that by (auto simp: create_phi_expr_def bindM_Inr_iff readM_def thenM_def guardM_def returnM_def failM_def split: if_splits)
  have "n = nan \<and> f = fi \<longrightarrow> (\<forall>ns t'. r = Inr (ns, t') \<longrightarrow> Q vs t ns t')" if "number_all n f vs t = Some r" for n f r
    using that
  proof (induction rule: number_all.raw_induct [rotated, consumes 1])
    case (1 loop n f vs t r)
    show ?case
    proof (intro impI allI)
      fix ns t' assume nf: "n = nan \<and> f = fi" and r: "r = Inr (ns, t')"
      have IH: "Q vs t ns t'" if "loop nan fi vs t = Some (Inr (ns, t'))" for vs t ns t'
        using "1"(1) [OF that] by simp
      note body = "1"(2) [unfolded r nf [THEN conjunct1] nf [THEN conjunct2]]
      show "Q vs t ns t'"
      proof (cases vs)
        case Nil
        then show ?thesis using body nil by simp
      next
        case vs: (Cons v rest)
        show ?thesis
        proof (cases "rest = []")
          case False
          then obtain ns1 t1 ms t2 where "loop nan fi [v] t = Some (Inr (ns1, t1))" "loop nan fi rest t1 = Some (Inr (ms, t2))"
            "ns = ns1 @ ms" "t' = t2"
            using body vs by (auto simp: smo_iffs returnM_def)
          then show ?thesis using cons IH vs by blast
        next
          case rest: True
          show ?thesis
          proof (cases "value_numbering t v")
            case (Some m)
            then show ?thesis using body vs rest hit [OF Some] by auto
          next
            case new: None
            show ?thesis
            proof (cases "table_instr t v")
              case None
              then have "number_leaf v t = Inr (ns, t')" using body vs rest new by (simp add: liftMO_Inr_iff)
              then show ?thesis using leaf [OF new None] vs rest by simp
            next
              case (Some i)
              then have v: "v = Some i" by (auto simp: table_instr_def split: option.splits vkind.splits)
              note i = Some [unfolded v]
              note b = new [unfolded v] Some [unfolded v] smo_iffs and body = body [unfolded vs v rest]
              obtain folded t1 where f: "tryFoldConst nan i t = Inr (folded, t1)" using body by (auto simp: b)
              show ?thesis
              proof (cases folded)
                case (Some c)
                then obtain ns1 t2 where "loop nan fi [Some c] t1 = Some (Inr (ns1, t2))" "share_number i (hd ns1) t2 = Inr (ns, t')"
                  using body f by (auto simp: b)
                then show ?thesis using folded [OF i f [unfolded Some]] IH vs v rest by blast
              next
                case None
                note f = f [unfolded None]
                obtain p where op: "table_op i t1 = Inr (p, t1)" using body f table_op_state by (auto simp: b)
                note other = other [OF i f] and pure = pure [OF i f] and late = late [OF i f op] and expr = expr [OF i f op]
                  and same = same [OF i f] and phi = phi [OF i f]
                consider "p = O_call" | "is_structural p" "p \<noteq> O_call" | "p = O_phi"
                  | "p \<noteq> O_call" "\<not> is_structural p" "p \<noteq> O_phi" by blast
                then show ?thesis
                proof cases
                  case 1
                  then obtain q where q: "calls_pure fi i t1 = Inr (q, t1)"
                    using body f op calls_state by (auto simp: b)
                  show ?thesis
                  proof (cases q)
                    case True
                    then obtain args t2 e t3 where l: "loop nan fi (ops_of (folder t) i) t1 = Some (Inr (args, t2))"
                      "create_expr i args t2 = Inr (e, t3)" "number_expr i e t3 = Inr (ns, t')"
                      using body f op q 1 by (auto simp: b)
                    show ?thesis using l(1,2) l(3) [unfolded expr_state [OF l(2)]] l(2) [unfolded expr_state [OF l(2)]] pure [OF op [unfolded 1] q [simplified True]] IH vs v rest by blast
                  next
                    case False
                    then have "number_fresh i t1 = Inr (ns, t')" using body f op q 1 by (auto simp: b)
                    then show ?thesis using other vs v rest by blast
                  qed
                next
                  case 2
                  then obtain args t2 e u where l': "loop nan fi (ops_of (folder t) i) t1 = Some (Inr (args, t2))"
                    "create_expr i args t2 = Inr (e, u)" "\<exists>y. tryFoldConst nan i u = Inr y"
                    using body f op by (auto simp: b)
                  obtain late_folded t3 where l: "loop nan fi (ops_of (folder t) i) t1 = Some (Inr (args, t2))"
                    "create_expr i args t2 = Inr (e, t2)" "tryFoldConst nan i t2 = Inr (late_folded, t3)"
                    using l' expr_state [OF l'(2)] by fastforce
                  show ?thesis
                  proof (cases late_folded)
                    case None
                    then have "number_expr i e t3 = Inr (ns, t')" using body f op 2 l by (auto simp: b)
                    then show ?thesis using expr [OF 2(1) IH [OF l(1)] l(2) l(3) [unfolded None]] vs v rest by blast
                  next
                    case (Some c)
                    then obtain ns1 t4 where "loop nan fi [Some c] t3 = Some (Inr (ns1, t4))" "share_number i (hd ns1) t4 = Inr (ns, t')"
                      using body f op 2 l by (auto simp: b)
                    then show ?thesis using late [OF 2(1) IH [OF l(1)] l(2) l(3) [unfolded Some]] IH vs v rest by blast
                  qed
                next
                  case 3
                  then obtain self t2 incoming t3 where l: "enter_phi i t1 = Inr (self, t2)"
                    "loop nan fi (evens (ops_of (folder t) i)) t2 = Some (Inr (incoming, t3))"
                    using body f op by (auto simp: b is_structural_def)
                  show ?thesis
                  proof (cases "snd (scan_incoming incoming) \<and> ops_of (folder t) i \<noteq> []")
                    case True
                    then have "settle_phi i self (fst (scan_incoming incoming)) t3 = Inr (ns, t')"
                      using body f op 3 l by (auto simp: b is_structural_def)
                    then show ?thesis using same [OF op [unfolded 3] l(1) IH [OF l(2)]] True vs v rest by blast
                  next
                    case False
                    then obtain args t4 e t5 where l2: "loop nan fi (ops_of (folder t) i) t3 = Some (Inr (args, t4))"
                      "create_phi_expr i args t4 = Inr (e, t5)" "register_phi i self e t5 = Inr (ns, t')"
                      using body f op 3 l by (auto simp: b is_structural_def)
                    show ?thesis using l2(1) l2(2,3) [unfolded phi_state [OF l2(2)]] phi [OF op [unfolded 3] l(1) IH [OF l(2)]] IH vs v rest by blast
                  qed
                next
                  case 4
                  then have "number_fresh i t1 = Inr (ns, t')" using body f op by (auto simp: b)
                  then show ?thesis using other vs v rest by blast
                qed
              qed
            qed
          qed
        qed
      qed
    qed
  qed
  then show ?thesis using run by blast
qed

section \<open>The operations on the table\<close>

text \<open>The counter is written last.\<close>

lemma counter_last:
  "t\<lparr>next_value_number := n, value_numbering := f\<rparr> = t\<lparr>value_numbering := f, next_value_number := n\<rparr>"
  "t\<lparr>next_value_number := n, expression_numbering := g\<rparr> = t\<lparr>expression_numbering := g, next_value_number := n\<rparr>"
  "t\<lparr>next_value_number := n, numbering_phi := h\<rparr> = t\<lparr>numbering_phi := h, next_value_number := n\<rparr>"
  "t\<lparr>next_value_number := n, const_numbering := c\<rparr> = t\<lparr>const_numbering := c, next_value_number := n\<rparr>"
  by (rule value_table.equality; simp)+

definition numbers_ok :: "'a execution \<Rightarrow> (nat \<Rightarrow> 'a mval option) \<Rightarrow> 'z value_table \<Rightarrow> nat list \<Rightarrow> vid option list \<Rightarrow> bool" where
  "numbers_ok X \<rho> t ns vs \<longleftrightarrow> list_all2 (\<lambda>n v. 0 < n \<and> n < next_value_number t \<and> \<rho> n = value_in (folder t) X v) ns vs"

definition leads :: "(f32 \<Rightarrow> f32 \<Rightarrow> f32) \<Rightarrow> 'z ir_scheme \<Rightarrow> 'a execution \<Rightarrow> (nat \<Rightarrow> 'a mval option) \<Rightarrow> 'z value_table \<Rightarrow>
    (nat \<Rightarrow> 'a mval option) \<Rightarrow> 'z value_table \<Rightarrow> bool" where
  "leads nan s X \<rho> t \<rho>' t' \<longleftrightarrow> table_ok nan s X \<rho>' t' \<and> agree t \<rho> \<rho>' \<and> next_value_number t \<le> next_value_number t'"

lemma leads_refl: "table_ok nan s X \<rho> t \<Longrightarrow> leads nan s X \<rho> t \<rho> t"
  by (simp add: leads_def)

lemma leads_trans: "leads nan s X \<rho> t \<rho>' t' \<Longrightarrow> leads nan s X \<rho>' t' \<rho>'' t'' \<Longrightarrow> leads nan s X \<rho> t \<rho>'' t''"
  using agree_trans unfolding leads_def by (metis le_trans)

lemma leads_table: "leads nan s X \<rho> t \<rho>' t' \<Longrightarrow> table_ok nan s X \<rho>' t'"
  by (simp add: leads_def)

lemma numbers_ok_simps [simp]:
  "numbers_ok X \<rho> t [] []"
  "numbers_ok X \<rho> t [n] [v] \<longleftrightarrow> 0 < n \<and> n < next_value_number t \<and> \<rho> n = value_in (folder t) X v"
  by (simp_all add: numbers_ok_def)

lemma numbers_ok_append: "numbers_ok X \<rho> t ns vs \<Longrightarrow> numbers_ok X \<rho> t ms ws \<Longrightarrow> numbers_ok X \<rho> t (ns @ ms) (vs @ ws)"
  by (simp add: numbers_ok_def list_all2_appendI)

lemma numbers_ok_leads:
  assumes "numbers_ok X \<rho> t ns vs" "leads nan s X \<rho> t \<rho>' t'" "const_ext (folder t) (folder t')" "\<forall>v\<in>set vs. known (folder t) v"
  shows "numbers_ok X \<rho>' t' ns vs"
  unfolding numbers_ok_def
proof (rule list_all2_all_nthI)
  show len: "length ns = length vs" using assms(1) by (simp add: numbers_ok_def list_all2_lengthD)
  fix j assume "j < length ns"
  then have "0 < ns ! j \<and> ns ! j < next_value_number t \<and> \<rho> (ns ! j) = value_in (folder t) X (vs ! j)" "vs ! j \<in> set vs"
    using assms(1) len by (auto simp: numbers_ok_def list_all2_conv_all_nth)
  then show "0 < ns ! j \<and> ns ! j < next_value_number t' \<and> \<rho>' (ns ! j) = value_in (folder t') X (vs ! j)"
    using assms(2,4) const_ext_value [OF assms(3), of "vs ! j" X] by (auto simp: leads_def agree_def)
qed

lemma numbers_ok_map: "numbers_ok X \<rho> t ns vs \<Longrightarrow> map \<rho> ns = map (value_in (folder t) X) vs"
  unfolding numbers_ok_def by (induction rule: list_all2_induct) auto

lemma numbers_ok_less: "numbers_ok X \<rho> t ns vs \<Longrightarrow> n \<in> set ns \<Longrightarrow> 0 < n \<and> n < next_value_number t"
  by (auto simp: numbers_ok_def list_all2_conv_all_nth in_set_conv_nth)

lemma number_leaf_ok:
  assumes ok: "table_ok nan s X \<rho> t" and v: "known (folder t) v" and run: "number_leaf v t = Inr (ns, t')"
  shows "folder t' = folder t \<and> (\<exists>\<rho>'. leads nan s X \<rho> t \<rho>' t' \<and> numbers_ok X \<rho>' t' ns [v])"
proof -
  let ?n = "next_value_number t" and ?r = "\<rho>(next_value_number t := value_in (folder t) X v)"
  note b = table_bump [OF ok refl, of "value_in (folder t) X v"]
  note w = table_value [OF b(1), of ?n v]
  have pos: "0 < ?n" by (rule table_okD(2) [OF ok])
  have ns: "ns = [?n]" using run by (simp add: number_leaf_def Let_def)
  have f: "folder t' = folder t" "next_value_number t' = ?n + 1" using run by (auto simp: number_leaf_def Let_def)
  have "table_ok nan s X ?r t'"
  proof (cases "\<exists>c. v = Some c \<and> is_constant (folder t) c")
    case True
    then obtain c where c: "v = Some c" "is_constant (folder t) c" by blast
    then show ?thesis using table_const [OF w, of ?n c] pos v run by (auto simp: number_leaf_def Let_def counter_last)
  next
    case False
    then show ?thesis using w pos v run by (auto simp: number_leaf_def Let_def counter_last split: option.splits)
  qed
  then have "leads nan s X \<rho> t ?r t'" using b(2) f by (simp add: leads_def)
  then show ?thesis using ns f pos by auto
qed

lemma number_fresh_ok:
  assumes ok: "table_ok nan s X \<rho> t" and i: "i \<in> dom (vals (folder t))" and run: "number_fresh i t = Inr (ns, t')"
  shows "folder t' = folder t \<and> (\<exists>\<rho>'. leads nan s X \<rho> t \<rho>' t' \<and> numbers_ok X \<rho>' t' ns [Some i])"
proof -
  let ?n = "next_value_number t" and ?r = "\<rho>(next_value_number t := value_in (folder t) X (Some i))"
  note b = table_bump [OF ok refl, of "value_in (folder t) X (Some i)"]
  have pos: "0 < ?n" by (rule table_okD(2) [OF ok])
  have t: "ns = [?n]" "t' = t\<lparr>next_value_number := ?n + 1, value_numbering := (value_numbering t)(Some i \<mapsto> ?n)\<rparr>"
    using run by (auto simp: number_fresh_def Let_def counter_last)
  have "table_ok nan s X ?r t'" using table_value [OF b(1), of ?n "Some i"] pos i by (simp add: t)
  then have "leads nan s X \<rho> t ?r t'" using b(2) by (simp add: leads_def t)
  then show ?thesis using t pos by (auto intro!: exI [of _ ?r])
qed

lemma share_number_ok:
  assumes ok: "table_ok nan s X \<rho> t" and i: "i \<in> dom (vals (folder t))" and run: "share_number i n t = Inr (ns, t')"
    and n: "0 < n" "n < next_value_number t" "\<rho> n = value_in (folder t) X (Some i)"
  shows "folder t' = folder t \<and> leads nan s X \<rho> t \<rho> t' \<and> numbers_ok X \<rho> t' ns [Some i]"
  using table_value [OF ok n(1,2), of "Some i"] n i run by (auto simp: share_number_def leads_def)

lemma assign_ok:
  assumes ok: "table_ok nan s X \<rho> t" and args: "\<forall>m\<in>set (var_args e). m < next_value_number t"
    and run: "assignExpNewValueNum e t = Inr (ret, t')"
  shows "folder t' = folder t \<and> (\<exists>\<rho>'. leads nan s X \<rho> t \<rho>' t' \<and> 0 < fst ret \<and> fst ret < next_value_number t' \<and>
    \<rho>' (fst ret) = key_value nan X \<rho> (expr_key e))"
proof (cases "expression_numbering t (expr_key e)")
  case (Some n)
  then have "0 < n \<and> n < next_value_number t \<and> \<rho> n = key_value nan X \<rho> (expr_key e)"
    using table_okD(4) [OF ok] unfolding exprs_ok_def by blast
  then show ?thesis using Some run leads_refl [OF ok] by (auto simp: assignExpNewValueNum_def intro!: exI [of _ \<rho>])
next
  case None
  let ?n = "next_value_number t" and ?x = "key_value nan X \<rho> (expr_key e)"
  let ?r = "\<rho>(?n := ?x)"
  note b = table_bump [OF ok refl, of ?x]
  have pos: "0 < ?n" by (rule table_okD(2) [OF ok])
  have k: "key_value nan X ?r (expr_key e) = ?x" by (rule key_value_agree) (use args in \<open>auto simp: expr_key_def\<close>)
  have a: "\<forall>m\<in>set (fst (snd (expr_key e))). m < ?n + 1" using args by (auto simp: expr_key_def)
  have "table_ok nan s X ?r (t\<lparr>next_value_number := ?n + 1, expression_numbering := (expression_numbering t)(expr_key e \<mapsto> ?n)\<rparr>)"
    using table_expr [OF b(1), of ?n "expr_key e"] pos a k by simp
  then have "table_ok nan s X ?r (t\<lparr>next_value_number := ?n + 1, expression_numbering := (expression_numbering t)(expr_key e \<mapsto> ?n),
      expressions := es, expr_idx := ix, next_expr_number := k\<rparr>)" for es ix k
    unfolding table_lists .
  moreover have "t' = t\<lparr>next_value_number := ?n + 1, expression_numbering := (expression_numbering t)(expr_key e \<mapsto> ?n),
      expressions := expressions t', expr_idx := expr_idx t', next_expr_number := next_expr_number t'\<rparr>"
    using None run by (intro value_table.equality) (auto simp: assignExpNewValueNum_def Let_def)
  ultimately have "table_ok nan s X ?r t'" by metis
  moreover have "fst ret = ?n" "folder t' = folder t" "next_value_number t' = ?n + 1"
    using None run by (auto simp: assignExpNewValueNum_def Let_def)
  ultimately show ?thesis using b(2) pos by (auto simp: leads_def intro!: exI [of _ ?r])
qed

lemma number_expr_ok:
  assumes ok: "table_ok nan s X \<rho> t" and args: "\<forall>m\<in>set (var_args e). m < next_value_number t"
    and i: "i \<in> dom (vals (folder t))" "key_value nan X \<rho> (expr_key e) = value_in (folder t) X (Some i)"
    and run: "number_expr i e t = Inr (ns, t')"
  shows "folder t' = folder t \<and> (\<exists>\<rho>'. leads nan s X \<rho> t \<rho>' t' \<and> numbers_ok X \<rho>' t' ns [Some i])"
proof -
  obtain ret t1 where r: "assignExpNewValueNum e t = Inr (ret, t1)" "share_number i (fst ret) t1 = Inr (ns, t')"
    using run by (auto simp: number_expr_def bindM_Inr_iff)
  obtain \<rho>' where a: "folder t1 = folder t" "leads nan s X \<rho> t \<rho>' t1" "0 < fst ret" "fst ret < next_value_number t1"
    "\<rho>' (fst ret) = key_value nan X \<rho> (expr_key e)"
    using assign_ok [OF ok args r(1)] by blast
  have "folder t' = folder t1 \<and> leads nan s X \<rho>' t1 \<rho>' t' \<and> numbers_ok X \<rho>' t' ns [Some i]"
    using share_number_ok [OF leads_table [OF a(2)] _ r(2) a(3,4)] a(1,5) i by simp
  then show ?thesis using a(1) leads_trans [OF a(2)] by metis
qed

lemma enter_phi_ok:
  assumes ok: "table_ok nan s X \<rho> t" and i: "kind_of (folder t) i = Some (K_instr O_phi b)"
    and run: "enter_phi i t = Inr (self, t')"
  shows "folder t' = folder t \<and> (\<exists>\<rho>'. leads nan s X \<rho> t \<rho>' t' \<and> numbers_ok X \<rho>' t' [self] [Some i])"
proof -
  let ?n = "next_value_number t" and ?r = "\<rho>(next_value_number t := value_in (folder t) X (Some i))"
  note c = table_bump [OF ok refl, of "value_in (folder t) X (Some i)"]
  have pos: "0 < ?n" by (rule table_okD(2) [OF ok])
  have t: "self = ?n" "t' = t\<lparr>next_value_number := ?n + 1, value_numbering := (value_numbering t)(Some i \<mapsto> ?n),
      numbering_phi := (numbering_phi t)(?n \<mapsto> i)\<rparr>"
    using run by (auto simp: enter_phi_def Let_def counter_last)
  have v: "table_ok nan s X ?r (t\<lparr>next_value_number := ?n + 1, value_numbering := (value_numbering t)(Some i \<mapsto> ?n)\<rparr>)"
    using table_value [OF c(1), of ?n "Some i"] pos kind_of_dom [OF i] by simp
  have "table_ok nan s X ?r t'" using table_phi [OF v, of ?n i b] i by (simp add: t)
  then have "leads nan s X \<rho> t ?r t'" using c(2) by (simp add: leads_def t)
  then show ?thesis using t pos by (auto intro!: exI [of _ ?r])
qed

lemma settle_phi_ok:
  assumes ok: "table_ok nan s X \<rho> t" and i: "i \<in> dom (vals (folder t))" and run: "settle_phi i self n t = Inr (ns, t')"
    and n: "0 < n" "n < next_value_number t" "\<rho> n = value_in (folder t) X (Some i)"
  shows "folder t' = folder t \<and> leads nan s X \<rho> t \<rho> t' \<and> numbers_ok X \<rho> t' ns [Some i]"
  using table_drop_phi [OF table_value [OF ok n(1,2), of "Some i"]] n i run by (auto simp: settle_phi_def leads_def)

lemma register_phi_ok:
  assumes ok: "table_ok nan s X \<rho> t" and args: "\<forall>m\<in>set (var_args e). m < next_value_number t"
    and i: "i \<in> dom (vals (folder t))" "key_value nan X \<rho> (expr_key e) = value_in (folder t) X (Some i)"
    and self: "0 < self" "self < next_value_number t" "\<rho> self = value_in (folder t) X (Some i)"
    and run: "register_phi i self e t = Inr (ns, t')"
  shows "folder t' = folder t \<and> leads nan s X \<rho> t \<rho> t' \<and> numbers_ok X \<rho> t' ns [Some i]"
proof (cases "expression_numbering t (expr_key e)")
  case None
  have "\<forall>m\<in>set (fst (snd (expr_key e))). m < next_value_number t" using args by (simp add: expr_key_def)
  then show ?thesis using table_expr [OF ok self(1,2), of "expr_key e"] None run self i(2)
    by (auto simp: register_phi_def leads_def)
next
  case (Some n)
  then have n: "0 < n \<and> n < next_value_number t \<and> \<rho> n = key_value nan X \<rho> (expr_key e)"
    using table_okD(4) [OF ok] unfolding exprs_ok_def by blast
  then show ?thesis using settle_phi_ok [OF ok i(1), of self n ns t'] Some run i(2) by (simp add: register_phi_def)
qed

section \<open>Folding\<close>

lemma table_instr_iff: "table_instr t v = Some i \<longleftrightarrow> v = Some i \<and> (\<exists>p b. kind_of (folder t) i = Some (K_instr p b))"
  by (cases v) (auto simp: table_instr_def split: option.splits vkind.splits)

lemma on_module_Inr: "on_module m t = Inr (x, t') \<longleftrightarrow> (\<exists>u. m (folder t) = Inr (x, u) \<and> t' = t\<lparr>folder := u\<rparr>)"
  by (auto simp: on_module_def)

text \<open>A fold of the constants of one or two operands, or nothing.\<close>

lemma tryFoldConst_cases:
  assumes run: "tryFoldConst nan i t = Inr (c, t')" and k: "kind_of (folder t) i = Some (K_instr p b)"
  obtains "c = None" "t' = t"
  | v0 v1 a0 a1 u where "ops_of (folder t) i = [v0, v1]" "getConstant t v0 = Some a0" "getConstant t v1 = Some a1"
      "compute2 nan p a0 a1 (folder t) = Inr (c, u)" "t' = t\<lparr>folder := u\<rparr>"
  | v0 a0 u where "ops_of (folder t) i = [v0]" "getConstant t v0 = Some a0"
      "compute1 p a0 (folder t) = Inr (c, u)" "t' = t\<lparr>folder := u\<rparr>"
proof -
  obtain r where r: "vals (folder t) i = Some r" "instr_op (folder t) i = Inr p" "vops r = ops_of (folder t) i"
    using instr_record [OF k] .
  note d = tryFoldConst_def get_num_operand_def table_op_def table_operand_def bindM_def readM_def getM_def returnM_def get_operand_def
  consider v0 v1 where "ops_of (folder t) i = [v0, v1]" | v0 where "ops_of (folder t) i = [v0]"
    | "length (ops_of (folder t) i) \<noteq> 2" "length (ops_of (folder t) i) \<noteq> 1"
    by (cases "ops_of (folder t) i" rule: remdups_adj.cases) auto
  then show thesis
  proof cases
    case (1 v0 v1)
    then have e: "tryFoldConst nan i t = (case (getConstant t v0, getConstant t v1) of
        (Some a, Some b) \<Rightarrow> on_module (compute2 nan p a b) | _ \<Rightarrow> returnM None) t"
      using r by (simp add: d del: instr_op_Inr)
    show thesis using run [unfolded e] that(1) that(2) [OF 1] by (auto simp: on_module_Inr returnM_def split: option.splits)
  next
    case (2 v0)
    then have e: "tryFoldConst nan i t = (case getConstant t v0 of Some a \<Rightarrow> on_module (compute1 p a) | None \<Rightarrow> returnM None) t"
      using r by (simp add: d del: instr_op_Inr split: option.split)
    show thesis using run [unfolded e] that(1) that(3) [OF 2] by (auto simp: on_module_Inr returnM_def split: option.splits)
  next
    case 3
    then have "tryFoldConst nan i t = Inr (None, t)" using r by (simp add: d del: instr_op_Inr)
    then show thesis using run that(1) by simp
  qed
qed

lemma tryFoldConst_ext:
  assumes "tryFoldConst nan i t = Inr (c, t')" "kind_of (folder t) i = Some (K_instr p b)" "ir_ok (folder t)" "consts_ok (folder t)"
  shows "const_ext (folder t) (folder t')"
  using assms(1,2)
proof (cases rule: tryFoldConst_cases)
  case 1
  then show ?thesis using const_ext_refl [OF assms(3,4)] by simp
next
  case (2 v0 v1 a0 a1 u)
  then show ?thesis using fold_outcome_ext [OF compute2_outcome [OF assms(3,4)] 2(4) assms(3,4)] by simp
next
  case (3 v0 a0 u)
  then show ?thesis using fold_outcome_ext [OF compute1_outcome [OF assms(3,4)] 3(3) assms(3,4)] by simp
qed

lemma getConstant_value:
  assumes ok: "table_ok nan s X \<rho> t" and c: "getConstant t v = Some c"
  shows "value_in (folder t) X v = value_in (folder t) X (Some c)"
proof (cases "\<exists>x. v = Some x \<and> is_constant (folder t) x")
  case True
  then show ?thesis using c by (auto simp: getConstant_def)
next
  case False
  then obtain n where n: "value_numbering t v = Some n" "const_numbering t n = Some c"
    using c by (auto simp: getConstant_def bind_eq_Some_conv split: option.splits if_splits)
  then have "\<rho> n = value_in (folder t) X v" "\<rho> n = value_in (folder t) X (Some c)"
    using table_okD(3,5) [OF ok] unfolding values_ok_def consts_num_def by blast+
  then show ?thesis by simp
qed

lemma alu_structural: "alu nan p xs = Some x \<Longrightarrow> is_structural p"
  by (cases p) (auto simp: alu_def alu_int_def alu_fp_def is_structural_def split: list.splits option.splits mval.splits if_splits)

lemma solves_alu:
  assumes "solves nan fi s X" "kind_of s i = Some (K_instr p b)" "alu nan p (slot_values s (env X) i) = Some x"
  shows "env X i = x" "x \<noteq> VF neg_zero"
proof -
  obtain r where "vals s i = Some r" using instr_record [OF assms(2)] .
  then have ty: "type_of s i = Inr (vty r)" by (simp add: type_of_def)
  have st: "is_structural p" using alu_structural [OF assms(3)] .
  then have "env X i \<noteq> VF neg_zero \<and> Some (env X i) = denote nan X p (vty r) (slot_values s (env X) i)"
    using assms(1,2) ty unfolding solves_def from_operands_def by blast
  moreover have "p \<noteq> O_phi" using st by (auto simp: is_structural_def)
  ultimately show "env X i = x" "x \<noteq> VF neg_zero" using assms(3) by (auto simp: denote_def)
qed

lemma operand_known:
  assumes "ir_ok s" "v \<in> set (ops_of s i)"
  shows "known s v"
  unfolding known_def
proof (intro allI impI)
  fix x assume x: "v = Some x"
  obtain j where "j < length (ops_of s i)" "ops_of s i ! j = v" using assms(2) by (auto simp: in_set_conv_nth)
  then have "operand_at s i j = Some x" using x by (simp add: operand_at_def)
  then show "x \<in> dom (vals s)" by (rule ir_ok_operand_dom [OF assms(1)])
qed

lemma slot_values_ext:
  fixes X :: "'a execution"
  assumes "const_ext s t" "kind_of s i = Some (K_instr p b)" "ir_ok s"
  shows "slot_values t (env X) i = slot_values s (env X) i"
proof -
  have "known s v" if "v \<in> set (ops_of s i)" for v using operand_known [OF assms(3) that] .
  then show ?thesis using const_ext_value [OF assms(1), where X = X] const_ext_ops [OF assms(1)] by (simp add: slot_values_map)
qed

lemma solves_ext: "solves nan fi s X \<Longrightarrow> const_ext s t \<Longrightarrow> ir_ok s \<Longrightarrow> kind_of t i = Some (K_instr p b) \<Longrightarrow>
    alu nan p (slot_values t (env X) i) = Some x \<Longrightarrow> env X i = x \<and> x \<noteq> VF neg_zero"
  using solves_alu [of nan fi s X i p b x] slot_values_ext [of s t i p b X] const_ext_instr [of s t i p b] by simp

text \<open>The constant a fold yields has the value of the instruction.\<close>

lemma tryFoldConst_ok:
  assumes ok: "table_ok nan s X \<rho> t" and sol: "solves nan fi s X" and irs: "ir_ok s"
    and k: "kind_of (folder t) i = Some (K_instr p b)" and run: "tryFoldConst nan i t = Inr (c, t')"
    and nn: "no_neg_const (folder t')"
  shows "table_ok nan s X \<rho> t' \<and> next_value_number t' = next_value_number t \<and>
    (\<forall>x. c = Some x \<longrightarrow> x \<in> dom (vals (folder t')) \<and> value_in (folder t') X (Some x) = value_in (folder t) X (Some i))"
proof -
  note e = table_okD(1) [OF ok]
  note io = const_ext_obs(1,2) [OF e]
  have ext: "const_ext (folder t) (folder t')" using tryFoldConst_ext [OF run k io] .
  have sl: "slot_values (folder t) (env X) i = map (value_in (folder t) X) (ops_of (folder t) i)" by (rule slot_values_map)
  have fin: "table_ok nan s X \<rho> (t\<lparr>folder := u\<rparr>) \<and> next_value_number (t\<lparr>folder := u\<rparr>) = next_value_number t \<and>
      (\<forall>x. c = Some x \<longrightarrow> x \<in> dom (vals u) \<and> value_in u X (Some x) = value_in (folder t) X (Some i))"
    if out: "fold_outcome m (folder t) (alu nan p (slot_values (folder t) (env X) i))" "m (folder t) = Inr (c, u)"
      and t': "t' = t\<lparr>folder := u\<rparr>" for m u
  proof (intro conjI allI impI)
    show "table_ok nan s X \<rho> (t\<lparr>folder := u\<rparr>)" using table_folder [OF ok] ext t' by simp
    show "next_value_number (t\<lparr>folder := u\<rparr>) = next_value_number t" by simp
    fix x assume c: "c = Some x"
    let ?x = "alu nan p (slot_values (folder t) (env X) i)"
    obtain y where y: "?x = Some y" using out c by (auto simp: fold_outcome_def)
    have "env X i = y" "y \<noteq> VF neg_zero" using solves_ext [OF sol e irs k y] by simp_all
    then show "x \<in> dom (vals u)" "value_in u X (Some x) = value_in (folder t) X (Some i)"
      using fold_outcome_value(3) [OF out(1) out(2) [unfolded c]] fold_outcome_value(1) [OF out(1) out(2) [unfolded c], of "env X"] nn t' y value_instr [OF k, of X]
      by (simp_all add: value_in_def)
  qed
  from run k show ?thesis
  proof (cases rule: tryFoldConst_cases)
    case 1
    then show ?thesis using ok by simp
  next
    case (2 v0 v1 a0 a1 u)
    have "slot_values (folder t) (env X) i = [Some (eval (folder t) (env X) a0), Some (eval (folder t) (env X) a1)]"
      using getConstant_value [OF ok 2(2)] getConstant_value [OF ok 2(3)] by (simp add: sl 2(1)) (simp add: value_in_def)
    then show ?thesis using fin [of "compute2 nan p a0 a1", OF _ 2(4,5)] compute2_outcome [OF io, of nan p a0 a1 "env X"] 2(5) by simp
  next
    case (3 v0 a0 u)
    have "slot_values (folder t) (env X) i = [Some (eval (folder t) (env X) a0)]"
      using getConstant_value [OF ok 3(2)] by (simp add: sl 3(1)) (simp add: value_in_def)
    then show ?thesis using fin [of "compute1 p a0", OF _ 3(3,4)] compute1_outcome [OF io, of p a0 nan "env X"] 3(4) by simp
  qed
qed

section \<open>Equal numbers, equal values\<close>

lemma denote_instr:
  fixes X :: "'a execution"
  assumes sol: "solves nan fi s X" and e: "const_ext s t" and irs: "ir_ok s" and k: "kind_of t i = Some (K_instr p b)"
    and f: "from_operands fi s p i" and ty: "type_of t i = Inr ty"
  shows "denote nan X p ty (map (value_in t X) (ops_of t i)) = value_in t X (Some i)"
proof -
  have ks: "kind_of s i = Some (K_instr p b)" using const_ext_instr [OF e] k by simp
  have "type_of s i = Inr ty" using const_ext_obs(7) [OF e kind_of_dom [OF ks]] ty by simp
  then have "Some (env X i) = denote nan X p ty (slot_values s (env X) i)" using sol ks f unfolding solves_def by blast
  then show ?thesis using slot_values_ext [OF e ks irs, of X] value_instr [OF k, of X] by (simp add: slot_values_map)
qed

lemma create_expr_Inr:
  assumes "create_expr i args t = Inr (e, t')" "kind_of (folder t) i = Some (K_instr p b)"
  obtains ty where "type_of (folder t) i = Inr ty"
    "swapped \<lparr>opcode = p, var_args = args, expr_type = ty, commutative = False\<rparr> e"
proof -
  obtain r where r: "vals (folder t) i = Some r" "instr_op (folder t) i = Inr p" using instr_record [OF assms(2)] .
  then have "finalize_expression \<lparr>opcode = p, var_args = args, expr_type = vty r, commutative = False\<rparr> p = Inr e"
    using assms(1) by (auto simp: create_expr_def table_op_def bindM_def readM_def liftR_def type_of_def split: sum.splits)
  then show thesis using that [of "vty r"] finalize_cases [of "\<lparr>opcode = p, var_args = args, expr_type = vty r, commutative = False\<rparr>" e] r(1)
    by (simp add: type_of_def)
qed

lemma create_expr_value:
  fixes X :: "'a execution"
  assumes sym: "symmetric nan X" and sol: "solves nan fi s X" and irs: "ir_ok s" and ok: "table_ok nan s X \<rho> t"
    and k: "kind_of s i = Some (K_instr p b)" and f: "from_operands fi s p i"
    and args: "numbers_ok X \<rho> t args (ops_of s i)" and run: "create_expr i args u = Inr (e, u')" and u: "const_ext s (folder u)"
  shows "key_value nan X \<rho> (expr_key e) = value_in (folder t) X (Some i)" "\<forall>m\<in>set (var_args e). m < next_value_number t"
proof -
  note d = kind_of_dom [OF k] and et = table_okD(1) [OF ok]
  have ku: "kind_of (folder u) i = Some (K_instr p b)" using const_ext_instr [OF u] k by simp
  obtain ty where ty: "type_of (folder u) i = Inr ty"
    "swapped \<lparr>opcode = p, var_args = args, expr_type = ty, commutative = False\<rparr> e" using create_expr_Inr [OF run ku] .
  have ty': "type_of (folder t) i = Inr ty" using ty(1) const_ext_obs(7) [OF u d] const_ext_obs(7) [OF et d] by simp
  have kt: "kind_of (folder t) i = Some (K_instr p b)" using const_ext_instr [OF et] k by simp
  have "key_value nan X \<rho> (expr_key e) = denote nan X p ty (map (value_in (folder t) X) (ops_of (folder t) i))"
    using swapped_value [OF sym ty(2), of \<rho>] numbers_ok_map [OF args] const_ext_ops [OF et] by (simp add: key_value_def expr_key_def)
  then show "key_value nan X \<rho> (expr_key e) = value_in (folder t) X (Some i)"
    using denote_instr [OF sol et irs kt f ty'] by simp
  show "\<forall>m\<in>set (var_args e). m < next_value_number t" using swapped_args [OF ty(2)] numbers_ok_less [OF args] by auto
qed

lemma create_phi_expr_value:
  fixes X :: "'a execution"
  assumes sol: "solves nan fi s X" and irs: "ir_ok s" and ok: "table_ok nan s X \<rho> t"
    and k: "kind_of (folder t) i = Some (K_instr O_phi b)"
    and args: "numbers_ok X \<rho> t args (ops_of (folder t) i)" and run: "create_phi_expr i args t = Inr (e, t')"
  shows "key_value nan X \<rho> (expr_key e) = value_in (folder t) X (Some i)" "\<forall>m\<in>set (var_args e). m < next_value_number t"
proof -
  obtain ty where ty: "type_of (folder t) i = Inr ty" "e = \<lparr>opcode = O_phi, var_args = args, expr_type = ty, commutative = False\<rparr>"
    using run by (auto simp: create_phi_expr_def bindM_Inr_iff thenM_def readM_def guardM_def returnM_def failM_def split: if_splits)
  have "key_value nan X \<rho> (expr_key e) = denote nan X O_phi ty (map (value_in (folder t) X) (ops_of (folder t) i))"
    using numbers_ok_map [OF args] by (simp add: key_value_def expr_key_def ty(2))
  then show "key_value nan X \<rho> (expr_key e) = value_in (folder t) X (Some i)"
    using denote_instr [OF sol table_okD(1) [OF ok] irs k _ ty(1)] by (simp add: from_operands_def)
  show "\<forall>m\<in>set (var_args e). m < next_value_number t" using numbers_ok_less [OF args] by (simp add: ty(2))
qed

lemma calls_pure_operands:
  assumes "calls_pure fi i t = Inr (True, t')" "const_ext s (folder t)" "ir_ok s"
  shows "from_operands fi s O_call i"
proof -
  obtain v where v: "get_operand (folder t) i 0 = Inr v"
    using assms(1) by (cases "get_operand (folder t) i 0") (simp_all add: calls_pure_def readM_def)
  obtain f where vf: "v = Some f" using assms(1) v by (cases v) (simp_all add: calls_pure_def readM_def)
  have f: "kind_of (folder t) f = Some K_func \<and> is_pure fi f = Some True"
    using assms(1) v vf by (auto simp: calls_pure_def readM_def is_pure_function_def split: option.splits vkind.splits)
  obtain r where r: "vals (folder t) i = Some r" "vops r \<noteq> []" "vops r ! 0 = Some f"
    using v vf by (auto simp: get_operand_def split: if_splits)
  have op: "operand_at s i 0 = Some f" using r const_ext_ops [OF assms(2), of i] by (simp add: operand_at_def ops_of_def split: option.splits)
  then have "f \<in> dom (vals s)" by (rule ir_ok_operand_dom [OF assms(3)])
  then have "kind_of s f = Some K_func" using const_ext_obs(5) [OF assms(2)] f by simp
  then show ?thesis using op f by (simp add: from_operands_def pure_call_def)
qed

lemma evens_of_map: "evens (map f xs) = map f (evens xs)"
  by (induction xs rule: evens.induct) auto

lemma set_evens: "set (evens xs) \<subseteq> set xs"
  by (induction xs rule: evens.induct) auto

lemma incoming_value_even: "incoming_value b xs = Some y \<Longrightarrow> Some y \<in> set (evens xs)"
  by (induction b xs rule: incoming_value.induct) (auto split: if_splits)

lemma scan_from: "0 < f \<Longrightarrow> foldl (\<lambda>(first, same) n. if first = 0 then (n, same) else (first, same \<and> n = first)) (f, b) ns =
    (f, b \<and> (\<forall>n\<in>set ns. n = f))" for f :: nat
  by (induction ns arbitrary: b) auto

lemma scan_incoming_all: "\<forall>n\<in>set ns. 0 < n \<Longrightarrow> ns \<noteq> [] \<Longrightarrow>
    fst (scan_incoming ns) = hd ns \<and> (snd (scan_incoming ns) \<longleftrightarrow> (\<forall>n\<in>set ns. n = hd ns))"
  using scan_from by (cases ns) (auto simp: scan_incoming_def)

text \<open>A phi with one incoming value has this value.\<close>

lemma same_incoming_value:
  fixes X :: "'a execution"
  assumes sol: "solves nan fi s X" and irs: "ir_ok s" and ok: "table_ok nan s X \<rho> t"
    and k: "kind_of (folder t) i = Some (K_instr O_phi b)"
    and args: "numbers_ok X \<rho> t ns (evens (ops_of (folder t) i))" and same: "snd (scan_incoming ns)"
    and ne: "ops_of (folder t) i \<noteq> []"
  shows "\<rho> (fst (scan_incoming ns)) = value_in (folder t) X (Some i)" "0 < fst (scan_incoming ns)"
    "fst (scan_incoming ns) < next_value_number t"
proof -
  let ?vs = "map (value_in (folder t) X) (evens (ops_of (folder t) i))"
  have "evens (ops_of (folder t) i) \<noteq> []" using ne by (cases "ops_of (folder t) i" rule: evens.cases) auto
  then have nn: "ns \<noteq> []" using args by (auto simp: numbers_ok_def)
  note sc = scan_incoming_all [OF _ nn]
  have pos: "\<forall>n\<in>set ns. 0 < n" using numbers_ok_less [OF args] by blast
  have hd: "fst (scan_incoming ns) = hd ns" "\<forall>n\<in>set ns. n = hd ns" using sc [OF pos] same by simp_all
  show "0 < fst (scan_incoming ns)" "fst (scan_incoming ns) < next_value_number t"
    using numbers_ok_less [OF args, of "hd ns"] nn hd by auto
  obtain r where "vals (folder t) i = Some r" using instr_record [OF k] .
  then have ty: "type_of (folder t) i = Inr (vty r)" by (simp add: type_of_def)
  have "denote nan X O_phi (vty r) (map (value_in (folder t) X) (ops_of (folder t) i)) = Some (env X i)"
    using denote_instr [OF sol table_okD(1) [OF ok] irs k _ ty] value_instr [OF k, of X] by (simp add: from_operands_def)
  then have "Some (env X i) \<in> set ?vs"
    using incoming_value_even unfolding denote_def by (fastforce simp: evens_of_map [symmetric])
  also have "?vs = map \<rho> ns" using numbers_ok_map [OF args] by simp
  finally have "Some (env X i) = \<rho> (hd ns)" using hd(2) by auto
  then show "\<rho> (fst (scan_incoming ns)) = value_in (folder t) X (Some i)" using value_instr [OF k, of X] hd(1) by simp
qed

text \<open>What numbering the values \<open>vs\<close> does to the table.\<close>

definition numbers :: "(f32 \<Rightarrow> f32 \<Rightarrow> f32) \<Rightarrow> 'z ir_scheme \<Rightarrow> 'a execution \<Rightarrow> vid option list \<Rightarrow> 'z value_table \<Rightarrow> nat list \<Rightarrow> 'z value_table \<Rightarrow> bool" where
  "numbers nan s X vs t ns t' \<longleftrightarrow> (const_ext s (folder t) \<longrightarrow> const_ext (folder t) (folder t') \<and>
     (\<forall>\<rho>. table_ok nan s X \<rho> t \<and> (\<forall>v\<in>set vs. known (folder t) v) \<and> no_neg_const (folder t') \<longrightarrow>
       (\<exists>\<rho>'. leads nan s X \<rho> t \<rho>' t' \<and> numbers_ok X \<rho>' t' ns vs)))"

lemma numbersI:
  assumes "const_ext s (folder t) \<Longrightarrow> const_ext (folder t) (folder t')"
    and "\<And>\<rho>. table_ok nan s X \<rho> t \<Longrightarrow> \<forall>v\<in>set vs. known (folder t) v \<Longrightarrow> no_neg_const (folder t') \<Longrightarrow>
      \<exists>\<rho>'. leads nan s X \<rho> t \<rho>' t' \<and> numbers_ok X \<rho>' t' ns vs"
  shows "numbers nan s X vs t ns t'"
  using assms by (simp add: numbers_def)

lemma numbers_if: "(const_ext s (folder t) \<Longrightarrow> numbers nan s X vs t ns t') \<Longrightarrow> numbers nan s X vs t ns t'"
  by (simp add: numbers_def)

lemma numbers_ext:
  assumes "numbers nan s X vs t ns t'" "const_ext s (folder t)"
  shows "const_ext (folder t) (folder t')" "const_ext s (folder t')"
  using assms const_ext_trans [OF assms(2)] by (auto simp: numbers_def)

lemma numbers_sound:
  assumes "numbers nan s X vs t ns t'" "table_ok nan s X \<rho> t" "\<forall>v\<in>set vs. known (folder t) v" "no_neg_const (folder t')"
  obtains \<rho>' where "leads nan s X \<rho> t \<rho>' t'" "numbers_ok X \<rho>' t' ns vs" "const_ext (folder t) (folder t')"
  using assms numbers_ext(1) [OF assms(1) table_okD(1) [OF assms(2)]] table_okD(1) [OF assms(2)] by (auto simp: numbers_def)

lemma numbers_same_folder:
  assumes "folder t' = folder t"
    and "\<And>\<rho>. table_ok nan s X \<rho> t \<Longrightarrow> \<forall>v\<in>set vs. known (folder t) v \<Longrightarrow>
      \<exists>\<rho>'. leads nan s X \<rho> t \<rho>' t' \<and> numbers_ok X \<rho>' t' ns vs"
  shows "numbers nan s X vs t ns t'"
proof (rule numbersI)
  show "const_ext (folder t) (folder t')" if "const_ext s (folder t)"
    unfolding assms(1) by (rule const_ext_refl [OF const_ext_obs(1,2) [OF that]])
qed (rule assms(2))

lemma numbers_append:
  assumes a: "numbers nan s X us t ns t1" and b: "numbers nan s X rest t1 ms t2"
  shows "numbers nan s X (us @ rest) t (ns @ ms) t2"
proof (rule numbersI)
  assume e: "const_ext s (folder t)"
  show "const_ext (folder t) (folder t2)"
    using const_ext_trans [OF numbers_ext(1) [OF a e] numbers_ext(1) [OF b numbers_ext(2) [OF a e]]] .
next
  fix \<rho> assume ok: "table_ok nan s X \<rho> t" and k: "\<forall>w\<in>set (us @ rest). known (folder t) w" and nn: "no_neg_const (folder t2)"
  have e1: "const_ext (folder t) (folder t1)" using numbers_ext(1) [OF a table_okD(1) [OF ok]] .
  have e2: "const_ext (folder t1) (folder t2)" using numbers_ext(1) [OF b const_ext_trans [OF table_okD(1) [OF ok] e1]] .
  obtain \<rho>1 where l1: "leads nan s X \<rho> t \<rho>1 t1" "numbers_ok X \<rho>1 t1 ns us"
    using numbers_sound [OF a ok _ no_neg_const_mono [OF e2 nn]] k by auto
  have "\<forall>w\<in>set rest. known (folder t1) w" using k known_mono [OF e1] by auto
  then obtain \<rho>2 where l2: "leads nan s X \<rho>1 t1 \<rho>2 t2" "numbers_ok X \<rho>2 t2 ms rest"
    using numbers_sound [OF b leads_table [OF l1(1)] _ nn] by blast
  have "numbers_ok X \<rho>2 t2 ns us" using numbers_ok_leads [OF l1(2) l2(1) e2] k known_mono [OF e1] by auto
  then show "\<exists>\<rho>'. leads nan s X \<rho> t \<rho>' t2 \<and> numbers_ok X \<rho>' t2 (ns @ ms) (us @ rest)"
    using leads_trans [OF l1(1) l2(1)] numbers_ok_append [OF _ l2(2), of ns us] by auto
qed

lemma numbers_Cons:
  assumes "numbers nan s X [v] t ns t1" "numbers nan s X rest t1 ms t2"
  shows "numbers nan s X (v # rest) t (ns @ ms) t2"
  using numbers_append [OF assms] by simp

lemma numbers_via:
  assumes a: "numbers nan s X us t ns t1" and k: "\<And>\<rho>. table_ok nan s X \<rho> t \<Longrightarrow> \<forall>v\<in>set us. known (folder t) v"
    and b: "numbers nan s X [] t1 [] t2"
    and c: "\<And>\<rho>. const_ext s (folder t1) \<Longrightarrow> table_ok nan s X \<rho> t2 \<Longrightarrow> numbers_ok X \<rho> t2 ns us \<Longrightarrow> \<forall>v\<in>set vs. known (folder t2) v \<Longrightarrow>
      \<exists>\<rho>'. leads nan s X \<rho> t2 \<rho>' t3 \<and> numbers_ok X \<rho>' t3 ms vs"
    and f: "folder t3 = folder t2"
  shows "numbers nan s X vs t ms t3"
proof (rule numbersI)
  assume e: "const_ext s (folder t)"
  show "const_ext (folder t) (folder t3)"
    using const_ext_trans [OF numbers_ext(1) [OF a e] numbers_ext(1) [OF b numbers_ext(2) [OF a e]]] f by simp
next
  fix \<rho> assume ok: "table_ok nan s X \<rho> t" and kv: "\<forall>w\<in>set vs. known (folder t) w" and nn: "no_neg_const (folder t3)"
  note e = table_okD(1) [OF ok]
  have e1: "const_ext (folder t) (folder t1)" "const_ext s (folder t1)" using numbers_ext [OF a e] by simp_all
  have e2: "const_ext (folder t1) (folder t2)" using numbers_ext(1) [OF b e1(2)] .
  have nn2: "no_neg_const (folder t2)" using nn f by simp
  obtain \<rho>1 where l1: "leads nan s X \<rho> t \<rho>1 t1" "numbers_ok X \<rho>1 t1 ns us"
    using numbers_sound [OF a ok k [OF ok] no_neg_const_mono [OF e2 nn2]] by blast
  obtain \<rho>2 where l2: "leads nan s X \<rho>1 t1 \<rho>2 t2" using numbers_sound [OF b leads_table [OF l1(1)] _ nn2] by auto
  have "\<forall>w\<in>set us. known (folder t1) w" using k [OF ok] known_mono [OF e1(1)] by blast
  then have "numbers_ok X \<rho>2 t2 ns us" by (rule numbers_ok_leads [OF l1(2) l2 e2])
  moreover have "\<forall>w\<in>set vs. known (folder t2) w" using kv known_mono [OF const_ext_trans [OF e1(1) e2]] by blast
  ultimately obtain \<rho>3 where "leads nan s X \<rho>2 t2 \<rho>3 t3" "numbers_ok X \<rho>3 t3 ms vs"
    using c [OF e1(2) leads_table [OF l2]] by blast
  then show "\<exists>\<rho>'. leads nan s X \<rho> t \<rho>' t3 \<and> numbers_ok X \<rho>' t3 ms vs"
    using leads_trans [OF l1(1) leads_trans [OF l2]] by blast
qed

lemma numbers_after:
  assumes a: "numbers nan s X us t ns t1" and k: "\<And>\<rho>. table_ok nan s X \<rho> t \<Longrightarrow> \<forall>v\<in>set us. known (folder t) v"
    and b: "numbers nan s X vs t1 ms t2"
  shows "numbers nan s X vs t ms t2"
proof (rule numbersI)
  assume e: "const_ext s (folder t)"
  show "const_ext (folder t) (folder t2)"
    using const_ext_trans [OF numbers_ext(1) [OF a e] numbers_ext(1) [OF b numbers_ext(2) [OF a e]]] .
next
  fix \<rho> assume ok: "table_ok nan s X \<rho> t" and kv: "\<forall>w\<in>set vs. known (folder t) w" and nn: "no_neg_const (folder t2)"
  note e = table_okD(1) [OF ok]
  have e1: "const_ext (folder t) (folder t1)" "const_ext s (folder t1)" using numbers_ext [OF a e] by simp_all
  have e2: "const_ext (folder t1) (folder t2)" using numbers_ext(1) [OF b e1(2)] .
  obtain \<rho>1 where l1: "leads nan s X \<rho> t \<rho>1 t1"
    using numbers_sound [OF a ok k [OF ok] no_neg_const_mono [OF e2 nn]] by blast
  have "\<forall>w\<in>set vs. known (folder t1) w" using kv known_mono [OF e1(1)] by blast
  then obtain \<rho>2 where "leads nan s X \<rho>1 t1 \<rho>2 t2" "numbers_ok X \<rho>2 t2 ms vs"
    using numbers_sound [OF b leads_table [OF l1] _ nn] by blast
  then show "\<exists>\<rho>'. leads nan s X \<rho> t \<rho>' t2 \<and> numbers_ok X \<rho>' t2 ms vs" using leads_trans [OF l1] by blast
qed

text \<open>The cases of an instruction.\<close>

lemma numbers_no_fold:
  assumes sol: "solves nan fi s X" and irs: "ir_ok s" and k: "kind_of (folder t) i = Some (K_instr p b)"
    and run: "tryFoldConst nan i t = Inr (None, t1)"
  shows "numbers nan s X [] t [] t1"
proof (rule numbersI)
  show "const_ext (folder t) (folder t1)" if "const_ext s (folder t)"
    using tryFoldConst_ext [OF run k const_ext_obs(1,2) [OF that]] .
  show "\<exists>\<rho>'. leads nan s X \<rho> t \<rho>' t1 \<and> numbers_ok X \<rho>' t1 [] []" if "table_ok nan s X \<rho> t" "no_neg_const (folder t1)" for \<rho>
    using tryFoldConst_ok [OF that(1) sol irs k run that(2)] by (auto simp: leads_def)
qed

lemma numbers_folded:
  assumes sol: "solves nan fi s X" and irs: "ir_ok s" and k: "kind_of (folder t) i = Some (K_instr p b)"
    and run: "tryFoldConst nan i t = Inr (Some c, t1)" and num: "numbers nan s X [Some c] t1 ns t2"
    and share: "share_number i (hd ns) t2 = Inr (ms, t3)"
  shows "numbers nan s X [Some i] t ms t3"
proof (rule numbersI)
  have f3: "folder t3 = folder t2" using share by (auto simp: share_number_def)
  show "const_ext (folder t) (folder t3)" if "const_ext s (folder t)"
  proof -
    have e1: "const_ext (folder t) (folder t1)" by (rule tryFoldConst_ext [OF run k const_ext_obs(1,2) [OF that]])
    show ?thesis using const_ext_trans [OF e1 numbers_ext(1) [OF num const_ext_trans [OF that e1]]] f3 by simp
  qed
  fix \<rho> assume ok: "table_ok nan s X \<rho> t" and nn: "no_neg_const (folder t3)"
  note io = const_ext_obs(1,2) [OF table_okD(1) [OF ok]]
  have e1: "const_ext (folder t) (folder t1)" by (rule tryFoldConst_ext [OF run k io])
  have e2: "const_ext (folder t1) (folder t2)" by (rule numbers_ext(1) [OF num const_ext_trans [OF table_okD(1) [OF ok] e1]])
  have nn2: "no_neg_const (folder t2)" using nn f3 by simp
  note f = tryFoldConst_ok [OF ok sol irs k run no_neg_const_mono [OF e2 nn2]]
  then have c: "known (folder t1) (Some c)" "value_in (folder t1) X (Some c) = value_in (folder t) X (Some i)"
    and l1: "leads nan s X \<rho> t \<rho> t1" by (simp_all add: leads_def)
  obtain \<rho>' where l2: "leads nan s X \<rho> t1 \<rho>' t2" "numbers_ok X \<rho>' t2 ns [Some c]"
    using numbers_sound [OF num leads_table [OF l1] _ nn2] c(1) by auto
  then obtain n where n: "ns = [n]" by (auto simp: numbers_ok_def list_all2_Cons2)
  have "value_in (folder t2) X (Some c) = value_in (folder t2) X (Some i)"
    using const_ext_value [OF e2 c(1), of X] c(2) const_ext_value [OF const_ext_trans [OF e1 e2], of "Some i" X] kind_of_dom [OF k] by simp
  moreover have "i \<in> dom (vals (folder t2))" using known_mono [OF const_ext_trans [OF e1 e2], of "Some i"] kind_of_dom [OF k] by simp
  ultimately have "leads nan s X \<rho>' t2 \<rho>' t3 \<and> numbers_ok X \<rho>' t3 ms [Some i]"
    using share_number_ok [OF leads_table [OF l2(1)] _ share] l2(2) n by simp
  then show "\<exists>\<rho>'. leads nan s X \<rho> t \<rho>' t3 \<and> numbers_ok X \<rho>' t3 ms [Some i]"
    using leads_trans [OF l1 leads_trans [OF l2(1)]] by blast
qed

lemma operands_known:
  assumes "table_ok nan s X \<rho> t" "ir_ok s"
  shows "\<forall>v\<in>set (ops_of s i). known (folder t) v"
  using operand_known [OF assms(2)] known_mono [OF table_okD(1) [OF assms(1)]] by blast

lemma numbers_expr:
  fixes X :: "'a execution"
  assumes sym: "symmetric nan X" and sol: "solves nan fi s X" and irs: "ir_ok s"
    and k: "kind_of s i = Some (K_instr p b)" and f: "from_operands fi s p i"
    and args: "numbers nan s X (ops_of s i) t args t2" and e: "create_expr i args t2 = Inr (e, t2)"
    and silent: "numbers nan s X [] t2 [] t3" and run: "number_expr i e t3 = Inr (ms, t4)"
  shows "numbers nan s X [Some i] t ms t4"
proof (rule numbers_via [OF args operands_known [OF _ irs] silent])
  show "folder t4 = folder t3" using run
    by (auto simp: number_expr_def bindM_Inr_iff assignExpNewValueNum_def share_number_def Let_def split: option.splits)
  fix \<rho> assume e2: "const_ext s (folder t2)" and ok: "table_ok nan s X \<rho> t3" and a: "numbers_ok X \<rho> t3 args (ops_of s i)"
    and kn: "\<forall>v\<in>set [Some i]. known (folder t3) v"
  note v = create_expr_value [OF sym sol irs ok k f a e e2]
  show "\<exists>\<rho>'. leads nan s X \<rho> t3 \<rho>' t4 \<and> numbers_ok X \<rho>' t4 ms [Some i]"
    using number_expr_ok [OF ok v(2) _ v(1) run] kn by simp
qed

lemma numbers_silent: "numbers nan s X [] t [] t"
  by (rule numbers_same_folder) (auto intro: leads_refl)

lemma numbers_other:
  assumes run: "number_fresh i t = Inr (ms, t')"
  shows "numbers nan s X [Some i] t ms t'"
proof (rule numbers_same_folder)
  show "folder t' = folder t" using run by (auto simp: number_fresh_def Let_def)
  show "\<exists>\<rho>'. leads nan s X \<rho> t \<rho>' t' \<and> numbers_ok X \<rho>' t' ms [Some i]"
    if "table_ok nan s X \<rho> t" "\<forall>v\<in>set [Some i]. known (folder t) v" for \<rho>
    using number_fresh_ok [OF that(1) _ run] that(2) by simp
qed

text \<open>A phi: the fresh number of the phi keeps its value while the incoming values are numbered.\<close>

lemma numbers_enter:
  assumes k: "kind_of s i = Some (K_instr O_phi b)" and run: "enter_phi i t = Inr (self, t1)"
  shows "numbers nan s X [Some i] t [self] t1"
proof (rule numbers_same_folder)
  show "folder t1 = folder t" using run by (auto simp: enter_phi_def Let_def)
  show "\<exists>\<rho>'. leads nan s X \<rho> t \<rho>' t1 \<and> numbers_ok X \<rho>' t1 [self] [Some i]" if "table_ok nan s X \<rho> t" for \<rho>
    using enter_phi_ok [OF that _ run] const_ext_instr [OF table_okD(1) [OF that]] k by blast
qed

lemma numbers_ok_Cons: "numbers_ok X \<rho> t (n # ns) (v # vs) \<longleftrightarrow>
    (0 < n \<and> n < next_value_number t \<and> \<rho> n = value_in (folder t) X v) \<and> numbers_ok X \<rho> t ns vs"
  by (simp add: numbers_ok_def)

lemma numbers_ok_append_iff:
  "length ns = length vs \<Longrightarrow> numbers_ok X \<rho> t (ns @ ms) (vs @ ws) \<longleftrightarrow> numbers_ok X \<rho> t ns vs \<and> numbers_ok X \<rho> t ms ws"
  by (simp add: numbers_ok_def list_all2_append)

lemma numbers_same_phi:
  fixes X :: "'a execution"
  assumes sol: "solves nan fi s X" and irs: "ir_ok s" and k: "kind_of s i = Some (K_instr O_phi b)"
    and run: "enter_phi i t = Inr (self, t1)" and num: "numbers nan s X (evens (ops_of s i)) t1 ns t2"
    and same: "snd (scan_incoming ns)" "ops_of s i \<noteq> []" and settle: "settle_phi i self (fst (scan_incoming ns)) t2 = Inr (ms, t3)"
  shows "numbers nan s X [Some i] t ms t3"
proof (rule numbers_via [OF numbers_Cons [OF numbers_enter [OF k run] num] _ numbers_silent])
  show "\<forall>v\<in>set (Some i # evens (ops_of s i)). known (folder t) v" if "table_ok nan s X \<rho> t" for \<rho>
    using operands_known [OF that irs, of i] set_evens [of "ops_of s i"] known_mono [OF table_okD(1) [OF that], of "Some i"] kind_of_dom [OF k]
    by auto
  show "folder t3 = folder t2" using settle by (auto simp: settle_phi_def)
  fix \<rho> assume ok: "table_ok nan s X \<rho> t2" and n: "numbers_ok X \<rho> t2 ([self] @ ns) (Some i # evens (ops_of s i))"
    and kn: "\<forall>v\<in>set [Some i]. known (folder t2) v"
  note e = table_okD(1) [OF ok]
  have "kind_of (folder t2) i = Some (K_instr O_phi b)" "ops_of (folder t2) i = ops_of s i"
    using const_ext_instr [OF e] k const_ext_ops [OF e] by simp_all
  then have v: "\<rho> (fst (scan_incoming ns)) = value_in (folder t2) X (Some i)" "0 < fst (scan_incoming ns)"
    "fst (scan_incoming ns) < next_value_number t2"
    using same_incoming_value [OF sol irs ok, of i b ns] n same by (simp_all add: numbers_ok_Cons)
  have d: "i \<in> dom (vals (folder t2))" using kn by simp
  show "\<exists>\<rho>'. leads nan s X \<rho> t2 \<rho>' t3 \<and> numbers_ok X \<rho>' t3 ms [Some i]"
    using settle_phi_ok [OF ok d settle v(2,3,1)] by blast
qed

lemma numbers_forget:
  assumes a: "numbers nan s X vs t ns t'" and k: "\<And>\<rho>. table_ok nan s X \<rho> t \<Longrightarrow> \<forall>v\<in>set vs. known (folder t) v"
  shows "numbers nan s X [] t [] t'"
proof (rule numbersI)
  show "const_ext (folder t) (folder t')" if "const_ext s (folder t)" by (rule numbers_ext(1) [OF a that])
  show "\<exists>\<rho>'. leads nan s X \<rho> t \<rho>' t' \<and> numbers_ok X \<rho>' t' [] []" if "table_ok nan s X \<rho> t" "no_neg_const (folder t')" for \<rho>
    using numbers_sound [OF a that(1) k [OF that(1)] that(2)] by auto
qed

lemma numbers_phi:
  fixes X :: "'a execution"
  assumes sol: "solves nan fi s X" and irs: "ir_ok s" and k: "kind_of s i = Some (K_instr O_phi b)"
    and run: "enter_phi i t = Inr (self, t1)" and num: "numbers nan s X (evens (ops_of s i)) t1 ns t2"
    and args: "numbers nan s X (ops_of s i) t2 args t3" and e: "create_phi_expr i args t3 = Inr (e, t3)"
    and reg: "register_phi i self e t3 = Inr (ms, t4)"
  shows "numbers nan s X [Some i] t ms t4"
proof -
  have kn: "\<forall>v\<in>set (ops_of s i). known (folder u) v" if "table_ok nan s X \<rho> u" for \<rho> u
    by (rule operands_known [OF that irs])
  have "numbers nan s X [] t1 [] t2" by (rule numbers_forget [OF num]) (use kn set_evens [of "ops_of s i"] in blast)
  note all = numbers_Cons [OF numbers_enter [OF k run] numbers_append [OF this args]]
  show ?thesis
  proof (rule numbers_via [OF all _ numbers_silent])
    show "\<forall>v\<in>set (Some i # [] @ ops_of s i). known (folder t) v" if "table_ok nan s X \<rho> t" for \<rho>
      using kn [OF that] known_mono [OF table_okD(1) [OF that], of "Some i"] kind_of_dom [OF k] by auto
    show "folder t4 = folder t3" using reg by (auto simp: register_phi_def settle_phi_def split: option.splits)
    fix \<rho> assume ok: "table_ok nan s X \<rho> t3" and n: "numbers_ok X \<rho> t3 ([self] @ [] @ args) (Some i # [] @ ops_of s i)"
      and ki: "\<forall>v\<in>set [Some i]. known (folder t3) v"
    note ex = table_okD(1) [OF ok]
    have kt: "kind_of (folder t3) i = Some (K_instr O_phi b)" "ops_of (folder t3) i = ops_of s i"
      using const_ext_instr [OF ex] k const_ext_ops [OF ex] by simp_all
    have self: "0 < self" "self < next_value_number t3" "\<rho> self = value_in (folder t3) X (Some i)"
      and rest: "numbers_ok X \<rho> t3 args (ops_of (folder t3) i)" using n by (simp_all add: numbers_ok_Cons kt)
    note v = create_phi_expr_value [OF sol irs ok kt(1) rest e]
    have d: "i \<in> dom (vals (folder t3))" using ki by simp
    show "\<exists>\<rho>'. leads nan s X \<rho> t3 \<rho>' t4 \<and> numbers_ok X \<rho>' t4 ms [Some i]"
      using register_phi_ok [OF ok v(2) d v(1) self reg] by blast
  qed
qed

text \<open>The instruction behind a step that folds nothing.\<close>

lemma numbered_instr:
  assumes e: "const_ext s (folder t)" and i: "table_instr t (Some i) = Some i"
  obtains p b where "kind_of s i = Some (K_instr p b)" "kind_of (folder t) i = Some (K_instr p b)" "ops_of (folder t) i = ops_of s i"
  using i const_ext_instr [OF e] const_ext_ops [OF e] by (auto simp: table_instr_iff)

lemma table_op_kind:
  assumes "table_op i t = Inr (p, t')" "kind_of s i = Some (K_instr q b)" "const_ext s (folder t)"
  shows "p = q"
proof -
  have "kind_of (folder t) i = Some (K_instr q b)" using const_ext_instr [OF assms(3)] assms(2) by simp
  then have "instr_op (folder t) i = Inr q" using instr_record by blast
  then show ?thesis using assms(1) by (auto simp: table_op_def readM_def)
qed

text \<open>\<open>lookupOrAdd\<close>: the table after the call is right, and gives the values the numbers it answers.\<close>

lemma number_all_numbers:
  fixes X :: "'a execution"
  assumes sym: "symmetric nan X" and sol: "solves nan fi s X" and irs: "ir_ok s"
    and run: "number_all nan fi vs t = Some (Inr (ns, t'))"
  shows "numbers nan s X vs t ns t'"
  using run
proof (induction rule: number_all_induct)
  case (Nil t)
  show ?case by (rule numbers_silent)
next
  case (Cons v rest t ns t1 ms t2)
  show ?case by (rule numbers_Cons [OF Cons.IH])
next
  case (Hit v t n)
  show ?case
  proof (rule numbers_same_folder [OF refl])
    show "\<exists>\<rho>'. leads nan s X \<rho> t \<rho>' t \<and> numbers_ok X \<rho>' t [n] [v]" if "table_ok nan s X \<rho> t" for \<rho>
      using table_okD(3) [OF that] Hit leads_refl [OF that] by (auto simp: values_ok_def)
  qed
next
  case (Leaf v t ns t1)
  show ?case
  proof (rule numbers_same_folder)
    show "folder t1 = folder t" using Leaf(3) by (auto simp: number_leaf_def Let_def)
    show "\<exists>\<rho>'. leads nan s X \<rho> t \<rho>' t1 \<and> numbers_ok X \<rho>' t1 ns [v]"
      if "table_ok nan s X \<rho> t" "\<forall>w\<in>set [v]. known (folder t) w" for \<rho>
      using number_leaf_ok [OF that(1) _ Leaf(3)] that(2) by simp
  qed
next
  case (Fold i t c t1 ns t2 ms t3)
  show ?case
  proof (rule numbers_if)
    assume e: "const_ext s (folder t)"
    obtain p b where k: "kind_of (folder t) i = Some (K_instr p b)" using numbered_instr [OF e Fold.hyps(1)] .
    show ?thesis by (rule numbers_folded [OF sol irs k Fold.hyps(2) Fold.IH Fold.hyps(3)])
  qed
next
  case (Other i t t1 ms t2)
  show ?case
  proof (rule numbers_if)
    assume e: "const_ext s (folder t)"
    obtain p b where k: "kind_of (folder t) i = Some (K_instr p b)" using numbered_instr [OF e Other.hyps(1)] .
    show ?thesis using numbers_after [OF numbers_no_fold [OF sol irs k Other.hyps(2)] _ numbers_other [OF Other.hyps(3)]] by simp
  qed
next
  case (Pure i t t1 args t2 e ms t3)
  show ?case
  proof (rule numbers_if)
    assume e: "const_ext s (folder t)"
    obtain p b where k: "kind_of s i = Some (K_instr p b)" "kind_of (folder t) i = Some (K_instr p b)"
      and o: "ops_of (folder t) i = ops_of s i" using numbered_instr [OF e Pure.hyps(1)] .
    note n = numbers_no_fold [OF sol irs k(2) Pure.hyps(2)]
    have e1: "const_ext s (folder t1)" by (rule numbers_ext(2) [OF n e])
    have p: "O_call = p" by (rule table_op_kind [OF Pure.hyps(3) k(1) e1])
    have "numbers nan s X [Some i] t1 ms t3"
      using numbers_expr [OF sym sol irs k(1) _ Pure.IH [unfolded o] Pure.hyps(5) numbers_silent Pure.hyps(6)]
        calls_pure_operands [OF Pure.hyps(4) e1 irs] p by simp
    then show ?thesis using numbers_after [OF n] by simp
  qed
next
  case (Late i t t1 p args t2 e c t3 ns t4 ms t5)
  show ?case
  proof (rule numbers_if)
    assume e: "const_ext s (folder t)"
    obtain q b where k: "kind_of s i = Some (K_instr q b)" "kind_of (folder t) i = Some (K_instr q b)"
      and o: "ops_of (folder t) i = ops_of s i" using numbered_instr [OF e Late.hyps(1)] .
    note n = numbers_no_fold [OF sol irs k(2) Late.hyps(2)]
    have e1: "const_ext s (folder t1)" by (rule numbers_ext(2) [OF n e])
    note a = Late.IH(1) [unfolded o]
    have k2: "kind_of (folder t2) i = Some (K_instr q b)" using const_ext_instr [OF numbers_ext(2) [OF a e1]] k(1) by simp
    have f: "numbers nan s X [Some i] t2 ms t5" by (rule numbers_folded [OF sol irs k2 Late.hyps(6) Late.IH(2) Late.hyps(7)])
    have "numbers nan s X [Some i] t1 ms t5" by (rule numbers_after [OF a operands_known [OF _ irs] f])
    then show ?thesis using numbers_after [OF n] by simp
  qed
next
  case (Expr i t t1 p args t2 e t3 ms t4)
  show ?case
  proof (rule numbers_if)
    assume e: "const_ext s (folder t)"
    obtain q b where k: "kind_of s i = Some (K_instr q b)" "kind_of (folder t) i = Some (K_instr q b)"
      and o: "ops_of (folder t) i = ops_of s i" using numbered_instr [OF e Expr.hyps(1)] .
    note n = numbers_no_fold [OF sol irs k(2) Expr.hyps(2)]
    have e1: "const_ext s (folder t1)" by (rule numbers_ext(2) [OF n e])
    have p: "p = q" by (rule table_op_kind [OF Expr.hyps(3) k(1) e1])
    note a = Expr.IH [unfolded o]
    have k2: "kind_of (folder t2) i = Some (K_instr q b)" using const_ext_instr [OF numbers_ext(2) [OF a e1]] k(1) by simp
    have "numbers nan s X [Some i] t1 ms t4"
      using numbers_expr [OF sym sol irs k(1) _ a Expr.hyps(5) numbers_no_fold [OF sol irs k2 Expr.hyps(6)] Expr.hyps(7)] Expr.hyps(4) p
      by (simp add: from_operands_def)
    then show ?thesis using numbers_after [OF n] by simp
  qed
next
  case (Same i t t1 self t2 incoming t3 ms t4)
  show ?case
  proof (rule numbers_if)
    assume e: "const_ext s (folder t)"
    obtain q b where k: "kind_of s i = Some (K_instr q b)" "kind_of (folder t) i = Some (K_instr q b)"
      and o: "ops_of (folder t) i = ops_of s i" using numbered_instr [OF e Same.hyps(1)] .
    note n = numbers_no_fold [OF sol irs k(2) Same.hyps(2)]
    have p: "O_phi = q" by (rule table_op_kind [OF Same.hyps(3) k(1) numbers_ext(2) [OF n e]])
    have "numbers nan s X [Some i] t1 ms t4"
      by (rule numbers_same_phi [OF sol irs k(1) [folded p] Same.hyps(4) Same.IH [unfolded o] Same.hyps(5) Same.hyps(6) [unfolded o] Same.hyps(7)])
    then show ?thesis using numbers_after [OF n] by simp
  qed
next
  case (Phi i t t1 self t2 incoming t3 args t4 e ms t5)
  show ?case
  proof (rule numbers_if)
    assume e: "const_ext s (folder t)"
    obtain q b where k: "kind_of s i = Some (K_instr q b)" "kind_of (folder t) i = Some (K_instr q b)"
      and o: "ops_of (folder t) i = ops_of s i" using numbered_instr [OF e Phi.hyps(1)] .
    note n = numbers_no_fold [OF sol irs k(2) Phi.hyps(2)]
    have p: "O_phi = q" by (rule table_op_kind [OF Phi.hyps(3) k(1) numbers_ext(2) [OF n e]])
    have "numbers nan s X [Some i] t1 ms t5"
      by (rule numbers_phi [OF sol irs k(1) [folded p] Phi.hyps(4) Phi.IH(1) [unfolded o] Phi.IH(2) [unfolded o] Phi.hyps(5) Phi.hyps(6)])
    then show ?thesis using numbers_after [OF n] by simp
  qed
qed

text \<open>C24. The canonical form of an expression (\<open>finalize_expression\<close>), with the operands in the order of their numbers and
  the predicate of a comparison exchanged with them, has the value of the expression, whatever the values of the
  numbers, on a machine that makes the same NaN of two operands in both orders.\<close>

theorem finalize_keeps_value:
  assumes "symmetric nan X" "finalize_expression e (opcode e) = Inr e'"
  shows "key_value nan X \<rho> (expr_key e') = key_value nan X \<rho> (expr_key e)"
  by (rule swapped_value [OF assms(1) finalize_cases [OF assms(2)]])


section \<open>An example\<close>

text \<open>Block 1 adds the arguments (5, 6) in both orders (7, 8) and branches to 2 or 3; both jump to block 4,
  which has a phi of the sums (13) and adds the first argument to the phi (14) and to the second sum (15).\<close>

definition gvn_demo :: ir where
  "gvn_demo = empty_ir\<lparr>vals :=
     [0 \<mapsto> \<lparr>vty = FunctionTy int32_ty [int32_ty, int32_ty], vname = ''f'', vuses = [], vops = [], vkind = K_func\<rparr>,
      1 \<mapsto> \<lparr>vty = LabelTy, vname = ''entry'', vuses = [], vops = [], vkind = K_block\<rparr>,
      2 \<mapsto> \<lparr>vty = LabelTy, vname = ''a'', vuses = [(10, 1), (13, 1)], vops = [], vkind = K_block\<rparr>,
      3 \<mapsto> \<lparr>vty = LabelTy, vname = ''b'', vuses = [(10, 2), (13, 3)], vops = [], vkind = K_block\<rparr>,
      4 \<mapsto> \<lparr>vty = LabelTy, vname = ''c'', vuses = [(11, 0), (12, 0)], vops = [], vkind = K_block\<rparr>,
      5 \<mapsto> \<lparr>vty = int32_ty, vname = ''x'', vuses = [(7, 0), (8, 1), (9, 1), (14, 1), (15, 1)], vops = [], vkind = K_arg 0 0\<rparr>,
      6 \<mapsto> \<lparr>vty = int32_ty, vname = ''y'', vuses = [(7, 1), (8, 0)], vops = [], vkind = K_arg 0 1\<rparr>,
      7 \<mapsto> \<lparr>vty = int32_ty, vname = '''', vuses = [(9, 0), (13, 0)], vops = [Some 5, Some 6], vkind = K_instr O_add (Some 1)\<rparr>,
      8 \<mapsto> \<lparr>vty = int32_ty, vname = '''', vuses = [(13, 2), (15, 0)], vops = [Some 6, Some 5], vkind = K_instr O_add (Some 1)\<rparr>,
      9 \<mapsto> \<lparr>vty = int1_ty, vname = '''', vuses = [(10, 0)], vops = [Some 7, Some 5], vkind = K_instr O_lt (Some 1)\<rparr>,
      10 \<mapsto> \<lparr>vty = VoidTy, vname = '''', vuses = [], vops = [Some 9, Some 2, Some 3], vkind = K_instr O_br (Some 1)\<rparr>,
      11 \<mapsto> \<lparr>vty = VoidTy, vname = '''', vuses = [], vops = [Some 4], vkind = K_instr O_br (Some 2)\<rparr>,
      12 \<mapsto> \<lparr>vty = VoidTy, vname = '''', vuses = [], vops = [Some 4], vkind = K_instr O_br (Some 3)\<rparr>,
      13 \<mapsto> \<lparr>vty = int32_ty, vname = '''', vuses = [(14, 0)], vops = [Some 7, Some 2, Some 8, Some 3], vkind = K_instr O_phi (Some 4)\<rparr>,
      14 \<mapsto> \<lparr>vty = int32_ty, vname = '''', vuses = [], vops = [Some 13, Some 5], vkind = K_instr O_add (Some 4)\<rparr>,
      15 \<mapsto> \<lparr>vty = int32_ty, vname = '''', vuses = [(16, 0)], vops = [Some 8, Some 5], vkind = K_instr O_add (Some 4)\<rparr>,
      16 \<mapsto> \<lparr>vty = VoidTy, vname = '''', vuses = [], vops = [Some 15], vkind = K_instr O_ret (Some 4)\<rparr>],
     bbs := [1 \<mapsto> \<lparr>pre_bbs = [], succ_bbs = [2, 3], instr_list = [7, 8, 9, 10], bparent = 0\<rparr>,
       2 \<mapsto> \<lparr>pre_bbs = [1], succ_bbs = [4], instr_list = [11], bparent = 0\<rparr>,
       3 \<mapsto> \<lparr>pre_bbs = [1], succ_bbs = [4], instr_list = [12], bparent = 0\<rparr>,
       4 \<mapsto> \<lparr>pre_bbs = [2, 3], succ_bbs = [], instr_list = [13, 14, 15, 16], bparent = 0\<rparr>],
     funcs := [0 \<mapsto> \<lparr>basic_blocks = [1, 2, 3, 4], arguments = [5, 6], seq_cnt = 0\<rparr>],
     next_id := 17, function_list := [0]\<rparr>"

definition gvn_demo_info :: func_info where
  "gvn_demo_info = \<lparr>fi_worklist = [], is_pure = [0 \<mapsto> True]\<rparr>"

text \<open>The execution with the arguments 2 and 3 that goes through block 2.\<close>

definition gvn_demo_run :: "nat execution" where
  "gvn_demo_run = \<lparr>env = (\<lambda>v. if v = 5 then VI 2 else if v = 6 then VI 3 else if v = 7 \<or> v = 8 \<or> v = 13 then VI 5
       else if v = 9 then VI 0 else if v = 14 \<or> v = 15 then VI 7 else VO v),
     taken = (\<lambda>L. Some (VO 2)), otherwise = (\<lambda>p ty xs. None)\<rparr>"

lemma gvn_demo_numbers:
  "map_option (map_sum id (\<lambda>(ns, t). (ns, next_id (folder t))))
    (number_all (\<lambda>x y. 0) gvn_demo_info [Some 7, Some 8, Some 13, Some 14, Some 15] (ValueTable_ctor gvn_demo)) =
    Some (Inr ([3, 3, 3, 5, 5], 17))"
  by code_simp

lemma gvn_demo_obs:
  "uses_of gvn_demo v = (if v = 2 then [(10, 1), (13, 1)] else if v = 3 then [(10, 2), (13, 3)] else if v = 4 then [(11, 0), (12, 0)]
     else if v = 5 then [(7, 0), (8, 1), (9, 1), (14, 1), (15, 1)] else if v = 6 then [(7, 1), (8, 0)] else if v = 7 then [(9, 0), (13, 0)]
     else if v = 8 then [(13, 2), (15, 0)] else if v = 9 then [(10, 0)] else if v = 13 then [(14, 0)] else if v = 15 then [(16, 0)] else [])"
  "ops_of gvn_demo u = (if u = 7 then [Some 5, Some 6] else if u = 8 then [Some 6, Some 5] else if u = 9 then [Some 7, Some 5]
     else if u = 10 then [Some 9, Some 2, Some 3] else if u = 11 then [Some 4] else if u = 12 then [Some 4]
     else if u = 13 then [Some 7, Some 2, Some 8, Some 3] else if u = 14 then [Some 13, Some 5] else if u = 15 then [Some 8, Some 5]
     else if u = 16 then [Some 15] else [])"
  "kind_of gvn_demo = [0 \<mapsto> K_func, 1 \<mapsto> K_block, 2 \<mapsto> K_block, 3 \<mapsto> K_block, 4 \<mapsto> K_block, 5 \<mapsto> K_arg 0 0, 6 \<mapsto> K_arg 0 1,
     7 \<mapsto> K_instr O_add (Some 1), 8 \<mapsto> K_instr O_add (Some 1), 9 \<mapsto> K_instr O_lt (Some 1), 10 \<mapsto> K_instr O_br (Some 1),
     11 \<mapsto> K_instr O_br (Some 2), 12 \<mapsto> K_instr O_br (Some 3), 13 \<mapsto> K_instr O_phi (Some 4), 14 \<mapsto> K_instr O_add (Some 4),
     15 \<mapsto> K_instr O_add (Some 4), 16 \<mapsto> K_instr O_ret (Some 4)]"
  "instrs gvn_demo b = (if b = 1 then [7, 8, 9, 10] else if b = 2 then [11] else if b = 3 then [12]
     else if b = 4 then [13, 14, 15, 16] else [])"
  "preds gvn_demo b = (if b = 2 \<or> b = 3 then [1] else if b = 4 then [2, 3] else [])"
  "succs gvn_demo b = (if b = 1 then [2, 3] else if b = 2 \<or> b = 3 then [4] else [])"
  "blocks gvn_demo f = (if f = 0 then [1, 2, 3, 4] else [])"
  "dom (vals gvn_demo) = {0, 1, 2, 3, 4, 5, 6, 7, 8, 9, 10, 11, 12, 13, 14, 15, 16}"
  "dom (bbs gvn_demo) = {1, 2, 3, 4}" "dom (funcs gvn_demo) = {0}" "next_id gvn_demo = 17"
  by (auto simp: gvn_demo_def empty_ir_def uses_of_def ops_of_def kind_of_def graph_defs fun_eq_iff)

lemma ir_ok_gvn_demo: "ir_ok gvn_demo"
proof -
  have "use_def_ok gvn_demo"
    by (rule use_def_okI) (auto simp: gvn_demo_obs operand_at_def nth_Cons' split: if_splits)
  moreover have "ids_ok gvn_demo" unfolding ids_ok_def gvn_demo_obs by simp
  moreover have "cfg_ok gvn_demo" by (auto simp: cfg_ok_def gvn_demo_obs)
  moreover have "placed_ok gvn_demo"
    by (simp add: placed_ok_def listed_ok_def gvn_demo_obs is_terminator_op_def)
  moreover have "blocks_ok gvn_demo"
    by (auto simp: blocks_ok_def gvn_demo_obs) (auto simp: gvn_demo_def)
  ultimately show ?thesis by (simp add: ir_ok_def)
qed

lemma consts_ok_gvn_demo: "consts_ok gvn_demo"
  by (auto simp: consts_ok_def gvn_demo_obs split: if_splits) (auto simp: gvn_demo_def empty_ir_def)

lemma gvn_demo_symmetric: "symmetric (\<lambda>x y. 0) gvn_demo_run"
  by (simp add: symmetric_def gvn_demo_run_def)

lemma gvn_demo_solves: "solves (\<lambda>x y. 0) fi gvn_demo gvn_demo_run"
  unfolding solves_def
proof (intro allI impI)
  fix i p b ty
  assume h: "kind_of gvn_demo i = Some (K_instr p b) \<and> type_of gvn_demo i = Inr ty \<and> from_operands fi gvn_demo p i"
  then have p: "is_structural p \<or> p = O_phi \<or> p = O_call" by (auto simp: from_operands_def)
  then have i: "i \<in> {7, 8, 9, 13, 14, 15}" using h by (auto simp: gvn_demo_obs is_structural_def split: if_splits)
  have pi: "p = (if i = 9 then O_lt else if i = 13 then O_phi else O_add)" using h i by (auto simp: gvn_demo_obs)
  show "env gvn_demo_run i \<noteq> VF neg_zero \<and> Some (env gvn_demo_run i) =
      denote (\<lambda>x y. 0) gvn_demo_run p ty (slot_values gvn_demo (env gvn_demo_run) i)"
    using i unfolding pi
    by (auto simp: slot_values_def gvn_demo_obs gvn_demo_run_def denote_def eval_def scalar_value_def alu_def alu_int_def truth_def)
qed

theorem finalize_keeps_value_witness:
  "key_value (\<lambda>x y. 0) gvn_demo_run (\<lambda>n. Some (VI (of_nat n))) (O_lt, [1, 2], int1_ty) =
   key_value (\<lambda>x y. 0) gvn_demo_run (\<lambda>n. Some (VI (of_nat n))) (O_gt, [2, 1], int1_ty)"
  using finalize_keeps_value [OF gvn_demo_symmetric, of "\<lparr>opcode = O_gt, var_args = [2, 1], expr_type = int1_ty, commutative = False\<rparr>"
      "\<lparr>opcode = O_lt, var_args = [1, 2], expr_type = int1_ty, commutative = True\<rparr>" "\<lambda>n. Some (VI (of_nat n))"]
  by (simp add: finalize_expression_def sort_commutative_def sort_predicate_def is_commutative_def is_cmp_instr_def is_cmp_def
      get_swapped_predicate_def expr_key_def)


end
