(* ===== verification/Spec2Isabelle.thy ===== *)
theory Spec2Isabelle
  imports TypeTable Naming IRPrinter Regalloc Liverange Immediates FrameLayout OpenBlocks
    DeadCode SimplifyPhi UnreachableBlockElim SplitCriticalEdges
    Dominance Grammar ASTPrinter ConstSemantics PhiPlacement Hoisting
    GlobalValueNumbering ValueNumbers
begin

text \<open>
  \<^bold>\<open>Cminusf: a compiler from a small C-like language to LoongArch64 assembly.\<close>

  \<^bold>\<open>The program.\<close> The parser (generated by flex and bison) makes a parse tree,
  \<open>src/common/ast.cpp\<close> turns it into a syntax tree, \<open>src/cminusfc/cminusf_builder.cpp\<close>
  walks the tree and builds a module of the light IR (\<open>src/lightir\<close>) through
  \<open>IRBuilder\<close>, the passes (\<open>src/passes\<close>) rewrite the module, and \<open>src/codegen\<close> prints
  assembly: \<open>CodeGen.cpp\<close> keeps every value in the frame; \<open>Liverange.cpp\<close> and
  \<open>Regalloc.cpp\<close> are the analysis and the linear scan for a register-based generator.

  \<^bold>\<open>How the code is translated.\<close> The objects of the light IR live in one store
  (record \<open>ir\<close> of \<open>Values\<close>): an address (\<open>vid\<close>) for every \<open>Value\<close>, the fields of the class
  hierarchy in a record whose \<open>vkind\<close> is the dynamic class. A member function is a
  computation in the monad \<open>sm\<close> of \<open>Prelude\<close>, a state transformer that may fail with an
  \<open>error\<close>: a failed \<open>assert\<close>, a null dereference, a dangling access, undefined
  behaviour. Records of later phases extend \<open>ir\<close> (\<open>irb\<close> adds the insert point, \<open>cb\<close> the
  visitor's context, \<open>cg\<close> the code generator's), so an operation of the IR runs unchanged
  inside each of them. \<open>unsigned\<close> and \<open>int\<close> that can wrap are 32-bit words.

  \<^bold>\<open>Theories.\<close>
  \<^item> \<open>Prelude\<close>: outcomes, the two monads, the Hoare-style closure rules (collection \<open>pres\<close>),
    \<open>std::to_string\<close>.
  \<^item> \<open>Types\<close>, \<open>TypeTable\<close> (\<open>lightir/Type.cpp\<close>, \<open>Module.cpp\<close>): the structural types, and the
    interning tables of \<open>Module\<close>; a pointer comparison of types is a comparison of values.
  \<^item> \<open>Values\<close> (\<open>Value.cpp\<close>, \<open>User.cpp\<close>): the store, operands and use lists. Invariant
    \<open>use_def_ok\<close>: the use list of a value names exactly the operand slots that hold it.
  \<^item> \<open>IRModule\<close>, \<open>Instructions\<close>, \<open>IRBuilder\<close> (\<open>Constant.cpp\<close>, \<open>GlobalVariable.cpp\<close>,
    \<open>Function.cpp\<close>, \<open>BasicBlock.cpp\<close>, \<open>Instruction.cpp\<close>, \<open>IRBuilder.hpp\<close>): every constructor
    and factory; \<open>ir_ok\<close> adds the consistency of the control-flow graph and the placement of
    instructions, and \<open>built\<close> is the inductive relation of the stores that the public
    interface can make.
  \<^item> \<open>Naming\<close>, \<open>IRPrinter\<close>: names of values and the textual form of the module.
  \<^item> \<open>Floats\<close>: the bits of \<open>float\<close>, rounding, decimal constants, \<open>std::stoi\<close> and \<open>std::stof\<close>.
  \<^item> \<open>ParseTree\<close>, \<open>Grammar\<close>, \<open>ASTPrinter\<close> (\<open>common/syntax_tree.c\<close>, \<open>common/ast.cpp\<close>, the rules of
    \<open>parser/syntax_analyzer.y\<close>): parse trees, their transformation into syntax trees and the debug
    printer; the grammar as an inductive relation between token strings and the trees the actions build.
  \<^item> \<open>AST\<close>, \<open>Scope\<close>, \<open>CminusfBuilder\<close>, \<open>OpenBlocks\<close>: syntax trees, the name scopes (locale
    \<open>scope_table\<close>, interpreted on the stack of maps), the whole visitor, and the proof that
    the modules it builds are well formed.
  \<^item> \<open>Liverange\<close>, \<open>Regalloc\<close>: liveness and live intervals; linear scan and its safety.
  \<^item> \<open>CodeGen\<close>, \<open>Immediates\<close>, \<open>FrameLayout\<close>: the stack code generator; its constant loading
    against an instruction-set interface (locale \<open>immediate_isa\<close>, interpreted on a decoder
    of the emitted text); the frame layout against a layout in unbounded arithmetic.

  \<^item> \<open>Worklist\<close>, \<open>Erasing\<close>, \<open>Inserting\<close>: the worklist loop with errors and its termination (locale
    \<open>worklist\<close>); what erasing instructions, redirecting uses and adding blocks and
    branches do to a consistent store.
  \<^item> \<open>FuncInfo\<close>, \<open>DeadCode\<close>, \<open>SimplifyPhi\<close>, \<open>UnreachableBlockElim\<close>, \<open>SplitCriticalEdges\<close>
    (\<open>src/passes\<close>): the passes, whole. The worklist passes interpret \<open>worklist\<close> on their own step. Where a pass iterates
    over a hash set, the order is a parameter, a permutation, and the theorems hold for
    every order.

  \<^item> \<open>Dominators\<close>, \<open>DomTree\<close>, \<open>Idom\<close>, \<open>Dominance\<close> (\<open>Dominators.cpp\<close>): the analysis and its depth-first
    search; paths, dominance and the forest of a parent map; the iteration for the immediate
    dominators and its termination; frontiers and children, against their definitions by paths.

  \<^item> \<open>Mem2Reg\<close>, \<open>PhiPlacement\<close> (\<open>Mem2Reg.cpp\<close>): the whole pass; where it puts phis, against the iterated
    dominance frontier of the stores (its worklist interprets \<open>worklist\<close>).
  \<^item> \<open>LoopInfo\<close>, \<open>Tarjan\<close>, \<open>LoopNest\<close> (\<open>LoopInfo.cpp\<close>): the control-flow graph, Tarjan's algorithm and the
    loops; the components against mutual reachability, by an invariant that follows the colours of the
    nodes; loops are entered at their header only, and \<open>get_innermost\<close> is innermost.
  \<^item> \<open>LoopInvHoist\<close>, \<open>TopoOrder\<close>, \<open>Hoisting\<close> (\<open>LoopInvHoist.cpp\<close>): the whole pass; the topological order;
    what is invariant, as an inductive predicate, and what hoisting from one loop does to the module.
  \<^item> \<open>ConstFolder\<close>, \<open>ConstPropagation\<close>, \<open>ConstSemantics\<close> (\<open>common/ConstFolder.cpp\<close>,
    \<open>ConstPropagation.cpp\<close>): folding against exact and machine arithmetic, the whole pass, and what a
    block does on a machine before and after it. The NaN that the host makes, calls and the
    operations the folder does not know are parameters.
  \<^item> \<open>ValueTable\<close>, \<open>GlobalValueNumbering\<close>, \<open>ValueNumbers\<close> (\<open>GlobalValueNumbering.cpp\<close>): the table of value
    numbers, whose \<open>lookupOrAdd\<close> is one partial function on lists of values, and the whole pass; the value of
    an expression over numbers, and what equal numbers say in an execution.

  \<^bold>\<open>Bounds and fuel.\<close> \<open>Liverange.traverse\<close> gets one unit of fuel per block and one more, the
  number of blocks that can still be marked as visited. Loops that need not end are
  \<open>partial_function (option)\<close>. The frame layout is exact as long as the frame ends below
  \<open>2\<^sup>3\<^sup>1 - 16\<close>; beyond it the 32-bit sums of the source wrap.

  \<^bold>\<open>Not modelled.\<close> The tables of the parser and the scanner (their generated code is not in the repository),
  logging, file output and the option handling of the driver, the input/output runtime
  (\<open>io.c\<close>); \<open>CodeGenRegister.cpp\<close> and \<open>GVN.cpp\<close>, which are unfinished in the source;
  the JSON text of the dump of the value numbers.
\<close>

end
